(* ===== verification/FnetPrelude.thy ===== *)
theory FnetPrelude
  imports Main "HOL-Library.Word"
begin

text \<open>
  What the component theories share: the names of Go's machine types, the little and big
  endian codecs of package \<^verbatim>\<open>encoding/binary\<close>, Go's \<^verbatim>\<open>copy\<close>, the 32-bit serial number
  comparison, and two generic interfaces as locales: a prefix codec (a header that decodes to
  what was encoded, whatever follows it) and a transition system with an invariant.
  An \<open>int\<close> of the source is 64 bits wide; a length or an index is a \<open>nat\<close> here, because no
  slice has more than \<open>2 ^ 63\<close> bytes.
\<close>

unbundle bit_operations_syntax

section \<open>Types and collections of facts\<close>

type_synonym byte = "8 word"
type_synonym bytes = "byte list"
type_synonym u16 = "16 word"
type_synonym u32 = "32 word"
type_synonym u64 = "64 word"

named_theorems codec_simps "rewrite rules for the byte codecs"

section \<open>Lists\<close>

text \<open>Go's \<^verbatim>\<open>copy(dst, src)\<close>: the first \<open>min (len dst) (len src)\<close> bytes of \<open>dst\<close> are replaced.\<close>

definition go_copy :: "'a list \<Rightarrow> 'a list \<Rightarrow> 'a list" where
  "go_copy dst src = take (length dst) src @ drop (length src) dst"

lemma length_go_copy [simp]: "length (go_copy dst src) = length dst"
  by (simp add: go_copy_def)

lemma go_copy_append [simp]: "length junk = length src \<Longrightarrow> go_copy (junk @ r) src = src @ r"
  by (simp add: go_copy_def)

lemma take_append_exact [simp]: "length xs = n \<Longrightarrow> take n (xs @ ys) = xs"
  by simp

lemma drop_append_exact [simp]: "length xs = n \<Longrightarrow> drop n (xs @ ys) = ys"
  by simp

lemma sum_list_map_drop_le: "sum_list (map f (drop n xs)) \<le> sum_list (map (f :: 'a \<Rightarrow> nat) xs)"
  by (metis append_take_drop_id le_add2 map_append sum_list_append)

section \<open>Byte codecs\<close>

text \<open>
  \<open>le_bytes n w\<close> is the first \<open>n\<close> bytes of \<open>w\<close>, least significant first, as
  \<^verbatim>\<open>binary.LittleEndian.PutUint16/32/64\<close> writes them, and \<open>le_word\<close> is
  \<^verbatim>\<open>Uint16/32/64\<close>; the big endian ones reverse the bytes.
\<close>

fun le_bytes :: "nat \<Rightarrow> 'a::len word \<Rightarrow> bytes" where
  "le_bytes 0 w = []"
| "le_bytes (Suc n) w = ucast w # le_bytes n (drop_bit 8 w)"

fun le_word :: "bytes \<Rightarrow> 'a::len word" where
  "le_word [] = 0"
| "le_word (b # bs) = ucast b OR push_bit 8 (le_word bs)"

definition be_bytes :: "nat \<Rightarrow> 'a::len word \<Rightarrow> bytes" where
  "be_bytes n w = rev (le_bytes n w)"

definition be_word :: "bytes \<Rightarrow> 'a::len word" where
  "be_word bs = le_word (rev bs)"

lemma length_le_bytes [simp]: "length (le_bytes n w) = n"
  by (induction n arbitrary: w) auto

lemma length_be_bytes [simp]: "length (be_bytes n w) = n"
  by (simp add: be_bytes_def)

lemma le_word_le_bytes: "le_word (le_bytes n w) = take_bit (8 * n) (w :: 'a::len word)"
proof (induction n arbitrary: w)
  case 0
  then show ?case by simp
next
  case (Suc n)
  show ?case
  proof (rule bit_word_eqI)
    fix k assume "k < LENGTH('a)"
    then show "bit (le_word (le_bytes (Suc n) w) :: 'a word) k = bit (take_bit (8 * Suc n) w) k"
      by (cases "k < 8") (auto simp: Suc.IH bit_simps)
  qed
qed

lemma le_roundtrip [codec_simps]:
  "LENGTH('a) \<le> 8 * n \<Longrightarrow> le_word (le_bytes n w) = (w :: 'a::len word)"
  by (simp add: le_word_le_bytes take_bit_word_eq_self)

lemma be_roundtrip [codec_simps]:
  "LENGTH('a) \<le> 8 * n \<Longrightarrow> be_word (be_bytes n w) = (w :: 'a::len word)"
  by (simp add: be_word_def be_bytes_def le_roundtrip)

lemma be_word_be_bytes: "be_word (be_bytes n w) = take_bit (8 * n) (w :: 'a::len word)"
  by (simp add: be_word_def be_bytes_def le_word_le_bytes)

lemma le_word_bit_high: "8 * length bs \<le> k \<Longrightarrow> \<not> bit (le_word bs :: 'a::len word) k"
proof (induction bs arbitrary: k)
  case (Cons b bs)
  then show ?case by (auto simp: bit_simps dest: bit_imp_le_length)
qed simp

lemma unat_le_word_bound: "unat (le_word bs :: 'a::len word) < 2 ^ (8 * length bs)"
proof -
  have "take_bit (8 * length bs) (le_word bs :: 'a word) = le_word bs"
  proof (rule bit_word_eqI)
    fix k assume "k < LENGTH('a)"
    then show "bit (take_bit (8 * length bs) (le_word bs :: 'a word)) k = bit (le_word bs :: 'a word) k"
      using le_word_bit_high [of bs k, where 'a = 'a]
      by (cases "8 * length bs \<le> k") (auto simp: bit_simps)
  qed
  then have "unat (take_bit (8 * length bs) (le_word bs :: 'a word)) = unat (le_word bs :: 'a word)"
    by simp
  then have "take_bit (8 * length bs) (unat (le_word bs :: 'a word)) = unat (le_word bs :: 'a word)"
    by (simp add: unsigned_take_bit_eq)
  then show ?thesis
    by (metis take_bit_nat_less_exp)
qed

lemma le_bytes_le_word:
  assumes "8 * length bs \<le> LENGTH('a)"
  shows "le_bytes (length bs) (le_word bs :: 'a::len word) = bs"
  using assms
proof (induction bs)
  case (Cons b bs)
  let ?w = "le_word bs :: 'a word"
  have "ucast (ucast b OR push_bit 8 ?w) = b"
    by (rule bit_word_eqI) (use Cons.prems in \<open>auto simp: bit_simps dest: bit_imp_le_length\<close>)
  moreover have "drop_bit 8 (ucast b OR push_bit 8 ?w) = ?w"
  proof (rule bit_word_eqI)
    fix k assume "k < LENGTH('a)"
    then show "bit (drop_bit 8 (ucast b OR push_bit 8 ?w)) k = bit ?w k"
      using le_word_bit_high [of bs k, where 'a = 'a] Cons.prems
      by (auto simp: bit_simps not_less dest: bit_imp_le_length)
  qed
  ultimately show ?case using Cons by simp
qed simp

lemma be_bytes_be_word:
  "8 * length bs \<le> LENGTH('a) \<Longrightarrow> be_bytes (length bs) (be_word bs :: 'a::len word) = bs"
  using le_bytes_le_word [of "rev bs", where 'a = 'a] by (simp add: be_bytes_def be_word_def)

text \<open>The fields of a header are read at fixed offsets.\<close>

definition sub_bytes :: "bytes \<Rightarrow> nat \<Rightarrow> nat \<Rightarrow> bytes" where
  "sub_bytes bs lo hi = take (hi - lo) (drop lo bs)"

lemma sub_bytes_append1 [codec_simps]:
  "length xs \<le> lo \<Longrightarrow> sub_bytes (xs @ ys) lo hi = sub_bytes ys (lo - length xs) (hi - length xs)"
  by (simp add: sub_bytes_def)

lemma sub_bytes_exact [codec_simps]:
  "length xs = hi \<Longrightarrow> sub_bytes (xs @ ys) 0 hi = xs"
  by (simp add: sub_bytes_def)

lemma sub_bytes_exact_end [codec_simps]:
  "length xs = hi \<Longrightarrow> sub_bytes xs 0 hi = xs"
  by (simp add: sub_bytes_def)

lemma sub_bytes_Cons [codec_simps]:
  "sub_bytes (x # xs) (Suc lo) (Suc hi) = sub_bytes xs lo hi"
  by (simp add: sub_bytes_def)

lemma length_sub_bytes [simp]: "hi \<le> length bs \<Longrightarrow> length (sub_bytes bs lo hi) = hi - lo"
  by (simp add: sub_bytes_def)

section \<open>Signed and serial numbers\<close>

text \<open>The wrap-around of Go's \<^verbatim>\<open>int32\<close>.\<close>

definition i32 :: "int \<Rightarrow> int" where
  "i32 x = (x + 2 ^ 31) mod 2 ^ 32 - 2 ^ 31"

lemma i32_small: "- (2 ^ 31) \<le> x \<Longrightarrow> x < 2 ^ 31 \<Longrightarrow> i32 x = x"
  by (simp add: i32_def)

text \<open>
  \<open>int32(later - earlier)\<close> on 32-bit counters: for two numbers less than \<open>2 ^ 31\<close> apart it is
  their distance, whatever the wrap-around.
\<close>

lemma sint_of_int_small:
  "- (2 ^ (LENGTH('a) - 1)) \<le> k \<Longrightarrow> k < 2 ^ (LENGTH('a) - 1) \<Longrightarrow> sint (word_of_int k :: 'a::len word) = k"
  by (simp add: signed_take_bit_int_eq_self sint_sbintrunc')

lemma serial_diff:
  assumes "\<bar>int m - int n\<bar> < 2 ^ 31"
  shows "sint ((b + of_nat m) - (b + of_nat n) :: u32) = int m - int n"
proof -
  have "(b + of_nat m) - (b + of_nat n) = (word_of_int (int m - int n) :: u32)"
    by simp
  moreover have "sint (word_of_int (int m - int n) :: u32) = int m - int n"
    by (rule sint_of_int_small) (use assms in auto)
  ultimately show ?thesis by simp
qed

section \<open>A codec that decodes what it encoded\<close>

text \<open>
  Every wire format of the program has this contract: what follows an encoded item does not
  disturb the decoding of the item, and the decoder leaves exactly what follows.
\<close>

fun decode_all :: "(bytes \<Rightarrow> ('a \<times> bytes) option) \<Rightarrow> nat \<Rightarrow> bytes \<Rightarrow> 'a list \<times> bytes" where
  "decode_all dec 0 bs = ([], bs)"
| "decode_all dec (Suc n) bs =
     (case dec bs of None \<Rightarrow> ([], bs)
      | Some (x, r) \<Rightarrow> let (xs, r') = decode_all dec n r in (x # xs, r'))"

locale prefix_codec =
  fixes ok :: "'a \<Rightarrow> bool"
    and enc :: "'a \<Rightarrow> bytes"
    and dec :: "bytes \<Rightarrow> ('a \<times> bytes) option"
  assumes dec_enc: "ok x \<Longrightarrow> dec (enc x @ r) = Some (x, r)"
begin

lemma decode_all_concat:
  assumes "list_all ok xs" and "dec r = None" and "length xs \<le> n"
  shows "decode_all dec n (concat (map enc xs) @ r) = (xs, r)"
  using assms
proof (induction xs arbitrary: n)
  case Nil
  then show ?case by (cases n) auto
next
  case (Cons x xs)
  then obtain m where "n = Suc m" by (cases n) auto
  with Cons show ?case by (simp add: dec_enc)
qed

lemma enc_inj: "ok x \<Longrightarrow> ok y \<Longrightarrow> enc x = enc y \<Longrightarrow> x = y"
  by (metis dec_enc option.inject prod.inject)

lemma enc_prefix_free: "ok x \<Longrightarrow> ok y \<Longrightarrow> enc x @ r = enc y @ r' \<Longrightarrow> x = y \<and> r = r'"
  by (metis dec_enc option.inject prod.inject)

end

section \<open>Transition systems and invariants\<close>

inductive reach :: "('s \<Rightarrow> bool) \<Rightarrow> ('s \<Rightarrow> 's \<Rightarrow> bool) \<Rightarrow> 's \<Rightarrow> bool" for init step where
  reach_init: "init s \<Longrightarrow> reach init step s"
| reach_step: "reach init step s \<Longrightarrow> step s t \<Longrightarrow> reach init step t"

locale inductive_invariant =
  fixes init :: "'s \<Rightarrow> bool" and step :: "'s \<Rightarrow> 's \<Rightarrow> bool" and inv :: "'s \<Rightarrow> bool"
  assumes inv_init: "init s \<Longrightarrow> inv s"
    and inv_step: "inv s \<Longrightarrow> step s t \<Longrightarrow> inv t"
begin

lemma reach_inv: "reach init step s \<Longrightarrow> inv s"
  by (induction rule: reach.induct) (auto intro: inv_init inv_step)

end

end
