(* ===== verification/Bytepool.thy ===== *)
theory Bytepool
  imports FnetPrelude
begin

text \<open>
  \<^verbatim>\<open>internal/bytepool/bytepool.go\<close>: byte buffers taken from a pool with one free list per
  power of two. A \<^verbatim>\<open>Buffer\<close> is its data, the capacity of the array behind it and the identity
  of that array; a \<^verbatim>\<open>nil\<close> slice is capacity 0. The pool keeps only array identities, as the
  source keeps only addresses, and the slice is rebuilt from the capacity of the class: the
  theorems show that this is the capacity the array was allocated with, that an array is never
  in the pool twice nor in the pool and in use, and that appending never outgrows the array.
  \<^verbatim>\<open>sync.Pool\<close> may forget what it holds at any time: every operation that takes from it has an
  argument \<open>hit\<close> that says whether the pool gives back an array it holds.
\<close>

section \<open>Size classes\<close>

definition minShift :: nat where "minShift = 9"
definition maxShift :: nat where "maxShift = 24"

text \<open>\<^verbatim>\<open>bits.Len\<close>: the number of bits of a number.\<close>

fun bits_Len :: "nat \<Rightarrow> nat" where
  "bits_Len n = (if n = 0 then 0 else Suc (bits_Len (n div 2)))"

declare bits_Len.simps [simp del]

text \<open>\<^verbatim>\<open>class\<close>: the size class needed to hold \<open>sz\<close> bytes.\<close>

definition size_class :: "int \<Rightarrow> nat" where
  "size_class sz = (if sz \<le> 2 ^ minShift then minShift else bits_Len (nat (sz - 1)))"

section \<open>Buffers and the pool\<close>

record buffer =
  bdata :: bytes
  bcap :: nat
  barr :: nat

text \<open>\<open>pools c\<close> is the free list of class \<open>c\<close>; \<open>arr_cap\<close> is the size each array was allocated with.\<close>

record pool =
  pools :: "nat \<Rightarrow> nat list"
  arr_cap :: "nat \<Rightarrow> nat"
  next_arr :: nat

definition nil_buffer :: buffer where
  "nil_buffer = \<lparr>bdata = [], bcap = 0, barr = 0\<rparr>"

definition make_buffer :: "nat \<Rightarrow> pool \<Rightarrow> buffer \<times> pool" where
  "make_buffer sz p =
     (\<lparr>bdata = [], bcap = sz, barr = next_arr p\<rparr>,
      p\<lparr>arr_cap := (arr_cap p)(next_arr p := sz), next_arr := Suc (next_arr p)\<rparr>)"

definition Get :: "bool \<Rightarrow> int \<Rightarrow> pool \<Rightarrow> buffer \<times> pool" where
  "Get hit sz p =
     (let c = size_class sz in
      if c > maxShift then make_buffer (nat sz) p
      else case pools p c of
             a # as \<Rightarrow>
               if hit then (\<lparr>bdata = [], bcap = 2 ^ c, barr = a\<rparr>, p\<lparr>pools := (pools p)(c := as)\<rparr>)
               else make_buffer (2 ^ c) p
           | [] \<Rightarrow> make_buffer (2 ^ c) p)"

definition Release :: "buffer \<Rightarrow> pool \<Rightarrow> buffer \<times> pool" where
  "Release b p =
     (let c = bcap b in
      if c < 2 ^ minShift \<or> c > 2 ^ maxShift \<or> c AND (c - 1) \<noteq> 0 then (nil_buffer, p)
      else let k = bits_Len c - 1 in
           (nil_buffer, p\<lparr>pools := (pools p)(k := barr b # pools p k)\<rparr>))"

definition Bytes :: "buffer \<Rightarrow> bytes" where "Bytes b = bdata b"
definition Len :: "buffer \<Rightarrow> nat" where "Len b = length (bdata b)"
definition Reset :: "buffer \<Rightarrow> buffer" where "Reset b = b\<lparr>bdata := []\<rparr>"

text \<open>\<^verbatim>\<open>b.data[:n]\<close> panics when \<open>n\<close> is beyond the capacity, \<^verbatim>\<open>b.data[n:]\<close> beyond the length (\<open>None\<close>);
  between the length and the capacity \<^verbatim>\<open>Truncate\<close> would expose stale bytes, given as \<open>stale\<close>.\<close>

definition Truncate :: "bytes \<Rightarrow> nat \<Rightarrow> buffer \<Rightarrow> buffer option" where
  "Truncate stale n b =
     (if n > bcap b then None else Some (b\<lparr>bdata := take n (bdata b @ stale)\<rparr>))"

definition Discard :: "nat \<Rightarrow> buffer \<Rightarrow> buffer option" where
  "Discard n b = (if n > length (bdata b) then None else Some (b\<lparr>bdata := drop n (bdata b)\<rparr>))"

definition grow :: "bool \<Rightarrow> nat \<Rightarrow> buffer \<Rightarrow> pool \<Rightarrow> buffer \<times> pool" where
  "grow hit n b p =
     (let sz = length (bdata b) + n;
          sz' = (if bcap b > 2 ^ maxShift then sz + sz div 4 else sz);
          (g, p1) = Get hit (int sz') p;
          nb = g\<lparr>bdata := bdata g @ bdata b\<rparr>;
          (_, p2) = Release b p1
      in (nb, p2))"

definition Write :: "bool \<Rightarrow> bytes \<Rightarrow> buffer \<Rightarrow> pool \<Rightarrow> buffer \<times> pool" where
  "Write hit s b p =
     (let (b1, p1) = (if bcap b - length (bdata b) < length s then grow hit (length s) b p else (b, p))
      in (b1\<lparr>bdata := bdata b1 @ s\<rparr>, p1))"

text \<open>\<^verbatim>\<open>Join\<close>: \<open>data\<close> is the read buffer, its first \<open>pending\<close> bytes left free for the leftover in \<open>b\<close>.\<close>

definition Join :: "bool \<Rightarrow> bytes \<Rightarrow> nat \<Rightarrow> buffer \<Rightarrow> pool \<Rightarrow> bytes \<times> buffer \<times> pool" where
  "Join hit data pending b p =
     (if pending > 0 then
        let (b', p') = Release b p in (go_copy data (bdata b), b', p')
      else if length (bdata b) > 0 then
        let (b', p') = Write hit data b p in (bdata b', b', p')
      else (data, b, p))"

definition Keep :: "bool \<Rightarrow> bytes \<Rightarrow> int \<Rightarrow> buffer \<Rightarrow> pool \<Rightarrow> (buffer \<times> pool) option" where
  "Keep hit data consumed b p =
     (let k = nat (min (max consumed 0) (int (length data))) in
      if k = length data then Some (Release b p)
      else if length (bdata b) > 0 then
        (if k > 0 then map_option (\<lambda>b'. (b', p)) (Discard k b) else Some (b, p))
      else Some (Write hit (drop k data) b p))"

section \<open>Arithmetic of the size classes\<close>

lemma bits_Len_0 [simp]: "bits_Len 0 = 0"
  by (simp add: bits_Len.simps)

lemma bits_Len_pos: "n > 0 \<Longrightarrow> bits_Len n = Suc (bits_Len (n div 2))"
  by (subst bits_Len.simps) simp

lemma bits_Len_upper: "n < 2 ^ bits_Len n"
proof (induction n rule: bits_Len.induct)
  case (1 n)
  show ?case
  proof (cases "n = 0")
    case False
    with 1 have "n div 2 < 2 ^ bits_Len (n div 2)" by simp
    then have "n < 2 * 2 ^ bits_Len (n div 2)" by linarith
    with False show ?thesis by (simp add: bits_Len_pos)
  qed simp
qed

lemma bits_Len_least: "n < 2 ^ k \<Longrightarrow> bits_Len n \<le> k"
proof (induction n arbitrary: k rule: bits_Len.induct)
  case (1 n)
  show ?case
  proof (cases "n = 0")
    case False
    then obtain j where j: "k = Suc j" using "1.prems" by (cases k) auto
    with "1.prems" have "n div 2 < 2 ^ j" by (simp add: div_less_iff_less_mult)
    with 1 False j show ?thesis by (simp add: bits_Len_pos)
  qed simp
qed

lemma bits_Len_power [simp]: "bits_Len (2 ^ k) = Suc k"
  by (induction k) (simp_all add: bits_Len_pos)

lemma bits_Len_lower: "n > 0 \<Longrightarrow> 2 ^ (bits_Len n - 1) \<le> n"
proof -
  assume "n > 0"
  then have "\<not> bits_Len n \<le> bits_Len n - 1" by (simp add: bits_Len_pos)
  then have "\<not> n < 2 ^ (bits_Len n - 1)" using bits_Len_least by blast
  then show ?thesis by simp
qed

lemma and_pred_double: "y > 0 \<Longrightarrow> (2 * y) AND (2 * y - 1) = 2 * (y AND (y - 1))" for y :: nat
proof -
  assume "y > 0"
  then have eq: "2 * y - 1 = Suc (2 * (y - 1))" by simp
  show ?thesis
    unfolding eq by (subst and_rec) simp
qed

text \<open>The test of \<^verbatim>\<open>Release\<close> for a power of two.\<close>

lemma and_pred_zero: "c > 0 \<Longrightarrow> c AND (c - 1) = 0 \<Longrightarrow> c = 2 ^ (bits_Len c - 1)" for c :: nat
proof (induction c rule: bits_Len.induct)
  case (1 c)
  show ?case
  proof (cases "even c")
    case True
    then obtain y where y: "c = 2 * y" by blast
    with "1.prems" have "y > 0" "y AND (y - 1) = 0"
      using and_pred_double [of y] by simp_all
    with 1 y have "y = 2 ^ (bits_Len y - 1)" by simp
    then have "2 * y = 2 * 2 ^ (bits_Len y - 1)" by simp
    with y \<open>y > 0\<close> show ?thesis by (simp add: bits_Len_pos)
  next
    case False
    then have "c AND (c - 1) = c - 1"
      by (subst and_rec) (auto elim!: oddE)
    with "1.prems" have "c = 1" by simp
    then show ?thesis by (simp add: bits_Len_pos)
  qed
qed

section \<open>Ownership of the arrays\<close>

text \<open>The arrays of the buffers in use; a \<^verbatim>\<open>nil\<close> buffer has none.\<close>

definition owned :: "buffer list \<Rightarrow> nat list" where
  "owned bs = map barr (filter (\<lambda>b. bcap b > 0) bs)"

definition pool_ok :: "pool \<Rightarrow> bool" where
  "pool_ok p \<longleftrightarrow>
     (\<forall>c. distinct (pools p c)) \<and>
     (\<forall>c d a. a \<in> set (pools p c) \<longrightarrow> a \<in> set (pools p d) \<longrightarrow> c = d) \<and>
     (\<forall>c a. a \<in> set (pools p c) \<longrightarrow> a < next_arr p \<and> arr_cap p a = 2 ^ c)"

definition buffer_ok :: "pool \<Rightarrow> buffer \<Rightarrow> bool" where
  "buffer_ok p b \<longleftrightarrow>
     length (bdata b) \<le> bcap b \<and>
     (bcap b > 0 \<longrightarrow> barr b < next_arr p \<and> arr_cap p (barr b) = bcap b)"

definition heap_ok :: "pool \<Rightarrow> buffer list \<Rightarrow> bool" where
  "heap_ok p live \<longleftrightarrow>
     pool_ok p \<and> (\<forall>b \<in> set live. buffer_ok p b) \<and> distinct (owned live) \<and>
     (\<forall>a \<in> set (owned live). \<forall>c. a \<notin> set (pools p c))"

lemmas heap_defs = heap_ok_def pool_ok_def buffer_ok_def owned_def

lemma owned_simps [simp]:
  "owned [] = []"
  "owned (b # bs) = (if bcap b > 0 then barr b # owned bs else owned bs)"
  by (simp_all add: owned_def)

lemma heap_ok_owned_less: "heap_ok p live \<Longrightarrow> a \<in> set (owned live) \<Longrightarrow> a < next_arr p"
  by (auto simp: heap_defs)

lemma heap_ok_pooled_less: "heap_ok p live \<Longrightarrow> a \<in> set (pools p c) \<Longrightarrow> a < next_arr p"
  by (auto simp: heap_defs)

lemma heap_ok_swap: "heap_ok p (a # b # live) \<Longrightarrow> heap_ok p (b # a # live)"
  by (auto simp: heap_ok_def)

text \<open>Changing the data within the capacity keeps the invariant.\<close>

lemma heap_ok_bdata:
  "heap_ok p (b # live) \<Longrightarrow> length d \<le> bcap b \<Longrightarrow> heap_ok p (b\<lparr>bdata := d\<rparr> # live)"
  by (auto simp: heap_ok_def buffer_ok_def)

lemma heap_ok_make:
  assumes "heap_ok p live" and "make_buffer sz p = (b, p')"
  shows "heap_ok p' (b # live)"
proof -
  have b: "bdata b = []" "bcap b = sz" "barr b = next_arr p"
    and p': "pools p' = pools p" "arr_cap p' = (arr_cap p)(next_arr p := sz)" "next_arr p' = Suc (next_arr p)"
    using assms(2) by (auto simp: make_buffer_def)
  have ne: "a \<noteq> next_arr p" if "a \<in> set (owned live)" for a
    using heap_ok_owned_less [OF assms(1) that] by simp
  have "pool_ok p'"
    using assms(1) heap_ok_pooled_less [OF assms(1)]
    by (fastforce simp: heap_ok_def pool_ok_def p' intro: less_SucI)
  moreover have "buffer_ok p' x" if "x \<in> set live" for x
    using assms(1) that by (auto simp: heap_ok_def buffer_ok_def p' less_SucI)
  moreover have "buffer_ok p' b" by (simp add: buffer_ok_def b p')
  moreover have "distinct (owned (b # live))" using assms(1) ne by (auto simp: heap_ok_def b)
  moreover have "a \<notin> set (pools p' c)" if "a \<in> set (owned (b # live))" for a c
    using that assms(1) heap_ok_pooled_less [OF assms(1), of a c]
    by (auto simp: heap_ok_def b p' split: if_splits)
  ultimately show ?thesis by (auto simp: heap_ok_def)
qed

lemma heap_ok_take:
  assumes "heap_ok p live" and "pools p c = a # as"
  shows "heap_ok (p\<lparr>pools := (pools p)(c := as)\<rparr>) (\<lparr>bdata = [], bcap = 2 ^ c, barr = a\<rparr> # live)"
proof -
  let ?p = "p\<lparr>pools := (pools p)(c := as)\<rparr>"
  have a: "a \<in> set (pools p c)" "a \<notin> set as" using assms by (auto simp: heap_ok_def pool_ok_def dest: spec [of _ c])
  have sub: "set (pools ?p d) \<subseteq> set (pools p d)" for d using assms(2) by auto
  have na: "a \<notin> set (pools ?p d)" for d
    using assms a by (cases "d = c") (auto simp: heap_ok_def pool_ok_def)
  have "pool_ok ?p"
    using assms by (auto simp: heap_ok_def pool_ok_def dest: spec [of _ c])
  moreover have no: "a \<notin> set (owned live)" using assms(1) a by (auto simp: heap_ok_def)
  moreover have "buffer_ok ?p x" if "x \<in> set live" for x
    using assms(1) that by (simp add: heap_ok_def buffer_ok_def)
  moreover have "a < next_arr p" "arr_cap p a = 2 ^ c"
    using assms(1) a(1) by (simp_all add: heap_ok_def pool_ok_def)
  moreover have "x \<notin> set (pools ?p d)" if "x \<in> set (owned live)" for x d
    using assms(1) that sub [of d] by (auto simp: heap_ok_def)
  moreover have "distinct (owned live)" using assms(1) by (simp add: heap_ok_def)
  ultimately show ?thesis
    using na by (simp add: heap_ok_def buffer_ok_def)
qed

lemma heap_ok_put:
  assumes "heap_ok p (b # live)" and "bcap b = 2 ^ k"
  shows "heap_ok (p\<lparr>pools := (pools p)(k := barr b # pools p k)\<rparr>) live"
proof -
  have "barr b \<notin> set (pools p c)" for c using assms by (auto simp: heap_ok_def)
  then show ?thesis
    using assms by (auto simp: heap_ok_def pool_ok_def buffer_ok_def)
qed

lemma heap_ok_drop: "heap_ok p (b # live) \<Longrightarrow> heap_ok p live"
  by (auto simp: heap_ok_def split: if_splits)

lemma heap_ok_nil: "heap_ok p live \<Longrightarrow> heap_ok p (nil_buffer # live)"
  by (auto simp: heap_ok_def buffer_ok_def nil_buffer_def)

section \<open>What the operations do\<close>

lemma size_class_bound:
  assumes "size_class sz \<le> maxShift"
  shows "sz \<le> 2 ^ size_class sz"
proof (cases "sz \<le> 2 ^ minShift")
  case False
  then have "nat (sz - 1) < 2 ^ bits_Len (nat (sz - 1))" by (intro bits_Len_upper)
  then have "sz - 1 < 2 ^ bits_Len (nat (sz - 1))"
    using False by (simp add: nat_less_iff)
  with False show ?thesis by (simp add: size_class_def)
qed (simp add: size_class_def)

lemma size_class_large: "size_class sz > maxShift \<Longrightarrow> sz > 2 ^ maxShift"
proof (rule ccontr)
  assume big: "size_class sz > maxShift" and "\<not> sz > 2 ^ maxShift"
  then have "nat (sz - 1) < 2 ^ maxShift" by (simp add: nat_less_iff)
  then have "bits_Len (nat (sz - 1)) \<le> maxShift" by (rule bits_Len_least)
  with big show False by (auto simp: size_class_def minShift_def maxShift_def split: if_splits)
qed

lemma Get_spec:
  assumes "heap_ok p live" and "Get hit sz p = (b, p')"
  shows "heap_ok p' (b # live)" and "bdata b = []" and "sz \<le> int (bcap b)" and "bcap b > 0"
proof -
  show "heap_ok p' (b # live)"
    using assms by (auto simp: Get_def Let_def split: if_splits list.splits
        intro: heap_ok_make heap_ok_take)
  show "bdata b = []" "sz \<le> int (bcap b)" "bcap b > 0"
    using assms(2) size_class_bound [of sz] size_class_large [of sz]
    by (auto simp: Get_def make_buffer_def Let_def maxShift_def split: if_splits list.splits)
qed

lemma Release_spec:
  assumes "heap_ok p (b # live)"
  shows "heap_ok (snd (Release b p)) live" and "fst (Release b p) = nil_buffer"
proof -
  show "fst (Release b p) = nil_buffer" by (simp add: Release_def Let_def)
  show "heap_ok (snd (Release b p)) live"
  proof (cases "bcap b < 2 ^ minShift \<or> bcap b > 2 ^ maxShift \<or> bcap b AND (bcap b - 1) \<noteq> 0")
    case True
    with assms show ?thesis by (auto simp: Release_def Let_def intro: heap_ok_drop)
  next
    case False
    then have "bcap b > 0" by (cases "bcap b") auto
    with False have "bcap b = 2 ^ (bits_Len (bcap b) - 1)" using and_pred_zero by blast
    with assms False show ?thesis by (simp add: Release_def Let_def heap_ok_put)
  qed
qed

lemma grow_spec:
  assumes "heap_ok p (b # live)" and "grow hit n b p = (b', p')"
  shows "heap_ok p' (b' # live)" and "bdata b' = bdata b" and "length (bdata b) + n \<le> bcap b'"
proof -
  define sz where "sz = (if bcap b > 2 ^ maxShift then length (bdata b) + n + (length (bdata b) + n) div 4
    else length (bdata b) + n)"
  obtain g p1 where g: "Get hit (int sz) p = (g, p1)" by fastforce
  have b': "b' = g\<lparr>bdata := bdata g @ bdata b\<rparr>" and p': "p' = snd (Release b p1)"
    using assms(2) g by (auto simp: grow_def Let_def sz_def case_prod_beta split: if_splits)
  note G = Get_spec [OF assms(1) g]
  have le: "length (bdata b) + n \<le> bcap g" using G(3) by (auto simp: sz_def split: if_splits)
  have "heap_ok p1 (b # g # live)" using G(1) by (rule heap_ok_swap)
  then have "heap_ok p' (g # live)" unfolding p' by (rule Release_spec)
  then show "heap_ok p' (b' # live)" unfolding b' using G(2) le by (intro heap_ok_bdata) auto
  show "bdata b' = bdata b" "length (bdata b) + n \<le> bcap b'" using G(2) le by (simp_all add: b')
qed

lemma Write_bdata: "bdata (fst (Write hit s b p)) = bdata b @ s"
  by (auto simp: Write_def grow_def Get_def make_buffer_def Let_def split: prod.splits list.splits if_splits)

lemma Write_heap_ok:
  assumes "heap_ok p (b # live)" and "Write hit s b p = (b', p')"
  shows "heap_ok p' (b' # live)"
proof (cases "bcap b - length (bdata b) < length s")
  case True
  obtain g p1 where g: "grow hit (length s) b p = (g, p1)" by fastforce
  with True assms(2) have "b' = g\<lparr>bdata := bdata g @ s\<rparr>" "p' = p1" by (auto simp: Write_def)
  with grow_spec [OF assms(1) g] show ?thesis by (auto intro!: heap_ok_bdata)
next
  case False
  with assms(2) have "b' = b\<lparr>bdata := bdata b @ s\<rparr>" "p' = p" by (auto simp: Write_def)
  moreover have "length (bdata b) \<le> bcap b" using assms(1) by (simp add: heap_ok_def buffer_ok_def)
  ultimately show ?thesis using assms(1) False by (auto intro!: heap_ok_bdata)
qed

section \<open>The buffer as the other components see it\<close>

text \<open>
  The packages above the pool use a buffer as a byte sequence: what they append is what they
  find, in order. This is the contract they rely on, whatever the pool does underneath.
\<close>

locale append_buffer =
  fixes contents :: "'b \<Rightarrow> bytes"
    and put :: "bool \<Rightarrow> bytes \<Rightarrow> 'b \<Rightarrow> 'h \<Rightarrow> 'b \<times> 'h"
    and release :: "'b \<Rightarrow> 'h \<Rightarrow> 'b \<times> 'h"
  assumes contents_put: "contents (fst (put hit s b h)) = contents b @ s"
    and contents_release: "contents (fst (release b h)) = []"
begin

fun put_all :: "bool \<Rightarrow> bytes list \<Rightarrow> 'b \<Rightarrow> 'h \<Rightarrow> 'b \<times> 'h" where
  "put_all hit [] b h = (b, h)"
| "put_all hit (s # ss) b h = (case put hit s b h of (b', h') \<Rightarrow> put_all hit ss b' h')"

lemma contents_put_all: "contents (fst (put_all hit ss b h)) = contents b @ concat ss"
proof (induction ss arbitrary: b h)
  case (Cons s ss)
  obtain b' h' where "put hit s b h = (b', h')" by fastforce
  then show ?case using Cons contents_put [of hit s b h] by simp
qed simp

lemma put_after_release: "contents (fst (put hit s (fst (release b h)) h')) = s"
  by (simp add: contents_put contents_release)

end

interpretation bp: append_buffer Bytes Write Release
  by unfold_locales (simp_all add: Bytes_def Write_bdata, simp add: Release_def nil_buffer_def Let_def)

section \<open>The life of the buffers\<close>

text \<open>
  The state is the pool and the buffers in use. A step is one call of an operation on one of
  them, the buffers in use being permuted freely; the other operations only change the data.
\<close>

inductive pool_step :: "pool \<times> buffer list \<Rightarrow> pool \<times> buffer list \<Rightarrow> bool" where
  zero: "pool_step (p, live) (p, nil_buffer # live)"
| swap: "pool_step (p, xs @ b # ys) (p, b # xs @ ys)"
| get: "Get hit sz p = (b, p') \<Longrightarrow> pool_step (p, live) (p', b # live)"
| release: "Release b p = (b', p') \<Longrightarrow> pool_step (p, b # live) (p', b' # live)"
| append: "Write hit s b p = (b', p') \<Longrightarrow> pool_step (p, b # live) (p', b' # live)"
| reset: "pool_step (p, b # live) (p, Reset b # live)"
| discard: "Discard n b = Some b' \<Longrightarrow> pool_step (p, b # live) (p, b' # live)"
| truncate: "n \<le> length (bdata b) \<Longrightarrow> Truncate stale n b = Some b' \<Longrightarrow> pool_step (p, b # live) (p, b' # live)"

definition pool_start :: "pool \<times> buffer list \<Rightarrow> bool" where
  "pool_start s \<longleftrightarrow> (\<forall>c. pools (fst s) c = []) \<and> snd s = []"

lemma heap_ok_mset: "heap_ok p xs \<Longrightarrow> set ys = set xs \<Longrightarrow> distinct (owned ys) \<Longrightarrow> heap_ok p ys"
  by (auto simp: heap_ok_def owned_def)

lemma distinct_owned_swap: "distinct (owned (xs @ b # ys)) \<Longrightarrow> distinct (owned (b # xs @ ys))"
  by (auto simp: owned_def)

lemma pool_step_heap_ok: "pool_step s t \<Longrightarrow> heap_ok (fst s) (snd s) \<Longrightarrow> heap_ok (fst t) (snd t)"
proof (induction rule: pool_step.induct)
  case (swap p xs b ys)
  then have "distinct (owned (b # xs @ ys))"
    using distinct_owned_swap [of xs b ys] by (simp add: heap_ok_def del: owned_simps)
  with swap show ?case by (auto intro: heap_ok_mset simp del: owned_simps)
next
  case (release b p b' p' live)
  then show ?case using Release_spec [of p b live] by (auto intro: heap_ok_nil)
next
  case (append hit s b p b' p' live)
  then show ?case by (auto intro: Write_heap_ok)
next
  case (reset p b live)
  then show ?case by (auto simp: Reset_def intro: heap_ok_bdata)
next
  case (discard n b b' p live)
  then show ?case by (auto simp: Discard_def heap_ok_def buffer_ok_def split: if_splits)
next
  case (truncate n b stale b' p live)
  then show ?case by (auto simp: Truncate_def heap_ok_def buffer_ok_def split: if_splits)
qed (auto intro: heap_ok_nil Get_spec)

interpretation pool_inv: inductive_invariant pool_start pool_step "\<lambda>s. heap_ok (fst s) (snd s)"
proof unfold_locales
  fix s :: "pool \<times> buffer list"
  assume "pool_start s"
  then show "heap_ok (fst s) (snd s)" by (simp add: pool_start_def heap_ok_def pool_ok_def)
next
  fix s t :: "pool \<times> buffer list"
  assume "heap_ok (fst s) (snd s)" and "pool_step s t"
  then show "heap_ok (fst t) (snd t)" by (rule pool_step_heap_ok [rotated])
qed

lemma Get_cap: "Get hit sz p = (b, p') \<Longrightarrow> sz \<le> int (bcap b) \<and> bcap b > 0 \<and> bdata b = []"
  using size_class_bound [of sz] size_class_large [of sz]
  by (auto simp: Get_def make_buffer_def Let_def maxShift_def split: if_splits list.splits)

lemma Write_cap_within:
  assumes "length (bdata b) \<le> bcap b"
  shows "length (bdata (fst (Write hit s b p))) \<le> bcap (fst (Write hit s b p))"
proof (cases "bcap b - length (bdata b) < length s")
  case True
  define sz where "sz = (if bcap b > 2 ^ maxShift then length (bdata b) + length s + (length (bdata b) + length s) div 4
    else length (bdata b) + length s)"
  obtain g p1 where g: "Get hit (int sz) p = (g, p1)" by fastforce
  then have "bcap (fst (Write hit s b p)) = bcap g"
    using True by (simp add: Write_def grow_def Let_def sz_def case_prod_beta)
  moreover have "length (bdata b) + length s \<le> sz" by (simp add: sz_def)
  ultimately show ?thesis using Get_cap [OF g] by (simp add: Write_bdata)
next
  case False
  with assms show ?thesis by (simp add: Write_def)
qed

lemma Discard_some: "n \<le> length (bdata b) \<Longrightarrow> Discard n b = Some (b\<lparr>bdata := drop n (bdata b)\<rparr>)"
  by (simp add: Discard_def)

section \<open>Properties\<close>

text \<open>
  C1. In every state reached by any sequence of buffer operations, an array is never in the pool
  twice (neither in one free list nor in two), never both in the pool and behind a buffer in use,
  and never behind two buffers in use; and an array in the free list of class \<open>c\<close> was allocated
  with exactly \<open>2 ^ c\<close> bytes, so the slice \<^verbatim>\<open>Get\<close> rebuilds from the address stays inside it.
\<close>

theorem pool_arrays_exclusive:
  assumes "reach pool_start pool_step (p, live)"
  shows "distinct (owned live) \<and>
    (\<forall>a \<in> set (owned live). \<forall>c. a \<notin> set (pools p c)) \<and>
    (\<forall>c. distinct (pools p c)) \<and>
    (\<forall>c d a. a \<in> set (pools p c) \<longrightarrow> a \<in> set (pools p d) \<longrightarrow> c = d) \<and>
    (\<forall>c a. a \<in> set (pools p c) \<longrightarrow> arr_cap p a = 2 ^ c) \<and>
    (\<forall>b \<in> set live. length (bdata b) \<le> bcap b \<and> (bcap b > 0 \<longrightarrow> arr_cap p (barr b) = bcap b))"
  using pool_inv.reach_inv [OF assms] by (auto simp: heap_ok_def pool_ok_def buffer_ok_def)

text \<open>A run for the witness: a buffer is taken, returned, and taken again from the pool.\<close>

definition pool0 :: pool where
  "pool0 = \<lparr>pools = (\<lambda>_. []), arr_cap = (\<lambda>_. 0), next_arr = 0\<rparr>"

definition pool1 :: pool where "pool1 = snd (Get True 100 pool0)"
definition buffer1 :: buffer where "buffer1 = fst (Get True 100 pool0)"

lemma pool1_reach: "reach pool_start pool_step (pool1, [buffer1])"
proof -
  have "reach pool_start pool_step (pool0, [])"
    by (rule reach_init) (simp add: pool_start_def pool0_def)
  moreover have "pool_step (pool0, []) (pool1, [buffer1])"
    by (rule pool_step.get [where hit = True and sz = 100]) (simp add: pool1_def buffer1_def)
  ultimately show ?thesis by (rule reach_step)
qed

theorem pool_arrays_exclusive_witness:
  "owned [buffer1] = [0] \<and> (\<forall>c. 0 \<notin> set (pools pool1 c)) \<and> arr_cap pool1 (barr buffer1) = 512"
proof -
  have "owned [buffer1] = [0]" and "bcap buffer1 = 512"
    by (simp_all add: buffer1_def pool0_def Get_def size_class_def minShift_def maxShift_def make_buffer_def)
  with pool_arrays_exclusive [OF pool1_reach] show ?thesis by simp
qed

text \<open>
  \<^verbatim>\<open>Get(size)\<close> always gives an empty buffer with room for \<open>size\<close> bytes, and \<^verbatim>\<open>Write\<close>
  appends in place: afterwards the buffer holds the old bytes followed by the new ones, within the
  capacity of its array, whether or not it had to move to a larger one.
\<close>

theorem buffer_get_write:
  assumes "length (bdata b) \<le> bcap b"
  shows "Bytes (fst (Get hit sz p)) = [] \<and> sz \<le> int (bcap (fst (Get hit sz p))) \<and>
    Bytes (fst (Write hit s b p)) = Bytes b @ s \<and>
    length (Bytes (fst (Write hit s b p))) \<le> bcap (fst (Write hit s b p))"
proof -
  obtain g p' where "Get hit sz p = (g, p')" by fastforce
  then show ?thesis
    using Get_cap [of hit sz p g p'] Write_cap_within [OF assms, of hit s p]
      bp.contents_put [of hit s b p] by (simp add: Bytes_def)
qed

theorem buffer_get_write_witness:
  "Bytes (fst (Write False [1, 2] nil_buffer pool0)) = [1, 2] \<and>
   2 \<le> bcap (fst (Write False [1, 2] nil_buffer pool0))"
proof -
  have "length (bdata nil_buffer) \<le> bcap nil_buffer" by (simp add: nil_buffer_def)
  from buffer_get_write [OF this, of False 0 pool0 "[1, 2]"]
  have "length (Bytes (fst (Write False [1, 2] nil_buffer pool0))) \<le> bcap (fst (Write False [1, 2] nil_buffer pool0))"
    by blast
  moreover have "Bytes (fst (Write False [1, 2] nil_buffer pool0)) = [1, 2]"
    by (simp add: Bytes_def Write_bdata nil_buffer_def)
  ultimately show ?thesis by simp
qed

lemma join_keep_step:
  assumes "pending = length (Bytes b) \<or> pending = 0" and "length junk = pending"
    and "Join hit (junk @ fresh) pending b p = (data, b1, p1)"
    and "k = nat (min (max consumed 0) (int (length data)))"
  shows "data = Bytes b @ fresh \<and>
    (\<exists>b2 p2. Keep hit' data consumed b1 p' = Some (b2, p2) \<and> Bytes b2 = drop k (Bytes b @ fresh))"
proof -
  have data: "data = bdata b @ fresh" and b1: "bdata b1 = [] \<or> bdata b1 = data"
    using assms(1-3) Write_bdata [of hit fresh b p]
    by (auto simp: Join_def Bytes_def Release_def nil_buffer_def Let_def split: if_splits prod.splits)
  have k: "k \<le> length data" using assms(4) by simp
  show ?thesis
  proof (cases "k = length data \<or> bdata b1 = []")
    case True
    obtain r pr where r: "Release b1 p' = (r, pr)" by fastforce
    obtain w pw where w: "Write hit' (drop k data) b1 p' = (w, pw)" by fastforce
    have "bdata r = []" "bdata w = bdata b1 @ drop k data"
      using bp.contents_release [of b1 p'] Write_bdata [of hit' "drop k data" b1 p'] r w
      by (simp_all add: Bytes_def)
    with True data r w show ?thesis
      unfolding Keep_def Let_def assms(4) [symmetric] by (cases "k = length data") (simp_all add: Bytes_def)
  next
    case False
    with b1 have b1': "bdata b1 = data" "k < length data" using k by auto
    then have "Keep hit' data consumed b1 p' = Some (b1\<lparr>bdata := drop k data\<rparr>, p')"
      unfolding Keep_def Let_def assms(4) [symmetric]
      by (cases "k = 0") (auto simp: Discard_def)
    with data show ?thesis by (simp add: Bytes_def)
  qed
qed

text \<open>
  The inbound stream is neither lost, duplicated nor reordered between two reads: with the
  leftover of earlier reads in \<open>b\<close> and a read buffer whose first \<open>pending\<close> bytes were left free for
  it (or none were), \<^verbatim>\<open>Join\<close> gives the leftover followed by what was read, and after the handler
  consumed \<open>k\<close> bytes (any number it returns, clamped to the data), \<^verbatim>\<open>Keep\<close> leaves exactly the rest.
\<close>

theorem join_keep_stream:
  assumes "pending = length (Bytes b) \<or> pending = 0" and "length junk = pending"
    and "Join hit (junk @ fresh) pending b p = (data, b1, p1)"
    and "k = nat (min (max consumed 0) (int (length data)))"
  shows "data = Bytes b @ fresh \<and>
    (\<exists>b2 p2. Keep hit' data consumed b1 p1 = Some (b2, p2) \<and> Bytes b2 = drop k (Bytes b @ fresh))"
  using assms by (rule join_keep_step)

theorem join_keep_stream_witness:
  "fst (Join True ([0] @ [8, 9]) 1 (buffer1\<lparr>bdata := [7]\<rparr>) pool1) = [7, 8, 9] \<and>
   (\<exists>b2 p2. Keep True [7, 8, 9] 2 nil_buffer
       (snd (snd (Join True ([0] @ [8, 9]) 1 (buffer1\<lparr>bdata := [7]\<rparr>) pool1))) = Some (b2, p2) \<and> Bytes b2 = [9])"
proof -
  let ?b = "buffer1\<lparr>bdata := [7]\<rparr>"
  have r: "Join True ([0] @ [8, 9]) 1 ?b pool1 = ([7, 8, 9], nil_buffer, snd (Release ?b pool1))"
    by (simp add: Join_def go_copy_def Release_def Let_def)
  from join_keep_stream [OF _ _ r refl, where hit' = True and consumed = 2] r
  show ?thesis by (simp add: Bytes_def)
qed

end
