(* ===== verification/KcpArq.thy ===== *)
theory KcpArq
  imports FnetPrelude "HOL-Library.Signed_Division"
begin

text \<open>
  \<^verbatim>\<open>kcp/arq.go\<close>: the KCP ARQ state machine. The fields of \<^verbatim>\<open>arqState\<close> keep the source's names;
  \<^verbatim>\<open>uint32\<close> is \<open>u32\<close> with its wrap-around, \<^verbatim>\<open>int32\<close> is an \<open>int\<close> wrapped by \<open>wrap32\<close> after every
  operation, a pooled buffer is the bytes it holds. \<^verbatim>\<open>mtu\<close> and \<^verbatim>\<open>maxSegmentSize\<close> are natural
  numbers: the server clamps the MTU to at least 128, so \<open>mtu - headerSize\<close> is never negative.
  The callback \<^verbatim>\<open>output\<close> is the list of packets an operation emits, in order.
\<close>

section \<open>Constants\<close>

definition headerSize :: nat where "headerSize = 24"

definition cmdPush :: byte where "cmdPush = 81"
definition cmdAck :: byte where "cmdAck = 82"
definition cmdWindowProbeAsk :: byte where "cmdWindowProbeAsk = 83"
definition cmdWindowProbeTell :: byte where "cmdWindowProbeTell = 84"

definition probeAskSend :: u32 where "probeAskSend = 1"
definition probeAskTell :: u32 where "probeAskTell = 2"

definition rtoNoDelay :: u32 where "rtoNoDelay = 30"
definition rtoMin :: u32 where "rtoMin = 100"
definition rtoDefault :: u32 where "rtoDefault = 200"
definition rtoMax :: u32 where "rtoMax = 60000"

definition probeInit :: u32 where "probeInit = 500"
definition probeLimit :: u32 where "probeLimit = 120000"
definition deadLinkLimit :: u32 where "deadLinkLimit = 20"
definition threshInit :: u32 where "threshInit = 2"
definition threshMin :: u32 where "threshMin = 2"
definition fastResendLimit :: u32 where "fastResendLimit = 2"

lemmas arq_consts = headerSize_def cmdPush_def cmdAck_def cmdWindowProbeAsk_def cmdWindowProbeTell_def
  probeAskSend_def probeAskTell_def rtoNoDelay_def rtoMin_def rtoDefault_def rtoMax_def
  probeInit_def probeLimit_def deadLinkLimit_def threshInit_def threshMin_def fastResendLimit_def

section \<open>State\<close>

datatype arq_error = ErrMessageTooLarge

record ackItem =
  ack_sequence :: u32
  ack_timestamp :: u32

record segment =
  buf :: bytes
  sequence :: u32
  timestamp :: u32
  resendTimestamp :: u32
  rto :: u32
  fastAckCount :: u32
  transmissions :: u32
  fragment :: byte

text \<open>\<^verbatim>\<open>segment{}\<close> with some fields set.\<close>

definition new_segment :: "bytes \<Rightarrow> u32 \<Rightarrow> byte \<Rightarrow> segment" where
  "new_segment b sn frg =
     \<lparr>buf = b, sequence = sn, timestamp = 0, resendTimestamp = 0, rto = 0,
      fastAckCount = 0, transmissions = 0, fragment = frg\<rparr>"

record arqConfig =
  cfg_conversationID :: u32
  cfg_mtu :: nat
  cfg_sendWindow :: u32
  cfg_receiveWindow :: u32
  cfg_interval :: u32
  cfg_noDelay :: bool
  cfg_streamMode :: bool

record arqState =
  conversationID :: u32
  mtu :: nat
  maxSegmentSize :: nat
  streamMode :: bool
  noDelay :: bool
  noCongestionWindow :: bool
  dead :: bool
  sendUnacknowledged :: u32
  sendNext :: u32
  receiveNext :: u32
  sendWindow :: u32
  receiveWindow :: u32
  remoteWindow :: u32
  congestionWindow :: u32
  slowStartThreshold :: u32
  congestionIncrement :: u32
  smoothedRTT :: int
  rttVariance :: int
  retransmitTimeout :: u32
  minRetransmitTimeout :: u32
  interval :: u32
  nextFlushTimestamp :: u32
  flushInitialized :: bool
  fastResend :: u32
  probeFlags :: u32
  probeTimestamp :: u32
  probeWait :: u32
  sendQueue :: "segment list"
  sendBuf :: "segment list"
  receiveBuf :: "segment list"
  receiveQueue :: "segment list"
  pendingAcks :: "ackItem list"

definition arq_init :: "arqConfig \<Rightarrow> arqState" where
  "arq_init cfg =
     \<lparr>conversationID = cfg_conversationID cfg, mtu = cfg_mtu cfg,
      maxSegmentSize = cfg_mtu cfg - headerSize,
      streamMode = cfg_streamMode cfg, noDelay = cfg_noDelay cfg,
      noCongestionWindow = cfg_noDelay cfg, dead = False,
      sendUnacknowledged = 0, sendNext = 0, receiveNext = 0,
      sendWindow = cfg_sendWindow cfg, receiveWindow = cfg_receiveWindow cfg,
      remoteWindow = cfg_receiveWindow cfg, congestionWindow = 0,
      slowStartThreshold = threshInit, congestionIncrement = 0,
      smoothedRTT = 0, rttVariance = 0, retransmitTimeout = rtoDefault,
      minRetransmitTimeout = (if cfg_noDelay cfg then rtoNoDelay else rtoMin),
      interval = cfg_interval cfg, nextFlushTimestamp = 0, flushInitialized = False,
      fastResend = (if cfg_noDelay cfg then fastResendLimit else 0),
      probeFlags = 0, probeTimestamp = 0, probeWait = 0,
      sendQueue = [], sendBuf = [], receiveBuf = [], receiveQueue = [], pendingAcks = []\<rparr>"

text \<open>\<^verbatim>\<open>int32\<close> arithmetic: the result of an operation wraps to 32 bits; \<open>sdiv\<close> truncates as Go does.\<close>

definition wrap32 :: "int \<Rightarrow> int" where
  "wrap32 x = sint (word_of_int x :: u32)"

definition timeDiff :: "u32 \<Rightarrow> u32 \<Rightarrow> int" where
  "timeDiff later earlier = sint (later - earlier)"

definition arq_release :: "arqState \<Rightarrow> arqState" where
  "arq_release a = a\<lparr>sendQueue := [], sendBuf := [], receiveBuf := [], receiveQueue := [], pendingAcks := []\<rparr>"

section \<open>Sending\<close>

text \<open>The loop of stream mode: \<open>mss\<close> bytes at a time until the data is used up.\<close>

function stream_chunks :: "nat \<Rightarrow> bytes \<Rightarrow> segment list" where
  "stream_chunks mss data =
     (if data = [] \<or> mss = 0 then []
      else let taken = min (length data) mss
           in new_segment (take taken data) 0 0 # stream_chunks mss (drop taken data))"
  by pat_completeness auto
termination
  by (relation "measure (\<lambda>(mss, data). length data)") (auto simp: min_def)

declare stream_chunks.simps [simp del]

text \<open>The loop of message mode: \<open>n\<close> segments, the fragment field counting down to 0.\<close>

fun message_chunks :: "nat \<Rightarrow> nat \<Rightarrow> bytes \<Rightarrow> segment list" where
  "message_chunks mss 0 data = []"
| "message_chunks mss (Suc n) data =
     (let taken = min (length data) mss
      in new_segment (take taken data) 0 (of_nat n) # message_chunks mss n (drop taken data))"

definition message_count :: "nat \<Rightarrow> nat \<Rightarrow> nat" where
  "message_count mss len = (if len > mss then (len + mss - 1) div mss else 1)"

definition arq_send :: "bytes \<Rightarrow> arqState \<Rightarrow> arq_error + arqState" where
  "arq_send data a =
     (if streamMode a then
        let (queue, data) =
          (case rev (sendQueue a) of
             [] \<Rightarrow> (sendQueue a, data)
           | lst # front \<Rightarrow>
               (let room = int (maxSegmentSize a) - int (length (buf lst)) in
                if room > 0 then
                  let taken = min (length data) (nat room) in
                  (rev front @ [lst\<lparr>buf := buf lst @ take taken data\<rparr>], drop taken data)
                else (sendQueue a, data)))
        in Inr (a\<lparr>sendQueue := queue @ stream_chunks (maxSegmentSize a) data\<rparr>)
      else
        let count = message_count (maxSegmentSize a) (length data);
            maxFragments = min (int (unat (receiveWindow a)) - 1) 255
        in if int count - 1 > maxFragments then Inl ErrMessageTooLarge
           else Inr (a\<lparr>sendQueue := sendQueue a @ message_chunks (maxSegmentSize a) count data\<rparr>))"

section \<open>Receiving\<close>

definition peekSize :: "arqState \<Rightarrow> int" where
  "peekSize a =
     (case receiveQueue a of
        [] \<Rightarrow> -1
      | first # _ \<Rightarrow>
          if fragment first = 0 then int (length (buf first))
          else let needed = unat (fragment first) + 1 in
               if length (receiveQueue a) < needed then -1
               else int (sum_list (map (length \<circ> buf) (take needed (receiveQueue a)))))"

definition dropReceiveQueue :: "nat \<Rightarrow> arqState \<Rightarrow> arqState" where
  "dropReceiveQueue count a = a\<lparr>receiveQueue := drop count (receiveQueue a)\<rparr>"

text \<open>The loop of \<^verbatim>\<open>promoteReceiveBuf\<close>: receive buffer, queue and next number, until the head is
  not the next segment or the queue is full.\<close>

fun promote_loop :: "u32 \<Rightarrow> segment list \<Rightarrow> segment list \<Rightarrow> u32 \<Rightarrow> segment list \<times> segment list \<times> u32" where
  "promote_loop wnd [] queue rnxt = ([], queue, rnxt)"
| "promote_loop wnd (s # bs) queue rnxt =
     (if sequence s \<noteq> rnxt \<or> of_nat (length queue) \<ge> wnd then (s # bs, queue, rnxt)
      else promote_loop wnd bs (queue @ [s]) (rnxt + 1))"

definition promoteReceiveBuf :: "arqState \<Rightarrow> arqState" where
  "promoteReceiveBuf a =
     (let (bs, q, n) = promote_loop (receiveWindow a) (receiveBuf a) (receiveQueue a) (receiveNext a)
      in a\<lparr>receiveBuf := bs, receiveQueue := q, receiveNext := n\<rparr>)"

definition popMessage :: "arqState \<Rightarrow> (bytes \<times> arqState) option" where
  "popMessage a =
     (if peekSize a < 0 then None
      else
        let wasFull = of_nat (length (receiveQueue a)) \<ge> receiveWindow a;
            needed = unat (fragment (hd (receiveQueue a))) + 1;
            msg = (if fragment (hd (receiveQueue a)) = 0 then buf (hd (receiveQueue a))
                   else concat (map buf (take needed (receiveQueue a))));
            a1 = (if fragment (hd (receiveQueue a)) = 0 then dropReceiveQueue 1 a
                  else dropReceiveQueue needed a);
            a2 = promoteReceiveBuf a1;
            a3 = (if wasFull \<and> of_nat (length (receiveQueue a2)) < receiveWindow a2
                  then a2\<lparr>probeFlags := probeFlags a2 OR probeAskTell\<rparr> else a2)
        in Some (msg, a3))"

text \<open>The search of \<^verbatim>\<open>insertDataSegment\<close> goes from the back: \<open>None\<close> for a duplicate. The buffer
  is given reversed.\<close>

fun insert_back :: "segment \<Rightarrow> segment list \<Rightarrow> segment list option" where
  "insert_back seg [] = Some [seg]"
| "insert_back seg (s # rs) =
     (if sequence s = sequence seg then None
      else if timeDiff (sequence seg) (sequence s) > 0 then Some (seg # s # rs)
      else map_option ((#) s) (insert_back seg rs))"

definition insertDataSegment :: "u32 \<Rightarrow> byte \<Rightarrow> bytes \<Rightarrow> arqState \<Rightarrow> arqState" where
  "insertDataSegment sn frg payload a =
     (if sn = receiveNext a \<and> receiveBuf a = [] \<and> of_nat (length (receiveQueue a)) < receiveWindow a
      then a\<lparr>receiveQueue := receiveQueue a @ [new_segment payload sn frg],
             receiveNext := receiveNext a + 1\<rparr>
      else case insert_back (new_segment payload sn frg) (rev (receiveBuf a)) of
             None \<Rightarrow> a
           | Some rs \<Rightarrow> promoteReceiveBuf (a\<lparr>receiveBuf := rev rs\<rparr>))"

definition unusedReceiveWindow :: "arqState \<Rightarrow> u16" where
  "unusedReceiveWindow a =
     (let used = of_nat (length (receiveQueue a)) in
      if used \<ge> receiveWindow a then 0
      else ucast (min (receiveWindow a - used) 0xFFFF))"

section \<open>Acknowledgements\<close>

fun una_loop :: "u32 \<Rightarrow> segment list \<Rightarrow> segment list" where
  "una_loop una [] = []"
| "una_loop una (s # ss) = (if timeDiff una (sequence s) \<le> 0 then s # ss else una_loop una ss)"

definition parseUnacknowledged :: "u32 \<Rightarrow> arqState \<Rightarrow> arqState \<times> bool" where
  "parseUnacknowledged una a =
     (let rest = una_loop una (sendBuf a)
      in (a\<lparr>sendBuf := rest\<rparr>, length rest < length (sendBuf a)))"

fun ack_loop :: "u32 \<Rightarrow> segment list \<Rightarrow> segment list" where
  "ack_loop sn [] = []"
| "ack_loop sn (s # ss) =
     (if sequence s = sn then ss
      else if timeDiff sn (sequence s) < 0 then s # ss
      else s # ack_loop sn ss)"

definition parseAck :: "u32 \<Rightarrow> arqState \<Rightarrow> arqState" where
  "parseAck sn a =
     (if timeDiff sn (sendUnacknowledged a) < 0 \<or> timeDiff sn (sendNext a) \<ge> 0 then a
      else a\<lparr>sendBuf := ack_loop sn (sendBuf a)\<rparr>)"

fun fast_ack_loop :: "u32 \<Rightarrow> u32 \<Rightarrow> segment list \<Rightarrow> segment list \<times> bool" where
  "fast_ack_loop limit sn [] = ([], False)"
| "fast_ack_loop limit sn (s # ss) =
     (if timeDiff sn (sequence s) \<le> 0 then (s # ss, False)
      else let s' = s\<lparr>fastAckCount := fastAckCount s + 1\<rparr>;
               (ss', t) = fast_ack_loop limit sn ss
           in (s' # ss', (limit > 0 \<and> fastAckCount s' \<ge> limit) \<or> t))"

definition parseFastAck :: "u32 \<Rightarrow> arqState \<Rightarrow> arqState \<times> bool" where
  "parseFastAck sn a =
     (if timeDiff sn (sendUnacknowledged a) < 0 \<or> timeDiff sn (sendNext a) \<ge> 0 then (a, False)
      else let (ss, t) = fast_ack_loop (fastResend a) sn (sendBuf a) in (a\<lparr>sendBuf := ss\<rparr>, t))"

definition refreshSendUnacknowledged :: "arqState \<Rightarrow> arqState" where
  "refreshSendUnacknowledged a =
     a\<lparr>sendUnacknowledged := (case sendBuf a of s # _ \<Rightarrow> sequence s | [] \<Rightarrow> sendNext a)\<rparr>"

text \<open>The first half of \<^verbatim>\<open>updateRTT\<close>: the smoothed round trip time and its variance.\<close>

definition smoothRTT :: "int \<Rightarrow> arqState \<Rightarrow> arqState" where
  "smoothRTT rtt a =
     (if smoothedRTT a = 0 then a\<lparr>smoothedRTT := rtt, rttVariance := rtt sdiv 2\<rparr>
      else let delta0 = wrap32 (rtt - smoothedRTT a);
               delta = (if delta0 < 0 then wrap32 (- delta0) else delta0)
           in a\<lparr>rttVariance := wrap32 (3 * rttVariance a + delta) sdiv 4,
                smoothedRTT := max (wrap32 (7 * smoothedRTT a + rtt) sdiv 8) 1\<rparr>)"

definition updateRTT :: "int \<Rightarrow> arqState \<Rightarrow> arqState" where
  "updateRTT rtt a =
     (let a1 = smoothRTT rtt a;
          rto = wrap32 (smoothedRTT a1 + max (sint (interval a1)) (wrap32 (4 * rttVariance a1)))
      in a1\<lparr>retransmitTimeout := min (max (word_of_int rto) (minRetransmitTimeout a1)) rtoMax\<rparr>)"

definition growCongestionWindow :: "arqState \<Rightarrow> arqState" where
  "growCongestionWindow a =
     (if congestionWindow a \<ge> remoteWindow a then a
      else
        let mss = of_nat (maxSegmentSize a);
            a1 = (if congestionWindow a < slowStartThreshold a
                  then a\<lparr>congestionWindow := congestionWindow a + 1,
                         congestionIncrement := congestionIncrement a + mss\<rparr>
                  else
                    let inc0 = (if congestionIncrement a < mss then mss else congestionIncrement a);
                        inc = inc0 + (mss * mss) div inc0 + mss div 16
                    in a\<lparr>congestionIncrement := inc,
                         congestionWindow := (if (congestionWindow a + 1) * mss \<le> inc
                           then (inc + mss - 1) div mss else congestionWindow a)\<rparr>)
        in if congestionWindow a1 > remoteWindow a1
           then a1\<lparr>congestionWindow := remoteWindow a1, congestionIncrement := remoteWindow a1 * mss\<rparr>
           else a1)"

section \<open>The header on the wire\<close>

record kcp_header =
  h_conv :: u32
  h_cmd :: byte
  h_frg :: byte
  h_wnd :: u16
  h_ts :: u32
  h_sn :: u32
  h_una :: u32
  h_length :: u32

definition encodeHeader :: "kcp_header \<Rightarrow> bytes" where
  "encodeHeader h =
     le_bytes 4 (h_conv h) @ [h_cmd h, h_frg h] @ le_bytes 2 (h_wnd h) @ le_bytes 4 (h_ts h) @
     le_bytes 4 (h_sn h) @ le_bytes 4 (h_una h) @ le_bytes 4 (h_length h)"

text \<open>The fields \<^verbatim>\<open>input\<close> reads at the start of each segment.\<close>

definition readHeader :: "bytes \<Rightarrow> kcp_header" where
  "readHeader data =
     \<lparr>h_conv = le_word (sub_bytes data 0 4), h_cmd = data ! 4, h_frg = data ! 5,
      h_wnd = le_word (sub_bytes data 6 8), h_ts = le_word (sub_bytes data 8 12),
      h_sn = le_word (sub_bytes data 12 16), h_una = le_word (sub_bytes data 16 20),
      h_length = le_word (sub_bytes data 20 24)\<rparr>"

definition decodeHeader :: "bytes \<Rightarrow> (kcp_header \<times> bytes) option" where
  "decodeHeader data =
     (if length data < headerSize then None else Some (readHeader data, drop headerSize data))"

definition known_cmd :: "byte \<Rightarrow> bool" where
  "known_cmd cmd \<longleftrightarrow> cmd = cmdPush \<or> cmd = cmdAck \<or> cmd = cmdWindowProbeAsk \<or> cmd = cmdWindowProbeTell"

section \<open>Input\<close>

text \<open>The \<^verbatim>\<open>cmdPush\<close> case: acknowledged when inside or before the window, kept when not before it.\<close>

definition input_push :: "kcp_header \<Rightarrow> bytes \<Rightarrow> arqState \<Rightarrow> arqState" where
  "input_push h payload a =
     (if timeDiff (h_sn h) (receiveNext a + receiveWindow a) < 0 then
        let a1 = a\<lparr>pendingAcks := pendingAcks a @ [\<lparr>ack_sequence = h_sn h, ack_timestamp = h_ts h\<rparr>]\<rparr>
        in if timeDiff (h_sn h) (receiveNext a1) \<ge> 0
           then insertDataSegment (h_sn h) (h_frg h) payload a1 else a1
      else a)"

text \<open>One segment of a packet, once its header is accepted: the new state and whether it asks for a
  fast retransmission.\<close>

definition input_segment :: "kcp_header \<Rightarrow> bytes \<Rightarrow> arqState \<Rightarrow> arqState \<times> bool" where
  "input_segment h payload a =
     (let a0 = a\<lparr>remoteWindow := ucast (h_wnd h)\<rparr>;
          (a1, t1) = parseUnacknowledged (h_una h) a0;
          a2 = refreshSendUnacknowledged a1
      in if h_cmd h = cmdAck then
           let a3 = refreshSendUnacknowledged (parseAck (h_sn h) a2);
               (a4, t2) = parseFastAck (h_sn h) a3
           in (a4, t1 \<or> t2)
         else if h_cmd h = cmdPush then (input_push h payload a2, t1)
         else if h_cmd h = cmdWindowProbeAsk then
           (a2\<lparr>probeFlags := probeFlags a2 OR probeAskTell\<rparr>, t1)
         else (a2, t1))"

text \<open>What the loop carries besides the state: the latest ACK timestamp, if any, and whether a fast
  retransmission was asked for. \<open>None\<close> in the result is the early \<^verbatim>\<open>return false\<close>.\<close>

function input_loop :: "bytes \<Rightarrow> u32 option \<Rightarrow> bool \<Rightarrow> arqState \<Rightarrow> arqState \<times> (u32 option \<times> bool) option" where
  "input_loop data rtt fast a =
     (if length data < headerSize then (a, Some (rtt, fast))
      else
        let h = readHeader data; rest = drop headerSize data in
        if h_conv h \<noteq> conversationID a \<or> length rest < unat (h_length h) then (a, None)
        else if \<not> known_cmd (h_cmd h) then (a, None)
        else
          let (a', t) = input_segment h (take (unat (h_length h)) rest) a
          in input_loop (drop (unat (h_length h)) rest)
               (if h_cmd h = cmdAck then Some (h_ts h) else rtt) (fast \<or> t) a')"
  by pat_completeness auto
termination
  by (relation "measure (\<lambda>(data, _, _, _). length data)") (auto simp: headerSize_def)

declare input_loop.simps [simp del]

definition arq_input :: "bytes \<Rightarrow> u32 \<Rightarrow> arqState \<Rightarrow> arqState \<times> bool" where
  "arq_input data currentMs a =
     (if length data < headerSize then (a, False)
      else case input_loop data None False a of
             (a1, None) \<Rightarrow> (a1, False)
           | (a1, Some (rtt, fast)) \<Rightarrow>
               let a2 = (case rtt of
                           Some ts \<Rightarrow> if timeDiff currentMs ts \<ge> 0 then updateRTT (timeDiff currentMs ts) a1 else a1
                         | None \<Rightarrow> a1);
                   a3 = (if \<not> noCongestionWindow a2 \<and>
                             timeDiff (sendUnacknowledged a2) (sendUnacknowledged a) > 0
                         then growCongestionWindow a2 else a2)
               in (a3, fast))"

section \<open>Flushing\<close>

definition hasPendingWork :: "arqState \<Rightarrow> bool" where
  "hasPendingWork a \<longleftrightarrow> pendingAcks a \<noteq> [] \<or> sendQueue a \<noteq> [] \<or> sendBuf a \<noteq> [] \<or> probeFlags a \<noteq> 0"

text \<open>The packet being filled (\<^verbatim>\<open>pkt[:offset]\<close>) and the packets already output.\<close>

type_synonym packets = "bytes \<times> bytes list"

text \<open>A header without payload goes into the packet, which is output first when it has no room.\<close>

definition put_header :: "nat \<Rightarrow> kcp_header \<Rightarrow> packets \<Rightarrow> packets" where
  "put_header m h ps =
     (if length (fst ps) + headerSize > m then (encodeHeader h, snd ps @ [fst ps])
      else (fst ps @ encodeHeader h, snd ps))"

fun flush_acks :: "arqState \<Rightarrow> u16 \<Rightarrow> ackItem list \<Rightarrow> packets \<Rightarrow> packets" where
  "flush_acks a wnd [] ps = ps"
| "flush_acks a wnd (k # ks) ps =
     flush_acks a wnd ks
       (if timeDiff (ack_sequence k) (receiveNext a) \<ge> 0 \<or> ks = [] then
          put_header (mtu a) \<lparr>h_conv = conversationID a, h_cmd = cmdAck, h_frg = 0, h_wnd = wnd,
            h_ts = ack_timestamp k, h_sn = ack_sequence k, h_una = receiveNext a, h_length = 0\<rparr> ps
        else ps)"

definition flush_probe_timer :: "u32 \<Rightarrow> arqState \<Rightarrow> arqState" where
  "flush_probe_timer currentMs a =
     (if remoteWindow a = 0 then
        if probeWait a = 0 then a\<lparr>probeWait := probeInit, probeTimestamp := currentMs + probeInit\<rparr>
        else if timeDiff currentMs (probeTimestamp a) \<ge> 0 then
          let w = min (max (probeWait a) probeInit + probeWait a div 2) probeLimit
          in a\<lparr>probeWait := w, probeTimestamp := currentMs + w,
               probeFlags := probeFlags a OR probeAskSend\<rparr>
        else a
      else a\<lparr>probeTimestamp := 0, probeWait := 0\<rparr>)"

definition probe_header :: "arqState \<Rightarrow> byte \<Rightarrow> u16 \<Rightarrow> kcp_header" where
  "probe_header a cmd wnd =
     \<lparr>h_conv = conversationID a, h_cmd = cmd, h_frg = 0, h_wnd = wnd, h_ts = 0, h_sn = 0,
      h_una = receiveNext a, h_length = 0\<rparr>"

definition flush_probes :: "arqState \<Rightarrow> u16 \<Rightarrow> packets \<Rightarrow> arqState \<times> packets" where
  "flush_probes a wnd ps =
     (let ps1 = (if probeFlags a AND probeAskSend \<noteq> 0
                 then put_header (mtu a) (probe_header a cmdWindowProbeAsk wnd) ps else ps);
          ps2 = (if probeFlags a AND probeAskTell \<noteq> 0
                 then put_header (mtu a) (probe_header a cmdWindowProbeTell wnd) ps1 else ps1)
      in (a\<lparr>probeFlags := 0\<rparr>, ps2))"

definition flush_window :: "arqState \<Rightarrow> u32" where
  "flush_window a =
     (let cwnd = min (sendWindow a) (remoteWindow a)
      in if noCongestionWindow a then cwnd else min cwnd (congestionWindow a))"

text \<open>Segments move from the queue to the send buffer while their numbers are inside the window.\<close>

fun move_loop :: "u32 \<Rightarrow> segment list \<Rightarrow> segment list \<Rightarrow> u32 \<Rightarrow> segment list \<times> segment list \<times> u32" where
  "move_loop limit [] sb nxt = ([], sb, nxt)"
| "move_loop limit (s # q) sb nxt =
     (if timeDiff nxt limit < 0 then move_loop limit q (sb @ [s\<lparr>sequence := nxt\<rparr>]) (nxt + 1)
      else (s # q, sb, nxt))"

definition flush_move :: "u32 \<Rightarrow> arqState \<Rightarrow> arqState" where
  "flush_move cwnd a =
     (let (q, sb, nxt) = move_loop (sendUnacknowledged a + cwnd) (sendQueue a) (sendBuf a) (sendNext a)
      in a\<lparr>sendQueue := q, sendBuf := sb, sendNext := nxt\<rparr>)"

text \<open>Why a segment of the send buffer is sent in this round, if it is.\<close>

datatype send_reason = NotSent | FirstSend | Timeout | FastResend

definition segment_due :: "arqState \<Rightarrow> u32 \<Rightarrow> segment \<Rightarrow> send_reason" where
  "segment_due a currentMs seg =
     (if transmissions seg = 0 then FirstSend
      else if timeDiff currentMs (resendTimestamp seg) \<ge> 0 then Timeout
      else if fastResend a > 0 \<and> fastAckCount seg \<ge> fastResend a then FastResend
      else NotSent)"

definition mark_segment :: "arqState \<Rightarrow> u32 \<Rightarrow> segment \<Rightarrow> segment" where
  "mark_segment a currentMs seg =
     (case segment_due a currentMs seg of
        FirstSend \<Rightarrow> seg\<lparr>transmissions := 1, rto := retransmitTimeout a,
                         resendTimestamp := currentMs + retransmitTimeout a, timestamp := currentMs\<rparr>
      | Timeout \<Rightarrow>
          let r = min (rto seg + (if \<not> noDelay a then max (retransmitTimeout a) (interval a)
                                  else max (retransmitTimeout a div 2) rtoNoDelay)) rtoMax
          in seg\<lparr>transmissions := transmissions seg + 1, rto := r,
                 resendTimestamp := currentMs + r, timestamp := currentMs\<rparr>
      | FastResend \<Rightarrow> seg\<lparr>transmissions := transmissions seg + 1, fastAckCount := 0,
                          resendTimestamp := currentMs + rto seg, timestamp := currentMs\<rparr>
      | NotSent \<Rightarrow> seg)"

definition put_segment :: "arqState \<Rightarrow> u16 \<Rightarrow> segment \<Rightarrow> packets \<Rightarrow> packets" where
  "put_segment a wnd seg ps =
     (let ps1 = (if length (fst ps) + headerSize + length (buf seg) > mtu a \<and> length (fst ps) > 0
                 then ([], snd ps @ [fst ps]) else ps);
          h = \<lparr>h_conv = conversationID a, h_cmd = cmdPush, h_frg = fragment seg, h_wnd = wnd,
               h_ts = timestamp seg, h_sn = sequence seg, h_una = receiveNext a,
               h_length = of_nat (length (buf seg))\<rparr>
      in (fst ps1 @ encodeHeader h @ buf seg, snd ps1))"

record flush_acc =
  fa_packets :: packets
  fa_dead :: bool
  fa_fast :: bool
  fa_lost :: bool

fun send_loop :: "arqState \<Rightarrow> u32 \<Rightarrow> u16 \<Rightarrow> segment list \<Rightarrow> flush_acc \<Rightarrow> segment list \<times> flush_acc" where
  "send_loop a currentMs wnd [] acc = ([], acc)"
| "send_loop a currentMs wnd (s # ss) acc =
     (let why = segment_due a currentMs s;
          s' = mark_segment a currentMs s;
          acc' = (if why = NotSent then acc
                  else \<lparr>fa_packets = put_segment a wnd s' (fa_packets acc),
                        fa_dead = fa_dead acc \<or> transmissions s' \<ge> deadLinkLimit,
                        fa_fast = fa_fast acc \<or> why = FastResend,
                        fa_lost = fa_lost acc \<or> why = Timeout\<rparr>);
          (ss', acc'') = send_loop a currentMs wnd ss acc'
      in (s' # ss', acc''))"

text \<open>What is left in the packet at the end is output when it is not empty.\<close>

definition finish_packets :: "packets \<Rightarrow> bytes list" where
  "finish_packets ps = (if length (fst ps) > 0 then snd ps @ [fst ps] else snd ps)"

definition flush_congestion :: "bool \<Rightarrow> bool \<Rightarrow> u32 \<Rightarrow> arqState \<Rightarrow> arqState" where
  "flush_congestion fast lost cwnd a =
     (if noCongestionWindow a then a
      else
        let mss = of_nat (maxSegmentSize a);
            a1 = (if fast then
                    let t = max ((sendNext a - sendUnacknowledged a) div 2) threshMin; w = t + fastResend a
                    in a\<lparr>slowStartThreshold := t, congestionWindow := w, congestionIncrement := w * mss\<rparr>
                  else a);
            a2 = (if lost then a1\<lparr>slowStartThreshold := max (cwnd div 2) threshMin,
                                  congestionWindow := 1, congestionIncrement := mss\<rparr>
                  else a1)
        in if congestionWindow a2 < 1 then a2\<lparr>congestionWindow := 1, congestionIncrement := mss\<rparr> else a2)"

definition arq_flush :: "u32 \<Rightarrow> bool \<Rightarrow> arqState \<Rightarrow> arqState \<times> bytes list" where
  "arq_flush currentMs ackOnly a =
     (if \<not> hasPendingWork a \<and> remoteWindow a > 0 then (a, [])
      else
        let wnd = unusedReceiveWindow a;
            ps0 = flush_acks a wnd (pendingAcks a) ([], []);
            a1 = a\<lparr>pendingAcks := []\<rparr>
        in if ackOnly then (a1, finish_packets ps0)
           else
             let a2 = flush_probe_timer currentMs a1;
                 (a3, ps1) = flush_probes a2 wnd ps0;
                 cwnd = flush_window a3;
                 a4 = flush_move cwnd a3;
                 (sb, acc) = send_loop a4 currentMs wnd (sendBuf a4)
                   \<lparr>fa_packets = ps1, fa_dead = dead a4, fa_fast = False, fa_lost = False\<rparr>;
                 a5 = a4\<lparr>sendBuf := sb, dead := fa_dead acc\<rparr>
             in (flush_congestion (fa_fast acc) (fa_lost acc) cwnd a5, finish_packets (fa_packets acc)))"

text \<open>\<^verbatim>\<open>update\<close>: the state with the flush timer moved on, and whether it is time to flush.\<close>

definition update_timer :: "u32 \<Rightarrow> arqState \<Rightarrow> arqState \<times> bool" where
  "update_timer currentMs a =
     (let a1 = (if \<not> flushInitialized a
                then a\<lparr>flushInitialized := True, nextFlushTimestamp := currentMs\<rparr> else a);
          diff0 = timeDiff currentMs (nextFlushTimestamp a1);
          late = diff0 \<ge> 10000 \<or> diff0 < -10000;
          a2 = (if late then a1\<lparr>nextFlushTimestamp := currentMs\<rparr> else a1);
          diff = (if late then 0 else diff0)
      in if diff \<ge> 0 then
           let n = nextFlushTimestamp a2 + interval a2
           in (a2\<lparr>nextFlushTimestamp := (if timeDiff currentMs n \<ge> 0 then currentMs + interval a2 else n)\<rparr>, True)
         else (a2, False))"

definition arq_update :: "u32 \<Rightarrow> arqState \<Rightarrow> arqState \<times> bytes list" where
  "arq_update currentMs a =
     (let (b, due) = update_timer currentMs a
      in if due then arq_flush currentMs False b else (b, []))"

end
