(* ===== verification/KcpInv.thy ===== *)
theory KcpInv
  imports KcpArq
begin

text \<open>
  The wire format of KCP and the invariant of the ARQ state machine: the numbers in the send and
  receive buffers, the window bounds, the sizes of the packets, the retransmission timeout.
\<close>

section \<open>Serial numbers relative to a base\<close>

text \<open>The distance of a number from a base, and what \<^verbatim>\<open>timeDiff\<close> says of two numbers that are both
  less than \<open>2 ^ 31\<close> after it.\<close>

definition off :: "u32 \<Rightarrow> u32 \<Rightarrow> nat" where
  "off base x = unat (x - base)"

lemma off_self [simp]: "off b b = 0"
  by (simp add: off_def)

lemma off_eq_0 [simp]: "off b x = 0 \<longleftrightarrow> x = b"
  by (simp add: off_def unat_eq_0)

lemma off_inj: "off b x = off b y \<longleftrightarrow> x = y"
  by (simp add: off_def word_unat_eq_iff [symmetric])

lemma off_add: "n < 2 ^ 32 \<Longrightarrow> off b (b + of_nat n) = n"
  by (simp add: off_def unat_of_nat)

lemma off_repr: "x = b + of_nat (off b x)"
  by (simp add: off_def)

lemma timeDiff_off:
  assumes "off b x < 2 ^ 31" and "off b y < 2 ^ 31"
  shows "timeDiff x y = int (off b x) - int (off b y)"
proof -
  have "\<bar>int (off b x) - int (off b y)\<bar> < 2 ^ 31" using assms by auto
  from serial_diff [OF this, of b] show ?thesis
    using off_repr [of x b] off_repr [of y b] by (simp add: timeDiff_def)
qed

lemma off_rebase:
  assumes "off b b' \<le> off b x"
  shows "off b' x = off b x - off b b'"
proof -
  have "x - b' = (x - b) - (b' - b)" by simp
  moreover have "unat ((x - b) - (b' - b)) = unat (x - b) - unat (b' - b)"
    by (rule unat_sub) (use assms in \<open>simp add: off_def word_le_nat_alt\<close>)
  ultimately show ?thesis by (simp add: off_def)
qed

lemma timeDiff_nonneg: "timeDiff x b \<ge> 0 \<Longrightarrow> off b x < 2 ^ 31 \<and> timeDiff x b = int (off b x)"
proof -
  assume "timeDiff x b \<ge> 0"
  then have nn: "sint (x - b) \<ge> 0" by (simp add: timeDiff_def)
  have lt: "sint (x - b) < 2 ^ 31" using sint_lt [of "x - b"] by simp
  have "uint (x - b) = sint (x - b) mod 2 ^ 32"
    using uint_sint [of "x - b"] by (simp add: take_bit_eq_mod)
  also have "\<dots> = sint (x - b)" using nn lt by simp
  finally have "uint (x - b) = sint (x - b)" .
  then have "int (off b x) = sint (x - b)" by (simp add: off_def)
  with lt show ?thesis by (simp add: timeDiff_def)
qed

text \<open>A number accepted by the two tests of \<^verbatim>\<open>input\<close> is inside the receive window.\<close>

lemma window_test:
  assumes "timeDiff sn b \<ge> 0" and "timeDiff sn (b + w) < 0" and "unat w < 2 ^ 31"
  shows "off b sn < unat w"
proof -
  have d: "off b sn < 2 ^ 31" using timeDiff_nonneg [OF assms(1)] by simp
  have w: "off b (b + w) = unat w" by (simp add: off_def)
  have "timeDiff sn (b + w) = int (off b sn) - int (off b (b + w))"
    by (rule timeDiff_off [OF d]) (simp only: w assms(3))
  with assms(2) have "off b sn < off b (b + w)" by linarith
  then show ?thesis by (simp only: w)
qed

lemma of_nat_less_u32:
  "n \<le> unat (w :: u32) \<Longrightarrow> (of_nat n < w) = (n < unat w) \<and> (of_nat n \<ge> w) = (n = unat w)"
proof -
  assume "n \<le> unat w"
  then have "unat (of_nat n :: u32) = n"
    using unsigned_less [of w, where 'a = nat] by (simp add: unat_of_nat)
  then show ?thesis using \<open>n \<le> unat w\<close> by (auto simp: word_less_nat_alt word_le_nat_alt)
qed

section \<open>The header codec\<close>

lemma length_encodeHeader [simp]: "length (encodeHeader h) = headerSize"
  by (simp add: encodeHeader_def headerSize_def)

lemma readHeader_encode: "readHeader (encodeHeader h @ r) = h"
proof -
  have "(le_bytes 4 c @ x # y # ys) ! 4 = x" "(le_bytes 4 c @ x # y # ys) ! 5 = y" for c :: u32 and x y ys
    by (simp_all add: nth_append)
  then show ?thesis
    by (simp add: readHeader_def encodeHeader_def sub_bytes_def le_roundtrip drop_Cons' take_Cons')
qed

interpretation kcp_wire: prefix_codec "\<lambda>_. True" encodeHeader decodeHeader
  by unfold_locales (simp add: decodeHeader_def readHeader_encode)

section \<open>The send side\<close>

text \<open>The numbers in the send buffer grow strictly from the oldest unacknowledged one, below the next
  one, and no more than a send window of them is under way.\<close>

definition send_ok :: "u32 \<Rightarrow> u32 \<Rightarrow> u32 \<Rightarrow> segment list \<Rightarrow> bool" where
  "send_ok una nxt wnd sb \<longleftrightarrow>
     sorted_wrt (<) (map (off una \<circ> sequence) sb) \<and>
     (\<forall>s \<in> set sb. off una (sequence s) < off una nxt) \<and>
     off una nxt \<le> unat wnd \<and> unat wnd < 2 ^ 31"

lemma off_Suc: "off b x < 2 ^ 31 \<Longrightarrow> off b (x + 1) = Suc (off b x)"
  using off_add [of "Suc (off b x)" b] off_repr [of x b] by (simp add: algebra_simps)

lemma una_loop_subset: "set (una_loop u sb) \<subseteq> set sb"
  by (induction sb) auto

lemma una_loop_sorted: "sorted_wrt P (map f sb) \<Longrightarrow> sorted_wrt P (map f (una_loop u sb))"
  by (induction sb) auto

lemma ack_loop_subset: "set (ack_loop sn sb) \<subseteq> set sb"
  by (induction sb) auto

lemma ack_loop_sorted: "sorted_wrt P (map f sb) \<Longrightarrow> sorted_wrt P (map f (ack_loop sn sb))"
  using ack_loop_subset by (induction sb) fastforce+

lemma fast_ack_loop_keeps:
  "fast_ack_loop limit sn sb = (sb', t) \<Longrightarrow>
     map sequence sb' = map sequence sb \<and> map buf sb' = map buf sb \<and> map fragment sb' = map fragment sb"
  by (induction sb arbitrary: sb' t) (auto split: if_splits prod.splits simp: Let_def)

lemma send_ok_seqs:
  "map sequence sb' = map sequence sb \<Longrightarrow> send_ok una nxt wnd sb' = send_ok una nxt wnd sb"
proof -
  assume eq: "map sequence sb' = map sequence sb"
  then have "map (off una \<circ> sequence) sb' = map (off una \<circ> sequence) sb"
    by (simp flip: map_map)
  moreover from eq have "sequence ` set sb' = sequence ` set sb"
    by (simp flip: set_map)
  ultimately show ?thesis
    unfolding send_ok_def by (metis (no_types, lifting) image_iff)
qed

lemma send_ok_una_loop: "send_ok una nxt wnd sb \<Longrightarrow> send_ok una nxt wnd (una_loop u sb)"
  using una_loop_subset [of u sb] una_loop_sorted by (auto simp: send_ok_def)

lemma send_ok_ack_loop: "send_ok una nxt wnd sb \<Longrightarrow> send_ok una nxt wnd (ack_loop sn sb)"
  using ack_loop_subset [of sn sb] ack_loop_sorted by (auto simp: send_ok_def)

lemma send_ok_head_min:
  "send_ok una nxt wnd (s # ss) \<Longrightarrow> x \<in> set ss \<Longrightarrow> off una (sequence s) < off una (sequence x)"
  by (auto simp: send_ok_def)

lemma send_ok_refresh:
  assumes "send_ok una nxt wnd sb"
  shows "send_ok (case sb of s # _ \<Rightarrow> sequence s | [] \<Rightarrow> nxt) nxt wnd sb"
proof (cases sb)
  case Nil
  with assms show ?thesis by (simp add: send_ok_def)
next
  case (Cons s ss)
  let ?d = "off una (sequence s)"
  have ge: "?d \<le> off una (sequence x)" if "x \<in> set sb" for x
    using assms that Cons send_ok_head_min [of una nxt wnd s ss x] by (auto intro: less_imp_le)
  have re: "off (sequence s) (sequence x) = off una (sequence x) - ?d" if "x \<in> set sb" for x
    using ge [OF that] by (rule off_rebase)
  have nx: "off (sequence s) nxt = off una nxt - ?d" and d: "?d < off una nxt"
    using assms Cons by (auto simp: send_ok_def intro!: off_rebase)
  have "sorted_wrt (<) (map (off (sequence s) \<circ> sequence) sb)"
    using assms ge re unfolding send_ok_def sorted_wrt_map
    by (elim conjE) (rule sorted_wrt_mono_rel, auto simp: diff_less_mono)
  moreover have "off (sequence s) (sequence x) < off (sequence s) nxt" if "x \<in> set sb" for x
    using assms ge [OF that] re [OF that] nx that by (auto simp: send_ok_def diff_less_mono)
  ultimately show ?thesis
    using assms nx Cons by (auto simp: send_ok_def)
qed

lemma move_loop_spec:
  assumes "send_ok una nxt wnd sb" and "unat cwnd \<le> unat wnd"
    and "move_loop (una + cwnd) q sb nxt = (q', sb', nxt')"
  shows "send_ok una nxt' wnd sb' \<and>
    (\<exists>ms. map buf q = map buf ms @ map buf q' \<and> map fragment q = map fragment ms @ map fragment q' \<and>
      sb' = sb @ ms \<and> nxt' = nxt + of_nat (length ms) \<and>
      (\<forall>i < length ms. sequence (ms ! i) = nxt + of_nat i \<and> transmissions (ms ! i) = transmissions (q ! i)))"
  using assms
proof (induction q arbitrary: sb nxt)
  case (Cons s q)
  show ?case
  proof (cases "timeDiff nxt (una + cwnd) < 0")
    case True
    have w: "unat wnd < 2 ^ 31" and o: "off una nxt \<le> unat wnd"
      using Cons.prems(1) by (auto simp: send_ok_def)
    have c: "off una (una + cwnd) = unat cwnd" by (simp add: off_def)
    have "timeDiff nxt (una + cwnd) = int (off una nxt) - int (off una (una + cwnd))"
      by (rule timeDiff_off) (use w o c Cons.prems(2) in linarith)+
    with True c have lt: "off una nxt < unat cwnd" by linarith
    have sc: "off una (nxt + 1) = Suc (off una nxt)" using w o by (intro off_Suc) linarith
    let ?s = "s\<lparr>sequence := nxt\<rparr>"
    have "send_ok una (nxt + 1) wnd (sb @ [?s])"
      using Cons.prems(1) lt Cons.prems(2) sc
      by (auto simp: send_ok_def sorted_wrt_append less_Suc_eq)
    moreover have "move_loop (una + cwnd) q (sb @ [?s]) (nxt + 1) = (q', sb', nxt')"
      using Cons.prems(3) True by simp
    ultimately obtain ms where ok: "send_ok una nxt' wnd sb'"
      and ms: "map buf q = map buf ms @ map buf q'" "map fragment q = map fragment ms @ map fragment q'"
        "sb' = (sb @ [?s]) @ ms" "nxt' = nxt + 1 + of_nat (length ms)"
        "\<forall>i < length ms. sequence (ms ! i) = nxt + 1 + of_nat i \<and> transmissions (ms ! i) = transmissions (q ! i)"
      using Cons.IH [OF _ Cons.prems(2)] by blast
    have "\<forall>i < length (?s # ms). sequence ((?s # ms) ! i) = nxt + of_nat i \<and>
        transmissions ((?s # ms) ! i) = transmissions ((s # q) ! i)"
      using ms(5) by (auto simp: nth_Cons split: nat.splits)
    then show ?thesis
      using ok ms(1-4) by (intro conjI exI [of _ "?s # ms"]) (auto simp: algebra_simps)
  next
    case False
    with Cons.prems show ?thesis by (intro conjI exI [of _ "[]"]) auto
  qed
qed (intro conjI exI [of _ "[]"], auto)

lemma mark_segment_keeps [simp]:
  "sequence (mark_segment a t s) = sequence s" "buf (mark_segment a t s) = buf s"
  "fragment (mark_segment a t s) = fragment s"
  by (auto simp: mark_segment_def Let_def split: send_reason.splits)

lemma send_loop_keeps:
  "send_loop a t wnd sb acc = (sb', acc') \<Longrightarrow>
     map sequence sb' = map sequence sb \<and> map buf sb' = map buf sb \<and> map fragment sb' = map fragment sb"
  by (induction sb arbitrary: acc sb' acc') (auto simp: Let_def split: prod.splits)

section \<open>The receive side\<close>

text \<open>The numbers in the receive buffer grow strictly inside the window, and the queue never holds
  more than a window.\<close>

definition recv_ok :: "u32 \<Rightarrow> u32 \<Rightarrow> segment list \<Rightarrow> segment list \<Rightarrow> bool" where
  "recv_ok rn wnd rb q \<longleftrightarrow>
     sorted_wrt (<) (map (off rn \<circ> sequence) rb) \<and>
     (\<forall>s \<in> set rb. off rn (sequence s) < unat wnd) \<and>
     unat wnd < 2 ^ 31 \<and> length q \<le> unat wnd"

lemma insert_back_spec:
  assumes "sorted_wrt (>) (map (off b \<circ> sequence) rs)"
    and "\<forall>s \<in> set rs. off b (sequence s) < 2 ^ 31" and "off b (sequence seg) < 2 ^ 31"
  shows "case insert_back seg rs of
      None \<Rightarrow> sequence seg \<in> sequence ` set rs
    | Some rs' \<Rightarrow> sequence seg \<notin> sequence ` set rs \<and> sorted_wrt (>) (map (off b \<circ> sequence) rs') \<and>
        set rs' = insert seg (set rs)"
  using assms
proof (induction rs)
  case (Cons s rs)
  have td: "timeDiff (sequence seg) (sequence s) = int (off b (sequence seg)) - int (off b (sequence s))"
    using Cons.prems by (intro timeDiff_off) auto
  consider "sequence s = sequence seg" | "off b (sequence s) < off b (sequence seg)"
    | "off b (sequence seg) < off b (sequence s)"
    using off_inj [of b "sequence s" "sequence seg"] by linarith
  then show ?case
  proof cases
    case 1
    then show ?thesis by simp
  next
    case 2
    then have "insert_back seg (s # rs) = Some (seg # s # rs)" using td by auto
    moreover have lt: "off b (sequence x) < off b (sequence seg)" if "x \<in> set (s # rs)" for x
      using that 2 Cons.prems(1) by auto
    moreover have "sequence seg \<notin> sequence ` set (s # rs)"
      using lt by (metis image_iff less_irrefl)
    ultimately show ?thesis using Cons.prems(1) by (simp add: o_def)
  next
    case 3
    then have eq: "insert_back seg (s # rs) = map_option ((#) s) (insert_back seg rs)"
      using td by auto
    with 3 Cons show ?thesis by (auto split: option.splits)
  qed
qed simp

text \<open>What promotion does, whatever the state: it moves a run of consecutive numbers.\<close>

lemma promote_loop_moves:
  assumes "promote_loop wnd rb q rn = (rb', q', rn')"
  shows "\<exists>ms. rb = ms @ rb' \<and> q' = q @ ms \<and> rn' = rn + of_nat (length ms) \<and>
    (\<forall>i < length ms. sequence (ms ! i) = rn + of_nat i)"
  using assms
proof (induction rb arbitrary: q rn)
  case (Cons s rb)
  show ?case
  proof (cases "sequence s \<noteq> rn \<or> of_nat (length q) \<ge> wnd")
    case True
    with Cons.prems show ?thesis by (intro exI [of _ "[]"]) auto
  next
    case False
    then obtain ms where ms: "rb = ms @ rb'" "q' = (q @ [s]) @ ms" "rn' = rn + 1 + of_nat (length ms)"
      "\<forall>i < length ms. sequence (ms ! i) = rn + 1 + of_nat i"
      using Cons.IH [of "q @ [s]" "rn + 1"] Cons.prems by (simp split: if_splits) blast
    have "\<forall>i < length (s # ms). sequence ((s # ms) ! i) = rn + of_nat i"
      using False ms(4) by (auto simp: nth_Cons split: nat.splits)
    then show ?thesis using ms(1-3) by (intro exI [of _ "s # ms"]) (auto simp: algebra_simps)
  qed
qed simp

lemma recv_ok_step:
  assumes "recv_ok rn wnd (s # rb) q" and "sequence s = rn" and "length q < unat wnd"
  shows "recv_ok (rn + 1) wnd rb (q @ [s])"
proof -
  have one: "off rn (rn + 1) = 1" using off_Suc [of rn rn] by simp
  have pos: "1 \<le> off rn (sequence x)" if "x \<in> set rb" for x
    using assms(1,2) that by (fastforce simp: recv_ok_def)
  have re: "off (rn + 1) (sequence x) = off rn (sequence x) - 1" if "x \<in> set rb" for x
    using pos [OF that] one off_rebase [of rn "rn + 1" "sequence x"] by simp
  have "sorted_wrt (<) (map (off (rn + 1) \<circ> sequence) rb)"
    using assms(1) pos re unfolding recv_ok_def sorted_wrt_map
    by (simp, elim conjE) (rule sorted_wrt_mono_rel [rotated], assumption, auto simp: diff_less_mono)
  then show ?thesis
    using assms re by (auto simp: recv_ok_def)
qed

lemma promote_loop_ok:
  assumes "recv_ok rn wnd rb q" and "promote_loop wnd rb q rn = (rb', q', rn')"
  shows "recv_ok rn' wnd rb' q' \<and> (rb' = [] \<or> sequence (hd rb') \<noteq> rn' \<or> length q' = unat wnd)"
  using assms
proof (induction rb arbitrary: q rn)
  case (Cons s rb)
  have q: "length q \<le> unat wnd" using Cons.prems(1) by (simp add: recv_ok_def)
  show ?case
  proof (cases "sequence s \<noteq> rn \<or> of_nat (length q) \<ge> wnd")
    case True
    with Cons.prems q show ?thesis by (auto simp: of_nat_less_u32)
  next
    case False
    then have "recv_ok (rn + 1) wnd rb (q @ [s])"
      using Cons.prems(1) q of_nat_less_u32 [OF q] by (intro recv_ok_step) auto
    moreover have "promote_loop wnd rb (q @ [s]) (rn + 1) = (rb', q', rn')"
      using Cons.prems(2) False by (auto split: if_splits)
    ultimately show ?thesis by (rule Cons.IH)
  qed
qed simp

lemma recv_ok_shrink: "recv_ok rn wnd rb q \<Longrightarrow> length q' \<le> length q \<Longrightarrow> recv_ok rn wnd rb q'"
  by (auto simp: recv_ok_def)

lemma recv_ok_insert:
  assumes "recv_ok rn wnd rb q" and "off rn (sequence seg) < unat wnd"
    and "insert_back seg (rev rb) = Some rs"
  shows "recv_ok rn wnd (rev rs) q"
proof -
  have "sorted_wrt (>) (map (off rn \<circ> sequence) (rev rb))"
    using assms(1) by (simp add: recv_ok_def sorted_wrt_rev flip: rev_map)
  moreover have "\<forall>s \<in> set (rev rb). off rn (sequence s) < 2 ^ 31" "off rn (sequence seg) < 2 ^ 31"
    using assms(1,2) by (auto simp: recv_ok_def)
  ultimately have "sorted_wrt (>) (map (off rn \<circ> sequence) rs) \<and> set rs = insert seg (set rb)"
    using insert_back_spec [of rn "rev rb" seg] assms(3) by simp
  then show ?thesis
    using assms(1,2) by (auto simp: recv_ok_def sorted_wrt_rev simp flip: rev_map)
qed

section \<open>Packets within the MTU\<close>

definition packets_ok :: "nat \<Rightarrow> packets \<Rightarrow> bool" where
  "packets_ok m ps \<longleftrightarrow> length (fst ps) \<le> m \<and> (\<forall>p \<in> set (snd ps). 0 < length p \<and> length p \<le> m)"

lemma packets_ok_next: "packets_ok m (c, out) \<Longrightarrow> c \<noteq> [] \<Longrightarrow> length e \<le> m \<Longrightarrow> packets_ok m (e, out @ [c])"
  by (auto simp: packets_ok_def)

lemma packets_ok_fill: "packets_ok m (c, out) \<Longrightarrow> length c + length e \<le> m \<Longrightarrow> packets_ok m (c @ e, out)"
  by (auto simp: packets_ok_def)

lemma put_header_ok:
  assumes "headerSize \<le> m" and "packets_ok m ps"
  shows "packets_ok m (put_header m h ps)"
proof (cases "length (fst ps) + headerSize > m")
  case True
  with assms have "packets_ok m (encodeHeader h, snd ps @ [fst ps])"
    by (intro packets_ok_next) (simp_all, metis add_0 leD list.size(3))
  with True show ?thesis by (simp add: put_header_def)
next
  case False
  with assms have "packets_ok m (fst ps @ encodeHeader h, snd ps)"
    by (intro packets_ok_fill) simp_all
  with False show ?thesis by (simp add: put_header_def)
qed

lemma flush_acks_ok: "headerSize \<le> mtu a \<Longrightarrow> packets_ok (mtu a) ps \<Longrightarrow> packets_ok (mtu a) (flush_acks a wnd ks ps)"
proof (induction ks arbitrary: ps)
  case (Cons k ks)
  then show ?case by (simp add: put_header_ok)
qed simp

lemma put_segment_ok:
  assumes "headerSize + length (buf s) \<le> mtu a" and "packets_ok (mtu a) ps"
  shows "packets_ok (mtu a) (put_segment a wnd s ps)"
proof (cases "length (fst ps) + headerSize + length (buf s) > mtu a \<and> length (fst ps) > 0")
  case True
  with assms(2) have "packets_ok (mtu a) ([], snd ps @ [fst ps])" by (intro packets_ok_next) simp_all
  then have "packets_ok (mtu a) ([] @ e, snd ps @ [fst ps])" if "length e \<le> mtu a" for e
    using that by (intro packets_ok_fill) simp_all
  with True assms(1) show ?thesis by (simp add: put_segment_def Let_def)
next
  case False
  then have "length (fst ps) + headerSize + length (buf s) \<le> mtu a"
    using assms(1) by auto
  then have "packets_ok (mtu a) (fst ps @ e @ buf s, snd ps)" if "length e = headerSize" for e
    using that assms(2) by (intro packets_ok_fill) simp_all
  then show ?thesis unfolding put_segment_def Let_def if_not_P [OF False] by simp
qed

lemma send_loop_packets_ok:
  assumes "\<forall>s \<in> set sb. headerSize + length (buf s) \<le> mtu a"
    and "packets_ok (mtu a) (fa_packets acc)" and "send_loop a t wnd sb acc = (sb', acc')"
  shows "packets_ok (mtu a) (fa_packets acc')"
  using assms
proof (induction sb arbitrary: acc sb')
  case (Cons s sb)
  let ?s = "mark_segment a t s"
  have ok: "packets_ok (mtu a) (put_segment a wnd ?s (fa_packets acc))"
    using Cons.prems by (intro put_segment_ok) auto
  from Cons.prems(3) obtain ss acc1 where "send_loop a t wnd sb acc1 = (ss, acc')"
    and "fa_packets acc1 = fa_packets acc \<or> fa_packets acc1 = put_segment a wnd ?s (fa_packets acc)"
    by (force simp: Let_def split: prod.splits if_splits)
  with Cons.IH [of acc1 ss] Cons.prems(1,2) ok show ?case by auto
qed simp

lemma finish_packets_ok: "packets_ok m ps \<Longrightarrow> p \<in> set (finish_packets ps) \<Longrightarrow> 0 < length p \<and> length p \<le> m"
  by (auto simp: packets_ok_def finish_packets_def split: if_splits)

section \<open>The invariant of the whole state\<close>

definition arq_inv :: "arqState \<Rightarrow> bool" where
  "arq_inv a \<longleftrightarrow>
     mtu a = maxSegmentSize a + headerSize \<and> maxSegmentSize a > 0 \<and> mtu a < 2 ^ 32 \<and>
     (\<forall>s \<in> set (sendQueue a) \<union> set (sendBuf a). length (buf s) \<le> maxSegmentSize a) \<and>
     send_ok (sendUnacknowledged a) (sendNext a) (sendWindow a) (sendBuf a) \<and>
     recv_ok (receiveNext a) (receiveWindow a) (receiveBuf a) (receiveQueue a) \<and>
     minRetransmitTimeout a \<le> retransmitTimeout a \<and> retransmitTimeout a \<le> rtoMax \<and>
     minRetransmitTimeout a \<le> rtoMax \<and> probeWait a \<le> probeLimit"

definition good_config :: "arqConfig \<Rightarrow> bool" where
  "good_config cfg \<longleftrightarrow> cfg_mtu cfg > headerSize \<and> cfg_mtu cfg < 2 ^ 32 \<and> unat (cfg_sendWindow cfg) < 2 ^ 31 \<and>
     unat (cfg_receiveWindow cfg) < 2 ^ 31"

lemma arq_inv_init: "good_config cfg \<Longrightarrow> arq_inv (arq_init cfg)"
  by (simp add: good_config_def arq_inv_def arq_init_def send_ok_def recv_ok_def arq_consts)

text \<open>The fields of the state an operation on the receive side leaves alone.\<close>

lemma bounded_bufs: "map buf xs = map buf ys \<Longrightarrow> (\<forall>s \<in> set xs. length (buf s) \<le> n) = (\<forall>s \<in> set ys. length (buf s) \<le> n)"
proof -
  assume eq: "map buf xs = map buf ys"
  have key: "(\<forall>s \<in> set zs. length (buf s) \<le> n) = (\<forall>b \<in> set (map buf zs). length b \<le> n)" for zs
    by simp
  show ?thesis unfolding key eq ..
qed

lemma stream_chunks_bound: "s \<in> set (stream_chunks mss data) \<Longrightarrow> length (buf s) \<le> mss"
proof (induction mss data rule: stream_chunks.induct)
  case (1 mss data)
  then show ?case
    by (subst (asm) (2) stream_chunks.simps) (auto simp: new_segment_def Let_def split: if_splits)
qed

lemma message_chunks_bound: "s \<in> set (message_chunks mss n data) \<Longrightarrow> length (buf s) \<le> mss"
  by (induction n arbitrary: data) (auto simp: new_segment_def Let_def)

lemma arq_inv_send:
  assumes "arq_inv a" and "arq_send data a = Inr a'"
  shows "arq_inv a'"
proof -
  have "\<exists>q. a' = a\<lparr>sendQueue := q\<rparr> \<and> (\<forall>s \<in> set q. length (buf s) \<le> maxSegmentSize a)"
  proof (cases "streamMode a")
    case False
    with assms show ?thesis
      by (intro exI [of _ "sendQueue a'"])
        (auto simp: arq_send_def arq_inv_def Let_def dest: message_chunks_bound split: if_splits)
  next
    case True
    have old: "\<forall>s \<in> set (sendQueue a). length (buf s) \<le> maxSegmentSize a"
      using assms(1) by (simp add: arq_inv_def)
    show ?thesis
    proof (cases "rev (sendQueue a)")
      case Nil
      with assms(2) True old show ?thesis
        by (intro exI [of _ "sendQueue a'"]) (auto simp: arq_send_def dest: stream_chunks_bound)
    next
      case (Cons l front)
      then have eq: "sendQueue a = rev front @ [l]" by (metis rev.simps(2) rev_rev_ident)
      with assms(2) True old Cons show ?thesis
        by (intro exI [of _ "sendQueue a'"])
          (auto simp: arq_send_def Let_def dest: stream_chunks_bound split: if_splits)
    qed
  qed
  with assms(1) show ?thesis by (auto simp: arq_inv_def)
qed

lemma arq_inv_promote: "arq_inv a \<Longrightarrow> arq_inv (promoteReceiveBuf a)"
  using promote_loop_ok [of "receiveNext a" "receiveWindow a" "receiveBuf a" "receiveQueue a"]
  by (auto simp: promoteReceiveBuf_def arq_inv_def split: prod.splits)

lemma arq_inv_probeFlags [simp]: "arq_inv (a\<lparr>probeFlags := f\<rparr>) = arq_inv a"
  by (simp add: arq_inv_def)

lemma arq_inv_pop: "arq_inv a \<Longrightarrow> popMessage a = Some (m, a') \<Longrightarrow> arq_inv a'"
proof -
  assume inv: "arq_inv a" and pop: "popMessage a = Some (m, a')"
  have "arq_inv (dropReceiveQueue n a)" for n
    using inv by (auto simp: arq_inv_def dropReceiveQueue_def intro: recv_ok_shrink)
  then have "arq_inv (promoteReceiveBuf (dropReceiveQueue n a))" for n
    by (rule arq_inv_promote)
  with pop show ?thesis by (auto simp: popMessage_def Let_def split: if_splits)
qed

lemma arq_inv_insert:
  assumes "arq_inv a" and "off (receiveNext a) sn < unat (receiveWindow a)"
  shows "arq_inv (insertDataSegment sn frg payload a)"
proof -
  let ?seg = "new_segment payload sn frg"
  have rv: "recv_ok (receiveNext a) (receiveWindow a) (receiveBuf a) (receiveQueue a)"
    using assms(1) by (simp add: arq_inv_def)
  show ?thesis
  proof (cases "sn = receiveNext a \<and> receiveBuf a = [] \<and> of_nat (length (receiveQueue a)) < receiveWindow a")
    case True
    then have "recv_ok (receiveNext a + 1) (receiveWindow a) [] (receiveQueue a @ [?seg])"
      using rv of_nat_less_u32 [of "length (receiveQueue a)" "receiveWindow a"] by (auto simp: recv_ok_def)
    with True assms(1) show ?thesis by (simp add: insertDataSegment_def arq_inv_def)
  next
    case False
    show ?thesis
    proof (cases "insert_back ?seg (rev (receiveBuf a))")
      case None
      with False assms(1) show ?thesis by (auto simp: insertDataSegment_def)
    next
      case (Some rs)
      have "recv_ok (receiveNext a) (receiveWindow a) (rev rs) (receiveQueue a)"
        using rv _ Some by (rule recv_ok_insert) (use assms(2) in \<open>simp add: new_segment_def\<close>)
      with assms(1) have "arq_inv (a\<lparr>receiveBuf := rev rs\<rparr>)" by (simp add: arq_inv_def)
      with False Some show ?thesis by (auto simp: insertDataSegment_def intro: arq_inv_promote)
    qed
  qed
qed

lemma arq_inv_input_push:
  assumes "arq_inv a" shows "arq_inv (input_push h payload a)"
proof -
  have wnd: "unat (receiveWindow a) < 2 ^ 31" using assms by (simp add: arq_inv_def recv_ok_def)
  let ?a = "a\<lparr>pendingAcks := pendingAcks a @ [\<lparr>ack_sequence = h_sn h, ack_timestamp = h_ts h\<rparr>]\<rparr>"
  have inv: "arq_inv ?a" using assms by (simp add: arq_inv_def)
  show ?thesis
  proof (cases "timeDiff (h_sn h) (receiveNext a + receiveWindow a) < 0 \<and> timeDiff (h_sn h) (receiveNext a) \<ge> 0")
    case True
    then have "off (receiveNext ?a) (h_sn h) < unat (receiveWindow ?a)"
      using window_test wnd by simp
    from arq_inv_insert [OF inv this] True show ?thesis by (simp add: input_push_def Let_def)
  next
    case False
    with assms inv show ?thesis by (auto simp: input_push_def Let_def)
  qed
qed

lemma arq_inv_sendBuf:
  assumes "arq_inv a" and "send_ok una (sendNext a) (sendWindow a) sb" and "\<forall>s \<in> set sb. length (buf s) \<le> maxSegmentSize a"
  shows "arq_inv (a\<lparr>sendUnacknowledged := una, sendBuf := sb\<rparr>)"
  using assms by (auto simp: arq_inv_def)

lemma arq_inv_una: "arq_inv a \<Longrightarrow> arq_inv (fst (parseUnacknowledged una a))"
  using una_loop_subset [of una "sendBuf a"]
  by (auto simp: parseUnacknowledged_def Let_def arq_inv_def intro: send_ok_una_loop)

lemma arq_inv_refresh: "arq_inv a \<Longrightarrow> arq_inv (refreshSendUnacknowledged a)"
  using send_ok_refresh [of "sendUnacknowledged a" "sendNext a" "sendWindow a" "sendBuf a"]
  by (auto simp: refreshSendUnacknowledged_def arq_inv_def)

lemma arq_inv_parseAck: "arq_inv a \<Longrightarrow> arq_inv (parseAck sn a)"
  using ack_loop_subset [of sn "sendBuf a"]
  by (auto simp: parseAck_def arq_inv_def intro: send_ok_ack_loop)

lemma arq_inv_parseFastAck:
  assumes "arq_inv a" shows "arq_inv (fst (parseFastAck sn a))"
proof -
  obtain ss t where f: "fast_ack_loop (fastResend a) sn (sendBuf a) = (ss, t)" by fastforce
  note k = fast_ack_loop_keeps [OF f]
  have "arq_inv (a\<lparr>sendBuf := ss\<rparr>)"
    using assms send_ok_seqs [of ss "sendBuf a"] bounded_bufs [of ss "sendBuf a"] k
    by (auto simp: arq_inv_def ball_Un)
  with assms f show ?thesis by (simp add: parseFastAck_def)
qed

lemma arq_inv_input_segment:
  assumes "arq_inv a" shows "arq_inv (fst (input_segment h payload a))"
proof -
  let ?a0 = "a\<lparr>remoteWindow := ucast (h_wnd h)\<rparr>"
  have "arq_inv ?a0" using assms by (simp add: arq_inv_def)
  then have a2: "arq_inv (refreshSendUnacknowledged (fst (parseUnacknowledged (h_una h) ?a0)))"
    by (intro arq_inv_refresh arq_inv_una)
  then have "arq_inv (fst (parseFastAck (h_sn h) (refreshSendUnacknowledged (parseAck (h_sn h)
      (refreshSendUnacknowledged (fst (parseUnacknowledged (h_una h) ?a0)))))))"
    by (rule arq_inv_parseFastAck [OF arq_inv_refresh [OF arq_inv_parseAck]])
  with a2 arq_inv_input_push [OF a2, of h payload] show ?thesis
    by (simp add: input_segment_def Let_def case_prod_beta)
qed

lemma arq_inv_input_loop: "arq_inv a \<Longrightarrow> arq_inv (fst (input_loop data rtt fast a))"
proof (induction data rtt fast a rule: input_loop.induct)
  case (1 data rtt fast a)
  let ?h = "readHeader data" and ?rest = "drop headerSize data"
  show ?case
  proof (cases "length data < headerSize \<or> h_conv ?h \<noteq> conversationID a \<or>
      length ?rest < unat (h_length ?h) \<or> \<not> known_cmd (h_cmd ?h)")
    case True
    with 1 show ?thesis by (subst input_loop.simps) (auto simp: Let_def)
  next
    case False
    obtain a' t where s: "input_segment ?h (take (unat (h_length ?h)) ?rest) a = (a', t)" by fastforce
    have "arq_inv a'" using arq_inv_input_segment [OF "1.prems"] s by (metis fst_conv)
    with 1 False s show ?thesis by (subst input_loop.simps) (simp add: Let_def)
  qed
qed

text \<open>The retransmission timeout is clamped, whatever the measured round trip wraps to.\<close>

lemma smoothRTT_frame:
  obtains sr rv where "smoothRTT rtt a = a\<lparr>smoothedRTT := sr, rttVariance := rv\<rparr>"
proof
  show "smoothRTT rtt a = a\<lparr>smoothedRTT := smoothedRTT (smoothRTT rtt a), rttVariance := rttVariance (smoothRTT rtt a)\<rparr>"
    by (simp add: smoothRTT_def Let_def)
qed

lemma updateRTT_frame:
  obtains sr rv x where
    "updateRTT rtt a = a\<lparr>smoothedRTT := sr, rttVariance := rv,
       retransmitTimeout := min (max x (minRetransmitTimeout a)) rtoMax\<rparr>"
proof -
  obtain sr rv where "smoothRTT rtt a = a\<lparr>smoothedRTT := sr, rttVariance := rv\<rparr>"
    by (rule smoothRTT_frame)
  then show thesis by (intro that) (simp add: updateRTT_def Let_def)
qed

lemma arq_inv_updateRTT: "arq_inv a \<Longrightarrow> arq_inv (updateRTT rtt a)"
proof -
  assume inv: "arq_inv a"
  obtain sr rv x where eq: "updateRTT rtt a = a\<lparr>smoothedRTT := sr, rttVariance := rv,
       retransmitTimeout := min (max x (minRetransmitTimeout a)) rtoMax\<rparr>"
    by (rule updateRTT_frame)
  have "minRetransmitTimeout a \<le> rtoMax" using inv by (simp add: arq_inv_def)
  then have "minRetransmitTimeout a \<le> min (max x (minRetransmitTimeout a)) rtoMax"
    and "min (max x (minRetransmitTimeout a)) rtoMax \<le> rtoMax" by (auto simp: min_def max_def)
  with inv show ?thesis by (simp add: eq arq_inv_def)
qed

lemma arq_inv_grow: "arq_inv a \<Longrightarrow> arq_inv (growCongestionWindow a)"
  by (simp add: arq_inv_def growCongestionWindow_def Let_def)

lemma arq_inv_input: "arq_inv a \<Longrightarrow> arq_inv (fst (arq_input data now a))"
proof -
  assume inv: "arq_inv a"
  obtain a1 r where l: "input_loop data None False a = (a1, r)" by fastforce
  have a1: "arq_inv a1" using arq_inv_input_loop [OF inv] l by (metis fst_conv)
  show ?thesis
  proof (cases r)
    case None
    with inv a1 l show ?thesis by (simp add: arq_input_def)
  next
    case (Some p)
    obtain rtt fast where p: "p = (rtt, fast)" by fastforce
    define a2 where "a2 = (case rtt of
        Some ts \<Rightarrow> if timeDiff now ts \<ge> 0 then updateRTT (timeDiff now ts) a1 else a1 | None \<Rightarrow> a1)"
    have "arq_inv a2" using a1 by (auto simp: a2_def intro: arq_inv_updateRTT split: option.split)
    with inv l Some p show ?thesis
      by (auto simp: arq_input_def Let_def a2_def [symmetric] intro: arq_inv_grow)
  qed
qed

lemma arq_inv_buf_small: "arq_inv a \<Longrightarrow> s \<in> set (sendBuf a) \<Longrightarrow> length (buf s) < 2 ^ 32"
proof -
  assume "arq_inv a" and "s \<in> set (sendBuf a)"
  then have "length (buf s) \<le> maxSegmentSize a" and "maxSegmentSize a + headerSize < 2 ^ 32"
    by (auto simp: arq_inv_def)
  then show ?thesis by linarith
qed

section \<open>Flushing keeps the invariant and the MTU\<close>

lemma arq_inv_probe_timer: "arq_inv a \<Longrightarrow> arq_inv (flush_probe_timer now a)"
  by (auto simp: arq_inv_def flush_probe_timer_def Let_def arq_consts)

lemma flush_probe_timer_mtu [simp]: "mtu (flush_probe_timer now a) = mtu a"
  by (simp add: flush_probe_timer_def Let_def)

lemma flush_probes_fst [simp]: "fst (flush_probes a wnd ps) = a\<lparr>probeFlags := 0\<rparr>"
  by (simp add: flush_probes_def Let_def)

lemma flush_probes_ok:
  "headerSize \<le> mtu a \<Longrightarrow> packets_ok (mtu a) ps \<Longrightarrow> packets_ok (mtu a) (snd (flush_probes a wnd ps))"
  by (simp add: flush_probes_def Let_def put_header_ok)

lemma flush_window_le: "unat (flush_window a) \<le> unat (sendWindow a)"
  by (auto simp: flush_window_def Let_def word_le_nat_alt [symmetric] min_def)

lemma arq_inv_move:
  assumes "arq_inv a" and "unat cwnd \<le> unat (sendWindow a)"
  shows "arq_inv (flush_move cwnd a)"
proof -
  obtain q sb nxt where m: "move_loop (sendUnacknowledged a + cwnd) (sendQueue a) (sendBuf a) (sendNext a) = (q, sb, nxt)"
    by (metis prod_cases3)
  have "send_ok (sendUnacknowledged a) (sendNext a) (sendWindow a) (sendBuf a)"
    using assms(1) by (simp add: arq_inv_def)
  from move_loop_spec [OF this assms(2) m] obtain ms where
    ok: "send_ok (sendUnacknowledged a) nxt (sendWindow a) sb"
    and ms: "map buf (sendQueue a) = map buf (ms @ q)" "sb = sendBuf a @ ms"
    by auto
  have "\<forall>s \<in> set (ms @ q). length (buf s) \<le> maxSegmentSize a"
    using assms(1) bounded_bufs [OF ms(1)] by (auto simp: arq_inv_def)
  with assms(1) ok ms(2) m show ?thesis by (auto simp: flush_move_def arq_inv_def)
qed

lemma flush_move_mtu [simp]: "mtu (flush_move cwnd a) = mtu a"
  by (simp add: flush_move_def case_prod_beta)

lemma arq_inv_congestion: "arq_inv (flush_congestion f l c a) = arq_inv a"
  by (simp add: arq_inv_def flush_congestion_def Let_def)

lemma arq_inv_sent:
  assumes "arq_inv a" and "send_loop a now wnd (sendBuf a) acc = (sb, acc')"
  shows "arq_inv (a\<lparr>sendBuf := sb, dead := d\<rparr>)"
  using assms(1) send_loop_keeps [OF assms(2)] send_ok_seqs [of sb "sendBuf a"] bounded_bufs [of sb "sendBuf a"]
  by (auto simp: arq_inv_def ball_Un)

text \<open>A flush in pieces: the packets after the acknowledgements and after the probes, and the state
  when the segments are sent.\<close>

definition flush_ps0 :: "arqState \<Rightarrow> packets" where
  "flush_ps0 a = flush_acks a (unusedReceiveWindow a) (pendingAcks a) ([], [])"

definition flush_a3 :: "u32 \<Rightarrow> arqState \<Rightarrow> arqState" where
  "flush_a3 now a = (flush_probe_timer now (a\<lparr>pendingAcks := []\<rparr>))\<lparr>probeFlags := 0\<rparr>"

definition flush_ps1 :: "u32 \<Rightarrow> arqState \<Rightarrow> packets" where
  "flush_ps1 now a = snd (flush_probes (flush_probe_timer now (a\<lparr>pendingAcks := []\<rparr>)) (unusedReceiveWindow a) (flush_ps0 a))"

definition flush_a4 :: "u32 \<Rightarrow> arqState \<Rightarrow> arqState" where
  "flush_a4 now a = flush_move (flush_window (flush_a3 now a)) (flush_a3 now a)"

lemma arq_flush_shape:
  assumes "arq_flush now ackOnly a = (a', out)"
  obtains (idle) "a' = a" "out = []"
  | (acks) "a' = a\<lparr>pendingAcks := []\<rparr>" "out = finish_packets (flush_ps0 a)"
  | (full) sb acc d where "send_loop (flush_a4 now a) now (unusedReceiveWindow a) (sendBuf (flush_a4 now a))
        \<lparr>fa_packets = flush_ps1 now a, fa_dead = d, fa_fast = False, fa_lost = False\<rparr> = (sb, acc)"
      "a' = flush_congestion (fa_fast acc) (fa_lost acc) (flush_window (flush_a3 now a))
        ((flush_a4 now a)\<lparr>sendBuf := sb, dead := fa_dead acc\<rparr>)"
      "out = finish_packets (fa_packets acc)"
proof (cases "\<not> hasPendingWork a \<and> remoteWindow a > 0")
  case True
  with assms idle show ?thesis by (auto simp: arq_flush_def)
next
  case False
  show ?thesis
  proof (cases ackOnly)
    case True
    with False assms have "a' = a\<lparr>pendingAcks := []\<rparr> \<and> out = finish_packets (flush_ps0 a)"
      by (auto simp: arq_flush_def Let_def flush_ps0_def)
    then show ?thesis by (intro acks) simp_all
  next
    case not_ack: False
    obtain sb acc where l: "send_loop (flush_a4 now a) now (unusedReceiveWindow a) (sendBuf (flush_a4 now a))
        \<lparr>fa_packets = flush_ps1 now a, fa_dead = dead (flush_a4 now a), fa_fast = False, fa_lost = False\<rparr> = (sb, acc)"
      by fastforce
    have "a' = flush_congestion (fa_fast acc) (fa_lost acc) (flush_window (flush_a3 now a))
        ((flush_a4 now a)\<lparr>sendBuf := sb, dead := fa_dead acc\<rparr>) \<and> out = finish_packets (fa_packets acc)"
      using False not_ack assms l
      by (auto simp: arq_flush_def Let_def case_prod_beta flush_ps0_def [symmetric]
          flush_a3_def [symmetric] flush_ps1_def [symmetric] flush_a4_def [symmetric])
    with l show ?thesis by (intro full) simp_all
  qed
qed

lemma arq_inv_a4: "arq_inv a \<Longrightarrow> arq_inv (flush_a4 now a)"
proof -
  assume "arq_inv a"
  then have "arq_inv (a\<lparr>pendingAcks := []\<rparr>)" by (simp add: arq_inv_def)
  then have "arq_inv (flush_a3 now a)" by (simp add: flush_a3_def arq_inv_probe_timer)
  then show ?thesis unfolding flush_a4_def by (intro arq_inv_move flush_window_le)
qed

lemma flush_a4_mtu [simp]: "mtu (flush_a4 now a) = mtu a"
  by (simp add: flush_a4_def flush_a3_def)

lemma arq_flush_ok:
  assumes "arq_inv a" and "arq_flush now ackOnly a = (a', out)"
  shows "arq_inv a' \<and> (\<forall>p \<in> set out. 0 < length p \<and> length p \<le> mtu a)"
proof -
  have m: "headerSize \<le> mtu a" using assms(1) by (simp add: arq_inv_def)
  have p0: "packets_ok (mtu a) (flush_ps0 a)"
    unfolding flush_ps0_def by (rule flush_acks_ok [OF m]) (simp add: packets_ok_def)
  have p1: "packets_ok (mtu a) (flush_ps1 now a)"
    using flush_probes_ok [of "flush_probe_timer now (a\<lparr>pendingAcks := []\<rparr>)" "flush_ps0 a"] m p0
    by (simp add: flush_ps1_def)
  show ?thesis
    using assms(2)
  proof (cases rule: arq_flush_shape)
    case idle
    with assms(1) show ?thesis by simp
  next
    case acks
    with assms(1) finish_packets_ok [OF p0] show ?thesis by (simp add: arq_inv_def)
  next
    case (full sb acc d)
    have a4: "arq_inv (flush_a4 now a)" using assms(1) by (rule arq_inv_a4)
    then have "\<forall>s \<in> set (sendBuf (flush_a4 now a)). headerSize + length (buf s) \<le> mtu (flush_a4 now a)"
      by (auto simp: arq_inv_def)
    from send_loop_packets_ok [OF this _ full(1)] p1 have "packets_ok (mtu a) (fa_packets acc)" by simp
    with full finish_packets_ok arq_inv_sent [OF a4 full(1)] show ?thesis
      by (simp add: arq_inv_congestion)
  qed
qed

lemma update_timer_frame:
  obtains i t where "fst (update_timer now a) = a\<lparr>flushInitialized := i, nextFlushTimestamp := t\<rparr>"
proof
  show "fst (update_timer now a) = a\<lparr>flushInitialized := flushInitialized (fst (update_timer now a)),
      nextFlushTimestamp := nextFlushTimestamp (fst (update_timer now a))\<rparr>"
    by (simp add: update_timer_def Let_def)
qed

lemma arq_update_shape:
  assumes "arq_update now a = (a', out)"
  obtains b i t where "b = a\<lparr>flushInitialized := i, nextFlushTimestamp := t\<rparr>"
    "arq_flush now False b = (a', out) \<or> a' = b \<and> out = []"
proof -
  obtain i t where "fst (update_timer now a) = a\<lparr>flushInitialized := i, nextFlushTimestamp := t\<rparr>"
    by (rule update_timer_frame)
  moreover have "arq_flush now False (fst (update_timer now a)) = (a', out) \<or>
      a' = fst (update_timer now a) \<and> out = []"
    using assms by (auto simp: arq_update_def case_prod_beta split: if_splits)
  ultimately show thesis by (rule that)
qed

lemma arq_update_ok:
  assumes "arq_inv a" and "arq_update now a = (a', out)"
  shows "arq_inv a' \<and> (\<forall>p \<in> set out. 0 < length p \<and> length p \<le> mtu a)"
  using assms(2)
proof (cases rule: arq_update_shape)
  case (1 b i t)
  then have "arq_inv b" "mtu b = mtu a" using assms(1) by (simp_all add: arq_inv_def)
  with 1(2) show ?thesis using arq_flush_ok [of b now False a' out] by auto
qed

section \<open>Runs of the state machine\<close>

inductive arq_step :: "arqState \<Rightarrow> arqState \<Rightarrow> bool" where
  step_send: "arq_send data a = Inr a' \<Longrightarrow> arq_step a a'"
| step_input: "arq_input data now a = (a', t) \<Longrightarrow> arq_step a a'"
| step_flush: "arq_flush now ackOnly a = (a', out) \<Longrightarrow> arq_step a a'"
| step_update: "arq_update now a = (a', out) \<Longrightarrow> arq_step a a'"
| step_pop: "popMessage a = Some (msg, a') \<Longrightarrow> arq_step a a'"

definition arq_start :: "arqState \<Rightarrow> bool" where
  "arq_start a \<longleftrightarrow> (\<exists>cfg. good_config cfg \<and> a = arq_init cfg)"

interpretation arq_run: inductive_invariant arq_start arq_step arq_inv
proof unfold_locales
  fix s assume "arq_start s"
  then show "arq_inv s" by (auto simp: arq_start_def intro: arq_inv_init)
next
  fix s t assume "arq_inv s" and "arq_step s t"
  then show "arq_inv t"
    using arq_inv_input arq_flush_ok arq_update_ok arq_inv_send arq_inv_pop
    by (metis arq_step.cases fst_conv)
qed

section \<open>The acknowledgement loops as filters\<close>

lemma una_loop_filter:
  assumes "sorted_wrt (<) (map (off b \<circ> sequence) sb)" and "\<forall>s \<in> set sb. off b (sequence s) < 2 ^ 31"
    and "off b u < 2 ^ 31"
  shows "una_loop u sb = filter (\<lambda>s. off b u \<le> off b (sequence s)) sb"
  using assms
proof (induction sb)
  case (Cons s sb)
  have "timeDiff u (sequence s) = int (off b u) - int (off b (sequence s))"
    using Cons.prems by (intro timeDiff_off) auto
  then have c: "timeDiff u (sequence s) \<le> 0 \<longleftrightarrow> off b u \<le> off b (sequence s)" by linarith
  show ?case
  proof (cases "off b u \<le> off b (sequence s)")
    case True
    then have "off b u \<le> off b (sequence x)" if "x \<in> set sb" for x
      using Cons.prems(1) that by (auto intro: order.trans less_imp_le)
    with True c show ?thesis by simp
  next
    case False
    with c Cons show ?thesis by simp
  qed
qed simp

lemma ack_loop_filter:
  assumes "sorted_wrt (<) (map (off b \<circ> sequence) sb)" and "\<forall>s \<in> set sb. off b (sequence s) < 2 ^ 31"
    and "off b sn < 2 ^ 31"
  shows "ack_loop sn sb = filter (\<lambda>s. sequence s \<noteq> sn) sb"
  using assms
proof (induction sb)
  case (Cons s sb)
  have "timeDiff sn (sequence s) = int (off b sn) - int (off b (sequence s))"
    using Cons.prems by (intro timeDiff_off) auto
  then have c: "timeDiff sn (sequence s) < 0 \<longleftrightarrow> off b sn < off b (sequence s)" by linarith
  have gt: "off b (sequence s) < off b (sequence x)" if "x \<in> set sb" for x
    using Cons.prems(1) that by auto
  show ?case
  proof (cases "off b sn \<le> off b (sequence s)")
    case True
    then have "sequence x \<noteq> sn" if "x \<in> set sb" for x using gt [OF that] by auto
    then have "filter (\<lambda>s. sequence s \<noteq> sn) sb = sb" by simp
    with True c off_inj [of b sn "sequence s"] show ?thesis by auto
  next
    case False
    with c Cons show ?thesis by auto
  qed
qed simp

section \<open>Properties\<close>

text \<open>
  C4. In every state the ARQ reaches by sending, receiving any bytes at all, flushing, ticking and
  delivering, no more than a send window of segments is under way, the numbers in the send buffer
  grow strictly between the oldest unacknowledged and the next one, the receive queue holds at most
  a receive window and the receive buffer only numbers inside it, in order, and the retransmission
  timeout stays between its minimum and a minute.
\<close>

theorem arq_reachable_bounds:
  assumes "reach arq_start arq_step a"
  shows "off (sendUnacknowledged a) (sendNext a) \<le> unat (sendWindow a) \<and>
    sorted_wrt (<) (map (off (sendUnacknowledged a) \<circ> sequence) (sendBuf a)) \<and>
    (\<forall>s \<in> set (sendBuf a). off (sendUnacknowledged a) (sequence s) < off (sendUnacknowledged a) (sendNext a)) \<and>
    length (receiveQueue a) \<le> unat (receiveWindow a) \<and>
    sorted_wrt (<) (map (off (receiveNext a) \<circ> sequence) (receiveBuf a)) \<and>
    (\<forall>s \<in> set (receiveBuf a). off (receiveNext a) (sequence s) < unat (receiveWindow a)) \<and>
    minRetransmitTimeout a \<le> retransmitTimeout a \<and> retransmitTimeout a \<le> rtoMax"
  using arq_run.reach_inv [OF assms] by (auto simp: arq_inv_def send_ok_def recv_ok_def)

text \<open>A run for the witnesses: the default configuration, one message queued.\<close>

definition cfg1 :: arqConfig where
  "cfg1 = \<lparr>cfg_conversationID = 7, cfg_mtu = 1400, cfg_sendWindow = 128, cfg_receiveWindow = 128,
    cfg_interval = 10, cfg_noDelay = True, cfg_streamMode = False\<rparr>"

definition arq1 :: arqState where
  "arq1 = (arq_init cfg1)\<lparr>sendQueue := [new_segment [1, 2, 3] 0 0]\<rparr>"

lemma arq1_sent: "arq_send [1, 2, 3] (arq_init cfg1) = Inr arq1"
  by (simp add: arq_send_def arq1_def arq_init_def cfg1_def message_count_def headerSize_def Let_def)

lemma arq1_reach: "reach arq_start arq_step arq1"
proof (rule reach_step)
  show "reach arq_start arq_step (arq_init cfg1)"
    by (rule reach_init, unfold arq_start_def, rule exI [of _ cfg1])
      (simp add: good_config_def cfg1_def headerSize_def)
  show "arq_step (arq_init cfg1) arq1" using arq1_sent by (rule step_send)
qed

theorem arq_reachable_bounds_witness:
  "off (sendUnacknowledged arq1) (sendNext arq1) \<le> 128 \<and> retransmitTimeout arq1 \<le> rtoMax"
proof -
  have "unat (sendWindow arq1) = 128" by (simp add: arq1_def arq_init_def cfg1_def)
  with arq_reachable_bounds [OF arq1_reach] show ?thesis by simp
qed

text \<open>
  C5. Every packet handed to the socket by a flush or a tick is non-empty and at most the MTU long,
  in every reachable state: the encoding never runs past the packet buffer.
\<close>

theorem arq_packets_within_mtu:
  assumes "reach arq_start arq_step a"
    and "arq_flush now ackOnly a = (a', out) \<or> arq_update now a = (a', out)"
    and "p \<in> set out"
  shows "0 < length p \<and> length p \<le> mtu a"
  using arq_run.reach_inv [OF assms(1)] assms(2,3) arq_flush_ok arq_update_ok by blast

lemma arq1_flush: "snd (arq_flush 0 False arq1) = [encodeHeader \<lparr>h_conv = 7, h_cmd = 81, h_frg = 0, h_wnd = 128,
    h_ts = 0, h_sn = 0, h_una = 0, h_length = 3\<rparr> @ [1, 2, 3]]"
  by (simp add: arq_flush_def arq1_def arq_init_def cfg1_def hasPendingWork_def unusedReceiveWindow_def
      flush_probe_timer_def flush_probes_def flush_window_def flush_move_def timeDiff_def Let_def
      segment_due_def mark_segment_def put_segment_def new_segment_def finish_packets_def arq_consts)

theorem arq_packets_within_mtu_witness:
  "\<exists>p. snd (arq_flush 0 False arq1) = [p] \<and> 0 < length p \<and> length p \<le> 1400"
proof -
  obtain a' out where f: "arq_flush 0 False arq1 = (a', out)" by fastforce
  then obtain p where "out = [p]" using arq1_flush by simp
  moreover have "mtu arq1 = 1400" by (simp add: arq1_def arq_init_def cfg1_def)
  ultimately show ?thesis
    using arq_packets_within_mtu [OF arq1_reach disjI1, OF f, of p] f by simp
qed

text \<open>
  The 24-byte header decodes to what was encoded, whatever follows it, and leaves exactly what
  follows.
\<close>

theorem kcp_header_roundtrip:
  "length (encodeHeader h) = headerSize \<and> decodeHeader (encodeHeader h @ r) = Some (h, r)"
  by (simp add: kcp_wire.dec_enc)

text \<open>
  C7. In every reachable state the acknowledgement loops, which stop early, remove exactly what they
  should: a cumulative acknowledgement \<open>u\<close> removes the segments numbered before \<open>u\<close>, a selective one
  removes the segment numbered \<open>sn\<close> and no other, and one outside what is under way removes nothing.
\<close>

theorem arq_acks_are_filters:
  assumes "reach arq_start arq_step a"
  shows "(timeDiff u (sendUnacknowledged a) \<ge> 0 \<longrightarrow>
      sendBuf (fst (parseUnacknowledged u a)) =
        filter (\<lambda>s. off (sendUnacknowledged a) u \<le> off (sendUnacknowledged a) (sequence s)) (sendBuf a)) \<and>
    sendBuf (parseAck sn a) =
      (if timeDiff sn (sendUnacknowledged a) < 0 \<or> timeDiff sn (sendNext a) \<ge> 0 then sendBuf a
       else filter (\<lambda>s. sequence s \<noteq> sn) (sendBuf a))"
proof -
  let ?b = "sendUnacknowledged a"
  have ok: "send_ok ?b (sendNext a) (sendWindow a) (sendBuf a)"
    using arq_run.reach_inv [OF assms] by (simp add: arq_inv_def)
  then have s: "sorted_wrt (<) (map (off ?b \<circ> sequence) (sendBuf a))"
    and l: "\<forall>s \<in> set (sendBuf a). off ?b (sequence s) < 2 ^ 31"
    by (auto simp: send_ok_def)
  have "off ?b x < 2 ^ 31" if "timeDiff x ?b \<ge> 0" for x using timeDiff_nonneg [OF that] by simp
  with una_loop_filter [OF s l] ack_loop_filter [OF s l] show ?thesis
    by (simp add: parseUnacknowledged_def parseAck_def Let_def)
qed

definition arq2 :: arqState where "arq2 = fst (arq_flush 0 False arq1)"

lemma arq2_fields: "map sequence (sendBuf arq2) = [0]" "sendUnacknowledged arq2 = 0" "sendNext arq2 = 1"
  by (simp_all add: arq2_def arq_flush_def arq1_def arq_init_def cfg1_def hasPendingWork_def unusedReceiveWindow_def
      flush_probe_timer_def flush_probes_def flush_window_def flush_move_def timeDiff_def Let_def
      segment_due_def mark_segment_def put_segment_def new_segment_def finish_packets_def flush_congestion_def arq_consts)

lemma arq2_reach: "reach arq_start arq_step arq2"
proof (rule reach_step [OF arq1_reach])
  have "arq_flush 0 False arq1 = (arq2, snd (arq_flush 0 False arq1))" by (simp add: arq2_def)
  then show "arq_step arq1 arq2" by (rule step_flush)
qed

theorem arq_acks_are_filters_witness: "length (sendBuf arq2) = 1 \<and> sendBuf (parseAck 0 arq2) = []"
proof -
  obtain s where "sendBuf arq2 = [s]" "sequence s = 0" using arq2_fields(1) by auto
  then show ?thesis
    using arq_acks_are_filters [OF arq2_reach, of 0 0] by (simp add: arq2_fields timeDiff_def)
qed

end
