(* ===== verification/KcpDelivery.thy ===== *)
theory KcpDelivery
  imports KcpInv "HOL-Library.Sublist"
begin

text \<open>
  End to end: two ARQ state machines and the network between them, which may lose, duplicate,
  delay and reorder the packets of the sender without limit. What the receiver delivers is a prefix
  of what the sender was given: message by message in message mode, byte by byte in stream mode.
\<close>

section \<open>What is on the wire\<close>

definition content :: "segment \<Rightarrow> byte \<times> bytes" where
  "content s = (fragment s, buf s)"

definition enc_segments :: "(kcp_header \<times> bytes) list \<Rightarrow> bytes" where
  "enc_segments xs = concat (map (\<lambda>(h, pl). encodeHeader h @ pl) xs)"

text \<open>\<open>sent\<close> is what has been given a number so far, in order: number \<open>n\<close> carries \<open>sent ! n\<close>.\<close>

definition genuine :: "(byte \<times> bytes) list \<Rightarrow> kcp_header \<times> bytes \<Rightarrow> bool" where
  "genuine sent x \<longleftrightarrow>
     length (snd x) < 2 ^ 32 \<and> h_length (fst x) = of_nat (length (snd x)) \<and>
     (h_cmd (fst x) = cmdPush \<longrightarrow>
        (\<exists>n < length sent. h_sn (fst x) = of_nat n \<and> sent ! n = (h_frg (fst x), snd x)))"

definition genuine_packet :: "(byte \<times> bytes) list \<Rightarrow> bytes \<Rightarrow> bool" where
  "genuine_packet sent p \<longleftrightarrow> (\<exists>xs. p = enc_segments xs \<and> list_all (genuine sent) xs)"

lemma genuine_mono: "genuine sent x \<Longrightarrow> genuine (sent @ rest) x"
  by (fastforce simp: genuine_def nth_append)

lemma genuine_packet_mono: "genuine_packet sent p \<Longrightarrow> genuine_packet (sent @ rest) p"
  unfolding genuine_packet_def by (metis genuine_mono list.pred_mono_strong)

lemma genuine_packet_Nil [simp]: "genuine_packet sent []"
  unfolding genuine_packet_def by (rule exI [of _ "[]"]) (simp add: enc_segments_def)

lemma genuine_packet_snoc:
  "genuine_packet sent p \<Longrightarrow> genuine sent (h, pl) \<Longrightarrow> genuine_packet sent (p @ encodeHeader h @ pl)"
  unfolding genuine_packet_def
  by (elim exE conjE, rule_tac x = "xs @ [(h, pl)]" in exI) (simp add: enc_segments_def)

definition genuine_packets :: "(byte \<times> bytes) list \<Rightarrow> packets \<Rightarrow> bool" where
  "genuine_packets sent ps \<longleftrightarrow> genuine_packet sent (fst ps) \<and> (\<forall>p \<in> set (snd ps). genuine_packet sent p)"

lemma genuine_packets_header:
  assumes "genuine_packets sent ps" and "genuine sent (h, [])"
  shows "genuine_packets sent (put_header m h ps)"
  using assms genuine_packet_snoc [OF _ assms(2)] genuine_packet_snoc [OF genuine_packet_Nil assms(2)]
  by (simp add: genuine_packets_def put_header_def)

lemma genuine_ctl: "h_cmd h \<noteq> cmdPush \<Longrightarrow> h_length h = 0 \<Longrightarrow> genuine sent (h, [])"
  by (simp add: genuine_def)

lemma genuine_acks: "genuine_packets sent ps \<Longrightarrow> genuine_packets sent (flush_acks a wnd ks ps)"
proof (induction ks arbitrary: ps)
  case (Cons k ks)
  have "genuine_packets sent (put_header (mtu a) \<lparr>h_conv = conversationID a, h_cmd = cmdAck, h_frg = 0, h_wnd = wnd,
      h_ts = ack_timestamp k, h_sn = ack_sequence k, h_una = receiveNext a, h_length = 0\<rparr> ps)"
    by (rule genuine_packets_header [OF Cons.prems genuine_ctl]) (simp_all add: cmdAck_def cmdPush_def)
  with Cons show ?case by simp
qed simp

lemma genuine_probes: "genuine_packets sent ps \<Longrightarrow> genuine_packets sent (snd (flush_probes a wnd ps))"
  by (auto simp: flush_probes_def Let_def probe_header_def arq_consts
      intro!: genuine_packets_header genuine_ctl)

lemma genuine_put_segment:
  assumes "genuine_packets sent ps" and "length (buf s) < 2 ^ 32"
    and "\<exists>n < length sent. sequence s = of_nat n \<and> sent ! n = content s"
  shows "genuine_packets sent (put_segment a wnd s ps)"
proof -
  define h where "h = \<lparr>h_conv = conversationID a, h_cmd = cmdPush, h_frg = fragment s, h_wnd = wnd,
    h_ts = timestamp s, h_sn = sequence s, h_una = receiveNext a, h_length = of_nat (length (buf s))\<rparr>"
  have g: "genuine sent (h, buf s)" using assms(2,3) by (simp add: genuine_def h_def content_def)
  have "put_segment a wnd s ps = (encodeHeader h @ buf s, snd ps @ [fst ps]) \<or>
      put_segment a wnd s ps = (fst ps @ encodeHeader h @ buf s, snd ps)"
    unfolding put_segment_def Let_def h_def [symmetric] by simp
  with assms(1) genuine_packet_snoc [OF _ g] genuine_packet_snoc [OF genuine_packet_Nil g]
  show ?thesis by (auto simp: genuine_packets_def)
qed

lemma genuine_finish: "genuine_packets sent ps \<Longrightarrow> p \<in> set (finish_packets ps) \<Longrightarrow> genuine_packet sent p"
  by (auto simp: genuine_packets_def finish_packets_def split: if_splits)

section \<open>The sender\<close>

definition sent_pairs :: "segment list \<Rightarrow> (u32 \<times> byte \<times> bytes) set" where
  "sent_pairs ss = (\<lambda>s. (sequence s, content s)) ` set ss"

definition sender_rel :: "(byte \<times> bytes) list \<Rightarrow> arqState \<Rightarrow> bool" where
  "sender_rel sent a \<longleftrightarrow>
     sendNext a = of_nat (length sent) \<and>
     sent_pairs (sendBuf a) \<subseteq> {(of_nat n, sent ! n) | n. n < length sent}"

lemma map_content_eq: "map content xs = zip (map fragment xs) (map buf xs)"
  by (induction xs) (simp_all add: content_def)

lemma sent_pairs_zip: "sent_pairs xs = set (zip (map sequence xs) (map content xs))"
  by (induction xs) (simp_all add: sent_pairs_def)

lemma sent_pairs_eq:
  "map sequence xs = map sequence ys \<Longrightarrow> map content xs = map content ys \<Longrightarrow> sent_pairs xs = sent_pairs ys"
  by (simp add: sent_pairs_zip)

lemma send_loop_genuine:
  assumes "\<forall>s \<in> set sb. length (buf s) < 2 ^ 32 \<and> (\<exists>n < length sent. sequence s = of_nat n \<and> sent ! n = content s)"
    and "genuine_packets sent (fa_packets acc)" and "send_loop a t wnd sb acc = (sb', acc')"
  shows "genuine_packets sent (fa_packets acc')"
  using assms
proof (induction sb arbitrary: acc sb')
  case (Cons s sb)
  let ?s = "mark_segment a t s"
  have "content ?s = content s" by (simp add: content_def)
  then have ok: "genuine_packets sent (put_segment a wnd ?s (fa_packets acc))"
    using Cons.prems by (intro genuine_put_segment) auto
  from Cons.prems(3) obtain ss acc1 where "send_loop a t wnd sb acc1 = (ss, acc')"
    and "fa_packets acc1 = fa_packets acc \<or> fa_packets acc1 = put_segment a wnd ?s (fa_packets acc)"
    by (force simp: Let_def split: prod.splits if_splits)
  with Cons.IH [of acc1 ss] Cons.prems(1,2) ok show ?case by auto
qed simp

text \<open>The segments that got their number between two states of the sender.\<close>

definition moved :: "arqState \<Rightarrow> arqState \<Rightarrow> (byte \<times> bytes) list" where
  "moved a a' = take (length (sendQueue a) - length (sendQueue a')) (map content (sendQueue a))"

lemma moved_same [simp]: "sendQueue a' = sendQueue a \<Longrightarrow> moved a a' = []"
  by (simp add: moved_def)

lemma sender_rel_move:
  assumes "arq_inv a" and "sender_rel sent a" and "unat cwnd \<le> unat (sendWindow a)" and "a' = flush_move cwnd a"
  shows "sender_rel (sent @ moved a a') a' \<and> map content (sendQueue a) = moved a a' @ map content (sendQueue a')"
proof -
  obtain q sb nxt where m: "move_loop (sendUnacknowledged a + cwnd) (sendQueue a) (sendBuf a) (sendNext a) = (q, sb, nxt)"
    by (metis prod_cases3)
  have a': "sendQueue a' = q" "sendBuf a' = sb" "sendNext a' = nxt"
    using assms(4) m by (simp_all add: flush_move_def)
  have "send_ok (sendUnacknowledged a) (sendNext a) (sendWindow a) (sendBuf a)"
    using assms(1) by (simp add: arq_inv_def)
  from move_loop_spec [OF this assms(3) m] obtain ms where
    ms: "map buf (sendQueue a) = map buf ms @ map buf q" "map fragment (sendQueue a) = map fragment ms @ map fragment q"
      "sb = sendBuf a @ ms" "nxt = sendNext a + of_nat (length ms)"
      "\<And>i. i < length ms \<Longrightarrow> sequence (ms ! i) = sendNext a + of_nat i"
    by blast
  have c: "map content (sendQueue a) = map content ms @ map content q"
    using ms(1,2) by (simp add: map_content_eq)
  then have "length (sendQueue a) = length ms + length q" by (metis length_append length_map)
  with c a' have mv: "moved a a' = map content ms" by (simp add: moved_def)
  have "sent_pairs ms \<subseteq> {(of_nat n, (sent @ map content ms) ! n) | n. n < length (sent @ map content ms)}"
  proof
    fix x assume "x \<in> sent_pairs ms"
    then obtain i where i: "i < length ms" "x = (sequence (ms ! i), content (ms ! i))"
      by (auto simp: sent_pairs_def in_set_conv_nth)
    then have "x = (of_nat (length sent + i), (sent @ map content ms) ! (length sent + i))"
      using ms(5) assms(2) by (simp add: sender_rel_def nth_append)
    with i(1) show "x \<in> {(of_nat n, (sent @ map content ms) ! n) | n. n < length (sent @ map content ms)}"
      by (intro CollectI exI [of _ "length sent + i"]) simp
  qed
  moreover have "sent_pairs (sendBuf a) \<subseteq> {(of_nat n, (sent @ map content ms) ! n) | n. n < length (sent @ map content ms)}"
  proof
    fix x assume "x \<in> sent_pairs (sendBuf a)"
    with assms(2) obtain n where "n < length sent" "x = (of_nat n, sent ! n)"
      by (auto simp: sender_rel_def)
    then show "x \<in> {(of_nat n, (sent @ map content ms) ! n) | n. n < length (sent @ map content ms)}"
      by (intro CollectI exI [of _ n]) (simp add: nth_append)
  qed
  ultimately have "sent_pairs sb \<subseteq> {(of_nat n, (sent @ map content ms) ! n) | n. n < length (sent @ map content ms)}"
    unfolding ms(3) sent_pairs_def by (auto simp: image_Un)
  then have "sender_rel (sent @ moved a a') a'"
    unfolding sender_rel_def mv a' using ms(4) assms(2) by (simp add: sender_rel_def)
  with c mv a' show ?thesis by simp
qed

text \<open>The fields of the two sides.\<close>

definition send_side :: "arqState \<Rightarrow> u32 \<times> segment list \<times> segment list" where
  "send_side a = (sendNext a, sendBuf a, sendQueue a)"

definition recv_side :: "arqState \<Rightarrow> u32 \<times> segment list \<times> segment list" where
  "recv_side a = (receiveNext a, receiveBuf a, receiveQueue a)"

lemma send_side_fields:
  "send_side a = send_side b \<Longrightarrow> sendNext a = sendNext b \<and> sendBuf a = sendBuf b \<and> sendQueue a = sendQueue b"
  by (simp add: send_side_def)

lemma flush_probe_timer_sides [simp]:
  "send_side (flush_probe_timer now a) = send_side a" "recv_side (flush_probe_timer now a) = recv_side a"
  by (simp_all add: flush_probe_timer_def send_side_def recv_side_def Let_def)

lemma flush_congestion_sides [simp]:
  "send_side (flush_congestion f l c a) = send_side a" "recv_side (flush_congestion f l c a) = recv_side a"
  by (simp_all add: flush_congestion_def send_side_def recv_side_def Let_def)

lemma flush_a3_sides [simp]:
  "send_side (flush_a3 now a) = send_side a" "recv_side (flush_a3 now a) = recv_side a"
  using flush_probe_timer_sides [of now "a\<lparr>pendingAcks := []\<rparr>"]
  by (simp_all add: flush_a3_def send_side_def recv_side_def)

lemma sender_rel_cong: "send_side a = send_side b \<Longrightarrow> sender_rel sent a = sender_rel sent b"
  by (simp add: send_side_def sender_rel_def)

lemma moved_cong: "send_side a = send_side b \<Longrightarrow> moved a c = moved b c"
  by (simp add: send_side_def moved_def)

lemma genuine_packets_mono: "genuine_packets sent ps \<Longrightarrow> genuine_packets (sent @ rest) ps"
  by (simp add: genuine_packets_def genuine_packet_mono)

lemma sender_flush:
  assumes "arq_inv a" and "sender_rel sent a" and "arq_flush now ackOnly a = (a', out)"
  shows "sender_rel (sent @ moved a a') a' \<and> map content (sendQueue a) = moved a a' @ map content (sendQueue a') \<and>
    (\<forall>p \<in> set out. genuine_packet (sent @ moved a a') p) \<and> recv_side a' = recv_side a"
  using assms(3)
proof (cases rule: arq_flush_shape)
  case idle
  with assms show ?thesis by simp
next
  case acks
  have "genuine_packets sent (flush_ps0 a)"
    unfolding flush_ps0_def by (rule genuine_acks) (simp add: genuine_packets_def)
  with acks genuine_finish assms(2) show ?thesis
    by (auto simp: sender_rel_def recv_side_def)
next
  case (full sb acc d)
  let ?a3 = "flush_a3 now a" and ?a4 = "flush_a4 now a"
  have "arq_inv ?a3"
    using assms(1) arq_inv_probe_timer [of "a\<lparr>pendingAcks := []\<rparr>" now]
    by (simp add: flush_a3_def) (simp add: arq_inv_def)
  moreover have "sender_rel sent ?a3" using assms(2) sender_rel_cong flush_a3_sides by blast
  ultimately have mv: "sender_rel (sent @ moved ?a3 ?a4) ?a4"
      "map content (sendQueue ?a3) = moved ?a3 ?a4 @ map content (sendQueue ?a4)"
    using sender_rel_move [OF _ _ flush_window_le flush_a4_def] by blast+
  let ?sent = "sent @ moved ?a3 ?a4"
  note k = send_loop_keeps [OF full(1)]
  have q: "sendQueue a' = sendQueue ?a4" "sendBuf a' = sb" "sendNext a' = sendNext ?a4"
    using flush_congestion_sides(1) full(2) by (auto simp: send_side_def)
  have mveq: "moved a a' = moved ?a3 ?a4"
    using moved_cong [OF flush_a3_sides(1), of now a ?a4] q(1) by (simp add: moved_def)
  have sp: "sent_pairs sb = sent_pairs (sendBuf ?a4)"
    using k by (intro sent_pairs_eq) (simp_all add: map_content_eq)
  have "genuine_packets ?sent (flush_ps1 now a)"
    unfolding flush_ps1_def flush_ps0_def
    by (rule genuine_packets_mono, rule genuine_probes, rule genuine_acks) (simp add: genuine_packets_def)
  moreover have "\<forall>s \<in> set (sendBuf ?a4). length (buf s) < 2 ^ 32 \<and>
      (\<exists>n < length ?sent. sequence s = of_nat n \<and> ?sent ! n = content s)"
  proof
    fix s assume s: "s \<in> set (sendBuf ?a4)"
    have "length (buf s) < 2 ^ 32" using arq_inv_a4 [OF assms(1), of now] s by (rule arq_inv_buf_small)
    moreover have "(sequence s, content s) \<in> sent_pairs (sendBuf ?a4)" using s by (simp add: sent_pairs_def)
    with mv(1) have "(sequence s, content s) \<in> {(of_nat n, ?sent ! n) | n. n < length ?sent}"
      unfolding sender_rel_def by blast
    ultimately show "length (buf s) < 2 ^ 32 \<and> (\<exists>n < length ?sent. sequence s = of_nat n \<and> ?sent ! n = content s)"
      by auto
  qed
  ultimately have "genuine_packets ?sent (fa_packets acc)"
    using send_loop_genuine [OF _ _ full(1)] by simp
  then have "\<forall>p \<in> set out. genuine_packet ?sent p" using full(3) genuine_finish by blast
  moreover have "sender_rel ?sent a'" using mv(1) q sp by (simp add: sender_rel_def)
  moreover have "recv_side a' = recv_side a"
  proof -
    have "recv_side a' = recv_side ?a4" unfolding full(2) flush_congestion_sides by (simp add: recv_side_def)
    also have "\<dots> = recv_side ?a3" by (simp add: flush_a4_def flush_move_def recv_side_def case_prod_beta)
    finally show ?thesis by simp
  qed
  moreover have "sendQueue ?a3 = sendQueue a" using send_side_fields [OF flush_a3_sides(1)] by blast
  ultimately show ?thesis using mv(2) mveq q(1) by simp
qed

section \<open>Input on the sender's side\<close>

lemma send_side_promote [simp]: "send_side (promoteReceiveBuf a) = send_side a"
  by (simp add: promoteReceiveBuf_def send_side_def case_prod_beta)

lemma send_side_insert [simp]: "send_side (insertDataSegment sn frg pl a) = send_side a"
  using send_side_promote
  by (auto simp: insertDataSegment_def send_side_def split: option.splits)

lemma send_side_push [simp]: "send_side (input_push h pl a) = send_side a"
  using send_side_insert by (auto simp: input_push_def Let_def send_side_def)

text \<open>Input only takes segments out of the send buffer or counts acknowledgements on them.\<close>

definition send_shrinks :: "arqState \<Rightarrow> arqState \<Rightarrow> bool" where
  "send_shrinks a a' \<longleftrightarrow> sendNext a' = sendNext a \<and> sendQueue a' = sendQueue a \<and>
     sent_pairs (sendBuf a') \<subseteq> sent_pairs (sendBuf a)"

lemma send_shrinks_refl: "send_side a' = send_side a \<Longrightarrow> send_shrinks a a'"
  by (simp add: send_shrinks_def send_side_def)

lemma send_shrinks_trans: "send_shrinks a b \<Longrightarrow> send_shrinks b c \<Longrightarrow> send_shrinks a c"
  by (auto simp: send_shrinks_def)

lemma send_shrinks_una: "send_shrinks a (fst (parseUnacknowledged u a))"
  using una_loop_subset [of u "sendBuf a"]
  by (auto simp: send_shrinks_def parseUnacknowledged_def Let_def sent_pairs_def)

lemma send_shrinks_refresh: "send_shrinks a (refreshSendUnacknowledged a)"
  by (simp add: send_shrinks_def refreshSendUnacknowledged_def)

lemma send_shrinks_ack: "send_shrinks a (parseAck sn a)"
  using ack_loop_subset [of sn "sendBuf a"]
  by (auto simp: send_shrinks_def parseAck_def sent_pairs_def)

lemma send_shrinks_fast: "send_shrinks a (fst (parseFastAck sn a))"
proof -
  obtain ss t where f: "fast_ack_loop (fastResend a) sn (sendBuf a) = (ss, t)" by fastforce
  have "sent_pairs ss = sent_pairs (sendBuf a)"
    using fast_ack_loop_keeps [OF f] by (intro sent_pairs_eq) (simp_all add: map_content_eq)
  with f show ?thesis by (simp add: send_shrinks_def parseFastAck_def)
qed

lemma send_shrinks_segment: "send_shrinks a (fst (input_segment h pl a))"
proof -
  let ?a0 = "a\<lparr>remoteWindow := ucast (h_wnd h)\<rparr>"
  let ?a2 = "refreshSendUnacknowledged (fst (parseUnacknowledged (h_una h) ?a0))"
  let ?a3 = "refreshSendUnacknowledged (parseAck (h_sn h) ?a2)"
  have "send_shrinks a ?a0" by (rule send_shrinks_refl) (simp add: send_side_def)
  then have 2: "send_shrinks a ?a2"
    by (blast intro: send_shrinks_trans send_shrinks_una send_shrinks_refresh)
  then have "send_shrinks a (fst (parseFastAck (h_sn h) ?a3))"
    by (blast intro: send_shrinks_trans send_shrinks_ack send_shrinks_refresh send_shrinks_fast)
  moreover have "send_shrinks a (input_push h pl ?a2)"
    using 2 send_shrinks_refl [OF send_side_push] by (rule send_shrinks_trans)
  moreover have "send_shrinks a (?a2\<lparr>probeFlags := f\<rparr>)" for f
    using 2 by (simp add: send_shrinks_def)
  ultimately show ?thesis using 2 by (simp add: input_segment_def Let_def case_prod_beta)
qed

lemma send_shrinks_loop: "send_shrinks a (fst (input_loop data rtt fast a))"
proof (induction data rtt fast a rule: input_loop.induct)
  case (1 data rtt fast a)
  let ?h = "readHeader data" and ?rest = "drop headerSize data"
  show ?case
  proof (cases "length data < headerSize \<or> h_conv ?h \<noteq> conversationID a \<or>
      length ?rest < unat (h_length ?h) \<or> \<not> known_cmd (h_cmd ?h)")
    case True
    then show ?thesis by (subst input_loop.simps) (auto simp: Let_def send_shrinks_refl)
  next
    case False
    obtain a' t where s: "input_segment ?h (take (unat (h_length ?h)) ?rest) a = (a', t)" by fastforce
    have "send_shrinks a a'" using send_shrinks_segment s by (metis fst_conv)
    with 1 False s show ?thesis
      by (subst input_loop.simps) (auto simp: Let_def intro: send_shrinks_trans)
  qed
qed

lemma updateRTT_sides [simp]: "send_side (updateRTT r a) = send_side a" "recv_side (updateRTT r a) = recv_side a"
proof -
  obtain sr rv x where eq: "updateRTT r a = a\<lparr>smoothedRTT := sr, rttVariance := rv, retransmitTimeout := x\<rparr>"
    by (rule updateRTT_frame)
  show "send_side (updateRTT r a) = send_side a" "recv_side (updateRTT r a) = recv_side a"
    by (simp_all add: eq send_side_def recv_side_def)
qed

lemma grow_sides [simp]:
  "send_side (growCongestionWindow a) = send_side a" "recv_side (growCongestionWindow a) = recv_side a"
  by (simp_all add: growCongestionWindow_def send_side_def recv_side_def Let_def)

text \<open>The end of \<^verbatim>\<open>input\<close> touches neither side.\<close>

lemma arq_input_sides:
  "send_side (fst (arq_input data now a)) = send_side (fst (input_loop data None False a)) \<and>
   recv_side (fst (arq_input data now a)) = recv_side (fst (input_loop data None False a))"
proof (cases "length data < headerSize")
  case True
  then show ?thesis by (subst (1 2) input_loop.simps) (simp add: arq_input_def)
next
  case False
  then show ?thesis
    by (auto simp: arq_input_def Let_def split: prod.splits option.splits)
qed

lemma send_shrinks_input: "send_shrinks a (fst (arq_input data now a))"
  using send_shrinks_loop arq_input_sides send_shrinks_refl send_shrinks_trans by blast

lemma sender_rel_shrinks: "sender_rel sent a \<Longrightarrow> send_shrinks a a' \<Longrightarrow> sender_rel sent a'"
  by (auto simp: sender_rel_def send_shrinks_def)


section \<open>The receiver\<close>

text \<open>What was delivered and what waits in the queue are the first segments of the sender, in order; the
  receive buffer holds segments of the sender under their own numbers.\<close>

definition numbered :: "(byte \<times> bytes) list \<Rightarrow> (u32 \<times> byte \<times> bytes) set" where
  "numbered sent = {(of_nat n, sent ! n) | n. n < length sent}"

lemma numbered_more: "numbered sent \<subseteq> numbered (sent @ rest)"
  by (force simp: numbered_def nth_append)

definition recv_rel :: "(byte \<times> bytes) list \<Rightarrow> (byte \<times> bytes) list \<Rightarrow> arqState \<Rightarrow> bool" where
  "recv_rel sent dlv a \<longleftrightarrow>
     prefix (dlv @ map content (receiveQueue a)) sent \<and>
     receiveNext a = of_nat (length dlv + length (receiveQueue a)) \<and>
     sent_pairs (receiveBuf a) \<subseteq> numbered sent"

lemma recv_rel_cong: "recv_side a = recv_side b \<Longrightarrow> recv_rel sent dlv a = recv_rel sent dlv b"
  by (simp add: recv_side_def recv_rel_def)

lemma recv_rel_more: "recv_rel sent dlv a \<Longrightarrow> recv_rel (sent @ rest) dlv a"
  using numbered_more [of sent rest] by (auto simp: recv_rel_def)

text \<open>The next segment of the sender, added to the queue.\<close>

lemma recv_rel_next:
  assumes "prefix (dlv @ map content q) sent" and "n < length sent" and "length sent < 2 ^ 32"
    and "(of_nat n :: u32) = of_nat (length dlv + length q)" and "content s = sent ! n"
  shows "prefix (dlv @ map content (q @ [s])) sent"
proof -
  obtain zs where zs: "sent = (dlv @ map content q) @ zs" using assms(1) by (auto simp: prefix_def)
  have "length dlv + length q < 2 ^ 32" "n < 2 ^ 32" using zs assms(2,3) by auto
  moreover have "unat (of_nat n :: u32) = unat (of_nat (length dlv + length q) :: u32)" by (simp only: assms(4))
  ultimately have n: "n = length dlv + length q" by (simp add: unat_of_nat del: of_nat_add)
  with assms(2) zs obtain z zs' where "zs = z # zs'" by (cases zs) auto
  with n zs assms(5) show ?thesis by (auto simp: nth_append prefix_def)
qed

lemma recv_rel_promote:
  assumes "recv_rel sent dlv a" and "length sent < 2 ^ 32"
  shows "recv_rel sent dlv (promoteReceiveBuf a)"
proof -
  have "prefix (dlv @ map content q') sent \<and> rn' = of_nat (length dlv + length q') \<and>
      sent_pairs rb' \<subseteq> numbered sent"
    if "promote_loop wnd rb q rn = (rb', q', rn')" "prefix (dlv @ map content q) sent"
      "rn = of_nat (length dlv + length q)" "sent_pairs rb \<subseteq> numbered sent"
    for wnd rb q rn rb' q' rn'
    using that
  proof (induction rb arbitrary: q rn)
    case (Cons s rb)
    show ?case
    proof (cases "sequence s \<noteq> rn \<or> of_nat (length q) \<ge> wnd")
      case True
      with Cons.prems show ?thesis by auto
    next
      case False
      have "(sequence s, content s) \<in> numbered sent"
        using Cons.prems(4) by (auto simp: sent_pairs_def)
      then obtain n where "n < length sent" "sequence s = of_nat n" "content s = sent ! n"
        by (auto simp: numbered_def)
      with False Cons.prems(2,3) assms(2) have "prefix (dlv @ map content (q @ [s])) sent"
        by (intro recv_rel_next) auto
      moreover have "promote_loop wnd rb (q @ [s]) (rn + 1) = (rb', q', rn')"
        using Cons.prems(1) False by (auto split: if_splits)
      moreover have "rn + 1 = of_nat (length dlv + length (q @ [s]))" using Cons.prems(3) by simp
      moreover have "sent_pairs rb \<subseteq> numbered sent"
        using Cons.prems(4) by (auto simp: sent_pairs_def)
      ultimately show ?thesis by (intro Cons.IH)
    qed
  qed auto
  from this [of "receiveWindow a" "receiveBuf a" "receiveQueue a" "receiveNext a"] assms(1)
  show ?thesis by (auto simp: promoteReceiveBuf_def recv_rel_def split: prod.splits)
qed

lemma insert_back_set: "insert_back seg rs = Some rs' \<Longrightarrow> set rs' \<subseteq> insert seg (set rs)"
  by (induction rs arbitrary: rs') (auto split: if_splits)

lemma recv_rel_insert:
  assumes "recv_rel sent dlv a" and "length sent < 2 ^ 32"
    and "n < length sent" and "sent ! n = (frg, pl)"
  shows "recv_rel sent dlv (insertDataSegment (of_nat n) frg pl a)"
proof -
  let ?seg = "new_segment pl (of_nat n) frg"
  have c: "content ?seg = sent ! n" "sequence ?seg = of_nat n"
    using assms(4) by (simp_all add: content_def new_segment_def)
  consider (fast) "of_nat n = receiveNext a" "receiveBuf a = []" "of_nat (length (receiveQueue a)) < receiveWindow a"
    | (dup) "insertDataSegment (of_nat n) frg pl a = a"
    | (slow) rs where "insert_back ?seg (rev (receiveBuf a)) = Some rs"
        "insertDataSegment (of_nat n) frg pl a = promoteReceiveBuf (a\<lparr>receiveBuf := rev rs\<rparr>)"
    unfolding insertDataSegment_def
    by (metis (no_types, lifting) option.case(1) option.case(2) option.exhaust)
  then show ?thesis
  proof cases
    case fast
    have "prefix (dlv @ map content (receiveQueue a @ [?seg])) sent"
      using assms fast(1) c by (intro recv_rel_next) (auto simp: recv_rel_def)
    with fast assms(1) show ?thesis by (simp add: insertDataSegment_def recv_rel_def)
  next
    case dup
    with assms(1) show ?thesis by simp
  next
    case slow
    have "sent_pairs (rev rs) \<subseteq> insert (of_nat n, sent ! n) (sent_pairs (receiveBuf a))"
      using insert_back_set [OF slow(1)] c by (auto simp: sent_pairs_def)
    also have "\<dots> \<subseteq> numbered sent"
      using assms(1,3) unfolding recv_rel_def numbered_def by blast
    finally have "recv_rel sent dlv (a\<lparr>receiveBuf := rev rs\<rparr>)"
      using assms(1) by (simp add: recv_rel_def)
    then show ?thesis unfolding slow(2) using assms(2) by (rule recv_rel_promote)
  qed
qed

text \<open>Everything of \<^verbatim>\<open>input\<close> but a push segment leaves the receive side alone.\<close>

lemma recv_side_segment:
  "recv_side (fst (parseUnacknowledged u a)) = recv_side a" "recv_side (refreshSendUnacknowledged a) = recv_side a"
  "recv_side (parseAck sn a) = recv_side a" "recv_side (fst (parseFastAck sn a)) = recv_side a"
  "recv_side (a\<lparr>probeFlags := f\<rparr>) = recv_side a" "recv_side (a\<lparr>remoteWindow := w\<rparr>) = recv_side a"
  "recv_side (a\<lparr>pendingAcks := k\<rparr>) = recv_side a"
  by (simp_all add: recv_side_def parseUnacknowledged_def refreshSendUnacknowledged_def parseAck_def
      parseFastAck_def Let_def case_prod_beta)

lemma recv_rel_segment:
  assumes "recv_rel sent dlv a" and "length sent < 2 ^ 32" and "genuine sent (h, pl)"
  shows "recv_rel sent dlv (fst (input_segment h pl a))"
proof -
  let ?a2 = "refreshSendUnacknowledged (fst (parseUnacknowledged (h_una h) (a\<lparr>remoteWindow := ucast (h_wnd h)\<rparr>)))"
  have r2: "recv_side ?a2 = recv_side a" by (simp only: recv_side_segment)
  show ?thesis
  proof (cases "h_cmd h = cmdPush")
    case False
    then have "recv_side (fst (input_segment h pl a)) = recv_side ?a2"
      by (simp add: input_segment_def Let_def case_prod_beta recv_side_segment)
    with r2 assms(1) recv_rel_cong show ?thesis by metis
  next
    case True
    then obtain n where n: "n < length sent" "h_sn h = of_nat n" "sent ! n = (h_frg h, pl)"
      using assms(3) by (auto simp: genuine_def)
    have "recv_rel sent dlv (?a2\<lparr>pendingAcks := k\<rparr>)" for k
      using assms(1) recv_rel_cong r2 recv_side_segment(7) by metis
    then have "recv_rel sent dlv (input_push h pl ?a2)"
      using recv_rel_insert [OF _ assms(2) n(1,3)] n(2) assms(1) recv_rel_cong [OF r2]
      by (auto simp: input_push_def Let_def)
    with True show ?thesis
      by (simp add: input_segment_def Let_def case_prod_beta cmdPush_def cmdAck_def)
  qed
qed

lemma recv_rel_loop:
  assumes "recv_rel sent dlv a" and "length sent < 2 ^ 32" and "list_all (genuine sent) xs"
  shows "recv_rel sent dlv (fst (input_loop (enc_segments xs) rtt fast a))"
  using assms(1,3)
proof (induction xs arbitrary: rtt fast a)
  case Nil
  then show ?case by (subst input_loop.simps) (simp add: enc_segments_def headerSize_def)
next
  case (Cons x xs)
  obtain h pl where x: "x = (h, pl)" by fastforce
  have e: "enc_segments (x # xs) = encodeHeader h @ pl @ enc_segments xs"
    by (simp add: enc_segments_def x)
  have len: "unat (h_length h) = length pl"
    using Cons.prems(2) by (simp add: genuine_def x unat_of_nat)
  obtain a' t where s: "input_segment h pl a = (a', t)" by fastforce
  have "recv_rel sent dlv a'"
    using recv_rel_segment [OF Cons.prems(1) assms(2), of h pl] Cons.prems(2) s by (simp add: x)
  with Cons show ?case
    by (subst input_loop.simps) (simp add: e readHeader_encode len s Let_def)
qed

lemma recv_rel_input:
  assumes "recv_rel sent dlv a" and "length sent < 2 ^ 32" and "genuine_packet sent p"
  shows "recv_rel sent dlv (fst (arq_input p now a))"
  using assms recv_rel_loop arq_input_sides recv_rel_cong unfolding genuine_packet_def by metis

lemma popMessage_takes:
  assumes "popMessage a = Some (m, a')"
  obtains n where "n = unat (fragment (hd (receiveQueue a))) + 1" "n \<le> length (receiveQueue a)"
    "m = concat (map snd (take n (map content (receiveQueue a))))"
    "recv_side a' = recv_side (promoteReceiveBuf (dropReceiveQueue n a))"
proof (rule that [OF refl])
  let ?q = "receiveQueue a" and ?n = "unat (fragment (hd (receiveQueue a))) + 1"
  obtain s q where q: "?q = s # q" using assms by (cases ?q) (auto simp: popMessage_def peekSize_def)
  show "?n \<le> length ?q"
    using assms q by (auto simp: popMessage_def peekSize_def Let_def split: if_splits)
  have "concat (map snd (take k (map content ?q))) = concat (map buf (take k ?q))" for k
    by (simp add: take_map o_def content_def)
  moreover have "m = concat (map buf (take ?n ?q))"
    using assms q by (auto simp: popMessage_def Let_def split: if_splits)
  ultimately show "m = concat (map snd (take ?n (map content ?q)))" by simp
  show "recv_side a' = recv_side (promoteReceiveBuf (dropReceiveQueue ?n a))"
    using assms q by (auto simp: popMessage_def Let_def recv_side_segment split: if_splits)
qed

lemma recv_rel_pop:
  assumes "recv_rel sent dlv a" and "length sent < 2 ^ 32" and "popMessage a = Some (m, a')"
  obtains n where "n = unat (fragment (hd (receiveQueue a))) + 1" "n \<le> length (receiveQueue a)"
    "m = concat (map snd (take n (map content (receiveQueue a))))"
    "recv_rel sent (dlv @ take n (map content (receiveQueue a))) a'"
proof -
  obtain n where n: "n = unat (fragment (hd (receiveQueue a))) + 1" "n \<le> length (receiveQueue a)"
    "m = concat (map snd (take n (map content (receiveQueue a))))"
    "recv_side a' = recv_side (promoteReceiveBuf (dropReceiveQueue n a))"
    using assms(3) by (rule popMessage_takes)
  have "recv_rel sent (dlv @ take n (map content (receiveQueue a))) (dropReceiveQueue n a)"
    using assms(1) n(2) by (simp add: recv_rel_def dropReceiveQueue_def flip: take_map drop_map)
  from recv_rel_promote [OF this assms(2)] n(4) recv_rel_cong
  have "recv_rel sent (dlv @ take n (map content (receiveQueue a))) a'" by blast
  with n(1-3) show thesis by (rule that)
qed

section \<open>What the sender is given\<close>

text \<open>The settings that shape a message never change.\<close>

definition mode :: "arqState \<Rightarrow> bool \<times> nat" where
  "mode a = (streamMode a, maxSegmentSize a)"

lemma mode_simps [simp]:
  "mode (promoteReceiveBuf a) = mode a" "mode (dropReceiveQueue n a) = mode a"
  "mode (fst (parseUnacknowledged u a)) = mode a" "mode (refreshSendUnacknowledged a) = mode a"
  "mode (parseAck sn a) = mode a" "mode (fst (parseFastAck sn a)) = mode a"
  "mode (growCongestionWindow a) = mode a" "mode (flush_probe_timer now a) = mode a"
  "mode (flush_move c a) = mode a" "mode (flush_congestion f l c a) = mode a"
  "mode (a\<lparr>probeFlags := pf\<rparr>) = mode a" "mode (a\<lparr>remoteWindow := w\<rparr>) = mode a"
  "mode (a\<lparr>pendingAcks := k\<rparr>) = mode a" "mode (a\<lparr>receiveBuf := rb\<rparr>) = mode a"
  "mode (a\<lparr>sendBuf := sb, dead := d\<rparr>) = mode a" "mode (a\<lparr>flushInitialized := i, nextFlushTimestamp := t\<rparr>) = mode a"
  by (simp_all add: mode_def promoteReceiveBuf_def dropReceiveQueue_def parseUnacknowledged_def
      refreshSendUnacknowledged_def parseAck_def parseFastAck_def growCongestionWindow_def flush_probe_timer_def
      flush_move_def flush_congestion_def Let_def case_prod_beta)

lemma mode_updateRTT [simp]: "mode (updateRTT r a) = mode a"
proof -
  obtain sr rv x where eq: "updateRTT r a = a\<lparr>smoothedRTT := sr, rttVariance := rv, retransmitTimeout := x\<rparr>"
    by (rule updateRTT_frame)
  show ?thesis by (simp add: eq mode_def)
qed

lemma mode_insert [simp]: "mode (insertDataSegment sn frg pl a) = mode a"
proof -
  have "mode (a\<lparr>receiveQueue := q, receiveNext := n\<rparr>) = mode a" for q n by (simp add: mode_def)
  then show ?thesis by (simp add: insertDataSegment_def split: option.splits)
qed

lemma mode_segment [simp]: "mode (fst (input_segment h pl a)) = mode a"
  by (simp add: input_segment_def input_push_def Let_def case_prod_beta)

lemma mode_loop: "mode (fst (input_loop data rtt fast a)) = mode a"
proof (induction data rtt fast a rule: input_loop.induct)
  case (1 data rtt fast a)
  let ?h = "readHeader data" and ?rest = "drop headerSize data"
  obtain a' t where s: "input_segment ?h (take (unat (h_length ?h)) ?rest) a = (a', t)" by fastforce
  then have "mode a' = mode a" using mode_segment by (metis fst_conv)
  with 1 s show ?case by (subst input_loop.simps) (auto simp: Let_def)
qed

lemma mode_input [simp]: "mode (fst (arq_input data now a)) = mode a"
proof -
  obtain a1 r where l: "input_loop data None False a = (a1, r)" by fastforce
  then have "mode a1 = mode a" using mode_loop by (metis fst_conv)
  with l show ?thesis
    by (cases r) (auto simp: arq_input_def Let_def split: option.splits)
qed

lemma mode_flush:
  assumes "arq_flush now ackOnly a = (a', out)"
  shows "mode a' = mode a"
  using assms
proof (cases rule: arq_flush_shape)
  case (full sb acc d)
  have "mode (flush_a4 now a) = mode a"
    by (simp add: flush_a4_def flush_a3_def)
  with full show ?thesis by simp
qed simp_all

lemma mode_update: "arq_update now a = (a', out) \<Longrightarrow> mode a' = mode a"
  by (erule arq_update_shape) (metis mode_flush mode_simps(16))

lemma mode_pop: "popMessage a = Some (m, a') \<Longrightarrow> mode a' = mode a"
  by (auto simp: popMessage_def Let_def split: if_splits)

lemma mode_send: "arq_send data a = Inr a' \<Longrightarrow> mode a' = mode a"
  by (auto simp: arq_send_def mode_def Let_def split: if_splits list.splits)

text \<open>The fragments of one message.\<close>

definition frags :: "nat \<Rightarrow> bytes \<Rightarrow> (byte \<times> bytes) list" where
  "frags mss m = map content (message_chunks mss (message_count mss (length m)) m)"

lemma length_message_chunks [simp]: "length (message_chunks mss n m) = n"
  by (induction n arbitrary: m) (simp_all add: Let_def)

lemma message_chunks_concat: "length m \<le> n * mss \<Longrightarrow> concat (map buf (message_chunks mss n m)) = m"
proof (induction n arbitrary: m)
  case (Suc n)
  have "length (drop (min (length m) mss) m) \<le> n * mss" using Suc.prems by (auto simp: min_def)
  with Suc.IH show ?case by (simp add: Let_def new_segment_def)
qed simp

lemma message_count_enough: "0 < mss \<Longrightarrow> len \<le> message_count mss len * mss"
proof -
  assume "0 < mss"
  have "len \<le> (len + mss - 1) div mss * mss"
    using \<open>0 < mss\<close> mod_less_divisor [of mss "len + mss - 1"] div_mult_mod_eq [of "len + mss - 1" mss]
    by linarith
  then show ?thesis by (simp add: message_count_def)
qed

lemma message_count_pos: "0 < mss \<Longrightarrow> 0 < message_count mss len"
  by (auto simp: message_count_def div_greater_zero_iff)

lemma length_frags [simp]: "length (frags mss m) = message_count mss (length m)"
  by (simp add: frags_def)

lemma frags_concat: "0 < mss \<Longrightarrow> concat (map snd (frags mss m)) = m"
  using message_chunks_concat [OF message_count_enough, of mss m]
  by (simp add: frags_def o_def content_def)

lemma frags_head:
  assumes "0 < mss" and "message_count mss (length m) \<le> 256"
  shows "unat (fst (hd (frags mss m))) + 1 = message_count mss (length m)"
proof -
  obtain n where n: "message_count mss (length m) = Suc n" using message_count_pos [OF assms(1)] gr0_implies_Suc by blast
  then have "fst (hd (frags mss m)) = of_nat n" by (simp add: frags_def Let_def content_def new_segment_def)
  with n assms(2) show ?thesis by (simp add: unat_of_nat)
qed

lemma arq_send_message:
  assumes "arq_send data a = Inr a'" and "\<not> streamMode a"
  shows "map content (sendQueue a') = map content (sendQueue a) @ frags (maxSegmentSize a) data \<and>
    message_count (maxSegmentSize a) (length data) \<le> 256 \<and> sendNext a' = sendNext a \<and> sendBuf a' = sendBuf a"
  using assms by (auto simp: arq_send_def frags_def Let_def split: if_splits)

lemma stream_chunks_Nil [simp]: "stream_chunks mss [] = []"
  by (subst stream_chunks.simps) simp

lemma stream_chunks_concat: "0 < mss \<Longrightarrow> concat (map buf (stream_chunks mss data)) = data"
  by (induction mss data rule: stream_chunks.induct)
    (subst stream_chunks.simps, auto simp: Let_def new_segment_def)

lemma stream_chunks_count: "0 < mss \<Longrightarrow> length (stream_chunks mss data) \<le> message_count mss (length data)"
proof -
  assume "0 < mss"
  then have "length (stream_chunks mss data) * mss \<le> length data + mss - 1"
  proof (induction mss data rule: stream_chunks.induct)
    case (1 mss data)
    show ?case
    proof (cases "data = []")
      case False
      let ?taken = "min (length data) mss"
      have "length (stream_chunks mss (drop ?taken data)) * mss \<le> length (drop ?taken data) + mss - 1"
        using 1 False by simp
      moreover obtain n where "length data = Suc n" using False by (cases data) auto
      ultimately show ?thesis
        using False 1(2) by (subst stream_chunks.simps) (cases "length data \<le> mss"; auto simp: Let_def min_def)
    qed simp
  qed
  then have "length (stream_chunks mss data) \<le> (length data + mss - 1) div mss"
    using \<open>0 < mss\<close> by (simp add: less_eq_div_iff_mult_less_eq)
  moreover have "(length data + mss - 1) div mss \<le> 1" if "length data \<le> mss"
    proof -
    have "length data + mss - 1 < 2 * mss" using that \<open>0 < mss\<close> by linarith
    from less_mult_imp_div_less [OF this] show ?thesis by simp
  qed
  ultimately show ?thesis by (auto simp: message_count_def)
qed

lemma arq_send_stream:
  assumes "arq_send data a = Inr a'" and "streamMode a" and "0 < maxSegmentSize a"
  shows "concat (map buf (sendQueue a')) = concat (map buf (sendQueue a)) @ data \<and>
    length (sendQueue a') \<le> length (sendQueue a) + message_count (maxSegmentSize a) (length data) \<and>
    sendNext a' = sendNext a \<and> sendBuf a' = sendBuf a"
proof -
  let ?mss = "maxSegmentSize a"
  have chunks: "length (stream_chunks ?mss d) \<le> message_count ?mss (length data)" if "length d \<le> length data" for d
  proof -
    have "message_count ?mss (length d) \<le> message_count ?mss (length data)"
      using that assms(3) by (auto simp: message_count_def div_le_mono div_greater_zero_iff Suc_le_eq)
    with stream_chunks_count [OF assms(3), of d] show ?thesis by linarith
  qed
  obtain q d where qd: "a' = a\<lparr>sendQueue := q @ stream_chunks ?mss d\<rparr>" "length q = length (sendQueue a)"
    "concat (map buf q) @ d = concat (map buf (sendQueue a)) @ data" "length d \<le> length data"
  proof (cases "rev (sendQueue a)")
    case Nil
    with assms(1,2) show thesis by (intro that [of "sendQueue a" data]) (auto simp: arq_send_def)
  next
    case (Cons lst front)
    then have q: "sendQueue a = rev front @ [lst]" by (simp add: rev_swap)
    show thesis
    proof (cases "int ?mss - int (length (buf lst)) > 0")
      case True
      define taken where "taken = min (length data) (nat (int ?mss - int (length (buf lst))))"
      show thesis
        using assms(1,2) Cons True q
        by (intro that [of "rev front @ [lst\<lparr>buf := buf lst @ take taken data\<rparr>]" "drop taken data"])
          (auto simp: arq_send_def Let_def taken_def)
    next
      case False
      with assms(1,2) Cons show thesis
        by (intro that [of "sendQueue a" data]) (auto simp: arq_send_def Let_def)
    qed
  qed
  then show ?thesis using stream_chunks_concat [OF assms(3), of d] chunks [of d] by simp
qed

definition segment_total :: "nat \<Rightarrow> bytes list \<Rightarrow> nat" where
  "segment_total mss ms = sum_list (map (\<lambda>m. message_count mss (length m)) ms)"

text \<open>Numbered segments and queued ones make up exactly what the sender was given.\<close>

definition source_rel :: "(byte \<times> bytes) list \<Rightarrow> arqState \<Rightarrow> bytes list \<Rightarrow> bool" where
  "source_rel sent a ms \<longleftrightarrow>
     length sent + length (sendQueue a) \<le> segment_total (maxSegmentSize a) ms \<and>
     concat (map snd (sent @ map content (sendQueue a))) = concat ms \<and>
     (\<not> streamMode a \<longrightarrow> sent @ map content (sendQueue a) = concat (map (frags (maxSegmentSize a)) ms) \<and>
       (\<forall>m \<in> set ms. message_count (maxSegmentSize a) (length m) \<le> 256))"

lemma concat_content: "concat (map snd (map content ss)) = concat (map buf ss)"
  by (simp add: o_def content_def)

lemma source_rel_send:
  assumes "source_rel sent a ms" and "arq_send data a = Inr a'" and "0 < maxSegmentSize a"
  shows "source_rel sent a' (ms @ [data])"
proof (cases "streamMode a")
  case True
  note s = arq_send_stream [OF assms(2) True assms(3)]
  have "streamMode a'" "maxSegmentSize a' = maxSegmentSize a"
    using mode_send [OF assms(2)] True by (simp_all add: mode_def)
  with s assms(1) show ?thesis
    by (simp only: source_rel_def segment_total_def map_append concat_append concat_content) simp
next
  case False
  note s = arq_send_message [OF assms(2) False]
  have len: "length (sendQueue a') = length (sendQueue a) + message_count (maxSegmentSize a) (length data)"
    using s by (metis length_append length_frags length_map)
  have m: "\<not> streamMode a'" "maxSegmentSize a' = maxSegmentSize a"
    using mode_send [OF assms(2)] False by (simp_all add: mode_def)
  show ?thesis
    using assms(1) s len m False frags_concat [OF assms(3), of data]
    by (auto simp: source_rel_def segment_total_def simp del: map_map)
qed

lemma source_rel_flush:
  assumes "source_rel sent a ms" and "mode a' = mode a"
    and "map content (sendQueue a) = mv @ map content (sendQueue a')"
  shows "source_rel (sent @ mv) a' ms"
proof -
  have "length (sendQueue a) = length mv + length (sendQueue a')" using assms(3) by (metis length_append length_map)
  with assms show ?thesis by (simp add: source_rel_def mode_def del: map_map)
qed

lemma pop_whole_message:
  assumes "prefix (concat (map (frags mss) got) @ qc) (concat (map (frags mss) ms))" and "prefix got ms"
    and "qc \<noteq> []" and "n = unat (fst (hd qc)) + 1" and "n \<le> length qc"
    and "0 < mss" and "\<forall>m \<in> set ms. message_count mss (length m) \<le> 256"
  obtains m where "prefix (got @ [m]) ms" "take n qc = frags mss m"
proof -
  obtain rest where rest: "ms = got @ rest" using assms(2) by (auto simp: prefix_def)
  then have pre: "prefix qc (concat (map (frags mss) rest))" using assms(1) by simp
  then obtain m rest' where r: "rest = m # rest'" using assms(3) by (cases rest) auto
  have "frags mss m \<noteq> []" using message_count_pos [OF assms(6), of "length m"] length_frags [of mss m] by fastforce
  then have "hd qc = hd (frags mss m)" using pre r assms(3) by (auto simp: prefix_def) (metis hd_append2)
  then have "n = length (frags mss m)" using frags_head [OF assms(6)] assms(4,7) rest r by simp
  moreover have "take n qc = take n (concat (map (frags mss) rest))"
    using pre assms(5) by (auto simp: prefix_def)
  ultimately have "take n qc = frags mss m" by (simp add: r)
  moreover have "prefix (got @ [m]) ms" by (simp add: rest r)
  ultimately show thesis using that by blast
qed

section \<open>Two ends and the network between them\<close>

text \<open>\<open>msgs\<close> are the messages \<^verbatim>\<open>send\<close> accepted, \<open>got\<close> the messages \<^verbatim>\<open>popMessage\<close> returned, \<open>wire\<close> every
  packet the sender ever output: any of them can reach the receiver at any time, any number of times.
  The sender may be fed arbitrary bytes, the receiver may flush and send as it likes.\<close>

record kcp_net =
  tx :: arqState
  rx :: arqState
  msgs :: "bytes list"
  wire :: "bytes set"
  got :: "bytes list"

inductive net_step :: "kcp_net \<Rightarrow> kcp_net \<Rightarrow> bool" where
  net_send: "arq_send data (tx n) = Inr a \<Longrightarrow> net_step n (n\<lparr>tx := a, msgs := msgs n @ [data]\<rparr>)"
| net_flush: "arq_flush now ackOnly (tx n) = (a, out) \<Longrightarrow> net_step n (n\<lparr>tx := a, wire := wire n \<union> set out\<rparr>)"
| net_update: "arq_update now (tx n) = (a, out) \<Longrightarrow> net_step n (n\<lparr>tx := a, wire := wire n \<union> set out\<rparr>)"
| net_feedback: "arq_input data now (tx n) = (a, t) \<Longrightarrow> net_step n (n\<lparr>tx := a\<rparr>)"
| net_tx_pop: "popMessage (tx n) = Some (m, a) \<Longrightarrow> net_step n (n\<lparr>tx := a\<rparr>)"
| net_deliver: "p \<in> wire n \<Longrightarrow> arq_input p now (rx n) = (a, t) \<Longrightarrow> net_step n (n\<lparr>rx := a\<rparr>)"
| net_rx_flush: "arq_flush now ackOnly (rx n) = (a, out) \<Longrightarrow> net_step n (n\<lparr>rx := a\<rparr>)"
| net_rx_update: "arq_update now (rx n) = (a, out) \<Longrightarrow> net_step n (n\<lparr>rx := a\<rparr>)"
| net_rx_send: "arq_send data (rx n) = Inr a \<Longrightarrow> net_step n (n\<lparr>rx := a\<rparr>)"
| net_pop: "popMessage (rx n) = Some (m, a) \<Longrightarrow> net_step n (n\<lparr>rx := a, got := got n @ [m]\<rparr>)"

definition net_start :: "kcp_net \<Rightarrow> bool" where
  "net_start n \<longleftrightarrow> arq_start (tx n) \<and> arq_start (rx n) \<and> msgs n = [] \<and> wire n = {} \<and> got n = []"

definition sink_rel :: "(byte \<times> bytes) list \<Rightarrow> bool \<times> nat \<Rightarrow> bytes list \<Rightarrow> bytes list \<Rightarrow> arqState \<Rightarrow> bool" where
  "sink_rel sent md ms gs a \<longleftrightarrow>
     (\<exists>dlv. recv_rel sent dlv a \<and> concat (map snd dlv) = concat gs \<and>
        (\<not> fst md \<longrightarrow> prefix gs ms \<and> dlv = concat (map (frags (snd md)) gs)))"

definition net_inv :: "kcp_net \<Rightarrow> bool" where
  "net_inv n \<longleftrightarrow>
     arq_inv (tx n) \<and> arq_inv (rx n) \<and>
     (\<exists>sent. sender_rel sent (tx n) \<and> source_rel sent (tx n) (msgs n) \<and> (\<forall>p \<in> wire n. genuine_packet sent p) \<and>
        (segment_total (maxSegmentSize (tx n)) (msgs n) < 2 ^ 32 \<longrightarrow>
           sink_rel sent (mode (tx n)) (msgs n) (got n) (rx n)))"

lemma recv_side_flush:
  assumes "arq_flush now ackOnly a = (a', out)"
  shows "recv_side a = recv_side a'"
  using assms
proof (cases rule: arq_flush_shape)
  case (full sb acc)
  have "recv_side a' = recv_side (flush_a4 now a)" unfolding full(2) flush_congestion_sides by (simp add: recv_side_def)
  also have "\<dots> = recv_side (flush_a3 now a)" by (simp add: flush_a4_def flush_move_def recv_side_def case_prod_beta)
  finally show ?thesis by simp
qed (simp_all add: recv_side_def)

lemma recv_side_update:
  assumes "arq_update now a = (a', out)"
  shows "recv_side a = recv_side a'"
  using assms
proof (cases rule: arq_update_shape)
  case (1 b i t)
  then have "recv_side b = recv_side a" by (simp add: recv_side_def)
  with 1(2) recv_side_flush show ?thesis by metis
qed

lemma recv_side_send: "arq_send data a = Inr a' \<Longrightarrow> recv_side a = recv_side a'"
  by (auto simp: arq_send_def recv_side_def Let_def split: if_splits list.splits)

lemma send_side_pop:
  assumes "popMessage a = Some (m, a')"
  shows "send_side a' = send_side a"
proof -
  have "send_side (a\<lparr>probeFlags := f\<rparr>) = send_side a" "send_side (dropReceiveQueue n a) = send_side a" for a n f
    by (simp_all add: send_side_def dropReceiveQueue_def)
  with assms show ?thesis by (auto simp: popMessage_def Let_def split: if_splits)
qed

lemma sink_rel_more:
  "sink_rel sent md ms gs a \<Longrightarrow> prefix ms ms' \<Longrightarrow> sink_rel (sent @ rest) md ms' gs a"
  unfolding sink_rel_def using recv_rel_more prefix_order.trans by blast

lemma segment_total_prefix: "prefix ms ms' \<Longrightarrow> segment_total mss ms \<le> segment_total mss ms'"
  by (auto simp: prefix_def segment_total_def)

lemma net_inv_tx:
  assumes "net_inv n" and "arq_inv a" and "mode a = mode (tx n)" and "prefix (msgs n) ms"
    and "\<And>sent. sender_rel sent (tx n) \<Longrightarrow> source_rel sent (tx n) (msgs n) \<Longrightarrow>
      \<exists>mv. sender_rel (sent @ mv) a \<and> source_rel (sent @ mv) a ms \<and> (\<forall>p \<in> out. genuine_packet (sent @ mv) p)"
  shows "net_inv (n\<lparr>tx := a, msgs := ms, wire := wire n \<union> out\<rparr>)"
proof -
  obtain sent where sent: "sender_rel sent (tx n)" "source_rel sent (tx n) (msgs n)" "\<forall>p \<in> wire n. genuine_packet sent p"
    "segment_total (maxSegmentSize (tx n)) (msgs n) < 2 ^ 32 \<Longrightarrow> sink_rel sent (mode (tx n)) (msgs n) (got n) (rx n)"
    and rx: "arq_inv (rx n)"
    using assms(1) by (auto simp: net_inv_def)
  obtain mv where mv: "sender_rel (sent @ mv) a" "source_rel (sent @ mv) a ms" "\<forall>p \<in> out. genuine_packet (sent @ mv) p"
    using assms(5) [OF sent(1,2)] by blast
  have "maxSegmentSize a = maxSegmentSize (tx n)" using assms(3) by (simp add: mode_def)
  then have "sink_rel (sent @ mv) (mode a) ms (got n) (rx n)" if "segment_total (maxSegmentSize a) ms < 2 ^ 32"
    using that sent(4) segment_total_prefix [OF assms(4), of "maxSegmentSize a"] sink_rel_more [OF _ assms(4)] assms(3)
    by simp
  moreover have "\<forall>p \<in> wire n \<union> out. genuine_packet (sent @ mv) p"
    using sent(3) mv(3) genuine_packet_mono by blast
  ultimately show ?thesis
    using assms(2) rx mv(1,2) unfolding net_inv_def by (intro conjI exI [of _ "sent @ mv"]) simp_all
qed

lemma net_inv_shrink:
  assumes "net_inv n" and "arq_inv a" and "mode a = mode (tx n)" and "send_shrinks (tx n) a"
  shows "net_inv (n\<lparr>tx := a\<rparr>)"
proof -
  have "net_inv (n\<lparr>tx := a, msgs := msgs n, wire := wire n \<union> {}\<rparr>)"
    using assms(1-3)
    by (rule net_inv_tx)
      (use assms(3,4) sender_rel_shrinks in
        \<open>auto intro!: exI [of _ "[]"] simp: source_rel_def send_shrinks_def mode_def\<close>)
  then show ?thesis by simp
qed

lemma net_inv_rx:
  assumes "net_inv n" and "arq_inv a"
    and "\<And>sent. length sent < 2 ^ 32 \<Longrightarrow> source_rel sent (tx n) (msgs n) \<Longrightarrow> \<forall>p \<in> wire n. genuine_packet sent p \<Longrightarrow>
      sink_rel sent (mode (tx n)) (msgs n) (got n) (rx n) \<Longrightarrow> sink_rel sent (mode (tx n)) (msgs n) gs a"
  shows "net_inv (n\<lparr>rx := a, got := gs\<rparr>)"
proof -
  obtain sent where sent: "sender_rel sent (tx n)" "source_rel sent (tx n) (msgs n)" "\<forall>p \<in> wire n. genuine_packet sent p"
    "segment_total (maxSegmentSize (tx n)) (msgs n) < 2 ^ 32 \<Longrightarrow> sink_rel sent (mode (tx n)) (msgs n) (got n) (rx n)"
    and tx: "arq_inv (tx n)"
    using assms(1) by (auto simp: net_inv_def)
  have "length sent \<le> segment_total (maxSegmentSize (tx n)) (msgs n)" using sent(2) by (simp add: source_rel_def)
  then have "sink_rel sent (mode (tx n)) (msgs n) gs a" if "segment_total (maxSegmentSize (tx n)) (msgs n) < 2 ^ 32"
    using assms(3) sent that by simp
  with sent(1-3) tx assms(2) show ?thesis unfolding net_inv_def by (intro conjI exI [of _ sent]) simp_all
qed

lemma sink_rel_side:
  "recv_side a = recv_side b \<Longrightarrow> sink_rel sent md ms gs a \<Longrightarrow> sink_rel sent md ms gs b"
  unfolding sink_rel_def using recv_rel_cong by blast

lemma sink_rel_pop:
  assumes "sink_rel sent md ms gs a" and "popMessage a = Some (m, a')" and "length sent < 2 ^ 32"
    and "md = mode b" and "source_rel sent b ms" and "0 < maxSegmentSize b"
  shows "sink_rel sent md ms (gs @ [m]) a'"
proof -
  let ?qc = "map content (receiveQueue a)"
  obtain dlv where dlv: "recv_rel sent dlv a" "concat (map snd dlv) = concat gs"
    "\<not> fst md \<Longrightarrow> prefix gs ms \<and> dlv = concat (map (frags (snd md)) gs)"
    using assms(1) by (auto simp: sink_rel_def)
  obtain n where n: "n = unat (fragment (hd (receiveQueue a))) + 1" "n \<le> length (receiveQueue a)"
    "m = concat (map snd (take n ?qc))" "recv_rel sent (dlv @ take n ?qc) a'"
    using dlv(1) assms(3,2) by (rule recv_rel_pop)
  have "prefix (gs @ [m]) ms \<and> dlv @ take n ?qc = concat (map (frags (snd md)) (gs @ [m]))" if msg: "\<not> fst md"
  proof -
    let ?mss = "maxSegmentSize b"
    have md: "snd md = ?mss" "\<not> streamMode b" using assms(4) msg by (simp_all add: mode_def)
    have "prefix (dlv @ ?qc) sent" using dlv(1) by (simp add: recv_rel_def)
    moreover have "prefix sent (concat (map (frags ?mss) ms))" using assms(5) md(2) unfolding source_rel_def by (metis prefixI)
    ultimately have "prefix (dlv @ ?qc) (concat (map (frags ?mss) ms))" by (rule prefix_order.trans)
    then have "prefix (concat (map (frags ?mss) gs) @ ?qc) (concat (map (frags ?mss) ms))"
      using dlv(3) [OF msg] md(1) by simp
    moreover have "receiveQueue a \<noteq> []" using n(1,2) by auto
    then have "?qc \<noteq> []" "n = unat (fst (hd ?qc)) + 1" using n(1) by (simp_all add: hd_map content_def)
    moreover have "\<forall>m \<in> set ms. message_count ?mss (length m) \<le> 256" using assms(5) md(2) by (simp add: source_rel_def)
    ultimately obtain m' where m': "prefix (gs @ [m']) ms" "take n ?qc = frags ?mss m'"
      using pop_whole_message [of ?mss gs ?qc ms n] dlv(3) [OF msg] n(2) assms(6) by auto
    then have "m = m'" using n(3) frags_concat [OF assms(6)] by simp
    with m' dlv(3) [OF msg] md(1) show ?thesis by simp
  qed
  then show ?thesis
    using n(3,4) dlv(2) unfolding sink_rel_def by (intro exI [of _ "dlv @ take n ?qc"]) simp
qed

lemma flush_source:
  assumes "arq_inv a" and "arq_flush now ackOnly a = (a', out)"
    and "sender_rel sent a" and "source_rel sent a ms"
  shows "\<exists>mv. sender_rel (sent @ mv) a' \<and> source_rel (sent @ mv) a' ms \<and> (\<forall>p \<in> set out. genuine_packet (sent @ mv) p)"
proof -
  note f = sender_flush [OF assms(1,3,2)]
  have "source_rel (sent @ moved a a') a' ms"
    using assms(4) mode_flush [OF assms(2)] by (rule source_rel_flush) (use f in blast)
  with f show ?thesis by blast
qed

lemma net_inv_step:
  assumes "net_inv n" and "net_step n n'"
  shows "net_inv n'"
  using assms(2)
proof cases
  case (net_send data a)
  have pos: "arq_inv (tx n)" "0 < maxSegmentSize (tx n)" using assms(1) by (auto simp: net_inv_def arq_inv_def)
  have "sendNext a = sendNext (tx n)" "sendBuf a = sendBuf (tx n)"
    using arq_send_message [OF net_send(2)] arq_send_stream [OF net_send(2)] pos by blast+
  then have "sender_rel sent a" if "sender_rel sent (tx n)" for sent
    using that by (simp add: sender_rel_def)
  then have "net_inv (n\<lparr>tx := a, msgs := msgs n @ [data], wire := wire n \<union> {}\<rparr>)"
    using source_rel_send [OF _ net_send(2) pos(2)]
    by (intro net_inv_tx [OF assms(1) arq_inv_send [OF pos(1) net_send(2)] mode_send [OF net_send(2)]] exI [of _ "[]"])
      auto
  with net_send(1) show ?thesis by simp
next
  case (net_flush now ackOnly a out)
  have inv: "arq_inv (tx n)" using assms(1) by (simp add: net_inv_def)
  have "net_inv (n\<lparr>tx := a, msgs := msgs n, wire := wire n \<union> set out\<rparr>)"
    using assms(1)
  proof (rule net_inv_tx)
    show "arq_inv a" using arq_flush_ok [OF inv net_flush(2)] by blast
    show "mode a = mode (tx n)" using net_flush(2) by (rule mode_flush)
  qed (use flush_source [OF inv net_flush(2)] in simp_all)
  with net_flush(1) show ?thesis by simp
next
  case (net_update now a out)
  have inv: "arq_inv (tx n)" using assms(1) by (simp add: net_inv_def)
  obtain b i t where b: "b = (tx n)\<lparr>flushInitialized := i, nextFlushTimestamp := t\<rparr>"
    "arq_flush now False b = (a, out) \<or> a = b \<and> out = []"
    using net_update(2) by (rule arq_update_shape)
  have bi: "arq_inv b" "sender_rel sent b = sender_rel sent (tx n)" "source_rel sent b ms = source_rel sent (tx n) ms" for sent ms
    using inv unfolding b(1) by (simp_all add: arq_inv_def sender_rel_def source_rel_def)
  have "\<exists>mv. sender_rel (sent @ mv) a \<and> source_rel (sent @ mv) a (msgs n) \<and> (\<forall>p \<in> set out. genuine_packet (sent @ mv) p)"
    if "sender_rel sent (tx n)" "source_rel sent (tx n) (msgs n)" for sent
    using b(2)
  proof
    assume f: "arq_flush now False b = (a, out)"
    show ?thesis by (rule flush_source [OF bi(1) f]) (use that bi(2,3) in simp_all)
  next
    assume "a = b \<and> out = []"
    with that bi(2,3) show ?thesis by (intro exI [of _ "[]"]) simp
  qed
  then have "net_inv (n\<lparr>tx := a, msgs := msgs n, wire := wire n \<union> set out\<rparr>)"
    using arq_update_ok [OF inv net_update(2)] by (intro net_inv_tx [OF assms(1) _ mode_update [OF net_update(2)]]) auto
  with net_update(1) show ?thesis by simp
next
  case (net_feedback data now a t)
  have a: "a = fst (arq_input data now (tx n))" using net_feedback(2) by simp
  have inv: "arq_inv a" using assms(1) arq_inv_input unfolding a net_inv_def by blast
  have sh: "send_shrinks (tx n) a" unfolding a by (rule send_shrinks_input)
  have md: "mode a = mode (tx n)" unfolding a by simp
  from net_inv_shrink [OF assms(1) inv md sh] net_feedback(1) show ?thesis by simp
next
  case (net_tx_pop m a)
  have inv: "arq_inv a" using assms(1) arq_inv_pop net_tx_pop(2) unfolding net_inv_def by blast
  have md: "mode a = mode (tx n)" using net_tx_pop(2) by (rule mode_pop)
  have ss: "send_side a = send_side (tx n)" using net_tx_pop(2) by (rule send_side_pop)
  from net_inv_shrink [OF assms(1) inv md send_shrinks_refl [OF ss]] net_tx_pop(1) show ?thesis by simp
next
  case (net_deliver p now a t)
  have a: "a = fst (arq_input p now (rx n))" using net_deliver(3) by simp
  have "net_inv (n\<lparr>rx := a, got := got n\<rparr>)"
    using assms(1)
  proof (rule net_inv_rx)
    show "arq_inv a" using assms(1) arq_inv_input unfolding a net_inv_def by blast
    show "sink_rel sent (mode (tx n)) (msgs n) (got n) a"
      if "length sent < 2 ^ 32" "\<forall>p \<in> wire n. genuine_packet sent p"
        "sink_rel sent (mode (tx n)) (msgs n) (got n) (rx n)" for sent
      using that recv_rel_input [OF _ that(1)] net_deliver(2) unfolding sink_rel_def a by blast
  qed
  with net_deliver(1) show ?thesis by simp
next
  case (net_rx_flush now ackOnly a out)
  then have "arq_inv a" "recv_side (rx n) = recv_side a"
    using assms(1) arq_flush_ok recv_side_flush by (auto simp: net_inv_def)
  then have "net_inv (n\<lparr>rx := a, got := got n\<rparr>)" using sink_rel_side by (intro net_inv_rx [OF assms(1)])
  with net_rx_flush(1) show ?thesis by simp
next
  case (net_rx_update now a out)
  then have "arq_inv a" "recv_side (rx n) = recv_side a"
    using assms(1) arq_update_ok recv_side_update by (auto simp: net_inv_def)
  then have "net_inv (n\<lparr>rx := a, got := got n\<rparr>)" using sink_rel_side by (intro net_inv_rx [OF assms(1)])
  with net_rx_update(1) show ?thesis by simp
next
  case (net_rx_send data a)
  then have "arq_inv a" "recv_side (rx n) = recv_side a"
    using assms(1) arq_inv_send recv_side_send by (auto simp: net_inv_def)
  then have "net_inv (n\<lparr>rx := a, got := got n\<rparr>)" using sink_rel_side by (intro net_inv_rx [OF assms(1)])
  with net_rx_send(1) show ?thesis by simp
next
  case (net_pop m a)
  have "0 < maxSegmentSize (tx n)" using assms(1) by (auto simp: net_inv_def arq_inv_def)
  moreover have "arq_inv a" using assms(1) arq_inv_pop net_pop(2) unfolding net_inv_def by blast
  ultimately have "net_inv (n\<lparr>rx := a, got := got n @ [m]\<rparr>)"
    using sink_rel_pop [OF _ net_pop(2)] by (intro net_inv_rx [OF assms(1)]) auto
  with net_pop(1) show ?thesis by simp
qed

interpretation net_run: inductive_invariant net_start net_step net_inv
proof unfold_locales
  fix n assume "net_start n"
  then obtain c1 c2 where c: "good_config c1" "good_config c2" "tx n = arq_init c1" "rx n = arq_init c2"
    and e: "msgs n = []" "wire n = {}" "got n = []"
    by (auto simp: net_start_def arq_start_def)
  then have "sender_rel [] (tx n)" "source_rel [] (tx n) []" "recv_rel [] [] (rx n)"
    by (simp_all add: sender_rel_def source_rel_def recv_rel_def arq_init_def sent_pairs_def)
  then show "net_inv n"
    using c e arq_inv_init unfolding net_inv_def sink_rel_def by (intro conjI exI [of _ "[]"]) auto
next
  fix n n' assume "net_inv n" and "net_step n n'"
  then show "net_inv n'" by (rule net_inv_step)
qed

section \<open>Delivery\<close>

text \<open>C8. Message mode: whatever the network loses, repeats, delays and reorders, and whatever bytes
  are fed to the sender, the messages the receiver returns are the first messages the sender accepted,
  whole, in order and each once (as long as fewer than \<open>2 ^ 32\<close> segments were numbered).\<close>

theorem kcp_messages_in_order:
  assumes "reach net_start net_step n" and "\<not> streamMode (tx n)"
    and "segment_total (maxSegmentSize (tx n)) (msgs n) < 2 ^ 32"
  shows "prefix (got n) (msgs n)"
  using net_run.reach_inv [OF assms(1)] assms(2,3)
  by (auto simp: net_inv_def sink_rel_def mode_def)

text \<open>A run for the witnesses: one message sent, its packet delivered, the message returned.\<close>

definition pkt1 :: bytes where
  "pkt1 = encodeHeader \<lparr>h_conv = 7, h_cmd = 81, h_frg = 0, h_wnd = 128,
    h_ts = 0, h_sn = 0, h_una = 0, h_length = 3\<rparr> @ [1, 2, 3]"

definition rx1 :: arqState where "rx1 = fst (arq_input pkt1 0 (arq_init cfg1))"

lemma rx1_fields: "receiveQueue rx1 = [new_segment [1, 2, 3] 0 0]"
  by (simp add: rx1_def arq_input_def pkt1_def readHeader_encode input_loop.simps input_segment_def input_push_def
      insertDataSegment_def parseUnacknowledged_def refreshSendUnacknowledged_def known_cmd_def
      arq_init_def cfg1_def timeDiff_def Let_def arq_consts)

definition net1 :: kcp_net where
  "net1 = \<lparr>tx = arq2, rx = snd (the (popMessage rx1)), msgs = [[1, 2, 3]], wire = {pkt1}, got = [[1, 2, 3]]\<rparr>"

lemma net1_reach: "reach net_start net_step net1"
proof -
  let ?n0 = "\<lparr>tx = arq_init cfg1, rx = arq_init cfg1, msgs = [], wire = {}, got = []\<rparr>"
  let ?n1 = "?n0\<lparr>tx := arq1, msgs := msgs ?n0 @ [[1, 2, 3]]\<rparr>"
  let ?n2 = "?n1\<lparr>tx := arq2, wire := wire ?n1 \<union> set [pkt1]\<rparr>"
  let ?n3 = "?n2\<lparr>rx := rx1\<rparr>"
  have "arq_start (arq_init cfg1)"
    unfolding arq_start_def by (rule exI [of _ cfg1]) (simp add: good_config_def cfg1_def headerSize_def)
  then have "reach net_start net_step ?n0" by (intro reach_init) (simp add: net_start_def)
  moreover have "net_step ?n0 ?n1" by (rule net_send) (simp add: arq1_sent)
  moreover have "net_step ?n1 ?n2"
    by (rule net_flush [of 0 False]) (simp add: arq2_def pkt1_def flip: arq1_flush)
  moreover have "net_step ?n2 ?n3"
    by (rule net_deliver [of pkt1 _ 0 _ "snd (arq_input pkt1 0 (arq_init cfg1))"]) (simp_all add: rx1_def)
  moreover have "net_step ?n3 net1"
  proof -
    have "popMessage rx1 = Some ([1, 2, 3], snd (the (popMessage rx1)))"
      by (simp add: popMessage_def peekSize_def rx1_fields new_segment_def Let_def)
    then have "net_step ?n3 (?n3\<lparr>rx := snd (the (popMessage rx1)), got := got ?n3 @ [[1, 2, 3]]\<rparr>)"
      by (intro net_pop) simp
    then show ?thesis by (simp add: net1_def)
  qed
  ultimately show ?thesis by (meson reach_step)
qed

lemma net1_small: "segment_total (maxSegmentSize (tx net1)) (msgs net1) < 2 ^ 32" "\<not> streamMode (tx net1)"
proof -
  have "mode arq2 = mode arq1" using mode_flush [of 0 False arq1 arq2] by (metis arq2_def prod.collapse)
  then have "maxSegmentSize arq2 = 1376 \<and> \<not> streamMode arq2"
    by (simp add: mode_def arq1_def arq_init_def cfg1_def headerSize_def)
  then show "segment_total (maxSegmentSize (tx net1)) (msgs net1) < 2 ^ 32" "\<not> streamMode (tx net1)"
    by (simp_all add: net1_def segment_total_def message_count_def)
qed

theorem kcp_messages_in_order_witness: "got net1 = [[1, 2, 3]] \<and> prefix (got net1) (msgs net1)"
  using kcp_messages_in_order [OF net1_reach net1_small(2,1)] by (simp add: net1_def)

text \<open>C9. Stream mode: the bytes the receiver returns are a prefix of the bytes the sender accepted.\<close>

theorem kcp_stream_in_order:
  assumes "reach net_start net_step n" and "segment_total (maxSegmentSize (tx n)) (msgs n) < 2 ^ 32"
  shows "prefix (concat (got n)) (concat (msgs n))"
proof -
  obtain sent dlv where "source_rel sent (tx n) (msgs n)" "recv_rel sent dlv (rx n)" "concat (map snd dlv) = concat (got n)"
    using net_run.reach_inv [OF assms(1)] assms(2) by (auto simp: net_inv_def sink_rel_def)
  then have "concat (map snd (sent @ map content (sendQueue (tx n)))) = concat (msgs n)" "prefix dlv sent"
    "concat (map snd dlv) = concat (got n)"
    unfolding source_rel_def recv_rel_def by (blast dest: append_prefixD)+
  moreover from this(2) obtain zs where "sent = dlv @ zs" by (auto simp: prefix_def)
  ultimately have "concat (msgs n) = concat (got n) @ concat (map snd (zs @ map content (sendQueue (tx n))))"
    by (metis append.assoc concat_append map_append)
  then show ?thesis by (rule prefixI)
qed

theorem kcp_stream_in_order_witness: "concat (got net1) = [1, 2, 3] \<and> prefix (concat (got net1)) (concat (msgs net1))"
  using kcp_stream_in_order [OF net1_reach net1_small(1)] by (simp add: net1_def)

end
