(* ===== verification/KcpSession.thy ===== *)
theory KcpSession
  imports KcpDelivery
begin

unbundle bit_operations_syntax

text \<open>
  A session of the KCP server (\<^verbatim>\<open>kcp/conn.go\<close>) around its ARQ: packets, ticks, writes and closes from any number of
  goroutines, and the callbacks of the handler. A step is a section under the mutex of the session or of its shard, one
  atomic operation, or the call of a callback; a section that reads \<^verbatim>\<open>closed\<close> happens when it reads it, since the rest of
  what it uses is only used under the mutex. What callbacks do is among what other goroutines may do; they do not panic.
\<close>

section \<open>State\<close>

definition cbRead :: u32 where "cbRead = 1"
definition cbClose :: u32 where "cbClose = 2"
definition cbScheduled :: u32 where "cbScheduled = 0x80000000"

datatype close_reason = ErrDeadlineExceeded | ErrDeadLink | EOF | ErrServerClosed

datatype callback = OnOpen | OnData bytes | OnClose "close_reason option"

text \<open>
  \<open>listed\<close> is whether the session is the one of its address in the table of its shard, \<open>calls\<close> are the callbacks so far,
  \<open>out\<close> the packets sent. \<open>parked\<close> is set when the callbacks have ended for good, \<open>won\<close> is the reason of the close that came first.
\<close>

record kcp_conn =
  word :: u32
  lastActive :: int
  closed :: bool
  opened :: bool
  listed :: bool
  session_arq :: arqState
  closeErr :: "close_reason option"
  out :: "bytes list"
  calls :: "callback list"
  parked :: bool
  won :: "close_reason option option"

definition newConn :: "arqConfig \<Rightarrow> int \<Rightarrow> kcp_conn" where
  "newConn cfg nowNs =
     \<lparr>word = 0, lastActive = nowNs, closed = False, opened = False, listed = True, session_arq = arq_init cfg, closeErr = None, out = [],
      calls = [], parked = False, won = None\<rparr>"

text \<open>\<^verbatim>\<open>flush\<close> hands the packets to the socket.\<close>

definition flush :: "u32 \<Rightarrow> bool \<Rightarrow> kcp_conn \<Rightarrow> kcp_conn" where
  "flush now ackOnly c = (let (a, ps) = arq_flush now ackOnly (session_arq c) in c\<lparr>session_arq := a, out := out c @ ps\<rparr>)"

section \<open>Steps\<close>

text \<open>
  What a goroutine is about to do: in \<^verbatim>\<open>handleInbound\<close>, \<^verbatim>\<open>update\<close>, \<^verbatim>\<open>Write\<close>, \<^verbatim>\<open>closeWith\<close>, \<^verbatim>\<open>notify\<close>, and in
  \<^verbatim>\<open>runCallbacks\<close> with the events of the round and whether it has delivered messages.
\<close>

datatype session_pc = I_Store bytes int u32 | I_Input bytes u32 | U_Update u32 | S_Send bytes
  | X_Cas "close_reason option" | X_Remove "close_reason option" | X_Release "close_reason option" | N_Or u32
  | R_Swap | R_Open u32 | R_Read u32 | D_Loop u32 bool | D_Pop u32 bool | D_Data u32 bytes | D_Flush u32 bool
  | R_End u32 | R_Err | R_Close "close_reason option" | R_Cas | Returned

definition round_begin :: "u32 \<Rightarrow> kcp_conn \<Rightarrow> session_pc" where
  "round_begin ev c = (if \<not> opened c \<and> ev AND cbClose = 0 then R_Open ev else R_Read ev)"

fun session_step :: "u32 \<Rightarrow> session_pc \<Rightarrow> kcp_conn \<Rightarrow> kcp_conn \<times> session_pc" where
  "session_step now (I_Store d ns ms) c = (c\<lparr>lastActive := ns\<rparr>, I_Input d ms)"
| "session_step now (I_Input d ms) c =
     (if closed c then (c, Returned)
      else let (a, ok) = arq_input d ms (session_arq c); c1 = c\<lparr>session_arq := a\<rparr>; c2 = (if ok then flush ms False c1 else c1) in
        (c2, if dead (session_arq c2) then X_Cas (Some ErrDeadLink) else N_Or cbRead))"
| "session_step now (U_Update ms) c =
     (if closed c then (c, Returned)
      else let (a, ps) = arq_update ms (session_arq c); c1 = c\<lparr>session_arq := a, out := out c @ ps\<rparr> in
        (c1, if dead (session_arq c1) then X_Cas (Some ErrDeadLink) else Returned))"
| "session_step now (S_Send b) c =
     (if closed c then (c, Returned)
      else if b = [] \<and> streamMode (session_arq c) then (c, Returned)
      else case arq_send b (session_arq c) of Inl e \<Rightarrow> (c, Returned)
        | Inr a \<Rightarrow> let c1 = flush now False (c\<lparr>session_arq := a\<rparr>) in (c1, if dead (session_arq c1) then X_Cas (Some ErrDeadLink) else Returned))"
| "session_step now (X_Cas e) c = (if closed c then (c, Returned) else (c\<lparr>closed := True, won := Some e\<rparr>, X_Remove e))"
| "session_step now (X_Remove e) c = (c\<lparr>listed := False\<rparr>, X_Release e)"
| "session_step now (X_Release e) c =
     (let c1 = c\<lparr>closeErr := e\<rparr>; c2 = (if e = None then flush now False c1 else c1) in
      (c2\<lparr>session_arq := arq_release (session_arq c2)\<rparr>, N_Or cbClose))"
| "session_step now (N_Or ev) c = (c\<lparr>word := word c OR (ev OR cbScheduled)\<rparr>, if word c AND cbScheduled = 0 then R_Swap else Returned)"
| "session_step now R_Swap c = (c\<lparr>word := cbScheduled\<rparr>, round_begin (word c AND NOT cbScheduled) c)"
| "session_step now (R_Open ev) c = (c\<lparr>opened := True, calls := calls c @ [OnOpen]\<rparr>, R_Read ev)"
| "session_step now (R_Read ev) c = (c, if ev AND cbRead \<noteq> 0 \<and> \<not> closed c then D_Loop ev False else R_End ev)"
| "session_step now (D_Loop ev delivered) c = (c, if closed c then D_Flush ev delivered else D_Pop ev delivered)"
| "session_step now (D_Pop ev delivered) c =
     (case popMessage (session_arq c) of None \<Rightarrow> (c, D_Flush ev delivered) | Some (m, a) \<Rightarrow> (c\<lparr>session_arq := a\<rparr>, D_Data ev m))"
| "session_step now (D_Data ev m) c = (c\<lparr>calls := calls c @ [OnData m]\<rparr>, D_Loop ev True)"
| "session_step now (D_Flush ev delivered) c =
     (if \<not> closed c \<and> pendingAcks (session_arq c) \<noteq> [] then flush now (\<not> delivered \<and> sendQueue (session_arq c) = []) c else c, R_End ev)"
| "session_step now (R_End ev) c =
     (if ev AND cbClose \<noteq> 0 \<or> closed c then (if opened c then (c, R_Err) else (c\<lparr>parked := True\<rparr>, Returned)) else (c, R_Cas))"
| "session_step now R_Err c = (c, R_Close (closeErr c))"
| "session_step now (R_Close e) c = (c\<lparr>calls := calls c @ [OnClose e], parked := True\<rparr>, Returned)"
| "session_step now R_Cas c = (if word c = cbScheduled then (c\<lparr>word := 0\<rparr>, Returned) else (c, R_Swap))"
| "session_step now Returned c = (c, Returned)"

text \<open>
  Where the calls come from: packets and ticks, the handler and other goroutines (\<^verbatim>\<open>Write\<close>, \<^verbatim>\<open>Close\<close>), and the server,
  which closes sessions it has found in its table (idle ones, and all of them at the end) and one whose address begins a new
  conversation, after dropping it from the table.
\<close>

inductive session_run :: "kcp_conn \<times> session_pc list \<Rightarrow> kcp_conn \<times> session_pc list \<Rightarrow> bool" where
  packet: "session_run (c, gs) (c, gs @ [I_Store d ns ms])"
| tick: "session_run (c, gs) (c, gs @ [U_Update ms])"
| writes: "session_run (c, gs) (c, gs @ [S_Send b])"
| closes: "session_run (c, gs) (c, gs @ [X_Cas None])"
| expires: "e = ErrDeadlineExceeded \<or> e = ErrServerClosed \<Longrightarrow> session_run (c, gs) (c, gs @ [X_Cas (Some e)])"
| replaced: "listed c \<Longrightarrow> session_run (c, gs) (c\<lparr>listed := False\<rparr>, gs @ [X_Cas (Some EOF)])"
| goroutine: "j < length gs \<Longrightarrow> session_step now (gs ! j) c = (c', pc) \<Longrightarrow> session_run (c, gs) (c', gs[j := pc])"

inductive_cases session_run_cases: "session_run s t"

definition session_init :: "kcp_conn \<times> session_pc list \<Rightarrow> bool" where
  "session_init s \<longleftrightarrow> (\<exists>cfg nowNs. s = (newConn cfg nowNs, []))"

end
