(* ===== verification/KcpCallbacks.thy ===== *)
theory KcpCallbacks
  imports KcpSession
begin

unbundle bit_operations_syntax

text \<open>
  The callbacks of a KCP session: they run one at a time, \<^verbatim>\<open>OnOpen\<close> first and \<^verbatim>\<open>OnClose\<close> last, no message that has arrived is
  left behind, and a closed session comes to its \<^verbatim>\<open>OnClose\<close>.
\<close>

section \<open>The state word\<close>

lemma event_bits:
  "w AND cbRead = 0 \<longleftrightarrow> \<not> bit w 0" "w AND cbClose = 0 \<longleftrightarrow> \<not> bit w 1" "w AND cbScheduled = 0 \<longleftrightarrow> \<not> bit w 31"
  using and_exp_eq_0_iff_not_bit [of w 0] and_exp_eq_0_iff_not_bit [of w 1] and_exp_eq_0_iff_not_bit [of w 31]
  by (simp_all add: cbRead_def cbClose_def cbScheduled_def)

lemma constant_bits:
  "bit cbRead 0" "\<not> bit cbRead 1" "bit cbClose 1" "\<not> bit cbClose 0" "bit cbScheduled 31" "\<not> bit cbScheduled 0" "\<not> bit cbScheduled 1"
  "\<not> bit cbRead 31" "\<not> bit cbClose 31"
  by (simp_all add: cbRead_def cbClose_def cbScheduled_def bit_numeral_simps bit_1_iff)

lemma word_bits:
  "bit (w OR (ev OR cbScheduled)) 31" "bit (w OR (ev OR cbScheduled)) 0 \<longleftrightarrow> bit w 0 \<or> bit ev 0" "bit (w OR (ev OR cbScheduled)) 1 \<longleftrightarrow> bit w 1 \<or> bit ev 1"
  "bit (w AND NOT cbScheduled) 0 \<longleftrightarrow> bit w 0" "bit (w AND NOT cbScheduled) 1 \<longleftrightarrow> bit w 1"
  using constant_bits by (auto simp: bit_or_iff bit_and_iff bit_not_iff)

lemmas session_bits = event_bits constant_bits word_bits constant_bits [unfolded One_nat_def] word_bits [unfolded One_nat_def]

section \<open>The invariant\<close>

fun running :: "session_pc \<Rightarrow> bool" where
  "running (I_Store d ns ms) = False" | "running (I_Input d ms) = False" | "running (U_Update ms) = False" | "running (S_Send b) = False"
| "running (X_Cas e) = False" | "running (X_Remove e) = False" | "running (X_Release e) = False" | "running (N_Or ev) = False"
| "running Returned = False" | "running _ = True"

definition runners :: "session_pc list \<Rightarrow> int" where
  "runners gs = sum_list (map (\<lambda>pc. of_bool (running pc)) gs)"

fun pc_ok :: "kcp_conn \<Rightarrow> session_pc \<Rightarrow> bool" where
  "pc_ok c (X_Remove e) \<longleftrightarrow> won c = Some e"
| "pc_ok c (X_Release e) \<longleftrightarrow> won c = Some e"
| "pc_ok c (N_Or ev) \<longleftrightarrow> (bit ev 1 \<longrightarrow> closed c)"
| "pc_ok c (R_Open ev) \<longleftrightarrow> \<not> opened c \<and> \<not> bit ev 1"
| "pc_ok c (R_Read ev) \<longleftrightarrow> (\<not> opened c \<longrightarrow> bit ev 1) \<and> (bit ev 1 \<longrightarrow> closed c)"
| "pc_ok c (D_Loop ev d) \<longleftrightarrow> opened c \<and> (bit ev 1 \<longrightarrow> closed c)"
| "pc_ok c (D_Pop ev d) \<longleftrightarrow> opened c \<and> (bit ev 1 \<longrightarrow> closed c)"
| "pc_ok c (D_Data ev m) \<longleftrightarrow> opened c \<and> (bit ev 1 \<longrightarrow> closed c)"
| "pc_ok c (D_Flush ev d) \<longleftrightarrow> opened c \<and> (bit ev 1 \<longrightarrow> closed c)"
| "pc_ok c (R_End ev) \<longleftrightarrow> (\<not> opened c \<longrightarrow> bit ev 1) \<and> (bit ev 1 \<longrightarrow> closed c)"
| "pc_ok c R_Err \<longleftrightarrow> opened c \<and> closed c"
| "pc_ok c (R_Close e) \<longleftrightarrow> opened c \<and> closed c \<and> (e = None \<or> won c = Some e)"
| "pc_ok c _ \<longleftrightarrow> True"

text \<open>Goroutines that bring the session to its end, and to its messages.\<close>

fun ending :: "session_pc \<Rightarrow> bool" where
  "ending (X_Remove e) = True" | "ending (X_Release e) = True" | "ending (N_Or ev) = bit ev 1" | "ending (R_Open ev) = bit ev 1"
| "ending (R_Read ev) = bit ev 1" | "ending (D_Loop ev d) = bit ev 1" | "ending (D_Pop ev d) = bit ev 1" | "ending (D_Data ev m) = bit ev 1"
| "ending (D_Flush ev d) = bit ev 1" | "ending (R_End ev) = bit ev 1" | "ending R_Err = True" | "ending (R_Close e) = True" | "ending _ = False"

fun reading :: "session_pc \<Rightarrow> bool" where
  "reading (X_Cas e) = True" | "reading (N_Or ev) = bit ev 0" | "reading (R_Open ev) = bit ev 0" | "reading (R_Read ev) = bit ev 0"
| "reading (D_Loop ev d) = True" | "reading (D_Pop ev d) = True" | "reading (D_Data ev m) = True" | "reading _ = False"

definition ready :: "kcp_conn \<Rightarrow> bool" where
  "ready c \<longleftrightarrow> popMessage (session_arq c) \<noteq> None"

definition log_ok :: "kcp_conn \<Rightarrow> bool" where
  "log_ok c \<longleftrightarrow> (\<exists>ms r. calls c = (if opened c then OnOpen # map OnData ms @ (if parked c then [OnClose r] else []) else []) \<and> (r = None \<or> won c = Some r))"

definition conn_ok :: "kcp_conn \<Rightarrow> bool" where
  "conn_ok c \<longleftrightarrow> (\<not> bit (word c) 31 \<longrightarrow> word c = 0) \<and> (bit (word c) 1 \<longrightarrow> closed c) \<and> (parked c \<longrightarrow> closed c) \<and> (closed c \<longleftrightarrow> won c \<noteq> None) \<and>
     (closeErr c = None \<or> won c = Some (closeErr c)) \<and> log_ok c"

definition coming :: "kcp_conn \<Rightarrow> session_pc list \<Rightarrow> bool" where
  "coming c gs \<longleftrightarrow> (closed c \<longrightarrow> parked c \<or> bit (word c) 1 \<or> (\<exists>pc \<in> set gs. ending pc)) \<and>
     (\<not> closed c \<and> ready c \<longrightarrow> bit (word c) 0 \<or> (\<exists>pc \<in> set gs. reading pc))"

text \<open>A session that is not in the table is closed or about to be, and one that is closed leaves the table.\<close>

definition settled :: "kcp_conn \<Rightarrow> session_pc list \<Rightarrow> bool" where
  "settled c gs \<longleftrightarrow> (closed c \<and> listed c \<longrightarrow> (\<exists>e. X_Remove e \<in> set gs)) \<and> (\<not> listed c \<longrightarrow> closed c \<or> (\<exists>e. X_Cas e \<in> set gs))"

fun session_inv :: "kcp_conn \<times> session_pc list \<Rightarrow> bool" where
  "session_inv (c, gs) \<longleftrightarrow> conn_ok c \<and> (\<forall>pc \<in> set gs. pc_ok c pc) \<and> of_bool (bit (word c) 31) = runners gs + of_bool (parked c) \<and> coming c gs \<and> settled c gs"

lemma runners_update: "j < length gs \<Longrightarrow> runners (gs[j := pc]) = runners gs - of_bool (running (gs ! j)) + of_bool (running pc)"
proof -
  assume j: "j < length gs"
  have "gs[j := pc] = take j gs @ pc # drop (Suc j) gs" using j by (rule upd_conv_take_nth_drop)
  moreover have "runners gs = runners (take j gs @ gs ! j # drop (Suc j) gs)" using id_take_nth_drop [OF j] by simp
  ultimately show ?thesis by (simp add: runners_def)
qed

lemma runners_nonneg: "0 \<le> runners gs"
  by (auto simp: runners_def intro!: sum_list_nonneg)

lemma runners_ge: "j < length gs \<Longrightarrow> running (gs ! j) \<Longrightarrow> 1 \<le> runners gs"
  using runners_update [of j gs Returned] runners_nonneg [of "gs[j := Returned]"] by simp

lemma set_update: "j < length gs \<Longrightarrow> pc \<in> set (gs[j := pc])" "x \<in> set gs \<Longrightarrow> x \<noteq> gs ! j \<Longrightarrow> x \<in> set (gs[j := pc])"
proof -
  show "j < length gs \<Longrightarrow> pc \<in> set (gs[j := pc])" by (rule set_update_memI)
  show "x \<in> set (gs[j := pc])" if x: "x \<in> set gs" "x \<noteq> gs ! j"
  proof -
    obtain i where "i < length gs" "gs ! i = x" using x(1) by (metis in_set_conv_nth)
    then show ?thesis using x(2) by (metis length_list_update nth_list_update_neq nth_mem)
  qed
qed

section \<open>Every step keeps it\<close>

lemma flush_fields [simp]:
  "word (flush now k c) = word c" "closed (flush now k c) = closed c" "opened (flush now k c) = opened c" "closeErr (flush now k c) = closeErr c"
  "calls (flush now k c) = calls c" "parked (flush now k c) = parked c" "won (flush now k c) = won c"
  by (simp_all add: flush_def split_beta Let_def)

lemma ready_recv: "recv_side (session_arq c') = recv_side (session_arq c) \<Longrightarrow> ready c' = ready c"
proof -
  assume "recv_side (session_arq c') = recv_side (session_arq c)"
  then have "peekSize (session_arq c') = peekSize (session_arq c)" by (simp only: peekSize_def recv_side_def prod.inject)
  then show ?thesis by (auto simp: ready_def popMessage_def Let_def)
qed

lemma ready_flush [simp]: "ready (flush now k c) = ready c"
proof (rule ready_recv)
  obtain a ps where "arq_flush now k (session_arq c) = (a, ps)" by (cases "arq_flush now k (session_arq c)")
  then show "recv_side (session_arq (flush now k c)) = recv_side (session_arq c)" using recv_side_flush by (auto simp: flush_def)
qed

text \<open>Steps that touch the ARQ and nothing else of what follows.\<close>

fun plain :: "session_pc \<Rightarrow> bool" where
  "plain (I_Store d ns ms) = True" | "plain (I_Input d ms) = True" | "plain (U_Update ms) = True" | "plain (S_Send b) = True"
| "plain (X_Remove e) = True" | "plain (R_Read ev) = True" | "plain (D_Loop ev d) = True" | "plain (D_Pop ev d) = True"
| "plain (D_Flush ev d) = True" | "plain R_Err = True" | "plain Returned = True" | "plain _ = False"

definition same_control :: "kcp_conn \<Rightarrow> kcp_conn \<Rightarrow> bool" where
  "same_control c c' \<longleftrightarrow> word c' = word c \<and> closed c' = closed c \<and> opened c' = opened c \<and> closeErr c' = closeErr c \<and> calls c' = calls c \<and>
     parked c' = parked c \<and> won c' = won c"

lemma plain_step: "plain pc \<Longrightarrow> session_step now pc c = (c', pc') \<Longrightarrow> same_control c c'"
  by (cases pc) (auto split: if_splits sum.splits prod.splits option.splits simp: Let_def same_control_def)

text \<open>A goroutine is only in the callbacks while the word has the bit and the callbacks have not ended.\<close>

lemma log_cong: "calls c' = calls c \<Longrightarrow> opened c' = opened c \<Longrightarrow> parked c' = parked c \<Longrightarrow> won c' = won c \<Longrightarrow> log_ok c' = log_ok c"
  by (simp add: log_ok_def)

lemma log_step:
  assumes ok: "conn_ok c" and po: "pc_ok c pc" and st: "session_step now pc c = (c', pc')" and run: "running pc \<Longrightarrow> \<not> parked c"
  shows "log_ok c'"
proof -
  obtain ms r where log: "calls c = (if opened c then OnOpen # map OnData ms @ (if parked c then [OnClose r] else []) else [])" "r = None \<or> won c = Some r"
    using ok by (auto simp: conn_ok_def log_ok_def)
  have lo: "log_ok c" using ok by (simp add: conn_ok_def)
  have wn: "parked c \<Longrightarrow> closed c" using ok by (simp add: conn_ok_def)
  show ?thesis
  proof (cases pc)
    case (X_Cas e)
    show ?thesis
    proof (cases "closed c")
      case False
      then have "calls c' = calls c" "opened c' = opened c" "parked c' = parked c" "\<not> parked c" using st X_Cas wn by auto
      then show ?thesis using log(1) unfolding log_ok_def by (metis (full_types))
    qed (use st X_Cas lo in auto)
  next
    case (R_Open ev)
    then have "calls c' = [OnOpen]" "opened c'" "\<not> parked c'" using st po log(1) run by auto
    then show ?thesis unfolding log_ok_def by (intro exI [of _ "[]"] exI [of _ None]) auto
  next
    case (D_Data ev m)
    then have "calls c' = OnOpen # map OnData (ms @ [m])" "opened c'" "\<not> parked c'" using st po log(1) run by auto
    then show ?thesis unfolding log_ok_def by (intro exI [of _ "ms @ [m]"] exI [of _ None]) auto
  next
    case (R_Close e)
    then have "calls c' = OnOpen # map OnData ms @ [OnClose e]" "opened c'" "parked c'" "e = None \<or> won c' = Some e" using st po log(1) run by auto
    then show ?thesis unfolding log_ok_def by (intro exI [of _ ms] exI [of _ e]) auto
  next
    case (R_End ev)
    show ?thesis
    proof (cases "opened c")
      case False
      then have "calls c' = []" "\<not> opened c'" using st R_End log(1) by (auto split: if_splits)
      then show ?thesis unfolding log_ok_def by auto
    qed (use st R_End lo in \<open>auto split: if_splits\<close>)
  next
    case (X_Release e)
    then show ?thesis using st lo log_cong [of c' c] by (auto split: if_splits simp: Let_def)
  next
    case (N_Or ev)
    then show ?thesis using st lo log_cong [of c' c] by auto
  next
    case R_Swap
    then show ?thesis using st lo log_cong [of c' c] by auto
  next
    case R_Cas
    then show ?thesis using st lo log_cong [of c' c] by (auto split: if_splits)
  qed (use plain_step [OF _ st] lo log_cong [of c' c] in \<open>simp_all add: same_control_def\<close>)
qed

lemma conn_ok_cong:
  assumes "conn_ok c" "log_ok c'" "closed c' = closed c \<and> parked c' = parked c \<and> won c' = won c \<and> closeErr c' = closeErr c"
    and "word c' = word c \<or> word c' = 0 \<or> bit (word c') 31 \<and> (bit (word c') 1 \<longrightarrow> closed c)"
  shows "conn_ok c'"
proof -
  have "\<not> bit (0 :: u32) 1" by simp
  then show ?thesis using assms unfolding conn_ok_def by metis
qed

lemma conn_step:
  assumes ok: "conn_ok c" and po: "pc_ok c pc" and st: "session_step now pc c = (c', pc')" and run: "running pc \<Longrightarrow> \<not> parked c \<and> bit (word c) 31"
  shows "conn_ok c'"
proof -
  have lo: "log_ok c'" using log_step [OF ok po st] run by blast
  have parts: "\<not> bit (word c) 31 \<longrightarrow> word c = 0" "bit (word c) 1 \<longrightarrow> closed c" "parked c \<longrightarrow> closed c" "closed c \<longleftrightarrow> won c \<noteq> None"
    "closeErr c = None \<or> won c = Some (closeErr c)" using ok unfolding conn_ok_def by blast+
  show ?thesis
  proof (cases pc)
    case (N_Or ev)
    then have wc: "word c' = word c OR (ev OR cbScheduled)" and cl: "bit ev 1 \<longrightarrow> closed c" using st po by auto
    have "bit (word c') 31" unfolding wc by (rule word_bits(1))
    moreover have "bit (word c') 1 \<longrightarrow> closed c" unfolding wc word_bits(3) using cl parts(2) by blast
    ultimately show ?thesis using N_Or st by (intro conn_ok_cong [OF ok lo]) auto
  next
    case R_Swap
    then have "word c' = cbScheduled" using st by auto
    then show ?thesis using R_Swap st by (intro conn_ok_cong [OF ok lo]) (auto simp: session_bits)
  next
    case (X_Cas e)
    show ?thesis
    proof (cases "closed c")
      case True
      then show ?thesis using st X_Cas ok by simp
    next
      case False
      then have eq: "c' = c\<lparr>closed := True, won := Some e\<rparr>" and no: "closeErr c = None" using st X_Cas parts by auto
      then show ?thesis using lo parts(1) by (simp add: conn_ok_def)
    qed
  next
    case (X_Release e)
    then have w: "won c = Some e" using po by simp
    have "closed c' = closed c" "parked c' = parked c" "won c' = won c" "closeErr c' = e" "word c' = word c"
      using st X_Release by (auto split: if_splits simp: Let_def)
    then show ?thesis using w lo parts unfolding conn_ok_def by metis
  next
    case (R_Close e)
    then have cl: "closed c" using po by simp
    have "closed c' = closed c" "won c' = won c" "closeErr c' = closeErr c" "word c' = word c" using st R_Close by auto
    then show ?thesis using cl lo parts unfolding conn_ok_def by metis
  next
    case (R_End ev)
    then have cl: "bit ev 1 \<longrightarrow> closed c" using po by simp
    have "closed c' = closed c \<and> won c' = won c \<and> closeErr c' = closeErr c \<and> word c' = word c" "parked c' \<longrightarrow> parked c \<or> bit ev 1 \<or> closed c"
      using st R_End by (auto split: if_splits simp: session_bits)
    then show ?thesis using cl lo parts unfolding conn_ok_def by metis
  next
    case R_Cas
    then show ?thesis using st by (intro conn_ok_cong [OF ok lo]) (auto split: if_splits)
  next
    case (R_Open ev)
    then show ?thesis using st by (intro conn_ok_cong [OF ok lo]) auto
  next
    case (D_Data ev m)
    then show ?thesis using st by (intro conn_ok_cong [OF ok lo]) auto
  qed (use plain_step [OF _ st] conn_ok_cong [OF ok lo] in \<open>simp_all add: same_control_def\<close>)
qed

lemma pc_step:
  assumes ok: "conn_ok c" and po: "pc_ok c pc" and st: "session_step now pc c = (c', pc')" and run: "running pc \<Longrightarrow> \<not> parked c \<and> bit (word c) 31"
  shows "pc_ok c' pc'"
    and "of_bool (bit (word c') 31) - of_bool (running pc') - of_bool (parked c') = (of_bool (bit (word c) 31) - of_bool (running pc) - of_bool (parked c) :: int)"
proof -
  have parts: "bit (word c) 1 \<longrightarrow> closed c" "closed c \<longleftrightarrow> won c \<noteq> None" "closeErr c = None \<or> won c = Some (closeErr c)" using ok unfolding conn_ok_def by blast+
  show "pc_ok c' pc'"
    using st po parts
    by (cases pc) (auto split: if_splits prod.splits sum.splits option.splits simp: Let_def round_begin_def session_bits)
  show "of_bool (bit (word c') 31) - of_bool (running pc') - of_bool (parked c') = (of_bool (bit (word c) 31) - of_bool (running pc) - of_bool (parked c) :: int)"
    using st run
    by (cases pc) (auto split: if_splits prod.splits sum.splits option.splits simp: Let_def round_begin_def session_bits)
qed

text \<open>What the other goroutines rely on only grows.\<close>

definition later :: "kcp_conn \<Rightarrow> kcp_conn \<Rightarrow> bool" where
  "later c c' \<longleftrightarrow> (closed c \<longrightarrow> closed c') \<and> (\<forall>r. won c = Some r \<longrightarrow> won c' = Some r) \<and> (parked c \<longrightarrow> parked c')"

lemma step_later:
  assumes ok: "conn_ok c" and st: "session_step now pc c = (c', pc')"
  shows "later c c'" and "\<not> running pc \<Longrightarrow> opened c' = opened c"
proof -
  have no: "\<not> closed c \<longrightarrow> won c = None" using ok unfolding conn_ok_def by blast
  show "later c c'"
  proof (cases "plain pc")
    case True
    then show ?thesis using plain_step [OF True st] by (simp add: same_control_def later_def)
  next
    case False
    then show ?thesis using st no by (cases pc) (auto split: if_splits simp: Let_def later_def)
  qed
  show "opened c' = opened c" if nr: "\<not> running pc"
  proof (cases "plain pc")
    case True
    then show ?thesis using plain_step [OF True st] by (simp add: same_control_def)
  next
    case False
    then show ?thesis using st nr by (cases pc) (auto split: if_splits simp: Let_def)
  qed
qed

lemma pc_ok_later: "pc_ok c x \<Longrightarrow> later c c' \<Longrightarrow> running x \<longrightarrow> opened c' = opened c \<Longrightarrow> pc_ok c' x"
  by (cases x) (auto simp: later_def)

lemma ending_step:
  assumes po: "pc_ok c pc" and st: "session_step now pc c = (c', pc')"
  shows "closed c' \<and> \<not> closed c \<longrightarrow> ending pc'" and "ending pc \<or> bit (word c) 1 \<Longrightarrow> parked c' \<or> bit (word c') 1 \<or> ending pc'"
proof -
  show "closed c' \<and> \<not> closed c \<longrightarrow> ending pc'"
    using st by (cases pc) (auto split: if_splits sum.splits prod.splits option.splits simp: Let_def)
  show "parked c' \<or> bit (word c') 1 \<or> ending pc'" if "ending pc \<or> bit (word c) 1"
    using st po that
    by (cases pc) (auto split: if_splits sum.splits prod.splits option.splits simp: Let_def round_begin_def session_bits)
qed

lemma ready_arq: "recv_side a = recv_side (session_arq c) \<Longrightarrow> ready (c\<lparr>session_arq := a\<rparr>) = ready c" "ready (c\<lparr>session_arq := a, out := ps\<rparr>) = ready (c\<lparr>session_arq := a\<rparr>)"
  by (rule ready_recv) (simp_all add: ready_def)

lemma ready_fields [simp]:
  "ready (c\<lparr>word := w\<rparr>) = ready c" "ready (c\<lparr>listed := l\<rparr>) = ready c" "ready (c\<lparr>lastActive := n\<rparr>) = ready c" "ready (c\<lparr>calls := k\<rparr>) = ready c"
  "ready (c\<lparr>opened := o1\<rparr>) = ready c" "ready (c\<lparr>parked := p\<rparr>) = ready c" "ready (c\<lparr>out := ps\<rparr>) = ready c"
  by (simp_all add: ready_def)

lemma reading_step:
  assumes ok: "conn_ok c" and po: "pc_ok c pc" and st: "session_step now pc c = (c', pc')" and rd: "\<not> closed c'" "ready c'"
  shows "bit (word c') 0 \<or> reading pc' \<or> ready c \<and> \<not> reading pc \<and> \<not> bit (word c) 0"
proof -
  have cl: "won c = Some r \<Longrightarrow> closed c" for r using ok unfolding conn_ok_def by blast
  show ?thesis
  proof (cases pc)
    case (U_Update ms)
    obtain a ps where u: "arq_update ms (session_arq c) = (a, ps)" by (cases "arq_update ms (session_arq c)")
    have "ready c'"  using rd by simp
    moreover have "ready (c\<lparr>session_arq := a\<rparr>) = ready c" by (rule ready_arq(1) [OF recv_side_update [OF u, symmetric]])
    ultimately have "ready c" "word c' = word c" using st rd U_Update u by (auto split: if_splits simp: Let_def ready_arq(2))
    then show ?thesis using U_Update by auto
  next
    case (S_Send b)
    have "ready (c\<lparr>session_arq := a\<rparr>) = ready c" if "arq_send b (session_arq c) = Inr a" for a
      by (rule ready_arq(1) [OF recv_side_send [OF that, symmetric]])
    then have "ready c \<and> word c' = word c" using st rd S_Send by (auto split: if_splits sum.splits simp: Let_def)
    then show ?thesis using S_Send by auto
  next
    case (D_Pop ev d)
    then show ?thesis using st rd by (auto split: option.splits simp: ready_def)
  next
    case (I_Input d ms)
    then show ?thesis using st rd by (auto split: if_splits prod.splits simp: Let_def session_bits)
  next
    case (X_Release e)
    then have "closed c'" using st po cl by (auto split: if_splits simp: Let_def)
    then show ?thesis using rd by simp
  next
    case (D_Flush ev d)
    then show ?thesis using st rd by (auto split: if_splits)
  qed (use st rd in \<open>auto split: if_splits simp: Let_def round_begin_def session_bits\<close>)
qed

lemma only_runner:
  assumes "runners gs \<le> 1" and i: "i < length gs" and j: "j < length gs" and ij: "i \<noteq> j" and run: "running (gs ! j)"
  shows "\<not> running (gs ! i)"
proof
  assume ri: "running (gs ! i)"
  have "1 \<le> runners (gs[j := Returned])" using i ij ri by (intro runners_ge [of i]) auto
  then show False using runners_update [OF j, of Returned] run assms(1) by simp
qed

lemma coming_step:
  assumes ok: "conn_ok c" and po: "pc_ok c (gs ! j)" and cm: "coming c gs" and j: "j < length gs" and st: "session_step now (gs ! j) c = (c', pc)"
  shows "coming c' (gs[j := pc])"
proof -
  note lt = step_later(1) [OF ok st, unfolded later_def]
  have here: "pc \<in> set (gs[j := pc])" using set_update(1) [OF j] .
  have "parked c' \<or> bit (word c') 1 \<or> (\<exists>x \<in> set (gs[j := pc]). ending x)" if c1: "closed c'"
  proof (cases "closed c")
    case True
    consider "parked c" | "bit (word c) 1 \<or> ending (gs ! j)" | x where "x \<in> set gs" "ending x" "x \<noteq> gs ! j"
      using cm True unfolding coming_def by metis
    then show ?thesis
    proof cases
      case 1
      then show ?thesis using lt by simp
    next
      case 2
      then show ?thesis using ending_step(2) [OF po st] here by blast
    next
      case 3
      then show ?thesis using set_update(2) by metis
    qed
  next
    case False
    then show ?thesis using ending_step(1) [OF po st] c1 here by blast
  qed
  moreover have "bit (word c') 0 \<or> (\<exists>x \<in> set (gs[j := pc]). reading x)" if r: "\<not> closed c'" "ready c'"
  proof -
    consider "bit (word c') 0 \<or> reading pc" | "ready c" "\<not> reading (gs ! j)" "\<not> bit (word c) 0" using reading_step [OF ok po st r] by blast
    then show ?thesis
    proof cases
      case 2
      then obtain x where "x \<in> set gs" "reading x" "x \<noteq> gs ! j" using cm r(1) lt unfolding coming_def by metis
      then show ?thesis using set_update(2) by metis
    qed (use here in blast)
  qed
  ultimately show ?thesis unfolding coming_def by blast
qed

lemma listed_step: "session_step now pc c = (c', pc') \<Longrightarrow> listed c' = (listed c \<and> (\<forall>e. pc \<noteq> X_Remove e))"
  by (cases pc) (auto split: if_splits sum.splits prod.splits option.splits simp: Let_def flush_def split_beta)

lemma settled_step:
  assumes ok: "conn_ok c" and po: "pc_ok c (gs ! j)" and se: "settled c gs" and j: "j < length gs" and st: "session_step now (gs ! j) c = (c', pc)"
  shows "settled c' (gs[j := pc])"
proof -
  have here: "pc \<in> set (gs[j := pc])" using set_update(1) [OF j] .
  have cl: "won c = Some r \<Longrightarrow> closed c" for r using ok unfolding conn_ok_def by blast
  note lt = step_later(1) [OF ok st, unfolded later_def] and ls = listed_step [OF st]
  have "\<exists>e. X_Remove e \<in> set (gs[j := pc])" if c1: "closed c'" "listed c'"
  proof (cases "closed c")
    case True
    then obtain e where e: "X_Remove e \<in> set gs" using se c1(2) ls unfolding settled_def by blast
    moreover have "X_Remove e \<noteq> gs ! j" using c1(2) ls by metis
    ultimately show ?thesis using set_update(2) by metis
  next
    case False
    then have "\<exists>e. pc = X_Remove e" using st c1(1) by (cases "gs ! j") (auto split: if_splits sum.splits prod.splits option.splits simp: Let_def)
    then show ?thesis using here by blast
  qed
  moreover have "closed c' \<or> (\<exists>e. X_Cas e \<in> set (gs[j := pc]))" if u: "\<not> listed c'"
  proof (cases "listed c")
    case True
    then obtain e where "gs ! j = X_Remove e" using u ls by blast
    then show ?thesis using po cl lt by simp
  next
    case False
    consider "closed c" | e where "X_Cas e \<in> set gs" using se False unfolding settled_def by blast
    then show ?thesis
    proof cases
      case 2
      show ?thesis
      proof (cases "X_Cas e = gs ! j")
        case True
        then have "closed c'" using st by (simp flip: True split: if_splits) auto
        then show ?thesis by simp
      qed (use 2 set_update(2) in metis)
    qed (use lt in simp)
  qed
  ultimately show ?thesis unfolding settled_def by blast
qed

lemma goroutine_inv:
  assumes iv: "session_inv (c, gs)" and j: "j < length gs" and st: "session_step now (gs ! j) c = (c', pc)"
  shows "session_inv (c', gs[j := pc])"
proof -
  have ok: "conn_ok c" and pos: "\<forall>x \<in> set gs. pc_ok c x" and cnt: "of_bool (bit (word c) 31) = runners gs + of_bool (parked c)" and cm: "coming c gs" and se: "settled c gs"
    using iv by simp_all
  have le: "runners gs \<le> 1" using cnt by (cases "bit (word c) 31"; cases "parked c") simp_all
  have po: "pc_ok c (gs ! j)" using pos j by simp
  have run: "running (gs ! j) \<Longrightarrow> \<not> parked c \<and> bit (word c) 31"
    using cnt runners_ge [OF j] by (cases "bit (word c) 31"; cases "parked c") auto
  have "pc_ok c' x" if x: "x \<in> set (gs[j := pc])" for x
  proof -
    obtain i where i: "i < length gs" "x = gs[j := pc] ! i" using x by (metis in_set_conv_nth length_list_update)
    show ?thesis
    proof (cases "i = j")
      case True
      then show ?thesis using pc_step(1) [OF ok po st run] i by simp
    next
      case False
      then have "x = gs ! i" using i by simp
      moreover have "running x \<longrightarrow> opened c' = opened c" using step_later(2) [OF ok st] only_runner [OF le i(1) j False] calculation by blast
      ultimately show ?thesis using pc_ok_later [OF _ step_later(1) [OF ok st]] pos i(1) by simp
    qed
  qed
  moreover have "of_bool (bit (word c') 31) = runners (gs[j := pc]) + of_bool (parked c')"
    using pc_step(2) [OF ok po st run] runners_update [OF j, of pc] cnt by linarith
  ultimately show ?thesis using conn_step [OF ok po st run] coming_step [OF ok po cm j st] settled_step [OF ok po se j st] by simp
qed

lemma call_inv:
  assumes iv: "session_inv (c, gs)" and c': "same_control c c'" "session_arq c' = session_arq c" and pc: "pc_ok c pc" "\<not> running pc"
    and ls: "listed c' = listed c \<or> \<not> listed c' \<and> (\<exists>e. pc = X_Cas e)"
  shows "session_inv (c', gs @ [pc])"
proof -
  have "later c c'" "opened c' = opened c" using c'(1) by (simp_all add: same_control_def later_def)
  then have "pc_ok c x \<Longrightarrow> pc_ok c' x" for x using pc_ok_later by blast
  then have "\<forall>x \<in> set (gs @ [pc]). pc_ok c' x" using iv pc(1) by simp
  moreover have "conn_ok c'" 
  proof (rule conn_ok_cong)
    show ok: "conn_ok c" using iv by simp
    show "log_ok c'" using ok c'(1) log_cong [of c' c] unfolding conn_ok_def same_control_def by blast
  qed (use c'(1) in \<open>simp_all add: same_control_def\<close>)
  moreover have "ready c' = ready c" using c' by (simp add: ready_def)
  then have "coming c' (gs @ [pc])" using iv c'(1) by (auto simp: same_control_def coming_def)
  moreover have "settled c' (gs @ [pc])" using iv c'(1) ls by (auto simp: same_control_def settled_def)
  moreover have "runners (gs @ [pc]) = runners gs" using pc(2) by (simp add: runners_def)
  ultimately show ?thesis using iv c'(1) by (simp add: same_control_def)
qed

lemma call_same: "session_inv (c, gs) \<Longrightarrow> pc_ok c pc \<Longrightarrow> \<not> running pc \<Longrightarrow> session_inv (c, gs @ [pc])"
  using call_inv [of c gs c pc] by (simp add: same_control_def del: session_inv.simps)

interpretation session_runs: inductive_invariant session_init session_run session_inv
proof unfold_locales
  show "session_inv s" if "session_init s" for s
    using that by (auto simp: session_init_def newConn_def conn_ok_def log_ok_def coming_def settled_def runners_def ready_def popMessage_def peekSize_def arq_init_def Let_def)
  show "session_inv t" if iv: "session_inv s" and "session_run s t" for s t
    using that(2)
  proof cases
    case (goroutine j gs now c c' pc)
    then show ?thesis using goroutine_inv iv by blast
  next
    case (replaced c gs)
    then show ?thesis using call_inv [of c gs "c\<lparr>listed := False\<rparr>" "X_Cas (Some EOF)"] iv by (simp add: same_control_def del: session_inv.simps)
  qed (use iv call_same in \<open>simp_all del: session_inv.simps\<close>)
qed

lemma runners_filter: "runners gs = int (length (filter running gs))"
  by (induction gs) (simp_all add: runners_def)

section \<open>Runs\<close>

text \<open>A move is a call of the outside or a step of a goroutine, at the time of the server.\<close>

datatype session_turn = Call session_pc | Turn nat u32

fun session_move :: "session_turn \<Rightarrow> kcp_conn \<times> session_pc list \<Rightarrow> kcp_conn \<times> session_pc list" where
  "session_move (Call pc) (c, gs) =
     (case pc of I_Store d ns ms \<Rightarrow> (c, gs @ [pc]) | S_Send b \<Rightarrow> (c, gs @ [pc]) | X_Cas None \<Rightarrow> (c, gs @ [pc])
      | X_Cas (Some ErrDeadlineExceeded) \<Rightarrow> if listed c then (c, gs @ [pc]) else (c, gs) | _ \<Rightarrow> (c, gs))"
| "session_move (Turn j now) (c, gs) =
     (if j < length gs then let (c', pc) = session_step now (gs ! j) c in (c', gs[j := pc]) else (c, gs))"

lemma session_move_run: "session_move m s \<noteq> s \<Longrightarrow> session_run s (session_move m s)"
proof (cases s; cases m)
  fix c gs pc
  assume "s = (c, gs)" "m = Call pc" "session_move m s \<noteq> s"
  then show ?thesis by (auto split: session_pc.splits option.splits close_reason.splits if_splits intro: session_run.intros)
next
  fix c gs j now
  assume "s = (c, gs)" "m = Turn j now" "session_move m s \<noteq> s"
  then show ?thesis by (auto split: if_splits prod.splits intro: session_run.goroutine)
qed

lemma session_moves_reach: "reach session_init session_run s \<Longrightarrow> reach session_init session_run (fold session_move ms s)"
proof (induction ms arbitrary: s)
  case (Cons m ms)
  then have "reach session_init session_run (session_move m s)" using session_move_run [of m s] reach_step by (cases "session_move m s = s") fastforce+
  then show ?case using Cons.IH by simp
qed simp

text \<open>
  A message arrives and is delivered, and the session is closed; and a session that is found idle and closed while its
  first packet is being handled.
\<close>

definition demo_session :: "kcp_conn \<times> session_pc list" where
  "demo_session = (newConn cfg1 0, [])"

definition demo_close :: "session_turn list" where
  "demo_close = Call (I_Store pkt1 1 0) # replicate 14 (Turn 0 0) @ Call (X_Cas None) # replicate 9 (Turn 1 0)"

definition demo_idle :: "session_turn list" where
  "demo_idle = [Call (X_Cas (Some ErrDeadlineExceeded)), Call (I_Store pkt1 1 0), Turn 1 0, Turn 1 0, Turn 0 0] @ replicate 7 (Turn 1 0) @ replicate 3 (Turn 0 0)"

definition session_view :: "kcp_conn \<times> session_pc list \<Rightarrow> callback list \<times> bool \<times> close_reason option option \<times> session_pc list" where
  "session_view = (\<lambda>(c, gs). (calls c, closed c, won c, gs))"

lemma demo_session_reach: "reach session_init session_run (fold session_move ms demo_session)"
  by (rule session_moves_reach, rule reach_init) (auto simp: session_init_def demo_session_def)

lemma demo_close_view:
  "session_view (fold session_move demo_close demo_session) = ([OnOpen, OnData [1, 2, 3], OnClose None], True, Some None, [Returned, Returned])"
  by code_simp

lemma demo_idle_view:
  "session_view (fold session_move demo_idle demo_session) = ([OnOpen, OnClose None], True, Some (Some ErrDeadlineExceeded), [Returned, Returned])"
  by code_simp

lemma session_callbacks:
  assumes iv: "session_inv (c, gs)"
  shows "length (filter running gs) \<le> 1"
    and "calls c = [] \<or> (\<exists>ms. calls c = OnOpen # map OnData ms) \<or>
      closed c \<and> (\<exists>ms r. calls c = OnOpen # map OnData ms @ [OnClose r] \<and> (r = None \<or> won c = Some r))"
proof -
  have ok: "conn_ok c" and cnt: "of_bool (bit (word c) 31) = runners gs + of_bool (parked c)" using iv by simp_all
  obtain ms r where log: "calls c = (if opened c then OnOpen # map OnData ms @ (if parked c then [OnClose r] else []) else [])" "r = None \<or> won c = Some r"
    using ok unfolding conn_ok_def log_ok_def by blast
  have pk: "parked c \<longrightarrow> closed c" using ok unfolding conn_ok_def by blast
  show "length (filter running gs) \<le> 1" using cnt unfolding runners_filter by (cases "bit (word c) 31"; cases "parked c") simp_all
  show "calls c = [] \<or> (\<exists>ms. calls c = OnOpen # map OnData ms) \<or>
      closed c \<and> (\<exists>ms r. calls c = OnOpen # map OnData ms @ [OnClose r] \<and> (r = None \<or> won c = Some r))"
    using log pk by (cases "opened c"; cases "parked c") auto
qed

lemma session_rest:
  assumes iv: "session_inv (c, gs)" and gs: "\<And>x. x \<in> set gs \<Longrightarrow> x = Returned"
  shows "if closed c then calls c = [] \<or> (\<exists>ms r. calls c = OnOpen # map OnData ms @ [OnClose r]) else popMessage (session_arq c) = None \<and> word c = 0"
    and "listed c \<longleftrightarrow> \<not> closed c"
proof -
  have ok: "conn_ok c" and cnt: "of_bool (bit (word c) 31) = runners gs + of_bool (parked c)" and cm: "coming c gs" and se: "settled c gs" using iv by simp_all
  obtain ms r where log: "calls c = (if opened c then OnOpen # map OnData ms @ (if parked c then [OnClose r] else []) else [])"
    using ok unfolding conn_ok_def log_ok_def by blast
  have pk: "parked c \<longrightarrow> closed c" using ok unfolding conn_ok_def by blast
  have "filter running gs = []" using gs running.simps(9) by (metis filter_False)
  then have w: "bit (word c) 31 = parked c" using cnt unfolding runners_filter by (cases "bit (word c) 31"; cases "parked c") simp_all
  have z: "\<not> parked c \<Longrightarrow> word c = 0" using ok w unfolding conn_ok_def by blast
  have "\<not> (\<exists>x \<in> set gs. ending x)" "\<not> (\<exists>x \<in> set gs. reading x)" using gs by fastforce+
  then have end1: "closed c \<longrightarrow> parked c" and end2: "\<not> closed c \<and> ready c \<longrightarrow> parked c" using cm z unfolding coming_def by force+
  show "if closed c then calls c = [] \<or> (\<exists>ms r. calls c = OnOpen # map OnData ms @ [OnClose r]) else popMessage (session_arq c) = None \<and> word c = 0"
  proof (cases "closed c")
    case True
    then show ?thesis using log end1 by (cases "opened c") auto
  next
    case False
    then show ?thesis using pk z end2 unfolding ready_def by meson
  qed
  have "X_Remove e \<notin> set gs" "X_Cas e \<notin> set gs" for e using gs by blast+
  then show "listed c \<longleftrightarrow> \<not> closed c" using se unfolding settled_def by blast
qed

section \<open>Properties\<close>

text \<open>
  C2. The callbacks of a KCP session run one at a time, \<^verbatim>\<open>OnOpen\<close> first, then \<^verbatim>\<open>OnData\<close>, then \<^verbatim>\<open>OnClose\<close> last and only once, with no
  reason or the one of the close that came first, whatever the interleaving of packets, ticks, writes and closes. And no wake-up is lost: when all
  calls have returned, a closed session has had its \<^verbatim>\<open>OnClose\<close> (or never its \<^verbatim>\<open>OnOpen\<close>), and one that is open has no message
  left to deliver and no event pending.
\<close>

theorem kcp_session_callbacks:
  assumes "reach session_init session_run (c, gs)"
  shows "length (filter running gs) \<le> 1 \<and>
    (calls c = [] \<or> (\<exists>ms. calls c = OnOpen # map OnData ms) \<or>
      closed c \<and> (\<exists>ms r. calls c = OnOpen # map OnData ms @ [OnClose r] \<and> (r = None \<or> won c = Some r))) \<and>
    (gs = replicate (length gs) Returned \<longrightarrow>
      (if closed c then calls c = [] \<or> (\<exists>ms r. calls c = OnOpen # map OnData ms @ [OnClose r])
       else popMessage (session_arq c) = None \<and> word c = 0))"
proof (intro conjI impI)
  note iv = session_runs.reach_inv [OF assms]
  show "if closed c then calls c = [] \<or> (\<exists>ms r. calls c = OnOpen # map OnData ms @ [OnClose r]) else popMessage (session_arq c) = None \<and> word c = 0"
    if rest: "gs = replicate (length gs) Returned"
    by (rule session_rest(1) [OF iv]) (metis rest in_set_replicate)
qed (use session_callbacks [OF session_runs.reach_inv [OF assms]] in blast)+

theorem kcp_session_callbacks_witness:
  "\<exists>c gs. reach session_init session_run (c, gs) \<and> gs = replicate 2 Returned \<and> closed c \<and>
     calls c = [OnOpen, OnData [1, 2, 3], OnClose None] \<and> length (filter running gs) \<le> 1 \<and>
     (calls c = [] \<or> (\<exists>ms r. calls c = OnOpen # map OnData ms @ [OnClose r]))"
proof -
  obtain c gs where s: "fold session_move demo_close demo_session = (c, gs)" by (cases "fold session_move demo_close demo_session")
  have v: "calls c = [OnOpen, OnData [1, 2, 3], OnClose None]" "closed c" "gs = replicate 2 Returned"
    using demo_close_view unfolding s session_view_def by (simp_all add: numeral_2_eq_2)
  have r: "reach session_init session_run (c, gs)" using demo_session_reach [of demo_close] s by simp
  have "gs = replicate (length gs) Returned" unfolding v(3) by simp
  then show ?thesis using kcp_session_callbacks [OF r] r v by (metis (full_types))
qed

text \<open>
  The reason can be lost: a session whose idle time has run out is closed while a packet of it is being handled, and its
  \<^verbatim>\<open>OnClose\<close> comes before the reason is stored, with none, as after \<^verbatim>\<open>Conn.Close\<close>.
\<close>

theorem kcp_close_reason_lost:
  "\<exists>c gs. reach session_init session_run (c, gs) \<and> gs = [Returned, Returned] \<and> won c = Some (Some ErrDeadlineExceeded) \<and> calls c = [OnOpen, OnClose None]"
proof -
  obtain c gs where s: "fold session_move demo_idle demo_session = (c, gs)" by (cases "fold session_move demo_idle demo_session")
  then show ?thesis using demo_idle_view demo_session_reach [of demo_idle] unfolding session_view_def by auto
qed

end
