(* ===== verification/KcpServer.thy ===== *)
theory KcpServer
  imports KcpCallbacks "HOL-Library.Multiset"
begin

unbundle bit_operations_syntax

text \<open>
  The KCP server (\<^verbatim>\<open>kcp/server.go\<close>): options, the table of sessions in shards, the counter of sessions, and how packets, the
  ticker and the end of the server reach the sessions of \<^verbatim>\<open>KcpSession\<close>. A goroutine is a stack of calls. A step is an
  atomic operation or a section under a mutex; the mutex of a shard is modelled where the counter, which is not guarded by
  it, is changed inside the section.
\<close>

section \<open>Options\<close>

record kcp_options =
  ReadBufferSize :: int
  WriteBufferSize :: int
  MTU :: int
  SendWindow :: int
  ReceiveWindow :: int
  Interval :: int
  IdleTimeout :: int
  MaxSessions :: int
  NoDelay :: bool
  StreamMode :: bool

definition Millisecond :: int where "Millisecond = 1000000"
definition defaultSocketBufferSize :: int where "defaultSocketBufferSize = 4 * 2 ^ 20"
definition defaultMTU :: int where "defaultMTU = 1400"
definition minMTU :: int where "minMTU = 128"
definition maxMTU :: int where "maxMTU = 65500"
definition defaultWindowSize :: int where "defaultWindowSize = 128"
definition defaultInterval :: int where "defaultInterval = 10 * Millisecond"
definition defaultIdleTimeout :: int where "defaultIdleTimeout = 30000 * Millisecond"
definition defaultMaxSessions :: int where "defaultMaxSessions = 65536"

definition withDefaults :: "kcp_options \<Rightarrow> kcp_options" where
  "withDefaults o1 =
     o1\<lparr>ReadBufferSize := (if ReadBufferSize o1 = 0 then defaultSocketBufferSize else ReadBufferSize o1),
        WriteBufferSize := (if WriteBufferSize o1 = 0 then defaultSocketBufferSize else WriteBufferSize o1),
        MTU := min (max (if MTU o1 \<le> 0 then defaultMTU else MTU o1) minMTU) maxMTU,
        SendWindow := (if SendWindow o1 \<le> 0 then defaultWindowSize else SendWindow o1),
        ReceiveWindow := (if ReceiveWindow o1 \<le> 0 then defaultWindowSize else ReceiveWindow o1),
        Interval := min (max (if Interval o1 \<le> 0 then defaultInterval else Interval o1) (10 * Millisecond)) (5000 * Millisecond),
        IdleTimeout := (if IdleTimeout o1 = 0 then defaultIdleTimeout else IdleTimeout o1),
        MaxSessions := (if MaxSessions o1 \<le> 0 then defaultMaxSessions else MaxSessions o1)\<rparr>"

text \<open>The configuration of the ARQ of a session (\<^verbatim>\<open>newConn\<close>).\<close>

definition conn_config :: "kcp_options \<Rightarrow> u32 \<Rightarrow> arqConfig" where
  "conn_config o1 conv =
     \<lparr>cfg_conversationID = conv, cfg_mtu = nat (MTU o1), cfg_sendWindow = of_int (SendWindow o1), cfg_receiveWindow = of_int (ReceiveWindow o1),
      cfg_interval = of_int (Interval o1 div Millisecond), cfg_noDelay = NoDelay o1, cfg_streamMode = StreamMode o1\<rparr>"

section \<open>Addresses\<close>

text \<open>\<^verbatim>\<open>netip.AddrPort\<close>: the 16 bytes of \<^verbatim>\<open>Addr().As16()\<close> and the port.\<close>

record addr_port =
  As16 :: bytes
  Port :: u16

definition numSessionShards :: nat where "numSessionShards = 64"

definition shardIndex :: "addr_port \<Rightarrow> nat" where
  "shardIndex a =
     (let v = le_word (drop 8 (As16 a)) XOR (ucast (Port a) * 0x9e3779b97f4a7c15) :: u64;
          w = v XOR drop_bit 33 v
      in unat (w AND 63))"

section \<open>State\<close>

record served =
  remoteAddr :: addr_port
  conversation :: u32
  session :: kcp_conn

text \<open>
  Sessions are named by the order of their creation; \<open>conns\<close> holds all there ever were. \<open>shards\<close> are the maps of the shards,
  \<open>held\<close> says whether their mutexes are.
\<close>

record kcp_server =
  opts :: kcp_options
  shards :: "nat \<Rightarrow> addr_port \<Rightarrow> nat option"
  held :: "nat \<Rightarrow> bool"
  sessionCount :: int
  srv_closed :: bool
  conns :: "served list"

definition NewServer :: "kcp_options \<Rightarrow> kcp_server" where
  "NewServer o1 = \<lparr>opts = withDefaults o1, shards = (\<lambda>_ _. None), held = (\<lambda>_. False), sessionCount = 0, srv_closed = False, conns = []\<rparr>"

definition hold :: "nat \<Rightarrow> bool \<Rightarrow> kcp_server \<Rightarrow> kcp_server" where
  "hold i b s = s\<lparr>held := (held s)(i := b)\<rparr>"

definition set_shard :: "addr_port \<Rightarrow> nat option \<Rightarrow> kcp_server \<Rightarrow> kcp_server" where
  "set_shard a x s = s\<lparr>shards := (shards s)(shardIndex a := (shards s (shardIndex a))(a := x))\<rparr>"

definition sessions :: "addr_port \<Rightarrow> kcp_server \<Rightarrow> nat option" where
  "sessions a s = shards s (shardIndex a) a"

definition set_session :: "nat \<Rightarrow> kcp_conn \<Rightarrow> kcp_server \<Rightarrow> kcp_server" where
  "set_session k c s = s\<lparr>conns := (conns s)[k := (conns s ! k)\<lparr>session := c\<rparr>]\<rparr>"

abbreviation session_of :: "kcp_server \<Rightarrow> nat \<Rightarrow> kcp_conn" where
  "session_of s k \<equiv> session (conns s ! k)"

abbreviation addr_of :: "kcp_server \<Rightarrow> nat \<Rightarrow> addr_port" where
  "addr_of s k \<equiv> remoteAddr (conns s ! k)"

section \<open>Calls\<close>

text \<open>A datagram with its sender and the times at which it is handled.\<close>

record datagram =
  p_data :: bytes
  p_from :: addr_port
  p_ns :: int
  p_ms :: u32

definition p_conv :: "datagram \<Rightarrow> u32" where "p_conv p = le_word (take 4 (p_data p))"
definition p_cmd :: "datagram \<Rightarrow> byte" where "p_cmd p = p_data p ! 4"
definition p_sn :: "datagram \<Rightarrow> u32" where "p_sn p = le_word (take 4 (drop 12 (p_data p)))"

text \<open>
  What a goroutine is about to do: in \<^verbatim>\<open>OnPacket\<close> and \<^verbatim>\<open>reserveSessionSlot\<close>, in an operation of a session, after it has been
  taken out of the table by \<^verbatim>\<open>remove\<close>, in \<^verbatim>\<open>tick\<close> (with the sessions found to be idle) and in \<^verbatim>\<open>closeAllSessions\<close>.
\<close>

datatype server_pc = O_Begin datagram | O_Lock datagram | O_Sub nat datagram | O_Relock datagram | O_Load datagram | O_Cas int datagram | O_Insert datagram
  | Session nat session_pc | X_Sub nat "close_reason option"
  | T_Scan nat int u32 "nat list" | A_Scan nat "nat list"

text \<open>The sessions of a shard in the order in which the iteration finds them: any order.\<close>

definition shard_sessions :: "nat \<Rightarrow> kcp_server \<Rightarrow> nat list" where
  "shard_sessions i s = filter (\<lambda>k. shards s i (addr_of s k) = Some k) [0..<length (conns s)]"

definition in_order :: "nat list \<Rightarrow> nat list \<Rightarrow> nat list" where
  "in_order order ks = (if mset order = mset ks then order else ks)"

definition idleCutoff :: "int \<Rightarrow> kcp_server \<Rightarrow> int" where
  "idleCutoff nowNs s = (if IdleTimeout (opts s) > 0 then nowNs - IdleTimeout (opts s) else -1)"

definition expired :: "int \<Rightarrow> kcp_server \<Rightarrow> nat \<Rightarrow> bool" where
  "expired nowNs s k \<longleftrightarrow> idleCutoff nowNs s \<ge> 0 \<and> lastActive (session_of s k) < idleCutoff nowNs s"

text \<open>
  The next step of a call at the top of a goroutine, and the calls that take its place; none while it waits for a mutex.
  \<open>now\<close> is the time of the server, \<open>order\<close> the order of an iteration.
\<close>

fun server_frame :: "u32 \<Rightarrow> nat list \<Rightarrow> server_pc \<Rightarrow> kcp_server \<Rightarrow> (kcp_server \<times> server_pc list) option" where
  "server_frame now order (O_Begin p) s =
     Some (s, if length (p_data p) < headerSize \<or> srv_closed s \<or> \<not> known_cmd (p_cmd p) then [] else [O_Lock p])"
| "server_frame now order (O_Lock p) s =
     (let i = shardIndex (p_from p) in
      if held s i then None
      else case sessions (p_from p) s of
        None \<Rightarrow> Some (hold i True s, [O_Load p])
      | Some k \<Rightarrow>
          if conversation (conns s ! k) \<noteq> p_conv p then
            (if p_cmd p \<noteq> cmdPush \<or> p_sn p \<noteq> 0 then Some (s, [])
             else Some (hold i True (set_shard (p_from p) None (set_session k (session_of s k\<lparr>listed := False\<rparr>) s)), [O_Sub k p]))
          else Some (s, [Session k (I_Store (p_data p) (p_ns p) (p_ms p))]))"
| "server_frame now order (O_Sub k p) s =
     Some (hold (shardIndex (p_from p)) False (s\<lparr>sessionCount := sessionCount s - 1\<rparr>), [Session k (X_Cas (Some EOF)), O_Relock p])"
| "server_frame now order (O_Relock p) s =
     (if held s (shardIndex (p_from p)) then None else Some (hold (shardIndex (p_from p)) True s, [O_Load p]))"
| "server_frame now order (O_Load p) s =
     (if sessionCount s \<ge> MaxSessions (opts s) then Some (hold (shardIndex (p_from p)) False s, [])
      else Some (s, [O_Cas (sessionCount s) p]))"
| "server_frame now order (O_Cas cur p) s =
     (if sessionCount s = cur then Some (s\<lparr>sessionCount := cur + 1\<rparr>, [O_Insert p]) else Some (s, [O_Load p]))"
| "server_frame now order (O_Insert p) s =
     (let k = length (conns s);
          c = \<lparr>remoteAddr = p_from p, conversation = p_conv p, session = newConn (conn_config (opts s) (p_conv p)) (p_ns p)\<rparr>
      in Some (hold (shardIndex (p_from p)) False (set_shard (p_from p) (Some k) (s\<lparr>conns := conns s @ [c]\<rparr>)),
               [Session k (I_Store (p_data p) (p_ns p) (p_ms p))]))"
| "server_frame now order (Session k pc) s =
     (case pc of
        X_Remove e \<Rightarrow>
          let a = addr_of s k; s1 = set_session k (session_of s k\<lparr>listed := False\<rparr>) s in
          if held s (shardIndex a) then None
          else if sessions a s = Some k then Some (hold (shardIndex a) True (set_shard a None s1), [X_Sub k e])
          else Some (s1, [Session k (X_Release e)])
      | _ \<Rightarrow> let (c, pc') = session_step now pc (session_of s k) in Some (set_session k c s, if pc' = Returned then [] else [Session k pc']))"
| "server_frame now order (X_Sub k e) s =
     Some (hold (shardIndex (addr_of s k)) False (s\<lparr>sessionCount := sessionCount s - 1\<rparr>), [Session k (X_Release e)])"
| "server_frame now order (T_Scan i ns ms ks) s =
     (if i \<ge> numSessionShards then Some (s, map (\<lambda>k. Session k (X_Cas (Some ErrDeadlineExceeded))) ks)
      else if held s i then None
      else let found = in_order order (shard_sessions i s) in
        Some (s, map (\<lambda>k. Session k (U_Update ms)) (filter (\<lambda>k. \<not> expired ns s k) found) @ [T_Scan (Suc i) ns ms (ks @ filter (expired ns s) found)]))"
| "server_frame now order (A_Scan i ks) s =
     (if i \<ge> numSessionShards then Some (s, map (\<lambda>k. Session k (X_Cas (Some ErrServerClosed))) ks)
      else if held s i then None
      else Some (s, [A_Scan (Suc i) (ks @ in_order order (shard_sessions i s))]))"

section \<open>Interleaving\<close>

text \<open>The address whose packet a call is handling, until it has its session.\<close>

fun handles :: "server_pc \<Rightarrow> addr_port option" where
  "handles (O_Begin p) = Some (p_from p)" | "handles (O_Lock p) = Some (p_from p)" | "handles (O_Sub k p) = Some (p_from p)"
| "handles (O_Relock p) = Some (p_from p)" | "handles (O_Load p) = Some (p_from p)" | "handles (O_Cas cur p) = Some (p_from p)"
| "handles (O_Insert p) = Some (p_from p)" | "handles _ = None"

text \<open>
  \<^verbatim>\<open>fnet.UDPHandler\<close> promises that the packets of one peer are handled one after the other; those of different peers, the ticker, the
  end of the server, and the calls of handlers and other goroutines on sessions are not ordered.
\<close>

type_synonym server_state = "kcp_server \<times> server_pc list list"

inductive server_step :: "server_state \<Rightarrow> server_state \<Rightarrow> bool" where
  datagrams: "\<forall>f \<in> set (concat gs). handles f \<noteq> Some (p_from p) \<Longrightarrow> server_step (s, gs) (s, gs @ [[O_Begin p]])"
| ticks: "server_step (s, gs) (s, gs @ [[T_Scan 0 ns ms []]])"
| shuts: "server_step (s, gs) (s\<lparr>srv_closed := True\<rparr>, gs)"
| stops: "server_step (s, gs) (s, gs @ [[A_Scan 0 []]])"
| writes: "k < length (conns s) \<Longrightarrow> server_step (s, gs) (s, gs @ [[Session k (S_Send b)]])"
| closes: "k < length (conns s) \<Longrightarrow> server_step (s, gs) (s, gs @ [[Session k (X_Cas None)]])"
| runs: "j < length gs \<Longrightarrow> gs ! j = f # fs \<Longrightarrow> server_frame now order f s = Some (s', fs') \<Longrightarrow> server_step (s, gs) (s', gs[j := fs' @ fs])"

definition server_init :: "kcp_options \<Rightarrow> server_state \<Rightarrow> bool" where
  "server_init o1 st \<longleftrightarrow> st = (NewServer o1, [])"

end
