(* ===== verification/KcpTable.thy ===== *)
theory KcpTable
  imports KcpServer
begin

text \<open>
  The table of sessions of the KCP server: every session of it runs as in \<^verbatim>\<open>KcpSession\<close>, the counter covers what is in the table and
  stays within its limit, and what is closed leaves the table.
\<close>

section \<open>Fields\<close>

lemma hold_fields [simp]:
  "opts (hold i b s) = opts s" "shards (hold i b s) = shards s" "held (hold i b s) = (held s)(i := b)" "sessionCount (hold i b s) = sessionCount s"
  "conns (hold i b s) = conns s" "sessions a (hold i b s) = sessions a s"
  by (simp_all add: hold_def sessions_def)

lemma shard_fields [simp]:
  "opts (set_shard a x s) = opts s" "held (set_shard a x s) = held s" "sessionCount (set_shard a x s) = sessionCount s" "conns (set_shard a x s) = conns s"
  "sessions b (set_shard a x s) = (if b = a then x else sessions b s)"
  "shards (set_shard a x s) i b = (if i = shardIndex a \<and> b = a then x else shards s i b)"
  by (simp_all add: set_shard_def sessions_def)

lemma session_fields [simp]:
  "opts (set_session k c s) = opts s" "shards (set_session k c s) = shards s" "held (set_session k c s) = held s"
  "sessionCount (set_session k c s) = sessionCount s" "length (conns (set_session k c s)) = length (conns s)" "sessions a (set_session k c s) = sessions a s"
  "addr_of (set_session k c s) j = addr_of s j" "session_of (set_session k c s) j = (if j = k \<and> k < length (conns s) then c else session_of s j)"
  by (cases "k < length (conns s)"; simp add: set_session_def sessions_def nth_list_update list_update_beyond)+

lemma count_fields [simp]: "sessions a (s\<lparr>sessionCount := n\<rparr>) = sessions a s" "sessions a (s\<lparr>conns := cs\<rparr>) = sessions a s"
  by (simp_all add: sessions_def)

section \<open>Sessions\<close>

text \<open>What the calls of the server are for a session.\<close>

fun pcs :: "nat \<Rightarrow> server_pc \<Rightarrow> session_pc multiset" where
  "pcs k (Session k' pc) = (if k' = k then {#pc#} else {#})"
| "pcs k (X_Sub k' e) = (if k' = k then {#X_Release e#} else {#})"
| "pcs k (O_Sub k' p) = (if k' = k then {#X_Cas (Some EOF)#} else {#})"
| "pcs k _ = {#}"

definition sess :: "nat \<Rightarrow> server_pc multiset \<Rightarrow> session_pc multiset" where
  "sess k F = \<Sum>\<^sub># (image_mset (pcs k) F)"

definition tracks :: "kcp_conn \<Rightarrow> session_pc multiset \<Rightarrow> bool" where
  "tracks c M \<longleftrightarrow> (\<exists>gs. reach session_init session_run (c, gs) \<and> filter_mset (\<lambda>pc. pc \<noteq> Returned) (mset gs) = M)"

lemma sess_simps [simp]: "sess k {#} = {#}" "sess k (add_mset f F) = pcs k f + sess k F" "sess k (F + G) = sess k F + sess k G"
  by (simp_all add: sess_def)

lemma tracks_new: "tracks (newConn cfg ns) {#}"
proof -
  have "session_init (newConn cfg ns, [])" unfolding session_init_def by blast
  then have "reach session_init session_run (newConn cfg ns, [])" by (rule reach_init)
  then show ?thesis unfolding tracks_def by (intro exI [of _ "[]"]) simp
qed

lemma tracks_call:
  assumes t: "tracks c M" and run: "\<And>gs. session_run (c, gs) (c', gs @ [pc])" and pc: "pc \<noteq> Returned"
  shows "tracks c' (add_mset pc M)"
proof -
  obtain gs where gs: "reach session_init session_run (c, gs)" "filter_mset (\<lambda>pc. pc \<noteq> Returned) (mset gs) = M" using t unfolding tracks_def by blast
  then have "reach session_init session_run (c', gs @ [pc])" using run reach_step by metis
  then show ?thesis unfolding tracks_def using gs(2) pc by (intro exI [of _ "gs @ [pc]"]) simp
qed

lemma tracks_step:
  assumes t: "tracks c (add_mset pc M)" and st: "session_step now pc c = (c', pc')" and pc: "pc \<noteq> Returned"
  shows "tracks c' (if pc' = Returned then M else add_mset pc' M)"
proof -
  obtain gs where gs: "reach session_init session_run (c, gs)" "filter_mset (\<lambda>pc. pc \<noteq> Returned) (mset gs) = add_mset pc M" using t unfolding tracks_def by blast
  have "pc \<in># filter_mset (\<lambda>pc. pc \<noteq> Returned) (mset gs)" unfolding gs(2) by simp
  then have "pc \<in> set gs" by simp
  then obtain j where j: "j < length gs" "gs ! j = pc" by (metis in_set_conv_nth)
  have "reach session_init session_run (c', gs[j := pc'])" using gs(1) session_run.goroutine [OF j(1)] st j(2) reach_step by metis
  moreover have "filter_mset (\<lambda>pc. pc \<noteq> Returned) (mset (gs[j := pc'])) = (if pc' = Returned then M else add_mset pc' M)"
  proof -
    have "mset gs = add_mset pc (mset gs - {#pc#})" using \<open>pc \<in> set gs\<close> by simp
    then have "filter_mset (\<lambda>pc. pc \<noteq> Returned) (mset gs) = add_mset pc (filter_mset (\<lambda>pc. pc \<noteq> Returned) (mset gs - {#pc#}))"
      using pc filter_mset_add_mset [of "\<lambda>pc. pc \<noteq> Returned" pc "mset gs - {#pc#}"] by simp
    then have "filter_mset (\<lambda>pc. pc \<noteq> Returned) (mset gs - {#pc#}) = M" using gs(2) by simp
    then show ?thesis using j by (simp add: mset_update)
  qed
  ultimately show ?thesis unfolding tracks_def by blast
qed

lemma tracks_inv: "tracks c M \<Longrightarrow> \<exists>gs. session_inv (c, gs) \<and> filter_mset (\<lambda>pc. pc \<noteq> Returned) (mset gs) = M"
  unfolding tracks_def using session_runs.reach_inv by blast

section \<open>The invariant\<close>

text \<open>Calls that have changed the table and not yet the counter, or the other way round; calls that hold the mutex of a shard.\<close>

fun pending :: "server_pc \<Rightarrow> bool" where
  "pending (O_Sub k p) = True" | "pending (O_Insert p) = True" | "pending (X_Sub k e) = True" | "pending _ = False"

fun holds :: "kcp_server \<Rightarrow> server_pc \<Rightarrow> nat option" where
  "holds s (O_Sub k p) = Some (shardIndex (p_from p))" | "holds s (O_Load p) = Some (shardIndex (p_from p))"
| "holds s (O_Cas cur p) = Some (shardIndex (p_from p))" | "holds s (O_Insert p) = Some (shardIndex (p_from p))"
| "holds s (X_Sub k e) = Some (shardIndex (addr_of s k))" | "holds s _ = None"

text \<open>The address a call has found to have no session, and the sessions a call knows.\<close>

fun absent :: "server_pc \<Rightarrow> addr_port option" where
  "absent (O_Sub k p) = Some (p_from p)" | "absent (O_Relock p) = Some (p_from p)" | "absent (O_Load p) = Some (p_from p)"
| "absent (O_Cas cur p) = Some (p_from p)" | "absent (O_Insert p) = Some (p_from p)" | "absent _ = None"

fun known :: "server_pc \<Rightarrow> nat set" where
  "known (Session k pc) = {k}" | "known (X_Sub k e) = {k}" | "known (O_Sub k p) = {k}" | "known (T_Scan i ns ms ks) = set ks" | "known (A_Scan i ks) = set ks"
| "known _ = {}"

fun frame_ok :: "kcp_server \<Rightarrow> server_pc \<Rightarrow> bool" where
  "frame_ok s (O_Cas cur p) \<longleftrightarrow> cur < MaxSessions (opts s)" | "frame_ok s (Session k pc) \<longleftrightarrow> pc \<noteq> Returned" | "frame_ok s _ \<longleftrightarrow> True"

definition frames_inv :: "kcp_server \<Rightarrow> server_pc multiset \<Rightarrow> bool" where
  "frames_inv s F \<longleftrightarrow> (\<forall>f \<in># F. frame_ok s f \<and> (\<forall>k \<in> known f. k < length (conns s)) \<and> (\<forall>a. absent f = Some a \<longrightarrow> sessions a s = None))"

definition table_inv :: "kcp_server \<Rightarrow> bool" where
  "table_inv s \<longleftrightarrow> (\<forall>i a k. shards s i a = Some k \<longrightarrow> i = shardIndex a \<and> k < length (conns s) \<and> addr_of s k = a) \<and>
     (\<forall>k < length (conns s). listed (session_of s k) \<longleftrightarrow> sessions (addr_of s k) s = Some k)"

definition listed_count :: "kcp_server \<Rightarrow> nat" where
  "listed_count s = length (filter (\<lambda>c. listed (session c)) (conns s))"

definition count_inv :: "kcp_server \<Rightarrow> server_pc multiset \<Rightarrow> bool" where
  "count_inv s F \<longleftrightarrow> sessionCount s = int (listed_count s) + int (size (filter_mset pending F)) \<and> sessionCount s \<le> MaxSessions (opts s)"

definition locks_inv :: "kcp_server \<Rightarrow> server_pc multiset \<Rightarrow> bool" where
  "locks_inv s F \<longleftrightarrow> (\<forall>i. size (filter_mset (\<lambda>f. holds s f = Some i) F) = of_bool (held s i))"

definition serial_inv :: "server_pc multiset \<Rightarrow> bool" where
  "serial_inv F \<longleftrightarrow> (\<forall>a. size (filter_mset (\<lambda>f. handles f = Some a) F) \<le> 1)"

definition sessions_inv :: "kcp_server \<Rightarrow> server_pc multiset \<Rightarrow> bool" where
  "sessions_inv s F \<longleftrightarrow> (\<forall>k < length (conns s). tracks (session_of s k) (sess k F))"

definition calls_inv :: "kcp_server \<Rightarrow> server_pc multiset \<Rightarrow> bool" where
  "calls_inv s F \<longleftrightarrow> frames_inv s F \<and> table_inv s \<and> count_inv s F \<and> locks_inv s F \<and> serial_inv F \<and> sessions_inv s F"

lemmas calls_inv_defs = frames_inv_def table_inv_def count_inv_def locks_inv_def serial_inv_def sessions_inv_def

section \<open>Every step keeps it\<close>

lemma serial_other: "serial_inv (add_mset f R) \<Longrightarrow> r \<in># R \<Longrightarrow> handles f = Some a \<Longrightarrow> handles r \<noteq> Some a"
proof
  assume s: "serial_inv (add_mset f R)" and r: "r \<in># R" and h: "handles f = Some a" "handles r = Some a"
  have "size (filter_mset (\<lambda>f. handles f = Some a) R) = 0" using s h(1) unfolding serial_inv_def by (metis (mono_tags, lifting) One_nat_def Suc_le_mono filter_mset_add_mset le_zero_eq size_add_mset)
  then show False using r h(2) by (simp add: filter_mset_eq_mempty_iff)
qed

lemma absent_handles: "absent f = Some a \<Longrightarrow> handles f = Some a"
  by (cases f) simp_all

lemma listed_update:
  assumes "k < length (conns s)"
  shows "int (listed_count (set_session k c s)) = int (listed_count s) - of_bool (listed (session_of s k)) + of_bool (listed c)"
proof -
  let ?cs = "conns s" and ?f = "filter (\<lambda>c. listed (session c))"
  have "?cs[k := x] = take k ?cs @ x # drop (Suc k) ?cs" for x using assms by (rule upd_conv_take_nth_drop)
  moreover have "?cs = take k ?cs @ ?cs ! k # drop (Suc k) ?cs" by (rule id_take_nth_drop [OF assms])
  then have "length (?f ?cs) = length (?f (take k ?cs @ ?cs ! k # drop (Suc k) ?cs))" by simp
  ultimately show ?thesis by (simp add: listed_count_def set_session_def)
qed

lemma listed_frame [simp]:
  "listed_count (hold i b s) = listed_count s" "listed_count (set_shard a x s) = listed_count s" "listed_count (s\<lparr>sessionCount := n\<rparr>) = listed_count s"
  by (simp_all add: listed_count_def)

lemma frame_serial:
  assumes "server_frame now order f s = Some (s', fs)"
  shows "size (filter_mset (\<lambda>g. handles g = Some a) (mset fs)) \<le> of_bool (handles f = Some a)"
  using assms
  by (cases f) (auto split: if_splits option.splits prod.splits session_pc.splits simp: Let_def filter_mset_eq_mempty_iff)

lemma in_order_set [simp]: "set (in_order order ks) = set ks"
  by (simp add: in_order_def) (metis set_mset_mset)

lemma shard_sessions_less: "k \<in> set (shard_sessions i s) \<Longrightarrow> k < length (conns s)"
  by (simp add: shard_sessions_def)

lemma table_same [simp]: "table_inv (hold i b s) = table_inv s" "table_inv (s\<lparr>sessionCount := n\<rparr>) = table_inv s"
  by (simp_all add: table_inv_def)

lemma table_session: "table_inv s \<Longrightarrow> listed c = listed (session_of s k) \<Longrightarrow> table_inv (set_session k c s)"
  by (simp add: table_inv_def)

lemma table_remove:
  assumes ti: "table_inv s" and k: "sessions a s = Some k"
  shows "table_inv (set_shard a None (set_session k (session_of s k\<lparr>listed := False\<rparr>) s))"
proof -
  have own: "\<And>i b j. shards s i b = Some j \<Longrightarrow> i = shardIndex b \<and> j < length (conns s) \<and> addr_of s j = b"
    and ls: "\<And>j. j < length (conns s) \<Longrightarrow> listed (session_of s j) \<longleftrightarrow> sessions (addr_of s j) s = Some j"
    using ti by (simp_all add: table_inv_def)
  have ka: "addr_of s k = a" using own [of "shardIndex a" a k] k by (simp add: sessions_def)
  show ?thesis unfolding table_inv_def
  proof (intro conjI allI impI)
    fix i b j assume "shards (set_shard a None (set_session k (session_of s k\<lparr>listed := False\<rparr>) s)) i b = Some j"
    then have "shards s i b = Some j" by (simp split: if_splits)
    then show "i = shardIndex b" "j < length (conns (set_shard a None (set_session k (session_of s k\<lparr>listed := False\<rparr>) s)))"
      "addr_of (set_shard a None (set_session k (session_of s k\<lparr>listed := False\<rparr>) s)) j = b" using own by simp_all
  next
    fix j assume "j < length (conns (set_shard a None (set_session k (session_of s k\<lparr>listed := False\<rparr>) s)))"
    then show "listed (session_of (set_shard a None (set_session k (session_of s k\<lparr>listed := False\<rparr>) s)) j) \<longleftrightarrow>
      sessions (addr_of (set_shard a None (set_session k (session_of s k\<lparr>listed := False\<rparr>) s)) j) (set_shard a None (set_session k (session_of s k\<lparr>listed := False\<rparr>) s)) = Some j"
      using ls [of j] ka k by (cases "j = k") auto
  qed
qed

lemma table_closed: "table_inv s \<Longrightarrow> sessions (addr_of s k) s \<noteq> Some k \<Longrightarrow> table_inv (set_session k (session_of s k\<lparr>listed := False\<rparr>) s)"
  unfolding table_inv_def by (auto split: if_splits)

lemma table_insert:
  assumes ti: "table_inv s" and c: "listed (session c)" and a: "sessions (remoteAddr c) s = None"
  shows "table_inv (set_shard (remoteAddr c) (Some (length (conns s))) (s\<lparr>conns := conns s @ [c]\<rparr>))"
proof -
  have own: "\<And>i b j. shards s i b = Some j \<Longrightarrow> i = shardIndex b \<and> j < length (conns s) \<and> addr_of s j = b"
    and ls: "\<And>j. j < length (conns s) \<Longrightarrow> listed (session_of s j) \<longleftrightarrow> sessions (addr_of s j) s = Some j"
    using ti by (simp_all add: table_inv_def)
  let ?s = "set_shard (remoteAddr c) (Some (length (conns s))) (s\<lparr>conns := conns s @ [c]\<rparr>)"
  show ?thesis unfolding table_inv_def
  proof (intro conjI allI impI)
    fix i b j assume "shards ?s i b = Some j"
    then have "i = shardIndex b \<and> b = remoteAddr c \<and> j = length (conns s) \<or> shards s i b = Some j" by (auto split: if_splits)
    then show "i = shardIndex b" "j < length (conns ?s)" "addr_of ?s j = b" using own by (fastforce simp: nth_append)+
  next
    fix j assume "j < length (conns ?s)"
    then consider "j = length (conns s)" | "j < length (conns s)" by force
    then show "listed (session_of ?s j) \<longleftrightarrow> sessions (addr_of ?s j) ?s = Some j"
    proof cases
      case 2
      then show ?thesis using ls [of j] a by (auto simp: nth_append)
    qed (simp add: c)
  qed
qed

lemma frame_table:
  assumes st: "server_frame now order f s = Some (s', fs)" and fi: "frames_inv s (add_mset f R)" and ti: "table_inv s"
  shows "table_inv s'"
proof -
  have kn: "k \<in> known f \<Longrightarrow> k < length (conns s)" for k using fi by (simp add: frames_inv_def)
  have ab: "absent f = Some a \<Longrightarrow> sessions a s = None" for a using fi by (simp add: frames_inv_def)
  show ?thesis
  proof (cases f)
    case (O_Lock p)
    then show ?thesis using st ti table_remove [OF ti] by (auto simp: Let_def split: if_splits option.splits)
  next
    case (O_Insert p)
    let ?c = "\<lparr>remoteAddr = p_from p, conversation = p_conv p, session = newConn (conn_config (opts s) (p_conv p)) (p_ns p)\<rparr>"
    have "s' = hold (shardIndex (p_from p)) False (set_shard (p_from p) (Some (length (conns s))) (s\<lparr>conns := conns s @ [?c]\<rparr>))" using st O_Insert by (simp add: Let_def)
    then show ?thesis using table_insert [OF ti, of ?c] ab [of "p_from p"] O_Insert by (simp add: newConn_def)
  next
    case (Session k pc)
    show ?thesis
    proof (cases "\<exists>e. pc = X_Remove e")
      case True
      then show ?thesis using st table_remove [OF ti] table_closed [OF ti] Session by (auto simp: Let_def split: if_splits)
    next
      case False
      obtain c pc' where cc: "session_step now pc (session_of s k) = (c, pc')" by fastforce
      then have "s' = set_session k c s" using st Session False by (cases pc) auto
      then show ?thesis using table_session [OF ti] listed_step [OF cc] False by simp
    qed
  qed (use st ti in \<open>auto simp: Let_def split: if_splits\<close>)
qed

lemma frame_grows:
  assumes st: "server_frame now order f s = Some (s', fs)"
  shows "opts s' = opts s" and "length (conns s) \<le> length (conns s')" and "k < length (conns s) \<Longrightarrow> addr_of s' k = addr_of s k"
    and "sessions a s = None \<Longrightarrow> sessions a s' = None \<or> (\<exists>p. f = O_Insert p \<and> p_from p = a)"
  using st by (cases f; auto split: if_splits option.splits prod.splits session_pc.splits simp: Let_def nth_append)+

lemma frame_frames:
  assumes st: "server_frame now order f s = Some (s', fs)" and fi: "frames_inv s (add_mset f R)" and ti: "table_inv s" and se: "serial_inv (add_mset f R)"
  shows "frames_inv s' (mset fs + R)"
proof -
  note gr = frame_grows [OF st]
  have kn: "k \<in> known f \<Longrightarrow> k < length (conns s)" for k using fi by (simp add: frames_inv_def)
  have ab: "absent f = Some a \<Longrightarrow> sessions a s = None" for a using fi by (simp add: frames_inv_def)
  have lk: "sessions a s = Some k \<Longrightarrow> k < length (conns s)" for a k using ti unfolding table_inv_def sessions_def by blast
  have "frame_ok s' r \<and> (\<forall>k \<in> known r. k < length (conns s')) \<and> (\<forall>a. absent r = Some a \<longrightarrow> sessions a s' = None)" if r: "r \<in># R" for r
  proof -
    have ok: "frame_ok s r" "\<forall>k \<in> known r. k < length (conns s)" "\<forall>a. absent r = Some a \<longrightarrow> sessions a s = None" using fi r by (simp_all add: frames_inv_def)
    have "frame_ok s' r" using ok(1) gr(1) by (cases r) simp_all
    moreover have "sessions a s' = None" if a: "absent r = Some a" for a
    proof -
      have "handles f \<noteq> Some a" using serial_other [OF se r] absent_handles [OF a] by metis
      then have "\<nexists>p. f = O_Insert p \<and> p_from p = a" by auto
      then show ?thesis using gr(4) ok(3) a by metis
    qed
    ultimately show ?thesis using ok(2) gr(2) by fastforce
  qed
  moreover have "frame_ok s' g \<and> (\<forall>k \<in> known g. k < length (conns s')) \<and> (\<forall>a. absent g = Some a \<longrightarrow> sessions a s' = None)" if g: "g \<in> set fs" for g
  proof (cases f)
    case (O_Lock p)
    then show ?thesis using st g lk by (auto split: if_splits option.splits simp: Let_def)
  next
    case (T_Scan i ns ms ks)
    then show ?thesis using st g kn shard_sessions_less by (fastforce split: if_splits simp: Let_def)
  next
    case (A_Scan i ks)
    then show ?thesis using st g kn shard_sessions_less by (fastforce split: if_splits simp: Let_def)
  next
    case (Session k pc)
    then show ?thesis using st g kn by (auto split: if_splits prod.splits session_pc.splits simp: Let_def)
  qed (use st g kn ab in \<open>auto split: if_splits simp: Let_def\<close>)
  ultimately show ?thesis by (auto simp: frames_inv_def)
qed

lemma frame_locks:
  assumes st: "server_frame now order f s = Some (s', fs)" and fi: "frames_inv s (add_mset f R)" and li: "locks_inv s (add_mset f R)"
  shows "locks_inv s' (mset fs + R)"
proof -
  note gr = frame_grows [OF st]
  have "holds s' r = holds s r" if "r \<in># R" for r using that fi gr(3) by (cases r) (auto simp: frames_inv_def)
  then have R: "filter_mset (\<lambda>f. holds s' f = Some i) R = filter_mset (\<lambda>f. holds s f = Some i) R" for i by (intro filter_mset_cong) simp_all
  have own: "size (filter_mset (\<lambda>f. holds s f = Some i) R) + of_bool (holds s f = Some i) = of_bool (held s i)" for i
    using spec [OF li [unfolded locks_inv_def], of i] by (cases "holds s f = Some i") simp_all
  have none: "r \<in># R \<Longrightarrow> holds s r \<noteq> Some i" if "holds s f = Some i" for r i
  proof -
    have "size (filter_mset (\<lambda>f. holds s f = Some i) R) = 0" using own [of i] that by (cases "held s i") auto
    then show "r \<in># R \<Longrightarrow> holds s r \<noteq> Some i" by simp
  qed
  have "size (filter_mset (\<lambda>f. holds s' f = Some i) (mset fs)) + size (filter_mset (\<lambda>f. holds s f = Some i) R) = of_bool (held s' i)" for i
  proof (cases f)
    case (Session k pc)
    then show ?thesis using st own [of i] by (auto split: if_splits prod.splits session_pc.splits simp: Let_def)
  qed (use st own [of i] none [of i] in \<open>auto split: if_splits option.splits simp: Let_def\<close>)
  then show ?thesis by (simp add: locks_inv_def R)
qed

lemma frame_count:
  assumes st: "server_frame now order f s = Some (s', fs)" and fi: "frames_inv s (add_mset f R)" and ti: "table_inv s" and ci: "count_inv s (add_mset f R)"
  shows "count_inv s' (mset fs + R)"
proof -
  have kn: "k \<in> known f \<Longrightarrow> k < length (conns s)" for k using fi by (simp add: frames_inv_def)
  have ok: "frame_ok s f" using fi by (simp add: frames_inv_def)
  have lk: "sessions a s = Some k \<Longrightarrow> k < length (conns s) \<and> listed (session_of s k)" for a k using ti unfolding table_inv_def sessions_def by metis
  have ul: "k < length (conns s) \<Longrightarrow> sessions (addr_of s k) s \<noteq> Some k \<Longrightarrow> \<not> listed (session_of s k)" for k using ti unfolding table_inv_def by metis
  show ?thesis
  proof (cases f)
    case (O_Lock p)
    then show ?thesis using st ci lk listed_update by (auto split: if_splits option.splits simp: Let_def count_inv_def)
  next
    case (O_Insert p)
    then show ?thesis using st ci by (auto simp: Let_def count_inv_def listed_count_def newConn_def)
  next
    case (Session k pc)
    then have k: "k < length (conns s)" using kn by simp
    show ?thesis
    proof (cases "\<exists>e. pc = X_Remove e")
      case True
      then show ?thesis using st ci lk ul [OF k] listed_update [OF k] Session by (auto split: if_splits simp: Let_def count_inv_def)
    next
      case False
      obtain c pc' where cc: "session_step now pc (session_of s k) = (c, pc')" by fastforce
      then have "s' = set_session k c s" "fs = (if pc' = Returned then [] else [Session k pc'])" using st Session False by (cases pc; auto)+
      then show ?thesis using ci listed_update [OF k, of c] listed_step [OF cc] False Session by (auto simp: count_inv_def)
    qed
  next
    case (O_Cas cur p)
    then show ?thesis using st ci ok by (auto split: if_splits simp: count_inv_def)
  next
    case (T_Scan i ns ms ks)
    then show ?thesis using st ci by (auto split: if_splits simp: Let_def count_inv_def filter_mset_image_mset)
  qed (use st ci in \<open>auto split: if_splits simp: Let_def count_inv_def\<close>)
qed

lemma sess_unknown: "(\<And>f. f \<in># F \<Longrightarrow> k \<notin> known f) \<Longrightarrow> sess k F = {#}"
proof (induction F)
  case (add f F)
  have "pcs k f = {#}" using add.prems [of f] by (cases f) auto
  then show ?case using add by simp
qed simp

lemma sess_calls: "sess k (mset (map (\<lambda>j. Session j pc) ks)) = replicate_mset (count_list ks k) pc"
  by (induction ks) simp_all

lemma tracks_calls:
  assumes t: "tracks c M" and run: "\<And>gs. session_run (c, gs) (c, gs @ [pc])" and pc: "pc \<noteq> Returned"
  shows "tracks c (replicate_mset n pc + M)"
  by (induction n) (use t tracks_call [OF _ run pc] in auto)

lemma tracks_tick: "tracks c M \<Longrightarrow> tracks c (replicate_mset n (U_Update ms) + M)"
  by (rule tracks_calls) (auto intro: session_run.tick)

lemma tracks_close: "tracks c M \<Longrightarrow> e = ErrDeadlineExceeded \<or> e = ErrServerClosed \<Longrightarrow> tracks c (replicate_mset n (X_Cas (Some e)) + M)"
  by (rule tracks_calls) (auto intro: session_run.expires)

lemma frame_sessions:
  assumes st: "server_frame now order f s = Some (s', fs)" and fi: "frames_inv s (add_mset f R)" and ti: "table_inv s" and si: "sessions_inv s (add_mset f R)"
  shows "sessions_inv s' (mset fs + R)"
proof -
  have kn: "k \<in> known f \<Longrightarrow> k < length (conns s)" for k using fi by (simp add: frames_inv_def)
  have lk: "sessions a s = Some k \<Longrightarrow> k < length (conns s) \<and> listed (session_of s k)" for a k using ti unfolding table_inv_def sessions_def by metis
  have tr: "k < length (conns s) \<Longrightarrow> tracks (session_of s k) (pcs k f + sess k R)" for k using si by (simp add: sessions_inv_def)
  have "tracks (session_of s' k) (sess k (mset fs) + sess k R)" if k: "k < length (conns s')" for k
  proof (cases f)
    case (O_Lock p)
    have call: "tracks (session_of s k) (add_mset (I_Store (p_data p) (p_ns p) (p_ms p)) (sess k R))" if "k < length (conns s)"
      using tracks_call [OF _ session_run.packet] tr [OF that] O_Lock by simp
    have rep: "tracks (session_of s j\<lparr>listed := False\<rparr>) (add_mset (X_Cas (Some EOF)) (sess j R))" if "sessions (p_from p) s = Some j" for j
      using tracks_call [OF _ session_run.replaced] tr [of j] lk [OF that] O_Lock by simp
    show ?thesis using O_Lock st k tr [of k] call rep by (auto split: if_splits option.splits simp: Let_def)
  next
    case (O_Insert p)
    let ?c = "newConn (conn_config (opts s) (p_conv p)) (p_ns p)"
    show ?thesis
    proof (cases "k < length (conns s)")
      case True
      then show ?thesis using tr [OF True] O_Insert st by (auto simp: Let_def nth_append)
    next
      case False
      then have eq: "k = length (conns s)" using k st O_Insert by (auto simp: Let_def)
      have "r \<in># R \<Longrightarrow> k \<notin> known r" for r using fi unfolding frames_inv_def eq by auto
      then have "sess k R = {#}" by (rule sess_unknown)
      moreover have "tracks ?c {#I_Store (p_data p) (p_ns p) (p_ms p)#}" by (rule tracks_call [OF tracks_new session_run.packet]) simp
      ultimately show ?thesis using st O_Insert eq by (auto simp: Let_def)
    qed
  next
    case (Session j pc)
    then have j: "j < length (conns s)" and ne: "pc \<noteq> Returned" using kn fi by (simp_all add: frames_inv_def)
    have t: "tracks (session_of s j) (add_mset pc (sess j R))" using tr [OF j] Session by simp
    show ?thesis
    proof (cases "\<exists>e. pc = X_Remove e")
      case True
      then obtain e where e: "pc = X_Remove e" ..
      have "tracks (session_of s j\<lparr>listed := False\<rparr>) (add_mset (X_Release e) (sess j R))"
        using tracks_step [OF t [unfolded e], of now] by simp
      then show ?thesis using st Session e k tr [of k] by (auto split: if_splits simp: Let_def)
    next
      case False
      obtain c pc' where cc: "session_step now pc (session_of s j) = (c, pc')" by fastforce
      then have "s' = set_session j c s" "fs = (if pc' = Returned then [] else [Session j pc'])" using st Session False by (cases pc; auto)+
      then show ?thesis using tracks_step [OF t cc ne] tr [of k] k Session by (auto split: if_splits)
    qed
  next
    case (T_Scan i ns ms ks)
    have "(\<exists>n. sess k (mset fs) = replicate_mset n (X_Cas (Some ErrDeadlineExceeded))) \<or> (\<exists>n. sess k (mset fs) = replicate_mset n (U_Update ms))" "s' = s"
      using st T_Scan by (auto split: if_splits simp: Let_def sess_calls simp del: mset_map)
    then show ?thesis using tr [of k] k T_Scan tracks_tick tracks_close by auto
  next
    case (A_Scan i ks)
    have "(\<exists>n. sess k (mset fs) = replicate_mset n (X_Cas (Some ErrServerClosed))) \<or> sess k (mset fs) = {#}" "s' = s"
      using st A_Scan by (auto split: if_splits simp: Let_def sess_calls simp del: mset_map)
    then show ?thesis using tr [of k] k A_Scan tracks_close by auto
  qed (use st k tr [of k] in \<open>auto split: if_splits\<close>)
  then show ?thesis by (simp add: sessions_inv_def)
qed

lemma frame_inv:
  assumes st: "server_frame now order f s = Some (s', fs)" and iv: "calls_inv s (add_mset f R)"
  shows "calls_inv s' (mset fs + R)"
proof -
  have fi: "frames_inv s (add_mset f R)" and ti: "table_inv s" and se: "serial_inv (add_mset f R)" using iv by (simp_all add: calls_inv_def)
  have "size (filter_mset (\<lambda>g. handles g = Some a) (mset fs + R)) \<le> 1" for a
  proof -
    have "size (filter_mset (\<lambda>g. handles g = Some a) (add_mset f R)) \<le> 1" using se by (simp add: serial_inv_def)
    then have "size (filter_mset (\<lambda>g. handles g = Some a) R) + of_bool (handles f = Some a) \<le> 1" by (cases "handles f = Some a") simp_all
    then show ?thesis using frame_serial [OF st, of a] by simp
  qed
  then show ?thesis
    using iv frame_frames [OF st fi ti se] frame_table [OF st fi ti] frame_locks [OF st fi] frame_count [OF st fi ti] frame_sessions [OF st fi ti]
    by (simp add: calls_inv_def serial_inv_def)
qed

section \<open>Goroutines\<close>

text \<open>Only the call at the top of a goroutine holds a mutex.\<close>

definition stacks_inv :: "kcp_server \<Rightarrow> server_pc list list \<Rightarrow> bool" where
  "stacks_inv s gs \<longleftrightarrow> (\<forall>fs \<in> set gs. \<forall>g \<in> set (tl fs). holds s g = None)"

fun server_inv :: "kcp_options \<Rightarrow> server_state \<Rightarrow> bool" where
  "server_inv o1 (s, gs) \<longleftrightarrow> opts s = withDefaults o1 \<and> calls_inv s (mset (concat gs)) \<and> stacks_inv s gs"

lemma holds_None: "holds s g = None \<longleftrightarrow> holds s' g = None"
  by (cases g) simp_all

lemma shut_fields [simp]: "frame_ok (s\<lparr>srv_closed := b\<rparr>) f = frame_ok s f" "holds (s\<lparr>srv_closed := b\<rparr>) f = holds s f" "sessions a (s\<lparr>srv_closed := b\<rparr>) = sessions a s"
  by (cases f; simp add: sessions_def)+

lemma frame_top:
  assumes "server_frame now order f s = Some (s', fs)"
  shows "\<forall>g \<in> set (tl fs). holds s g = None"
proof (cases f)
  case (T_Scan i ns ms ks)
  then have "\<forall>g \<in> set fs. holds s g = None" using assms by (auto split: if_splits simp: Let_def)
  then show ?thesis by (cases fs) simp_all
next
  case (A_Scan i ks)
  then have "\<forall>g \<in> set fs. holds s g = None" using assms by (auto split: if_splits simp: Let_def)
  then show ?thesis by (cases fs) simp_all
qed (use assms in \<open>auto split: if_splits option.splits prod.splits session_pc.splits simp: Let_def\<close>)

lemma stack_step:
  assumes j: "j < length gs" and f: "gs ! j = f # fs"
  obtains R where "mset (concat gs) = add_mset f R" and "mset (concat (gs[j := fs' @ fs])) = mset fs' + R"
proof
  let ?a = "take j gs" and ?b = "drop (Suc j) gs"
  have "gs = ?a @ (f # fs) # ?b" using id_take_nth_drop [OF j] f by simp
  then have "mset (concat gs) = mset (concat (?a @ (f # fs) # ?b))" by simp
  then show "mset (concat gs) = add_mset f (mset (concat ?a) + mset fs + mset (concat ?b))" by simp
  show "mset (concat (gs[j := fs' @ fs])) = mset fs' + (mset (concat ?a) + mset fs + mset (concat ?b))" using j by (simp add: upd_conv_take_nth_drop)
qed

lemma runs_inv:
  assumes iv: "server_inv o1 (s, gs)" and j: "j < length gs" "gs ! j = f # fs" and st: "server_frame now order f s = Some (s', fs')"
  shows "server_inv o1 (s', gs[j := fs' @ fs])"
proof -
  obtain R where R: "mset (concat gs) = add_mset f R" "mset (concat (gs[j := fs' @ fs])) = mset fs' + R" using stack_step [OF j] .
  have "calls_inv s' (mset fs' + R)" using frame_inv [OF st] iv R(1) by simp
  moreover have "stacks_inv s' (gs[j := fs' @ fs])"
  proof -
    have "\<forall>g \<in> set fs. holds s g = None" using iv j unfolding server_inv.simps stacks_inv_def by (metis list.sel(3) nth_mem)
    then have "\<forall>g \<in> set (tl (fs' @ fs)). holds s g = None" using frame_top [OF st] by (cases fs'; cases fs) auto
    then have "\<forall>x \<in> set (gs[j := fs' @ fs]). \<forall>g \<in> set (tl x). holds s g = None"
      using iv set_update_subset_insert [of gs j "fs' @ fs"] unfolding server_inv.simps stacks_inv_def by blast
    then show ?thesis unfolding stacks_inv_def using holds_None by metis
  qed
  ultimately show ?thesis using iv R(2) frame_grows(1) [OF st] by simp
qed

lemma started_inv:
  assumes iv: "server_inv o1 (s, gs)" and f: "frame_ok s f" "\<forall>k \<in> known f. k < length (conns s)" "absent f = None" "holds s f = None" "\<not> pending f"
    and serial: "\<forall>a. handles f = Some a \<longrightarrow> (\<forall>g \<in> set (concat gs). handles g \<noteq> Some a)"
    and tr: "\<And>k M. k < length (conns s) \<Longrightarrow> tracks (session_of s k) M \<Longrightarrow> tracks (session_of s k) (pcs k f + M)"
  shows "server_inv o1 (s, gs @ [[f]])"
proof -
  let ?F = "mset (concat gs)"
  have ci: "calls_inv s ?F" using iv by simp
  have "serial_inv (add_mset f ?F)" unfolding serial_inv_def
  proof
    fix a
    show "size (filter_mset (\<lambda>f. handles f = Some a) (add_mset f ?F)) \<le> 1"
    proof (cases "handles f = Some a")
      case True
      then have "filter_mset (\<lambda>f. handles f = Some a) ?F = {#}" using serial by auto
      then show ?thesis using True by (simp only: filter_mset_add_mset simp_thms if_True size_single le_refl)
    next
      case False
      then show ?thesis using ci by (simp add: calls_inv_def serial_inv_def)
    qed
  qed
  moreover have "frames_inv s (add_mset f ?F)" "count_inv s (add_mset f ?F)" "locks_inv s (add_mset f ?F)" "sessions_inv s (add_mset f ?F)"
    using ci f tr by (simp_all add: calls_inv_def frames_inv_def count_inv_def locks_inv_def sessions_inv_def)
  ultimately show ?thesis using iv by (simp add: calls_inv_def stacks_inv_def)
qed

interpretation server_run: inductive_invariant "server_init o1" server_step "server_inv o1"
proof unfold_locales
  show "server_inv o1 st" if "server_init o1 st" for st
    using that by (simp add: server_init_def NewServer_def calls_inv_def calls_inv_defs stacks_inv_def sessions_def listed_count_def withDefaults_def defaultMaxSessions_def)
  show "server_inv o1 t" if "server_inv o1 st" "server_step st t" for st t
    using that(2,1)
  proof (induction rule: server_step.induct)
    case (datagrams gs p s)
    then show ?case by (intro started_inv) (auto simp del: server_inv.simps)
  next
    case (ticks s gs ns ms)
    then show ?case by (intro started_inv) (auto simp del: server_inv.simps)
  next
    case (shuts s gs)
    then have "count_inv (s\<lparr>srv_closed := True\<rparr>) (mset (concat gs))" by (auto simp: calls_inv_def count_inv_def listed_count_def)
    then show ?case using shuts by (simp add: calls_inv_def frames_inv_def table_inv_def locks_inv_def serial_inv_def sessions_inv_def stacks_inv_def)
  next
    case (stops s gs)
    then show ?case by (intro started_inv) (auto simp del: server_inv.simps)
  next
    case (writes k s gs b)
    then show ?case using tracks_call [OF _ session_run.writes] by (intro started_inv) (auto simp del: server_inv.simps)
  next
    case (closes k s gs)
    then show ?case using tracks_call [OF _ session_run.closes] by (intro started_inv) (auto simp del: server_inv.simps)
  next
    case (runs j gs f fs now order s s' fs')
    then show ?case using runs_inv by blast
  qed
qed

definition table_size :: "kcp_server \<Rightarrow> nat" where
  "table_size s = length (filter (\<lambda>k. sessions (addr_of s k) s = Some k) [0..<length (conns s)])"

lemma table_size_listed: "table_inv s \<Longrightarrow> table_size s = listed_count s"
proof -
  assume ti: "table_inv s"
  have "filter (\<lambda>k. sessions (addr_of s k) s = Some k) [0..<length (conns s)] = filter (\<lambda>k. listed (session_of s k)) [0..<length (conns s)]"
    using ti by (intro filter_cong) (auto simp: table_inv_def)
  moreover have "conns s = map (\<lambda>k. conns s ! k) [0..<length (conns s)]" by (simp add: map_nth)
  then have "listed_count s = length (filter (\<lambda>k. listed (session_of s k)) [0..<length (conns s)])"
    unfolding listed_count_def by (metis (no_types, lifting) comp_apply filter_cong filter_map length_map)
  ultimately show ?thesis by (simp add: table_size_def)
qed

text \<open>A call that waits waits for a mutex, whoever has it has a next step.\<close>

lemma waiting: "server_frame now order f s = None \<Longrightarrow> \<exists>i. held s i"
  by (cases f) (auto split: if_splits option.splits prod.splits session_pc.splits simp: Let_def)

lemma holder_runs: "holds s f = Some i \<Longrightarrow> server_frame now order f s \<noteq> None"
  by (cases f) (auto simp: Let_def)

lemma server_moves:
  assumes iv: "server_inv o1 (s, gs)" and busy: "concat gs \<noteq> []"
  shows "\<exists>j f fs s' fs'. j < length gs \<and> gs ! j = f # fs \<and> server_frame now order f s = Some (s', fs')"
proof -
  obtain f fs where g: "f # fs \<in> set gs" using busy by (metis concat_eq_Nil_conv list.exhaust)
  have "\<exists>f fs. f # fs \<in> set gs \<and> server_frame now order f s \<noteq> None"
  proof (cases "server_frame now order f s")
    case None
    then obtain i where "held s i" using waiting by blast
    moreover have "locks_inv s (mset (concat gs))" using iv by (simp add: calls_inv_def)
    ultimately have "size (filter_mset (\<lambda>f. holds s f = Some i) (mset (concat gs))) = 1" by (simp add: locks_inv_def)
    then have "\<exists>h. h \<in># filter_mset (\<lambda>f. holds s f = Some i) (mset (concat gs))" by (metis size_empty multiset_nonemptyE zero_neq_one)
    then obtain h x where h: "holds s h = Some i" "x \<in> set gs" "h \<in> set x" by auto
    have "h \<notin> set (tl x)" using iv h(1,2) unfolding server_inv.simps stacks_inv_def by force
    then have "x = h # tl x" using h(3) by (cases x) auto
    then show ?thesis using holder_runs [OF h(1)] h(2) by metis
  qed (use g in auto)
  then show ?thesis by (metis in_set_conv_nth not_None_eq surj_pair)
qed

lemma server_rest:
  assumes iv: "server_inv o1 (s, gs)" and rest: "concat gs = []" and k: "k < length (conns s)"
  shows "sessions (addr_of s k) s = Some k \<longleftrightarrow> \<not> closed (session_of s k)"
    and "if closed (session_of s k) then calls (session_of s k) = [] \<or> (\<exists>ms r. calls (session_of s k) = OnOpen # map OnData ms @ [OnClose r])
      else popMessage (session_arq (session_of s k)) = None"
proof -
  have "tracks (session_of s k) {#}" using iv rest k by (simp add: calls_inv_def sessions_inv_def)
  then obtain hs where hs: "session_inv (session_of s k, hs)" "filter_mset (\<lambda>pc. pc \<noteq> Returned) (mset hs) = {#}" using tracks_inv by blast
  then have r: "x = Returned" if "x \<in> set hs" for x using that by auto
  note sr = session_rest [OF hs(1) r]
  show "if closed (session_of s k) then calls (session_of s k) = [] \<or> (\<exists>ms r. calls (session_of s k) = OnOpen # map OnData ms @ [OnClose r])
      else popMessage (session_arq (session_of s k)) = None" using sr(1) by meson
  have "listed (session_of s k) \<longleftrightarrow> sessions (addr_of s k) s = Some k" using iv k by (simp add: calls_inv_def table_inv_def)
  then show "sessions (addr_of s k) s = Some k \<longleftrightarrow> \<not> closed (session_of s k)" using sr(2) by simp
qed

section \<open>Options\<close>

lemma withDefaults_idem: "withDefaults (withDefaults o1) = withDefaults o1"
  by (simp add: withDefaults_def defaultSocketBufferSize_def defaultMTU_def minMTU_def maxMTU_def defaultWindowSize_def defaultInterval_def
      defaultIdleTimeout_def defaultMaxSessions_def Millisecond_def min_def max_def)

text \<open>The options of the server give the ARQ of a session what its bounds rest on.\<close>

lemma conn_config_good:
  assumes "SendWindow o1 < 2 ^ 31" and "ReceiveWindow o1 < 2 ^ 31"
  shows "good_config (conn_config (withDefaults o1) conv)"
proof -
  have w: "unat (of_int x :: u32) < 2 ^ 31" if "0 \<le> x" "x < 2 ^ 31" for x :: int
    using that by (simp add: unat_eq_nat_uint uint_word_of_int take_bit_int_eq_self nat_less_iff)
  have "128 \<le> MTU (withDefaults o1)" "MTU (withDefaults o1) \<le> 65500" by (simp_all add: withDefaults_def minMTU_def maxMTU_def)
  moreover have "0 \<le> SendWindow (withDefaults o1)" "SendWindow (withDefaults o1) < 2 ^ 31" "0 \<le> ReceiveWindow (withDefaults o1)" "ReceiveWindow (withDefaults o1) < 2 ^ 31"
    using assms by (simp_all add: withDefaults_def defaultWindowSize_def)
  ultimately show ?thesis using w by (simp add: good_config_def conn_config_def headerSize_def nat_less_iff zless_nat_eq_int_zless)
qed

section \<open>Runs\<close>

datatype server_turn = Arrive datagram | CloseConn nat | Next nat

fun server_move :: "server_turn \<Rightarrow> server_state \<Rightarrow> server_state" where
  "server_move (Arrive p) (s, gs) = (if list_all (\<lambda>f. handles f \<noteq> Some (p_from p)) (concat gs) then (s, gs @ [[O_Begin p]]) else (s, gs))"
| "server_move (CloseConn k) (s, gs) = (if k < length (conns s) then (s, gs @ [[Session k (X_Cas None)]]) else (s, gs))"
| "server_move (Next j) (s, gs) =
     (if j < length gs then
        (case gs ! j of [] \<Rightarrow> (s, gs)
         | f # fs \<Rightarrow> (case server_frame 0 [] f s of None \<Rightarrow> (s, gs) | Some (s', fs') \<Rightarrow> (s', gs[j := fs' @ fs])))
      else (s, gs))"

lemma server_move_step: "server_move m st = st \<or> server_step st (server_move m st)"
proof (cases st; cases m)
  fix s gs p assume "st = (s, gs)" "m = Arrive p"
  then show ?thesis using server_step.datagrams [of gs p s] by (simp add: list_all_iff)
next
  fix s gs k assume "st = (s, gs)" "m = CloseConn k"
  then show ?thesis by (auto intro: server_step.closes)
next
  fix s gs j assume "st = (s, gs)" "m = Next j"
  then show ?thesis by (auto split: list.splits option.splits intro: server_step.runs)
qed

lemma server_moves_reach: "reach (server_init o1) server_step st \<Longrightarrow> reach (server_init o1) server_step (fold server_move ms st)"
proof (induction ms arbitrary: st)
  case (Cons m ms)
  have "reach (server_init o1) server_step (server_move m st)" using Cons.prems server_move_step [of m st] by (metis reach_step)
  then show ?case using Cons.IH by simp
qed simp

definition zero_options :: kcp_options where
  "zero_options = \<lparr>ReadBufferSize = 0, WriteBufferSize = 0, MTU = 0, SendWindow = 0, ReceiveWindow = 0, Interval = 0, IdleTimeout = 0, MaxSessions = 0,
     NoDelay = False, StreamMode = False\<rparr>"

text \<open>Two peers send a message each; the session of the first is closed.\<close>

definition peer :: "u16 \<Rightarrow> addr_port" where
  "peer n = \<lparr>As16 = replicate 16 0, Port = n\<rparr>"

definition two_peers :: "server_turn list" where
  "two_peers = [Arrive \<lparr>p_data = pkt1, p_from = peer 1, p_ns = 5, p_ms = 0\<rparr>, Arrive \<lparr>p_data = pkt1, p_from = peer 2, p_ns = 6, p_ms = 0\<rparr>] @
     concat (replicate 24 [Next 0, Next 1]) @ CloseConn 0 # replicate 10 (Next 2)"

definition server_view :: "server_state \<Rightarrow> int \<times> (bool \<times> callback list) list \<times> server_pc list" where
  "server_view = (\<lambda>(s, gs). (sessionCount s, map (\<lambda>c. (closed (session c), calls (session c))) (conns s), concat gs))"

lemma two_peers_view:
  "server_view (fold server_move two_peers (NewServer zero_options, [])) =
     (1, [(True, [OnOpen, OnData [1, 2, 3], OnClose None]), (False, [OnOpen, OnData [1, 2, 3]])], [])"
  by code_simp

section \<open>Properties\<close>

text \<open>
  C3. The table of sessions of the KCP server, whatever the interleaving of packets, ticks, closes and writes, as long as the packets
  of one peer are handled one after the other: there are never more sessions in the table than the counter says, and the
  counter stays within \<^verbatim>\<open>MaxSessions\<close>; the callbacks of every session that ever was come in the promised order; as long as a
  call is under way some goroutine has a next step, so that the mutexes of the shards deadlock nobody; and when all calls have
  returned, the counter is the number of sessions in the table, these are exactly the sessions that are not closed, and every closed one
  has had its \<^verbatim>\<open>OnClose\<close> (or never its \<^verbatim>\<open>OnOpen\<close>).
\<close>

theorem kcp_server_sessions:
  assumes "reach (server_init o1) server_step (s, gs)"
  shows "int (table_size s) \<le> sessionCount s \<and> sessionCount s \<le> MaxSessions (withDefaults o1) \<and>
    (\<forall>k < length (conns s). let c = session_of s k in
      calls c = [] \<or> (\<exists>ms. calls c = OnOpen # map OnData ms) \<or> closed c \<and> (\<exists>ms r. calls c = OnOpen # map OnData ms @ [OnClose r])) \<and>
    (concat gs \<noteq> [] \<longrightarrow> (\<exists>j f fs s' fs'. j < length gs \<and> gs ! j = f # fs \<and> server_frame now order f s = Some (s', fs'))) \<and>
    (concat gs = [] \<longrightarrow> sessionCount s = int (table_size s) \<and>
      (\<forall>k < length (conns s). let c = session_of s k in (sessions (addr_of s k) s = Some k \<longleftrightarrow> \<not> closed c) \<and>
        (closed c \<longrightarrow> calls c = [] \<or> (\<exists>ms r. calls c = OnOpen # map OnData ms @ [OnClose r]))))"
proof (intro conjI impI allI)
  note iv = server_run.reach_inv [OF assms]
  have ci: "count_inv s (mset (concat gs))" and ts: "table_size s = listed_count s" and op: "opts s = withDefaults o1"
    using iv table_size_listed by (simp_all add: calls_inv_def)
  show "int (table_size s) \<le> sessionCount s" "sessionCount s \<le> MaxSessions (withDefaults o1)" using ci ts op by (auto simp: count_inv_def)
  show "let c = session_of s k in
      calls c = [] \<or> (\<exists>ms. calls c = OnOpen # map OnData ms) \<or> closed c \<and> (\<exists>ms r. calls c = OnOpen # map OnData ms @ [OnClose r])"
    if "k < length (conns s)" for k
  proof -
    have "tracks (session_of s k) (sess k (mset (concat gs)))" using iv that by (simp add: calls_inv_def sessions_inv_def)
    then obtain hs where "session_inv (session_of s k, hs)" using tracks_inv by blast
    then show ?thesis using session_callbacks(2) by (metis (no_types, lifting))
  qed
  show "\<exists>j f fs s' fs'. j < length gs \<and> gs ! j = f # fs \<and> server_frame now order f s = Some (s', fs')" if "concat gs \<noteq> []" by (rule server_moves [OF iv that])
  show "sessionCount s = int (table_size s)" if "concat gs = []" using ci ts that by (simp add: count_inv_def)
  show "let c = session_of s k in (sessions (addr_of s k) s = Some k \<longleftrightarrow> \<not> closed c) \<and>
        (closed c \<longrightarrow> calls c = [] \<or> (\<exists>ms r. calls c = OnOpen # map OnData ms @ [OnClose r]))" if "concat gs = []" "k < length (conns s)" for k
    using server_rest [OF iv that] by (simp add: Let_def)
qed

theorem kcp_server_sessions_witness:
  "\<exists>s gs. reach (server_init zero_options) server_step (s, gs) \<and> concat gs = [] \<and> length (conns s) = 2 \<and> sessionCount s = 1 \<and> table_size s = 1 \<and>
     sessions (addr_of s 0) s \<noteq> Some 0 \<and> sessions (addr_of s 1) s = Some 1"
proof -
  obtain s gs where e: "fold server_move two_peers (NewServer zero_options, []) = (s, gs)" by (cases "fold server_move two_peers (NewServer zero_options, [])")
  have v: "concat gs = []" "sessionCount s = 1" "map (\<lambda>c. (closed (session c), calls (session c))) (conns s) =
      [(True, [OnOpen, OnData [1, 2, 3], OnClose None]), (False, [OnOpen, OnData [1, 2, 3]])]"
    using two_peers_view unfolding e server_view_def by auto
  have n: "length (conns s) = 2" using arg_cong [OF v(3), of length] unfolding length_map by simp
  have c: "closed (session_of s 0)" "\<not> closed (session_of s 1)"
    using arg_cong [OF v(3), of "\<lambda>xs. fst (xs ! 0)"] arg_cong [OF v(3), of "\<lambda>xs. fst (xs ! 1)"] n by simp_all
  have r: "reach (server_init zero_options) server_step (s, gs)"
    using server_moves_reach [OF reach_init, of zero_options "(NewServer zero_options, [])" two_peers] e by (simp add: server_init_def)
  note p = kcp_server_sessions [OF r]
  have "table_size s = 1" using p v by simp
  moreover have "sessions (addr_of s 0) s \<noteq> Some 0" "sessions (addr_of s 1) s = Some 1" using p v(1) n c by (simp_all add: Let_def)
  ultimately show ?thesis using r v n by blast
qed

end
