(* ===== verification/FdTable.thy ===== *)
theory FdTable
  imports FnetPrelude
begin

unbundle bit_operations_syntax

text \<open>
  \<^verbatim>\<open>fdtable_unix.go\<close>: the two-level table from file descriptors to connections, and the per-page
  earliest deadlines. A connection is named by a number; its descriptor \<^verbatim>\<open>c.fd\<close> is a parameter
  \<open>fdOf\<close>, as a 64-bit Go \<^verbatim>\<open>int\<close>, and its current deadline a parameter \<open>dl\<close>. The last section
  interleaves the scans of \<^verbatim>\<open>checkDeadlines\<close> with concurrent \<^verbatim>\<open>SetDeadline\<close> calls, load by load and
  compare-and-swap by compare-and-swap.
\<close>

section \<open>The table\<close>

type_synonym conn_id = nat

definition fdPageShift :: nat where "fdPageShift = 12"
definition fdPageSize :: nat where "fdPageSize = 4096"
definition fdPageMask :: u64 where "fdPageMask = 4095"
definition maxFd :: u64 where "maxFd = 16777216"

lemmas fd_consts = fdPageShift_def fdPageSize_def fdPageMask_def maxFd_def

type_synonym fdPage = "nat \<Rightarrow> conn_id option"

definition new_fdPage :: fdPage where "new_fdPage = (\<lambda>_. None)"

record fdTable =
  pages :: "nat \<Rightarrow> fdPage option"
  minDeadlines :: "nat \<Rightarrow> int"

definition empty_fdTable :: fdTable where
  "empty_fdTable = \<lparr>pages = (\<lambda>_. None), minDeadlines = (\<lambda>_. 0)\<rparr>"

text \<open>Page and slot of a descriptor that passed the range check (so \<^verbatim>\<open>>>\<close> shifts in zeros).\<close>

definition fd_page :: "u64 \<Rightarrow> nat" where "fd_page fd = unat (drop_bit fdPageShift fd)"
definition fd_slot :: "u64 \<Rightarrow> nat" where "fd_slot fd = unat (fd AND fdPageMask)"

definition slot :: "u64 \<Rightarrow> fdTable \<Rightarrow> (fdPage \<times> nat) option" where
  "slot fd t =
     (if fd \<ge> maxFd then None
      else case pages t (fd_page fd) of None \<Rightarrow> None | Some page \<Rightarrow> Some (page, fd_slot fd))"

definition lookup :: "u64 \<Rightarrow> fdTable \<Rightarrow> conn_id option" where
  "lookup fd t = (case slot fd t of None \<Rightarrow> None | Some (page, j) \<Rightarrow> page j)"

definition store :: "(conn_id \<Rightarrow> u64) \<Rightarrow> conn_id \<Rightarrow> fdTable \<Rightarrow> fdTable \<times> bool" where
  "store fdOf c t =
     (if fdOf c \<ge> maxFd then (t, False)
      else
        let index = fd_page (fdOf c);
            page = (case pages t index of None \<Rightarrow> new_fdPage | Some p \<Rightarrow> p)
        in (t\<lparr>pages := (pages t)(index := Some (page(fd_slot (fdOf c) := Some c)))\<rparr>, True))"

definition remove :: "(conn_id \<Rightarrow> u64) \<Rightarrow> conn_id \<Rightarrow> fdTable \<Rightarrow> fdTable" where
  "remove fdOf c t =
     (case slot (fdOf c) t of
        None \<Rightarrow> t
      | Some (page, j) \<Rightarrow>
          if page j = Some c then t\<lparr>pages := (pages t)(fd_page (fdOf c) := Some (page(j := None)))\<rparr> else t)"

definition lowerDeadline :: "nat \<Rightarrow> int \<Rightarrow> fdTable \<Rightarrow> fdTable" where
  "lowerDeadline page d t =
     (if minDeadlines t page \<noteq> 0 \<and> minDeadlines t page \<le> d then t
      else t\<lparr>minDeadlines := (minDeadlines t)(page := d)\<rparr>)"

definition noteDeadline :: "u64 \<Rightarrow> int \<Rightarrow> fdTable \<Rightarrow> fdTable" where
  "noteDeadline fd d t = (if fd < maxFd \<and> d > 0 then lowerDeadline (fd_page fd) d t else t)"

text \<open>The scan of one page: the connections to notify and the earliest deadline still ahead.\<close>

fun scan_slots :: "(conn_id \<Rightarrow> int) \<Rightarrow> int \<Rightarrow> fdPage \<Rightarrow> nat list \<Rightarrow> conn_id list \<times> int \<Rightarrow> conn_id list \<times> int" where
  "scan_slots dl now page [] acc = acc"
| "scan_slots dl now page (j # js) (fired, nextMin) =
     scan_slots dl now page js
       (case page j of
          None \<Rightarrow> (fired, nextMin)
        | Some c \<Rightarrow>
            let d = dl c in
            if d = 0 then (fired, nextMin)
            else if d \<le> now then (fired @ [c], nextMin)
            else (fired, if nextMin = 0 \<or> d < nextMin then d else nextMin))"

definition check_page :: "(conn_id \<Rightarrow> int) \<Rightarrow> int \<Rightarrow> nat \<Rightarrow> fdTable \<Rightarrow> fdTable \<times> conn_id list" where
  "check_page dl now i t =
     (if minDeadlines t i = 0 \<or> minDeadlines t i > now then (t, [])
      else
        let t1 = t\<lparr>minDeadlines := (minDeadlines t)(i := 0)\<rparr> in
        case pages t1 i of
          None \<Rightarrow> (t1, [])
        | Some page \<Rightarrow>
            let (fired, nextMin) = scan_slots dl now page [0..<fdPageSize] ([], 0)
            in (if nextMin > 0 then lowerDeadline i nextMin t1 else t1, fired))"

fun check_pages :: "(conn_id \<Rightarrow> int) \<Rightarrow> int \<Rightarrow> nat list \<Rightarrow> fdTable \<Rightarrow> fdTable \<times> conn_id list" where
  "check_pages dl now [] t = (t, [])"
| "check_pages dl now (i # is) t =
     (let (t1, f1) = check_page dl now i t; (t2, f2) = check_pages dl now is t1 in (t2, f1 @ f2))"

definition checkDeadlines :: "(conn_id \<Rightarrow> int) \<Rightarrow> int \<Rightarrow> fdTable \<Rightarrow> fdTable \<times> conn_id list" where
  "checkDeadlines dl now t = check_pages dl now [0..<fdPageSize] t"

definition each :: "fdTable \<Rightarrow> conn_id list" where
  "each t =
     concat (map (\<lambda>i. case pages t i of
         None \<Rightarrow> []
       | Some page \<Rightarrow> concat (map (\<lambda>j. case page j of None \<Rightarrow> [] | Some c \<Rightarrow> [c]) [0..<fdPageSize]))
       [0..<fdPageSize])"

section \<open>Page and slot name a descriptor\<close>

lemma fd_page_slot: "fd_page fd = unat fd div 4096" "fd_slot fd = unat fd mod 4096"
proof -
  show "fd_page fd = unat fd div 4096"
    by (simp add: fd_page_def fdPageShift_def drop_bit_eq_div unat_div_distrib)
  have "fdPageMask = mask 12" by (simp add: fdPageMask_def mask_eq_exp_minus_1)
  then have "fd AND fdPageMask = take_bit 12 fd" by (simp add: take_bit_eq_mask)
  then show "fd_slot fd = unat fd mod 4096" by (simp add: fd_slot_def take_bit_eq_mod unat_mod_distrib)
qed

lemma fd_in_range: "fd < maxFd \<longleftrightarrow> fd_page fd < fdPageSize"
  by (simp add: fd_page_slot fd_consts word_less_nat_alt less_mult_imp_div_less div_less_iff_less_mult)

lemma fd_slot_less: "fd_slot fd < fdPageSize"
  by (simp add: fd_page_slot fdPageSize_def)

lemma fd_eq_iff: "fd = fd' \<longleftrightarrow> fd_page fd = fd_page fd' \<and> fd_slot fd = fd_slot fd'"
  unfolding fd_page_slot by (metis div_mult_mod_eq word_unat_eq_iff)

lemma fd_of_index:
  assumes "i < fdPageSize" and "j < fdPageSize"
  obtains fd where "fd_page fd = i" "fd_slot fd = j" "fd < maxFd"
proof -
  let ?n = "i * 4096 + j"
  have "?n < 2 ^ 64" using assms by (simp add: fdPageSize_def)
  then have u: "unat (of_nat ?n :: u64) = ?n" by (simp add: unat_of_nat del: of_nat_add of_nat_mult)
  have "fd_page (of_nat ?n) = i" "fd_slot (of_nat ?n) = j"
    unfolding fd_page_slot u using assms(2) by (simp_all add: fdPageSize_def)
  with assms(1) show thesis by (intro that [of "of_nat ?n"]) (simp_all only: fd_in_range)
qed

lemma lookup_eq: "lookup fd t = (if fd < maxFd then case pages t (fd_page fd) of None \<Rightarrow> None | Some p \<Rightarrow> p (fd_slot fd) else None)"
  by (auto simp: lookup_def slot_def split: option.splits)

section \<open>The interface the event loop and the connections use\<close>

text \<open>A registry of connections by descriptor. A connection only ever takes itself out, so one that has
  taken over a descriptor is never removed by its predecessor.\<close>

locale registry =
  fixes find :: "'k \<Rightarrow> 't \<Rightarrow> 'c option"
    and add :: "'c \<Rightarrow> 't \<Rightarrow> 't \<times> bool"
    and del :: "'c \<Rightarrow> 't \<Rightarrow> 't"
    and key :: "'c \<Rightarrow> 'k"
    and fits :: "'k \<Rightarrow> bool"
  assumes add_result: "snd (add c t) = fits (key c)"
    and find_add: "find k (fst (add c t)) = (if k = key c \<and> fits k then Some c else find k t)"
    and find_del: "find k (del c t) = (if k = key c \<and> find k t = Some c then None else find k t)"
begin

definition consistent :: "'t \<Rightarrow> bool" where
  "consistent t \<longleftrightarrow> (\<forall>k c. find k t = Some c \<longrightarrow> key c = k \<and> fits k)"

lemma consistent_add: "consistent t \<Longrightarrow> consistent (fst (add c t))"
  by (simp add: consistent_def find_add)

lemma consistent_del: "consistent t \<Longrightarrow> consistent (del c t)"
  by (auto simp: consistent_def find_del)

lemma add_found: "fits (key c) \<Longrightarrow> find (key c) (fst (add c t)) = Some c"
  by (simp add: find_add)

lemma del_gone: "consistent t \<Longrightarrow> find k (del c t) \<noteq> Some c"
  by (auto simp: consistent_def find_del)

lemma stale_del_harmless: "c \<noteq> c' \<Longrightarrow> find k t = Some c' \<Longrightarrow> find k (del c t) = Some c'"
  by (simp add: find_del)

lemma add_del_other: "c \<noteq> c' \<Longrightarrow> find k (del c' (fst (add c t))) = find k (fst (add c (del c' t)))"
  by (auto simp: find_add find_del)

end

interpretation fdreg: registry lookup "store fdOf" "remove fdOf" fdOf "\<lambda>fd. fd < maxFd" for fdOf
proof unfold_locales
  fix c t k
  show "snd (store fdOf c t) = (fdOf c < maxFd)" by (auto simp: store_def Let_def not_le)
  show "lookup k (fst (store fdOf c t)) = (if k = fdOf c \<and> k < maxFd then Some c else lookup k t)"
    using fd_eq_iff [of k "fdOf c"]
    by (auto simp: store_def lookup_eq Let_def new_fdPage_def split: option.splits)
  show "lookup k (remove fdOf c t) = (if k = fdOf c \<and> lookup k t = Some c then None else lookup k t)"
    using fd_eq_iff [of k "fdOf c"]
    by (auto simp: remove_def slot_def lookup_eq split: option.splits)
qed

section \<open>Deadlines, one call at a time\<close>

text \<open>Every deadline of a connection in the table is at or after its page's earliest deadline.\<close>

definition deadlines_noted :: "(conn_id \<Rightarrow> int) \<Rightarrow> fdTable \<Rightarrow> bool" where
  "deadlines_noted dl t \<longleftrightarrow>
     (\<forall>fd c. lookup fd t = Some c \<and> dl c \<noteq> 0 \<longrightarrow>
        0 < minDeadlines t (fd_page fd) \<and> minDeadlines t (fd_page fd) \<le> dl c)"

text \<open>The scan as two passes over the connections of the page.\<close>

definition min_deadline :: "int \<Rightarrow> int \<Rightarrow> int" where
  "min_deadline d m = (if m = 0 \<or> d < m then d else m)"

lemma scan_slots_eq:
  "scan_slots dl now page js (f0, m0) =
     (f0 @ filter (\<lambda>c. dl c \<noteq> 0 \<and> dl c \<le> now) (List.map_filter page js),
      fold min_deadline (filter (\<lambda>d. d \<noteq> 0 \<and> now < d) (map dl (List.map_filter page js))) m0)"
  by (induction js arbitrary: f0 m0)
    (auto simp: List.map_filter_def min_deadline_def Let_def split: option.splits)

lemma fold_min_deadline:
  assumes "0 \<le> m" and "\<forall>d \<in> set ds. 0 < d"
  shows "0 \<le> fold min_deadline ds m \<and>
    (m \<noteq> 0 \<longrightarrow> fold min_deadline ds m \<noteq> 0 \<and> fold min_deadline ds m \<le> m) \<and>
    (\<forall>d \<in> set ds. fold min_deadline ds m \<noteq> 0 \<and> fold min_deadline ds m \<le> d) \<and>
    fold min_deadline ds m \<in> insert m (set ds)"
  using assms
proof (induction ds arbitrary: m)
  case (Cons d ds)
  let ?m = "min_deadline d m"
  have m: "0 \<le> ?m" "?m \<noteq> 0" "?m \<le> d" "m \<noteq> 0 \<longrightarrow> ?m \<le> m" "?m \<in> {d, m}"
    using Cons.prems by (auto simp: min_deadline_def)
  from Cons.IH [OF m(1)] Cons.prems(2) m show ?case by force
qed simp

lemma set_map_filter: "set (List.map_filter page js) = {c. \<exists>j \<in> set js. page j = Some c}"
  by (force simp: List.map_filter_def)

text \<open>One page of \<^verbatim>\<open>checkDeadlines\<close>: what it notifies and what it leaves noted.\<close>

definition page_conns :: "nat \<Rightarrow> fdTable \<Rightarrow> conn_id set" where
  "page_conns i t = {c. \<exists>fd. fd_page fd = i \<and> lookup fd t = Some c}"

lemma page_conns_eq:
  assumes "i < fdPageSize"
  shows "page_conns i t = (case pages t i of None \<Rightarrow> {} | Some p \<Rightarrow> set (List.map_filter p [0..<fdPageSize]))"
proof (cases "pages t i")
  case None
  then show ?thesis by (auto simp: page_conns_def lookup_eq)
next
  case (Some p)
  have "c \<in> page_conns i t" if j: "j < fdPageSize" "p j = Some c" for j c
  proof -
    obtain fd where "fd_page fd = i" "fd_slot fd = j" "fd < maxFd" using assms j(1) by (rule fd_of_index)
    with Some j show ?thesis by (auto simp: page_conns_def lookup_eq)
  qed
  moreover have "\<exists>j < fdPageSize. p j = Some c" if "c \<in> page_conns i t" for c
    using that Some fd_slot_less by (auto simp: page_conns_def lookup_eq split: if_splits)
  ultimately show ?thesis using Some by (force simp: set_map_filter)
qed

lemma set_each: "set (each t) = {c. \<exists>fd. lookup fd t = Some c}"
proof -
  have e: "concat (map (\<lambda>j. case p j of None \<Rightarrow> [] | Some c \<Rightarrow> [c]) js) = List.map_filter p js" for p :: fdPage and js
    by (induction js) (auto simp: List.map_filter_def split: option.splits)
  have "set (each t) = (\<Union>i \<in> {0..<fdPageSize}. page_conns i t)"
    unfolding each_def e set_concat set_map image_image set_upt
    by (intro SUP_cong refl) (simp add: page_conns_eq split: option.splits)
  also have "\<dots> = {c. \<exists>fd. lookup fd t = Some c}"
    unfolding page_conns_def using fd_in_range by (auto simp: lookup_eq split: if_splits)
  finally show ?thesis .
qed

lemma deadlines_noted_pages:
  "deadlines_noted dl t \<longleftrightarrow>
     (\<forall>i < fdPageSize. \<forall>c \<in> page_conns i t. dl c \<noteq> 0 \<longrightarrow> 0 < minDeadlines t i \<and> minDeadlines t i \<le> dl c)"
  unfolding deadlines_noted_def page_conns_def using fd_in_range by (auto simp: lookup_eq split: if_splits)

lemma check_page_spec:
  assumes "check_page dl now i t = (t', f)" and "i < fdPageSize" and "\<forall>c. 0 \<le> dl c" and "0 \<le> now"
    and "\<forall>c \<in> page_conns i t. dl c \<noteq> 0 \<longrightarrow> 0 < minDeadlines t i \<and> minDeadlines t i \<le> dl c"
    and "0 \<le> minDeadlines t i"
  shows "set f = {c \<in> page_conns i t. dl c \<noteq> 0 \<and> dl c \<le> now} \<and> pages t' = pages t \<and>
    (\<forall>k. k \<noteq> i \<longrightarrow> minDeadlines t' k = minDeadlines t k) \<and> 0 \<le> minDeadlines t' i \<and>
    (\<forall>c \<in> page_conns i t. now < dl c \<longrightarrow> 0 < minDeadlines t' i \<and> minDeadlines t' i \<le> dl c)"
proof (cases "minDeadlines t i = 0 \<or> minDeadlines t i > now")
  case True
  with assms show ?thesis by (force simp: check_page_def)
next
  case False
  let ?t1 = "t\<lparr>minDeadlines := (minDeadlines t)(i := 0)\<rparr>"
  show ?thesis
  proof (cases "pages t i")
    case None
    then have "page_conns i t = {}" using page_conns_eq [OF assms(2)] by simp
    with None False assms(1) show ?thesis by (auto simp: check_page_def)
  next
    case (Some p)
    define cs where "cs = List.map_filter p [0..<fdPageSize]"
    define ds where "ds = filter (\<lambda>d. d \<noteq> 0 \<and> now < d) (map dl cs)"
    define m where "m = fold min_deadline ds 0"
    have cs: "page_conns i t = set cs" using page_conns_eq [OF assms(2), of t] Some by (simp add: cs_def)
    have "t' = (if m > 0 then lowerDeadline i m ?t1 else ?t1)" "f = filter (\<lambda>c. dl c \<noteq> 0 \<and> dl c \<le> now) cs"
      using assms(1) False Some by (auto simp: check_page_def scan_slots_eq cs_def ds_def m_def Let_def)
    moreover have "0 \<le> m" "\<forall>d \<in> set ds. m \<noteq> 0 \<and> m \<le> d"
      using fold_min_deadline [of 0 ds] assms(4) by (auto simp: m_def ds_def)
    moreover have "dl c \<in> set ds" if "c \<in> set cs" "now < dl c" for c
      using that assms(4) by (auto simp: ds_def)
    ultimately show ?thesis unfolding cs by (fastforce simp: lowerDeadline_def)
  qed
qed

lemma check_pages_spec:
  assumes "check_pages dl now is t = (t', f)" and "set is \<subseteq> {0..<fdPageSize}" and "distinct is"
    and "\<forall>c. 0 \<le> dl c" and "0 \<le> now" and "\<forall>i. 0 \<le> minDeadlines t i"
    and "\<forall>i \<in> set is. \<forall>c \<in> page_conns i t. dl c \<noteq> 0 \<longrightarrow> 0 < minDeadlines t i \<and> minDeadlines t i \<le> dl c"
  shows "set f = {c. \<exists>i \<in> set is. c \<in> page_conns i t \<and> dl c \<noteq> 0 \<and> dl c \<le> now} \<and> pages t' = pages t \<and>
    (\<forall>i. i \<notin> set is \<longrightarrow> minDeadlines t' i = minDeadlines t i) \<and> (\<forall>i. 0 \<le> minDeadlines t' i) \<and>
    (\<forall>i \<in> set is. \<forall>c \<in> page_conns i t. now < dl c \<longrightarrow> 0 < minDeadlines t' i \<and> minDeadlines t' i \<le> dl c)"
  using assms
proof (induction "is" arbitrary: t f)
  case (Cons i ks)
  obtain t1 f1 f2 where c: "check_page dl now i t = (t1, f1)" "check_pages dl now ks t1 = (t', f2)" "f = f1 @ f2"
    using Cons.prems(1) by (auto simp: Let_def split: prod.splits)
  have s1: "set f1 = {c \<in> page_conns i t. dl c \<noteq> 0 \<and> dl c \<le> now}" "pages t1 = pages t"
      "\<forall>k. k \<noteq> i \<longrightarrow> minDeadlines t1 k = minDeadlines t k" "0 \<le> minDeadlines t1 i"
      "\<forall>c \<in> page_conns i t. now < dl c \<longrightarrow> 0 < minDeadlines t1 i \<and> minDeadlines t1 i \<le> dl c"
    using check_page_spec [OF c(1)] Cons.prems by auto
  have pc: "page_conns k t1 = page_conns k t" for k using s1(2) by (simp add: page_conns_def lookup_eq)
  have nn: "\<forall>k. 0 \<le> minDeadlines t1 k" using s1(3,4) Cons.prems(6) by metis
  have ne: "\<And>k. k \<in> set ks \<Longrightarrow> k \<noteq> i" using Cons.prems(3) by auto
  have "\<forall>k \<in> set ks. \<forall>c \<in> page_conns k t1. dl c \<noteq> 0 \<longrightarrow> 0 < minDeadlines t1 k \<and> minDeadlines t1 k \<le> dl c"
    using Cons.prems(7) s1(3) ne unfolding pc by simp
  note IH = Cons.IH [OF c(2) _ _ Cons.prems(4,5) nn this]
  have i: "minDeadlines t' i = minDeadlines t1 i" using IH Cons.prems(2,3) by auto
  show ?case using IH Cons.prems(2,3) s1 c(3) i ne unfolding pc by auto
qed simp

section \<open>Deadlines under concurrency\<close>

text \<open>
  One page while any number of goroutines work on it at once. \<open>Noting d\<close> is a goroutine about to load
  the page's earliest deadline in \<^verbatim>\<open>lowerDeadline\<close>, \<open>Noting_cas d cur\<close> one about to
  compare-and-swap it; \<open>Resetting now\<close> is a scan that found the page due and stores 0 next, \<open>Scanning now j m\<close> is a scan of \<^verbatim>\<open>checkDeadlines\<close> that has reset the earliest
  deadline and looks at slot \<open>j\<close> next, \<open>m\<close> being its \<^verbatim>\<open>nextMin\<close>; \<open>Scanned now j m c\<close> has loaded the
  slot and loads the deadline of \<open>c\<close> next. \<open>fired\<close> records the notifications: the connection and the
  deadline that had passed.
\<close>

datatype worker = Noting int | Noting_cas int int | Resetting int | Scanning int nat int | Scanned int nat int conn_id

record deadline_page =
  slots :: "nat \<Rightarrow> conn_id option"
  deadlines :: "conn_id \<Rightarrow> int"
  minDeadline :: int
  workers :: "worker list"
  fired :: "(conn_id \<times> int) set"

inductive page_step :: "deadline_page \<Rightarrow> deadline_page \<Rightarrow> bool" where
  set_deadline: "d > 0 \<Longrightarrow>
    page_step p (p\<lparr>deadlines := (deadlines p)(c := d), workers := workers p @ [Noting d]\<rparr>)"
| clear_deadline: "page_step p (p\<lparr>deadlines := (deadlines p)(c := 0)\<rparr>)"
| open_conn: "slots p j = None \<Longrightarrow> deadlines p c = 0 \<Longrightarrow> page_step p (p\<lparr>slots := (slots p)(j := Some c)\<rparr>)"
| close_conn: "page_step p (p\<lparr>slots := (slots p)(j := None)\<rparr>)"
| note_kept: "workers p = ws @ Noting d # vs \<Longrightarrow> minDeadline p \<noteq> 0 \<Longrightarrow> minDeadline p \<le> d \<Longrightarrow>
    page_step p (p\<lparr>workers := ws @ vs\<rparr>)"
| note_load: "workers p = ws @ Noting d # vs \<Longrightarrow> minDeadline p = 0 \<or> minDeadline p > d \<Longrightarrow>
    page_step p (p\<lparr>workers := ws @ Noting_cas d (minDeadline p) # vs\<rparr>)"
| note_swap: "workers p = ws @ Noting_cas d cur # vs \<Longrightarrow> minDeadline p = cur \<Longrightarrow>
    page_step p (p\<lparr>minDeadline := d, workers := ws @ vs\<rparr>)"
| note_retry: "workers p = ws @ Noting_cas d cur # vs \<Longrightarrow> minDeadline p \<noteq> cur \<Longrightarrow>
    page_step p (p\<lparr>workers := ws @ Noting d # vs\<rparr>)"
| scan_due: "minDeadline p \<noteq> 0 \<Longrightarrow> minDeadline p \<le> now \<Longrightarrow>
    page_step p (p\<lparr>workers := workers p @ [Resetting now]\<rparr>)"
| scan_reset: "workers p = ws @ Resetting now # vs \<Longrightarrow>
    page_step p (p\<lparr>minDeadline := 0, workers := ws @ Scanning now 0 0 # vs\<rparr>)"
| scan_no_page: "workers p = ws @ Scanning now 0 0 # vs \<Longrightarrow> \<forall>j. slots p j = None \<Longrightarrow>
    page_step p (p\<lparr>workers := ws @ vs\<rparr>)"
| scan_none: "workers p = ws @ Scanning now j m # vs \<Longrightarrow> j < fdPageSize \<Longrightarrow> slots p j = None \<Longrightarrow>
    page_step p (p\<lparr>workers := ws @ Scanning now (Suc j) m # vs\<rparr>)"
| scan_slot: "workers p = ws @ Scanning now j m # vs \<Longrightarrow> j < fdPageSize \<Longrightarrow> slots p j = Some c \<Longrightarrow>
    page_step p (p\<lparr>workers := ws @ Scanned now j m c # vs\<rparr>)"
| scan_zero: "workers p = ws @ Scanned now j m c # vs \<Longrightarrow> deadlines p c = 0 \<Longrightarrow>
    page_step p (p\<lparr>workers := ws @ Scanning now (Suc j) m # vs\<rparr>)"
| scan_fire: "workers p = ws @ Scanned now j m c # vs \<Longrightarrow> deadlines p c \<noteq> 0 \<Longrightarrow> deadlines p c \<le> now \<Longrightarrow>
    page_step p (p\<lparr>fired := insert (c, deadlines p c) (fired p), workers := ws @ Scanning now (Suc j) m # vs\<rparr>)"
| scan_keep: "workers p = ws @ Scanned now j m c # vs \<Longrightarrow> deadlines p c \<noteq> 0 \<Longrightarrow> deadlines p c > now \<Longrightarrow>
    page_step p (p\<lparr>workers := ws @ Scanning now (Suc j) (min_deadline (deadlines p c) m) # vs\<rparr>)"
| scan_note: "workers p = ws @ Scanning now j m # vs \<Longrightarrow> j = fdPageSize \<Longrightarrow> m > 0 \<Longrightarrow>
    page_step p (p\<lparr>workers := ws @ Noting m # vs\<rparr>)"
| scan_end: "workers p = ws @ Scanning now j m # vs \<Longrightarrow> j = fdPageSize \<Longrightarrow> m \<le> 0 \<Longrightarrow>
    page_step p (p\<lparr>workers := ws @ vs\<rparr>)"

definition page_start :: "deadline_page \<Rightarrow> bool" where
  "page_start p \<longleftrightarrow> (\<forall>j. slots p j = None) \<and> (\<forall>c. deadlines p c = 0) \<and> minDeadline p = 0 \<and> workers p = [] \<and> fired p = {}"

text \<open>What a goroutine at work will still take care of: the deadline \<open>d\<close> of connection \<open>c\<close> in slot \<open>j\<close>.\<close>

fun covers :: "nat \<Rightarrow> conn_id \<Rightarrow> int \<Rightarrow> worker \<Rightarrow> bool" where
  "covers j c d (Noting e) \<longleftrightarrow> e \<le> d"
| "covers j c d (Noting_cas e cur) \<longleftrightarrow> e \<le> d"
| "covers j c d (Resetting now) \<longleftrightarrow> False"
| "covers j c d (Scanning now k m) \<longleftrightarrow> k \<le> j \<or> m \<noteq> 0 \<and> m \<le> d"
| "covers j c d (Scanned now k m b) \<longleftrightarrow> k < j \<or> k = j \<and> b = c \<or> m \<noteq> 0 \<and> m \<le> d"

fun worker_ok :: "worker \<Rightarrow> bool" where
  "worker_ok (Noting e) \<longleftrightarrow> e > 0"
| "worker_ok (Noting_cas e cur) \<longleftrightarrow> e > 0 \<and> (cur = 0 \<or> cur > e)"
| "worker_ok (Resetting now) \<longleftrightarrow> True"
| "worker_ok (Scanning now k m) \<longleftrightarrow> m \<ge> 0"
| "worker_ok (Scanned now k m b) \<longleftrightarrow> m \<ge> 0"

definition covered :: "deadline_page \<Rightarrow> nat \<Rightarrow> conn_id \<Rightarrow> int \<Rightarrow> bool" where
  "covered p j c d \<longleftrightarrow>
     minDeadline p \<noteq> 0 \<and> minDeadline p \<le> d \<or> (\<exists>w \<in> set (workers p). covers j c d w) \<or> (c, d) \<in> fired p"

definition page_inv :: "deadline_page \<Rightarrow> bool" where
  "page_inv p \<longleftrightarrow>
     minDeadline p \<ge> 0 \<and> (\<forall>c. deadlines p c \<ge> 0) \<and> (\<forall>w \<in> set (workers p). worker_ok w) \<and>
     (\<forall>j c. j < fdPageSize \<and> slots p j = Some c \<and> deadlines p c \<noteq> 0 \<longrightarrow> covered p j c (deadlines p c))"

lemma page_inv_replace:
  assumes "page_inv p" and "workers p = ws @ w # vs" and "worker_ok w \<Longrightarrow> worker_ok w'"
    and "\<And>j c. j < fdPageSize \<Longrightarrow> slots p j = Some c \<Longrightarrow> deadlines p c \<noteq> 0 \<Longrightarrow>
      covers j c (deadlines p c) w \<Longrightarrow> covers j c (deadlines p c) w'"
  shows "page_inv (p\<lparr>workers := ws @ w' # vs\<rparr>)"
  using assms by (fastforce simp: page_inv_def covered_def)

lemma page_inv_step:
  assumes "page_inv p" and "page_step p q"
  shows "page_inv q"
  using assms(2,1)
proof cases
  case (set_deadline d c)
  with assms(1) show ?thesis by (auto simp: page_inv_def covered_def)
next
  case (clear_deadline c)
  with assms(1) show ?thesis by (auto simp: page_inv_def covered_def)
next
  case (open_conn j c)
  with assms(1) show ?thesis by (auto simp: page_inv_def covered_def)
next
  case (close_conn j)
  with assms(1) show ?thesis by (auto simp: page_inv_def covered_def)
next
  case (note_kept ws d vs)
  with assms(1) show ?thesis by (fastforce simp: page_inv_def covered_def)
next
  case (note_load ws d vs)
  show ?thesis unfolding note_load(1)
    by (rule page_inv_replace [OF assms(1) note_load(2)])
      (use assms(1) note_load in \<open>auto simp: page_inv_def min_deadline_def Suc_le_eq order_le_less\<close>)
next
  case (note_swap ws d cur vs)
  with assms(1) show ?thesis by (fastforce simp: page_inv_def covered_def)
next
  case (note_retry ws d cur vs)
  show ?thesis unfolding note_retry(1)
    by (rule page_inv_replace [OF assms(1) note_retry(2)])
      (use assms(1) note_retry in \<open>auto simp: page_inv_def min_deadline_def Suc_le_eq order_le_less\<close>)
next
  case (scan_due now)
  with assms(1) show ?thesis by (auto simp: page_inv_def covered_def)
next
  case (scan_reset ws now vs)
  with assms(1) show ?thesis by (auto simp: page_inv_def covered_def)
next
  case (scan_no_page ws now vs)
  with assms(1) show ?thesis by (auto simp: page_inv_def covered_def)
next
  case (scan_none ws now j m vs)
  show ?thesis unfolding scan_none(1)
    by (rule page_inv_replace [OF assms(1) scan_none(2)])
      (use assms(1) scan_none in \<open>auto simp: page_inv_def min_deadline_def Suc_le_eq order_le_less\<close>)
next
  case (scan_slot ws now j m vs c)
  show ?thesis unfolding scan_slot(1)
    by (rule page_inv_replace [OF assms(1) scan_slot(2)])
      (use assms(1) scan_slot in \<open>auto simp: page_inv_def min_deadline_def Suc_le_eq order_le_less\<close>)
next
  case (scan_zero ws now j m c vs)
  show ?thesis unfolding scan_zero(1)
    by (rule page_inv_replace [OF assms(1) scan_zero(2)])
      (use assms(1) scan_zero in \<open>auto simp: page_inv_def min_deadline_def Suc_le_eq order_le_less\<close>)
next
  case (scan_fire ws now j m c vs)
  with assms(1) show ?thesis by (fastforce simp: page_inv_def covered_def Suc_le_eq)
next
  case (scan_keep ws now j m c vs)
  show ?thesis unfolding scan_keep(1)
    by (rule page_inv_replace [OF assms(1) scan_keep(2)])
      (use assms(1) scan_keep in \<open>auto simp: page_inv_def min_deadline_def Suc_le_eq order_le_less\<close>)
next
  case (scan_note ws now j m vs)
  show ?thesis unfolding scan_note(1)
    by (rule page_inv_replace [OF assms(1) scan_note(2)])
      (use assms(1) scan_note in \<open>auto simp: page_inv_def min_deadline_def Suc_le_eq order_le_less\<close>)
next
  case (scan_end ws now j m vs)
  with assms(1) show ?thesis by (fastforce simp: page_inv_def covered_def)
qed

interpretation page_run: inductive_invariant page_start page_step page_inv
proof unfold_locales
  show "page_inv p" if "page_start p" for p using that by (simp add: page_start_def page_inv_def)
qed (rule page_inv_step)

section \<open>Properties\<close>

definition fd_map :: "fdTable \<Rightarrow> u64 \<rightharpoonup> conn_id" where
  "fd_map t = (\<lambda>fd. lookup fd t)"

text \<open>
  C10. The two-level table is a map from descriptors to connections: \<^verbatim>\<open>store\<close> updates it exactly at
  the connection's descriptor and reports whether that is in range, \<^verbatim>\<open>remove\<close> deletes exactly the entry
  that still holds the connection, and \<^verbatim>\<open>each\<close> visits exactly the connections in it.
\<close>

theorem fd_table_refines_map:
  "fd_map (fst (store fdOf c t)) = (if fdOf c < maxFd then (fd_map t)(fdOf c \<mapsto> c) else fd_map t) \<and>
   snd (store fdOf c t) = (fdOf c < maxFd) \<and>
   fd_map (remove fdOf c t) = (if fd_map t (fdOf c) = Some c then (fd_map t)(fdOf c := None) else fd_map t) \<and>
   set (each t) = ran (fd_map t)"
  using fdreg.find_add [of _ fdOf c t] fdreg.find_del [of _ fdOf c t] fdreg.add_result [of fdOf c t] set_each [of t]
  by (auto simp: fd_map_def ran_def fun_eq_iff)

text \<open>
  C11. When every deadline has been noted on its page, \<^verbatim>\<open>checkDeadlines\<close> notifies exactly the connections
  whose deadline has passed, although it skips pages without looking at them, and leaves the deadlines
  still ahead noted for the next check.
\<close>

theorem checkDeadlines_exact:
  assumes "deadlines_noted dl t" and "\<forall>c. 0 \<le> dl c" and "\<forall>i. 0 \<le> minDeadlines t i" and "0 \<le> now"
    and "checkDeadlines dl now t = (t', f)"
  shows "set f = {c \<in> ran (fd_map t). dl c \<noteq> 0 \<and> dl c \<le> now} \<and> fd_map t' = fd_map t \<and>
    deadlines_noted (\<lambda>c. if dl c \<le> now then 0 else dl c) t'"
proof -
  have n: "\<forall>i \<in> set [0..<fdPageSize]. \<forall>c \<in> page_conns i t. dl c \<noteq> 0 \<longrightarrow> 0 < minDeadlines t i \<and> minDeadlines t i \<le> dl c"
    using assms(1) unfolding deadlines_noted_pages by simp
  note spec = check_pages_spec [OF assms(5) [unfolded checkDeadlines_def] _ _ assms(2,4,3) n]
  have pg: "pages t' = pages t" using spec by simp
  then have lk: "lookup fd t' = lookup fd t" for fd by (simp only: lookup_eq)
  then have pc: "page_conns i t' = page_conns i t" and fm: "fd_map t' = fd_map t" for i
    by (simp_all add: page_conns_def fd_map_def)
  have "(\<exists>i \<in> {0..<fdPageSize}. c \<in> page_conns i t) \<longleftrightarrow> c \<in> ran (fd_map t)" for c
    unfolding page_conns_def fd_map_def ran_def using fd_in_range by (auto simp: lookup_eq split: if_splits)
  with spec have "set f = {c \<in> ran (fd_map t). dl c \<noteq> 0 \<and> dl c \<le> now}" by auto
  moreover have "deadlines_noted (\<lambda>c. if dl c \<le> now then 0 else dl c) t'"
    using spec unfolding deadlines_noted_pages pc by simp
  ultimately show ?thesis using fm by blast
qed

definition fdOf1 :: "conn_id \<Rightarrow> u64" where "fdOf1 c = of_nat c + 4"
definition dl1 :: "conn_id \<Rightarrow> int" where "dl1 c = (if c = 1 then 7 else 0)"
definition table1 :: fdTable where
  "table1 = noteDeadline 5 7 (fst (store fdOf1 1 empty_fdTable))"

lemma table1_lookup: "lookup fd table1 = (if fd = 5 then Some 1 else None)"
proof -
  have "lookup fd table1 = lookup fd (fst (store fdOf1 1 empty_fdTable))"
    by (simp add: table1_def noteDeadline_def lowerDeadline_def lookup_eq)
  also have "\<dots> = (if fd = 5 then Some 1 else None)"
    by (simp add: fdreg.find_add fdOf1_def maxFd_def) (simp add: lookup_eq empty_fdTable_def)
  finally show ?thesis .
qed

lemma table1_min: "minDeadlines table1 = (\<lambda>_. 0)(0 := 7)"
  by (simp add: table1_def noteDeadline_def lowerDeadline_def store_def fdOf1_def empty_fdTable_def Let_def
      fd_page_slot maxFd_def)

theorem checkDeadlines_exact_witness:
  "set (snd (checkDeadlines dl1 9 table1)) = {1} \<and> fd_map (fst (checkDeadlines dl1 9 table1)) 5 = Some 1"
proof -
  have "deadlines_noted dl1 table1"
    by (simp add: deadlines_noted_def table1_lookup table1_min dl1_def fd_page_slot)
  from checkDeadlines_exact [OF this, of 9 "fst (checkDeadlines dl1 9 table1)" "snd (checkDeadlines dl1 9 table1)"]
  have "set (snd (checkDeadlines dl1 9 table1)) = {c \<in> ran (fd_map table1). dl1 c \<noteq> 0 \<and> dl1 c \<le> 9} \<and>
      fd_map (fst (checkDeadlines dl1 9 table1)) = fd_map table1"
    by (simp add: dl1_def table1_min)
  then show ?thesis by (auto simp: fd_map_def table1_lookup ran_def dl1_def split: if_splits)
qed

text \<open>
  C12. No deadline is lost to a concurrent scan: whatever the interleaving of scans of a page with calls
  that set deadlines, open and close connections, once no call is under way every deadline of a
  connection in the page has either been notified or is at or after the page's earliest deadline,
  so the next check that is due looks at it.
\<close>

theorem deadline_never_lost:
  assumes "reach page_start page_step p" and "workers p = []"
    and "j < fdPageSize" and "slots p j = Some c" and "deadlines p c \<noteq> 0"
  shows "(c, deadlines p c) \<in> fired p \<or> 0 < minDeadline p \<and> minDeadline p \<le> deadlines p c"
  using page_run.reach_inv [OF assms(1)] assms(2-5) by (force simp: page_inv_def covered_def)

definition dpage1 :: deadline_page where
  "dpage1 = \<lparr>slots = [3 \<mapsto> 1], deadlines = (\<lambda>_. 0)(1 := 7), minDeadline = 7, workers = [], fired = {}\<rparr>"

lemma dpage1_reach: "reach page_start page_step dpage1"
proof -
  let ?p0 = "\<lparr>slots = Map.empty, deadlines = (\<lambda>_. 0), minDeadline = 0, workers = [], fired = {}\<rparr>"
  let ?p1 = "?p0\<lparr>slots := (slots ?p0)(3 := Some 1)\<rparr>"
  let ?p2 = "?p1\<lparr>deadlines := (deadlines ?p1)(1 := 7), workers := workers ?p1 @ [Noting 7]\<rparr>"
  let ?p3 = "?p2\<lparr>workers := [] @ Noting_cas 7 (minDeadline ?p2) # []\<rparr>"
  have "reach page_start page_step ?p0" by (rule reach_init) (simp add: page_start_def)
  moreover have "page_step ?p0 ?p1" by (rule open_conn) simp_all
  moreover have "page_step ?p1 ?p2" by (rule set_deadline) simp
  moreover have "page_step ?p2 ?p3" by (rule note_load) simp_all
  moreover have "page_step ?p3 (?p3\<lparr>minDeadline := 7, workers := [] @ []\<rparr>)" by (rule note_swap) simp_all
  ultimately have "reach page_start page_step (?p3\<lparr>minDeadline := 7, workers := [] @ []\<rparr>)" by (meson reach_step)
  then show ?thesis by (simp add: dpage1_def)
qed

theorem deadline_never_lost_witness: "deadlines dpage1 1 = 7 \<and> 0 < minDeadline dpage1 \<and> minDeadline dpage1 \<le> 7"
  using deadline_never_lost [OF dpage1_reach, of 3 1] by (simp add: dpage1_def fdPageSize_def)

end
