(* ===== verification/ConnTask.thy ===== *)
theory ConnTask
  imports FnetPrelude
begin

unbundle bit_operations_syntax

text \<open>
  The state word of a connection (\<^verbatim>\<open>task_unix.go\<close>: \<^verbatim>\<open>notify\<close>, \<^verbatim>\<open>schedule\<close>, \<^verbatim>\<open>release\<close>,
  \<^verbatim>\<open>takeOver\<close>, \<^verbatim>\<open>run\<close>): how any number of goroutines raise events and one task at a time takes them.
  Each step of the relation at the end is one atomic operation on the word, or one submission to the
  Executor, so every interleaving of the callers is a run.
\<close>

section \<open>The word and its operations\<close>

definition evRead :: u32 where "evRead = 1"
definition evWrite :: u32 where "evWrite = 2"
definition evHup :: u32 where "evHup = 4"
definition evOpen :: u32 where "evOpen = 8"
definition evClose :: u32 where "evClose = 16"
definition evExpired :: u32 where "evExpired = 32"
definition evShutdown :: u32 where "evShutdown = 64"
definition evResume :: u32 where "evResume = 128"
definition scheduledBit :: u32 where "scheduledBit = 0x80000000"

lemmas event_defs = evRead_def evWrite_def evHup_def evOpen_def evClose_def evExpired_def evShutdown_def
  evResume_def

text \<open>\<^verbatim>\<open>c.state.Or(ev|scheduledBit)\<close>: the new word, and whether the old one had \<^verbatim>\<open>scheduledBit\<close> clear,
  so that the caller submits the task.\<close>

definition notify :: "u32 \<Rightarrow> u32 \<Rightarrow> u32 \<times> bool" where
  "notify ev st = (st OR (ev OR scheduledBit), st AND scheduledBit = 0)"

text \<open>\<^verbatim>\<open>CompareAndSwap(scheduledBit, 0)\<close>: when it fails the caller submits the task again.\<close>

definition release :: "u32 \<Rightarrow> u32 \<times> bool" where
  "release st = (if st = scheduledBit then (0, False) else (st, True))"

definition takeOver :: "u32 \<Rightarrow> u32 \<times> bool" where
  "takeOver st = (if st = 0 then (scheduledBit, True) else (st, False))"

text \<open>\<^verbatim>\<open>c.state.Swap(scheduledBit) &^ scheduledBit\<close>: the new word and the events of the round.\<close>

definition run_take :: "u32 \<Rightarrow> u32 \<times> u32" where
  "run_take st = (scheduledBit, st AND NOT scheduledBit)"

section \<open>Every interleaving\<close>

text \<open>
  \<open>submitting\<close> counts the goroutines that must call the Executor next, \<open>queued\<close> the tasks the
  Executor holds, \<open>running\<close> the rounds under way with their events, \<open>taken\<close> the successful
  \<^verbatim>\<open>takeOver\<close> calls not yet released, \<open>parked\<close> the rounds that ended by closing the connection.
  \<open>owed\<close> are the events raised that no round has been given.
\<close>

record task_sys =
  word :: u32
  submitting :: nat
  queued :: nat
  running :: "u32 list"
  taken :: nat
  parked :: nat
  owed :: u32

inductive task_step :: "task_sys \<Rightarrow> task_sys \<Rightarrow> bool" where
  t_notify: "ev AND scheduledBit = 0 \<Longrightarrow> notify ev (word s) = (w, submit) \<Longrightarrow>
    task_step s (s\<lparr>word := w, owed := owed s OR ev, submitting := submitting s + (if submit then 1 else 0)\<rparr>)"
| t_submit: "submitting s > 0 \<Longrightarrow>
    task_step s (s\<lparr>submitting := submitting s - 1, queued := queued s + 1\<rparr>)"
| t_run: "queued s > 0 \<Longrightarrow> run_take (word s) = (w, ev) \<Longrightarrow>
    task_step s (s\<lparr>word := w, queued := queued s - 1, running := ev # running s, owed := owed s AND NOT ev\<rparr>)"
| t_release: "running s = es @ ev # fs \<Longrightarrow> release (word s) = (w, again) \<Longrightarrow>
    task_step s (s\<lparr>word := w, running := es @ fs, submitting := submitting s + (if again then 1 else 0)\<rparr>)"
| t_closed: "running s = es @ ev # fs \<Longrightarrow> task_step s (s\<lparr>running := es @ fs, parked := parked s + 1\<rparr>)"
| t_take_over: "takeOver (word s) = (w, True) \<Longrightarrow> task_step s (s\<lparr>word := w, taken := taken s + 1\<rparr>)"
| t_give_back: "taken s > 0 \<Longrightarrow> release (word s) = (w, again) \<Longrightarrow>
    task_step s (s\<lparr>word := w, taken := taken s - 1, submitting := submitting s + (if again then 1 else 0)\<rparr>)"

inductive_cases task_step_cases: "task_step s t"

definition task_start :: "task_sys \<Rightarrow> bool" where
  "task_start s \<longleftrightarrow> word s = 0 \<and> submitting s = 0 \<and> queued s = 0 \<and> running s = [] \<and> taken s = 0 \<and>
     parked s = 0 \<and> owed s = 0"

text \<open>Everything that owns the task, now or later.\<close>

definition owners :: "task_sys \<Rightarrow> nat" where
  "owners s = submitting s + queued s + length (running s) + taken s + parked s"

definition task_inv :: "task_sys \<Rightarrow> bool" where
  "task_inv s \<longleftrightarrow>
     owners s = (if word s AND scheduledBit = 0 then 0 else 1) \<and>
     (word s AND scheduledBit = 0 \<longrightarrow> word s = 0) \<and>
     owed s = word s AND NOT scheduledBit"

text \<open>The bit, and what the operations do to it.\<close>

lemma sched_bit: "w AND scheduledBit = 0 \<longleftrightarrow> \<not> bit w 31"
  using and_exp_eq_0_iff_not_bit [of w 31] by (simp add: scheduledBit_def)

lemma bit_sched [simp]: "bit scheduledBit n \<longleftrightarrow> n = 31"
proof -
  have "bit (2 ^ 31 :: u32) n \<longleftrightarrow> n = 31" by (subst bit_exp_iff) auto
  moreover have "scheduledBit = 2 ^ 31" by (simp add: scheduledBit_def)
  ultimately show ?thesis by (simp only:)
qed

lemma bit_notify [simp]: "bit (w OR (ev OR scheduledBit)) n \<longleftrightarrow> bit w n \<or> bit ev n \<or> n = 31"
  by (simp add: bit_or_iff)

lemma sched_only: "w AND NOT scheduledBit = 0 \<Longrightarrow> bit w 31 \<Longrightarrow> w = scheduledBit"
  by (rule bit_word_eqI) (metis bit_0_eq bit_and_iff bit_not_iff bit_sched bot_apply bot_bool_def impossible_bit)

lemma task_inv_alt:
  "task_inv s \<longleftrightarrow> owners s = (if bit (word s) 31 then 1 else 0) \<and> (\<not> bit (word s) 31 \<longrightarrow> word s = 0) \<and>
     owed s = word s AND NOT scheduledBit"
  by (auto simp: task_inv_def sched_bit)

lemma task_inv_step:
  assumes "task_inv s" and "task_step s t"
  shows "task_inv t"
  using assms(2)
proof cases
  case (t_notify ev w submit)
  have ev: "\<not> bit ev 31" using t_notify(2) by (simp add: sched_bit)
  have "owed t = word t AND NOT scheduledBit"
    using assms(1) t_notify(1,3) ev
    by (intro bit_word_eqI) (auto simp: task_inv_alt notify_def bit_and_iff bit_or_iff bit_not_iff)
  then show ?thesis
    using assms(1) t_notify(1,3) by (auto simp: task_inv_alt notify_def owners_def sched_bit bit_or_iff)
next
  case t_submit
  then show ?thesis using assms(1) by (simp add: task_inv_alt owners_def)
next
  case (t_run w ev)
  then have "bit (word s) 31" using assms(1) by (auto simp: task_inv_alt owners_def split: if_splits)
  moreover have "owed t = word t AND NOT scheduledBit"
    using assms(1) t_run(1,3) by (intro bit_word_eqI) (auto simp: task_inv_alt run_take_def bit_and_iff bit_not_iff)
  moreover have "owners t = owners s" using t_run(1,2) by (simp add: owners_def)
  ultimately show ?thesis using assms(1) t_run(1,3) by (auto simp: task_inv_alt run_take_def)
next
  case (t_release es ev fs w again)
  then have "bit (word s) 31" using assms(1) by (auto simp: task_inv_alt owners_def split: if_splits)
  then show ?thesis using assms(1) t_release by (auto simp: task_inv_alt release_def owners_def split: if_splits)
next
  case (t_closed es ev fs)
  then show ?thesis using assms(1) by (simp add: task_inv_alt owners_def)
next
  case (t_take_over w)
  then show ?thesis using assms(1) by (auto simp: task_inv_alt takeOver_def owners_def split: if_splits)
next
  case (t_give_back w again)
  then have "bit (word s) 31" using assms(1) by (auto simp: task_inv_alt owners_def split: if_splits)
  moreover have "owners s = owners t + (if again then 0 else 1)" using t_give_back(1,2) by (simp add: owners_def)
  ultimately show ?thesis
    using assms(1) t_give_back(1,3) by (auto simp: task_inv_alt release_def split: if_splits)
qed

interpretation task_run: inductive_invariant task_start task_step task_inv
proof unfold_locales
  show "task_inv s" if "task_start s" for s using that by (simp add: task_start_def task_inv_def owners_def)
qed (rule task_inv_step)

section \<open>Properties\<close>

text \<open>
  C13. A connection has at most one task at a time, under every interleaving of notifications, rounds,
  releases and take-overs: never two rounds running, never a round running beside a queued task, and
  none of either while \<^verbatim>\<open>Detach\<close> has taken the task over or after the connection was closed in a round.
\<close>

theorem one_task_at_a_time:
  assumes "reach task_start task_step s"
  shows "queued s + submitting s + length (running s) + taken s + parked s \<le> 1"
  using task_run.reach_inv [OF assms] by (simp add: task_inv_def owners_def split: if_splits)

text \<open>
  C14. No event is lost: the events raised and not yet given to a round are exactly those in the state
  word, the next round is given all of them, and while there are any some owner of the task exists
  that submits it, runs it or releases it (or the connection is closed).
\<close>

theorem no_event_lost:
  assumes "reach task_start task_step s"
  shows "snd (run_take (word s)) = owed s \<and>
    (owed s \<noteq> 0 \<longrightarrow> submitting s = 1 \<or> queued s = 1 \<or> length (running s) = 1 \<or> taken s = 1 \<or> parked s = 1) \<and>
    (owed s \<noteq> 0 \<longrightarrow> snd (release (word s)))"
proof -
  have inv: "task_inv s" by (rule task_run.reach_inv [OF assms])
  have "bit (word s) 31" if "owed s \<noteq> 0" using that inv by (auto simp: task_inv_alt)
  then have "owners s = 1" if "owed s \<noteq> 0" using that inv by (simp add: task_inv_alt)
  moreover have "word s \<noteq> scheduledBit" if "owed s \<noteq> 0"
    using that inv by (auto simp: task_inv_alt)
  ultimately show ?thesis using inv by (auto simp: task_inv_alt run_take_def release_def owners_def)
qed

definition sys2 :: task_sys where
  "sys2 = \<lparr>word = 0x80000001, submitting = 0, queued = 0, running = [2], taken = 0, parked = 0, owed = 1\<rparr>"

text \<open>A write event is taken by a round, and a read event arrives during it.\<close>

lemma sys2_reach: "reach task_start task_step sys2"
proof -
  let ?s0 = "\<lparr>word = 0, submitting = 0, queued = 0, running = [], taken = 0, parked = 0, owed = 0\<rparr> :: task_sys"
  let ?s1 = "\<lparr>word = 0x80000002, submitting = 1, queued = 0, running = [], taken = 0, parked = 0, owed = 2\<rparr> :: task_sys"
  let ?s2 = "\<lparr>word = 0x80000002, submitting = 0, queued = 1, running = [], taken = 0, parked = 0, owed = 2\<rparr> :: task_sys"
  let ?s3 = "\<lparr>word = 0x80000000, submitting = 0, queued = 0, running = [2], taken = 0, parked = 0, owed = 0\<rparr> :: task_sys"
  have "reach task_start task_step ?s0" by (rule reach_init) (simp add: task_start_def)
  moreover have "task_step ?s0 ?s1"
    using t_notify [of 2 ?s0] by (simp add: notify_def scheduledBit_def)
  moreover have "task_step ?s1 ?s2" using t_submit [of ?s1] by simp
  moreover have "task_step ?s2 ?s3" using t_run [of ?s2] by (simp add: run_take_def scheduledBit_def)
  moreover have "task_step ?s3 sys2" using t_notify [of 1 ?s3 _ False] by (simp add: notify_def scheduledBit_def sys2_def)
  ultimately show ?thesis by (meson reach_step)
qed

theorem one_task_at_a_time_witness: "length (running sys2) = 1 \<and> queued sys2 = 0 \<and> taken sys2 = 0"
  using one_task_at_a_time [OF sys2_reach] by (simp add: sys2_def)

theorem no_event_lost_witness: "owed sys2 = 1 \<and> snd (run_take (word sys2)) = 1 \<and> snd (release (word sys2))"
  using no_event_lost [OF sys2_reach] by (simp add: sys2_def)

end
