(* ===== verification/ConnIO.thy ===== *)
theory ConnIO
  imports Bytepool ConnTask "HOL-Library.Sublist"
begin

text \<open>
  One connection (\<^verbatim>\<open>conn_unix.go\<close> and the round of its task in \<^verbatim>\<open>task_unix.go\<close>): writing with a send
  buffer, flushing, reading into the handler, pausing, deadlines, and the close protocol. The send
  and inbound buffers are buffers of the pool. The socket is a script of results, one per system
  call; the handler is a record of functions that give, from the state, the calls a callback makes on
  the connection and whether it panics. Five fields are history only: \<open>sock\<close>, the bytes the kernel
  has taken; \<open>accepted\<close>, the bytes \<^verbatim>\<open>Write\<close> and \<^verbatim>\<open>Writev\<close> reported as written; \<open>calls\<close>, the
  callbacks invoked; \<open>rcvd\<close> and \<open>eaten\<close>, the bytes read for the handler and those it consumed.
\<close>

section \<open>State\<close>

datatype errno = EAGAIN | EINTR | Errno nat

datatype conn_error = ErrClosed | EOF | ErrDeadlineExceeded | ErrServerClosed | ErrHandlerPanic | Sys errno

datatype callback = OnOpen | OnData bytes | OnWritable | OnResume | OnClosing conn_error | OnHalfClose
  | OnClose "conn_error option"

datatype rd_result = Readable bytes | Read_fails errno
datatype wr_result = Accepts nat | Write_fails errno

record conn =
  readPaused :: bool
  backlogged :: bool
  closing :: bool
  closed :: bool
  peerClosed :: bool
  readClosed :: bool
  inb :: buffer
  out :: buffer
  outPos :: nat
  closeErr :: "conn_error option"
  deadline :: int
  events :: u32
  cpool :: pool
  chit :: bool
  rds :: "rd_result list"
  wrs :: "wr_result list"
  sock :: bytes
  accepted :: bytes
  rcvd :: bytes
  eaten :: bytes
  calls :: "callback list"

text \<open>\<^verbatim>\<open>c.notify(ev)\<close>: the event is pending for the next round; \<open>ConnTask\<close> has the word itself.\<close>

definition conn_notify :: "u32 \<Rightarrow> conn \<Rightarrow> conn" where
  "conn_notify ev c = c\<lparr>events := events c OR ev\<rparr>"

definition sysWrite :: "bytes \<Rightarrow> conn \<Rightarrow> (int \<times> errno option) \<times> conn" where
  "sysWrite b c =
     (case wrs c of
        [] \<Rightarrow> ((-1, Some EAGAIN), c)
      | Accepts k # ws \<Rightarrow>
          let n = min k (length b) in ((int n, None), c\<lparr>wrs := ws, sock := sock c @ take n b\<rparr>)
      | Write_fails e # ws \<Rightarrow> ((-1, Some e), c\<lparr>wrs := ws\<rparr>))"

text \<open>\<^verbatim>\<open>sysRead\<close> into a buffer of \<open>room\<close> bytes: the bytes and the error; no bytes and no error is EOF.\<close>

definition sysRead :: "nat \<Rightarrow> conn \<Rightarrow> (bytes \<times> errno option) \<times> conn" where
  "sysRead room c =
     (case rds c of
        [] \<Rightarrow> (([], Some EAGAIN), c)
      | Readable bs # rs \<Rightarrow>
          ((take room bs, None), c\<lparr>rds := (if length bs > room then Readable (drop room bs) # rs else rs)\<rparr>)
      | Read_fails e # rs \<Rightarrow> (([], Some e), c\<lparr>rds := rs\<rparr>))"

section \<open>Writing\<close>

definition maxIovecs :: nat where "maxIovecs = 1024"
definition maxBacklog :: nat where "maxBacklog = 65536"

definition afterDirectWrite :: "int \<Rightarrow> errno option \<Rightarrow> int \<times> errno option" where
  "afterDirectWrite n err =
     (case err of
        None \<Rightarrow> (n, None)
      | Some e \<Rightarrow> if e \<noteq> EAGAIN \<and> e \<noteq> EINTR then (0, Some e) else (0, None))"

definition compactOut :: "nat \<Rightarrow> conn \<Rightarrow> conn" where
  "compactOut sz c =
     (if outPos c > 0 \<and> bcap (out c) - Len (out c) < sz \<and> outPos c \<ge> Len (out c) - outPos c
      then case Discard (outPos c) (out c) of
             Some b \<Rightarrow> c\<lparr>out := b, outPos := 0\<rparr>
           | None \<Rightarrow> c
      else c)"

definition out_write :: "bytes \<Rightarrow> conn \<Rightarrow> conn" where
  "out_write s c = (let (b, p) = Write (chit c) s (out c) (cpool c) in c\<lparr>out := b, cpool := p\<rparr>)"

definition conn_Write :: "bytes \<Rightarrow> conn \<Rightarrow> (nat \<times> conn_error option) \<times> conn" where
  "conn_Write b c =
     (if closed c \<or> closing c then ((0, Some ErrClosed), c)
      else if b = [] then ((0, None), c)
      else
        let direct = (Len (out c) = 0);
            ((wn, werr), c1) = (if direct then sysWrite b c else ((0, None), c));
            (n, err) = (if direct then afterDirectWrite wn werr else (0, None))
        in if direct \<and> (err \<noteq> None \<or> n = int (length b))
           then ((nat n, map_option Sys err), c1\<lparr>accepted := accepted c1 @ take (nat n) b\<rparr>)
           else
             let c2 = compactOut (length b - nat n) c1;
                 c3 = out_write (drop (nat n) b) c2;
                 c4 = c3\<lparr>backlogged := True, accepted := accepted c3 @ b\<rparr>
             in ((length b, None), conn_notify evWrite c4))"

text \<open>The loop of \<^verbatim>\<open>Writev\<close> that puts what the kernel did not take into the send buffer.\<close>

fun writev_rest :: "nat \<Rightarrow> bytes list \<Rightarrow> conn \<Rightarrow> conn" where
  "writev_rest n [] c = c"
| "writev_rest n (b # bs) c =
     (let skip = min n (length b) in writev_rest (n - skip) bs (out_write (drop skip b) c))"

definition conn_Writev :: "bytes list \<Rightarrow> conn \<Rightarrow> (nat \<times> conn_error option) \<times> conn" where
  "conn_Writev bs c =
     (if closed c \<or> closing c then ((0, Some ErrClosed), c)
      else
        let sz = sum_list (map length bs) in
        if sz = 0 then ((0, None), c)
        else
          let direct = (Len (out c) = 0);
              ((wn, werr), c1) =
                (if direct then sysWrite (concat (take (min (length bs) maxIovecs) bs)) c else ((0, None), c));
              (n, err) = (if direct then afterDirectWrite wn werr else (0, None))
          in if direct \<and> (err \<noteq> None \<or> n = int sz)
             then ((nat n, map_option Sys err), c1\<lparr>accepted := accepted c1 @ take (nat n) (concat bs)\<rparr>)
             else
               let c2 = compactOut (sz - nat n) c1;
                   c3 = writev_rest (nat n) bs c2;
                   c4 = c3\<lparr>backlogged := True, accepted := accepted c3 @ concat bs\<rparr>
               in ((sz, None), conn_notify evWrite c4))"

definition backlog :: "conn \<Rightarrow> nat" where
  "backlog c = Len (out c) - outPos c"

definition Writable :: "conn \<Rightarrow> bool" where
  "Writable c \<longleftrightarrow> \<not> backlogged c \<or> backlog c \<le> maxBacklog"

section \<open>Closing\<close>

definition closesNow :: "conn_error option \<Rightarrow> bool" where
  "closesNow err \<longleftrightarrow> err \<noteq> None \<and> err \<noteq> Some EOF"

definition requestClose :: "conn_error option \<Rightarrow> conn \<Rightarrow> conn" where
  "requestClose err c =
     conn_notify evClose
       (c\<lparr>closing := True, closeErr := (if err \<noteq> None \<and> \<not> closesNow (closeErr c) then err else closeErr c)\<rparr>)"

definition requestCloseOnEOF :: "conn \<Rightarrow> conn" where
  "requestCloseOnEOF c =
     conn_notify evClose (if \<not> closing c then c\<lparr>closing := True, closeErr := Some EOF\<rparr> else c)"

definition Close :: "conn \<Rightarrow> conn" where "Close c = requestClose None c"

definition PauseRead :: "conn \<Rightarrow> conn" where "PauseRead c = c\<lparr>readPaused := True\<rparr>"

definition ResumeRead :: "conn \<Rightarrow> conn" where
  "ResumeRead c = conn_notify (evRead OR evResume) (c\<lparr>readPaused := False\<rparr>)"

text \<open>\<^verbatim>\<open>SetDeadline\<close>: \<open>None\<close> is the zero time, \<open>Some d\<close> the time on the engine's clock; the call on the
  table (\<^verbatim>\<open>noteDeadline\<close>) is in \<open>FdTable\<close>.\<close>

definition SetDeadline :: "int option \<Rightarrow> conn \<Rightarrow> conn" where
  "SetDeadline t c = c\<lparr>deadline := (case t of None \<Rightarrow> 0 | Some d \<Rightarrow> max d 1)\<rparr>"

definition expiredBy :: "int \<Rightarrow> conn \<Rightarrow> bool" where
  "expiredBy now c \<longleftrightarrow> deadline c \<noteq> 0 \<and> deadline c \<le> now"

section \<open>The handler\<close>

datatype api = Api_Write bytes | Api_Writev "bytes list" | Api_Close | Api_PauseRead | Api_ResumeRead
  | Api_SetDeadline "int option"

fun api_call :: "api \<Rightarrow> conn \<Rightarrow> conn" where
  "api_call (Api_Write b) c = snd (conn_Write b c)"
| "api_call (Api_Writev bs) c = snd (conn_Writev bs c)"
| "api_call Api_Close c = Close c"
| "api_call Api_PauseRead c = PauseRead c"
| "api_call Api_ResumeRead c = ResumeRead c"
| "api_call (Api_SetDeadline t) c = SetDeadline t c"

text \<open>What a callback does: its calls on the connection, and whether it panics after them.\<close>

type_synonym script = "api list \<times> bool"

record handler =
  hOnOpen :: "conn \<Rightarrow> script"
  hOnData :: "bytes \<Rightarrow> conn \<Rightarrow> script \<times> int"
  hOnWritable :: "(conn \<Rightarrow> script) option"
  hOnResume :: "(conn \<Rightarrow> script) option"
  hOnClosing :: "(conn_error \<Rightarrow> conn \<Rightarrow> script) option"
  hOnHalfClose :: "(conn \<Rightarrow> script \<times> bool) option"
  hOnClose :: "conn_error option \<Rightarrow> conn \<Rightarrow> script"

record server_env =
  ReadBufferSize :: nat
  clockNow :: int
  watchOk :: bool
  draining :: bool

text \<open>A callback: \<open>Inl\<close> is a panic in the given state.\<close>

definition invoke :: "callback \<Rightarrow> script \<Rightarrow> conn \<Rightarrow> conn + conn" where
  "invoke cb sc c =
     (let c1 = fold api_call (fst sc) (c\<lparr>calls := calls c @ [cb]\<rparr>) in if snd sc then Inl c1 else Inr c1)"

fun and_then :: "conn + conn \<Rightarrow> (conn \<Rightarrow> conn + conn) \<Rightarrow> conn + conn" where
  "and_then (Inl c) f = Inl c"
| "and_then (Inr c) f = f c"

section \<open>A round of the task\<close>

definition release_out :: "conn \<Rightarrow> conn" where
  "release_out c = (let (b, p) = Release (out c) (cpool c) in c\<lparr>out := b, cpool := p\<rparr>)"

definition release_in :: "conn \<Rightarrow> conn" where
  "release_in c = (let (b, p) = Release (inb c) (cpool c) in c\<lparr>inb := b, cpool := p\<rparr>)"

text \<open>\<^verbatim>\<open>flush\<close>: whether the send buffer drained, whether the backlog came back down to \<^verbatim>\<open>maxBacklog\<close>, and the
  state.\<close>

definition flush :: "conn \<Rightarrow> (bool \<times> bool) \<times> conn" where
  "flush c =
     (if Len (out c) = 0 then ((False, False), c)
      else
        let bl = Len (out c) - outPos c;
            ((n, err), c1) = sysWrite (drop (outPos c) (Bytes (out c))) c
        in if err = Some EINTR then ((False, False), conn_notify evWrite c1)
           else if err \<noteq> None \<and> err \<noteq> Some EAGAIN then ((False, False), requestClose (map_option Sys err) c1)
           else
             let c2 = (if n > 0 then c1\<lparr>outPos := outPos c1 + nat n\<rparr> else c1);
                 writable = (n > 0 \<and> bl > maxBacklog \<and> bl - nat n \<le> maxBacklog);
                 drained = (outPos c2 = Len (out c2));
                 c3 = (if drained then (release_out c2)\<lparr>outPos := 0, backlogged := False\<rparr> else c2)
             in ((drained, writable), c3))"

definition onClosing :: "handler \<Rightarrow> conn_error \<Rightarrow> conn \<Rightarrow> conn + conn" where
  "onClosing h err c =
     (case hOnClosing h of
        Some f \<Rightarrow> if closing c then Inr c else invoke (OnClosing err) (f err c) c
      | None \<Rightarrow> Inr c)"

text \<open>\<^verbatim>\<open>halfClose\<close>: whether the connection is kept open. A panic of the callback counts as keeping nothing.\<close>

definition halfClose :: "handler \<Rightarrow> conn \<Rightarrow> (conn + conn) \<times> bool" where
  "halfClose h c =
     (case hOnHalfClose h of
        None \<Rightarrow> (Inr c, False)
      | Some f \<Rightarrow>
          if closing c then (Inr c, False)
          else case invoke OnHalfClose (fst (f c)) c of
                 Inl c1 \<Rightarrow> (Inl c1, False)
               | Inr c1 \<Rightarrow> if snd (f c) then (Inr (c1\<lparr>readClosed := True\<rparr>), True) else (Inr c1, False))"

text \<open>The buffer borrowed for one read goes back when the read is over, also by a panic.\<close>

definition with_read_buffer :: "nat \<Rightarrow> (conn \<Rightarrow> conn + conn) \<Rightarrow> conn \<Rightarrow> conn + conn" where
  "with_read_buffer sz body c =
     (let (b, p) = Get (chit c) (int sz) (cpool c);
          back = (\<lambda>c1. c1\<lparr>cpool := snd (Release b (cpool c1))\<rparr>)
      in map_sum back back (body (c\<lparr>cpool := p\<rparr>)))"

definition discardInbound :: "server_env \<Rightarrow> conn \<Rightarrow> conn" where
  "discardInbound env c =
     (case with_read_buffer (ReadBufferSize env) (\<lambda>c. Inr (snd (sysRead (ReadBufferSize env) c))) c of
        Inl c1 \<Rightarrow> c1 | Inr c1 \<Rightarrow> c1)"

definition conn_close :: "handler \<Rightarrow> server_env \<Rightarrow> conn_error option \<Rightarrow> conn \<Rightarrow> conn + conn" where
  "conn_close h env err c =
     (if closed c then Inr c
      else
        let c1 = (release_out (c\<lparr>closed := True\<rparr>))\<lparr>backlogged := False\<rparr>;
            c2 = release_in c1;
            c3 = (if err \<noteq> Some EOF then discardInbound env c2 else c2)
        in invoke (OnClose err) (hOnClose h err c3) c3)"

definition closeIfRequested :: "handler \<Rightarrow> server_env \<Rightarrow> conn \<Rightarrow> conn + conn" where
  "closeIfRequested h env c =
     (if closing c \<and> (closesNow (closeErr c) \<or> \<not> Len (out c) > 0) then conn_close h env (closeErr c) c else Inr c)"

definition abandon :: "conn \<Rightarrow> conn" where "abandon c = c\<lparr>closed := True\<rparr>"

definition read_data :: "handler \<Rightarrow> nat \<Rightarrow> bytes \<Rightarrow> conn \<Rightarrow> conn + conn" where
  "read_data h pending bs c =
     (let (data, b1, p1) = Join (chit c) (replicate pending 0 @ bs) pending (inb c) (cpool c);
          c1 = c\<lparr>inb := b1, cpool := p1, rcvd := rcvd c @ bs\<rparr>;
          (sc, consumed) = hOnData h data c1
      in and_then (invoke (OnData data) sc c1)
           (\<lambda>c2. case Keep (chit c2) data consumed (inb c2) (cpool c2) of
              Some (b2, p2) \<Rightarrow>
                Inr (c2\<lparr>inb := b2, cpool := p2,
                        eaten := eaten c2 @ take (nat (min (max consumed 0) (int (length data)))) data\<rparr>)
            | None \<Rightarrow> Inl c2))"

definition read_once :: "handler \<Rightarrow> nat \<Rightarrow> conn \<Rightarrow> conn + conn" where
  "read_once h sz c =
     (let pending = (if Len (inb c) \<le> sz div 2 then Len (inb c) else 0);
          ((bs, err), c1) = sysRead (sz - pending) c
      in if bs = [] then
           (case err of
              Some EAGAIN \<Rightarrow> Inr (c1\<lparr>peerClosed := False\<rparr>)
            | Some EINTR \<Rightarrow> Inr (conn_notify evRead c1)
            | None \<Rightarrow>
                let (r, kept) = halfClose h c1 in
                and_then r (\<lambda>c2. if kept then Inr c2
                  else and_then (onClosing h EOF c2) (\<lambda>c3. Inr (requestCloseOnEOF c3)))
            | Some e \<Rightarrow> Inr (requestClose (Some (Sys e)) c1))
         else
           let c2 = (if pending + length bs = sz \<or> peerClosed c1 then conn_notify evRead c1 else c1)
           in if closing c2 then Inr c2 else read_data h pending bs c2)"

definition conn_read :: "handler \<Rightarrow> server_env \<Rightarrow> conn \<Rightarrow> conn + conn" where
  "conn_read h env c = with_read_buffer (ReadBufferSize env) (read_once h (ReadBufferSize env)) c"

text \<open>The round after the connection is open, in the order of \<^verbatim>\<open>handle\<close>.\<close>

definition handle_writable :: "handler \<Rightarrow> bool \<Rightarrow> conn \<Rightarrow> conn + conn" where
  "handle_writable h writable c =
     (case hOnWritable h of Some f \<Rightarrow> if writable then invoke OnWritable (f c) c else Inr c | None \<Rightarrow> Inr c)"

definition handle_resume :: "handler \<Rightarrow> u32 \<Rightarrow> conn \<Rightarrow> conn + conn" where
  "handle_resume h ev c =
     (if ev AND evResume \<noteq> 0 \<and> \<not> readPaused c
      then case hOnResume h of Some f \<Rightarrow> invoke OnResume (f c) c | None \<Rightarrow> Inr c
      else Inr c)"

definition handle_read :: "handler \<Rightarrow> server_env \<Rightarrow> u32 \<Rightarrow> conn \<Rightarrow> conn + conn" where
  "handle_read h env ev c =
     (if ev AND evRead \<noteq> 0 \<and> \<not> readClosed c \<and> \<not> readPaused c \<and> Writable c then conn_read h env c else Inr c)"

definition handle_expiry :: "handler \<Rightarrow> server_env \<Rightarrow> u32 \<Rightarrow> conn \<Rightarrow> conn + conn" where
  "handle_expiry h env ev c =
     (let err = (if ev AND evShutdown \<noteq> 0 then Some ErrServerClosed
                 else if ev AND evExpired \<noteq> 0 \<and> expiredBy (clockNow env) c then Some ErrDeadlineExceeded
                 else None)
      in case err of
           None \<Rightarrow> Inr c
         | Some e \<Rightarrow> and_then (onClosing h e c) (\<lambda>c1. Inr (requestClose (Some e) c1)))"

definition handle_rest :: "handler \<Rightarrow> server_env \<Rightarrow> u32 \<Rightarrow> conn \<Rightarrow> conn + conn" where
  "handle_rest h env ev c =
     (let ((drained, writable), c1) =
            (if ev AND (evWrite OR evHup) \<noteq> 0 \<and> backlogged c then flush c else ((False, False), c));
          ev1 = (if writable then ev OR evRead else ev)
      in and_then (handle_writable h writable c1) (\<lambda>c2.
         and_then (handle_resume h ev1 c2) (\<lambda>c3.
         and_then (handle_read h env ev1 c3) (\<lambda>c4.
         and_then (handle_expiry h env ev1 c4) (\<lambda>c5.
           if drained \<or> ev1 AND evClose \<noteq> 0 then closeIfRequested h env c5 else Inr c5)))))"

definition handle :: "handler \<Rightarrow> server_env \<Rightarrow> u32 \<Rightarrow> conn \<Rightarrow> conn + conn" where
  "handle h env ev c =
     (let c0 = (if ev AND evHup \<noteq> 0 then c\<lparr>peerClosed := True\<rparr> else c)
      in if ev AND evOpen \<noteq> 0 then
           if \<not> watchOk env then Inr (abandon c0)
           else
             let c1 = (if draining env then conn_notify evShutdown c0 else c0)
             in and_then (invoke OnOpen (hOnOpen h c1) c1) (handle_rest h env ev)
         else handle_rest h env ev c0)"

definition state_of :: "conn + conn \<Rightarrow> conn" where
  "state_of r = (case r of Inl c \<Rightarrow> c | Inr c \<Rightarrow> c)"

text \<open>\<^verbatim>\<open>run\<close>: the events are taken, and a panic closes the connection.\<close>

definition conn_run :: "handler \<Rightarrow> server_env \<Rightarrow> conn \<Rightarrow> conn" where
  "conn_run h env c =
     (case handle h env (events c) (c\<lparr>events := 0\<rparr>) of
        Inr c1 \<Rightarrow> c1
      | Inl c1 \<Rightarrow> state_of (conn_close h env (Some ErrHandlerPanic) c1))"

text \<open>\<^verbatim>\<open>Detach\<close>, once it has taken over the task: the inbound bytes go with the connection, what is still
  to be sent is written in blocking mode (\<open>ok\<close> is whether that succeeds).\<close>

definition Detach :: "bool \<Rightarrow> conn \<Rightarrow> (conn_error + bytes) \<times> conn" where
  "Detach ok c =
     (if closed c \<or> closing c then (Inl ErrClosed, c)
      else
        let pend = drop (outPos c) (Bytes (out c));
            given = Bytes (inb c);
            c1 = c\<lparr>closed := True, out := nil_buffer, outPos := 0, backlogged := False, inb := nil_buffer\<rparr>
        in if pend \<noteq> [] \<and> \<not> ok then (Inl (Sys (Errno 0)), c1)
           else (Inr given, c1\<lparr>sock := sock c1 @ pend\<rparr>))"

section \<open>Frames\<close>

lemma sysWrite_frame:
  obtains n w e where "sysWrite b c = ((if e = None then int n else -1, e), c\<lparr>wrs := w, sock := sock c @ take n b\<rparr>)"
    "n \<le> length b" "e \<noteq> None \<longrightarrow> n = 0"
proof (cases "wrs c")
  case Nil
  then show thesis by (intro that [of "Some EAGAIN" 0 "[]"]) (simp_all add: sysWrite_def)
next
  case (Cons r ws)
  then show thesis
  proof (cases r)
    case (Accepts k)
    with Cons show thesis by (intro that [of None "min k (length b)" ws]) (simp_all add: sysWrite_def Let_def)
  next
    case (Write_fails e)
    with Cons show thesis by (intro that [of "Some e" 0 ws]) (simp_all add: sysWrite_def)
  qed
qed

lemma sysRead_frame: "snd (sysRead room c) = c\<lparr>rds := rds (snd (sysRead room c))\<rparr>"
  by (simp add: sysRead_def split: list.splits rd_result.splits)

lemma compactOut_frame:
  obtains b p where "compactOut sz c = c\<lparr>out := b, outPos := p\<rparr>"
    "outPos c \<le> Len (out c) \<longrightarrow> p \<le> Len b \<and> drop p (Bytes b) = drop (outPos c) (Bytes (out c))"
proof (cases "Discard (outPos c) (out c) = None \<or>
    \<not> (outPos c > 0 \<and> bcap (out c) - Len (out c) < sz \<and> outPos c \<ge> Len (out c) - outPos c)")
  case True
  then have "compactOut sz c = c\<lparr>out := out c, outPos := outPos c\<rparr>" by (auto simp: compactOut_def)
  then show thesis by (rule that) simp
next
  case False
  then obtain b where b: "Discard (outPos c) (out c) = Some b" by auto
  with False have "compactOut sz c = c\<lparr>out := b, outPos := 0\<rparr>" by (simp add: compactOut_def)
  moreover have "Bytes b = drop (outPos c) (Bytes (out c))" using b by (auto simp: Discard_def Bytes_def split: if_splits)
  ultimately show thesis by (intro that [where b = b and p = 0]) simp_all
qed

lemma out_write_frame:
  obtains b q where "out_write s c = c\<lparr>out := b, cpool := q\<rparr>" "Bytes b = Bytes (out c) @ s"
proof -
  obtain b q where "Write (chit c) s (out c) (cpool c) = (b, q)" by fastforce
  then show thesis
    using bp.contents_put [of "chit c" s "out c" "cpool c"] by (intro that [where b = b and q = q]) (simp_all add: out_write_def)
qed

lemma writev_rest_frame:
  obtains b q where "writev_rest n bs c = c\<lparr>out := b, cpool := q\<rparr>" "Bytes b = Bytes (out c) @ drop n (concat bs)"
proof (induction bs arbitrary: n c thesis)
  case Nil
  show thesis by (rule Nil [where b = "out c" and q = "cpool c"]) simp_all
next
  case (Cons s bs)
  let ?skip = "min n (length s)"
  obtain b q where w: "out_write (drop ?skip s) c = c\<lparr>out := b, cpool := q\<rparr>" "Bytes b = Bytes (out c) @ drop ?skip s"
    by (rule out_write_frame)
  obtain b' q' where r: "writev_rest (n - ?skip) bs (c\<lparr>out := b, cpool := q\<rparr>) = c\<lparr>out := b, cpool := q, out := b', cpool := q'\<rparr>"
    "Bytes b' = Bytes b @ drop (n - ?skip) (concat bs)"
    using Cons.IH [of "n - ?skip" "c\<lparr>out := b, cpool := q\<rparr>"] by auto
  have "drop n (s @ concat bs) = drop ?skip s @ drop (n - ?skip) (concat bs)" by (auto simp: min_def)
  with w r show thesis by (intro Cons.prems [where b = b' and q = q']) (simp_all add: Let_def)
qed

section \<open>What every call keeps\<close>

text \<open>The send side: what the kernel has taken, then what the send buffer still holds, is what was accepted.\<close>

definition out_ok :: "conn \<Rightarrow> bool" where
  "out_ok c \<longleftrightarrow> prefix (sock c) (accepted c) \<and>
     (\<not> closed c \<longrightarrow> sock c @ drop (outPos c) (Bytes (out c)) = accepted c \<and>
        backlogged c = (outPos c < Len (out c)) \<and> (outPos c < Len (out c) \<or> outPos c = 0 \<and> Len (out c) = 0))"

definition in_ok :: "conn \<Rightarrow> bool" where
  "in_ok c \<longleftrightarrow> (\<not> closed c \<longrightarrow> rcvd c = eaten c @ Bytes (inb c))"

text \<open>A call on the connection from anywhere: it invokes no callback and leaves the inbound side alone.\<close>

definition quiet :: "conn \<Rightarrow> conn \<Rightarrow> bool" where
  "quiet c c' \<longleftrightarrow>
     calls c' = calls c \<and> closed c' = closed c \<and> inb c' = inb c \<and> rcvd c' = rcvd c \<and> eaten c' = eaten c \<and>
     (closing c \<longrightarrow> closing c') \<and> (out_ok c \<longrightarrow> out_ok c') \<and>
     (closed c \<or> closing c \<longrightarrow> sock c' = sock c \<and> accepted c' = accepted c) \<and>
     (events c' AND evOpen = events c AND evOpen)"

lemma conn_quiet_refl [simp]: "quiet c c"
  by (simp add: quiet_def)

lemma conn_quiet_trans: "quiet a b \<Longrightarrow> quiet b c \<Longrightarrow> quiet a c"
  by (auto simp: quiet_def)

lemma or_evOpen [simp]: "ev AND evOpen = 0 \<Longrightarrow> (w OR ev) AND evOpen = w AND evOpen"
  by (simp add: bit.conj_disj_distrib2)

lemma ev_not_open [simp]: "evRead AND evOpen = 0" "evWrite AND evOpen = 0" "evHup AND evOpen = 0" "evClose AND evOpen = 0"
  "evExpired AND evOpen = 0" "evShutdown AND evOpen = 0" "(evRead OR evResume) AND evOpen = 0"
  by (simp_all add: event_defs)

lemma quiet_notify: "ev AND evOpen = 0 \<Longrightarrow> quiet c (conn_notify ev c)"
  by (simp add: quiet_def conn_notify_def out_ok_def)

text \<open>The three ways a write ends: refused or empty, settled by the kernel, or kept in part in the send buffer.\<close>

definition wrote :: "conn \<Rightarrow> bytes \<Rightarrow> conn \<Rightarrow> bool" where
  "wrote c b c' \<longleftrightarrow>
     c' = c \<or>
     \<not> closed c \<and> \<not> closing c \<and>
       (\<exists>w n. Len (out c) = 0 \<and> c' = c\<lparr>wrs := w, sock := sock c @ take n b, accepted := accepted c @ take n b\<rparr>) \<or>
     \<not> closed c \<and> \<not> closing c \<and>
       (\<exists>w n sz b' q c2. n < length b \<and> (n > 0 \<longrightarrow> Len (out c) = 0) \<and>
          c2 = compactOut sz (c\<lparr>wrs := w, sock := sock c @ take n b\<rparr>) \<and> Bytes b' = Bytes (out c2) @ drop n b \<and>
          c' = conn_notify evWrite (c2\<lparr>out := b', cpool := q, backlogged := True, accepted := accepted c2 @ b\<rparr>))"

lemma wrote_quiet:
  assumes "wrote c b c'"
  shows "quiet c c'"
  using assms unfolding wrote_def
proof (elim disjE conjE exE)
  fix w n assume "\<not> closed c" "\<not> closing c" "Len (out c) = 0"
    "c' = c\<lparr>wrs := w, sock := sock c @ take n b, accepted := accepted c @ take n b\<rparr>"
  then show ?thesis by (auto simp: quiet_def out_ok_def Len_def Bytes_def)
next
  fix w n sz b' q c2
  assume a: "\<not> closed c" "\<not> closing c" "n < length b" "n > 0 \<longrightarrow> Len (out c) = 0"
    "c2 = compactOut sz (c\<lparr>wrs := w, sock := sock c @ take n b\<rparr>)" "Bytes b' = Bytes (out c2) @ drop n b"
    "c' = conn_notify evWrite (c2\<lparr>out := b', cpool := q, backlogged := True, accepted := accepted c2 @ b\<rparr>)"
  obtain bo p where c2: "c2 = c\<lparr>wrs := w, sock := sock c @ take n b, out := bo, outPos := p\<rparr>"
    "outPos c \<le> Len (out c) \<longrightarrow> p \<le> Len bo \<and> drop p (Bytes bo) = drop (outPos c) (Bytes (out c))"
  proof -
    obtain bo p where "compactOut sz (c\<lparr>wrs := w, sock := sock c @ take n b\<rparr>) =
        c\<lparr>wrs := w, sock := sock c @ take n b\<rparr>\<lparr>out := bo, outPos := p\<rparr>"
      "outPos (c\<lparr>wrs := w, sock := sock c @ take n b\<rparr>) \<le> Len (out (c\<lparr>wrs := w, sock := sock c @ take n b\<rparr>)) \<longrightarrow>
        p \<le> Len bo \<and> drop p (Bytes bo) = drop (outPos (c\<lparr>wrs := w, sock := sock c @ take n b\<rparr>))
          (Bytes (out (c\<lparr>wrs := w, sock := sock c @ take n b\<rparr>)))"
      by (rule compactOut_frame)
    then show thesis by (intro that [where bo = bo and p = p]) (simp_all add: a(5))
  qed
  let ?c3 = "c\<lparr>wrs := w, sock := sock c @ take n b, outPos := p, out := b', cpool := q, backlogged := True,
    accepted := accepted c @ b\<rparr>"
  have "out_ok ?c3" if ok: "out_ok c"
  proof -
    have "outPos c \<le> Len (out c)" using ok a(1) by (auto simp: out_ok_def)
    then have p: "p \<le> Len bo" "drop p (Bytes bo) = drop (outPos c) (Bytes (out c))" using c2(2) by simp_all
    have b': "Bytes b' = Bytes bo @ drop n b" using a(6) c2(1) by simp
    then have "p < Len b'" using p(1) a(3) by (simp add: Len_def Bytes_def)
    moreover have "sock c @ take n b @ drop p (Bytes b') = accepted c @ b"
    proof (cases "n = 0")
      case True
      then show ?thesis using ok a(1) p b' by (simp add: out_ok_def Len_def Bytes_def flip: append.assoc)
    next
      case False
      then have "drop p (Bytes bo) = []" using a(4) p(2) by (simp add: Len_def Bytes_def)
      moreover have "sock c = accepted c" using False a(1,4) ok by (simp add: out_ok_def Len_def Bytes_def)
      ultimately show ?thesis using p(1) b' by (simp add: Len_def Bytes_def)
    qed
    moreover from this have "prefix (sock c @ take n b) (accepted c @ b)" by (metis append.assoc prefixI)
    ultimately show ?thesis using ok a(1) by (auto simp: out_ok_def)
  qed
  then have "quiet c ?c3" using a(1,2) by (simp add: quiet_def)
  moreover have "c' = conn_notify evWrite ?c3" using a(7) c2(1) by simp
  ultimately show ?thesis using quiet_notify [of evWrite] conn_quiet_trans by simp
qed simp

lemma afterDirectWrite_eq:
  "e \<noteq> None \<longrightarrow> n = 0 \<Longrightarrow> afterDirectWrite (if e = None then int n else -1) e =
     (int n, if e = Some EAGAIN \<or> e = Some EINTR then None else e)"
  by (auto simp: afterDirectWrite_def split: option.splits)

lemma Write_wrote: "wrote c b (snd (conn_Write b c))"
proof (cases "closed c \<or> closing c \<or> b = []")
  case True
  then show ?thesis by (auto simp: conn_Write_def wrote_def)
next
  case False
  show ?thesis
  proof (cases "Len (out c) = 0")
    case True
    obtain n w e where s: "sysWrite b c = ((if e = None then int n else -1, e), c\<lparr>wrs := w, sock := sock c @ take n b\<rparr>)"
      "n \<le> length b" "e \<noteq> None \<longrightarrow> n = 0" by (rule sysWrite_frame [of b c])
    let ?c1 = "c\<lparr>wrs := w, sock := sock c @ take n b\<rparr>"
    let ?err = "if e = Some EAGAIN \<or> e = Some EINTR then None else e"
    show ?thesis
    proof (cases "?err \<noteq> None \<or> n = length b")
      case fin: True
      then have "snd (conn_Write b c) = ?c1\<lparr>accepted := accepted c @ take n b\<rparr>"
        using False True s(1) afterDirectWrite_eq [OF s(3)] by (simp add: conn_Write_def Let_def)
      with True False show ?thesis unfolding wrote_def by auto
    next
      case part: False
      let ?c2 = "compactOut (length b - n) ?c1"
      obtain b' q where o: "out_write (drop n b) ?c2 = ?c2\<lparr>out := b', cpool := q\<rparr>" "Bytes b' = Bytes (out ?c2) @ drop n b"
        by (rule out_write_frame)
      have "snd (conn_Write b c) =
          conn_notify evWrite (?c2\<lparr>out := b', cpool := q, backlogged := True, accepted := accepted ?c2 @ b\<rparr>)"
        using False True s(1) afterDirectWrite_eq [OF s(3)] part o(1) by (simp add: conn_Write_def Let_def)
      moreover have "n < length b" using part s(2) by auto
      ultimately show ?thesis using True False o(2) unfolding wrote_def by blast
    qed
  next
    case len: False
    let ?c1 = "c\<lparr>wrs := wrs c, sock := sock c @ take 0 b\<rparr>"
    let ?c2 = "compactOut (length b) ?c1"
    obtain b' q where o: "out_write (drop 0 b) ?c2 = ?c2\<lparr>out := b', cpool := q\<rparr>" "Bytes b' = Bytes (out ?c2) @ drop 0 b"
      by (rule out_write_frame)
    have "snd (conn_Write b c) =
        conn_notify evWrite (?c2\<lparr>out := b', cpool := q, backlogged := True, accepted := accepted ?c2 @ b\<rparr>)"
      using False len o(1) by (simp add: conn_Write_def Let_def)
    moreover have "0 < length b" using False by simp
    ultimately show ?thesis using False o(2) unfolding wrote_def by blast
  qed
qed

lemma sum_length_concat: "sum_list (map length bs) = length (concat bs)"
  by (induction bs) simp_all

lemma take_concat_take:
  assumes "n \<le> length (concat (take k bs))"
  shows "take n (concat (take k bs)) = take n (concat bs)"
proof -
  have "concat bs = concat (take k bs) @ concat (drop k bs)" by (metis append_take_drop_id concat_append)
  with assms show ?thesis by simp
qed

lemma Writev_wrote: "wrote c (concat bs) (snd (conn_Writev bs c))"
proof (cases "closed c \<or> closing c \<or> concat bs = []")
  case True
  then have "closed c \<or> closing c \<or> sum_list (map length bs) = 0" unfolding sum_length_concat by auto
  then show ?thesis by (auto simp: conn_Writev_def wrote_def)
next
  case False
  let ?b = "concat bs" and ?d = "concat (take (min (length bs) maxIovecs) bs)"
  show ?thesis
  proof (cases "Len (out c) = 0")
    case True
    obtain n w e where s: "sysWrite ?d c = ((if e = None then int n else -1, e), c\<lparr>wrs := w, sock := sock c @ take n ?d\<rparr>)"
      "n \<le> length ?d" "e \<noteq> None \<longrightarrow> n = 0" by (rule sysWrite_frame [of ?d c])
    have d: "take n ?d = take n ?b" using s(2) by (rule take_concat_take)
    have nb: "n \<le> length ?b" using s(2) d by (metis length_take min.absorb2 min.cobounded1)
    let ?c1 = "c\<lparr>wrs := w, sock := sock c @ take n ?b\<rparr>"
    let ?err = "if e = Some EAGAIN \<or> e = Some EINTR then None else e"
    note sw = s(1) [unfolded d]
    show ?thesis
    proof (cases "?err \<noteq> None \<or> n = length ?b")
      case fin: True
      then have "snd (conn_Writev bs c) = ?c1\<lparr>accepted := accepted c @ take n ?b\<rparr>"
        using False True sw afterDirectWrite_eq [OF s(3)]
        by (simp add: conn_Writev_def Let_def sum_length_concat del: concat_eq_Nil_conv)
      with True False show ?thesis unfolding wrote_def by auto
    next
      case part: False
      let ?c2 = "compactOut (length ?b - n) ?c1"
      obtain b' q where o: "writev_rest n bs ?c2 = ?c2\<lparr>out := b', cpool := q\<rparr>" "Bytes b' = Bytes (out ?c2) @ drop n ?b"
        by (rule writev_rest_frame)
      have "snd (conn_Writev bs c) =
          conn_notify evWrite (?c2\<lparr>out := b', cpool := q, backlogged := True, accepted := accepted ?c2 @ ?b\<rparr>)"
        using False True sw afterDirectWrite_eq [OF s(3)] part o(1)
        by (simp add: conn_Writev_def Let_def sum_length_concat del: concat_eq_Nil_conv)
      moreover have "n < length ?b" using part nb by auto
      ultimately show ?thesis using True False o(2) unfolding wrote_def by blast
    qed
  next
    case len: False
    let ?c1 = "c\<lparr>wrs := wrs c, sock := sock c @ take 0 ?b\<rparr>"
    let ?c2 = "compactOut (length ?b) ?c1"
    obtain b' q where o: "writev_rest 0 bs ?c2 = ?c2\<lparr>out := b', cpool := q\<rparr>" "Bytes b' = Bytes (out ?c2) @ drop 0 ?b"
      by (rule writev_rest_frame)
    have "snd (conn_Writev bs c) =
        conn_notify evWrite (?c2\<lparr>out := b', cpool := q, backlogged := True, accepted := accepted ?c2 @ ?b\<rparr>)"
      using False len o(1) by (simp add: conn_Writev_def Let_def sum_length_concat del: concat_eq_Nil_conv)
    moreover have "0 < length ?b" using False by (simp del: concat_eq_Nil_conv)
    ultimately show ?thesis using False o(2) unfolding wrote_def by blast
  qed
qed

lemma quiet_update:
  "quiet c (c\<lparr>closing := True, closeErr := e\<rparr>)" "quiet c (c\<lparr>readPaused := b\<rparr>)" "quiet c (c\<lparr>deadline := d\<rparr>)"
  "quiet c (c\<lparr>peerClosed := b\<rparr>)" "quiet c (c\<lparr>rds := r\<rparr>)" "quiet c (c\<lparr>cpool := p\<rparr>)" "quiet c (c\<lparr>readClosed := b\<rparr>)"
  by (simp_all add: quiet_def out_ok_def)

lemma quiet_requestClose: "quiet c (requestClose err c)"
  unfolding requestClose_def by (rule conn_quiet_trans [OF quiet_update(1) quiet_notify]) simp

lemma quiet_requestCloseOnEOF: "quiet c (requestCloseOnEOF c)"
  unfolding requestCloseOnEOF_def
  by (cases "closing c") (auto intro: conn_quiet_trans [OF quiet_update(1) quiet_notify] quiet_notify)

lemma quiet_api: "quiet c (api_call a c)"
proof (cases a)
  case Api_ResumeRead
  then show ?thesis
    using conn_quiet_trans [OF quiet_update(2) quiet_notify [of "evRead OR evResume"]] by (simp add: ResumeRead_def)
qed (simp_all add: wrote_quiet [OF Write_wrote] wrote_quiet [OF Writev_wrote] Close_def quiet_requestClose PauseRead_def
    SetDeadline_def quiet_update)

lemma quiet_script: "quiet c (fold api_call as c)"
  by (induction as arbitrary: c) (auto intro: conn_quiet_trans quiet_api)

section \<open>What a round keeps\<close>

fun is_mid :: "callback \<Rightarrow> bool" where
  "is_mid OnOpen = False"
| "is_mid (OnClose e) = False"
| "is_mid _ = True"

text \<open>A part of a round between its opening and its close: the callbacks it adds are neither \<^verbatim>\<open>OnOpen\<close>
  nor \<^verbatim>\<open>OnClose\<close>, none of them is \<^verbatim>\<open>OnData\<close> once a close has been requested.\<close>

definition mid :: "conn \<Rightarrow> conn + conn \<Rightarrow> bool" where
  "mid c r \<longleftrightarrow>
     (\<exists>new. calls (state_of r) = calls c @ new \<and> list_all is_mid new \<and>
        (closing c \<longrightarrow> list_all (\<lambda>cb. \<forall>d. cb \<noteq> OnData d) new)) \<and>
     closed (state_of r) = closed c \<and> (closing c \<longrightarrow> closing (state_of r)) \<and>
     (\<not> closed c \<and> out_ok c \<longrightarrow> out_ok (state_of r)) \<and> (\<forall>c'. r = Inr c' \<longrightarrow> in_ok c \<longrightarrow> in_ok c') \<and>
     events (state_of r) AND evOpen = events c AND evOpen"

lemma state_of_simps [simp]: "state_of (Inl c) = c" "state_of (Inr c) = c"
  by (simp_all add: state_of_def)

lemma state_of_invoke: "state_of (invoke cb sc c) = fold api_call (fst sc) (c\<lparr>calls := calls c @ [cb]\<rparr>)"
  by (simp add: invoke_def Let_def)

lemma mid_quiet: "quiet c c' \<Longrightarrow> mid c (Inr c')"
  by (auto simp: mid_def quiet_def in_ok_def)

lemma mid_refl [simp]: "mid c (Inr c)"
  by (rule mid_quiet) simp

lemma mid_trans:
  assumes "mid a (Inr b)" and "mid b r"
  shows "mid a r"
proof -
  obtain n1 where n1: "calls b = calls a @ n1" "list_all is_mid n1" "closing a \<longrightarrow> list_all (\<lambda>cb. \<forall>d. cb \<noteq> OnData d) n1"
    using assms(1) by (auto simp: mid_def)
  obtain n2 where n2: "calls (state_of r) = calls b @ n2" "list_all is_mid n2" "closing b \<longrightarrow> list_all (\<lambda>cb. \<forall>d. cb \<noteq> OnData d) n2"
    using assms(2) by (auto simp: mid_def)
  have "\<exists>new. calls (state_of r) = calls a @ new \<and> list_all is_mid new \<and>
      (closing a \<longrightarrow> list_all (\<lambda>cb. \<forall>d. cb \<noteq> OnData d) new)"
    using n1 n2 assms(1) by (intro exI [of _ "n1 @ n2"]) (simp add: mid_def)
  with assms show ?thesis unfolding mid_def state_of_simps by (intro conjI) auto
qed

lemma mid_and_then:
  assumes "mid c r" and "\<And>c1. r = Inr c1 \<Longrightarrow> mid c1 (f c1)"
  shows "mid c (and_then r f)"
proof (cases r)
  case (Inl c1)
  with assms(1) show ?thesis by simp
next
  case (Inr c1)
  with assms mid_trans show ?thesis by simp
qed

lemma mid_invoke:
  assumes "is_mid cb" and "\<And>d. cb = OnData d \<Longrightarrow> \<not> closing c"
  shows "mid c (invoke cb sc c)"
proof -
  let ?c0 = "c\<lparr>calls := calls c @ [cb]\<rparr>"
  have q: "quiet ?c0 (fold api_call (fst sc) ?c0)" by (rule quiet_script)
  have o: "out_ok ?c0 = out_ok c" by (simp add: out_ok_def)
  have "mid c (Inr (fold api_call (fst sc) ?c0))"
    using q o assms unfolding mid_def quiet_def in_ok_def by auto
  then show ?thesis by (auto simp: invoke_def Let_def mid_def)
qed

lemma mid_onClosing: "mid c (onClosing h e c)"
  by (auto simp: onClosing_def split: option.splits intro: mid_invoke)

lemma mid_halfClose: "mid c (fst (halfClose h c))"
proof (cases "hOnHalfClose h")
  case (Some f)
  have "mid c (invoke OnHalfClose (fst (f c)) c)" by (rule mid_invoke) simp_all
  with Some show ?thesis
    using mid_trans [OF _ mid_quiet [OF quiet_update(7)]] by (auto simp: halfClose_def split: sum.splits)
qed (simp add: halfClose_def)

lemma mid_with_read_buffer:
  assumes "\<And>p. mid (c\<lparr>cpool := p\<rparr>) (body (c\<lparr>cpool := p\<rparr>))"
  shows "mid c (with_read_buffer sz body c)"
proof -
  obtain b p where g: "Get (chit c) (int sz) (cpool c) = (b, p)" by fastforce
  have m: "mid c (body (c\<lparr>cpool := p\<rparr>))" using mid_trans [OF mid_quiet [OF quiet_update(6)] assms] .
  let ?giv = "\<lambda>c1. c1\<lparr>cpool := snd (Release b (cpool c1))\<rparr>"
  have "mid c (map_sum ?giv ?giv r)" if "mid c r" for r
    using that by (cases r) (auto simp: mid_def out_ok_def in_ok_def)
  from this [OF m] g show ?thesis by (simp add: with_read_buffer_def Let_def)
qed

lemma mid_read_data:
  assumes "\<not> closing c" and "pending = Len (inb c) \<or> pending = 0"
  shows "mid c (read_data h pending bs c)"
proof -
  obtain data b1 p1 where j: "Join (chit c) (replicate pending 0 @ bs) pending (inb c) (cpool c) = (data, b1, p1)"
    by (metis prod_cases3)
  define c1 where "c1 = c\<lparr>inb := b1, cpool := p1, rcvd := rcvd c @ bs\<rparr>"
  obtain sc consumed where d: "hOnData h data c1 = (sc, consumed)" by fastforce
  define k where "k = nat (min (max consumed 0) (int (length data)))"
  have q: "quiet (c1\<lparr>calls := calls c1 @ [OnData data]\<rparr>) (fold api_call (fst sc) (c1\<lparr>calls := calls c1 @ [OnData data]\<rparr>))"
    by (rule quiet_script)
  let ?c2 = "fold api_call (fst sc) (c1\<lparr>calls := calls c1 @ [OnData data]\<rparr>)"
  have f: "calls ?c2 = calls c @ [OnData data]" "closed ?c2 = closed c" "inb ?c2 = b1" "rcvd ?c2 = rcvd c @ bs"
    "eaten ?c2 = eaten c" "out_ok c \<longrightarrow> out_ok ?c2" "events ?c2 AND evOpen = events c AND evOpen"
    using q by (simp_all add: quiet_def c1_def out_ok_def)
  obtain b2 p2 where k: "data = Bytes (inb c) @ bs" "Keep (chit ?c2) data consumed b1 (cpool ?c2) = Some (b2, p2)"
    "Bytes b2 = drop k data"
    using join_keep_step [OF _ _ j k_def, of "chit ?c2" "cpool ?c2"] assms(2) by (auto simp: Len_def Bytes_def)
  let ?c3 = "?c2\<lparr>inb := b2, cpool := p2, eaten := eaten ?c2 @ take k data\<rparr>"
  have r: "read_data h pending bs c = (if snd sc then Inl ?c2 else Inr ?c3)"
    using j d k(2) f(3) unfolding c1_def k_def by (simp add: read_data_def invoke_def Let_def)
  have "out_ok ?c3 = out_ok ?c2" by (simp add: out_ok_def)
  moreover have "in_ok c \<longrightarrow> in_ok ?c3"
    using f(2,4,5) k(1,3) append_take_drop_id [of k data] by (simp add: in_ok_def del: append_take_drop_id)
  ultimately show ?thesis unfolding r using f assms(1) by (simp add: mid_def)
qed

lemma mid_read_once: "mid c (read_once h sz c)"
proof -
  define pending where "pending = (if Len (inb c) \<le> sz div 2 then Len (inb c) else 0)"
  obtain bs err r where s: "sysRead (sz - pending) c = ((bs, err), c\<lparr>rds := r\<rparr>)"
    using sysRead_frame [of "sz - pending" c] by (metis prod.collapse)
  let ?c1 = "c\<lparr>rds := r\<rparr>"
  have q1: "mid c (Inr ?c1)" by (rule mid_quiet [OF quiet_update(5)])
  show ?thesis
  proof (cases "bs = []")
    case True
    obtain hr kept where hc: "halfClose h ?c1 = (hr, kept)" by fastforce
    have "mid ?c1 hr" using mid_halfClose [of ?c1 h] hc by simp
    then have "mid ?c1 (and_then hr (\<lambda>c2. if kept then Inr c2
        else and_then (onClosing h EOF c2) (\<lambda>c3. Inr (requestCloseOnEOF c3))))"
      by (rule mid_and_then) (auto intro!: mid_and_then mid_onClosing mid_quiet [OF quiet_requestCloseOnEOF])
    moreover have "mid ?c1 (Inr (?c1\<lparr>peerClosed := False\<rparr>))" "mid ?c1 (Inr (conn_notify evRead ?c1))"
      "mid ?c1 (Inr (requestClose e ?c1))" for e
      by (rule mid_quiet, simp add: quiet_update quiet_notify quiet_requestClose del: conn.simps)+
    ultimately have "mid ?c1 (read_once h sz c)"
      using True s hc by (auto simp: read_once_def Let_def pending_def [symmetric] split: option.splits errno.splits)
    with q1 show ?thesis by (rule mid_trans)
  next
    case False
    let ?c2 = "if pending + length bs = sz \<or> peerClosed ?c1 then conn_notify evRead ?c1 else ?c1"
    have q2: "mid ?c1 (Inr ?c2)" using mid_quiet [OF quiet_notify [OF ev_not_open(1)]] by simp
    have "pending = Len (inb ?c2) \<or> pending = 0" by (simp add: pending_def conn_notify_def)
    then have "mid ?c2 (if closing ?c2 then Inr ?c2 else read_data h pending bs ?c2)"
      using mid_read_data [of ?c2 pending h bs] by (cases "closing ?c2") simp_all
    moreover have "read_once h sz c = (if closing ?c2 then Inr ?c2 else read_data h pending bs ?c2)"
      using False s by (simp add: read_once_def Let_def pending_def [symmetric])
    ultimately show ?thesis using mid_trans [OF q1 mid_trans [OF q2]] by simp
  qed
qed

lemma mid_conn_read: "mid c (conn_read h env c)"
  unfolding conn_read_def by (rule mid_with_read_buffer) (rule mid_read_once)

lemma release_frames:
  obtains p where "release_out c = c\<lparr>out := nil_buffer, cpool := p\<rparr>"
  using that [of "snd (Release (out c) (cpool c))"] by (simp add: release_out_def Release_def Let_def)

lemma mid_flush: "mid c (Inr (snd (flush c)))"
proof (cases "Len (out c) = 0")
  case True
  then show ?thesis by (simp add: flush_def)
next
  case False
  let ?d = "drop (outPos c) (Bytes (out c))"
  obtain n w e where s: "sysWrite ?d c = ((if e = None then int n else -1, e), c\<lparr>wrs := w, sock := sock c @ take n ?d\<rparr>)"
    "n \<le> length ?d" "e \<noteq> None \<longrightarrow> n = 0" by (rule sysWrite_frame [of ?d c])
  let ?c1 = "c\<lparr>wrs := w, sock := sock c @ take n ?d\<rparr>"
  have failed: "mid c (Inr ?c1)" if "e \<noteq> None"
    using that s(3) by (auto simp: mid_def out_ok_def in_ok_def)
  let ?c2 = "if (if e = None then int n else -1) > 0 then ?c1\<lparr>outPos := outPos ?c1 + n\<rparr> else ?c1"
  let ?c3 = "if outPos ?c2 = Len (out ?c2) then (release_out ?c2)\<lparr>outPos := 0, backlogged := False\<rparr> else ?c2"
  obtain p where p: "release_out ?c2 = ?c2\<lparr>out := nil_buffer, cpool := p\<rparr>" by (rule release_frames)
  have c2: "?c2 = c\<lparr>wrs := w, sock := sock c @ take n ?d, outPos := outPos c + n\<rparr>" using s(3) by auto
  have "out_ok ?c3" if ok: "out_ok c" and nc: "\<not> closed c"
  proof -
    have eq: "(sock c @ take n ?d) @ drop (outPos c + n) (Bytes (out c)) = accepted c"
      using ok nc append_take_drop_id [of n ?d] by (simp add: out_ok_def add.commute)
    then have "prefix (sock c @ take n ?d) (accepted c)" by (rule prefixI [OF sym])
    with eq nc ok False s(2) show ?thesis
      unfolding p unfolding c2 by (auto simp: out_ok_def nil_buffer_def Len_def Bytes_def)
  qed
  then have fin: "mid c (Inr ?c3)"
    unfolding p unfolding c2 by (auto simp: mid_def in_ok_def)
  show ?thesis
  proof (cases "e = None \<or> e = Some EAGAIN")
    case True
    then have "snd (flush c) = ?c3" using False s by (auto simp: flush_def Let_def)
    with fin show ?thesis by simp
  next
    case err: False
    then have "snd (flush c) = conn_notify evWrite ?c1 \<or> snd (flush c) = requestClose (map_option Sys e) ?c1"
      using False s(1) by (auto simp: flush_def Let_def)
    moreover have "mid ?c1 (Inr (conn_notify evWrite ?c1))" "mid ?c1 (Inr (requestClose (map_option Sys e) ?c1))"
      using mid_quiet [OF quiet_notify [OF ev_not_open(2)]] mid_quiet [OF quiet_requestClose] by blast+
    ultimately show ?thesis using mid_trans [OF failed] err by auto
  qed
qed

text \<open>The end of a connection: one \<^verbatim>\<open>OnClose\<close>, and nothing more goes out.\<close>

definition same_history :: "conn \<Rightarrow> conn \<Rightarrow> bool" where
  "same_history c c' \<longleftrightarrow> calls c' = calls c \<and> closed c' = closed c \<and> sock c' = sock c \<and> accepted c' = accepted c \<and>
     events c' = events c"

lemma same_history_release:
  "same_history c (release_out c)" "same_history c (release_in c)" "same_history c (c\<lparr>backlogged := b\<rparr>)"
  by (simp_all add: same_history_def release_out_def release_in_def case_prod_beta)

lemma same_history_discard: "same_history c (discardInbound env c)"
  by (simp add: same_history_def discardInbound_def with_read_buffer_def sysRead_def Let_def case_prod_beta
      split: list.splits rd_result.splits)

lemma same_history_trans: "same_history a b \<Longrightarrow> same_history b c \<Longrightarrow> same_history a c"
  by (simp add: same_history_def)

lemma conn_close_spec:
  assumes "\<not> closed c" and "c' = state_of (conn_close h env err c)"
  shows "closed c' \<and> calls c' = calls c @ [OnClose err] \<and> sock c' = sock c \<and> accepted c' = accepted c \<and>
    events c' AND evOpen = events c AND evOpen"
proof -
  define c2 where "c2 = release_in ((release_out (c\<lparr>closed := True\<rparr>))\<lparr>backlogged := False\<rparr>)"
  define c3 where "c3 = (if err \<noteq> Some EOF then discardInbound env c2 else c2)"
  have "same_history (c\<lparr>closed := True\<rparr>) c2"
    unfolding c2_def by (blast intro: same_history_trans same_history_release)
  moreover have "same_history c2 c3" using same_history_discard by (simp add: c3_def) (simp add: same_history_def)
  ultimately have s: "same_history (c\<lparr>closed := True\<rparr>) c3" by (rule same_history_trans)
  let ?c4 = "c3\<lparr>calls := calls c3 @ [OnClose err]\<rparr>"
  have "conn_close h env err c = invoke (OnClose err) (hOnClose h err c3) c3"
    using assms(1) unfolding conn_close_def Let_def c3_def c2_def by (simp only: if_False)
  then have "c' = fold api_call (fst (hOnClose h err c3)) ?c4" using assms(2) by (simp add: state_of_invoke)
  moreover have "quiet ?c4 (fold api_call (fst (hOnClose h err c3)) ?c4)" by (rule quiet_script)
  ultimately show ?thesis using s by (simp add: quiet_def same_history_def)
qed

text \<open>The round of an open connection ends with it still open, or closed by one last \<^verbatim>\<open>OnClose\<close>: for a local
  close or the peer's EOF only once the send buffer is empty.\<close>

definition ends :: "conn \<Rightarrow> conn \<Rightarrow> bool" where
  "ends c c' \<longleftrightarrow>
     (\<exists>e. closed c' \<and> calls c' = calls c @ [OnClose e] \<and> sock c' = sock c \<and> accepted c' = accepted c \<and>
        events c' AND evOpen = events c AND evOpen \<and>
        (\<not> closesNow e \<longrightarrow> out_ok c \<longrightarrow> sock c' = accepted c'))"

lemma closeIfRequested_spec:
  assumes "\<not> closed c" and "r = closeIfRequested h env c"
  shows "r = Inr c \<or> ends c (state_of r)"
proof (cases "closing c \<and> (closesNow (closeErr c) \<or> \<not> Len (out c) > 0)")
  case True
  with assms(2) have r: "r = conn_close h env (closeErr c) c" by (simp add: closeIfRequested_def)
  note s = conn_close_spec [OF assms(1) refl, of h env "closeErr c"]
  have "sock c = accepted c" if "\<not> closesNow (closeErr c)" "out_ok c"
    using that True assms(1) by (auto simp: out_ok_def Len_def Bytes_def)
  with s show ?thesis
    unfolding ends_def r by (intro disjI2 exI [of _ "closeErr c"]) simp
next
  case False
  with assms(2) have "r = Inr c" unfolding closeIfRequested_def by (simp only: if_False)
  then show ?thesis ..
qed

lemma mid_handle_parts:
  "mid c (handle_writable h w c)" "mid c (handle_resume h ev c)" "mid c (handle_read h env ev c)" "mid c (handle_expiry h env ev c)"
proof -
  show "mid c (handle_writable h w c)" by (auto simp: handle_writable_def split: option.splits intro: mid_invoke)
  show "mid c (handle_resume h ev c)" by (auto simp: handle_resume_def split: option.splits intro: mid_invoke)
  show "mid c (handle_read h env ev c)" by (auto simp: handle_read_def intro: mid_conn_read)
  have "mid c (and_then (onClosing h e c) (\<lambda>c1. Inr (requestClose (Some e) c1)))" for e
    by (rule mid_and_then [OF mid_onClosing mid_quiet [OF quiet_requestClose]])
  then show "mid c (handle_expiry h env ev c)" by (simp add: handle_expiry_def Let_def)
qed

text \<open>The round: a middle part, then possibly the close.\<close>

lemma handle_rest_spec:
  assumes "\<not> closed c" and "r = handle_rest h env ev c"
  shows "mid c r \<or> (\<exists>c1. mid c (Inr c1) \<and> \<not> closed c1 \<and> ends c1 (state_of r))"
proof -
  obtain drained writable c1 where f: "(if ev AND (evWrite OR evHup) \<noteq> 0 \<and> backlogged c then flush c else ((False, False), c)) =
      ((drained, writable), c1)"
    by (metis prod.collapse)
  define ev1 where "ev1 = (if writable then ev OR evRead else ev)"
  define front where "front = and_then (handle_writable h writable c1) (\<lambda>c2.
    and_then (handle_resume h ev1 c2) (\<lambda>c3. and_then (handle_read h env ev1 c3) (\<lambda>c4. handle_expiry h env ev1 c4)))"
  have assoc: "and_then (and_then x f) g = and_then x (\<lambda>c. and_then (f c) g)" for x f g by (cases x) auto
  have r: "r = and_then front (\<lambda>c5. if drained \<or> ev1 AND evClose \<noteq> 0 then closeIfRequested h env c5 else Inr c5)"
    using f by (simp add: assms(2) handle_rest_def front_def assoc ev1_def [symmetric])
  have "mid c (Inr c1)" using mid_flush [of c] f by (auto split: if_splits)
  moreover have "mid c1 front"
    unfolding front_def by (intro mid_and_then mid_handle_parts)
  ultimately have m: "mid c front" by (rule mid_trans)
  show ?thesis
  proof (cases front)
    case (Inl c5)
    with m r show ?thesis by simp
  next
    case (Inr c5)
    with m assms(1) have "\<not> closed c5" by (simp add: mid_def)
    then have "closeIfRequested h env c5 = Inr c5 \<or> ends c5 (state_of (closeIfRequested h env c5))"
      by (rule closeIfRequested_spec) simp
    with \<open>\<not> closed c5\<close> m r Inr show ?thesis by (cases "drained \<or> ev1 AND evClose \<noteq> 0") auto
  qed
qed

section \<open>The life of a connection\<close>

text \<open>The state invariant: the two streams, and the order of the callbacks.\<close>

definition calls_ok :: "conn \<Rightarrow> bool" where
  "calls_ok c \<longleftrightarrow>
     (calls c = [] \<and> \<not> closed c \<and> events c AND evOpen \<noteq> 0 \<or> calls c = [] \<and> closed c \<or>
      (\<exists>ms. list_all is_mid ms \<and> (calls c = OnOpen # ms \<or> closed c \<and> (\<exists>e. calls c = OnOpen # ms @ [OnClose e])) \<and>
         events c AND evOpen = 0))"

definition conn_inv :: "conn \<Rightarrow> bool" where
  "conn_inv c \<longleftrightarrow> out_ok c \<and> in_ok c \<and> calls_ok c \<and>
     (\<forall>e. OnClose e \<in> set (calls c) \<longrightarrow> \<not> closesNow e \<longrightarrow> sock c = accepted c)"

text \<open>A step: a call from any goroutine once the connection is open, an event from the poller or the deadline
  check, progress of the socket, a round of the task, or \<^verbatim>\<open>Detach\<close>.\<close>

inductive conn_step :: "handler \<Rightarrow> conn \<Rightarrow> conn \<Rightarrow> bool" for h where
  c_api: "calls c \<noteq> [] \<Longrightarrow> conn_step h c (api_call a c)"
| c_event: "ev AND evOpen = 0 \<Longrightarrow> conn_step h c (conn_notify ev c)"
| c_socket: "conn_step h c (c\<lparr>rds := rs, wrs := ws, chit := b\<rparr>)"
| c_round: "\<not> closed c \<Longrightarrow> conn_step h c (conn_run h env c)"
| c_detach: "calls c \<noteq> [] \<Longrightarrow> conn_step h c (snd (Detach ok c))"

definition new_conn :: "conn \<Rightarrow> bool" where
  "new_conn c \<longleftrightarrow>
     \<not> readPaused c \<and> \<not> backlogged c \<and> \<not> closing c \<and> \<not> closed c \<and> \<not> peerClosed c \<and> \<not> readClosed c \<and>
     inb c = nil_buffer \<and> out c = nil_buffer \<and> outPos c = 0 \<and> closeErr c = None \<and> deadline c = 0 \<and>
     events c = evOpen \<and> sock c = [] \<and> accepted c = [] \<and> rcvd c = [] \<and> eaten c = [] \<and> calls c = []"

lemma mids_plain: "list_all is_mid ms \<Longrightarrow> OnClose e \<notin> set ms \<and> OnOpen \<notin> set ms"
  by (induction ms) auto

lemma calls_ok_close: "calls_ok c \<Longrightarrow> OnClose e \<in> set (calls c) \<Longrightarrow> closed c"
  using mids_plain by (auto simp: calls_ok_def)

lemma conn_inv_quiet:
  assumes "conn_inv c" and "quiet c c'"
  shows "conn_inv c'"
proof -
  have "calls_ok c'" using assms by (auto simp: conn_inv_def calls_ok_def quiet_def)
  moreover have "in_ok c'" using assms by (simp add: conn_inv_def in_ok_def quiet_def)
  moreover have "sock c' = accepted c'" if "OnClose e \<in> set (calls c')" "\<not> closesNow e" for e
  proof -
    have c: "OnClose e \<in> set (calls c)" using that(1) assms(2) by (simp add: quiet_def)
    then have "closed c" using assms(1) calls_ok_close by (simp add: conn_inv_def)
    with c that(2) assms show ?thesis by (simp add: conn_inv_def quiet_def)
  qed
  ultimately show ?thesis using assms by (auto simp: conn_inv_def quiet_def)
qed

text \<open>A round that began with the connection just opened or open: what it looks like before the close.\<close>

definition opened :: "conn \<Rightarrow> bool" where
  "opened c \<longleftrightarrow> \<not> closed c \<and> out_ok c \<and> events c AND evOpen = 0 \<and> (\<exists>ms. list_all is_mid ms \<and> calls c = OnOpen # ms)"

lemma opened_mid:
  assumes "opened c" and "mid c r"
  shows "opened (state_of r)"
proof -
  obtain ms where "list_all is_mid ms" "calls c = OnOpen # ms" using assms(1) by (auto simp: opened_def)
  moreover obtain new where "calls (state_of r) = calls c @ new" "list_all is_mid new" using assms(2) by (auto simp: mid_def)
  ultimately have "\<exists>ms. list_all is_mid ms \<and> calls (state_of r) = OnOpen # ms" by (intro exI [of _ "ms @ new"]) simp
  with assms show ?thesis by (simp add: opened_def mid_def)
qed

lemma opened_inv: "opened c \<Longrightarrow> in_ok c \<Longrightarrow> conn_inv c"
  using mids_plain by (fastforce simp: opened_def conn_inv_def calls_ok_def)

lemma ends_inv:
  assumes "opened c" and "ends c c'"
  shows "conn_inv c'"
proof -
  obtain ms where o: "\<not> closed c" "out_ok c" "list_all is_mid ms" "calls c = OnOpen # ms" "events c AND evOpen = 0"
    using assms(1) unfolding opened_def by blast
  obtain e where e: "closed c'" "calls c' = calls c @ [OnClose e]" "sock c' = sock c" "accepted c' = accepted c"
    "events c' AND evOpen = events c AND evOpen" "\<not> closesNow e \<longrightarrow> out_ok c \<longrightarrow> sock c' = accepted c'"
    using assms(2) unfolding ends_def by blast
  have c: "calls c' = OnOpen # ms @ [OnClose e]" using e(2) o(4) by simp
  have "calls_ok c'" unfolding calls_ok_def using c o(3,5) e(1,5) by auto
  moreover have "sock c' = accepted c'" if "OnClose x \<in> set (calls c')" "\<not> closesNow x" for x
    using that c mids_plain [OF o(3), of x] e(6) o(2) by auto
  ultimately show ?thesis using e(1,3,4) o(2) by (auto simp: conn_inv_def out_ok_def in_ok_def)
qed

lemma conn_run_inv:
  assumes "conn_inv c" and "\<not> closed c"
  shows "conn_inv (conn_run h env c)"
proof -
  let ?c0 = "c\<lparr>events := 0\<rparr>"
  let ?c1 = "if events c AND evHup \<noteq> 0 then ?c0\<lparr>peerClosed := True\<rparr> else ?c0"
  have finish: "conn_inv (case r of Inr x \<Rightarrow> x | Inl x \<Rightarrow> state_of (conn_close h env (Some ErrHandlerPanic) x))"
    if o: "opened x0" and i: "in_ok x0" and r: "r = handle_rest h env (events c) x0 \<or> (\<exists>x. r = Inl x \<and> mid x0 r)" for x0 r
  proof -
    have panic: "conn_inv (state_of (conn_close h env (Some ErrHandlerPanic) x))" if "opened x" for x
    proof (rule ends_inv [OF that])
      have "\<not> closed x" using that by (simp add: opened_def)
      from conn_close_spec [OF this refl, of h env "Some ErrHandlerPanic"]
      show "ends x (state_of (conn_close h env (Some ErrHandlerPanic) x))"
        unfolding ends_def by (intro exI [of _ "Some ErrHandlerPanic"]) (simp add: closesNow_def)
    qed
    have done_inv: "conn_inv x" if "mid x0 (Inr x)" for x
      using opened_mid [OF o that] that i opened_inv by (simp add: mid_def)
    have close_panic: "state_of (conn_close h env e x) = x" if "closed x" for e x using that by (simp add: conn_close_def)
    have "mid x0 r \<or> (\<exists>x1. mid x0 (Inr x1) \<and> \<not> closed x1 \<and> ends x1 (state_of r))"
      using r handle_rest_spec [of x0 r h env "events c"] o by (auto simp: opened_def)
    then show ?thesis
    proof
      assume m: "mid x0 r"
      then show ?thesis using opened_mid [OF o m] panic done_inv by (cases r) simp_all
    next
      assume "\<exists>x1. mid x0 (Inr x1) \<and> \<not> closed x1 \<and> ends x1 (state_of r)"
      then obtain x1 where x1: "mid x0 (Inr x1)" "ends x1 (state_of r)" by blast
      then have "conn_inv (state_of r)" using ends_inv opened_mid [OF o x1(1)] by simp
      moreover have "closed (state_of r)" using x1(2) by (auto simp: ends_def)
      ultimately show ?thesis using close_panic by (cases r) simp_all
    qed
  qed
  have c1: "conn_inv c \<Longrightarrow> in_ok ?c1 \<and> out_ok ?c1 \<and> \<not> closed ?c1 \<and> calls ?c1 = calls c \<and> events ?c1 = 0"
    using assms(2) by (simp add: conn_inv_def in_ok_def out_ok_def)
  show ?thesis
  proof (cases "events c AND evOpen = 0")
    case True
    then have "opened ?c1" "in_ok ?c1" using assms c1 by (auto simp: opened_def conn_inv_def calls_ok_def)
    from finish [OF this disjI1, OF refl] show ?thesis
      using True by (simp add: conn_run_def handle_def Let_def)
  next
    case False
    then have e: "calls c = []" using assms by (auto simp: conn_inv_def calls_ok_def)
    show ?thesis
    proof (cases "watchOk env")
      case True
      let ?c2 = "if draining env then conn_notify evShutdown ?c1 else ?c1"
      let ?r = "invoke OnOpen (hOnOpen h ?c2) ?c2" and ?c3 = "?c2\<lparr>calls := calls ?c2 @ [OnOpen]\<rparr>"
      have q: "quiet ?c3 (state_of ?r)" unfolding state_of_invoke by (rule quiet_script)
      have "events ?c3 AND evOpen = 0" using c1 [OF assms(1)] by (simp add: conn_notify_def)
      moreover have "out_ok ?c3" "in_ok ?c3" "calls ?c3 = [OnOpen]" "\<not> closed ?c3"
        using c1 [OF assms(1)] e by (simp_all add: conn_notify_def out_ok_def in_ok_def)
      ultimately have "opened (state_of ?r)" "in_ok (state_of ?r)"
        using q by (auto simp: opened_def quiet_def in_ok_def)
      then have "conn_inv (case and_then ?r (handle_rest h env (events c)) of Inr x \<Rightarrow> x
          | Inl x \<Rightarrow> state_of (conn_close h env (Some ErrHandlerPanic) x))"
        by (rule finish) (cases ?r; simp add: mid_def)
      with True False show ?thesis by (simp add: conn_run_def handle_def Let_def)
    next
      case no_watch: False
      with False e c1 [OF assms(1)] show ?thesis
        by (simp add: conn_run_def handle_def Let_def abandon_def conn_inv_def out_ok_def in_ok_def calls_ok_def)
    qed
  qed
qed

lemma conn_inv_step:
  assumes "conn_inv c" and "conn_step h c c'"
  shows "conn_inv c'"
  using assms(2)
proof cases
  case (c_api a)
  then show ?thesis using conn_inv_quiet [OF assms(1) quiet_api] by simp
next
  case (c_event ev)
  then show ?thesis using conn_inv_quiet [OF assms(1) quiet_notify] by simp
next
  case c_socket
  have "quiet c (c\<lparr>rds := rs, wrs := ws, chit := b\<rparr>)" for rs ws b by (simp add: quiet_def out_ok_def)
  then show ?thesis using conn_inv_quiet [OF assms(1)] c_socket by simp
next
  case (c_round env)
  then show ?thesis using conn_run_inv [OF assms(1)] by simp
next
  case (c_detach ok)
  show ?thesis
  proof (cases "closed c \<or> closing c")
    case True
    then show ?thesis using assms(1) c_detach(1) by (simp add: Detach_def)
  next
    case False
    have "OnClose e \<notin> set (calls c)" for e using False assms(1) calls_ok_close by (auto simp: conn_inv_def)
    moreover have "calls_ok c'"
      using False assms(1) c_detach by (auto simp: Detach_def Let_def conn_inv_def calls_ok_def)
    ultimately show ?thesis
      using False assms(1) c_detach(1)
      by (auto simp: Detach_def Let_def conn_inv_def out_ok_def in_ok_def Len_def Bytes_def nil_buffer_def prefix_def)
  qed
qed

interpretation conn_life: inductive_invariant new_conn "conn_step h" conn_inv for h
proof unfold_locales
  show "conn_inv c" if "new_conn c" for c
    using that by (simp add: new_conn_def conn_inv_def out_ok_def in_ok_def calls_ok_def nil_buffer_def Len_def Bytes_def evOpen_def)
qed (rule conn_inv_step)

text \<open>The callbacks of one round.\<close>

lemma conn_run_calls:
  assumes "\<not> closed c" and "events c AND evOpen = 0"
  shows "\<exists>new. calls (conn_run h env c) = calls c @ new \<and>
    (closing c \<longrightarrow> list_all (\<lambda>cb. \<forall>d. cb \<noteq> OnData d) new)"
proof -
  let ?c0 = "c\<lparr>events := 0\<rparr>"
  let ?c1 = "if events c AND evHup \<noteq> 0 then ?c0\<lparr>peerClosed := True\<rparr> else ?c0"
  let ?r = "handle_rest h env (events c) ?c1"
  have run: "conn_run h env c = (case ?r of Inr x \<Rightarrow> x | Inl x \<Rightarrow> state_of (conn_close h env (Some ErrHandlerPanic) x))"
    using assms(2) by (simp add: conn_run_def handle_def Let_def)
  have ext: "\<exists>new. calls x = calls c @ new \<and> (closing c \<longrightarrow> list_all (\<lambda>cb. \<forall>d. cb \<noteq> OnData d) new)" if "mid ?c1 r" "x = state_of r" for r x
  proof -
    have "calls ?c1 = calls c" "closing ?c1 = closing c" by simp_all
    moreover have "\<exists>new. calls (state_of r) = calls ?c1 @ new \<and> list_all is_mid new \<and>
        (closing ?c1 \<longrightarrow> list_all (\<lambda>cb. \<forall>d. cb \<noteq> OnData d) new)"
      using that(1) unfolding mid_def by (rule conjunct1)
    then obtain new where "calls (state_of r) = calls ?c1 @ new" "closing ?c1 \<longrightarrow> list_all (\<lambda>cb. \<forall>d. cb \<noteq> OnData d) new"
      by (elim exE conjE)
    ultimately show ?thesis using that(2) by (intro exI [of _ new]) simp
  qed
  have snoc: "\<exists>new. calls y = calls c @ new \<and> (closing c \<longrightarrow> list_all (\<lambda>cb. \<forall>d. cb \<noteq> OnData d) new)"
    if x: "\<exists>new. calls x = calls c @ new \<and> (closing c \<longrightarrow> list_all (\<lambda>cb. \<forall>d. cb \<noteq> OnData d) new)"
      and y: "calls y = calls x @ [OnClose e]" for x y e
  proof -
    obtain new where "calls x = calls c @ new" "closing c \<longrightarrow> list_all (\<lambda>cb. \<forall>d. cb \<noteq> OnData d) new" using x by blast
    with y show ?thesis by (intro exI [of _ "new @ [OnClose e]"]) simp
  qed
  have "\<not> closed ?c1" using assms(1) by simp
  from handle_rest_spec [OF this refl, of h env "events c"]
  show ?thesis
  proof
    assume m: "mid ?c1 ?r"
    show ?thesis
    proof (cases ?r)
      case (Inl x)
      with m have "\<not> closed x" using \<open>\<not> closed ?c1\<close> by (simp add: mid_def)
      from conn_close_spec [OF this refl, of h env "Some ErrHandlerPanic"] Inl run
      have eq: "calls (conn_run h env c) = calls x @ [OnClose (Some ErrHandlerPanic)]" by simp
      have "x = state_of ?r" using Inl by simp
      then show ?thesis by (rule snoc [OF ext [OF m] eq])
    next
      case (Inr x)
      with ext [OF m] run show ?thesis by simp
    qed
  next
    assume "\<exists>x1. mid ?c1 (Inr x1) \<and> \<not> closed x1 \<and> ends x1 (state_of ?r)"
    then obtain x1 e where x1: "mid ?c1 (Inr x1)" "closed (state_of ?r)" "calls (state_of ?r) = calls x1 @ [OnClose e]"
      by (auto simp: ends_def)
    have "conn_run h env c = state_of ?r" unfolding run using x1(2) by (cases ?r) (simp_all add: conn_close_def)
    then show ?thesis using snoc [OF ext [OF x1(1) refl], of "conn_run h env c" e] x1(3) by simp
  qed
qed

section \<open>Properties\<close>

text \<open>
  C15. The send side loses, duplicates and reorders nothing, whatever the kernel takes of each write: in
  every reachable state the bytes the kernel has taken are a prefix of the bytes the writes accepted; while
  the connection is open the rest is in the send buffer; and a connection closed locally or after the
  peer's EOF was closed only once everything accepted had been sent.
\<close>

theorem conn_send_stream:
  assumes "reach new_conn (conn_step h) c"
  shows "prefix (sock c) (accepted c) \<and>
    (\<not> closed c \<longrightarrow> sock c @ drop (outPos c) (Bytes (out c)) = accepted c) \<and>
    (OnClose None \<in> set (calls c) \<or> OnClose (Some EOF) \<in> set (calls c) \<longrightarrow> sock c = accepted c)"
  using conn_life.reach_inv [OF assms] by (auto simp: conn_inv_def out_ok_def closesNow_def)

text \<open>
  C16. The callbacks come in the promised order: \<^verbatim>\<open>OnOpen\<close> first and once, \<^verbatim>\<open>OnClose\<close> at most once and last,
  also when a callback panics, and none at all for a connection that could not be watched.
\<close>

theorem conn_callback_order:
  assumes "reach new_conn (conn_step h) c"
  shows "calls c = [] \<or> (\<exists>ms. OnOpen \<notin> set ms \<and> (\<forall>e. OnClose e \<notin> set ms) \<and>
    (calls c = OnOpen # ms \<or> closed c \<and> (\<exists>e. calls c = OnOpen # ms @ [OnClose e])))"
  using conn_life.reach_inv [OF assms] mids_plain by (fastforce simp: conn_inv_def calls_ok_def)


text \<open>A short life for the witnesses: the handler writes three bytes on open and closes; the kernel takes two
  of them, then the rest.\<close>

definition handler1 :: handler where
  "handler1 = \<lparr>hOnOpen = (\<lambda>_. ([Api_Write [1, 2, 3], Api_Close], False)),
     hOnData = (\<lambda>d _. (([], False), int (length d))), hOnWritable = None, hOnResume = None, hOnClosing = None,
     hOnHalfClose = None, hOnClose = (\<lambda>_ _. ([], False))\<rparr>"

definition env1 :: server_env where
  "env1 = \<lparr>ReadBufferSize = 4096, clockNow = 0, watchOk = True, draining = False\<rparr>"

definition conn0 :: conn where
  "conn0 = \<lparr>readPaused = False, backlogged = False, closing = False, closed = False, peerClosed = False, readClosed = False,
     inb = nil_buffer, out = nil_buffer, outPos = 0, closeErr = None, deadline = 0, events = evOpen,
     cpool = \<lparr>pools = (\<lambda>_. []), arr_cap = (\<lambda>_. 0), next_arr = 1\<rparr>, chit = False, rds = [], wrs = [Accepts 2, Accepts 9],
     sock = [], accepted = [], rcvd = [], eaten = [], calls = []\<rparr>"

definition conn1 :: conn where "conn1 = conn_run handler1 env1 conn0"
definition conn2 :: conn where "conn2 = conn_run handler1 env1 conn1"

lemmas conn_eval = conn_run_def handle_def handle_rest_def handle_writable_def handle_resume_def handle_read_def
  handle_expiry_def invoke_def handler1_def env1_def conn_Write_def sysWrite_def afterDirectWrite_def compactOut_def
  out_write_def conn_notify_def Close_def requestClose_def closesNow_def closeIfRequested_def Let_def event_defs

lemma conn1_eq: "\<exists>b p. conn1 = conn0\<lparr>closing := True, backlogged := True, out := b, cpool := p, wrs := [Accepts 9],
    events := 18, sock := [1, 2], accepted := [1, 2, 3], calls := [OnOpen]\<rparr> \<and> Bytes b = [3]"
proof -
  obtain b p where w: "Write False [3] nil_buffer (cpool conn0) = (b, p)" by fastforce
  have "Bytes b = [3]" using bp.contents_put [of False "[3]" nil_buffer "cpool conn0"] w by (simp add: nil_buffer_def Bytes_def)
  then show ?thesis
    using w by (simp add: conn1_def conn0_def conn_eval Len_def nil_buffer_def)
qed

lemma conn1_fields: "\<not> closed conn1 \<and> closing conn1 \<and> sock conn1 = [1, 2] \<and> accepted conn1 = [1, 2, 3] \<and>
    calls conn1 = [OnOpen] \<and> events conn1 = 18 \<and> rcvd conn1 = []"
proof -
  obtain b p where eq: "conn1 = conn0\<lparr>closing := True, backlogged := True, out := b, cpool := p, wrs := [Accepts 9],
    events := 18, sock := [1, 2], accepted := [1, 2, 3], calls := [OnOpen]\<rparr>"
    using conn1_eq by blast
  show ?thesis unfolding eq by (simp add: conn0_def)
qed

lemma fst_Release: "fst (Release b p) = nil_buffer"
  by (simp add: Release_def Let_def)

lemma conn2_fields: "sock conn2 = [1, 2, 3] \<and> calls conn2 = [OnOpen, OnClose None]"
proof -
  obtain b p where eq: "conn1 = conn0\<lparr>closing := True, backlogged := True, out := b, cpool := p, wrs := [Accepts 9],
    events := 18, sock := [1, 2], accepted := [1, 2, 3], calls := [OnOpen]\<rparr>" and b: "Bytes b = [3]"
    using conn1_eq by blast
  let ?c = "conn1\<lparr>events := 0\<rparr>"
  define c' where "c' = snd (flush ?c)"
  have f: "flush ?c = ((True, False), c')" "sock c' = [1, 2, 3]" "calls c' = [OnOpen]" "closing c'" "closeErr c' = None"
    "Len (out c') = 0" "\<not> closed c'"
    using b by (simp_all add: c'_def flush_def eq conn0_def sysWrite_def Len_def Bytes_def release_out_def fst_Release
        case_prod_beta nil_buffer_def maxBacklog_def)
  have "handle_rest handler1 env1 18 ?c = closeIfRequested handler1 env1 c'"
    using f(1) conn1_fields
    by (simp add: handle_rest_def handler1_def handle_writable_def handle_resume_def handle_read_def handle_expiry_def
        Let_def event_defs eq conn0_def)
  moreover have "events conn1 = 18" using conn1_fields by simp
  ultimately have "conn2 = (case closeIfRequested handler1 env1 c' of Inr x \<Rightarrow> x
      | Inl x \<Rightarrow> state_of (conn_close handler1 env1 (Some ErrHandlerPanic) x))"
    by (simp add: conn2_def conn_run_def handle_def event_defs)
  moreover have "closeIfRequested handler1 env1 c' = conn_close handler1 env1 None c'"
    using f(4-6) by (simp add: closeIfRequested_def)
  moreover have "\<exists>x. conn_close handler1 env1 None c' = Inr x"
    using f(7) by (simp add: conn_close_def invoke_def handler1_def Let_def)
  ultimately show ?thesis using conn_close_spec [OF f(7) refl, of handler1 env1 None] f(2,3) by auto
qed

lemma conn_reaches: "reach new_conn (conn_step handler1) conn1" "reach new_conn (conn_step handler1) conn2"
proof -
  have "reach new_conn (conn_step handler1) conn0" by (rule reach_init) (simp add: new_conn_def conn0_def)
  moreover have "conn_step handler1 conn0 conn1" unfolding conn1_def by (rule c_round) (simp add: conn0_def)
  ultimately show r1: "reach new_conn (conn_step handler1) conn1" by (rule reach_step)
  have "conn_step handler1 conn1 conn2" unfolding conn2_def by (rule c_round) (simp add: conn1_fields)
  with r1 show "reach new_conn (conn_step handler1) conn2" by (rule reach_step)
qed

theorem conn_send_stream_witness: "sock conn2 = [1, 2, 3] \<and> accepted conn2 = [1, 2, 3]"
  using conn_send_stream [OF conn_reaches(2)] conn2_fields by simp

theorem conn_callback_order_witness: "calls conn2 = [OnOpen, OnClose None] \<and> closed conn2"
  using conn_callback_order [OF conn_reaches(2)] conn2_fields by (auto simp: Cons_eq_append_conv)


end
