(* ===== verification/WsFrame.thy ===== *)
theory WsFrame
  imports FnetPrelude
begin

unbundle bit_operations_syntax

text \<open>
  \<^verbatim>\<open>websocket/frame.go\<close>: the frame header codec, the checks of a client's header, the unmasking of a
  payload in words of 64 bits, close payloads, and UTF-8 validity as \<^verbatim>\<open>unicode/utf8\<close> defines it.
\<close>

section \<open>Codes\<close>

definition OpContinuation :: byte where "OpContinuation = 0"
definition OpText :: byte where "OpText = 1"
definition OpBinary :: byte where "OpBinary = 2"
definition OpClose :: byte where "OpClose = 8"
definition OpPing :: byte where "OpPing = 9"
definition OpPong :: byte where "OpPong = 10"

lemmas op_defs = OpContinuation_def OpText_def OpBinary_def OpClose_def OpPing_def OpPong_def

definition isControl :: "byte \<Rightarrow> bool" where "isControl op \<longleftrightarrow> op AND 0x08 \<noteq> 0"

definition maxControlPayload :: nat where "maxControlPayload = 125"

datatype ws_error = ErrLengthNotMinimal | ErrHeaderLengthMSB | ErrReservedBits | ErrMaskRequired | ErrReservedOpCode
  | ErrControlFragmented | ErrControlPayloadTooBig | ErrUnexpectedContinuation | ErrUnexpectedDataFrame
  | ErrInvalidCloseCode | ErrInvalidUTF8

record frameHeader =
  final :: bool
  reserved :: byte
  opCode :: byte
  masked :: bool
  mask_key :: bytes
  payload_len :: nat

section \<open>Headers\<close>

definition appendFrameHeader :: "bytes \<Rightarrow> byte \<Rightarrow> nat \<Rightarrow> bytes" where
  "appendFrameHeader b op len =
     (let b1 = b @ [0x80 OR op] in
      if len \<le> 125 then b1 @ [of_nat len]
      else if len \<le> 0xffff then (b1 @ [126]) @ be_bytes 2 (of_nat len :: u16)
      else (b1 @ [127]) @ be_bytes 8 (of_nat len :: u64))"

text \<open>The number of bytes of a header, from its second byte.\<close>

definition header_size :: "byte \<Rightarrow> nat" where
  "header_size b =
     2 + (if b AND 0x7f = 126 then 2 else if b AND 0x7f = 127 then 8 else 0) + (if b AND 0x80 \<noteq> 0 then 4 else 0)"

text \<open>\<^verbatim>\<open>parseHeader\<close>: the header and its size, which is 0 while the header is incomplete.\<close>

definition parseHeader :: "bytes \<Rightarrow> ws_error + frameHeader \<times> nat" where
  "parseHeader data =
     (let zero = \<lparr>final = False, reserved = 0, opCode = 0, masked = False, mask_key = [0, 0, 0, 0], payload_len = 0\<rparr> in
      if length data < 2 then Inr (zero, 0)
      else
        let b0 = data ! 0; b1 = data ! 1;
            h = zero\<lparr>final := b0 AND 0x80 \<noteq> 0, reserved := drop_bit 4 (b0 AND 0x70), opCode := b0 AND 0x0f,
                     masked := b1 AND 0x80 \<noteq> 0\<rparr>;
            sz = header_size b1;
            len7 = b1 AND 0x7f;
            fill = (\<lambda>l. Inr (h\<lparr>payload_len := l,
              mask_key := (if masked h then sub_bytes data (sz - 4) sz else mask_key h)\<rparr>, sz))
        in if length data < sz then Inr (h, 0)
           else if len7 = 126 then
             let l = unat (be_word (sub_bytes data 2 4) :: u16) in
             if l < 126 then Inl ErrLengthNotMinimal else fill l
           else if len7 = 127 then
             if data ! 2 AND 0x80 \<noteq> 0 then Inl ErrHeaderLengthMSB
             else let l = unat (be_word (sub_bytes data 2 10) :: u64) in
                  if l \<le> 0xffff then Inl ErrLengthNotMinimal else fill l
           else fill (unat len7))"

definition checkHeader :: "frameHeader \<Rightarrow> bool \<Rightarrow> ws_error option" where
  "checkHeader h fragmented =
     (if reserved h \<noteq> 0 then Some ErrReservedBits
      else if \<not> masked h then Some ErrMaskRequired
      else if opCode h = OpContinuation then (if \<not> fragmented then Some ErrUnexpectedContinuation else None)
      else if opCode h = OpText \<or> opCode h = OpBinary then (if fragmented then Some ErrUnexpectedDataFrame else None)
      else if opCode h = OpClose \<or> opCode h = OpPing \<or> opCode h = OpPong then
        (if \<not> final h then Some ErrControlFragmented
         else if payload_len h > maxControlPayload then Some ErrControlPayloadTooBig else None)
      else Some ErrReservedOpCode)"

section \<open>Unmasking\<close>

text \<open>\<^verbatim>\<open>PutUint64(b, Uint64(b) ^ m)\<close> on eight bytes.\<close>

definition xor64 :: "u64 \<Rightarrow> bytes \<Rightarrow> bytes" where
  "xor64 m b = le_bytes 8 ((le_word b :: u64) XOR m)"

function mask_loop8 :: "u64 \<Rightarrow> bytes \<Rightarrow> bytes \<Rightarrow> bytes" where
  "mask_loop8 m key b =
     (if length b \<ge> 8 then xor64 m (take 8 b) @ mask_loop8 m key (drop 8 b)
      else map (\<lambda>i. b ! i XOR key ! (i mod 4)) [0..<length b])"
  by pat_completeness auto
termination by (relation "measure (\<lambda>(m, key, b). length b)") auto

declare mask_loop8.simps [simp del]

function mask_loop32 :: "u64 \<Rightarrow> bytes \<Rightarrow> bytes \<Rightarrow> bytes" where
  "mask_loop32 m key b =
     (if length b \<ge> 32 then
        xor64 m (sub_bytes b 0 8) @ xor64 m (sub_bytes b 8 16) @ xor64 m (sub_bytes b 16 24) @
        xor64 m (sub_bytes b 24 32) @ mask_loop32 m key (drop 32 b)
      else mask_loop8 m key b)"
  by pat_completeness auto
termination by (relation "measure (\<lambda>(m, key, b). length b)") auto

declare mask_loop32.simps [simp del]

definition applyMask :: "bytes \<Rightarrow> bytes \<Rightarrow> bytes" where
  "applyMask b key =
     (let mask32 = (le_word key :: u32);
          mask64 = ucast mask32 OR push_bit 32 (ucast mask32)
      in mask_loop32 mask64 key b)"

section \<open>Close payloads and UTF-8\<close>

definition between :: "byte \<Rightarrow> byte \<Rightarrow> byte \<Rightarrow> bool" where
  "between lo hi b \<longleftrightarrow> lo \<le> b \<and> b \<le> hi"

text \<open>What may follow each leading byte: the range of the second byte and the number of bytes.\<close>

definition utf8_lead :: "byte \<Rightarrow> (nat \<times> byte \<times> byte) option" where
  "utf8_lead b =
     (if b < 0x80 then Some (1, 0, 0)
      else if between 0xC2 0xDF b then Some (2, 0x80, 0xBF)
      else if b = 0xE0 then Some (3, 0xA0, 0xBF)
      else if b = 0xED then Some (3, 0x80, 0x9F)
      else if between 0xE1 0xEF b then Some (3, 0x80, 0xBF)
      else if b = 0xF0 then Some (4, 0x90, 0xBF)
      else if between 0xF1 0xF3 b then Some (4, 0x80, 0xBF)
      else if b = 0xF4 then Some (4, 0x80, 0x8F)
      else None)"

function utf8_valid :: "bytes \<Rightarrow> bool" where
  "utf8_valid bs =
     (case bs of
        [] \<Rightarrow> True
      | b # rest \<Rightarrow>
          (case utf8_lead b of
             None \<Rightarrow> False
           | Some (n, lo, hi) \<Rightarrow>
               n = 1 \<and> utf8_valid rest \<or>
               n > 1 \<and> length rest \<ge> n - 1 \<and> between lo hi (hd rest) \<and>
                 list_all (between 0x80 0xBF) (take (n - 2) (tl rest)) \<and> utf8_valid (drop (n - 1) rest)))"
  by pat_completeness auto
termination by (relation "measure length") auto

declare utf8_valid.simps [simp del]

definition validCloseCode :: "u16 \<Rightarrow> bool" where
  "validCloseCode code \<longleftrightarrow>
     code \<ge> 1000 \<and> code \<le> 1003 \<or> code \<ge> 1007 \<and> code \<le> 1014 \<or> code \<ge> 3000 \<and> code < 5000"

definition parseClosePayload :: "bytes \<Rightarrow> ws_error + u16 \<times> bytes" where
  "parseClosePayload payload =
     (if length payload < 2 then Inl ErrInvalidCloseCode
      else
        let code = be_word (take 2 payload); reason = drop 2 payload in
        if \<not> validCloseCode code then Inl ErrInvalidCloseCode
        else if \<not> utf8_valid reason then Inl ErrInvalidUTF8
        else Inr (code, reason))"

section \<open>Unmasking is a bytewise exclusive or\<close>

definition mask_bytes :: "bytes \<Rightarrow> bytes \<Rightarrow> bytes" where
  "mask_bytes key b = map (\<lambda>i. b ! i XOR key ! (i mod 4)) [0..<length b]"

lemma length_mask_bytes [simp]: "length (mask_bytes key b) = length b"
  by (simp add: mask_bytes_def)

lemma mask_bytes_append:
  assumes "4 dvd length xs"
  shows "mask_bytes key (xs @ ys) = mask_bytes key xs @ mask_bytes key ys"
proof (rule nth_equalityI)
  fix i assume i: "i < length (mask_bytes key (xs @ ys))"
  obtain q where q: "length xs = 4 * q" using assms by blast
  show "mask_bytes key (xs @ ys) ! i = (mask_bytes key xs @ mask_bytes key ys) ! i"
  proof (cases "i < length xs")
    case True
    then show ?thesis by (simp add: mask_bytes_def nth_append)
  next
    case False
    then obtain r where r: "i = 4 * q + r" using q le_Suc_ex not_less by metis
    with i q have "r < length ys" by simp
    then show ?thesis by (simp add: mask_bytes_def nth_append r q)
  qed
qed simp

lemma le_word_append: "le_word (xs @ ys) = le_word xs OR push_bit (8 * length xs) (le_word ys :: 'a::len word)"
  by (induction xs) (simp_all add: push_bit_or or.assoc)

lemma le_bytes_xor: "le_bytes n (v XOR w :: 'a::len word) = map2 (XOR) (le_bytes n v) (le_bytes n w)"
  by (induction n arbitrary: v w) (simp_all add: drop_bit_xor unsigned_xor_eq)

lemma bit_le_word:
  "bit (le_word bs :: 'a::len word) k \<longleftrightarrow> k < LENGTH('a) \<and> k < 8 * length bs \<and> bit (bs ! (k div 8)) (k mod 8)"
proof (induction bs arbitrary: k)
  case (Cons b bs)
  show ?case
  proof (cases "k < 8")
    case True
    then show ?thesis by (auto simp: bit_simps)
  next
    case False
    then obtain r where r: "k = 8 + r" using le_Suc_ex by (metis not_less)
    have "(8 + r) div 8 = Suc (r div 8)" by simp
    moreover have "\<not> bit b k" using False by (auto dest: bit_imp_le_length)
    ultimately show ?thesis using Cons.IH [of r] r by (auto simp: bit_simps)
  qed
qed simp

lemma ucast_le_word:
  "8 * length bs \<le> LENGTH('a) \<Longrightarrow> ucast (le_word bs :: 'a::len word) = (le_word bs :: 'b::len word)"
  by (rule bit_word_eqI) (auto simp: bit_simps bit_le_word)

lemma xor64_eq:
  assumes "length key = 4" and "length b = 8"
  shows "xor64 (ucast (le_word key :: u32) OR push_bit 32 (ucast (le_word key :: u32))) b = mask_bytes key b"
proof -
  have m: "ucast (le_word key :: u32) OR push_bit 32 (ucast (le_word key :: u32)) = (le_word (key @ key) :: u64)"
    using assms(1) by (simp add: ucast_le_word le_word_append)
  have "le_bytes 8 (le_word b :: u64) = b" using le_bytes_le_word [of b, where 'a = 64] assms(2) by simp
  moreover have "le_bytes 8 (le_word (key @ key) :: u64) = key @ key"
    using le_bytes_le_word [of "key @ key", where 'a = 64] assms(1) by simp
  ultimately have "xor64 (le_word (key @ key)) b = map2 (XOR) b (key @ key)"
    by (simp add: xor64_def le_bytes_xor)
  also have "\<dots> = mask_bytes key b"
  proof (rule nth_equalityI)
    fix i assume "i < length (map2 (XOR) b (key @ key))"
    then have i: "i < 8" using assms by simp
    then have "(key @ key) ! i = key ! (i mod 4)"
    proof (cases "i < 4")
      case False
      then have "i mod 4 = i - 4" using i by (simp add: le_mod_geq)
      with False assms(1) show ?thesis by (simp add: nth_append)
    qed (simp add: nth_append assms(1))
    with i assms show "map2 (XOR) b (key @ key) ! i = mask_bytes key b ! i" by (simp add: mask_bytes_def)
  qed (use assms in simp)
  finally show ?thesis by (simp only: m)
qed

lemma mask_loop8_eq:
  assumes "length key = 4" and "m = ucast (le_word key :: u32) OR push_bit 32 (ucast (le_word key :: u32))"
  shows "mask_loop8 m key b = mask_bytes key b"
proof (induction "length b" arbitrary: b rule: less_induct)
  case less
  show ?case
  proof (cases "length b \<ge> 8")
    case True
    then have "mask_loop8 m key b = mask_bytes key (take 8 b) @ mask_bytes key (drop 8 b)"
      using less xor64_eq [OF assms(1), of "take 8 b"] by (subst mask_loop8.simps) (simp add: assms(2))
    also have "\<dots> = mask_bytes key (take 8 b @ drop 8 b)" using True by (intro mask_bytes_append [symmetric]) simp
    finally show ?thesis by simp
  qed (subst mask_loop8.simps, simp add: mask_bytes_def)
qed

lemma mask_loop32_eq:
  assumes "length key = 4" and "m = ucast (le_word key :: u32) OR push_bit 32 (ucast (le_word key :: u32))"
  shows "mask_loop32 m key b = mask_bytes key b"
proof (induction "length b" arbitrary: b rule: less_induct)
  case less
  show ?case
  proof (cases "length b \<ge> 32")
    case True
    have split: "b = sub_bytes b 0 8 @ sub_bytes b 8 16 @ sub_bytes b 16 24 @ sub_bytes b 24 32 @ drop 32 b"
    proof -
      have s: "take 8 (drop n b) @ drop (n + 8) b = drop n b" for n
        by (metis append_take_drop_id drop_drop add.commute)
      show ?thesis using s [of 0] s [of 8] s [of 16] s [of 24] by (simp add: sub_bytes_def)
    qed
    have "mask_loop32 m key b = mask_bytes key (sub_bytes b 0 8) @ mask_bytes key (sub_bytes b 8 16) @
        mask_bytes key (sub_bytes b 16 24) @ mask_bytes key (sub_bytes b 24 32) @ mask_bytes key (drop 32 b)"
      using less xor64_eq [OF assms(1)] True by (subst mask_loop32.simps) (simp add: assms(2))
    also have "\<dots> = mask_bytes key (sub_bytes b 0 8 @ sub_bytes b 8 16 @ sub_bytes b 16 24 @ sub_bytes b 24 32 @ drop 32 b)"
      using True by (simp add: mask_bytes_append)
    finally show ?thesis using split by simp
  qed (subst mask_loop32.simps, simp add: mask_loop8_eq [OF assms])
qed

lemma applyMask_eq: "length key = 4 \<Longrightarrow> applyMask b key = mask_bytes key b"
  by (simp add: applyMask_def Let_def mask_loop32_eq)

lemma mask_bytes_involution: "mask_bytes key (mask_bytes key b) = b"
  by (rule nth_equalityI) (simp_all add: mask_bytes_def xor.assoc)

section \<open>The header codec\<close>

lemma nibble_header:
  assumes "op < 16"
  shows "(0x80 OR op) AND 0x80 \<noteq> (0 :: byte)" "drop_bit 4 ((0x80 OR op) AND 0x70) = (0 :: byte)" "(0x80 OR op) AND 0x0f = op"
proof -
  have "op \<in> set (map of_nat [0..<16])"
  proof -
    have "op = of_nat (unat op)" by simp
    moreover have "unat op < 16" using assms by (simp add: word_less_nat_alt)
    ultimately show ?thesis by (metis atLeastLessThan_iff image_eqI list.set_map set_upt zero_le)
  qed
  then have "op \<in> {0, 1, 2, 3, 4, 5, 6, 7, 8, 9, 10, 11, 12, 13, 14, 15}" by (simp add: upt_rec)
  then show "(0x80 OR op) AND 0x80 \<noteq> (0 :: byte)" "drop_bit 4 ((0x80 OR op) AND 0x70) = (0 :: byte)" "(0x80 OR op) AND 0x0f = op"
    by auto
qed

lemma not_bit_unat:
  assumes "unat (w :: 'a::len word) < 2 ^ k"
  shows "\<not> bit w k"
proof -
  have "\<not> bit (unat w) k" using assms by (simp add: bit_iff_odd)
  then show ?thesis by (auto simp: bit_unsigned_iff dest: bit_imp_le_length)
qed

lemma unat_below_bit:
  assumes "\<not> bit (w :: u64) 63"
  shows "unat w < 2 ^ 63"
proof -
  have "n < 63" if "n < 64" "bit w n" for n using assms that by (cases "n = 63") auto
  then have "take_bit 63 w = w" by (intro bit_word_eqI) (auto simp: bit_simps)
  then have "take_bit 63 (unat w) = unat w" by (metis unsigned_take_bit_eq)
  then show ?thesis by (metis take_bit_nat_less_exp)
qed

lemma low_byte:
  assumes "b < (128 :: byte)"
  shows "b AND 0x80 = 0" "b AND 0x7f = b"
proof -
  have u: "unat b < 2 ^ 7" using assms by (simp add: word_less_nat_alt)
  have "\<not> bit b k" if "7 \<le> k" for k
    using u power_increasing [OF that, of "2 :: nat"] by (intro not_bit_unat) simp
  then have "take_bit 7 b = b" by (intro bit_word_eqI) (metis bit_take_bit_iff not_less)
  moreover have "0x7f = (mask 7 :: byte)" by (simp add: mask_eq_exp_minus_1)
  ultimately show "b AND 0x7f = b" by (simp add: take_bit_eq_mask)
  show "b AND 0x80 = 0" using and_exp_eq_0_iff_not_bit [of b 7] not_bit_unat [OF u] by simp
qed

lemma le_bytes_nth: "i < n \<Longrightarrow> le_bytes n w ! i = ucast (drop_bit (8 * i) w)"
  by (induction n arbitrary: i w) (auto simp: nth_Cons add.commute split: nat.splits)

lemma be_bytes_msb:
  assumes "n < 2 ^ 63"
  shows "be_bytes 8 (of_nat n :: u64) ! 0 AND 0x80 = 0"
proof -
  have "be_bytes 8 (of_nat n :: u64) ! 0 = ucast (drop_bit 56 (of_nat n :: u64))"
    by (simp add: be_bytes_def rev_nth le_bytes_nth)
  moreover have "\<not> bit (of_nat n :: u64) 63"
    using assms by (intro not_bit_unat) (simp add: unat_of_nat)
  ultimately show ?thesis
    using and_exp_eq_0_iff_not_bit [of "be_bytes 8 (of_nat n :: u64) ! 0" 7] by (simp add: bit_simps)
qed

definition sent_header :: "byte \<Rightarrow> nat \<Rightarrow> frameHeader" where
  "sent_header op len =
     \<lparr>final = True, reserved = 0, opCode = op, masked = False, mask_key = [0, 0, 0, 0], payload_len = len\<rparr>"

lemma parse_append:
  assumes "op < 16" and "len < 2 ^ 63"
  shows "parseHeader (appendFrameHeader [] op len @ r) = Inr (sent_header op len, length (appendFrameHeader [] op len))"
proof -
  note nib = nibble_header [OF assms(1)]
  consider "len \<le> 125" | "125 < len" "len \<le> 0xffff" | "0xffff < len" by linarith
  then show ?thesis
  proof cases
    case 1
    then have b: "(of_nat len :: byte) < 128" "unat (of_nat len :: byte) = len"
      by (simp_all add: word_less_nat_alt unat_of_nat)
    then have "(of_nat len :: byte) \<noteq> 126" "(of_nat len :: byte) \<noteq> 127" using 1 by (auto simp: word_unat_eq_iff)
    with 1 low_byte [OF b(1)] b(2) nib show ?thesis
      by (simp add: appendFrameHeader_def parseHeader_def header_size_def sent_header_def Let_def)
  next
    case 2
    have s: "sub_bytes ((0x80 OR op) # 126 # be_bytes 2 (of_nat len :: u16) @ r) 2 4 = be_bytes 2 (of_nat len :: u16)"
      by (simp add: sub_bytes_def)
    have u: "unat (of_nat len :: u16) = len" using 2 by (simp add: unat_of_nat)
    from 2 nib s u show ?thesis
      by (simp add: appendFrameHeader_def parseHeader_def header_size_def sent_header_def Let_def be_roundtrip)
  next
    case 3
    have s: "sub_bytes ((0x80 OR op) # 127 # be_bytes 8 (of_nat len :: u64) @ r) 2 10 = be_bytes 8 (of_nat len :: u64)"
      by (simp add: sub_bytes_def)
    have u: "unat (of_nat len :: u64) = len" using assms(2) by (simp add: unat_of_nat)
    have m: "((0x80 OR op) # 127 # be_bytes 8 (of_nat len :: u64) @ r) ! 2 AND 0x80 = 0"
      using be_bytes_msb [OF assms(2)] by (simp add: nth_append nth_Cons')
    from 3 nib s u m show ?thesis
      by (simp add: appendFrameHeader_def parseHeader_def header_size_def sent_header_def Let_def be_roundtrip)
  qed
qed

text \<open>What the parser guarantees of any header it accepts.\<close>

lemma parseHeader_ok:
  assumes "parseHeader data = Inr (h, n)" and "n > 0"
  shows "n \<le> length data \<and> payload_len h < 2 ^ 63 \<and> length (mask_key h) = 4 \<and>
    n = 2 + (if payload_len h \<le> 125 then 0 else if payload_len h \<le> 0xffff then 2 else 8) + (if masked h then 4 else 0)"
proof -
  let ?b = "data ! 1"
  let ?sz = "header_size ?b"
  have len: "length data \<ge> 2" "length data \<ge> ?sz" and n: "n = ?sz" and m: "masked h = (?b AND 0x80 \<noteq> 0)"
    using assms by (auto simp: parseHeader_def Let_def split: if_splits)
  have key: "length (mask_key h) = 4"
  proof -
    have "?sz \<ge> 6" if "?b AND 0x80 \<noteq> 0" using that by (simp add: header_size_def)
    then show ?thesis using assms len by (auto simp: parseHeader_def Let_def split: if_splits)
  qed
  have "?b AND 0x7f < 128" by (rule le_less_trans [OF word_and_le1]) simp
  then have u: "unat (?b AND 0x7f) < 128" by (simp add: word_less_nat_alt)
  consider "?b AND 0x7f = 126" | "?b AND 0x7f = 127" | "?b AND 0x7f \<noteq> 126" "?b AND 0x7f \<noteq> 127" by blast
  then have "payload_len h < 2 ^ 63 \<and>
      ?sz = 2 + (if payload_len h \<le> 125 then 0 else if payload_len h \<le> 0xffff then 2 else 8) + (if masked h then 4 else 0)"
  proof cases
    case 1
    have "payload_len h = unat (be_word (sub_bytes data 2 4) :: u16)" "126 \<le> payload_len h"
      using assms len 1 by (auto simp: parseHeader_def Let_def split: if_splits)
    moreover have "unat (be_word (sub_bytes data 2 4) :: u16) < 2 ^ 16" using unsigned_less [of "be_word (sub_bytes data 2 4) :: u16", where 'a = nat] by simp
    ultimately show ?thesis using 1 m by (simp add: header_size_def)
  next
    case 2
    have p: "payload_len h = unat (be_word (sub_bytes data 2 10) :: u64)" "0xffff < payload_len h" "data ! 2 AND 0x80 = 0"
      using assms len 2 by (auto simp: parseHeader_def Let_def split: if_splits)
    have "length data \<ge> 10" using len(2) 2 by (simp add: header_size_def split: if_splits)
    then have nth: "sub_bytes data 2 10 ! 0 = data ! 2" "length (sub_bytes data 2 10) = 8" by (simp_all add: sub_bytes_def)
    have "\<not> bit (data ! 2) 7" using p(3) and_exp_eq_0_iff_not_bit [of "data ! 2" 7] by simp
    then have "\<not> bit (be_word (sub_bytes data 2 10) :: u64) 63"
      using nth by (simp add: be_word_def bit_le_word rev_nth)
    then have "unat (be_word (sub_bytes data 2 10) :: u64) < 2 ^ 63" by (rule unat_below_bit)
    then show ?thesis using p 2 m by (simp add: header_size_def)
  next
    case 3
    have "payload_len h = unat (?b AND 0x7f)"
      using assms len 3 by (auto simp: parseHeader_def Let_def split: if_splits)
    moreover have "unat (?b AND 0x7f) \<noteq> 126" "unat (?b AND 0x7f) \<noteq> 127" using 3 by (auto simp: word_unat_eq_iff)
    ultimately show ?thesis using u 3 m by (simp add: header_size_def)
  qed
  with len n key show ?thesis by simp
qed

interpretation ws_wire: prefix_codec "\<lambda>(op, len). op < 16 \<and> len < 2 ^ 63" "\<lambda>(op, len). appendFrameHeader [] op len"
  "\<lambda>data. case parseHeader data of Inr (h, n) \<Rightarrow> if n > 0 then Some ((opCode h, payload_len h), drop n data) else None | Inl _ \<Rightarrow> None"
proof unfold_locales
  show "(case parseHeader ((case x of (op, len) \<Rightarrow> appendFrameHeader [] op len) @ r) of
      Inr (h, n) \<Rightarrow> if n > 0 then Some ((opCode h, payload_len h),
        drop n ((case x of (op, len) \<Rightarrow> appendFrameHeader [] op len) @ r)) else None
    | Inl _ \<Rightarrow> None) = Some (x, r)" if "case x of (op, len) \<Rightarrow> op < 16 \<and> len < 2 ^ 63" for x r
    using that parse_append [of "fst x" "snd x" r]
    by (cases x) (simp add: sent_header_def appendFrameHeader_def Let_def)
qed

section \<open>Properties\<close>

text \<open>
  C18. A header the server writes is parsed back to what was written, whatever follows it, so a batch of
  frames splits at the same places; and every header the parser accepts fits in the data, uses the shortest
  encoding of its length and has a length below \<open>2 ^ 63\<close>.
\<close>

theorem ws_header_roundtrip:
  assumes "op < 16" and "len < 2 ^ 63" and "parseHeader data = Inr (h, n)" and "n > 0"
  shows "parseHeader (appendFrameHeader [] op len @ r) = Inr (sent_header op len, length (appendFrameHeader [] op len)) \<and>
    n \<le> length data \<and> payload_len h < 2 ^ 63 \<and>
    n = 2 + (if payload_len h \<le> 125 then 0 else if payload_len h \<le> 0xffff then 2 else 8) + (if masked h then 4 else 0)"
  using parse_append [OF assms(1,2)] parseHeader_ok [OF assms(3,4)] by blast

theorem ws_header_roundtrip_witness:
  "parseHeader (appendFrameHeader [] 1 300 @ [7]) = Inr (sent_header 1 300, 4) \<and>
   parseHeader [0x81, 0x82, 1, 2, 3, 4, 9, 9] =
     Inr (\<lparr>final = True, reserved = 0, opCode = 1, masked = True, mask_key = [1, 2, 3, 4], payload_len = 2\<rparr>, 6)"
proof -
  have p: "parseHeader [0x81, 0x82, 1, 2, 3, 4, 9, 9] =
      Inr (\<lparr>final = True, reserved = 0, opCode = 1, masked = True, mask_key = [1, 2, 3, 4], payload_len = 2\<rparr>, 6)"
    by (simp add: parseHeader_def header_size_def sub_bytes_def Let_def)
  from ws_header_roundtrip [OF _ _ p, of 1 300 "[7]"] p show ?thesis
    by (simp add: appendFrameHeader_def)
qed

text \<open>
  C19. Unmasking by words of 64 bits, 32 and then 8 bytes at a time, is the bytewise exclusive or with the
  key of RFC 6455, for payloads of every length; applied twice it gives the payload back.
\<close>

theorem applyMask_is_bytewise_xor:
  assumes "length key = 4"
  shows "applyMask b key = map (\<lambda>i. b ! i XOR key ! (i mod 4)) [0..<length b] \<and> applyMask (applyMask b key) key = b"
  using assms by (simp add: applyMask_eq mask_bytes_involution) (simp add: mask_bytes_def)

theorem applyMask_is_bytewise_xor_witness: "applyMask [1, 2, 3, 4, 5, 6, 7, 8, 9] [1, 2, 3, 4] = [0, 0, 0, 0, 4, 4, 4, 12, 8]"
  using applyMask_is_bytewise_xor [of "[1, 2, 3, 4]" "[1, 2, 3, 4, 5, 6, 7, 8, 9]"] by (simp add: upt_rec)

end
