(* ===== verification/Httpx.thy ===== *)
theory Httpx
  imports FnetPrelude
begin

text \<open>
  \<^verbatim>\<open>internal/httpx\<close>, and the functions of Go's packages \<^verbatim>\<open>strings\<close>, \<^verbatim>\<open>strconv\<close> and \<^verbatim>\<open>net/textproto\<close> that the HTTP
  code calls, on strings as sequences of bytes. \<^verbatim>\<open>http.Header\<close> is an association list from canonical names to
  the values of a field, in order of insertion.
\<close>

section \<open>Bytes of a string\<close>

definition ord :: "char \<Rightarrow> nat" where
  "ord c = of_char c"

definition is_upper :: "char \<Rightarrow> bool" where "is_upper c \<longleftrightarrow> 65 \<le> ord c \<and> ord c \<le> 90"
definition is_lower :: "char \<Rightarrow> bool" where "is_lower c \<longleftrightarrow> 97 \<le> ord c \<and> ord c \<le> 122"
definition is_digit :: "char \<Rightarrow> bool" where "is_digit c \<longleftrightarrow> 48 \<le> ord c \<and> ord c \<le> 57"

definition to_lower :: "char \<Rightarrow> char" where
  "to_lower c = (if is_upper c then char_of (ord c + 32) else c)"

definition to_upper :: "char \<Rightarrow> char" where
  "to_upper c = (if is_lower c then char_of (ord c - 32) else c)"

text \<open>The token characters of RFC 9110.\<close>

definition token_char :: "char \<Rightarrow> bool" where
  "token_char c \<longleftrightarrow> is_upper c \<or> is_lower c \<or> is_digit c \<or> c \<in> set (''!#$%&*+-.^_`|~'' @ [CHR 0x27])"

section \<open>Package strings\<close>

definition has_prefix :: "string \<Rightarrow> string \<Rightarrow> bool" where
  "has_prefix p s \<longleftrightarrow> take (length p) s = p"

definition has_suffix :: "string \<Rightarrow> string \<Rightarrow> bool" where
  "has_suffix p s \<longleftrightarrow> length p \<le> length s \<and> drop (length s - length p) s = p"

definition strings_Cut :: "string \<Rightarrow> char \<Rightarrow> string \<times> string" where
  "strings_Cut s c = (takeWhile (\<lambda>x. x \<noteq> c) s, drop 1 (dropWhile (\<lambda>x. x \<noteq> c) s))"

text \<open>\<^verbatim>\<open>strings.IndexByte\<close>: \<open>None\<close> is -1.\<close>

definition strings_IndexByte :: "string \<Rightarrow> char \<Rightarrow> nat option" where
  "strings_IndexByte s c = (if c \<in> set s then Some (length (takeWhile (\<lambda>x. x \<noteq> c) s)) else None)"

text \<open>The encodings of Unicode white space, as \<^verbatim>\<open>unicode.IsSpace\<close> has it.\<close>

definition space_encodings :: "string list" where
  "space_encodings =
     map (\<lambda>n. [char_of n]) [9, 10, 11, 12, 13, 32 :: nat] @
     map (map char_of)
       ([[0xc2, 0x85], [0xc2, 0xa0], [0xe1, 0x9a, 0x80]] @ map (\<lambda>n. [0xe2, 0x80, n]) [0x80 ..< 0x8b] @
        [[0xe2, 0x80, 0xa8], [0xe2, 0x80, 0xa9], [0xe2, 0x80, 0xaf], [0xe2, 0x81, 0x9f], [0xe3, 0x80, 0x80 :: nat]])"

function trim_left :: "string \<Rightarrow> string" where
  "trim_left s =
     (case find (\<lambda>e. has_prefix e s \<and> e \<noteq> []) space_encodings of None \<Rightarrow> s | Some e \<Rightarrow> trim_left (drop (length e) s))"
  by pat_completeness auto
termination
proof (relation "measure length")
  fix s e assume "find (\<lambda>e. has_prefix e s \<and> e \<noteq> []) space_encodings = Some e"
  then have "take (length e) s = e" "e \<noteq> []" by (auto simp: find_Some_iff has_prefix_def)
  then have "s \<noteq> []" "0 < length e" by auto
  then show "(drop (length e) s, s) \<in> measure length" by simp
qed simp

declare trim_left.simps [simp del]

function trim_right :: "string \<Rightarrow> string" where
  "trim_right s =
     (case find (\<lambda>e. has_suffix e s \<and> e \<noteq> []) space_encodings of
        None \<Rightarrow> s | Some e \<Rightarrow> trim_right (take (length s - length e) s))"
  by pat_completeness auto
termination
proof (relation "measure length")
  fix s e assume "find (\<lambda>e. has_suffix e s \<and> e \<noteq> []) space_encodings = Some e"
  then have "length e \<le> length s" "e \<noteq> []" by (auto simp: find_Some_iff has_suffix_def)
  then have "length s - length e < length s" by (cases e) auto
  then show "(take (length s - length e) s, s) \<in> measure length" by simp
qed simp

declare trim_right.simps [simp del]

definition strings_TrimSpace :: "string \<Rightarrow> string" where
  "strings_TrimSpace s = trim_right (trim_left s)"

text \<open>
  \<^verbatim>\<open>strings.EqualFold(s, t)\<close> for a \<open>t\<close> of ASCII characters: letters match in either case, and besides them the
  Kelvin sign folds to \<open>k\<close> and the long s to \<open>s\<close>.
\<close>

fun strings_EqualFold :: "string \<Rightarrow> string \<Rightarrow> bool" where
  "strings_EqualFold s [] \<longleftrightarrow> s = []"
| "strings_EqualFold s (c # cs) \<longleftrightarrow>
     s \<noteq> [] \<and> to_lower (s ! 0) = to_lower c \<and> strings_EqualFold (drop 1 s) cs \<or>
     to_lower c = CHR ''k'' \<and> has_prefix (map char_of [0xe2, 0x84, 0xaa :: nat]) s \<and> strings_EqualFold (drop 3 s) cs \<or>
     to_lower c = CHR ''s'' \<and> has_prefix (map char_of [0xc5, 0xbf :: nat]) s \<and> strings_EqualFold (drop 2 s) cs"

fun strings_Join :: "string list \<Rightarrow> string \<Rightarrow> string" where
  "strings_Join [] sep = []"
| "strings_Join [x] sep = x"
| "strings_Join (x # y # ys) sep = x @ sep @ strings_Join (y # ys) sep"

section \<open>Package strconv\<close>

definition digits_value :: "string \<Rightarrow> nat" where
  "digits_value s = foldl (\<lambda>n c. 10 * n + (ord c - 48)) 0 s"

text \<open>\<^verbatim>\<open>strconv.ParseUint(s, 10, bits)\<close>.\<close>

definition strconv_ParseUint :: "string \<Rightarrow> nat \<Rightarrow> nat option" where
  "strconv_ParseUint s bits = (if s \<noteq> [] \<and> list_all is_digit s \<and> digits_value s < 2 ^ bits then Some (digits_value s) else None)"

section \<open>Package net/textproto\<close>

fun canonical_loop :: "bool \<Rightarrow> string \<Rightarrow> string" where
  "canonical_loop upper [] = []"
| "canonical_loop upper (c # cs) = (if upper then to_upper c else to_lower c) # canonical_loop (c = CHR ''-'') cs"

definition CanonicalMIMEHeaderKey :: "string \<Rightarrow> string" where
  "CanonicalMIMEHeaderKey s = (if list_all token_char s then canonical_loop True s else s)"

type_synonym http_header = "(string \<times> string list) list"

definition header_get :: "string \<Rightarrow> http_header \<Rightarrow> string list option" where
  "header_get k h = map_of h k"

text \<open>\<^verbatim>\<open>h[k] = append(h[k], v)\<close> and \<^verbatim>\<open>delete(h, k)\<close>.\<close>

fun header_append :: "string \<Rightarrow> string list \<Rightarrow> http_header \<Rightarrow> http_header" where
  "header_append k vs [] = [(k, vs)]"
| "header_append k vs ((k', ws) # h) = (if k' = k then (k', ws @ vs) # h else (k', ws) # header_append k vs h)"

definition header_set :: "string \<Rightarrow> string list \<Rightarrow> http_header \<Rightarrow> http_header" where
  "header_set k vs h = (if k \<in> fst ` set h then map (\<lambda>(k', ws). (k', if k' = k then vs else ws)) h else h @ [(k, vs)])"

definition header_del :: "string \<Rightarrow> http_header \<Rightarrow> http_header" where
  "header_del k h = filter (\<lambda>(k', ws). k' \<noteq> k) h"

section \<open>Package httpx\<close>

text \<open>The two loops of \<^verbatim>\<open>HasToken\<close>.\<close>

function has_token_in :: "string \<Rightarrow> string \<Rightarrow> bool" where
  "has_token_in v tok =
     (if v = [] then False
      else let (t, rest) = strings_Cut v (CHR '','') in
        if strings_EqualFold (strings_TrimSpace t) tok then True else has_token_in rest tok)"
  by pat_completeness auto
termination
proof (relation "measure (\<lambda>(v, tok). length v)")
  fix v tok x t rest assume "v \<noteq> []" "x = strings_Cut v (CHR '','')" "(t, rest) = x"
  then have "length rest = length (dropWhile (\<lambda>c. c \<noteq> CHR '','') v) - 1" "v \<noteq> []" by (auto simp: strings_Cut_def)
  moreover have "length (dropWhile (\<lambda>c. c \<noteq> CHR '','') v) \<le> length v" by (rule length_dropWhile_le)
  ultimately show "((rest, tok), (v, tok)) \<in> measure (\<lambda>(v, tok). length v)" by (cases v) auto
qed simp

declare has_token_in.simps [simp del]

definition HasToken :: "string list \<Rightarrow> string \<Rightarrow> bool" where
  "HasToken values tok = list_ex (\<lambda>v. has_token_in v tok) values"

text \<open>\<^verbatim>\<open>DeadlineAfter\<close>: \<open>now\<close> is the time of the call; a deadline of 0 is none.\<close>

definition DeadlineAfter :: "int \<Rightarrow> int \<Rightarrow> int" where
  "DeadlineAfter now timeout = (if timeout \<le> 0 then 0 else now + timeout)"

section \<open>Facts\<close>

lemma header_get_append: "header_get k (header_append k' vs h) =
    (if k = k' then Some ((case header_get k h of None \<Rightarrow> [] | Some ws \<Rightarrow> ws) @ vs) else header_get k h)"
  by (induction k' vs h rule: header_append.induct) (auto simp: header_get_def)

lemma header_get_del: "header_get k (header_del k' h) = (if k = k' then None else header_get k h)"
  by (induction h) (auto simp: header_get_def header_del_def)

lemma header_get_set: "header_get k (header_set k' vs h) = (if k = k' then Some vs else header_get k h)"
proof -
  have "map_of (map (\<lambda>(a, ws). (a, if a = k' then vs else ws)) h) k = (if k = k' then map_option (\<lambda>_. vs) (map_of h k) else map_of h k)"
    by (induction h) auto
  moreover have "k' \<in> fst ` set h \<longleftrightarrow> map_of h k' \<noteq> None" by (metis map_of_eq_None_iff)
  ultimately show ?thesis by (auto simp: header_get_def header_set_def map_add_def split: option.splits)
qed

lemma header_names:
  "fst ` set (header_append k vs h) = insert k (fst ` set h)"
  "fst ` set (header_del k h) = fst ` set h - {k}"
  "fst ` set (header_set k vs h) = insert k (fst ` set h)"
proof -
  show "fst ` set (header_append k vs h) = insert k (fst ` set h)"
    by (induction k vs h rule: header_append.induct) auto
  show "fst ` set (header_del k h) = fst ` set h - {k}" by (auto simp: header_del_def)
  show "fst ` set (header_set k vs h) = insert k (fst ` set h)"
    by (force simp: header_set_def image_image case_prod_unfold)
qed

text \<open>\<^verbatim>\<open>HasToken\<close> looks at every element of the comma-separated lists.\<close>

fun comma_parts :: "string \<Rightarrow> string list" where
  "comma_parts [] = [[]]"
| "comma_parts (c # cs) = (if c = CHR '','' then [] # comma_parts cs
     else case comma_parts cs of [] \<Rightarrow> [[c]] | p # ps \<Rightarrow> (c # p) # ps)"

lemma comma_parts_cut: "comma_parts v = fst (strings_Cut v (CHR '','')) #
    (if CHR '','' \<in> set v then comma_parts (snd (strings_Cut v (CHR '',''))) else [])"
  by (induction v) (auto simp: strings_Cut_def)

lemma trim_Nil [simp]: "strings_TrimSpace [] = []"
proof -
  have "find (\<lambda>e. has_prefix e [] \<and> e \<noteq> []) xs = None" "find (\<lambda>e. has_suffix e [] \<and> e \<noteq> []) xs = None" for xs
    by (induction xs) (auto simp: has_prefix_def has_suffix_def)
  then show ?thesis by (simp add: strings_TrimSpace_def trim_left.simps [of "[]"] trim_right.simps [of "[]"])
qed

lemma has_token_in_parts:
  assumes "tok \<noteq> []"
  shows "has_token_in v tok \<longleftrightarrow> list_ex (\<lambda>t. strings_EqualFold (strings_TrimSpace t) tok) (comma_parts v)"
  using assms
proof (induction v tok rule: has_token_in.induct)
  case (1 v tok)
  show ?case
  proof (cases "v = []")
    case True
    with "1.prems" show ?thesis by (cases tok) (auto simp: has_token_in.simps has_prefix_def)
  next
    case False
    show ?thesis
    proof (cases "CHR '','' \<in> set v")
      case True
      with False "1.IH" [OF False refl prod.collapse] "1.prems" show ?thesis
        by (subst has_token_in.simps, subst comma_parts_cut) (auto simp: case_prod_unfold)
    next
      case nc: False
      then have "takeWhile (\<lambda>x. x \<noteq> CHR '','') v = v" "dropWhile (\<lambda>x. x \<noteq> CHR '','') v = []"
        by (auto simp: takeWhile_eq_all_conv dropWhile_eq_Nil_conv)
      then have "strings_Cut v (CHR '','') = (v, [])" unfolding strings_Cut_def by (metis drop_Nil)
      with False nc show ?thesis by (subst has_token_in.simps, subst comma_parts_cut) (simp add: has_token_in.simps [of "[]"])
    qed
  qed
qed

end
