(* ===== verification/WsConn.thy ===== *)
theory WsConn
  imports WsFrame Httpx
begin

text \<open>
  \<^verbatim>\<open>websocket/conn.go\<close>: a connection that receives frames, reassembles messages, answers pings and close
  frames, and batches what is written while a batch of frames is processed (the cork). The engine's
  connection below is the sequence of bytes handed to it (\<open>wire\<close>), the deadline set on it and whether it was
  closed. The handler gives, for a message, the calls it makes and whether it panics. \<open>frames\<close> and
  \<open>delivered\<close> are history: the frames accepted for sending and the messages passed to \<^verbatim>\<open>OnMessage\<close>.
\<close>

section \<open>State\<close>

datatype ws_phase = PhaseOpened | PhaseOpening | PhaseClosedEarly

datatype close_reason = Violation ws_error | MessageTooBig | HandlerPanic | PeerClosed u16 bytes | EngineClosed nat

datatype write_error = NetErrClosed | ErrInvalidMessage

definition maxCorkBytes :: nat where "maxCorkBytes = 65536"
definition maxCopiedPayload :: nat where "maxCopiedPayload = 4096"
definition maxSmallFrameSize :: nat where "maxSmallFrameSize = 128"
definition closeTimeout :: int where "closeTimeout = 5000000000"

definition StatusNormalClosure :: u16 where "StatusNormalClosure = 1000"
definition StatusProtocolError :: u16 where "StatusProtocolError = 1002"
definition StatusNoStatusRcvd :: u16 where "StatusNoStatusRcvd = 1005"
definition StatusInvalidFramePayloadData :: u16 where "StatusInvalidFramePayloadData = 1007"
definition StatusMessageTooBig :: u16 where "StatusMessageTooBig = 1009"
definition StatusInternalServerError :: u16 where "StatusInternalServerError = 1011"

record ws_conn =
  phase :: ws_phase
  ws_closing :: bool
  messageOpCode :: byte
  receiving :: bool
  messageFinished :: bool
  corking :: bool
  corkBuffer :: "bytes option"
  message :: bytes
  maxMessageSize :: nat
  idleTimeout :: int
  messageTimeout :: int
  ws_closeErr :: "close_reason option"
  ws_deadline :: int
  conn_closed :: bool
  wire :: bytes
  frames :: "(byte \<times> bytes) list"
  delivered :: "(byte \<times> bytes) list"
  closeCalls :: "close_reason option list"

section \<open>Writing\<close>

definition conn_write :: "bytes \<Rightarrow> ws_conn \<Rightarrow> ws_conn" where
  "conn_write b c = c\<lparr>wire := wire c @ b\<rparr>"

definition writeFrame :: "byte \<Rightarrow> bytes \<Rightarrow> ws_conn \<Rightarrow> ws_conn" where
  "writeFrame op payload c =
     (let header = appendFrameHeader [] op (length payload);
          c1 = c\<lparr>frames := frames c @ [(op, payload)]\<rparr>
      in if length header + length payload \<le> maxSmallFrameSize then conn_write (header @ payload) c1
         else if length payload \<le> maxCopiedPayload then
           let frame = [] @ header; frame = frame @ payload in conn_write frame c1
         else conn_write (concat [header, payload]) c1)"

definition writeCorked :: "byte \<Rightarrow> bytes \<Rightarrow> ws_conn \<Rightarrow> ws_conn" where
  "writeCorked op payload c =
     (case corkBuffer c of
        None \<Rightarrow> c
      | Some b \<Rightarrow>
          let header = appendFrameHeader [] op (length payload);
              c1 = c\<lparr>frames := frames c @ [(op, payload)]\<rparr>
          in if length b + length header + length payload \<le> maxCorkBytes
             then c1\<lparr>corkBuffer := Some ((b @ header) @ payload)\<rparr>
             else (conn_write (concat [b, header, payload]) c1)\<lparr>corkBuffer := Some []\<rparr>)"

definition WriteMessage :: "byte \<Rightarrow> bytes \<Rightarrow> ws_conn \<Rightarrow> ws_conn \<times> write_error option" where
  "WriteMessage op data c =
     (if \<not> (op = OpText \<or> op = OpBinary \<or> (op = OpPing \<or> op = OpPong) \<and> length data \<le> maxControlPayload)
      then (c, Some ErrInvalidMessage)
      else if ws_closing c then (c, Some NetErrClosed)
      else if corkBuffer c \<noteq> None then (writeCorked op data c, None)
      else (writeFrame op data c, None))"

definition uncorkLocked :: "ws_conn \<Rightarrow> ws_conn" where
  "uncorkLocked c =
     (case corkBuffer c of
        None \<Rightarrow> c
      | Some b \<Rightarrow> (if length b > 0 then conn_write b c else c)\<lparr>corkBuffer := None\<rparr>)"

definition cork :: "ws_conn \<Rightarrow> ws_conn" where
  "cork c = c\<lparr>corking := True, corkBuffer := (case corkBuffer c of None \<Rightarrow> Some [] | Some b \<Rightarrow> Some b)\<rparr>"

definition uncork :: "ws_conn \<Rightarrow> ws_conn" where
  "uncork c = uncorkLocked (c\<lparr>corking := False\<rparr>)"

definition closeWith :: "int \<Rightarrow> u16 \<Rightarrow> close_reason option \<Rightarrow> ws_conn \<Rightarrow> ws_conn" where
  "closeWith now code err c =
     (if ws_closing c then c
      else
        let c1 = c\<lparr>ws_closing := True, ws_closeErr := err\<rparr>;
            payload = (if code \<noteq> 0 then be_bytes 2 code else []);
            c2 = writeFrame OpClose payload (uncorkLocked c1)
        in c2\<lparr>ws_deadline := now + closeTimeout, conn_closed := True\<rparr>)"

definition ws_Close :: "int \<Rightarrow> ws_conn \<Rightarrow> ws_conn" where
  "ws_Close now c = closeWith now StatusNormalClosure None c"

section \<open>Receiving\<close>

datatype ws_api = Ws_WriteMessage byte bytes | Ws_Close

fun ws_call :: "int \<Rightarrow> ws_api \<Rightarrow> ws_conn \<Rightarrow> ws_conn" where
  "ws_call now (Ws_WriteMessage op data) c = fst (WriteMessage op data c)"
| "ws_call now Ws_Close c = ws_Close now c"

type_synonym ws_handler = "byte \<Rightarrow> bytes \<Rightarrow> ws_api list \<times> bool"

text \<open>Each step says whether a callback panicked.\<close>

definition deliver :: "ws_handler \<Rightarrow> int \<Rightarrow> byte \<Rightarrow> bytes \<Rightarrow> ws_conn \<Rightarrow> ws_conn \<times> bool" where
  "deliver h now op data c =
     (let c1 = c\<lparr>messageFinished := True\<rparr> in
      if op = OpText \<and> \<not> utf8_valid data
      then (closeWith now StatusInvalidFramePayloadData (Some (Violation ErrInvalidUTF8)) c1, False)
      else if ws_closing c1 then (c1, False)
      else (fold (ws_call now) (fst (h op data)) (c1\<lparr>delivered := delivered c1 @ [(op, data)]\<rparr>), snd (h op data)))"

definition onCloseFrame :: "int \<Rightarrow> bytes \<Rightarrow> ws_conn \<Rightarrow> ws_conn" where
  "onCloseFrame now payload c =
     (if length payload = 0 then closeWith now 0 (Some (PeerClosed StatusNoStatusRcvd [])) c
      else case parseClosePayload payload of
             Inl e \<Rightarrow> closeWith now StatusProtocolError (Some (Violation e)) c
           | Inr (code, reason) \<Rightarrow> closeWith now code (Some (PeerClosed code reason)) c)"

text \<open>A fragment of a message: the first one sets its type.\<close>

definition add_fragment :: "frameHeader \<Rightarrow> bytes \<Rightarrow> ws_conn \<Rightarrow> ws_conn" where
  "add_fragment fh payload c =
     (let c1 = (if opCode fh \<noteq> OpContinuation then c\<lparr>messageOpCode := opCode fh\<rparr> else c)
      in c1\<lparr>message := message c1 @ payload\<rparr>)"

text \<open>The payload of a frame, once it has arrived and was unmasked.\<close>

definition onFrame :: "ws_handler \<Rightarrow> int \<Rightarrow> frameHeader \<Rightarrow> bytes \<Rightarrow> ws_conn \<Rightarrow> ws_conn \<times> bool" where
  "onFrame h now fh payload c =
     (if opCode fh = OpPing then (fst (WriteMessage OpPong payload c), False)
      else if opCode fh = OpPong then (c, False)
      else if opCode fh = OpClose then (onCloseFrame now payload c, False)
      else if final fh \<and> opCode fh \<noteq> OpContinuation then deliver h now (opCode fh) payload c
      else
        let c2 = add_fragment fh payload c
        in if final fh then
             let d = deliver h now (messageOpCode c2) (message c2) c2
             in (if snd d then fst d else (fst d)\<lparr>message := [], messageOpCode := 0\<rparr>, snd d)
           else (c2, False))"

definition readFrame :: "ws_handler \<Rightarrow> int \<Rightarrow> bytes \<Rightarrow> ws_conn \<Rightarrow> nat \<times> ws_conn \<times> bool" where
  "readFrame h now data c =
     (case parseHeader data of
        Inl e \<Rightarrow> (0, closeWith now StatusProtocolError (Some (Violation e)) c, False)
      | Inr (fh, start) \<Rightarrow>
          if start = 0 then (0, c, False)
          else case checkHeader fh (messageOpCode c \<noteq> 0) of
                 Some e \<Rightarrow> (0, closeWith now StatusProtocolError (Some (Violation e)) c, False)
               | None \<Rightarrow>
                   if \<not> isControl (opCode fh) \<and> int (payload_len fh) > int (maxMessageSize c) - int (length (message c))
                   then (0, closeWith now StatusMessageTooBig (Some MessageTooBig) c, False)
                   else if length data - start < payload_len fh then (0, c, False)
                   else
                     let end = start + payload_len fh;
                         payload = applyMask (sub_bytes data start end) (mask_key fh);
                         c1 = (if end < length data \<and> \<not> corking c then cork c else c)
                     in (end, onFrame h now fh payload c1))"

definition updateDeadline :: "int \<Rightarrow> bool \<Rightarrow> ws_conn \<Rightarrow> ws_conn" where
  "updateDeadline now pending c =
     (let finished = messageFinished c;
          c1 = c\<lparr>messageFinished := False\<rparr>;
          c2 = (if \<not> pending then c1\<lparr>receiving := False, ws_deadline := DeadlineAfter now (idleTimeout c1)\<rparr>
                else if \<not> receiving c1 \<or> finished
                then c1\<lparr>receiving := True, ws_deadline := DeadlineAfter now (messageTimeout c1)\<rparr>
                else c1)
      in if ws_closing c2 then c2\<lparr>ws_deadline := now + closeTimeout\<rparr> else c2)"

lemma readFrame_progress: "readFrame h now data c = (n, c', p) \<Longrightarrow> n \<noteq> 0 \<Longrightarrow> 0 < n \<and> n \<le> length data"
  by (auto simp: readFrame_def Let_def dest!: parseHeader_ok split: sum.splits prod.splits option.splits if_splits)

text \<open>The loop of \<^verbatim>\<open>OnData\<close>: what is left of the data, and whether a callback panicked.\<close>

function read_loop :: "ws_handler \<Rightarrow> int \<Rightarrow> bytes \<Rightarrow> ws_conn \<Rightarrow> bytes \<times> ws_conn \<times> bool" where
  "read_loop h now data c =
     (if ws_closing c then (data, c, False)
      else let (n, c1, panic) = readFrame h now data c
           in if panic then (data, c1, True)
              else if n = 0 then (data, c1, False)
              else read_loop h now (drop n data) c1)"
  by pat_completeness auto
termination
  by (relation "measure (\<lambda>(h, now, data, c). length data)") (auto dest!: readFrame_progress [OF sym])

declare read_loop.simps [simp del]

text \<open>\<^verbatim>\<open>OnData\<close>: the bytes consumed, the state, and whether a callback panicked (then nothing is returned).\<close>

definition ws_panic :: "int \<Rightarrow> ws_conn \<Rightarrow> ws_conn" where
  "ws_panic now c = closeWith now StatusInternalServerError (Some HandlerPanic) (uncork c)"

definition ws_data_end :: "int \<Rightarrow> bytes \<Rightarrow> bytes \<Rightarrow> ws_conn \<Rightarrow> nat \<times> ws_conn" where
  "ws_data_end now data rest c =
     (let c1 = (if corking c then uncork c else c) in
      if ws_closing c1 then (length data, c1)
      else (length data - length rest, updateDeadline now (messageOpCode c1 \<noteq> 0 \<or> length rest > 0) c1))"

definition ws_OnData :: "ws_handler \<Rightarrow> int \<Rightarrow> bytes \<Rightarrow> ws_conn \<Rightarrow> nat \<times> ws_conn \<times> bool" where
  "ws_OnData h now data c =
     (if phase c \<noteq> PhaseOpened then (0, c, False)
      else
        let (rest, c1, panic) = read_loop h now data c in
        if panic then (0, ws_panic now c1, True)
        else let (n, c2) = ws_data_end now data rest c1 in (n, c2, False))"

definition ws_OnClose :: "close_reason option \<Rightarrow> ws_conn \<Rightarrow> ws_conn" where
  "ws_OnClose err c =
     (let c1 = c\<lparr>message := []\<rparr>;
          c2 = (if \<not> ws_closing c1 then c1\<lparr>ws_closing := True, ws_closeErr := err\<rparr> else c1)
      in if phase c2 = PhaseOpening then c2\<lparr>phase := PhaseClosedEarly\<rparr>
         else c2\<lparr>closeCalls := closeCalls c2 @ [ws_closeErr c2]\<rparr>)"

text \<open>The end of \<^verbatim>\<open>Upgrade\<close>, once \<^verbatim>\<open>OnOpen\<close> has returned or panicked: the connection is opened, or the missing
  \<^verbatim>\<open>OnClose\<close> is made up for.\<close>

definition ws_opened :: "int \<Rightarrow> bool \<Rightarrow> ws_conn \<Rightarrow> ws_conn" where
  "ws_opened now panic c =
     (let c1 = (if panic then closeWith now StatusInternalServerError (Some HandlerPanic) c else c)
      in if phase c1 = PhaseOpening then c1\<lparr>phase := PhaseOpened\<rparr>
         else c1\<lparr>closeCalls := closeCalls c1 @ [ws_closeErr c1]\<rparr>)"

section \<open>The same connection without batching\<close>

text \<open>What a peer and the handler can see: the frames sent, the messages delivered, the state of the
  reassembly and of the close. The specification has no cork, no wire and no deadlines.\<close>

record ws_view =
  v_closing :: bool
  v_err :: "close_reason option"
  v_op :: byte
  v_message :: bytes
  v_max :: nat
  v_frames :: "(byte \<times> bytes) list"
  v_delivered :: "(byte \<times> bytes) list"

definition view :: "ws_conn \<Rightarrow> ws_view" where
  "view c = \<lparr>v_closing = ws_closing c, v_err = ws_closeErr c, v_op = messageOpCode c, v_message = message c,
     v_max = maxMessageSize c, v_frames = frames c, v_delivered = delivered c\<rparr>"

definition v_write :: "byte \<Rightarrow> bytes \<Rightarrow> ws_view \<Rightarrow> ws_view" where
  "v_write op data v =
     (if (op = OpText \<or> op = OpBinary \<or> (op = OpPing \<or> op = OpPong) \<and> length data \<le> maxControlPayload) \<and> \<not> v_closing v
      then v\<lparr>v_frames := v_frames v @ [(op, data)]\<rparr> else v)"

definition v_close :: "u16 \<Rightarrow> close_reason option \<Rightarrow> ws_view \<Rightarrow> ws_view" where
  "v_close code err v =
     (if v_closing v then v
      else v\<lparr>v_closing := True, v_err := err,
             v_frames := v_frames v @ [(OpClose, if code \<noteq> 0 then be_bytes 2 code else [])]\<rparr>)"

fun v_call :: "ws_api \<Rightarrow> ws_view \<Rightarrow> ws_view" where
  "v_call (Ws_WriteMessage op data) v = v_write op data v"
| "v_call Ws_Close v = v_close StatusNormalClosure None v"

definition v_deliver :: "ws_handler \<Rightarrow> byte \<Rightarrow> bytes \<Rightarrow> ws_view \<Rightarrow> ws_view \<times> bool" where
  "v_deliver h op data v =
     (if op = OpText \<and> \<not> utf8_valid data then (v_close StatusInvalidFramePayloadData (Some (Violation ErrInvalidUTF8)) v, False)
      else if v_closing v then (v, False)
      else (fold v_call (fst (h op data)) (v\<lparr>v_delivered := v_delivered v @ [(op, data)]\<rparr>), snd (h op data)))"

definition v_onClose :: "bytes \<Rightarrow> ws_view \<Rightarrow> ws_view" where
  "v_onClose payload v =
     (if length payload = 0 then v_close 0 (Some (PeerClosed StatusNoStatusRcvd [])) v
      else case parseClosePayload payload of
             Inl e \<Rightarrow> v_close StatusProtocolError (Some (Violation e)) v
           | Inr (code, reason) \<Rightarrow> v_close code (Some (PeerClosed code reason)) v)"

definition v_add :: "frameHeader \<Rightarrow> bytes \<Rightarrow> ws_view \<Rightarrow> ws_view" where
  "v_add fh payload v =
     (let v1 = (if opCode fh \<noteq> OpContinuation then v\<lparr>v_op := opCode fh\<rparr> else v)
      in v1\<lparr>v_message := v_message v1 @ payload\<rparr>)"

definition v_frame :: "ws_handler \<Rightarrow> frameHeader \<Rightarrow> bytes \<Rightarrow> ws_view \<Rightarrow> ws_view \<times> bool" where
  "v_frame h fh payload v =
     (if opCode fh = OpPing then (v_write OpPong payload v, False)
      else if opCode fh = OpPong then (v, False)
      else if opCode fh = OpClose then (v_onClose payload v, False)
      else if final fh \<and> opCode fh \<noteq> OpContinuation then v_deliver h (opCode fh) payload v
      else
        let v2 = v_add fh payload v
        in if final fh then
             let d = v_deliver h (v_op v2) (v_message v2) v2
             in (if snd d then fst d else (fst d)\<lparr>v_message := [], v_op := 0\<rparr>, snd d)
           else (v2, False))"

definition v_read :: "ws_handler \<Rightarrow> bytes \<Rightarrow> ws_view \<Rightarrow> nat \<times> ws_view \<times> bool" where
  "v_read h data v =
     (case parseHeader data of
        Inl e \<Rightarrow> (0, v_close StatusProtocolError (Some (Violation e)) v, False)
      | Inr (fh, start) \<Rightarrow>
          if start = 0 then (0, v, False)
          else case checkHeader fh (v_op v \<noteq> 0) of
                 Some e \<Rightarrow> (0, v_close StatusProtocolError (Some (Violation e)) v, False)
               | None \<Rightarrow>
                   if \<not> isControl (opCode fh) \<and> int (payload_len fh) > int (v_max v) - int (length (v_message v))
                   then (0, v_close StatusMessageTooBig (Some MessageTooBig) v, False)
                   else if length data - start < payload_len fh then (0, v, False)
                   else (start + payload_len fh,
                     v_frame h fh (applyMask (sub_bytes data start (start + payload_len fh)) (mask_key fh)) v))"

lemma v_read_progress: "v_read h data v = (n, v', p) \<Longrightarrow> n \<noteq> 0 \<Longrightarrow> 0 < n \<and> n \<le> length data"
  by (auto simp: v_read_def Let_def dest!: parseHeader_ok split: sum.splits prod.splits option.splits if_splits)

function v_loop :: "ws_handler \<Rightarrow> bytes \<Rightarrow> ws_view \<Rightarrow> bytes \<times> ws_view \<times> bool" where
  "v_loop h data v =
     (if v_closing v then (data, v, False)
      else let (n, v1, panic) = v_read h data v
           in if panic then (data, v1, True)
              else if n = 0 then (data, v1, False)
              else v_loop h (drop n data) v1)"
  by pat_completeness auto
termination by (relation "measure (\<lambda>(h, data, v). length data)") (auto dest!: v_read_progress [OF sym])

declare v_loop.simps [simp del]

section \<open>Batching changes nothing\<close>

lemma view_closing [simp]: "v_closing (view c) = ws_closing c"
  by (simp add: view_def)

lemma view_frame_writers:
  "view (writeFrame op p c) = (view c)\<lparr>v_frames := v_frames (view c) @ [(op, p)]\<rparr>"
  "corkBuffer c \<noteq> None \<Longrightarrow> view (writeCorked op p c) = (view c)\<lparr>v_frames := v_frames (view c) @ [(op, p)]\<rparr>"
  "view (uncorkLocked c) = view c" "view (uncork c) = view c" "view (cork c) = view c"
  "view (updateDeadline now b c) = view c"
  by (auto simp: view_def writeFrame_def writeCorked_def uncorkLocked_def uncork_def cork_def conn_write_def
      updateDeadline_def Let_def split: option.splits)

lemma view_WriteMessage: "view (fst (WriteMessage op data c)) = v_write op data (view c)"
proof (cases "op = OpText \<or> op = OpBinary \<or> (op = OpPing \<or> op = OpPong) \<and> length data \<le> maxControlPayload")
  case True
  then show ?thesis by (auto simp: WriteMessage_def v_write_def view_frame_writers)
qed (auto simp: WriteMessage_def v_write_def)

lemma view_closeWith: "view (closeWith now code err c) = v_close code err (view c)"
proof -
  have "view (c\<lparr>ws_deadline := d, conn_closed := b\<rparr>) = view c" for c d b by (simp add: view_def)
  moreover have "view (c\<lparr>ws_closing := True, ws_closeErr := err\<rparr>) = (view c)\<lparr>v_closing := True, v_err := err\<rparr>"
    by (simp add: view_def)
  ultimately show ?thesis by (simp add: closeWith_def v_close_def Let_def view_frame_writers)
qed

lemma view_call: "view (ws_call now a c) = v_call a (view c)"
  by (cases a) (simp_all add: view_WriteMessage ws_Close_def view_closeWith)

lemma view_calls: "view (fold (ws_call now) as c) = fold v_call as (view c)"
  by (induction as arbitrary: c) (simp_all add: view_call)

definition view2 :: "ws_conn \<times> bool \<Rightarrow> ws_view \<times> bool" where
  "view2 r = (view (fst r), snd r)"

lemma view_deliver: "v_deliver h op data (view c) = view2 (deliver h now op data c)"
proof -
  have "view (c\<lparr>messageFinished := True\<rparr>) = view c"
    "view (c\<lparr>messageFinished := True, delivered := d\<rparr>) = (view c)\<lparr>v_delivered := d\<rparr>" "v_delivered (view c) = delivered c" for d
    by (simp_all add: view_def)
  then show ?thesis
    by (simp add: deliver_def v_deliver_def Let_def view_closeWith view_calls view2_def)
qed

lemma view_onCloseFrame: "view (onCloseFrame now payload c) = v_onClose payload (view c)"
  by (auto simp: onCloseFrame_def v_onClose_def view_closeWith split: sum.splits)

lemma view_onFrame: "v_frame h fh payload (view c) = view2 (onFrame h now fh payload c)"
proof -
  have "v_add fh payload (view c) = view (add_fragment fh payload c)"
    by (simp add: view_def v_add_def add_fragment_def Let_def)
  moreover have "v_op (view c) = messageOpCode c" "v_message (view c) = message c"
    "view (c\<lparr>message := [], messageOpCode := 0\<rparr>) = (view c)\<lparr>v_message := [], v_op := 0\<rparr>" for c
    by (simp_all add: view_def)
  ultimately show ?thesis
    by (simp add: onFrame_def v_frame_def Let_def view_deliver [of _ _ _ _ now] view_WriteMessage view_onCloseFrame view2_def)
qed

lemma view_readFrame: "v_read h data (view c) = (fst (readFrame h now data c), view2 (snd (readFrame h now data c)))"
proof -
  have v: "v_op (view c) = messageOpCode c" "v_max (view c) = maxMessageSize c" "v_message (view c) = message c"
    by (simp_all add: view_def)
  have k: "(view (fst (onFrame h now fh pl c')), snd (onFrame h now fh pl c')) = v_frame h fh pl (view c)"
    if "c' = c \<or> c' = cork c" for fh pl c'
    using that view_onFrame [of h fh pl c' now] view_frame_writers(5) [of c] by (auto simp: view2_def)
  show ?thesis
    unfolding v_read_def readFrame_def
    by (simp add: v k view_closeWith view2_def Let_def split: sum.splits prod.splits option.splits)
qed

lemma view_loop:
  "v_loop h data (view c) =
     (case read_loop h now data c of (rest, c', p) \<Rightarrow> (rest, view c', p))"
proof (induction h now data c rule: read_loop.induct)
  case (1 h now data c)
  obtain n c1 p where r: "readFrame h now data c = (n, c1, p)" by (metis prod_cases3)
  have "v_read h data (view c) = (n, view c1, p)" using view_readFrame [of h data c now] r by (simp add: view2_def)
  with 1 r show ?case
    by (subst v_loop.simps, subst read_loop.simps) (auto split: prod.splits)
qed

section \<open>Chunks\<close>

lemma sub_bytes_prefix: "hi \<le> length xs \<Longrightarrow> sub_bytes (xs @ ys) lo hi = sub_bytes xs lo hi"
  by (simp add: sub_bytes_def)

lemma parseHeader_more:
  assumes "parseHeader data = Inr (fh, n)" and "n > 0"
  shows "parseHeader (data @ ys) = Inr (fh, n)"
proof -
  have len: "length data \<ge> 2" "length data \<ge> header_size (data ! 1)"
    using assms by (auto simp: parseHeader_def Let_def split: if_splits)
  have sz: "header_size b \<ge> 2" "b AND 0x7f = 126 \<Longrightarrow> header_size b \<ge> 4" "b AND 0x7f = 127 \<Longrightarrow> header_size b \<ge> 10" for b
    by (simp_all add: header_size_def)
  have "(data @ ys) ! 0 = data ! 0" "(data @ ys) ! 1 = data ! 1" using len(1) by (auto simp: nth_append)
  moreover have "(data @ ys) ! 2 = data ! 2" if "data ! 1 AND 0x7f = 127"
    using sz(3) [OF that] len(2) by (simp add: nth_append)
  moreover have "sub_bytes (data @ ys) 2 4 = sub_bytes data 2 4" if "data ! 1 AND 0x7f = 126"
    using sz(2) [OF that] len(2) by (simp add: sub_bytes_prefix)
  moreover have "sub_bytes (data @ ys) 2 10 = sub_bytes data 2 10" if "data ! 1 AND 0x7f = 127"
    using sz(3) [OF that] len(2) by (simp add: sub_bytes_prefix)
  moreover have "sub_bytes (data @ ys) (header_size (data ! 1) - 4) (header_size (data ! 1)) =
      sub_bytes data (header_size (data ! 1) - 4) (header_size (data ! 1))"
    using len(2) by (simp add: sub_bytes_prefix)
  ultimately show ?thesis
    using assms len by (auto simp: parseHeader_def Let_def split: if_splits)
qed

lemma v_read_more:
  assumes "v_read h data v = (n, v', p)" and "n > 0"
  shows "v_read h (data @ ys) v = (n, v', p)"
proof -
  obtain fh start where p: "parseHeader data = Inr (fh, start)" "start > 0" "payload_len fh \<le> length data - start"
    using assms by (auto simp: v_read_def not_less split: sum.splits option.splits if_splits)
  with parseHeader_ok [OF p(1,2)] have ps: "parseHeader data = Inr (fh, start)" "start > 0" "start + payload_len fh \<le> length data"
    by auto
  have "sub_bytes (data @ ys) start (start + payload_len fh) = sub_bytes data start (start + payload_len fh)"
    using ps(3) by (rule sub_bytes_prefix)
  with assms ps parseHeader_more [OF ps(1,2), of ys] show ?thesis
    by (auto simp: v_read_def split: option.splits if_splits)
qed

text \<open>Nothing happens before a frame is complete.\<close>

lemma v_read_wait:
  assumes "v_read h data v = (0, v', p)" and "\<not> v_closing v'"
  shows "v' = v \<and> \<not> p"
proof -
  have "v_closing (v_close code err w)" for code err w by (simp add: v_close_def)
  with assms show ?thesis
    by (auto simp: v_read_def split: sum.splits option.splits if_splits)
qed

lemma v_loop_chunks:
  assumes "v_loop h xs v = (rest, v', False)" and "\<not> v_closing v'"
  shows "v_loop h (xs @ ys) v = v_loop h (rest @ ys) v'"
  using assms
proof (induction h xs v rule: v_loop.induct)
  case (1 h xs v)
  show ?case
  proof (cases "v_closing v")
    case True
    with "1.prems" show ?thesis by (subst (asm) v_loop.simps) simp
  next
    case False
    obtain n v1 p where r: "v_read h xs v = (n, v1, p)" by (metis prod_cases3)
    with "1.prems"(1) False have np: "\<not> p" by (subst (asm) v_loop.simps) (auto split: if_splits)
    show ?thesis
    proof (cases "n = 0")
      case True
      with "1.prems" False r np have "rest = xs" "v' = v1" by (subst (asm) v_loop.simps, simp)+
      with "1.prems"(2) v_read_wait [of h xs v v1 p] r True show ?thesis by simp
    next
      case n: False
      then have "v_loop h (drop n xs) v1 = (rest, v', False)"
        using "1.prems"(1) False r np by (subst (asm) v_loop.simps) simp
      then have "v_loop h (drop n xs @ ys) v1 = v_loop h (rest @ ys) v'"
        using "1.IH" [OF False r [symmetric] refl refl np n] "1.prems"(2) by simp
      moreover have "n \<le> length xs" using v_read_progress [OF r n] by simp
      ultimately show ?thesis
        using v_read_more [OF r, of ys] False np n by (subst v_loop.simps) simp
    qed
  qed
qed

section \<open>The invariant\<close>

text \<open>The wire, with what is still corked, is the frames accepted for sending, encoded one after the other.\<close>

fun encode_frame :: "byte \<times> bytes \<Rightarrow> bytes" where
  "encode_frame (op, p) = appendFrameHeader [] op (length p) @ p"

definition corked :: "ws_conn \<Rightarrow> bytes" where
  "corked c = (case corkBuffer c of None \<Rightarrow> [] | Some b \<Rightarrow> b)"

definition wire_inv :: "ws_conn \<Rightarrow> bool" where
  "wire_inv c \<longleftrightarrow> wire c @ corked c = concat (map encode_frame (frames c)) \<and> (corkBuffer c \<noteq> None \<longrightarrow> corking c) \<and>
     length (corked c) \<le> maxCorkBytes"

text \<open>The frames a server sends: data messages and small control frames.\<close>

fun frame_ok :: "byte \<times> bytes \<Rightarrow> bool" where
  "frame_ok (op, p) \<longleftrightarrow> (op = OpText \<or> op = OpBinary \<or> op = OpPing \<or> op = OpPong) \<and> (isControl op \<longrightarrow> length p \<le> maxControlPayload)"

fun close_frame :: "byte \<times> bytes \<Rightarrow> bool" where
  "close_frame (op, p) \<longleftrightarrow> op = OpClose \<and> (length p = 0 \<or> length p = 2)"

text \<open>A close frame is sent exactly when the connection is closed from this side, and nothing follows it.\<close>

definition close_inv :: "ws_conn \<Rightarrow> bool" where
  "close_inv c \<longleftrightarrow> (conn_closed c \<longrightarrow> ws_closing c) \<and>
     (if conn_closed c then frames c \<noteq> [] \<and> close_frame (last (frames c)) \<and> list_all frame_ok (butlast (frames c))
      else list_all frame_ok (frames c))"

definition delivered_ok :: "nat \<Rightarrow> byte \<times> bytes \<Rightarrow> bool" where
  "delivered_ok mx m \<longleftrightarrow> (fst m = OpText \<and> utf8_valid (snd m) \<or> fst m = OpBinary) \<and> length (snd m) \<le> mx"

definition message_inv :: "ws_conn \<Rightarrow> bool" where
  "message_inv c \<longleftrightarrow> length (message c) \<le> maxMessageSize c \<and>
     (messageOpCode c = 0 \<and> message c = [] \<or> messageOpCode c = OpText \<or> messageOpCode c = OpBinary) \<and>
     list_all (delivered_ok (maxMessageSize c)) (delivered c)"

definition ws_inv :: "ws_conn \<Rightarrow> bool" where
  "ws_inv c \<longleftrightarrow> wire_inv c \<and> close_inv c \<and> message_inv c"

lemmas inv_defs = ws_inv_def wire_inv_def close_inv_def message_inv_def corked_def

lemma control_ops: "isControl OpPing" "isControl OpPong" "isControl OpClose" "\<not> isControl OpText" "\<not> isControl OpBinary"
  "\<not> isControl OpContinuation"
  by (simp_all add: isControl_def OpPing_def OpPong_def OpClose_def OpText_def OpBinary_def OpContinuation_def)

text \<open>How the operations act on the wire.\<close>

lemma writeFrame_eq:
  "writeFrame op p c = c\<lparr>wire := wire c @ encode_frame (op, p), frames := frames c @ [(op, p)]\<rparr>"
  by (simp add: writeFrame_def conn_write_def Let_def)

lemma uncorkLocked_eq: "uncorkLocked c = c\<lparr>wire := wire c @ corked c, corkBuffer := None\<rparr>"
  by (cases "corkBuffer c") (simp_all add: uncorkLocked_def conn_write_def corked_def)

lemma writeCorked_cases:
  assumes "corkBuffer c = Some b"
  obtains (fits) b' where "writeCorked op p c = c\<lparr>frames := frames c @ [(op, p)], corkBuffer := Some b'\<rparr>"
      "b' = b @ encode_frame (op, p)" "length b' \<le> maxCorkBytes"
  | (flush) "writeCorked op p c =
      c\<lparr>frames := frames c @ [(op, p)], wire := wire c @ b @ encode_frame (op, p), corkBuffer := Some []\<rparr>"
proof (cases "length b + length (appendFrameHeader [] op (length p)) + length p \<le> maxCorkBytes")
  case True
  with assms show ?thesis by (intro fits [of "b @ encode_frame (op, p)"]) (auto simp: writeCorked_def Let_def add.assoc)
next
  case False
  with assms show ?thesis by (intro flush) (simp add: writeCorked_def conn_write_def Let_def)
qed

lemma inv_WriteMessage: assumes "ws_inv c" shows "ws_inv (fst (WriteMessage op p c))"
proof (cases "snd (WriteMessage op p c)")
  case (Some e)
  then have "fst (WriteMessage op p c) = c" by (auto simp: WriteMessage_def split: if_splits)
  with assms show ?thesis by simp
next
  case None
  then have open': "\<not> ws_closing c" and ok: "frame_ok (op, p)"
    by (auto simp: WriteMessage_def control_ops split: if_splits)
  with assms have nc: "\<not> conn_closed c" by (auto simp: inv_defs)
  show ?thesis
  proof (cases "corkBuffer c")
    case n: None
    with None have "fst (WriteMessage op p c) = writeFrame op p c" by (auto simp: WriteMessage_def split: if_splits)
    with n nc ok assms show ?thesis by (simp add: writeFrame_eq inv_defs)
  next
    case (Some b)
    with None have w: "fst (WriteMessage op p c) = writeCorked op p c" by (auto simp: WriteMessage_def split: if_splits)
    from Some show ?thesis
    proof (cases rule: writeCorked_cases [of c b op p])
      case (fits b')
      with Some nc ok assms show ?thesis unfolding w by (simp add: inv_defs flip: append_assoc)
    next
      case flush
      with Some nc ok assms show ?thesis unfolding w by (simp add: inv_defs flip: append_assoc)
    qed
  qed
qed

lemma length_be_bytes2: "length (be_bytes 2 (w :: u16)) = 2"
  by simp

lemma closeWith_eq:
  assumes "\<not> ws_closing c"
  obtains p where "close_frame (OpClose, p)"
    "closeWith now code err c = c\<lparr>ws_closing := True, ws_closeErr := err, corkBuffer := None,
       frames := frames c @ [(OpClose, p)], wire := wire c @ corked c @ encode_frame (OpClose, p),
       ws_deadline := now + closeTimeout, conn_closed := True\<rparr>"
proof
  let ?p = "if code \<noteq> 0 then be_bytes 2 code else []"
  show "close_frame (OpClose, ?p)" by simp
  show "closeWith now code err c = c\<lparr>ws_closing := True, ws_closeErr := err, corkBuffer := None,
       frames := frames c @ [(OpClose, ?p)], wire := wire c @ corked c @ encode_frame (OpClose, ?p),
       ws_deadline := now + closeTimeout, conn_closed := True\<rparr>"
    using assms by (simp add: closeWith_def Let_def uncorkLocked_eq writeFrame_eq corked_def)
qed

lemma inv_closeWith: assumes "ws_inv c" shows "ws_inv (closeWith now code err c)"
proof (cases "ws_closing c")
  case True
  with assms show ?thesis by (simp add: closeWith_def)
next
  case False
  then obtain p where "close_frame (OpClose, p)" and e: "closeWith now code err c = c\<lparr>ws_closing := True, ws_closeErr := err,
       corkBuffer := None, frames := frames c @ [(OpClose, p)], wire := wire c @ corked c @ encode_frame (OpClose, p),
       ws_deadline := now + closeTimeout, conn_closed := True\<rparr>"
    by (rule closeWith_eq)
  with False assms show ?thesis unfolding e by (simp add: inv_defs flip: append_assoc)
qed

lemma inv_call: "ws_inv c \<Longrightarrow> ws_inv (ws_call now a c)"
  by (cases a) (simp_all add: inv_WriteMessage ws_Close_def inv_closeWith)

lemma inv_calls: "ws_inv c \<Longrightarrow> ws_inv (fold (ws_call now) as c)"
  by (induction as arbitrary: c) (simp_all add: inv_call)

text \<open>The public calls leave the reassembly alone.\<close>

definition assembly :: "ws_conn \<Rightarrow> byte \<times> bytes \<times> nat \<times> bool \<times> ws_phase \<times> close_reason option list" where
  "assembly c = (messageOpCode c, message c, maxMessageSize c, corking c, phase c, closeCalls c)"

lemma assembly_ops [simp]:
  "assembly (fst (WriteMessage op p c)) = assembly c" "assembly (closeWith now code err c) = assembly c"
  by (auto simp: assembly_def WriteMessage_def writeCorked_def writeFrame_eq closeWith_def uncorkLocked_eq conn_write_def
      Let_def split: option.splits)

lemma assembly_call [simp]: "assembly (ws_call now a c) = assembly c"
  by (cases a) (simp_all add: ws_Close_def)

lemma assembly_calls [simp]: "assembly (fold (ws_call now) as c) = assembly c"
  by (induction as arbitrary: c) simp_all

lemma inv_deliver:
  assumes "ws_inv c" and "op = OpText \<or> op = OpBinary" and "length data \<le> maxMessageSize c"
  shows "ws_inv (fst (deliver h now op data c)) \<and> assembly (fst (deliver h now op data c)) = assembly c"
proof -
  have "ws_inv (c\<lparr>messageFinished := True\<rparr>)" using assms(1) by (simp add: inv_defs)
  moreover have "ws_inv (c\<lparr>messageFinished := True, delivered := delivered c @ [(op, data)]\<rparr>)"
    if "op = OpText \<longrightarrow> utf8_valid data"
    using assms that by (auto simp: inv_defs delivered_ok_def)
  moreover have "assembly (c\<lparr>messageFinished := True\<rparr>) = assembly c"
    "assembly (c\<lparr>messageFinished := True, delivered := d\<rparr>) = assembly c" for d
    by (simp_all add: assembly_def)
  ultimately show ?thesis
    by (simp add: deliver_def Let_def inv_closeWith inv_calls)
qed

lemma checkHeader_data:
  assumes "checkHeader fh f = None" and "\<not> isControl (opCode fh)"
  shows "if f then opCode fh = OpContinuation else opCode fh = OpText \<or> opCode fh = OpBinary"
  using assms by (auto simp: checkHeader_def control_ops split: if_splits)

lemma inv_add_fragment:
  assumes inv: "ws_inv c" and hdr: "checkHeader fh (messageOpCode c \<noteq> 0) = None" "\<not> isControl (opCode fh)"
    and len: "length payload + length (message c) \<le> maxMessageSize c"
  shows "ws_inv (add_fragment fh payload c) \<and> length (message (add_fragment fh payload c)) \<le> maxMessageSize c \<and>
    maxMessageSize (add_fragment fh payload c) = maxMessageSize c \<and>
    (messageOpCode (add_fragment fh payload c) = OpText \<or> messageOpCode (add_fragment fh payload c) = OpBinary)"
proof -
  have m: "messageOpCode c = 0 \<or> messageOpCode c = OpText \<or> messageOpCode c = OpBinary" using inv by (auto simp: inv_defs)
  have op: "if messageOpCode c \<noteq> 0 then opCode fh = OpContinuation else opCode fh = OpText \<or> opCode fh = OpBinary"
    by (rule checkHeader_data [OF hdr])
  have ne: "OpText \<noteq> 0" "OpBinary \<noteq> 0" "OpText \<noteq> OpContinuation" "OpBinary \<noteq> OpContinuation"
    by (simp_all add: OpText_def OpBinary_def OpContinuation_def)
  show ?thesis
  proof (cases "opCode fh = OpContinuation")
    case True
    with op ne have "messageOpCode c \<noteq> 0" by (auto split: if_splits)
    with True m inv len show ?thesis by (auto simp: add_fragment_def inv_defs)
  next
    case False
    with op inv len show ?thesis by (auto simp: add_fragment_def inv_defs split: if_splits)
  qed
qed

lemma inv_onFrame:
  assumes inv: "ws_inv c" and hdr: "checkHeader fh (messageOpCode c \<noteq> 0) = None"
    and len: "\<not> isControl (opCode fh) \<Longrightarrow> length payload + length (message c) \<le> maxMessageSize c"
  shows "ws_inv (fst (onFrame h now fh payload c))"
proof (cases "isControl (opCode fh)")
  case True
  then have "opCode fh = OpPing \<or> opCode fh = OpPong \<or> opCode fh = OpClose"
    using hdr by (auto simp: checkHeader_def control_ops split: if_splits)
  then show ?thesis
    using inv by (auto simp: onFrame_def onCloseFrame_def inv_WriteMessage inv_closeWith split: sum.splits)
next
  case False
  note op = checkHeader_data [OF hdr False]
  have nc: "opCode fh \<noteq> OpPing" "opCode fh \<noteq> OpPong" "opCode fh \<noteq> OpClose" using False control_ops by auto
  show ?thesis
  proof (cases "final fh \<and> opCode fh \<noteq> OpContinuation")
    case True
    with op have "opCode fh = OpText \<or> opCode fh = OpBinary" by (auto split: if_splits)
    with inv_deliver [OF inv this, of payload h now] len [OF False] nc True show ?thesis by (auto simp: onFrame_def)
  next
    case nf: False
    let ?c2 = "add_fragment fh payload c"
    note a = inv_add_fragment [OF inv hdr False len [OF False]]
    have d: "ws_inv (fst (deliver h now (messageOpCode ?c2) (message ?c2) ?c2))"
      using a inv_deliver [of ?c2 "messageOpCode ?c2" "message ?c2" h now] by auto
    have "ws_inv (c'\<lparr>message := [], messageOpCode := 0\<rparr>)" if "ws_inv c'" for c' using that by (simp add: inv_defs)
    with a d nc nf show ?thesis by (auto simp: onFrame_def Let_def)
  qed
qed

lemma inv_cork: "ws_inv c \<Longrightarrow> ws_inv (cork c)" "ws_inv c \<Longrightarrow> ws_inv (uncork c)"
  "ws_inv c \<Longrightarrow> ws_inv (updateDeadline now b c)"
  by (auto simp: inv_defs cork_def uncork_def uncorkLocked_eq updateDeadline_def Let_def split: option.splits)

text \<open>What one call of \<^verbatim>\<open>readFrame\<close> does.\<close>

lemma readFrame_cases:
  obtains (wait) "readFrame h now data c = (0, c, False)"
  | (fail) code err where "readFrame h now data c = (0, closeWith now code err c, False)"
  | (frame) fh payload n c' where "readFrame h now data c = (n, onFrame h now fh payload c')" "0 < n" "c' = c \<or> c' = cork c"
      "checkHeader fh (messageOpCode c \<noteq> 0) = None" "length payload = payload_len fh"
      "isControl (opCode fh) \<or> int (payload_len fh) \<le> int (maxMessageSize c) - int (length (message c))"
proof (cases "parseHeader data")
  case (Inl e)
  then show ?thesis by (intro fail) (simp add: readFrame_def)
next
  case (Inr hs)
  then obtain fh start where p: "parseHeader data = Inr (fh, start)" by (cases hs) auto
  consider "start = 0" | e where "start \<noteq> 0" "checkHeader fh (messageOpCode c \<noteq> 0) = Some e"
    | "start \<noteq> 0" "checkHeader fh (messageOpCode c \<noteq> 0) = None"
    by (cases "checkHeader fh (messageOpCode c \<noteq> 0)") auto
  then show ?thesis
  proof cases
    case 1
    with p show ?thesis by (intro wait) (simp add: readFrame_def)
  next
    case 2
    with p show ?thesis by (intro fail) (simp add: readFrame_def)
  next
    case 3
    let ?big = "\<not> isControl (opCode fh) \<and> int (payload_len fh) > int (maxMessageSize c) - int (length (message c))"
    consider ?big | "\<not> ?big" "length data - start < payload_len fh" | "\<not> ?big" "payload_len fh \<le> length data - start"
      by linarith
    then show ?thesis
    proof cases
      case 1
      with p 3 show ?thesis by (intro fail) (simp add: readFrame_def)
    next
      case 2
      with p 3 show ?thesis by (intro wait) (auto simp: readFrame_def)
    next
      case ok: 3
      from parseHeader_ok [OF p] 3 have k: "length (mask_key fh) = 4" "start \<le> length data" by auto
      have "length (applyMask (sub_bytes data start (start + payload_len fh)) (mask_key fh)) = payload_len fh"
        using k ok(2) by (simp add: applyMask_eq mask_bytes_def)
      with p 3 ok show ?thesis
        by (intro frame [of "start + payload_len fh" fh "applyMask (sub_bytes data start (start + payload_len fh)) (mask_key fh)"
              "if start + payload_len fh < length data \<and> \<not> corking c then cork c else c"])
          (auto simp: readFrame_def Let_def)
    qed
  qed
qed

lemma inv_readFrame:
  assumes "ws_inv c"
  shows "ws_inv (fst (snd (readFrame h now data c)))"
proof (cases rule: readFrame_cases [of h now data c])
  case (frame fh payload n c')
  then have "ws_inv c'" "messageOpCode c' = messageOpCode c" "message c' = message c" "maxMessageSize c' = maxMessageSize c"
    using assms inv_cork(1) [OF assms] by (auto simp: cork_def)
  then have "ws_inv (fst (onFrame h now fh payload c'))"
    using inv_onFrame [of c' fh payload h now] frame(4-6) by auto
  with frame(1) show ?thesis by simp
qed (use assms in \<open>simp_all add: inv_closeWith\<close>)

text \<open>Frames leave the phase and the calls of \<^verbatim>\<open>OnClose\<close> alone.\<close>

definition life :: "ws_conn \<Rightarrow> ws_phase \<times> close_reason option list" where
  "life c = (phase c, closeCalls c)"

lemma assembly_life: "assembly c = assembly c' \<Longrightarrow> life c = life c' \<and> corking c = corking c'"
  by (simp add: assembly_def life_def)

lemma life_call [simp]: "life (ws_call now a c) = life c" "corking (ws_call now a c) = corking c"
  "life (closeWith now code err c) = life c" "corking (closeWith now code err c) = corking c"
  "life (fst (WriteMessage op p c)) = life c"
  using assembly_life [OF assembly_call [of now a c]] assembly_life [OF assembly_ops(2) [of now code err c]]
    assembly_life [OF assembly_ops(1) [of op p c]] by simp_all

lemma life_deliver: "life (fst (deliver h now op data c)) = life c"
proof -
  have "life (fold (ws_call now) as c) = life c" for as c by (induction as arbitrary: c) simp_all
  then have "life (fst (deliver h now op data c)) = life (c\<lparr>messageFinished := True\<rparr>) \<or>
      life (fst (deliver h now op data c)) = life (c\<lparr>messageFinished := True, delivered := delivered c @ [(op, data)]\<rparr>)"
    by (simp add: deliver_def Let_def)
  then show ?thesis by (simp add: life_def)
qed

lemma life_upd [simp]: "life (c\<lparr>message := m, messageOpCode := op\<rparr>) = life c" "life (add_fragment fh payload c) = life c"
  "life (cork c) = life c" "life (uncork c) = life c" "life (updateDeadline now b c) = life c"
  by (simp_all add: life_def add_fragment_def cork_def uncork_def uncorkLocked_eq updateDeadline_def Let_def)

lemma life_onFrame: "life (fst (onFrame h now fh payload c)) = life c"
  by (simp add: onFrame_def onCloseFrame_def Let_def life_deliver split: sum.splits)

lemma life_readFrame: "life (fst (snd (readFrame h now data c))) = life c"
  by (cases rule: readFrame_cases [of h now data c]) (auto simp: life_onFrame)

section \<open>The life of a connection\<close>

text \<open>
  A connection with the progress of its task: the rest of the data being processed, whether \<^verbatim>\<open>OnOpen\<close> is over
  and whether the engine has closed it. Calls from other goroutines come between any two frames; \<^verbatim>\<open>OnData\<close>
  goes frame by frame, with a handler that may answer differently every time.
\<close>

record ws_run =
  wr_conn :: ws_conn
  wr_data :: "bytes option"
  wr_opened :: bool
  wr_closed :: bool

definition ws_new :: "nat \<Rightarrow> int \<Rightarrow> int \<Rightarrow> int \<Rightarrow> ws_conn" where
  "ws_new mx idle msg now = \<lparr>phase = PhaseOpening, ws_closing = False, messageOpCode = 0, receiving = False,
     messageFinished = False, corking = False, corkBuffer = None, message = [], maxMessageSize = mx, idleTimeout = idle,
     messageTimeout = msg, ws_closeErr = None, ws_deadline = DeadlineAfter now idle, conn_closed = False, wire = [],
     frames = [], delivered = [], closeCalls = []\<rparr>"

definition ws_init :: "ws_run \<Rightarrow> bool" where
  "ws_init r \<longleftrightarrow> (\<exists>mx idle msg now. r = \<lparr>wr_conn = ws_new mx idle msg now, wr_data = None, wr_opened = False, wr_closed = False\<rparr>)"

inductive ws_step :: "ws_run \<Rightarrow> ws_run \<Rightarrow> bool" where
  ws_api_call: "ws_step r (r\<lparr>wr_conn := ws_call now a (wr_conn r)\<rparr>)"
| ws_enter: "wr_data r = None \<Longrightarrow> phase (wr_conn r) = PhaseOpened \<Longrightarrow> \<not> wr_closed r \<Longrightarrow> ws_step r (r\<lparr>wr_data := Some data\<rparr>)"
| ws_frame: "wr_data r = Some data \<Longrightarrow> \<not> ws_closing (wr_conn r) \<Longrightarrow> readFrame h now data (wr_conn r) = (n, c, False) \<Longrightarrow>
    n \<noteq> 0 \<Longrightarrow> ws_step r (r\<lparr>wr_conn := c, wr_data := Some (drop n data)\<rparr>)"
| ws_panicked: "wr_data r = Some data \<Longrightarrow> \<not> ws_closing (wr_conn r) \<Longrightarrow> readFrame h now data (wr_conn r) = (n, c, True) \<Longrightarrow>
    ws_step r (r\<lparr>wr_conn := ws_panic now c, wr_data := None\<rparr>)"
| ws_leave: "wr_data r = Some rest \<Longrightarrow>
    (if ws_closing (wr_conn r) then c = wr_conn r else readFrame h now rest (wr_conn r) = (0, c, False)) \<Longrightarrow>
    ws_step r (r\<lparr>wr_conn := snd (ws_data_end now data rest c), wr_data := None\<rparr>)"
| ws_engine_close: "wr_data r = None \<Longrightarrow> \<not> wr_closed r \<Longrightarrow> ws_step r (r\<lparr>wr_conn := ws_OnClose err (wr_conn r), wr_closed := True\<rparr>)"
| ws_open_end: "\<not> wr_opened r \<Longrightarrow> ws_step r (r\<lparr>wr_conn := ws_opened now panic (wr_conn r), wr_opened := True\<rparr>)"

definition life_inv :: "ws_run \<Rightarrow> bool" where
  "life_inv r \<longleftrightarrow> length (closeCalls (wr_conn r)) = (if wr_opened r \<and> wr_closed r then 1 else 0) \<and>
     (phase (wr_conn r) = PhaseOpening \<longleftrightarrow> \<not> wr_opened r \<and> \<not> wr_closed r) \<and>
     (\<not> wr_opened r \<and> wr_closed r \<longrightarrow> phase (wr_conn r) = PhaseClosedEarly) \<and>
     (wr_opened r \<and> \<not> wr_closed r \<longrightarrow> phase (wr_conn r) = PhaseOpened)"

definition run_inv :: "ws_run \<Rightarrow> bool" where
  "run_inv r \<longleftrightarrow> ws_inv (wr_conn r) \<and> (wr_data r = None \<longrightarrow> \<not> corking (wr_conn r)) \<and> life_inv r"

lemma life_inv_keep:
  "life c = life (wr_conn r) \<Longrightarrow> life_inv (r\<lparr>wr_conn := c, wr_data := d\<rparr>) = life_inv r"
  "life c = life (wr_conn r) \<Longrightarrow> life_inv (r\<lparr>wr_conn := c\<rparr>) = life_inv r"
  "life_inv (r\<lparr>wr_data := d\<rparr>) = life_inv r"
  by (simp_all add: life_inv_def life_def)

lemma inv_OnClose: "ws_inv c \<Longrightarrow> ws_inv (ws_OnClose err c)" "corking (ws_OnClose err c) = corking c"
  by (auto simp: inv_defs ws_OnClose_def Let_def)

lemma inv_opened: assumes "ws_inv c" shows "ws_inv (ws_opened now panic c)" "corking (ws_opened now panic c) = corking c"
proof -
  have "ws_inv (if phase c' = PhaseOpening then c'\<lparr>phase := PhaseOpened\<rparr> else c'\<lparr>closeCalls := closeCalls c' @ [ws_closeErr c']\<rparr>)"
    if "ws_inv c'" for c' using that by (simp add: inv_defs)
  with assms inv_closeWith [OF assms] show "ws_inv (ws_opened now panic c)" by (simp add: ws_opened_def Let_def)
  show "corking (ws_opened now panic c) = corking c" by (simp add: ws_opened_def Let_def)
qed

lemma inv_data_end:
  assumes "ws_inv c"
  shows "ws_inv (snd (ws_data_end now data rest c)) \<and> \<not> corking (snd (ws_data_end now data rest c)) \<and>
    life (snd (ws_data_end now data rest c)) = life c"
proof -
  have "\<not> corking (uncork c)" "corking (updateDeadline now b c) = corking c" for c b
    by (simp_all add: uncork_def uncorkLocked_eq updateDeadline_def Let_def)
  with assms show ?thesis by (simp add: ws_data_end_def Let_def inv_cork)
qed

lemma run_inv_step: assumes "run_inv r" and "ws_step r r'" shows "run_inv r'"
  using assms(2,1)
proof (cases rule: ws_step.cases)
  case (ws_frame data h now n c)
  then show ?thesis
    using assms(1) inv_readFrame [of "wr_conn r" h now data] life_readFrame [of h now data "wr_conn r"]
    by (simp add: run_inv_def life_inv_keep)
next
  case (ws_panicked data h now n c)
  have "ws_inv c" "life c = life (wr_conn r)"
    using ws_panicked assms(1) inv_readFrame [of "wr_conn r" h now data] life_readFrame [of h now data "wr_conn r"]
    by (simp_all add: run_inv_def)
  moreover have "\<not> corking (uncork c)" by (simp add: uncork_def uncorkLocked_eq)
  ultimately show ?thesis
    using ws_panicked assms(1) by (simp add: run_inv_def ws_panic_def inv_closeWith inv_cork life_inv_keep)
next
  case (ws_leave rest c h now data)
  have "ws_inv c" "life c = life (wr_conn r)"
    using ws_leave assms(1) inv_readFrame [of "wr_conn r" h now rest] life_readFrame [of h now rest "wr_conn r"]
    by (auto simp: run_inv_def split: if_splits)
  with ws_leave assms(1) show ?thesis
    using inv_data_end [of c now data rest] by (simp add: run_inv_def life_inv_keep)
next
  case (ws_engine_close err)
  have "phase (ws_OnClose err (wr_conn r)) = (if phase (wr_conn r) = PhaseOpening then PhaseClosedEarly else phase (wr_conn r))"
    "length (closeCalls (ws_OnClose err (wr_conn r))) =
       (if phase (wr_conn r) = PhaseOpening then length (closeCalls (wr_conn r)) else Suc (length (closeCalls (wr_conn r))))"
    by (simp_all add: ws_OnClose_def Let_def)
  with ws_engine_close show ?thesis
    using assms(1) by (auto simp: run_inv_def inv_OnClose life_inv_def split: if_splits)
next
  case (ws_open_end now panic)
  let ?c = "if panic then closeWith now StatusInternalServerError (Some HandlerPanic) (wr_conn r) else wr_conn r"
  have "life ?c = life (wr_conn r)" by simp
  then have "phase ?c = phase (wr_conn r)" "closeCalls ?c = closeCalls (wr_conn r)" by (simp_all add: life_def)
  then have "phase (ws_opened now panic (wr_conn r)) = (if phase (wr_conn r) = PhaseOpening then PhaseOpened else phase (wr_conn r))"
    "length (closeCalls (ws_opened now panic (wr_conn r))) =
       (if phase (wr_conn r) = PhaseOpening then length (closeCalls (wr_conn r)) else Suc (length (closeCalls (wr_conn r))))"
    by (simp_all add: ws_opened_def Let_def)
  with ws_open_end show ?thesis
    using assms(1) by (auto simp: run_inv_def inv_opened life_inv_def split: if_splits)
qed (auto simp: run_inv_def inv_call life_inv_keep)

interpretation ws_life: inductive_invariant ws_init ws_step run_inv
proof unfold_locales
  show "run_inv r" if "ws_init r" for r
    using that by (auto simp: ws_init_def run_inv_def inv_defs life_inv_def ws_new_def)
qed (rule run_inv_step)

section \<open>Decoding what was sent\<close>

definition frame_dec :: "bytes \<Rightarrow> ((byte \<times> bytes) \<times> bytes) option" where
  "frame_dec data =
     (case parseHeader data of
        Inl _ \<Rightarrow> None
      | Inr (h, n) \<Rightarrow>
          if n > 0 \<and> payload_len h \<le> length data - n
          then Some ((opCode h, sub_bytes data n (n + payload_len h)), drop (n + payload_len h) data) else None)"

interpretation ws_frames: prefix_codec "\<lambda>(op, p). op < 16 \<and> length p < 2 ^ 63" encode_frame frame_dec
proof unfold_locales
  fix x :: "byte \<times> bytes" and r assume ok: "case x of (op, p) \<Rightarrow> op < 16 \<and> length p < 2 ^ 63"
  obtain op p where x: "x = (op, p)" by (cases x)
  have "0 < length (appendFrameHeader [] op (length p))" by (simp add: appendFrameHeader_def Let_def)
  then show "frame_dec (encode_frame x @ r) = Some (x, r)"
    using ok parse_append [of op "length p" "p @ r"] by (simp add: x frame_dec_def sent_header_def sub_bytes_def)
qed

lemma frame_ops: "frame_ok f \<or> close_frame f \<Longrightarrow> fst f < 16"
  by (cases f) (auto simp: OpText_def OpBinary_def OpPing_def OpPong_def OpClose_def)

lemma sent_frames_ops: "close_inv c \<Longrightarrow> f \<in> set (frames c) \<Longrightarrow> fst f < 16"
  by (cases "frames c" rule: rev_cases)
    (auto simp: close_inv_def list_all_iff simp del: frame_ok.simps close_frame.simps intro: frame_ops split: if_splits)

lemma wire_decodes:
  assumes "close_inv c" and "wire c = concat (map encode_frame (frames c))" and "\<forall>f \<in> set (frames c). length (snd f) < 2 ^ 63"
  shows "decode_all frame_dec (length (frames c)) (wire c) = (frames c, [])"
proof -
  have "list_all (\<lambda>(op, p). op < 16 \<and> length p < 2 ^ 63) (frames c)"
    using sent_frames_ops [OF assms(1)] assms(3) by (force simp: list_all_iff)
  moreover have "frame_dec [] = None" by (simp add: frame_dec_def parseHeader_def)
  ultimately show ?thesis
    using ws_frames.decode_all_concat [of "frames c" "[]" "length (frames c)"] assms(2) by simp
qed

section \<open>An example run\<close>

lemmas ws_eval = readFrame_def parseHeader_def header_size_def checkHeader_def onFrame_def WriteMessage_def writeFrame_def
  conn_write_def appendFrameHeader_def sub_bytes_def isControl_def OpPing_def OpPong_def OpText_def OpBinary_def OpClose_def
  OpContinuation_def maxControlPayload_def maxSmallFrameSize_def applyMask_eq mask_bytes_def Let_def

text \<open>A connection just opened, a ping of one byte, and what processing it gives.\<close>

definition ws_ready :: ws_conn where
  "ws_ready = ws_opened 0 False (ws_new 100 0 0 0)"

definition masked_ping :: bytes where
  "masked_ping = [0x89, 0x81, 0, 0, 0, 0, 7]"

definition ws_answered :: ws_conn where
  "ws_answered = ws_ready\<lparr>wire := [0x8a, 1, 7], frames := [(OpPong, [7])]\<rparr>"

lemma ping_frame: "readFrame h 0 masked_ping ws_ready = (7, ws_answered, False)"
  by (simp add: ws_eval ws_ready_def ws_answered_def ws_opened_def ws_new_def masked_ping_def)

lemma empty_frame: "readFrame h 0 [] c = (0, c, False)"
  by (simp add: readFrame_def parseHeader_def)

lemma ws_data_end_answered: "ws_data_end 0 data [] ws_answered = (length data, ws_answered)"
  by (simp add: ws_data_end_def ws_answered_def ws_ready_def ws_opened_def ws_new_def updateDeadline_def DeadlineAfter_def Let_def)

lemma ping_run:
  "reach ws_init ws_step \<lparr>wr_conn = ws_answered, wr_data = None, wr_opened = True, wr_closed = False\<rparr>"
proof -
  let ?h = "\<lambda>op data. ([], False)"
  let ?r = "\<lambda>c d opn. \<lparr>wr_conn = c, wr_data = d, wr_opened = opn, wr_closed = False\<rparr>"
  have "reach ws_init ws_step (?r (ws_new 100 0 0 0) None False)" by (rule reach_init) (auto simp: ws_init_def)
  then have "reach ws_init ws_step (?r ws_ready None True)"
    using ws_open_end [of "?r (ws_new 100 0 0 0) None False" 0 False] by (auto intro: reach_step simp: ws_ready_def)
  moreover have "phase ws_ready = PhaseOpened" "\<not> ws_closing ws_ready" by (simp_all add: ws_ready_def ws_opened_def ws_new_def)
  ultimately have "reach ws_init ws_step (?r ws_ready (Some masked_ping) True)" "\<not> ws_closing ws_ready"
    using ws_enter [of "?r ws_ready None True" masked_ping] by (auto intro: reach_step)
  then have "reach ws_init ws_step (?r ws_answered (Some []) True)"
    using ws_frame [of "?r ws_ready (Some masked_ping) True" masked_ping ?h 0 7 ws_answered] ping_frame [of ?h]
    by (auto intro: reach_step simp: masked_ping_def)
  moreover have "\<not> ws_closing ws_answered" by (simp add: ws_answered_def ws_ready_def ws_opened_def ws_new_def)
  ultimately show ?thesis
    using ws_leave [of "?r ws_answered (Some []) True" "[]" ws_answered ?h 0 "[]"] empty_frame [of ?h ws_answered]
    by (auto intro: reach_step simp: ws_data_end_answered)
qed

section \<open>Properties\<close>

text \<open>
  C20. In every state a connection can reach, whenever no data is being processed, nothing is held back by the
  cork and the wire holds exactly the frames that were accepted, one after the other: a receiver that decodes
  them gets the same frames back. Control frames have at most 125 bytes; a close frame is sent exactly when the
  connection is closed from this side, and it is the last frame.
\<close>

theorem ws_wire_frames:
  assumes "reach ws_init ws_step r" and "wr_data r = None" and "c = wr_conn r"
  shows "corkBuffer c = None \<and> wire c = concat (map encode_frame (frames c)) \<and>
    ((\<forall>f \<in> set (frames c). length (snd f) < 2 ^ 63) \<longrightarrow> decode_all frame_dec (length (frames c)) (wire c) = (frames c, [])) \<and>
    (if conn_closed c then frames c \<noteq> [] \<and> close_frame (last (frames c)) \<and> list_all frame_ok (butlast (frames c))
     else list_all frame_ok (frames c))"
proof -
  have inv: "wire_inv c" "close_inv c" "\<not> corking c"
    using ws_life.reach_inv [OF assms(1)] assms(2,3) by (auto simp: run_inv_def ws_inv_def)
  then have "corkBuffer c = None" "wire c = concat (map encode_frame (frames c))"
    by (auto simp: wire_inv_def corked_def)
  with wire_decodes [OF inv(2)] inv(2) show ?thesis by (auto simp: close_inv_def)
qed

theorem ws_wire_frames_witness:
  "wire ws_answered = encode_frame (OpPong, [7]) \<and> decode_all frame_dec 1 (wire ws_answered) = ([(OpPong, [7])], [])"
  using ws_wire_frames [OF ping_run, of ws_answered] by (simp add: ws_answered_def)

text \<open>
  C21. Every message handed to the handler has type text or binary, is within the size limit, and is valid UTF-8
  when it is text; the handler's \<^verbatim>\<open>OnClose\<close> is called exactly once, when both \<^verbatim>\<open>OnOpen\<close> has returned and the
  engine has closed the connection, whichever comes first.
\<close>

theorem ws_delivery_ok:
  assumes "reach ws_init ws_step r" and "c = wr_conn r"
  shows "list_all (\<lambda>(op, m). (op = OpText \<and> utf8_valid m \<or> op = OpBinary) \<and> length m \<le> maxMessageSize c) (delivered c) \<and>
    length (message c) \<le> maxMessageSize c \<and>
    length (closeCalls c) = (if wr_opened r \<and> wr_closed r then 1 else 0)"
proof -
  have "message_inv c" "life_inv r"
    using ws_life.reach_inv [OF assms(1)] assms(2) by (auto simp: run_inv_def ws_inv_def)
  moreover have "delivered_ok mx = (\<lambda>(op, m). (op = OpText \<and> utf8_valid m \<or> op = OpBinary) \<and> length m \<le> mx)" for mx
    by (auto simp: delivered_ok_def)
  ultimately show ?thesis by (simp add: message_inv_def life_inv_def assms(2))
qed

theorem ws_delivery_ok_witness: "length (message ws_answered) \<le> maxMessageSize ws_answered \<and> closeCalls ws_answered = []"
  using ws_delivery_ok [OF ping_run, of ws_answered] by simp

lemma view_OnData:
  assumes "phase c = PhaseOpened" and "v_loop h data (view c) = (rest, v, p)"
  shows "view (fst (snd (ws_OnData h now data c))) =
      (if p then v_close StatusInternalServerError (Some HandlerPanic) v else v) \<and>
    snd (snd (ws_OnData h now data c)) = p \<and>
    (\<not> p \<and> \<not> v_closing v \<longrightarrow> fst (ws_OnData h now data c) = length data - length rest)"
proof -
  obtain c1 where l: "read_loop h now data c = (rest, c1, p)" "view c1 = v"
    using assms(2) view_loop [of h data c now] by (auto split: prod.splits)
  have "view (snd (ws_data_end now data rest c1)) = view c1"
    by (simp add: ws_data_end_def Let_def view_frame_writers)
  moreover have "fst (ws_data_end now data rest c1) = length data - length rest" if "\<not> v_closing v"
  proof -
    have "\<not> ws_closing c1" using that l(2) view_closing by metis
    moreover have "ws_closing (uncork c1) = ws_closing c1" using view_frame_writers(4) [of c1] view_closing by metis
    ultimately show ?thesis by (simp add: ws_data_end_def Let_def)
  qed
  ultimately show ?thesis
    using l assms(1)
    by (auto simp: ws_OnData_def ws_panic_def view_closeWith view_frame_writers split: prod.splits)
qed

lemma v_loop_rest: "v_loop h data v = (rest, v', p) \<Longrightarrow> rest = drop (length data - length rest) data"
proof (induction h data v rule: v_loop.induct)
  case (1 h data v)
  obtain n v1 q where r: "v_read h data v = (n, v1, q)" by (metis prod_cases3)
  show ?case
  proof (cases "v_closing v \<or> q \<or> n = 0")
    case True
    with "1.prems" r have "rest = data" by (subst (asm) v_loop.simps) (auto split: if_splits)
    then show ?thesis by simp
  next
    case False
    then have l: "v_loop h (drop n data) v1 = (rest, v', p)" using "1.prems" r by (subst (asm) v_loop.simps) simp
    with "1.IH" [OF _ r [symmetric] refl refl] False have ih: "rest = drop (length (drop n data) - length rest) (drop n data)" by simp
    then have "length rest \<le> length data - n" by (metis diff_le_self length_drop)
    moreover have "n \<le> length data" using v_read_progress [OF r] False by simp
    ultimately show ?thesis using ih by (simp add: add.commute)
  qed
qed

lemma phase_loop: "phase (fst (snd (read_loop h now data c))) = phase c"
proof (induction h now data c rule: read_loop.induct)
  case (1 h now data c)
  have "life (fst (snd (readFrame h now data c))) = life c" by (rule life_readFrame)
  with 1 show ?case by (subst read_loop.simps) (auto simp: life_def split: prod.splits)
qed

lemma phase_OnData: "phase (fst (snd (ws_OnData h now data c))) = phase c"
proof -
  have "phase (uncork c) = phase c" "phase (updateDeadline now b c) = phase c" "phase (ws_panic now c) = phase c" for c b
    using life_upd(4) [of c] life_upd(5) [of now b c] life_call(3) [of now _ _ "uncork c"]
    by (auto simp: life_def ws_panic_def)
  then show ?thesis
    using phase_loop [of h now data c] by (auto simp: ws_OnData_def ws_data_end_def Let_def split: prod.splits)
qed



end
