(* ===== verification/H2Frame.thy ===== *)
theory H2Frame
  imports FnetPrelude
begin

text \<open>
  \<^verbatim>\<open>http2/frame.go\<close>: the 9-byte frame header, padding, and the frames the server writes. A buffer is the
  sequence of its bytes, and an append function gives the buffer after the call. \<open>h2frame\<close> names the frames
  written and \<open>frame_bytes\<close> is what the append functions write for each; a decoder built on
  \<^verbatim>\<open>parseFrameHeader\<close> gives the type, flags, stream and payload of every one of them back.
\<close>

section \<open>Constants\<close>

definition clientPreface :: bytes where
  "clientPreface = map of_char (''PRI * HTTP/2.0'' @ [CHR 0x0D, CHR 0x0A, CHR 0x0D, CHR 0x0A] @ ''SM'' @
     [CHR 0x0D, CHR 0x0A, CHR 0x0D, CHR 0x0A])"

definition frameHeaderLen :: nat where "frameHeaderLen = 9"
definition defaultHeaderTableSize :: u32 where "defaultHeaderTableSize = 4096"
definition defaultInitialWindowSize :: int where "defaultInitialWindowSize = 65535"
definition minMaxFrameSize :: nat where "minMaxFrameSize = 16384"
definition maxFrameSizeLimit :: nat where "maxFrameSizeLimit = 16777215"
definition maxWindowSize :: int where "maxWindowSize = 2147483647"

definition frameData :: byte where "frameData = 0x0"
definition frameHeaders :: byte where "frameHeaders = 0x1"
definition framePriority :: byte where "framePriority = 0x2"
definition frameRSTStream :: byte where "frameRSTStream = 0x3"
definition frameSettings :: byte where "frameSettings = 0x4"
definition framePushPromise :: byte where "framePushPromise = 0x5"
definition framePing :: byte where "framePing = 0x6"
definition frameGoAway :: byte where "frameGoAway = 0x7"
definition frameWindowUpdate :: byte where "frameWindowUpdate = 0x8"
definition frameContinuation :: byte where "frameContinuation = 0x9"

lemmas frame_types = frameData_def frameHeaders_def framePriority_def frameRSTStream_def frameSettings_def
  framePushPromise_def framePing_def frameGoAway_def frameWindowUpdate_def frameContinuation_def

definition flagEndStream :: byte where "flagEndStream = 0x1"
definition flagAck :: byte where "flagAck = 0x1"
definition flagEndHeaders :: byte where "flagEndHeaders = 0x4"
definition flagPadded :: byte where "flagPadded = 0x8"
definition flagPriority :: byte where "flagPriority = 0x20"

lemmas frame_flags = flagEndStream_def flagAck_def flagEndHeaders_def flagPadded_def flagPriority_def

type_synonym errCode = u32

definition errCodeNo :: errCode where "errCodeNo = 0x0"
definition errCodeProtocol :: errCode where "errCodeProtocol = 0x1"
definition errCodeInternal :: errCode where "errCodeInternal = 0x2"
definition errCodeFlowControl :: errCode where "errCodeFlowControl = 0x3"
definition errCodeStreamClosed :: errCode where "errCodeStreamClosed = 0x5"
definition errCodeFrameSize :: errCode where "errCodeFrameSize = 0x6"
definition errCodeRefusedStream :: errCode where "errCodeRefusedStream = 0x7"
definition errCodeCompression :: errCode where "errCodeCompression = 0x9"
definition errCodeEnhanceYourCalm :: errCode where "errCodeEnhanceYourCalm = 0xb"
definition errCodeInadequateSecurity :: errCode where "errCodeInadequateSecurity = 0xc"

lemmas err_codes = errCodeNo_def errCodeProtocol_def errCodeInternal_def errCodeFlowControl_def errCodeStreamClosed_def
  errCodeFrameSize_def errCodeRefusedStream_def errCodeCompression_def errCodeEnhanceYourCalm_def errCodeInadequateSecurity_def

definition settingHeaderTableSize :: u16 where "settingHeaderTableSize = 0x1"
definition settingEnablePush :: u16 where "settingEnablePush = 0x2"
definition settingMaxConcurrentStreams :: u16 where "settingMaxConcurrentStreams = 0x3"
definition settingInitialWindowSize :: u16 where "settingInitialWindowSize = 0x4"
definition settingMaxFrameSize :: u16 where "settingMaxFrameSize = 0x5"
definition settingMaxHeaderListSize :: u16 where "settingMaxHeaderListSize = 0x6"
definition settingNoRFC7540Priorities :: u16 where "settingNoRFC7540Priorities = 0x9"

lemmas setting_ids = settingHeaderTableSize_def settingEnablePush_def settingMaxConcurrentStreams_def
  settingInitialWindowSize_def settingMaxFrameSize_def settingMaxHeaderListSize_def settingNoRFC7540Priorities_def

section \<open>Frame headers\<close>

type_synonym setting = "u16 \<times> u32"

record h2_frameHeader =
  fh_length :: u32
  streamID :: u32
  frameType :: byte
  flags :: byte

definition parseFrameHeader :: "bytes \<Rightarrow> h2_frameHeader" where
  "parseFrameHeader b =
     \<lparr>fh_length = push_bit 16 (ucast (b ! 0)) OR push_bit 8 (ucast (b ! 1)) OR ucast (b ! 2),
      streamID = be_word (sub_bytes b 5 9) AND 0x7fffffff,
      frameType = b ! 3, flags = b ! 4\<rparr>"

definition putFrameHeader :: "nat \<Rightarrow> byte \<Rightarrow> byte \<Rightarrow> u32 \<Rightarrow> bytes" where
  "putFrameHeader len typ fl sid =
     [of_nat (drop_bit 16 len), of_nat (drop_bit 8 len), of_nat len, typ, fl] @ be_bytes 4 (sid AND 0x7fffffff)"

definition h2_appendFrameHeader :: "bytes \<Rightarrow> nat \<Rightarrow> byte \<Rightarrow> byte \<Rightarrow> u32 \<Rightarrow> bytes" where
  "h2_appendFrameHeader b len typ fl sid = b @ putFrameHeader len typ fl sid"

text \<open>\<^verbatim>\<open>None\<close> is \<^verbatim>\<open>ok = false\<close>.\<close>

definition stripPadding :: "bytes \<Rightarrow> byte \<Rightarrow> (bytes \<times> nat) option" where
  "stripPadding payload fl =
     (if fl AND flagPadded = 0 then Some (payload, 0)
      else if length payload = 0 then None
      else let pad = unat (payload ! 0) in
        if 1 + pad > length payload then None
        else Some (sub_bytes payload 1 (length payload - pad), 1 + pad))"

section \<open>The frames written\<close>

definition appendSettings :: "bytes \<Rightarrow> setting list \<Rightarrow> bytes" where
  "appendSettings b ss =
     fold (\<lambda>(i, v) b. b @ be_bytes 2 i @ be_bytes 4 v) ss (h2_appendFrameHeader b (6 * length ss) frameSettings 0 0)"

definition appendSettingsAck :: "bytes \<Rightarrow> bytes" where
  "appendSettingsAck b = h2_appendFrameHeader b 0 frameSettings flagAck 0"

definition appendPing :: "bytes \<Rightarrow> bool \<Rightarrow> bytes \<Rightarrow> bytes" where
  "appendPing b ack data = h2_appendFrameHeader b 8 framePing (if ack then flagAck else 0) 0 @ take 8 data"

definition appendRSTStream :: "bytes \<Rightarrow> u32 \<Rightarrow> errCode \<Rightarrow> bytes" where
  "appendRSTStream b sid code = b @ putFrameHeader 4 frameRSTStream 0 sid @ be_bytes 4 code"

definition appendGoAway :: "bytes \<Rightarrow> u32 \<Rightarrow> errCode \<Rightarrow> bytes" where
  "appendGoAway b lastID code = b @ putFrameHeader 8 frameGoAway 0 0 @ be_bytes 4 (lastID AND 0x7fffffff) @ be_bytes 4 code"

definition appendWindowUpdate :: "bytes \<Rightarrow> u32 \<Rightarrow> u32 \<Rightarrow> bytes" where
  "appendWindowUpdate b sid inc = b @ putFrameHeader 4 frameWindowUpdate 0 sid @ be_bytes 4 (inc AND 0x7fffffff)"

text \<open>The loop of \<^verbatim>\<open>appendHeaders\<close>. A frame size of 0 would not end; the frame size of a peer is at least 16384.\<close>

function continuation_frames :: "bytes \<Rightarrow> u32 \<Rightarrow> bytes \<Rightarrow> nat \<Rightarrow> bytes" where
  "continuation_frames b sid block maxFrameSize =
     (if block = [] \<or> maxFrameSize = 0 then b
      else
        let chunk = min (length block) maxFrameSize;
            contFlags = (if chunk = length block then flagEndHeaders else 0)
        in continuation_frames (h2_appendFrameHeader b chunk frameContinuation contFlags sid @ take chunk block)
             sid (drop chunk block) maxFrameSize)"
  by pat_completeness auto
termination by (relation "measure (\<lambda>(b, sid, block, m). length block)") auto

declare continuation_frames.simps [simp del]

definition appendHeaders :: "bytes \<Rightarrow> u32 \<Rightarrow> bytes \<Rightarrow> bool \<Rightarrow> nat \<Rightarrow> bytes" where
  "appendHeaders b sid block endStream maxFrameSize =
     (let fl = (if endStream then flagEndStream else 0);
          first = min (length block) maxFrameSize;
          fl = (if first = length block then fl OR flagEndHeaders else fl)
      in continuation_frames (h2_appendFrameHeader b first frameHeaders fl sid @ take first block) sid (drop first block) maxFrameSize)"

text \<open>A frame written, by its meaning. The payload of a \<^verbatim>\<open>DATA\<close> frame is written after its header.\<close>

datatype h2frame =
  F_Settings "setting list" | F_SettingsAck | F_Ping bool bytes | F_Rst u32 errCode | F_GoAway u32 errCode
| F_WindowUpdate u32 u32 | F_Headers (fr_id: u32) (fr_block: bytes) (fr_end: bool) nat | F_Data u32 bytes bool

fun frame_bytes :: "h2frame \<Rightarrow> bytes" where
  "frame_bytes (F_Settings ss) = appendSettings [] ss"
| "frame_bytes F_SettingsAck = appendSettingsAck []"
| "frame_bytes (F_Ping ack d) = appendPing [] ack d"
| "frame_bytes (F_Rst sid code) = appendRSTStream [] sid code"
| "frame_bytes (F_GoAway lid code) = appendGoAway [] lid code"
| "frame_bytes (F_WindowUpdate sid inc) = appendWindowUpdate [] sid inc"
| "frame_bytes (F_Headers sid block e maxFrame) = appendHeaders [] sid block e maxFrame"
| "frame_bytes (F_Data sid d e) = h2_appendFrameHeader [] (length d) frameData (if e then flagEndStream else 0) sid @ d"

section \<open>Decoding\<close>

text \<open>A frame on the wire: type, flags, stream and payload.\<close>

type_synonym raw_frame = "byte \<times> byte \<times> u32 \<times> bytes"

fun raw_bytes :: "raw_frame \<Rightarrow> bytes" where
  "raw_bytes (typ, fl, sid, p) = putFrameHeader (length p) typ fl sid @ p"

fun raw_ok :: "raw_frame \<Rightarrow> bool" where
  "raw_ok (typ, fl, sid, p) \<longleftrightarrow> length p < 2 ^ 24 \<and> sid < 2 ^ 31"

definition raw_dec :: "bytes \<Rightarrow> (raw_frame \<times> bytes) option" where
  "raw_dec data =
     (let fh = parseFrameHeader data; n = frameHeaderLen + unat (fh_length fh) in
      if length data < frameHeaderLen \<or> length data < n then None
      else Some ((frameType fh, flags fh, streamID fh, sub_bytes data frameHeaderLen n), drop n data))"

lemma length_putFrameHeader [simp]: "length (putFrameHeader len typ fl sid) = 9"
  by (simp add: putFrameHeader_def)

lemma u32_three_bytes:
  "(push_bit 16 (ucast (of_nat (drop_bit 16 n) :: byte)) OR push_bit 8 (ucast (of_nat (drop_bit 8 n) :: byte)) OR
    ucast (of_nat n :: byte) :: u32) = take_bit 24 (of_nat n)"
proof (rule bit_word_eqI)
  fix k assume "k < LENGTH(32)"
  then have "k < 8 \<or> (8 \<le> k \<and> k < 16) \<or> (16 \<le> k \<and> k < 24) \<or> (24 \<le> k \<and> k < 32)" by auto
  then show "bit (push_bit 16 (ucast (of_nat (drop_bit 16 n) :: byte)) OR push_bit 8 (ucast (of_nat (drop_bit 8 n) :: byte)) OR
      ucast (of_nat n :: byte) :: u32) k = bit (take_bit 24 (of_nat n) :: u32) k"
    by (elim disjE) (auto simp: bit_simps)
qed

lemma parse_put:
  assumes "len < 2 ^ 24"
  shows "parseFrameHeader (putFrameHeader len typ fl sid @ r) =
    \<lparr>fh_length = of_nat len, streamID = sid AND 0x7fffffff, frameType = typ, flags = fl\<rparr>"
proof -
  have "take_bit 24 (of_nat len :: u32) = of_nat len"
    using assms by (simp add: take_bit_of_nat take_bit_nat_eq_self flip: of_nat_take_bit)
  then have "(push_bit 16 (ucast (of_nat (drop_bit 16 len) :: byte)) OR push_bit 8 (ucast (of_nat (drop_bit 8 len) :: byte)) OR
    ucast (of_nat len :: byte) :: u32) = of_nat len"
    by (simp only: u32_three_bytes)
  moreover have "sub_bytes (putFrameHeader len typ fl sid @ r) 5 9 = be_bytes 4 (sid AND 0x7fffffff)"
    by (simp add: putFrameHeader_def sub_bytes_def)
  ultimately show ?thesis
    by (simp add: parseFrameHeader_def) (simp add: putFrameHeader_def nth_append be_roundtrip)
qed

lemma stream_id_mask: "sid < 2 ^ 31 \<Longrightarrow> sid AND 0x7fffffff = (sid :: u32)"
proof -
  assume "sid < 2 ^ 31"
  moreover have "(0x7fffffff :: u32) = mask 31" by (simp add: mask_eq_exp_minus_1)
  ultimately show ?thesis by (simp only: less_mask_eq)
qed

interpretation h2_raw: prefix_codec raw_ok raw_bytes raw_dec
proof unfold_locales
  fix x r assume ok: "raw_ok x"
  obtain ty fl sid p where x: "x = (ty, fl, sid, p)" by (cases x)
  have u: "unat (of_nat (length p) :: u32) = length p" using ok by (simp add: x unat_of_nat)
  show "raw_dec (raw_bytes x @ r) = Some (x, r)"
    using ok parse_put [of "length p" ty fl sid "p @ r"] u
    by (simp add: x raw_dec_def Let_def frameHeaderLen_def stream_id_mask sub_bytes_def)
qed

text \<open>The frames a write puts on the wire.\<close>

function continuation_raws :: "u32 \<Rightarrow> bytes \<Rightarrow> nat \<Rightarrow> raw_frame list" where
  "continuation_raws sid block m =
     (if block = [] \<or> m = 0 then []
      else (frameContinuation, if length block \<le> m then flagEndHeaders else 0, sid, take m block) #
        continuation_raws sid (drop m block) m)"
  by pat_completeness auto
termination by (relation "measure (\<lambda>(sid, block, m). length block)") auto

declare continuation_raws.simps [simp del]

definition header_raws :: "u32 \<Rightarrow> bytes \<Rightarrow> bool \<Rightarrow> nat \<Rightarrow> raw_frame list" where
  "header_raws sid block e m =
     (frameHeaders, (if e then flagEndStream else 0) OR (if length block \<le> m then flagEndHeaders else 0), sid, take m block) #
       continuation_raws sid (drop m block) m"

fun frame_raws :: "h2frame \<Rightarrow> raw_frame list" where
  "frame_raws (F_Settings ss) = [(frameSettings, 0, 0, concat (map (\<lambda>(i, v). be_bytes 2 i @ be_bytes 4 v) ss))]"
| "frame_raws F_SettingsAck = [(frameSettings, flagAck, 0, [])]"
| "frame_raws (F_Ping ack d) = [(framePing, if ack then flagAck else 0, 0, take 8 d)]"
| "frame_raws (F_Rst sid code) = [(frameRSTStream, 0, sid, be_bytes 4 code)]"
| "frame_raws (F_GoAway lid code) = [(frameGoAway, 0, 0, be_bytes 4 (lid AND 0x7fffffff) @ be_bytes 4 code)]"
| "frame_raws (F_WindowUpdate sid inc) = [(frameWindowUpdate, 0, sid, be_bytes 4 (inc AND 0x7fffffff))]"
| "frame_raws (F_Headers sid block e maxFrame) = header_raws sid block e maxFrame"
| "frame_raws (F_Data sid d e) = [(frameData, if e then flagEndStream else 0, sid, d)]"

fun frame_valid :: "h2frame \<Rightarrow> bool" where
  "frame_valid (F_Settings ss) \<longleftrightarrow> 6 * length ss < 2 ^ 24"
| "frame_valid F_SettingsAck \<longleftrightarrow> True"
| "frame_valid (F_Ping ack d) \<longleftrightarrow> length d = 8"
| "frame_valid (F_Rst sid code) \<longleftrightarrow> sid < 2 ^ 31"
| "frame_valid (F_GoAway lid code) \<longleftrightarrow> True"
| "frame_valid (F_WindowUpdate sid inc) \<longleftrightarrow> sid < 2 ^ 31"
| "frame_valid (F_Headers sid block e maxFrame) \<longleftrightarrow> sid < 2 ^ 31 \<and> 0 < maxFrame \<and> maxFrame < 2 ^ 24"
| "frame_valid (F_Data sid d e) \<longleftrightarrow> sid < 2 ^ 31 \<and> length d < 2 ^ 24"

lemma continuation_frames_eq:
  "continuation_frames b sid block m = b @ concat (map raw_bytes (continuation_raws sid block m))"
proof (induction b sid block m rule: continuation_frames.induct)
  case (1 b sid block m)
  show ?case
  proof (cases "block = [] \<or> m = 0")
    case True
    then show ?thesis by (subst continuation_frames.simps, subst continuation_raws.simps) simp
  next
    case False
    have t: "take (min (length block) m) block = take m block" "drop (min (length block) m) block = drop m block"
      by (simp_all add: min_def)
    have l: "min (length block) m = length block \<longleftrightarrow> length block \<le> m" by auto
    from False 1 [OF False refl refl] show ?thesis
      by (subst continuation_frames.simps, subst continuation_raws.simps) (simp add: Let_def t l h2_appendFrameHeader_def)
  qed
qed

lemma appendHeaders_eq: "appendHeaders [] sid block e m = concat (map raw_bytes (header_raws sid block e m))"
proof -
  have t: "take (min (length block) m) block = take m block" "drop (min (length block) m) block = drop m block"
    by (simp_all add: min_def)
  have l: "min (length block) m = length block \<longleftrightarrow> length block \<le> m" by auto
  show ?thesis
    by (simp add: appendHeaders_def header_raws_def Let_def t l continuation_frames_eq h2_appendFrameHeader_def)
qed

lemma settings_fold: "fold (\<lambda>(i, v) b. b @ be_bytes 2 i @ be_bytes 4 v) ss b =
    b @ concat (map (\<lambda>(i :: u16, v :: u32). be_bytes 2 i @ be_bytes 4 v) ss)"
  by (induction ss arbitrary: b) auto

lemma length_settings: "length (concat (map (\<lambda>(i :: u16, v :: u32). be_bytes 2 i @ be_bytes 4 v) ss)) = 6 * length ss"
  by (induction ss) auto

lemma frame_bytes_raws: "frame_valid f \<Longrightarrow> frame_bytes f = concat (map raw_bytes (frame_raws f))"
  by (cases f) (simp_all add: appendSettings_def settings_fold length_settings appendSettingsAck_def appendPing_def
      appendRSTStream_def appendGoAway_def appendWindowUpdate_def appendHeaders_eq h2_appendFrameHeader_def)

lemma continuation_raws_ok: "sid < 2 ^ 31 \<Longrightarrow> m < 2 ^ 24 \<Longrightarrow> list_all raw_ok (continuation_raws sid block m)"
proof (induction sid block m rule: continuation_raws.induct)
  case (1 sid block m)
  then show ?case by (subst continuation_raws.simps) auto
qed

lemma frame_raws_ok: "frame_valid f \<Longrightarrow> list_all raw_ok (frame_raws f)"
  by (cases f) (auto simp: length_settings header_raws_def continuation_raws_ok)

text \<open>The fragments of a header block.\<close>

lemma continuation_raws_block:
  assumes "0 < m"
  shows "concat (map (\<lambda>r. snd (snd (snd r))) (continuation_raws sid block m)) = block \<and>
    list_all (\<lambda>r. fst r = frameContinuation \<and> fst (snd (snd r)) = sid \<and> snd (snd (snd r)) \<noteq> [] \<and> length (snd (snd (snd r))) \<le> m) (continuation_raws sid block m) \<and>
    map (\<lambda>r. fst (snd r)) (continuation_raws sid block m) =
      (if block = [] then [] else replicate (length (continuation_raws sid block m) - 1) 0 @ [flagEndHeaders])"
  using assms
proof (induction sid block m rule: continuation_raws.induct)
  case (1 sid block m)
  show ?case
  proof (cases "block = []")
    case True
    then show ?thesis by (subst (1 2 3 4) continuation_raws.simps) simp
  next
    case False
    let ?rs = "continuation_raws sid (drop m block) m"
    have e: "continuation_raws sid block m =
        (frameContinuation, if length block \<le> m then flagEndHeaders else 0, sid, take m block) # ?rs"
      using False "1.prems" by (subst continuation_raws.simps) simp
    have ih: "concat (map (\<lambda>r. snd (snd (snd r))) ?rs) = drop m block"
      "list_all (\<lambda>r. fst r = frameContinuation \<and> fst (snd (snd r)) = sid \<and> snd (snd (snd r)) \<noteq> [] \<and> length (snd (snd (snd r))) \<le> m) ?rs"
      "map (\<lambda>r. fst (snd r)) ?rs = (if drop m block = [] then [] else replicate (length ?rs - 1) 0 @ [flagEndHeaders])"
      using "1.IH" False "1.prems" by simp_all
    have "map (\<lambda>r. fst (snd r)) (continuation_raws sid block m) = replicate (length ?rs) 0 @ [flagEndHeaders]"
    proof (cases "length block \<le> m")
      case True
      then have "?rs = []" by (subst continuation_raws.simps) simp
      with True e show ?thesis by simp
    next
      case nl: False
      with ih(3) have "length ?rs = Suc (length ?rs - 1)" by (cases ?rs) (auto split: if_splits)
      then have "replicate (length ?rs) (0 :: byte) = 0 # replicate (length ?rs - 1) 0" by (metis replicate_Suc)
      with nl ih(3) e show ?thesis by simp
    qed
    with e ih(1,2) False "1.prems" show ?thesis by simp
  qed
qed

lemma frames_decode:
  assumes "list_all frame_valid fs"
  shows "decode_all raw_dec (length (concat (map frame_raws fs))) (concat (map frame_bytes fs)) = (concat (map frame_raws fs), [])"
proof -
  have "concat (map frame_bytes fs) = concat (map raw_bytes (concat (map frame_raws fs)))"
    using assms by (induction fs) (auto simp: frame_bytes_raws)
  moreover have "list_all raw_ok (concat (map frame_raws fs))"
    using assms by (induction fs) (auto simp: frame_raws_ok)
  moreover have "raw_dec [] = None" by (simp add: raw_dec_def frameHeaderLen_def)
  ultimately show ?thesis
    using h2_raw.decode_all_concat [of "concat (map frame_raws fs)" "[]" "length (concat (map frame_raws fs))"] by simp
qed

section \<open>The fragments of a header block\<close>

lemma header_raws_fragments:
  assumes "0 < m"
  shows "concat (map (\<lambda>(t, f, i, p). p) (header_raws sid block e m)) = block \<and>
    list_all (\<lambda>(t, f, i, p). i = sid \<and> length p \<le> m) (header_raws sid block e m) \<and>
    map fst (header_raws sid block e m) = frameHeaders # replicate (length (header_raws sid block e m) - 1) frameContinuation \<and>
    map (\<lambda>(t, f, i, p). f AND flagEndHeaders \<noteq> 0) (header_raws sid block e m) =
      replicate (length (header_raws sid block e m) - 1) False @ [True] \<and>
    map (\<lambda>(t, f, i, p). f AND flagEndStream \<noteq> 0) (header_raws sid block e m) =
      e # replicate (length (header_raws sid block e m) - 1) False"
proof -
  let ?rs = "continuation_raws sid (drop m block) m"
  note c = continuation_raws_block [OF assms, of sid "drop m block"]
  have ty: "map fst ?rs = replicate (length ?rs) frameContinuation"
    using c by (intro replicate_eqI) (auto simp: list_all_iff)
  have bits: "flagEndHeaders AND flagEndHeaders \<noteq> 0" "flagEndHeaders AND flagEndStream = 0" "flagEndStream AND flagEndHeaders = 0"
    "flagEndStream AND flagEndStream \<noteq> 0" "(flagEndStream OR flagEndHeaders) AND flagEndHeaders \<noteq> 0"
    "(flagEndStream OR flagEndHeaders) AND flagEndStream \<noteq> 0"
    by (simp_all add: frame_flags)
  show ?thesis
  proof (cases "drop m block = []")
    case True
    then have "?rs = []" by (subst continuation_raws.simps) simp
    with True bits show ?thesis by (simp add: header_raws_def case_prod_unfold)
  next
    case False
    then have "length ?rs = Suc (length ?rs - 1)" using c by (cases ?rs) (auto split: if_splits)
    then have k: "replicate (length ?rs) x = x # replicate (length ?rs - 1) x" "replicate (length ?rs) x = replicate (length ?rs - 1) x @ [x]"
      for x :: bool by (metis replicate_Suc, metis replicate_Suc replicate_append_same)
    have "map (\<lambda>r. fst (snd r)) ?rs = replicate (length ?rs - 1) 0 @ [flagEndHeaders]" using c False by simp
    from arg_cong [OF this, of "map P" for P]
    have fl: "map (\<lambda>r. P (fst (snd r))) ?rs = replicate (length ?rs - 1) (P 0) @ [P flagEndHeaders]" for P :: "byte \<Rightarrow> bool"
      by (simp add: o_def)
    have "map (\<lambda>r. fst (snd r) AND flagEndHeaders \<noteq> 0) ?rs = replicate (length ?rs - 1) False @ [True]"
      "map (\<lambda>r. fst (snd r) AND flagEndStream \<noteq> 0) ?rs = replicate (length ?rs) False"
      using fl [of "\<lambda>f. f AND flagEndHeaders \<noteq> 0"] fl [of "\<lambda>f. f AND flagEndStream \<noteq> 0"] bits k(2) [of False] by simp_all
    with c ty False bits k(1) show ?thesis by (simp add: header_raws_def list_all_iff case_prod_unfold)
  qed
qed

lemma continuation_raws_nonempty: "0 < m \<Longrightarrow> list_all (\<lambda>(t, f, i, p). p \<noteq> []) (continuation_raws sid block m)"
  using continuation_raws_block [of m sid block] by (auto simp: list_all_iff)

lemma appendHeaders_append: "appendHeaders b sid block e m = b @ appendHeaders [] sid block e m"
  by (simp add: appendHeaders_def Let_def h2_appendFrameHeader_def continuation_frames_eq)

lemma length_raws_le: "length rs \<le> length (concat (map raw_bytes rs))"
  by (induction rs) auto

lemma appendHeaders_decode:
  assumes "sid < 2 ^ 31" "0 < m" "m < 2 ^ 24"
  shows "decode_all raw_dec (length (appendHeaders [] sid block e m)) (appendHeaders [] sid block e m) =
    (header_raws sid block e m, [])"
proof -
  have "list_all raw_ok (header_raws sid block e m)"
    using frame_raws_ok [of "F_Headers sid block e m"] assms by simp
  moreover have "raw_dec [] = None" by (simp add: raw_dec_def frameHeaderLen_def)
  ultimately show ?thesis
    using h2_raw.decode_all_concat [of "header_raws sid block e m" "[]" "length (appendHeaders [] sid block e m)"]
      length_raws_le [of "header_raws sid block e m"]
    by (simp add: appendHeaders_eq)
qed

section \<open>Properties\<close>

text \<open>
  C23. What the server writes can be cut into frames again: for any frames within the size limits, the bytes
  of all of them decode, with the parser of frame headers, to their types, flags, streams and payloads, in
  order and with nothing left over.
\<close>

theorem h2_frames_decode:
  assumes "list_all frame_valid fs"
  shows "decode_all raw_dec (length (concat (map frame_raws fs))) (concat (map frame_bytes fs)) = (concat (map frame_raws fs), [])"
  using assms by (rule frames_decode)

theorem h2_frames_decode_witness:
  "decode_all raw_dec (Suc (Suc 0)) (frame_bytes (F_Rst 3 8) @ frame_bytes (F_Data 5 [1, 2] True)) =
    ([(frameRSTStream, 0, 3, [0, 0, 0, 8]), (frameData, flagEndStream, 5, [1, 2])], [])"
proof -
  have "be_bytes 4 (8 :: u32) = [0, 0, 0, 8]" by code_simp
  then show ?thesis using h2_frames_decode [of "[F_Rst 3 8, F_Data 5 [1, 2] True]"] by simp
qed

text \<open>
  C24. \<^verbatim>\<open>appendHeaders\<close> puts a header block on the wire as one HEADERS frame followed by CONTINUATION frames and
  nothing else. What it appends to the buffer, cut into frames by the parser of frame headers, is a list of
  frames of that stream with nothing left over: the first is HEADERS and the others are CONTINUATION; the fragments put
  together are the block; no fragment exceeds the peer's frame size and no CONTINUATION is empty; END_HEADERS is on the
  last frame and on no other; END_STREAM is on the HEADERS frame exactly when asked for and on no other. The
  hypotheses are those the protocol puts on a stream identifier (31 bits) and on a frame size (at most 24 bits).
\<close>

theorem h2_header_fragments:
  assumes "sid < 2 ^ 31" "0 < m" "m < 2 ^ 24"
  shows "\<exists>first rest. appendHeaders b sid block e m = b @ appendHeaders [] sid block e m \<and>
    decode_all raw_dec (length (appendHeaders [] sid block e m)) (appendHeaders [] sid block e m) = (first # rest, []) \<and>
    fst first = frameHeaders \<and> map fst rest = replicate (length rest) frameContinuation \<and>
    list_all (\<lambda>(t, f, i, p). i = sid \<and> length p \<le> m) (first # rest) \<and> list_all (\<lambda>(t, f, i, p). p \<noteq> []) rest \<and>
    concat (map (\<lambda>(t, f, i, p). p) (first # rest)) = block \<and>
    map (\<lambda>(t, f, i, p). f AND flagEndHeaders \<noteq> 0) (first # rest) = replicate (length rest) False @ [True] \<and>
    map (\<lambda>(t, f, i, p). f AND flagEndStream \<noteq> 0) (first # rest) = e # replicate (length rest) False"
proof -
  obtain first where h: "header_raws sid block e m = first # continuation_raws sid (drop m block) m"
    by (simp add: header_raws_def)
  show ?thesis
    using header_raws_fragments [OF assms(2), of sid block e] continuation_raws_nonempty [OF assms(2), of sid "drop m block"]
      appendHeaders_decode [OF assms, of block e] appendHeaders_append [of b sid block e m]
    unfolding h by (intro exI [of _ first] exI [of _ "continuation_raws sid (drop m block) m"]) simp
qed

theorem h2_header_fragments_witness:
  "\<exists>first rest. appendHeaders [7] 1 [1, 2, 3, 4, 5] True 2 = 7 # appendHeaders [] 1 [1, 2, 3, 4, 5] True 2 \<and>
    decode_all raw_dec 32 (appendHeaders [] 1 [1, 2, 3, 4, 5] True 2) = (first # rest, []) \<and>
    concat (map (\<lambda>(t, f, i, p). p) (first # rest)) = [1, 2, 3, 4, 5] \<and>
    map (\<lambda>(t, f, i, p). f AND flagEndHeaders \<noteq> 0) (first # rest) = replicate (length rest) False @ [True]"
proof -
  have "length (appendHeaders [] 1 [1, 2, 3, 4, 5] True 2) = 32"
    by (simp add: appendHeaders_eq header_raws_def continuation_raws.simps)
  then show ?thesis using h2_header_fragments [of 1 2 "[7]" "[1, 2, 3, 4, 5]" True] by fastforce
qed

text \<open>
  Removing padding loses nothing of what flow control counts: when the padding is valid, the data and the
  bytes reported as padding together are the payload's length; data padded by any amount comes back as it was;
  and a pad length that does not fit is the only error.
\<close>

theorem h2_padding:
  "(case stripPadding payload fl of
      Some (data, pad) \<Rightarrow> length data + pad = length payload
    | None \<Rightarrow> fl AND flagPadded \<noteq> 0 \<and> (payload = [] \<or> unat (payload ! 0) \<ge> length payload)) \<and>
   stripPadding (n # data @ replicate (unat n) 0) flagPadded = Some (data, 1 + unat n)"
  by (auto simp: stripPadding_def Let_def sub_bytes_def frame_flags split: if_splits)

end
