(* ===== verification/H2Request.thy ===== *)
theory H2Request
  imports H2Frame Httpx
begin

text \<open>
  \<^verbatim>\<open>http2/request.go\<close>: the fields of a header block, as the HPACK decoder emits them, are checked and collected by
  \<open>emit\<close>, and a complete block becomes a request, a reply with an error status, or is malformed. The parser of
  request targets, \<^verbatim>\<open>url.ParseRequestURI\<close>, is a parameter that says which targets it accepts.
\<close>

section \<open>Names, values and hosts\<close>

definition maxHeaderValueCount :: nat where "maxHeaderValueCount = 500"

definition pseudoMethod :: byte where "pseudoMethod = 1"
definition pseudoScheme :: byte where "pseudoScheme = 2"
definition pseudoAuthority :: byte where "pseudoAuthority = 4"
definition pseudoPath :: byte where "pseudoPath = 8"
definition pseudoProtocol :: byte where "pseudoProtocol = 16"

definition lowerTokenBytes :: "char \<Rightarrow> bool" where
  "lowerTokenBytes c \<longleftrightarrow> c \<in> set (''!#$%&'' @ [CHR 0x27] @ ''*+-.^_`|~0123456789abcdefghijklmnopqrstuvwxyz'')"

definition tokenBytes :: "char \<Rightarrow> bool" where
  "tokenBytes c \<longleftrightarrow> c \<in> set (''!#$%&'' @ [CHR 0x27] @
     ''*+-.^_`|~0123456789ABCDEFGHIJKLMNOPQRSTUVWXYZabcdefghijklmnopqrstuvwxyz'')"

definition hostBytes :: "char \<Rightarrow> bool" where
  "hostBytes c \<longleftrightarrow> c \<in> set (''!$%&'' @ [CHR 0x27] @
     ''()*+,-.:;=_~0123456789ABCDEFGHIJKLMNOPQRSTUVWXYZabcdefghijklmnopqrstuvwxyz'')"

definition commonCanonicalHeaders :: "(string \<times> string) list" where
  "commonCanonicalHeaders =
    [(''accept'', ''Accept''), (''accept-charset'', ''Accept-Charset''), (''accept-encoding'', ''Accept-Encoding''),
     (''accept-language'', ''Accept-Language''), (''authorization'', ''Authorization''),
     (''cache-control'', ''Cache-Control''), (''connection'', ''Connection''),
     (''content-encoding'', ''Content-Encoding''), (''content-length'', ''Content-Length''),
     (''content-type'', ''Content-Type''), (''cookie'', ''Cookie''), (''date'', ''Date''), (''etag'', ''Etag''),
     (''expect'', ''Expect''), (''grpc-accept-encoding'', ''Grpc-Accept-Encoding''),
     (''grpc-encoding'', ''Grpc-Encoding''), (''grpc-message'', ''Grpc-Message''),
     (''grpc-status'', ''Grpc-Status''), (''grpc-timeout'', ''Grpc-Timeout''), (''host'', ''Host''),
     (''if-match'', ''If-Match''), (''if-modified-since'', ''If-Modified-Since''),
     (''if-none-match'', ''If-None-Match''), (''if-unmodified-since'', ''If-Unmodified-Since''),
     (''keep-alive'', ''Keep-Alive''), (''origin'', ''Origin''), (''pragma'', ''Pragma''),
     (''proxy-authorization'', ''Proxy-Authorization''), (''proxy-connection'', ''Proxy-Connection''),
     (''range'', ''Range''), (''referer'', ''Referer''), (''te'', ''Te''), (''trailer'', ''Trailer''),
     (''transfer-encoding'', ''Transfer-Encoding''), (''upgrade'', ''Upgrade''), (''user-agent'', ''User-Agent''),
     (''via'', ''Via''), (''x-forwarded-for'', ''X-Forwarded-For''), (''x-forwarded-proto'', ''X-Forwarded-Proto''),
     (''x-request-id'', ''X-Request-Id'')]"

definition canonicalHeaderKey :: "string \<Rightarrow> string" where
  "canonicalHeaderKey lower =
     (case map_of commonCanonicalHeaders lower of Some c \<Rightarrow> c | None \<Rightarrow> CanonicalMIMEHeaderKey lower)"

definition validLowerFieldName :: "string \<Rightarrow> bool" where
  "validLowerFieldName name \<longleftrightarrow> list_all lowerTokenBytes name \<and> name \<noteq> []"

definition validFieldName :: "string \<Rightarrow> bool" where
  "validFieldName name \<longleftrightarrow> list_all tokenBytes name \<and> name \<noteq> []"

definition validFieldValue :: "string \<Rightarrow> bool" where
  "validFieldValue v \<longleftrightarrow>
     v = [] \<or>
     \<not> (v ! 0 = CHR 0x20 \<or> v ! 0 = CHR 0x09 \<or> v ! (length v - 1) = CHR 0x20 \<or> v ! (length v - 1) = CHR 0x09) \<and>
     list_all (\<lambda>b. \<not> (ord b < 0x20 \<and> b \<noteq> CHR 0x09 \<or> ord b = 0x7f)) v"

definition host_and_rest :: "string \<Rightarrow> (string \<times> string) option" where
  "host_and_rest host =
     (if has_prefix ''['' host then
        case strings_IndexByte host (CHR '']'') of
          None \<Rightarrow> None
        | Some end \<Rightarrow> if end < 2 then None else Some (take (end - 1) (drop 1 host), drop (end + 1) host)
      else case strings_IndexByte host (CHR '':'') of
             Some i \<Rightarrow> Some (take i host, drop i host)
           | None \<Rightarrow> Some (host, []))"

definition validHost :: "string \<Rightarrow> bool" where
  "validHost host =
     (case host_and_rest host of
        None \<Rightarrow> False
      | Some (h, rest) \<Rightarrow>
          if \<not> list_all hostBytes h then False
          else if rest = [] then True
          else if rest ! 0 \<noteq> CHR '':'' then False
          else list_all is_digit (drop 1 rest))"

definition forbiddenTrailers :: "string list" where
  "forbiddenTrailers =
    [''Authorization'', ''Cache-Control'', ''Connection'', ''Content-Encoding'', ''Content-Length'',
     ''Content-Range'', ''Content-Type'', ''Expect'', ''Host'', ''Keep-Alive'', ''Max-Forwards'', ''Pragma'',
     ''Proxy-Authenticate'', ''Proxy-Authorization'', ''Proxy-Connection'', ''Range'', ''Realm'', ''Te'',
     ''Trailer'', ''Transfer-Encoding'', ''Upgrade'', ''Www-Authenticate'']"

definition validTrailerName :: "string \<Rightarrow> bool" where
  "validTrailerName canonical \<longleftrightarrow> \<not> has_prefix ''If-'' canonical \<and> canonical \<notin> set forbiddenTrailers"

section \<open>Collecting a header block\<close>

record headerBuilder =
  hb_streamID :: u32
  hb_method :: string
  hb_scheme :: string
  hb_authority :: string
  hb_path :: string
  hb_protocol :: string
  hb_header :: http_header
  remainingBytes :: u32
  fieldCount :: nat
  seenPseudos :: byte
  sawRegular :: bool
  isTrailer :: bool
  truncated :: bool
  invalid :: bool
  streamEnded :: bool
  selfDependency :: bool

definition hb_reset :: "u32 \<Rightarrow> u32 \<Rightarrow> bool \<Rightarrow> bool \<Rightarrow> bool \<Rightarrow> headerBuilder" where
  "hb_reset sid maxBytes trailer ended self =
     \<lparr>hb_streamID = sid, hb_method = [], hb_scheme = [], hb_authority = [], hb_path = [], hb_protocol = [], hb_header = [],
      remainingBytes = maxBytes, fieldCount = 0, seenPseudos = 0, sawRegular = False, isTrailer = trailer,
      truncated = False, invalid = False, streamEnded = ended, selfDependency = self\<rparr>"

type_synonym field = "string \<times> string"

definition field_Size :: "field \<Rightarrow> u32" where
  "field_Size f = of_nat (length (fst f) + length (snd f) + 32)"

text \<open>The pseudo-header fields: the bit of the field and the builder with its value; \<open>None\<close> for an unknown one.\<close>

definition set_pseudo :: "field \<Rightarrow> headerBuilder \<Rightarrow> (byte \<times> headerBuilder) option" where
  "set_pseudo f b =
     (if fst f = '':method'' then Some (pseudoMethod, b\<lparr>hb_method := snd f\<rparr>)
      else if fst f = '':scheme'' then Some (pseudoScheme, b\<lparr>hb_scheme := snd f\<rparr>)
      else if fst f = '':authority'' then Some (pseudoAuthority, b\<lparr>hb_authority := snd f\<rparr>)
      else if fst f = '':path'' then Some (pseudoPath, b\<lparr>hb_path := snd f\<rparr>)
      else if fst f = '':protocol'' then Some (pseudoProtocol, b\<lparr>hb_protocol := snd f\<rparr>)
      else None)"

text \<open>\<open>emit\<close>: the builder, and whether decoding should keep emitting fields.\<close>

definition emit :: "field \<Rightarrow> headerBuilder \<Rightarrow> headerBuilder \<times> bool" where
  "emit f b =
     (let b1 = b\<lparr>fieldCount := fieldCount b + 1\<rparr> in
      if fieldCount b1 > maxHeaderValueCount then (b1\<lparr>truncated := True, remainingBytes := 0\<rparr>, False)
      else if \<not> validFieldValue (snd f) then (b1\<lparr>invalid := True\<rparr>, False)
      else let sz = field_Size f in
        if sz > remainingBytes b1 then (b1\<lparr>truncated := True, remainingBytes := 0\<rparr>, False)
        else let b2 = b1\<lparr>remainingBytes := remainingBytes b1 - sz\<rparr> in
          if has_prefix '':'' (fst f) then
            if sawRegular b2 \<or> isTrailer b2 then (b2\<lparr>invalid := True\<rparr>, False)
            else case set_pseudo f b2 of
                   None \<Rightarrow> (b2\<lparr>invalid := True\<rparr>, False)
                 | Some (bit', b3) \<Rightarrow>
                     if seenPseudos b3 AND bit' \<noteq> 0 then (b3\<lparr>invalid := True\<rparr>, False)
                     else (b3\<lparr>seenPseudos := seenPseudos b3 OR bit'\<rparr>, True)
          else let b3 = b2\<lparr>sawRegular := True\<rparr> in
            if \<not> validLowerFieldName (fst f) then (b3\<lparr>invalid := True\<rparr>, False)
            else (b3\<lparr>hb_header := header_append (canonicalHeaderKey (fst f)) [snd f] (hb_header b3)\<rparr>, True))"

section \<open>Building a request\<close>

definition connection_headers :: "string list" where
  "connection_headers = [''Connection'', ''Keep-Alive'', ''Proxy-Connection'', ''Transfer-Encoding'', ''Upgrade'']"

definition validRequestConnectionHeaders :: "http_header \<Rightarrow> bool" where
  "validRequestConnectionHeaders h =
     (if list_ex (\<lambda>k. header_get k h \<noteq> None) connection_headers then False
      else case header_get ''Te'' h of
             None \<Rightarrow> True
           | Some te \<Rightarrow> \<not> (length te > 0 \<and> (length te > 1 \<or> te ! 0 \<noteq> ''trailers'' \<and> te ! 0 \<noteq> [])))"

datatype h2_url = URL_Host string | URL_Target string

record h2_request =
  rq_method :: string
  rq_url :: h2_url
  rq_header :: http_header
  rq_contentLength :: int
  rq_host :: string
  rq_requestURI :: string
  rq_trailer :: "http_header option"
  rq_expectContinue :: bool

text \<open>\<open>Malformed\<close> is \<^verbatim>\<open>ok = false\<close>; \<open>ReplyStatus\<close> a non-zero \<^verbatim>\<open>status\<close>.\<close>

datatype parsedRequest = Malformed | ReplyStatus nat | Parsed h2_request

text \<open>The port of \<^verbatim>\<open>url.URL.Port\<close>: what follows the last colon, when it is all digits.\<close>

definition url_Port :: "string \<Rightarrow> string" where
  "url_Port host =
     (if CHR '':'' \<in> set host \<and> list_all is_digit (rev (takeWhile (\<lambda>c. c \<noteq> CHR '':'') (rev host)))
      then rev (takeWhile (\<lambda>c. c \<noteq> CHR '':'') (rev host)) else [])"

definition request_authority :: "headerBuilder \<Rightarrow> (string \<times> http_header) option" where
  "request_authority b =
     (case header_get ''Host'' (hb_header b) of
        None \<Rightarrow> Some (hb_authority b, hb_header b)
      | Some hosts \<Rightarrow>
          if length hosts \<noteq> 1 \<or> (hb_authority b \<noteq> [] \<and> \<not> strings_EqualFold (hosts ! 0) (hb_authority b)) then None
          else Some (if hb_authority b = [] then hosts ! 0 else hb_authority b, header_del ''Host'' (hb_header b)))"

text \<open>The request target, its URL and the header, which an extended CONNECT adds to.\<close>

definition request_target :: "(string \<Rightarrow> bool) \<Rightarrow> headerBuilder \<Rightarrow> string \<Rightarrow> http_header \<Rightarrow> (h2_url \<times> string \<times> http_header) option" where
  "request_target uri_ok b authority header =
     (if hb_method b = ''CONNECT'' \<and> hb_protocol b = [] then
        if seenPseudos b AND (pseudoScheme OR pseudoPath) \<noteq> 0 \<or> authority = [] then None
        else if strconv_ParseUint (url_Port authority) 16 = None then None
        else Some (URL_Host authority, authority, header)
      else if hb_protocol b \<noteq> [] \<and> hb_method b \<noteq> ''CONNECT'' then None
      else if hb_method b = [] \<or> hb_scheme b = [] \<or> hb_path b = [] then None
      else if (hb_scheme b = ''http'' \<or> hb_scheme b = ''https'') \<and> CHR ''@'' \<in> set authority then None
      else if hb_path b ! 0 \<noteq> CHR ''/'' \<and> \<not> (hb_path b = ''*'' \<and> hb_method b = ''OPTIONS'') then None
      else if \<not> uri_ok (hb_path b) then None
      else Some (URL_Target (hb_path b), hb_path b,
             if hb_protocol b \<noteq> [] then header_set '':protocol'' [hb_protocol b] header else header))"

definition request_length :: "bool \<Rightarrow> http_header \<Rightarrow> (int \<times> http_header) option" where
  "request_length ended header =
     (case header_get ''Content-Length'' header of
        None \<Rightarrow> Some (if ended then 0 else -1, header)
      | Some lengths \<Rightarrow>
          case lengths of
            [] \<Rightarrow> None
          | l # dups \<Rightarrow>
              case strconv_ParseUint l 63 of
                None \<Rightarrow> None
              | Some n \<Rightarrow>
                  if list_ex (\<lambda>dup. dup \<noteq> l) dups then None
                  else if ended \<and> n \<noteq> 0 then None
                  else Some (int n, if dups \<noteq> [] then header_set ''Content-Length'' [l] header else header))"

text \<open>The names announced by \<^verbatim>\<open>Trailer\<close>.\<close>

function trailer_names :: "string \<Rightarrow> string list" where
  "trailer_names v =
     (if v = [] then []
      else let (part, rest) = strings_Cut v (CHR '',''); key = CanonicalMIMEHeaderKey (strings_TrimSpace part)
        in (if key \<noteq> [] \<and> validFieldName key \<and> validTrailerName key then [key] else []) @ trailer_names rest)"
  by pat_completeness auto
termination
proof (relation "measure length")
  fix v x part rest assume "v \<noteq> []" "x = strings_Cut v (CHR '','')" "(part, rest) = x"
  then have "length rest = length (dropWhile (\<lambda>c. c \<noteq> CHR '','') v) - 1" "v \<noteq> []" by (auto simp: strings_Cut_def)
  moreover have "length (dropWhile (\<lambda>c. c \<noteq> CHR '','') v) \<le> length v" by (rule length_dropWhile_le)
  ultimately show "(rest, v) \<in> measure length" by (cases v) auto
qed simp

declare trailer_names.simps [simp del]

definition request_trailer :: "http_header \<Rightarrow> http_header option \<times> http_header" where
  "request_trailer header =
     (case header_get ''Trailer'' header of
        None \<Rightarrow> (None, header)
      | Some vs \<Rightarrow>
          let names = concat (map trailer_names vs)
          in (if names = [] then None else Some (fold (\<lambda>k t. header_set k [] t) names []), header_del ''Trailer'' header))"

definition request_cookies :: "http_header \<Rightarrow> http_header" where
  "request_cookies header =
     (case header_get ''Cookie'' header of
        None \<Rightarrow> header
      | Some cookies \<Rightarrow> if length cookies > 1 then header_set ''Cookie'' [strings_Join cookies ''; ''] header else header)"

definition buildRequest :: "(string \<Rightarrow> bool) \<Rightarrow> headerBuilder \<Rightarrow> parsedRequest" where
  "buildRequest uri_ok b =
     (if invalid b \<or> selfDependency b then Malformed
      else if truncated b then ReplyStatus 431
      else if \<not> validRequestConnectionHeaders (hb_header b) then Malformed
      else case request_authority b of
        None \<Rightarrow> Malformed
      | Some (authority, header1) \<Rightarrow>
          if \<not> validHost authority then Malformed
          else if hb_method b = [] \<or> \<not> validFieldName (hb_method b) then Malformed
          else case request_target uri_ok b authority header1 of
            None \<Rightarrow> Malformed
          | Some (url, uri, header2) \<Rightarrow>
              case request_length (streamEnded b) header2 of
                None \<Rightarrow> Malformed
              | Some (len, header3) \<Rightarrow>
                  if header_get ''Expect'' header3 \<noteq> None \<and> \<not> HasToken (the (header_get ''Expect'' header3)) ''100-continue''
                  then ReplyStatus 417
                  else
                    let expect = (header_get ''Expect'' header3 \<noteq> None \<and> \<not> streamEnded b);
                        header4 = request_cookies (header_del ''Expect'' header3);
                        (trailer, header5) = request_trailer header4
                    in Parsed \<lparr>rq_method = hb_method b, rq_url = url, rq_header = header5, rq_contentLength = len,
                         rq_host = authority, rq_requestURI = uri, rq_trailer = trailer, rq_expectContinue = expect\<rparr>)"

text \<open>\<^verbatim>\<open>buildTrailers\<close>: \<open>None\<close> when the block is refused, otherwise the trailer of the request.\<close>

definition buildTrailers :: "headerBuilder \<Rightarrow> http_header option \<Rightarrow> http_header option option" where
  "buildTrailers b dst =
     (if invalid b \<or> truncated b \<or> selfDependency b \<or> \<not> streamEnded b \<or> seenPseudos b \<noteq> 0 then None
      else if \<not> list_all (\<lambda>(k, vs). validTrailerName k) (hb_header b) then None
      else Some (map_option (\<lambda>d. fold (\<lambda>(k, vs) d. header_append k vs d) (hb_header b) d) dst))"

section \<open>Header blocks\<close>

text \<open>
  The fields of a block go to \<open>emit\<close> one after the other, until it asks to stop: the builder, the number of
  fields it has taken, and whether it still takes more.
\<close>

fun emit_all :: "field list \<Rightarrow> headerBuilder \<Rightarrow> headerBuilder \<times> nat \<times> bool" where
  "emit_all [] b = (b, 0, True)"
| "emit_all (f # fs) b =
     (let (b1, keep) = emit f b
      in if keep then let (b2, n, k) = emit_all fs b1 in (b2, Suc n, k) else (b1, 1, False))"

definition pseudo :: "field \<Rightarrow> bool" where
  "pseudo f \<longleftrightarrow> has_prefix '':'' (fst f)"

definition pseudo_bit :: "string \<Rightarrow> byte" where
  "pseudo_bit n =
     (if n = '':method'' then pseudoMethod else if n = '':scheme'' then pseudoScheme else if n = '':authority'' then pseudoAuthority
      else if n = '':path'' then pseudoPath else if n = '':protocol'' then pseudoProtocol else 0)"

definition pseudo_names :: "string list" where
  "pseudo_names = ['':method'', '':scheme'', '':authority'', '':path'', '':protocol'']"

definition seen_bits :: "string list \<Rightarrow> byte" where
  "seen_bits ns = foldr (\<lambda>n w. pseudo_bit n OR w) ns 0"

definition pseudo_value :: "string \<Rightarrow> field list \<Rightarrow> string" where
  "pseudo_value n fs = (case map_of fs n of Some v \<Rightarrow> v | None \<Rightarrow> [])"

lemma pseudo_bit_meets: "n \<in> set pseudo_names \<Longrightarrow> m \<in> set pseudo_names \<Longrightarrow> pseudo_bit n AND pseudo_bit m \<noteq> 0 \<longleftrightarrow> n = m"
  by (auto simp: pseudo_names_def pseudo_bit_def pseudoMethod_def pseudoScheme_def pseudoAuthority_def pseudoPath_def pseudoProtocol_def)

lemma or_ne_0: "(x :: byte) OR y \<noteq> 0 \<longleftrightarrow> x \<noteq> 0 \<or> y \<noteq> 0"
  by (auto simp: or_eq_0_iff)

lemma seen_bits_meets:
  "set ns \<subseteq> set pseudo_names \<Longrightarrow> m \<in> set pseudo_names \<Longrightarrow> seen_bits ns AND pseudo_bit m \<noteq> 0 \<longleftrightarrow> m \<in> set ns"
proof (induction ns)
  case (Cons n ns)
  have "seen_bits (n # ns) AND pseudo_bit m = (pseudo_bit n AND pseudo_bit m) OR (seen_bits ns AND pseudo_bit m)"
    by (simp add: seen_bits_def bit.conj_disj_distrib2)
  with Cons pseudo_bit_meets [of n m] show ?case by (auto simp: or_ne_0)
qed (simp add: seen_bits_def)

lemma seen_bits_append: "seen_bits (ns @ [n]) = seen_bits ns OR pseudo_bit n"
  by (induction ns) (simp_all add: seen_bits_def ac_simps)

text \<open>What a block that was taken in full looks like.\<close>

definition block_of :: "u32 \<Rightarrow> bool \<Rightarrow> bool \<Rightarrow> bool \<Rightarrow> field list \<Rightarrow> headerBuilder \<Rightarrow> bool" where
  "block_of mx trailer ended self fs b \<longleftrightarrow>
     fs = filter pseudo fs @ filter (\<lambda>f. \<not> pseudo f) fs \<and>
     distinct (map fst (filter pseudo fs)) \<and> set (map fst (filter pseudo fs)) \<subseteq> set pseudo_names \<and>
     (trailer \<longrightarrow> filter pseudo fs = []) \<and>
     (\<forall>f \<in> set fs. validFieldValue (snd f) \<and> (\<not> pseudo f \<longrightarrow> validLowerFieldName (fst f))) \<and>
     length fs \<le> maxHeaderValueCount \<and> fieldCount b = length fs \<and>
     unat (remainingBytes b) + sum_list (map (\<lambda>f. unat (field_Size f)) fs) = unat mx \<and>
     seenPseudos b = seen_bits (map fst (filter pseudo fs)) \<and>
     sawRegular b = (filter (\<lambda>f. \<not> pseudo f) fs \<noteq> []) \<and>
     hb_method b = pseudo_value '':method'' (filter pseudo fs) \<and> hb_scheme b = pseudo_value '':scheme'' (filter pseudo fs) \<and>
     hb_authority b = pseudo_value '':authority'' (filter pseudo fs) \<and> hb_path b = pseudo_value '':path'' (filter pseudo fs) \<and>
     hb_protocol b = pseudo_value '':protocol'' (filter pseudo fs) \<and>
     hb_header b = fold (\<lambda>f h. header_append (canonicalHeaderKey (fst f)) [snd f] h) (filter (\<lambda>f. \<not> pseudo f) fs) [] \<and>
     isTrailer b = trailer \<and> streamEnded b = ended \<and> selfDependency b = self \<and> \<not> truncated b \<and> \<not> invalid b"

lemma block_of_reset: "block_of mx trailer ended self [] (hb_reset sid mx trailer ended self)"
  by (simp add: block_of_def hb_reset_def seen_bits_def pseudo_value_def)

lemma emit_stop: "emit f b = (b', False) \<Longrightarrow> truncated b' \<or> invalid b'"
  by (auto simp: emit_def Let_def split: if_splits option.splits)

text \<open>The two ways a field is taken.\<close>

lemma emit_keep:
  assumes "emit f b = (b', True)"
  obtains (pseudo) b1 where "pseudo f" "\<not> sawRegular b" "\<not> isTrailer b" "fst f \<in> set pseudo_names"
      "seenPseudos b AND pseudo_bit (fst f) = 0"
      "b1 = b\<lparr>fieldCount := Suc (fieldCount b), remainingBytes := remainingBytes b - field_Size f\<rparr>"
      "b' = (snd (the (set_pseudo f b1)))\<lparr>seenPseudos := seenPseudos b OR pseudo_bit (fst f)\<rparr>"
      "validFieldValue (snd f)" "fieldCount b < maxHeaderValueCount" "field_Size f \<le> remainingBytes b"
  | (regular) "\<not> pseudo f" "validLowerFieldName (fst f)"
      "b' = b\<lparr>fieldCount := fieldCount b + 1, remainingBytes := remainingBytes b - field_Size f, sawRegular := True,
         hb_header := header_append (canonicalHeaderKey (fst f)) [snd f] (hb_header b)\<rparr>"
      "validFieldValue (snd f)" "fieldCount b < maxHeaderValueCount" "field_Size f \<le> remainingBytes b"
proof (cases "pseudo f")
  case True
  have c: "fieldCount b < maxHeaderValueCount" "validFieldValue (snd f)" "field_Size f \<le> remainingBytes b"
    "\<not> sawRegular b" "\<not> isTrailer b"
    using assms True by (auto simp: emit_def Let_def pseudo_def split: if_splits)
  let ?b1 = "b\<lparr>fieldCount := Suc (fieldCount b), remainingBytes := remainingBytes b - field_Size f\<rparr>"
  have e: "emit f b = (case set_pseudo f ?b1 of
                   None \<Rightarrow> (?b1\<lparr>invalid := True\<rparr>, False)
                 | Some (bit', b3) \<Rightarrow>
                     if seenPseudos b3 AND bit' \<noteq> 0 then (b3\<lparr>invalid := True\<rparr>, False)
                     else (b3\<lparr>seenPseudos := seenPseudos b3 OR bit'\<rparr>, True))"
    using c True by (simp add: emit_def Let_def pseudo_def not_less [symmetric] del: not_less)
  have "fst f \<in> set pseudo_names \<and> seenPseudos b AND pseudo_bit (fst f) = 0 \<and>
      b' = (snd (the (set_pseudo f ?b1)))\<lparr>seenPseudos := seenPseudos b OR pseudo_bit (fst f)\<rparr>"
    using assms unfolding e by (auto simp: set_pseudo_def pseudo_bit_def pseudo_names_def split: if_splits)
  with True c show ?thesis by (intro pseudo [of ?b1]) auto
next
  case False
  with assms show ?thesis
    by (intro regular) (auto simp: emit_def Let_def pseudo_def split: if_splits)
qed

lemma pseudo_value_snoc:
  "distinct (map fst (fs @ [f])) \<Longrightarrow> pseudo_value n (fs @ [f]) = (if n = fst f then snd f else pseudo_value n fs)"
  by (cases f) (auto simp: pseudo_value_def map_of_eq_None_iff image_iff map_add_def split: option.splits dest: map_of_SomeD)

lemma set_pseudo_fields:
  assumes "fst f \<in> set pseudo_names"
  shows "hb_method (snd (the (set_pseudo f b))) = (if fst f = '':method'' then snd f else hb_method b)"
    "hb_scheme (snd (the (set_pseudo f b))) = (if fst f = '':scheme'' then snd f else hb_scheme b)"
    "hb_authority (snd (the (set_pseudo f b))) = (if fst f = '':authority'' then snd f else hb_authority b)"
    "hb_path (snd (the (set_pseudo f b))) = (if fst f = '':path'' then snd f else hb_path b)"
    "hb_protocol (snd (the (set_pseudo f b))) = (if fst f = '':protocol'' then snd f else hb_protocol b)"
    "fieldCount (snd (the (set_pseudo f b))) = fieldCount b" "remainingBytes (snd (the (set_pseudo f b))) = remainingBytes b"
    "hb_header (snd (the (set_pseudo f b))) = hb_header b" "sawRegular (snd (the (set_pseudo f b))) = sawRegular b"
    "isTrailer (snd (the (set_pseudo f b))) = isTrailer b" "streamEnded (snd (the (set_pseudo f b))) = streamEnded b"
    "selfDependency (snd (the (set_pseudo f b))) = selfDependency b" "truncated (snd (the (set_pseudo f b))) = truncated b"
    "invalid (snd (the (set_pseudo f b))) = invalid b"
  using assms by (auto simp: set_pseudo_def pseudo_names_def)

lemma block_of_emit:
  assumes inv: "block_of mx trailer ended self fs b" and e: "emit f b = (b', True)"
  shows "block_of mx trailer ended self (fs @ [f]) b'"
  using e
proof (cases rule: emit_keep)
  case (pseudo b1)
  let ?p = "filter H2Request.pseudo fs"
  have nr: "filter (\<lambda>f. \<not> H2Request.pseudo f) fs = []" using inv pseudo(2) by (simp add: block_of_def)
  then have all: "?p = fs" by (simp add: filter_empty_conv)
  have nw: "fst f \<notin> set (map fst ?p)"
    using seen_bits_meets [of "map fst ?p" "fst f"] inv pseudo(4,5) by (auto simp: block_of_def)
  then have d: "distinct (map fst (fs @ [f]))" using inv all by (simp add: block_of_def)
  have sz: "unat (remainingBytes b - field_Size f) + unat (field_Size f) = unat (remainingBytes b)"
    using pseudo(10) by (simp add: unat_sub word_le_nat_alt)
  have s: "seenPseudos b' = seen_bits (map fst (fs @ [f]))" using inv pseudo(7) all by (simp add: block_of_def seen_bits_append)
  have v: "hb_method b' = pseudo_value '':method'' (fs @ [f])" "hb_scheme b' = pseudo_value '':scheme'' (fs @ [f])"
    "hb_authority b' = pseudo_value '':authority'' (fs @ [f])" "hb_path b' = pseudo_value '':path'' (fs @ [f])"
    "hb_protocol b' = pseudo_value '':protocol'' (fs @ [f])" "fieldCount b' = fieldCount b + 1"
    "remainingBytes b' = remainingBytes b - field_Size f" "hb_header b' = hb_header b" "sawRegular b' = sawRegular b"
    "isTrailer b' = isTrailer b" "streamEnded b' = streamEnded b" "selfDependency b' = selfDependency b"
    "truncated b' = truncated b" "invalid b' = invalid b"
    using inv all by (simp_all add: pseudo(6,7) set_pseudo_fields [OF pseudo(4)] pseudo_value_snoc [OF d] block_of_def eq_commute)
  show ?thesis
    using inv pseudo(1,3,4,8,9) nr all d s v sz unfolding block_of_def by auto
next
  case regular
  have sz: "unat (remainingBytes b - field_Size f) + unat (field_Size f) = unat (remainingBytes b)"
    using regular(6) by (simp add: unat_sub word_le_nat_alt)
  show ?thesis using inv regular sz unfolding block_of_def by auto
qed

lemma block_of_emit_all:
  assumes "block_of mx trailer ended self fs0 b" and "emit_all fs b = (b', n, k)"
  shows "if k then block_of mx trailer ended self (fs0 @ fs) b' \<and> n = length fs else truncated b' \<or> invalid b'"
  using assms
proof (induction fs arbitrary: fs0 b n)
  case Nil
  then show ?case by simp
next
  case (Cons f fs)
  obtain b1 keep where e: "emit f b = (b1, keep)" by (cases "emit f b")
  show ?case
  proof (cases keep)
    case True
    obtain b2 m k2 where r: "emit_all fs b1 = (b2, m, k2)" by (metis prod_cases3)
    have "block_of mx trailer ended self (fs0 @ [f]) b1" using block_of_emit [OF Cons.prems(1), of f b1] e True by simp
    from Cons.IH [OF this] r e True Cons.prems(2) show ?thesis by (auto split: if_splits)
  next
    case False
    with e Cons.prems(2) emit_stop [of f b b1] show ?thesis by auto
  qed
qed

section \<open>What a request looks like\<close>

definition clean :: "string \<Rightarrow> bool" where
  "clean v \<longleftrightarrow> list_all (\<lambda>b. \<not> (ord b < 0x20 \<and> b \<noteq> CHR 0x09 \<or> ord b = 0x7f)) v"

definition clean_header :: "http_header \<Rightarrow> bool" where
  "clean_header h \<longleftrightarrow> (\<forall>(k, vs) \<in> set h. list_all clean vs)"

lemma valid_clean: "validFieldValue v \<Longrightarrow> clean v"
  by (auto simp: validFieldValue_def clean_def)

lemma clean_header_append: "clean_header h \<Longrightarrow> list_all clean vs \<Longrightarrow> clean_header (header_append k vs h)"
  by (induction k vs h rule: header_append.induct) (auto simp: clean_header_def split: if_splits)

lemma clean_header_set: "clean_header h \<Longrightarrow> list_all clean vs \<Longrightarrow> clean_header (header_set k vs h)"
  by (auto simp: clean_header_def header_set_def split: if_splits)

lemma clean_header_del: "clean_header h \<Longrightarrow> clean_header (header_del k h)"
  by (auto simp: clean_header_def header_del_def)

lemma clean_header_get: "clean_header h \<Longrightarrow> header_get k h = Some vs \<Longrightarrow> list_all clean vs"
  by (auto simp: clean_header_def header_get_def dest!: map_of_SomeD)

lemma clean_Join: "list_all clean vs \<Longrightarrow> clean (strings_Join vs ''; '')"
  by (induction vs "''; ''" rule: strings_Join.induct) (auto simp: clean_def ord_def)

lemma clean_fold_append:
  "clean_header h \<Longrightarrow> \<forall>f \<in> set fs. clean (snd f) \<Longrightarrow>
   clean_header (fold (\<lambda>f h. header_append (canonicalHeaderKey (fst f)) [snd f] h) fs h)"
  by (induction fs arbitrary: h) (auto simp: clean_header_append)

lemma clean_pseudo_value: "\<forall>f \<in> set fs. clean (snd f) \<Longrightarrow> clean (pseudo_value n fs)"
  by (auto simp: pseudo_value_def clean_def split: option.splits dest!: map_of_SomeD)

lemma request_cookies_facts:
  "clean_header h \<Longrightarrow> clean_header (request_cookies h)"
  "k \<noteq> ''Cookie'' \<Longrightarrow> header_get k (request_cookies h) = header_get k h"
  by (auto simp: request_cookies_def header_get_set clean_Join intro!: clean_header_set dest: clean_header_get split: option.splits)

lemma request_trailer_facts:
  assumes "request_trailer h = (t, h')"
  shows "clean_header h \<Longrightarrow> clean_header h'" "header_get ''Trailer'' h' = None"
    "k \<noteq> ''Trailer'' \<Longrightarrow> header_get k h' = header_get k h"
  using assms by (auto simp: request_trailer_def header_get_del Let_def clean_header_del split: option.splits)

lemma request_length_facts:
  assumes "request_length ended h = Some (len, h')"
  shows "(clean_header h \<longrightarrow> clean_header h') \<and> (\<forall>k. k \<noteq> ''Content-Length'' \<longrightarrow> header_get k h' = header_get k h) \<and>
    (header_get ''Content-Length'' h' = None \<and> len = (if ended then 0 else -1) \<or>
     (\<exists>l n. header_get ''Content-Length'' h' = Some [l] \<and> strconv_ParseUint l 63 = Some n \<and> len = int n \<and> (ended \<longrightarrow> n = 0)))"
proof -
  consider "header_get ''Content-Length'' h = None" "h' = h" "len = (if ended then 0 else -1)"
    | l dups n where "header_get ''Content-Length'' h = Some (l # dups)" "strconv_ParseUint l 63 = Some n" "len = int n"
      "ended \<longrightarrow> n = 0" "h' = (if dups \<noteq> [] then header_set ''Content-Length'' [l] h else h)"
    using assms by (auto simp: request_length_def split: option.splits list.splits if_splits)
  then show ?thesis
  proof cases
    case (2 l dups n)
    have "clean l" if "clean_header h" using clean_header_get [OF that 2(1)] by simp
    with 2 show ?thesis by (simp add: header_get_set clean_header_set)
  qed simp
qed

lemma request_target_facts:
  assumes "request_target uri_ok b authority h = Some (url, uri, h')"
  shows "clean_header h \<Longrightarrow> clean (hb_protocol b) \<Longrightarrow> clean_header h'" "k \<noteq> '':protocol'' \<Longrightarrow> header_get k h' = header_get k h"
    "uri \<noteq> []"
  using assms by (auto simp: request_target_def header_get_set clean_header_set split: if_splits)

lemma request_authority_facts:
  assumes "request_authority b = Some (authority, h)"
  shows "clean_header (hb_header b) \<Longrightarrow> clean_header h" "header_get ''Host'' h = None"
    "k \<noteq> ''Host'' \<Longrightarrow> header_get k h = header_get k (hb_header b)"
  using assms by (auto simp: request_authority_def header_get_del clean_header_del split: option.splits if_splits)

text \<open>The steps of \<open>buildRequest\<close> that lead to a request.\<close>

lemma buildRequest_Parsed:
  assumes "buildRequest uri_ok b = Parsed rq"
  obtains authority h1 url uri h2 len h3 trailer where
    "\<not> invalid b" "\<not> selfDependency b" "\<not> truncated b" "validRequestConnectionHeaders (hb_header b)"
    "request_authority b = Some (authority, h1)" "validHost authority" "hb_method b \<noteq> []" "validFieldName (hb_method b)"
    "request_target uri_ok b authority h1 = Some (url, uri, h2)" "request_length (streamEnded b) h2 = Some (len, h3)"
    "request_trailer (request_cookies (header_del ''Expect'' h3)) = (trailer, rq_header rq)"
    "rq_method rq = hb_method b" "rq_host rq = authority" "rq_contentLength rq = len" "rq_requestURI rq = uri" "rq_trailer rq = trailer"
  using assms by (auto simp: buildRequest_def Let_def split: if_splits option.splits prod.splits)

section \<open>Properties\<close>

text \<open>
  The table of common header names only saves work: the canonical form it gives is the one
  \<^verbatim>\<open>textproto.CanonicalMIMEHeaderKey\<close> computes, for every name.
\<close>

theorem h2_canonical_table: "canonicalHeaderKey lower = CanonicalMIMEHeaderKey lower"
proof -
  have t: "list_all (\<lambda>(l, c). c = CanonicalMIMEHeaderKey l) commonCanonicalHeaders"
    by (simp add: commonCanonicalHeaders_def CanonicalMIMEHeaderKey_def token_char_def is_upper_def is_lower_def is_digit_def
        to_upper_def to_lower_def ord_def char_of_def bit_numeral_rec bit_0)
  show ?thesis
  proof (cases "map_of commonCanonicalHeaders lower")
    case None
    then show ?thesis by (simp add: canonicalHeaderKey_def)
  next
    case (Some c)
    then have "(lower, c) \<in> set commonCanonicalHeaders" by (rule map_of_SomeD)
    with t Some show ?thesis by (auto simp: canonicalHeaderKey_def list_all_iff)
  qed
qed

text \<open>
  C27. A header block that becomes a request is well formed (RFC 9113 8.1 to 8.3): the pseudo-header fields come
  first, are known and occur once; there are at most 500 fields within the size limit; the method is a token and
  the host valid; no connection-specific field, and no Host, Expect or Trailer field, is left in the header; at most
  one Content-Length value remains and is the declared length, 0 when the stream has ended; and no field
  value contains a control character, so none contains CR, LF or NUL.
\<close>

theorem h2_request_wellformed:
  assumes "emit_all fs (hb_reset sid mx False ended self) = (b, n, k)" and "buildRequest uri_ok b = Parsed rq"
  shows "(\<exists>ps rs. fs = ps @ rs \<and> list_all pseudo ps \<and> distinct (map fst ps) \<and> set (map fst ps) \<subseteq> set pseudo_names \<and>
        list_all (\<lambda>f. \<not> pseudo f \<and> validLowerFieldName (fst f)) rs \<and> rq_method rq = pseudo_value '':method'' ps) \<and>
    length fs \<le> 500 \<and> sum_list (map (\<lambda>f. unat (field_Size f)) fs) \<le> unat mx \<and>
    validFieldName (rq_method rq) \<and> validHost (rq_host rq) \<and> rq_requestURI rq \<noteq> [] \<and>
    list_all (\<lambda>name. header_get name (rq_header rq) = None) (connection_headers @ [''Host'', ''Expect'', ''Trailer'']) \<and>
    (header_get ''Content-Length'' (rq_header rq) = None \<and> rq_contentLength rq = (if ended then 0 else -1) \<or>
     (\<exists>l n. header_get ''Content-Length'' (rq_header rq) = Some [l] \<and> strconv_ParseUint l 63 = Some n \<and>
        rq_contentLength rq = int n \<and> (ended \<longrightarrow> n = 0))) \<and>
    clean_header (rq_header rq)"
proof -
  obtain authority h1 url uri h2 len h3 trailer where p: "\<not> invalid b" and "\<not> selfDependency b" and p': "\<not> truncated b"
    "validRequestConnectionHeaders (hb_header b)" "request_authority b = Some (authority, h1)" "validHost authority"
    and "hb_method b \<noteq> []" and q: "validFieldName (hb_method b)"
    "request_target uri_ok b authority h1 = Some (url, uri, h2)" "request_length (streamEnded b) h2 = Some (len, h3)"
    "request_trailer (request_cookies (header_del ''Expect'' h3)) = (trailer, rq_header rq)"
    and rq: "rq_method rq = hb_method b" "rq_host rq = authority" "rq_contentLength rq = len" "rq_requestURI rq = uri"
    and "rq_trailer rq = trailer"
    by (rule buildRequest_Parsed [OF assms(2)])
  have blk: "block_of mx False ended self fs b"
    using block_of_emit_all [OF block_of_reset assms(1)] p p'(1) by (auto split: if_splits)
  have vals: "\<forall>f \<in> set fs. clean (snd f)" using blk valid_clean by (auto simp: block_of_def)
  then have ch: "clean_header (hb_header b)" "clean (hb_protocol b)"
    using blk clean_fold_append [of "[]" "filter (\<lambda>f. \<not> pseudo f) fs"] clean_pseudo_value [of "filter pseudo fs" "'':protocol''"]
    by (simp_all add: block_of_def clean_header_def)
  note a = request_authority_facts [OF p'(3)] and t = request_target_facts [OF q(2)] and lf = request_length_facts [OF q(3)]
    and r = request_trailer_facts [OF q(4)]
  from lf have l: "clean_header h2 \<Longrightarrow> clean_header h3" "name \<noteq> ''Content-Length'' \<Longrightarrow> header_get name h3 = header_get name h2" for name
    by simp_all
  have get: "header_get name (rq_header rq) = header_get name (hb_header b)"
    if "name \<notin> {'':protocol'', ''Host'', ''Expect'', ''Trailer'', ''Content-Length'', ''Cookie''}" for name
    using that by (simp add: r(3) request_cookies_facts(2) header_get_del l(2) t(2) a(3))
  have "header_get ''Host'' (rq_header rq) = None" "header_get ''Expect'' (rq_header rq) = None"
    "header_get ''Content-Length'' (rq_header rq) = header_get ''Content-Length'' h3"
    by (simp_all add: r(3) request_cookies_facts(2) header_get_del l(2) t(2) a(2))
  moreover have "list_all (\<lambda>name. header_get name (rq_header rq) = None) connection_headers"
    using p'(2) get by (auto simp: validRequestConnectionHeaders_def connection_headers_def split: if_splits)
  moreover have "clean_header (rq_header rq)"
    using ch a(1) t(1) l(1) r(1) by (auto intro!: request_cookies_facts clean_header_del)
  moreover have "streamEnded b = ended" using blk by (simp add: block_of_def)
  moreover have "\<exists>ps rs. fs = ps @ rs \<and> list_all pseudo ps \<and> distinct (map fst ps) \<and> set (map fst ps) \<subseteq> set pseudo_names \<and>
        list_all (\<lambda>f. \<not> pseudo f \<and> validLowerFieldName (fst f)) rs \<and> rq_method rq = pseudo_value '':method'' ps"
    using blk rq(1) by (intro exI [of _ "filter pseudo fs"] exI [of _ "filter (\<lambda>f. \<not> pseudo f) fs"])
      (auto simp: block_of_def list_all_iff)
  moreover have "length fs \<le> 500" "sum_list (map (\<lambda>f. unat (field_Size f)) fs) \<le> unat mx"
    using blk by (auto simp: block_of_def maxHeaderValueCount_def)
  ultimately show ?thesis
    using p'(4) q(1) rq r(2) t(3) lf by simp
qed

text \<open>A request for the root of a host, with one field.\<close>

definition get_fields :: "field list" where
  "get_fields = [('':method'', ''GET''), ('':scheme'', ''http''), ('':path'', ''/''), ('':authority'', ''a.b''), (''accept'', ''x'')]"

definition get_block :: headerBuilder where
  "get_block = (hb_reset 1 1000 False True False)\<lparr>hb_method := ''GET'', hb_scheme := ''http'', hb_path := ''/'', hb_authority := ''a.b'',
     hb_header := [(''Accept'', [''x''])], remainingBytes := 793, fieldCount := 5, seenPseudos := 15, sawRegular := True\<rparr>"

lemmas string_eval = token_char_def is_upper_def is_lower_def is_digit_def to_upper_def to_lower_def ord_def char_of_def
  bit_numeral_rec bit_0 has_prefix_def

lemma get_block_emitted: "emit_all get_fields (hb_reset 1 1000 False True False) = (get_block, 5, True)"
  by (simp add: get_fields_def get_block_def hb_reset_def emit_def validFieldValue_def field_Size_def maxHeaderValueCount_def
      set_pseudo_def pseudoMethod_def pseudoScheme_def pseudoAuthority_def pseudoPath_def validLowerFieldName_def
      lowerTokenBytes_def canonicalHeaderKey_def commonCanonicalHeaders_def string_eval Let_def)

lemma get_request: "\<exists>rq. buildRequest (\<lambda>uri. True) get_block = Parsed rq \<and> rq_method rq = ''GET'' \<and> rq_host rq = ''a.b''"
  by (simp add: buildRequest_def get_block_def hb_reset_def validRequestConnectionHeaders_def connection_headers_def header_get_def
      request_authority_def validHost_def host_and_rest_def strings_IndexByte_def hostBytes_def validFieldName_def tokenBytes_def
      request_target_def request_length_def request_cookies_def request_trailer_def header_del_def string_eval Let_def)

theorem h2_request_wellformed_witness:
  "\<exists>rq. buildRequest (\<lambda>uri. True) get_block = Parsed rq \<and> rq_contentLength rq = 0 \<and> validHost (rq_host rq) \<and>
     header_get ''Connection'' (rq_header rq) = None \<and> clean_header (rq_header rq)"
proof -
  obtain rq where rq: "buildRequest (\<lambda>uri. True) get_block = Parsed rq" using get_request by blast
  from h2_request_wellformed [OF get_block_emitted this] rq show ?thesis by (auto simp: connection_headers_def)
qed

end
