(* ===== verification/H2Conn.thy ===== *)
theory H2Conn
  imports H2Request
begin

text \<open>
  \<^verbatim>\<open>http2/conn.go\<close>, \<^verbatim>\<open>http2/stream.go\<close> and \<^verbatim>\<open>http2/write.go\<close>: one HTTP/2 connection. The connection and its streams
  are records; a stream is named by its identifier, which is used for one stream only, so \<open>objs\<close> holds every
  stream a goroutine may still point to, and \<open>streams\<close> lists the keys of the map of open streams. A buffer of
  control frames is the list of frames in it, and \<open>h_wire\<close> the frames handed to the engine, whose bytes
  \<open>frame_bytes\<close> gives. A deadline is the timeout it was set with. A section of code under a lock is one
  function; what follows it under \<^verbatim>\<open>writeMu\<close> is part of it, because nothing else can write in between.

  The HPACK coder is another package: an \<open>h2_env\<close> says, from the history of the calls made on a decoder or an
  encoder, which fields it emits, whether it fails, and which bytes it writes; it also has the targets that
  \<^verbatim>\<open>url.ParseRequestURI\<close> accepts and the date. Cancelling the context of a request is not modelled.
\<close>

section \<open>State\<close>

datatype h2_error = ErrStreamReset | ErrClientDisconnected | ErrBodyClosedByHandler | ErrContentLengthMismatch
  | NetClosed | DeadlineExceeded | WriteFailed

datatype streamState = StreamOpen | StreamHalfClosedRemote | StreamHalfClosedLocal | StreamClosed

datatype dec_op = Dec_Write bytes nat | Dec_Emit bool | Dec_Close

datatype enc_op = Enc_TableSize u32 | Enc_Field field

record h2_env =
  dec_fields :: "dec_op list \<Rightarrow> bytes \<Rightarrow> field list"
  dec_ok :: "dec_op list \<Rightarrow> bytes \<Rightarrow> nat \<Rightarrow> bool"
  dec_close :: "dec_op list \<Rightarrow> bool"
  enc_field :: "enc_op list \<Rightarrow> field \<Rightarrow> bytes"
  uri_valid :: "string \<Rightarrow> bool"
  currentDate :: string

record h2_stream =
  sendWindow :: int
  receiveWindow :: int
  unackedBytes :: int
  receivedBytes :: int
  declaredLength :: int
  bodyBuf :: bytes
  bodyPos :: nat
  readReady :: "bool option"
  writeReady :: "bool option"
  readErr :: "h2_error option"
  writeErr :: "h2_error option"
  st_state :: streamState
  eof :: bool
  gotTrailers :: bool
  bodyClosed :: bool
  expectContinue :: bool
  wroteHeaders :: bool
  sentEndStream :: bool
  sentReset :: bool
  waitingConn :: bool
  st_trailer :: "http_header option"
  bodyIn :: bytes
  bodyOut :: bytes
  st_granted :: int

record h2_options =
  MaxConcurrentStreams :: nat
  MaxHeaderBytes :: nat
  MaxReadFrameSize :: nat
  InitialWindowSize :: int
  ConnectionWindowSize :: int
  ReadHeaderTimeout :: int
  IdleTimeout :: int

record h2_conn =
  opts :: h2_options
  decoder :: "dec_op list option"
  emitEnabled :: bool
  builder :: headerBuilder
  continuationStreamID :: u32
  continuationFrames :: nat
  maxClientStreamID :: u32
  controlTokens :: int
  prefaceRead :: nat
  broken :: bool
  encoder :: "enc_op list option"
  streams :: "u32 list"
  objs :: "u32 \<Rightarrow> h2_stream"
  waitingStreams :: "u32 list"
  c_sendWindow :: int
  c_receiveWindow :: int
  unackedReceiveBytes :: int
  peerInitialWindowSize :: int
  peerMaxFrameSize :: nat
  peerHeaderTableSize :: u32
  minHeaderTableSize :: u32
  headerTableSizeUpdated :: bool
  activeStreams :: nat
  resetTokens :: int
  recentResets :: "u32 list"
  recentResetPos :: byte
  sawFirstSettings :: bool
  inHeaderBlock :: bool
  partialFrame :: bool
  goingAway :: bool
  closeWhenIdle :: bool
  h_closed :: bool
  h_wire :: "h2frame list"
  h_failed :: bool
  h_writable :: bool
  h_closeCalls :: nat
  h_timeout :: int
  bodyRoom :: bool
  started :: "u32 list"
  c_granted :: int

text \<open>
  History: \<open>bodyIn\<close> and \<open>bodyOut\<close>, the bytes received for the body of a request and those its handler has read;
  \<open>st_granted\<close> and \<open>c_granted\<close>, the window increments accepted; \<open>started\<close>, the streams handed to the executor.
  Environment: \<open>h_failed\<close>, writes to the engine fail; \<open>h_writable\<close>, what \<^verbatim>\<open>Writable\<close> reports; \<open>bodyRoom\<close>, the pool
  buffer of a body has room for what arrives.
\<close>

definition maxContinuationFrames :: nat where "maxContinuationFrames = 64"
definition maxResetBurst :: int where "maxResetBurst = 1000"
definition maxControlBurst :: int where "maxControlBurst = 2000"
definition maxCopiedBody :: nat where "maxCopiedBody = 4096"

text \<open>\<^verbatim>\<open>Options.withDefaults\<close>.\<close>

definition withDefaults :: "nat \<Rightarrow> int \<Rightarrow> int \<Rightarrow> int \<Rightarrow> int \<Rightarrow> int \<Rightarrow> int \<Rightarrow> h2_options" where
  "withDefaults streams' hdrBytes frameSize initWin connWin hdrTimeout idle =
     (let iw = (if initWin \<le> 0 then 262144 else min initWin maxWindowSize);
          cw = (if connWin \<le> 0 then max 1048576 iw else connWin)
      in \<lparr>MaxConcurrentStreams = (if streams' = 0 then 250 else streams'),
          MaxHeaderBytes = (if hdrBytes \<le> 0 then 65536 else nat hdrBytes),
          MaxReadFrameSize = (if frameSize \<le> 0 then minMaxFrameSize
                              else min (max (nat frameSize) minMaxFrameSize) maxFrameSizeLimit),
          InitialWindowSize = iw,
          ConnectionWindowSize = min (max cw defaultInitialWindowSize) maxWindowSize,
          ReadHeaderTimeout = (if hdrTimeout = 0 then 10000000000 else hdrTimeout),
          IdleTimeout = (if idle = 0 then 120000000000 else idle)\<rparr>)"

definition new_stream :: "int \<Rightarrow> int \<Rightarrow> int \<Rightarrow> bool \<Rightarrow> bool \<Rightarrow> http_header option \<Rightarrow> h2_stream" where
  "new_stream sendw recvw len ended expect trailer =
     \<lparr>sendWindow = sendw, receiveWindow = recvw, unackedBytes = 0, receivedBytes = 0, declaredLength = len, bodyBuf = [],
      bodyPos = 0, readReady = None, writeReady = None, readErr = None, writeErr = None,
      st_state = (if ended then StreamHalfClosedRemote else StreamOpen), eof = ended, gotTrailers = False, bodyClosed = False,
      expectContinue = expect, wroteHeaders = False, sentEndStream = False, sentReset = False, waitingConn = False,
      st_trailer = trailer, bodyIn = [], bodyOut = [], st_granted = 0\<rparr>"

definition newConn :: "h2_options \<Rightarrow> h2_conn" where
  "newConn o' =
     \<lparr>opts = o', decoder = None, emitEnabled = True, builder = hb_reset 0 0 False False False, continuationStreamID = 0,
      continuationFrames = 0, maxClientStreamID = 0, controlTokens = maxControlBurst, prefaceRead = 0, broken = False,
      encoder = None, streams = [], objs = (\<lambda>_. (new_stream 0 0 0 False False None)\<lparr>st_state := StreamClosed\<rparr>),
      waitingStreams = [], c_sendWindow = defaultInitialWindowSize, c_receiveWindow = i32 (ConnectionWindowSize o'),
      unackedReceiveBytes = 0, peerInitialWindowSize = defaultInitialWindowSize, peerMaxFrameSize = minMaxFrameSize,
      peerHeaderTableSize = defaultHeaderTableSize, minHeaderTableSize = 0xffffffff, headerTableSizeUpdated = False,
      activeStreams = 0, resetTokens = maxResetBurst, recentResets = [0, 0, 0, 0], recentResetPos = 0, sawFirstSettings = False,
      inHeaderBlock = False, partialFrame = False, goingAway = False, closeWhenIdle = False, h_closed = False, h_wire = [],
      h_failed = False, h_writable = True, h_closeCalls = 0, h_timeout = 0, bodyRoom = True, started = [], c_granted = 0\<rparr>"

section \<open>The engine\<close>

definition engine_Write :: "h2frame list \<Rightarrow> h2_conn \<Rightarrow> h2_conn \<times> bool" where
  "engine_Write fs c = (if h_failed c then (c, False) else (c\<lparr>h_wire := h_wire c @ fs\<rparr>, True))"

definition engine_Close :: "h2_conn \<Rightarrow> h2_conn" where
  "engine_Close c = c\<lparr>h_closeCalls := h_closeCalls c + 1\<rparr>"

definition engine_SetDeadline :: "int \<Rightarrow> h2_conn \<Rightarrow> h2_conn" where
  "engine_SetDeadline timeout c = c\<lparr>h_timeout := timeout\<rparr>"

definition upd :: "u32 \<Rightarrow> (h2_stream \<Rightarrow> h2_stream) \<Rightarrow> h2_conn \<Rightarrow> h2_conn" where
  "upd sid f c = c\<lparr>objs := (objs c)(sid := f (objs c sid))\<rparr>"

section \<open>Opening\<close>

text \<open>The TLS state of a connection, when it has one: version, cipher suite and negotiated protocol.\<close>

type_synonym tls_state = "nat \<times> nat \<times> string"

definition isAllowedTLS12Cipher :: "nat \<Rightarrow> bool" where
  "isAllowedTLS12Cipher suite \<longleftrightarrow> suite \<in> {0xc02f, 0xc02b, 0xc030, 0xc02c, 0xcca8, 0xcca9}"

definition failConnImmediate :: "errCode \<Rightarrow> h2_conn \<Rightarrow> h2_conn" where
  "failConnImmediate code c = engine_Close (fst (engine_Write [F_GoAway 0 code] (c\<lparr>broken := True\<rparr>)))"

definition onOpen :: "tls_state option \<Rightarrow> h2_conn \<Rightarrow> h2_conn" where
  "onOpen tls c =
     (if tls \<noteq> None \<and> (fst (the tls) < 0x303 \<or> fst (the tls) = 0x303 \<and> \<not> isAllowedTLS12Cipher (fst (snd (the tls))))
      then failConnImmediate errCodeInadequateSecurity c
      else if tls \<noteq> None \<and> snd (snd (the tls)) \<noteq> ''h2'' then failConnImmediate errCodeProtocol c
      else
        let c1 = engine_SetDeadline (ReadHeaderTimeout (opts c)) c;
            settings = [(settingMaxConcurrentStreams, of_nat (MaxConcurrentStreams (opts c))),
                        (settingInitialWindowSize, of_int (InitialWindowSize (opts c))),
                        (settingMaxFrameSize, of_nat (MaxReadFrameSize (opts c))),
                        (settingMaxHeaderListSize, of_nat (MaxHeaderBytes (opts c))),
                        (settingNoRFC7540Priorities, 1)];
            extra = ConnectionWindowSize (opts c) - defaultInitialWindowSize;
            out = F_Settings settings # (if extra > 0 then [F_WindowUpdate 0 (of_int extra)] else []);
            (c2, ok) = engine_Write out c1
        in if ok then c2 else engine_Close (c2\<lparr>broken := True\<rparr>))"

definition setDeadlineLocked :: "h2_conn \<Rightarrow> h2_conn" where
  "setDeadlineLocked c =
     (if h_closed c then c
      else engine_SetDeadline
        (if goingAway c \<and> activeStreams c = 0 then ReadHeaderTimeout (opts c)
         else if \<not> sawFirstSettings c \<or> inHeaderBlock c \<or> (activeStreams c = 0 \<and> partialFrame c) then ReadHeaderTimeout (opts c)
         else if activeStreams c > 0 then 0
         else IdleTimeout (opts c)) c)"

section \<open>Streams\<close>

definition takeControlToken :: "h2_conn \<Rightarrow> h2_conn \<times> bool" where
  "takeControlToken c = (if controlTokens c \<le> 0 then (c, False) else (c\<lparr>controlTokens := controlTokens c - 1\<rparr>, True))"

definition replenishControlTokens :: "int \<Rightarrow> h2_conn \<Rightarrow> h2_conn" where
  "replenishControlTokens n c = c\<lparr>controlTokens := min (controlTokens c + n) maxControlBurst\<rparr>"

definition noteServerResetLocked :: "u32 \<Rightarrow> h2_conn \<Rightarrow> h2_conn" where
  "noteServerResetLocked sid c =
     c\<lparr>recentResets := (recentResets c)[unat (recentResetPos c AND 3) := sid], recentResetPos := recentResetPos c + 1\<rparr>"

definition wasRecentlyResetLocked :: "u32 \<Rightarrow> h2_conn \<Rightarrow> bool" where
  "wasRecentlyResetLocked sid c \<longleftrightarrow> sid \<in> set (recentResets c)"

text \<open>A send on a channel of one element that does not block; a nil channel is never ready.\<close>

definition wakeReaderLocked :: "h2_stream \<Rightarrow> h2_stream" where
  "wakeReaderLocked s = s\<lparr>readReady := map_option (\<lambda>_. True) (readReady s)\<rparr>"

definition wakeWriterLocked :: "h2_stream \<Rightarrow> h2_stream" where
  "wakeWriterLocked s = s\<lparr>writeReady := map_option (\<lambda>_. True) (writeReady s)\<rparr>"

definition unread :: "h2_stream \<Rightarrow> nat" where
  "unread s = length (bodyBuf s) - bodyPos s"

definition appendDataLocked :: "bool \<Rightarrow> bytes \<Rightarrow> h2_stream \<Rightarrow> h2_stream" where
  "appendDataLocked room data s =
     (let s1 = (if bodyPos s > 0 \<and> \<not> room \<and> bodyPos s \<ge> length (bodyBuf s) - bodyPos s
                then s\<lparr>bodyBuf := drop (bodyPos s) (bodyBuf s), bodyPos := 0\<rparr> else s)
      in s1\<lparr>bodyBuf := bodyBuf s1 @ data, bodyIn := bodyIn s1 @ data\<rparr>)"

definition discardUnreadBodyLocked :: "u32 \<Rightarrow> h2_conn \<Rightarrow> h2_conn" where
  "discardUnreadBodyLocked sid c =
     (let s = objs c sid;
          c1 = (if unread s > 0 then c\<lparr>unackedReceiveBytes := i32 (unackedReceiveBytes c + i32 (int (unread s)))\<rparr> else c)
      in upd sid (\<lambda>s. s\<lparr>bodyBuf := [], bodyPos := 0\<rparr>) c1)"

definition unregisterWaiterLocked :: "u32 \<Rightarrow> h2_conn \<Rightarrow> h2_conn" where
  "unregisterWaiterLocked sid c =
     (if \<not> waitingConn (objs c sid) then c
      else upd sid (\<lambda>s. s\<lparr>waitingConn := False\<rparr>) (c\<lparr>waitingStreams := remove1 sid (waitingStreams c)\<rparr>))"

definition wakeWaitingStreamsLocked :: "h2_conn \<Rightarrow> h2_conn" where
  "wakeWaitingStreamsLocked c =
     (fold (\<lambda>sid. upd sid (\<lambda>s. wakeWriterLocked (s\<lparr>waitingConn := False\<rparr>))) (waitingStreams c) c)\<lparr>waitingStreams := []\<rparr>"

definition removeStreamLocked :: "u32 \<Rightarrow> h2_error option \<Rightarrow> h2_error option \<Rightarrow> h2_conn \<Rightarrow> h2_conn" where
  "removeStreamLocked sid rerr werr c =
     (if st_state (objs c sid) = StreamClosed then c
      else
        let c1 = upd sid (\<lambda>s. s\<lparr>st_state := StreamClosed,
                     readErr := (if rerr \<noteq> None \<and> readErr s = None then rerr else readErr s),
                     writeErr := (if werr \<noteq> None \<and> writeErr s = None then werr else writeErr s)\<rparr>) c;
            c2 = unregisterWaiterLocked sid (discardUnreadBodyLocked sid c1);
            c3 = (if sid \<in> set (streams c2) then
                    let d = c2\<lparr>streams := remove1 sid (streams c2), activeStreams := activeStreams c2 - 1\<rparr>
                    in if activeStreams d = 0 then setDeadlineLocked d else d
                  else c2)
        in upd sid (\<lambda>s. wakeWriterLocked (wakeReaderLocked s)) c3)"

definition takeConnWindowUpdateLocked :: "h2_conn \<Rightarrow> h2_conn \<times> u32" where
  "takeConnWindowUpdateLocked c =
     (if unackedReceiveBytes c \<ge> ConnectionWindowSize (opts c) div 2
      then (c\<lparr>c_receiveWindow := i32 (c_receiveWindow c + unackedReceiveBytes c), unackedReceiveBytes := 0\<rparr>,
            of_int (unackedReceiveBytes c))
      else (c, 0))"

definition conn_update :: "u32 \<Rightarrow> h2frame list" where
  "conn_update inc = (if inc > 0 then [F_WindowUpdate 0 inc] else [])"

definition addUnacked :: "int \<Rightarrow> h2_conn \<Rightarrow> h2_conn" where
  "addUnacked n c = c\<lparr>unackedReceiveBytes := i32 (unackedReceiveBytes c + n)\<rparr>"

definition failStreamLocked ::
  "u32 \<Rightarrow> h2_error \<Rightarrow> errCode \<Rightarrow> h2frame list \<Rightarrow> h2_conn \<Rightarrow> h2_conn \<times> h2frame list" where
  "failStreamLocked sid rerr code out c =
     (let alreadyReset = sentReset (objs c sid);
          c1 = noteServerResetLocked sid (upd sid (\<lambda>s. s\<lparr>sentReset := True\<rparr>) c);
          (c2, inc) = takeConnWindowUpdateLocked (removeStreamLocked sid (Some rerr) (Some ErrStreamReset) c1)
      in (c2, out @ conn_update inc @ (if \<not> alreadyReset then [F_Rst sid code] else [])))"

definition consumeReceiveBytesLocked :: "u32 \<Rightarrow> int \<Rightarrow> h2_conn \<Rightarrow> h2_conn \<times> u32 \<times> u32" where
  "consumeReceiveBytesLocked sid n c =
     (let (c1, connInc) = takeConnWindowUpdateLocked (addUnacked n c);
          s = objs c1 sid
      in if \<not> eof s \<and> \<not> bodyClosed s \<and> st_state s \<noteq> StreamClosed then
           let u = i32 (unackedBytes s + n)
           in if u \<ge> InitialWindowSize (opts c1) div 2
              then (upd sid (\<lambda>s. s\<lparr>receiveWindow := i32 (receiveWindow s + u), unackedBytes := 0\<rparr>) c1, connInc, of_int u)
              else (upd sid (\<lambda>s. s\<lparr>unackedBytes := u\<rparr>) c1, connInc, 0)
         else (c1, connInc, 0))"

section \<open>Frames received\<close>

text \<open>A handler gives the connection, the control frames to send and an error code.\<close>

type_synonym handled = "h2_conn \<times> h2frame list \<times> errCode"

text \<open>The loop over the streams for a new initial window; the error leaves the rest as they were.\<close>

fun adjust_windows :: "int \<Rightarrow> u32 list \<Rightarrow> h2_conn \<Rightarrow> h2_conn \<times> bool" where
  "adjust_windows delta [] c = (c, True)"
| "adjust_windows delta (sid # ids) c =
     (let s = objs c sid in
      if sendWindow s + delta > maxWindowSize then (c, False)
      else adjust_windows delta ids
        (upd sid (\<lambda>s. let s1 = s\<lparr>sendWindow := sendWindow s + delta\<rparr>
                      in if sendWindow s \<le> 0 \<and> sendWindow s1 > 0 then wakeWriterLocked s1 else s1) c))"

definition apply_setting :: "u16 \<Rightarrow> u32 \<Rightarrow> h2_conn \<Rightarrow> h2_conn \<times> errCode" where
  "apply_setting i v c =
     (if i = settingHeaderTableSize then
        let capped = min v defaultHeaderTableSize
        in (c\<lparr>minHeaderTableSize := (if capped < minHeaderTableSize c then capped else minHeaderTableSize c),
              peerHeaderTableSize := capped, headerTableSizeUpdated := True\<rparr>, errCodeNo)
      else if i = settingEnablePush then (c, if v > 1 then errCodeProtocol else errCodeNo)
      else if i = settingInitialWindowSize then
        if uint v > maxWindowSize then (c, errCodeFlowControl)
        else
          let delta = uint v - peerInitialWindowSize c;
              c1 = c\<lparr>peerInitialWindowSize := i32 (uint v)\<rparr>
          in if delta \<noteq> 0 then
               let (c2, ok) = adjust_windows delta (streams c1) c1 in (c2, if ok then errCodeNo else errCodeFlowControl)
             else (c1, errCodeNo)
      else if i = settingMaxFrameSize then
        if unat v < minMaxFrameSize \<or> unat v > maxFrameSizeLimit then (c, errCodeProtocol)
        else (c\<lparr>peerMaxFrameSize := unat v\<rparr>, errCodeNo)
      else (c, errCodeNo))"

function settings_loop :: "bytes \<Rightarrow> h2_conn \<Rightarrow> h2_conn \<times> errCode" where
  "settings_loop payload c =
     (if payload = [] then (c, errCodeNo)
      else
        let (c1, code) = apply_setting (be_word (sub_bytes payload 0 2)) (be_word (sub_bytes payload 2 6)) c
        in if code \<noteq> errCodeNo then (c1, code) else settings_loop (drop 6 payload) c1)"
  by pat_completeness auto
termination by (relation "measure (\<lambda>(payload, c). length payload)") auto

declare settings_loop.simps [simp del]

definition handleSettings :: "h2_frameHeader \<Rightarrow> bytes \<Rightarrow> h2frame list \<Rightarrow> h2_conn \<Rightarrow> handled" where
  "handleSettings fh payload out c =
     (if streamID fh \<noteq> 0 then (c, out, errCodeProtocol)
      else if flags fh AND flagAck \<noteq> 0 then (c, out, if fh_length fh \<noteq> 0 then errCodeFrameSize else errCodeNo)
      else if unat (fh_length fh) mod 6 \<noteq> 0 then (c, out, errCodeFrameSize)
      else
        let (c1, ok) = takeControlToken c in
        if \<not> ok then (c1, out, errCodeEnhanceYourCalm)
        else
          let firstSettings = \<not> sawFirstSettings c1;
              (c2, code) = settings_loop payload (c1\<lparr>sawFirstSettings := True\<rparr>)
          in if code \<noteq> errCodeNo then (c2, out, code)
             else (if firstSettings then setDeadlineLocked c2 else c2, out @ [F_SettingsAck], errCodeNo))"

definition handlePing :: "h2_frameHeader \<Rightarrow> bytes \<Rightarrow> h2frame list \<Rightarrow> h2_conn \<Rightarrow> handled" where
  "handlePing fh payload out c =
     (if streamID fh \<noteq> 0 then (c, out, errCodeProtocol)
      else if fh_length fh \<noteq> 8 then (c, out, errCodeFrameSize)
      else if flags fh AND flagAck \<noteq> 0 then (c, out, errCodeNo)
      else let (c1, ok) = takeControlToken c
        in if \<not> ok then (c1, out, errCodeEnhanceYourCalm) else (c1, out @ [F_Ping True payload], errCodeNo))"

definition handleGoAway :: "h2_frameHeader \<Rightarrow> errCode" where
  "handleGoAway fh =
     (if streamID fh \<noteq> 0 then errCodeProtocol else if fh_length fh < 8 then errCodeFrameSize else errCodeNo)"

definition handlePriority :: "h2_frameHeader \<Rightarrow> bytes \<Rightarrow> h2frame list \<Rightarrow> h2_conn \<Rightarrow> handled" where
  "handlePriority fh payload out c =
     (if streamID fh = 0 then (c, out, errCodeProtocol)
      else if fh_length fh \<noteq> 5 then (c, out, errCodeFrameSize)
      else if be_word (sub_bytes payload 0 4) AND 0x7fffffff = streamID fh then
        let (c1, ok) = takeControlToken c
        in if \<not> ok then (c1, out, errCodeEnhanceYourCalm) else (c1, out @ [F_Rst (streamID fh) errCodeProtocol], errCodeNo)
      else (c, out, errCodeNo))"

definition handleWindowUpdate :: "h2_frameHeader \<Rightarrow> bytes \<Rightarrow> h2frame list \<Rightarrow> h2_conn \<Rightarrow> handled" where
  "handleWindowUpdate fh payload out c =
     (if fh_length fh \<noteq> 4 then (c, out, errCodeFrameSize)
      else
        let inc = be_word (sub_bytes payload 0 4) AND (0x7fffffff :: u32) in
        if inc = 0 then
          if streamID fh = 0 then (c, out, errCodeProtocol)
          else let (c1, ok) = takeControlToken c
            in if \<not> ok then (c1, out, errCodeEnhanceYourCalm) else (c1, out @ [F_Rst (streamID fh) errCodeProtocol], errCodeNo)
        else if streamID fh = 0 then
          if c_sendWindow c + uint inc > maxWindowSize then (c, out, errCodeFlowControl)
          else (wakeWaitingStreamsLocked (c\<lparr>c_sendWindow := c_sendWindow c + uint inc, c_granted := c_granted c + uint inc\<rparr>),
                out, errCodeNo)
        else if even (unat (streamID fh)) \<or> streamID fh > maxClientStreamID c then (c, out, errCodeProtocol)
        else if streamID fh \<notin> set (streams c) then (c, out, errCodeNo)
        else if sendWindow (objs c (streamID fh)) + uint inc > maxWindowSize then
          let (c1, out1) = failStreamLocked (streamID fh) ErrStreamReset errCodeFlowControl out c in (c1, out1, errCodeNo)
        else
          (upd (streamID fh) (\<lambda>s. let s1 = s\<lparr>sendWindow := sendWindow s + uint inc, st_granted := st_granted s + uint inc\<rparr>
               in if sendWindow s \<le> 0 \<and> sendWindow s1 > 0 then wakeWriterLocked s1 else s1) c, out, errCodeNo))"

definition handleRSTStream :: "h2_frameHeader \<Rightarrow> h2frame list \<Rightarrow> h2_conn \<Rightarrow> handled" where
  "handleRSTStream fh out c =
     (if streamID fh = 0 then (c, out, errCodeProtocol)
      else if fh_length fh \<noteq> 4 then (c, out, errCodeFrameSize)
      else if even (unat (streamID fh)) \<or> streamID fh > maxClientStreamID c then (c, out, errCodeProtocol)
      else if resetTokens c \<le> 0 then (c, out, errCodeEnhanceYourCalm)
      else
        let c1 = c\<lparr>resetTokens := resetTokens c - 1\<rparr> in
        if streamID fh \<in> set (streams c1) then
          let c2 = removeStreamLocked (streamID fh) (Some ErrStreamReset) (Some ErrStreamReset)
                     (upd (streamID fh) (\<lambda>s. s\<lparr>sentReset := True\<rparr>) c1);
              (c3, inc) = takeConnWindowUpdateLocked c2
          in (c3, out @ conn_update inc, errCodeNo)
        else (c1, out, errCodeNo))"

text \<open>The data of an accepted frame.\<close>

definition store_data :: "u32 \<Rightarrow> int \<Rightarrow> bytes \<Rightarrow> nat \<Rightarrow> bool \<Rightarrow> h2_conn \<Rightarrow> h2_conn" where
  "store_data sid frameBytes data padBytes endStream c =
     (let s = objs c sid;
          c3 = upd sid (\<lambda>s. s\<lparr>receivedBytes := receivedBytes s + int (length data)\<rparr>) c;
          c4 = (if bodyClosed s then addUnacked frameBytes c3
                else
                  let c5 = (if padBytes > 0
                            then upd sid (\<lambda>s. s\<lparr>unackedBytes := i32 (unackedBytes s + int padBytes)\<rparr>)
                                   (addUnacked (int padBytes) c3)
                            else c3)
                  in if length data > 0 then upd sid (appendDataLocked (bodyRoom c5) data) c5 else c5)
      in if endStream then
           let c7 = upd sid (\<lambda>s. s\<lparr>eof := True\<rparr>) c4
           in if st_state s = StreamHalfClosedLocal then removeStreamLocked sid None None c7
              else upd sid (\<lambda>s. s\<lparr>st_state := StreamHalfClosedRemote\<rparr>) c7
         else c4)"

text \<open>The windows are given back once half of them is used, and the reader is woken.\<close>

definition ack_data :: "u32 \<Rightarrow> h2frame list \<Rightarrow> h2_conn \<Rightarrow> handled" where
  "ack_data sid out c =
     (let (c8, inc) = takeConnWindowUpdateLocked c;
          out1 = out @ conn_update inc;
          t = objs c8 sid;
          (c9, out2) =
            (if \<not> eof t \<and> \<not> bodyClosed t \<and> unackedBytes t \<ge> InitialWindowSize (opts c8) div 2
             then (upd sid (\<lambda>s. s\<lparr>receiveWindow := i32 (receiveWindow s + unackedBytes s), unackedBytes := 0\<rparr>) c8,
                   out1 @ [F_WindowUpdate sid (of_int (unackedBytes t))])
             else (c8, out1))
      in (upd sid wakeReaderLocked c9, out2, errCodeNo))"

definition handleData :: "h2_frameHeader \<Rightarrow> bytes \<Rightarrow> h2frame list \<Rightarrow> h2_conn \<Rightarrow> handled" where
  "handleData fh payload out c =
     (if streamID fh = 0 \<or> even (unat (streamID fh)) \<or> streamID fh > maxClientStreamID c then (c, out, errCodeProtocol)
      else case stripPadding payload (flags fh) of
        None \<Rightarrow> (c, out, errCodeProtocol)
      | Some (data, padBytes) \<Rightarrow>
          let frameBytes = i32 (uint (fh_length fh)); sid = streamID fh in
          if frameBytes > c_receiveWindow c then (c, out, errCodeFlowControl)
          else
            let c1 = c\<lparr>c_receiveWindow := i32 (c_receiveWindow c - frameBytes)\<rparr>; s = objs c1 sid in
            if sid \<notin> set (streams c1) then
              let (c2, inc) = takeConnWindowUpdateLocked (addUnacked frameBytes c1);
                  out1 = out @ conn_update inc;
                  (c3, ok) = takeControlToken c2
              in if \<not> ok then (c3, out1, errCodeEnhanceYourCalm) else (c3, out1 @ [F_Rst sid errCodeStreamClosed], errCodeNo)
            else if st_state s = StreamHalfClosedRemote \<or> st_state s = StreamClosed \<or> gotTrailers s then
              let (c2, out1) = failStreamLocked sid ErrStreamReset errCodeStreamClosed out (addUnacked frameBytes c1)
              in (c2, out1, errCodeNo)
            else if frameBytes > receiveWindow s then
              let (c2, out1) = failStreamLocked sid ErrStreamReset errCodeFlowControl out (addUnacked frameBytes c1)
              in (c2, out1, errCodeNo)
            else
              let c2 = upd sid (\<lambda>s. s\<lparr>receiveWindow := i32 (receiveWindow s - frameBytes)\<rparr>) c1;
                  endStream = (flags fh AND flagEndStream \<noteq> 0);
                  newTotal = receivedBytes s + int (length data)
              in if declaredLength s \<ge> 0 \<and> (newTotal > declaredLength s \<or> endStream \<and> newTotal \<noteq> declaredLength s) then
                   let (c3, out1) = failStreamLocked sid ErrContentLengthMismatch errCodeProtocol out (addUnacked frameBytes c2)
                   in (c3, out1, errCodeNo)
                 else
                   ack_data sid out (store_data sid frameBytes data padBytes endStream c2))"

section \<open>Writing\<close>

definition writeErrLocked :: "u32 \<Rightarrow> h2_conn \<Rightarrow> h2_error option" where
  "writeErrLocked sid c =
     (let s = objs c sid in
      if h_closed c then Some NetClosed
      else if writeErr s \<noteq> None then writeErr s
      else if st_state s = StreamClosed \<or> sentEndStream s \<or> sentReset s then Some ErrStreamReset
      else None)"

definition encoderLocked :: "h2_conn \<Rightarrow> h2_conn" where
  "encoderLocked c =
     (let e = (case encoder c of None \<Rightarrow> [] | Some h \<Rightarrow> h) in
      if headerTableSizeUpdated c
      then c\<lparr>headerTableSizeUpdated := False,
             encoder := Some (e @ (if minHeaderTableSize c < peerHeaderTableSize c then [Enc_TableSize (minHeaderTableSize c)] else [])
                                @ [Enc_TableSize (peerHeaderTableSize c)]),
             minHeaderTableSize := 0xffffffff\<rparr>
      else c\<lparr>encoder := Some e\<rparr>)"

fun encode_fields :: "h2_env \<Rightarrow> field list \<Rightarrow> enc_op list \<Rightarrow> bytes \<times> enc_op list" where
  "encode_fields E [] h = ([], h)"
| "encode_fields E (f # fs) h =
     (let (b, h') = encode_fields E fs (h @ [Enc_Field f]) in (enc_field E h f @ b, h'))"

function nat_string :: "nat \<Rightarrow> string" where
  "nat_string n = (if n < 10 then [char_of (48 + n)] else nat_string (n div 10) @ [char_of (48 + n mod 10)])"
  by pat_completeness auto
termination by (relation "measure id") auto

declare nat_string.simps [simp del]

text \<open>The fields of a response: status, given fields, and what the server adds when not empty.\<close>

definition response_fields :: "nat \<Rightarrow> field list \<Rightarrow> string \<Rightarrow> string \<Rightarrow> string \<Rightarrow> field list" where
  "response_fields status flds contentType contentLength date =
     (if status > 0 then [('':status'', nat_string status)] else []) @ flds @
     (if contentType \<noteq> [] then [(''content-type'', contentType)] else []) @
     (if contentLength \<noteq> [] then [(''content-length'', contentLength)] else []) @
     (if date \<noteq> [] then [(''date'', date)] else [])"

text \<open>The header block, and the connection with the encoder after it.\<close>

definition encodeResponseHeadersLocked ::
  "h2_env \<Rightarrow> nat \<Rightarrow> field list \<Rightarrow> string \<Rightarrow> string \<Rightarrow> string \<Rightarrow> h2_conn \<Rightarrow> bytes \<times> h2_conn" where
  "encodeResponseHeadersLocked E status flds contentType contentLength date c =
     (let (block, h) = encode_fields E (response_fields status flds contentType contentLength date)
            (case encoder c of None \<Rightarrow> [] | Some h \<Rightarrow> h)
      in (block, c\<lparr>encoder := Some h\<rparr>))"

definition endStreamLocalLocked :: "u32 \<Rightarrow> h2_conn \<Rightarrow> h2_conn \<times> bool" where
  "endStreamLocalLocked sid c =
     (let c1 = upd sid (\<lambda>s. s\<lparr>sentEndStream := True\<rparr>) c in
      if st_state (objs c1 sid) = StreamOpen
      then (removeStreamLocked sid (Some ErrBodyClosedByHandler) None
              (noteServerResetLocked sid (upd sid (\<lambda>s. s\<lparr>sentReset := True\<rparr>) c1)), True)
      else (removeStreamLocked sid None None (c1\<lparr>resetTokens := min (resetTokens c1 + 1) maxResetBurst\<rparr>), False))"

definition early_reset :: "u32 \<Rightarrow> bool \<Rightarrow> h2frame list" where
  "early_reset sid need = (if need then [F_Rst sid errCodeNo] else [])"

text \<open>The error of an engine write.\<close>

definition write_result :: "h2_conn \<times> bool \<Rightarrow> h2_conn \<times> h2_error option" where
  "write_result r = (fst r, if snd r then None else Some WriteFailed)"

definition http_StatusText :: "nat \<Rightarrow> string" where
  "http_StatusText code =
     (if code = 417 then ''Expectation Failed'' else if code = 431 then ''Request Header Fields Too Large'' else [])"

definition replyErrorStatus :: "h2_env \<Rightarrow> u32 \<Rightarrow> nat \<Rightarrow> bool \<Rightarrow> h2_conn \<Rightarrow> h2_conn" where
  "replyErrorStatus E sid code clientEnded c =
     (let body = nat_string code @ '' '' @ http_StatusText code in
      if h_closed c then c
      else
        let c1 = encoderLocked (if \<not> clientEnded then noteServerResetLocked sid c else c);
            maxFrame = peerMaxFrameSize c1; n = length body;
            canSendBody = (int n \<le> c_sendWindow c1 \<and> int n \<le> peerInitialWindowSize c1 \<and> n \<le> maxFrame);
            c2 = (if canSendBody then c1\<lparr>c_sendWindow := c_sendWindow c1 - int n\<rparr> else c1);
            (block, c3) = encodeResponseHeadersLocked E code [] ''text/plain; charset=utf-8''
                            (if canSendBody then nat_string n else []) (currentDate E) c2;
            out = [F_Headers sid block (\<not> canSendBody) maxFrame] @ (if canSendBody then [F_Data sid (map of_char body) True] else []) @
                  early_reset sid (\<not> clientEnded)
        in fst (engine_Write out c3))"

definition writeHeaders ::
  "h2_env \<Rightarrow> u32 \<Rightarrow> nat \<Rightarrow> field list \<Rightarrow> string \<Rightarrow> string \<Rightarrow> string \<Rightarrow> bool \<Rightarrow> bool \<Rightarrow> h2_conn \<Rightarrow> h2_conn \<times> h2_error option" where
  "writeHeaders E sid status flds contentType contentLength date endStream informational c =
     (if writeErrLocked sid c \<noteq> None then (c, writeErrLocked sid c)
      else if informational \<and> wroteHeaders (objs c sid) then (c, None)
      else
        let c1 = (if \<not> informational \<and> status > 0 then upd sid (\<lambda>s. s\<lparr>wroteHeaders := True, expectContinue := False\<rparr>) c else c);
            c2 = encoderLocked c1;
            maxFrame = peerMaxFrameSize c2;
            (c3, needEarlyReset) = (if endStream then endStreamLocalLocked sid c2 else (c2, False));
            (block, c4) = encodeResponseHeadersLocked E status flds contentType contentLength date c3
        in write_result (engine_Write ([F_Headers sid block endStream maxFrame] @ early_reset sid needEarlyReset) c4))"

text \<open>\<^verbatim>\<open>writeData\<close>: one round of its loop, under the locks. \<open>WD_wait\<close>: the caller waits for \<^verbatim>\<open>writeReady\<close> or the timer.\<close>

datatype wd_result = WD_return "h2_error option" | WD_wait | WD_again | WD_more bytes

definition writeData_empty :: "u32 \<Rightarrow> bool \<Rightarrow> h2_conn \<Rightarrow> h2_conn \<times> h2_error option" where
  "writeData_empty sid endStream c =
     (if \<not> endStream then (c, None)
      else if writeErrLocked sid c \<noteq> None then (c, writeErrLocked sid c)
      else let (c1, needEarlyReset) = endStreamLocalLocked sid c
        in write_result (engine_Write ([F_Data sid [] True] @ early_reset sid needEarlyReset) c1))"

definition register_waiter :: "u32 \<Rightarrow> h2_conn \<Rightarrow> h2_conn" where
  "register_waiter sid c =
     (let c1 = upd sid (\<lambda>s. s\<lparr>writeReady := Some False\<rparr>) c in
      if (\<not> h_writable c1 \<or> c_sendWindow c1 \<le> 0) \<and> \<not> waitingConn (objs c1 sid)
      then upd sid (\<lambda>s. s\<lparr>waitingConn := True\<rparr>) (c1\<lparr>waitingStreams := waitingStreams c1 @ [sid]\<rparr>)
      else c1)"

text \<open>\<open>now_writable\<close> is what the second look at \<^verbatim>\<open>Writable\<close> reports, after registering.\<close>

definition writeData_round :: "bool \<Rightarrow> u32 \<Rightarrow> bytes \<Rightarrow> bool \<Rightarrow> h2_conn \<Rightarrow> h2_conn \<times> wd_result" where
  "writeData_round now_writable sid data endStream c =
     (if data = [] then let (c1, e) = writeData_empty sid endStream c in (c1, WD_return e)
      else if writeErrLocked sid c \<noteq> None then (unregisterWaiterLocked sid c, WD_return (writeErrLocked sid c))
      else
        let avail = min (c_sendWindow c) (sendWindow (objs c sid)) in
        if \<not> h_writable c \<or> avail \<le> 0 then
          let c1 = register_waiter sid c in
          if now_writable \<and> avail > 0 then (unregisterWaiterLocked sid c1, WD_again) else (c1, WD_wait)
        else
          let c1 = unregisterWaiterLocked sid c;
              taken = min (length data) (min (peerMaxFrameSize c1) (nat avail));
              c2 = upd sid (\<lambda>s. s\<lparr>sendWindow := sendWindow s - int taken\<rparr>) (c1\<lparr>c_sendWindow := c_sendWindow c1 - int taken\<rparr>);
              lastChunk = (endStream \<and> taken = length data);
              (c3, needEarlyReset) = (if lastChunk then endStreamLocalLocked sid c2 else (c2, False));
              (c4, ok) = engine_Write ([F_Data sid (take taken data) lastChunk] @ early_reset sid needEarlyReset) c3
          in if \<not> ok then (c4, WD_return (Some WriteFailed))
             else if drop taken data = [] then (c4, WD_return None)
             else (c4, WD_more (drop taken data)))"

text \<open>\<open>Inr body\<close>: the headers are sent and the body goes on through \<^verbatim>\<open>writeData\<close>.\<close>

definition writeHeadersAndBody ::
  "h2_env \<Rightarrow> u32 \<Rightarrow> nat \<Rightarrow> field list \<Rightarrow> string \<Rightarrow> string \<Rightarrow> string \<Rightarrow> bytes \<Rightarrow> h2_conn \<Rightarrow> h2_conn \<times> (h2_error option + bytes)" where
  "writeHeadersAndBody E sid status flds contentType contentLength date body c =
     (if writeErrLocked sid c \<noteq> None then (c, Inl (writeErrLocked sid c))
      else
        let c1 = encoderLocked (upd sid (\<lambda>s. s\<lparr>wroteHeaders := True, expectContinue := False\<rparr>) c);
            maxFrame = peerMaxFrameSize c1; n = length body;
            canCombine = (n \<le> maxFrame \<and> h_writable c1 \<and> int n \<le> c_sendWindow c1 \<and> int n \<le> sendWindow (objs c1 sid));
            (c2, needEarlyReset) =
              (if canCombine
               then endStreamLocalLocked sid
                      (upd sid (\<lambda>s. s\<lparr>sendWindow := sendWindow s - int n\<rparr>) (c1\<lparr>c_sendWindow := c_sendWindow c1 - int n\<rparr>))
               else (c1, False));
            (block, c3) = encodeResponseHeadersLocked E status flds contentType contentLength date c2
        in if \<not> canCombine then
             let (c4, ok) = engine_Write [F_Headers sid block False maxFrame] c3
             in if \<not> ok then (c4, Inl (Some WriteFailed)) else (c4, Inr body)
           else if n \<le> maxCopiedBody \<or> needEarlyReset then
             let (c4, e) = write_result (engine_Write ([F_Headers sid block False maxFrame, F_Data sid body True] @
                             early_reset sid needEarlyReset) c3)
             in (c4, Inl e)
           else
             let (c4, e) = write_result (engine_Write [F_Headers sid block False maxFrame, F_Data sid body True] c3)
             in (c4, Inl e))"

definition resetStream :: "u32 \<Rightarrow> errCode \<Rightarrow> h2_conn \<Rightarrow> h2_conn" where
  "resetStream sid code c =
     (let alreadyDone = (h_closed c \<or> sentReset (objs c sid));
          c1 = noteServerResetLocked sid (upd sid (\<lambda>s. s\<lparr>sentReset := True\<rparr>) c);
          (c2, inc) = takeConnWindowUpdateLocked (removeStreamLocked sid (Some ErrStreamReset) (Some ErrStreamReset) c1)
      in if \<not> alreadyDone \<or> inc > 0
         then fst (engine_Write (conn_update inc @ (if \<not> alreadyDone then [F_Rst sid code] else [])) c2)
         else c2)"

definition sendGoAway :: "bool \<Rightarrow> h2_conn \<Rightarrow> h2_conn" where
  "sendGoAway closeIdle c =
     (let c1 = (if closeIdle then c\<lparr>closeWhenIdle := True\<rparr> else c) in
      if goingAway c1 \<or> h_closed c1 then c1
      else
        let c2 = setDeadlineLocked (c1\<lparr>goingAway := True\<rparr>)
        in fst (engine_Write [F_GoAway (maxClientStreamID c2) errCodeNo] c2))"

definition sendWindowUpdates :: "u32 \<Rightarrow> u32 \<Rightarrow> u32 \<Rightarrow> h2_conn \<Rightarrow> h2_conn" where
  "sendWindowUpdates sid connInc streamInc c =
     (if h_closed c then c
      else fst (engine_Write (conn_update connInc @ (if streamInc > 0 then [F_WindowUpdate sid streamInc] else [])) c))"

section \<open>Header blocks\<close>

text \<open>\<^verbatim>\<open>hpackDecoder.Write\<close>: the fields go to the builder as long as it takes them.\<close>

definition decoder_Write :: "h2_env \<Rightarrow> bytes \<Rightarrow> h2_conn \<Rightarrow> h2_conn \<times> bool" where
  "decoder_Write E frag c =
     (let h = (case decoder c of None \<Rightarrow> [] | Some h \<Rightarrow> h);
          fs = (if emitEnabled c then dec_fields E h frag else []);
          (b, n, keep) = emit_all fs (builder c)
      in (c\<lparr>builder := b, emitEnabled := (emitEnabled c \<and> keep), decoder := Some (h @ [Dec_Write frag n])\<rparr>, dec_ok E h frag n))"

definition finishTrailerBlock :: "u32 \<Rightarrow> h2frame list \<Rightarrow> h2_conn \<Rightarrow> handled" where
  "finishTrailerBlock sid out c =
     (let s = objs c sid in
      if sid \<notin> set (streams c) then (c, out, errCodeNo)
      else if gotTrailers s then (c, out, errCodeProtocol)
      else if st_state s = StreamHalfClosedRemote then
        let (c1, out1) = failStreamLocked sid ErrStreamReset errCodeStreamClosed out c in (c1, out1, errCodeNo)
      else case buildTrailers (builder c) (st_trailer s) of
        None \<Rightarrow> let (c1, out1) = failStreamLocked sid ErrStreamReset errCodeProtocol out c in (c1, out1, errCodeNo)
      | Some trailer \<Rightarrow>
          let c0 = upd sid (\<lambda>s. s\<lparr>st_trailer := trailer\<rparr>) c in
          if declaredLength s \<ge> 0 \<and> receivedBytes s \<noteq> declaredLength s then
            let (c1, out1) = failStreamLocked sid ErrContentLengthMismatch errCodeProtocol out c0 in (c1, out1, errCodeNo)
          else
            let c1 = upd sid (\<lambda>s. s\<lparr>gotTrailers := True, eof := True\<rparr>) c0;
                c2 = (if st_state s = StreamHalfClosedLocal then removeStreamLocked sid None None c1
                      else upd sid (\<lambda>s. s\<lparr>st_state := StreamHalfClosedRemote\<rparr>) c1)
            in (upd sid wakeReaderLocked c2, out, errCodeNo))"

text \<open>A request that was accepted: its stream. The code looks at \<^verbatim>\<open>goingAway\<close> and \<^verbatim>\<open>closed\<close> again under the lock.\<close>

definition openStream :: "u32 \<Rightarrow> h2_request \<Rightarrow> h2_conn \<Rightarrow> h2_conn \<times> u32 option" where
  "openStream sid rq c =
     (if goingAway c \<or> h_closed c then (c, None)
      else
        let s = new_stream (peerInitialWindowSize c) (i32 (InitialWindowSize (opts c))) (rq_contentLength rq)
                  (streamEnded (builder c)) (rq_expectContinue rq) (rq_trailer rq);
            wasIdle = (activeStreams c = 0);
            c1 = c\<lparr>objs := (objs c)(sid := s), streams := streams c @ [sid], activeStreams := activeStreams c + 1\<rparr>
        in (if wasIdle then setDeadlineLocked c1 else c1, Some sid))"

type_synonym handled_headers = "h2_conn \<times> h2frame list \<times> u32 option \<times> errCode"

definition refuse :: "u32 \<Rightarrow> errCode \<Rightarrow> h2frame list \<Rightarrow> h2_conn \<Rightarrow> handled_headers" where
  "refuse sid code out c =
     (let (c1, ok) = takeControlToken c in
      if \<not> ok then (c1, out, None, errCodeEnhanceYourCalm) else (c1, out @ [F_Rst sid code], None, errCodeNo))"

definition finishHeaderBlock :: "h2_env \<Rightarrow> h2frame list \<Rightarrow> h2_conn \<Rightarrow> handled_headers" where
  "finishHeaderBlock E out c =
     (let h = (case decoder c of None \<Rightarrow> [] | Some h \<Rightarrow> h); c0 = c\<lparr>decoder := Some (h @ [Dec_Close])\<rparr> in
      if \<not> dec_close E h then (c0, out, None, errCodeCompression)
      else
        let sid = hb_streamID (builder c0) in
        if isTrailer (builder c0) then
          let (c1, out1, code) = finishTrailerBlock sid out c0 in (c1, out1, None, code)
        else
          let c1 = replenishControlTokens 2 (c0\<lparr>maxClientStreamID := sid\<rparr>) in
          if goingAway c1 then (c1, out, None, errCodeNo)
          else if activeStreams c1 \<ge> MaxConcurrentStreams (opts c1) then refuse sid errCodeRefusedStream out c1
          else case buildRequest (uri_valid E) (builder c1) of
            Malformed \<Rightarrow> refuse sid errCodeProtocol out c1
          | ReplyStatus code \<Rightarrow> (replyErrorStatus E sid code (streamEnded (builder c1)) c1, out, None, errCodeNo)
          | Parsed rq \<Rightarrow> let (c2, s) = openStream sid rq c1 in (c2, out, s, errCodeNo))"

definition handleHeaders :: "h2_env \<Rightarrow> h2_frameHeader \<Rightarrow> bytes \<Rightarrow> h2frame list \<Rightarrow> h2_conn \<Rightarrow> handled_headers" where
  "handleHeaders E fh payload out c =
     (let sid = streamID fh in
      if sid = 0 \<or> even (unat sid) then (c, out, None, errCodeProtocol)
      else case stripPadding payload (flags fh) of
        None \<Rightarrow> (c, out, None, errCodeProtocol)
      | Some (frag0, _) \<Rightarrow>
          if flags fh AND flagPriority \<noteq> 0 \<and> length frag0 < 5 then (c, out, None, errCodeFrameSize)
          else
            let prio = (flags fh AND flagPriority \<noteq> 0);
                selfDep = (prio \<and> be_word (sub_bytes frag0 0 4) AND 0x7fffffff = sid);
                frag = (if prio then drop 5 frag0 else frag0);
                existing = (sid \<in> set (streams c));
                wasReset = (\<not> existing \<and> wasRecentlyResetLocked sid c);
                trailer = (existing \<or> wasReset)
            in if \<not> trailer \<and> sid \<le> maxClientStreamID c then (c, out, None, errCodeProtocol)
               else
                 let h = (case decoder c of None \<Rightarrow> [] | Some h \<Rightarrow> h);
                     c1 = c\<lparr>builder := hb_reset sid (of_nat (MaxHeaderBytes (opts c))) trailer (flags fh AND flagEndStream \<noteq> 0) selfDep,
                            decoder := Some (h @ [Dec_Emit True]), emitEnabled := True\<rparr>;
                     (c2, ok) = decoder_Write E frag c1
                 in if \<not> ok then (c2, out, None, errCodeCompression)
                    else if flags fh AND flagEndHeaders = 0
                    then (c2\<lparr>continuationStreamID := sid, continuationFrames := 0\<rparr>, out, None, errCodeNo)
                    else finishHeaderBlock E out c2)"

definition handleContinuation :: "h2_env \<Rightarrow> h2_frameHeader \<Rightarrow> bytes \<Rightarrow> h2frame list \<Rightarrow> h2_conn \<Rightarrow> handled_headers" where
  "handleContinuation E fh payload out c =
     (let c1 = c\<lparr>continuationFrames := continuationFrames c + 1\<rparr> in
      if continuationFrames c1 > maxContinuationFrames \<or> invalid (builder c1) \<or>
         int (length payload) > 2 * uint (remainingBytes (builder c1))
      then (c1, out, None, errCodeEnhanceYourCalm)
      else if length payload = 0 \<and> flags fh AND flagEndHeaders = 0 then (c1, out, None, errCodeEnhanceYourCalm)
      else
        let (c2, ok) = decoder_Write E payload c1 in
        if \<not> ok then (c2, out, None, errCodeCompression)
        else if flags fh AND flagEndHeaders = 0 then (c2, out, None, errCodeNo)
        else finishHeaderBlock E out (c2\<lparr>continuationStreamID := 0, continuationFrames := 0\<rparr>))"

section \<open>Callbacks of the engine\<close>

definition abortInOnData :: "errCode \<Rightarrow> h2frame list \<Rightarrow> h2_conn \<Rightarrow> h2_conn \<times> h2frame list" where
  "abortInOnData code out c =
     (let c1 = c\<lparr>broken := True, goingAway := True\<rparr> in (c1, out @ [F_GoAway (maxClientStreamID c1) code]))"

definition no_stream :: "handled \<Rightarrow> handled_headers" where
  "no_stream r = (case r of (c, out, code) \<Rightarrow> (c, out, None, code))"

text \<open>One complete frame.\<close>

definition handleFrame :: "h2_env \<Rightarrow> h2_frameHeader \<Rightarrow> bytes \<Rightarrow> h2frame list \<Rightarrow> h2_conn \<Rightarrow> handled_headers" where
  "handleFrame E fh payload out c =
     (if \<not> sawFirstSettings c \<and> (frameType fh \<noteq> frameSettings \<or> flags fh AND flagAck \<noteq> 0 \<or> streamID fh \<noteq> 0)
      then (c, out, None, errCodeProtocol)
      else if continuationStreamID c \<noteq> 0 then
        if frameType fh \<noteq> frameContinuation \<or> streamID fh \<noteq> continuationStreamID c then (c, out, None, errCodeProtocol)
        else handleContinuation E fh payload out c
      else if frameType fh = frameData then no_stream (handleData fh payload out c)
      else if frameType fh = frameHeaders then handleHeaders E fh payload out c
      else if frameType fh = framePriority then no_stream (handlePriority fh payload out c)
      else if frameType fh = frameRSTStream then no_stream (handleRSTStream fh out c)
      else if frameType fh = frameSettings then no_stream (handleSettings fh payload out c)
      else if frameType fh = framePushPromise \<or> frameType fh = frameContinuation then (c, out, None, errCodeProtocol)
      else if frameType fh = framePing then no_stream (handlePing fh payload out c)
      else if frameType fh = frameGoAway then (c, out, None, handleGoAway fh)
      else if frameType fh = frameWindowUpdate then no_stream (handleWindowUpdate fh payload out c)
      else (c, out, None, errCodeNo))"

text \<open>What the loop of \<^verbatim>\<open>onData\<close> has collected: the control frames to send, the streams to serve, and \<^verbatim>\<open>refreshIdle\<close>.\<close>

record collected =
  outControl :: "h2frame list"
  newStreams :: "u32 list"
  refreshIdle :: bool

text \<open>The frame at the start of the data: \<open>None\<close> when it is incomplete; otherwise what is left of the data and whether
  to go on.\<close>

definition next_frame :: "h2_env \<Rightarrow> bytes \<Rightarrow> collected \<Rightarrow> h2_conn \<Rightarrow> (bytes \<times> collected \<times> h2_conn \<times> bool) option" where
  "next_frame E data k c =
     (if length data < frameHeaderLen then None
      else
        let fh = parseFrameHeader data; frameLen = frameHeaderLen + unat (fh_length fh) in
        if unat (fh_length fh) > MaxReadFrameSize (opts c) then
          let (c1, out1) = abortInOnData errCodeFrameSize (outControl k) c in Some ([], k\<lparr>outControl := out1\<rparr>, c1, False)
        else if length data < frameLen then None
        else
          let (c1, out1, s, code) = handleFrame E fh (sub_bytes data frameHeaderLen frameLen) (outControl k) c;
              pinged = (sawFirstSettings c \<and> continuationStreamID c = 0 \<and> frameType fh = framePing);
              k1 = k\<lparr>outControl := out1, newStreams := newStreams k @ (case s of None \<Rightarrow> [] | Some sid \<Rightarrow> [sid]),
                     refreshIdle := (refreshIdle k \<or> pinged)\<rparr>
          in if code \<noteq> errCodeNo then
               let (c2, out2) = abortInOnData code out1 c1 in Some ([], k1\<lparr>outControl := out2\<rparr>, c2, False)
             else Some (drop frameLen data, k1, c1, True))"

lemma next_frame_shorter: "next_frame E data k c = Some (rest, k1, c1, True) \<Longrightarrow> length rest < length data"
  by (auto simp: next_frame_def Let_def frameHeaderLen_def split: if_splits prod.splits)

function frame_loop :: "h2_env \<Rightarrow> bytes \<Rightarrow> collected \<Rightarrow> h2_conn \<Rightarrow> bytes \<times> collected \<times> h2_conn" where
  "frame_loop E data k c =
     (case next_frame E data k c of
        None \<Rightarrow> (data, k, c)
      | Some (rest, k1, c1, go) \<Rightarrow> if go then frame_loop E rest k1 c1 else (rest, k1, c1))"
  by pat_completeness auto
termination
  by (relation "measure (\<lambda>(E, data, k, c). length data)") (auto simp: next_frame_shorter)

declare frame_loop.simps [simp del]

text \<open>The preface: \<open>None\<close> when it is not the client's.\<close>

definition read_preface :: "bytes \<Rightarrow> h2_conn \<Rightarrow> (nat \<times> h2_conn) option" where
  "read_preface data c =
     (let n = min (length data) (length clientPreface - prefaceRead c) in
      if take n data \<noteq> take n (drop (prefaceRead c) clientPreface) then None
      else Some (n, c\<lparr>prefaceRead := prefaceRead c + n\<rparr>))"

text \<open>After the loop: the control frames are written, the deadline is brought up to date, and the new streams go to the
  executor.\<close>

definition data_end :: "bool \<Rightarrow> collected \<Rightarrow> h2_conn \<Rightarrow> h2_conn" where
  "data_end partial k c =
     (let c1 = (if outControl k \<noteq> [] then
                  let (d, ok) = engine_Write (outControl k) c in if ok then d else d\<lparr>broken := True\<rparr>
                else c);
          inHeader = (continuationStreamID c1 \<noteq> 0);
          changed = (partial \<noteq> partialFrame c1 \<or> inHeader \<noteq> inHeaderBlock c1 \<or> refreshIdle k);
          c2 = c1\<lparr>partialFrame := partial, inHeaderBlock := inHeader\<rparr>;
          c3 = (if changed then setDeadlineLocked c2 else c2);
          c4 = (if broken c1 then engine_Close c1
                else if goingAway c3 \<and> activeStreams c3 = 0 then engine_Close c3 else c3)
      in c4\<lparr>started := started c4 @ newStreams k\<rparr>)"

definition nothing_collected :: collected where
  "nothing_collected = \<lparr>outControl = [], newStreams = [], refreshIdle = False\<rparr>"

definition onData :: "h2_env \<Rightarrow> bytes \<Rightarrow> h2_conn \<Rightarrow> nat \<times> h2_conn" where
  "onData E data c =
     (if broken c then (length data, c)
      else case read_preface data c of
        None \<Rightarrow> (length data, engine_Close (c\<lparr>broken := True\<rparr>))
      | Some (n, c1) \<Rightarrow>
          if prefaceRead c1 < length clientPreface then (n, c1)
          else let (rest, k, c2) = frame_loop E (drop n data) nothing_collected c1
            in (length data - length rest, data_end (rest \<noteq> []) k c2))"

definition h2_onWritable :: "h2_conn \<Rightarrow> h2_conn" where
  "h2_onWritable c = wakeWaitingStreamsLocked c"

definition h2_onClosing :: "bool \<Rightarrow> h2_conn \<Rightarrow> h2_conn" where
  "h2_onClosing handlerPanic c =
     (if broken c \<or> handlerPanic then c else if sawFirstSettings c then sendGoAway False c else c)"

definition h2_onClose :: "h2_conn \<Rightarrow> h2_conn" where
  "h2_onClose c =
     (fold (\<lambda>sid. removeStreamLocked sid (Some ErrClientDisconnected) (Some NetClosed)) (streams c) (c\<lparr>h_closed := True\<rparr>))
       \<lparr>streams := [], waitingStreams := []\<rparr>"

section \<open>The handler's side\<close>

text \<open>\<^verbatim>\<open>requestBody.Read\<close>: the interim response first, then rounds of its loop. \<open>RD_wait\<close>: wait for \<^verbatim>\<open>readReady\<close>.\<close>

definition read_continue :: "h2_env \<Rightarrow> u32 \<Rightarrow> h2_conn \<Rightarrow> h2_conn" where
  "read_continue E sid c =
     (let s = objs c sid in
      if expectContinue s \<and> \<not> wroteHeaders s \<and> \<not> eof s \<and> \<not> bodyClosed s \<and> st_state s \<noteq> StreamClosed
      then fst (writeHeaders E sid 100 [] [] [] [] False True (upd sid (\<lambda>s. s\<lparr>expectContinue := False\<rparr>) c))
      else c)"

datatype read_result = RD_data bytes bool | RD_err h2_error | RD_eof | RD_wait

text \<open>The stream after \<open>n\<close> bytes have been copied to the reader.\<close>

definition read_out :: "nat \<Rightarrow> h2_stream \<Rightarrow> h2_stream" where
  "read_out n s = (let pos = bodyPos s + n in
     (if pos = length (bodyBuf s) then s\<lparr>bodyBuf := [], bodyPos := 0\<rparr> else s\<lparr>bodyPos := pos\<rparr>)
       \<lparr>bodyOut := bodyOut s @ take n (drop (bodyPos s) (bodyBuf s))\<rparr>)"

definition read_round :: "u32 \<Rightarrow> nat \<Rightarrow> h2_conn \<Rightarrow> h2_conn \<times> read_result" where
  "read_round sid size' c =
     (let s = objs c sid; avail = drop (bodyPos s) (bodyBuf s) in
      if bodyClosed s then (c, RD_err ErrBodyClosedByHandler)
      else if avail \<noteq> [] then
        let n = min size' (length avail);
            c1 = upd sid (read_out n) c;
            (c2, connInc, streamInc) = consumeReceiveBytesLocked sid (i32 (int n)) c1;
            t = objs c2 sid;
            eofNow = (bodyPos t = length (bodyBuf t) \<and> eof t \<and> readErr t = None);
            c3 = (if connInc > 0 \<or> streamInc > 0 then sendWindowUpdates sid connInc streamInc c2 else c2)
        in (c3, RD_data (take n avail) eofNow)
      else if readErr s \<noteq> None then (c, RD_err (the (readErr s)))
      else if eof s then (c, RD_eof)
      else (upd sid (\<lambda>s. s\<lparr>readReady := (case readReady s of None \<Rightarrow> Some False | Some b \<Rightarrow> Some b)\<rparr>) c, RD_wait))"

definition body_Close :: "u32 \<Rightarrow> h2_conn \<Rightarrow> h2_conn" where
  "body_Close sid c =
     (if bodyClosed (objs c sid) then c
      else
        let c1 = discardUnreadBodyLocked sid (upd sid (\<lambda>s. s\<lparr>bodyClosed := True, expectContinue := False\<rparr>) c);
            (c2, connInc) = takeConnWindowUpdateLocked c1;
            c3 = upd sid wakeReaderLocked c2
        in if connInc > 0 then sendWindowUpdates 0 connInc 0 c3 else c3)"

definition cleanupStreamAfterHandler :: "u32 \<Rightarrow> h2_conn \<Rightarrow> h2_conn" where
  "cleanupStreamAfterHandler sid c =
     (let closeIdle = (\<lambda>c0 d. if closeWhenIdle c0 \<and> activeStreams c0 = 0
                              then engine_Close (engine_SetDeadline (IdleTimeout (opts d)) d) else d);
          s = objs c sid
      in if st_state s = StreamClosed then closeIdle c c
         else
           let needReset = (\<not> sentReset s \<and>
                 (\<not> sentEndStream s \<or> st_state s = StreamOpen \<or> st_state s = StreamHalfClosedLocal));
               c1 = (if needReset then noteServerResetLocked sid (upd sid (\<lambda>s. s\<lparr>sentReset := True\<rparr>) c) else c);
               (c2, connInc) = takeConnWindowUpdateLocked
                 (removeStreamLocked sid (Some ErrBodyClosedByHandler) (Some ErrStreamReset) c1);
               out = conn_update connInc @
                 (if needReset then [F_Rst sid (if \<not> sentEndStream s then errCodeInternal else errCodeNo)] else []);
               c3 = (if (needReset \<or> connInc > 0) \<and> \<not> h_closed c2 then fst (engine_Write out c2) else c2)
           in closeIdle c2 c3)"

end
