(* ===== verification/H2Flow.thy ===== *)
theory H2Flow
  imports H2Conn
begin

text \<open>
  The invariant of an HTTP/2 connection: the table of streams, the receive windows and the bodies of the
  requests, the limits. Every section of code that runs under the connection's lock keeps it.
\<close>

section \<open>The invariant\<close>

definition opts_ok :: "h2_options \<Rightarrow> bool" where
  "opts_ok o' \<longleftrightarrow> 0 < InitialWindowSize o' \<and> InitialWindowSize o' \<le> maxWindowSize \<and>
     defaultInitialWindowSize \<le> ConnectionWindowSize o' \<and> ConnectionWindowSize o' \<le> maxWindowSize \<and>
     MaxReadFrameSize o' \<le> maxFrameSizeLimit"

text \<open>One stream. \<open>W\<close> is the initial receive window of a stream.\<close>

definition recv_ok :: "int \<Rightarrow> h2_stream \<Rightarrow> bool" where
  "recv_ok W s \<longleftrightarrow> bodyPos s \<le> length (bodyBuf s) \<and> 0 \<le> receiveWindow s \<and> 0 \<le> unackedBytes s \<and>
     receiveWindow s + unackedBytes s + int (unread s) \<le> W \<and>
     (st_state s = StreamClosed \<or> bodyClosed s \<longrightarrow> unread s = 0)"

definition body_ok :: "h2_stream \<Rightarrow> bool" where
  "body_ok s \<longleftrightarrow> (\<exists>r. bodyIn s = bodyOut s @ r) \<and>
     (st_state s \<noteq> StreamClosed \<and> \<not> bodyClosed s \<longrightarrow>
        bodyIn s = bodyOut s @ drop (bodyPos s) (bodyBuf s) \<and> receivedBytes s = int (length (bodyIn s))) \<and>
     (st_state s \<noteq> StreamClosed \<and> 0 \<le> declaredLength s \<longrightarrow>
        receivedBytes s \<le> declaredLength s \<and> (eof s \<longrightarrow> receivedBytes s = declaredLength s))"

definition state_ok :: "h2_stream \<Rightarrow> bool" where
  "state_ok s \<longleftrightarrow> st_state s \<noteq> StreamHalfClosedLocal \<and> (st_state s = StreamOpen \<longrightarrow> \<not> eof s) \<and>
     (st_state s = StreamHalfClosedRemote \<longrightarrow> eof s) \<and>
     (sentEndStream s \<or> sentReset s \<longrightarrow> st_state s = StreamClosed) \<and>
     - maxWindowSize \<le> sendWindow s \<and> sendWindow s \<le> maxWindowSize"

definition stream_ok :: "int \<Rightarrow> h2_stream \<Rightarrow> bool" where
  "stream_ok W s \<longleftrightarrow> recv_ok W s \<and> body_ok s \<and> state_ok s"

text \<open>The table of streams.\<close>

definition table_ok :: "h2_conn \<Rightarrow> bool" where
  "table_ok c \<longleftrightarrow> opts_ok (opts c) \<and> distinct (streams c) \<and>
     (\<forall>sid. sid \<in> set (streams c) \<longleftrightarrow> st_state (objs c sid) \<noteq> StreamClosed) \<and>
     activeStreams c = length (streams c) \<and> activeStreams c \<le> MaxConcurrentStreams (opts c) \<and>
     (\<forall>sid. stream_ok (InitialWindowSize (opts c)) (objs c sid)) \<and>
     (\<forall>sid \<in> set (streams c). sid \<le> maxClientStreamID c \<and> odd (unat sid))"

text \<open>The receive window of the connection: what the peer may send, what was consumed and not yet given back, and
  what waits to be read make up the window; \<open>d\<close> bytes are still to be accounted for.\<close>

definition waiting_bytes :: "h2_conn \<Rightarrow> int" where
  "waiting_bytes c = (\<Sum>sid\<leftarrow>streams c. int (unread (objs c sid)))"

definition flow_ok :: "int \<Rightarrow> h2_conn \<Rightarrow> bool" where
  "flow_ok d c \<longleftrightarrow> 0 \<le> d \<and> 0 \<le> c_receiveWindow c \<and> 0 \<le> unackedReceiveBytes c \<and>
     c_receiveWindow c + unackedReceiveBytes c + waiting_bytes c + d = ConnectionWindowSize (opts c)"

definition limits_ok :: "h2_conn \<Rightarrow> bool" where
  "limits_ok c \<longleftrightarrow> 0 \<le> controlTokens c \<and> controlTokens c \<le> maxControlBurst \<and> 0 \<le> resetTokens c \<and> resetTokens c \<le> maxResetBurst \<and>
     length (recentResets c) = 4 \<and> (\<forall>sid \<in> set (recentResets c). sid \<le> maxClientStreamID c) \<and>
     minMaxFrameSize \<le> peerMaxFrameSize c \<and> peerMaxFrameSize c \<le> maxFrameSizeLimit \<and>
     0 \<le> peerInitialWindowSize c \<and> peerInitialWindowSize c \<le> maxWindowSize \<and>
     0 \<le> c_sendWindow c \<and> c_sendWindow c \<le> maxWindowSize \<and>
     (\<not> broken c \<longrightarrow> (\<forall>sid \<in> set (streams c). peerInitialWindowSize c - maxWindowSize \<le> sendWindow (objs c sid)))"

text \<open>A header block that is being received.\<close>

definition block_ok :: "h2_conn \<Rightarrow> bool" where
  "block_ok c \<longleftrightarrow> continuationStreamID c \<noteq> 0 \<longrightarrow>
     hb_streamID (builder c) = continuationStreamID c \<and> odd (unat (continuationStreamID c)) \<and>
     (\<not> isTrailer (builder c) \<longrightarrow> maxClientStreamID c < continuationStreamID c)"

definition h2_inv :: "int \<Rightarrow> h2_conn \<Rightarrow> bool" where
  "h2_inv d c \<longleftrightarrow> table_ok c \<and> flow_ok d c \<and> limits_ok c \<and> block_ok c"

section \<open>Arithmetic\<close>

lemma i32_window [simp]: "0 \<le> x \<Longrightarrow> x \<le> maxWindowSize \<Longrightarrow> i32 x = x"
  by (simp add: i32_small maxWindowSize_def)

lemma sum_list_fun_upd:
  "distinct xs \<Longrightarrow> (\<Sum>x\<leftarrow>xs. g ((f(a := v)) x)) = (\<Sum>x\<leftarrow>xs. g (f x)) + (if a \<in> set xs then g v - g (f a) else (0 :: int))"
  by (induction xs) auto

lemma sum_list_remove1: "a \<in> set xs \<Longrightarrow> (\<Sum>x\<leftarrow>remove1 a xs. g x) = (\<Sum>x\<leftarrow>xs. g x) - (g a :: int)"
  by (induction xs) auto

lemma waiting_nonneg: "0 \<le> waiting_bytes c"
  by (auto simp: waiting_bytes_def intro!: sum_list_nonneg)

lemma waiting_ge: assumes "sid \<in> set (streams c)" shows "int (unread (objs c sid)) \<le> waiting_bytes c"
proof -
  have "0 \<le> (\<Sum>x\<leftarrow>remove1 sid (streams c). int (unread (objs c x)))" by (rule sum_list_nonneg) auto
  with sum_list_remove1 [OF assms, of "\<lambda>x. int (unread (objs c x))"] show ?thesis by (simp add: waiting_bytes_def)
qed

section \<open>What the sections touch\<close>

text \<open>Changing a stream in the table.\<close>

lemma upd_simps [simp]:
  "opts (upd sid f c) = opts c" "streams (upd sid f c) = streams c" "activeStreams (upd sid f c) = activeStreams c"
  "maxClientStreamID (upd sid f c) = maxClientStreamID c" "c_receiveWindow (upd sid f c) = c_receiveWindow c"
  "unackedReceiveBytes (upd sid f c) = unackedReceiveBytes c" "controlTokens (upd sid f c) = controlTokens c"
  "resetTokens (upd sid f c) = resetTokens c" "recentResets (upd sid f c) = recentResets c"
  "peerMaxFrameSize (upd sid f c) = peerMaxFrameSize c" "peerInitialWindowSize (upd sid f c) = peerInitialWindowSize c"
  "c_sendWindow (upd sid f c) = c_sendWindow c" "broken (upd sid f c) = broken c"
  "continuationStreamID (upd sid f c) = continuationStreamID c" "builder (upd sid f c) = builder c"
  "h_wire (upd sid f c) = h_wire c" "h_closed (upd sid f c) = h_closed c" "goingAway (upd sid f c) = goingAway c"
  "h_writable (upd sid f c) = h_writable c" "h_failed (upd sid f c) = h_failed c" "waitingStreams (upd sid f c) = waitingStreams c"
  "c_granted (upd sid f c) = c_granted c" "bodyRoom (upd sid f c) = bodyRoom c" "sawFirstSettings (upd sid f c) = sawFirstSettings c"
  "objs (upd sid f c) = (objs c)(sid := f (objs c sid))"
  by (simp_all add: upd_def)

text \<open>A change of one stream that keeps it well-formed and open or closed as it was; \<open>k\<close> bytes more wait to be read.\<close>

lemma inv_upd_unread:
  assumes "h2_inv d c" and "stream_ok (InitialWindowSize (opts c)) (f (objs c sid))"
    and "st_state (f (objs c sid)) = StreamClosed \<longleftrightarrow> st_state (objs c sid) = StreamClosed"
    and "int (unread (f (objs c sid))) = int (unread (objs c sid)) + k" and "k \<le> d" and "k \<noteq> 0 \<Longrightarrow> sid \<in> set (streams c)"
    and "\<not> broken c \<Longrightarrow> peerInitialWindowSize c - maxWindowSize \<le> sendWindow (objs c sid) \<Longrightarrow>
         peerInitialWindowSize c - maxWindowSize \<le> sendWindow (f (objs c sid))"
  shows "h2_inv (d - k) (upd sid f c)"
proof -
  have "waiting_bytes (upd sid f c) = waiting_bytes c + k"
    using assms(1,4,6) sum_list_fun_upd [of "streams c" "\<lambda>s. int (unread s)" "objs c" sid "f (objs c sid)"]
    by (auto simp: waiting_bytes_def h2_inv_def table_ok_def)
  with assms show ?thesis by (auto simp: h2_inv_def table_ok_def flow_ok_def limits_ok_def block_ok_def)
qed

lemma inv_upd:
  assumes "h2_inv d c" and "stream_ok (InitialWindowSize (opts c)) (f (objs c sid))"
    and "st_state (f (objs c sid)) = StreamClosed \<longleftrightarrow> st_state (objs c sid) = StreamClosed"
    and "unread (f (objs c sid)) = unread (objs c sid)"
    and "\<not> broken c \<Longrightarrow> peerInitialWindowSize c - maxWindowSize \<le> sendWindow (objs c sid) \<Longrightarrow>
         peerInitialWindowSize c - maxWindowSize \<le> sendWindow (f (objs c sid))"
  shows "h2_inv d (upd sid f c)"
  using inv_upd_unread [of d c f sid 0] assms by (auto simp: h2_inv_def flow_ok_def)

text \<open>Fields the invariant does not read.\<close>

lemma inv_frame [simp]:
  "h2_inv d (c\<lparr>h_wire := a1\<rparr>) = h2_inv d c" "h2_inv d (c\<lparr>h_failed := a2\<rparr>) = h2_inv d c" "h2_inv d (c\<lparr>h_writable := a2\<rparr>) = h2_inv d c"
  "h2_inv d (c\<lparr>h_closeCalls := a3\<rparr>) = h2_inv d c" "h2_inv d (c\<lparr>h_timeout := a4\<rparr>) = h2_inv d c" "h2_inv d (c\<lparr>bodyRoom := a2\<rparr>) = h2_inv d c"
  "h2_inv d (c\<lparr>started := a5\<rparr>) = h2_inv d c" "h2_inv d (c\<lparr>c_granted := a4\<rparr>) = h2_inv d c" "h2_inv d (c\<lparr>encoder := a6\<rparr>) = h2_inv d c"
  "h2_inv d (c\<lparr>decoder := a7\<rparr>) = h2_inv d c" "h2_inv d (c\<lparr>emitEnabled := a2\<rparr>) = h2_inv d c" "h2_inv d (c\<lparr>continuationFrames := a3\<rparr>) = h2_inv d c"
  "h2_inv d (c\<lparr>prefaceRead := a3\<rparr>) = h2_inv d c" "h2_inv d (c\<lparr>waitingStreams := a5\<rparr>) = h2_inv d c"
  "h2_inv d (c\<lparr>peerHeaderTableSize := a8\<rparr>) = h2_inv d c" "h2_inv d (c\<lparr>minHeaderTableSize := a8\<rparr>) = h2_inv d c"
  "h2_inv d (c\<lparr>headerTableSizeUpdated := a2\<rparr>) = h2_inv d c" "h2_inv d (c\<lparr>sawFirstSettings := a2\<rparr>) = h2_inv d c"
  "h2_inv d (c\<lparr>inHeaderBlock := a2\<rparr>) = h2_inv d c" "h2_inv d (c\<lparr>partialFrame := a2\<rparr>) = h2_inv d c"
  "h2_inv d (c\<lparr>goingAway := a2\<rparr>) = h2_inv d c" "h2_inv d (c\<lparr>closeWhenIdle := a2\<rparr>) = h2_inv d c" "h2_inv d (c\<lparr>h_closed := a2\<rparr>) = h2_inv d c"
  by (simp_all add: h2_inv_def table_ok_def flow_ok_def waiting_bytes_def limits_ok_def block_ok_def)

lemma inv_broken: "h2_inv d c \<Longrightarrow> h2_inv d (c\<lparr>broken := True\<rparr>)"
  by (simp add: h2_inv_def table_ok_def flow_ok_def waiting_bytes_def limits_ok_def block_ok_def)

lemma setDeadline_eq: "\<exists>t. setDeadlineLocked c = c\<lparr>h_timeout := t\<rparr>"
proof (cases "h_closed c")
  case True
  then have "setDeadlineLocked c = c\<lparr>h_timeout := h_timeout c\<rparr>" by (simp add: setDeadlineLocked_def)
  then show ?thesis by blast
next
  case False
  show ?thesis unfolding setDeadlineLocked_def engine_SetDeadline_def if_not_P [OF False] by (rule exI, rule refl)
qed

lemma engine_eq:
  "fst (engine_Write fs c) = c\<lparr>h_wire := (if h_failed c then h_wire c else h_wire c @ fs)\<rparr>"
  "engine_Close c = c\<lparr>h_closeCalls := h_closeCalls c + 1\<rparr>" "engine_SetDeadline t c = c\<lparr>h_timeout := t\<rparr>"
  by (simp_all add: engine_Write_def engine_Close_def engine_SetDeadline_def)

lemma inv_engine [simp]:
  "h2_inv d (setDeadlineLocked c) = h2_inv d c" "h2_inv d (fst (engine_Write fs c)) = h2_inv d c"
  "h2_inv d (engine_Close c) = h2_inv d c" "h2_inv d (engine_SetDeadline t c) = h2_inv d c"
  using setDeadline_eq [of c] by (auto simp: engine_eq)

lemma setDeadline_simps [simp]:
  "opts (setDeadlineLocked c) = opts c" "decoder (setDeadlineLocked c) = decoder c"
  "emitEnabled (setDeadlineLocked c) = emitEnabled c" "builder (setDeadlineLocked c) = builder c"
  "continuationStreamID (setDeadlineLocked c) = continuationStreamID c"
  "continuationFrames (setDeadlineLocked c) = continuationFrames c"
  "maxClientStreamID (setDeadlineLocked c) = maxClientStreamID c" "controlTokens (setDeadlineLocked c) = controlTokens c"
  "prefaceRead (setDeadlineLocked c) = prefaceRead c" "broken (setDeadlineLocked c) = broken c"
  "encoder (setDeadlineLocked c) = encoder c" "streams (setDeadlineLocked c) = streams c"
  "objs (setDeadlineLocked c) = objs c" "waitingStreams (setDeadlineLocked c) = waitingStreams c"
  "c_sendWindow (setDeadlineLocked c) = c_sendWindow c" "c_receiveWindow (setDeadlineLocked c) = c_receiveWindow c"
  "unackedReceiveBytes (setDeadlineLocked c) = unackedReceiveBytes c"
  "peerInitialWindowSize (setDeadlineLocked c) = peerInitialWindowSize c"
  "peerMaxFrameSize (setDeadlineLocked c) = peerMaxFrameSize c"
  "peerHeaderTableSize (setDeadlineLocked c) = peerHeaderTableSize c"
  "minHeaderTableSize (setDeadlineLocked c) = minHeaderTableSize c"
  "headerTableSizeUpdated (setDeadlineLocked c) = headerTableSizeUpdated c"
  "activeStreams (setDeadlineLocked c) = activeStreams c" "resetTokens (setDeadlineLocked c) = resetTokens c"
  "recentResets (setDeadlineLocked c) = recentResets c" "recentResetPos (setDeadlineLocked c) = recentResetPos c"
  "sawFirstSettings (setDeadlineLocked c) = sawFirstSettings c" "inHeaderBlock (setDeadlineLocked c) = inHeaderBlock c"
  "partialFrame (setDeadlineLocked c) = partialFrame c" "goingAway (setDeadlineLocked c) = goingAway c"
  "closeWhenIdle (setDeadlineLocked c) = closeWhenIdle c" "h_closed (setDeadlineLocked c) = h_closed c"
  "h_wire (setDeadlineLocked c) = h_wire c" "h_failed (setDeadlineLocked c) = h_failed c"
  "h_writable (setDeadlineLocked c) = h_writable c" "h_closeCalls (setDeadlineLocked c) = h_closeCalls c"
  "bodyRoom (setDeadlineLocked c) = bodyRoom c" "started (setDeadlineLocked c) = started c"
  "c_granted (setDeadlineLocked c) = c_granted c"
  using setDeadline_eq [of c] by auto

lemma takeToken_simps [simp]:
  "opts (fst (takeControlToken c)) = opts c" "decoder (fst (takeControlToken c)) = decoder c"
  "emitEnabled (fst (takeControlToken c)) = emitEnabled c" "builder (fst (takeControlToken c)) = builder c"
  "continuationStreamID (fst (takeControlToken c)) = continuationStreamID c"
  "continuationFrames (fst (takeControlToken c)) = continuationFrames c"
  "maxClientStreamID (fst (takeControlToken c)) = maxClientStreamID c"
  "prefaceRead (fst (takeControlToken c)) = prefaceRead c" "broken (fst (takeControlToken c)) = broken c"
  "encoder (fst (takeControlToken c)) = encoder c" "streams (fst (takeControlToken c)) = streams c"
  "objs (fst (takeControlToken c)) = objs c" "waitingStreams (fst (takeControlToken c)) = waitingStreams c"
  "c_sendWindow (fst (takeControlToken c)) = c_sendWindow c"
  "c_receiveWindow (fst (takeControlToken c)) = c_receiveWindow c"
  "unackedReceiveBytes (fst (takeControlToken c)) = unackedReceiveBytes c"
  "peerInitialWindowSize (fst (takeControlToken c)) = peerInitialWindowSize c"
  "peerMaxFrameSize (fst (takeControlToken c)) = peerMaxFrameSize c"
  "peerHeaderTableSize (fst (takeControlToken c)) = peerHeaderTableSize c"
  "minHeaderTableSize (fst (takeControlToken c)) = minHeaderTableSize c"
  "headerTableSizeUpdated (fst (takeControlToken c)) = headerTableSizeUpdated c"
  "activeStreams (fst (takeControlToken c)) = activeStreams c" "resetTokens (fst (takeControlToken c)) = resetTokens c"
  "recentResets (fst (takeControlToken c)) = recentResets c" "recentResetPos (fst (takeControlToken c)) = recentResetPos c"
  "sawFirstSettings (fst (takeControlToken c)) = sawFirstSettings c"
  "inHeaderBlock (fst (takeControlToken c)) = inHeaderBlock c" "partialFrame (fst (takeControlToken c)) = partialFrame c"
  "goingAway (fst (takeControlToken c)) = goingAway c" "closeWhenIdle (fst (takeControlToken c)) = closeWhenIdle c"
  "h_closed (fst (takeControlToken c)) = h_closed c" "h_wire (fst (takeControlToken c)) = h_wire c"
  "h_failed (fst (takeControlToken c)) = h_failed c" "h_writable (fst (takeControlToken c)) = h_writable c"
  "h_closeCalls (fst (takeControlToken c)) = h_closeCalls c" "h_timeout (fst (takeControlToken c)) = h_timeout c"
  "bodyRoom (fst (takeControlToken c)) = bodyRoom c" "started (fst (takeControlToken c)) = started c"
  "c_granted (fst (takeControlToken c)) = c_granted c"
  by (simp_all add: takeControlToken_def)

lemma note_simps [simp]:
  "opts (noteServerResetLocked sid c) = opts c" "decoder (noteServerResetLocked sid c) = decoder c"
  "emitEnabled (noteServerResetLocked sid c) = emitEnabled c" "builder (noteServerResetLocked sid c) = builder c"
  "continuationStreamID (noteServerResetLocked sid c) = continuationStreamID c"
  "continuationFrames (noteServerResetLocked sid c) = continuationFrames c"
  "maxClientStreamID (noteServerResetLocked sid c) = maxClientStreamID c"
  "controlTokens (noteServerResetLocked sid c) = controlTokens c"
  "prefaceRead (noteServerResetLocked sid c) = prefaceRead c" "broken (noteServerResetLocked sid c) = broken c"
  "encoder (noteServerResetLocked sid c) = encoder c" "streams (noteServerResetLocked sid c) = streams c"
  "objs (noteServerResetLocked sid c) = objs c" "waitingStreams (noteServerResetLocked sid c) = waitingStreams c"
  "c_sendWindow (noteServerResetLocked sid c) = c_sendWindow c"
  "c_receiveWindow (noteServerResetLocked sid c) = c_receiveWindow c"
  "unackedReceiveBytes (noteServerResetLocked sid c) = unackedReceiveBytes c"
  "peerInitialWindowSize (noteServerResetLocked sid c) = peerInitialWindowSize c"
  "peerMaxFrameSize (noteServerResetLocked sid c) = peerMaxFrameSize c"
  "peerHeaderTableSize (noteServerResetLocked sid c) = peerHeaderTableSize c"
  "minHeaderTableSize (noteServerResetLocked sid c) = minHeaderTableSize c"
  "headerTableSizeUpdated (noteServerResetLocked sid c) = headerTableSizeUpdated c"
  "activeStreams (noteServerResetLocked sid c) = activeStreams c"
  "resetTokens (noteServerResetLocked sid c) = resetTokens c"
  "sawFirstSettings (noteServerResetLocked sid c) = sawFirstSettings c"
  "inHeaderBlock (noteServerResetLocked sid c) = inHeaderBlock c"
  "partialFrame (noteServerResetLocked sid c) = partialFrame c" "goingAway (noteServerResetLocked sid c) = goingAway c"
  "closeWhenIdle (noteServerResetLocked sid c) = closeWhenIdle c" "h_closed (noteServerResetLocked sid c) = h_closed c"
  "h_wire (noteServerResetLocked sid c) = h_wire c" "h_failed (noteServerResetLocked sid c) = h_failed c"
  "h_writable (noteServerResetLocked sid c) = h_writable c" "h_closeCalls (noteServerResetLocked sid c) = h_closeCalls c"
  "h_timeout (noteServerResetLocked sid c) = h_timeout c" "bodyRoom (noteServerResetLocked sid c) = bodyRoom c"
  "started (noteServerResetLocked sid c) = started c" "c_granted (noteServerResetLocked sid c) = c_granted c"
  by (simp_all add: noteServerResetLocked_def)

lemma take_simps [simp]:
  "opts (fst (takeConnWindowUpdateLocked c)) = opts c" "decoder (fst (takeConnWindowUpdateLocked c)) = decoder c"
  "emitEnabled (fst (takeConnWindowUpdateLocked c)) = emitEnabled c"
  "builder (fst (takeConnWindowUpdateLocked c)) = builder c"
  "continuationStreamID (fst (takeConnWindowUpdateLocked c)) = continuationStreamID c"
  "continuationFrames (fst (takeConnWindowUpdateLocked c)) = continuationFrames c"
  "maxClientStreamID (fst (takeConnWindowUpdateLocked c)) = maxClientStreamID c"
  "controlTokens (fst (takeConnWindowUpdateLocked c)) = controlTokens c"
  "prefaceRead (fst (takeConnWindowUpdateLocked c)) = prefaceRead c"
  "broken (fst (takeConnWindowUpdateLocked c)) = broken c" "encoder (fst (takeConnWindowUpdateLocked c)) = encoder c"
  "streams (fst (takeConnWindowUpdateLocked c)) = streams c" "objs (fst (takeConnWindowUpdateLocked c)) = objs c"
  "waitingStreams (fst (takeConnWindowUpdateLocked c)) = waitingStreams c"
  "c_sendWindow (fst (takeConnWindowUpdateLocked c)) = c_sendWindow c"
  "peerInitialWindowSize (fst (takeConnWindowUpdateLocked c)) = peerInitialWindowSize c"
  "peerMaxFrameSize (fst (takeConnWindowUpdateLocked c)) = peerMaxFrameSize c"
  "peerHeaderTableSize (fst (takeConnWindowUpdateLocked c)) = peerHeaderTableSize c"
  "minHeaderTableSize (fst (takeConnWindowUpdateLocked c)) = minHeaderTableSize c"
  "headerTableSizeUpdated (fst (takeConnWindowUpdateLocked c)) = headerTableSizeUpdated c"
  "activeStreams (fst (takeConnWindowUpdateLocked c)) = activeStreams c"
  "resetTokens (fst (takeConnWindowUpdateLocked c)) = resetTokens c"
  "recentResets (fst (takeConnWindowUpdateLocked c)) = recentResets c"
  "recentResetPos (fst (takeConnWindowUpdateLocked c)) = recentResetPos c"
  "sawFirstSettings (fst (takeConnWindowUpdateLocked c)) = sawFirstSettings c"
  "inHeaderBlock (fst (takeConnWindowUpdateLocked c)) = inHeaderBlock c"
  "partialFrame (fst (takeConnWindowUpdateLocked c)) = partialFrame c"
  "goingAway (fst (takeConnWindowUpdateLocked c)) = goingAway c"
  "closeWhenIdle (fst (takeConnWindowUpdateLocked c)) = closeWhenIdle c"
  "h_closed (fst (takeConnWindowUpdateLocked c)) = h_closed c" "h_wire (fst (takeConnWindowUpdateLocked c)) = h_wire c"
  "h_failed (fst (takeConnWindowUpdateLocked c)) = h_failed c"
  "h_writable (fst (takeConnWindowUpdateLocked c)) = h_writable c"
  "h_closeCalls (fst (takeConnWindowUpdateLocked c)) = h_closeCalls c"
  "h_timeout (fst (takeConnWindowUpdateLocked c)) = h_timeout c"
  "bodyRoom (fst (takeConnWindowUpdateLocked c)) = bodyRoom c" "started (fst (takeConnWindowUpdateLocked c)) = started c"
  "c_granted (fst (takeConnWindowUpdateLocked c)) = c_granted c"
  by (simp_all add: takeConnWindowUpdateLocked_def)

lemma addUnacked_simps [simp]:
  "opts (addUnacked n c) = opts c" "decoder (addUnacked n c) = decoder c" "emitEnabled (addUnacked n c) = emitEnabled c"
  "builder (addUnacked n c) = builder c" "continuationStreamID (addUnacked n c) = continuationStreamID c"
  "continuationFrames (addUnacked n c) = continuationFrames c" "maxClientStreamID (addUnacked n c) = maxClientStreamID c"
  "controlTokens (addUnacked n c) = controlTokens c" "prefaceRead (addUnacked n c) = prefaceRead c"
  "broken (addUnacked n c) = broken c" "encoder (addUnacked n c) = encoder c" "streams (addUnacked n c) = streams c"
  "objs (addUnacked n c) = objs c" "waitingStreams (addUnacked n c) = waitingStreams c"
  "c_sendWindow (addUnacked n c) = c_sendWindow c" "c_receiveWindow (addUnacked n c) = c_receiveWindow c"
  "peerInitialWindowSize (addUnacked n c) = peerInitialWindowSize c"
  "peerMaxFrameSize (addUnacked n c) = peerMaxFrameSize c" "peerHeaderTableSize (addUnacked n c) = peerHeaderTableSize c"
  "minHeaderTableSize (addUnacked n c) = minHeaderTableSize c"
  "headerTableSizeUpdated (addUnacked n c) = headerTableSizeUpdated c" "activeStreams (addUnacked n c) = activeStreams c"
  "resetTokens (addUnacked n c) = resetTokens c" "recentResets (addUnacked n c) = recentResets c"
  "recentResetPos (addUnacked n c) = recentResetPos c" "sawFirstSettings (addUnacked n c) = sawFirstSettings c"
  "inHeaderBlock (addUnacked n c) = inHeaderBlock c" "partialFrame (addUnacked n c) = partialFrame c"
  "goingAway (addUnacked n c) = goingAway c" "closeWhenIdle (addUnacked n c) = closeWhenIdle c"
  "h_closed (addUnacked n c) = h_closed c" "h_wire (addUnacked n c) = h_wire c" "h_failed (addUnacked n c) = h_failed c"
  "h_writable (addUnacked n c) = h_writable c" "h_closeCalls (addUnacked n c) = h_closeCalls c"
  "h_timeout (addUnacked n c) = h_timeout c" "bodyRoom (addUnacked n c) = bodyRoom c" "started (addUnacked n c) = started c"
  "c_granted (addUnacked n c) = c_granted c"
  by (simp_all add: addUnacked_def)

lemma inv_tokens:
  "h2_inv d c \<Longrightarrow> h2_inv d (fst (takeControlToken c))"
  "h2_inv d c \<Longrightarrow> 0 \<le> n \<Longrightarrow> h2_inv d (replenishControlTokens n c)"
  "h2_inv d c \<Longrightarrow> 0 < resetTokens c \<Longrightarrow> h2_inv d (c\<lparr>resetTokens := resetTokens c - 1\<rparr>)"
  "h2_inv d c \<Longrightarrow> h2_inv d (c\<lparr>resetTokens := min (resetTokens c + 1) maxResetBurst\<rparr>)"
  by (auto simp: h2_inv_def table_ok_def flow_ok_def waiting_bytes_def limits_ok_def block_ok_def takeControlToken_def
      replenishControlTokens_def maxResetBurst_def maxControlBurst_def)

lemma inv_note: "h2_inv d c \<Longrightarrow> sid \<le> maxClientStreamID c \<Longrightarrow> h2_inv d (noteServerResetLocked sid c)"
  by (auto simp: h2_inv_def table_ok_def flow_ok_def waiting_bytes_def limits_ok_def block_ok_def noteServerResetLocked_def
      dest!: set_update_subset_insert [THEN subsetD])

lemma note_upd: "noteServerResetLocked sid (upd sid' f c) = upd sid' f (noteServerResetLocked sid c)"
  by (simp add: noteServerResetLocked_def upd_def)

lemma flow_bounds:
  assumes "h2_inv d c"
  shows "0 \<le> c_receiveWindow c" "0 \<le> unackedReceiveBytes c" "c_receiveWindow c + unackedReceiveBytes c + d \<le> maxWindowSize"
    "sid \<in> set (streams c) \<Longrightarrow> unackedReceiveBytes c + int (unread (objs c sid)) + d \<le> maxWindowSize"
  using assms waiting_nonneg [of c] waiting_ge [of sid c] by (auto simp: h2_inv_def flow_ok_def table_ok_def opts_ok_def)

lemma inv_addUnacked:
  assumes "h2_inv d c" and "0 \<le> n" and "n \<le> d" shows "h2_inv (d - n) (addUnacked n c)"
proof -
  have "i32 (unackedReceiveBytes c + n) = unackedReceiveBytes c + n"
    using flow_bounds [OF assms(1)] assms(2,3) by simp
  with assms show ?thesis
    by (auto simp: addUnacked_def h2_inv_def table_ok_def flow_ok_def waiting_bytes_def limits_ok_def block_ok_def)
qed

lemma inv_receive:
  assumes "h2_inv 0 c" and "0 \<le> n" and "n \<le> c_receiveWindow c"
  shows "h2_inv n (c\<lparr>c_receiveWindow := i32 (c_receiveWindow c - n)\<rparr>)"
proof -
  have "i32 (c_receiveWindow c - n) = c_receiveWindow c - n" using flow_bounds [OF assms(1)] assms(2,3) by simp
  with assms show ?thesis by (auto simp: h2_inv_def table_ok_def flow_ok_def waiting_bytes_def limits_ok_def block_ok_def)
qed

lemma inv_take:
  assumes "h2_inv d c"
  shows "h2_inv d (fst (takeConnWindowUpdateLocked c))"
proof -
  have "0 \<le> d" using assms by (simp add: h2_inv_def flow_ok_def)
  then have "i32 (c_receiveWindow c + unackedReceiveBytes c) = c_receiveWindow c + unackedReceiveBytes c"
    using flow_bounds [OF assms] by simp
  with assms show ?thesis
    by (auto simp: takeConnWindowUpdateLocked_def h2_inv_def table_ok_def flow_ok_def waiting_bytes_def limits_ok_def block_ok_def)
qed

section \<open>Closing a stream\<close>

definition closed_stream :: "h2_error option \<Rightarrow> h2_error option \<Rightarrow> h2_stream \<Rightarrow> h2_stream" where
  "closed_stream rerr werr s =
     wakeWriterLocked (wakeReaderLocked (s\<lparr>st_state := StreamClosed, readErr := (if rerr \<noteq> None \<and> readErr s = None then rerr else readErr s),
       writeErr := (if werr \<noteq> None \<and> writeErr s = None then werr else writeErr s), bodyBuf := [], bodyPos := 0, waitingConn := False\<rparr>))"

lemma unregister_eq:
  "unregisterWaiterLocked sid c = c\<lparr>objs := (objs c)(sid := (objs c sid)\<lparr>waitingConn := False\<rparr>),
     waitingStreams := (if waitingConn (objs c sid) then remove1 sid (waitingStreams c) else waitingStreams c)\<rparr>"
proof (cases "waitingConn (objs c sid)")
  case False
  then have "(objs c sid)\<lparr>waitingConn := False\<rparr> = objs c sid" by (cases "objs c sid") simp
  then have "(objs c)(sid := (objs c sid)\<lparr>waitingConn := False\<rparr>) = objs c" by (metis fun_upd_triv)
  with False show ?thesis by (cases c) (simp add: unregisterWaiterLocked_def)
qed (simp add: unregisterWaiterLocked_def upd_def)

lemma discard_eq:
  "discardUnreadBodyLocked sid c = c\<lparr>objs := (objs c)(sid := (objs c sid)\<lparr>bodyBuf := [], bodyPos := 0\<rparr>),
     unackedReceiveBytes := (if unread (objs c sid) > 0 then i32 (unackedReceiveBytes c + i32 (int (unread (objs c sid))))
                             else unackedReceiveBytes c)\<rparr>"
  by (simp add: discardUnreadBodyLocked_def upd_def Let_def)

lemma removeStream_eq:
  assumes "st_state (objs c sid) \<noteq> StreamClosed" and "sid \<in> set (streams c)"
  shows "\<exists>t. removeStreamLocked sid rerr werr c =
    c\<lparr>objs := (objs c)(sid := closed_stream rerr werr (objs c sid)), streams := remove1 sid (streams c),
      activeStreams := activeStreams c - 1,
      unackedReceiveBytes := (if unread (objs c sid) > 0 then i32 (unackedReceiveBytes c + i32 (int (unread (objs c sid))))
                              else unackedReceiveBytes c),
      waitingStreams := (if waitingConn (objs c sid) then remove1 sid (waitingStreams c) else waitingStreams c), h_timeout := t\<rparr>"
proof -
  let ?c1 = "upd sid (\<lambda>s. s\<lparr>st_state := StreamClosed,
                     readErr := (if rerr \<noteq> None \<and> readErr s = None then rerr else readErr s),
                     writeErr := (if werr \<noteq> None \<and> writeErr s = None then werr else writeErr s)\<rparr>) c"
  let ?c2 = "unregisterWaiterLocked sid (discardUnreadBodyLocked sid ?c1)"
  let ?s2 = "(objs c sid)\<lparr>st_state := StreamClosed, readErr := (if rerr \<noteq> None \<and> readErr (objs c sid) = None then rerr else readErr (objs c sid)),
       writeErr := (if werr \<noteq> None \<and> writeErr (objs c sid) = None then werr else writeErr (objs c sid)), bodyBuf := [], bodyPos := 0,
       waitingConn := False\<rparr>"
  have c2: "?c2 = c\<lparr>objs := (objs c)(sid := ?s2),
      unackedReceiveBytes := (if unread (objs c sid) > 0 then i32 (unackedReceiveBytes c + i32 (int (unread (objs c sid))))
                              else unackedReceiveBytes c),
      waitingStreams := (if waitingConn (objs c sid) then remove1 sid (waitingStreams c) else waitingStreams c)\<rparr>"
    by (simp add: unregister_eq discard_eq upd_def unread_def)
  let ?d = "?c2\<lparr>streams := remove1 sid (streams ?c2), activeStreams := activeStreams ?c2 - 1\<rparr>"
  obtain t where t: "(if activeStreams ?d = 0 then setDeadlineLocked ?d else ?d) = ?d\<lparr>h_timeout := t\<rparr>"
    using setDeadline_eq [of ?d] by (cases "activeStreams ?d = 0") (auto intro: that [of "h_timeout ?d"])
  have "sid \<in> set (streams ?c2)" using assms(2) unfolding c2 by simp
  then have "removeStreamLocked sid rerr werr c = upd sid (\<lambda>s. wakeWriterLocked (wakeReaderLocked s)) (?d\<lparr>h_timeout := t\<rparr>)"
    using assms(1) t by (simp only: removeStreamLocked_def Let_def if_True if_False simp_thms)
  also have "\<dots> = c\<lparr>objs := (objs c)(sid := closed_stream rerr werr (objs c sid)), streams := remove1 sid (streams c),
      activeStreams := activeStreams c - 1,
      unackedReceiveBytes := (if unread (objs c sid) > 0 then i32 (unackedReceiveBytes c + i32 (int (unread (objs c sid))))
                              else unackedReceiveBytes c),
      waitingStreams := (if waitingConn (objs c sid) then remove1 sid (waitingStreams c) else waitingStreams c), h_timeout := t\<rparr>"
    unfolding c2 by (simp add: upd_def closed_stream_def)
  finally show ?thesis by blast
qed

lemma upd_upd: "upd sid f (upd sid g c) = upd sid (\<lambda>s. f (g s)) c"
  by (simp add: upd_def)

lemma upd_same [simp]: "upd sid (\<lambda>s. s) c = c"
  by (simp add: upd_def)

lemma wake_simps [simp]:
  "recv_ok W (wakeReaderLocked s) = recv_ok W s" "body_ok (wakeReaderLocked s) = body_ok s" "state_ok (wakeReaderLocked s) = state_ok s"
  "recv_ok W (wakeWriterLocked s) = recv_ok W s" "body_ok (wakeWriterLocked s) = body_ok s" "state_ok (wakeWriterLocked s) = state_ok s"
  "unread (wakeReaderLocked s) = unread s" "unread (wakeWriterLocked s) = unread s"
  "st_state (wakeReaderLocked s) = st_state s" "st_state (wakeWriterLocked s) = st_state s"
  "sendWindow (wakeReaderLocked s) = sendWindow s" "sendWindow (wakeWriterLocked s) = sendWindow s"
  "stream_ok W (wakeReaderLocked s) = stream_ok W s" "stream_ok W (wakeWriterLocked s) = stream_ok W s"
  "sentEndStream (wakeReaderLocked s) = sentEndStream s" "sentEndStream (wakeWriterLocked s) = sentEndStream s"
  "st_granted (wakeReaderLocked s) = st_granted s" "st_granted (wakeWriterLocked s) = st_granted s"
  by (simp_all add: wakeReaderLocked_def wakeWriterLocked_def recv_ok_def body_ok_def state_ok_def unread_def stream_ok_def)

lemma stream_ok_closed:
  assumes "stream_ok W s" shows "stream_ok W (closed_stream rerr werr (s\<lparr>sentReset := a, sentEndStream := b\<rparr>))"
proof -
  let ?s = "closed_stream rerr werr (s\<lparr>sentReset := a, sentEndStream := b\<rparr>)"
  have p: "receiveWindow ?s = receiveWindow s" "unackedBytes ?s = unackedBytes s" "bodyBuf ?s = []" "bodyPos ?s = 0"
    "st_state ?s = StreamClosed" "bodyIn ?s = bodyIn s" "bodyOut ?s = bodyOut s" "sendWindow ?s = sendWindow s"
    by (simp_all add: closed_stream_def wakeReaderLocked_def wakeWriterLocked_def)
  have "0 \<le> receiveWindow s" "0 \<le> unackedBytes s" "receiveWindow s + unackedBytes s + int (unread s) \<le> W"
    "\<exists>r. bodyIn s = bodyOut s @ r" "- maxWindowSize \<le> sendWindow s" "sendWindow s \<le> maxWindowSize"
    using assms unfolding stream_ok_def recv_ok_def body_ok_def state_ok_def by blast+
  then show ?thesis unfolding stream_ok_def recv_ok_def body_ok_def state_ok_def unread_def p by simp
qed

text \<open>The stream may have been marked as reset or ended just before.\<close>

lemma inv_remove_marked:
  assumes inv: "h2_inv d c" and f: "f (objs c sid) = (objs c sid)\<lparr>sentReset := a, sentEndStream := b\<rparr>"
  shows "h2_inv d (removeStreamLocked sid rerr werr (upd sid f c))"
proof (cases "st_state (objs c sid) = StreamClosed")
  case True
  have "stream_ok (InitialWindowSize (opts c)) (objs c sid)" using inv by (simp add: h2_inv_def table_ok_def)
  then have "h2_inv d (upd sid f c)"
    by (intro inv_upd [OF inv]) (use True in \<open>auto simp: f stream_ok_def recv_ok_def body_ok_def state_ok_def unread_def\<close>)
  with True show ?thesis by (simp add: removeStreamLocked_def f)
next
  case False
  let ?c = "upd sid f c"
  let ?s = "objs c sid"
  have sid: "sid \<in> set (streams c)" and ok: "stream_ok (InitialWindowSize (opts c)) ?s" and dist: "distinct (streams c)"
    using False inv by (simp_all add: h2_inv_def table_ok_def)
  have u: "unread (f ?s) = unread ?s" by (simp add: f unread_def)
  have un: "(if unread ?s > 0 then i32 (unackedReceiveBytes c + i32 (int (unread ?s))) else unackedReceiveBytes c) =
      unackedReceiveBytes c + int (unread ?s)"
  proof -
    have "0 \<le> d" using inv by (simp add: h2_inv_def flow_ok_def)
    then show ?thesis using flow_bounds [OF inv] flow_bounds(4) [OF inv sid] by simp
  qed
  have "st_state (objs ?c sid) \<noteq> StreamClosed" "sid \<in> set (streams ?c)" using False sid by (simp_all add: f)
  from removeStream_eq [OF this, of rerr werr] obtain t where t0: "removeStreamLocked sid rerr werr ?c =
    ?c\<lparr>objs := (objs ?c)(sid := closed_stream rerr werr (objs ?c sid)), streams := remove1 sid (streams ?c),
      activeStreams := activeStreams ?c - 1,
      unackedReceiveBytes := (if unread (objs ?c sid) > 0 then i32 (unackedReceiveBytes ?c + i32 (int (unread (objs ?c sid))))
                              else unackedReceiveBytes ?c),
      waitingStreams := (if waitingConn (objs ?c sid) then remove1 sid (waitingStreams ?c) else waitingStreams ?c), h_timeout := t\<rparr>"
    by blast
  have "objs ?c sid = f ?s" "unackedReceiveBytes ?c = unackedReceiveBytes c" by simp_all
  note t1 = t0 [unfolded this u un]
  let ?r = "removeStreamLocked sid rerr werr ?c"
  have p: "opts ?r = opts c" "streams ?r = remove1 sid (streams c)" "activeStreams ?r = activeStreams c - 1"
    "maxClientStreamID ?r = maxClientStreamID c" "c_receiveWindow ?r = c_receiveWindow c"
    "unackedReceiveBytes ?r = unackedReceiveBytes c + int (unread ?s)" "controlTokens ?r = controlTokens c"
    "resetTokens ?r = resetTokens c" "recentResets ?r = recentResets c" "peerMaxFrameSize ?r = peerMaxFrameSize c"
    "peerInitialWindowSize ?r = peerInitialWindowSize c" "c_sendWindow ?r = c_sendWindow c" "broken ?r = broken c"
    "continuationStreamID ?r = continuationStreamID c" "builder ?r = builder c"
    "objs ?r = (objs c)(sid := closed_stream rerr werr (f ?s))"
    unfolding t1 by simp_all
  have w: "(\<Sum>x\<leftarrow>remove1 sid (streams c). int (unread (((objs c)(sid := v)) x))) = waiting_bytes c - int (unread ?s)" for v
  proof -
    have "(\<Sum>x\<leftarrow>remove1 sid (streams c). int (unread (((objs c)(sid := v)) x))) = (\<Sum>x\<leftarrow>remove1 sid (streams c). int (unread (objs c x)))"
      using dist by (intro arg_cong [of _ _ sum_list] map_cong) auto
    with sum_list_remove1 [OF sid, of "\<lambda>x. int (unread (objs c x))"] show ?thesis by (simp add: waiting_bytes_def)
  qed
  have cl: "stream_ok (InitialWindowSize (opts c)) (closed_stream rerr werr (f ?s))" "st_state (closed_stream rerr werr (f ?s)) = StreamClosed"
    using stream_ok_closed [OF ok] by (simp_all add: f) (simp add: closed_stream_def)
  have "table_ok ?r"
    using inv sid dist cl unfolding h2_inv_def table_ok_def p by (auto simp: length_remove1)
  moreover have "flow_ok d ?r"
    using inv w [of "closed_stream rerr werr (f ?s)"] unfolding h2_inv_def flow_ok_def p waiting_bytes_def [of ?r] by simp
  moreover have "limits_ok ?r"
    using inv dist unfolding h2_inv_def limits_ok_def p by auto
  moreover have "block_ok ?r" using inv unfolding h2_inv_def block_ok_def p by simp
  ultimately show ?thesis by (simp add: h2_inv_def)
qed

lemma inv_remove: "h2_inv d c \<Longrightarrow> h2_inv d (removeStreamLocked sid rerr werr c)"
proof -
  assume inv: "h2_inv d c"
  have "objs c sid = (objs c sid)\<lparr>sentReset := sentReset (objs c sid), sentEndStream := sentEndStream (objs c sid)\<rparr>" by simp
  from inv_remove_marked [OF inv, of "\<lambda>s. s", OF this] show ?thesis by (simp only: upd_same)
qed

section \<open>Sections under the lock\<close>

lemma removeStream_only:
  "\<exists>a1 a2 a3 a4 a5 a6. removeStreamLocked sid rerr werr c =
     c\<lparr>objs := a1, streams := a2, activeStreams := a3, unackedReceiveBytes := a4, waitingStreams := a5, h_timeout := a6\<rparr>"
proof (cases "st_state (objs c sid) = StreamClosed")
  case True
  then have "removeStreamLocked sid rerr werr c = c\<lparr>objs := objs c, streams := streams c, activeStreams := activeStreams c,
      unackedReceiveBytes := unackedReceiveBytes c, waitingStreams := waitingStreams c, h_timeout := h_timeout c\<rparr>"
    by (simp add: removeStreamLocked_def)
  then show ?thesis by blast
next
  case open': False
  show ?thesis
  proof (cases "sid \<in> set (streams c)")
    case True
    show ?thesis using removeStream_eq [OF open' True, of rerr werr] by blast
  next
    case False
    have up: "\<exists>a. upd sid f d = d\<lparr>objs := a\<rparr>" for f d by (auto simp: upd_def)
    have dis: "\<exists>a b. discardUnreadBodyLocked sid d = d\<lparr>objs := a, unackedReceiveBytes := b\<rparr>"
      and un: "\<exists>a b. unregisterWaiterLocked sid d = d\<lparr>objs := a, waitingStreams := b\<rparr>" for d
      unfolding discard_eq unregister_eq by blast+
    let ?f = "\<lambda>s. s\<lparr>st_state := StreamClosed, readErr := (if rerr \<noteq> None \<and> readErr s = None then rerr else readErr s),
                     writeErr := (if werr \<noteq> None \<and> writeErr s = None then werr else writeErr s)\<rparr>"
    let ?c2 = "unregisterWaiterLocked sid (discardUnreadBodyLocked sid (upd sid ?f c))"
    obtain x y z where c2: "?c2 = c\<lparr>unackedReceiveBytes := y, objs := x, waitingStreams := z\<rparr>"
      using up [of ?f c] dis [of "upd sid ?f c"] un [of "discardUnreadBodyLocked sid (upd sid ?f c)"] by auto
    have "sid \<notin> set (streams ?c2)" using False unfolding c2 by simp
    then have "removeStreamLocked sid rerr werr c = upd sid (\<lambda>s. wakeWriterLocked (wakeReaderLocked s)) ?c2"
      using open' by (simp only: removeStreamLocked_def Let_def if_False)
    then obtain x' where "removeStreamLocked sid rerr werr c = c\<lparr>unackedReceiveBytes := y, waitingStreams := z, objs := x'\<rparr>"
      using up [of _ ?c2] unfolding c2 by auto
    then have "removeStreamLocked sid rerr werr c = c\<lparr>objs := x', streams := streams c, activeStreams := activeStreams c,
      unackedReceiveBytes := y, waitingStreams := z, h_timeout := h_timeout c\<rparr>" by simp
    then show ?thesis by blast
  qed
qed

lemma remove_simps [simp]:
  "opts (removeStreamLocked sid rerr werr c) = opts c" "decoder (removeStreamLocked sid rerr werr c) = decoder c"
  "emitEnabled (removeStreamLocked sid rerr werr c) = emitEnabled c"
  "builder (removeStreamLocked sid rerr werr c) = builder c"
  "continuationStreamID (removeStreamLocked sid rerr werr c) = continuationStreamID c"
  "continuationFrames (removeStreamLocked sid rerr werr c) = continuationFrames c"
  "maxClientStreamID (removeStreamLocked sid rerr werr c) = maxClientStreamID c"
  "controlTokens (removeStreamLocked sid rerr werr c) = controlTokens c"
  "prefaceRead (removeStreamLocked sid rerr werr c) = prefaceRead c"
  "broken (removeStreamLocked sid rerr werr c) = broken c" "encoder (removeStreamLocked sid rerr werr c) = encoder c"
  "c_sendWindow (removeStreamLocked sid rerr werr c) = c_sendWindow c"
  "c_receiveWindow (removeStreamLocked sid rerr werr c) = c_receiveWindow c"
  "peerInitialWindowSize (removeStreamLocked sid rerr werr c) = peerInitialWindowSize c"
  "peerMaxFrameSize (removeStreamLocked sid rerr werr c) = peerMaxFrameSize c"
  "peerHeaderTableSize (removeStreamLocked sid rerr werr c) = peerHeaderTableSize c"
  "minHeaderTableSize (removeStreamLocked sid rerr werr c) = minHeaderTableSize c"
  "headerTableSizeUpdated (removeStreamLocked sid rerr werr c) = headerTableSizeUpdated c"
  "resetTokens (removeStreamLocked sid rerr werr c) = resetTokens c"
  "recentResets (removeStreamLocked sid rerr werr c) = recentResets c"
  "recentResetPos (removeStreamLocked sid rerr werr c) = recentResetPos c"
  "sawFirstSettings (removeStreamLocked sid rerr werr c) = sawFirstSettings c"
  "inHeaderBlock (removeStreamLocked sid rerr werr c) = inHeaderBlock c"
  "partialFrame (removeStreamLocked sid rerr werr c) = partialFrame c"
  "goingAway (removeStreamLocked sid rerr werr c) = goingAway c"
  "closeWhenIdle (removeStreamLocked sid rerr werr c) = closeWhenIdle c"
  "h_closed (removeStreamLocked sid rerr werr c) = h_closed c" "h_wire (removeStreamLocked sid rerr werr c) = h_wire c"
  "h_failed (removeStreamLocked sid rerr werr c) = h_failed c"
  "h_writable (removeStreamLocked sid rerr werr c) = h_writable c"
  "h_closeCalls (removeStreamLocked sid rerr werr c) = h_closeCalls c"
  "bodyRoom (removeStreamLocked sid rerr werr c) = bodyRoom c" "started (removeStreamLocked sid rerr werr c) = started c"
  "c_granted (removeStreamLocked sid rerr werr c) = c_granted c"
  using removeStream_only [of sid rerr werr c] by auto

lemma stream_of:
  assumes "h2_inv d c"
  shows "stream_ok (InitialWindowSize (opts c)) (objs c sid)" "sid \<in> set (streams c) \<longleftrightarrow> st_state (objs c sid) \<noteq> StreamClosed"
    "sid \<in> set (streams c) \<Longrightarrow> sid \<le> maxClientStreamID c" "opts_ok (opts c)"
  using assms by (auto simp: h2_inv_def table_ok_def)

text \<open>Changes of a stream the invariant does not read.\<close>

definition same_stream :: "h2_stream \<Rightarrow> h2_stream \<Rightarrow> bool" where
  "same_stream s s' \<longleftrightarrow> sendWindow s' = sendWindow s \<and> receiveWindow s' = receiveWindow s \<and> unackedBytes s' = unackedBytes s \<and>
     receivedBytes s' = receivedBytes s \<and> declaredLength s' = declaredLength s \<and> bodyBuf s' = bodyBuf s \<and> bodyPos s' = bodyPos s \<and>
     st_state s' = st_state s \<and> eof s' = eof s \<and> bodyClosed s' = bodyClosed s \<and> sentEndStream s' = sentEndStream s \<and>
     sentReset s' = sentReset s \<and> bodyIn s' = bodyIn s \<and> bodyOut s' = bodyOut s"

lemma same_stream_ok: "same_stream s s' \<Longrightarrow> stream_ok W s' = stream_ok W s \<and> unread s' = unread s"
  by (simp add: same_stream_def stream_ok_def recv_ok_def body_ok_def state_ok_def unread_def)

lemma inv_upd_same:
  assumes inv: "h2_inv d c" and same: "same_stream (objs c sid) (f (objs c sid))"
  shows "h2_inv d (upd sid f c)"
proof (rule inv_upd [OF inv])
  show "stream_ok (InitialWindowSize (opts c)) (f (objs c sid))" using same_stream_ok [OF same] stream_of(1) [OF inv] by blast
  show "unread (f (objs c sid)) = unread (objs c sid)" using same_stream_ok [OF same] by blast
qed (use same in \<open>auto simp: same_stream_def\<close>)

lemma same_stream_wake [simp]: "same_stream s (wakeReaderLocked s)" "same_stream s (wakeWriterLocked s)"
  by (simp_all add: same_stream_def wakeReaderLocked_def wakeWriterLocked_def)

lemma inv_unregister: "h2_inv d c \<Longrightarrow> h2_inv d (unregisterWaiterLocked sid c)"
  by (auto simp: unregisterWaiterLocked_def intro!: inv_upd_same simp: same_stream_def)

lemma inv_wakeWaiting: "h2_inv d c \<Longrightarrow> h2_inv d (wakeWaitingStreamsLocked c)"
proof -
  have "h2_inv d (fold (\<lambda>sid. upd sid (\<lambda>s. wakeWriterLocked (s\<lparr>waitingConn := False\<rparr>))) ids c)" if "h2_inv d c" for ids c
    using that
  proof (induction ids arbitrary: c)
    case (Cons a ids)
    have "h2_inv d (upd a (\<lambda>s. wakeWriterLocked (s\<lparr>waitingConn := False\<rparr>)) c)"
      by (rule inv_upd_same [OF Cons.prems]) (simp add: same_stream_def wakeWriterLocked_def)
    from Cons.IH [OF this] show ?case by simp
  qed simp
  then show "h2_inv d c \<Longrightarrow> h2_inv d (wakeWaitingStreamsLocked c)" by (simp add: wakeWaitingStreamsLocked_def)
qed

lemma inv_failStream:
  assumes "h2_inv d c" and "sid \<in> set (streams c)"
  shows "h2_inv d (fst (failStreamLocked sid rerr code out c))"
proof -
  have "sid \<le> maxClientStreamID c" using stream_of(3) [OF assms] .
  then have "h2_inv d (noteServerResetLocked sid c)" by (rule inv_note [OF assms(1)])
  moreover have "objs (noteServerResetLocked sid c) = objs c" by (simp add: noteServerResetLocked_def)
  ultimately have "h2_inv d (removeStreamLocked sid (Some rerr) (Some ErrStreamReset)
      (upd sid (\<lambda>s. s\<lparr>sentReset := True\<rparr>) (noteServerResetLocked sid c)))"
    by (intro inv_remove_marked [where a = True and b = "sentEndStream (objs c sid)"]) simp_all
  then show ?thesis
    by (simp add: failStreamLocked_def Let_def note_upd case_prod_unfold inv_take)
qed

text \<open>The result of a frame: on an error the connection is about to be marked as broken.\<close>

definition handled_ok :: "h2_conn \<Rightarrow> errCode \<Rightarrow> bool" where
  "handled_ok c code \<longleftrightarrow> h2_inv 0 (c\<lparr>broken := True\<rparr>) \<and> (code = errCodeNo \<longrightarrow> h2_inv 0 c \<and> \<not> broken c)"

lemma handled_okI: "h2_inv 0 c \<Longrightarrow> \<not> broken c \<Longrightarrow> handled_ok c code"
  by (simp add: handled_ok_def inv_broken)

lemma unread_sendWindow [simp]: "unread (s\<lparr>sendWindow := w\<rparr>) = unread s" "unread (s\<lparr>sendWindow := w, st_granted := g\<rparr>) = unread s"
  by (simp_all add: unread_def)

lemma stream_ok_sendWindow:
  assumes "stream_ok W s" and "- maxWindowSize \<le> w" and "w \<le> maxWindowSize"
  shows "stream_ok W (s\<lparr>sendWindow := w\<rparr>)" "stream_ok W (s\<lparr>sendWindow := w, st_granted := g\<rparr>)"
  using assms by (simp_all add: stream_ok_def recv_ok_def body_ok_def state_ok_def)

text \<open>New initial window sizes.\<close>

lemma adjust_windows_ok:
  assumes "h2_inv d (c\<lparr>broken := True\<rparr>)" and "distinct ids"
    and "\<forall>sid \<in> set ids. - maxWindowSize \<le> sendWindow (objs c sid) + delta"
    and "adjust_windows delta ids c = (c', ok)"
  shows "h2_inv d (c'\<lparr>broken := True\<rparr>) \<and> broken c' = broken c \<and> streams c' = streams c \<and>
    peerInitialWindowSize c' = peerInitialWindowSize c \<and>
    (ok \<longrightarrow> (\<forall>sid. sendWindow (objs c' sid) = sendWindow (objs c sid) + (if sid \<in> set ids then delta else 0)))"
  using assms
proof (induction ids arbitrary: c)
  case Nil
  then show ?case by simp
next
  case (Cons sid ids)
  let ?f = "\<lambda>s. let s1 = s\<lparr>sendWindow := sendWindow s + delta\<rparr>
                      in if sendWindow s \<le> 0 \<and> sendWindow s1 > 0 then wakeWriterLocked s1 else s1"
  show ?case
  proof (cases "sendWindow (objs c sid) + delta > maxWindowSize")
    case True
    with Cons.prems show ?thesis by auto
  next
    case False
    have sw: "sendWindow (?f s) = sendWindow s + delta" for s by (simp add: Let_def)
    have "stream_ok (InitialWindowSize (opts c)) ((objs c sid)\<lparr>sendWindow := sendWindow (objs c sid) + delta\<rparr>)"
      using stream_of(1) [OF Cons.prems(1), of sid] Cons.prems(3) False by (intro stream_ok_sendWindow) simp_all
    then have ok: "stream_ok (InitialWindowSize (opts c)) (?f (objs c sid))" by (simp add: Let_def)
    have u: "unread (?f (objs c sid)) = unread (objs c sid)" "st_state (?f (objs c sid)) = st_state (objs c sid)"
      using unread_sendWindow by (simp_all add: Let_def)
    have e: "(upd sid ?f c)\<lparr>broken := True\<rparr> = upd sid ?f (c\<lparr>broken := True\<rparr>)" by (simp add: upd_def)
    have "h2_inv d ((upd sid ?f c)\<lparr>broken := True\<rparr>)"
      unfolding e by (rule inv_upd [OF Cons.prems(1)]) (use ok u in simp_all)
    moreover have "\<forall>i \<in> set ids. - maxWindowSize \<le> sendWindow (objs (upd sid ?f c) i) + delta" using Cons.prems(2,3) by auto
    moreover have "adjust_windows delta ids (upd sid ?f c) = (c', ok')" if "ok' = ok" for ok'
      using Cons.prems(4) False that by (simp add: Let_def)
    ultimately show ?thesis
      using Cons.IH [of "upd sid ?f c"] Cons.prems(2) by (auto simp: Let_def)
  qed
qed

lemma inv_peerInitial:
  assumes inv: "h2_inv d c" and "0 \<le> v" and "v \<le> maxWindowSize"
  shows "h2_inv d (c\<lparr>peerInitialWindowSize := v, broken := True\<rparr>)"
  using assms by (simp add: h2_inv_def table_ok_def flow_ok_def waiting_bytes_def limits_ok_def block_ok_def)

lemma apply_setting_ok:
  assumes inv: "h2_inv 0 c" and nb: "\<not> broken c" and e: "apply_setting i v c = (c', code)"
  shows "handled_ok c' code"
proof -
  consider (win) "i = settingInitialWindowSize" "uint v \<le> maxWindowSize" "uint v - peerInitialWindowSize c \<noteq> 0"
    | (other) "h2_inv 0 c' \<and> \<not> broken c'"
  proof (cases "i = settingInitialWindowSize \<and> uint v \<le> maxWindowSize \<and> uint v - peerInitialWindowSize c \<noteq> 0")
    case False
    have ne: "settingInitialWindowSize \<noteq> settingHeaderTableSize" "settingInitialWindowSize \<noteq> settingEnablePush"
      "settingMaxFrameSize \<noteq> settingHeaderTableSize" "settingMaxFrameSize \<noteq> settingEnablePush" "settingMaxFrameSize \<noteq> settingInitialWindowSize"
      "settingEnablePush \<noteq> settingHeaderTableSize"
      by (simp_all add: setting_ids)
    consider (a) "i = settingHeaderTableSize" | (b) "i = settingEnablePush" | (c) "i = settingInitialWindowSize" | (d) "i = settingMaxFrameSize"
      | (e) "i \<notin> {settingHeaderTableSize, settingEnablePush, settingInitialWindowSize, settingMaxFrameSize}" by blast
    then have "h2_inv 0 c' \<and> \<not> broken c'"
    proof cases
      case a
      with e have "c' = c\<lparr>minHeaderTableSize := minHeaderTableSize c', peerHeaderTableSize := peerHeaderTableSize c', headerTableSizeUpdated := True\<rparr>"
        by (auto simp: apply_setting_def Let_def)
      then obtain x y where "c' = c\<lparr>minHeaderTableSize := x, peerHeaderTableSize := y, headerTableSizeUpdated := True\<rparr>" by blast
      with inv nb show ?thesis by simp
    next
      case c
      then have "maxWindowSize < uint v \<or> uint v = peerInitialWindowSize c \<and> uint v \<le> maxWindowSize" using False by auto
      moreover have "0 \<le> peerInitialWindowSize c" using inv by (simp add: h2_inv_def limits_ok_def)
      ultimately have "c' = c" using e c ne by (auto simp: apply_setting_def Let_def)
      with inv nb show ?thesis by simp
    next
      case d
      have "h2_inv 0 (c\<lparr>peerMaxFrameSize := unat v\<rparr>)" if "minMaxFrameSize \<le> unat v" "unat v \<le> maxFrameSizeLimit"
        using inv that by (simp add: h2_inv_def table_ok_def flow_ok_def waiting_bytes_def limits_ok_def block_ok_def)
      with e d ne inv nb show ?thesis by (auto simp: apply_setting_def split: if_splits)
    qed (use e ne inv nb in \<open>auto simp: apply_setting_def\<close>)
    then show ?thesis by (rule other)
  qed (auto intro: win)
  then show ?thesis
  proof cases
    case other
    then show ?thesis by (simp add: handled_okI)
  next
    case win
    let ?c1 = "c\<lparr>peerInitialWindowSize := uint v\<rparr>" and ?d = "uint v - peerInitialWindowSize c"
    have "h2_inv 0 (?c1\<lparr>broken := True\<rparr>)" using inv_peerInitial [OF inv _ win(2)] by simp
    moreover have lo: "\<forall>sid \<in> set (streams c). uint v - maxWindowSize \<le> sendWindow (objs c sid) + ?d"
      using inv nb by (force simp: h2_inv_def limits_ok_def)
    then have "\<forall>sid \<in> set (streams c). - maxWindowSize \<le> sendWindow (objs ?c1 sid) + ?d"
    proof (intro ballI)
      fix sid assume "sid \<in> set (streams c)"
      with lo have *: "uint v - maxWindowSize \<le> sendWindow (objs c sid) + ?d" by blast
      have "- maxWindowSize \<le> uint v - maxWindowSize" by simp
      from order_trans [OF this *] show "- maxWindowSize \<le> sendWindow (objs ?c1 sid) + ?d" by simp
    qed
    moreover obtain c2 ok where a: "adjust_windows ?d (streams c) ?c1 = (c2, ok)" by fastforce
    moreover have "distinct (streams c)" using inv by (simp add: h2_inv_def table_ok_def)
    ultimately have p: "h2_inv 0 (c2\<lparr>broken := True\<rparr>)" "broken c2 = broken c" "streams c2 = streams c" "peerInitialWindowSize c2 = uint v"
      "ok \<Longrightarrow> \<forall>sid \<in> set (streams c). sendWindow (objs c2 sid) = sendWindow (objs c sid) + ?d"
      using adjust_windows_ok [of 0 ?c1 "streams c" ?d c2 ok] by simp_all
    have "c' = c2" "code = (if ok then errCodeNo else errCodeFlowControl)"
      using e win a by (auto simp: apply_setting_def Let_def setting_ids split: if_splits)
    moreover have "h2_inv 0 c2" if ok
      using p(1) p(5) [OF that] lo nb p(2,3,4)
      by (auto simp: h2_inv_def table_ok_def flow_ok_def waiting_bytes_def limits_ok_def block_ok_def)
    ultimately show ?thesis using p(1,2) nb by (auto simp: handled_ok_def err_codes)
  qed
qed

lemma settings_loop_ok:
  "h2_inv 0 c \<Longrightarrow> \<not> broken c \<Longrightarrow> settings_loop payload c = (c', code) \<Longrightarrow> handled_ok c' code"
proof (induction payload c arbitrary: c' code rule: settings_loop.induct)
  case (1 payload c)
  show ?case
  proof (cases "payload = []")
    case True
    with "1.prems" show ?thesis by (subst (asm) settings_loop.simps) (simp add: handled_okI)
  next
    case False
    obtain c1 k where a: "apply_setting (be_word (sub_bytes payload 0 2)) (be_word (sub_bytes payload 2 6)) c = (c1, k)"
      by fastforce
    note ok = apply_setting_ok [OF "1.prems"(1,2) a]
    show ?thesis
    proof (cases "k = errCodeNo")
      case True
      then have "settings_loop (drop 6 payload) c1 = (c', code)"
        using "1.prems"(3) False a by (subst (asm) settings_loop.simps) simp
      with "1.IH" [OF False a [symmetric] refl] True ok show ?thesis by (simp add: handled_ok_def)
    next
      case nk: False
      then have "c' = c1" "code = k" using "1.prems"(3) False a by (subst (asm) settings_loop.simps, simp)+
      with ok show ?thesis by simp
    qed
  qed
qed

lemma handleSettings_ok:
  assumes "h2_inv 0 c" and "\<not> broken c"
  shows "handled_ok (fst (handleSettings fh payload out c)) (snd (snd (handleSettings fh payload out c)))"
proof -
  let ?c1 = "(fst (takeControlToken c))\<lparr>sawFirstSettings := True\<rparr>"
  have "h2_inv 0 ?c1" "\<not> broken ?c1" using assms by (simp_all add: inv_tokens)
  then have s: "handled_ok (fst (settings_loop payload ?c1)) (snd (settings_loop payload ?c1))"
    by (rule settings_loop_ok) simp
  have k: "handled_ok c code" "handled_ok (fst (takeControlToken c)) code" for code
    using assms by (simp_all add: handled_okI inv_tokens)
  have "handled_ok (setDeadlineLocked d) code = handled_ok d code" for d code
  proof -
    obtain t where t: "setDeadlineLocked d = d\<lparr>h_timeout := t\<rparr>" using setDeadline_eq [of d] by blast
    have "d\<lparr>h_timeout := t, broken := True\<rparr> = d\<lparr>broken := True\<rparr>\<lparr>h_timeout := t\<rparr>" by simp
    then have "h2_inv 0 (d\<lparr>h_timeout := t, broken := True\<rparr>) = h2_inv 0 (d\<lparr>broken := True\<rparr>)" by (simp only: inv_frame)
    then show ?thesis unfolding handled_ok_def t by simp
  qed
  with s k show ?thesis by (cases "snd (settings_loop payload ?c1) = errCodeNo") (simp_all add: handleSettings_def Let_def case_prod_unfold)
qed

lemma handlePing_ok:
  assumes "h2_inv 0 c" and "\<not> broken c"
  shows "handled_ok (fst (handlePing fh payload out c)) (snd (snd (handlePing fh payload out c)))"
    "handled_ok (fst (handlePriority fh payload out c)) (snd (snd (handlePriority fh payload out c)))"
  using assms by (simp_all add: handlePing_def handlePriority_def Let_def case_prod_unfold handled_okI inv_tokens)

lemma failStream_simps [simp]:
  "broken (fst (failStreamLocked sid rerr code out c)) = broken c" "opts (fst (failStreamLocked sid rerr code out c)) = opts c"
  by (simp_all add: failStreamLocked_def Let_def case_prod_unfold)

lemma wakeWaiting_simps [simp]: "broken (wakeWaitingStreamsLocked c) = broken c"
proof -
  have "broken (fold (\<lambda>sid. upd sid f) ids c) = broken c" for ids f by (induction ids arbitrary: c) auto
  then show ?thesis by (simp add: wakeWaitingStreamsLocked_def)
qed

lemma inv_grant:
  assumes "h2_inv d c" and "0 \<le> n" and "c_sendWindow c + n \<le> maxWindowSize"
  shows "h2_inv d (c\<lparr>c_sendWindow := c_sendWindow c + n\<rparr>)"
  using assms by (simp add: h2_inv_def table_ok_def flow_ok_def waiting_bytes_def limits_ok_def block_ok_def)

lemma handleWindowUpdate_ok:
  assumes inv: "h2_inv 0 c" and nb: "\<not> broken c"
  shows "handled_ok (fst (handleWindowUpdate fh payload out c)) (snd (snd (handleWindowUpdate fh payload out c)))"
proof -
  define inc where "inc = be_word (sub_bytes payload 0 4) AND (0x7fffffff :: u32)"
  let ?sid = "streamID fh"
  let ?f = "\<lambda>s. let s1 = s\<lparr>sendWindow := sendWindow s + uint inc, st_granted := st_granted s + uint inc\<rparr>
               in if sendWindow s \<le> 0 \<and> sendWindow s1 > 0 then wakeWriterLocked s1 else s1"
  have "h2_inv 0 (wakeWaitingStreamsLocked (c\<lparr>c_sendWindow := c_sendWindow c + uint inc, c_granted := c_granted c + uint inc\<rparr>))"
    if "c_sendWindow c + uint inc \<le> maxWindowSize"
    using inv_grant [OF inv _ that] by (intro inv_wakeWaiting) simp
  moreover have "h2_inv 0 (upd ?sid ?f c)" if sw: "sendWindow (objs c ?sid) + uint inc \<le> maxWindowSize"
  proof (rule inv_upd [OF inv])
    have w: "- maxWindowSize \<le> sendWindow (objs c ?sid)" using stream_of(1) [OF inv, of ?sid] by (simp add: stream_ok_def state_ok_def)
    have "- maxWindowSize \<le> sendWindow (objs c ?sid) + uint inc" by (rule order_trans [OF w]) simp
    then have "stream_ok (InitialWindowSize (opts c)) ((objs c ?sid)\<lparr>sendWindow := sendWindow (objs c ?sid) + uint inc,
        st_granted := st_granted (objs c ?sid) + uint inc\<rparr>)"
      using stream_of(1) [OF inv, of ?sid] sw by (intro stream_ok_sendWindow(2))
    then show "stream_ok (InitialWindowSize (opts c)) (?f (objs c ?sid))" by (simp add: Let_def)
    have "peerInitialWindowSize c - maxWindowSize \<le> sendWindow (objs c ?sid) + uint inc"
      if "peerInitialWindowSize c - maxWindowSize \<le> sendWindow (objs c ?sid)" by (rule order_trans [OF that]) simp
    then show "peerInitialWindowSize c - maxWindowSize \<le> sendWindow (objs c ?sid) \<Longrightarrow>
        peerInitialWindowSize c - maxWindowSize \<le> sendWindow (?f (objs c ?sid))" by (simp add: Let_def)
  qed (simp_all add: Let_def)
  moreover have "h2_inv 0 (fst (failStreamLocked ?sid ErrStreamReset errCodeFlowControl out c))" if "?sid \<in> set (streams c)"
    by (rule inv_failStream [OF inv that])
  ultimately show ?thesis
    using inv nb by (simp add: handleWindowUpdate_def Let_def case_prod_unfold handled_okI inv_tokens not_less flip: inc_def)
qed

lemma handleRSTStream_ok:
  assumes inv: "h2_inv 0 c" and nb: "\<not> broken c"
  shows "handled_ok (fst (handleRSTStream fh out c)) (snd (snd (handleRSTStream fh out c)))"
proof -
  let ?c1 = "c\<lparr>resetTokens := resetTokens c - 1\<rparr>" and ?sid = "streamID fh"
  have "h2_inv 0 ?c1" if "0 < resetTokens c" using inv_tokens(3) [OF inv that] .
  then have "h2_inv 0 (removeStreamLocked ?sid (Some ErrStreamReset) (Some ErrStreamReset) (upd ?sid (\<lambda>s. s\<lparr>sentReset := True\<rparr>) ?c1))"
    if "0 < resetTokens c"
    using that by (intro inv_remove_marked [where a = True and b = "sentEndStream (objs c ?sid)"]) simp_all
  with inv nb inv_tokens(3) [OF inv] show ?thesis
    by (simp add: handleRSTStream_def Let_def case_prod_unfold handled_okI inv_take not_le)
qed

end
