(* ===== verification/H2Steps.thy ===== *)
theory H2Steps
  imports H2Flow
begin

text \<open>
  Every section of the HTTP/2 connection keeps its invariant: the frames received, the callbacks of the engine and
  what the goroutines of the handlers do. A connection is a step relation over these sections, in any order.
\<close>

section \<open>DATA\<close>

text \<open>The stream after an accepted DATA frame.\<close>

definition received :: "bool \<Rightarrow> int \<Rightarrow> bytes \<Rightarrow> nat \<Rightarrow> bool \<Rightarrow> h2_stream \<Rightarrow> h2_stream" where
  "received room F data pad ended s =
     (let s1 = s\<lparr>receiveWindow := i32 (receiveWindow s - F), receivedBytes := receivedBytes s + int (length data)\<rparr>;
          s2 = (if bodyClosed s then s1
                else let s3 = (if pad > 0 then s1\<lparr>unackedBytes := i32 (unackedBytes s1 + int pad)\<rparr> else s1)
                  in if length data > 0 then appendDataLocked room data s3 else s3)
      in if ended then s2\<lparr>eof := True, st_state := StreamHalfClosedRemote\<rparr> else s2)"

lemma append_simps [simp]:
  "sendWindow (appendDataLocked room data s) = sendWindow s" "receiveWindow (appendDataLocked room data s) = receiveWindow s"
  "unackedBytes (appendDataLocked room data s) = unackedBytes s" "receivedBytes (appendDataLocked room data s) = receivedBytes s"
  "declaredLength (appendDataLocked room data s) = declaredLength s" "st_state (appendDataLocked room data s) = st_state s"
  "eof (appendDataLocked room data s) = eof s" "bodyClosed (appendDataLocked room data s) = bodyClosed s"
  "sentEndStream (appendDataLocked room data s) = sentEndStream s" "sentReset (appendDataLocked room data s) = sentReset s"
  "bodyOut (appendDataLocked room data s) = bodyOut s" "bodyIn (appendDataLocked room data s) = bodyIn s @ data"
  "gotTrailers (appendDataLocked room data s) = gotTrailers s" "readErr (appendDataLocked room data s) = readErr s"
  by (simp_all add: appendDataLocked_def Let_def)

text \<open>Compacting the buffer or growing it, the waiting bytes are followed by the new ones.\<close>

lemma append_waiting:
  assumes "bodyPos s \<le> length (bodyBuf s)"
  shows "drop (bodyPos (appendDataLocked room data s)) (bodyBuf (appendDataLocked room data s)) = drop (bodyPos s) (bodyBuf s) @ data"
    "bodyPos (appendDataLocked room data s) \<le> length (bodyBuf (appendDataLocked room data s))"
    "unread (appendDataLocked room data s) = unread s + length data"
  using assms by (auto simp: appendDataLocked_def Let_def unread_def)

lemma received_eq:
  assumes "0 \<le> unackedBytes s" and "unackedBytes s + int pad \<le> maxWindowSize"
    and "0 \<le> receiveWindow s - F" and "receiveWindow s - F \<le> maxWindowSize"
  shows "received room F data pad ended s =
    (let s1 = s\<lparr>receiveWindow := receiveWindow s - F, receivedBytes := receivedBytes s + int (length data),
                unackedBytes := unackedBytes s + (if bodyClosed s then 0 else int pad)\<rparr>;
         s2 = (if bodyClosed s \<or> data = [] then s1 else appendDataLocked room data s1)
     in s2\<lparr>eof := (ended \<or> eof s), st_state := (if ended then StreamHalfClosedRemote else st_state s)\<rparr>)"
proof -
  have i: "i32 (receiveWindow s - F) = receiveWindow s - F" "i32 (unackedBytes s + int pad) = unackedBytes s + int pad"
    using assms by simp_all
  have keep: "t\<lparr>eof := eof s, st_state := st_state s\<rparr> = t" if "eof t = eof s" "st_state t = st_state s" for t :: h2_stream
    using that by (cases t) simp
  show ?thesis
    using i by (cases "pad = 0"; cases ended; cases "data = []"; cases "bodyClosed s") (simp_all add: received_def Let_def keep)
qed

lemma received_simps:
  assumes "0 \<le> unackedBytes s" and "unackedBytes s + int pad \<le> maxWindowSize"
    and "0 \<le> receiveWindow s - F" and "receiveWindow s - F \<le> maxWindowSize"
  shows "sendWindow (received room F data pad ended s) = sendWindow s"
    "receiveWindow (received room F data pad ended s) = receiveWindow s - F"
    "unackedBytes (received room F data pad ended s) = unackedBytes s + (if bodyClosed s then 0 else int pad)"
    "receivedBytes (received room F data pad ended s) = receivedBytes s + int (length data)"
    "declaredLength (received room F data pad ended s) = declaredLength s"
    "st_state (received room F data pad ended s) = (if ended then StreamHalfClosedRemote else st_state s)"
    "eof (received room F data pad ended s) = (ended \<or> eof s)"
    "bodyClosed (received room F data pad ended s) = bodyClosed s"
    "sentEndStream (received room F data pad ended s) = sentEndStream s" "sentReset (received room F data pad ended s) = sentReset s"
    "bodyIn (received room F data pad ended s) = bodyIn s @ (if bodyClosed s then [] else data)"
    "bodyOut (received room F data pad ended s) = bodyOut s"
  unfolding received_eq [OF assms] Let_def by auto

lemma received_waiting:
  assumes "0 \<le> unackedBytes s" and "unackedBytes s + int pad \<le> maxWindowSize"
    and "0 \<le> receiveWindow s - F" and "receiveWindow s - F \<le> maxWindowSize" and "bodyPos s \<le> length (bodyBuf s)"
  shows "bodyPos (received room F data pad ended s) \<le> length (bodyBuf (received room F data pad ended s))"
    "drop (bodyPos (received room F data pad ended s)) (bodyBuf (received room F data pad ended s)) =
       drop (bodyPos s) (bodyBuf s) @ (if bodyClosed s then [] else data)"
    "unread (received room F data pad ended s) = unread s + (if bodyClosed s then 0 else length data)"
proof -
  define s1 where "s1 = s\<lparr>receiveWindow := receiveWindow s - F, receivedBytes := receivedBytes s + int (length data),
                unackedBytes := unackedBytes s + (if bodyClosed s then 0 else int pad)\<rparr>"
  define s2 where "s2 = (if bodyClosed s \<or> data = [] then s1 else appendDataLocked room data s1)"
  have r: "received room F data pad ended s = s2\<lparr>eof := (ended \<or> eof s), st_state := (if ended then StreamHalfClosedRemote else st_state s)\<rparr>"
    unfolding received_eq [OF assms(1-4)] Let_def s1_def s2_def by simp
  have b: "bodyPos s1 = bodyPos s" "bodyBuf s1 = bodyBuf s" by (simp_all add: s1_def)
  then have "bodyPos s1 \<le> length (bodyBuf s1)" using assms(5) by simp
  note a = append_waiting [OF this, of room data, unfolded unread_def b] b
  have s2: "bodyPos s2 \<le> length (bodyBuf s2)" "drop (bodyPos s2) (bodyBuf s2) = drop (bodyPos s) (bodyBuf s) @ (if bodyClosed s then [] else data)"
    "length (bodyBuf s2) - bodyPos s2 = unread s + (if bodyClosed s then 0 else length data)"
    using a assms(5) by (simp_all add: s2_def unread_def)
  then show "bodyPos (received room F data pad ended s) \<le> length (bodyBuf (received room F data pad ended s))"
    "drop (bodyPos (received room F data pad ended s)) (bodyBuf (received room F data pad ended s)) =
       drop (bodyPos s) (bodyBuf s) @ (if bodyClosed s then [] else data)"
    "unread (received room F data pad ended s) = unread s + (if bodyClosed s then 0 else length data)"
    by (simp_all add: r unread_def)
qed

lemma stream_ok_received:
  assumes ok: "stream_ok W s" and W: "W \<le> maxWindowSize" and st: "st_state s = StreamOpen"
    and F: "F = int (length data) + int pad" "F \<le> receiveWindow s"
    and len: "\<not> (0 \<le> declaredLength s \<and> (declaredLength s < receivedBytes s + int (length data) \<or>
                ended \<and> receivedBytes s + int (length data) \<noteq> declaredLength s))"
  shows "stream_ok W (received room F data pad ended s)"
proof -
  have rw: "bodyPos s \<le> length (bodyBuf s)" "0 \<le> receiveWindow s" "0 \<le> unackedBytes s"
    "receiveWindow s + unackedBytes s + int (unread s) \<le> W" "bodyClosed s \<Longrightarrow> unread s = 0"
    using ok by (simp_all add: stream_ok_def recv_ok_def)
  have pre: "0 \<le> unackedBytes s" "unackedBytes s + int pad \<le> maxWindowSize" "0 \<le> receiveWindow s - F" "receiveWindow s - F \<le> maxWindowSize"
    using rw W F by simp_all
  note p = received_simps [OF pre, where room = room and ended = ended and data = data]
    received_waiting [OF pre rw(1), where room = room and ended = ended and data = data]
  have "recv_ok W (received room F data pad ended s)"
    using rw F st p(13) unfolding recv_ok_def p(1-12,14-) by auto
  moreover have "body_ok (received room F data pad ended s)"
    using ok st len unfolding stream_ok_def body_ok_def p by auto
  moreover have "state_ok (received room F data pad ended s)"
    using ok st unfolding stream_ok_def state_ok_def p by auto
  ultimately show ?thesis by (simp add: stream_ok_def)
qed

text \<open>The connection when a DATA frame of \<open>F\<close> bytes has been taken in.\<close>

definition taken_in :: "u32 \<Rightarrow> int \<Rightarrow> bytes \<Rightarrow> nat \<Rightarrow> bool \<Rightarrow> h2_conn \<Rightarrow> h2_conn" where
  "taken_in sid F data pad ended c =
     upd sid (received (bodyRoom c) F data pad ended)
       (if bodyClosed (objs c sid) then addUnacked F c else if pad > 0 then addUnacked (int pad) c else c)"

lemma taken_in_eq:
  assumes "st_state (objs c sid) = StreamOpen"
  shows "store_data sid F data pad ended (upd sid (\<lambda>s. s\<lparr>receiveWindow := i32 (receiveWindow s - F)\<rparr>) c) = taken_in sid F data pad ended c"
  using assms
  by (cases "bodyClosed (objs c sid)"; cases "pad > 0"; cases "data = []"; cases ended)
    (simp_all add: store_data_def taken_in_def received_def upd_def addUnacked_def Let_def)

lemma inv_taken_in:
  assumes inv: "h2_inv F c" and sid: "sid \<in> set (streams c)" and st: "st_state (objs c sid) = StreamOpen"
    and F: "F = int (length data) + int pad" "F \<le> receiveWindow (objs c sid)"
    and len: "\<not> (0 \<le> declaredLength (objs c sid) \<and> (declaredLength (objs c sid) < receivedBytes (objs c sid) + int (length data) \<or>
                ended \<and> receivedBytes (objs c sid) + int (length data) \<noteq> declaredLength (objs c sid)))"
  shows "h2_inv 0 (taken_in sid F data pad ended c)"
proof -
  let ?s = "objs c sid" and ?W = "InitialWindowSize (opts c)"
  let ?n = "if bodyClosed ?s then 0 else int (length data)"
  define d where "d = (if bodyClosed ?s then addUnacked F c else if pad > 0 then addUnacked (int pad) c else c)"
  have "h2_inv (F - F) (addUnacked F c)" "h2_inv (F - int pad) (addUnacked (int pad) c)"
    using F by (intro inv_addUnacked [OF inv]; simp)+
  then have d: "h2_inv ?n d" using inv F by (cases "pad = 0") (simp_all add: d_def)
  have o: "objs d = objs c" "opts d = opts c" "streams d = streams c" by (simp_all add: d_def)
  have ok: "stream_ok ?W ?s" and W: "?W \<le> maxWindowSize" using stream_of(1,4) [OF inv] by (simp_all add: opts_ok_def)
  have rw: "bodyPos ?s \<le> length (bodyBuf ?s)" "0 \<le> receiveWindow ?s" "0 \<le> unackedBytes ?s" "receiveWindow ?s + unackedBytes ?s \<le> ?W"
    using ok by (simp_all add: stream_ok_def recv_ok_def)
  have pre: "0 \<le> unackedBytes ?s" "unackedBytes ?s + int pad \<le> maxWindowSize" "0 \<le> receiveWindow ?s - F"
    "receiveWindow ?s - F \<le> maxWindowSize"
    using rw W F by simp_all
  note p = received_simps [OF pre] received_waiting [OF pre rw(1)]
  have "h2_inv (?n - ?n) (upd sid (received (bodyRoom c) F data pad ended) d)"
  proof (rule inv_upd_unread [OF d])
    show "stream_ok (InitialWindowSize (opts d)) (received (bodyRoom c) F data pad ended (objs d sid))"
      unfolding o by (rule stream_ok_received [OF ok W st F len])
  qed (use sid st in \<open>simp_all add: o p\<close>)
  then show ?thesis by (simp add: taken_in_def d_def)
qed

text \<open>Giving a stream its window back.\<close>

lemma stream_ok_ack:
  assumes "stream_ok W s" and "W \<le> maxWindowSize" and "0 \<le> n" and "receiveWindow s + unackedBytes s + n + int (unread s) \<le> W"
  shows "stream_ok W (s\<lparr>receiveWindow := i32 (receiveWindow s + i32 (unackedBytes s + n)), unackedBytes := 0\<rparr>)"
    "stream_ok W (s\<lparr>unackedBytes := i32 (unackedBytes s + n)\<rparr>)"
proof -
  have b: "0 \<le> receiveWindow s" "0 \<le> unackedBytes s" using assms(1) by (simp_all add: stream_ok_def recv_ok_def)
  then have "i32 (unackedBytes s + n) = unackedBytes s + n" "i32 (receiveWindow s + (unackedBytes s + n)) = receiveWindow s + (unackedBytes s + n)"
    using assms(2-4) by simp_all
  then show "stream_ok W (s\<lparr>receiveWindow := i32 (receiveWindow s + i32 (unackedBytes s + n)), unackedBytes := 0\<rparr>)"
    "stream_ok W (s\<lparr>unackedBytes := i32 (unackedBytes s + n)\<rparr>)"
    using assms(1,3,4) b by (simp_all add: stream_ok_def recv_ok_def body_ok_def state_ok_def unread_def)
qed

lemma inv_ack:
  assumes inv: "h2_inv d c"
  shows "h2_inv d (upd sid (\<lambda>s. s\<lparr>receiveWindow := i32 (receiveWindow s + unackedBytes s), unackedBytes := 0\<rparr>) c)"
proof (rule inv_upd [OF inv])
  have ok: "stream_ok (InitialWindowSize (opts c)) (objs c sid)" and W: "InitialWindowSize (opts c) \<le> maxWindowSize"
    using stream_of(1,4) [OF inv] by (simp_all add: opts_ok_def)
  then have b: "0 \<le> receiveWindow (objs c sid)" "0 \<le> unackedBytes (objs c sid)"
    "receiveWindow (objs c sid) + unackedBytes (objs c sid) + int (unread (objs c sid)) \<le> InitialWindowSize (opts c)"
    by (simp_all add: stream_ok_def recv_ok_def)
  have i: "i32 (unackedBytes (objs c sid) + 0) = unackedBytes (objs c sid)" using b W by simp
  show "stream_ok (InitialWindowSize (opts c)) ((objs c sid)\<lparr>receiveWindow := i32 (receiveWindow (objs c sid) + unackedBytes (objs c sid)), unackedBytes := 0\<rparr>)"
    using stream_ok_ack(1) [OF ok W, of 0, unfolded i] b(3) by simp
qed (simp_all add: unread_def)

lemma stream_ok_less:
  assumes "stream_ok W s" and "0 \<le> w" and "w \<le> receiveWindow s" shows "stream_ok W (s\<lparr>receiveWindow := w\<rparr>)"
proof -
  have "unread (s\<lparr>receiveWindow := w\<rparr>) = unread s" by (simp add: unread_def)
  with assms show ?thesis by (simp add: stream_ok_def recv_ok_def body_ok_def state_ok_def)
qed

lemma handleData_ok:
  assumes inv: "h2_inv 0 c" and nb: "\<not> broken c" and len: "length payload = unat (fh_length fh)" "unat (fh_length fh) \<le> maxFrameSizeLimit"
  shows "handled_ok (fst (handleData fh payload out c)) (snd (snd (handleData fh payload out c)))"
proof -
  let ?sid = "streamID fh" and ?F = "i32 (uint (fh_length fh))"
  let ?c1 = "c\<lparr>c_receiveWindow := i32 (c_receiveWindow c - ?F)\<rparr>"
  have k: "handled_ok c code" for code using inv nb by (rule handled_okI)
  show ?thesis
  proof (cases "?sid = 0 \<or> even (unat ?sid) \<or> ?sid > maxClientStreamID c \<or> stripPadding payload (flags fh) = None \<or> ?F > c_receiveWindow c")
    case True
    then consider "?sid = 0 \<or> even (unat ?sid) \<or> ?sid > maxClientStreamID c"
      | "\<not> (?sid = 0 \<or> even (unat ?sid) \<or> ?sid > maxClientStreamID c)" "stripPadding payload (flags fh) = None"
      | a where "\<not> (?sid = 0 \<or> even (unat ?sid) \<or> ?sid > maxClientStreamID c)" "stripPadding payload (flags fh) = Some a"
          "?F > c_receiveWindow c" by fastforce
    then show ?thesis using k by cases (simp_all add: handleData_def Let_def case_prod_unfold)
  next
    case False
    then obtain data pad where strip: "stripPadding payload (flags fh) = Some (data, pad)" by auto
    have F: "?F = int (length data) + int pad"
    proof -
      have "length data + pad = length payload"
        using strip by (auto simp: stripPadding_def Let_def sub_bytes_def split: if_splits)
      moreover have "?F = int (unat (fh_length fh))" 
      proof -
        have "uint (fh_length fh) \<le> 16777215" using len(2) by (simp only: maxFrameSizeLimit_def unat_eq_nat_uint nat_le_iff of_nat_numeral)
        then have "uint (fh_length fh) < 2 ^ 31" by (rule le_less_trans) simp
        moreover have "- (2 ^ 31) \<le> uint (fh_length fh)" by (rule order_trans [OF _ uint_ge_0]) simp
        ultimately have "?F = uint (fh_length fh)" by (intro i32_small)
        then show ?thesis by simp
      qed
      ultimately show ?thesis using len(1) by (metis of_nat_add)
    qed
    have c1: "h2_inv ?F ?c1" using inv False F by (intro inv_receive) simp_all
    have un: "h2_inv 0 (addUnacked ?F ?c1)" using inv_addUnacked [OF c1, of ?F] F by simp
    let ?s = "objs c ?sid"
    let ?fin = "flags fh AND flagEndStream \<noteq> 0" and ?total = "receivedBytes ?s + int (length data)"
    let ?c2 = "upd ?sid (\<lambda>s. s\<lparr>receiveWindow := i32 (receiveWindow s - ?F)\<rparr>) ?c1"
    consider (none) "?sid \<notin> set (streams c)"
      | (closed) "?sid \<in> set (streams c)" "st_state ?s = StreamHalfClosedRemote \<or> st_state ?s = StreamClosed \<or> gotTrailers ?s"
      | (window) "?sid \<in> set (streams c)" "\<not> (st_state ?s = StreamHalfClosedRemote \<or> st_state ?s = StreamClosed \<or> gotTrailers ?s)"
          "?F > receiveWindow ?s"
      | (mismatch) "?sid \<in> set (streams c)" "\<not> (st_state ?s = StreamHalfClosedRemote \<or> st_state ?s = StreamClosed \<or> gotTrailers ?s)"
          "?F \<le> receiveWindow ?s" "declaredLength ?s \<ge> 0 \<and> (?total > declaredLength ?s \<or> ?fin \<and> ?total \<noteq> declaredLength ?s)"
      | (ok) "?sid \<in> set (streams c)" "\<not> (st_state ?s = StreamHalfClosedRemote \<or> st_state ?s = StreamClosed \<or> gotTrailers ?s)"
          "?F \<le> receiveWindow ?s" "\<not> (declaredLength ?s \<ge> 0 \<and> (?total > declaredLength ?s \<or> ?fin \<and> ?total \<noteq> declaredLength ?s))"
      by fastforce
    then show ?thesis
    proof cases
      case none
      then show ?thesis
        using False un nb by (simp add: handleData_def Let_def case_prod_unfold strip handled_okI inv_take inv_tokens)
    next
      case closed
      then show ?thesis
        using False inv_failStream [OF un] nb by (simp add: handleData_def Let_def case_prod_unfold strip handled_okI)
    next
      case window
      then show ?thesis
        using False inv_failStream [OF un] nb by (simp add: handleData_def Let_def case_prod_unfold strip handled_okI)
    next
      case mismatch
      have "h2_inv 0 (upd ?sid (\<lambda>s. s\<lparr>receiveWindow := i32 (receiveWindow s - ?F)\<rparr>) (addUnacked ?F ?c1))"
      proof (rule inv_upd [OF un])
        have "stream_ok (InitialWindowSize (opts c)) ?s" "InitialWindowSize (opts c) \<le> maxWindowSize"
          using stream_of(1,4) [OF inv] by (simp_all add: opts_ok_def)
        moreover from this have "i32 (receiveWindow ?s - ?F) = receiveWindow ?s - ?F"
          using mismatch(3) F by (intro i32_window) (simp_all add: stream_ok_def recv_ok_def)
        ultimately show "stream_ok (InitialWindowSize (opts (addUnacked ?F ?c1)))
            ((objs (addUnacked ?F ?c1) ?sid)\<lparr>receiveWindow := i32 (receiveWindow (objs (addUnacked ?F ?c1) ?sid) - ?F)\<rparr>)"
          using mismatch(3) F stream_ok_less [of "InitialWindowSize (opts c)" ?s "receiveWindow ?s - ?F"] by simp
      qed (simp_all add: unread_def)
      moreover have "addUnacked ?F ?c2 = upd ?sid (\<lambda>s. s\<lparr>receiveWindow := i32 (receiveWindow s - ?F)\<rparr>) (addUnacked ?F ?c1)"
        by (simp add: addUnacked_def upd_def)
      ultimately have "h2_inv 0 (addUnacked ?F ?c2)" by simp
      from inv_failStream [OF this] show ?thesis
        using False mismatch nb by (simp add: handleData_def Let_def case_prod_unfold strip handled_okI)
    next
      case ok
      have st: "st_state ?s = StreamOpen"
        using ok(2) stream_of(1) [OF inv, of ?sid] by (cases "st_state ?s") (auto simp: stream_ok_def state_ok_def)
      let ?t = "taken_in ?sid ?F data pad ?fin ?c1"
      have t: "h2_inv 0 ?t" using c1 ok(1,3,4) st F by (intro inv_taken_in) simp_all
      have nbt: "\<not> broken ?t" using nb by (simp add: taken_in_def)
      let ?u = "fst (takeConnWindowUpdateLocked ?t)"
      have u: "h2_inv 0 ?u" "\<not> broken ?u" using t nbt by (simp_all add: inv_take)
      let ?v = "upd ?sid (\<lambda>s. s\<lparr>receiveWindow := i32 (receiveWindow s + unackedBytes s), unackedBytes := 0\<rparr>) ?u"
      have v: "h2_inv 0 (upd ?sid wakeReaderLocked ?u)" "h2_inv 0 (upd ?sid wakeReaderLocked ?v)"
        by (intro inv_upd_same u(1) inv_ack; simp)+
      have "st_state (objs ?c1 ?sid) = StreamOpen" using st by simp
      note eq = taken_in_eq [OF this, of ?F data pad ?fin]
      have "fst (handleData fh payload out c) = upd ?sid wakeReaderLocked ?u \<or> fst (handleData fh payload out c) = upd ?sid wakeReaderLocked ?v"
        using False ok st eq by (simp add: handleData_def ack_data_def Let_def case_prod_unfold strip) blast
      then show ?thesis
      proof
        assume e: "fst (handleData fh payload out c) = upd ?sid wakeReaderLocked ?u"
        show ?thesis unfolding e by (rule handled_okI [OF v(1)]) (simp only: upd_simps u(2) not_False_eq_True)
      next
        assume e: "fst (handleData fh payload out c) = upd ?sid wakeReaderLocked ?v"
        show ?thesis unfolding e by (rule handled_okI [OF v(2)]) (simp only: upd_simps u(2) not_False_eq_True)
      qed
    qed
  qed
qed

section \<open>Header blocks\<close>

lemma emit_id: "hb_streamID (fst (emit f b)) = hb_streamID b \<and> isTrailer (fst (emit f b)) = isTrailer b"
  by (auto simp: emit_def set_pseudo_def Let_def split: option.splits if_splits)

lemma emit_all_id: "hb_streamID (fst (emit_all fs b)) = hb_streamID b \<and> isTrailer (fst (emit_all fs b)) = isTrailer b"
  by (induction fs arbitrary: b) (simp_all add: emit_id case_prod_unfold Let_def)

lemma inv_builder:
  assumes "h2_inv d c" and "hb_streamID b = hb_streamID (builder c)" and "isTrailer b = isTrailer (builder c)"
  shows "h2_inv d (c\<lparr>builder := b\<rparr>)"
  using assms by (simp add: h2_inv_def table_ok_def flow_ok_def waiting_bytes_def limits_ok_def block_ok_def)

lemma decoder_Write_eq:
  "\<exists>b e d. fst (decoder_Write E frag c) = c\<lparr>builder := b, emitEnabled := e, decoder := d\<rparr> \<and>
     hb_streamID b = hb_streamID (builder c) \<and> isTrailer b = isTrailer (builder c)"
  using emit_all_id unfolding decoder_Write_def Let_def case_prod_unfold fst_conv by blast

text \<open>An open stream whose request ends.\<close>

lemma stream_ok_ended:
  assumes "stream_ok W s" and "st_state s = StreamOpen" and "0 \<le> declaredLength s \<Longrightarrow> receivedBytes s = declaredLength s"
  shows "stream_ok W (s\<lparr>eof := True, st_state := StreamHalfClosedRemote\<rparr>)"
proof -
  have "unread (s\<lparr>eof := True, st_state := StreamHalfClosedRemote\<rparr>) = unread s" by (simp add: unread_def)
  with assms show ?thesis by (simp add: stream_ok_def recv_ok_def body_ok_def state_ok_def)
qed

lemma finishTrailer_ok:
  assumes inv: "h2_inv 0 c" and nb: "\<not> broken c"
  shows "handled_ok (fst (finishTrailerBlock sid out c)) (snd (snd (finishTrailerBlock sid out c)))"
proof (cases "sid \<in> set (streams c)")
  case True
  let ?s = "objs c sid"
  have fail: "h2_inv 0 (fst (failStreamLocked sid rerr code out c))" for rerr code by (rule inv_failStream [OF inv True])
  have tr: "h2_inv 0 (upd sid (\<lambda>s. s\<lparr>st_trailer := t\<rparr>) c)" for t
    by (rule inv_upd_same [OF inv]) (simp add: same_stream_def)
  have ftr: "h2_inv 0 (fst (failStreamLocked sid rerr code out (upd sid (\<lambda>s. s\<lparr>st_trailer := t\<rparr>) c)))" for t rerr code
    by (rule inv_failStream [OF tr]) (use True in simp)
  have "h2_inv 0 (upd sid (\<lambda>s. wakeReaderLocked (s\<lparr>st_trailer := t, gotTrailers := True, eof := True, st_state := StreamHalfClosedRemote\<rparr>)) c)"
    if "st_state ?s = StreamOpen" "\<not> (declaredLength ?s \<ge> 0 \<and> receivedBytes ?s \<noteq> declaredLength ?s)" for t
  proof (rule inv_upd [OF inv])
    let ?e = "?s\<lparr>eof := True, st_state := StreamHalfClosedRemote\<rparr>"
    have ok: "stream_ok (InitialWindowSize (opts c)) ?e"
      by (rule stream_ok_ended [OF stream_of(1) [OF inv]]) (use that in auto)
    have same: "same_stream ?e (wakeReaderLocked (?s\<lparr>st_trailer := t, gotTrailers := True, eof := True, st_state := StreamHalfClosedRemote\<rparr>))"
      by (simp add: same_stream_def wakeReaderLocked_def)
    show "stream_ok (InitialWindowSize (opts c))
        (wakeReaderLocked (?s\<lparr>st_trailer := t, gotTrailers := True, eof := True, st_state := StreamHalfClosedRemote\<rparr>))"
      using same_stream_ok [OF same] ok by blast
  qed (use that in \<open>simp_all add: unread_def wakeReaderLocked_def\<close>)
  note ended = this
  have st: "st_state ?s = StreamOpen \<or> st_state ?s = StreamHalfClosedRemote"
    using stream_of(1,2) [OF inv, of sid] True by (cases "st_state ?s") (auto simp: stream_ok_def state_ok_def)
  show ?thesis
  proof (cases "gotTrailers ?s \<or> st_state ?s = StreamHalfClosedRemote")
    case t: True
    then show ?thesis
      using inv nb fail True by (cases "gotTrailers ?s") (simp_all add: finishTrailerBlock_def Let_def case_prod_unfold handled_okI)
  next
    case False
    then show ?thesis
      using nb fail ftr ended True st
      by (cases "buildTrailers (builder c) (st_trailer ?s)"; cases "declaredLength ?s \<ge> 0 \<and> receivedBytes ?s \<noteq> declaredLength ?s")
        (simp_all add: finishTrailerBlock_def Let_def case_prod_unfold upd_upd handled_okI)
  qed
qed (use assms in \<open>simp add: finishTrailerBlock_def Let_def handled_okI\<close>)

lemma parsed_length: "buildRequest uri b = Parsed rq \<Longrightarrow> streamEnded b \<Longrightarrow> rq_contentLength rq = 0"
  by (erule buildRequest_Parsed) (auto dest!: request_length_facts)

lemma encoder_eq: "\<exists>u m e. encoderLocked c = c\<lparr>headerTableSizeUpdated := u, minHeaderTableSize := m, encoder := e\<rparr>"
proof (cases "headerTableSizeUpdated c")
  case False
  then have "encoderLocked c = c\<lparr>headerTableSizeUpdated := headerTableSizeUpdated c, minHeaderTableSize := minHeaderTableSize c,
      encoder := Some (case encoder c of None \<Rightarrow> [] | Some h \<Rightarrow> h)\<rparr>"
    by (simp add: encoderLocked_def)
  then show ?thesis by blast
next
  case True
  have swap: "d\<lparr>headerTableSizeUpdated := u, encoder := e, minHeaderTableSize := m\<rparr> =
      d\<lparr>headerTableSizeUpdated := u, minHeaderTableSize := m, encoder := e\<rparr>" for d :: h2_conn and u e m by simp
  show ?thesis unfolding encoderLocked_def Let_def if_P [OF True] swap by blast
qed

lemma encode_eq: "\<exists>e. snd (encodeResponseHeadersLocked E status flds ct cl dt c) = c\<lparr>encoder := e\<rparr>"
  unfolding encodeResponseHeadersLocked_def Let_def case_prod_unfold snd_conv by blast

lemma encode_simps [simp]:
  "h2_inv d (encoderLocked c) = h2_inv d c" "broken (encoderLocked c) = broken c" "objs (encoderLocked c) = objs c"
  "peerMaxFrameSize (encoderLocked c) = peerMaxFrameSize c" "c_sendWindow (encoderLocked c) = c_sendWindow c"
  "streams (encoderLocked c) = streams c" "maxClientStreamID (encoderLocked c) = maxClientStreamID c"
  "h_failed (encoderLocked c) = h_failed c" "h_wire (encoderLocked c) = h_wire c" "opts (encoderLocked c) = opts c"
  "h_writable (encoderLocked c) = h_writable c" "resetTokens (encoderLocked c) = resetTokens c" "h_closed (encoderLocked c) = h_closed c"
  "peerInitialWindowSize (encoderLocked c) = peerInitialWindowSize c" "c_granted (encoderLocked c) = c_granted c"
  using encoder_eq [of c] by auto

lemma encode_headers_simps [simp]:
  "h2_inv d (snd (encodeResponseHeadersLocked E status flds ct cl dt c)) = h2_inv d c"
  "broken (snd (encodeResponseHeadersLocked E status flds ct cl dt c)) = broken c"
  "objs (snd (encodeResponseHeadersLocked E status flds ct cl dt c)) = objs c"
  "streams (snd (encodeResponseHeadersLocked E status flds ct cl dt c)) = streams c"
  "h_failed (snd (encodeResponseHeadersLocked E status flds ct cl dt c)) = h_failed c"
  "h_wire (snd (encodeResponseHeadersLocked E status flds ct cl dt c)) = h_wire c"
  "opts (snd (encodeResponseHeadersLocked E status flds ct cl dt c)) = opts c"
  "c_sendWindow (snd (encodeResponseHeadersLocked E status flds ct cl dt c)) = c_sendWindow c"
  "c_granted (snd (encodeResponseHeadersLocked E status flds ct cl dt c)) = c_granted c"
  "maxClientStreamID (snd (encodeResponseHeadersLocked E status flds ct cl dt c)) = maxClientStreamID c"
  using encode_eq [of E status flds ct cl dt c] by auto

lemma engine_Write_simps [simp]:
  "broken (fst (engine_Write fs c)) = broken c" "objs (fst (engine_Write fs c)) = objs c" "streams (fst (engine_Write fs c)) = streams c"
  "opts (fst (engine_Write fs c)) = opts c" "c_sendWindow (fst (engine_Write fs c)) = c_sendWindow c"
  "c_granted (fst (engine_Write fs c)) = c_granted c" "maxClientStreamID (fst (engine_Write fs c)) = maxClientStreamID c"
  "goingAway (fst (engine_Write fs c)) = goingAway c" "h_failed (fst (engine_Write fs c)) = h_failed c"
  by (simp_all add: engine_eq)

lemma inv_spend:
  assumes "h2_inv d c" and "0 \<le> n" and "n \<le> c_sendWindow c" shows "h2_inv d (c\<lparr>c_sendWindow := c_sendWindow c - n\<rparr>)"
  using assms by (simp add: h2_inv_def table_ok_def flow_ok_def waiting_bytes_def limits_ok_def block_ok_def)

lemma replyErrorStatus_ok:
  assumes "h2_inv d c" and "sid \<le> maxClientStreamID c"
  shows "h2_inv d (replyErrorStatus E sid code ended c)" "broken (replyErrorStatus E sid code ended c) = broken c"
proof -
  define c1 where "c1 = encoderLocked (if \<not> ended then noteServerResetLocked sid c else c)"
  have c1: "h2_inv d c1" "broken c1 = broken c" using assms by (simp_all add: c1_def inv_note)
  have sp: "h2_inv d (c1\<lparr>c_sendWindow := c_sendWindow c1 - n\<rparr>)" if "0 \<le> n" "n \<le> c_sendWindow c1" for n
    using inv_spend [OF c1(1) that] .
  show "h2_inv d (replyErrorStatus E sid code ended c)" "broken (replyErrorStatus E sid code ended c) = broken c"
    unfolding replyErrorStatus_def Let_def case_prod_unfold c1_def [symmetric] using assms(1) c1 sp by (simp_all add: Let_def)
qed

text \<open>A new stream.\<close>

lemma stream_ok_new:
  assumes "0 < W" and "W \<le> maxWindowSize" and "ended \<Longrightarrow> len \<le> 0" and "0 \<le> w" and "w \<le> maxWindowSize"
  shows "stream_ok W (new_stream w (i32 W) len ended expect t)"
  using assms by (auto simp: stream_ok_def recv_ok_def body_ok_def state_ok_def new_stream_def unread_def)

lemma openStream_ok:
  assumes inv: "h2_inv 0 c" and sid: "sid \<notin> set (streams c)" "sid \<le> maxClientStreamID c" "odd (unat sid)"
    and room: "activeStreams c < MaxConcurrentStreams (opts c)"
    and rq: "streamEnded (builder c) \<Longrightarrow> rq_contentLength rq = 0"
  shows "h2_inv 0 (fst (openStream sid rq c))" "broken (fst (openStream sid rq c)) = broken c"
proof -
  let ?s = "new_stream (peerInitialWindowSize c) (i32 (InitialWindowSize (opts c))) (rq_contentLength rq)
                  (streamEnded (builder c)) (rq_expectContinue rq) (rq_trailer rq)"
  let ?c1 = "c\<lparr>objs := (objs c)(sid := ?s), streams := streams c @ [sid], activeStreams := activeStreams c + 1\<rparr>"
  have s: "stream_ok (InitialWindowSize (opts c)) ?s"
    by (rule stream_ok_new) (use inv rq in \<open>auto simp: h2_inv_def table_ok_def opts_ok_def limits_ok_def\<close>)
  have st: "st_state ?s \<noteq> StreamClosed" "unread ?s = 0" "sendWindow ?s = peerInitialWindowSize c"
    by (simp_all add: new_stream_def unread_def)
  have "table_ok ?c1" using inv sid room s st(1) by (auto simp: h2_inv_def table_ok_def)
  moreover have "waiting_bytes ?c1 = waiting_bytes c"
  proof -
    have "(\<Sum>x\<leftarrow>streams c. int (unread (((objs c)(sid := ?s)) x))) = (\<Sum>x\<leftarrow>streams c. int (unread (objs c x)))"
      using sid(1) by (intro arg_cong [of _ _ sum_list] map_cong) auto
    then show ?thesis using st(2) by (simp add: waiting_bytes_def)
  qed
  then have "flow_ok 0 ?c1" using inv by (simp add: h2_inv_def flow_ok_def)
  moreover have "limits_ok ?c1" using inv st(3) by (auto simp: h2_inv_def limits_ok_def maxWindowSize_def)
  moreover have "block_ok ?c1" using inv by (simp add: h2_inv_def block_ok_def)
  ultimately have "h2_inv 0 ?c1" by (simp add: h2_inv_def)
  with inv show "h2_inv 0 (fst (openStream sid rq c))" "broken (fst (openStream sid rq c)) = broken c"
    by (cases "activeStreams c = 0"; simp add: openStream_def Let_def)+
qed

lemma inv_client:
  assumes "h2_inv d c" and "maxClientStreamID c \<le> sid" and "continuationStreamID c = 0"
  shows "h2_inv d (c\<lparr>maxClientStreamID := sid\<rparr>)"
  using assms by (auto simp: h2_inv_def table_ok_def flow_ok_def waiting_bytes_def limits_ok_def block_ok_def intro: order_trans)

lemma replenish_simps [simp]:
  "opts (replenishControlTokens n c) = opts c" "streams (replenishControlTokens n c) = streams c"
  "maxClientStreamID (replenishControlTokens n c) = maxClientStreamID c" "broken (replenishControlTokens n c) = broken c"
  "goingAway (replenishControlTokens n c) = goingAway c" "builder (replenishControlTokens n c) = builder c"
  "activeStreams (replenishControlTokens n c) = activeStreams c" "objs (replenishControlTokens n c) = objs c"
  "h_wire (replenishControlTokens n c) = h_wire c"
  by (simp_all add: replenishControlTokens_def)

lemma refuse_ok:
  "h2_inv 0 c \<Longrightarrow> \<not> broken c \<Longrightarrow> handled_ok (fst (refuse sid code out c)) (snd (snd (snd (refuse sid code out c))))"
  by (simp add: refuse_def Let_def case_prod_unfold handled_okI inv_tokens)

lemma finishHeaderBlock_ok:
  assumes inv: "h2_inv 0 c" and nb: "\<not> broken c" and cont: "continuationStreamID c = 0"
    and sid: "odd (unat (hb_streamID (builder c)))" "\<not> isTrailer (builder c) \<Longrightarrow> maxClientStreamID c < hb_streamID (builder c)"
  shows "handled_ok (fst (finishHeaderBlock E out c)) (snd (snd (snd (finishHeaderBlock E out c))))"
proof -
  let ?sid = "hb_streamID (builder c)"
  define c0 where "c0 = c\<lparr>decoder := Some ((case decoder c of None \<Rightarrow> [] | Some h \<Rightarrow> h) @ [Dec_Close])\<rparr>"
  have c0: "h2_inv 0 c0" "\<not> broken c0" "builder c0 = builder c" using inv nb by (simp_all add: c0_def)
  define c1 where "c1 = replenishControlTokens 2 (c0\<lparr>maxClientStreamID := ?sid\<rparr>)"
  have main: "h2_inv 0 c1 \<and> \<not> broken c1 \<and> builder c1 = builder c \<and> ?sid \<notin> set (streams c1) \<and> ?sid \<le> maxClientStreamID c1"
    if "\<not> isTrailer (builder c)"
  proof (intro conjI)
    have "h2_inv 0 (c0\<lparr>maxClientStreamID := ?sid\<rparr>)"
      using sid(2) [OF that] cont by (intro inv_client [OF c0(1)]) (simp_all add: c0_def)
    then show "h2_inv 0 c1" by (simp add: c1_def inv_tokens)
    have "?sid \<notin> set (streams c)" using stream_of(3) [OF inv, of ?sid] sid(2) [OF that] by auto
    then show "?sid \<notin> set (streams c1)" by (simp add: c1_def c0_def)
  qed (simp_all add: c1_def c0(2,3))
  have op: "handled_ok (fst (openStream ?sid rq c1)) errCodeNo"
    if "\<not> isTrailer (builder c)" "activeStreams c1 < MaxConcurrentStreams (opts c1)" "buildRequest (uri_valid E) (builder c1) = Parsed rq" for rq
    using main [OF that(1)] that openStream_ok [of c1 ?sid rq] sid(1) parsed_length [OF that(3)] by (simp add: handled_okI)
  have re: "handled_ok (replyErrorStatus E ?sid code ended c1) errCodeNo" if "\<not> isTrailer (builder c)" for code ended
    using main [OF that] replyErrorStatus_ok [of 0 c1 ?sid E code ended] by (simp add: handled_okI)
  have rf: "handled_ok (fst (refuse ?sid code out c1)) (snd (snd (snd (refuse ?sid code out c1))))" if "\<not> isTrailer (builder c)" for code
    using main [OF that] refuse_ok [of c1 ?sid code out] by simp
  have k: "handled_ok c0 code" for code using c0 by (simp add: handled_okI)
  have b1: "builder c1 = builder c" by (simp add: c1_def c0_def)
  show ?thesis
  proof (cases "isTrailer (builder c) \<or> \<not> dec_close E (case decoder c of None \<Rightarrow> [] | Some h \<Rightarrow> h)")
    case True
    then show ?thesis
      using k finishTrailer_ok [OF c0(1,2), of ?sid out] c0(3)
      unfolding finishHeaderBlock_def Let_def case_prod_unfold c0_def [symmetric] by auto
  next
    case False
    then show ?thesis
      using main op re rf b1
      unfolding finishHeaderBlock_def Let_def case_prod_unfold c0_def [symmetric] c0(3) c1_def [symmetric]
      by (auto simp: handled_okI not_le split: parsedRequest.split)
  qed
qed

lemma handleHeaders_ok:
  assumes inv: "h2_inv 0 c" and nb: "\<not> broken c" and cont: "continuationStreamID c = 0"
  shows "handled_ok (fst (handleHeaders E fh payload out c)) (snd (snd (snd (handleHeaders E fh payload out c))))"
proof -
  have k: "handled_ok c code" for code using inv nb by (rule handled_okI)
  let ?sid = "streamID fh"
  show ?thesis
  proof (cases "?sid = 0 \<or> even (unat ?sid) \<or> stripPadding payload (flags fh) = None")
    case True
    then show ?thesis using k by (cases "?sid = 0 \<or> even (unat ?sid)") (auto simp: handleHeaders_def Let_def)
  next
    case False
    then obtain frag0 pad where strip: "stripPadding payload (flags fh) = Some (frag0, pad)" by auto
    define prio where "prio \<longleftrightarrow> flags fh AND flagPriority \<noteq> 0"
    define frag where "frag = (if prio then drop 5 frag0 else frag0)"
    define trailer where "trailer \<longleftrightarrow> ?sid \<in> set (streams c) \<or> ?sid \<notin> set (streams c) \<and> wasRecentlyResetLocked ?sid c"
    define self where "self \<longleftrightarrow> prio \<and> be_word (sub_bytes frag0 0 4) AND 0x7fffffff = ?sid"
    define c1 where "c1 = c\<lparr>builder := hb_reset ?sid (of_nat (MaxHeaderBytes (opts c))) trailer (flags fh AND flagEndStream \<noteq> 0) self,
       decoder := Some ((case decoder c of None \<Rightarrow> [] | Some h \<Rightarrow> h) @ [Dec_Emit True]), emitEnabled := True\<rparr>"
    have c1: "h2_inv 0 c1"
      using inv cont by (simp add: c1_def h2_inv_def table_ok_def flow_ok_def waiting_bytes_def limits_ok_def block_ok_def)
    define c2 where "c2 = fst (decoder_Write E frag c1)"
    obtain b e d where c2: "c2 = c1\<lparr>builder := b, emitEnabled := e, decoder := d\<rparr>" 
      and b0: "hb_streamID b = hb_streamID (builder c1)" "isTrailer b = isTrailer (builder c1)"
      using decoder_Write_eq [of E frag c1] by (auto simp: c2_def)
    then have b: "hb_streamID b = ?sid" "isTrailer b = trailer" by (simp_all add: c1_def hb_reset_def)
    have "h2_inv 0 c2" using inv_builder [OF c1 b0] by (simp add: c2)
    then have i2: "h2_inv 0 c2" "\<not> broken c2" "continuationStreamID c2 = 0" "builder c2 = b" "maxClientStreamID c2 = maxClientStreamID c"
      using nb cont by (simp_all add: c2 c1_def hb_reset_def)
    have blk: "h2_inv 0 (c2\<lparr>continuationStreamID := ?sid, continuationFrames := 0\<rparr>)" if "\<not> (\<not> trailer \<and> ?sid \<le> maxClientStreamID c)"
      using i2(1,3-5) that False b
      by (auto simp: h2_inv_def table_ok_def flow_ok_def waiting_bytes_def limits_ok_def block_ok_def)
    have fin: "handled_ok (fst (finishHeaderBlock E out c2)) (snd (snd (snd (finishHeaderBlock E out c2))))"
      if "\<not> (\<not> trailer \<and> ?sid \<le> maxClientStreamID c)"
      using i2 b False that by (intro finishHeaderBlock_ok) auto
    from False have sid: "\<not> (?sid = 0 \<or> even (unat ?sid))" by blast
    have "handleHeaders E fh payload out c =
       (if prio \<and> length frag0 < 5 then (c, out, None, errCodeFrameSize)
        else if \<not> trailer \<and> ?sid \<le> maxClientStreamID c then (c, out, None, errCodeProtocol)
        else if \<not> snd (decoder_Write E frag c1) then (c2, out, None, errCodeCompression)
        else if flags fh AND flagEndHeaders = 0 then (c2\<lparr>continuationStreamID := ?sid, continuationFrames := 0\<rparr>, out, None, errCodeNo)
        else finishHeaderBlock E out c2)"
      unfolding handleHeaders_def Let_def strip option.case prod.case if_not_P [OF sid] case_prod_unfold fst_conv
        prio_def frag_def trailer_def self_def c1_def c2_def by (rule refl)
    then show ?thesis using k blk fin i2(1,2) by (simp add: handled_okI)
  qed
qed

lemma handleContinuation_ok:
  assumes inv: "h2_inv 0 c" and nb: "\<not> broken c" and cont: "continuationStreamID c \<noteq> 0"
  shows "handled_ok (fst (handleContinuation E fh payload out c)) (snd (snd (snd (handleContinuation E fh payload out c))))"
proof -
  define c1 where "c1 = c\<lparr>continuationFrames := continuationFrames c + 1\<rparr>"
  have c1: "h2_inv 0 c1" "\<not> broken c1" using inv nb by (simp_all add: c1_def)
  define c2 where "c2 = fst (decoder_Write E payload c1)"
  obtain b e d where c2: "c2 = c1\<lparr>builder := b, emitEnabled := e, decoder := d\<rparr>"
    and b0: "hb_streamID b = hb_streamID (builder c1)" "isTrailer b = isTrailer (builder c1)"
    using decoder_Write_eq [of E payload c1] by (auto simp: c2_def)
  then have b: "hb_streamID b = hb_streamID (builder c)" "isTrailer b = isTrailer (builder c)" by (simp_all add: c1_def)
  have i2: "h2_inv 0 c2" "\<not> broken c2" using inv_builder [OF c1(1) b0] c1(2) by (simp_all add: c2)
  let ?c3 = "c2\<lparr>continuationStreamID := 0, continuationFrames := 0\<rparr>"
  have "h2_inv 0 ?c3" using i2(1) by (simp add: h2_inv_def table_ok_def flow_ok_def waiting_bytes_def limits_ok_def block_ok_def)
  then have "handled_ok (fst (finishHeaderBlock E out ?c3)) (snd (snd (snd (finishHeaderBlock E out ?c3))))"
    using inv cont b nb by (intro finishHeaderBlock_ok) (auto simp: c2 c1_def h2_inv_def block_ok_def)
  then show ?thesis
    unfolding handleContinuation_def Let_def c1_def [symmetric] case_prod_unfold c2_def [symmetric]
    using c1 i2 by (simp add: handled_okI)
qed

section \<open>Frames\<close>

lemma no_stream_eq [simp]: "fst (no_stream r) = fst r" "fst (snd (no_stream r)) = fst (snd r)" "fst (snd (snd (no_stream r))) = None"
  "snd (snd (snd (no_stream r))) = snd (snd r)"
  by (simp_all add: no_stream_def case_prod_unfold)

theorem handleFrame_ok:
  assumes "h2_inv 0 c" and "\<not> broken c" and "length payload = unat (fh_length fh)" "unat (fh_length fh) \<le> maxFrameSizeLimit"
  shows "handled_ok (fst (handleFrame E fh payload out c)) (snd (snd (snd (handleFrame E fh payload out c))))"
  using handleData_ok [OF assms] handleHeaders_ok [OF assms(1,2)] handleContinuation_ok [OF assms(1,2)] handlePing_ok [OF assms(1,2)]
    handleSettings_ok [OF assms(1,2)] handleRSTStream_ok [OF assms(1,2)] handleWindowUpdate_ok [OF assms(1,2)]
    handled_okI [OF assms(1,2)]
  unfolding handleFrame_def by simp

lemma abort_simps [simp]:
  "broken (fst (abortInOnData code out c))" "snd (abortInOnData code out c) = out @ [F_GoAway (maxClientStreamID c) code]"
  by (simp_all add: abortInOnData_def Let_def)

lemma inv_abort: "h2_inv 0 (c\<lparr>broken := True\<rparr>) \<Longrightarrow> h2_inv 0 (fst (abortInOnData code out c))"
proof -
  assume a: "h2_inv 0 (c\<lparr>broken := True\<rparr>)"
  have "fst (abortInOnData code out c) = c\<lparr>broken := True\<rparr>\<lparr>goingAway := True\<rparr>" by (simp add: abortInOnData_def Let_def)
  then show ?thesis using a by (simp only: inv_frame)
qed

lemma next_frame_ok:
  assumes inv: "h2_inv 0 c" and nb: "\<not> broken c" and e: "next_frame E data k c = Some (rest, k1, c1, go)"
  shows "h2_inv 0 c1 \<and> (go \<longleftrightarrow> \<not> broken c1)"
proof -
  define fh where "fh = parseFrameHeader data"
  define r where "r = handleFrame E fh (sub_bytes data frameHeaderLen (frameHeaderLen + unat (fh_length fh))) (outControl k) c"
  have len: "frameHeaderLen \<le> length data" using e by (auto simp: next_frame_def split: if_splits)
  have M: "MaxReadFrameSize (opts c) \<le> maxFrameSizeLimit" using stream_of(4) [OF inv] by (simp add: opts_ok_def)
  have ab: "h2_inv 0 (fst (abortInOnData code out c))" for code out using inv_abort inv_broken [OF inv] by blast
  show ?thesis
  proof (cases "unat (fh_length fh) > MaxReadFrameSize (opts c)")
    case True
    then have "c1 = fst (abortInOnData errCodeFrameSize (outControl k) c)" "\<not> go"
      using e len by (auto simp: next_frame_def Let_def fh_def [symmetric] case_prod_unfold)
    with ab show ?thesis by simp
  next
    case False
    with e len have full: "frameHeaderLen + unat (fh_length fh) \<le> length data"
      by (auto simp: next_frame_def Let_def fh_def [symmetric] split: if_splits)
    then have ok: "handled_ok (fst r) (snd (snd (snd r)))"
      unfolding r_def using False M by (intro handleFrame_ok inv nb) (simp_all add: sub_bytes_def)
    show ?thesis
    proof (cases "snd (snd (snd r)) = errCodeNo")
      case True
      then have "c1 = fst r" "go"
        using e len False full by (auto simp: next_frame_def Let_def case_prod_unfold fh_def [symmetric] r_def [symmetric])
      with ok True show ?thesis by (simp add: handled_ok_def)
    next
      case err: False
      then have "c1 = fst (abortInOnData (snd (snd (snd r))) (fst (snd r)) (fst r))" "\<not> go"
        using e len False full by (auto simp: next_frame_def Let_def case_prod_unfold fh_def [symmetric] r_def [symmetric])
      with ok inv_abort show ?thesis by (auto simp: handled_ok_def)
    qed
  qed
qed

section \<open>The handlers' side\<close>

lemma inv_consume:
  assumes inv: "h2_inv d c" and n: "0 \<le> n" "n \<le> d"
    and room: "receiveWindow (objs c sid) + unackedBytes (objs c sid) + n + int (unread (objs c sid)) \<le> InitialWindowSize (opts c)"
  shows "h2_inv (d - n) (fst (consumeReceiveBytesLocked sid n c))"
proof -
  define c1 where "c1 = fst (takeConnWindowUpdateLocked (addUnacked n c))"
  have c1: "h2_inv (d - n) c1" unfolding c1_def by (intro inv_take inv_addUnacked inv n)
  have o: "objs c1 = objs c" "opts c1 = opts c" by (simp_all add: c1_def)
  have ok: "stream_ok (InitialWindowSize (opts c)) (objs c sid)" and W: "InitialWindowSize (opts c) \<le> maxWindowSize"
    using stream_of(1,4) [OF inv] by (simp_all add: opts_ok_def)
  note a = stream_ok_ack [OF ok W n(1) room]
  let ?u = "i32 (unackedBytes (objs c sid) + n)"
  have "h2_inv (d - n) (upd sid (\<lambda>s. s\<lparr>receiveWindow := i32 (receiveWindow s + ?u), unackedBytes := 0\<rparr>) c1)"
    using a(1) by (intro inv_upd [OF c1]) (simp_all add: o unread_def)
  moreover have "h2_inv (d - n) (upd sid (\<lambda>s. s\<lparr>unackedBytes := ?u\<rparr>) c1)"
    using a(2) by (intro inv_upd [OF c1]) (simp_all add: o unread_def)
  ultimately show ?thesis
    using c1 unfolding consumeReceiveBytesLocked_def Let_def case_prod_unfold c1_def [symmetric] o by simp
qed

lemma sendWindowUpdates_ok [simp]: "h2_inv d (sendWindowUpdates sid a b c) = h2_inv d c" "objs (sendWindowUpdates sid a b c) = objs c"
  by (simp_all add: sendWindowUpdates_def)

text \<open>Reading \<open>n\<close> bytes.\<close>

lemma read_out_simps:
  assumes "n \<le> unread s" and "bodyPos s \<le> length (bodyBuf s)"
  shows "unread (read_out n s) = unread s - n" "bodyPos (read_out n s) \<le> length (bodyBuf (read_out n s))"
    "drop (bodyPos (read_out n s)) (bodyBuf (read_out n s)) = drop n (drop (bodyPos s) (bodyBuf s))"
    "bodyOut (read_out n s) = bodyOut s @ take n (drop (bodyPos s) (bodyBuf s))"
  using assms by (auto simp: read_out_def Let_def unread_def add.commute)

lemma read_out_frame [simp]:
  "sendWindow (read_out n s) = sendWindow s" "receiveWindow (read_out n s) = receiveWindow s" "unackedBytes (read_out n s) = unackedBytes s"
  "receivedBytes (read_out n s) = receivedBytes s" "declaredLength (read_out n s) = declaredLength s" "st_state (read_out n s) = st_state s"
  "eof (read_out n s) = eof s" "bodyClosed (read_out n s) = bodyClosed s" "sentEndStream (read_out n s) = sentEndStream s"
  "sentReset (read_out n s) = sentReset s" "bodyIn (read_out n s) = bodyIn s" "readErr (read_out n s) = readErr s"
  by (simp_all add: read_out_def Let_def)

lemma stream_ok_read:
  assumes ok: "stream_ok W s" and n: "n \<le> unread s" and open': "\<not> bodyClosed s" and "st_state s \<noteq> StreamClosed \<or> n = 0"
  shows "stream_ok W (read_out n s)"
proof -
  have b: "bodyPos s \<le> length (bodyBuf s)" using ok by (simp add: stream_ok_def recv_ok_def)
  note p = read_out_simps [OF n b]
  have "recv_ok W (read_out n s)" using ok n p(2) unfolding stream_ok_def recv_ok_def p(1) by auto
  moreover have "body_ok (read_out n s)"
  proof (cases "st_state s = StreamClosed")
    case True
    then show ?thesis using ok assms(4) unfolding stream_ok_def body_ok_def p by auto
  next
    case False
    then have "bodyIn s = (bodyOut s @ take n (drop (bodyPos s) (bodyBuf s))) @ drop n (drop (bodyPos s) (bodyBuf s))"
      using ok open' by (simp add: stream_ok_def body_ok_def del: drop_drop)
    then show ?thesis using ok open' False unfolding stream_ok_def body_ok_def p read_out_frame by blast
  qed
  moreover have "state_ok (read_out n s)" using ok by (simp add: stream_ok_def state_ok_def)
  ultimately show ?thesis by (simp add: stream_ok_def)
qed

lemma read_round_ok:
  assumes inv: "h2_inv 0 c"
  shows "h2_inv 0 (fst (read_round sid n c))"
proof -
  let ?s = "objs c sid" and ?avail = "drop (bodyPos (objs c sid)) (bodyBuf (objs c sid))"
  have ok: "stream_ok (InitialWindowSize (opts c)) ?s" and W: "InitialWindowSize (opts c) \<le> maxWindowSize"
    using stream_of(1,4) [OF inv] by (simp_all add: opts_ok_def)
  then have b: "bodyPos ?s \<le> length (bodyBuf ?s)" "receiveWindow ?s + unackedBytes ?s + int (unread ?s) \<le> InitialWindowSize (opts c)"
    "0 \<le> receiveWindow ?s" "0 \<le> unackedBytes ?s" "st_state ?s = StreamClosed \<Longrightarrow> unread ?s = 0"
    by (auto simp: stream_ok_def recv_ok_def)
  have "h2_inv 0 (upd sid (\<lambda>s. s\<lparr>readReady := r s\<rparr>) c)" for r
    by (rule inv_upd_same [OF inv]) (simp add: same_stream_def)
  moreover have "h2_inv 0 (fst (consumeReceiveBytesLocked sid (i32 (int m)) (upd sid (read_out m) c)))"
    if "\<not> bodyClosed ?s" "?avail \<noteq> []" "m \<le> length ?avail" for m
  proof -
    have open': "st_state ?s \<noteq> StreamClosed" and m: "m \<le> unread ?s" using b(5) that by (auto simp: unread_def)
    have i: "i32 (int m) = int m" using m b W by simp
    note p = read_out_simps [OF m b(1)]
    have "h2_inv (0 - (- int m)) (upd sid (read_out m) c)"
    proof (rule inv_upd_unread [OF inv])
      show "stream_ok (InitialWindowSize (opts c)) (read_out m ?s)" using stream_ok_read [OF ok m that(1)] open' by blast
    qed (use m open' stream_of(2) [OF inv] in \<open>simp_all add: p(1) of_nat_diff\<close>)
    then have "h2_inv (int m) (upd sid (read_out m) c)" by simp
    from inv_consume [OF this, of "int m" sid] show ?thesis using b(2) m by (simp add: i p(1) of_nat_diff)
  qed
  ultimately show ?thesis
    using inv by (simp add: read_round_def Let_def case_prod_unfold)
qed

end
