(* ===== verification/H2Serve.thy ===== *)
theory H2Serve
  imports H2Steps
begin

text \<open>
  The sections of the HTTP/2 connection that the goroutines of the handlers run, and the step relation that
  interleaves them with the frames of the client, the callbacks of the engine and the environment.
\<close>

section \<open>Sections of the handlers\<close>

lemma inv_discard_closed:
  assumes inv: "h2_inv 0 c" and f: "\<And>s. same_stream (s\<lparr>bodyClosed := True\<rparr>) (f s)"
  shows "h2_inv 0 (discardUnreadBodyLocked sid (upd sid f c))"
proof -
  let ?s = "objs c sid" and ?W = "InitialWindowSize (opts c)"
  define g where "g = (\<lambda>s. (f s)\<lparr>bodyBuf := [], bodyPos := 0\<rparr>)"
  have ok: "stream_ok ?W ?s" using stream_of(1) [OF inv] .
  have u: "unread (g ?s) = 0" "unread (f ?s) = unread ?s"
    using same_stream_ok [OF f, of ?W ?s] by (simp_all add: g_def unread_def)
  have d: "h2_inv (0 - (- int (unread ?s))) (upd sid g c)"
  proof (rule inv_upd_unread [OF inv])
    have e: "same_stream (?s\<lparr>bodyClosed := True, bodyBuf := [], bodyPos := 0\<rparr>) (g ?s)"
      using f [of ?s] by (simp add: same_stream_def g_def)
    have "stream_ok ?W (?s\<lparr>bodyClosed := True, bodyBuf := [], bodyPos := 0\<rparr>)"
      using ok by (auto simp: stream_ok_def recv_ok_def body_ok_def state_ok_def unread_def)
    then show "stream_ok ?W (g ?s)" using same_stream_ok [OF e] by blast
    show "- int (unread ?s) \<noteq> 0 \<Longrightarrow> sid \<in> set (streams c)" using stream_of(2) [OF inv, of sid] ok by (auto simp: stream_ok_def recv_ok_def)
  qed (use f [of ?s] in \<open>simp_all add: same_stream_def g_def unread_def\<close>)
  let ?n = "int (unread ?s)"
  have n: "h2_inv ?n (upd sid g c)" using d by simp
  have a: "h2_inv 0 (addUnacked ?n (upd sid g c))" using inv_addUnacked [OF n, of ?n] by simp
  have "discardUnreadBodyLocked sid (upd sid f c) = (if unread ?s > 0 then addUnacked (i32 ?n) (upd sid g c) else upd sid g c)"
    by (simp add: discard_eq addUnacked_def upd_def g_def u)
  moreover have "i32 ?n = ?n" using flow_bounds [OF n] by simp
  ultimately show ?thesis using a n by (cases "unread ?s = 0") simp_all
qed

lemma body_Close_ok: "h2_inv 0 c \<Longrightarrow> h2_inv 0 (body_Close sid c)"
proof -
  assume inv: "h2_inv 0 c"
  let ?c1 = "discardUnreadBodyLocked sid (upd sid (\<lambda>s. s\<lparr>bodyClosed := True, expectContinue := False\<rparr>) c)"
  have "h2_inv 0 ?c1" by (rule inv_discard_closed [OF inv]) (simp add: same_stream_def)
  then have "h2_inv 0 (upd sid wakeReaderLocked (fst (takeConnWindowUpdateLocked ?c1)))"
    by (intro inv_upd_same inv_take) simp_all
  with inv show ?thesis by (simp add: body_Close_def Let_def case_prod_unfold)
qed

lemma endStreamLocal_ok:
  assumes inv: "h2_inv 0 c"
  shows "h2_inv 0 (fst (endStreamLocalLocked sid c))" "broken (fst (endStreamLocalLocked sid c)) = broken c"
proof -
  let ?s = "objs c sid"
  have "h2_inv 0 (removeStreamLocked sid (Some ErrBodyClosedByHandler) None
      (noteServerResetLocked sid (upd sid (\<lambda>s. s\<lparr>sentReset := True\<rparr>) (upd sid (\<lambda>s. s\<lparr>sentEndStream := True\<rparr>) c))))"
    if "st_state ?s = StreamOpen"
  proof -
    have "sid \<le> maxClientStreamID c" using stream_of(2,3) [OF inv, of sid] that by simp
    then have "h2_inv 0 (noteServerResetLocked sid c)" by (rule inv_note [OF inv])
    then show ?thesis unfolding upd_upd note_upd by (rule inv_remove_marked [where a = True and b = True]) simp
  qed
  moreover have "h2_inv 0 (removeStreamLocked sid None None ((upd sid (\<lambda>s. s\<lparr>sentEndStream := True\<rparr>) c)
      \<lparr>resetTokens := min (resetTokens c + 1) maxResetBurst\<rparr>))"
  proof -
    have "(upd sid (\<lambda>s. s\<lparr>sentEndStream := True\<rparr>) c)\<lparr>resetTokens := min (resetTokens c + 1) maxResetBurst\<rparr> =
        upd sid (\<lambda>s. s\<lparr>sentEndStream := True\<rparr>) (c\<lparr>resetTokens := min (resetTokens c + 1) maxResetBurst\<rparr>)" by (simp add: upd_def)
    then show ?thesis using inv_tokens(4) [OF inv]
      by (auto intro!: inv_remove_marked [where a = "sentReset ?s" and b = True])
  qed
  ultimately show "h2_inv 0 (fst (endStreamLocalLocked sid c))" "broken (fst (endStreamLocalLocked sid c)) = broken c"
    by (simp_all add: endStreamLocalLocked_def Let_def)
qed

lemma write_result_fst [simp]: "fst (write_result r) = fst r"
  by (simp add: write_result_def)

lemma writeHeaders_ok:
  assumes inv: "h2_inv 0 c"
  shows "h2_inv 0 (fst (writeHeaders E sid status flds ct cl dt fin info c))"
proof -
  have "h2_inv 0 (upd sid (\<lambda>s. s\<lparr>wroteHeaders := True, expectContinue := False\<rparr>) c)"
    by (rule inv_upd_same [OF inv]) (simp add: same_stream_def)
  then have "h2_inv 0 (encoderLocked (if \<not> info \<and> status > 0 then upd sid (\<lambda>s. s\<lparr>wroteHeaders := True, expectContinue := False\<rparr>) c else c))"
    using inv by simp
  then show ?thesis
    using inv endStreamLocal_ok(1) unfolding writeHeaders_def Let_def case_prod_unfold
    by (cases fin) (simp_all del: encode_simps(1))
qed

lemma writeData_empty_ok: "h2_inv 0 c \<Longrightarrow> h2_inv 0 (fst (writeData_empty sid fin c))"
  using endStreamLocal_ok(1) by (simp add: writeData_empty_def Let_def case_prod_unfold)

lemma register_ok:
  assumes inv: "h2_inv 0 c" shows "h2_inv 0 (register_waiter sid c)"
proof -
  have "h2_inv 0 (upd sid (\<lambda>s. s\<lparr>writeReady := Some False\<rparr>) c)" by (rule inv_upd_same [OF inv]) (simp add: same_stream_def)
  moreover from this have "h2_inv 0 (upd sid (\<lambda>s. s\<lparr>waitingConn := True\<rparr>) ((upd sid (\<lambda>s. s\<lparr>writeReady := Some False\<rparr>) c)\<lparr>waitingStreams := w\<rparr>))" for w
    by (intro inv_upd_same) (simp_all add: same_stream_def)
  ultimately show ?thesis by (simp add: register_waiter_def Let_def)
qed

text \<open>Taking bytes from both send windows.\<close>

lemma inv_spend_stream:
  assumes inv: "h2_inv 0 c" and n: "int n \<le> c_sendWindow c" "int n \<le> sendWindow (objs c sid)"
  shows "h2_inv 0 (upd sid (\<lambda>s. s\<lparr>sendWindow := sendWindow s - int n\<rparr>) (c\<lparr>c_sendWindow := c_sendWindow c - int n\<rparr>))"
proof (rule inv_upd)
  show "h2_inv 0 (c\<lparr>c_sendWindow := c_sendWindow c - int n\<rparr>)" using inv_spend [OF inv _ n(1)] by simp
  have "stream_ok (InitialWindowSize (opts c)) (objs c sid)" using stream_of(1) [OF inv] .
  moreover from this have "sendWindow (objs c sid) \<le> maxWindowSize" by (simp add: stream_ok_def state_ok_def)
  ultimately show "stream_ok (InitialWindowSize (opts (c\<lparr>c_sendWindow := c_sendWindow c - int n\<rparr>)))
      ((objs (c\<lparr>c_sendWindow := c_sendWindow c - int n\<rparr>) sid)\<lparr>sendWindow := sendWindow (objs (c\<lparr>c_sendWindow := c_sendWindow c - int n\<rparr>) sid) - int n\<rparr>)"
    using n(2) by simp (rule stream_ok_sendWindow(1); simp add: maxWindowSize_def)
  have "peerInitialWindowSize c \<le> maxWindowSize" using inv by (simp add: h2_inv_def limits_ok_def)
  then show "peerInitialWindowSize (c\<lparr>c_sendWindow := c_sendWindow c - int n\<rparr>) - maxWindowSize \<le>
      sendWindow ((objs (c\<lparr>c_sendWindow := c_sendWindow c - int n\<rparr>) sid)\<lparr>sendWindow := sendWindow (objs (c\<lparr>c_sendWindow := c_sendWindow c - int n\<rparr>) sid) - int n\<rparr>)"
    using n(2) by simp
qed simp_all

lemma unregister_simps [simp]:
  "c_sendWindow (unregisterWaiterLocked sid c) = c_sendWindow c" "peerMaxFrameSize (unregisterWaiterLocked sid c) = peerMaxFrameSize c"
  "sendWindow (objs (unregisterWaiterLocked sid c) i) = sendWindow (objs c i)" "broken (unregisterWaiterLocked sid c) = broken c"
  "h_wire (unregisterWaiterLocked sid c) = h_wire c" "streams (unregisterWaiterLocked sid c) = streams c"
  "maxClientStreamID (unregisterWaiterLocked sid c) = maxClientStreamID c" "c_granted (unregisterWaiterLocked sid c) = c_granted c"
  "st_state (objs (unregisterWaiterLocked sid c) i) = st_state (objs c i)" "h_failed (unregisterWaiterLocked sid c) = h_failed c"
  by (simp_all add: unregisterWaiterLocked_def)

text \<open>The round that sends \<open>n\<close> bytes: both windows are charged, and the last chunk ends the stream.\<close>

definition charged :: "u32 \<Rightarrow> nat \<Rightarrow> h2_conn \<Rightarrow> h2_conn" where
  "charged sid n c = upd sid (\<lambda>s. s\<lparr>sendWindow := sendWindow s - int n\<rparr>) (c\<lparr>c_sendWindow := c_sendWindow c - int n\<rparr>)"

definition ended_if :: "bool \<Rightarrow> u32 \<Rightarrow> h2_conn \<Rightarrow> h2_conn \<times> bool" where
  "ended_if b sid c = (if b then endStreamLocalLocked sid c else (c, False))"

definition sendable :: "u32 \<Rightarrow> bytes \<Rightarrow> h2_conn \<Rightarrow> nat" where
  "sendable sid data c = min (length data) (min (peerMaxFrameSize c) (nat (min (c_sendWindow c) (sendWindow (objs c sid)))))"

definition may_send :: "u32 \<Rightarrow> bytes \<Rightarrow> h2_conn \<Rightarrow> bool" where
  "may_send sid data c \<longleftrightarrow> data \<noteq> [] \<and> writeErrLocked sid c = None \<and> h_writable c \<and> 0 < c_sendWindow c \<and> 0 < sendWindow (objs c sid)"

lemma ended_if_ok: "h2_inv 0 c \<Longrightarrow> h2_inv 0 (fst (ended_if b sid c))"
  by (simp add: ended_if_def endStreamLocal_ok)

lemma sendable_le:
  assumes "may_send sid data c"
  shows "int (sendable sid data c) \<le> c_sendWindow c" "int (sendable sid data c) \<le> sendWindow (objs c sid)"
    "sendable sid data c \<le> peerMaxFrameSize c" "sendable sid data c \<le> length data"
proof -
  have "sendable sid data c \<le> nat (min (c_sendWindow c) (sendWindow (objs c sid)))" by (simp add: sendable_def)
  then have "int (sendable sid data c) \<le> min (c_sendWindow c) (sendWindow (objs c sid))" using assms unfolding may_send_def by linarith
  then show "int (sendable sid data c) \<le> c_sendWindow c" "int (sendable sid data c) \<le> sendWindow (objs c sid)" by simp_all
qed (simp_all add: sendable_def)

lemma writeData_sends:
  assumes "may_send sid data c"
  shows "writeData_round now sid data fin c =
    (let n = sendable sid data c; lastChunk = (fin \<and> n = length data);
         r = ended_if lastChunk sid (charged sid n (unregisterWaiterLocked sid c));
         w = engine_Write ([F_Data sid (take n data) lastChunk] @ early_reset sid (snd r)) (fst r)
     in if \<not> snd w then (fst w, WD_return (Some WriteFailed))
        else if drop n data = [] then (fst w, WD_return None) else (fst w, WD_more (drop n data)))"
proof -
  from assms have a: "data \<noteq> []" "writeErrLocked sid c = None" "\<not> (\<not> h_writable c \<or> min (c_sendWindow c) (sendWindow (objs c sid)) \<le> 0)"
    by (auto simp: may_send_def)
  show ?thesis
    unfolding writeData_round_def Let_def case_prod_unfold if_not_P [OF a(1)] if_not_P [OF a(3)] a(2) charged_def ended_if_def sendable_def
      unregister_simps(1,2) by (simp only: not_True_eq_False if_False simp_thms)
qed

lemma fst_if: "fst (if b then x else y) = (if b then fst x else fst y)"
  by simp

text \<open>The loop of \<^verbatim>\<open>writeData\<close>, up to where the caller returns or has to wait.\<close>

partial_function (option) writeData_run :: "u32 \<Rightarrow> bool \<Rightarrow> bytes \<Rightarrow> h2_conn \<Rightarrow> (h2_conn \<times> wd_result) option" where
  "writeData_run sid fin data c =
     (case writeData_round (h_writable c) sid data fin c of
        (c1, r) \<Rightarrow> (case r of WD_more rest \<Rightarrow> writeData_run sid fin rest c1 | _ \<Rightarrow> Some (c1, r)))"

declare writeData_run.simps [code]

lemma writeData_waits:
  assumes "\<not> may_send sid data c"
  shows "fst (writeData_round now sid data fin c) \<in> {fst (writeData_empty sid fin c), unregisterWaiterLocked sid c, register_waiter sid c,
      unregisterWaiterLocked sid (register_waiter sid c)}"
proof -
  from assms [unfolded may_send_def] consider "data = []" | "data \<noteq> []" "writeErrLocked sid c \<noteq> None"
    | "data \<noteq> []" "writeErrLocked sid c = None" "\<not> h_writable c \<or> min (c_sendWindow c) (sendWindow (objs c sid)) \<le> 0" by fastforce
  then show ?thesis
    by cases (simp_all only: writeData_round_def Let_def case_prod_unfold if_True if_False simp_thms fst_conv insert_iff fst_if empty_iff split: if_split)
qed

lemma writeData_ok:
  assumes inv: "h2_inv 0 c" shows "h2_inv 0 (fst (writeData_round now sid data fin c))"
proof (cases "may_send sid data c")
  case False
  have "h2_inv 0 (unregisterWaiterLocked sid c)" "h2_inv 0 (unregisterWaiterLocked sid (register_waiter sid c))"
    "h2_inv 0 (fst (writeData_empty sid fin c))" "h2_inv 0 (register_waiter sid c)"
    using inv by (simp_all add: inv_unregister register_ok writeData_empty_ok)
  with writeData_waits [OF False, of now fin] show ?thesis by auto
next
  case True
  let ?n = "sendable sid data c"
  have "h2_inv 0 (charged sid ?n (unregisterWaiterLocked sid c))"
    unfolding charged_def using sendable_le [OF True] by (intro inv_spend_stream [OF inv_unregister [OF inv]]) simp_all
  then have "h2_inv 0 (fst (ended_if b sid (charged sid ?n (unregisterWaiterLocked sid c))))" for b by (rule ended_if_ok)
  then show ?thesis by (simp add: writeData_sends [OF True] Let_def)
qed

lemma writeHeadersAndBody_ok:
  assumes inv: "h2_inv 0 c" shows "h2_inv 0 (fst (writeHeadersAndBody E sid status flds ct cl dt body c))"
proof -
  define c1 where "c1 = encoderLocked (upd sid (\<lambda>s. s\<lparr>wroteHeaders := True, expectContinue := False\<rparr>) c)"
  have "h2_inv 0 (upd sid (\<lambda>s. s\<lparr>wroteHeaders := True, expectContinue := False\<rparr>) c)"
    by (rule inv_upd_same [OF inv]) (simp add: same_stream_def)
  then have c1: "h2_inv 0 c1" by (simp add: c1_def)
  let ?n = "length body"
  let ?sp = "upd sid (\<lambda>s. s\<lparr>sendWindow := sendWindow s - int ?n\<rparr>) (c1\<lparr>c_sendWindow := c_sendWindow c1 - int ?n\<rparr>)"
  define combine where "combine \<longleftrightarrow> ?n \<le> peerMaxFrameSize c1 \<and> h_writable c1 \<and> int ?n \<le> c_sendWindow c1 \<and> int ?n \<le> sendWindow (objs c1 sid)"
  define r where "r = (if combine then endStreamLocalLocked sid ?sp else (c1, False))"
  have r: "h2_inv 0 (fst r)"
    using c1 endStreamLocal_ok(1) [OF inv_spend_stream [OF c1]] by (simp add: r_def combine_def)
  show ?thesis
    unfolding writeHeadersAndBody_def Let_def case_prod_unfold c1_def [symmetric] combine_def [symmetric] r_def [symmetric]
    using inv r by simp
qed

lemma resetStream_ok:
  assumes inv: "h2_inv 0 c" and sid: "sid \<le> maxClientStreamID c"
  shows "h2_inv 0 (resetStream sid code c)"
proof -
  have "h2_inv 0 (removeStreamLocked sid (Some ErrStreamReset) (Some ErrStreamReset) (noteServerResetLocked sid (upd sid (\<lambda>s. s\<lparr>sentReset := True\<rparr>) c)))"
    unfolding note_upd by (rule inv_remove_marked [where a = True and b = "sentEndStream (objs c sid)", OF inv_note [OF inv sid]]) simp
  then show ?thesis by (simp add: resetStream_def Let_def case_prod_unfold inv_take)
qed

lemma sendGoAway_ok [simp]: "h2_inv d (sendGoAway b c) = h2_inv d c"
  by (simp add: sendGoAway_def Let_def)

lemma cleanup_ok:
  assumes inv: "h2_inv 0 c" shows "h2_inv 0 (cleanupStreamAfterHandler sid c)"
proof (cases "st_state (objs c sid) = StreamClosed")
  case True
  with inv show ?thesis by (simp add: cleanupStreamAfterHandler_def Let_def)
next
  case False
  let ?s = "objs c sid"
  have sid: "sid \<le> maxClientStreamID c" using stream_of(2,3) [OF inv, of sid] False by simp
  have "h2_inv 0 (removeStreamLocked sid r w (noteServerResetLocked sid (upd sid (\<lambda>s. s\<lparr>sentReset := True\<rparr>) c)))" for r w
    unfolding note_upd by (rule inv_remove_marked [where a = True and b = "sentEndStream (objs c sid)", OF inv_note [OF inv sid]]) simp
  with inv False show ?thesis
    by (simp add: cleanupStreamAfterHandler_def Let_def case_prod_unfold inv_take inv_remove)
qed

lemma read_continue_ok:
  assumes inv: "h2_inv 0 c" shows "h2_inv 0 (read_continue E sid c)"
proof -
  have "h2_inv 0 (upd sid (\<lambda>s. s\<lparr>expectContinue := False\<rparr>) c)" by (rule inv_upd_same [OF inv]) (simp add: same_stream_def)
  with inv show ?thesis by (simp add: read_continue_def Let_def writeHeaders_ok)
qed

section \<open>Callbacks of the engine\<close>

lemma onClosing_ok [simp]: "h2_inv d (h2_onClosing p c) = h2_inv d c"
  by (simp add: h2_onClosing_def)

lemma onWritable_ok: "h2_inv d c \<Longrightarrow> h2_inv d (h2_onWritable c)"
  by (simp add: h2_onWritable_def inv_wakeWaiting)

lemma onOpen_ok: "h2_inv d c \<Longrightarrow> h2_inv d (onOpen tls c)"
proof -
  assume inv: "h2_inv d c"
  have "h2_inv d (failConnImmediate code c)" for code by (simp add: failConnImmediate_def inv_broken [OF inv])
  moreover have "h2_inv d (c'\<lparr>broken := True\<rparr>)" if "h2_inv d c'" for c' by (rule inv_broken [OF that])
  ultimately show ?thesis using inv by (simp add: onOpen_def Let_def case_prod_unfold)
qed

lemma data_end_ok: "h2_inv d c \<Longrightarrow> h2_inv d (data_end partial k c)"
proof -
  assume inv: "h2_inv d c"
  define c1 where "c1 = (if outControl k \<noteq> [] then let (d, ok) = engine_Write (outControl k) c in if ok then d else d\<lparr>broken := True\<rparr> else c)"
  have c1: "h2_inv d c1" using inv by (simp add: c1_def Let_def case_prod_unfold inv_broken)
  show ?thesis unfolding data_end_def Let_def c1_def [unfolded Let_def, symmetric] using c1 by simp
qed

text \<open>Closing removes every stream.\<close>

lemma remove_closes:
  assumes "h2_inv d c"
  shows "st_state (objs (removeStreamLocked sid rerr werr c) i) = (if i = sid then StreamClosed else st_state (objs c i))"
proof (cases "st_state (objs c sid) = StreamClosed")
  case True
  then show ?thesis by (simp add: removeStreamLocked_def)
next
  case False
  then have "sid \<in> set (streams c)" using stream_of(2) [OF assms] by blast
  from removeStream_eq [OF False this, of rerr werr] show ?thesis by (auto simp: closed_stream_def)
qed

lemma onClose_fold:
  assumes "h2_inv d c"
  shows "h2_inv d (fold (\<lambda>sid. removeStreamLocked sid r w) ids c) \<and>
    (\<forall>i. st_state (objs (fold (\<lambda>sid. removeStreamLocked sid r w) ids c) i) = (if i \<in> set ids then StreamClosed else st_state (objs c i)))"
  using assms
proof (induction ids arbitrary: c)
  case (Cons a ids)
  from Cons.IH [OF inv_remove [OF Cons.prems]] show ?case by (auto simp: remove_closes [OF Cons.prems])
qed simp

lemma onClose_ok: "h2_inv d c \<Longrightarrow> h2_inv d (h2_onClose c)"
proof -
  assume "h2_inv d c"
  then have inv: "h2_inv d (c\<lparr>h_closed := True\<rparr>)" by simp
  define e where "e = fold (\<lambda>sid. removeStreamLocked sid (Some ErrClientDisconnected) (Some NetClosed)) (streams c) (c\<lparr>h_closed := True\<rparr>)"
  have e: "h2_inv d e" "\<And>i. st_state (objs e i) = (if i \<in> set (streams c) then StreamClosed else st_state (objs c i))"
    using onClose_fold [OF inv] by (simp_all add: e_def)
  have "streams e = []"
  proof (rule ccontr)
    assume "streams e \<noteq> []"
    then obtain i where "i \<in> set (streams e)" by (cases "streams e") auto
    with e(2) [of i] stream_of(2) [OF e(1), of i] stream_of(2) [OF inv, of i] show False by (auto split: if_splits)
  qed
  then have "h2_onClose c = e\<lparr>waitingStreams := []\<rparr>" by (simp add: h2_onClose_def e_def)
  with e(1) show ?thesis by simp
qed

end
