(* ===== verification/H2System.thy ===== *)
theory H2System
  imports H2Serve
begin

text \<open>
  What an HTTP/2 connection sends. A section is quiet when it writes nothing; every other section adds frames of one
  stream. The step relation interleaves the sections, and its invariant bounds what is sent and orders it.
\<close>

section \<open>Quiet sections\<close>

definition quiet :: "h2_conn \<Rightarrow> h2_conn \<Rightarrow> bool" where
  "quiet c c' \<longleftrightarrow> h_wire c' = h_wire c \<and> h_failed c' = h_failed c \<and> maxClientStreamID c' = maxClientStreamID c \<and> started c' = started c \<and>
     broken c' = broken c \<and> c_sendWindow c' - c_granted c' = c_sendWindow c - c_granted c \<and>
     (\<forall>i. st_state (objs c i) = StreamClosed \<longrightarrow> st_state (objs c' i) = StreamClosed)"

lemma quiet_refl [simp, intro]: "quiet c c"
  by (simp add: quiet_def)

lemma quiet_trans [trans]: "quiet a b \<Longrightarrow> quiet b c \<Longrightarrow> quiet a c"
  by (simp add: quiet_def)

lemma if_cases: "P x \<Longrightarrow> P y \<Longrightarrow> P (if b then x else y)"
  by simp

lemma quiet_if: "(b \<Longrightarrow> quiet c x) \<Longrightarrow> (\<not> b \<Longrightarrow> quiet c y) \<Longrightarrow> quiet c (if b then x else y)"
  by simp

lemma quiet_upd: "(st_state (objs c sid) = StreamClosed \<Longrightarrow> st_state (f (objs c sid)) = StreamClosed) \<Longrightarrow> quiet c (upd sid f c)"
  by (simp add: quiet_def upd_def)

lemma remove_state:
  "st_state (objs (removeStreamLocked sid rerr werr c) i) = (if i = sid then StreamClosed else st_state (objs c i))"
proof (cases "st_state (objs c sid) = StreamClosed")
  case True
  then show ?thesis by (simp add: removeStreamLocked_def)
next
  case open': False
  let ?c2 = "unregisterWaiterLocked sid (discardUnreadBodyLocked sid (upd sid (\<lambda>s. s\<lparr>st_state := StreamClosed,
                     readErr := (if rerr \<noteq> None \<and> readErr s = None then rerr else readErr s),
                     writeErr := (if werr \<noteq> None \<and> writeErr s = None then werr else writeErr s)\<rparr>) c))"
  have "st_state (objs ?c2 i) = (if i = sid then StreamClosed else st_state (objs c i))" for i
    by (simp add: unregister_eq discard_eq upd_def)
  then show ?thesis
  proof (cases "sid \<in> set (streams c)")
    case True
    from removeStream_eq [OF open' True, of rerr werr] show ?thesis by (auto simp: closed_stream_def)
  next
    case False
    then have "sid \<notin> set (streams ?c2)" by (simp add: unregister_eq discard_eq upd_def)
    then have "removeStreamLocked sid rerr werr c = upd sid (\<lambda>s. wakeWriterLocked (wakeReaderLocked s)) ?c2"
      using open' by (simp only: removeStreamLocked_def Let_def if_False)
    moreover have "st_state (objs ?c2 i) = (if i = sid then StreamClosed else st_state (objs c i))" for i
      by (simp add: unregister_eq discard_eq upd_def)
    ultimately show ?thesis by simp
  qed
qed

lemma wakeWaiting_fold:
  "h_wire (wakeWaitingStreamsLocked c) = h_wire c" "h_failed (wakeWaitingStreamsLocked c) = h_failed c" "c_granted (wakeWaitingStreamsLocked c) = c_granted c"
  "maxClientStreamID (wakeWaitingStreamsLocked c) = maxClientStreamID c" "started (wakeWaitingStreamsLocked c) = started c"
  "c_sendWindow (wakeWaitingStreamsLocked c) = c_sendWindow c" "st_state (objs (wakeWaitingStreamsLocked c) i) = st_state (objs c i)"
proof -
  let ?f = "\<lambda>sid. upd sid (\<lambda>s. wakeWriterLocked (s\<lparr>waitingConn := False\<rparr>))"
  have a: "h_wire (fold ?f ids c) = h_wire c" "h_failed (fold ?f ids c) = h_failed c" "c_granted (fold ?f ids c) = c_granted c"
    "maxClientStreamID (fold ?f ids c) = maxClientStreamID c" "started (fold ?f ids c) = started c" "c_sendWindow (fold ?f ids c) = c_sendWindow c" for ids
    by (induction ids arbitrary: c) (simp_all add: upd_def)
  have b: "st_state (objs (fold ?f ids c) i) = st_state (objs c i)" for ids by (induction ids arbitrary: c) auto
  show "h_wire (wakeWaitingStreamsLocked c) = h_wire c" "h_failed (wakeWaitingStreamsLocked c) = h_failed c" "c_granted (wakeWaitingStreamsLocked c) = c_granted c"
    "maxClientStreamID (wakeWaitingStreamsLocked c) = maxClientStreamID c" "started (wakeWaitingStreamsLocked c) = started c"
    "c_sendWindow (wakeWaitingStreamsLocked c) = c_sendWindow c" "st_state (objs (wakeWaitingStreamsLocked c) i) = st_state (objs c i)"
    by (simp_all add: wakeWaitingStreamsLocked_def a b)
qed

lemma quiet_ops [intro, simp]:
  "quiet c (setDeadlineLocked c)" "quiet c (fst (takeControlToken c))" "quiet c (noteServerResetLocked sid c)"
  "quiet c (fst (takeConnWindowUpdateLocked c))" "quiet c (addUnacked n c)" "quiet c (replenishControlTokens n c)"
  "quiet c (removeStreamLocked sid rerr werr c)" "quiet c (unregisterWaiterLocked sid c)" "quiet c (discardUnreadBodyLocked sid c)"
  "quiet c (wakeWaitingStreamsLocked c)" "quiet c (encoderLocked c)" "quiet c (snd (encodeResponseHeadersLocked E status flds ct cl dt c))"
  "quiet c (engine_SetDeadline t c)" "quiet c (engine_Close c)"
  by (simp_all add: quiet_def remove_state wakeWaiting_fold engine_eq)
    (simp_all add: takeControlToken_def noteServerResetLocked_def takeConnWindowUpdateLocked_def replenishControlTokens_def
       unregister_eq discard_eq encodeResponseHeadersLocked_def case_prod_unfold Let_def encoderLocked_def)

lemma quiet_upd_simple [intro, simp]:
  "quiet c (upd sid (\<lambda>s. s\<lparr>sentReset := a\<rparr>) c)" "quiet c (upd sid (\<lambda>s. s\<lparr>sentEndStream := a\<rparr>) c)"
  "quiet c (upd sid wakeReaderLocked c)" "quiet c (upd sid wakeWriterLocked c)" "quiet c (upd sid (read_out n) c)"
  "quiet c (upd sid (\<lambda>s. s\<lparr>receiveWindow := i32 (receiveWindow s + x), unackedBytes := 0\<rparr>) c)"
  "quiet c (upd sid (\<lambda>s. s\<lparr>receiveWindow := i32 (receiveWindow s + unackedBytes s), unackedBytes := 0\<rparr>) c)"
  "quiet c (upd sid (\<lambda>s. s\<lparr>unackedBytes := x\<rparr>) c)" "quiet c (upd sid (\<lambda>s. s\<lparr>st_trailer := t\<rparr>) c)"
  "quiet c (upd sid (\<lambda>s. s\<lparr>bodyClosed := a, expectContinue := b\<rparr>) c)" "quiet c (upd sid (\<lambda>s. s\<lparr>expectContinue := b\<rparr>) c)"
  "quiet c (upd sid (\<lambda>s. s\<lparr>wroteHeaders := a, expectContinue := b\<rparr>) c)" "quiet c (upd sid (\<lambda>s. s\<lparr>readReady := r s\<rparr>) c)"
  "quiet c (upd sid (\<lambda>s. s\<lparr>gotTrailers := a, eof := b\<rparr>) c)" "quiet c (upd sid (\<lambda>s. s\<lparr>writeReady := w\<rparr>) c)"
  "quiet c (upd sid (\<lambda>s. s\<lparr>waitingConn := a\<rparr>) c)" "quiet c (upd sid (\<lambda>s. s\<lparr>receiveWindow := i32 (receiveWindow s - x)\<rparr>) c)"
  by (rule quiet_upd; simp)+

text \<open>Composition, from the inside out.\<close>

lemma quiet_comp:
  "quiet c d \<Longrightarrow> quiet c (setDeadlineLocked d)" "quiet c d \<Longrightarrow> quiet c (fst (takeControlToken d))"
  "quiet c d \<Longrightarrow> quiet c (noteServerResetLocked sid d)" "quiet c d \<Longrightarrow> quiet c (fst (takeConnWindowUpdateLocked d))"
  "quiet c d \<Longrightarrow> quiet c (addUnacked n d)" "quiet c d \<Longrightarrow> quiet c (removeStreamLocked sid rerr werr d)"
  "quiet c d \<Longrightarrow> quiet c (unregisterWaiterLocked sid d)" "quiet c d \<Longrightarrow> quiet c (discardUnreadBodyLocked sid d)"
  "quiet c d \<Longrightarrow> quiet c (wakeWaitingStreamsLocked d)" "quiet c d \<Longrightarrow> quiet c (encoderLocked d)"
  "quiet c d \<Longrightarrow> (\<And>s. st_state s = StreamClosed \<Longrightarrow> st_state (f s) = StreamClosed) \<Longrightarrow> quiet c (upd i f d)" "quiet c d \<Longrightarrow> quiet c (engine_Close d)"
  "quiet c d \<Longrightarrow> quiet c (engine_SetDeadline t d)" "quiet c d \<Longrightarrow> quiet c (snd (encodeResponseHeadersLocked E status flds ct cl dt d))"
  by (auto intro: quiet_trans quiet_upd)

lemma quiet_fields [simp]:
  "quiet c (d\<lparr>waitingStreams := a1\<rparr>) = quiet c d" "quiet c (d\<lparr>resetTokens := a2\<rparr>) = quiet c d" "quiet c (d\<lparr>c_receiveWindow := a3\<rparr>) = quiet c d"
  "quiet c (d\<lparr>sawFirstSettings := a4\<rparr>) = quiet c d" "quiet c (d\<lparr>goingAway := a4\<rparr>) = quiet c d" "quiet c (d\<lparr>closeWhenIdle := a4\<rparr>) = quiet c d"
  "quiet c (d\<lparr>peerInitialWindowSize := a5\<rparr>) = quiet c d" "quiet c (d\<lparr>decoder := a6\<rparr>) = quiet c d" "quiet c (d\<lparr>partialFrame := a4\<rparr>) = quiet c d"
  "quiet c (d\<lparr>inHeaderBlock := a4\<rparr>) = quiet c d" "quiet c (d\<lparr>continuationFrames := a7\<rparr>) = quiet c d" "quiet c (d\<lparr>continuationStreamID := a8\<rparr>) = quiet c d"
  "quiet c (d\<lparr>h_closed := a4\<rparr>) = quiet c d" "quiet c (d\<lparr>h_writable := a4\<rparr>) = quiet c d" "quiet c (d\<lparr>bodyRoom := a4\<rparr>) = quiet c d"
  "quiet c (d\<lparr>streams := a9\<rparr>) = quiet c d" "quiet c (d\<lparr>prefaceRead := a7\<rparr>) = quiet c d" "quiet c (d\<lparr>peerMaxFrameSize := a7\<rparr>) = quiet c d"
  "quiet c (d\<lparr>builder := b\<rparr>) = quiet c d" "quiet c (d\<lparr>emitEnabled := a4\<rparr>) = quiet c d"
  by (simp_all add: quiet_def)

lemma quiet_endStream: "quiet c (fst (endStreamLocalLocked sid c))"
  unfolding endStreamLocalLocked_def Let_def fst_if fst_conv by (intro quiet_if quiet_comp) (simp_all add: quiet_comp)

lemma quiet_failStream: "quiet c (fst (failStreamLocked sid rerr code out c))"
  unfolding failStreamLocked_def Let_def case_prod_unfold fst_conv by (intro quiet_comp) simp_all

lemma quiet_consume: "quiet c (fst (consumeReceiveBytesLocked sid n c))"
  unfolding consumeReceiveBytesLocked_def Let_def case_prod_unfold fst_if fst_conv
  by (intro quiet_if quiet_comp; simp add: quiet_comp)

lemma quiet_register: "quiet c (register_waiter sid c)"
  unfolding register_waiter_def Let_def by (intro quiet_if quiet_comp) (simp_all add: quiet_comp)

lemma quiet_adjust: "quiet c (fst (adjust_windows delta ids c))"
proof (induction delta ids c rule: adjust_windows.induct)
  case (2 delta sid ids c)
  let ?f = "\<lambda>s. let s1 = s\<lparr>sendWindow := sendWindow s + delta\<rparr>
                      in if sendWindow s \<le> 0 \<and> sendWindow s1 > 0 then wakeWriterLocked s1 else s1"
  have "quiet c (upd sid ?f c)" by (rule quiet_upd) (simp add: Let_def)
  with 2 show ?case by (cases "sendWindow (objs c sid) + delta > maxWindowSize") (auto intro: quiet_trans)
qed simp

lemma quiet_apply: "quiet c (fst (apply_setting i v c))"
proof -
  have "quiet c (c\<lparr>minHeaderTableSize := a, peerHeaderTableSize := b, headerTableSizeUpdated := True\<rparr>)" for a b by (simp add: quiet_def)
  moreover have "quiet c (fst (adjust_windows delta ids (c\<lparr>peerInitialWindowSize := w\<rparr>)))" for delta ids w
    by (rule quiet_trans [OF _ quiet_adjust]) simp
  ultimately show ?thesis by (simp add: apply_setting_def Let_def case_prod_unfold)
qed

lemma quiet_settings: "quiet c (fst (settings_loop payload c))"
proof (induction payload c rule: settings_loop.induct)
  case (1 payload c)
  obtain c1 k where a: "apply_setting (be_word (sub_bytes payload 0 2)) (be_word (sub_bytes payload 2 6)) c = (c1, k)"
    by fastforce
  have q: "quiet c c1" using quiet_apply [of c] a by (metis fst_conv)
  show ?case
  proof (cases "payload = [] \<or> k \<noteq> errCodeNo")
    case True
    then show ?thesis using q a by (subst settings_loop.simps) auto
  next
    case False
    then have "quiet c1 (fst (settings_loop (drop 6 payload) c1))" using "1.IH" [OF _ a [symmetric] refl] by simp
    with q False a show ?thesis by (subst settings_loop.simps) (auto intro: quiet_trans)
  qed
qed

section \<open>Control frames\<close>

fun is_content :: "h2frame \<Rightarrow> bool" where
  "is_content (F_Headers sid block e m) = True"
| "is_content (F_Data sid d e) = True"
| "is_content _ = False"

definition control :: "h2frame list \<Rightarrow> bool" where
  "control fs \<longleftrightarrow> list_all (\<lambda>f. frame_valid f \<and> \<not> is_content f) fs"

lemma control_append [simp]: "control (xs @ ys) \<longleftrightarrow> control xs \<and> control ys" "control []"
  "control (f # fs) \<longleftrightarrow> frame_valid f \<and> \<not> is_content f \<and> control fs"
  by (simp_all add: control_def)

lemma control_update [simp]: "control (conn_update inc)"
  by (simp add: conn_update_def)

text \<open>What a frame handler does: it is quiet and adds control frames to those waiting to be sent.\<close>

definition quiet_out :: "h2frame list \<Rightarrow> h2_conn \<Rightarrow> h2_conn \<Rightarrow> h2frame list \<Rightarrow> bool" where
  "quiet_out out c c' out' \<longleftrightarrow> quiet c c' \<and> (control out \<longrightarrow> control out')"

lemma failStream_out:
  assumes "sid < 2 ^ 31" shows "quiet_out out c (fst (failStreamLocked sid rerr code out c)) (snd (failStreamLocked sid rerr code out c))"
  using assms quiet_failStream unfolding quiet_out_def by (auto simp: failStreamLocked_def Let_def case_prod_unfold)

lemma quiet_outI: "quiet c d \<Longrightarrow> quiet_out out d c' out' \<Longrightarrow> quiet_out out c c' out'"
  by (auto simp: quiet_out_def intro: quiet_trans)

lemma small_out:
  "quiet_out out c (fst (handleSettings fh payload out c)) (fst (snd (handleSettings fh payload out c)))"
  "length payload = unat (fh_length fh) \<Longrightarrow> quiet_out out c (fst (handlePing fh payload out c)) (fst (snd (handlePing fh payload out c)))"
  "streamID fh < 2 ^ 31 \<Longrightarrow> quiet_out out c (fst (handlePriority fh payload out c)) (fst (snd (handlePriority fh payload out c)))"
  "streamID fh < 2 ^ 31 \<Longrightarrow> quiet_out out c (fst (handleRSTStream fh out c)) (fst (snd (handleRSTStream fh out c)))"
proof -
  have "quiet c (fst (settings_loop payload ((fst (takeControlToken c))\<lparr>sawFirstSettings := True\<rparr>)))"
    by (rule quiet_trans [OF _ quiet_settings]) simp
  then show "quiet_out out c (fst (handleSettings fh payload out c)) (fst (snd (handleSettings fh payload out c)))"
    by (simp add: handleSettings_def Let_def case_prod_unfold quiet_out_def quiet_comp)
  show "length payload = unat (fh_length fh) \<Longrightarrow> quiet_out out c (fst (handlePing fh payload out c)) (fst (snd (handlePing fh payload out c)))"
    by (simp add: handlePing_def Let_def case_prod_unfold quiet_out_def)
  show "streamID fh < 2 ^ 31 \<Longrightarrow> quiet_out out c (fst (handlePriority fh payload out c)) (fst (snd (handlePriority fh payload out c)))"
    by (simp add: handlePriority_def Let_def case_prod_unfold quiet_out_def)
  show "streamID fh < 2 ^ 31 \<Longrightarrow> quiet_out out c (fst (handleRSTStream fh out c)) (fst (snd (handleRSTStream fh out c)))"
    by (simp add: handleRSTStream_def Let_def case_prod_unfold quiet_out_def quiet_comp)
qed

lemma windowUpdate_out:
  assumes "streamID fh < 2 ^ 31"
  shows "quiet_out out c (fst (handleWindowUpdate fh payload out c)) (fst (snd (handleWindowUpdate fh payload out c)))"
proof -
  define inc where "inc = be_word (sub_bytes payload 0 4) AND (0x7fffffff :: u32)"
  have "quiet c (wakeWaitingStreamsLocked (c\<lparr>c_sendWindow := c_sendWindow c + uint inc, c_granted := c_granted c + uint inc\<rparr>))"
    by (rule quiet_comp) (simp add: quiet_def)
  moreover have "quiet c (upd sid (\<lambda>s. let s1 = s\<lparr>sendWindow := sendWindow s + uint inc, st_granted := st_granted s + uint inc\<rparr>
               in if sendWindow s \<le> 0 \<and> sendWindow s1 > 0 then wakeWriterLocked s1 else s1) c)" for sid
    by (rule quiet_upd) (simp add: Let_def)
  ultimately show ?thesis
    using assms failStream_out [OF assms]
    by (simp add: handleWindowUpdate_def Let_def case_prod_unfold quiet_out_def flip: inc_def)
qed

lemma quiet_upd_open: "quiet c d \<Longrightarrow> st_state (objs c sid) \<noteq> StreamClosed \<Longrightarrow> quiet c (upd sid f d)"
  by (simp add: quiet_def upd_def)

lemma quiet_store: "st_state (objs c sid) \<noteq> StreamClosed \<Longrightarrow> quiet c (store_data sid F data pad ended c)"
  by (simp add: store_data_def Let_def quiet_comp quiet_upd_open)

lemma data_out:
  assumes "streamID fh < 2 ^ 31"
  shows "quiet_out out c (fst (handleData fh payload out c)) (fst (snd (handleData fh payload out c)))"
proof (cases "streamID fh = 0 \<or> even (unat (streamID fh)) \<or> streamID fh > maxClientStreamID c")
  case True
  then show ?thesis by (simp add: handleData_def quiet_out_def)
next
  case False
  let ?F = "i32 (uint (fh_length fh))" and ?sid = "streamID fh"
  let ?c1 = "c\<lparr>c_receiveWindow := i32 (c_receiveWindow c - ?F)\<rparr>"
  let ?c2 = "upd ?sid (\<lambda>s. s\<lparr>receiveWindow := i32 (receiveWindow s - ?F)\<rparr>) ?c1"
  have q1: "quiet c ?c1" "quiet c ?c2" "quiet c (addUnacked ?F ?c1)" "quiet c (addUnacked ?F ?c2)" by (simp_all add: quiet_comp)
  have f: "quiet_out out c (fst (failStreamLocked ?sid rerr code out d)) (snd (failStreamLocked ?sid rerr code out d))"
    if "quiet c d" for rerr code d
    using failStream_out [OF assms] that by (rule quiet_outI [rotated])
  have st: "quiet c (store_data ?sid ?F data pad ended ?c2)" if "st_state (objs c ?sid) \<noteq> StreamClosed" for data pad ended
    using that by (intro quiet_trans [OF q1(2) quiet_store]) simp
  show ?thesis
  proof (cases "stripPadding payload (flags fh)")
    case None
    with False show ?thesis by (simp add: handleData_def quiet_out_def)
  next
    case (Some a)
    obtain data pad where a: "a = (data, pad)" by fastforce
    have "quiet_out out c (fst (ack_data ?sid out t)) (fst (snd (ack_data ?sid out t)))" if "quiet c t" for t
      using that assms by (simp add: ack_data_def Let_def case_prod_unfold quiet_out_def quiet_comp)
    then show ?thesis
      using q1 f st assms False a by (simp add: handleData_def Let_def Some case_prod_unfold quiet_out_def quiet_comp)
  qed
qed

lemma trailer_out:
  assumes "sid < 2 ^ 31" and "sid \<in> set (streams c) \<Longrightarrow> st_state (objs c sid) \<noteq> StreamClosed"
  shows "quiet_out out c (fst (finishTrailerBlock sid out c)) (fst (snd (finishTrailerBlock sid out c)))"
proof -
  have f: "quiet_out out c (fst (failStreamLocked sid rerr code out d)) (snd (failStreamLocked sid rerr code out d))"
    if "quiet c d" for rerr code d
    using failStream_out [OF assms(1)] that by (rule quiet_outI [rotated])
  then have "quiet_out out c (fst (failStreamLocked sid rerr code out c)) (snd (failStreamLocked sid rerr code out c))"
    "quiet_out out c (fst (failStreamLocked sid rerr code out (upd sid (\<lambda>s. s\<lparr>st_trailer := t\<rparr>) c)))
       (snd (failStreamLocked sid rerr code out (upd sid (\<lambda>s. s\<lparr>st_trailer := t\<rparr>) c)))" for rerr code t
    by (simp_all add: quiet_comp)
  moreover have "quiet c (upd sid wakeReaderLocked (removeStreamLocked sid None None (upd sid (\<lambda>s. s\<lparr>gotTrailers := True, eof := True\<rparr>) (upd sid (\<lambda>s. s\<lparr>st_trailer := t\<rparr>) c))))" for t
    by (intro quiet_comp) simp_all
  moreover have "quiet c (upd sid wakeReaderLocked (upd sid (\<lambda>s. s\<lparr>st_state := StreamHalfClosedRemote\<rparr>)
      (upd sid (\<lambda>s. s\<lparr>gotTrailers := True, eof := True\<rparr>) (upd sid (\<lambda>s. s\<lparr>st_trailer := t\<rparr>) c))))"
    if "st_state (objs c sid) \<noteq> StreamClosed" for t
    using that by (simp add: quiet_def upd_def)
  ultimately show ?thesis
    using assms(2) by (cases "buildTrailers (builder c) (st_trailer (objs c sid))") (simp_all add: finishTrailerBlock_def Let_def case_prod_unfold quiet_out_def)
qed

section \<open>Frames sent\<close>

fun content :: "u32 \<Rightarrow> h2frame \<Rightarrow> bool" where
  "content sid (F_Headers i block e m) = (i = sid)"
| "content sid (F_Data i d e) = (i = sid)"
| "content sid _ = False"

fun ends :: "u32 \<Rightarrow> h2frame \<Rightarrow> bool" where
  "ends sid (F_Headers i block e m) = (i = sid \<and> e)"
| "ends sid (F_Data i d e) = (i = sid \<and> e)"
| "ends sid _ = False"

text \<open>No HEADERS or DATA of the stream follows the frame that ends it.\<close>

fun ends_last :: "u32 \<Rightarrow> h2frame list \<Rightarrow> bool" where
  "ends_last sid [] = True"
| "ends_last sid (f # fs) = ((ends sid f \<longrightarrow> list_all (\<lambda>g. \<not> content sid g) fs) \<and> ends_last sid fs)"

fun data_bytes :: "h2frame list \<Rightarrow> int" where
  "data_bytes [] = 0"
| "data_bytes (F_Data i d e # fs) = int (length d) + data_bytes fs"
| "data_bytes (_ # fs) = data_bytes fs"

lemma data_bytes_append [simp]: "data_bytes (xs @ ys) = data_bytes xs + data_bytes ys"
  by (induction xs rule: data_bytes.induct) auto

lemma data_bytes_nonneg [simp]: "0 \<le> data_bytes fs"
  by (induction fs rule: data_bytes.induct) auto

lemma ends_content: "ends sid f \<Longrightarrow> content sid f"
  by (cases f) auto

lemma content_is: "content sid f \<Longrightarrow> is_content f"
  by (cases f) auto

lemma ends_last_append:
  "ends_last sid (xs @ ys) \<longleftrightarrow> ends_last sid xs \<and> ends_last sid ys \<and> ((\<exists>f \<in> set xs. ends sid f) \<longrightarrow> list_all (\<lambda>g. \<not> content sid g) ys)"
  by (induction xs) auto

lemma no_content_ends_last: "list_all (\<lambda>g. \<not> content sid g) fs \<Longrightarrow> ends_last sid fs"
  by (induction fs) auto

lemma control_content: "control fs \<Longrightarrow> list_all (\<lambda>g. \<not> content sid g) fs" "control fs \<Longrightarrow> list_all frame_valid fs" "control fs \<Longrightarrow> data_bytes fs = 0"
proof -
  show "control fs \<Longrightarrow> list_all (\<lambda>g. \<not> content sid g) fs" "control fs \<Longrightarrow> list_all frame_valid fs"
    using content_is by (fastforce simp: control_def list_all_iff)+
  show "control fs \<Longrightarrow> data_bytes fs = 0" by (induction fs rule: data_bytes.induct) auto
qed

text \<open>A section that has charged \<open>n\<close> bytes to the send window of the connection, and may have opened a new stream.\<close>

definition spent :: "int \<Rightarrow> h2_conn \<Rightarrow> h2_conn \<Rightarrow> bool" where
  "spent n c d \<longleftrightarrow> h_wire d = h_wire c \<and> h_failed d = h_failed c \<and> maxClientStreamID c \<le> maxClientStreamID d \<and> started d = started c \<and>
     (maxClientStreamID d = maxClientStreamID c \<or> maxClientStreamID d < 2 ^ 31) \<and> broken d = broken c \<and> c_sendWindow d - c_granted d = c_sendWindow c - c_granted c - n \<and>
     (\<forall>i \<le> maxClientStreamID c. st_state (objs c i) = StreamClosed \<longrightarrow> st_state (objs d i) = StreamClosed)"

lemma quiet_spent: "quiet c d \<Longrightarrow> spent 0 c d"
  by (simp add: quiet_def spent_def)

lemma spent_quiet: "spent n c d \<Longrightarrow> quiet d e \<Longrightarrow> spent n c e"
  by (simp add: quiet_def spent_def)

lemma quiet_then_spent: "quiet c d \<Longrightarrow> spent n d e \<Longrightarrow> spent n c e"
  by (simp add: quiet_def spent_def)

definition effect :: "h2_conn \<Rightarrow> h2frame list \<Rightarrow> u32 \<Rightarrow> h2_conn \<Rightarrow> bool" where
  "effect c fs sid d \<longleftrightarrow> (h_wire d = h_wire c \<or> h_wire d = h_wire c @ fs) \<and> maxClientStreamID c \<le> maxClientStreamID d \<and>
     (maxClientStreamID d = maxClientStreamID c \<or> maxClientStreamID d < 2 ^ 31) \<and> started d = started c \<and> broken d = broken c \<and>
     c_sendWindow d - c_granted d + data_bytes fs \<le> c_sendWindow c - c_granted c \<and>
     (\<forall>i \<le> maxClientStreamID c. st_state (objs c i) = StreamClosed \<longrightarrow> st_state (objs d i) = StreamClosed) \<and>
     list_all frame_valid fs \<and> ends_last sid fs \<and> (\<forall>i. i \<noteq> sid \<longrightarrow> list_all (\<lambda>g. \<not> content i g) fs) \<and>
     ((\<exists>f \<in> set fs. content sid f) \<longrightarrow>
        sid \<le> maxClientStreamID d \<and> (maxClientStreamID c < sid \<or> st_state (objs c sid) \<noteq> StreamClosed)) \<and>
     ((\<exists>f \<in> set fs. ends sid f) \<longrightarrow> st_state (objs d sid) = StreamClosed)"

definition wire_ok :: "h2_conn \<Rightarrow> bool" where
  "wire_ok c \<longleftrightarrow> list_all frame_valid (h_wire c) \<and> (\<forall>sid. ends_last sid (h_wire c)) \<and>
     (\<forall>sid. \<forall>f \<in> set (h_wire c). content sid f \<longrightarrow> sid \<le> maxClientStreamID c) \<and>
     (\<forall>sid. \<forall>f \<in> set (h_wire c). ends sid f \<longrightarrow> st_state (objs c sid) = StreamClosed) \<and>
     c_sendWindow c + data_bytes (h_wire c) \<le> defaultInitialWindowSize + c_granted c"

lemma wire_effect:
  assumes "wire_ok c" and "effect c fs sid d" shows "wire_ok d"
proof -
  let ?w = "h_wire c"
  have old: "st_state (objs d i) = StreamClosed" "i \<le> maxClientStreamID d" if "f \<in> set ?w" "ends i f" for f i
    using assms that ends_content [OF that(2)] unfolding wire_ok_def effect_def by (meson order_trans)+
  have bound: "i \<le> maxClientStreamID d" if "f \<in> set ?w" "content i f" for f i
    using assms that unfolding wire_ok_def effect_def by (meson order_trans)
  have s0: "c_sendWindow d + data_bytes ?w + data_bytes fs \<le> defaultInitialWindowSize + c_granted d"
    using assms unfolding wire_ok_def effect_def by linarith
  have s1: "c_sendWindow d + data_bytes ?w \<le> defaultInitialWindowSize + c_granted d"
    using s0 data_bytes_nonneg [of fs] by linarith
  have el: "ends_last i (?w @ fs)" for i
  proof (cases "i = sid")
    case True
    have "list_all (\<lambda>g. \<not> content sid g) fs" if "f \<in> set ?w" "ends sid f" for f
    proof (rule ccontr)
      assume "\<not> list_all (\<lambda>g. \<not> content sid g) fs"
      then have "maxClientStreamID c < sid \<or> st_state (objs c sid) \<noteq> StreamClosed" using assms(2) by (auto simp: effect_def list_all_iff)
      moreover have "st_state (objs c sid) = StreamClosed" "sid \<le> maxClientStreamID c"
        using assms(1) that ends_content [OF that(2)] by (auto simp: wire_ok_def)
      ultimately show False by auto
    qed
    then show ?thesis using True assms by (auto simp: ends_last_append wire_ok_def effect_def)
  next
    case False
    then have "list_all (\<lambda>g. \<not> content i g) fs" using assms(2) by (simp add: effect_def)
    then show ?thesis using assms(1) no_content_ends_last by (auto simp: ends_last_append wire_ok_def)
  qed
  have new: "i \<le> maxClientStreamID d" if "f \<in> set fs" "content i f" for f i
    using assms(2) that by (cases "i = sid") (auto simp: effect_def list_all_iff)
  have newe: "st_state (objs d i) = StreamClosed" if "f \<in> set fs" "ends i f" for f i
    using assms(2) that ends_content [OF that(2)] by (cases "i = sid") (auto simp: effect_def list_all_iff)
  have "h_wire d = ?w \<or> h_wire d = ?w @ fs" using assms(2) by (simp add: effect_def)
  then show ?thesis
  proof
    assume w: "h_wire d = ?w"
    show ?thesis using assms(1) old bound s1 unfolding wire_ok_def w by blast
  next
    assume w: "h_wire d = ?w @ fs"
    have "list_all frame_valid (?w @ fs)" using assms by (simp add: wire_ok_def effect_def)
    moreover have "\<forall>i. \<forall>f \<in> set (?w @ fs). content i f \<longrightarrow> i \<le> maxClientStreamID d" using bound new by auto
    moreover have "\<forall>i. \<forall>f \<in> set (?w @ fs). ends i f \<longrightarrow> st_state (objs d i) = StreamClosed" using old newe by auto
    moreover have "c_sendWindow d + data_bytes (?w @ fs) \<le> defaultInitialWindowSize + c_granted d" using s0 by simp
    ultimately show ?thesis unfolding wire_ok_def w using el by blast
  qed
qed

section \<open>What each section sends\<close>

lemma effect_write:
  assumes "spent n c d" and "data_bytes fs \<le> n" and "list_all frame_valid fs" and "ends_last sid fs"
    and "\<And>i. i \<noteq> sid \<Longrightarrow> list_all (\<lambda>g. \<not> content i g) fs"
    and "sid \<le> maxClientStreamID d" and "maxClientStreamID c < sid \<or> st_state (objs c sid) \<noteq> StreamClosed"
    and "\<exists>f \<in> set fs. ends sid f \<Longrightarrow> st_state (objs d sid) = StreamClosed"
  shows "effect c fs sid (fst (engine_Write fs d))"
  using assms by (auto simp: effect_def spent_def engine_eq)

lemma effect_control:
  assumes "quiet c d" and "control fs" shows "effect c fs 0 (fst (engine_Write fs d))"
proof -
  note c = control_content [OF assms(2)]
  have "\<not> ends 0 f" "\<not> content 0 f" if "f \<in> set fs" for f using c(1) [of 0] ends_content that by (auto simp: list_all_iff)
  then show ?thesis using assms(1) c no_content_ends_last [OF c(1)] by (auto simp: effect_def quiet_def engine_eq)
qed

lemma effect_quiet: "quiet c d \<Longrightarrow> effect c [] 0 d"
  by (simp add: effect_def quiet_def)

lemma effect_quiet_after: "effect c fs sid d \<Longrightarrow> quiet d e \<Longrightarrow> effect c fs sid e"
  by (auto simp: effect_def quiet_def)

lemma effect_quiet_before: "quiet c d \<Longrightarrow> effect d fs sid e \<Longrightarrow> effect c fs sid e"
  by (auto simp: effect_def quiet_def)

text \<open>Something is sent, or nothing.\<close>

definition effects :: "h2_conn \<Rightarrow> h2_conn \<Rightarrow> bool" where
  "effects c d \<longleftrightarrow> (\<exists>fs sid. effect c fs sid d)"

lemma effectsI [intro]: "effect c fs sid d \<Longrightarrow> effects c d" "quiet c d \<Longrightarrow> effects c d"
  using effect_quiet by (auto simp: effects_def)

lemma effects_control: "quiet c d \<Longrightarrow> control fs \<Longrightarrow> effects c (fst (engine_Write fs d))"
  using effect_control by blast

lemma effects_quiet: "quiet c d \<Longrightarrow> effects d e \<Longrightarrow> effects c e" "effects c d \<Longrightarrow> quiet d e \<Longrightarrow> effects c e"
  by (auto simp: effects_def intro: effect_quiet_before effect_quiet_after)

lemma wire_effects: "wire_ok c \<Longrightarrow> effects c d \<Longrightarrow> wire_ok d"
  by (auto simp: effects_def intro: wire_effect)

lemma endStream_closes: "st_state (objs (fst (endStreamLocalLocked sid c)) sid) = StreamClosed"
  by (simp add: endStreamLocalLocked_def Let_def remove_state)

lemma early_reset_simps [simp]: "sid < 2 ^ 31 \<Longrightarrow> list_all frame_valid (early_reset sid b)" "data_bytes (early_reset sid b) = 0"
  "list_all (\<lambda>g. \<not> content i g) (early_reset sid b)" "ends_last i (early_reset sid b)" "f \<in> set (early_reset sid b) \<Longrightarrow> \<not> ends i f"
  by (auto simp: early_reset_def)

lemma peer_frame: "h2_inv d c \<Longrightarrow> 0 < peerMaxFrameSize c \<and> peerMaxFrameSize c < 2 ^ 24"
  by (auto simp: h2_inv_def limits_ok_def minMaxFrameSize_def maxFrameSizeLimit_def)

lemma writeErr_open: "writeErrLocked sid c = None \<Longrightarrow> st_state (objs c sid) \<noteq> StreamClosed"
  by (auto simp: writeErrLocked_def Let_def split: if_splits)

lemma ended_if_facts:
  "quiet c (fst (ended_if b sid c))" "b \<Longrightarrow> st_state (objs (fst (ended_if b sid c)) sid) = StreamClosed"
  by (simp_all add: ended_if_def quiet_endStream endStream_closes)

lemma writeHeaders_effects:
  assumes inv: "h2_inv 0 c" and sid: "sid \<le> maxClientStreamID c" "sid < 2 ^ 31"
  shows "effects c (fst (writeHeaders E sid status flds ct cl dt fin info c))"
proof (cases "writeErrLocked sid c \<noteq> None \<or> info \<and> wroteHeaders (objs c sid)")
  case True
  then have "fst (writeHeaders E sid status flds ct cl dt fin info c) = c" by (auto simp: writeHeaders_def)
  then show ?thesis by auto
next
  case False
  define c2 where "c2 = encoderLocked (if \<not> info \<and> status > 0 then upd sid (\<lambda>s. s\<lparr>wroteHeaders := True, expectContinue := False\<rparr>) c else c)"
  have q2: "quiet c c2" unfolding c2_def by (intro quiet_comp quiet_if) simp_all
  have m: "peerMaxFrameSize c2 = peerMaxFrameSize c" by (simp add: c2_def)
  define r where "r = ended_if fin sid c2"
  define b where "b = encodeResponseHeadersLocked E status flds ct cl dt (fst r)"
  have qr: "quiet c (snd b)" unfolding b_def r_def using quiet_trans [OF q2 ended_if_facts(1)] by (intro quiet_comp)
  let ?fs = "[F_Headers sid (fst b) fin (peerMaxFrameSize c2)] @ early_reset sid (snd r)"
  have "fst (writeHeaders E sid status flds ct cl dt fin info c) = fst (engine_Write ?fs (snd b))"
    using False unfolding writeHeaders_def Let_def case_prod_unfold c2_def [symmetric] ended_if_def [symmetric] r_def [symmetric] b_def [symmetric]
    by auto
  moreover have "effect c ?fs sid (fst (engine_Write ?fs (snd b)))"
  proof (rule effect_write [OF quiet_spent [OF qr]])
    show "sid \<le> maxClientStreamID (snd b)" using qr sid(1) by (simp add: quiet_def)
    show "maxClientStreamID c < sid \<or> st_state (objs c sid) \<noteq> StreamClosed" using False writeErr_open by blast
    have "st_state (objs (fst r) sid) = StreamClosed" if fin using ended_if_facts(2) [OF that] by (simp add: r_def)
    then show "\<exists>f \<in> set ?fs. ends sid f \<Longrightarrow> st_state (objs (snd b) sid) = StreamClosed" by (auto simp: b_def)
  qed (use sid peer_frame [OF inv] m in auto)
  ultimately show ?thesis by auto
qed

text \<open>DATA frames are charged to the windows.\<close>

lemma charged_spent: "quiet c d \<Longrightarrow> spent (int n) c (charged sid n d)"
  by (simp add: charged_def spent_def quiet_def upd_def)

lemma data_effects:
  assumes q: "quiet c d" and sid: "sid \<le> maxClientStreamID c" "sid < 2 ^ 31" and open': "st_state (objs c sid) \<noteq> StreamClosed"
    and n: "length xs = n" "n < 2 ^ 24"
  shows "effects c (fst (engine_Write ([F_Data sid xs fin] @ early_reset sid (snd (ended_if fin sid (charged sid n d))))
    (fst (ended_if fin sid (charged sid n d)))))"
proof -
  let ?r = "ended_if fin sid (charged sid n d)"
  have sp: "spent (int n) c (fst ?r)" by (rule spent_quiet [OF charged_spent [OF q] ended_if_facts(1)])
  have "effect c ([F_Data sid xs fin] @ early_reset sid (snd ?r)) sid (fst (engine_Write ([F_Data sid xs fin] @ early_reset sid (snd ?r)) (fst ?r)))"
  proof (rule effect_write [OF sp])
    show "sid \<le> maxClientStreamID (fst ?r)" using sp sid(1) by (auto simp: spent_def)
    show "maxClientStreamID c < sid \<or> st_state (objs c sid) \<noteq> StreamClosed" using open' by simp
    show "\<exists>f \<in> set ([F_Data sid xs fin] @ early_reset sid (snd ?r)). ends sid f \<Longrightarrow> st_state (objs (fst ?r) sid) = StreamClosed"
      using ended_if_facts(2) by (auto simp: ends_content)
  qed (use sid n in auto)
  then show ?thesis by blast
qed

lemma charged_0 [simp]: "charged sid 0 c = c"
  by (simp add: charged_def upd_def)

lemma writeData_effects:
  assumes inv: "h2_inv 0 c" and sid: "sid \<le> maxClientStreamID c" "sid < 2 ^ 31"
  shows "effects c (fst (writeData_round now sid data fin c))"
proof (cases "may_send sid data c")
  case True
  then have "st_state (objs c sid) \<noteq> StreamClosed" using writeErr_open by (simp add: may_send_def)
  moreover have "sendable sid data c < 2 ^ 24" using sendable_le(3) [OF True] peer_frame [OF inv] by simp
  ultimately show ?thesis
    using data_effects [of c "unregisterWaiterLocked sid c" sid "take (sendable sid data c) data" "sendable sid data c"
        "fin \<and> sendable sid data c = length data"] sid sendable_le(4) [OF True]
    unfolding writeData_sends [OF True] Let_def fst_if fst_conv if_cancel by (simp add: quiet_comp)
next
  case False
  have em: "effects c (fst (writeData_empty sid fin c))"
  proof (cases "fin \<and> writeErrLocked sid c = None")
    case True
    then show ?thesis using data_effects [of c c sid "[]" 0 True] sid writeErr_open [of sid c]
      by (simp add: writeData_empty_def Let_def case_prod_unfold ended_if_def)
  qed (auto simp: writeData_empty_def)
  have "fst (writeData_round now sid data fin c) \<in> {fst (writeData_empty sid fin c), unregisterWaiterLocked sid c, register_waiter sid c,
      unregisterWaiterLocked sid (register_waiter sid c)}"
    by (rule writeData_waits [OF False])
  moreover have "quiet c (unregisterWaiterLocked sid (register_waiter sid c))" by (intro quiet_comp quiet_register)
  ultimately show ?thesis using em quiet_register [of c sid] by auto
qed

lemma writeHeadersAndBody_effects:
  assumes inv: "h2_inv 0 c" and sid: "sid \<le> maxClientStreamID c" "sid < 2 ^ 31"
  shows "effects c (fst (writeHeadersAndBody E sid status flds ct cl dt body c))"
proof (cases "writeErrLocked sid c")
  case (Some e)
  then show ?thesis by (auto simp: writeHeadersAndBody_def)
next
  case None
  define c1 where "c1 = encoderLocked (upd sid (\<lambda>s. s\<lparr>wroteHeaders := True, expectContinue := False\<rparr>) c)"
  let ?n = "length body"
  define combine where "combine \<longleftrightarrow> ?n \<le> peerMaxFrameSize c1 \<and> h_writable c1 \<and> int ?n \<le> c_sendWindow c1 \<and> int ?n \<le> sendWindow (objs c1 sid)"
  define r where "r = (if combine then endStreamLocalLocked sid (charged sid ?n c1) else (c1, False))"
  define b where "b = encodeResponseHeadersLocked E status flds ct cl dt (fst r)"
  let ?f1 = "[F_Headers sid (fst b) False (peerMaxFrameSize c1)]"
  let ?f2 = "?f1 @ [F_Data sid body True]"
  have q1: "quiet c c1" unfolding c1_def by (intro quiet_comp) simp_all
  have m: "0 < peerMaxFrameSize c1 \<and> peerMaxFrameSize c1 < 2 ^ 24" using peer_frame [OF inv] by (simp add: c1_def)
  have op: "maxClientStreamID c < sid \<or> st_state (objs c sid) \<noteq> StreamClosed" using writeErr_open [OF None] by simp
  have "fst (writeHeadersAndBody E sid status flds ct cl dt body c) \<in>
      (if combine then {fst (engine_Write (?f2 @ early_reset sid (snd r)) (snd b)), fst (engine_Write ?f2 (snd b))}
       else {fst (engine_Write ?f1 (snd b))})"
    unfolding writeHeadersAndBody_def Let_def case_prod_unfold c1_def [symmetric] combine_def [symmetric]
      charged_def [symmetric] r_def [symmetric] b_def [symmetric] by (simp add: None)
  moreover have "effects c (fst (engine_Write ?f1 (snd b)))" if "\<not> combine"
  proof -
    have "quiet c (snd b)" unfolding b_def r_def using that q1 by (intro quiet_comp) simp
    from effect_write [OF quiet_spent [OF this], of ?f1 sid] this show ?thesis using sid m op by (auto simp: quiet_def)
  qed
  moreover have "effects c (fst (engine_Write (?f2 @ fs) (snd b)))" if combine "fs \<in> {early_reset sid (snd r), []}" for fs
  proof -
    have "spent (int ?n) c (fst r)" unfolding r_def using spent_quiet [OF charged_spent [OF q1] quiet_endStream] that(1) by simp
    then have sp: "spent (int ?n) c (snd b)" unfolding b_def by (rule spent_quiet) (rule quiet_ops)
    have "st_state (objs (snd b) sid) = StreamClosed" using that endStream_closes by (simp add: b_def r_def)
    moreover have "?n < 2 ^ 24" using that m by (auto simp: combine_def)
    moreover have "sid \<le> maxClientStreamID (snd b)" using sp sid(1) unfolding spent_def by (blast intro: order_trans)
    moreover have "data_bytes fs = 0" "list_all frame_valid fs" "\<And>i. list_all (\<lambda>g. \<not> content i g) fs" "\<And>i. ends_last i fs"
      using that(2) sid(2) by auto
    ultimately have "effect c (?f2 @ fs) sid (fst (engine_Write (?f2 @ fs) (snd b)))"
      using sid(2) m op by (intro effect_write [OF sp]) auto
    then show ?thesis by blast
  qed
  ultimately show ?thesis by (auto split: if_splits)
qed

lemma control_effects:
  "effects c (sendGoAway b c)" "effects c (sendWindowUpdates sid x y c)" if "sid < 2 ^ 31" for sid
  using that by (simp_all add: sendGoAway_def sendWindowUpdates_def Let_def effects_control effectsI(2) quiet_comp)

lemma resetStream_effects: "sid < 2 ^ 31 \<Longrightarrow> effects c (resetStream sid code c)"
  by (simp add: resetStream_def Let_def case_prod_unfold effects_control effectsI(2) quiet_comp)

lemma read_round_effects: "sid < 2 ^ 31 \<Longrightarrow> effects c (fst (read_round sid n c))"
proof -
  assume sid: "sid < 2 ^ 31"
  have "quiet c (fst (consumeReceiveBytesLocked sid m (upd sid (read_out k) c)))" for m k
    by (rule quiet_trans [OF _ quiet_consume]) simp
  then have "effects c (fst (consumeReceiveBytesLocked sid m (upd sid (read_out k) c)))"
    "effects c (sendWindowUpdates sid x y (fst (consumeReceiveBytesLocked sid m (upd sid (read_out k) c))))" for m k x y
    using effects_quiet(1) [OF _ control_effects(2) [OF sid]] by blast+
  moreover have "effects c (upd sid (\<lambda>s. s\<lparr>readReady := r s\<rparr>) c)" for r by (rule effectsI(2)) simp
  ultimately show ?thesis by (auto simp: read_round_def Let_def case_prod_unfold)
qed

lemma body_Close_effects: "effects c (body_Close sid c)"
proof -
  let ?c3 = "upd sid wakeReaderLocked (fst (takeConnWindowUpdateLocked
      (discardUnreadBodyLocked sid (upd sid (\<lambda>s. s\<lparr>bodyClosed := True, expectContinue := False\<rparr>) c))))"
  have q: "quiet c ?c3" by (intro quiet_comp) simp_all
  then have "effects c (sendWindowUpdates 0 x 0 ?c3)" for x
    using effects_quiet(1) [OF q control_effects(2) [of 0]] by simp
  with q show ?thesis by (auto simp: body_Close_def Let_def case_prod_unfold)
qed

lemma cleanup_effects:
  assumes "sid < 2 ^ 31" shows "effects c (cleanupStreamAfterHandler sid c)"
proof -
  have ci: "effects c (if b then engine_Close (engine_SetDeadline t d) else d)" if "effects c d" for b t d
    using that by (auto intro: effects_quiet(2) quiet_comp)
  show ?thesis
    using assms unfolding cleanupStreamAfterHandler_def Let_def case_prod_unfold
    by (simp add: ci effects_control effectsI(2) quiet_comp quiet_if)
qed

lemma read_continue_effects:
  assumes "h2_inv 0 c" and "sid \<le> maxClientStreamID c" "sid < 2 ^ 31" shows "effects c (read_continue E sid c)"
proof -
  let ?d = "upd sid (\<lambda>s. s\<lparr>expectContinue := False\<rparr>) c"
  have "h2_inv 0 ?d" by (rule inv_upd_same [OF assms(1)]) (simp add: same_stream_def)
  then have "effects ?d (fst (writeHeaders E sid 100 [] [] [] [] False True ?d))" using assms by (intro writeHeaders_effects) simp_all
  then have "effects c (fst (writeHeaders E sid 100 [] [] [] [] False True ?d))" by (rule effects_quiet(1) [rotated]) simp
  then show ?thesis by (simp add: read_continue_def Let_def effectsI(2))
qed

lemma onClose_effects: "effects c (h2_onClose c)"
proof -
  have "quiet c (fold (\<lambda>sid. removeStreamLocked sid r w) ids d)" if "quiet c d" for r w ids d
    using that by (induction ids arbitrary: d) (simp_all add: quiet_comp(6))
  then have "quiet c (h2_onClose c)" by (simp add: h2_onClose_def)
  then show ?thesis by blast
qed

section \<open>What each frame causes\<close>

lemma spent_effects: "spent 0 c d \<Longrightarrow> effects c d"
  by (auto simp: effects_def effect_def spent_def intro!: exI [of _ "[]"])

lemma replyErrorStatus_effects:
  assumes inv: "h2_inv 0 d" and sp: "spent 0 c d" and sid: "sid \<le> maxClientStreamID d" "maxClientStreamID c < sid" "sid < 2 ^ 31"
    and closed: "st_state (objs d sid) = StreamClosed"
  shows "effects c (replyErrorStatus E sid code ended d)"
proof (cases "h_closed d")
  case True
  with sp show ?thesis by (simp add: replyErrorStatus_def Let_def spent_effects)
next
  case False
  define c1 where "c1 = encoderLocked (if \<not> ended then noteServerResetLocked sid d else d)"
  define body where "body = nat_string code @ '' '' @ http_StatusText code"
  define can where "can \<longleftrightarrow> int (length body) \<le> c_sendWindow c1 \<and> int (length body) \<le> peerInitialWindowSize c1 \<and> length body \<le> peerMaxFrameSize c1"
  define c2 where "c2 = (if can then c1\<lparr>c_sendWindow := c_sendWindow c1 - int (length body)\<rparr> else c1)"
  define b where "b = encodeResponseHeadersLocked E code [] ''text/plain; charset=utf-8'' (if can then nat_string (length body) else []) (currentDate E) c2"
  let ?n = "if can then int (length body) else 0"
  let ?fs = "[F_Headers sid (fst b) (\<not> can) (peerMaxFrameSize c1)] @ (if can then [F_Data sid (map of_char body) True] else []) @ early_reset sid (\<not> ended)"
  have q1: "quiet d c1" unfolding c1_def by (intro quiet_comp quiet_if) simp_all
  have "spent 0 c c1" using sp q1 by (rule spent_quiet)
  then have "spent ?n c c2" by (simp add: c2_def spent_def)
  then have spb: "spent ?n c (snd b)" unfolding b_def by (rule spent_quiet) (rule quiet_ops)
  have cl: "st_state (objs (snd b) sid) = StreamClosed" using q1 closed by (auto simp: b_def c2_def quiet_def)
  have m: "0 < peerMaxFrameSize c1 \<and> peerMaxFrameSize c1 < 2 ^ 24" using peer_frame [OF inv] by (simp add: c1_def)
  have mx: "maxClientStreamID (snd b) = maxClientStreamID d" using q1 by (simp add: b_def c2_def quiet_def)
  have "effect c ?fs sid (fst (engine_Write ?fs (snd b)))"
    using sid mx cl m by (intro effect_write [OF spb]) (auto simp: can_def ends_last_append)
  moreover have "replyErrorStatus E sid code ended d = fst (engine_Write ?fs (snd b))"
    using False unfolding replyErrorStatus_def Let_def case_prod_unfold c1_def [symmetric] body_def [symmetric] can_def [symmetric]
      c2_def [symmetric] b_def [symmetric] by simp
  ultimately show ?thesis by auto
qed

text \<open>The result of a frame: what is sent at once, the control frames added, and the stream that was opened.\<close>

definition frame_effects :: "h2frame list \<Rightarrow> h2_conn \<Rightarrow> handled_headers \<Rightarrow> bool" where
  "frame_effects out c r \<longleftrightarrow> effects c (fst r) \<and> (control out \<longrightarrow> control (fst (snd r))) \<and>
     (\<forall>x. fst (snd (snd r)) = Some x \<longrightarrow> x \<le> maxClientStreamID (fst r)) \<and>
     (maxClientStreamID c < 2 ^ 31 \<longrightarrow> maxClientStreamID (fst r) < 2 ^ 31)"

lemma frame_quiet: "quiet_out out c (fst r) (fst (snd r)) \<Longrightarrow> fst (snd (snd r)) = None \<Longrightarrow> frame_effects out c r"
  by (auto simp: frame_effects_def quiet_out_def quiet_def intro: effectsI)

lemma frame_no_stream: "quiet_out out c (fst r) (fst (snd r)) \<Longrightarrow> frame_effects out c (no_stream r)"
  by (rule frame_quiet) (simp_all add: no_stream_def case_prod_unfold)

lemma frame_effects_before:
  assumes "quiet c d" and "frame_effects out d r" shows "frame_effects out c r"
proof -
  have "maxClientStreamID d = maxClientStreamID c" using assms(1) by (simp add: quiet_def)
  then show ?thesis using assms(2) effects_quiet(1) [OF assms(1)] by (simp add: frame_effects_def)
qed

lemma refuse_effects:
  assumes "spent 0 c d" and "sid < 2 ^ 31" and "maxClientStreamID d < 2 ^ 31" shows "frame_effects out c (refuse sid code out d)"
proof -
  have "effects c (fst (takeControlToken d))" by (rule spent_effects [OF spent_quiet [OF assms(1) quiet_ops(2)]])
  with assms show ?thesis by (auto simp: frame_effects_def refuse_def Let_def case_prod_unfold)
qed

lemma openStream_effects:
  assumes sp: "spent 0 c d" and sid: "maxClientStreamID c < sid" "sid \<le> maxClientStreamID d"
  shows "effects c (fst (openStream sid rq d))" "maxClientStreamID (fst (openStream sid rq d)) = maxClientStreamID d"
    "snd (openStream sid rq d) = Some x \<Longrightarrow> x = sid"
proof -
  let ?s = "new_stream (peerInitialWindowSize d) (i32 (InitialWindowSize (opts d))) (rq_contentLength rq)
                  (streamEnded (builder d)) (rq_expectContinue rq) (rq_trailer rq)"
  let ?d = "d\<lparr>objs := (objs d)(sid := ?s), streams := streams d @ [sid], activeStreams := activeStreams d + 1\<rparr>"
  have "spent 0 c ?d" using sp sid(1) by (auto simp: spent_def)
  then have "effects c ?d" "effects c (setDeadlineLocked ?d)" 
    using spent_effects spent_quiet [OF _ quiet_ops(1)] by blast+
  moreover have "fst (openStream sid rq d) = (if goingAway d \<or> h_closed d then d else if activeStreams d = 0 then setDeadlineLocked ?d else ?d)"
    unfolding openStream_def Let_def by (simp only: fst_if fst_conv)
  ultimately show "effects c (fst (openStream sid rq d))" "maxClientStreamID (fst (openStream sid rq d)) = maxClientStreamID d"
    "snd (openStream sid rq d) = Some x \<Longrightarrow> x = sid"
    using spent_effects [OF sp] by (simp_all only: if_split simp_thms setDeadline_simps) (auto simp: openStream_def Let_def split: if_splits)
qed

lemma finishHeaderBlock_effects:
  assumes inv: "h2_inv 0 c" and cont: "continuationStreamID c = 0" and sid: "hb_streamID (builder c) < 2 ^ 31"
    "\<not> isTrailer (builder c) \<Longrightarrow> maxClientStreamID c < hb_streamID (builder c)"
  shows "frame_effects out c (finishHeaderBlock E out c)"
proof -
  let ?sid = "hb_streamID (builder c)"
  define c0 where "c0 = c\<lparr>decoder := Some ((case decoder c of None \<Rightarrow> [] | Some h \<Rightarrow> h) @ [Dec_Close])\<rparr>"
  have c0: "h2_inv 0 c0" "builder c0 = builder c" "quiet c c0" using inv by (simp_all add: c0_def)
  define c1 where "c1 = replenishControlTokens 2 (c0\<lparr>maxClientStreamID := ?sid\<rparr>)"
  show ?thesis
  proof (cases "isTrailer (builder c) \<or> \<not> dec_close E (case decoder c of None \<Rightarrow> [] | Some h \<Rightarrow> h)")
    case True
    have "sid \<in> set (streams c0) \<Longrightarrow> st_state (objs c0 sid) \<noteq> StreamClosed" for sid using stream_of(2) [OF c0(1)] by blast
    then have "quiet_out out c (fst (finishTrailerBlock ?sid out c0)) (fst (snd (finishTrailerBlock ?sid out c0)))"
      using quiet_outI [OF c0(3) trailer_out [OF sid(1)]] by blast
    with True c0(3) show ?thesis
      unfolding finishHeaderBlock_def Let_def case_prod_unfold c0_def [symmetric] c0(2)
      by (intro frame_quiet) (auto simp: quiet_out_def)
  next
    case False
    then have nt: "maxClientStreamID c < ?sid" using sid(2) by blast
    have i1: "h2_inv 0 c1" unfolding c1_def using nt cont by (intro inv_tokens(2) inv_client [OF c0(1)]) (simp_all add: c0_def)
    have m1: "maxClientStreamID c1 = ?sid" "builder c1 = builder c" by (simp_all add: c1_def c0_def)
    have sp: "spent 0 c c1" using nt sid(1) by (auto simp: c1_def c0_def spent_def replenishControlTokens_def)
    have "?sid \<notin> set (streams c1)" using stream_of(3) [OF inv, of ?sid] nt by (auto simp: c1_def c0_def)
    then have cl: "st_state (objs c1 ?sid) = StreamClosed" using stream_of(2) [OF i1] by blast
    have "frame_effects out c (c1, out, None, errCodeNo)" using spent_effects [OF sp] sid(1) m1 by (simp add: frame_effects_def)
    moreover have "frame_effects out c (refuse ?sid code out c1)" for code using refuse_effects [OF sp sid(1)] m1 sid(1) by simp
    moreover have "frame_effects out c (replyErrorStatus E ?sid code e c1, out, None, errCodeNo)" for code e
    proof -
      have "effects c (replyErrorStatus E ?sid code e c1)" using nt m1 sid(1) cl by (intro replyErrorStatus_effects [OF i1 sp]) simp_all
      moreover have "maxClientStreamID (replyErrorStatus E ?sid code e c1) = ?sid"
        using m1 by (simp add: replyErrorStatus_def Let_def case_prod_unfold)
      ultimately show ?thesis using sid(1) by (simp add: frame_effects_def)
    qed
    moreover have "frame_effects out c (fst (openStream ?sid rq c1), out, snd (openStream ?sid rq c1), errCodeNo)" for rq
      using openStream_effects [OF sp nt, of rq] m1 sid(1) by (auto simp: frame_effects_def)
    ultimately show ?thesis
      using False unfolding finishHeaderBlock_def Let_def case_prod_unfold c0_def [symmetric] c0(2) c1_def [symmetric] m1(2)
      by (simp split: parsedRequest.split)
  qed
qed

lemma quiet_decoder: "quiet c (fst (decoder_Write E frag c))"
  using decoder_Write_eq [of E frag c] by auto

lemma handleHeaders_effects:
  assumes inv: "h2_inv 0 c" and cont: "continuationStreamID c = 0" and sid: "streamID fh < 2 ^ 31"
  shows "frame_effects out c (handleHeaders E fh payload out c)"
proof -
  let ?sid = "streamID fh"
  have k: "frame_effects out c (d, out, None, code)" if "quiet c d" for d code
    using that by (intro frame_quiet) (simp_all add: quiet_out_def)
  show ?thesis
  proof (cases "?sid = 0 \<or> even (unat ?sid) \<or> stripPadding payload (flags fh) = None")
    case True
    then show ?thesis using k by (cases "?sid = 0 \<or> even (unat ?sid)") (auto simp: handleHeaders_def Let_def)
  next
    case False
    then obtain frag0 pad where strip: "stripPadding payload (flags fh) = Some (frag0, pad)" by auto
    define trailer where "trailer \<longleftrightarrow> ?sid \<in> set (streams c) \<or> ?sid \<notin> set (streams c) \<and> wasRecentlyResetLocked ?sid c"
    have body: "frame_effects out c (if \<not> trailer \<and> ?sid \<le> maxClientStreamID c then (c, out, None, errCodeProtocol)
        else if \<not> snd (decoder_Write E frag c1) then (fst (decoder_Write E frag c1), out, None, errCodeCompression)
        else if flags fh AND flagEndHeaders = 0
        then ((fst (decoder_Write E frag c1))\<lparr>continuationStreamID := ?sid, continuationFrames := 0\<rparr>, out, None, errCodeNo)
        else finishHeaderBlock E out (fst (decoder_Write E frag c1)))"
      if c1: "c1 = c\<lparr>builder := hb_reset ?sid mx trailer e self, decoder := d, emitEnabled := True\<rparr>" for c1 frag mx e self d
    proof -
      have q1: "quiet c c1" by (simp add: c1)
      then have q2: "quiet c (fst (decoder_Write E frag c1))" by (rule quiet_trans [OF _ quiet_decoder])
      have i1: "h2_inv 0 c1" using inv cont by (simp add: c1 h2_inv_def table_ok_def flow_ok_def waiting_bytes_def limits_ok_def block_ok_def)
      obtain b e' d' where c2: "fst (decoder_Write E frag c1) = c1\<lparr>builder := b, emitEnabled := e', decoder := d'\<rparr>"
        and b: "hb_streamID b = hb_streamID (builder c1)" "isTrailer b = isTrailer (builder c1)"
        using decoder_Write_eq [of E frag c1] by auto
      have i2: "h2_inv 0 (fst (decoder_Write E frag c1))" using inv_builder [OF i1 b] by (simp add: c2)
      have "frame_effects out (fst (decoder_Write E frag c1)) (finishHeaderBlock E out (fst (decoder_Write E frag c1)))"
        if "\<not> (\<not> trailer \<and> ?sid \<le> maxClientStreamID c)"
      proof (rule finishHeaderBlock_effects [OF i2])
        have p: "continuationStreamID (fst (decoder_Write E frag c1)) = 0" "builder (fst (decoder_Write E frag c1)) = b"
          "maxClientStreamID (fst (decoder_Write E frag c1)) = maxClientStreamID c"
          unfolding c2 using cont by (simp_all add: c1)
        have b': "hb_streamID b = ?sid" "isTrailer b = trailer" using b by (simp_all add: c1 hb_reset_def)
        show "continuationStreamID (fst (decoder_Write E frag c1)) = 0" "hb_streamID (builder (fst (decoder_Write E frag c1))) < 2 ^ 31"
          "\<not> isTrailer (builder (fst (decoder_Write E frag c1))) \<Longrightarrow>
            maxClientStreamID (fst (decoder_Write E frag c1)) < hb_streamID (builder (fst (decoder_Write E frag c1)))"
          unfolding p b' using sid that by auto
      qed
      then have "frame_effects out c (finishHeaderBlock E out (fst (decoder_Write E frag c1)))" if "\<not> (\<not> trailer \<and> ?sid \<le> maxClientStreamID c)"
        using frame_effects_before [OF q2] that by blast
      with k q2 show ?thesis by (simp only: quiet_fields if_split) auto
    qed
    from False have nsid: "\<not> (?sid = 0 \<or> even (unat ?sid))" by blast
    show ?thesis
      unfolding handleHeaders_def Let_def strip option.case prod.case if_not_P [OF nsid] case_prod_unfold fst_conv trailer_def [symmetric]
      by (rule if_cases, rule k, rule quiet_refl, rule body, rule refl)
  qed
qed

lemma handleContinuation_effects:
  assumes inv: "h2_inv 0 c" and cont: "continuationStreamID c = streamID fh" "streamID fh \<noteq> 0" and sid: "streamID fh < 2 ^ 31"
  shows "frame_effects out c (handleContinuation E fh payload out c)"
proof -
  have k: "frame_effects out c (d, out, None, code)" if "quiet c d" for d code
    using that by (intro frame_quiet) (simp_all add: quiet_out_def)
  define c1 where "c1 = c\<lparr>continuationFrames := continuationFrames c + 1\<rparr>"
  have c1: "h2_inv 0 c1" "quiet c c1" using inv by (simp_all add: c1_def)
  define c2 where "c2 = fst (decoder_Write E payload c1)"
  obtain b e d where c2: "c2 = c1\<lparr>builder := b, emitEnabled := e, decoder := d\<rparr>"
    and b0: "hb_streamID b = hb_streamID (builder c1)" "isTrailer b = isTrailer (builder c1)"
    using decoder_Write_eq [of E payload c1] by (auto simp: c2_def)
  have b: "hb_streamID b = streamID fh" "\<not> isTrailer b \<Longrightarrow> maxClientStreamID c < streamID fh"
    using b0 inv cont by (auto simp: c1_def h2_inv_def block_ok_def)
  have i2: "h2_inv 0 c2" using inv_builder [OF c1(1) b0] by (simp add: c2)
  have q2: "quiet c c2" unfolding c2_def by (rule quiet_trans [OF c1(2) quiet_decoder])
  let ?c3 = "c2\<lparr>continuationStreamID := 0, continuationFrames := 0\<rparr>"
  have i3: "h2_inv 0 ?c3" using i2 by (simp add: h2_inv_def table_ok_def flow_ok_def waiting_bytes_def limits_ok_def block_ok_def)
  have "frame_effects out ?c3 (finishHeaderBlock E out ?c3)"
    using b sid by (intro finishHeaderBlock_effects [OF i3]) (auto simp: c2 c1_def)
  then have "frame_effects out c (finishHeaderBlock E out ?c3)" using q2 by (intro frame_effects_before [of c ?c3]) simp_all
  then show ?thesis
    unfolding handleContinuation_def Let_def c1_def [symmetric] case_prod_unfold c2_def [symmetric]
    using k c1(2) q2 by simp
qed

lemma handleFrame_effects:
  assumes inv: "h2_inv 0 c" and len: "length payload = unat (fh_length fh)" and sid: "streamID fh < 2 ^ 31"
  shows "frame_effects out c (handleFrame E fh payload out c)"
proof -
  have k: "frame_effects out c (c, out, None, code)" for code by (rule frame_quiet) (simp_all add: quiet_out_def)
  note q = frame_no_stream [OF data_out [OF sid, of out c payload]] frame_no_stream [OF small_out(1) [of out c fh payload]]
    frame_no_stream [OF small_out(2) [OF len, of out c]] frame_no_stream [OF small_out(3) [OF sid, of out c payload]]
    frame_no_stream [OF small_out(4) [OF sid, of out c]] frame_no_stream [OF windowUpdate_out [OF sid, of out c payload]]
  show ?thesis
    unfolding handleFrame_def
    using k q handleHeaders_effects [OF inv _ sid] handleContinuation_effects [OF inv _ _ sid] by simp
qed

end
