(* ===== verification/H2Reach.thy ===== *)
theory H2Reach
  imports H2System "HOL-Library.Multiset"
begin

text \<open>
  The states an HTTP/2 connection can reach, and what holds in all of them. A state is the connection and, while the
  reactor is inside \<^verbatim>\<open>onData\<close>, what it has collected and the data left. Frames of the client, callbacks of the engine,
  sections of the handlers of the streams already started, and changes of the environment come in any order.
\<close>

section \<open>Steps\<close>

record h2_sys =
  sys_conn :: h2_conn
  sys_data :: "(collected \<times> bytes) option"

datatype h2_op =
    Op_Headers u32 nat "field list" string string string bool
  | Op_Informational u32 nat "field list"
  | Op_Data u32 bool bytes bool
  | Op_HeadersAndBody u32 nat "field list" string string string bytes
  | Op_Continue u32
  | Op_Read u32 nat
  | Op_CloseBody u32
  | Op_Reset u32 errCode
  | Op_Cleanup u32

fun op_stream :: "h2_op \<Rightarrow> u32" where
  "op_stream (Op_Headers sid _ _ _ _ _ _) = sid"
| "op_stream (Op_Informational sid _ _) = sid"
| "op_stream (Op_Data sid _ _ _) = sid"
| "op_stream (Op_HeadersAndBody sid _ _ _ _ _ _) = sid"
| "op_stream (Op_Continue sid) = sid"
| "op_stream (Op_Read sid _) = sid"
| "op_stream (Op_CloseBody sid) = sid"
| "op_stream (Op_Reset sid _) = sid"
| "op_stream (Op_Cleanup sid) = sid"

fun run_op :: "h2_env \<Rightarrow> h2_op \<Rightarrow> h2_conn \<Rightarrow> h2_conn" where
  "run_op E (Op_Headers sid status flds ct cl dt fin) c = fst (writeHeaders E sid status flds ct cl dt fin False c)"
| "run_op E (Op_Informational sid code flds) c = fst (writeHeaders E sid code flds [] [] [] False True c)"
| "run_op E (Op_Data sid now data fin) c = fst (writeData_round now sid data fin c)"
| "run_op E (Op_HeadersAndBody sid status flds ct cl dt body) c = fst (writeHeadersAndBody E sid status flds ct cl dt body c)"
| "run_op E (Op_Continue sid) c = read_continue E sid c"
| "run_op E (Op_Read sid n) c = fst (read_round sid n c)"
| "run_op E (Op_CloseBody sid) c = body_Close sid c"
| "run_op E (Op_Reset sid code) c = resetStream sid code c"
| "run_op E (Op_Cleanup sid) c = cleanupStreamAfterHandler sid c"

datatype h2_event = Ev_Writable | Ev_Closing bool | Ev_Close | Ev_GoAway bool

fun run_event :: "h2_event \<Rightarrow> h2_conn \<Rightarrow> h2_conn" where
  "run_event Ev_Writable c = h2_onWritable c"
| "run_event (Ev_Closing p) c = h2_onClosing p c"
| "run_event Ev_Close c = h2_onClose c"
| "run_event (Ev_GoAway b) c = sendGoAway b c"

inductive h2_step :: "h2_env \<Rightarrow> h2_sys \<Rightarrow> h2_sys \<Rightarrow> bool" for E where
  bad_preface: "\<lbrakk>sys_data s = None; \<not> broken (sys_conn s); read_preface data (sys_conn s) = None\<rbrakk> \<Longrightarrow>
     h2_step E s (s\<lparr>sys_conn := engine_Close ((sys_conn s)\<lparr>broken := True\<rparr>)\<rparr>)"
| preface: "\<lbrakk>sys_data s = None; \<not> broken (sys_conn s); read_preface data (sys_conn s) = Some (n, c1);
     prefaceRead c1 < length clientPreface\<rbrakk> \<Longrightarrow> h2_step E s (s\<lparr>sys_conn := c1\<rparr>)"
| begin_data: "\<lbrakk>sys_data s = None; \<not> broken (sys_conn s); read_preface data (sys_conn s) = Some (n, c1);
     \<not> prefaceRead c1 < length clientPreface\<rbrakk> \<Longrightarrow>
     h2_step E s (s\<lparr>sys_conn := c1, sys_data := Some (nothing_collected, drop n data)\<rparr>)"
| frame: "\<lbrakk>sys_data s = Some (k, data); next_frame E data k (sys_conn s) = Some (rest, k1, c1, go)\<rbrakk> \<Longrightarrow>
     h2_step E s (s\<lparr>sys_conn := c1, sys_data := Some (k1, rest)\<rparr>)"
| end_data: "\<lbrakk>sys_data s = Some (k, data); next_frame E data k (sys_conn s) = None\<rbrakk> \<Longrightarrow>
     h2_step E s (s\<lparr>sys_conn := data_end (data \<noteq> []) k (sys_conn s), sys_data := None\<rparr>)"
| op: "op_stream p \<in> set (started (sys_conn s)) \<Longrightarrow> h2_step E s (s\<lparr>sys_conn := run_op E p (sys_conn s)\<rparr>)"
| event: "h2_step E s (s\<lparr>sys_conn := run_event e (sys_conn s)\<rparr>)"
| environment: "h2_step E s (s\<lparr>sys_conn := (sys_conn s)\<lparr>h_failed := a, h_writable := b, bodyRoom := r\<rparr>\<rparr>)"
| map_order: "mset ids = mset (streams (sys_conn s)) \<Longrightarrow> h2_step E s (s\<lparr>sys_conn := (sys_conn s)\<lparr>streams := ids\<rparr>\<rparr>)"

definition h2_init :: "h2_sys \<Rightarrow> bool" where
  "h2_init s \<longleftrightarrow> sys_data s = None \<and>
     (\<exists>tls n hb fs iw cw ht it. sys_conn s = onOpen tls (newConn (withDefaults n hb fs iw cw ht it)))"

text \<open>\<^verbatim>\<open>onData\<close> as a whole is a run of these steps.\<close>

lemma frame_loop_steps:
  "frame_loop E data k c = (rest, k1, c1) \<Longrightarrow> (h2_step E)\<^sup>*\<^sup>* \<lparr>sys_conn = c, sys_data = Some (k, data)\<rparr> \<lparr>sys_conn = c1, sys_data = Some (k1, rest)\<rparr> \<and>
     next_frame E rest k1 c1 = None"
proof (induction E data k c rule: frame_loop.induct)
  case (1 E data k c)
  show ?case
  proof (cases "next_frame E data k c")
    case None
    then have "rest = data" "k1 = k" "c1 = c" using "1.prems" by (simp_all add: frame_loop.simps [of E data])
    with None show ?thesis by auto
  next
    case (Some a)
    obtain rest' k' c' go where a: "a = (rest', k', c', go)" by (metis prod_cases4)
    let ?s = "\<lparr>sys_conn = c, sys_data = Some (k, data)\<rparr>" and ?t = "\<lparr>sys_conn = c', sys_data = Some (k', rest')\<rparr>"
    have step: "h2_step E ?s ?t" using h2_step.frame [of ?s k data E rest' k' c' go] Some a by simp
    show ?thesis
    proof (cases go)
      case True
      then have "frame_loop E rest' k' c' = (rest, k1, c1)" using "1.prems" Some a by (simp add: frame_loop.simps [of E data])
      from "1.IH" [OF Some [unfolded a] refl refl refl True this] step show ?thesis
        by (blast intro: converse_rtranclp_into_rtranclp)
    next
      case False
      then have r: "rest = rest'" "k1 = k'" "c1 = c'" using "1.prems" Some a by (simp_all add: frame_loop.simps [of E data])
      have "rest' = []" using Some False a by (auto simp: next_frame_def Let_def case_prod_unfold split: if_splits)
      then have "next_frame E rest' k' c' = None" by (simp add: next_frame_def frameHeaderLen_def)
      with step r show ?thesis by auto
    qed
  qed
qed

lemma onData_steps:
  "(h2_step E)\<^sup>*\<^sup>* \<lparr>sys_conn = c, sys_data = None\<rparr> \<lparr>sys_conn = snd (onData E data c), sys_data = None\<rparr>"
proof (cases "broken c")
  case True
  then show ?thesis by (simp add: onData_def)
next
  case False
  let ?s = "\<lparr>sys_conn = c, sys_data = None\<rparr>"
  show ?thesis
  proof (cases "read_preface data c")
    case None
    with False h2_step.bad_preface [of ?s data E] show ?thesis by (auto simp: onData_def)
  next
    case (Some a)
    obtain n c1 where a: "a = (n, c1)" by fastforce
    show ?thesis
    proof (cases "prefaceRead c1 < length clientPreface")
      case True
      with False Some a h2_step.preface [of ?s data n c1 E] show ?thesis by (auto simp: onData_def)
    next
      case no: False
      obtain rest k c2 where l: "frame_loop E (drop n data) nothing_collected c1 = (rest, k, c2)" by (metis prod_cases3)
      have b: "h2_step E ?s \<lparr>sys_conn = c1, sys_data = Some (nothing_collected, drop n data)\<rparr>"
        using h2_step.begin_data [of ?s data n c1 E] no False Some a by simp
      have run: "(h2_step E)\<^sup>*\<^sup>* \<lparr>sys_conn = c1, sys_data = Some (nothing_collected, drop n data)\<rparr>
          \<lparr>sys_conn = c2, sys_data = Some (k, rest)\<rparr>" and none: "next_frame E rest k c2 = None"
        using frame_loop_steps [OF l] by blast+
      have "h2_step E \<lparr>sys_conn = c2, sys_data = Some (k, rest)\<rparr> \<lparr>sys_conn = data_end (rest \<noteq> []) k c2, sys_data = None\<rparr>"
        using h2_step.end_data [of "\<lparr>sys_conn = c2, sys_data = Some (k, rest)\<rparr>" k rest E] none by simp
      with b run have "(h2_step E)\<^sup>*\<^sup>* ?s \<lparr>sys_conn = data_end (rest \<noteq> []) k c2, sys_data = None\<rparr>"
        by (meson converse_rtranclp_into_rtranclp rtranclp.rtrancl_into_rtrancl)
      moreover have "snd (onData E data c) = data_end (rest \<noteq> []) k c2" using False Some a no l by (simp add: onData_def)
      ultimately show ?thesis by simp
    qed
  qed
qed

section \<open>The invariant\<close>

definition sys_inv :: "h2_sys \<Rightarrow> bool" where
  "sys_inv s \<longleftrightarrow> h2_inv 0 (sys_conn s) \<and> wire_ok (sys_conn s) \<and> maxClientStreamID (sys_conn s) < 2 ^ 31 \<and>
     (\<forall>x \<in> set (started (sys_conn s)). x \<le> maxClientStreamID (sys_conn s)) \<and>
     (case sys_data s of None \<Rightarrow> True
      | Some (k, data) \<Rightarrow> control (outControl k) \<and> (\<forall>x \<in> set (newStreams k). x \<le> maxClientStreamID (sys_conn s)) \<and>
          (broken (sys_conn s) \<longrightarrow> data = []))"

lemma withDefaults_ok: "opts_ok (withDefaults n hb fs iw cw ht it)"
  by (auto simp: opts_ok_def withDefaults_def Let_def maxWindowSize_def defaultInitialWindowSize_def maxFrameSizeLimit_def minMaxFrameSize_def)

lemma newConn_ok: "opts_ok o' \<Longrightarrow> h2_inv 0 (newConn o')"
proof -
  assume o: "opts_ok o'"
  then have "i32 (ConnectionWindowSize o') = ConnectionWindowSize o'" by (intro i32_window) (simp_all add: opts_ok_def defaultInitialWindowSize_def)
  moreover have "stream_ok W ((new_stream 0 0 0 False False None)\<lparr>st_state := StreamClosed\<rparr>)" if "0 < W" for W
    using that by (simp add: stream_ok_def recv_ok_def body_ok_def state_ok_def new_stream_def unread_def maxWindowSize_def)
  ultimately show ?thesis
    using o by (auto simp: h2_inv_def table_ok_def flow_ok_def limits_ok_def block_ok_def newConn_def waiting_bytes_def
        maxControlBurst_def maxResetBurst_def minMaxFrameSize_def maxFrameSizeLimit_def defaultInitialWindowSize_def maxWindowSize_def opts_ok_def)
qed

lemma onOpen_facts:
  "maxClientStreamID (onOpen tls c) = maxClientStreamID c" "started (onOpen tls c) = started c" "c_sendWindow (onOpen tls c) = c_sendWindow c"
  "c_granted (onOpen tls c) = c_granted c" "h_wire c = [] \<Longrightarrow> control (h_wire (onOpen tls c))"
  by (auto simp: onOpen_def failConnImmediate_def engine_eq Let_def case_prod_unfold)

lemma sys_init: "h2_init s \<Longrightarrow> sys_inv s"
proof -
  assume "h2_init s"
  then obtain tls n hb fs iw cw ht it where s: "sys_data s = None" "sys_conn s = onOpen tls (newConn (withDefaults n hb fs iw cw ht it))"
    by (auto simp: h2_init_def)
  let ?c = "newConn (withDefaults n hb fs iw cw ht it)"
  have "control (h_wire (onOpen tls ?c))" by (rule onOpen_facts) (simp add: newConn_def)
  from control_content [OF this] have "wire_ok (onOpen tls ?c)"
    by (auto simp: wire_ok_def onOpen_facts no_content_ends_last newConn_def list_all_iff dest: ends_content)
  then show ?thesis
    using onOpen_ok [OF newConn_ok [OF withDefaults_ok], of tls] s by (simp add: sys_inv_def onOpen_facts newConn_def)
qed

text \<open>Sections of the handlers and callbacks.\<close>

lemma run_op_ok:
  assumes "h2_inv 0 c" and "op_stream p \<le> maxClientStreamID c" and "op_stream p < 2 ^ 31"
  shows "h2_inv 0 (run_op E p c)" "effects c (run_op E p c)"
  using assms
  by (cases p; simp add: writeHeaders_ok writeData_ok writeHeadersAndBody_ok read_continue_ok read_round_ok body_Close_ok resetStream_ok cleanup_ok
      writeHeaders_effects writeData_effects writeHeadersAndBody_effects read_continue_effects read_round_effects body_Close_effects
      resetStream_effects cleanup_effects)+

lemma run_event_ok:
  assumes "h2_inv 0 c" shows "h2_inv 0 (run_event e c)" "effects c (run_event e c)"
proof -
  show "h2_inv 0 (run_event e c)" using assms by (cases e) (simp_all add: onWritable_ok onClose_ok)
  have g: "effects c (sendGoAway b c)" for b by (rule control_effects(1) [of 0]) simp
  moreover have "effects c c" "effects c (h2_onWritable c)" unfolding h2_onWritable_def by (rule effectsI(2), simp)+
  ultimately show "effects c (run_event e c)" using onClose_effects by (cases e) (simp_all add: h2_onClosing_def)
qed

lemma sys_effects:
  assumes inv: "sys_inv s" and i: "h2_inv 0 d" and e: "effects (sys_conn s) d"
  shows "sys_inv (s\<lparr>sys_conn := d\<rparr>)"
proof -
  have k: "maxClientStreamID (sys_conn s) \<le> maxClientStreamID d" "maxClientStreamID d = maxClientStreamID (sys_conn s) \<or> maxClientStreamID d < 2 ^ 31"
    "started d = started (sys_conn s)" "broken d = broken (sys_conn s)"
    using e by (auto simp: effects_def effect_def)
  have "wire_ok d" using inv e unfolding sys_inv_def by (blast intro: wire_effects)
  with inv i k show ?thesis by (auto simp: sys_inv_def split: option.splits intro: order_trans)
qed

lemma parse_id: "streamID (parseFrameHeader data) < 2 ^ 31"
proof -
  have "(0x7fffffff :: u32) = mask 31" by (simp add: mask_eq_exp_minus_1)
  then have "w AND (0x7fffffff :: u32) < 2 ^ 31" for w using and_mask_less' [of 31 w] by simp
  then show ?thesis by (simp only: parseFrameHeader_def h2_frameHeader.simps)
qed

lemma data_end_frame:
  "maxClientStreamID (data_end p k c) = maxClientStreamID c" "started (data_end p k c) = started c @ newStreams k"
  "c_sendWindow (data_end p k c) = c_sendWindow c" "c_granted (data_end p k c) = c_granted c" "objs (data_end p k c) = objs c"
  "h_wire (data_end p k c) = h_wire c \<or> h_wire (data_end p k c) = h_wire c @ outControl k"
  by (simp_all add: data_end_def Let_def case_prod_unfold engine_eq)

lemma sys_frame:
  assumes inv: "sys_inv s" and d: "sys_data s = Some (k, data)" and n: "next_frame E data k (sys_conn s) = Some (rest, k1, c1, go)"
  shows "sys_inv (s\<lparr>sys_conn := c1, sys_data := Some (k1, rest)\<rparr>)"
proof -
  let ?c = "sys_conn s"
  define fh where "fh = parseFrameHeader data"
  define r where "r = handleFrame E fh (sub_bytes data frameHeaderLen (frameHeaderLen + unat (fh_length fh))) (outControl k) ?c"
  have data: "data \<noteq> []" using n by (auto simp: next_frame_def frameHeaderLen_def)
  with inv d have i: "h2_inv 0 ?c" "\<not> broken ?c" "control (outControl k)" "maxClientStreamID ?c < 2 ^ 31"
    and ns: "\<forall>x \<in> set (newStreams k). x \<le> maxClientStreamID ?c" by (auto simp: sys_inv_def)
  note ok = next_frame_ok [OF i(1,2) n]
  obtain c' out s' where e: "effects ?c c'" "maxClientStreamID c' < 2 ^ 31" "control out" "\<forall>x. s' = Some x \<longrightarrow> x \<le> maxClientStreamID c'"
    and c1: "c1 = (if go then c' else c'\<lparr>broken := True, goingAway := True\<rparr>)"
    and k1: "\<exists>l. outControl k1 = out @ l \<and> control l" "newStreams k1 = newStreams k @ (case s' of None \<Rightarrow> [] | Some x \<Rightarrow> [x])"
    and rest: "\<not> go \<Longrightarrow> rest = []"
  proof (cases "unat (fh_length fh) > MaxReadFrameSize (opts ?c)")
    case True
    show thesis
    proof (rule that [of ?c "outControl k" None])
      show "effects ?c ?c" by blast
    qed (use True i n in \<open>auto simp: next_frame_def Let_def fh_def [symmetric] abortInOnData_def split: if_splits\<close>)
  next
    case False
    with n have full: "frameHeaderLen + unat (fh_length fh) \<le> length data"
      by (auto simp: next_frame_def Let_def fh_def [symmetric] split: if_splits)
    have fe: "frame_effects (outControl k) ?c r"
      unfolding r_def using full parse_id [of data] by (intro handleFrame_effects i) (simp_all add: sub_bytes_def fh_def)
    show thesis
    proof (rule that [of "fst r" "fst (snd r)" "fst (snd (snd r))"])
      show "effects ?c (fst r)" "maxClientStreamID (fst r) < 2 ^ 31" "control (fst (snd r))"
        "\<forall>x. fst (snd (snd r)) = Some x \<longrightarrow> x \<le> maxClientStreamID (fst r)" using fe i by (auto simp: frame_effects_def)
    qed (use False full n in \<open>auto simp: next_frame_def Let_def case_prod_unfold fh_def [symmetric] r_def [symmetric] abortInOnData_def split: if_splits\<close>)
  qed
  have m: "maxClientStreamID c1 = maxClientStreamID c'" "started c1 = started c'" by (simp_all add: c1)
  have "started c' = started ?c" "maxClientStreamID ?c \<le> maxClientStreamID c'" using e(1) by (auto simp: effects_def effect_def)
  moreover have "wire_ok c'" using inv e(1) unfolding sys_inv_def by (blast intro: wire_effects)
  then have "wire_ok c1" by (simp add: c1 wire_ok_def)
  moreover have "\<forall>x \<in> set (newStreams k1). x \<le> maxClientStreamID c'" using ns e calculation(2) k1(2) by (auto split: option.splits)
  ultimately show ?thesis using inv ok e k1(1) rest m by (auto simp: sys_inv_def)
qed

lemma sys_end:
  assumes inv: "sys_inv s" and d: "sys_data s = Some (k, data)"
  shows "sys_inv (s\<lparr>sys_conn := data_end p k (sys_conn s), sys_data := None\<rparr>)"
proof -
  let ?c = "sys_conn s"
  have "wire_ok (data_end p k ?c)"
  proof -
    have "effects ?c (?c\<lparr>h_wire := h_wire (data_end p k ?c)\<rparr>)"
    proof -
      have c: "control (outControl k)" using inv d by (simp add: sys_inv_def)
      have "effect ?c (outControl k) 0 (?c\<lparr>h_wire := w\<rparr>)" if "w = h_wire ?c \<or> w = h_wire ?c @ outControl k" for w
        using that effect_control [OF quiet_refl c, of ?c] by (auto simp: effect_def engine_eq)
      then show ?thesis using data_end_frame(6) [of p k ?c] by blast
    qed
    then have "wire_ok (?c\<lparr>h_wire := h_wire (data_end p k ?c)\<rparr>)" using inv unfolding sys_inv_def by (blast intro: wire_effects)
    then show ?thesis by (simp add: wire_ok_def data_end_frame)
  qed
  then show ?thesis using inv d data_end_ok [of 0 ?c p k] by (auto simp: sys_inv_def data_end_frame)
qed

lemma inv_reorder:
  assumes inv: "h2_inv 0 c" and m: "mset ids = mset (streams c)" shows "h2_inv 0 (c\<lparr>streams := ids\<rparr>)"
proof -
  have s: "set ids = set (streams c)" "distinct ids = distinct (streams c)" "length ids = length (streams c)"
    using m by (metis mset_eq_setD, metis mset_eq_imp_distinct_iff, metis mset_eq_length)
  have "mset (map (\<lambda>i. int (unread (objs c i))) ids) = mset (map (\<lambda>i. int (unread (objs c i))) (streams c))" using m by simp
  then have "sum_list (map (\<lambda>i. int (unread (objs c i))) ids) = sum_list (map (\<lambda>i. int (unread (objs c i))) (streams c))"
    by (metis sum_mset_sum_list)
  with inv s show ?thesis by (simp add: h2_inv_def table_ok_def flow_ok_def waiting_bytes_def limits_ok_def block_ok_def)
qed

lemma preface_quiet: "read_preface data c = Some (n, c1) \<Longrightarrow> quiet c c1 \<and> (h2_inv 0 c \<longrightarrow> h2_inv 0 c1)"
  by (auto simp: read_preface_def Let_def split: if_splits)

theorem sys_step:
  assumes "sys_inv s" and "h2_step E s t" shows "sys_inv t"
  using assms(2,1)
proof cases
  case (bad_preface data)
  then show ?thesis using assms(1) inv_broken [of 0 "sys_conn s"] by (simp add: sys_inv_def engine_Close_def wire_ok_def)
next
  case (preface data n c1)
  have e: "effects (sys_conn s) c1" "maxClientStreamID c1 = maxClientStreamID (sys_conn s)"
    using preface_quiet [OF preface(4)] by (auto simp: quiet_def intro: effectsI(2))
  with assms(1) preface_quiet [OF preface(4)] show ?thesis unfolding preface(1) by (intro sys_effects) (simp_all add: sys_inv_def)
next
  case (begin_data data n c1)
  have "effects (sys_conn s) c1" "maxClientStreamID c1 = maxClientStreamID (sys_conn s)"
    using preface_quiet [OF begin_data(4)] by (auto simp: quiet_def intro: effectsI(2))
  with assms(1) preface_quiet [OF begin_data(4)] have "sys_inv (s\<lparr>sys_conn := c1\<rparr>)" by (intro sys_effects) (simp_all add: sys_inv_def)
  moreover have "\<not> broken c1" using preface_quiet [OF begin_data(4)] begin_data(3) by (simp add: quiet_def)
  ultimately show ?thesis unfolding begin_data(1) by (simp add: sys_inv_def nothing_collected_def)
next
  case (frame k data rest k1 c1 go)
  then show ?thesis using sys_frame [OF assms(1)] by simp
next
  case (end_data k data)
  then show ?thesis using sys_end [OF assms(1)] by simp
next
  case (op p)
  let ?c = "sys_conn s"
  have b: "op_stream p \<le> maxClientStreamID ?c" "op_stream p < 2 ^ 31" "h2_inv 0 ?c"
    using assms(1) op(2) by (auto simp: sys_inv_def intro: le_less_trans)
  note r = run_op_ok [OF b(3,1,2), of E]
  show ?thesis unfolding op(1) by (rule sys_effects [OF assms(1) r])
next
  case (event e)
  let ?c = "sys_conn s"
  have b: "h2_inv 0 ?c" using assms(1) by (simp add: sys_inv_def)
  show ?thesis unfolding event(1) by (rule sys_effects [OF assms(1) run_event_ok [OF b]])
next
  case (environment a b r)
  then show ?thesis using assms(1) by (cases "sys_data s") (auto simp: sys_inv_def wire_ok_def)
next
  case (map_order ids)
  then show ?thesis using assms(1) inv_reorder [of "sys_conn s" ids] by (cases "sys_data s") (auto simp: sys_inv_def wire_ok_def)
qed

interpretation h2_run: inductive_invariant h2_init "h2_step E" sys_inv for E
  by unfold_locales (auto intro: sys_init sys_step)

section \<open>Sending a body\<close>

fun data_frames :: "u32 \<Rightarrow> bool \<Rightarrow> bytes list \<Rightarrow> h2frame list" where
  "data_frames sid fin [] = []"
| "data_frames sid fin [x] = [F_Data sid x fin]"
| "data_frames sid fin (x # y # xs) = F_Data sid x False # data_frames sid fin (y # xs)"

lemma endStream_frame:
  "h_wire (fst (endStreamLocalLocked sid c)) = h_wire c" "h_failed (fst (endStreamLocalLocked sid c)) = h_failed c"
  "c_sendWindow (fst (endStreamLocalLocked sid c)) = c_sendWindow c" "st_state (objs (fst (endStreamLocalLocked sid c)) sid) = StreamClosed"
  by (simp_all add: endStreamLocalLocked_def Let_def remove_state)

lemma writeData_run_sends:
  assumes "h2_inv 0 c" and "data \<noteq> []" and "writeErrLocked sid c = None" and "\<not> h_failed c" and "h_writable c"
    and "int (length data) \<le> c_sendWindow c" and "int (length data) \<le> sendWindow (objs c sid)"
  shows "\<exists>c' chunks b. writeData_run sid fin data c = Some (c', WD_return None) \<and> concat chunks = data \<and>
    list_all (\<lambda>x. x \<noteq> [] \<and> length x \<le> peerMaxFrameSize c) chunks \<and>
    h_wire c' = h_wire c @ data_frames sid fin chunks @ early_reset sid b \<and> (b \<longrightarrow> fin) \<and>
    c_sendWindow c' = c_sendWindow c - int (length data) \<and> (fin \<longrightarrow> st_state (objs c' sid) = StreamClosed)"
  using assms
proof (induction "length data" arbitrary: data c rule: less_induct)
  case less
  let ?n = "sendable sid data c"
  have ms: "may_send sid data c" 
  proof -
    have "0 < int (length data)" using less.prems(2) by simp
    then show ?thesis using less.prems unfolding may_send_def by linarith
  qed
  have pm: "0 < peerMaxFrameSize c" using less.prems(1) by (auto simp: h2_inv_def limits_ok_def minMaxFrameSize_def)
  have n: "0 < ?n" using ms pm less.prems(2) by (auto simp: sendable_def may_send_def)
  let ?d = "charged sid ?n (unregisterWaiterLocked sid c)"
  have d: "h_wire ?d = h_wire c" "h_failed ?d = h_failed c" "h_writable ?d = h_writable c" "c_sendWindow ?d = c_sendWindow c - int ?n"
    "peerMaxFrameSize ?d = peerMaxFrameSize c" "sendWindow (objs ?d sid) = sendWindow (objs c sid) - int ?n" "writeErrLocked sid ?d = writeErrLocked sid c"
    by (simp_all add: charged_def upd_def unregisterWaiterLocked_def writeErrLocked_def Let_def)
  have inv: "h2_inv 0 ?d"
    unfolding charged_def using sendable_le [OF ms] by (intro inv_spend_stream [OF inv_unregister [OF less.prems(1)]]) simp_all
  show ?case
  proof (cases "?n = length data")
    case True
    let ?r = "ended_if fin sid ?d"
    let ?w = "engine_Write ([F_Data sid data fin] @ early_reset sid (snd ?r)) (fst ?r)"
    have r: "h_wire (fst ?r) = h_wire c" "\<not> h_failed (fst ?r)" "c_sendWindow (fst ?r) = c_sendWindow c - int (length data)"
      "snd ?r \<longrightarrow> fin" "fin \<longrightarrow> st_state (objs (fst ?r) sid) = StreamClosed"
      using endStream_frame [of sid ?d] d less.prems(4) True by (simp_all add: ended_if_def)
    have "writeData_run sid fin data c = Some (fst ?w, WD_return None)"
      using r(2) by (subst writeData_run.simps) (simp add: writeData_sends [OF ms] Let_def True engine_Write_def)
    moreover have "h_wire (fst ?w) = h_wire c @ data_frames sid fin [data] @ early_reset sid (snd ?r)" using r by (simp add: engine_eq)
    moreover have "c_sendWindow (fst ?w) = c_sendWindow c - int (length data)" "fin \<longrightarrow> st_state (objs (fst ?w) sid) = StreamClosed"
      using r by (simp_all add: engine_eq)
    moreover have "list_all (\<lambda>x. x \<noteq> [] \<and> length x \<le> peerMaxFrameSize c) [data]" using less.prems(2) sendable_le(3) [OF ms] True by simp
    ultimately show ?thesis using r(4) by (intro exI [of _ "fst ?w"] exI [of _ "[data]"] exI [of _ "snd ?r"]) simp
  next
    case False
    then have lt: "?n < length data" using sendable_le(4) [OF ms] by simp
    let ?c1 = "fst (engine_Write [F_Data sid (take ?n data) False] ?d)"
    have e: "writeData_round (h_writable c) sid data fin c = (?c1, WD_more (drop ?n data))"
      using False lt less.prems(4) d by (simp add: writeData_sends [OF ms] Let_def ended_if_def early_reset_def engine_Write_def)
    have c1: "h_wire ?c1 = h_wire c @ [F_Data sid (take ?n data) False]" "\<not> h_failed ?c1" "h_writable ?c1" "c_sendWindow ?c1 = c_sendWindow c - int ?n"
      "peerMaxFrameSize ?c1 = peerMaxFrameSize c" "sendWindow (objs ?c1 sid) = sendWindow (objs c sid) - int ?n" "writeErrLocked sid ?c1 = None"
      using d less.prems(3-5) by (simp_all add: engine_eq writeErrLocked_def)
    have i1: "h2_inv 0 ?c1" using inv by simp
    have lt2: "length (drop ?n data) < length data" "drop ?n data \<noteq> []" using n lt by simp_all
    have w: "int (length (drop ?n data)) \<le> c_sendWindow ?c1" "int (length (drop ?n data)) \<le> sendWindow (objs ?c1 sid)"
      unfolding c1 using less.prems(6,7) lt by (simp_all add: of_nat_diff)
    from less.hyps [OF lt2(1) i1 lt2(2) c1(7,2,3) w, unfolded c1(5)] obtain c' chunks b where
      ih: "writeData_run sid fin (drop ?n data) ?c1 = Some (c', WD_return None)" "concat chunks = drop ?n data"
      "list_all (\<lambda>x. x \<noteq> [] \<and> length x \<le> peerMaxFrameSize c) chunks" "h_wire c' = h_wire ?c1 @ data_frames sid fin chunks @ early_reset sid b"
      "b \<longrightarrow> fin" "c_sendWindow c' = c_sendWindow ?c1 - int (length (drop ?n data))" "fin \<longrightarrow> st_state (objs c' sid) = StreamClosed"
      by blast
    have ne: "chunks \<noteq> []" using ih(2) lt by auto
    then have "data_frames sid fin (take ?n data # chunks) = F_Data sid (take ?n data) False # data_frames sid fin chunks" by (cases chunks) auto
    moreover have "writeData_run sid fin data c = Some (c', WD_return None)" by (subst writeData_run.simps) (simp add: e ih(1))
    moreover have "concat (take ?n data # chunks) = data" using ih(2) by simp
    moreover have "list_all (\<lambda>x. x \<noteq> [] \<and> length x \<le> peerMaxFrameSize c) (take ?n data # chunks)"
      using ih(3) sendable_le(3) [OF ms] n less.prems(2) by simp
    ultimately show ?thesis
      using ih c1 lt by (intro exI [of _ c'] exI [of _ "take ?n data # chunks"] exI [of _ b]) (simp add: of_nat_diff)
  qed
qed

end
