(* ===== verification/H2Errors.thy ===== *)
theory H2Errors
  imports H2Reach
begin

text \<open>
  Connection errors of HTTP/2 (RFC 9113, sections 4 to 6): which frame, in which state of the connection, is answered by
  closing the connection, and with which code. The rules are stated by frame type, and the handlers of \<^verbatim>\<open>http2/conn.go\<close> are
  shown to follow them.
\<close>

section \<open>The rules\<close>

text \<open>
  A frame is expected when it may come at this point at all: the first frame of the client is SETTINGS, and inside a
  header block nothing but a CONTINUATION of that stream may come.
\<close>

definition expected :: "h2_conn \<Rightarrow> byte \<Rightarrow> byte \<Rightarrow> u32 \<Rightarrow> bool" where
  "expected c t f sid \<longleftrightarrow>
     (sawFirstSettings c \<or> t = frameSettings \<and> f AND flagAck = 0 \<and> sid = 0) \<and>
     (continuationStreamID c = 0 \<or> t = frameContinuation \<and> sid = continuationStreamID c)"

definition between_blocks :: "h2_conn \<Rightarrow> byte \<Rightarrow> byte \<Rightarrow> u32 \<Rightarrow> bool" where
  "between_blocks c t f sid \<longleftrightarrow> expected c t f sid \<and> continuationStreamID c = 0"

text \<open>A stream the client has not opened yet, or never may.\<close>

definition idle_stream :: "h2_conn \<Rightarrow> u32 \<Rightarrow> bool" where
  "idle_stream c sid \<longleftrightarrow> even (unat sid) \<or> maxClientStreamID c < sid"

text \<open>A setting that may not be given, with the streams and windows as they are.\<close>

inductive setting_error :: "h2_conn \<Rightarrow> u16 \<Rightarrow> u32 \<Rightarrow> errCode \<Rightarrow> bool" for c where
  push: "1 < v \<Longrightarrow> setting_error c settingEnablePush v errCodeProtocol"
| window: "maxWindowSize < uint v \<Longrightarrow> setting_error c settingInitialWindowSize v errCodeFlowControl"
| overflow: "\<lbrakk>uint v \<le> maxWindowSize; sid \<in> set (streams c);
     maxWindowSize < sendWindow (objs c sid) + (uint v - peerInitialWindowSize c)\<rbrakk> \<Longrightarrow>
     setting_error c settingInitialWindowSize v errCodeFlowControl"
| frame_size: "unat v < 16384 \<or> 2 ^ 24 \<le> unat v \<Longrightarrow> setting_error c settingMaxFrameSize v errCodeProtocol"

text \<open>The first of the settings of a frame that is in error, each one being applied before the next is looked at.\<close>

inductive settings_error :: "h2_conn \<Rightarrow> bytes \<Rightarrow> errCode \<Rightarrow> bool" where
  here: "\<lbrakk>payload \<noteq> []; setting_error c (be_word (take 2 payload)) (be_word (take 4 (drop 2 payload))) code\<rbrakk> \<Longrightarrow>
     settings_error c payload code"
| later: "\<lbrakk>payload \<noteq> []; \<nexists>code. setting_error c (be_word (take 2 payload)) (be_word (take 4 (drop 2 payload))) code;
     settings_error (fst (apply_setting (be_word (take 2 payload)) (be_word (take 4 (drop 2 payload))) c)) (drop 6 payload) code\<rbrakk> \<Longrightarrow>
     settings_error c payload code"

definition history :: "h2_conn \<Rightarrow> dec_op list" where
  "history c = (case decoder c of None \<Rightarrow> [] | Some h \<Rightarrow> h)"

text \<open>The header block fragment of a HEADERS frame, after the padding and the priority.\<close>

definition fragment :: "byte \<Rightarrow> bytes \<Rightarrow> bytes" where
  "fragment f p = (let frag = fst (the (stripPadding p f)) in if f AND flagPriority \<noteq> 0 then drop 5 frag else frag)"

text \<open>
  The errors of each type of frame, with flags \<open>f\<close>, stream \<open>sid\<close> and payload \<open>p\<close>. A frame that asks for an answer takes a token;
  without one, the client is told to calm down.
\<close>

definition increment :: "bytes \<Rightarrow> u32" where
  "increment p = be_word (take 4 p) AND 0x7fffffff"

inductive data_error :: "h2_conn \<Rightarrow> byte \<Rightarrow> u32 \<Rightarrow> bytes \<Rightarrow> errCode \<Rightarrow> bool" for c f sid p where
  stream: "sid = 0 \<or> idle_stream c sid \<Longrightarrow> data_error c f sid p errCodeProtocol"
| padding: "stripPadding p f = None \<Longrightarrow> data_error c f sid p errCodeProtocol"
| window: "\<lbrakk>sid \<noteq> 0; \<not> idle_stream c sid; stripPadding p f \<noteq> None; c_receiveWindow c < int (length p)\<rbrakk> \<Longrightarrow>
     data_error c f sid p errCodeFlowControl"
| calm: "\<lbrakk>sid \<noteq> 0; \<not> idle_stream c sid; stripPadding p f \<noteq> None; int (length p) \<le> c_receiveWindow c; sid \<notin> set (streams c);
     controlTokens c \<le> 0\<rbrakk> \<Longrightarrow> data_error c f sid p errCodeEnhanceYourCalm"

inductive priority_error :: "h2_conn \<Rightarrow> u32 \<Rightarrow> bytes \<Rightarrow> errCode \<Rightarrow> bool" for c sid p where
  stream: "sid = 0 \<Longrightarrow> priority_error c sid p errCodeProtocol"
| size: "\<lbrakk>sid \<noteq> 0; length p \<noteq> 5\<rbrakk> \<Longrightarrow> priority_error c sid p errCodeFrameSize"
| calm: "\<lbrakk>sid \<noteq> 0; length p = 5; be_word (take 4 p) AND 0x7fffffff = sid; controlTokens c \<le> 0\<rbrakk> \<Longrightarrow>
     priority_error c sid p errCodeEnhanceYourCalm"

inductive rst_error :: "h2_conn \<Rightarrow> u32 \<Rightarrow> bytes \<Rightarrow> errCode \<Rightarrow> bool" for c sid p where
  stream: "sid = 0 \<Longrightarrow> rst_error c sid p errCodeProtocol"
| size: "\<lbrakk>sid \<noteq> 0; length p \<noteq> 4\<rbrakk> \<Longrightarrow> rst_error c sid p errCodeFrameSize"
| idle: "\<lbrakk>sid \<noteq> 0; length p = 4; idle_stream c sid\<rbrakk> \<Longrightarrow> rst_error c sid p errCodeProtocol"
| calm: "\<lbrakk>sid \<noteq> 0; length p = 4; \<not> idle_stream c sid; resetTokens c \<le> 0\<rbrakk> \<Longrightarrow> rst_error c sid p errCodeEnhanceYourCalm"

inductive settings_frame_error :: "h2_conn \<Rightarrow> byte \<Rightarrow> u32 \<Rightarrow> bytes \<Rightarrow> errCode \<Rightarrow> bool" for c f sid p where
  stream: "sid \<noteq> 0 \<Longrightarrow> settings_frame_error c f sid p errCodeProtocol"
| ack: "\<lbrakk>sid = 0; f AND flagAck \<noteq> 0; p \<noteq> []\<rbrakk> \<Longrightarrow> settings_frame_error c f sid p errCodeFrameSize"
| size: "\<lbrakk>sid = 0; f AND flagAck = 0; length p mod 6 \<noteq> 0\<rbrakk> \<Longrightarrow> settings_frame_error c f sid p errCodeFrameSize"
| calm: "\<lbrakk>sid = 0; f AND flagAck = 0; length p mod 6 = 0; controlTokens c \<le> 0\<rbrakk> \<Longrightarrow>
     settings_frame_error c f sid p errCodeEnhanceYourCalm"
| setting: "\<lbrakk>sid = 0; f AND flagAck = 0; length p mod 6 = 0; 0 < controlTokens c; settings_error c p code\<rbrakk> \<Longrightarrow>
     settings_frame_error c f sid p code"

inductive ping_error :: "h2_conn \<Rightarrow> byte \<Rightarrow> u32 \<Rightarrow> bytes \<Rightarrow> errCode \<Rightarrow> bool" for c f sid p where
  stream: "sid \<noteq> 0 \<Longrightarrow> ping_error c f sid p errCodeProtocol"
| size: "\<lbrakk>sid = 0; length p \<noteq> 8\<rbrakk> \<Longrightarrow> ping_error c f sid p errCodeFrameSize"
| calm: "\<lbrakk>sid = 0; length p = 8; f AND flagAck = 0; controlTokens c \<le> 0\<rbrakk> \<Longrightarrow> ping_error c f sid p errCodeEnhanceYourCalm"

inductive goaway_error :: "u32 \<Rightarrow> bytes \<Rightarrow> errCode \<Rightarrow> bool" for sid p where
  stream: "sid \<noteq> 0 \<Longrightarrow> goaway_error sid p errCodeProtocol"
| size: "\<lbrakk>sid = 0; length p < 8\<rbrakk> \<Longrightarrow> goaway_error sid p errCodeFrameSize"

inductive update_error :: "h2_conn \<Rightarrow> u32 \<Rightarrow> bytes \<Rightarrow> errCode \<Rightarrow> bool" for c sid p where
  size: "length p \<noteq> 4 \<Longrightarrow> update_error c sid p errCodeFrameSize"
| zero: "\<lbrakk>length p = 4; increment p = 0; sid = 0\<rbrakk> \<Longrightarrow> update_error c sid p errCodeProtocol"
| calm: "\<lbrakk>length p = 4; increment p = 0; sid \<noteq> 0; controlTokens c \<le> 0\<rbrakk> \<Longrightarrow> update_error c sid p errCodeEnhanceYourCalm"
| overflow: "\<lbrakk>length p = 4; increment p \<noteq> 0; sid = 0; maxWindowSize < c_sendWindow c + uint (increment p)\<rbrakk> \<Longrightarrow>
     update_error c sid p errCodeFlowControl"
| idle: "\<lbrakk>length p = 4; increment p \<noteq> 0; sid \<noteq> 0; idle_stream c sid\<rbrakk> \<Longrightarrow> update_error c sid p errCodeProtocol"

text \<open>
  The errors of a header block. \<open>admitted\<close>: the frame begins a header block on a stream that may have one, a new stream, an open
  one or one reset shortly before.
\<close>

definition admitted :: "h2_conn \<Rightarrow> byte \<Rightarrow> u32 \<Rightarrow> bytes \<Rightarrow> bool" where
  "admitted c f sid p \<longleftrightarrow> odd (unat sid) \<and> stripPadding p f \<noteq> None \<and>
     (f AND flagPriority = 0 \<or> 5 \<le> length (fst (the (stripPadding p f)))) \<and>
     (sid \<in> set (streams c) \<or> sid \<in> set (recentResets c) \<or> maxClientStreamID c < sid)"

inductive headers_error :: "h2_env \<Rightarrow> h2_conn \<Rightarrow> byte \<Rightarrow> u32 \<Rightarrow> bytes \<Rightarrow> errCode \<Rightarrow> bool" for E c f sid p where
  stream: "even (unat sid) \<Longrightarrow> headers_error E c f sid p errCodeProtocol"
| padding: "stripPadding p f = None \<Longrightarrow> headers_error E c f sid p errCodeProtocol"
| priority: "\<lbrakk>odd (unat sid); stripPadding p f = Some (frag, pad); f AND flagPriority \<noteq> 0; length frag < 5\<rbrakk> \<Longrightarrow>
     headers_error E c f sid p errCodeFrameSize"
| old: "\<lbrakk>odd (unat sid); stripPadding p f = Some (frag, pad); f AND flagPriority = 0 \<or> 5 \<le> length frag; sid \<notin> set (streams c);
     sid \<notin> set (recentResets c); sid \<le> maxClientStreamID c\<rbrakk> \<Longrightarrow> headers_error E c f sid p errCodeProtocol"
| compression: "\<lbrakk>admitted c f sid p; \<And>n. \<not> dec_ok E (history c @ [Dec_Emit True]) (fragment f p) n\<rbrakk> \<Longrightarrow>
     headers_error E c f sid p errCodeCompression"
| truncated: "\<lbrakk>admitted c f sid p; \<And>n. dec_ok E (history c @ [Dec_Emit True]) (fragment f p) n; f AND flagEndHeaders \<noteq> 0;
     \<And>n. \<not> dec_close E (history c @ [Dec_Emit True, Dec_Write (fragment f p) n])\<rbrakk> \<Longrightarrow> headers_error E c f sid p errCodeCompression"

definition flood :: "h2_conn \<Rightarrow> byte \<Rightarrow> bytes \<Rightarrow> bool" where
  "flood c f p \<longleftrightarrow> maxContinuationFrames \<le> continuationFrames c \<or> invalid (builder c) \<or>
     2 * uint (remainingBytes (builder c)) < int (length p) \<or> p = [] \<and> f AND flagEndHeaders = 0"

inductive continuation_error :: "h2_env \<Rightarrow> h2_conn \<Rightarrow> byte \<Rightarrow> bytes \<Rightarrow> errCode \<Rightarrow> bool" for E c f p where
  flood: "flood c f p \<Longrightarrow> continuation_error E c f p errCodeEnhanceYourCalm"
| compression: "\<lbrakk>\<not> flood c f p; \<And>n. \<not> dec_ok E (history c) p n\<rbrakk> \<Longrightarrow> continuation_error E c f p errCodeCompression"
| truncated: "\<lbrakk>\<not> flood c f p; \<And>n. dec_ok E (history c) p n; f AND flagEndHeaders \<noteq> 0;
     \<And>n. \<not> dec_close E (history c @ [Dec_Write p n])\<rbrakk> \<Longrightarrow> continuation_error E c f p errCodeCompression"

inductive frame_error :: "h2_env \<Rightarrow> h2_conn \<Rightarrow> byte \<Rightarrow> byte \<Rightarrow> u32 \<Rightarrow> bytes \<Rightarrow> errCode \<Rightarrow> bool" for E c t f sid p where
  unexpected: "\<not> expected c t f sid \<Longrightarrow> frame_error E c t f sid p errCodeProtocol"
| forbidden: "\<lbrakk>between_blocks c t f sid; t = framePushPromise \<or> t = frameContinuation\<rbrakk> \<Longrightarrow> frame_error E c t f sid p errCodeProtocol"
| data: "\<lbrakk>between_blocks c t f sid; t = frameData; data_error c f sid p code\<rbrakk> \<Longrightarrow> frame_error E c t f sid p code"
| headers: "\<lbrakk>between_blocks c t f sid; t = frameHeaders; headers_error E c f sid p code\<rbrakk> \<Longrightarrow> frame_error E c t f sid p code"
| priority: "\<lbrakk>between_blocks c t f sid; t = framePriority; priority_error c sid p code\<rbrakk> \<Longrightarrow> frame_error E c t f sid p code"
| rst: "\<lbrakk>between_blocks c t f sid; t = frameRSTStream; rst_error c sid p code\<rbrakk> \<Longrightarrow> frame_error E c t f sid p code"
| settings: "\<lbrakk>between_blocks c t f sid; t = frameSettings; settings_frame_error c f sid p code\<rbrakk> \<Longrightarrow> frame_error E c t f sid p code"
| ping: "\<lbrakk>between_blocks c t f sid; t = framePing; ping_error c f sid p code\<rbrakk> \<Longrightarrow> frame_error E c t f sid p code"
| goaway: "\<lbrakk>between_blocks c t f sid; t = frameGoAway; goaway_error sid p code\<rbrakk> \<Longrightarrow> frame_error E c t f sid p code"
| update: "\<lbrakk>between_blocks c t f sid; t = frameWindowUpdate; update_error c sid p code\<rbrakk> \<Longrightarrow> frame_error E c t f sid p code"
| continuation: "\<lbrakk>expected c t f sid; continuationStreamID c \<noteq> 0; continuation_error E c f p code\<rbrakk> \<Longrightarrow> frame_error E c t f sid p code"

text \<open>A frame with header \<open>fh\<close>, of which \<open>p\<close> is the part of the payload that has arrived. The length is judged by the header alone.\<close>

inductive connection_error :: "h2_env \<Rightarrow> h2_conn \<Rightarrow> h2_frameHeader \<Rightarrow> bytes \<Rightarrow> errCode \<Rightarrow> bool" for E c fh p where
  too_long: "MaxReadFrameSize (opts c) < unat (fh_length fh) \<Longrightarrow> connection_error E c fh p errCodeFrameSize"
| complete: "\<lbrakk>unat (fh_length fh) \<le> MaxReadFrameSize (opts c); length p = unat (fh_length fh);
     frame_error E c (frameType fh) (flags fh) (streamID fh) p code\<rbrakk> \<Longrightarrow> connection_error E c fh p code"

inductive_simps connection_error_iff: "connection_error E c fh p code"

section \<open>Settings\<close>

lemma adjust_windows_iff:
  "distinct ids \<Longrightarrow> snd (adjust_windows delta ids c) \<longleftrightarrow> (\<forall>sid \<in> set ids. sendWindow (objs c sid) + delta \<le> maxWindowSize)"
proof (induction delta ids c rule: adjust_windows.induct)
  case (2 delta sid ids c)
  let ?c = "upd sid (\<lambda>s. let s1 = s\<lparr>sendWindow := sendWindow s + delta\<rparr>
                      in if sendWindow s \<le> 0 \<and> sendWindow s1 > 0 then wakeWriterLocked s1 else s1) c"
  show ?case
  proof (cases "sendWindow (objs c sid) + delta > maxWindowSize")
    case True
    then show ?thesis by (auto simp: not_le)
  next
    case False
    have "objs ?c x = objs c x" if "x \<in> set ids" for x using that "2.prems" by auto
    with 2 False show ?thesis by auto
  qed
qed simp

text \<open>Applying a setting fails exactly when the setting is in error, and with its code.\<close>

inductive_simps setting_error_iff: "setting_error c i v code"

lemma apply_setting_error:
  assumes "h2_inv 0 c"
  shows "setting_error c i v code \<longleftrightarrow> snd (apply_setting i v c) = code \<and> code \<noteq> errCodeNo"
proof -
  have d: "distinct (streams c)" and w: "sendWindow (objs c sid) \<le> maxWindowSize" for sid
    using assms by (auto simp: h2_inv_def table_ok_def stream_ok_def state_ok_def)
  consider "i = settingEnablePush" | "i = settingInitialWindowSize" | "i = settingMaxFrameSize"
    | "i \<notin> {settingEnablePush, settingInitialWindowSize, settingMaxFrameSize}" by blast
  then show ?thesis
  proof cases
    case 2
    let ?c = "c\<lparr>peerInitialWindowSize := i32 (uint v)\<rparr>" and ?d = "uint v - peerInitialWindowSize c"
    let ?over = "\<exists>sid \<in> set (streams c). maxWindowSize < sendWindow (objs c sid) + ?d"
    have "\<not> snd (adjust_windows ?d (streams c) ?c) \<longleftrightarrow> ?over"
      using adjust_windows_iff [OF d, of ?d ?c] by (auto simp: not_le)
    moreover have "?d \<noteq> 0" if over: ?over
    proof -
      obtain sid where "maxWindowSize < sendWindow (objs c sid) + ?d" using over by blast
      with w [of sid] show ?thesis by linarith
    qed
    ultimately have "snd (apply_setting i v c) = (if maxWindowSize < uint v \<or> ?over then errCodeFlowControl else errCodeNo)"
      using 2 by (auto simp: apply_setting_def Let_def setting_ids case_prod_unfold)
    moreover have "setting_error c i v code \<longleftrightarrow> code = errCodeFlowControl \<and> (maxWindowSize < uint v \<or> ?over)"
      using 2 unfolding setting_error_iff by (auto simp: setting_ids not_less)
    ultimately show ?thesis by (auto simp: err_codes)
  qed (auto simp: Let_def setting_error_iff apply_setting_def setting_ids err_codes minMaxFrameSize_def maxFrameSizeLimit_def)
qed

lemma settings_loop_error:
  "h2_inv 0 c \<Longrightarrow> \<not> broken c \<Longrightarrow> settings_error c p code \<longleftrightarrow> snd (settings_loop p c) = code \<and> code \<noteq> errCodeNo"
proof (induction p c rule: settings_loop.induct)
  case (1 p c)
  let ?i = "be_word (take 2 p) :: u16" and ?v = "be_word (take 4 (drop 2 p)) :: u32"
  obtain c1 k where a: "apply_setting ?i ?v c = (c1, k)" by fastforce
  have a': "apply_setting (be_word (sub_bytes p 0 2)) (be_word (sub_bytes p 2 6)) c = (c1, k)" using a by (simp add: sub_bytes_def)
  note e = apply_setting_error [OF "1.prems"(1), of ?i ?v, unfolded a]
  show ?case
  proof (cases "p = []")
    case True
    then show ?thesis by (subst settings_loop.simps) (auto elim: settings_error.cases)
  next
    case ne: False
    show ?thesis
    proof (cases "k = errCodeNo")
      case False
      then show ?thesis using ne a' e a by (subst settings_loop.simps) (auto elim: settings_error.cases intro: settings_error.here)
    next
      case True
      have "h2_inv 0 c1" "\<not> broken c1"
        using apply_setting_ok [OF "1.prems" a] True by (simp_all add: handled_ok_def)
      then have "settings_error c1 (drop 6 p) code \<longleftrightarrow> snd (settings_loop (drop 6 p) c1) = code \<and> code \<noteq> errCodeNo"
        using "1.IH" [OF ne a' [symmetric] refl] True by simp
      moreover have "settings_error c p code \<longleftrightarrow> settings_error c1 (drop 6 p) code"
        using ne e a True by (subst settings_error.simps) auto
      ultimately show ?thesis using ne a' True by (subst settings_loop.simps) simp
    qed
  qed
qed

text \<open>The token taken and the mark of the first frame do not matter.\<close>

definition marked :: "int \<Rightarrow> h2_conn \<Rightarrow> h2_conn" where
  "marked n c = c\<lparr>controlTokens := n, sawFirstSettings := True\<rparr>"

lemma adjust_marked:
  "adjust_windows delta ids (marked n c) = (marked n (fst (adjust_windows delta ids c)), snd (adjust_windows delta ids c))"
proof (induction delta ids c rule: adjust_windows.induct)
  case (2 delta sid ids c)
  have "upd sid f (marked n c) = marked n (upd sid f c)" for f by (simp add: marked_def upd_def)
  moreover have "objs (marked n c) = objs c" by (simp add: marked_def)
  ultimately show ?case using 2 by (simp add: Let_def)
qed simp

lemma apply_marked: "apply_setting i v (marked n c) = (marked n (fst (apply_setting i v c)), snd (apply_setting i v c))"
proof (cases "i = settingInitialWindowSize")
  case True
  have "(marked n c)\<lparr>peerInitialWindowSize := w\<rparr> = marked n (c\<lparr>peerInitialWindowSize := w\<rparr>)" for w by (simp add: marked_def)
  moreover have "streams (marked n d) = streams d" "peerInitialWindowSize (marked n d) = peerInitialWindowSize d" for d
    by (simp_all add: marked_def)
  ultimately show ?thesis
    using True by (simp add: apply_setting_def Let_def case_prod_unfold adjust_marked setting_ids)
next
  case False
  then show ?thesis by (simp add: apply_setting_def marked_def Let_def)
qed

lemma loop_marked: "settings_loop p (marked n c) = (marked n (fst (settings_loop p c)), snd (settings_loop p c))"
proof (induction p c rule: settings_loop.induct)
  case (1 p c)
  obtain c1 k where a: "apply_setting (be_word (sub_bytes p 0 2)) (be_word (sub_bytes p 2 6)) c = (c1, k)" by fastforce
  show ?case
  proof (cases "p = [] \<or> k \<noteq> errCodeNo")
    case True
    then show ?thesis by (subst (1 2 3) settings_loop.simps) (auto simp: apply_marked a)
  next
    case False
    then have "settings_loop (drop 6 p) (marked n c1) = (marked n (fst (settings_loop (drop 6 p) c1)), snd (settings_loop (drop 6 p) c1))"
      using "1.IH" [OF _ a [symmetric] refl] by simp
    with False show ?thesis by (subst (1 2 3) settings_loop.simps) (simp add: apply_marked a)
  qed
qed

section \<open>What a frame in error leaves as it was\<close>

definition kept :: "h2_conn \<Rightarrow> h2_conn \<Rightarrow> bool" where
  "kept c d \<longleftrightarrow> h_wire d = h_wire c \<and> h_failed d = h_failed c \<and> h_closeCalls d = h_closeCalls c \<and> started d = started c \<and>
     streams d = streams c \<and> maxClientStreamID d = maxClientStreamID c"

lemma kept_refl [simp]: "kept c c"
  by (simp add: kept_def)

lemma kept_conn_trans: "kept c d \<Longrightarrow> kept d e \<Longrightarrow> kept c e"
  by (simp add: kept_def)

lemma kept_upd [simp]: "kept c (upd sid f d) = kept c d"
  by (simp add: kept_def upd_def)

lemma kept_adjust: "kept c d \<Longrightarrow> kept c (fst (adjust_windows delta ids d))"
  by (induction delta ids d rule: adjust_windows.induct) (simp_all add: Let_def)

lemma kept_apply: "kept c (fst (apply_setting i v c))"
proof -
  have "kept c (fst (adjust_windows delta ids (c\<lparr>peerInitialWindowSize := w\<rparr>)))" for delta ids w
    by (rule kept_adjust) (simp add: kept_def)
  then show ?thesis by (auto simp: apply_setting_def Let_def case_prod_unfold kept_def)
qed

lemma kept_settings: "kept c (fst (settings_loop p c))"
proof (induction p c rule: settings_loop.induct)
  case (1 p c)
  obtain c1 k where a: "apply_setting (be_word (sub_bytes p 0 2)) (be_word (sub_bytes p 2 6)) c = (c1, k)" by fastforce
  have k: "kept c c1" using kept_apply [of c "be_word (sub_bytes p 0 2)" "be_word (sub_bytes p 2 6)"] a by simp
  show ?case
  proof (cases "p = [] \<or> k \<noteq> errCodeNo")
    case True
    then show ?thesis using k a by (subst settings_loop.simps) auto
  next
    case False
    then have "kept c1 (fst (settings_loop (drop 6 p) c1))" using "1.IH" [OF _ a [symmetric] refl] by simp
    with k False a show ?thesis by (subst settings_loop.simps) (auto intro: kept_conn_trans)
  qed
qed

section \<open>The handlers follow the rules\<close>

text \<open>
  What the handler of a frame in error gives: the code, no stream for the executor, and the connection as it was but for
  the decoder, the windows and the tokens. The only frames it may add are updates of the connection's window.
\<close>

definition refused :: "h2_conn \<Rightarrow> h2frame list \<Rightarrow> errCode \<Rightarrow> handled_headers \<Rightarrow> bool" where
  "refused c out code r \<longleftrightarrow> kept c (fst r) \<and> snd (snd r) = (None, code) \<and> code \<noteq> errCodeNo \<and>
     (\<exists>inc. fst (snd r) = out @ conn_update inc)"

lemma refusedI: "kept c c' \<Longrightarrow> code \<noteq> errCodeNo \<Longrightarrow> refused c out code (c', out, None, code)"
  "kept c c' \<Longrightarrow> code \<noteq> errCodeNo \<Longrightarrow> refused c out code (c', out @ conn_update inc, None, code)"
  by (auto simp: refused_def conn_update_def intro: exI [of _ 0])

lemma refused_code: "refused c out code r \<Longrightarrow> snd (snd (snd r)) = code \<and> code \<noteq> errCodeNo"
  by (simp add: refused_def)

lemma kept_simps [simp]:
  "kept c (c\<lparr>controlTokens := n\<rparr>)" "kept c (c\<lparr>resetTokens := n\<rparr>)" "kept c (fst (takeControlToken c))"
  "kept c (c\<lparr>continuationFrames := m\<rparr>)"
  by (simp_all add: kept_def takeControlToken_def)

lemma codes_neq [simp]:
  "errCodeProtocol \<noteq> errCodeNo" "errCodeFlowControl \<noteq> errCodeNo" "errCodeFrameSize \<noteq> errCodeNo" "errCodeCompression \<noteq> errCodeNo"
  "errCodeEnhanceYourCalm \<noteq> errCodeNo"
  by (simp_all add: err_codes)

lemma length_field: "length p = unat (n :: u32) \<Longrightarrow> n = of_nat (length p)"
  by simp

lemma handleFrame_between:
  assumes "between_blocks c (frameType fh) (flags fh) (streamID fh)"
  shows "handleFrame E fh p out c =
    (if frameType fh = frameData then H2Conn.no_stream (handleData fh p out c)
     else if frameType fh = frameHeaders then handleHeaders E fh p out c
     else if frameType fh = framePriority then H2Conn.no_stream (handlePriority fh p out c)
     else if frameType fh = frameRSTStream then H2Conn.no_stream (handleRSTStream fh out c)
     else if frameType fh = frameSettings then H2Conn.no_stream (handleSettings fh p out c)
     else if frameType fh = framePushPromise \<or> frameType fh = frameContinuation then (c, out, None, errCodeProtocol)
     else if frameType fh = framePing then H2Conn.no_stream (handlePing fh p out c)
     else if frameType fh = frameGoAway then (c, out, None, handleGoAway fh)
     else if frameType fh = frameWindowUpdate then H2Conn.no_stream (handleWindowUpdate fh p out c)
     else (c, out, None, errCodeNo))"
proof -
  have "(\<not> sawFirstSettings c \<and> (frameType fh \<noteq> frameSettings \<or> flags fh AND flagAck \<noteq> 0 \<or> streamID fh \<noteq> 0)) = False"
    "(continuationStreamID c \<noteq> 0) = False"
    using assms by (auto simp: between_blocks_def expected_def)
  then show ?thesis unfolding handleFrame_def by (simp only: if_False)
qed

lemma handleFrame_unexpected:
  assumes "\<not> expected c (frameType fh) (flags fh) (streamID fh)"
  shows "handleFrame E fh p out c = (c, out, None, errCodeProtocol)"
proof (cases "\<not> sawFirstSettings c \<and> (frameType fh \<noteq> frameSettings \<or> flags fh AND flagAck \<noteq> 0 \<or> streamID fh \<noteq> 0)")
  case True
  show ?thesis unfolding handleFrame_def by (rule if_P [OF True])
next
  case False
  then have "(continuationStreamID c \<noteq> 0) = True" "(frameType fh \<noteq> frameContinuation \<or> streamID fh \<noteq> continuationStreamID c) = True"
    using assms by (auto simp: expected_def)
  then show ?thesis unfolding handleFrame_def if_not_P [OF False] by (simp only: if_True)
qed

lemma handleFrame_block:
  assumes "expected c (frameType fh) (flags fh) (streamID fh)" "continuationStreamID c \<noteq> 0"
  shows "handleFrame E fh p out c = handleContinuation E fh p out c"
proof -
  have "(\<not> sawFirstSettings c \<and> (frameType fh \<noteq> frameSettings \<or> flags fh AND flagAck \<noteq> 0 \<or> streamID fh \<noteq> 0)) = False"
    "(continuationStreamID c \<noteq> 0) = True" "(frameType fh \<noteq> frameContinuation \<or> streamID fh \<noteq> continuationStreamID c) = False"
    using assms by (auto simp: expected_def)
  then show ?thesis unfolding handleFrame_def by (simp only: if_False if_True)
qed

text \<open>Between header blocks a frame is judged by its type.\<close>

lemma frame_error_between:
  assumes "between_blocks c t f sid"
  shows "frame_error E c t f sid p code \<longleftrightarrow>
    (t = framePushPromise \<or> t = frameContinuation) \<and> code = errCodeProtocol \<or> t = frameData \<and> data_error c f sid p code \<or>
    t = frameHeaders \<and> headers_error E c f sid p code \<or> t = framePriority \<and> priority_error c sid p code \<or>
    t = frameRSTStream \<and> rst_error c sid p code \<or> t = frameSettings \<and> settings_frame_error c f sid p code \<or>
    t = framePing \<and> ping_error c f sid p code \<or> t = frameGoAway \<and> goaway_error sid p code \<or>
    t = frameWindowUpdate \<and> update_error c sid p code"
proof -
  have "expected c t f sid" "continuationStreamID c = 0" using assms by (simp_all add: between_blocks_def)
  with assms show ?thesis by (subst frame_error.simps) blast
qed

text \<open>The handlers, one by one: the code is an error exactly when a rule says so.\<close>

definition follows :: "(errCode \<Rightarrow> bool) \<Rightarrow> h2_conn \<Rightarrow> h2frame list \<Rightarrow> handled \<Rightarrow> bool" where
  "follows P c out r \<longleftrightarrow> (\<forall>code. P code \<longleftrightarrow> snd (snd r) = code \<and> code \<noteq> errCodeNo) \<and>
     (snd (snd r) \<noteq> errCodeNo \<longrightarrow> kept c (fst r) \<and> (\<exists>inc. fst (snd r) = out @ conn_update inc))"

lemma no_update [simp]: "\<exists>inc. conn_update inc = []"
  by (rule exI [of _ 0]) (simp add: conn_update_def)

lemma length_numeral: "length p = unat n \<Longrightarrow> (n :: u32) = numeral k \<longleftrightarrow> length p = unat (numeral k :: u32)"
  by (simp add: word_unat_eq_iff)

lemma handlePing_follows:
  assumes "length p = unat (fh_length fh)"
  shows "follows (ping_error c (flags fh) (streamID fh) p) c out (handlePing fh p out c)"
  using length_numeral [OF assms]
  by (auto simp: follows_def ping_error.simps handlePing_def takeControlToken_def)

lemma handleGoAway_follows:
  assumes "length p = unat (fh_length fh)"
  shows "goaway_error (streamID fh) p code \<longleftrightarrow> handleGoAway fh = code \<and> code \<noteq> errCodeNo"
proof -
  have "fh_length fh < 8 \<longleftrightarrow> length p < 8" using assms by (simp add: word_less_nat_alt)
  then show ?thesis by (auto simp: goaway_error.simps handleGoAway_def)
qed

lemma handlePriority_follows:
  assumes "length p = unat (fh_length fh)"
  shows "follows (priority_error c (streamID fh) p) c out (handlePriority fh p out c)"
  using length_numeral [OF assms]
  by (auto simp: follows_def priority_error.simps handlePriority_def takeControlToken_def sub_bytes_def)

lemma handleRSTStream_follows:
  assumes "length p = unat (fh_length fh)"
  shows "follows (rst_error c (streamID fh) p) c out (handleRSTStream fh out c)"
  using length_numeral [OF assms]
  by (auto simp: follows_def rst_error.simps handleRSTStream_def idle_stream_def Let_def case_prod_unfold)

lemma handleWindowUpdate_follows:
  assumes "length p = unat (fh_length fh)"
  shows "follows (update_error c (streamID fh) p) c out (handleWindowUpdate fh p out c)"
proof -
  have i: "be_word (sub_bytes p 0 4) AND 0x7fffffff = increment p" by (simp add: increment_def sub_bytes_def)
  show ?thesis
    using length_numeral [OF assms, of "num.Bit0 (num.Bit0 num.One)"]
    by (auto simp: follows_def update_error.simps handleWindowUpdate_def idle_stream_def takeControlToken_def Let_def case_prod_unfold i)
qed

lemma handleSettings_follows:
  assumes "length p = unat (fh_length fh)" "h2_inv 0 c" "\<not> broken c"
  shows "follows (settings_frame_error c (flags fh) (streamID fh) p) c out (handleSettings fh p out c)"
proof -
  let ?d = "marked (controlTokens c - 1) c"
  have z: "fh_length fh = 0 \<longleftrightarrow> p = []" using assms(1) by (metis length_0_conv unat_eq_zero)
  have k: "kept c (fst (settings_loop p ?d))"
    using kept_settings [of ?d p] by (rule kept_conn_trans [rotated]) (simp add: kept_def marked_def)
  have e: "settings_error c p code \<longleftrightarrow> snd (settings_loop p ?d) = code \<and> code \<noteq> errCodeNo" for code
    using settings_loop_error [OF assms(2,3)] by (simp add: loop_marked)
  have d: "c\<lparr>controlTokens := controlTokens c - 1, sawFirstSettings := True\<rparr> = ?d" by (simp add: marked_def)
  show ?thesis
    using k unfolding follows_def settings_frame_error.simps e handleSettings_def Let_def case_prod_unfold
    by (auto simp: assms(1) [symmetric] takeControlToken_def z d)
qed

lemma handleData_follows:
  assumes l: "length p = unat (fh_length fh)" "unat (fh_length fh) \<le> maxFrameSizeLimit"
  shows "follows (data_error c (flags fh) (streamID fh) p) c out (handleData fh p out c)"
proof -
  have "uint (fh_length fh) = int (length p)" using l(1) by simp
  moreover have "int (length p) \<le> maxWindowSize"
  proof -
    have "length p \<le> 16777215" using l by (simp only: maxFrameSizeLimit_def)
    then show ?thesis by (simp add: maxWindowSize_def)
  qed
  ultimately have n: "i32 (uint (fh_length fh)) = int (length p)" by simp
  let ?sid = "streamID fh" and ?d = "c\<lparr>c_receiveWindow := i32 (c_receiveWindow c - int (length p))\<rparr>"
  define Bad where "Bad \<longleftrightarrow> ?sid = 0 \<or> idle_stream c ?sid \<or> stripPadding p (flags fh) = None"
  consider (bad) Bad | (big) "\<not> Bad" "c_receiveWindow c < int (length p)"
    | (gone) "\<not> Bad" "\<not> c_receiveWindow c < int (length p)" "?sid \<notin> set (streams c)"
    | (there) "\<not> Bad" "\<not> c_receiveWindow c < int (length p)" "?sid \<in> set (streams c)" by blast
  then show ?thesis
  proof cases
    case bad
    note bad = bad [unfolded Bad_def]
    then have "handleData fh p out c = (c, out, errCodeProtocol)"
      by (auto simp: handleData_def idle_stream_def split: option.splits)
    with bad show ?thesis by (auto simp: follows_def data_error.simps)
  next
    case big
    then obtain x where x: "?sid \<noteq> 0" "\<not> idle_stream c ?sid" "stripPadding p (flags fh) = Some x"
      using Bad_def by auto
    note big = x big(2-)
    then have "handleData fh p out c = (c, out, errCodeFlowControl)"
      by (auto simp: handleData_def idle_stream_def n split: prod.splits)
    with big show ?thesis by (auto simp: follows_def data_error.simps)
  next
    case gone
    then obtain x where x: "?sid \<noteq> 0" "\<not> idle_stream c ?sid" "stripPadding p (flags fh) = Some x"
      using Bad_def by auto
    note gone = x gone(2-)
    let ?t = "takeConnWindowUpdateLocked (addUnacked (int (length p)) ?d)"
    have h: "handleData fh p out c = (let (c3, ok) = takeControlToken (fst ?t)
        in if \<not> ok then (c3, out @ conn_update (snd ?t), errCodeEnhanceYourCalm)
           else (c3, out @ conn_update (snd ?t) @ [F_Rst ?sid errCodeStreamClosed], errCodeNo))"
      using gone by (simp add: handleData_def idle_stream_def n Let_def case_prod_unfold)
    have "kept c (fst ?t)" "controlTokens (fst ?t) = controlTokens c"
      by (simp_all add: kept_def takeConnWindowUpdateLocked_def addUnacked_def)
    with gone show ?thesis unfolding follows_def data_error.simps h by (auto simp: takeControlToken_def Let_def)
  next
    case there
    then obtain x where x: "?sid \<noteq> 0" "\<not> idle_stream c ?sid" "stripPadding p (flags fh) = Some x"
      using Bad_def by auto
    note there = x there(2-)
    then have "snd (snd (handleData fh p out c)) = errCodeNo"
      by (simp add: handleData_def idle_stream_def n Let_def case_prod_unfold ack_data_def)
    with there show ?thesis by (auto simp: follows_def data_error.simps)
  qed
qed

section \<open>Header blocks\<close>

lemma finish_truncated:
  "\<not> dec_close E (history c) \<Longrightarrow> refused d out errCodeCompression (finishHeaderBlock E out c) = kept d c"
  by (auto simp: finishHeaderBlock_def history_def refused_def kept_def)

lemma decoder_Write_history:
  "\<exists>n. history (fst (decoder_Write E frag c)) = history c @ [Dec_Write frag n] \<and> snd (decoder_Write E frag c) = dec_ok E (history c) frag n"
  by (auto simp: decoder_Write_def history_def Let_def case_prod_unfold)

lemma decoder_Write_kept: "kept d (fst (decoder_Write E frag c)) = kept d c"
  by (simp add: decoder_Write_def Let_def case_prod_unfold kept_def)

lemma handleHeaders_refused:
  assumes "headers_error E c (flags fh) (streamID fh) p code"
  shows "refused c out code (handleHeaders E fh p out c)"
proof -
  let ?sid = "streamID fh" and ?f = "flags fh"
  have e: "refused c out errCodeCompression (handleHeaders E fh p out c)"
    if a: "admitted c ?f ?sid p" and d: "(\<forall>n. \<not> dec_ok E (history c @ [Dec_Emit True]) (fragment ?f p) n) \<or>
      (\<forall>n. dec_ok E (history c @ [Dec_Emit True]) (fragment ?f p) n) \<and> ?f AND flagEndHeaders \<noteq> 0 \<and>
      (\<forall>n. \<not> dec_close E (history c @ [Dec_Emit True, Dec_Write (fragment ?f p) n]))"
  proof -
    obtain frag pad where f: "stripPadding p ?f = Some (frag, pad)" using a by (auto simp: admitted_def)
    define selfDep where "selfDep = (?f AND flagPriority \<noteq> 0 \<and> be_word (sub_bytes frag 0 4) AND 0x7fffffff = ?sid)"
    define tr where "tr = (?sid \<in> set (streams c) \<or> wasRecentlyResetLocked ?sid c)"
    define c1 where "c1 = c\<lparr>builder := hb_reset ?sid (of_nat (MaxHeaderBytes (opts c))) tr (?f AND flagEndStream \<noteq> 0) selfDep,
                            decoder := Some (history c @ [Dec_Emit True]), emitEnabled := True\<rparr>"
    let ?w = "decoder_Write E (fragment ?f p) c1"
    have h: "handleHeaders E fh p out c =
      (if \<not> snd ?w then (fst ?w, out, None, errCodeCompression)
       else if ?f AND flagEndHeaders = 0
       then ((fst ?w)\<lparr>continuationStreamID := ?sid, continuationFrames := 0\<rparr>, out, None, errCodeNo)
       else finishHeaderBlock E out (fst ?w))"
    proof -
      have o: "\<not> (?sid = 0 \<or> even (unat ?sid))" "\<not> (?f AND flagPriority \<noteq> 0 \<and> length frag < 5)"
        "\<not> (\<not> tr \<and> ?sid \<le> maxClientStreamID c)"
        using a f by (auto simp: admitted_def tr_def wasRecentlyResetLocked_def)
      have t: "(?sid \<in> set (streams c) \<or> ?sid \<notin> set (streams c) \<and> wasRecentlyResetLocked ?sid c) = tr" by (auto simp: tr_def)
      have g: "(if ?f AND flagPriority \<noteq> 0 then drop 5 frag else frag) = fragment ?f p" by (simp add: fragment_def f)
      show ?thesis
        unfolding handleHeaders_def Let_def f option.case prod.case if_not_P [OF o(1)] if_not_P [OF o(2)] t if_not_P [OF o(3)] g
          selfDep_def [symmetric] history_def [symmetric] c1_def [symmetric] case_prod_unfold fst_conv snd_conv by (rule refl)
    qed
    have k: "kept c (fst ?w)" unfolding decoder_Write_kept by (simp add: c1_def kept_def)
    have hist: "history c1 = history c @ [Dec_Emit True]" by (simp add: history_def c1_def)
    obtain n where n: "history (fst ?w) = history c @ [Dec_Emit True, Dec_Write (fragment ?f p) n]"
      "snd ?w = dec_ok E (history c @ [Dec_Emit True]) (fragment ?f p) n"
      using decoder_Write_history [of E "fragment ?f p" c1] hist by auto
    show ?thesis
    proof (cases "snd ?w")
      case False
      with k show ?thesis unfolding h by (simp add: refusedI)
    next
      case True
      with d n have "?f AND flagEndHeaders \<noteq> 0" "\<not> dec_close E (history (fst ?w))" by auto
      with True k finish_truncated show ?thesis unfolding h by simp
    qed
  qed
  from assms show ?thesis
  proof cases
    case (priority frag pad)
    then show ?thesis by (auto simp: handleHeaders_def Let_def refusedI)
  next
    case (old frag pad)
    then show ?thesis by (auto simp: handleHeaders_def Let_def refusedI wasRecentlyResetLocked_def)
  qed (use e in \<open>auto simp: handleHeaders_def Let_def refusedI split: option.splits\<close>)
qed

lemma handleContinuation_refused:
  assumes "continuation_error E c (flags fh) p code"
  shows "refused c out code (handleContinuation E fh p out c)"
proof (cases "flood c (flags fh) p")
  case True
  with assms have "code = errCodeEnhanceYourCalm" by (auto simp: continuation_error.simps)
  with True show ?thesis by (auto simp: handleContinuation_def flood_def Let_def refusedI)
next
  case False
  let ?d = "c\<lparr>continuationFrames := continuationFrames c + 1\<rparr>"
  let ?w = "decoder_Write E p ?d"
  have code: "code = errCodeCompression" using assms False by (auto simp: continuation_error.simps)
  have h: "handleContinuation E fh p out c =
      (if \<not> snd ?w then (fst ?w, out, None, errCodeCompression)
       else if flags fh AND flagEndHeaders = 0 then (fst ?w, out, None, errCodeNo)
       else finishHeaderBlock E out ((fst ?w)\<lparr>continuationStreamID := 0, continuationFrames := 0\<rparr>))"
    using False by (simp add: handleContinuation_def flood_def Let_def case_prod_unfold not_le not_less)
  have k: "kept c (fst ?w)" by (simp add: decoder_Write_kept)
  have hist: "history ?d = history c" by (simp add: history_def)
  obtain n where n: "history (fst ?w) = history c @ [Dec_Write p n]" "snd ?w = dec_ok E (history c) p n"
    using decoder_Write_history [of E p ?d] hist by auto
  show ?thesis
  proof (cases "snd ?w")
    case no: False
    with k show ?thesis unfolding h code by (simp add: refusedI)
  next
    case True
    let ?e = "(fst ?w)\<lparr>continuationStreamID := 0, continuationFrames := 0\<rparr>"
    have "flags fh AND flagEndHeaders \<noteq> 0" "\<not> dec_close E (history (fst ?w))"
      using assms False True n by (auto simp: continuation_error.simps)
    moreover have "history ?e = history (fst ?w)" "kept c ?e" using k by (simp_all add: history_def kept_def)
    ultimately show ?thesis using True finish_truncated [of E ?e c out] unfolding h code by simp
  qed
qed

section \<open>Frames\<close>

lemma follows_refused: "follows P c out r \<Longrightarrow> P code \<Longrightarrow> refused c out code (H2Conn.no_stream r)"
  by (cases r) (auto simp: follows_def refused_def H2Conn.no_stream_def)

lemma follows_no_error: "follows P c out r \<Longrightarrow> \<nexists>code. P code \<Longrightarrow> snd (snd (snd (H2Conn.no_stream r))) = errCodeNo"
  by (auto simp: follows_def)

lemmas handlers_follow = handleData_follows handlePriority_follows handleRSTStream_follows handleSettings_follows handlePing_follows
  handleWindowUpdate_follows

lemma handleFrame_refused:
  assumes inv: "h2_inv 0 c" "\<not> broken c" and l: "length p = unat (fh_length fh)" "unat (fh_length fh) \<le> maxFrameSizeLimit"
    and e: "frame_error E c (frameType fh) (flags fh) (streamID fh) p code"
  shows "refused c out code (handleFrame E fh p out c)"
  using e
proof cases
  case unexpected
  then show ?thesis by (simp add: handleFrame_unexpected refusedI)
next
  case continuation
  then show ?thesis by (simp add: handleFrame_block handleContinuation_refused)
next
  case forbidden
  then show ?thesis by (auto simp: handleFrame_between refusedI frame_types)
next
  case goaway
  then show ?thesis using handleGoAway_follows [OF l(1)] by (auto simp: handleFrame_between refusedI frame_types)
qed (simp_all add: handleFrame_between frame_types handleHeaders_refused follows_refused [OF handleData_follows [OF l]]
      follows_refused [OF handlePriority_follows [OF l(1)]] follows_refused [OF handleRSTStream_follows [OF l(1)]]
      follows_refused [OF handleSettings_follows [OF l(1) inv]] follows_refused [OF handlePing_follows [OF l(1)]]
      follows_refused [OF handleWindowUpdate_follows [OF l(1)]])

lemma handleFrame_accepted:
  assumes inv: "h2_inv 0 c" "\<not> broken c" and l: "length p = unat (fh_length fh)" "unat (fh_length fh) \<le> maxFrameSizeLimit"
    and t: "frameType fh \<noteq> frameHeaders" "frameType fh \<noteq> frameContinuation"
    and e: "\<nexists>code. frame_error E c (frameType fh) (flags fh) (streamID fh) p code"
  shows "snd (snd (snd (handleFrame E fh p out c))) = errCodeNo"
proof -
  have "expected c (frameType fh) (flags fh) (streamID fh)" using e frame_error.unexpected by blast
  then have b: "between_blocks c (frameType fh) (flags fh) (streamID fh)" using t by (auto simp: between_blocks_def expected_def)
  note n = e [unfolded frame_error_between [OF b]]
  consider "frameType fh = frameData" | "frameType fh = framePriority" | "frameType fh = frameRSTStream" | "frameType fh = frameSettings"
    | "frameType fh = framePing" | "frameType fh = frameGoAway" | "frameType fh = frameWindowUpdate" | "frameType fh = framePushPromise"
    | "frameType fh \<notin> {frameData, frameHeaders, framePriority, frameRSTStream, frameSettings, framePushPromise, framePing, frameGoAway,
         frameWindowUpdate, frameContinuation}" using t by blast
  then show ?thesis
  proof cases
    case 1
    then show ?thesis using n follows_no_error [OF handleData_follows [OF l]] by (simp add: handleFrame_between [OF b] frame_types)
  next
    case 2
    then show ?thesis using n follows_no_error [OF handlePriority_follows [OF l(1)]] by (simp add: handleFrame_between [OF b] frame_types)
  next
    case 3
    then show ?thesis using n follows_no_error [OF handleRSTStream_follows [OF l(1)]] by (simp add: handleFrame_between [OF b] frame_types)
  next
    case 4
    then show ?thesis using n follows_no_error [OF handleSettings_follows [OF l(1) inv]] by (simp add: handleFrame_between [OF b] frame_types)
  next
    case 5
    then show ?thesis using n follows_no_error [OF handlePing_follows [OF l(1)]] by (simp add: handleFrame_between [OF b] frame_types)
  next
    case 6
    then show ?thesis using n handleGoAway_follows [OF l(1)] by (auto simp: handleFrame_between [OF b] frame_types)
  next
    case 7
    then show ?thesis using n follows_no_error [OF handleWindowUpdate_follows [OF l(1)]] by (simp add: handleFrame_between [OF b] frame_types)
  next
    case 8
    with n show ?thesis by blast
  next
    case 9
    then show ?thesis by (simp add: handleFrame_between [OF b])
  qed
qed

lemma next_frame_refused:
  assumes inv: "h2_inv 0 c" "\<not> broken c" and len: "frameHeaderLen \<le> length data" and fh: "fh = parseFrameHeader data"
    and e: "connection_error E c fh (take (unat (fh_length fh)) (drop frameHeaderLen data)) code"
  shows "\<exists>k1 c1 inc. next_frame E data k c = Some ([], k1, c1, False) \<and> kept c c1 \<and> broken c1 \<and> goingAway c1 \<and> newStreams k1 = newStreams k \<and>
    outControl k1 = outControl k @ conn_update inc @ [F_GoAway (maxClientStreamID c) code]"
  using e
proof cases
  case too_long
  then show ?thesis using len
    by (auto simp: next_frame_def fh Let_def abortInOnData_def kept_def conn_update_def intro: exI [of _ 0])
next
  case complete
  let ?p = "take (unat (fh_length fh)) (drop frameHeaderLen data)"
  have M: "unat (fh_length fh) \<le> maxFrameSizeLimit" using complete(1) stream_of(4) [OF inv(1)] by (simp add: opts_ok_def)
  have p: "sub_bytes data frameHeaderLen (frameHeaderLen + unat (fh_length fh)) = ?p" by (simp add: sub_bytes_def)
  have "frameHeaderLen + unat (fh_length fh) \<le> length data" using complete(2) len by simp
  then have long: "\<not> length data < frameHeaderLen + unat (fh_length fh)" "\<not> length data < frameHeaderLen"
    "\<not> unat (fh_length fh) > MaxReadFrameSize (opts c)" using complete(1) len by simp_all
  have r: "refused c (outControl k) code (handleFrame E fh ?p (outControl k) c)"
    using handleFrame_refused [OF inv complete(2) M complete(3)] .
  then obtain c' inc where h: "handleFrame E fh ?p (outControl k) c = (c', outControl k @ conn_update inc, None, code)"
    and k: "kept c c'" "code \<noteq> errCodeNo" by (cases "handleFrame E fh ?p (outControl k) c") (auto simp: refused_def)
  have "maxClientStreamID c' = maxClientStreamID c" using k(1) by (simp add: kept_def)
  then show ?thesis
    unfolding next_frame_def Let_def fh [symmetric] if_not_P [OF long(1)] if_not_P [OF long(2)] if_not_P [OF long(3)] p h
    using k by (auto simp: abortInOnData_def kept_def)
qed

lemma next_frame_accepted:
  assumes inv: "h2_inv 0 c" "\<not> broken c" and fh: "fh = parseFrameHeader data"
    and t: "frameType fh \<noteq> frameHeaders" "frameType fh \<noteq> frameContinuation"
    and e: "\<nexists>code. connection_error E c fh (take (unat (fh_length fh)) (drop frameHeaderLen data)) code"
    and n: "next_frame E data k c = Some (rest, k1, c1, go)"
  shows "go \<and> \<not> broken c1"
proof -
  let ?p = "take (unat (fh_length fh)) (drop frameHeaderLen data)"
  have s: "\<not> unat (fh_length fh) > MaxReadFrameSize (opts c)" using e connection_error.too_long by blast
  have len: "frameHeaderLen \<le> length data" "frameHeaderLen + unat (fh_length fh) \<le> length data"
    using n s by (auto simp: next_frame_def Let_def fh [symmetric] split: if_splits)
  then have p: "length ?p = unat (fh_length fh)" "sub_bytes data frameHeaderLen (frameHeaderLen + unat (fh_length fh)) = ?p"
    by (simp_all add: sub_bytes_def)
  have M: "unat (fh_length fh) \<le> maxFrameSizeLimit" using s stream_of(4) [OF inv(1)] by (simp add: opts_ok_def)
  have "\<nexists>code. frame_error E c (frameType fh) (flags fh) (streamID fh) ?p code"
    using e s p(1) connection_error.complete [of fh c] by (metis not_less)
  from handleFrame_accepted [OF inv p(1) M t this] n s len have go
    by (auto simp: next_frame_def Let_def fh [symmetric] p(2) case_prod_unfold split: if_splits)
  with next_frame_ok [OF inv n] show ?thesis by simp
qed

text \<open>The end of \<^verbatim>\<open>onData\<close> on a connection that is broken: what was collected is written and the connection closed.\<close>

lemma data_end_broken:
  assumes "broken c" and "\<not> h_failed c" and "outControl k \<noteq> []"
  shows "h_wire (data_end p k c) = h_wire c @ outControl k" "broken (data_end p k c)" "goingAway (data_end p k c) = goingAway c"
    "h_closeCalls (data_end p k c) = h_closeCalls c + 1" "started (data_end p k c) = started c @ newStreams k"
    "streams (data_end p k c) = streams c"
  using assms by (simp_all add: data_end_def Let_def engine_Write_def engine_Close_def)

end
