(* ===== verification/H2Demo.thy ===== *)
theory H2Demo
  imports H2Errors "HOL-Library.Code_Target_Nat"
begin

text \<open>
  One run of an HTTP/2 connection, evaluated: the states the properties are tried on.
\<close>

text \<open>A decoder that reads every block as the same request, and a client that sends one, with a body.\<close>

definition demo_env :: h2_env where
  "demo_env = \<lparr>dec_fields = (\<lambda>h b. [('':method'', ''POST''), ('':scheme'', ''http''), ('':authority'', ''a''), ('':path'', ''/'')]),
     dec_ok = (\<lambda>h b n. True), dec_close = (\<lambda>h. True), enc_field = (\<lambda>h f. map of_char (fst f)), uri_valid = (\<lambda>u. True), currentDate = ''now''\<rparr>"

definition demo_conn :: h2_conn where
  "demo_conn = onOpen None (newConn (withDefaults 0 0 0 0 0 0 0))"

definition demo_data :: bytes where
  "demo_data = clientPreface @ frame_bytes (F_Settings []) @ frame_bytes (F_Headers 1 [0] False 16384) @ frame_bytes (F_Data 1 [7, 8, 9] False)"

definition demo_sys :: h2_sys where
  "demo_sys = \<lparr>sys_conn = snd (onData demo_env demo_data demo_conn), sys_data = None\<rparr>"

lemma reach_rtranclp: "step\<^sup>*\<^sup>* s t \<Longrightarrow> reach init step s \<Longrightarrow> reach init step t"
  by (induction rule: rtranclp_induct) (auto intro: reach.intros)

lemma demo_reach: "reach h2_init (h2_step demo_env) demo_sys"
proof -
  have "h2_init \<lparr>sys_conn = demo_conn, sys_data = None\<rparr>" unfolding h2_init_def demo_conn_def h2_sys.simps by blast
  then have "reach h2_init (h2_step demo_env) \<lparr>sys_conn = demo_conn, sys_data = None\<rparr>" by (rule reach.intros)
  then show ?thesis unfolding demo_sys_def by (rule reach_rtranclp [OF onData_steps])
qed

lemma demo_eval:
  "(let c = sys_conn demo_sys in
      (streams c, unread (objs c 1), ConnectionWindowSize (opts c), MaxConcurrentStreams (opts c), c_granted c,
       writeErrLocked 1 c, h_failed c, h_writable c, c_sendWindow c, sendWindow (objs c 1))) =
    ([1], 3, 1048576, 250, 0, None, False, True, 65535, 65535)"
  by code_simp

lemma demo_streams: "streams (sys_conn demo_sys) = [1]" "unread (objs (sys_conn demo_sys) 1) = 3"
  "ConnectionWindowSize (opts (sys_conn demo_sys)) = 1048576" "MaxConcurrentStreams (opts (sys_conn demo_sys)) = 250"
  "c_granted (sys_conn demo_sys) = 0"
  using demo_eval by (simp_all add: Let_def)

lemma demo_writable: "writeErrLocked 1 (sys_conn demo_sys) = None" "\<not> h_failed (sys_conn demo_sys)" "h_writable (sys_conn demo_sys)"
  "3 \<le> c_sendWindow (sys_conn demo_sys)" "3 \<le> sendWindow (objs (sys_conn demo_sys) 1)"
  using demo_eval by (simp_all add: Let_def)

text \<open>A second piece of data: a PING of seven bytes, and more after it.\<close>

definition demo_ping :: bytes where
  "demo_ping = raw_bytes (framePing, 0, 0, [1, 2, 3, 4, 5, 6, 7]) @ [1, 2, 3]"

definition demo_pinged :: h2_sys where
  "demo_pinged = demo_sys\<lparr>sys_data := Some (nothing_collected, demo_ping)\<rparr>"

lemma demo_ping_eval:
  "(let c = sys_conn demo_sys; fh = parseFrameHeader demo_ping in
      (broken c, prefaceRead c, sawFirstSettings c, continuationStreamID c, MaxReadFrameSize (opts c), maxClientStreamID c,
       fh, length demo_ping, take 7 (drop 9 demo_ping))) =
    (False, 24, True, 0, 16384, 1, \<lparr>fh_length = 7, streamID = 0, frameType = framePing, flags = 0\<rparr>, 19, [1, 2, 3, 4, 5, 6, 7])"
  by code_simp

lemma demo_pinged_reach: "reach h2_init (h2_step demo_env) demo_pinged"
proof -
  let ?c = "sys_conn demo_sys"
  have p: "prefaceRead ?c = 24" "\<not> broken ?c" using demo_ping_eval by (simp_all add: Let_def)
  have l: "length clientPreface = 24" by code_simp
  have "read_preface demo_ping ?c = Some (0, ?c\<lparr>prefaceRead := prefaceRead ?c\<rparr>)" unfolding read_preface_def p(1) l by simp
  then have "read_preface demo_ping ?c = Some (0, ?c)" by simp
  moreover have "sys_data demo_sys = None" by (simp add: demo_sys_def)
  ultimately have "h2_step demo_env demo_sys (demo_sys\<lparr>sys_conn := ?c, sys_data := Some (nothing_collected, drop 0 demo_ping)\<rparr>)"
    using p l by (intro h2_step.begin_data) auto
  then have "h2_step demo_env demo_sys demo_pinged" by (simp add: demo_pinged_def)
  with demo_reach show ?thesis by (rule reach.intros)
qed

text \<open>The PING is an error of the connection: its length is not 8.\<close>

lemma demo_ping_error:
  "connection_error demo_env (sys_conn demo_pinged) (parseFrameHeader demo_ping)
     (take (unat (fh_length (parseFrameHeader demo_ping))) (drop frameHeaderLen demo_ping)) errCodeFrameSize"
proof -
  note e = demo_ping_eval [unfolded Let_def]
  have "parseFrameHeader demo_ping = \<lparr>fh_length = 7, streamID = 0, frameType = framePing, flags = 0\<rparr>"
    "take 7 (drop 9 demo_ping) = [1, 2, 3, 4, 5, 6, 7]" "sawFirstSettings (sys_conn demo_pinged)"
    "continuationStreamID (sys_conn demo_pinged) = 0" "MaxReadFrameSize (opts (sys_conn demo_pinged)) = 16384"
    using e by (simp_all add: demo_pinged_def)
  then show ?thesis
    by (intro connection_error.complete) (simp_all add: frameHeaderLen_def frame_error.ping ping_error.size between_blocks_def expected_def)
qed

end
