(* ===== verification/H2Props.thy ===== *)
theory H2Props
  imports H2Demo
begin

text \<open>
  What holds of an HTTP/2 connection in every state it can reach: flow control in both directions, the table of
  streams, the frames sent, the bodies delivered, and how it fails.
\<close>

section \<open>Flow control\<close>

text \<open>
  C28. Receive windows. Whatever the client sends and the handlers do, no byte of the receive window is lost or
  invented: what the client may still send, what has been consumed and not yet given back, and what waits in the
  bodies of the open streams always add up to the window announced, none of them negative, and no stream holds more
  than its own window. In particular the 32-bit counters never overflow.
\<close>

theorem h2_receive_windows:
  assumes "reach h2_init (h2_step E) s"
  shows "0 \<le> c_receiveWindow (sys_conn s) \<and> 0 \<le> unackedReceiveBytes (sys_conn s) \<and>
    c_receiveWindow (sys_conn s) + unackedReceiveBytes (sys_conn s) +
      (\<Sum>sid\<leftarrow>streams (sys_conn s). int (unread (objs (sys_conn s) sid))) = ConnectionWindowSize (opts (sys_conn s)) \<and>
    ConnectionWindowSize (opts (sys_conn s)) < 2 ^ 31 \<and>
    list_all (\<lambda>sid. 0 \<le> receiveWindow (objs (sys_conn s) sid) \<and> 0 \<le> unackedBytes (objs (sys_conn s) sid) \<and>
      receiveWindow (objs (sys_conn s) sid) + unackedBytes (objs (sys_conn s) sid) + int (unread (objs (sys_conn s) sid)) \<le>
        InitialWindowSize (opts (sys_conn s))) (streams (sys_conn s))"
proof -
  have inv: "h2_inv 0 (sys_conn s)" using h2_run.reach_inv [OF assms] by (simp add: sys_inv_def)
  then have "flow_ok 0 (sys_conn s)" "opts_ok (opts (sys_conn s))" by (simp_all add: h2_inv_def table_ok_def)
  moreover have "recv_ok (InitialWindowSize (opts (sys_conn s))) (objs (sys_conn s) sid)" for sid
    using stream_of(1) [OF inv] by (simp add: stream_ok_def)
  ultimately show ?thesis by (simp add: flow_ok_def waiting_bytes_def opts_ok_def maxWindowSize_def list_all_iff recv_ok_def)
qed

theorem h2_receive_windows_witness:
  "c_receiveWindow (sys_conn demo_sys) + unackedReceiveBytes (sys_conn demo_sys) = 1048576 - 3"
  using h2_receive_windows [OF demo_reach] by (simp add: demo_streams)

text \<open>
  C29. Send windows. The bytes of all DATA frames handed to the engine never exceed the initial window of a
  connection plus the increments the client has granted, and the windows of the connection and of every stream stay
  within the 31 bits of the protocol.
\<close>

theorem h2_send_windows:
  assumes "reach h2_init (h2_step E) s"
  shows "data_bytes (h_wire (sys_conn s)) + c_sendWindow (sys_conn s) \<le> 65535 + c_granted (sys_conn s) \<and>
    0 \<le> c_sendWindow (sys_conn s) \<and> c_sendWindow (sys_conn s) < 2 ^ 31 \<and>
    - (2 ^ 31) < sendWindow (objs (sys_conn s) sid) \<and> sendWindow (objs (sys_conn s) sid) < 2 ^ 31"
proof -
  have inv: "h2_inv 0 (sys_conn s)" "wire_ok (sys_conn s)" using h2_run.reach_inv [OF assms] by (simp_all add: sys_inv_def)
  then have "limits_ok (sys_conn s)" by (simp add: h2_inv_def)
  moreover have "state_ok (objs (sys_conn s) sid)" using stream_of(1) [OF inv(1)] by (simp add: stream_ok_def)
  ultimately show ?thesis
    using inv(2) by (simp add: wire_ok_def limits_ok_def state_ok_def maxWindowSize_def defaultInitialWindowSize_def)
qed

theorem h2_send_windows_witness: "data_bytes (h_wire (sys_conn demo_sys)) + c_sendWindow (sys_conn demo_sys) \<le> 65535"
  using h2_send_windows [OF demo_reach] by (simp add: demo_streams)

section \<open>Streams and frames\<close>

text \<open>
  C30. The table of streams. The counter of open streams is the number of entries of the map, never above
  \<^verbatim>\<open>MaxConcurrentStreams\<close>; the entries are distinct client streams not newer than the last one announced, and a stream
  is in the map exactly as long as it is not closed. The budgets against floods stay within their bounds.
\<close>

theorem h2_stream_table:
  assumes "reach h2_init (h2_step E) s"
  shows "activeStreams (sys_conn s) = length (streams (sys_conn s)) \<and> activeStreams (sys_conn s) \<le> MaxConcurrentStreams (opts (sys_conn s)) \<and>
    distinct (streams (sys_conn s)) \<and>
    list_all (\<lambda>sid. odd (unat sid) \<and> sid \<le> maxClientStreamID (sys_conn s)) (streams (sys_conn s)) \<and>
    (sid \<in> set (streams (sys_conn s)) \<longleftrightarrow> st_state (objs (sys_conn s) sid) \<noteq> StreamClosed) \<and>
    0 \<le> controlTokens (sys_conn s) \<and> controlTokens (sys_conn s) \<le> 2000 \<and> 0 \<le> resetTokens (sys_conn s) \<and> resetTokens (sys_conn s) \<le> 1000"
proof -
  have "h2_inv 0 (sys_conn s)" using h2_run.reach_inv [OF assms] by (simp add: sys_inv_def)
  then show ?thesis by (auto simp: h2_inv_def table_ok_def limits_ok_def list_all_iff maxControlBurst_def maxResetBurst_def)
qed

theorem h2_stream_table_witness: "activeStreams (sys_conn demo_sys) = 1 \<and> (3 :: u32) \<notin> set (streams (sys_conn demo_sys)) \<and>
    st_state (objs (sys_conn demo_sys) 3) = StreamClosed"
  using h2_stream_table [OF demo_reach, of 3] by (simp add: demo_streams)

text \<open>
  C31. Frames sent. In every reachable state the bytes handed to the engine are whole frames: they decode, with the
  parser of frame headers, to the frames written, with nothing left over. On every stream END_STREAM comes last: no
  HEADERS or DATA frame of the stream follows it, and the stream is closed by then.
\<close>

theorem h2_frames_sent:
  assumes "reach h2_init (h2_step E) s"
  shows "decode_all raw_dec (length (concat (map frame_raws (h_wire (sys_conn s))))) (concat (map frame_bytes (h_wire (sys_conn s)))) =
      (concat (map frame_raws (h_wire (sys_conn s))), []) \<and>
    ends_last sid (h_wire (sys_conn s)) \<and>
    (list_ex (ends sid) (h_wire (sys_conn s)) \<longrightarrow> sid \<notin> set (streams (sys_conn s)))"
proof -
  have inv: "h2_inv 0 (sys_conn s)" "wire_ok (sys_conn s)" using h2_run.reach_inv [OF assms] by (simp_all add: sys_inv_def)
  have "sid \<notin> set (streams (sys_conn s))" if "list_ex (ends sid) (h_wire (sys_conn s))"
    using that inv(2) stream_of(2) [OF inv(1), of sid] by (auto simp: list_ex_iff wire_ok_def)
  with inv(2) show ?thesis by (simp add: wire_ok_def frames_decode)
qed

theorem h2_frames_sent_witness: "ends_last 1 (h_wire (sys_conn demo_sys)) \<and> \<not> list_ex (ends 1) (h_wire (sys_conn demo_sys))"
  using h2_frames_sent [OF demo_reach, of 1] by (simp add: demo_streams)

section \<open>Bodies\<close>

lemma consume_body:
  "bodyIn (objs (fst (consumeReceiveBytesLocked sid n c)) sid) = bodyIn (objs c sid)"
  "bodyOut (objs (fst (consumeReceiveBytesLocked sid n c)) sid) = bodyOut (objs c sid)"
  "bodyPos (objs (fst (consumeReceiveBytesLocked sid n c)) sid) = bodyPos (objs c sid)"
  "bodyBuf (objs (fst (consumeReceiveBytesLocked sid n c)) sid) = bodyBuf (objs c sid)"
  "eof (objs (fst (consumeReceiveBytesLocked sid n c)) sid) = eof (objs c sid)"
  "st_state (objs (fst (consumeReceiveBytesLocked sid n c)) sid) = st_state (objs c sid)"
  "bodyClosed (objs (fst (consumeReceiveBytesLocked sid n c)) sid) = bodyClosed (objs c sid)"
  by (simp_all add: consumeReceiveBytesLocked_def Let_def case_prod_unfold)

text \<open>The reader has been told that the body is complete.\<close>

fun at_eof :: "read_result \<Rightarrow> bool" where
  "at_eof RD_eof = True"
| "at_eof (RD_data d e) = e"
| "at_eof _ = False"

fun read_bytes :: "read_result \<Rightarrow> bytes" where
  "read_bytes (RD_data d e) = d"
| "read_bytes _ = []"

lemma read_round_body:
  assumes "read_round sid n c = (c', r)"
  shows "bodyIn (objs c' sid) = bodyIn (objs c sid) \<and> bodyOut (objs c' sid) = bodyOut (objs c sid) @ read_bytes r \<and>
    st_state (objs c' sid) = st_state (objs c sid) \<and>
    (at_eof r \<longrightarrow> eof (objs c' sid) \<and> \<not> bodyClosed (objs c' sid) \<and> drop (bodyPos (objs c' sid)) (bodyBuf (objs c' sid)) = [])"
proof -
  let ?s = "objs c sid" and ?avail = "drop (bodyPos (objs c sid)) (bodyBuf (objs c sid))"
  show ?thesis
  proof (cases "bodyClosed ?s \<or> ?avail = []")
    case True
    then show ?thesis using assms by (auto simp: read_round_def Let_def split: if_splits)
  next
    case False
    let ?m = "min n (length ?avail)"
    let ?c2 = "fst (consumeReceiveBytesLocked sid (i32 (int ?m)) (upd sid (read_out ?m) c))"
    let ?t = "objs ?c2 sid"
    have "objs c' = objs ?c2" "r = RD_data (take ?m ?avail) (bodyPos ?t = length (bodyBuf ?t) \<and> eof ?t \<and> readErr ?t = None)"
      using assms False by (auto simp: read_round_def Let_def case_prod_unfold)
    moreover have "bodyIn ?t = bodyIn ?s" "bodyOut ?t = bodyOut ?s @ take ?m ?avail" "st_state ?t = st_state ?s" "\<not> bodyClosed ?t"
      using False by (simp_all add: consume_body read_out_def Let_def)
    ultimately show ?thesis by auto
  qed
qed

text \<open>
  C32. Request bodies. What the handler has read of a body is always a prefix of the bytes that arrived for it, each
  read continuing where the last one stopped. When the reader of an open stream is told that the body has ended, it has
  been given every byte of it, and as many as the request declared.
\<close>

theorem h2_body_delivery:
  assumes "reach h2_init (h2_step E) s" and "read_round sid n (sys_conn s) = (c', r)"
  shows "(\<exists>rest. bodyIn (objs c' sid) = bodyOut (objs c' sid) @ rest) \<and>
    bodyOut (objs c' sid) = bodyOut (objs (sys_conn s) sid) @ read_bytes r \<and>
    (at_eof r \<and> sid \<in> set (streams (sys_conn s)) \<longrightarrow>
       bodyOut (objs c' sid) = bodyIn (objs c' sid) \<and>
       (0 \<le> declaredLength (objs c' sid) \<longrightarrow> int (length (bodyOut (objs c' sid))) = declaredLength (objs c' sid)))"
proof -
  have inv: "h2_inv 0 (sys_conn s)" using h2_run.reach_inv [OF assms(1)] by (simp add: sys_inv_def)
  have "h2_inv 0 c'" using read_round_ok [OF inv, of sid n] assms(2) by simp
  then have b: "body_ok (objs c' sid)" using stream_of(1) by (simp add: stream_ok_def)
  note r = read_round_body [OF assms(2)]
  have "bodyOut (objs c' sid) = bodyIn (objs c' sid) \<and>
       (0 \<le> declaredLength (objs c' sid) \<longrightarrow> int (length (bodyOut (objs c' sid))) = declaredLength (objs c' sid))"
    if "at_eof r" "sid \<in> set (streams (sys_conn s))"
  proof -
    have st: "st_state (objs c' sid) \<noteq> StreamClosed" "\<not> bodyClosed (objs c' sid)" "eof (objs c' sid)"
      "drop (bodyPos (objs c' sid)) (bodyBuf (objs c' sid)) = []"
      using that r stream_of(2) [OF inv, of sid] by simp_all
    have e: "bodyIn (objs c' sid) = bodyOut (objs c' sid)" "receivedBytes (objs c' sid) = int (length (bodyIn (objs c' sid)))"
      using b st unfolding body_ok_def by auto
    have "receivedBytes (objs c' sid) = declaredLength (objs c' sid)" if "0 \<le> declaredLength (objs c' sid)"
      using b st that unfolding body_ok_def by blast
    with e show ?thesis by (metis (no_types))
  qed
  moreover have "\<exists>rest. bodyIn (objs c' sid) = bodyOut (objs c' sid) @ rest" using b unfolding body_ok_def by blast
  ultimately show ?thesis using r by blast
qed

theorem h2_body_delivery_witness:
  "\<exists>rest. bodyIn (objs (fst (read_round 1 2 (sys_conn demo_sys))) 1) = bodyOut (objs (fst (read_round 1 2 (sys_conn demo_sys))) 1) @ rest"
  using h2_body_delivery [OF demo_reach, of 1 2] by (metis prod.collapse)

text \<open>
  C33. Response bodies. When both windows have room and the engine takes writes, the loop of \<^verbatim>\<open>writeData\<close> ends without
  waiting: it sends the whole body as DATA frames, none of them empty or larger than the client accepts, in order,
  with END_STREAM on the last of them when the stream is to end, and charges every byte to the window.
\<close>

theorem h2_writeData_sends:
  assumes "reach h2_init (h2_step E) s" and "data \<noteq> []" and "writeErrLocked sid (sys_conn s) = None" and "\<not> h_failed (sys_conn s)"
    and "h_writable (sys_conn s)" and "int (length data) \<le> c_sendWindow (sys_conn s)" and "int (length data) \<le> sendWindow (objs (sys_conn s) sid)"
  shows "\<exists>c' chunks b. writeData_run sid fin data (sys_conn s) = Some (c', WD_return None) \<and> concat chunks = data \<and>
    list_all (\<lambda>x. x \<noteq> [] \<and> length x \<le> peerMaxFrameSize (sys_conn s)) chunks \<and>
    h_wire c' = h_wire (sys_conn s) @ data_frames sid fin chunks @ early_reset sid b \<and> (b \<longrightarrow> fin) \<and>
    c_sendWindow c' = c_sendWindow (sys_conn s) - int (length data) \<and> (fin \<longrightarrow> st_state (objs c' sid) = StreamClosed)"
proof -
  have "h2_inv 0 (sys_conn s)" using h2_run.reach_inv [OF assms(1)] by (simp add: sys_inv_def)
  from writeData_run_sends [OF this assms(2-7)] show ?thesis .
qed

theorem h2_writeData_sends_witness:
  "\<exists>c'. writeData_run 1 True [1, 2, 3] (sys_conn demo_sys) = Some (c', WD_return None)"
  using h2_writeData_sends [OF demo_reach, of "[1, 2, 3]" 1 True] demo_writable by auto

section \<open>Errors\<close>

text \<open>
  C34. Connection errors. While \<^verbatim>\<open>onData\<close> works through its data, in any state the connection can reach, let the next frame be
  one that the rules of RFC 9113 (the relation \<open>connection_error\<close>, stated by frame type) make an error of the connection
  with a given code: a frame that is too long or of the wrong length for its type, a first frame that is not SETTINGS, a frame inside the
  header block of another, a frame on a stream it may not be on, a setting or an increment that is not allowed, data beyond the window,
  a header block that does not decode, a flood of frames that want an answer. Then the frame is not acted upon and no
  stream is started; after the frames already collected (and at most an update of the connection's window) a GOAWAY with that very code and
  the last stream accepted is written, and nothing after it; the connection is broken and closed once; the rest of the data and all
  data that comes later are dropped without changing anything. And the rules are exact: a frame of another type than HEADERS and
  CONTINUATION that no rule makes an error does not end the connection. The engine is assumed to take the write.
\<close>

theorem h2_connection_error:
  assumes "reach h2_init (h2_step E) s" and "sys_data s = Some (k, data)" and "frameHeaderLen \<le> length data" and "\<not> h_failed (sys_conn s)"
    and "fh = parseFrameHeader data" and "p = take (unat (fh_length fh)) (drop frameHeaderLen data)"
  shows "(connection_error E (sys_conn s) fh p code \<longrightarrow>
      (\<exists>k1 c1 inc. next_frame E data k (sys_conn s) = Some ([], k1, c1, False) \<and>
        h_wire (data_end False k1 c1) =
          h_wire (sys_conn s) @ outControl k @ conn_update inc @ [F_GoAway (maxClientStreamID (sys_conn s)) code] \<and>
        broken (data_end False k1 c1) \<and> goingAway (data_end False k1 c1) \<and>
        h_closeCalls (data_end False k1 c1) = h_closeCalls (sys_conn s) + 1 \<and>
        started (data_end False k1 c1) = started (sys_conn s) @ newStreams k \<and> streams (data_end False k1 c1) = streams (sys_conn s) \<and>
        (\<forall>data'. onData E data' (data_end False k1 c1) = (length data', data_end False k1 c1)))) \<and>
    (frameType fh \<noteq> frameHeaders \<and> frameType fh \<noteq> frameContinuation \<and> (\<nexists>code. connection_error E (sys_conn s) fh p code) \<longrightarrow>
      (\<forall>rest k1 c1 go. next_frame E data k (sys_conn s) = Some (rest, k1, c1, go) \<longrightarrow> go \<and> \<not> broken c1))"
proof -
  let ?c = "sys_conn s"
  have "sys_inv s" using h2_run.reach_inv [OF assms(1)] .
  moreover have "data \<noteq> []" using assms(3) by (auto simp: frameHeaderLen_def)
  ultimately have inv: "h2_inv 0 ?c" "\<not> broken ?c" using assms(2) by (auto simp: sys_inv_def)
  have "\<exists>k1 c1 inc. next_frame E data k ?c = Some ([], k1, c1, False) \<and>
      h_wire (data_end False k1 c1) = h_wire ?c @ outControl k @ conn_update inc @ [F_GoAway (maxClientStreamID ?c) code] \<and>
      broken (data_end False k1 c1) \<and> goingAway (data_end False k1 c1) \<and> h_closeCalls (data_end False k1 c1) = h_closeCalls ?c + 1 \<and>
      started (data_end False k1 c1) = started ?c @ newStreams k \<and> streams (data_end False k1 c1) = streams ?c \<and>
      (\<forall>data'. onData E data' (data_end False k1 c1) = (length data', data_end False k1 c1))"
    if e: "connection_error E ?c fh p code"
  proof -
    from next_frame_refused [OF inv assms(3,5) e [unfolded assms(6)], of k] obtain k1 c1 inc where
      n: "next_frame E data k ?c = Some ([], k1, c1, False)" "kept ?c c1" "broken c1" "goingAway c1" "newStreams k1 = newStreams k"
        "outControl k1 = outControl k @ conn_update inc @ [F_GoAway (maxClientStreamID ?c) code]" by blast
    have "\<not> h_failed c1" "outControl k1 \<noteq> []" using n(2,6) assms(4) by (simp_all add: kept_def)
    note d = data_end_broken [OF n(3) this, of False]
    have "onData E data' (data_end False k1 c1) = (length data', data_end False k1 c1)" for data' by (simp add: onData_def d(2))
    then show ?thesis using n d by (intro exI [of _ k1] exI [of _ c1] exI [of _ inc]) (simp add: kept_def)
  qed
  moreover have "go \<and> \<not> broken c1"
    if "frameType fh \<noteq> frameHeaders" "frameType fh \<noteq> frameContinuation" "\<nexists>code. connection_error E ?c fh p code"
      "next_frame E data k ?c = Some (rest, k1, c1, go)" for rest k1 c1 go
    using next_frame_accepted [OF inv assms(5) that(1,2) that(3) [unfolded assms(6)] that(4)] .
  ultimately show ?thesis by blast
qed

theorem h2_connection_error_witness:
  "\<exists>k1 c1 inc. next_frame demo_env demo_ping nothing_collected (sys_conn demo_sys) = Some ([], k1, c1, False) \<and>
     h_wire (data_end False k1 c1) = h_wire (sys_conn demo_sys) @ conn_update inc @ [F_GoAway 1 errCodeFrameSize] \<and>
     onData demo_env [1, 2] (data_end False k1 c1) = (2, data_end False k1 c1)"
proof -
  have s: "sys_data demo_pinged = Some (nothing_collected, demo_ping)" "sys_conn demo_pinged = sys_conn demo_sys"
    by (simp_all add: demo_pinged_def)
  have l: "frameHeaderLen \<le> length demo_ping" "maxClientStreamID (sys_conn demo_sys) = 1" "\<not> h_failed (sys_conn demo_pinged)"
    using demo_ping_eval demo_writable(2) s(2) by (simp_all add: Let_def frameHeaderLen_def)
  from h2_connection_error [OF demo_pinged_reach s(1) l(1) l(3) refl refl] demo_ping_error obtain k1 c1 inc where
    n: "next_frame demo_env demo_ping nothing_collected (sys_conn demo_sys) = Some ([], k1, c1, False)"
      "h_wire (data_end False k1 c1) = h_wire (sys_conn demo_sys) @ conn_update inc @ [F_GoAway 1 errCodeFrameSize]"
      "\<forall>data'. onData demo_env data' (data_end False k1 c1) = (length data', data_end False k1 c1)"
    unfolding s(2) l(2) nothing_collected_def by fastforce
  from n(3) have "onData demo_env [1, 2] (data_end False k1 c1) = (2, data_end False k1 c1)" by simp
  with n(1,2) show ?thesis by blast
qed

end
