(* ===== verification/FhFramer.thy ===== *)
theory FhFramer
  imports Httpx
begin

text \<open>
  \<^verbatim>\<open>fhttp/framer.go\<close>: where a request message ends in the data of a connection. The framer keeps three offsets
  between arrivals of data, 32 bits wide, and is passed a message from its start again and again until all of it has
  arrived. Its loops over chunks and messages are partial functions: that they return is proved from the limits.
\<close>

section \<open>Package bytes\<close>

fun bytes_Index :: "string \<Rightarrow> string \<Rightarrow> nat option" where
  "bytes_Index p [] = (if p = [] then Some 0 else None)"
| "bytes_Index p (c # cs) = (if has_prefix p (c # cs) then Some 0 else map_option Suc (bytes_Index p cs))"

definition bytes_Contains :: "string \<Rightarrow> string \<Rightarrow> bool" where
  "bytes_Contains s p \<longleftrightarrow> bytes_Index p s \<noteq> None"

definition bytes_Trim :: "string \<Rightarrow> string \<Rightarrow> string" where
  "bytes_Trim s cutset = rev (dropWhile (\<lambda>c. c \<in> set cutset) (rev (dropWhile (\<lambda>c. c \<in> set cutset) s)))"

definition bytes_TrimSuffix :: "string \<Rightarrow> string \<Rightarrow> string" where
  "bytes_TrimSuffix s p = (if has_suffix p s then take (length s - length p) s else s)"

text \<open>\<^verbatim>\<open>s[bytes.LastIndexByte(s, c)+1:]\<close>.\<close>

definition after_last :: "char \<Rightarrow> string \<Rightarrow> string" where
  "after_last c s = rev (takeWhile (\<lambda>x. x \<noteq> c) (rev s))"

section \<open>State\<close>

abbreviation CR :: char where "CR \<equiv> CHR 0x0d"
abbreviation LF :: char where "LF \<equiv> CHR 0x0a"

definition maxLimit :: int where "maxLimit = 2 ^ 30 - 1"

record fh_options =
  MaxHeaderBytes :: int
  MaxBufferedBodyBytes :: int
  ReadHeaderTimeout :: int
  IdleTimeout :: int

text \<open>Durations are in nanoseconds.\<close>

definition withDefaults :: "fh_options \<Rightarrow> fh_options" where
  "withDefaults o' =
     (let o1 = (if MaxHeaderBytes o' \<le> 0 then o'\<lparr>MaxHeaderBytes := 16 * 2 ^ 10\<rparr> else o');
          o2 = (if MaxBufferedBodyBytes o1 \<le> 0 then o1\<lparr>MaxBufferedBodyBytes := 2 ^ 20\<rparr> else o1);
          o3 = o2\<lparr>MaxHeaderBytes := min (MaxHeaderBytes o2) maxLimit,
                  MaxBufferedBodyBytes := min (MaxBufferedBodyBytes o2) maxLimit\<rparr>;
          o4 = (if ReadHeaderTimeout o3 = 0 then o3\<lparr>ReadHeaderTimeout := 10 * 10 ^ 9\<rparr> else o3)
      in if IdleTimeout o4 = 0 then o4\<lparr>IdleTimeout := 120 * 10 ^ 9\<rparr> else o4)"

datatype fh_error = ErrHeaderTooLarge | ErrURITooLong | ErrBadRequest | ErrHandoff

definition maxHeaderValueCount :: nat where "maxHeaderValueCount = 500"

definition headerTerminator :: string where "headerTerminator = [CR, LF, CR, LF]"

record message =
  m_size :: nat
  m_header :: nat
  m_chunked :: bool

record framer =
  fr_header :: int
  fr_pos :: int
  fr_size :: int

definition new_framer :: framer where
  "new_framer = \<lparr>fr_header = 0, fr_pos = 0, fr_size = 0\<rparr>"

definition statusHandoff :: int where "statusHandoff = - 1"

definition errorStatus :: "fh_error \<Rightarrow> int" where
  "errorStatus e = (case e of ErrHeaderTooLarge \<Rightarrow> 431 | ErrURITooLong \<Rightarrow> 414 | _ \<Rightarrow> 400)"

text \<open>What \<^verbatim>\<open>split\<close> pushes: a complete message with its framing, or a status.\<close>

datatype item = Message string message | Status int

section \<open>Header fields\<close>

definition hasField :: "string \<Rightarrow> string \<Rightarrow> bool" where
  "hasField line name \<longleftrightarrow>
     length line > length name \<and> line ! length name = CHR '':'' \<and> strings_EqualFold (take (length name) line) name"

definition fieldValue :: "string \<Rightarrow> string \<Rightarrow> string" where
  "fieldValue line name = bytes_Trim (drop (length name + 1) line) [CHR 0x20, CHR 0x09, CR]"

definition parseLength :: "string \<Rightarrow> nat option" where
  "parseLength value = strconv_ParseUint (bytes_Trim value [CHR 0x20, CHR 0x09, CR]) 63"

definition mediaType :: string where "mediaType = ''text/event-stream''"
definition dash :: nat where "dash = length ''text/event''"

function event_stream_from :: "string \<Rightarrow> nat \<Rightarrow> bool" where
  "event_stream_from value i =
     (if i < length value then
        case strings_IndexByte (drop i value) (CHR ''-'') of
          None \<Rightarrow> False
        | Some j \<Rightarrow>
            let i' = i + j; s = drop (i' - dash) value in
            if length s \<ge> length mediaType \<and> strings_EqualFold (take (length mediaType) s) mediaType then True
            else event_stream_from value (i' + 1)
      else False)"
  by pat_completeness auto
termination by (relation "measure (\<lambda>(value, i). length value - i)") auto

declare event_stream_from.simps [simp del]

definition hasEventStream :: "string \<Rightarrow> bool" where
  "hasEventStream value = event_stream_from value dash"

text \<open>The variables of \<^verbatim>\<open>inspectHeader\<close>.\<close>

record inspection =
  lengths :: nat
  codings :: nat
  declared :: nat
  finalChunked :: bool
  handoff :: bool
  i_length :: nat
  i_chunked :: bool
  i_expect :: bool

definition new_inspection :: inspection where
  "new_inspection = \<lparr>lengths = 0, codings = 0, declared = 0, finalChunked = False, handoff = False,
     i_length = 0, i_chunked = False, i_expect = False\<rparr>"

definition inspect_line :: "string \<Rightarrow> int \<Rightarrow> string \<Rightarrow> inspection \<Rightarrow> fh_error + inspection" where
  "inspect_line requestLine maxBody line v =
     (if hasField line ''Content-Length'' then
        case parseLength (drop (length ''Content-Length:'') line) of
          None \<Rightarrow> Inl ErrBadRequest
        | Some n \<Rightarrow>
            if lengths v > 0 \<and> n \<noteq> declared v then Inl ErrBadRequest
            else let w = v\<lparr>lengths := lengths v + 1, declared := n\<rparr> in
                 Inr (if int n > maxBody then w\<lparr>handoff := True\<rparr> else w\<lparr>i_length := n\<rparr>)
      else if hasField line ''Transfer-Encoding'' then
        let value = fieldValue line ''Transfer-Encoding'' in
        Inr (v\<lparr>i_chunked := codings v = 0 \<and> strings_EqualFold value ''chunked'',
               finalChunked := strings_EqualFold (bytes_Trim (after_last (CHR '','') value) [CHR 0x20, CHR 0x09]) ''chunked'',
               codings := codings v + 1\<rparr>)
      else if hasField line ''Expect'' then
        Inr (v\<lparr>handoff := handoff v \<or> \<not> strings_EqualFold (fieldValue line ''Expect'') ''100-continue'',
               i_expect := \<not> has_suffix ''HTTP/1.0'' requestLine\<rparr>)
      else if hasField line ''Accept'' then
        Inr (v\<lparr>handoff := handoff v \<or> hasEventStream (fieldValue line ''Accept'')\<rparr>)
      else Inr v)"

text \<open>The lines of a header all end in LF, as the header does.\<close>

function inspect_lines :: "string \<Rightarrow> int \<Rightarrow> nat \<Rightarrow> string \<Rightarrow> inspection \<Rightarrow> fh_error + inspection" where
  "inspect_lines requestLine maxBody fieldLines ls v =
     (if ls = [] then Inr v
      else let line = takeWhile (\<lambda>c. c \<noteq> LF) ls; rest = drop 1 (dropWhile (\<lambda>c. c \<noteq> LF) ls) in
        if fieldLines = maxHeaderValueCount \<and> length rest > 0 then Inl ErrHeaderTooLarge
        else case inspect_line requestLine maxBody line v of
               Inl e \<Rightarrow> Inl e
             | Inr w \<Rightarrow> inspect_lines requestLine maxBody (fieldLines + 1) rest w)"
  by pat_completeness auto
termination
proof (relation "measure (\<lambda>(r, b, n, ls, v). length ls)")
  fix ls :: string assume "ls \<noteq> []"
  then show "\<And>r b n v x xa y. x = takeWhile (\<lambda>c. c \<noteq> LF) ls \<Longrightarrow> xa = drop 1 (dropWhile (\<lambda>c. c \<noteq> LF) ls) \<Longrightarrow>
      \<not> (n = maxHeaderValueCount \<and> 0 < length xa) \<Longrightarrow> inspect_line r b x v = Inr y \<Longrightarrow>
      ((r, b, n + 1, xa, y), (r, b, n, ls, v)) \<in> measure (\<lambda>(r, b, n, ls, v). length ls)"
    using length_dropWhile_le [of "\<lambda>c. c \<noteq> LF" ls] by (cases ls) auto
qed simp

declare inspect_lines.simps [simp del]

definition inspectHeader :: "string \<Rightarrow> int \<Rightarrow> fh_error + nat \<times> bool \<times> bool" where
  "inspectHeader header maxBody =
     (let requestLine = bytes_TrimSuffix (takeWhile (\<lambda>c. c \<noteq> LF) header) [CR];
          ls = drop 1 (dropWhile (\<lambda>c. c \<noteq> LF) header) in
      case inspect_lines requestLine maxBody 0 ls new_inspection of
        Inl e \<Rightarrow> Inl e
      | Inr v \<Rightarrow>
          if codings v > 0 \<and> \<not> finalChunked v then Inl ErrBadRequest
          else if handoff v \<or> codings v > 1 \<or> lengths v > 1 \<or> codings v = 1 \<and> \<not> i_chunked v \<or>
                  i_chunked v \<and> (lengths v > 0 \<or> \<not> has_suffix ''HTTP/1.1'' requestLine)
          then Inl ErrHandoff
          else Inr (i_length v, i_chunked v, i_expect v))"

section \<open>The end of a message\<close>

definition tooLarge :: "string \<Rightarrow> int \<Rightarrow> fh_error" where
  "tooLarge data maxHeader =
     (case strings_IndexByte (take (nat maxHeader) data) LF of None \<Rightarrow> ErrURITooLong | Some _ \<Rightarrow> ErrHeaderTooLarge)"

definition findHeader :: "string \<Rightarrow> int \<Rightarrow> framer \<Rightarrow> framer \<times> (fh_error + nat)" where
  "findHeader data maxHeader f =
     (let from = nat (max (fr_pos f - int (length headerTerminator) + 1) 0);
          rest = drop from data in
      case bytes_Index headerTerminator rest of
        None \<Rightarrow>
          if bytes_Contains rest [LF, LF] \<or> bytes_Contains rest [LF, CR, LF] then (f, Inl ErrBadRequest)
          else if int (length data) > maxHeader then (f, Inl (tooLarge data maxHeader))
          else (f\<lparr>fr_pos := i32 (int (length data))\<rparr>, Inr 0)
      | Some i \<Rightarrow>
          let n = from + i + length headerTerminator in
          if int n > maxHeader then (f, Inl (tooLarge data maxHeader)) else (f, Inr n))"

definition hex_digit :: "char \<Rightarrow> nat option" where
  "hex_digit c =
     (if ord (CHR ''0'') \<le> ord c \<and> ord c \<le> ord (CHR ''9'') then Some (ord c - ord (CHR ''0''))
      else if ord (CHR ''a'') \<le> ord c \<and> ord c \<le> ord (CHR ''f'') then Some (ord c - ord (CHR ''a'') + 10)
      else if ord (CHR ''A'') \<le> ord c \<and> ord c \<le> ord (CHR ''F'') then Some (ord c - ord (CHR ''A'') + 10)
      else None)"

text \<open>\<^verbatim>\<open>chunkHeader\<close>: the size, the length of the size line (0 when it has not arrived in full), and \<^verbatim>\<open>ok\<close>.\<close>

fun size_line :: "nat \<Rightarrow> nat \<Rightarrow> string \<Rightarrow> nat \<times> nat \<times> bool" where
  "size_line i sz [] = (0, 0, True)"
| "size_line i sz (c # cs) =
     (case hex_digit c of
        Some d \<Rightarrow> if i = 7 then (0, 0, False) else size_line (i + 1) (sz * 16 + d) cs
      | None \<Rightarrow>
          if c = CR \<and> i > 0 then (if cs = [] then (0, 0, True) else (sz, i + 2, cs ! 0 = LF))
          else (0, 0, False))"

definition chunkHeader :: "string \<Rightarrow> nat \<times> nat \<times> bool" where
  "chunkHeader b = size_line 0 0 b"

partial_function (option) chunks :: "string \<Rightarrow> int \<Rightarrow> framer \<Rightarrow> (framer \<times> (fh_error + nat)) option" where
  "chunks data limit f =
     (let pos = nat (fr_pos f); (sz, n, ok) = chunkHeader (drop pos data) in
      if \<not> ok then Some (f, Inl ErrHandoff)
      else if n = 0 then Some (f, Inr 0)
      else if int (n + sz + 2) > limit - int pos then Some (f, Inl ErrHandoff)
      else let e = pos + n + sz + 2 in
        if length data < e then Some (f, Inr 0)
        else if data ! (e - 2) \<noteq> CR \<or> data ! (e - 1) \<noteq> LF then Some (f, Inl ErrHandoff)
        else if sz = 0 then Some (f, Inr e)
        else chunks data limit (f\<lparr>fr_pos := i32 (int e)\<rparr>))"

text \<open>The first part of \<^verbatim>\<open>next\<close>: the header, once it has arrived; \<open>Inr None\<close> when it has not.\<close>

definition next_header :: "string \<Rightarrow> fh_options \<Rightarrow> framer \<Rightarrow> framer \<times> (fh_error + bool option)" where
  "next_header data opts f =
     (if fr_header f = 0 then
        let (f1, r) = findHeader data (MaxHeaderBytes opts) f in
        case r of
          Inl e \<Rightarrow> (f1, Inl e)
        | Inr h \<Rightarrow>
            if h = 0 then (f1, Inr None)
            else
              let maxBody = min (MaxBufferedBodyBytes opts) (maxLimit - int h) in
              case inspectHeader (take h data) maxBody of
                Inl e \<Rightarrow> (f1, Inl e)
              | Inr (len, chunked, expect) \<Rightarrow>
                  let f2 = f1\<lparr>fr_header := i32 (int h)\<rparr> in
                  if chunked then (f2\<lparr>fr_pos := i32 (int h), fr_size := - 1\<rparr>, Inr (Some (expect \<and> length data = h)))
                  else (f2\<lparr>fr_size := i32 (int (h + len))\<rparr>, Inr (Some (expect \<and> length data < h + len)))
      else (f, Inr (Some False)))"

definition no_message :: message where
  "no_message = \<lparr>m_size = 0, m_header = 0, m_chunked = False\<rparr>"

text \<open>The rest of \<^verbatim>\<open>next\<close>: the body.\<close>

definition next_body :: "string \<Rightarrow> fh_options \<Rightarrow> bool \<Rightarrow> framer \<Rightarrow> (framer \<times> (fh_error + message \<times> bool)) option" where
  "next_body data opts expectContinue f =
     (let h = nat (fr_header f); m = \<lparr>m_size = 0, m_header = h, m_chunked = False\<rparr> in
      if fr_size f < 0 then
        case chunks data (int h + min (MaxBufferedBodyBytes opts) (maxLimit - int h)) f of
          None \<Rightarrow> None
        | Some (f1, Inl e) \<Rightarrow> Some (new_framer, Inl e)
        | Some (f1, Inr e) \<Rightarrow>
            if e = 0 then Some (f1, Inr (no_message, expectContinue))
            else Some (new_framer, Inr (m\<lparr>m_size := e, m_chunked := True\<rparr>, False))
      else
        let m1 = m\<lparr>m_size := nat (fr_size f)\<rparr> in
        if length data < m_size m1 then Some (f, Inr (no_message, expectContinue))
        else Some (new_framer, Inr (m1, False)))"

definition fr_next :: "string \<Rightarrow> fh_options \<Rightarrow> framer \<Rightarrow> (framer \<times> (fh_error + message \<times> bool)) option" where
  "fr_next data opts f =
     (case next_header data opts f of
        (f1, Inl e) \<Rightarrow> Some (f1, Inl e)
      | (f1, Inr None) \<Rightarrow> Some (f1, Inr (no_message, False))
      | (f1, Inr (Some expectContinue)) \<Rightarrow> next_body data opts expectContinue f1)"

text \<open>The loop of \<^verbatim>\<open>split\<close> from \<open>consumed\<close> on; it returns the items pushed, \<^verbatim>\<open>consumed\<close> and \<^verbatim>\<open>end\<close>.\<close>

definition empty_line :: "string \<Rightarrow> framer \<Rightarrow> nat option" where
  "empty_line rest f =
     (if f = new_framer then
        if rest ! 0 = LF then Some 1
        else if rest ! 0 = CR \<and> length rest = 1 then Some 0
        else if rest ! 0 = CR \<and> rest ! 1 = LF then Some 2
        else None
      else None)"

partial_function (option) split_loop ::
    "string \<Rightarrow> fh_options \<Rightarrow> framer \<Rightarrow> nat \<Rightarrow> item list \<Rightarrow> (framer \<times> item list \<times> nat \<times> int) option" where
  "split_loop data opts f consumed items =
     (if consumed < length data then
        let rest = drop consumed data in
        case empty_line rest f of
          Some n \<Rightarrow> if n = 0 then Some (f, items, consumed, 0) else split_loop data opts f (consumed + n) items
        | None \<Rightarrow>
            (case fr_next rest opts f of
               None \<Rightarrow> None
             | Some (f1, r) \<Rightarrow>
                 (case r of
                    Inl e \<Rightarrow>
                      if e = ErrHandoff then Some (f1, items @ [Status statusHandoff], consumed, statusHandoff)
                      else Some (f1, items @ [Status (errorStatus e)], length data, errorStatus e)
                  | Inr (m, expectContinue) \<Rightarrow>
                      if m_size m = 0 then
                        Some (f1, if expectContinue then items @ [Status 100] else items, consumed, 0)
                      else split_loop data opts f1 (consumed + m_size m) (items @ [Message (take (m_size m) rest) m])))
      else Some (f, items, consumed, 0))"

declare chunks.simps [code] split_loop.simps [code]

definition fr_split :: "string \<Rightarrow> fh_options \<Rightarrow> framer \<Rightarrow> (framer \<times> item list \<times> nat \<times> int) option" where
  "fr_split data opts f = split_loop data opts f 0 []"

end
