(* ===== verification/FhFraming.thy ===== *)
theory FhFraming
  imports FhFramer "HOL-Library.Sublist"
begin

text \<open>
  What the framer of \<^verbatim>\<open>fhttp\<close> finds: a reference that looks at a whole message at once, the framer's state as what
  is known of the message so far, and that the data may arrive in pieces.
\<close>

declare strings_EqualFold.simps [simp del]

section \<open>Searching\<close>

lemma has_prefix_iff: "has_prefix p s \<longleftrightarrow> prefix p s"
proof
  assume "has_prefix p s"
  then show "prefix p s" by (metis has_prefix_def take_is_prefix)
next
  assume "prefix p s"
  then show "has_prefix p s" by (auto simp: has_prefix_def prefix_def)
qed

lemma has_prefix_append: "has_prefix p s \<Longrightarrow> has_prefix p (s @ t)"
  by (simp add: has_prefix_iff)

lemma has_prefix_append_iff: "length p \<le> length s \<Longrightarrow> has_prefix p (s @ t) \<longleftrightarrow> has_prefix p s"
  by (simp add: has_prefix_def)

lemma has_prefix_length: "has_prefix p s \<Longrightarrow> length p \<le> length s"
  by (simp add: has_prefix_iff prefix_length_le)

lemma drop_split: "j \<le> length (take n s) \<Longrightarrow> drop j s = drop j (take n s) @ drop n s"
  by (metis append_take_drop_id diff_is_0_eq' drop0 drop_append)

lemma bytes_Index_None: "p \<noteq> [] \<Longrightarrow> bytes_Index p s = None \<longleftrightarrow> (\<forall>j. \<not> has_prefix p (drop j s))"
proof (induction p s rule: bytes_Index.induct)
  case (1 p)
  then show ?case by (auto simp: has_prefix_def)
next
  case (2 p c cs)
  have "(\<forall>j. \<not> has_prefix p (drop j (c # cs))) \<longleftrightarrow> \<not> has_prefix p (c # cs) \<and> (\<forall>j. \<not> has_prefix p (drop j cs))"
    by (metis drop0 drop_Suc_Cons not0_implies_Suc)
  with 2 show ?case by auto
qed

lemma bytes_Index_Some: "p \<noteq> [] \<Longrightarrow> bytes_Index p s = Some i \<longleftrightarrow> has_prefix p (drop i s) \<and> (\<forall>j<i. \<not> has_prefix p (drop j s))"
proof (induction p s arbitrary: i rule: bytes_Index.induct)
  case (1 p)
  then show ?case by (auto simp: has_prefix_def)
next
  case (2 p c cs)
  show ?case
  proof (cases i)
    case 0
    then show ?thesis by auto
  next
    case (Suc k)
    have "(\<forall>j<Suc k. \<not> has_prefix p (drop j (c # cs))) \<longleftrightarrow> \<not> has_prefix p (c # cs) \<and> (\<forall>j<k. \<not> has_prefix p (drop j cs))"
      by (auto simp: less_Suc_eq_0_disj)
    with Suc 2 show ?thesis by auto
  qed
qed

lemma bytes_Index_bound: "p \<noteq> [] \<Longrightarrow> bytes_Index p s = Some i \<Longrightarrow> i + length p \<le> length s"
  using has_prefix_length [of p "drop i s"] by (cases p) (auto simp: bytes_Index_Some)

lemma bytes_Index_more: "p \<noteq> [] \<Longrightarrow> bytes_Index p s = Some i \<Longrightarrow> bytes_Index p (s @ t) = Some i"
  using bytes_Index_bound [of p s i]
  by (auto simp: bytes_Index_Some has_prefix_append has_prefix_append_iff)

lemma bytes_Index_take:
  assumes p: "p \<noteq> []" and i: "bytes_Index p s = Some i" and n: "i + length p \<le> n"
  shows "bytes_Index p (take n s) = Some i"
proof -
  have n': "i + length p \<le> length (take n s)" using bytes_Index_bound [OF p i] n by simp
  have "has_prefix p (drop j (take n s)) = has_prefix p (drop j s)" if "j \<le> i" for j
  proof -
    have "j \<le> length (take n s)" "length p \<le> length (drop j (take n s))" using that n' by auto
    then show ?thesis by (simp add: drop_split [of j n s] has_prefix_append_iff)
  qed
  with p i show ?thesis by (auto simp: bytes_Index_Some)
qed

text \<open>A search may skip what is known not to hold a match.\<close>

lemma bytes_Index_skip:
  assumes q: "q \<noteq> []" and none: "bytes_Index q (take p s) = None" and k: "k + length q \<le> p + 1" "p \<le> length s"
  shows "bytes_Index q s = map_option ((+) k) (bytes_Index q (drop k s))"
proof -
  have skip: "\<not> has_prefix q (drop j s)" if "j < k" for j
  proof -
    have le: "length q \<le> length (drop j (take p s))" using that k by simp
    have "j \<le> length (take p s)" using that k q by (cases q) auto
    from drop_split [OF this]
    show ?thesis using le none q by (simp add: has_prefix_append_iff bytes_Index_None)
  qed
  show ?thesis
  proof (cases "bytes_Index q (drop k s)")
    case None
    then have "\<not> has_prefix q (drop j s)" for j
      using skip [of j] q by (cases "j < k") (auto simp: bytes_Index_None, metis le_add_diff_inverse2 not_less)
    with q have "bytes_Index q s = None" by (simp add: bytes_Index_None)
    with None show ?thesis by simp
  next
    case (Some i)
    have "\<not> has_prefix q (drop j s)" if "j < k + i" for j
    proof (cases "j < k")
      case False
      then have d: "j = k + (j - k)" "j - k < i" using that by simp_all
      have "\<not> has_prefix q (drop (j - k) (drop k s))" using bytes_Index_Some [OF q, of "drop k s" i] Some d(2) by blast
      with d(1) show ?thesis by (simp add: add.commute)
    qed (rule skip)
    with Some q have "bytes_Index q s = Some (k + i)" by (simp add: bytes_Index_Some add.commute)
    with Some show ?thesis by simp
  qed
qed

section \<open>Chunks\<close>

text \<open>The chunks from an offset on, without the framer: the end of the body, 0 while it has not arrived.\<close>

function walk :: "string \<Rightarrow> int \<Rightarrow> nat \<Rightarrow> fh_error + nat" where
  "walk data limit pos =
     (let (sz, n, ok) = chunkHeader (drop pos data); e = pos + n + sz + 2 in
      if \<not> ok then Inl ErrHandoff
      else if n = 0 then Inr 0
      else if int (n + sz + 2) > limit - int pos then Inl ErrHandoff
      else if length data < e then Inr 0
      else if data ! (e - 2) \<noteq> CR \<or> data ! (e - 1) \<noteq> LF then Inl ErrHandoff
      else if sz = 0 then Inr e
      else walk data limit e)"
  by pat_completeness auto
termination by (relation "measure (\<lambda>(data, limit, pos). length data - pos)") auto

declare walk.simps [simp del]

lemma size_line_more:
  assumes "size_line i sz s = (z, n, ok)"
  shows "\<not> ok \<Longrightarrow> \<not> snd (snd (size_line i sz (s @ t)))"
    and "ok \<Longrightarrow> n \<noteq> 0 \<Longrightarrow> size_line i sz (s @ t) = (z, n, ok)"
    and "n \<noteq> 0 \<Longrightarrow> n \<le> i + length s"
  using assms
  by (induction i sz s rule: size_line.induct) (auto split: option.splits if_splits simp: nth_append Suc_le_eq)

lemmas chunkHeader_more = size_line_more [where i = 0 and sz = 0, folded chunkHeader_def]

lemma walk_eq:
  "chunkHeader (drop pos data) = (sz, n, ok) \<Longrightarrow> walk data limit pos =
     (if \<not> ok then Inl ErrHandoff
      else if n = 0 then Inr 0
      else if int (n + sz + 2) > limit - int pos then Inl ErrHandoff
      else if length data < pos + n + sz + 2 then Inr 0
      else if data ! (pos + n + sz) \<noteq> CR \<or> data ! (pos + n + sz + 1) \<noteq> LF then Inl ErrHandoff
      else if sz = 0 then Inr (pos + n + sz + 2)
      else walk data limit (pos + n + sz + 2))"
  by (subst walk.simps) simp

text \<open>What has been decided stays so when more data arrives.\<close>

lemma walk_more:
  assumes "pos \<le> length data" and "walk data limit pos \<noteq> Inr 0"
  shows "walk (data @ t) limit pos = walk data limit pos"
  using assms
proof (induction data limit pos rule: walk.induct)
  case (1 data limit pos)
  obtain sz n ok where h: "chunkHeader (drop pos data) = (sz, n, ok)" by (metis prod_cases3)
  let ?e = "pos + n + sz + 2"
  note w = walk_eq [OF h, of limit]
  have d: "drop pos (data @ t) = drop pos data @ t" using "1.prems"(1) by simp
  show ?case
  proof (cases "ok \<and> n \<noteq> 0")
    case False
    then have "\<not> ok" using w "1.prems"(2) by auto
    moreover obtain sz' n' where "chunkHeader (drop pos (data @ t)) = (sz', n', False)"
      using chunkHeader_more(1) [OF h \<open>\<not> ok\<close>, of t] d by (metis (full_types) prod.collapse)
    ultimately show ?thesis using w walk_eq by simp
  next
    case True
    then have "chunkHeader (drop pos (data @ t)) = (sz, n, ok)" using chunkHeader_more(2) [OF h] d by simp
    note w' = walk_eq [OF this, of limit]
    show ?thesis
    proof (cases "int (n + sz + 2) > limit - int pos")
      case long: True
      with True w w' show ?thesis by simp
    next
      case short: False
      with True w "1.prems"(2) have e: "?e \<le> length data" by (simp split: if_splits)
      then have nth: "(data @ t) ! (pos + n + sz) = data ! (pos + n + sz)" "(data @ t) ! (pos + n + sz + 1) = data ! (pos + n + sz + 1)"
        by (simp_all add: nth_append)
      show ?thesis
      proof (cases "data ! (pos + n + sz) = CR \<and> data ! (pos + n + sz + 1) = LF \<and> sz \<noteq> 0")
        case go: True
        with True short e w have "walk data limit pos = walk data limit ?e" by simp
        moreover have "walk (data @ t) limit pos = walk (data @ t) limit ?e" using go True short e nth w' by simp
        moreover have "walk (data @ t) limit ?e = walk data limit ?e"
          using "1.IH" [of "(sz, n, ok)" sz "(n, ok)" n ok ?e] go True h e short "1.prems"(2) calculation(1) by simp
        ultimately show ?thesis by simp
      next
        case False
        with True short e nth w w' show ?thesis by auto
      qed
    qed
  qed
qed

text \<open>The loop over the chunks returns, stops at the boundary of a chunk, and finds what the reference finds.\<close>

lemma chunks_walk:
  assumes "limit \<le> maxLimit" and "fr_pos f = int pos" and "pos \<le> length data"
  shows "\<exists>p. chunks data limit f = Some (f\<lparr>fr_pos := int p\<rparr>, walk data limit pos) \<and> p \<le> length data
     \<and> (\<forall>t. walk (data @ t) limit p = walk (data @ t) limit pos)"
  using assms
proof (induction data limit pos arbitrary: f rule: walk.induct)
  case (1 data limit pos)
  obtain sz n ok where h: "chunkHeader (drop pos data) = (sz, n, ok)" by (metis prod_cases3)
  let ?e = "pos + n + sz + 2"
  note w = walk_eq [OF h, of limit]
  have pos: "nat (fr_pos f) = pos" "f\<lparr>fr_pos := int pos\<rparr> = f" using "1.prems"(2) by simp_all
  let ?go = "ok \<and> n \<noteq> 0 \<and> \<not> int (n + sz + 2) > limit - int pos \<and> ?e \<le> length data
    \<and> data ! (pos + n + sz) = CR \<and> data ! (pos + n + sz + 1) = LF \<and> sz \<noteq> 0"
  show ?case
  proof (cases ?go)
    case True
    then have "int ?e < 2 ^ 31" using "1.prems"(1) by (simp add: maxLimit_def)
    then have e: "i32 (int ?e) = int ?e" by (intro i32_small) auto
    have c: "chunks data limit f = chunks data limit (f\<lparr>fr_pos := int ?e\<rparr>)"
      using True h pos(1) e by (subst chunks.simps) (simp add: algebra_simps)
    obtain p where p: "chunks data limit (f\<lparr>fr_pos := int ?e\<rparr>) = Some (f\<lparr>fr_pos := int p\<rparr>, walk data limit ?e)" "p \<le> length data"
        "\<forall>t. walk (data @ t) limit p = walk (data @ t) limit ?e"
      using "1.IH" [of "(sz, n, ok)" sz "(n, ok)" n ok ?e "f\<lparr>fr_pos := int ?e\<rparr>"] True h "1.prems" by auto
    have "walk (data @ t) limit pos = walk (data @ t) limit ?e" for t
    proof -
      have "chunkHeader (drop pos (data @ t)) = (sz, n, ok)" using chunkHeader_more(2) [OF h] True "1.prems"(3) by simp
      from walk_eq [OF this, of limit] True show ?thesis by (simp add: nth_append)
    qed
    with p c w True show ?thesis by auto
  next
    case False
    then have "chunks data limit f = Some (f, walk data limit pos)"
      using h pos(1) w by (subst chunks.simps) (auto simp: Let_def)
    with pos(2) "1.prems"(3) show ?thesis by metis
  qed
qed

section \<open>One message\<close>

definition bare_line :: "string \<Rightarrow> bool" where
  "bare_line data \<longleftrightarrow> bytes_Contains data [LF, LF] \<or> bytes_Contains data [LF, CR, LF]"

definition body_limit :: "fh_options \<Rightarrow> nat \<Rightarrow> int" where
  "body_limit opts h = min (MaxBufferedBodyBytes opts) (maxLimit - int h)"

text \<open>The message at the start of the data, of size 0 while it has not arrived in full.\<close>

definition frame_of :: "fh_options \<Rightarrow> string \<Rightarrow> fh_error + message" where
  "frame_of opts data =
     (case bytes_Index headerTerminator data of
        None \<Rightarrow>
          if bare_line data then Inl ErrBadRequest
          else if int (length data) > MaxHeaderBytes opts then Inl (tooLarge data (MaxHeaderBytes opts))
          else Inr no_message
      | Some i \<Rightarrow>
          let h = i + 4 in
          if int h > MaxHeaderBytes opts then Inl (tooLarge data (MaxHeaderBytes opts))
          else case inspectHeader (take h data) (body_limit opts h) of
                 Inl e \<Rightarrow> Inl e
               | Inr (len, chunked, expect) \<Rightarrow>
                   if chunked then
                     case walk data (int h + body_limit opts h) h of
                       Inl e \<Rightarrow> Inl e
                     | Inr e \<Rightarrow> Inr (if e = 0 then no_message else \<lparr>m_size = e, m_header = h, m_chunked = True\<rparr>)
                   else Inr (if length data < h + len then no_message
                             else \<lparr>m_size = h + len, m_header = h, m_chunked = False\<rparr>))"

text \<open>What the framer knows of a message of which \<open>d\<close> has arrived.\<close>

definition header_known :: "fh_options \<Rightarrow> framer \<Rightarrow> string \<Rightarrow> nat \<Rightarrow> nat \<Rightarrow> bool \<Rightarrow> bool" where
  "header_known opts f d h len chunked \<longleftrightarrow>
     4 \<le> h \<and> bytes_Index headerTerminator d = Some (h - 4) \<and> int h \<le> MaxHeaderBytes opts \<and> fr_header f = int h
     \<and> (\<exists>expect. inspectHeader (take h d) (body_limit opts h) = Inr (len, chunked, expect))"

definition body_known :: "fh_options \<Rightarrow> framer \<Rightarrow> string \<Rightarrow> nat \<Rightarrow> nat \<Rightarrow> bool \<Rightarrow> bool" where
  "body_known opts f d h len chunked \<longleftrightarrow>
     (if chunked
      then fr_size f = - 1 \<and> (\<exists>p. fr_pos f = int p \<and> p \<le> length d
             \<and> (\<forall>t. walk (d @ t) (int h + body_limit opts h) p = walk (d @ t) (int h + body_limit opts h) h))
      else fr_size f = int (h + len))"

definition framed :: "fh_options \<Rightarrow> framer \<Rightarrow> string \<Rightarrow> bool" where
  "framed opts f d \<longleftrightarrow>
     (if fr_header f = 0
      then fr_size f = 0 \<and> (\<exists>p. fr_pos f = int p \<and> p \<le> length d \<and> bytes_Index headerTerminator (take p d) = None
             \<and> \<not> bare_line (take p d))
      else \<exists>h len chunked. header_known opts f d h len chunked \<and> body_known opts f d h len chunked)"

definition opts_ok :: "fh_options \<Rightarrow> bool" where
  "opts_ok opts \<longleftrightarrow> 0 < MaxHeaderBytes opts \<and> MaxHeaderBytes opts \<le> maxLimit \<and> 0 < MaxBufferedBodyBytes opts
     \<and> MaxBufferedBodyBytes opts \<le> maxLimit"

lemma withDefaults_opts_ok: "opts_ok (withDefaults o')"
  by (auto simp: opts_ok_def withDefaults_def Let_def maxLimit_def)

lemma terminator [simp]: "headerTerminator \<noteq> []" "length headerTerminator = 4"
  by (simp_all add: headerTerminator_def)

lemma bare_line_skip:
  assumes "\<not> bare_line (take p s)" and "k + 3 \<le> p \<or> k = 0" and "p \<le> length s"
  shows "bare_line (drop k s) \<longleftrightarrow> bare_line s"
proof (cases "k = 0")
  case False
  then have k: "k + 3 \<le> p" using assms by simp
  have "bytes_Index q (drop k s) = None \<longleftrightarrow> bytes_Index q s = None"
    if "q \<noteq> []" "length q \<le> 3" "bytes_Index q (take p s) = None" for q
    using bytes_Index_skip [OF that(1,3), of k] that(2) k assms(3) by simp
  from this [of "[LF, LF]"] this [of "[LF, CR, LF]"] assms(1) show ?thesis
    by (simp add: bare_line_def bytes_Contains_def)
qed simp

text \<open>A length the header declares is within the limit of the body.\<close>

lemma inspect_lines_length:
  assumes "0 \<le> maxBody" and "inspect_lines r maxBody n ls v = Inr w" and "int (i_length v) \<le> maxBody"
  shows "int (i_length w) \<le> maxBody"
  using assms
proof (induction r maxBody n ls v rule: inspect_lines.induct)
  case (1 r maxBody n ls v)
  show ?case
  proof (cases "ls = []")
    case True
    with 1 show ?thesis by (simp add: inspect_lines.simps)
  next
    case False
    define line where "line = takeWhile (\<lambda>c. c \<noteq> LF) ls"
    define rest where "rest = drop 1 (dropWhile (\<lambda>c. c \<noteq> LF) ls)"
    from "1.prems"(2) False obtain x where x: "inspect_line r maxBody line v = Inr x" "inspect_lines r maxBody (n + 1) rest x = Inr w"
        "\<not> (n = maxHeaderValueCount \<and> length rest > 0)"
      by (subst (asm) inspect_lines.simps) (auto simp: line_def rest_def Let_def split: if_splits sum.splits)
    have "int (i_length x) \<le> maxBody"
      using x(1) "1.prems"(3) by (auto simp: inspect_line_def Let_def split: if_splits option.splits)
    then show ?thesis using "1.IH" [OF False line_def rest_def x(3,1)] "1.prems"(1) x(2) by simp
  qed
qed

lemma inspectHeader_length:
  assumes "0 \<le> maxBody" and "inspectHeader header maxBody = Inr (len, ch, ex)"
  shows "int len \<le> maxBody"
proof -
  let ?i = "inspect_lines (bytes_TrimSuffix (takeWhile (\<lambda>c. c \<noteq> LF) header) [CR]) maxBody 0
    (drop 1 (dropWhile (\<lambda>c. c \<noteq> LF) header)) new_inspection"
  have judged: "\<exists>v. x = Inr v \<and> r = g v"
    if "(case x of Inl e \<Rightarrow> Inl e | Inr v \<Rightarrow> if A v then Inl a else if B v then Inl b else Inr (g v)) = Inr r"
    for x :: "fh_error + inspection" and A B and a b :: fh_error and g and r :: "nat \<times> bool \<times> bool"
    using that by (cases x) (simp_all split: if_split_asm)
  obtain v where v: "?i = Inr v" and "(len, ch, ex) = (i_length v, i_chunked v, i_expect v)"
    using judged [OF assms(2) [unfolded inspectHeader_def Let_def]] by blast
  then have len: "len = i_length v" by simp
  show ?thesis using inspect_lines_length [OF assms(1) v] assms(1) len by (simp add: new_inspection_def)
qed

text \<open>One call of \<^verbatim>\<open>next\<close> returns what the reference says, and the framer knows what is left to wait for.\<close>

lemma findHeader_frame:
  assumes ok: "opts_ok opts" and f: "framed opts f d" "fr_header f = 0" and data: "data = d @ t"
  shows "bytes_Index headerTerminator data = None \<Longrightarrow> bare_line data \<Longrightarrow> findHeader data (MaxHeaderBytes opts) f = (f, Inl ErrBadRequest)"
    and "bytes_Index headerTerminator data = None \<Longrightarrow> \<not> bare_line data \<Longrightarrow> findHeader data (MaxHeaderBytes opts) f =
      (if int (length data) > MaxHeaderBytes opts then (f, Inl (tooLarge data (MaxHeaderBytes opts)))
       else (f\<lparr>fr_pos := int (length data)\<rparr>, Inr 0))"
    and "bytes_Index headerTerminator data = Some i \<Longrightarrow> findHeader data (MaxHeaderBytes opts) f =
      (if int (i + 4) > MaxHeaderBytes opts then (f, Inl (tooLarge data (MaxHeaderBytes opts))) else (f, Inr (i + 4)))"
proof -
  obtain p where p: "fr_pos f = int p" "p \<le> length d" "bytes_Index headerTerminator (take p d) = None" "\<not> bare_line (take p d)"
    using f by (auto simp: framed_def)
  define k where "k = nat (max (fr_pos f - int (length headerTerminator) + 1) 0)"
  have k: "k = p - 3" by (simp add: k_def p(1))
  have take: "take p data = take p d" and le: "p \<le> length data" using p(2) data by simp_all
  have skip: "bytes_Index headerTerminator data = map_option ((+) k) (bytes_Index headerTerminator (drop k data))"
  proof (cases "k = 0")
    case True
    then show ?thesis by (cases "bytes_Index headerTerminator data") simp_all
  next
    case False
    with p(3) take k le show ?thesis by (intro bytes_Index_skip) auto
  qed
  have bare: "bare_line (drop k data) \<longleftrightarrow> bare_line data"
    using p(4) take le k by (intro bare_line_skip [where p = p]) auto
  have small: "i32 (int (length data)) = int (length data)" if "\<not> int (length data) > MaxHeaderBytes opts"
    using ok that by (intro i32_small) (auto simp: opts_ok_def maxLimit_def)
  note F = findHeader_def [of data _ f, folded k_def, folded bare_line_def, unfolded Let_def]
  show "bytes_Index headerTerminator data = None \<Longrightarrow> bare_line data \<Longrightarrow> findHeader data (MaxHeaderBytes opts) f = (f, Inl ErrBadRequest)"
    using skip bare by (simp add: F)
  show "bytes_Index headerTerminator data = None \<Longrightarrow> \<not> bare_line data \<Longrightarrow> findHeader data (MaxHeaderBytes opts) f =
      (if int (length data) > MaxHeaderBytes opts then (f, Inl (tooLarge data (MaxHeaderBytes opts)))
       else (f\<lparr>fr_pos := int (length data)\<rparr>, Inr 0))"
    using skip bare small by (simp add: F)
  show "bytes_Index headerTerminator data = Some i \<Longrightarrow> findHeader data (MaxHeaderBytes opts) f =
      (if int (i + 4) > MaxHeaderBytes opts then (f, Inl (tooLarge data (MaxHeaderBytes opts))) else (f, Inr (i + 4)))"
    using skip by (auto simp: F)
qed

lemma header_known_more: "header_known opts f d h len ch \<Longrightarrow> header_known opts f (d @ t) h len ch"
  using bytes_Index_bound [of headerTerminator d "h - 4"] bytes_Index_more [of headerTerminator d "h - 4" t]
  by (auto simp: header_known_def)

lemma body_known_more: "body_known opts f d h len ch \<Longrightarrow> body_known opts f (d @ t) h len ch"
  unfolding body_known_def by (simp split: if_split_asm) (metis append.assoc trans_le_add1)

lemma framed_more: "framed opts f d \<Longrightarrow> fr_header f \<noteq> 0 \<Longrightarrow> framed opts f (d @ t)"
  unfolding framed_def using header_known_more body_known_more by simp metis

lemma next_body_frame:
  assumes ok: "opts_ok opts" and f: "framed opts f data" "fr_header f \<noteq> 0"
  shows "\<exists>f1 x. next_body data opts ex f = Some (f1, map_sum id (\<lambda>m. (m, x)) (frame_of opts data))
     \<and> (\<forall>m. frame_of opts data = Inr m \<longrightarrow> (if m_size m = 0 then framed opts f1 data \<and> f1 \<noteq> new_framer else f1 = new_framer \<and> \<not> x))"
proof -
  obtain h len ch where hk: "header_known opts f data h len ch" and bk: "body_known opts f data h len ch"
    using f by (auto simp: framed_def)
  define L where "L = int h + body_limit opts h"
  have h: "h \<noteq> 0" "nat (fr_header f) = h" using hk by (auto simp: header_known_def)
  have F: "frame_of opts data = (if ch then case walk data L h of Inl e \<Rightarrow> Inl e
             | Inr e \<Rightarrow> Inr (if e = 0 then no_message else \<lparr>m_size = e, m_header = h, m_chunked = True\<rparr>)
           else Inr (if length data < h + len then no_message else \<lparr>m_size = h + len, m_header = h, m_chunked = False\<rparr>))"
    using hk by (auto simp: header_known_def frame_of_def L_def)
  have new: "f \<noteq> new_framer" using h by (auto simp: new_framer_def)
  show ?thesis
  proof (cases ch)
    case False
    then have "fr_size f = int (h + len)" using bk by (simp add: body_known_def)
    then show ?thesis using F False h f(1) new by (auto simp: next_body_def Let_def no_message_def)
  next
    case True
    then obtain p where p: "fr_size f = - 1" "fr_pos f = int p" "p \<le> length data" "\<forall>t. walk (data @ t) L p = walk (data @ t) L h"
      using bk by (auto simp: body_known_def L_def)
    have L: "L \<le> maxLimit" by (simp add: L_def body_limit_def)
    obtain q where q: "chunks data L f = Some (f\<lparr>fr_pos := int q\<rparr>, walk data L p)" "q \<le> length data"
        "\<forall>t. walk (data @ t) L q = walk (data @ t) L p"
      using chunks_walk [OF L p(2,3)] by blast
    have w: "walk data L p = walk data L h" using spec [OF p(4), of "[]"] by simp
    have "header_known opts (f\<lparr>fr_pos := int q\<rparr>) data h len ch" "body_known opts (f\<lparr>fr_pos := int q\<rparr>) data h len ch"
      using hk p(1,4) q(2,3) True by (auto simp: header_known_def body_known_def L_def)
    then have fr: "framed opts (f\<lparr>fr_pos := int q\<rparr>) data" using f(2) by (auto simp: framed_def)
    have fr': "f\<lparr>fr_pos := int q\<rparr> \<noteq> new_framer"
      using f(2) by (auto simp: new_framer_def dest: arg_cong [where f = fr_header])
    have nb: "next_body data opts ex f = (case walk data L h of Inl e \<Rightarrow> Some (new_framer, Inl e)
        | Inr e \<Rightarrow> if e = 0 then Some (f\<lparr>fr_pos := int q\<rparr>, Inr (no_message, ex))
            else Some (new_framer, Inr (\<lparr>m_size = e, m_header = h, m_chunked = True\<rparr>, False)))"
      using q(1) w p(1) h(2) by (simp add: next_body_def Let_def L_def body_limit_def split: sum.split)
    show ?thesis
    proof (cases "walk data L h")
      case (Inl e)
      then show ?thesis using nb F True by simp
    next
      case (Inr e)
      then show ?thesis using nb F True fr fr' by (cases "e = 0") (auto simp: no_message_def)
    qed
  qed
qed

lemma fr_next_frame:
  assumes ok: "opts_ok opts" and f: "framed opts f d" and data: "data = d @ t" "data \<noteq> []"
  shows "\<exists>f1 x. fr_next data opts f = Some (f1, map_sum id (\<lambda>m. (m, x)) (frame_of opts data))
     \<and> (\<forall>m. frame_of opts data = Inr m \<longrightarrow> (if m_size m = 0 then framed opts f1 data \<and> f1 \<noteq> new_framer else f1 = new_framer \<and> \<not> x))"
proof (cases "fr_header f = 0")
  case False
  then have "framed opts f data" using framed_more [OF f] data(1) by simp
  from next_body_frame [OF ok this False, of False] False show ?thesis by (simp add: fr_next_def next_header_def)
next
  case True
  note find = findHeader_frame [OF ok f True data(1)]
  show ?thesis
  proof (cases "bytes_Index headerTerminator data")
    case None
    let ?f = "f\<lparr>fr_pos := int (length data)\<rparr>"
    have "framed opts ?f data" if "\<not> bare_line data" using that None f True by (auto simp: framed_def)
    moreover have "?f \<noteq> new_framer" using data(2) by (auto simp: new_framer_def dest: arg_cong [where f = fr_pos])
    ultimately show ?thesis using find(1,2) [OF None] None True
      by (cases "bare_line data") (auto simp: fr_next_def next_header_def frame_of_def no_message_def)
  next
    case (Some i)
    define h where "h = i + 4"
    note find = find(3) [OF Some, folded h_def]
    show ?thesis
    proof (cases "int h > MaxHeaderBytes opts")
      case long: True
      then show ?thesis using find Some True by (simp add: fr_next_def next_header_def frame_of_def Let_def h_def)
    next
      case short: False
      have lim: "0 \<le> body_limit opts h" "int h < 2 ^ 31" using ok short by (auto simp: opts_ok_def body_limit_def maxLimit_def)
      show ?thesis
      proof (cases "inspectHeader (take h data) (body_limit opts h)")
        case (Inl e)
        then show ?thesis using find short Some True
          by (simp add: fr_next_def next_header_def frame_of_def Let_def h_def body_limit_def)
      next
        case (Inr r)
        then obtain len ch expect where r: "inspectHeader (take h data) (body_limit opts h) = Inr (len, ch, expect)" by (metis prod_cases3)
        have len: "int (h + len) < 2 ^ 31" using inspectHeader_length [OF lim(1) r] by (simp add: body_limit_def maxLimit_def)
        have small: "i32 (int h) = int h" "i32 (int (h + len)) = int (h + len)"
          using lim(2) len by (auto intro!: i32_small)
        let ?f = "if ch then f\<lparr>fr_header := int h, fr_pos := int h, fr_size := - 1\<rparr> else f\<lparr>fr_header := int h, fr_size := int (h + len)\<rparr>"
        have h: "h \<noteq> 0" by (simp add: h_def)
        obtain x where nh: "next_header data opts f = (?f, Inr (Some x))"
          using find short True r [unfolded body_limit_def] small h by (cases ch) (simp_all add: next_header_def Let_def)
        have "h \<le> length data" using bytes_Index_bound [OF _ Some] by (simp add: h_def)
        then have "body_known opts ?f data h len ch" by (auto simp: body_known_def)
        moreover have "header_known opts ?f data h len ch" using Some r short by (auto simp: header_known_def h_def)
        moreover have hd: "fr_header ?f \<noteq> 0" using h by simp
        ultimately have "framed opts ?f data" unfolding framed_def by metis
        from next_body_frame [OF ok this hd, of x] show ?thesis by (simp add: fr_next_def nh)
      qed
    qed
  qed
qed

section \<open>All messages\<close>

lemma walk_bound: "walk data limit pos = Inr e \<Longrightarrow> e \<noteq> 0 \<Longrightarrow> e \<le> length data \<and> pos < e \<and> int e \<le> limit"
proof (induction data limit pos rule: walk.induct)
  case (1 data limit pos)
  obtain sz n ok where h: "chunkHeader (drop pos data) = (sz, n, ok)" by (metis prod_cases3)
  from "1.prems" walk_eq [OF h, of limit] "1.IH" [of "(sz, n, ok)" sz "(n, ok)" n ok "pos + n + sz + 2"] h
  show ?case by (auto split: if_split_asm)
qed

lemma frame_of_bounds: "frame_of opts data = Inr m \<Longrightarrow> m_size m \<le> length data"
  using walk_bound [of data]
  by (auto simp: frame_of_def Let_def no_message_def split: option.split_asm sum.split_asm if_split_asm)

text \<open>A message that has arrived stays what it is, and so does a failure, unless a bare line end comes to light.\<close>

lemma tooLarge_more: "n \<le> int (length data) \<Longrightarrow> tooLarge (data @ t) n = tooLarge data n"
  by (simp add: tooLarge_def)

lemma bare_line_more: "bare_line data \<Longrightarrow> bare_line (data @ t)"
  using bytes_Index_more [of _ data] by (auto simp: bare_line_def bytes_Contains_def)

lemma frame_of_more:
  assumes "frame_of opts data \<noteq> Inr no_message"
  shows "frame_of opts (data @ t) = frame_of opts data \<or>
    bytes_Index headerTerminator data = None \<and> (frame_of opts data = Inl ErrBadRequest \<or> frame_of opts (data @ t) = Inl ErrBadRequest)"
proof (cases "bytes_Index headerTerminator data")
  case None
  show ?thesis
  proof (cases "bytes_Index headerTerminator (data @ t)")
    case None': None
    with None assms show ?thesis by (auto simp: frame_of_def tooLarge_more split: if_split_asm)
  next
    case (Some i)
    have "length data < i + 4"
    proof (rule ccontr)
      assume "\<not> length data < i + 4"
      then have "bytes_Index headerTerminator (take (length data) (data @ t)) = Some i" by (intro bytes_Index_take [OF _ Some]) auto
      with None show False by simp
    qed
    with None Some assms show ?thesis by (auto simp: frame_of_def tooLarge_more split: if_split_asm)
  qed
next
  case (Some i)
  have i: "i + 4 \<le> length data" "bytes_Index headerTerminator (data @ t) = Some i"
    using bytes_Index_bound [OF _ Some] bytes_Index_more [OF _ Some] by simp_all
  show ?thesis
  proof (cases "int (i + 4) > MaxHeaderBytes opts")
    case True
    with i Some show ?thesis by (simp add: frame_of_def Let_def tooLarge_more)
  next
    case False
    let ?w = "walk data (int (i + 4) + body_limit opts (i + 4)) (i + 4)"
    have w: "?w \<noteq> Inr 0 \<Longrightarrow> walk (data @ t) (int (i + 4) + body_limit opts (i + 4)) (i + 4) = ?w" using i(1) by (rule walk_more)
    show ?thesis
    proof (cases "inspectHeader (take (i + 4) data) (body_limit opts (i + 4))")
      case (Inl e)
      with i Some False show ?thesis by (simp add: frame_of_def Let_def)
    next
      case (Inr r)
      obtain len ch ex where r: "r = (len, ch, ex)" by (metis prod_cases3)
      have F: "frame_of opts d = (if ch then case walk d (int (i + 4) + body_limit opts (i + 4)) (i + 4) of Inl e \<Rightarrow> Inl e
             | Inr e \<Rightarrow> Inr (if e = 0 then no_message else \<lparr>m_size = e, m_header = i + 4, m_chunked = True\<rparr>)
           else Inr (if length d < i + 4 + len then no_message else \<lparr>m_size = i + 4 + len, m_header = i + 4, m_chunked = False\<rparr>))"
        if "bytes_Index headerTerminator d = Some i" "take (i + 4) d = take (i + 4) data" for d
        using that Inr r False by (simp add: frame_of_def Let_def)
      note F1 = F [OF Some refl] and F2 = F [OF i(2)]
      show ?thesis
      proof (cases ch)
        case True
        with F1 assms have "?w \<noteq> Inr 0" by auto
        with F1 F2 w i(1) True show ?thesis by simp
      next
        case False
        with F1 assms have "\<not> length data < i + 4 + len" by auto
        with F1 F2 i(1) False show ?thesis by simp
      qed
    qed
  qed
qed

text \<open>The items of the data as a whole, what is left of it, and the status that ends it.\<close>

function frame_all :: "fh_options \<Rightarrow> string \<Rightarrow> item list \<times> string \<times> int" where
  "frame_all opts data =
     (if data = [] then ([], [], 0)
      else case empty_line data new_framer of
        Some n \<Rightarrow> if n = 0 then ([], data, 0) else frame_all opts (drop n data)
      | None \<Rightarrow>
          (case frame_of opts data of
             Inl e \<Rightarrow>
               if e = ErrHandoff then ([Status statusHandoff], data, statusHandoff)
               else ([Status (errorStatus e)], [], errorStatus e)
           | Inr m \<Rightarrow>
               if m_size m = 0 then ([], data, 0)
               else let (items, rest, e) = frame_all opts (drop (m_size m) data) in
                    (Message (take (m_size m) data) m # items, rest, e)))"
  by pat_completeness auto
termination by (relation "measure (\<lambda>(opts, data). length data)") auto

declare frame_all.simps [simp del]

text \<open>The data arrives in pieces: what is left of it is passed again before the next piece.\<close>

fun feed :: "fh_options \<Rightarrow> framer \<Rightarrow> string \<Rightarrow> string list \<Rightarrow> (item list \<times> string \<times> int) option" where
  "feed opts f pending [] = Some ([], pending, 0)"
| "feed opts f pending (d # ds) =
     (case fr_split (pending @ d) opts f of
        None \<Rightarrow> None
      | Some (f1, items, consumed, e) \<Rightarrow>
          let pending1 = drop consumed (pending @ d) in
          if e \<noteq> 0 then Some (items, if e = statusHandoff then pending1 @ concat ds else pending1, e)
          else (case feed opts f1 pending1 ds of
                  None \<Rightarrow> None
                | Some (items1, rest, e1) \<Rightarrow> Some (items @ items1, rest, e1)))"

definition no_continue :: "item list \<Rightarrow> item list" where
  "no_continue = filter (\<lambda>i. i \<noteq> Status 100)"

definition ready :: "fh_options \<Rightarrow> framer \<Rightarrow> string \<Rightarrow> bool" where
  "ready opts f d \<longleftrightarrow> framed opts f d \<and> (f = new_framer \<or> d \<noteq> [] \<and> empty_line d new_framer = None)"

lemma errorStatus_simps [simp]: "errorStatus e \<noteq> 0" "errorStatus e \<noteq> 100" "errorStatus e \<noteq> statusHandoff" "statusHandoff \<noteq> 0" "statusHandoff \<noteq> 100"
  by (cases e; simp add: errorStatus_def statusHandoff_def)+

lemma errorStatus_bad: "errorStatus ErrBadRequest = 400"
  by (simp add: errorStatus_def)

lemma ready_new: "ready opts new_framer d"
  by (auto simp: ready_def framed_def new_framer_def headerTerminator_def bare_line_def bytes_Contains_def intro: exI [of _ 0])

lemma empty_line_more: "d \<noteq> [] \<Longrightarrow> empty_line d new_framer \<noteq> Some 0 \<Longrightarrow> empty_line (d @ t) new_framer = empty_line d new_framer"
  by (cases d; cases "tl d") (auto simp: empty_line_def nth_append)

lemma empty_line_le: "d \<noteq> [] \<Longrightarrow> empty_line d f = Some n \<Longrightarrow> n \<le> length d"
  by (cases d; cases "tl d") (auto simp: empty_line_def split: if_split_asm)

text \<open>\<^verbatim>\<open>split\<close> returns, and finds what the reference finds.\<close>

lemma split_loop_frames:
  assumes ok: "opts_ok opts" and f: "ready opts f d" and rest: "drop consumed data = d @ t" "consumed \<le> length data"
  shows "\<exists>f1 new c e. split_loop data opts f consumed items = Some (f1, items @ new, c, e)
     \<and> frame_all opts (d @ t) = (no_continue new, drop c data, e) \<and> (e = 0 \<longrightarrow> ready opts f1 (drop c data)) \<and> c \<le> length data"
  using f rest
proof (induction "length data - consumed" arbitrary: f d t consumed items rule: less_induct)
  case less
  let ?r = "d @ t"
  show ?case
  proof (cases "consumed < length data")
    case False
    then have "d @ t = []" "consumed = length data" using less.prems by auto
    moreover have "f = new_framer" using less.prems(1) calculation(1) by (simp add: ready_def)
    ultimately show ?thesis using ready_new
      by (subst split_loop.simps) (simp add: no_continue_def frame_all.simps [of opts "[]"])
  next
    case True
    then have r: "?r \<noteq> []" using less.prems(2) by auto
    have fa: "empty_line ?r f = empty_line ?r new_framer"
    proof (cases "f = new_framer")
      case False
      then have "empty_line ?r new_framer = None" using less.prems(1) empty_line_more [of d t] by (auto simp: ready_def)
      with False show ?thesis by (simp add: empty_line_def)
    qed simp
    show ?thesis
    proof (cases "empty_line ?r f")
      case (Some n)
      then have new: "f = new_framer" by (auto simp: empty_line_def split: if_split_asm)
      have n: "n \<le> length ?r" using Some r empty_line_le by blast
      have fr: "frame_all opts ?r = (if n = 0 then ([], ?r, 0) else frame_all opts (drop n ?r))"
        using r Some fa by (subst frame_all.simps) auto
      have sp: "split_loop data opts f consumed items = (if n = 0 then Some (f, items, consumed, 0) else split_loop data opts f (consumed + n) items)"
        using True Some less.prems(2) by (simp add: split_loop.simps [of data opts f consumed])
      show ?thesis
      proof (cases "n = 0")
        case True
        with fr sp new ready_new less.prems show ?thesis by (simp add: no_continue_def)
      next
        case False
        have "drop (consumed + n) data = [] @ drop n ?r" using less.prems(2) by (metis append_Nil drop_drop add.commute)
        moreover have "consumed + n \<le> length data" using n less.prems(2,3) by (metis add.commute le_diff_conv2 length_drop)
        ultimately show ?thesis using less.hyps [of "consumed + n" new_framer "[]" "drop n ?r" items] False fr sp new True ready_new by simp
      qed
    next
      case None
      obtain f1 x where nx: "fr_next ?r opts f = Some (f1, map_sum id (\<lambda>m. (m, x)) (frame_of opts ?r))"
        "\<And>m. frame_of opts ?r = Inr m \<Longrightarrow> (if m_size m = 0 then framed opts f1 ?r \<and> f1 \<noteq> new_framer else f1 = new_framer \<and> \<not> x)"
        using fr_next_frame [OF ok _ refl r] less.prems(1) unfolding ready_def by blast
      note sl = split_loop.simps [of data opts f consumed items, unfolded less.prems(2)]
      note fr = frame_all.simps [of opts ?r]
      show ?thesis
      proof (cases "frame_of opts ?r")
        case (Inl e)
        have "frame_all opts ?r = (if e = ErrHandoff then ([Status statusHandoff], ?r, statusHandoff)
               else ([Status (errorStatus e)], [], errorStatus e))"
          using r Inl None fa by (simp add: fr)
        then show ?thesis using True None nx(1) Inl less.prems(2,3)
          by (subst sl) (auto simp: no_continue_def Let_def)
      next
        case (Inr m)
        show ?thesis
        proof (cases "m_size m = 0")
          case zero: True
          then have "frame_all opts ?r = ([], ?r, 0)" using r Inr None fa by (simp add: fr)
          moreover have "ready opts f1 ?r" using nx(2) [OF Inr] zero None fa r by (simp add: ready_def)
          ultimately show ?thesis using True None nx(1) Inr zero less.prems(2,3)
            by (subst sl) (auto simp: no_continue_def Let_def)
        next
          case False
          define z where "z = m_size m"
          have z: "z \<noteq> 0" "z \<le> length ?r" using False frame_of_bounds [OF Inr] by (simp_all add: z_def)
          have dr: "drop (consumed + z) data = [] @ drop z ?r" using less.prems(2) by (metis append_Nil drop_drop add.commute)
          have le: "consumed + z \<le> length data" using z less.prems(2,3) by (metis add.commute le_diff_conv2 length_drop)
          have lt: "length data - (consumed + z) < length data - consumed" using z True by simp
          obtain f2 new c e where ih: "split_loop data opts new_framer (consumed + z) (items @ [Message (take z ?r) m])
                = Some (f2, (items @ [Message (take z ?r) m]) @ new, c, e)"
              "frame_all opts (drop z ?r) = (no_continue new, drop c data, e)" "e = 0 \<longrightarrow> ready opts f2 (drop c data)" "c \<le> length data"
            using less.hyps [OF lt ready_new dr le, of "items @ [Message (take z ?r) m]"] by (metis append_Nil)
          have "split_loop data opts f consumed items = split_loop data opts new_framer (consumed + z) (items @ [Message (take z ?r) m])"
            using True None nx(1) nx(2) [OF Inr] Inr False by (subst sl) (simp add: Let_def z_def)
          moreover have "frame_all opts ?r = (Message (take z ?r) m # no_continue new, drop c data, e)"
            using r Inr None fa False ih(2) by (simp add: fr z_def)
          ultimately show ?thesis using ih by (simp add: no_continue_def)
        qed
      qed
    qed
  qed
qed

lemma fr_split_frames:
  assumes "opts_ok opts" and "ready opts f pending"
  shows "\<exists>f1 new c e. fr_split (pending @ d) opts f = Some (f1, new, c, e) \<and> c \<le> length (pending @ d)
     \<and> frame_all opts (pending @ d) = (no_continue new, drop c (pending @ d), e) \<and> (e = 0 \<longrightarrow> ready opts f1 (drop c (pending @ d)))"
  using split_loop_frames [OF assms, of 0 "pending @ d" d "[]"] by (auto simp: fr_split_def)

lemma frame_of_decided:
  assumes "frame_of opts data = Inr m \<and> m_size m \<noteq> 0 \<or> frame_of opts data = Inl ErrHandoff"
  shows "frame_of opts (data @ t) = frame_of opts data"
proof -
  have "tooLarge data n \<noteq> ErrHandoff" for n by (simp add: tooLarge_def split: option.split)
  then have "bytes_Index headerTerminator data \<noteq> None"
    using assms by (cases "bytes_Index headerTerminator data") (auto simp: frame_of_def no_message_def split: if_split_asm)
  moreover have "frame_of opts data \<noteq> Inr no_message" using assms by (auto simp: no_message_def)
  ultimately show ?thesis using frame_of_more [of opts data t] by metis
qed

definition messages :: "item list \<Rightarrow> item list" where
  "messages = filter (\<lambda>i. case i of Message _ _ \<Rightarrow> True | Status _ \<Rightarrow> False)"

lemma frame_all_more:
  assumes "frame_all opts a = (items, rest, e)" and "frame_all opts (a @ b) = (items', rest', e')"
  shows "e = 0 \<Longrightarrow> \<exists>more. frame_all opts (rest @ b) = (more, rest', e') \<and> items' = items @ more"
    and "e \<noteq> 0 \<Longrightarrow> e \<noteq> 400 \<Longrightarrow> e' \<noteq> 400 \<Longrightarrow> items' = items \<and> rest' = (if e = statusHandoff then rest @ b else []) \<and> e' = e"
    and "prefix (messages items) (messages items')"
proof -
  have "(e = 0 \<longrightarrow> (\<exists>more. frame_all opts (rest @ b) = (more, rest', e') \<and> items' = items @ more))
    \<and> (e \<noteq> 0 \<and> e \<noteq> 400 \<and> e' \<noteq> 400 \<longrightarrow> items' = items \<and> rest' = (if e = statusHandoff then rest @ b else []) \<and> e' = e)
    \<and> prefix (messages items) (messages items')"
    using assms
  proof (induction opts a arbitrary: items rest e items' rest' e' rule: frame_all.induct)
    case (1 opts a)
    show ?case
    proof (cases "a = []")
      case True
      with "1.prems" show ?thesis by (simp add: frame_all.simps [of opts "[]"] messages_def)
    next
      case ne: False
      note fa = frame_all.simps [of opts a] and fb = frame_all.simps [of opts "a @ b"]
      show ?thesis
      proof (cases "empty_line a new_framer")
        case (Some n)
        show ?thesis
        proof (cases "n = 0")
          case True
          with "1.prems" ne Some show ?thesis by (simp add: fa messages_def)
        next
          case False
          have "n \<le> length a" using empty_line_le [OF ne Some] .
          moreover have "empty_line (a @ b) new_framer = Some n" using empty_line_more [OF ne] Some False by simp
          ultimately have "frame_all opts (drop n a @ b) = (items', rest', e')" "frame_all opts (drop n a) = (items, rest, e)"
            using "1.prems" ne Some False by (simp_all add: fa fb)
          then show ?thesis using "1.IH"(2) [OF ne Some False] by blast
        qed
      next
        case None
        then have None': "empty_line (a @ b) new_framer = None" using empty_line_more [OF ne] by simp
        show ?thesis
        proof (cases "frame_of opts a")
          case (Inl x)
          show ?thesis
          proof (cases "x = ErrHandoff")
            case True
            then have "frame_of opts (a @ b) = Inl x" using Inl frame_of_decided by metis
            then have "frame_all opts (a @ b) = ([Status statusHandoff], a @ b, statusHandoff)" using ne None' True by (simp add: fb)
            moreover have "frame_all opts a = ([Status statusHandoff], a, statusHandoff)" using ne None Inl True by (simp add: fa)
            ultimately show ?thesis using "1.prems" by (auto simp: messages_def statusHandoff_def)
          next
            case False
            then have f: "items = [Status (errorStatus x)]" "rest = []" "e = errorStatus x"
              using "1.prems"(1) ne None Inl by (auto simp: fa)
            have "e \<noteq> 0" using f(3) by simp
            moreover have "frame_of opts (a @ b) = Inl x \<or> e = 400 \<or> frame_of opts (a @ b) = Inl ErrBadRequest"
              using frame_of_more [of opts a b] Inl f(3) by (auto simp: errorStatus_def)
            ultimately show ?thesis using "1.prems"(2) ne None' f False
              by (auto simp: fb messages_def errorStatus_bad)
          qed
        next
          case (Inr m)
          show ?thesis
          proof (cases "m_size m = 0")
            case True
            with "1.prems" ne None Inr show ?thesis by (simp add: fa messages_def)
          next
            case False
            then have "frame_of opts (a @ b) = Inr m" using Inr frame_of_decided by metis
            moreover have "m_size m \<le> length a" using frame_of_bounds [OF Inr] .
            ultimately obtain i1 i2 where i: "frame_all opts (drop (m_size m) a @ b) = (i2, rest', e')" "items' = Message (take (m_size m) a) m # i2"
                "frame_all opts (drop (m_size m) a) = (i1, rest, e)" "items = Message (take (m_size m) a) m # i1"
              using "1.prems" ne None None' Inr False by (auto simp: fa fb split: prod.split_asm)
            moreover have "messages (Message x m # l) = Message x m # messages l" for x l by (simp add: messages_def)
            ultimately show ?thesis using "1.IH"(1) [OF ne None Inr False i(3,1)] by simp
          qed
        qed
      qed
    qed
  qed
  then show "e = 0 \<Longrightarrow> \<exists>more. frame_all opts (rest @ b) = (more, rest', e') \<and> items' = items @ more"
    and "e \<noteq> 0 \<Longrightarrow> e \<noteq> 400 \<Longrightarrow> e' \<noteq> 400 \<Longrightarrow> items' = items \<and> rest' = (if e = statusHandoff then rest @ b else []) \<and> e' = e"
    and "prefix (messages items) (messages items')" by blast+
qed

lemma messages_no_continue [simp]: "messages (no_continue items) = messages items"
  by (induction items) (auto simp: messages_def no_continue_def split: item.splits)

lemma frame_all_rest:
  assumes "frame_all opts a = (items, rest, e)"
  shows "e = 0 \<Longrightarrow> frame_all opts rest = ([], rest, 0)" and "e \<noteq> 0 \<Longrightarrow> e \<noteq> 400 \<Longrightarrow> e \<noteq> statusHandoff \<Longrightarrow> rest = []"
proof -
  have whole: "frame_all opts (a @ []) = (items, rest, e)" using assms by simp
  note more = frame_all_more [OF assms whole]
  show "e = 0 \<Longrightarrow> frame_all opts rest = ([], rest, 0)" using more(1) by auto
  show "e \<noteq> 0 \<Longrightarrow> e \<noteq> 400 \<Longrightarrow> e \<noteq> statusHandoff \<Longrightarrow> rest = []" using more(2) by auto
qed

lemma feed_frames:
  assumes ok: "opts_ok opts" and "ready opts f pending" and "frame_all opts pending = ([], pending, 0)"
    and "frame_all opts (pending @ concat ds) = (items', rest', e')"
  shows "\<exists>items rest e. feed opts f pending ds = Some (items, rest, e) \<and> prefix (messages items) (messages items')
    \<and> (e = 400 \<or> e' = 400 \<or> (items', rest', e') = (no_continue items, rest, e))"
  using assms(2-)
proof (induction ds arbitrary: f pending items')
  case Nil
  then show ?case by (simp add: no_continue_def)
next
  case (Cons d ds)
  obtain f1 new c e where sp: "fr_split (pending @ d) opts f = Some (f1, new, c, e)" and c: "c \<le> length (pending @ d)"
      and fa: "frame_all opts (pending @ d) = (no_continue new, drop c (pending @ d), e)"
      and re: "e = 0 \<longrightarrow> ready opts f1 (drop c (pending @ d))"
    using fr_split_frames [OF ok Cons.prems(1), of d] by blast
  define r where "r = drop c (pending @ d)"
  note fa = fa [folded r_def] and re = re [folded r_def]
  have whole: "frame_all opts ((pending @ d) @ concat ds) = (items', rest', e')" using Cons.prems(3) by simp
  note more = frame_all_more [OF fa whole]
  show ?case
  proof (cases "e = 0")
    case True
    obtain m where m: "frame_all opts (r @ concat ds) = (m, rest', e')" "items' = no_continue new @ m" using more(1) True by blast
    obtain i1 r1 e1 where ih: "feed opts f1 r ds = Some (i1, r1, e1)" "prefix (messages i1) (messages m)"
        "e1 = 400 \<or> e' = 400 \<or> (m, rest', e') = (no_continue i1, r1, e1)"
      using Cons.IH [OF _ _ m(1)] re True frame_all_rest(1) [OF fa True] by blast
    have "feed opts f pending (d # ds) = Some (new @ i1, r1, e1)" using sp True ih(1) by (simp add: r_def)
    moreover have "prefix (messages (new @ i1)) (messages items')"
      using ih(2) m(2) messages_no_continue by (simp add: messages_def)
    moreover have "no_continue (new @ i1) = no_continue new @ no_continue i1" by (simp add: no_continue_def)
    ultimately show ?thesis using ih(3) m(2) by auto
  next
    case False
    have "feed opts f pending (d # ds) = Some (new, if e = statusHandoff then r @ concat ds else r, e)"
      using sp False by (simp add: r_def)
    moreover have "e = 400 \<or> e' = 400 \<or> (items', rest', e') = (no_continue new, if e = statusHandoff then r @ concat ds else r, e)"
      using more(2) [OF False] frame_all_rest(2) [OF fa False] by auto
    ultimately show ?thesis using more(3) by auto
  qed
qed

section \<open>The shape of a message\<close>

definition size_digits :: "string \<Rightarrow> bool" where
  "size_digits ds \<longleftrightarrow> ds \<noteq> [] \<and> length ds \<le> 7 \<and> list_all (\<lambda>c. hex_digit c \<noteq> None) ds"

definition hex_from :: "nat \<Rightarrow> string \<Rightarrow> nat" where
  "hex_from = foldl (\<lambda>n c. n * 16 + the (hex_digit c))"

text \<open>A body in plain chunks (RFC 9112, section 7.1, without extensions and trailer fields).\<close>

inductive chunked_body :: "string \<Rightarrow> bool" where
  last_chunk: "size_digits ds \<Longrightarrow> hex_from 0 ds = 0 \<Longrightarrow> chunked_body (ds @ [CR, LF, CR, LF])"
| data_chunk: "size_digits ds \<Longrightarrow> hex_from 0 ds = length p \<Longrightarrow> p \<noteq> [] \<Longrightarrow> chunked_body s \<Longrightarrow>
    chunked_body (ds @ [CR, LF] @ p @ [CR, LF] @ s)"

lemma hex_digit_CR: "hex_digit CR = None"
  by (simp add: hex_digit_def ord_def)

lemma size_line_digits:
  "list_all (\<lambda>c. hex_digit c \<noteq> None) ds \<Longrightarrow> i + length ds \<le> 7 \<Longrightarrow> 0 < i + length ds \<Longrightarrow>
    size_line i z (ds @ [CR, LF] @ r) = (hex_from z ds, i + length ds + 2, True)"
  by (induction ds arbitrary: i z) (auto simp: hex_digit_CR hex_from_def)

lemma size_line_shape:
  assumes "size_line i z b = (sz, n, True)" "n \<noteq> 0" "i \<le> 7"
  shows "\<exists>ds r. b = ds @ [CR, LF] @ r \<and> list_all (\<lambda>c. hex_digit c \<noteq> None) ds \<and> i + length ds \<le> 7 \<and> 0 < i + length ds
     \<and> sz = hex_from z ds \<and> n = i + length ds + 2"
  using assms
proof (induction i z b rule: size_line.induct)
  case (2 i z c cs)
  show ?case
  proof (cases "hex_digit c")
    case None
    with "2.prems" have "c = CR" "0 < i" "cs \<noteq> []" "cs ! 0 = LF" "sz = z" "n = i + 2" by (auto split: if_split_asm)
    then have "c # cs = [] @ [CR, LF] @ tl cs" by (cases cs) auto
    then show ?thesis using \<open>0 < i\<close> \<open>sz = z\<close> \<open>n = i + 2\<close> "2.prems"(3) by (intro exI [of _ "[]"] exI [of _ "tl cs"]) (simp add: hex_from_def)
  next
    case (Some d)
    with "2.prems" have i: "i \<noteq> 7" "size_line (i + 1) (z * 16 + d) cs = (sz, n, True)" by (auto split: if_split_asm)
    from "2.IH" [OF Some i] "2.prems" i(1) obtain ds r where "cs = ds @ [CR, LF] @ r" "list_all (\<lambda>c. hex_digit c \<noteq> None) ds"
        "i + 1 + length ds \<le> 7" "sz = hex_from (z * 16 + d) ds" "n = i + 1 + length ds + 2" by auto
    then show ?thesis using Some by (intro exI [of _ "c # ds"] exI [of _ r]) (simp add: hex_from_def)
  qed
qed simp

lemma chunkHeader_iff:
  "chunkHeader b = (sz, n, True) \<and> n \<noteq> 0 \<longleftrightarrow>
     (\<exists>ds r. b = ds @ [CR, LF] @ r \<and> size_digits ds \<and> sz = hex_from 0 ds \<and> n = length ds + 2)"
proof
  assume "chunkHeader b = (sz, n, True) \<and> n \<noteq> 0"
  then show "\<exists>ds r. b = ds @ [CR, LF] @ r \<and> size_digits ds \<and> sz = hex_from 0 ds \<and> n = length ds + 2"
    using size_line_shape [of 0 0 b sz n] by (auto simp: chunkHeader_def size_digits_def)
next
  assume "\<exists>ds r. b = ds @ [CR, LF] @ r \<and> size_digits ds \<and> sz = hex_from 0 ds \<and> n = length ds + 2"
  then show "chunkHeader b = (sz, n, True) \<and> n \<noteq> 0"
    using size_line_digits [of _ 0 0] by (auto simp: chunkHeader_def size_digits_def)
qed

lemma walk_chunked_body:
  "chunked_body s \<Longrightarrow> int (length pre + length s) \<le> limit \<Longrightarrow> walk (pre @ s @ r) limit (length pre) = Inr (length pre + length s)"
proof (induction s arbitrary: pre rule: chunked_body.induct)
  case (last_chunk ds)
  have "chunkHeader (drop (length pre) (pre @ (ds @ [CR, LF, CR, LF]) @ r)) = (0, length ds + 2, True)"
    using chunkHeader_iff [of "ds @ [CR, LF] @ [CR, LF] @ r" 0 "length ds + 2"] last_chunk(1,2) by auto
  from walk_eq [OF this, of limit] last_chunk(3) show ?case by (simp add: nth_append)
next
  case (data_chunk ds p s)
  let ?data = "pre @ (ds @ [CR, LF] @ p @ [CR, LF] @ s) @ r" and ?pre = "pre @ ds @ [CR, LF] @ p @ [CR, LF]"
  have "chunkHeader (drop (length pre) ?data) = (length p, length ds + 2, True)"
    using chunkHeader_iff [of "ds @ [CR, LF] @ p @ [CR, LF] @ s @ r" "length p" "length ds + 2"] data_chunk(1,2) by auto
  note w = walk_eq [OF this, of limit]
  have "walk ?data limit (length pre) = walk ?data limit (length ?pre)"
    using w data_chunk.prems data_chunk(3) by (simp add: nth_append add.assoc)
  also have "\<dots> = Inr (length ?pre + length s)" using data_chunk.IH [of ?pre] data_chunk.prems by simp
  finally show ?case by (simp add: ac_simps)
qed

lemma walk_shape:
  "walk data limit pos = Inr e \<Longrightarrow> e \<noteq> 0 \<Longrightarrow> chunked_body (take (e - pos) (drop pos data))"
proof (induction data limit pos rule: walk.induct)
  case (1 data limit pos)
  obtain sz n ok where h: "chunkHeader (drop pos data) = (sz, n, ok)" by (metis prod_cases3)
  let ?e = "pos + n + sz + 2"
  note w = walk_eq [OF h, of limit]
  have k: "ok" "n \<noteq> 0" "?e \<le> length data" "data ! (pos + n + sz) = CR" "data ! (pos + n + sz + 1) = LF"
      "\<not> limit - int pos < int (n + sz + 2)"
    using w "1.prems" by (auto split: if_split_asm)
  obtain ds r where ds: "drop pos data = ds @ [CR, LF] @ r" "size_digits ds" "sz = hex_from 0 ds" "n = length ds + 2"
    using chunkHeader_iff [of "drop pos data" sz n] h k by auto
  have "length data - pos = length ds + 2 + length r" using arg_cong [OF ds(1), of length] by simp
  then have r: "length r \<ge> sz + 2" using k(3) ds(4) by linarith
  have "r ! sz = CR" "r ! (sz + 1) = LF"
    using k(4,5) arg_cong [OF ds(1), of "\<lambda>l. l ! (n + sz)"] arg_cong [OF ds(1), of "\<lambda>l. l ! (n + sz + 1)"] k(3) ds(4)
    by (simp_all add: nth_append ac_simps)
  then have r': "r = take sz r @ [CR, LF] @ drop (sz + 2) r"
    using r id_take_nth_drop [of sz r] Cons_nth_drop_Suc [of "Suc sz" r] by simp
  show ?case
  proof (cases "sz = 0")
    case True
    then have "e = ?e" using w k "1.prems" by (auto split: if_split_asm)
    then have "take (e - pos) (drop pos data) = ds @ [CR, LF] @ take 2 r" using ds(1,4) True by simp
    also have "take 2 r = [CR, LF]" using r' True by (metis append_Nil length_Cons list.size(3) numeral_2_eq_2 take0 take_append_exact)
    finally show ?thesis using chunked_body.last_chunk [OF ds(2)] ds(3) True by simp
  next
    case False
    then have e: "walk data limit ?e = Inr e" using w k "1.prems" by (auto split: if_split_asm)
    then have ih: "chunked_body (take (e - ?e) (drop ?e data))"
      using "1.IH" [of "(sz, n, ok)" sz "(n, ok)" n ok ?e] False k h "1.prems"(2) by simp
    have lt: "?e < e" using walk_bound [OF e "1.prems"(2)] by simp
    have dr: "drop ?e data = drop (sz + 2) r"
      using arg_cong [OF ds(1), of "drop (n + sz + 2)"] ds(4) by (simp add: ac_simps eval_nat_numeral)
    have "take (length ds + 2 + k) (ds @ [CR, LF] @ r) = ds @ [CR, LF] @ take k r" for k by simp
    moreover have "e - pos = length ds + 2 + (e - pos - n)" using lt ds(4) by simp
    ultimately have "take (e - pos) (drop pos data) = ds @ [CR, LF] @ take (e - pos - n) r" using ds(1) by metis
    also have "take (e - pos - n) r = take sz r @ [CR, LF] @ take (e - ?e) (drop (sz + 2) r)"
    proof -
      have "take (sz + 2 + k) (take sz r @ [CR, LF] @ q) = take sz r @ [CR, LF] @ take k q" for k q using r by (simp add: min_def)
      moreover have "e - pos - n = sz + 2 + (e - ?e)" using lt by simp
      ultimately show ?thesis using r' by metis
    qed
    finally have "take (e - pos) (drop pos data) = ds @ [CR, LF] @ take sz r @ [CR, LF] @ take (e - ?e) (drop ?e data)" using dr by simp
    moreover have "hex_from 0 ds = length (take sz r)" "take sz r \<noteq> []" using ds(3) r False by auto
    ultimately show ?thesis using chunked_body.data_chunk [OF ds(2) _ _ ih, of "take sz r"] by metis
  qed
qed

text \<open>What the framer takes for one request message.\<close>

definition request_message :: "fh_options \<Rightarrow> string \<Rightarrow> message \<Rightarrow> bool" where
  "request_message opts msg m \<longleftrightarrow>
     (let h = m_header m in
      m_size m = length msg \<and> 4 \<le> h \<and> bytes_Index headerTerminator msg = Some (h - 4) \<and> int h \<le> MaxHeaderBytes opts
      \<and> (\<exists>len expect. inspectHeader (take h msg) (body_limit opts h) = Inr (len, m_chunked m, expect)
          \<and> (if m_chunked m then chunked_body (drop h msg) \<and> int (length msg) \<le> int h + body_limit opts h
              else length msg = h + len)))"

lemma frame_of_message:
  "frame_of opts data = Inr m \<and> m_size m \<noteq> 0 \<longleftrightarrow> m_size m \<le> length data \<and> request_message opts (take (m_size m) data) m"
  (is "?L \<longleftrightarrow> ?R")
proof
  assume L: ?L
  then obtain i where i: "bytes_Index headerTerminator data = Some i" "int (i + 4) \<le> MaxHeaderBytes opts"
    by (cases "bytes_Index headerTerminator data") (auto simp: frame_of_def no_message_def Let_def split: if_split_asm)
  define h where "h = i + 4"
  obtain len ch ex where r: "inspectHeader (take h data) (body_limit opts h) = Inr (len, ch, ex)"
    using L i by (cases "inspectHeader (take h data) (body_limit opts h)") (auto simp: frame_of_def Let_def h_def)
  have z: "m_size m \<le> length data" using L frame_of_bounds by blast
  have m: "m_header m = h" "m_chunked m = ch"
      "if ch then walk data (int h + body_limit opts h) h = Inr (m_size m) else m_size m = h + len"
    using L i r by (auto simp: frame_of_def Let_def no_message_def h_def split: if_split_asm sum.split_asm)
  have hz: "h \<le> m_size m" using m(3) walk_bound [of data "int h + body_limit opts h" h "m_size m"] L by (auto split: if_split_asm)
  have idx: "bytes_Index headerTerminator (take (m_size m) data) = Some i" using i(1) hz by (intro bytes_Index_take) (auto simp: h_def)
  have body: "if ch then chunked_body (drop h (take (m_size m) data)) \<and> int (m_size m) \<le> int h + body_limit opts h else m_size m = h + len"
    using m(3) walk_shape [of data "int h + body_limit opts h" h "m_size m"]
      walk_bound [of data "int h + body_limit opts h" h "m_size m"] L by (auto simp: drop_take)
  show ?R using z m(1,2) hz idx i(2) r body by (auto simp: request_message_def Let_def h_def min_def)
next
  assume R: ?R
  have lz: "length (take (m_size m) data) = m_size m" using R by simp
  define h where "h = m_header m"
  obtain len ex where r: "4 \<le> h" "bytes_Index headerTerminator (take (m_size m) data) = Some (h - 4)" "int h \<le> MaxHeaderBytes opts"
      "inspectHeader (take h (take (m_size m) data)) (body_limit opts h) = Inr (len, m_chunked m, ex)"
      "if m_chunked m then chunked_body (drop h (take (m_size m) data)) \<and> int (m_size m) \<le> int h + body_limit opts h else m_size m = h + len"
    using R unfolding request_message_def Let_def lz h_def by blast
  have z: "m_size m \<le> length data" using R by simp
  have hz: "h \<le> m_size m" using bytes_Index_bound [OF _ r(2)] r(1) z by simp
  have idx: "bytes_Index headerTerminator data = Some (h - 4)" using bytes_Index_more [OF _ r(2), of "drop (m_size m) data"] by simp
  have ins: "inspectHeader (take h data) (body_limit opts h) = Inr (len, m_chunked m, ex)" using r(4) hz by (simp add: min_def)
  have w: "walk data (int h + body_limit opts h) h = Inr (m_size m)" if "m_chunked m"
  proof -
    have "data = take h data @ drop h (take (m_size m) data) @ drop (m_size m) data"
      using hz z by (metis append.assoc append_take_drop_id drop_split length_take min.absorb2 append_take_drop_id)
    moreover have "length (take h data) = h" using hz z by simp
    ultimately show ?thesis using walk_chunked_body [of "drop h (take (m_size m) data)" "take h data" _ "drop (m_size m) data"] r(5) that hz z
      by simp
  qed
  have "m = \<lparr>m_size = m_size m, m_header = h, m_chunked = m_chunked m\<rparr>" by (simp add: h_def)
  then show ?L using idx ins w r(1,3,5) hz z by (auto simp: frame_of_def Let_def no_message_def)
qed

section \<open>Properties\<close>

text \<open>
  C35. The framer does not depend on how the data of a connection is cut into pieces on arrival. For any pieces, \<^verbatim>\<open>split\<close>
  returns every time; the requests it hands on are an initial part of those that the reference finds in the data as a
  whole; and unless one of the two answers 400 (Bad Request), the items (the 100 Continue aside), the data left over and
  the status that ends it are the same. (400 is special because a bare line end is only looked for as long as the end of
  the header has not arrived.)
\<close>

theorem fh_framing_pieces:
  "\<exists>items rest e. feed (withDefaults o') new_framer [] ds = Some (items, rest, e) \<and>
     (let (items', rest', e') = frame_all (withDefaults o') (concat ds) in
      prefix (messages items) (messages items') \<and>
      (e = 400 \<or> e' = 400 \<or> (items', rest', e') = (no_continue items, rest, e)))"
proof -
  obtain items' rest' e' where w: "frame_all (withDefaults o') (concat ds) = (items', rest', e')" by (metis prod_cases3)
  have "frame_all (withDefaults o') [] = ([], [], 0)" by (simp add: frame_all.simps)
  from feed_frames [OF withDefaults_opts_ok ready_new this, of ds items' rest' e'] w show ?thesis by auto
qed

text \<open>
  C36. \<^verbatim>\<open>next\<close> finds a complete message exactly when the data begins with one: a header up to the first empty line, within
  the limit, that declares how the body is framed, and a body of exactly the declared length, or of plain chunks within
  the limit up to and including the last chunk. The offsets, which are 32 bits wide, do not overflow.
\<close>

theorem fh_message_boundaries:
  "(\<exists>f. fr_next data (withDefaults o') new_framer = Some (f, Inr (m, False)) \<and> m_size m \<noteq> 0) \<longleftrightarrow>
     m_size m \<le> length data \<and> request_message (withDefaults o') (take (m_size m) data) m"
proof (cases "data = []")
  case True
  then show ?thesis
    by (auto simp: fr_next_def next_header_def findHeader_def headerTerminator_def new_framer_def request_message_def Let_def
        withDefaults_def bytes_Contains_def maxLimit_def no_message_def split: if_split_asm)
next
  case False
  have "framed (withDefaults o') new_framer []" using ready_new by (simp add: ready_def)
  from fr_next_frame [OF withDefaults_opts_ok this _ False]
  obtain f1 x where nx: "fr_next data (withDefaults o') new_framer = Some (f1, map_sum id (\<lambda>m. (m, x)) (frame_of (withDefaults o') data))"
    "\<And>m. frame_of (withDefaults o') data = Inr m \<Longrightarrow> m_size m \<noteq> 0 \<Longrightarrow> \<not> x" by fastforce
  then have "(\<exists>f. fr_next data (withDefaults o') new_framer = Some (f, Inr (m, False)) \<and> m_size m \<noteq> 0) \<longleftrightarrow>
      frame_of (withDefaults o') data = Inr m \<and> m_size m \<noteq> 0"
    by (cases "frame_of (withDefaults o') data") auto
  then show ?thesis by (simp only: frame_of_message)
qed

end
