(* ===== verification/FhResponse.thy ===== *)
theory FhResponse
  imports FhFraming
begin

text \<open>
  \<^verbatim>\<open>fhttp/response.go\<close>: the response to one request, from the header the handler sets and the body it writes to the
  bytes that go out. \<open>r_wire\<close> are the bytes handed to the connection, \<open>r_out\<close> those collected and not handed over yet.
  What the calls of the connection (\<^verbatim>\<open>waitWritable\<close>, \<^verbatim>\<open>Write\<close>, \<^verbatim>\<open>Writev\<close>) return comes from a script: success, or an
  error after some of the bytes were taken. The date and the content type that \<^verbatim>\<open>net/http\<close> detects are parameters.
\<close>

section \<open>Packages strconv, strings and net/http\<close>

definition digit_char :: "nat \<Rightarrow> char" where
  "digit_char d = ''0123456789abcdefghijklmnopqrstuvwxyz'' ! d"

fun digits_of :: "nat \<Rightarrow> nat \<Rightarrow> string" where
  "digits_of base n =
     (let c = digit_char (n mod base) in
      if base < 2 \<or> n < base then [c] else digits_of base (n div base) @ [c])"

declare digits_of.simps [simp del]

definition strconv_AppendInt :: "int \<Rightarrow> nat \<Rightarrow> string" where
  "strconv_AppendInt n base = (if n < 0 then ''-'' @ digits_of base (nat (- n)) else digits_of base (nat n))"

text \<open>\<^verbatim>\<open>strconv.Atoi\<close>, with 64-bit integers.\<close>

definition strconv_Atoi :: "string \<Rightarrow> int option" where
  "strconv_Atoi s =
     (if s = [] then None
      else let d = (if s ! 0 = CHR ''-'' \<or> s ! 0 = CHR ''+'' then drop 1 s else s) in
        if d = [] \<or> \<not> list_all is_digit d then None
        else let n = (if s ! 0 = CHR ''-'' then - int (digits_value d) else int (digits_value d)) in
          if - (2 ^ 63) \<le> n \<and> n < 2 ^ 63 then Some n else None)"

definition status_texts :: "(int \<times> string) list" where
  "status_texts =
    [(100, ''Continue''), (101, ''Switching Protocols''), (102, ''Processing''), (103, ''Early Hints''),
     (200, ''OK''), (201, ''Created''), (202, ''Accepted''), (203, ''Non-Authoritative Information''), (204, ''No Content''),
     (205, ''Reset Content''), (206, ''Partial Content''), (207, ''Multi-Status''), (208, ''Already Reported''), (226, ''IM Used''),
     (300, ''Multiple Choices''), (301, ''Moved Permanently''), (302, ''Found''), (303, ''See Other''), (304, ''Not Modified''),
     (305, ''Use Proxy''), (307, ''Temporary Redirect''), (308, ''Permanent Redirect''),
     (400, ''Bad Request''), (401, ''Unauthorized''), (402, ''Payment Required''), (403, ''Forbidden''), (404, ''Not Found''),
     (405, ''Method Not Allowed''), (406, ''Not Acceptable''), (407, ''Proxy Authentication Required''), (408, ''Request Timeout''),
     (409, ''Conflict''), (410, ''Gone''), (411, ''Length Required''), (412, ''Precondition Failed''),
     (413, ''Request Entity Too Large''), (414, ''Request URI Too Long''), (415, ''Unsupported Media Type''),
     (416, ''Requested Range Not Satisfiable''), (417, ''Expectation Failed''), (418, ''I'' @ [CHR 0x27] @ ''m a teapot''),
     (421, ''Misdirected Request''), (422, ''Unprocessable Entity''), (423, ''Locked''), (424, ''Failed Dependency''),
     (425, ''Too Early''), (426, ''Upgrade Required''), (428, ''Precondition Required''), (429, ''Too Many Requests''),
     (431, ''Request Header Fields Too Large''), (451, ''Unavailable For Legal Reasons''),
     (500, ''Internal Server Error''), (501, ''Not Implemented''), (502, ''Bad Gateway''), (503, ''Service Unavailable''),
     (504, ''Gateway Timeout''), (505, ''HTTP Version Not Supported''), (506, ''Variant Also Negotiates''),
     (507, ''Insufficient Storage''), (508, ''Loop Detected''), (510, ''Not Extended''), (511, ''Network Authentication Required'')]"

definition StatusText :: "int \<Rightarrow> string" where
  "StatusText code = (case map_of status_texts code of None \<Rightarrow> [] | Some t \<Rightarrow> t)"

section \<open>State\<close>

abbreviation CRLF :: string where "CRLF \<equiv> [CR, LF]"

definition maxCopiedBody :: nat where "maxCopiedBody = 4096"
definition maxBufferedOutput :: nat where "maxBufferedOutput = 65536"
definition maxBufferedBody :: nat where "maxBufferedBody = 65536"

definition lastChunk :: string where "lastChunk = CRLF @ ''0'' @ CRLF @ CRLF"

datatype wr_error = NetErrClosed | ErrDeadlineExceeded | ErrContentLength | ErrBodyNotAllowed | WriteFailed

text \<open>What the code uses of an \<^verbatim>\<open>http.Request\<close>: \<open>http11\<close> is \<^verbatim>\<open>ProtoAtLeast(1, 1)\<close>.\<close>

record fh_request =
  req_method :: string
  http11 :: bool
  req_close :: bool

record fh_env =
  date_field :: string
  DetectContentType :: "string \<Rightarrow> string"

record committedHeader =
  connection_values :: "string list option"
  declared_length :: int
  hasType :: bool
  hasDate :: bool
  encoded :: bool
  ch_closing :: bool

record bodyWriting =
  bw_chunked :: bool
  discardBody :: bool
  keepAlive :: bool

record response =
  r_req :: fh_request
  r_header :: http_header
  r_status :: int
  r_writeErr :: "wr_error option"
  r_body :: string
  r_out :: string
  r_outStart :: nat
  r_remaining :: int
  r_committed :: committedHeader
  r_bodyWriting :: bodyWriting
  r_wroteHeader :: bool
  r_upgraded :: bool
  r_streamed :: bool
  r_closed :: bool
  r_wire :: string
  r_io :: "(wr_error \<times> nat) option list"

text \<open>The result of the next call of the connection, and a write of bytes to it.\<close>

definition io_next :: "response \<Rightarrow> (wr_error \<times> nat) option \<times> response" where
  "io_next w = (case r_io w of [] \<Rightarrow> (None, w) | x # xs \<Rightarrow> (x, w\<lparr>r_io := xs\<rparr>))"

definition conn_Write :: "string \<Rightarrow> response \<Rightarrow> wr_error option \<times> response" where
  "conn_Write s w =
     (case io_next w of
        (None, w1) \<Rightarrow> (None, w1\<lparr>r_wire := r_wire w1 @ s\<rparr>)
      | (Some (e, k), w1) \<Rightarrow> (Some e, w1\<lparr>r_wire := r_wire w1 @ take k s\<rparr>))"

definition start :: "response \<Rightarrow> response" where
  "start w = w\<lparr>r_header := [], r_status := 0, r_wroteHeader := False, r_upgraded := False, r_streamed := False,
     r_writeErr := None, r_outStart := length (r_out w), r_body := []\<rparr>"

definition flush :: "response \<Rightarrow> wr_error option \<times> response" where
  "flush w =
     (let (err, w1) = (if length (r_out w) > 0 then conn_Write (r_out w) w else (None, w));
          w2 = w1\<lparr>r_out := []\<rparr>
      in (err, if err \<noteq> None \<and> r_writeErr w2 = None then w2\<lparr>r_writeErr := err\<rparr> else w2))"

section \<open>The header\<close>

definition appendStatusLine :: "string \<Rightarrow> int \<Rightarrow> string" where
  "appendStatusLine b status =
     (if status = 200 then b @ ''HTTP/1.1 200 OK'' @ CRLF
      else b @ ''HTTP/1.1 '' @ strconv_AppendInt status 10 @ '' '' @
           (if StatusText status \<noteq> [] then StatusText status else ''status code '' @ strconv_AppendInt status 10) @ CRLF)"

definition appendContentLength :: "string \<Rightarrow> int \<Rightarrow> string" where
  "appendContentLength b n = b @ ''Content-Length: '' @ strconv_AppendInt n 10 @ CRLF"

definition appendChunkSize :: "string \<Rightarrow> nat \<Rightarrow> string" where
  "appendChunkSize b n = b @ strconv_AppendInt (int n) 16 @ CRLF"

definition appendDate :: "fh_env \<Rightarrow> string \<Rightarrow> string" where
  "appendDate env b = b @ ''Date: '' @ date_field env @ CRLF"

text \<open>The loop over the line ends in a value.\<close>

function replace_line_ends :: "string \<Rightarrow> string" where
  "replace_line_ends v =
     (if CR \<in> set v \<or> LF \<in> set v
      then takeWhile (\<lambda>c. c \<noteq> CR \<and> c \<noteq> LF) v @ '' '' @ replace_line_ends (drop 1 (dropWhile (\<lambda>c. c \<noteq> CR \<and> c \<noteq> LF) v))
      else v)"
  by pat_completeness auto
termination
proof (relation "measure length")
  fix v :: string assume "CR \<in> set v \<or> LF \<in> set v"
  then have "v \<noteq> []" by auto
  then show "(drop 1 (dropWhile (\<lambda>c. c \<noteq> CR \<and> c \<noteq> LF) v), v) \<in> measure length"
    using length_dropWhile_le [of "\<lambda>c. c \<noteq> CR \<and> c \<noteq> LF" v] by (cases v) auto
qed simp

declare replace_line_ends.simps [simp del]

fun appendHeaderValues :: "string \<Rightarrow> string \<Rightarrow> string list \<Rightarrow> string" where
  "appendHeaderValues b name [] = b"
| "appendHeaderValues b name (v # vs) =
     appendHeaderValues (b @ name @ '': '' @ replace_line_ends (bytes_Trim v [CHR 0x20, CHR 0x09, CR, LF]) @ CRLF) name vs"

definition validName :: "string \<Rightarrow> bool" where
  "validName name \<longleftrightarrow> list_all token_char name \<and> name \<noteq> []"

definition declaredLength :: "string list \<Rightarrow> int" where
  "declaredLength vs =
     (if length vs = 1 then case strconv_Atoi (vs ! 0) of Some n \<Rightarrow> if n \<ge> 0 then n else - 1 | None \<Rightarrow> - 1 else - 1)"

text \<open>One field of the header in \<^verbatim>\<open>commitHeader\<close>; the status decides whether a type goes out.\<close>

definition commit_field :: "int \<Rightarrow> string \<times> string list \<Rightarrow> string \<times> committedHeader \<Rightarrow> string \<times> committedHeader" where
  "commit_field status nv bc =
     (let (name, vs) = nv; (b, c) = bc in
      if name = ''Transfer-Encoding'' then (b, c)
      else if name = ''Content-Length'' then (b, c\<lparr>declared_length := declaredLength vs\<rparr>)
      else if name = ''Content-Type'' then
        (if status = 304 then (b, c) else (appendHeaderValues b name vs, c\<lparr>hasType := True\<rparr>))
      else if name = ''Date'' then (appendHeaderValues b name vs, c\<lparr>hasDate := True\<rparr>)
      else if name = ''Content-Encoding'' then
        (appendHeaderValues b name vs, c\<lparr>encoded := length vs > 0 \<and> vs ! 0 \<noteq> []\<rparr>)
      else if name = ''Connection'' then (b, c\<lparr>ch_closing := HasToken vs ''close'', connection_values := Some vs\<rparr>)
      else if \<not> validName name then (b, c)
      else (appendHeaderValues b name vs, c))"

definition no_commit :: committedHeader where
  "no_commit = \<lparr>connection_values = None, declared_length = - 1, hasType = False, hasDate = False, encoded = False, ch_closing = False\<rparr>"

definition commitHeader :: "response \<Rightarrow> response" where
  "commitHeader w =
     (let (b, c) = fold (commit_field (r_status w)) (r_header w) (appendStatusLine (r_out w) (r_status w), no_commit)
      in w\<lparr>r_out := b, r_committed := c, r_remaining := declared_length c\<rparr>)"

text \<open>\<open>None\<close>: the code is out of range and \<^verbatim>\<open>WriteHeader\<close> panics.\<close>

definition WriteHeader :: "int \<Rightarrow> response \<Rightarrow> response option" where
  "WriteHeader code w =
     (if code < 100 \<or> code > 999 then None
      else if r_wroteHeader w \<or> code < 200 then Some w
      else Some (commitHeader (w\<lparr>r_wroteHeader := True, r_status := code\<rparr>)))"

definition default_header :: "response \<Rightarrow> response" where
  "default_header w = (if r_wroteHeader w then w else commitHeader (w\<lparr>r_wroteHeader := True, r_status := 200\<rparr>))"

definition bodyAllowedForStatus :: "int \<Rightarrow> bool" where
  "bodyAllowedForStatus status \<longleftrightarrow> status \<ge> 200 \<and> status \<noteq> 204 \<and> status \<noteq> 304"

definition bodyAllowed :: "response \<Rightarrow> bool" where
  "bodyAllowed w \<longleftrightarrow> bodyAllowedForStatus (r_status w) \<and> \<not> (req_method (r_req w) = ''CONNECT'' \<and> r_status w div 100 = 2)"

text \<open>The decisions of \<^verbatim>\<open>writeHeader\<close>, and the field lines it adds.\<close>

definition decide_body :: "bool \<Rightarrow> response \<Rightarrow> bodyWriting \<times> bool" where
  "decide_body streamed w =
     (let req = r_req w; c = r_committed w;
          discard = (req_method req = ''HEAD'' \<or> \<not> bodyAllowed w \<or> r_status w = 205);
          chunked = (streamed \<and> \<not> discard \<and> declared_length c < 0 \<and> http11 req);
          closeDelimited = (streamed \<and> \<not> discard \<and> declared_length c < 0 \<and> \<not> http11 req);
          mustClose = (req_close req \<or> req_method req = ''CONNECT'' \<or> closeDelimited)
      in (\<lparr>bw_chunked = chunked, discardBody = discard, keepAlive = \<not> mustClose \<and> \<not> ch_closing c\<rparr>,
          connection_values c \<noteq> None \<and> (ch_closing c \<or> \<not> mustClose)))"

definition length_line :: "bool \<Rightarrow> response \<Rightarrow> string" where
  "length_line streamed w =
     (if \<not> bodyAllowed w then []
      else if r_status w = 205 then appendContentLength [] 0
      else if declared_length (r_committed w) \<ge> 0 then appendContentLength [] (declared_length (r_committed w))
      else if \<not> streamed then
        (if req_method (r_req w) \<noteq> ''HEAD'' \<or> length (r_body w) > 0 then appendContentLength [] (int (length (r_body w))) else [])
      else if bw_chunked (r_bodyWriting w) then ''Transfer-Encoding: chunked'' @ CRLF
      else [])"

definition connection_line :: "bool \<Rightarrow> response \<Rightarrow> string" where
  "connection_line handlerConnection w =
     (if \<not> handlerConnection then
        (if \<not> keepAlive (r_bodyWriting w) then ''Connection: close'' @ CRLF
         else if \<not> http11 (r_req w) then ''Connection: keep-alive'' @ CRLF
         else [])
      else appendHeaderValues [] ''Connection'' (the (connection_values (r_committed w))))"

definition writeHeader :: "fh_env \<Rightarrow> string \<Rightarrow> bool \<Rightarrow> response \<Rightarrow> response" where
  "writeHeader env content streamed w0 =
     (let w1 = default_header w0;
          (w2, content) = (if r_status w1 = 205 then (w1\<lparr>r_body := []\<rparr>, []) else (w1, content));
          (writing, handlerConnection) = decide_body streamed w2;
          w3 = w2\<lparr>r_streamed := streamed, r_bodyWriting := writing\<rparr>;
          c = r_committed w3;
          type_line = (if \<not> hasType c \<and> bodyAllowed w3 \<and> length content > 0 \<and> \<not> encoded c
                       then ''Content-Type: '' @ DetectContentType env content @ CRLF else []);
          date_line = (if \<not> hasDate c then appendDate env [] else [])
      in w3\<lparr>r_out := r_out w3 @ length_line streamed w3 @ type_line @ date_line @ connection_line handlerConnection w3 @ CRLF\<rparr>)"

definition writeError :: "fh_env \<Rightarrow> int \<Rightarrow> response \<Rightarrow> response" where
  "writeError env code w =
     (let b = appendStatusLine (r_out w) code @ ''Content-Type: text/plain; charset=utf-8'' @ CRLF @ ''Connection: close'' @ CRLF;
          b1 = appendDate env (appendContentLength b (4 + int (length (StatusText code)))) @ CRLF
      in w\<lparr>r_out := b1 @ strconv_AppendInt code 10 @ '' '' @ StatusText code\<rparr>)"

section \<open>The body\<close>

definition send :: "fh_env \<Rightarrow> string \<Rightarrow> response \<Rightarrow> wr_error option \<times> response" where
  "send env piece w0 =
     (let w = (if \<not> r_streamed w0 then writeHeader env piece True w0 else w0) in
      if discardBody (r_bodyWriting w) then (None, w)
      else case io_next w of
        (Some (e, k), w1) \<Rightarrow> (Some e, w1\<lparr>r_writeErr := Some e\<rparr>)
      | (None, w1) \<Rightarrow>
          let (w2, ending) = (if bw_chunked (r_bodyWriting w1) then (w1\<lparr>r_out := appendChunkSize (r_out w1) (length piece)\<rparr>, CRLF) else (w1, []));
              (err, w3) = conn_Write (r_out w2 @ piece @ ending) w2;
              w4 = w3\<lparr>r_out := []\<rparr>
          in (err, if err \<noteq> None then w4\<lparr>r_writeErr := err\<rparr> else w4))"

text \<open>The loop of \<^verbatim>\<open>stream\<close>; the result is what is left of the argument, and the error.\<close>

function stream_loop :: "fh_env \<Rightarrow> string \<Rightarrow> response \<Rightarrow> string \<times> wr_error option \<times> response" where
  "stream_loop env p w =
     (if length (r_body w) + length p > maxBufferedBody then
        let (piece, rest, w1) =
              (if length (r_body w) = 0 then (take maxBufferedBody p, drop maxBufferedBody p, w)
               else let fill = maxBufferedBody - length (r_body w); w1 = w\<lparr>r_body := r_body w @ take fill p\<rparr>
                    in (r_body w1, drop fill p, w1));
            (err, w2) = send env piece w1;
            w3 = w2\<lparr>r_body := []\<rparr>
        in if err \<noteq> None then (rest, err, w3) else stream_loop env rest w3
      else (p, None, w))"
  by pat_completeness auto
termination
  by (relation "measure (\<lambda>(env, p, w). length (r_body w) + length p)")
     (auto simp: maxBufferedBody_def Let_def split: if_split_asm)

declare stream_loop.simps [simp del]

definition stream :: "fh_env \<Rightarrow> string \<Rightarrow> response \<Rightarrow> nat \<times> wr_error option \<times> response" where
  "stream env p w =
     (let (rest, err, w1) = stream_loop env p w in
      if err \<noteq> None then (length p - length rest, err, w1)
      else (length p, None, w1\<lparr>r_body := r_body w1 @ rest\<rparr>))"

definition beforeWrite :: "nat \<Rightarrow> response \<Rightarrow> wr_error option \<times> response" where
  "beforeWrite n w =
     (if r_writeErr w \<noteq> None then (r_writeErr w, w)
      else if r_closed w then (Some NetErrClosed, w\<lparr>r_writeErr := Some NetErrClosed\<rparr>)
      else let w1 = default_header w in
        if \<not> bodyAllowedForStatus (r_status w1) then (Some ErrBodyNotAllowed, w1)
        else if r_remaining w1 \<ge> 0 then
          (if int n > r_remaining w1 then (Some ErrContentLength, w1) else (None, w1\<lparr>r_remaining := r_remaining w1 - int n\<rparr>))
        else (None, w1))"

definition fh_Write :: "fh_env \<Rightarrow> string \<Rightarrow> response \<Rightarrow> nat \<times> wr_error option \<times> response" where
  "fh_Write env p w =
     (case beforeWrite (length p) w of
        (Some e, w1) \<Rightarrow> (0, Some e, w1)
      | (None, w1) \<Rightarrow>
          if length (r_body w1) + length p > maxBufferedBody then stream env p w1
          else (length p, None, w1\<lparr>r_body := r_body w1 @ p\<rparr>))"

text \<open>The two halves of \<^verbatim>\<open>finish\<close>: the rest of the body and what ends it, and writing it out.\<close>

definition body_end :: "response \<Rightarrow> string \<times> string \<times> bool \<times> response" where
  "body_end w =
     (let bw = r_bodyWriting w in
      if discardBody bw then ([], [], keepAlive bw, w)
      else if r_remaining w > 0 then (r_body w, [], False, w)
      else if bw_chunked bw then (r_body w, lastChunk, keepAlive bw, w\<lparr>r_out := appendChunkSize (r_out w) (length (r_body w))\<rparr>)
      else (r_body w, [], keepAlive bw, w))"

definition write_end :: "string \<Rightarrow> string \<Rightarrow> response \<Rightarrow> response" where
  "write_end body ending w =
     (let w1 = (if length body > maxCopiedBody then
                  let (err, w2) = conn_Write (r_out w @ body @ ending) w;
                      w3 = (if err \<noteq> None then w2\<lparr>r_writeErr := err\<rparr> else w2)
                  in w3\<lparr>r_out := []\<rparr>
                else w\<lparr>r_out := r_out w @ body @ ending\<rparr>)
      in if length (r_out w1) \<ge> maxBufferedOutput then snd (flush w1) else w1)"

definition finish :: "fh_env \<Rightarrow> response \<Rightarrow> bool \<times> response" where
  "finish env w0 =
     (if r_writeErr w0 \<noteq> None then (False, w0)
      else
        let w = (if \<not> r_streamed w0 then writeHeader env (r_body w0) False w0 else w0);
            (body, ending, keep, w1) = body_end w;
            w2 = write_end body ending w1
        in (keep \<and> r_writeErr w2 = None, w2))"

end
