(* ===== verification/FhConn.thy ===== *)
theory FhConn
  imports FhResponse
begin

text \<open>
  \<^verbatim>\<open>fhttp/conn.go\<close>, \<^verbatim>\<open>request.go\<close>, \<^verbatim>\<open>upgrade.go\<close>, \<^verbatim>\<open>handoff.go\<close> and the callbacks of \<^verbatim>\<open>server.go\<close>: the queue of
  requests of one connection, the callbacks of the engine that fill it, and the worker that empties it. A definition is
  what its function does in one go: while it holds the mutex, and what follows that nothing can come between.
  \<^verbatim>\<open>http.ReadRequest\<close> is a parameter.
\<close>

section \<open>Requests\<close>

text \<open>What the code uses of what \<^verbatim>\<open>http.ReadRequest\<close> returns; \<open>sr_unread\<close> is how much of the message it leaves in the readers.\<close>

record std_request =
  sr_Method :: string
  sr_RequestURI :: string
  sr_ProtoMajor :: int
  sr_ProtoMinor :: int
  sr_Header :: http_header
  sr_Host :: string
  sr_URL_Host :: string
  sr_URL_Path :: string
  sr_URL_Port :: string
  sr_TransferEncoding :: "string list option"
  sr_ContentLength :: int
  sr_Close :: bool
  sr_unread :: nat

definition ProtoAtLeast11 :: "std_request \<Rightarrow> bool" where
  "ProtoAtLeast11 q \<longleftrightarrow> sr_ProtoMajor q > 1 \<or> sr_ProtoMajor q = 1 \<and> sr_ProtoMinor q \<ge> 1"

text \<open>One item of the queue, \<^verbatim>\<open>request\<close> in the source.\<close>

record queued =
  rq_msg :: string
  rq_header :: int
  rq_status :: int
  rq_chunked :: bool

definition host_char :: "char \<Rightarrow> bool" where
  "host_char c \<longleftrightarrow> is_digit c \<or> is_upper c \<or> is_lower c \<or> c \<in> set ''!$%&()*+,-.:;=_~'' \<or> c = CHR 0x27"

text \<open>The host and what follows it; \<open>None\<close> when a bracket is not closed or holds nothing.\<close>

definition split_host :: "string \<Rightarrow> (string \<times> string) option" where
  "split_host host =
     (if has_prefix ''['' host then
        case strings_IndexByte host (CHR '']'') of
          None \<Rightarrow> None
        | Some e \<Rightarrow> if e < 2 then None else Some (drop 1 (take e host), drop (e + 1) host)
      else case strings_IndexByte host (CHR '':'') of
          Some i \<Rightarrow> Some (take i host, drop i host)
        | None \<Rightarrow> Some (host, []))"

definition validHost :: "string \<Rightarrow> bool" where
  "validHost h =
     (case split_host h of
        None \<Rightarrow> False
      | Some (host, rest) \<Rightarrow>
          if \<not> list_all host_char host then False
          else if rest = [] then True
          else if rest ! 0 \<noteq> CHR '':'' then False
          else list_all is_digit (drop 1 rest))"

definition validConnectTarget :: "std_request \<Rightarrow> bool" where
  "validConnectTarget q =
     (if sr_Method q \<noteq> ''CONNECT'' \<or> sr_URL_Path q \<noteq> [] then True else strconv_ParseUint (sr_URL_Port q) 16 \<noteq> None)"

text \<open>The value of the first Host field after the request line. A header ends in LF, and so does every line of it.\<close>

function host_field :: "string \<Rightarrow> string option" where
  "host_field header =
     (case strings_IndexByte header LF of
        None \<Rightarrow> None
      | Some i \<Rightarrow>
          let h = drop (i + 1) header in
          if hasField h ''Host'' then Some (fieldValue (takeWhile (\<lambda>c. c \<noteq> LF) h) ''Host'') else host_field h)"
  by pat_completeness auto
termination
proof (relation "measure length")
  fix header :: string and x assume "strings_IndexByte header LF = Some x"
  then have "header \<noteq> []" by (auto simp: strings_IndexByte_def split: if_split_asm)
  then show "\<And>h. h = drop (x + 1) header \<Longrightarrow> \<not> hasField h ''Host'' \<Longrightarrow> (h, header) \<in> measure length"
    by (cases header) auto
qed simp

declare host_field.simps [simp del]

definition validStdRequest :: "string \<Rightarrow> std_request \<Rightarrow> bool" where
  "validStdRequest header q =
     (if \<not> list_all validName (map fst (sr_Header q)) then False
      else if \<not> validHost (sr_Host q) \<or> \<not> validConnectTarget q then False
      else if sr_Host q \<noteq> [] \<and> sr_URL_Host q = [] then True
      else case host_field header of Some v \<Rightarrow> validHost v | None \<Rightarrow> \<not> ProtoAtLeast11 q)"

type_synonym read_request = "string \<Rightarrow> std_request option"

text \<open>\<open>Inl\<close> is the status to reply with instead.\<close>

definition readRequest :: "read_request \<Rightarrow> queued \<Rightarrow> int + std_request" where
  "readRequest ReadRequest r =
     (let msg = rq_msg r; body = int (length msg) - rq_header r in
      case ReadRequest msg of
        None \<Rightarrow> Inl 400
      | Some q \<Rightarrow>
          if sr_ProtoMajor q \<noteq> 1 then Inl 505
          else if int (sr_unread q) \<noteq> body \<or> rq_chunked r \<noteq> (sr_TransferEncoding q \<noteq> None) \<or>
                  \<not> rq_chunked r \<and> body \<noteq> sr_ContentLength q
          then Inl 400
          else if \<not> validStdRequest (take (nat (rq_header r)) msg) q then Inl 400
          else Inr q)"

definition as_request :: "std_request \<Rightarrow> fh_request" where
  "as_request q = \<lparr>req_method = sr_Method q, http11 = ProtoAtLeast11 q, req_close = sr_Close q\<rparr>"

text \<open>What \<^verbatim>\<open>validRequests\<close> makes of a request of a connection handed to \<^verbatim>\<open>net/http\<close>: the status of the refusal, or the handler.\<close>

definition validRequests :: "std_request \<Rightarrow> int option" where
  "validRequests q = (if \<not> validHost (sr_Host q) \<or> \<not> validConnectTarget q then Some 400 else None)"

text \<open>The protocols \<^verbatim>\<open>http1Config\<close> offers.\<close>

definition http1_protos :: "string list \<Rightarrow> string list" where
  "http1_protos NextProtos = ''http/1.1'' # filter (\<lambda>p. p \<noteq> ''h2'' \<and> p \<noteq> ''http/1.1'') NextProtos"

section \<open>State\<close>

definition maxPipeline :: nat where "maxPipeline = 128"
definition maxQueuedBytes :: int where "maxQueuedBytes = 65536"

definition continueResponse :: string where
  "continueResponse = ''HTTP/1.1 100 Continue'' @ CRLF @ CRLF"

datatype workerState = WorkerIdle | WorkerServing | WorkerWaiting | WorkerClosing

text \<open>
  A connection, without what the worker alone uses. \<open>state\<close> is whether the shared state of the requests is set, and
  \<open>ctx\<close> its context: none yet, or whether it is canceled. Below are the parts of the engine's connection that the code
  uses: whether reading is paused, whether \<^verbatim>\<open>Close\<close> was called, whether it was detached, its deadline (0 for none), the
  bytes written, and whether its user data is still the HTTP connection.
\<close>

record fh_conn =
  fc_framer :: framer
  queuedBytes :: int
  protocol :: "nat option"
  queue :: "queued list"
  head :: nat
  signal :: "bool option"
  worker :: workerState
  partial :: bool
  readPaused :: bool
  halfClosed :: bool
  broken :: bool
  closed :: bool
  state :: bool
  ctx :: "bool option"
  paused :: bool
  close_called :: bool
  detached :: bool
  deadline :: int
  wire :: string
  context_conn :: bool

text \<open>The requests not taken yet.\<close>

definition pending :: "fh_conn \<Rightarrow> queued list" where
  "pending c = drop (head c) (queue c)"

definition SetDeadline :: "int \<Rightarrow> fh_conn \<Rightarrow> fh_conn" where
  "SetDeadline t c = c\<lparr>deadline := t\<rparr>"

definition setDeadline :: "fh_options \<Rightarrow> int \<Rightarrow> fh_conn \<Rightarrow> fh_conn" where
  "setDeadline opts now c =
     (if worker c = WorkerClosing \<or> protocol c \<noteq> None then c
      else let timeout = (if worker c = WorkerServing then 0
                          else if worker c = WorkerIdle \<and> partial c then ReadHeaderTimeout opts
                          else IdleTimeout opts)
           in SetDeadline (DeadlineAfter now timeout) c)"

text \<open>\<^verbatim>\<open>OnOpen\<close>.\<close>

definition OnOpen :: "fh_options \<Rightarrow> int \<Rightarrow> fh_conn" where
  "OnOpen opts now = setDeadline opts now
     \<lparr>fc_framer = new_framer, queuedBytes = 0, protocol = None, queue = [], head = 0, signal = None, worker = WorkerIdle,
      partial = False, readPaused = False, halfClosed = False, broken = False, closed = False, state = False, ctx = None,
      paused = False, close_called = False, detached = False, deadline = 0, wire = [], context_conn = True\<rparr>"

section \<open>The queue\<close>

definition queued_of :: "item \<Rightarrow> queued" where
  "queued_of i =
     (case i of
        Message data m \<Rightarrow> \<lparr>rq_msg = data, rq_header = i32 (int (m_header m)), rq_status = 0, rq_chunked = m_chunked m\<rparr>
      | Status st \<Rightarrow> \<lparr>rq_msg = [], rq_header = 0, rq_status = st, rq_chunked = False\<rparr>)"

definition push :: "item \<Rightarrow> fh_conn \<Rightarrow> fh_conn" where
  "push i c =
     (let r = queued_of i
      in c\<lparr>queue := queue c @ [r], queuedBytes := i32 (queuedBytes c + i32 (int (length (rq_msg r))))\<rparr>)"

text \<open>The array of the queue is kept or dropped once the last request is taken; its capacity is not part of the model.\<close>

definition no_request :: queued where
  "no_request = \<lparr>rq_msg = [], rq_header = 0, rq_status = 0, rq_chunked = False\<rparr>"

definition pop :: "fh_conn \<Rightarrow> queued \<times> fh_conn" where
  "pop c =
     (let r = queue c ! head c;
          c1 = c\<lparr>queue := (queue c)[head c := no_request], head := head c + 1,
                 queuedBytes := i32 (queuedBytes c - i32 (int (length (rq_msg r))))\<rparr>
      in (r, if head c1 = length (queue c1) then c1\<lparr>queue := [], head := 0\<rparr> else c1))"

definition releaseQueue :: "fh_conn \<Rightarrow> fh_conn" where
  "releaseQueue c = c\<lparr>queue := [], head := 0, queuedBytes := 0\<rparr>"

section \<open>Contexts\<close>

text \<open>Calling what \<^verbatim>\<open>contextCancel\<close> returns.\<close>

definition cancel_context :: "fh_conn \<Rightarrow> fh_conn" where
  "cancel_context c = (if state c \<and> ctx c \<noteq> None then c\<lparr>ctx := Some True\<rparr> else c)"

text \<open>\<^verbatim>\<open>connState.context\<close>, by whoever holds a request, even after the connection has let go of its state.\<close>

definition context_of :: "fh_conn \<Rightarrow> fh_conn" where
  "context_of c = (if ctx c = None then c\<lparr>ctx := Some (closed c \<or> halfClosed c \<or> protocol c \<noteq> None)\<rparr> else c)"

definition endContext :: "fh_conn \<Rightarrow> fh_conn" where
  "endContext c = (cancel_context c)\<lparr>state := False, signal := None\<rparr>"

section \<open>Callbacks of the engine\<close>

definition wakeWriter :: "fh_conn \<Rightarrow> fh_conn" where
  "wakeWriter c = (case signal c of None \<Rightarrow> c | Some _ \<Rightarrow> c\<lparr>signal := Some True\<rparr>)"

text \<open>
  \<^verbatim>\<open>onData\<close>: the new state, the items pushed, the number of bytes consumed, and whether a worker was submitted; \<open>None\<close> would
  be a \<^verbatim>\<open>split\<close> that does not return.
\<close>

definition full :: "fh_conn \<Rightarrow> bool" where
  "full c \<longleftrightarrow> length (queue c) \<ge> maxPipeline \<or> queuedBytes c \<ge> maxQueuedBytes"

definition take_items :: "int \<Rightarrow> item list \<Rightarrow> fh_conn \<Rightarrow> fh_conn" where
  "take_items e items c =
     (let c1 = fold push items c;
          c2 = (if e = statusHandoff then c1\<lparr>paused := True\<rparr> else if e \<noteq> 0 then c1\<lparr>broken := True\<rparr> else c1)
      in if full c2 then c2\<lparr>readPaused := True, paused := True\<rparr> else c2)"

definition onData :: "fh_options \<Rightarrow> int \<Rightarrow> string \<Rightarrow> fh_conn \<Rightarrow> (fh_conn \<times> item list \<times> nat \<times> bool) option" where
  "onData opts now data c =
     (if broken c then Some (c, [], length data, False)
      else if protocol c \<noteq> None then Some (c\<lparr>broken := True, close_called := True\<rparr>, [], length data, False)
      else case fr_split data opts (fc_framer c) of
        None \<Rightarrow> None
      | Some (f1, items, consumed, e) \<Rightarrow>
          let c1 = take_items e items (c\<lparr>fc_framer := f1\<rparr>);
              submit = (length (queue c1) > length (queue c) \<and> worker c1 = WorkerIdle);
              c2 = (if submit then c1\<lparr>worker := WorkerServing\<rparr> else c1);
              part = (consumed < length data);
              c3 = (if submit \<or> part \<noteq> partial c2 then setDeadline opts now (c2\<lparr>partial := part\<rparr>) else c2)
          in Some (c3, items, consumed, submit))"

definition halfClose :: "fh_conn \<Rightarrow> fh_conn \<times> bool" where
  "halfClose c =
     (if protocol c \<noteq> None \<or> worker c \<noteq> WorkerServing \<and> worker c \<noteq> WorkerWaiting then (c, False)
      else (cancel_context (c\<lparr>halfClosed := True\<rparr>), True))"

text \<open>The result is also the protocol whose \<^verbatim>\<open>OnClose\<close> is called.\<close>

definition onClose :: "fh_conn \<Rightarrow> fh_conn \<times> nat option" where
  "onClose c = (let c1 = wakeWriter (releaseQueue (cancel_context (c\<lparr>closed := True\<rparr>))) in (c1, protocol c1))"

definition onWritable :: "fh_options \<Rightarrow> int \<Rightarrow> fh_conn \<Rightarrow> fh_conn \<times> bool" where
  "onWritable opts now c =
     (let c1 = wakeWriter c; resume = (worker c1 = WorkerWaiting \<and> \<not> closed c1)
      in (if resume then setDeadline opts now (c1\<lparr>worker := WorkerServing\<rparr>) else c1, resume))"

text \<open>\<^verbatim>\<open>route\<close>: the protocol the event goes to, none while HTTP is in charge.\<close>

definition route :: "fh_conn \<Rightarrow> fh_conn \<times> nat option" where
  "route c =
     (if \<not> context_conn c then (c, protocol c)
      else case protocol c of None \<Rightarrow> (c, None) | Some p \<Rightarrow> (c\<lparr>context_conn := False\<rparr>, Some p))"

section \<open>The worker\<close>

text \<open>What the loop of \<^verbatim>\<open>serveQueue\<close> goes on to do once it has let go of the mutex.\<close>

datatype action = A_Flush | A_Close | A_Stop bool | A_Wait | A_Handle queued

definition serveQueue :: "fh_options \<Rightarrow> int \<Rightarrow> bool \<Rightarrow> bool \<Rightarrow> fh_conn \<Rightarrow> fh_conn \<times> action" where
  "serveQueue opts now writable collected c =
     (let stalled = (queue c \<noteq> [] \<and> \<not> writable) in
      if \<not> closed c \<and> collected \<and> (queue c = [] \<or> stalled) then (c, A_Flush)
      else if closed c \<or> queue c = [] then
        (if halfClosed c \<and> \<not> closed c then (c, A_Close)
         else (setDeadline opts now (c\<lparr>worker := WorkerIdle, readPaused := False\<rparr>), A_Stop (readPaused c)))
      else if stalled then (setDeadline opts now (c\<lparr>worker := WorkerWaiting\<rparr>), A_Wait)
      else let (r, c1) = pop c in (c1, A_Handle r))"

text \<open>\<^verbatim>\<open>closeFromWorker\<close>, in its two parts.\<close>

definition mark_closing :: "fh_conn \<Rightarrow> fh_conn" where
  "mark_closing c = c\<lparr>worker := WorkerClosing\<rparr>"

definition close_conn :: "fh_options \<Rightarrow> int \<Rightarrow> fh_conn \<Rightarrow> fh_conn" where
  "close_conn opts now c = (SetDeadline (DeadlineAfter now (IdleTimeout opts)) c)\<lparr>close_called := True\<rparr>"

text \<open>A response that works on the connection, and the connection after it.\<close>

definition load :: "(wr_error \<times> nat) option list \<Rightarrow> fh_conn \<Rightarrow> response \<Rightarrow> response" where
  "load io c w = w\<lparr>r_closed := closed c, r_wire := wire c, r_io := io\<rparr>"

definition written :: "response \<Rightarrow> fh_conn \<Rightarrow> fh_conn" where
  "written w c = c\<lparr>wire := r_wire w\<rparr>"

text \<open>\<^verbatim>\<open>handoff\<close>: \<open>ok\<close> is whether \<^verbatim>\<open>Detach\<close> succeeds.\<close>

definition conn_handoff :: "fh_options \<Rightarrow> int \<Rightarrow> bool \<Rightarrow> fh_conn \<Rightarrow> fh_conn" where
  "conn_handoff opts now ok c =
     (let c1 = SetDeadline (DeadlineAfter now (IdleTimeout opts)) c
      in if \<not> ok then c1 else endContext (c1\<lparr>detached := True\<rparr>))"

text \<open>
  \<^verbatim>\<open>handle\<close> up to the call of the handler: whether the connection is kept, or the handler runs.
\<close>

datatype handling = Keep | Drop | Run

definition handle_message :: "fh_env \<Rightarrow> read_request \<Rightarrow> queued \<Rightarrow> fh_conn \<Rightarrow> response \<Rightarrow> fh_conn \<times> response \<times> handling" where
  "handle_message env ReadRequest r c w =
     (let c1 = (if state c then c else c\<lparr>state := True, ctx := None\<rparr>) in
      case readRequest ReadRequest r of
        Inl status \<Rightarrow> (c1, writeError env status w, Drop)
      | Inr q \<Rightarrow> (c1, start (w\<lparr>r_req := as_request q\<rparr>), Run))"

definition handle :: "fh_options \<Rightarrow> int \<Rightarrow> fh_env \<Rightarrow> read_request \<Rightarrow> bool \<Rightarrow> queued \<Rightarrow> fh_conn \<Rightarrow> response \<Rightarrow> fh_conn \<times> response \<times> handling" where
  "handle opts now env ReadRequest ok r c w =
     (if rq_status r = 0 then handle_message env ReadRequest r c w
      else if rq_status r = 100 then (c, w\<lparr>r_out := r_out w @ continueResponse\<rparr>, Keep)
      else if rq_status r = statusHandoff then
        (let (err, w1) = flush w; c1 = written w1 c in
         if err \<noteq> None then (c1\<lparr>close_called := True\<rparr>, w1, Drop) else (conn_handoff opts now ok c1, w1, Drop))
      else (c, writeError env (rq_status r) w, Drop))"

text \<open>\<^verbatim>\<open>serveHTTP\<close> answers \<^verbatim>\<open>OPTIONS *\<close> itself.\<close>

definition server_options :: "std_request \<Rightarrow> bool" where
  "server_options q \<longleftrightarrow> sr_RequestURI q = ''*'' \<and> sr_Method q = ''OPTIONS''"

text \<open>What \<^verbatim>\<open>serveHTTP\<close> does when the handler panics.\<close>

definition handler_failed :: "response \<Rightarrow> response" where
  "handler_failed w =
     (if \<not> r_streamed w \<and> \<not> r_upgraded w then w\<lparr>r_out := take (r_outStart w) (r_out w)\<rparr> else w)"

text \<open>The end of \<^verbatim>\<open>handle\<close>.\<close>

definition handled :: "fh_env \<Rightarrow> bool \<Rightarrow> fh_conn \<Rightarrow> response \<Rightarrow> fh_conn \<times> response \<times> bool" where
  "handled env ok c w =
     (if r_upgraded w then (endContext c, w, ok \<and> protocol c \<noteq> None \<and> r_writeErr w = None)
      else if \<not> ok then (c, w, False)
      else let (keep, w1) = finish env w in (c, w1, keep))"

section \<open>Upgrade\<close>

text \<open>
  \<^verbatim>\<open>upgrade\<close> up to the call of \<^verbatim>\<open>newProtocol\<close> (\<open>None\<close>: not supported), and from there on: \<open>p\<close> is the new protocol.
\<close>

definition upgrade_begin :: "fh_conn \<Rightarrow> response \<Rightarrow> (fh_conn \<times> response) option" where
  "upgrade_begin c w =
     (if \<not> http11 (r_req w) \<or> r_streamed w then None
      else Some (if readPaused c then c\<lparr>readPaused := False, paused := False\<rparr> else c,
                 w\<lparr>r_upgraded := True, r_out := take (r_outStart w) (r_out w)\<rparr>))"

datatype upgrade_error = UpErrClosed | UpErrEarlyRequest | UpWriteError wr_error

definition switching_header :: "http_header \<Rightarrow> string \<Rightarrow> string" where
  "switching_header h b =
     fold (\<lambda>(name, vs) b. if name \<noteq> ''Content-Length'' \<and> name \<noteq> ''Transfer-Encoding'' \<and> validName name
                            then appendHeaderValues b name vs else b) h
       (b @ ''HTTP/1.1 101 Switching Protocols'' @ CRLF) @ CRLF"

definition upgrade_switch :: "fh_options \<Rightarrow> int \<Rightarrow> fh_env \<Rightarrow> nat \<Rightarrow> fh_conn \<Rightarrow> response \<Rightarrow> fh_conn \<times> response \<times> upgrade_error option" where
  "upgrade_switch opts now env p c w =
     (if closed c \<or> halfClosed c then (c, w, Some UpErrClosed)
      else if length (queue c) > 0 then (c, writeError env 400 w, Some UpErrEarlyRequest)
      else
        let c1 = releaseQueue (c\<lparr>protocol := Some p\<rparr>);
            c2 = (if partial c1 then SetDeadline (DeadlineAfter now (ReadHeaderTimeout opts)) c1 else c1);
            (err, w1) = flush (w\<lparr>r_out := switching_header (r_header w) (r_out w)\<rparr>)
        in (written w1 c2, w1, map_option UpWriteError err))"

section \<open>Waiting for the client\<close>

text \<open>
  \<^verbatim>\<open>waitWritable\<close>: making the channel, and one look of the loop: \<open>None\<close> when it receives from the channel or the timer, and
  then what a signal, or the timer, makes of it.
\<close>

definition wait_begin :: "fh_conn \<Rightarrow> fh_conn" where
  "wait_begin c = (case signal c of None \<Rightarrow> c\<lparr>signal := Some False\<rparr> | Some _ \<Rightarrow> c)"

definition wait_over :: "bool \<Rightarrow> fh_conn \<Rightarrow> bool" where
  "wait_over writable c \<longleftrightarrow> writable \<or> closed c"

definition wait_receive :: "fh_conn \<Rightarrow> fh_conn option" where
  "wait_receive c = (if signal c = Some True then Some (c\<lparr>signal := Some False\<rparr>) else None)"

end
