(* ===== verification/FhAnswers.thy ===== *)
theory FhAnswers
  imports FhResponse "HOL-Library.Code_Target_Nat"
begin

text \<open>
  What goes out for one request: a header block of well-formed lines, and a body that the client can delimit and that
  is what the handler wrote.
\<close>

section \<open>Lines\<close>

definition plain_line :: "string \<Rightarrow> bool" where
  "plain_line l \<longleftrightarrow> l \<noteq> [] \<and> CR \<notin> set l \<and> LF \<notin> set l"

definition header_lines :: "string \<Rightarrow> bool" where
  "header_lines s \<longleftrightarrow> (\<exists>ls. s = concat (map (\<lambda>l. l @ CRLF) ls) \<and> list_all plain_line ls)"

lemma header_lines_Nil [simp]: "header_lines []"
  by (auto simp: header_lines_def intro!: exI [of _ "[]"])

lemma header_lines_append:
  assumes "header_lines s" and "header_lines t"
  shows "header_lines (s @ t)"
proof -
  obtain ls ks where "s = concat (map (\<lambda>l. l @ CRLF) ls)" "list_all plain_line ls" "t = concat (map (\<lambda>l. l @ CRLF) ks)" "list_all plain_line ks"
    using assms by (auto simp: header_lines_def)
  then have "s @ t = concat (map (\<lambda>l. l @ CRLF) (ls @ ks))" "list_all plain_line (ls @ ks)" by simp_all
  then show ?thesis unfolding header_lines_def by blast
qed

lemma header_lines_one: "plain_line l \<Longrightarrow> header_lines (l @ CRLF)"
  by (auto simp: header_lines_def intro!: exI [of _ "[l]"])

text \<open>The header ends where the first empty line is, whatever follows.\<close>

lemma header_block_end:
  assumes "header_lines s" "s \<noteq> []"
  shows "bytes_Index headerTerminator (s @ CRLF @ t) = Some (length s - 2)"
proof -
  have one: "bytes_Index headerTerminator (l @ CRLF @ t) = (if has_prefix CRLF t then Some (length l) else map_option ((+) (length l + 2)) (bytes_Index headerTerminator t))"
    if "CR \<notin> set l" "LF \<notin> set l" for l t
    using that
  proof (induction l)
    case Nil
    show ?case by (cases t; cases "tl t") (auto simp: headerTerminator_def has_prefix_def option.map_comp comp_def)
  next
    case (Cons c l)
    then show ?case by (auto simp: headerTerminator_def has_prefix_def option.map_comp comp_def)
  qed
  obtain ls where ls: "s = concat (map (\<lambda>l. l @ CRLF) ls)" "list_all plain_line ls" using assms by (auto simp: header_lines_def)
  have "ls \<noteq> []" using ls assms(2) by auto
  then have "bytes_Index headerTerminator (concat (map (\<lambda>l. l @ CRLF) ls) @ CRLF @ t) = Some (length (concat (map (\<lambda>l. l @ CRLF) ls)) - 2)"
    using ls(2)
  proof (induction ls)
    case (Cons l ls)
    show ?case
    proof (cases "ls = []")
      case True
      then show ?thesis using Cons.prems one [of l "CRLF @ t"] by (simp add: plain_line_def has_prefix_def)
    next
      case False
      then obtain k ls' where k: "ls = k # ls'" by (cases ls) auto
      then have np: "\<not> has_prefix CRLF (concat (map (\<lambda>l. l @ CRLF) ls) @ CRLF @ t)"
        using Cons.prems by (cases k) (auto simp: plain_line_def has_prefix_def)
      have "length (concat (map (\<lambda>l. l @ CRLF) ls)) \<ge> 2" using k by simp
      with np False Cons one [of l "concat (map (\<lambda>l. l @ CRLF) ls) @ CRLF @ t"] show ?thesis by (simp add: plain_line_def)
    qed
  qed simp
  with ls show ?thesis by simp
qed

lemma nat_below_16:
  assumes "d < (16 :: nat)" and "P 0" "P 1" "P 2" "P 3" "P 4" "P 5" "P 6" "P 7" "P 8" "P 9" "P 10" "P 11" "P 12" "P 13" "P 14" "P 15"
  shows "P d"
proof -
  from assms(1) have "d = 0 \<or> d = 1 \<or> d = 2 \<or> d = 3 \<or> d = 4 \<or> d = 5 \<or> d = 6 \<or> d = 7 \<or> d = 8 \<or> d = 9 \<or> d = 10
    \<or> d = 11 \<or> d = 12 \<or> d = 13 \<or> d = 14 \<or> d = 15" by presburger
  with assms(2-) show ?thesis by blast
qed

lemma hex_digit_char: "d < 16 \<Longrightarrow> hex_digit (digit_char d) = Some d"
  by (rule nat_below_16 [of d]) (simp_all add: hex_digit_def digit_char_def ord_def)

lemma digits_of_digits: "2 \<le> base \<Longrightarrow> base \<le> 16 \<Longrightarrow> list_all (\<lambda>c. \<exists>d<base. c = digit_char d) (digits_of base n)"
proof (induction base n rule: digits_of.induct)
  case (1 base n)
  have "n mod base < base" using "1.prems" by simp
  then have "\<exists>d<base. digit_char (n mod base) = digit_char d" by blast
  with 1 show ?case by (subst digits_of.simps) (auto simp: Let_def)
qed

lemma digits_of_plain:
  assumes "2 \<le> base" "base \<le> 16"
  shows "CR \<notin> set (digits_of base n)" "LF \<notin> set (digits_of base n)"
proof -
  have "hex_digit CR = None" "hex_digit LF = None" by (simp_all add: hex_digit_def ord_def)
  moreover have "hex_digit c = None \<Longrightarrow> c \<notin> set (digits_of base n)" for c
    using digits_of_digits [OF assms, of n] assms(2) hex_digit_char by (fastforce simp: list_all_iff)
  ultimately show "CR \<notin> set (digits_of base n)" "LF \<notin> set (digits_of base n)" by blast+
qed

lemma digits_of_ne: "digits_of base n \<noteq> []"
  by (subst digits_of.simps) (simp add: Let_def)

lemma replace_line_ends_map: "replace_line_ends v = map (\<lambda>c. if c = CR \<or> c = LF then CHR '' '' else c) v"
proof (induction v rule: replace_line_ends.induct)
  case (1 v)
  let ?P = "\<lambda>c. c \<noteq> CR \<and> c \<noteq> LF"
  have tw: "map (\<lambda>c. if c = CR \<or> c = LF then CHR '' '' else c) (takeWhile ?P v) = takeWhile ?P v"
    by (rule map_idI) (auto dest: set_takeWhileD)
  show ?case
  proof (cases "CR \<in> set v \<or> LF \<in> set v")
    case True
    then have "dropWhile ?P v \<noteq> []" by (auto simp: dropWhile_eq_Nil_conv)
    then obtain h r where d: "dropWhile ?P v = h # r" "\<not> ?P h" using hd_dropWhile [of ?P v] by (cases "dropWhile ?P v") auto
    let ?f = "\<lambda>c. if c = CR \<or> c = LF then CHR '' '' else c"
    have "map ?f (takeWhile ?P v @ h # r) = takeWhile ?P v @ '' '' @ map ?f r" using tw d(2) by auto
    moreover have "takeWhile ?P v @ h # r = v" using takeWhile_dropWhile_id [of ?P v] d(1) by simp
    ultimately have "map ?f v = takeWhile ?P v @ '' '' @ map ?f r" by metis
    then have "map ?f v = takeWhile ?P v @ '' '' @ map ?f (drop 1 (dropWhile ?P v))" using d(1) by simp
    with True 1 show ?thesis by (simp add: replace_line_ends.simps [of v])
  next
    case False
    then show ?thesis by (subst replace_line_ends.simps) (auto intro!: map_idI [symmetric])
  qed
qed

named_theorems lines

lemma plain_lineI: "l \<noteq> [] \<Longrightarrow> CR \<notin> set l \<Longrightarrow> LF \<notin> set l \<Longrightarrow> plain_line l"
  by (simp add: plain_line_def)

lemma appendInt_plain: "CR \<notin> set (strconv_AppendInt n base)" "LF \<notin> set (strconv_AppendInt n base)" if "2 \<le> base" "base \<le> 16"
  using digits_of_plain [OF that] by (auto simp: strconv_AppendInt_def)

lemma StatusText_plain: "CR \<notin> set (StatusText n)" "LF \<notin> set (StatusText n)"
proof -
  have "list_all (\<lambda>(c, t). CR \<notin> set t \<and> LF \<notin> set t) status_texts" by code_simp
  then show "CR \<notin> set (StatusText n)" "LF \<notin> set (StatusText n)"
    by (cases "map_of status_texts n"; auto simp: StatusText_def list_all_iff dest: map_of_SomeD)+
qed

lemma appendStatusLine_lines [lines]: "\<exists>l. appendStatusLine b n = b @ l \<and> header_lines l \<and> l \<noteq> []"
proof -
  let ?l = "if n = 200 then ''HTTP/1.1 200 OK'' else ''HTTP/1.1 '' @ strconv_AppendInt n 10 @ '' '' @
      (if StatusText n \<noteq> [] then StatusText n else ''status code '' @ strconv_AppendInt n 10)"
  have "plain_line ?l" using StatusText_plain [of n] appendInt_plain [of 10 n] by (auto simp: plain_line_def)
  then have "header_lines (?l @ CRLF)" by (rule header_lines_one)
  moreover have "appendStatusLine b n = b @ ?l @ CRLF" by (simp add: appendStatusLine_def)
  ultimately show ?thesis by blast
qed

lemma appendContentLength_lines [lines]: "header_lines (appendContentLength [] n)"
  using header_lines_one [of "''Content-Length: '' @ strconv_AppendInt n 10"] appendInt_plain [of 10 n]
  by (simp add: appendContentLength_def plain_line_def)

lemma appendHeaderValues_lines:
  assumes "CR \<notin> set name" "LF \<notin> set name"
  shows "\<exists>l. appendHeaderValues b name vs = b @ l \<and> header_lines l"
proof (induction vs arbitrary: b)
  case (Cons v vs)
  let ?l = "name @ '': '' @ replace_line_ends (bytes_Trim v [CHR 0x20, CHR 0x09, CR, LF])"
  have "plain_line ?l" using assms by (auto simp: plain_line_def replace_line_ends_map)
  then have h: "header_lines (?l @ CRLF)" by (rule header_lines_one)
  obtain m where m: "appendHeaderValues (b @ ?l @ CRLF) name vs = (b @ ?l @ CRLF) @ m" "header_lines m" using Cons by blast
  have "appendHeaderValues b name (v # vs) = b @ ((?l @ CRLF) @ m)" using m(1) by simp
  then show ?case using header_lines_append [OF h m(2)] by blast
qed auto

lemma validName_plain: "validName name \<Longrightarrow> CR \<notin> set name \<and> LF \<notin> set name"
proof -
  have "\<not> token_char CR" "\<not> token_char LF" by (simp_all add: token_char_def is_upper_def is_lower_def is_digit_def ord_def)
  then show "validName name \<Longrightarrow> CR \<notin> set name \<and> LF \<notin> set name" by (auto simp: validName_def list_all_iff)
qed

lemma commit_field_lines: "\<exists>l. fst (commit_field st nv (b, c)) = b @ l \<and> header_lines l"
proof -
  obtain name vs where nv: "nv = (name, vs)" by (cases nv)
  have "fst (commit_field st nv (b, c)) = b \<or>
      CR \<notin> set name \<and> LF \<notin> set name \<and> fst (commit_field st nv (b, c)) = appendHeaderValues b name vs"
    using validName_plain [of name] by (auto simp: commit_field_def nv)
  then show ?thesis using appendHeaderValues_lines [of name b vs] by auto
qed

lemma commitHeader_lines:
  "\<exists>l c. commitHeader w = w\<lparr>r_out := r_out w @ l, r_committed := c, r_remaining := declared_length c\<rparr> \<and> header_lines l \<and> l \<noteq> []"
proof -
  have f: "\<exists>l. fst (fold (commit_field st) hs (b, c)) = b @ l \<and> header_lines l" for st hs b c
  proof (induction hs arbitrary: b c)
    case (Cons nv hs)
    obtain l where l: "fst (commit_field st nv (b, c)) = b @ l" "header_lines l" using commit_field_lines by blast
    obtain m where m: "fst (fold (commit_field st) hs (b @ l, snd (commit_field st nv (b, c)))) = (b @ l) @ m" "header_lines m"
      using Cons by blast
    have "commit_field st nv (b, c) = (b @ l, snd (commit_field st nv (b, c)))" using l(1) by (metis prod.collapse)
    then have "fst (fold (commit_field st) (nv # hs) (b, c)) = b @ (l @ m)" using m(1) by simp
    then show ?case using header_lines_append [OF l(2) m(2)] by blast
  qed auto
  obtain s where s: "appendStatusLine (r_out w) (r_status w) = r_out w @ s" "header_lines s" "s \<noteq> []" using appendStatusLine_lines by blast
  obtain l where l: "fst (fold (commit_field (r_status w)) (r_header w) (r_out w @ s, no_commit)) = (r_out w @ s) @ l" "header_lines l" using f by blast
  have "commitHeader w = w\<lparr>r_out := r_out w @ (s @ l), r_committed := snd (fold (commit_field (r_status w)) (r_header w) (r_out w @ s, no_commit)),
      r_remaining := declared_length (snd (fold (commit_field (r_status w)) (r_header w) (r_out w @ s, no_commit)))\<rparr>"
    using l(1) s(1) by (simp add: commitHeader_def case_prod_unfold Let_def)
  then show ?thesis using header_lines_append [OF s(2) l(2)] s(3) by blast
qed

section \<open>The header of the response\<close>

definition env_ok :: "fh_env \<Rightarrow> bool" where
  "env_ok env \<longleftrightarrow> CR \<notin> set (date_field env) \<and> LF \<notin> set (date_field env) \<and>
     (\<forall>s. CR \<notin> set (DetectContentType env s) \<and> LF \<notin> set (DetectContentType env s))"

lemma length_line_lines [lines]: "header_lines (length_line st w)"
  using header_lines_one [of "''Transfer-Encoding: chunked''"]
  by (simp add: length_line_def appendContentLength_lines plain_line_def)

lemma connection_line_lines [lines]: "header_lines (connection_line hc w)"
  using header_lines_one [of "''Connection: close''"] header_lines_one [of "''Connection: keep-alive''"]
    appendHeaderValues_lines [of "''Connection''" "[]" "the (connection_values (r_committed w))"]
  by (auto simp: connection_line_def plain_line_def)

lemma default_header_wrote: "r_wroteHeader w \<Longrightarrow> default_header w = w"
  by (simp add: default_header_def)

lemma writeHeader_default: "r_wroteHeader w' \<Longrightarrow> w' = default_header w \<Longrightarrow> writeHeader env c st w = writeHeader env c st w'"
  by (simp add: writeHeader_def default_header_wrote Let_def)

definition headed :: "bool \<Rightarrow> response \<Rightarrow> response" where
  "headed st w = w\<lparr>r_body := if r_status w = 205 then [] else r_body w, r_streamed := st, r_bodyWriting := fst (decide_body st w)\<rparr>"

lemma writeHeader_shape:
  assumes "env_ok env" and "r_wroteHeader w"
  shows "\<exists>L. writeHeader env content st w = (headed st w)\<lparr>r_out := r_out w @ length_line st (headed st w) @ L @ CRLF\<rparr> \<and> header_lines L"
proof -
  define content' where "content' = (if r_status w = 205 then [] else content)"
  define type_line where "type_line = (if \<not> hasType (r_committed w) \<and> bodyAllowed w \<and> length content' > 0 \<and> \<not> encoded (r_committed w)
    then ''Content-Type: '' @ DetectContentType env content' @ CRLF else [])"
  define date_line where "date_line = (if \<not> hasDate (r_committed w) then appendDate env [] else [])"
  define conn_line where "conn_line = connection_line (snd (decide_body st w)) (headed st w)"
  have ba: "bodyAllowed (w\<lparr>r_body := b, r_streamed := s, r_bodyWriting := bw\<rparr>) = bodyAllowed w"
    "bodyAllowed (w\<lparr>r_body := b\<rparr>) = bodyAllowed w" "bodyAllowed (w\<lparr>r_streamed := s, r_bodyWriting := bw\<rparr>) = bodyAllowed w" for b s bw
    by (simp_all add: bodyAllowed_def)
  have db: "decide_body st (w\<lparr>r_body := b\<rparr>) = decide_body st w" for b by (simp add: decide_body_def ba)
  have h1: "header_lines type_line"
    using header_lines_one [of "''Content-Type: '' @ DetectContentType env content'"] assms(1) by (auto simp: type_line_def plain_line_def env_ok_def)
  have h2: "header_lines date_line"
    using header_lines_one [of "''Date: '' @ date_field env"] assms(1) by (auto simp: date_line_def appendDate_def plain_line_def env_ok_def)
  have h3: "header_lines conn_line" unfolding conn_line_def by (rule connection_line_lines)
  have "writeHeader env content st w = (headed st w)\<lparr>r_out := r_out w @ length_line st (headed st w) @ (type_line @ date_line @ conn_line) @ CRLF\<rparr>"
    using assms(2)
    by (cases "r_status w = 205")
       (simp_all add: writeHeader_def default_header_wrote Let_def case_prod_unfold db ba headed_def type_line_def date_line_def conn_line_def content'_def)
  then show ?thesis using header_lines_append [OF h1 header_lines_append [OF h2 h3]] by blast
qed

section \<open>The body of the response\<close>

definition chunk :: "string \<Rightarrow> string" where
  "chunk p = digits_of 16 (length p) @ CRLF @ p @ CRLF"

text \<open>No call of the connection fails.\<close>

definition calm :: "response \<Rightarrow> bool" where
  "calm w \<longleftrightarrow> r_io w = [] \<and> \<not> r_closed w \<and> r_writeErr w = None"

definition all_out :: "response \<Rightarrow> string" where
  "all_out w = r_wire w @ r_out w"

definition begun :: "string \<Rightarrow> response \<Rightarrow> bool" where
  "begun pre w \<longleftrightarrow> \<not> r_streamed w \<and> r_wroteHeader w \<and> (\<exists>P. header_lines P \<and> P \<noteq> [] \<and> all_out w = pre @ P)"

definition content_out :: "response \<Rightarrow> string \<Rightarrow> string \<Rightarrow> bool" where
  "content_out w C E \<longleftrightarrow>
     (if discardBody (r_bodyWriting w) then E = []
      else if bw_chunked (r_bodyWriting w)
           then \<exists>ps. E = concat (map chunk ps) \<and> concat ps = C \<and> list_all (\<lambda>p. p \<noteq> [] \<and> length p \<le> maxBufferedBody) ps
      else E = C)"

definition head_out :: "string \<Rightarrow> bool \<Rightarrow> response \<Rightarrow> bool" where
  "head_out P st w \<longleftrightarrow> header_lines P \<and> P \<noteq> [] \<and> (\<exists>a b. P = a @ length_line st w @ b) \<and> r_bodyWriting w = fst (decide_body st w)"

definition sent :: "string \<Rightarrow> response \<Rightarrow> string \<Rightarrow> bool" where
  "sent pre w C \<longleftrightarrow> r_streamed w \<and> r_wroteHeader w \<and>
     (\<exists>P E. head_out P True w \<and> all_out w = pre @ P @ CRLF @ E \<and> content_out w C E)"

definition same_head :: "response \<Rightarrow> response \<Rightarrow> bool" where
  "same_head w w' \<longleftrightarrow> r_req w' = r_req w \<and> r_status w' = r_status w \<and> r_committed w' = r_committed w
     \<and> r_remaining w' = r_remaining w \<and> r_wroteHeader w' = r_wroteHeader w"

lemma conn_Write_calm: "r_io w = [] \<Longrightarrow> conn_Write s w = (None, w\<lparr>r_wire := r_wire w @ s\<rparr>)"
  by (simp add: conn_Write_def io_next_def)

lemma head_out_cong:
  assumes "r_req w' = r_req w" "r_status w' = r_status w" "r_committed w' = r_committed w" "r_bodyWriting w' = r_bodyWriting w"
    and "st \<or> r_body w' = r_body w"
  shows "head_out P st w' = head_out P st w"
proof -
  have "bodyAllowed w' = bodyAllowed w" using assms by (simp add: bodyAllowed_def)
  then have "length_line st w' = length_line st w" "decide_body st w' = decide_body st w"
    using assms by (auto simp: length_line_def decide_body_def)
  with assms(4) show ?thesis by (simp add: head_out_def)
qed

lemma content_out_Nil: "content_out w [] []"
  by (auto simp: content_out_def intro!: exI [of _ "[]"])

lemma sent_body [simp]: "sent pre (w\<lparr>r_body := b\<rparr>) C = sent pre w C"
proof -
  have "head_out P True (w\<lparr>r_body := b\<rparr>) = head_out P True w" for P by (rule head_out_cong) simp_all
  moreover have "content_out (w\<lparr>r_body := b\<rparr>) C E = content_out w C E" for E by (simp add: content_out_def)
  ultimately show ?thesis by (simp add: sent_def all_out_def)
qed

lemma begun_body [simp]: "begun pre (w\<lparr>r_body := b\<rparr>) = begun pre w"
  by (simp add: begun_def all_out_def)

lemma head_out_headed:
  assumes "env_ok env" "begun pre w"
  shows "\<exists>P. all_out (writeHeader env content st w) = pre @ P @ CRLF \<and> head_out P st (writeHeader env content st w)
    \<and> r_streamed (writeHeader env content st w) = st \<and> same_head w (writeHeader env content st w)
    \<and> r_body (writeHeader env content st w) = (if r_status w = 205 then [] else r_body w)
    \<and> (calm w \<longrightarrow> calm (writeHeader env content st w))"
proof -
  have wrote: "r_wroteHeader w" using assms(2) by (simp add: begun_def)
  obtain P where P: "header_lines P" "P \<noteq> []" "all_out w = pre @ P" using assms(2) by (auto simp: begun_def)
  obtain L where L: "writeHeader env content st w = (headed st w)\<lparr>r_out := r_out w @ length_line st (headed st w) @ L @ CRLF\<rparr>" "header_lines L"
    using writeHeader_shape [OF assms(1) wrote] by blast
  let ?P = "P @ length_line st (headed st w) @ L"
  have "header_lines ?P" using P(1) L(2) length_line_lines header_lines_append by blast
  moreover have "bodyAllowed (headed st w) = bodyAllowed w" by (simp add: bodyAllowed_def headed_def)
  then have "r_bodyWriting (headed st w) = fst (decide_body st (headed st w))" by (simp add: decide_body_def headed_def)
  ultimately have "head_out ?P st (headed st w)" using P(2) by (auto simp: head_out_def)
  then have "head_out ?P st (writeHeader env content st w)" by (subst head_out_cong [of _ "headed st w"]) (simp_all add: L(1))
  moreover have "all_out (writeHeader env content st w) = pre @ ?P @ CRLF"
    using P(3) by (simp add: L(1) all_out_def headed_def)
  ultimately show ?thesis by (intro exI [of _ ?P]) (simp add: L(1) headed_def same_head_def calm_def)
qed

lemma send_sent:
  assumes env: "env_ok env" and c: "calm w" and p: "piece \<noteq> []" "length piece \<le> maxBufferedBody"
    and w: "r_streamed w \<and> sent pre w C \<or> begun pre w \<and> C = []"
  shows "\<exists>w'. send env piece w = (None, w') \<and> calm w' \<and> sent pre w' (C @ piece) \<and> same_head w w'"
proof -
  define w1 where "w1 = (if \<not> r_streamed w then writeHeader env piece True w else w)"
  have "sent pre w1 C \<and> calm w1 \<and> same_head w w1"
  proof (cases "r_streamed w")
    case True
    then show ?thesis using w c by (auto simp: w1_def begun_def same_head_def)
  next
    case False
    then have b: "begun pre w" "C = []" using w by auto
    obtain P where P: "all_out w1 = pre @ P @ CRLF" "head_out P True w1" "r_streamed w1" "same_head w w1" "calm w1"
      using head_out_headed [OF env b(1), of piece True] False c by (auto simp: w1_def)
    then have "sent pre w1 C" unfolding sent_def using b content_out_Nil [of w1] by (auto simp: same_head_def begun_def)
    with P show ?thesis by auto
  qed
  then have s1: "sent pre w1 C" "calm w1" "same_head w w1" by auto
  obtain P E where P: "head_out P True w1" "all_out w1 = pre @ P @ CRLF @ E" "content_out w1 C E" "r_streamed w1" "r_wroteHeader w1"
    using s1(1) by (auto simp: sent_def)
  show ?thesis
  proof (cases "discardBody (r_bodyWriting w1)")
    case True
    then have "sent pre w1 (C @ piece)" using P by (auto simp: sent_def content_out_def)
    moreover have "send env piece w = (None, w1)" using True by (simp add: send_def w1_def [symmetric] Let_def)
    ultimately show ?thesis using s1 by blast
  next
    case False
    define e where "e = (if bw_chunked (r_bodyWriting w1) then digits_of 16 (length piece) @ CRLF @ piece @ CRLF else piece)"
    define w2 where "w2 = w1\<lparr>r_wire := r_wire w1 @ r_out w1 @ e, r_out := []\<rparr>"
    have io: "r_io w1 = []" using s1(2) by (simp add: calm_def)
    have "send env piece w = (None, w2)"
      using False io s1(2)
      by (auto simp: send_def w1_def [symmetric] Let_def io_next_def conn_Write_calm appendChunkSize_def strconv_AppendInt_def e_def w2_def)
    moreover have "content_out w2 (C @ piece) (E @ e)"
    proof (cases "bw_chunked (r_bodyWriting w1)")
      case True
      then obtain ps where "E = concat (map chunk ps)" "concat ps = C" "list_all (\<lambda>p. p \<noteq> [] \<and> length p \<le> maxBufferedBody) ps"
        using P(3) False by (auto simp: content_out_def)
      then have "E @ e = concat (map chunk (ps @ [piece]))" "concat (ps @ [piece]) = C @ piece"
          "list_all (\<lambda>p. p \<noteq> [] \<and> length p \<le> maxBufferedBody) (ps @ [piece])"
        using True p by (simp_all add: e_def chunk_def)
      then have "\<exists>qs. E @ e = concat (map chunk qs) \<and> concat qs = C @ piece \<and> list_all (\<lambda>p. p \<noteq> [] \<and> length p \<le> maxBufferedBody) qs" by blast
      then show ?thesis using True False by (simp add: content_out_def w2_def)
    next
      case nc: False
      then show ?thesis using P(3) False by (simp add: content_out_def w2_def e_def)
    qed
    moreover have "head_out P True w2" using P(1) by (subst head_out_cong [of _ w1]) (simp_all add: w2_def)
    moreover have "all_out w2 = pre @ P @ CRLF @ (E @ e)" using P(2) by (simp add: all_out_def w2_def)
    ultimately have "send env piece w = (None, w2)" "sent pre w2 (C @ piece)" using P(4,5) unfolding sent_def by (auto simp: w2_def)
    then show ?thesis using s1(2,3) by (auto simp: w2_def calm_def same_head_def)
  qed
qed

lemma same_head_trans: "same_head u v \<Longrightarrow> same_head v w \<Longrightarrow> same_head u w"
  by (simp add: same_head_def)

lemma stream_loop_sent:
  assumes "env_ok env" and "calm w" and "length (r_body w) \<le> maxBufferedBody"
    and "r_streamed w \<and> sent pre w C \<or> begun pre w \<and> C = []" and "length (r_body w) + length p > maxBufferedBody"
  shows "\<exists>rest w' C'. stream_loop env p w = (rest, None, w') \<and> calm w' \<and> sent pre w' C' \<and> same_head w w' \<and> r_body w' = []
    \<and> C' @ rest = C @ r_body w @ p \<and> rest \<noteq> [] \<and> length rest \<le> maxBufferedBody"
  using assms
proof (induction env p w arbitrary: C rule: stream_loop.induct)
  case (1 env p w)
  define fill where "fill = maxBufferedBody - length (r_body w)"
  define piece where "piece = r_body w @ take fill p"
  define v where "v = (if length (r_body w) = 0 then w else w\<lparr>r_body := piece\<rparr>)"
  have fill: "fill < length p" using "1.prems"(3,5) by (simp add: fill_def)
  have len: "length piece = maxBufferedBody" using fill "1.prems"(3) by (simp add: piece_def fill_def)
  have v: "calm v" "r_streamed v = r_streamed w" "sent pre v C = sent pre w C" "begun pre v = begun pre w" "same_head w v"
    using "1.prems"(2) by (simp_all add: v_def calm_def same_head_def)
  obtain u where u: "send env piece v = (None, u)" "calm u" "sent pre u (C @ piece)" "same_head v u"
    using send_sent [OF "1.prems"(1) v(1), of piece pre C] v(2-4) "1.prems"(4) len by (fastforce simp: maxBufferedBody_def)
  define x where "x = u\<lparr>r_body := []\<rparr>"
  have x: "calm x" "sent pre x (C @ piece)" "same_head w x" "r_body x = []" "r_streamed x"
    using u v(5) by (auto simp: x_def calm_def same_head_def sent_def [of pre u])
  have eq: "stream_loop env p w = stream_loop env (drop fill p) x"
    using "1.prems"(5) u(1)
    by (subst stream_loop.simps) (auto simp: Let_def v_def piece_def fill_def x_def)
  show ?case
  proof (cases "length (r_body x) + length (drop fill p) > maxBufferedBody")
    case False
    then have "stream_loop env p w = (drop fill p, None, x)" using eq by (simp add: stream_loop.simps [of env "drop fill p" x])
    moreover have "(C @ piece) @ drop fill p = C @ r_body w @ p" by (simp add: piece_def)
    ultimately show ?thesis using x fill False by (intro exI [of _ "drop fill p"] exI [of _ x] exI [of _ "C @ piece"]) simp
  next
    case True
    have "\<exists>rest w' C'. stream_loop env (drop fill p) x = (rest, None, w') \<and> calm w' \<and> sent pre w' C' \<and> same_head x w' \<and> r_body w' = []
        \<and> C' @ rest = (C @ piece) @ r_body x @ drop fill p \<and> rest \<noteq> [] \<and> length rest \<le> maxBufferedBody"
    proof (rule "1.IH" [OF "1.prems"(5), of "(piece, drop fill p, v)" piece "(drop fill p, v)" "drop fill p" v "(None, u)" None u x "C @ piece"])
      show "(piece, drop fill p, v) = (if length (r_body w) = 0 then (take maxBufferedBody p, drop maxBufferedBody p, w)
          else let fill = maxBufferedBody - length (r_body w); w1 = w\<lparr>r_body := r_body w @ take fill p\<rparr> in (r_body w1, drop fill p, w1))"
        by (simp add: piece_def fill_def v_def Let_def)
    qed (use "1.prems"(1) u x True in \<open>simp_all add: x_def\<close>)
    then obtain rest w' C' where r: "stream_loop env (drop fill p) x = (rest, None, w')" "calm w'" "sent pre w' C'" "same_head x w'" "r_body w' = []"
        "C' @ rest = (C @ piece) @ r_body x @ drop fill p" "rest \<noteq> []" "length rest \<le> maxBufferedBody" by blast
    have "C' @ rest = C @ r_body w @ p" using r(6) x(4) by (simp add: piece_def)
    then show ?thesis using eq r same_head_trans [OF x(3) r(4)] by metis
  qed
qed

section \<open>The handler\<close>

text \<open>What a handler does with its response: it changes the header, writes the status, writes parts of the body.\<close>

datatype hop = Set_Header http_header | Do_WriteHeader int | Do_Write string

text \<open>A run of the handler, and the parts of the body that were accepted; \<open>None\<close> when it panics.\<close>

fun run_handler :: "fh_env \<Rightarrow> hop list \<Rightarrow> response \<Rightarrow> string \<Rightarrow> (response \<times> string) option" where
  "run_handler env [] w B = Some (w, B)"
| "run_handler env (Set_Header h # ops) w B = run_handler env ops (w\<lparr>r_header := h\<rparr>) B"
| "run_handler env (Do_WriteHeader code # ops) w B =
     (case WriteHeader code w of None \<Rightarrow> None | Some w1 \<Rightarrow> run_handler env ops w1 B)"
| "run_handler env (Do_Write p # ops) w B =
     (let (n, err, w1) = fh_Write env p w in run_handler env ops w1 (if err = None then B @ p else B))"

definition room :: "response \<Rightarrow> string \<Rightarrow> bool" where
  "room w B \<longleftrightarrow> (let d = declared_length (r_committed w) in
     if d \<ge> 0 then r_remaining w = d - int (length B) \<and> int (length B) \<le> d else r_remaining w < 0)"

definition answering :: "fh_request \<Rightarrow> string \<Rightarrow> response \<Rightarrow> string \<Rightarrow> bool" where
  "answering q pre w B \<longleftrightarrow> r_req w = q \<and> calm w \<and> length (r_body w) \<le> maxBufferedBody \<and>
     (if r_wroteHeader w
      then room w B \<and> (\<exists>C. C @ r_body w = B \<and> (begun pre w \<and> C = [] \<or> sent pre w C \<and> r_body w \<noteq> []))
      else \<not> r_streamed w \<and> all_out w = pre \<and> r_body w = [] \<and> B = [])"

lemma answering_commit:
  assumes "answering q pre w B" and "\<not> r_wroteHeader w"
  shows "answering q pre (commitHeader (w\<lparr>r_wroteHeader := True, r_status := code\<rparr>)) B"
proof -
  let ?w = "w\<lparr>r_wroteHeader := True, r_status := code\<rparr>"
  obtain l c where l: "commitHeader ?w = ?w\<lparr>r_out := r_out ?w @ l, r_committed := c, r_remaining := declared_length c\<rparr>" "header_lines l" "l \<noteq> []"
    using commitHeader_lines by blast
  have "begun pre (commitHeader ?w)" using assms l by (auto simp: answering_def begun_def all_out_def)
  moreover have "room (commitHeader ?w) []" using l(1) by (simp add: room_def)
  ultimately show ?thesis using assms l(1) by (simp add: answering_def calm_def)
qed

lemma answering_default: "answering q pre w B \<Longrightarrow> answering q pre (default_header w) B \<and> r_wroteHeader (default_header w)"
proof (cases "r_wroteHeader w")
  case False
  obtain l c where "commitHeader (w\<lparr>r_wroteHeader := True, r_status := 200\<rparr>) =
      w\<lparr>r_wroteHeader := True, r_status := 200, r_out := r_out w @ l, r_committed := c, r_remaining := declared_length c\<rparr>"
    using commitHeader_lines [of "w\<lparr>r_wroteHeader := True, r_status := 200\<rparr>"] by auto
  with False show "answering q pre w B \<Longrightarrow> answering q pre (default_header w) B \<and> r_wroteHeader (default_header w)"
    using answering_commit [of q pre w B 200] by (simp add: default_header_def)
qed (simp add: default_header_def)

lemma room_cong: "same_head w w' \<Longrightarrow> room w' B = room w B"
  by (simp add: same_head_def room_def)

lemma room_body [simp]: "room (w\<lparr>r_body := b\<rparr>) B = room w B"
  by (simp add: room_def)

lemma begun_cong:
  "begun pre (w\<lparr>r_remaining := x\<rparr>) = begun pre w" "sent pre (w\<lparr>r_remaining := x\<rparr>) C = sent pre w C"
proof -
  have "head_out P True (w\<lparr>r_remaining := x\<rparr>) = head_out P True w" for P by (rule head_out_cong) simp_all
  then show "begun pre (w\<lparr>r_remaining := x\<rparr>) = begun pre w" "sent pre (w\<lparr>r_remaining := x\<rparr>) C = sent pre w C"
    by (simp_all add: begun_def sent_def all_out_def content_out_def)
qed

lemma header_cong:
  "begun pre (w\<lparr>r_header := h\<rparr>) = begun pre w" "sent pre (w\<lparr>r_header := h\<rparr>) C = sent pre w C" "room (w\<lparr>r_header := h\<rparr>) B = room w B"
proof -
  have "head_out P True (w\<lparr>r_header := h\<rparr>) = head_out P True w" for P by (rule head_out_cong) simp_all
  then show "begun pre (w\<lparr>r_header := h\<rparr>) = begun pre w" "sent pre (w\<lparr>r_header := h\<rparr>) C = sent pre w C"
      "room (w\<lparr>r_header := h\<rparr>) B = room w B"
    by (simp_all add: begun_def sent_def all_out_def content_out_def room_def)
qed

lemma beforeWrite_answering:
  assumes "answering q pre w B" and "beforeWrite n w = (err, w')"
  shows "err = None \<Longrightarrow> answering q pre (w'\<lparr>r_remaining := r_remaining (default_header w)\<rparr>) B \<and> r_wroteHeader w' \<and>
      (\<forall>p. length p = n \<longrightarrow> room w' (B @ p))"
    and "err \<noteq> None \<Longrightarrow> answering q pre w' B"
proof -
  define v where "v = default_header w"
  have v: "answering q pre v B" "r_wroteHeader v" using answering_default [OF assms(1)] by (simp_all add: v_def)
  have c: "r_writeErr w = None" "\<not> r_closed w" using assms(1) by (simp_all add: answering_def calm_def)
  have r: "room v B" using v by (simp add: answering_def)
  have "w'\<lparr>r_remaining := r_remaining v\<rparr> = v" if "err = None"
    using that assms(2) c by (auto simp: beforeWrite_def Let_def v_def [symmetric] split: if_split_asm)
  moreover have "r_wroteHeader w'" "\<forall>p. length p = n \<longrightarrow> room w' (B @ p)" if "err = None"
    using that assms(2) c v(2) r by (auto simp: beforeWrite_def Let_def v_def [symmetric] room_def split: if_split_asm)
  ultimately show "err = None \<Longrightarrow> answering q pre (w'\<lparr>r_remaining := r_remaining (default_header w)\<rparr>) B \<and> r_wroteHeader w' \<and>
      (\<forall>p. length p = n \<longrightarrow> room w' (B @ p))"
    using v(1) by (simp add: v_def)
  show "err \<noteq> None \<Longrightarrow> answering q pre w' B"
    using assms(2) c v by (auto simp: beforeWrite_def Let_def v_def [symmetric] split: if_split_asm)
qed

lemma Write_answering:
  assumes env: "env_ok env" and w: "answering q pre w B" and wr: "fh_Write env p w = (n, err, w')"
  shows "answering q pre w' (if err = None then B @ p else B)"
proof -
  obtain e w1 where bw: "beforeWrite (length p) w = (e, w1)" by (metis surj_pair)
  show ?thesis
  proof (cases "e = None")
    case False
    then show ?thesis using beforeWrite_answering(2) [OF w bw] wr bw by (auto simp: fh_Write_def)
  next
    case True
    note b = beforeWrite_answering(1) [OF w bw True]
    then obtain C where C: "C @ r_body w1 = B" "begun pre w1 \<and> C = [] \<or> sent pre w1 C \<and> r_body w1 \<noteq> []"
        and c: "calm w1" "length (r_body w1) \<le> maxBufferedBody" and r: "room w1 (B @ p)" and wh: "r_wroteHeader w1" and rq: "r_req w1 = q"
      by (auto simp: answering_def begun_cong calm_def)
    show ?thesis
    proof (cases "length (r_body w1) + length p > maxBufferedBody")
      case False
      then have "err = None" "w' = w1\<lparr>r_body := r_body w1 @ p\<rparr>" using wr bw True by (auto simp: fh_Write_def)
      then show ?thesis using C c wh rq r False by (auto simp: answering_def calm_def)
    next
      case long: True
      have "r_streamed w1 \<and> sent pre w1 C \<or> begun pre w1 \<and> C = []" using C(2) by (auto simp: sent_def)
      from stream_loop_sent [OF env c this long]
      obtain rest u C' where u: "stream_loop env p w1 = (rest, None, u)" "calm u" "sent pre u C'" "same_head w1 u" "r_body u = []"
          "C' @ rest = C @ r_body w1 @ p" "rest \<noteq> []" "length rest \<le> maxBufferedBody" by blast
      have "err = None" "w' = u\<lparr>r_body := rest\<rparr>" using wr bw True long u by (auto simp: fh_Write_def stream_def)
      moreover have "room u (B @ p)" using r room_cong [OF u(4)] by simp
      moreover have "C' @ rest = B @ p" using u(6) C(1) by (metis append.assoc)
      ultimately show ?thesis using u wh rq by (auto simp: answering_def calm_def same_head_def)
    qed
  qed
qed

lemma run_handler_answering:
  "env_ok env \<Longrightarrow> answering q pre w B \<Longrightarrow> run_handler env ops w B = Some (w', B') \<Longrightarrow> answering q pre w' B'"
proof (induction env ops w B rule: run_handler.induct)
  case (2 env h ops w B)
  have "answering q pre (w\<lparr>r_header := h\<rparr>) B"
    using "2.prems"(2) by (auto simp: answering_def calm_def header_cong all_out_def split: if_split_asm)
  with 2 show ?case by simp
next
  case (3 env code ops w B)
  then obtain w1 where w1: "WriteHeader code w = Some w1" by (cases "WriteHeader code w") simp_all
  then have "answering q pre w1 B" using "3.prems"(2) answering_commit by (auto simp: WriteHeader_def split: if_split_asm)
  with 3 w1 show ?case by simp
next
  case (4 env p ops w B)
  obtain n err w1 where w1: "fh_Write env p w = (n, err, w1)" by (metis prod_cases3)
  from 4 w1 Write_answering [OF "4.prems"(1,2) w1] show ?case by simp
qed simp

section \<open>The response as a whole\<close>

text \<open>
  How the client tells where the content ends, from the header block \<open>H\<close>: \<open>B\<close> is what the handler wrote and \<open>E\<close> what
  follows the header.
\<close>

definition has_line :: "string \<Rightarrow> string \<Rightarrow> bool" where
  "has_line H l \<longleftrightarrow> (\<exists>a b. H = a @ l @ CRLF @ b)"

definition delimited :: "string \<Rightarrow> string \<Rightarrow> string \<Rightarrow> bool \<Rightarrow> response \<Rightarrow> bool" where
  "delimited H B E keep w \<longleftrightarrow>
     (let d = declared_length (r_committed w) in
      if req_method (r_req w) = ''HEAD'' \<or> \<not> bodyAllowed w \<or> r_status w = 205 then E = []
      else if d \<ge> 0 then E = B \<and> int (length B) \<le> d \<and> (keep \<longrightarrow> int (length B) = d) \<and> has_line H (''Content-Length: '' @ strconv_AppendInt d 10)
      else if \<not> r_streamed w then E = B \<and> has_line H (''Content-Length: '' @ strconv_AppendInt (int (length B)) 10)
      else if http11 (r_req w) then has_line H ''Transfer-Encoding: chunked'' \<and>
        chunked_body E \<and> (\<exists>ps. E = concat (map chunk ps) @ ''0'' @ CRLF @ CRLF \<and> concat ps = B)
      else E = B \<and> \<not> keep)"

lemma hex_from_append: "hex_from z (a @ b) = hex_from (hex_from z a) b"
  by (simp add: hex_from_def)

lemma hex_from_digits: "hex_from 0 (digits_of 16 n) = n"
proof (induction "16 :: nat" n rule: digits_of.induct)
  case (1 n)
  have d: "hex_from z [digit_char (n mod 16)] = z * 16 + n mod 16" for z by (simp add: hex_from_def hex_digit_char)
  show ?case
  proof (cases "n < 16")
    case True
    then show ?thesis using d [of 0] by (subst digits_of.simps) simp
  next
    case False
    then have "hex_from 0 (digits_of 16 (n div 16)) = n div 16" using 1 by simp
    then show ?thesis using False d by (subst digits_of.simps) (simp add: hex_from_append Let_def)
  qed
qed

lemma length_digits: "n < 16 ^ Suc k \<Longrightarrow> length (digits_of 16 n) \<le> Suc k"
proof (induction k arbitrary: n)
  case 0
  then show ?case by (subst digits_of.simps) (simp add: Let_def)
next
  case (Suc k)
  have "n div 16 < 16 ^ Suc k" using Suc.prems by (simp add: less_mult_imp_div_less mult.commute)
  then show ?case using Suc.IH [of "n div 16"] by (subst digits_of.simps) (simp add: Let_def)
qed

lemma size_digits_of: "n \<le> maxBufferedBody \<Longrightarrow> size_digits (digits_of 16 n)"
proof -
  assume "n \<le> maxBufferedBody"
  then have "length (digits_of 16 n) \<le> Suc 6" by (intro length_digits) (simp add: maxBufferedBody_def)
  moreover have "list_all (\<lambda>c. hex_digit c \<noteq> None) (digits_of 16 n)"
    using digits_of_digits [of 16 n] hex_digit_char by (fastforce simp: list_all_iff)
  ultimately show ?thesis using digits_of_ne by (simp add: size_digits_def)
qed

lemma chunked_body_chunks:
  "list_all (\<lambda>p. p \<noteq> [] \<and> length p \<le> maxBufferedBody) ps \<Longrightarrow> chunked_body (concat (map chunk ps) @ ''0'' @ CRLF @ CRLF)"
proof (induction ps)
  case Nil
  have "size_digits ''0''" "hex_from 0 ''0'' = 0" by (simp_all add: size_digits_def hex_from_def hex_digit_def ord_def)
  then show ?case using chunked_body.last_chunk [of "''0''"] by simp
next
  case (Cons p ps)
  then show ?case using chunked_body.data_chunk [OF size_digits_of hex_from_digits, of p] by (simp add: chunk_def)
qed

lemma default_header_frame:
  "r_body (default_header w) = r_body w" "r_streamed (default_header w) = r_streamed w" "r_writeErr (default_header w) = r_writeErr w"
  using commitHeader_lines [of "w\<lparr>r_wroteHeader := True, r_status := 200\<rparr>"] by (auto simp: default_header_def)

text \<open>The state in which \<^verbatim>\<open>finish\<close> decides how to end the body.\<close>

definition ending_of :: "response \<Rightarrow> string" where
  "ending_of v =
     (if discardBody (r_bodyWriting v) then []
      else if r_remaining v > 0 then r_body v
      else if bw_chunked (r_bodyWriting v) then chunk (r_body v) @ ''0'' @ CRLF @ CRLF
      else r_body v)"

lemma finish_out:
  assumes "calm w" and "v = (if \<not> r_streamed w then writeHeader env (r_body w) False w else w)" and "calm v" and "finish env w = (keep, w')"
  shows "all_out w' = all_out v @ ending_of v \<and> keep = (keepAlive (r_bodyWriting v) \<and> (discardBody (r_bodyWriting v) \<or> r_remaining v \<le> 0))
     \<and> same_head v w' \<and> r_streamed w' = r_streamed v \<and> r_bodyWriting w' = r_bodyWriting v \<and> calm w'"
proof -
  define tail where "tail = (if \<not> discardBody (r_bodyWriting v) \<and> \<not> r_remaining v > 0 \<and> bw_chunked (r_bodyWriting v)
    then digits_of 16 (length (r_body v)) @ CRLF else [])"
  define body where "body = (if discardBody (r_bodyWriting v) then [] else r_body v)"
  define ending where "ending = (if tail \<noteq> [] then lastChunk else [])"
  define k where "k = (keepAlive (r_bodyWriting v) \<and> (discardBody (r_bodyWriting v) \<or> r_remaining v \<le> 0))"
  define w1 where "w1 = v\<lparr>r_out := r_out v @ tail\<rparr>"
  define w2 where "w2 = (if length body > maxCopiedBody then w1\<lparr>r_wire := r_wire v @ r_out v @ tail @ body @ ending, r_out := []\<rparr>
    else w1\<lparr>r_out := r_out v @ tail @ body @ ending\<rparr>)"
  define w5 where "w5 = (if length (r_out w2) \<ge> maxBufferedOutput then w2\<lparr>r_wire := r_wire w2 @ r_out w2, r_out := []\<rparr> else w2)"
  have io: "r_io v = []" "r_writeErr v = None" "r_writeErr w = None" using assms(1,3) by (simp_all add: calm_def)
  have tl: "body_end v = (body, ending, k, w1)"
    by (auto simp: body_end_def Let_def body_def ending_def k_def w1_def tail_def appendChunkSize_def strconv_AppendInt_def digits_of_ne)
  have io2: "r_io w2 = []" "r_writeErr w2 = None" using io by (simp_all add: w2_def w1_def)
  have "write_end body ending w1 = (if length (r_out w2) \<ge> maxBufferedOutput then snd (flush w2) else w2)"
    using io by (simp add: write_end_def conn_Write_calm w1_def w2_def Let_def)
  also have "\<dots> = w5" using io2 by (simp add: flush_def conn_Write_calm w5_def Let_def maxBufferedOutput_def)
  finally have "finish env w = (k \<and> r_writeErr w5 = None, w5)"
    using io(3) tl by (simp add: finish_def assms(2) [symmetric])
  moreover have "r_writeErr w5 = None" using io2 by (simp add: w5_def)
  ultimately have f: "keep = k" "w' = w5" using assms(4) by auto
  have "ending_of v = tail @ body @ ending"
    by (auto simp: ending_of_def tail_def body_def ending_def chunk_def lastChunk_def digits_of_ne)
  then have "all_out w' = all_out v @ ending_of v" by (simp add: f(2) w5_def w2_def w1_def all_out_def)
  then show ?thesis using f assms(3) by (simp add: k_def w5_def w2_def w1_def same_head_def calm_def)
qed

lemma finish_start:
  assumes env: "env_ok env" and w: "answering q pre w B" and v: "v = (if \<not> r_streamed w then writeHeader env (r_body w) False w else w)"
  shows "\<exists>P E C. all_out v = pre @ P @ CRLF @ E \<and> head_out P (r_streamed v) v \<and> calm v \<and> r_req v = q \<and> room v B
     \<and> content_out v C E \<and> (r_streamed v \<longrightarrow> r_body v \<noteq> [] \<and> length (r_body v) \<le> maxBufferedBody) \<and> (r_status v = 205 \<or> C @ r_body v = B) \<and> (\<not> r_streamed v \<longrightarrow> C = [])"
proof (cases "r_streamed w")
  case True
  then obtain C where "calm w" "r_req w = q" "room w B" "C @ r_body w = B" "sent pre w C" "r_body w \<noteq> []" "length (r_body w) \<le> maxBufferedBody"
    using w by (auto simp: answering_def begun_def split: if_split_asm)
  with True v show ?thesis by (auto simp: sent_def)
next
  case False
  define u where "u = default_header w"
  have u: "answering q pre u B" "r_wroteHeader u" "r_body u = r_body w" "\<not> r_streamed u"
    using answering_default [OF w] False by (simp_all add: u_def default_header_frame)
  then have b: "begun pre u" "r_body u = B" "calm u" "r_req u = q" "room u B" by (auto simp: answering_def sent_def)
  have vu: "v = writeHeader env (r_body u) False u" using v False u writeHeader_default [OF u(2) u_def] by simp
  obtain P where P: "all_out v = pre @ P @ CRLF" "head_out P False v" "\<not> r_streamed v" "same_head u v"
      "r_body v = (if r_status u = 205 then [] else r_body u)" "calm v"
    using head_out_headed [OF env b(1), of "r_body u" False] b(3) vu by auto
  then show ?thesis using b content_out_Nil [of v] room_cong [OF P(4), of B]
    by (intro exI [of _ P] exI [of _ "[]"]) (auto simp: same_head_def)
qed

lemma finish_delimited:
  assumes env: "env_ok env" and w: "answering q pre w B" and f: "finish env w = (keep, w')"
  shows "\<exists>P E. all_out w' = pre @ P @ CRLF @ E \<and> header_lines P \<and> P \<noteq> [] \<and> delimited P B E keep w' \<and> r_req w' = q"
proof -
  define v where "v = (if \<not> r_streamed w then writeHeader env (r_body w) False w else w)"
  obtain P E C where v: "all_out v = pre @ P @ CRLF @ E" "head_out P (r_streamed v) v" "calm v" "r_req v = q" "room v B"
      "content_out v C E" "r_streamed v \<longrightarrow> r_body v \<noteq> [] \<and> length (r_body v) \<le> maxBufferedBody" "r_status v = 205 \<or> C @ r_body v = B" "\<not> r_streamed v \<longrightarrow> C = []"
    using finish_start [OF env w v_def] by blast
  have "calm w" using w by (simp add: answering_def)
  from finish_out [OF this v_def v(3) f] have o: "all_out w' = all_out v @ ending_of v"
      "keep = (keepAlive (r_bodyWriting v) \<and> (discardBody (r_bodyWriting v) \<or> r_remaining v \<le> 0))"
      "same_head v w'" "r_streamed w' = r_streamed v" by auto
  have P: "header_lines P" "P \<noteq> []" "\<exists>a b. P = a @ length_line (r_streamed v) v @ b" "r_bodyWriting v = fst (decide_body (r_streamed v) v)"
    using v(2) by (auto simp: head_out_def)
  have ba: "bodyAllowed w' = bodyAllowed v" using o(3) by (simp add: same_head_def bodyAllowed_def)
  define d where "d = declared_length (r_committed v)"
  have dis: "discardBody (r_bodyWriting v) \<longleftrightarrow> req_method q = ''HEAD'' \<or> \<not> bodyAllowed v \<or> r_status v = 205"
    "bw_chunked (r_bodyWriting v) \<longleftrightarrow> r_streamed v \<and> \<not> discardBody (r_bodyWriting v) \<and> d < 0 \<and> http11 q"
    "r_streamed v \<and> \<not> discardBody (r_bodyWriting v) \<and> d < 0 \<and> \<not> http11 q \<Longrightarrow> \<not> keepAlive (r_bodyWriting v)"
    using P(4) v(4) by (auto simp: decide_body_def Let_def d_def)
  have rem: "d \<ge> 0 \<Longrightarrow> r_remaining v = d - int (length B) \<and> int (length B) \<le> d" "d < 0 \<Longrightarrow> r_remaining v < 0"
    using v(5) by (auto simp: room_def Let_def d_def split: if_split_asm)
  have "delimited P B (E @ ending_of v) keep w'"
  proof (cases "discardBody (r_bodyWriting v)")
    case True
    then have "E @ ending_of v = []" using v(6) by (simp add: content_out_def ending_of_def)
    then show ?thesis using True dis(1) ba o(3) v(4) by (auto simp: delimited_def Let_def same_head_def)
  next
    case False
    then have cb: "C @ r_body v = B" using v(8) dis(1) by auto
    have nd: "\<not> (req_method (r_req w') = ''HEAD'' \<or> \<not> bodyAllowed w' \<or> r_status w' = 205)"
      using False dis(1) ba o(3) v(4) by (auto simp: same_head_def)
    have dd: "declared_length (r_committed w') = d" "r_req w' = q" using o(3) v(4) by (simp_all add: same_head_def d_def)
    note D = delimited_def [of P B _ keep w', unfolded Let_def dd]
    obtain a b where ab: "P = a @ length_line (r_streamed v) v @ b" using P(3) by blast
    have allowed: "bodyAllowed v" "r_status v \<noteq> 205" "req_method q \<noteq> ''HEAD''" using False dis(1) by auto
    show ?thesis
    proof (cases "bw_chunked (r_bodyWriting v)")
      case True
      then have st: "r_streamed v" "d < 0" "http11 q" using dis(2) by auto
      obtain ps where ps: "E = concat (map chunk ps)" "concat ps = C" "list_all (\<lambda>p. p \<noteq> [] \<and> length p \<le> maxBufferedBody) ps"
        using v(6) True False by (auto simp: content_out_def)
      have "E @ ending_of v = concat (map chunk (ps @ [r_body v])) @ ''0'' @ CRLF @ CRLF"
        using ps(1) True False rem(2) [OF st(2)] by (simp add: ending_of_def)
      moreover have "concat (ps @ [r_body v]) = B" using ps(2) cb by simp
      moreover have "chunked_body (E @ ending_of v)"
        using calculation(1) chunked_body_chunks [of "ps @ [r_body v]"] ps(3) v(7) st(1) by (simp add: list_all_iff)
      moreover have "has_line P ''Transfer-Encoding: chunked''"
        using ab True st allowed by (auto simp: has_line_def length_line_def d_def)
      ultimately have "has_line P ''Transfer-Encoding: chunked'' \<and> chunked_body (E @ ending_of v) \<and>
          (\<exists>ps. E @ ending_of v = concat (map chunk ps) @ ''0'' @ CRLF @ CRLF \<and> concat ps = B)" by blast
      then show ?thesis using nd dd st o(4) unfolding D by simp
    next
      case nc: False
      then have "E = C" using v(6) False by (simp add: content_out_def)
      moreover have "ending_of v = r_body v" using False nc by (simp add: ending_of_def)
      ultimately have eb: "E @ ending_of v = B" using cb by simp
      have "d \<ge> 0 \<Longrightarrow> has_line P (''Content-Length: '' @ strconv_AppendInt d 10)"
        using ab allowed v(4) by (auto simp: has_line_def length_line_def appendContentLength_def d_def)
      moreover have "d < 0 \<Longrightarrow> \<not> r_streamed v \<Longrightarrow> has_line P (''Content-Length: '' @ strconv_AppendInt (int (length B)) 10)"
        using ab allowed v(4,9) cb by (auto simp: has_line_def length_line_def appendContentLength_def d_def)
      moreover have "keep \<Longrightarrow> d \<ge> 0 \<Longrightarrow> int (length B) = d" using o(2) False rem(1) by auto
      moreover have "d < 0 \<Longrightarrow> r_streamed v \<Longrightarrow> \<not> http11 q \<and> \<not> keep" using nc False dis(2,3) o(2) by auto
      ultimately show ?thesis using nd dd eb rem(1) o(4) unfolding D by auto
    qed
  qed
  then show ?thesis using o(1,3) v(1,4) P(1,2) by (intro exI [of _ P] exI [of _ "E @ ending_of v"]) (simp add: same_head_def)
qed

lemma has_line_more: "has_line P l \<Longrightarrow> has_line (P @ t) l"
  unfolding has_line_def by (metis append.assoc)

lemma delimited_more: "delimited P B E keep w \<Longrightarrow> delimited (P @ t) B E keep w"
  using has_line_more [of P _ t] by (auto simp: delimited_def Let_def)

lemma answering_start: "r_io w = [] \<Longrightarrow> \<not> r_closed w \<Longrightarrow> answering (r_req w) (r_wire w @ r_out w) (start w) []"
  by (simp add: answering_def start_def calm_def all_out_def)

section \<open>Properties\<close>


definition demo_env :: fh_env where
  "demo_env = \<lparr>date_field = ''Thu, 01 Jan 1970 00:00:00 GMT'', DetectContentType = (\<lambda>_. ''text/plain; charset=utf-8'')\<rparr>"

definition demo_response :: response where
  "demo_response = \<lparr>r_req = \<lparr>req_method = ''GET'', http11 = True, req_close = False\<rparr>, r_header = [], r_status = 0, r_writeErr = None,
     r_body = [], r_out = [], r_outStart = 0, r_remaining = - 1, r_committed = no_commit,
     r_bodyWriting = \<lparr>bw_chunked = False, discardBody = False, keepAlive = False\<rparr>,
     r_wroteHeader = False, r_upgraded = False, r_streamed = False, r_closed = False, r_wire = [], r_io = []\<rparr>"

definition demo_handler :: "hop list" where
  "demo_handler = [Set_Header [(''X-Name'', [''a'' @ CRLF @ ''b''])], Do_Write ''hello'']"

definition demo_written :: response where
  "demo_written = fst (the (run_handler demo_env demo_handler (start demo_response) []))"


end
