(* ===== verification/FhServe.thy ===== *)
theory FhServe
  imports FhConn FhAnswers
begin

text \<open>
  The callbacks of the engine and the workers of one connection, interleaved. A step is what happens while the mutex is
  held, or one call of the handler or of the connection. What the handler does is not restricted, except that it leaves
  the response alone once it has called \<^verbatim>\<open>Upgrade\<close>; the requests' bytes, the times, the results of the calls of the
  connection and of \<^verbatim>\<open>http.ReadRequest\<close> are arbitrary.
\<close>

section \<open>Steps\<close>

text \<open>
  Where a worker is: at the head of the loop of \<^verbatim>\<open>serveQueue\<close>; about to write out what was collected; about to resume
  reading, its last action; with a request just taken; in a handler that has written \<open>B\<close> so far, waiting in \<^verbatim>\<open>waitWritable\<close>
  (looking, or blocked) or in \<^verbatim>\<open>newProtocol\<close>; about to write out and close; about to close; about to close with the
  connection marked so.
\<close>

datatype wpc = W_Top | W_Flush | W_Resume | W_Take queued | W_Handler queued string | W_Wait queued string bool
  | W_Upgrade queued string | W_Upgraded queued | W_End | W_Close | W_Closing

text \<open>
  What is shared. \<open>submitted\<close> counts the tasks the Executor has and has not started; \<open>backlog\<close> is whether the send buffer
  is over its limit (\<^verbatim>\<open>Writable\<close> reports false) and \<open>due\<close> whether the engine owes \<^verbatim>\<open>OnWritable\<close>; \<open>unread\<close> is the data that
  \<^verbatim>\<open>OnData\<close> left. The rest is history: the data that arrived, the requests queued, those taken, those dropped when the
  connection closed, the answers completed, and whether a call of the connection has failed.
\<close>

record fh_sh =
  conn :: fh_conn
  submitted :: nat
  backlog :: bool
  due :: bool
  unread :: string
  arrived :: "string list"
  pushed :: "queued list"
  taken :: "queued list"
  dropped :: "queued list"
  answers :: "string list"
  failed :: bool

type_synonym fh_worker = "wpc \<times> response"

text \<open>The callbacks.\<close>

definition live :: "fh_conn \<Rightarrow> bool" where
  "live c \<longleftrightarrow> \<not> closed c \<and> \<not> detached c \<and> context_conn c"

inductive callback :: "fh_options \<Rightarrow> fh_sh \<Rightarrow> fh_sh \<Rightarrow> bool" for opts where
  cb_data: "live (conn s) \<Longrightarrow> \<not> paused (conn s) \<Longrightarrow> d \<noteq> [] \<Longrightarrow>
    onData opts now (unread s @ d) (conn s) = Some (c, items, consumed, submit) \<Longrightarrow>
    callback opts s (s\<lparr>conn := c, unread := drop consumed (unread s @ d), arrived := arrived s @ [d],
      pushed := pushed s @ map queued_of items, submitted := submitted s + (if submit then 1 else 0)\<rparr>)"
| cb_drained: "backlog s \<Longrightarrow> callback opts s (s\<lparr>backlog := False, due := True\<rparr>)"
| cb_writable: "live (conn s) \<Longrightarrow> onWritable opts now (conn s) = (c, resume) \<Longrightarrow>
    callback opts s (s\<lparr>conn := c, due := False, submitted := submitted s + (if resume then 1 else 0)\<rparr>)"
| cb_half_close: "live (conn s) \<Longrightarrow> halfClose (conn s) = (c, keep) \<Longrightarrow> callback opts s (s\<lparr>conn := c\<rparr>)"
| cb_close: "live (conn s) \<Longrightarrow> onClose (conn s) = (c, p) \<Longrightarrow> callback opts s (s\<lparr>conn := c, dropped := pending (conn s)\<rparr>)"
| cb_route: "\<not> closed (conn s) \<Longrightarrow> route (conn s) = (c, p) \<Longrightarrow> callback opts s (s\<lparr>conn := c\<rparr>)"
| cb_context: "callback opts s (s\<lparr>conn := context_of (conn s)\<rparr>)"

text \<open>The steps of a worker; its new position is none when it has ended. A call that writes may fill the send buffer.\<close>

definition after_write :: "bool \<Rightarrow> (wr_error \<times> nat) option list \<Rightarrow> fh_sh \<Rightarrow> fh_sh" where
  "after_write fill io s = s\<lparr>backlog := backlog s \<or> fill, failed := failed s \<or> io \<noteq> []\<rparr>"

inductive work :: "fh_options \<Rightarrow> fh_env \<Rightarrow> read_request \<Rightarrow> fh_sh \<Rightarrow> fh_worker \<Rightarrow> fh_sh \<Rightarrow> fh_worker option \<Rightarrow> bool"
  for opts env ReadRequest where
  wk_flush_first: "serveQueue opts now (\<not> backlog s) (r_out w \<noteq> []) (conn s) = (c, A_Flush) \<Longrightarrow>
    work opts env ReadRequest s (W_Top, w) (s\<lparr>conn := c\<rparr>) (Some (W_Flush, w))"
| wk_half_closed: "serveQueue opts now (\<not> backlog s) (r_out w \<noteq> []) (conn s) = (c, A_Close) \<Longrightarrow>
    work opts env ReadRequest s (W_Top, w) (s\<lparr>conn := c\<rparr>) (Some (W_Close, w))"
| wk_stop: "serveQueue opts now (\<not> backlog s) (r_out w \<noteq> []) (conn s) = (c, A_Stop resume) \<Longrightarrow>
    work opts env ReadRequest s (W_Top, w) (s\<lparr>conn := c\<rparr>) (if resume then Some (W_Resume, w) else None)"
| wk_wait: "serveQueue opts now (\<not> backlog s) (r_out w \<noteq> []) (conn s) = (c, A_Wait) \<Longrightarrow>
    work opts env ReadRequest s (W_Top, w) (s\<lparr>conn := c\<rparr>) None"
| wk_take: "serveQueue opts now (\<not> backlog s) (r_out w \<noteq> []) (conn s) = (c, A_Handle r) \<Longrightarrow>
    work opts env ReadRequest s (W_Top, w) (s\<lparr>conn := c, taken := taken s @ [r]\<rparr>) (Some (W_Take r, w))"
| wk_flush: "flush (load io (conn s) w) = (err, w') \<Longrightarrow>
    work opts env ReadRequest s (W_Flush, w) (after_write fill io (s\<lparr>conn := written w' (conn s)\<rparr>))
      (Some (if err = None then W_Top else W_Close, w'))"
| wk_resume: "work opts env ReadRequest s (W_Resume, w) (s\<lparr>conn := (conn s)\<lparr>paused := False\<rparr>\<rparr>) None"
| wk_kept: "handle opts now env ReadRequest ok r (conn s) (load io (conn s) w) = (c, w', Keep) \<Longrightarrow>
    work opts env ReadRequest s (W_Take r, w)
      (after_write fill io (s\<lparr>conn := written w' c, answers := answers s @ [drop (length (wire (conn s) @ r_out w)) (r_wire w' @ r_out w')]\<rparr>))
      (Some (W_Top, w'))"
| wk_refused: "handle opts now env ReadRequest ok r (conn s) (load io (conn s) w) = (c, w', Drop) \<Longrightarrow>
    work opts env ReadRequest s (W_Take r, w)
      (after_write fill io (s\<lparr>conn := written w' c, answers := answers s @ [drop (length (wire (conn s) @ r_out w)) (r_wire w' @ r_out w')]\<rparr>))
      (Some (W_End, w'))"
| wk_run: "handle opts now env ReadRequest ok r (conn s) (load io (conn s) w) = (c, w', Run) \<Longrightarrow>
    work opts env ReadRequest s (W_Take r, w) (s\<lparr>conn := c\<rparr>) (Some (W_Handler r [], w'))"
| wk_call: "run_handler env [op] (load io (conn s) w) B = Some (w', B') \<Longrightarrow>
    work opts env ReadRequest s (W_Handler r B, w) (after_write fill io (s\<lparr>conn := written w' (conn s)\<rparr>)) (Some (W_Handler r B', w'))"
| wk_wait_begin: "backlog s \<Longrightarrow>
    work opts env ReadRequest s (W_Handler r B, w) (s\<lparr>conn := wait_begin (conn s)\<rparr>) (Some (W_Wait r B False, w))"
| wk_wait_look: "work opts env ReadRequest s (W_Wait r B False, w) s
      (Some (if wait_over (\<not> backlog s) (conn s) then W_Handler r B else W_Wait r B True, w))"
| wk_wait_receive: "wait_receive (conn s) = Some c \<Longrightarrow>
    work opts env ReadRequest s (W_Wait r B True, w) (s\<lparr>conn := c\<rparr>) (Some (W_Wait r B False, w))"
| wk_wait_expired: "work opts env ReadRequest s (W_Wait r B True, w) s (Some (W_Handler r B, w))"
| wk_upgrade: "upgrade_begin (conn s) w = Some (c, w') \<Longrightarrow>
    work opts env ReadRequest s (W_Handler r B, w) (s\<lparr>conn := c\<rparr>) (Some (W_Upgrade r B, w'))"
| wk_switch: "upgrade_switch opts now env p ((conn s)\<lparr>deadline := dl\<rparr>) (load io (conn s) w) = (c, w', err) \<Longrightarrow>
    work opts env ReadRequest s (W_Upgrade r B, w) (after_write fill io (s\<lparr>conn := c\<rparr>)) (Some (W_Upgraded r, w'))"
| wk_upgrade_panic: "work opts env ReadRequest s (W_Upgrade r B, w) s (Some (W_Upgraded r, w))"
| wk_upgraded: "handled env ok (conn s) w = (c, w', keep) \<Longrightarrow>
    work opts env ReadRequest s (W_Upgraded r, w) (s\<lparr>conn := c\<rparr>) (Some (if keep then W_Top else W_End, w'))"
| wk_return: "handled env True (conn s) (load io (conn s) w) = (c, w', keep) \<Longrightarrow>
    work opts env ReadRequest s (W_Handler r B, w)
      (after_write fill io (s\<lparr>conn := written w' c, answers := answers s @ [drop (length (concat (answers s))) (r_wire w' @ r_out w')]\<rparr>))
      (Some (if keep then W_Top else W_End, w'))"
| wk_panic: "work opts env ReadRequest s (W_Handler r B, w) s (Some (W_End, handler_failed w))"
| wk_last_flush: "flush (load io (conn s) w) = (err, w') \<Longrightarrow>
    work opts env ReadRequest s (W_End, w) (after_write fill io (s\<lparr>conn := written w' (conn s)\<rparr>)) (Some (W_Close, w'))"
| wk_mark: "work opts env ReadRequest s (W_Close, w) (s\<lparr>conn := mark_closing (conn s)\<rparr>) (Some (W_Closing, w))"
| wk_close: "work opts env ReadRequest s (W_Closing, w) (s\<lparr>conn := close_conn opts now (conn s)\<rparr>) None"

inductive_cases callback_cases: "callback opts s t"
inductive_cases work_cases: "work opts env ReadRequest s (pc, w) t res"

text \<open>The whole: what is shared, and the workers.\<close>

type_synonym fh_sys = "fh_sh \<times> fh_worker list"

text \<open>A response as the pool gives it.\<close>

definition new_response :: response where
  "new_response = \<lparr>r_req = \<lparr>req_method = [], http11 = False, req_close = False\<rparr>, r_header = [], r_status = 0, r_writeErr = None,
     r_body = [], r_out = [], r_outStart = 0, r_remaining = 0,
     r_committed = \<lparr>connection_values = None, declared_length = 0, hasType = False, hasDate = False, encoded = False, ch_closing = False\<rparr>,
     r_bodyWriting = \<lparr>bw_chunked = False, discardBody = False, keepAlive = False\<rparr>,
     r_wroteHeader = False, r_upgraded = False, r_streamed = False, r_closed = False, r_wire = [], r_io = []\<rparr>"

inductive fh_step :: "fh_options \<Rightarrow> fh_env \<Rightarrow> read_request \<Rightarrow> fh_sys \<Rightarrow> fh_sys \<Rightarrow> bool" for opts env ReadRequest where
  fs_callback: "callback opts s s' \<Longrightarrow> fh_step opts env ReadRequest (s, ws) (s', ws)"
| fs_start: "submitted s > 0 \<Longrightarrow>
    fh_step opts env ReadRequest (s, ws) (s\<lparr>submitted := submitted s - 1\<rparr>, (W_Top, new_response) # ws)"
| fs_work: "work opts env ReadRequest s x s' res \<Longrightarrow>
    fh_step opts env ReadRequest (s, us @ x # vs) (s', us @ (case res of None \<Rightarrow> [] | Some y \<Rightarrow> [y]) @ vs)"

inductive_cases fh_step_cases: "fh_step opts env ReadRequest st st'"

definition fh_init :: "fh_options \<Rightarrow> fh_sys \<Rightarrow> bool" where
  "fh_init opts st \<longleftrightarrow> (\<exists>now. st = (\<lparr>conn = OnOpen opts now, submitted = 0, backlog = False, due = False, unread = [], arrived = [],
     pushed = [], taken = [], dropped = [], answers = [], failed = False\<rparr>, []))"

end
