(* ===== verification/FhControl.thy ===== *)
theory FhControl
  imports FhServe
begin

text \<open>
  Who serves a connection: at most one worker, and always one while there is something to do. The invariant has a part
  about what is shared and a part about the position of the worker, if there is one.
\<close>

section \<open>The queue\<close>

lemma i32_add [simp]: "i32 (i32 a + b) = i32 (a + b)" "i32 (a + i32 b) = i32 (a + b)"
  by (simp_all add: i32_def mod_simps algebra_simps)

lemma i32_diff [simp]: "i32 (i32 a - b) = i32 (a - b)" "i32 (a - i32 b) = i32 (a - b)"
proof -
  show "i32 (i32 a - b) = i32 (a - b)" using i32_add(1) [of a "- b"] by simp
  have "(a - ((b + 2 ^ 31) mod 2 ^ 32 - 2 ^ 31) + 2 ^ 31) mod 2 ^ 32 = (a - b + 2 ^ 31) mod (2 ^ 32 :: int)"
    by (simp add: mod_simps algebra_simps)
  then show "i32 (a - i32 b) = i32 (a - b)" by (simp add: i32_def)
qed

definition bytes_of :: "queued list \<Rightarrow> int" where
  "bytes_of rs = sum_list (map (\<lambda>r. int (length (rq_msg r))) rs)"

lemma bytes_of_simps [simp]: "bytes_of [] = 0" "bytes_of (r # rs) = int (length (rq_msg r)) + bytes_of rs"
    "bytes_of (rs @ qs) = bytes_of rs + bytes_of qs"
  by (simp_all add: bytes_of_def)

lemma fold_push:
  "queuedBytes c = i32 S \<Longrightarrow>
     fold push items c = c\<lparr>queue := queue c @ map queued_of items, queuedBytes := i32 (S + bytes_of (map queued_of items))\<rparr>"
proof (induction items arbitrary: c S)
  case (Cons i items)
  let ?n = "int (length (rq_msg (queued_of i)))"
  have "queuedBytes (push i c) = i32 (S + ?n)" using Cons.prems by (simp add: push_def Let_def)
  from Cons.IH [OF this] show ?case by (simp add: push_def Let_def add.assoc)
qed simp

definition queue_ok :: "fh_conn \<Rightarrow> bool" where
  "queue_ok c \<longleftrightarrow> (queue c = [] \<and> head c = 0 \<or> head c < length (queue c)) \<and> queuedBytes c = i32 (bytes_of (pending c))"

lemma queue_ok_empty: "queue_ok c \<Longrightarrow> pending c = [] \<longleftrightarrow> queue c = []"
  by (auto simp: queue_ok_def pending_def)

lemma pop_pending:
  assumes "queue_ok c" and "queue c \<noteq> []" and "pop c = (r, c')"
  shows "pending c = r # pending c'" and "queue_ok c'"
    and "c' = c\<lparr>queue := queue c', head := head c', queuedBytes := queuedBytes c'\<rparr>"
proof -
  have h: "head c < length (queue c)" using assms(1,2) by (auto simp: queue_ok_def)
  then have d: "pending c = queue c ! head c # drop (head c + 1) (queue c)" by (simp add: pending_def Cons_nth_drop_Suc)
  have r: "r = queue c ! head c" using assms(3) by (simp add: pop_def Let_def)
  have p: "pending c' = drop (head c + 1) (queue c)" using assms(3) h by (auto simp: pop_def Let_def pending_def)
  show "pending c = r # pending c'" using d r p by simp
  have "queuedBytes c' = i32 (queuedBytes c - int (length (rq_msg r)))" using assms(3) by (auto simp: pop_def Let_def)
  then have "queuedBytes c' = i32 (bytes_of (pending c'))" using assms(1) d r p by (simp add: queue_ok_def)
  moreover have "queue c' = [] \<and> head c' = 0 \<or> head c' < length (queue c')"
    using assms(3) h by (auto simp: pop_def Let_def split: if_split_asm)
  ultimately show "queue_ok c'" by (simp add: queue_ok_def)
  show "c' = c\<lparr>queue := queue c', head := head c', queuedBytes := queuedBytes c'\<rparr>"
    using assms(3) by (auto simp: pop_def Let_def)
qed

section \<open>The invariant\<close>

text \<open>An item after which the connection ends: a status that is not 100 Continue, or the hand-off.\<close>

definition final :: "queued \<Rightarrow> bool" where
  "final r \<longleftrightarrow> rq_status r \<noteq> 0 \<and> rq_status r \<noteq> 100"

definition timed :: "int \<Rightarrow> int \<Rightarrow> bool" where
  "timed dl timeout \<longleftrightarrow> (\<exists>t. dl = DeadlineAfter t timeout)"

definition queue_inv :: "fh_sh \<Rightarrow> bool" where
  "queue_inv s \<longleftrightarrow>
     (let c = conn s in
      queue_ok c \<and> pushed s = taken s @ pending c @ dropped s \<and> (\<not> closed c \<longrightarrow> dropped s = []) \<and>
      (closed c \<or> protocol c \<noteq> None \<longrightarrow> pending c = []))"

definition shared_inv :: "fh_options \<Rightarrow> fh_sh \<Rightarrow> bool" where
  "shared_inv opts s \<longleftrightarrow>
     (let c = conn s in
      (pending c \<noteq> [] \<longrightarrow> worker c \<noteq> WorkerIdle) \<and>
      (worker c = WorkerWaiting \<and> \<not> closed c \<longrightarrow> pending c \<noteq> [] \<and> (backlog s \<or> due s)) \<and>
      (worker c = WorkerWaiting \<longrightarrow> protocol c = None) \<and>
      (readPaused c \<longrightarrow> paused c \<and> worker c \<noteq> WorkerIdle \<and> protocol c = None) \<and>
      ((\<exists>r\<in>set (taken s). final r) \<longrightarrow> worker c = WorkerServing \<or> worker c = WorkerClosing) \<and>
      (broken c \<longrightarrow> (\<exists>r\<in>set (pushed s). final r) \<or> protocol c \<noteq> None) \<and>
      (protocol c = None \<longrightarrow>
         (worker c = WorkerIdle \<longrightarrow> timed (deadline c) (if partial c then ReadHeaderTimeout opts else IdleTimeout opts)) \<and>
         (worker c = WorkerWaiting \<longrightarrow> timed (deadline c) (IdleTimeout opts))))"

text \<open>Reading is paused for a reason.\<close>

definition pause_inv :: "fh_sh \<Rightarrow> bool" where
  "pause_inv s \<longleftrightarrow> (paused (conn s) \<longrightarrow> readPaused (conn s) \<or> (\<exists>r\<in>set (pushed s). final r))"

text \<open>The requests before the one being handled, if any, are not final; no deadline runs while a request is handled.\<close>

definition busy :: "fh_sh \<Rightarrow> queued list \<Rightarrow> bool" where
  "busy s done \<longleftrightarrow> worker (conn s) = WorkerServing \<and> pause_inv s \<and> (\<forall>r\<in>set done. \<not> final r) \<and>
     (protocol (conn s) = None \<longrightarrow> deadline (conn s) = 0)"

fun worker_inv :: "fh_sh \<Rightarrow> fh_worker \<Rightarrow> bool" where
  "worker_inv s (W_Top, w) \<longleftrightarrow> busy s (taken s)"
| "worker_inv s (W_Flush, w) \<longleftrightarrow> busy s (taken s)"
| "worker_inv s (W_Resume, w) \<longleftrightarrow> worker (conn s) = WorkerIdle \<and> paused (conn s)"
| "worker_inv s (W_Take r, w) \<longleftrightarrow> busy s (butlast (taken s)) \<and> taken s \<noteq> [] \<and> last (taken s) = r \<and> protocol (conn s) = None"
| "worker_inv s (W_Handler r B, w) \<longleftrightarrow> busy s (taken s) \<and> protocol (conn s) = None \<and> \<not> r_upgraded w"
| "worker_inv s (W_Wait r B blocked, w) \<longleftrightarrow> busy s (taken s) \<and> protocol (conn s) = None \<and> \<not> r_upgraded w \<and> signal (conn s) \<noteq> None \<and>
     (blocked \<longrightarrow> (backlog s \<or> due s \<or> signal (conn s) = Some True) \<and> (closed (conn s) \<longrightarrow> signal (conn s) = Some True))"
| "worker_inv s (W_Upgrade r B, w) \<longleftrightarrow> busy s (taken s) \<and> protocol (conn s) = None \<and> r_upgraded w \<and>
     (readPaused (conn s) \<longrightarrow> pending (conn s) \<noteq> [] \<or> closed (conn s))"
| "worker_inv s (W_Upgraded r, w) \<longleftrightarrow> worker (conn s) = WorkerServing \<and> pause_inv s \<and> (\<forall>r\<in>set (taken s). \<not> final r) \<and> r_upgraded w"
| "worker_inv s (W_End, w) \<longleftrightarrow> worker (conn s) = WorkerServing"
| "worker_inv s (W_Close, w) \<longleftrightarrow> worker (conn s) = WorkerServing"
| "worker_inv s (W_Closing, w) \<longleftrightarrow> worker (conn s) = WorkerClosing"

definition fh_inv :: "fh_options \<Rightarrow> fh_sys \<Rightarrow> bool" where
  "fh_inv opts st \<longleftrightarrow>
     (let (s, ws) = st in
      queue_inv s \<and> shared_inv opts s \<and>
      (case ws of
         [] \<Rightarrow> submitted s = (if worker (conn s) = WorkerServing then 1 else 0) \<and>
          (if worker (conn s) = WorkerClosing then close_called (conn s) else pause_inv s) \<and>
           (worker (conn s) = WorkerServing \<longrightarrow> busy s (taken s))
       | [x] \<Rightarrow> submitted s = 0 \<and> worker_inv s x
       | _ \<Rightarrow> False))"


section \<open>What the operations do\<close>

lemma split_loop_end:
  assumes "split_loop data opts f consumed items = Some (f1, items', n, e)" and "e \<noteq> 0"
  shows "Status e \<in> set items' \<and> e \<noteq> 100"
proof -
  have "case (f1, items', n, e) of (f1, items', n, e) \<Rightarrow> e \<noteq> 0 \<longrightarrow> Status e \<in> set items' \<and> e \<noteq> 100"
  proof (rule split_loop.raw_induct [where P = "\<lambda>data opts f consumed items y.
      case y of (f1, items', n, e) \<Rightarrow> e \<noteq> 0 \<longrightarrow> Status e \<in> set items' \<and> e \<noteq> 100", OF _ assms(1)], goal_cases)
    case (1 sl data opts f consumed items y)
    from 1(2) show ?case
      by (auto simp: Let_def dest: 1(1) split: if_split_asm option.split_asm prod.split_asm sum.split_asm)
  qed
  with assms(2) show ?thesis by simp
qed

lemma fr_split_end:
  "fr_split data opts f = Some (f1, items, n, e) \<Longrightarrow> e \<noteq> 0 \<Longrightarrow> \<exists>r\<in>queued_of ` set items. final r"
  using split_loop_end [of data opts f 0 "[]" f1 items n e]
  by (auto simp: fr_split_def final_def queued_of_def intro!: bexI [of _ "Status e"])

lemma full_queue: "queue_ok c \<Longrightarrow> full c \<Longrightarrow> pending c \<noteq> []"
proof
  assume "queue_ok c" "full c" "pending c = []"
  then have "queuedBytes c = 0" "queue c = []" by (auto simp: queue_ok_def pending_def i32_def)
  with \<open>full c\<close> show False by (simp add: full_def maxPipeline_def maxQueuedBytes_def)
qed

lemma push_items:
  assumes "queue_ok c"
  shows "queue_ok (fold push items c)" "pending (fold push items c) = pending c @ map queued_of items"
    "fold push items c = c\<lparr>queue := queue (fold push items c), queuedBytes := queuedBytes (fold push items c)\<rparr>"
proof -
  have q: "queuedBytes c = i32 (bytes_of (pending c))" using assms by (simp add: queue_ok_def)
  note f = fold_push [OF q, of items]
  have h: "head c \<le> length (queue c)" using assms by (auto simp: queue_ok_def)
  show p: "pending (fold push items c) = pending c @ map queued_of items" using h by (simp add: f pending_def)
  show "queue_ok (fold push items c)" using assms p by (auto simp: f queue_ok_def)
  show "fold push items c = c\<lparr>queue := queue (fold push items c), queuedBytes := queuedBytes (fold push items c)\<rparr>" by (simp add: f)
qed

lemma setDeadline_only: "setDeadline opts now c = c\<lparr>deadline := deadline (setDeadline opts now c)\<rparr>"
  by (simp add: setDeadline_def SetDeadline_def Let_def)

definition timeout_of :: "fh_options \<Rightarrow> fh_conn \<Rightarrow> int" where
  "timeout_of opts c = (if worker c = WorkerServing then 0 else if worker c = WorkerIdle \<and> partial c then ReadHeaderTimeout opts else IdleTimeout opts)"

lemma setDeadline_timed:
  "worker c \<noteq> WorkerClosing \<Longrightarrow> protocol c = None \<Longrightarrow> timed (deadline (setDeadline opts now c)) (timeout_of opts c)"
  by (auto simp: setDeadline_def SetDeadline_def Let_def timed_def timeout_of_def)

lemma timed_0 [simp]: "timed dl 0 \<longleftrightarrow> dl = 0"
  by (simp add: timed_def DeadlineAfter_def)


text \<open>What the invariant depends on and most operations leave alone.\<close>

definition same_core :: "fh_conn \<Rightarrow> fh_conn \<Rightarrow> bool" where
  "same_core c c' \<longleftrightarrow> queue c' = queue c \<and> head c' = head c \<and> queuedBytes c' = queuedBytes c \<and> protocol c' = protocol c \<and>
     (close_called c \<longrightarrow> close_called c') \<and> worker c' = worker c \<and> partial c' = partial c \<and> readPaused c' = readPaused c \<and> closed c' = closed c \<and>
     paused c' = paused c \<and> fc_framer c' = fc_framer c"

lemma same_core_refl [simp]: "same_core c c"
  by (simp add: same_core_def)

lemma same_core_queue: "same_core c c' \<Longrightarrow> pending c' = pending c \<and> queue_ok c' = queue_ok c"
  by (simp add: same_core_def pending_def queue_ok_def)

lemma onData_effect:
  assumes q: "queue_ok c" and on: "onData opts now data c = Some (c', items, n, submit)"
  obtains (ignored) "broken c \<or> protocol c \<noteq> None" "items = []" "\<not> submit" "same_core c c'" "signal c' = signal c" "deadline c' = deadline c" "wire c' = wire c"
  | (framed) f e F where "\<not> broken c" "protocol c = None" "fr_split data opts (fc_framer c) = Some (f, items, n, e)"
      "queue_ok c'" "pending c' = pending c @ map queued_of items" "submit \<longleftrightarrow> items \<noteq> [] \<and> worker c = WorkerIdle"
      "fc_framer c' = f" "worker c' = (if submit then WorkerServing else worker c)" "readPaused c' = (readPaused c \<or> F)"
      "paused c' = (paused c \<or> e = statusHandoff \<or> F)" "broken c' = (e \<noteq> 0 \<and> e \<noteq> statusHandoff)"
      "closed c' = closed c" "protocol c' = protocol c" "signal c' = signal c" "wire c' = wire c" "close_called c' = close_called c"
      "F \<longrightarrow> pending c' \<noteq> []"
      "deadline c' = deadline c \<and> \<not> submit \<and> partial c' = partial c \<or> (worker c' \<noteq> WorkerClosing \<longrightarrow> timed (deadline c') (timeout_of opts c'))"
proof (cases "broken c \<or> protocol c \<noteq> None")
  case True
  then show ?thesis using on by (intro ignored) (auto simp: onData_def same_core_def split: if_split_asm)
next
  case False
  then obtain f e where sp: "fr_split data opts (fc_framer c) = Some (f, items, n, e)"
    using on by (auto simp: onData_def Let_def split: option.split_asm prod.split_asm)
  define Q where "Q = queue c @ map queued_of items"
  define N where "N = i32 (bytes_of (pending c) + bytes_of (map queued_of items))"
  define c1 where "c1 = c\<lparr>fc_framer := f, queue := Q, queuedBytes := N, paused := paused c \<or> e = statusHandoff, broken := e \<noteq> 0 \<and> e \<noteq> statusHandoff\<rparr>"
  define F where "F = full c1"
  define c2 where "c2 = c1\<lparr>readPaused := readPaused c \<or> F, paused := paused c1 \<or> F\<rparr>"
  define sub where "sub \<longleftrightarrow> items \<noteq> [] \<and> worker c = WorkerIdle"
  define c3 where "c3 = c2\<lparr>worker := if sub then WorkerServing else worker c\<rparr>"
  define part where "part \<longleftrightarrow> n < length data"
  define c4 where "c4 = (if sub \<or> part \<noteq> partial c then setDeadline opts now (c3\<lparr>partial := part\<rparr>) else c3)"
  have h: "head c \<le> length (queue c)" using q by (auto simp: queue_ok_def)
  have "queuedBytes (c\<lparr>fc_framer := f\<rparr>) = i32 (bytes_of (pending c))" using q by (simp add: queue_ok_def)
  then have "take_items e items (c\<lparr>fc_framer := f\<rparr>) = c2"
    using False by (cases c) (auto simp: take_items_def fold_push c2_def c1_def F_def Q_def N_def Let_def full_def)
  then have c': "c' = c4" "submit = sub"
    using on False sp by (auto simp: onData_def Let_def c4_def c3_def sub_def part_def c2_def c1_def Q_def)
  have p: "pending c1 = pending c @ map queued_of items" using h by (simp add: pending_def c1_def Q_def)
  then have q1: "queue_ok c1" using q by (auto simp: queue_ok_def c1_def Q_def N_def)
  obtain dl where dl: "c4 = c3\<lparr>partial := part, deadline := dl\<rparr>"
      "dl = deadline c \<and> \<not> sub \<and> part = partial c \<or> (worker c4 \<noteq> WorkerClosing \<longrightarrow> timed dl (timeout_of opts c4))"
  proof (cases "sub \<or> part \<noteq> partial c")
    case True
    let ?c = "c3\<lparr>partial := part\<rparr>"
    let ?d = "deadline (setDeadline opts now ?c)"
    have d: "c4 = ?c\<lparr>deadline := ?d\<rparr>" using True setDeadline_only [of opts now ?c] by (simp add: c4_def)
    have "protocol ?c = None" using False by (simp add: c3_def c2_def c1_def)
    then have "worker c4 \<noteq> WorkerClosing \<longrightarrow> timed ?d (timeout_of opts c4)"
      using setDeadline_timed [of ?c opts now] by (auto simp: d timeout_of_def)
    with d show ?thesis using that by blast
  next
    case no: False
    then show ?thesis using that [of "deadline c"] by (auto simp: c4_def c3_def c2_def c1_def)
  qed
  have p4: "pending c4 = pending c1" "queue c4 = queue c1" "queuedBytes c4 = queuedBytes c1" "head c4 = head c1"
    by (simp_all add: dl(1) c3_def c2_def pending_def)
  show ?thesis
  proof (rule framed)
    show "queue_ok c'" using q1 p4 by (simp add: c' queue_ok_def)
    show "pending c' = pending c @ map queued_of items" by (simp add: c' p4(1) p)
    show "F \<longrightarrow> pending c' \<noteq> []" using full_queue [OF q1] by (simp add: F_def c' p4(1))
    show "deadline c' = deadline c \<and> \<not> submit \<and> partial c' = partial c \<or> (worker c' \<noteq> WorkerClosing \<longrightarrow> timed (deadline c') (timeout_of opts c'))"
      using dl by (simp add: c')
  qed (use False sp c' sub_def in \<open>auto simp: dl(1) c3_def c2_def c1_def\<close>)
qed


lemmas inv_defs = queue_inv_def shared_inv_def pause_inv_def busy_def Let_def

lemma shared_invD:
  assumes "shared_inv opts s"
  shows "pending (conn s) \<noteq> [] \<longrightarrow> worker (conn s) \<noteq> WorkerIdle"
    and "worker (conn s) = WorkerWaiting \<and> \<not> closed (conn s) \<longrightarrow> pending (conn s) \<noteq> [] \<and> (backlog s \<or> due s)"
    and "worker (conn s) = WorkerWaiting \<longrightarrow> protocol (conn s) = None"
    and "readPaused (conn s) \<longrightarrow> paused (conn s) \<and> worker (conn s) \<noteq> WorkerIdle \<and> protocol (conn s) = None"
    and "(\<exists>r\<in>set (taken s). final r) \<longrightarrow> worker (conn s) = WorkerServing \<or> worker (conn s) = WorkerClosing"
    and "broken (conn s) \<longrightarrow> (\<exists>r\<in>set (pushed s). final r) \<or> protocol (conn s) \<noteq> None"
    and "protocol (conn s) = None \<Longrightarrow> worker (conn s) = WorkerIdle \<Longrightarrow>
      timed (deadline (conn s)) (if partial (conn s) then ReadHeaderTimeout opts else IdleTimeout opts)"
    and "protocol (conn s) = None \<Longrightarrow> worker (conn s) = WorkerWaiting \<Longrightarrow> timed (deadline (conn s)) (IdleTimeout opts)"
  using assms unfolding shared_inv_def Let_def by blast+

text \<open>The part of the invariant about the workers.\<close>

definition workers_inv :: "fh_sh \<Rightarrow> fh_worker list \<Rightarrow> bool" where
  "workers_inv s ws \<longleftrightarrow>
     (case ws of
        [] \<Rightarrow> submitted s = (if worker (conn s) = WorkerServing then 1 else 0) \<and>
          (if worker (conn s) = WorkerClosing then close_called (conn s) else pause_inv s) \<and>
          (worker (conn s) = WorkerServing \<longrightarrow> busy s (taken s))
      | [x] \<Rightarrow> submitted s = 0 \<and> worker_inv s x
      | _ \<Rightarrow> False)"

lemma fh_inv_parts: "fh_inv opts (s, ws) \<longleftrightarrow> queue_inv s \<and> shared_inv opts s \<and> workers_inv s ws"
  by (simp add: fh_inv_def workers_inv_def)

lemma workers_inv_cases:
  assumes "workers_inv s ws"
  obtains "ws = []" | x where "ws = [x]"
  using assms by (auto simp: workers_inv_def split: list.split_asm)

lemma worker_not_idle: "worker_inv s x \<Longrightarrow> \<not> paused (conn s) \<Longrightarrow> worker (conn s) \<noteq> WorkerIdle"
  by (cases "(s, x)" rule: worker_inv.cases) (auto simp: busy_def)

text \<open>A step that leaves the core alone keeps the invariant.\<close>

lemma core_kept:
  assumes "same_core (conn s) (conn s')" and "pushed s' = pushed s" "taken s' = taken s" "dropped s' = dropped s"
  shows "queue_inv s' = queue_inv s" and "pause_inv s' = pause_inv s"
    and "deadline (conn s') = deadline (conn s) \<Longrightarrow> busy s' d = busy s d"
  using assms same_core_queue [OF assms(1)] by (simp_all add: inv_defs same_core_def)

lemma shared_kept:
  assumes "same_core (conn s) (conn s')" and "pushed s' = pushed s" "taken s' = taken s"
    and "deadline (conn s') = deadline (conn s) \<or> worker (conn s) = WorkerServing \<or> worker (conn s) = WorkerClosing"
    and "broken (conn s') \<longrightarrow> broken (conn s) \<or> protocol (conn s) \<noteq> None"
    and "backlog s \<or> due s \<longrightarrow> backlog s' \<or> due s' \<or> worker (conn s) \<noteq> WorkerWaiting" and "shared_inv opts s"
  shows "shared_inv opts s'"
proof -
  have eq: "pending (conn s') = pending (conn s)" "worker (conn s') = worker (conn s)" "closed (conn s') = closed (conn s)"
      "protocol (conn s') = protocol (conn s)" "readPaused (conn s') = readPaused (conn s)" "paused (conn s') = paused (conn s)"
      "partial (conn s') = partial (conn s)" using assms(1) by (simp_all add: same_core_def pending_def)
  from assms(4) have "worker (conn s) = WorkerIdle \<or> worker (conn s) = WorkerWaiting \<Longrightarrow> deadline (conn s') = deadline (conn s)" by auto
  with assms(5-7) show ?thesis unfolding shared_inv_def Let_def eq assms(2,3)
    by (elim conjE, intro conjI) (assumption | metis)+
qed

lemma data_inv:
  assumes inv: "fh_inv opts (s, ws)" and on: "onData opts now data (conn s) = Some (c, items, n, submit)"
    and g: "\<not> paused (conn s)" "\<not> closed (conn s)"
    and s': "s' = s\<lparr>conn := c, unread := u, arrived := a, pushed := pushed s @ map queued_of items, submitted := submitted s + (if submit then 1 else 0)\<rparr>"
  shows "fh_inv opts (s', ws)"
proof -
  have q: "queue_ok (conn s)" using inv by (simp add: fh_inv_parts queue_inv_def Let_def)
  from q on show ?thesis
  proof (cases rule: onData_effect)
    case ignored
    have core: "same_core (conn s) (conn s')" "pushed s' = pushed s" "taken s' = taken s" "dropped s' = dropped s" "submitted s' = submitted s"
        "deadline (conn s') = deadline (conn s)" "signal (conn s') = signal (conn s)" "backlog s' = backlog s" "due s' = due s"
      using ignored by (simp_all add: s')
    note k = core_kept [OF core(1-4)] shared_kept [OF core(1-3) disjI1 [OF core(6)]]
    have sc: "worker (conn s') = worker (conn s)" "protocol (conn s') = protocol (conn s)" "paused (conn s') = paused (conn s)"
        "readPaused (conn s') = readPaused (conn s)" "pending (conn s') = pending (conn s)" "closed (conn s') = closed (conn s)"
      using core(1) by (simp_all add: same_core_def pending_def)
    have "worker_inv s' x = worker_inv s x" for x
      by (cases "(s, x)" rule: worker_inv.cases) (simp_all add: k sc core)
    moreover have "close_called (conn s) \<longrightarrow> close_called (conn s')" using core(1) by (simp add: same_core_def)
    ultimately have "workers_inv s ws \<Longrightarrow> workers_inv s' ws" by (auto simp: workers_inv_def k sc core split: list.split_asm)
    moreover have "shared_inv opts s'"
    proof (rule k(4))
      show "shared_inv opts s" using inv by (simp add: fh_inv_parts)
    qed (use ignored(1) core in simp_all)
    ultimately show ?thesis using inv k(1) by (simp add: fh_inv_parts)
  next
    case (framed f e F)
    note sh = shared_invD [OF inv [unfolded fh_inv_parts, THEN conjunct2, THEN conjunct1]]
    have fin: "e \<noteq> 0 \<Longrightarrow> \<exists>r\<in>queued_of ` set items. final r" by (rule fr_split_end [OF framed(3)])
    have "queue_inv s'" using inv g framed by (auto simp: fh_inv_parts queue_inv_def s' Let_def)
    moreover have "shared_inv opts s'"
      unfolding shared_inv_def Let_def
    proof (intro conjI)
      show "pending (conn s') \<noteq> [] \<longrightarrow> worker (conn s') \<noteq> WorkerIdle" using sh(1) framed(5-8) by (simp add: s')
      show "worker (conn s') = WorkerWaiting \<and> \<not> closed (conn s') \<longrightarrow> pending (conn s') \<noteq> [] \<and> (backlog s' \<or> due s')"
        using sh(2) framed by (simp add: s')
      show "worker (conn s') = WorkerWaiting \<longrightarrow> protocol (conn s') = None" using framed by (simp add: s')
      show "readPaused (conn s') \<longrightarrow> paused (conn s') \<and> worker (conn s') \<noteq> WorkerIdle \<and> protocol (conn s') = None"
        using sh(1,4) framed by (auto simp: s')
      show "(\<exists>r\<in>set (taken s'). final r) \<longrightarrow> worker (conn s') = WorkerServing \<or> worker (conn s') = WorkerClosing"
        using sh(5) framed by (auto simp: s')
      show "broken (conn s') \<longrightarrow> (\<exists>r\<in>set (pushed s'). final r) \<or> protocol (conn s') \<noteq> None" using framed(11) fin by (auto simp: s')
      show "protocol (conn s') = None \<longrightarrow>
         (worker (conn s') = WorkerIdle \<longrightarrow> timed (deadline (conn s')) (if partial (conn s') then ReadHeaderTimeout opts else IdleTimeout opts)) \<and>
         (worker (conn s') = WorkerWaiting \<longrightarrow> timed (deadline (conn s')) (IdleTimeout opts))"
        using sh(7,8) framed(2,8,18) by (auto simp: s' timeout_of_def)
    qed
    moreover have "workers_inv s' ws"
    proof -
      have pi: "pause_inv s \<Longrightarrow> pause_inv s'" using fin framed(9,10) by (auto simp: pause_inv_def s')
      have dl: "worker c = WorkerServing \<Longrightarrow> deadline c = deadline (conn s) \<and> \<not> submit \<or> deadline c = 0"
        using framed(18) by (auto simp: timeout_of_def)
      have bz: "busy s d \<Longrightarrow> busy s' d" for d using pi dl framed(8,13) by (cases submit) (auto simp: busy_def s')
      show ?thesis
      proof (cases ws)
        case Nil
        have w: "submitted s = (if worker (conn s) = WorkerServing then 1 else 0)" "worker (conn s) \<noteq> WorkerClosing \<longrightarrow> pause_inv s"
            "worker (conn s) = WorkerServing \<longrightarrow> busy s (taken s)"
          using inv Nil by (simp_all add: fh_inv_parts workers_inv_def)
        have "submitted s' = (if worker c = WorkerServing then 1 else 0)" using w(1) framed(6,8) by (simp add: s')
        moreover have "worker c \<noteq> WorkerClosing \<longrightarrow> pause_inv s'" using w(2) pi framed(6,8) by (cases submit) auto
        moreover have "busy s' (taken s)" if "worker c = WorkerServing"
        proof (cases submit)
          case True
          then have "\<not> (\<exists>r\<in>set (taken s). final r)" using sh(5) framed(6) by auto
          then show ?thesis using True that dl calculation(2) framed(8) by (auto simp: busy_def s')
        qed (use w(3) bz framed(8) that s' in auto)
        moreover have "worker c = WorkerClosing \<longrightarrow> close_called c"
          using inv Nil framed(6,8,16) by (auto simp: fh_inv_parts workers_inv_def split: if_split_asm)
        ultimately show ?thesis using Nil by (simp add: workers_inv_def s')
      next
        case (Cons x xs)
        then have x: "ws = [x]" "submitted s = 0" "worker_inv s x" using inv by (auto simp: fh_inv_parts workers_inv_def split: list.split_asm)
        then have "\<not> submit" using worker_not_idle g(1) framed(6) by blast
        moreover have "worker_inv s' x"
          by (cases "(s, x)" rule: worker_inv.cases) (use x(3) g calculation bz pi framed(5,8-17) in \<open>auto simp: s'\<close>)
        ultimately show ?thesis using x by (simp add: workers_inv_def s')
      qed
    qed
    ultimately show ?thesis by (simp add: fh_inv_parts)
  qed
qed


lemma quiet_inv:
  assumes core: "same_core (conn s) (conn s')" "pushed s' = pushed s" "taken s' = taken s" "dropped s' = dropped s"
    and eq: "submitted s' = submitted s" "deadline (conn s') = deadline (conn s)"
    and br: "broken (conn s') \<longrightarrow> broken (conn s) \<or> protocol (conn s) \<noteq> None"
    and sg: "signal (conn s') = signal (conn s) \<or> signal (conn s) \<noteq> None \<and> signal (conn s') = Some True"
    and bl: "backlog s \<or> due s \<longrightarrow> backlog s' \<or> due s' \<or>
      worker (conn s) \<noteq> WorkerWaiting \<and> (signal (conn s) \<noteq> None \<longrightarrow> signal (conn s') = Some True)"
    and inv: "fh_inv opts (s, ws)"
  shows "fh_inv opts (s', ws)"
proof -
  note k = core_kept [OF core]
  have sc: "worker (conn s') = worker (conn s)" "protocol (conn s') = protocol (conn s)" "paused (conn s') = paused (conn s)"
      "readPaused (conn s') = readPaused (conn s)" "pending (conn s') = pending (conn s)" "closed (conn s') = closed (conn s)"
    using core(1) by (simp_all add: same_core_def pending_def)
  have "worker_inv s x \<Longrightarrow> worker_inv s' x" for x
    by (cases "(s, x)" rule: worker_inv.cases) (use sg bl in \<open>auto simp: k sc core eq\<close>)
  moreover have "close_called (conn s) \<longrightarrow> close_called (conn s')" using core(1) by (simp add: same_core_def)
  ultimately have "workers_inv s ws \<Longrightarrow> workers_inv s' ws" by (auto simp: workers_inv_def k sc core eq split: list.split_asm)
  moreover have "shared_inv opts s'" using inv by (intro shared_kept [OF core(1-3) disjI1 [OF eq(2)] br]) (use bl in \<open>auto simp: fh_inv_parts\<close>)
  ultimately show ?thesis using inv k(1) by (simp add: fh_inv_parts)
qed

lemma no_worker: "worker_inv s x \<Longrightarrow> worker (conn s) \<noteq> WorkerWaiting"
  by (cases "(s, x)" rule: worker_inv.cases) (auto simp: busy_def)

lemma writable_inv:
  assumes inv: "fh_inv opts (s, ws)" and on: "onWritable opts now (conn s) = (c, resume)" and nc: "\<not> closed (conn s)"
    and s': "s' = s\<lparr>conn := c, due := False, submitted := submitted s + (if resume then 1 else 0)\<rparr>"
  shows "fh_inv opts (s', ws)"
proof (cases "worker (conn s) = WorkerWaiting")
  case False
  then have "c = wakeWriter (conn s)" "\<not> resume" using on by (auto simp: onWritable_def Let_def wakeWriter_def split: option.split_asm if_split_asm)
  with False show ?thesis using inv
    by (intro quiet_inv [OF _ _ _ _ _ _ _ _ _ inv]) (auto simp: s' wakeWriter_def same_core_def split: option.split)
next
  case True
  define c1 where "c1 = (wakeWriter (conn s))\<lparr>worker := WorkerServing\<rparr>"
  have w: "closed (wakeWriter (conn s)) = closed (conn s)" "worker (wakeWriter (conn s)) = worker (conn s)"
    by (simp_all add: wakeWriter_def split: option.split)
  then have c: "c = setDeadline opts now c1" "resume" using on True nc by (auto simp: onWritable_def Let_def c1_def)
  have pr: "protocol (conn s) = None" using True shared_invD(3) [of opts s] inv by (simp add: fh_inv_parts)
  then have c1: "protocol c1 = None" by (simp add: c1_def wakeWriter_def split: option.split)
  have dl: "deadline c = 0" using setDeadline_timed [of c1 opts now] c1 by (simp add: c timeout_of_def c1_def)
  have e: "c = c1\<lparr>deadline := 0\<rparr>" using setDeadline_only [of opts now c1] dl c(1) by simp
  have ws: "ws = []" using inv True no_worker by (auto simp: fh_inv_parts workers_inv_def split: list.split_asm)
  have f: "queue c = queue (conn s)" "head c = head (conn s)" "queuedBytes c = queuedBytes (conn s)" "protocol c = None" "worker c = WorkerServing"
      "readPaused c = readPaused (conn s)" "closed c = closed (conn s)" "paused c = paused (conn s)" "broken c = broken (conn s)" "partial c = partial (conn s)"
    using pr by (auto simp: e c1_def wakeWriter_def split: option.split)
  have p: "pending c = pending (conn s)" "queue_ok c = queue_ok (conn s)" using f by (simp_all add: pending_def queue_ok_def)
  have sub: "submitted s = 0" "pause_inv s" using inv ws True by (auto simp: fh_inv_parts workers_inv_def)
  have "queue_inv s'" using inv f p pr by (simp add: fh_inv_parts queue_inv_def s' Let_def)
  moreover have "shared_inv opts s'"
    using shared_invD(4,6) [of opts s] inv f p pr by (simp add: fh_inv_parts shared_inv_def s' Let_def)
  moreover have "pause_inv s'" using sub(2) f by (simp add: pause_inv_def s')
  moreover have "\<not> (\<exists>r\<in>set (taken s). final r)" using shared_invD(5) [of opts s] inv True by (auto simp: fh_inv_parts)
  ultimately show ?thesis using f sub dl c(2) ws by (auto simp: fh_inv_parts workers_inv_def busy_def s')
qed

lemma close_inv:
  assumes inv: "fh_inv opts (s, ws)" and on: "onClose (conn s) = (c, p)" and nc: "\<not> closed (conn s)"
    and s': "s' = s\<lparr>conn := c, dropped := pending (conn s)\<rparr>"
  shows "fh_inv opts (s', ws)"
proof -
  have f: "queue c = []" "head c = 0" "queuedBytes c = 0" "protocol c = protocol (conn s)" "worker c = worker (conn s)"
      "readPaused c = readPaused (conn s)" "closed c" "paused c = paused (conn s)" "broken c = broken (conn s)" "partial c = partial (conn s)"
      "deadline c = deadline (conn s)" "signal (conn s) \<noteq> None \<longrightarrow> signal c = Some True" "pending c = []" "close_called c = close_called (conn s)"
    using on by (auto simp: onClose_def Let_def wakeWriter_def releaseQueue_def cancel_context_def pending_def split: option.split_asm if_split_asm)
  have "queue_inv s'" using inv nc f by (simp add: fh_inv_parts queue_inv_def s' Let_def queue_ok_def i32_def)
  moreover have "shared_inv opts s'"
  proof -
    note sh = shared_invD [of opts s, OF inv [unfolded fh_inv_parts, THEN conjunct2, THEN conjunct1]]
    show ?thesis using sh(3-8) f(4-13) unfolding shared_inv_def Let_def by (simp add: s')
  qed
  moreover have k: "pause_inv s' = pause_inv s" "busy s' d = busy s d" for d using f by (auto simp: pause_inv_def busy_def s')
  moreover have e: "conn s' = c" "backlog s' = backlog s" "due s' = due s" "taken s' = taken s" "submitted s' = submitted s" by (simp_all add: s')
  moreover have "worker_inv s x \<Longrightarrow> worker_inv s' x" for x
    by (cases "(s, x)" rule: worker_inv.cases) (use f in \<open>auto simp: k e\<close>)
  ultimately show ?thesis using inv f(5,14) by (auto simp: fh_inv_parts workers_inv_def split: list.split_asm)
qed

lemma callback_inv: "fh_inv opts (s, ws) \<Longrightarrow> callback opts s s' \<Longrightarrow> fh_inv opts (s', ws)"
proof (erule callback_cases, goal_cases)
  case 1
  then show ?case by (auto simp: live_def intro: data_inv)
next
  case 2
  then show ?case by (auto intro!: quiet_inv [where s = s])
next
  case 3
  then show ?case by (auto simp: live_def intro: writable_inv)
next
  case (4 c keep)
  then show ?case by (auto simp: halfClose_def cancel_context_def same_core_def intro!: quiet_inv [where s = s] split: if_split_asm)
next
  case 5
  then show ?case by (auto simp: live_def intro: close_inv)
next
  case 6
  then show ?case by (auto simp: route_def same_core_def intro!: quiet_inv [where s = s] split: if_split_asm option.split_asm)
next
  case 7
  then show ?case by (auto simp: context_of_def same_core_def intro!: quiet_inv [where s = s])
qed


text \<open>The steps of the worker that leave the core alone.\<close>

lemma work_quiet:
  assumes core: "same_core (conn s) (conn s')" "pushed s' = pushed s" "taken s' = taken s" "dropped s' = dropped s"
    and "submitted s' = submitted s" "broken (conn s') = broken (conn s)" "backlog s \<longrightarrow> backlog s'" "due s' = due s"
    and "deadline (conn s') = deadline (conn s) \<or> worker (conn s) = WorkerServing \<or> worker (conn s) = WorkerClosing"
    and inv: "fh_inv opts (s, [x])" and y: "worker_inv s' y"
  shows "fh_inv opts (s', [y])"
  using inv core_kept(1) [OF core] shared_kept [OF core(1-3) assms(9)] assms(5-8) y
  by (auto simp: fh_inv_parts workers_inv_def)

lemma work_wait_inv:
  assumes "fh_inv opts (s, [x])" and "backlog s \<longrightarrow> backlog s'" "due s' = due s"
    and "conn s' = (conn s)\<lparr>signal := sg\<rparr>" "pushed s' = pushed s" "taken s' = taken s" "dropped s' = dropped s" "submitted s' = submitted s"
  shows "worker_inv s' y \<Longrightarrow> fh_inv opts (s', [y])" and "busy s' d = busy s d"
  using assms by (auto intro!: work_quiet [where s = s and x = x] simp: same_core_def busy_def pause_inv_def)

lemma serve_inv:
  assumes inv: "fh_inv opts (s, [(W_Top, w)])" and sv: "serveQueue opts now (\<not> backlog s) collected (conn s) = (c, a)"
  shows "a = A_Flush \<Longrightarrow> fh_inv opts (s\<lparr>conn := c\<rparr>, [(W_Flush, w)])"
    and "a = A_Close \<Longrightarrow> fh_inv opts (s\<lparr>conn := c\<rparr>, [(W_Close, w)])"
    and "a = A_Stop resume \<Longrightarrow> fh_inv opts (s\<lparr>conn := c\<rparr>, if resume then [(W_Resume, w)] else [])"
    and "a = A_Wait \<Longrightarrow> fh_inv opts (s\<lparr>conn := c\<rparr>, [])"
    and "a = A_Handle r \<Longrightarrow> fh_inv opts (s\<lparr>conn := c, taken := taken s @ [r]\<rparr>, [(W_Take r, w)])"
proof -
  have q: "queue_inv s" and sh: "shared_inv opts s" and bz: "busy s (taken s)" and sub: "submitted s = 0"
    using inv by (auto simp: fh_inv_parts workers_inv_def)
  note S = shared_invD [OF sh]
  have qo: "queue_ok (conn s)" "pending (conn s) = [] \<longleftrightarrow> queue (conn s) = []" using q queue_ok_empty by (auto simp: queue_inv_def Let_def)
  have b: "worker (conn s) = WorkerServing" "pause_inv s" "\<not> (\<exists>r\<in>set (taken s). final r)" using bz by (auto simp: busy_def)
  show "a = A_Flush \<Longrightarrow> fh_inv opts (s\<lparr>conn := c\<rparr>, [(W_Flush, w)])"
    using sv inv by (auto simp: serveQueue_def Let_def fh_inv_parts workers_inv_def split: if_split_asm prod.split_asm)
  show "a = A_Close \<Longrightarrow> fh_inv opts (s\<lparr>conn := c\<rparr>, [(W_Close, w)])"
    using sv inv b by (auto simp: serveQueue_def Let_def fh_inv_parts workers_inv_def split: if_split_asm prod.split_asm)
  show "fh_inv opts (s\<lparr>conn := c\<rparr>, if resume then [(W_Resume, w)] else [])" if "a = A_Stop resume"
  proof -
    define c1 where "c1 = (conn s)\<lparr>worker := WorkerIdle, readPaused := False\<rparr>"
    have c: "c = setDeadline opts now c1" "resume = readPaused (conn s)" "closed (conn s) \<or> queue (conn s) = []"
      using sv that by (auto simp: serveQueue_def Let_def c1_def split: if_split_asm prod.split_asm)
    obtain dl where dl: "c = c1\<lparr>deadline := dl\<rparr>" "protocol (conn s) = None \<Longrightarrow> timed dl (if partial (conn s) then ReadHeaderTimeout opts else IdleTimeout opts)"
      using setDeadline_only [of opts now c1] setDeadline_timed [of c1 opts now] c(1) by (auto simp: timeout_of_def c1_def)
    have p: "pending c = []" "pending (conn s) = []" using c(3) q qo by (auto simp: dl(1) c1_def pending_def queue_inv_def Let_def)
    show ?thesis using q S b p dl(2) sub c(2)
      by (auto simp: fh_inv_parts workers_inv_def shared_inv_def queue_inv_def pause_inv_def Let_def dl(1) c1_def pending_def queue_ok_def)
  qed
  show "fh_inv opts (s\<lparr>conn := c\<rparr>, [])" if "a = A_Wait"
  proof -
    define c1 where "c1 = (conn s)\<lparr>worker := WorkerWaiting\<rparr>"
    have c: "c = setDeadline opts now c1" "backlog s" "queue (conn s) \<noteq> []" "\<not> closed (conn s)"
      using sv that by (auto simp: serveQueue_def Let_def c1_def split: if_split_asm prod.split_asm)
    then have pr: "protocol (conn s) = None" using q qo by (auto simp: queue_inv_def Let_def)
    obtain dl where dl: "c = c1\<lparr>deadline := dl\<rparr>" "timed dl (IdleTimeout opts)"
      using setDeadline_only [of opts now c1] setDeadline_timed [of c1 opts now] c(1) pr by (auto simp: timeout_of_def c1_def)
    show ?thesis using q S b c(2-4) dl(2) sub qo pr
      by (auto simp: fh_inv_parts workers_inv_def shared_inv_def queue_inv_def pause_inv_def Let_def dl(1) c1_def pending_def queue_ok_def)
  qed
  show "fh_inv opts (s\<lparr>conn := c, taken := taken s @ [r]\<rparr>, [(W_Take r, w)])" if "a = A_Handle r"
  proof -
    have c: "pop (conn s) = (r, c)" "queue (conn s) \<noteq> []" "\<not> closed (conn s)"
      using sv that by (auto simp: serveQueue_def Let_def split: if_split_asm prod.split_asm)
    then have pr: "protocol (conn s) = None" using q qo by (auto simp: queue_inv_def Let_def)
    note pp = pop_pending [OF qo(1) c(2,1)]
    have f: "worker c = worker (conn s)" "protocol c = None" "closed c = closed (conn s)" "readPaused c = readPaused (conn s)"
        "paused c = paused (conn s)" "broken c = broken (conn s)" "deadline c = deadline (conn s)"
      using pr by (subst pp(3), simp)+
    show ?thesis using q S bz b c(3) pp(1,2) f sub
      by (auto simp: fh_inv_parts workers_inv_def shared_inv_def queue_inv_def pause_inv_def busy_def Let_def)
  qed
qed


text \<open>What the response keeps while a handler runs.\<close>

definition kept :: "response \<Rightarrow> response \<Rightarrow> bool" where
  "kept w w' \<longleftrightarrow> r_upgraded w' = r_upgraded w \<and> r_outStart w' = r_outStart w \<and> r_req w' = r_req w"

lemma kept_trans: "kept u v \<Longrightarrow> kept v w \<Longrightarrow> kept u w"
  by (simp add: kept_def)

lemma conn_Write_kept: "kept w (snd (conn_Write p w))"
  by (auto simp: kept_def conn_Write_def io_next_def split: prod.split option.split list.split)

lemma commitHeader_kept: "kept w (commitHeader w)"
  using commitHeader_lines [of w] by (auto simp: kept_def)

lemma default_header_kept: "kept w (default_header w)"
  using commitHeader_kept [of "w\<lparr>r_wroteHeader := True, r_status := 200\<rparr>"] by (simp add: default_header_def kept_def)

lemma writeHeader_kept: "kept w (writeHeader env p st w)"
  using default_header_kept [of w] by (auto simp: writeHeader_def kept_def Let_def split: prod.split)

lemma send_kept: "kept w (snd (send env p w))"
proof -
  define v where "v = (if \<not> r_streamed w then writeHeader env p True w else w)"
  have v: "kept w v" using writeHeader_kept by (auto simp: v_def kept_def)
  obtain x w1 where x: "io_next v = (x, w1)" by (cases "io_next v")
  then have "kept v w1" by (auto simp: io_next_def kept_def split: list.split_asm)
  then have "kept v (snd (send env p w))" if "\<not> discardBody (r_bodyWriting v)"
    using that x conn_Write_kept [of w1 "r_out w1 @ p"]
      conn_Write_kept [of "w1\<lparr>r_out := appendChunkSize (r_out w1) (length p)\<rparr>" "appendChunkSize (r_out w1) (length p) @ p @ CRLF"]
    by (auto simp: send_def Let_def kept_def v_def [symmetric] split: prod.split option.split)
  moreover have "kept v (snd (send env p w))" if "discardBody (r_bodyWriting v)"
    using that by (simp add: send_def Let_def v_def [symmetric] kept_def)
  ultimately show ?thesis using v kept_trans by blast
qed

lemma stream_loop_kept: "stream_loop env p w = (rest, err, w') \<Longrightarrow> kept w w'"
proof (induction env p w rule: stream_loop.induct)
  case (1 env p w)
  show ?case
  proof (cases "length (r_body w) + length p > maxBufferedBody")
    case False
    then show ?thesis using "1.prems" by (simp add: stream_loop.simps [of env p w] kept_def)
  next
    case True
    obtain piece rst w1 where x: "(if length (r_body w) = 0 then (take maxBufferedBody p, drop maxBufferedBody p, w)
        else let fill = maxBufferedBody - length (r_body w); w1 = w\<lparr>r_body := r_body w @ take fill p\<rparr> in (r_body w1, drop fill p, w1)) = (piece, rst, w1)"
      by (metis prod_cases3)
    obtain e w2 where e: "send env piece w1 = (e, w2)" by (cases "send env piece w1")
    have k: "kept w (w2\<lparr>r_body := []\<rparr>)" using x e send_kept [of w1 env piece] by (auto simp: kept_def Let_def split: if_split_asm)
    show ?thesis
    proof (cases "e = None")
      case False
      then show ?thesis using "1.prems" True k x e by (subst (asm) stream_loop.simps) simp
    next
      case e0: True
      then have "stream_loop env rst (w2\<lparr>r_body := []\<rparr>) = (rest, err, w')" using "1.prems" True x e by (subst (asm) stream_loop.simps) simp
      from "1.IH" [OF True x [symmetric] refl refl refl e [symmetric] refl _ this] e0 k kept_trans show ?thesis by blast
    qed
  qed
qed

lemma run_handler_kept: "run_handler env [op] w B = Some (w', B') \<Longrightarrow> kept w w'"
proof (cases op)
  case (Do_Write p)
  obtain e w1 where b: "beforeWrite (length p) w = (e, w1)" by (cases "beforeWrite (length p) w")
  have kw: "kept w w1" using b default_header_kept [of w] by (auto simp: beforeWrite_def kept_def Let_def split: if_split_asm)
  obtain n err w2 where f: "fh_Write env p w = (n, err, w2)" by (metis prod_cases3)
  obtain rest er w3 where sl: "stream_loop env p w1 = (rest, er, w3)" by (metis prod_cases3)
  have "kept w1 w2" using f b stream_loop_kept [OF sl] sl
    by (auto simp: fh_Write_def stream_def kept_def split: option.split_asm if_split_asm)
  then show "run_handler env [op] w B = Some (w', B') \<Longrightarrow> kept w w'" using Do_Write f kw kept_trans by auto
next
  case (Do_WriteHeader code)
  then show "run_handler env [op] w B = Some (w', B') \<Longrightarrow> kept w w'"
    using commitHeader_kept [of "w\<lparr>r_wroteHeader := True, r_status := code\<rparr>"] by (auto simp: WriteHeader_def kept_def split: if_split_asm)
qed (auto simp: kept_def)


section \<open>The invariant holds in every reachable state\<close>

lemma handle_core:
  "handle opts now env RR ok r c w = (c', w', k) \<Longrightarrow>
     same_core c c' \<and> broken c' = broken c \<and> (k \<noteq> Drop \<longrightarrow> deadline c' = deadline c) \<and> (k = Keep \<longrightarrow> rq_status r = 100) \<and>
     (k = Run \<longrightarrow> rq_status r = 0 \<and> \<not> r_upgraded w')"
  by (auto simp: handle_def handle_message_def conn_handoff_def endContext_def cancel_context_def SetDeadline_def written_def start_def
      same_core_def Let_def split: if_split_asm prod.split_asm sum.split_asm)

lemma after_write_simps [simp]:
  "conn (after_write f io s) = conn s" "submitted (after_write f io s) = submitted s" "due (after_write f io s) = due s"
  "backlog (after_write f io s) = (backlog s \<or> f)" "pushed (after_write f io s) = pushed s" "taken (after_write f io s) = taken s"
  "dropped (after_write f io s) = dropped s" "answers (after_write f io s) = answers s" "arrived (after_write f io s) = arrived s"
  "unread (after_write f io s) = unread s" "failed (after_write f io s) = (failed s \<or> io \<noteq> [])"
  by (simp_all add: after_write_def)

lemma same_core_written [simp]: "same_core c (written w c') = same_core c c'" "broken (written w c) = broken c" "deadline (written w c) = deadline c"
    "signal (written w c) = signal c" "wire (written w c) = r_wire w" "protocol (written w c) = protocol c" "worker (written w c) = worker c"
    "closed (written w c) = closed c" "pending (written w c) = pending c" "readPaused (written w c) = readPaused c" "paused (written w c) = paused c"
  by (simp_all add: same_core_def written_def pending_def)

lemma handled_inv:
  assumes inv: "fh_inv opts (s, [(W_Take r, w)])" and h: "handle opts now env RR ok r (conn s) w0 = (c, w', k)"
    and s': "conn s' = written w1 c" "pushed s' = pushed s" "taken s' = taken s" "dropped s' = dropped s" "submitted s' = submitted s"
      "backlog s \<longrightarrow> backlog s'" "due s' = due s"
  shows "fh_inv opts (s', [(case k of Keep \<Rightarrow> W_Top | Drop \<Rightarrow> W_End | Run \<Rightarrow> W_Handler r [], w')])"
proof -
  note hc = handle_core [OF h]
  have bz: "busy s (butlast (taken s))" "taken s \<noteq> []" "last (taken s) = r" "protocol (conn s) = None"
    using inv by (auto simp: fh_inv_parts workers_inv_def)
  have core: "same_core (conn s) (conn s')" using hc s' by simp
  have w: "worker (conn s') = WorkerServing" "protocol (conn s') = None" using core bz by (auto simp: same_core_def busy_def)
  have "taken s = butlast (taken s) @ [r]" using bz append_butlast_last_id by metis
  then have t: "set (taken s') = insert r (set (butlast (taken s)))" using s' by (metis list.simps(15) rotate1.simps(2) set_rotate1)
  have "busy s' (taken s')" if "k \<noteq> Drop"
  proof -
    have "\<not> final r" using that hc by (cases k) (auto simp: final_def)
    moreover have "deadline (conn s') = deadline (conn s)" using hc that s' by simp
    ultimately show ?thesis using bz t core_kept [OF core s'(2-4)] core by (auto simp: busy_def same_core_def)
  qed
  then have "worker_inv s' (case k of Keep \<Rightarrow> W_Top | Drop \<Rightarrow> W_End | Run \<Rightarrow> W_Handler r [], w')" using hc w by (cases k) auto
  then show ?thesis using bz(1) hc s' by (intro work_quiet [OF core s'(2-5) _ _ _ _ inv]) (auto simp: busy_def)
qed

lemma upgrade_inv:
  assumes inv: "fh_inv opts (s, [(W_Handler r B, w)])" and u: "upgrade_begin (conn s) w = Some (c, w')"
  shows "fh_inv opts (s\<lparr>conn := c\<rparr>, [(W_Upgrade r B, w')])"
proof -
  have q: "queue_inv s" and sh: "shared_inv opts s" and bz: "busy s (taken s)" "protocol (conn s) = None" and sub: "submitted s = 0"
    using inv by (auto simp: fh_inv_parts workers_inv_def)
  note S = shared_invD [OF sh]
  have c: "c = (if readPaused (conn s) then (conn s)\<lparr>readPaused := False, paused := False\<rparr> else conn s)" "r_upgraded w'"
    using u by (auto simp: upgrade_begin_def split: if_split_asm)
  show ?thesis
  proof (cases "readPaused (conn s)")
    case False
    then show ?thesis using inv c by (simp add: fh_inv_parts workers_inv_def)
  next
    case True
    then show ?thesis using q S bz sub c
      by (simp add: fh_inv_parts workers_inv_def shared_inv_def queue_inv_def pause_inv_def busy_def Let_def pending_def queue_ok_def)
  qed
qed

lemma flush_kept: "kept w (snd (flush w))"
  using conn_Write_kept [of w "r_out w"] by (auto simp: flush_def kept_def Let_def split: prod.split)

lemma SetDeadline_if: "(if b then SetDeadline t c else c) = c\<lparr>deadline := if b then t else deadline c\<rparr>"
  by (simp add: SetDeadline_def)

lemma switch_inv:
  assumes inv: "fh_inv opts (s, [(W_Upgrade r B, w)])" and u: "upgrade_switch opts now env p ((conn s)\<lparr>deadline := dl\<rparr>) (load io (conn s) w) = (c, w', err)"
  shows "fh_inv opts (after_write fill io (s\<lparr>conn := c\<rparr>), [(W_Upgraded r, w')])"
proof -
  have q: "queue_inv s" and sh: "shared_inv opts s" and bz: "busy s (taken s)" "protocol (conn s) = None" "r_upgraded w"
      "readPaused (conn s) \<longrightarrow> pending (conn s) \<noteq> [] \<or> closed (conn s)" and sub: "submitted s = 0"
    using inv by (auto simp: fh_inv_parts workers_inv_def)
  note S = shared_invD [OF sh]
  let ?t = "after_write fill io (s\<lparr>conn := c\<rparr>)"
  have wk: "worker (conn s) = WorkerServing" "pause_inv s" "\<forall>r\<in>set (taken s). \<not> final r" using bz by (auto simp: busy_def)
  have same: "fh_inv opts (?t, [(W_Upgraded r, w')])" if "c = (conn s)\<lparr>deadline := dl\<rparr>" "r_upgraded w'"
    by (rule work_quiet [OF _ _ _ _ _ _ _ _ _ inv]) (use that wk in \<open>auto simp: same_core_def pause_inv_def\<close>)
  have up: "r_upgraded (writeError env 400 (load io (conn s) w))" "r_upgraded (load io (conn s) w)"
    using bz by (simp_all add: writeError_def load_def Let_def)
  show ?thesis
  proof (cases "closed (conn s) \<or> halfClosed (conn s) \<or> queue (conn s) \<noteq> []")
    case True
    then show ?thesis using u up by (intro same) (auto simp: upgrade_switch_def split: if_split_asm)
  next
    case False
    have p: "pending (conn s) = []" "\<not> readPaused (conn s)" using False bz(4) q queue_ok_empty by (auto simp: queue_inv_def Let_def)
    define w1 where "w1 = (load io (conn s) w)\<lparr>r_out := switching_header (r_header w) (r_out w)\<rparr>"
    have w': "w' = snd (flush w1)" using u False by (auto simp: upgrade_switch_def w1_def load_def Let_def split: prod.split_asm)
    then have "r_upgraded w'" using flush_kept [of w1] bz(3) by (simp add: kept_def w1_def load_def)
    moreover have f: "queue c = []" "head c = 0" "queuedBytes c = 0" "protocol c = Some p" "worker c = WorkerServing" "readPaused c = readPaused (conn s)"
        "closed c = closed (conn s)" "paused c = paused (conn s)" "broken c = broken (conn s)"
      using u False wk by (auto simp: upgrade_switch_def releaseQueue_def SetDeadline_if written_def Let_def split: prod.split_asm)
    ultimately show ?thesis using q S wk p sub
      by (simp add: fh_inv_parts workers_inv_def shared_inv_def queue_inv_def pause_inv_def Let_def pending_def queue_ok_def i32_def)
  qed
qed


lemma handled_core: "handled env ok c w = (c', w', keep) \<Longrightarrow> same_core c c' \<and> broken c' = broken c \<and> deadline c' = deadline c \<and>
    (keep \<longrightarrow> r_upgraded w \<longrightarrow> protocol c \<noteq> None)"
  by (auto simp: handled_def endContext_def cancel_context_def same_core_def Let_def split: if_split_asm prod.split_asm)

lemma wait_inv:
  assumes inv: "fh_inv opts (s, [(W_Wait r B blocked, w)])"
  shows "\<not> blocked \<Longrightarrow> fh_inv opts (s, [(if wait_over (\<not> backlog s) (conn s) then W_Handler r B else W_Wait r B True, w)])"
    and "wait_receive (conn s) = Some c \<Longrightarrow> fh_inv opts (s\<lparr>conn := c\<rparr>, [(W_Wait r B False, w)])"
    and "fh_inv opts (s, [(W_Handler r B, w)])"
proof -
  show "\<not> blocked \<Longrightarrow> fh_inv opts (s, [(if wait_over (\<not> backlog s) (conn s) then W_Handler r B else W_Wait r B True, w)])"
      "fh_inv opts (s, [(W_Handler r B, w)])"
    using inv by (auto simp: fh_inv_parts workers_inv_def wait_over_def)
  assume "wait_receive (conn s) = Some c"
  then have "c = (conn s)\<lparr>signal := Some False\<rparr>" by (auto simp: wait_receive_def split: if_split_asm)
  then show "fh_inv opts (s\<lparr>conn := c\<rparr>, [(W_Wait r B False, w)])"
    using inv by (intro work_quiet [OF _ _ _ _ _ _ _ _ _ inv]) (auto simp: same_core_def busy_def pause_inv_def fh_inv_parts workers_inv_def)
qed

lemma work_inv:
  assumes inv: "fh_inv opts (s, [x])" and st: "work opts env RR s x s' res"
  shows "fh_inv opts (s', case res of None \<Rightarrow> [] | Some y \<Rightarrow> [y])"
proof -
  have x: "worker_inv s x" "submitted s = 0" using inv by (simp_all add: fh_inv_parts workers_inv_def)
  have q: "queue_inv s" and sh: "shared_inv opts s" using inv by (simp_all add: fh_inv_parts)
  note S = shared_invD [OF sh]
  note wq = work_quiet [OF _ _ _ _ _ _ _ _ _ inv]
  from st show ?thesis
  proof cases
    case (wk_flush_first now w c)
    then show ?thesis using serve_inv(1) inv by simp
  next
    case (wk_half_closed now w c)
    then show ?thesis using serve_inv(2) inv by simp
  next
    case (wk_stop now w c resume)
    then show ?thesis using serve_inv(3) [of opts s w now "r_out w \<noteq> []" c "A_Stop resume" resume] inv by (cases resume) simp_all
  next
    case (wk_wait now w c)
    then show ?thesis using serve_inv(4) inv by simp
  next
    case (wk_take now w c r)
    then show ?thesis using serve_inv(5) inv by simp
  next
    case (wk_flush io w err w' fill)
    then show ?thesis using x by (auto intro!: wq simp: busy_def pause_inv_def)
  next
    case (wk_resume w)
    have "\<not> readPaused (conn s)" using S(4) x wk_resume by auto
    then show ?thesis using q x wk_resume S
      by (simp add: fh_inv_parts workers_inv_def shared_inv_def queue_inv_def pause_inv_def Let_def pending_def queue_ok_def)
  next
    case (wk_kept now ok r io w c w' fill)
    then show ?thesis using handled_inv [of opts s r w now env RR ok "load io (conn s) w" c w' Keep s' w'] inv by simp
  next
    case (wk_refused now ok r io w c w' fill)
    then show ?thesis using handled_inv [of opts s r w now env RR ok "load io (conn s) w" c w' Drop s' w'] inv by simp
  next
    case (wk_run now ok r io w c w')
    have "fh_inv opts (s\<lparr>conn := written (new_response\<lparr>r_wire := wire c\<rparr>) c\<rparr>, [(W_Handler r [], w')])"
      using handled_inv [OF inv [unfolded wk_run(1)] wk_run(4), of "s\<lparr>conn := written (new_response\<lparr>r_wire := wire c\<rparr>) c\<rparr>" "new_response\<lparr>r_wire := wire c\<rparr>"] by simp
    then show ?thesis using wk_run by (simp add: written_def)
  next
    case (wk_call op io w B w' B' r fill)
    have "kept (load io (conn s) w) w'" using run_handler_kept wk_call by blast
    then show ?thesis using wk_call x by (auto intro!: wq simp: busy_def pause_inv_def kept_def load_def)
  next
    case (wk_wait_begin r B w)
    then show ?thesis using x by (auto intro!: wq simp: wait_begin_def same_core_def busy_def pause_inv_def split: option.split)
  next
    case (wk_wait_look r B w)
    then show ?thesis using wait_inv(1) [of opts s r B False w] inv by simp
  next
    case (wk_wait_receive c r B w)
    then show ?thesis using wait_inv(2) inv by simp
  next
    case (wk_wait_expired r B w)
    then show ?thesis using wait_inv(3) inv by simp
  next
    case (wk_upgrade w c w' r B)
    then show ?thesis using upgrade_inv inv by simp
  next
    case (wk_switch now p dl io w c w' err r B fill)
    then show ?thesis using switch_inv inv by simp
  next
    case (wk_upgrade_panic r B w)
    then show ?thesis using x by (auto intro!: wq simp: busy_def pause_inv_def)
  next
    case (wk_upgraded ok w c w' keep r)
    note hc = handled_core [OF wk_upgraded(4)]
    have "worker_inv s' (if keep then W_Top else W_End, w')"
      using x wk_upgraded hc by (cases keep) (auto simp: busy_def pause_inv_def same_core_def)
    then show ?thesis using wk_upgraded hc wq [of s' "(if keep then W_Top else W_End, w')"] by simp
  next
    case (wk_return io w c w' keep r B fill)
    note hc = handled_core [OF wk_return(4)]
    have "worker_inv s' (if keep then W_Top else W_End, w')"
      using x wk_return hc by (cases keep) (auto simp: busy_def pause_inv_def same_core_def)
    then show ?thesis using wk_return hc wq [of s' "(if keep then W_Top else W_End, w')"] by simp
  next
    case (wk_panic r B w)
    then show ?thesis using x by (auto intro!: wq simp: busy_def)
  next
    case (wk_last_flush io w err w' fill)
    then show ?thesis using x by (auto intro!: wq)
  next
    case (wk_mark w)
    then show ?thesis using q x S
      by (simp add: fh_inv_parts workers_inv_def shared_inv_def queue_inv_def Let_def pending_def queue_ok_def mark_closing_def)
  next
    case (wk_close w now)
    then show ?thesis using q x S
      by (simp add: fh_inv_parts workers_inv_def shared_inv_def queue_inv_def Let_def pending_def queue_ok_def close_conn_def SetDeadline_def)
  qed
qed

lemma fh_inv_init: "fh_init opts st \<Longrightarrow> fh_inv opts st"
proof -
  have "timed (deadline (OnOpen opts now)) (IdleTimeout opts)" for now
    by (auto simp: OnOpen_def setDeadline_def SetDeadline_def Let_def timed_def)
  then show "fh_init opts st \<Longrightarrow> fh_inv opts st"
    by (auto simp: fh_init_def fh_inv_parts queue_inv_def shared_inv_def workers_inv_def pause_inv_def queue_ok_def pending_def i32_def Let_def)
       (auto simp: OnOpen_def setDeadline_def SetDeadline_def Let_def)
qed

lemma fh_inv_step: "fh_inv opts st \<Longrightarrow> fh_step opts env RR st st' \<Longrightarrow> fh_inv opts st'"
proof (erule fh_step_cases, goal_cases)
  case (1 s s' ws)
  then show ?case using callback_inv by simp
next
  case (2 s ws)
  then have ws: "ws = []" "submitted s = 1" "worker (conn s) = WorkerServing" "busy s (taken s)"
    by (auto simp: fh_inv_parts workers_inv_def split: list.split_asm if_split_asm)
  let ?t = "s\<lparr>submitted := submitted s - 1\<rparr>"
  have c: "same_core (conn s) (conn ?t)" "pushed ?t = pushed s" "taken ?t = taken s" "dropped ?t = dropped s" by simp_all
  show ?case using 2 ws core_kept [OF c] shared_kept [OF c(1-3), of opts] by (auto simp: fh_inv_parts workers_inv_def)
next
  case (3 s x s' res us vs)
  then have e: "us = []" "vs = []" by (auto simp: fh_inv_parts workers_inv_def append_eq_Cons_conv split: list.split_asm)
  with 3 show ?case using work_inv [of opts s x env RR s' res] by (cases res) simp_all
qed

interpretation fh_run: inductive_invariant "fh_init opts" "fh_step opts env RR" "fh_inv opts" for opts env RR
  by unfold_locales (rule fh_inv_init, assumption, rule fh_inv_step)

end
