(* ===== verification/FhPipeline.thy ===== *)
theory FhPipeline
  imports FhControl
begin

text \<open>
  What goes out on a connection: the answers to the requests in the order in which the requests were received, however
  the callbacks and the worker interleave. And what was received: the requests queued are the messages of the data.
\<close>

section \<open>Framing\<close>

text \<open>The framer over the pieces that arrived, as long as nothing has ended it.\<close>

fun feeds :: "fh_options \<Rightarrow> framer \<Rightarrow> string \<Rightarrow> string list \<Rightarrow> (framer \<times> item list \<times> string) option" where
  "feeds opts f p [] = Some (f, [], p)"
| "feeds opts f p (d # ds) =
     (case fr_split (p @ d) opts f of
        Some (f1, items, consumed, e) \<Rightarrow>
          if e \<noteq> 0 then None
          else (case feeds opts f1 (drop consumed (p @ d)) ds of
                  None \<Rightarrow> None
                | Some (f2, items', p2) \<Rightarrow> Some (f2, items @ items', p2))
      | None \<Rightarrow> None)"

lemma feeds_feed: "feeds opts f p ds = Some (f', items, p') \<Longrightarrow> feed opts f p ds = Some (items, p', 0)"
  by (induction opts f p ds arbitrary: items rule: feeds.induct)
     (fastforce simp: Let_def split: option.split_asm prod.split_asm if_split_asm)+

lemma feeds_snoc:
  "feeds opts f p ds = Some (f1, items, p1) \<Longrightarrow> fr_split (p1 @ d) opts f1 = Some (f2, items', n, 0) \<Longrightarrow>
     feeds opts f p (ds @ [d]) = Some (f2, items @ items', drop n (p1 @ d))"
  by (induction opts f p ds arbitrary: items rule: feeds.induct)
     (auto split: option.split_asm prod.split_asm if_split_asm)

definition framing_inv :: "fh_options \<Rightarrow> fh_sh \<Rightarrow> bool" where
  "framing_inv opts s \<longleftrightarrow> ((\<forall>r\<in>set (pushed s). \<not> final r) \<and> protocol (conn s) = None \<longrightarrow>
     (\<exists>items. feeds opts new_framer [] (arrived s) = Some (fc_framer (conn s), items, unread s) \<and> pushed s = map queued_of items))"

lemma framing_data:
  assumes inv: "fh_inv opts (s, ws)" and fi: "framing_inv opts s"
    and on: "onData opts now (unread s @ d) (conn s) = Some (c, items, n, submit)"
    and s': "conn s' = c" "unread s' = drop n (unread s @ d)" "arrived s' = arrived s @ [d]" "pushed s' = pushed s @ map queued_of items"
  shows "framing_inv opts s'"
proof -
  have q: "queue_ok (conn s)" and sh: "shared_inv opts s" using inv by (simp_all add: fh_inv_parts queue_inv_def Let_def)
  from q on show ?thesis
  proof (cases rule: onData_effect)
    case ignored
    then have "protocol c = protocol (conn s)" by (simp add: same_core_def)
    then show ?thesis using ignored shared_invD(6) [OF sh] s' by (auto simp: framing_inv_def)
  next
    case (framed f e F)
    show ?thesis
    proof (cases "e = 0")
      case False
      then show ?thesis using fr_split_end [OF framed(3)] s' by (auto simp: framing_inv_def)
    next
      case True
      then show ?thesis using fi framed(2,3,7) feeds_snoc [of opts new_framer "[]" "arrived s" "fc_framer (conn s)" _ "unread s" d f items n] s'
        by (auto simp: framing_inv_def)
    qed
  qed
qed

section \<open>Answers\<close>

definition error_text :: "fh_env \<Rightarrow> int \<Rightarrow> string" where
  "error_text env code = r_out (writeError env code (new_response))"

lemma writeError_text: "writeError env code w = w\<lparr>r_out := r_out w @ error_text env code\<rparr>"
  by (simp add: error_text_def writeError_def new_response_def appendStatusLine_def appendContentLength_def appendDate_def Let_def)

definition response_to :: "bool \<Rightarrow> fh_request \<Rightarrow> string \<Rightarrow> bool" where
  "response_to keep q a \<longleftrightarrow>
     (\<exists>ls H E B w. a = H @ E \<and> H = concat (map (\<lambda>l. l @ CRLF) ls) @ CRLF \<and> list_all plain_line ls
       \<and> bytes_Index headerTerminator (H @ E) = Some (length H - 4) \<and> delimited H B E keep w \<and> r_req w = q)"

text \<open>\<open>a\<close> is the answer to \<open>r\<close>, after which the connection is kept or not.\<close>

definition answered :: "fh_env \<Rightarrow> read_request \<Rightarrow> bool \<Rightarrow> queued \<Rightarrow> string \<Rightarrow> bool" where
  "answered env RR keep r a \<longleftrightarrow>
     (if rq_status r = 0 then
        case readRequest RR r of
          Inl code \<Rightarrow> \<not> keep \<and> a = error_text env code
        | Inr q \<Rightarrow> response_to keep (as_request q) a
      else if rq_status r = 100 then keep \<and> a = continueResponse
      else \<not> keep \<and> a = (if rq_status r = statusHandoff then [] else error_text env (rq_status r)))"

lemma finish_response:
  assumes "env_ok env" and "answering q pre w B" and "finish env w = (keep, w')"
  shows "\<exists>a. r_wire w' @ r_out w' = pre @ a \<and> response_to keep q a"
proof -
  obtain P E where P: "all_out w' = pre @ P @ CRLF @ E" "header_lines P" "P \<noteq> []" "delimited P B E keep w'" "r_req w' = q"
    using finish_delimited [OF assms] by blast
  obtain ls where ls: "P = concat (map (\<lambda>l. l @ CRLF) ls)" "list_all plain_line ls" using P(2) by (auto simp: header_lines_def)
  have "bytes_Index headerTerminator ((P @ CRLF) @ E) = Some (length (P @ CRLF) - 4)" using header_block_end [OF P(2,3), of E] by simp
  then have "response_to keep q ((P @ CRLF) @ E)" using ls delimited_more [OF P(4)] P(5) unfolding response_to_def by blast
  then show ?thesis using P(1) by (auto simp: all_out_def)
qed


section \<open>The order of the answers\<close>

text \<open>Everything taken has been answered, up to what the worker has collected; and, at any time, the answers come in order.\<close>

definition at_rest :: "fh_env \<Rightarrow> read_request \<Rightarrow> fh_sh \<Rightarrow> string \<Rightarrow> bool" where
  "at_rest env RR s collected \<longleftrightarrow> list_all2 (answered env RR True) (taken s) (answers s) \<and> wire (conn s) @ collected = concat (answers s)"

definition ordered :: "fh_env \<Rightarrow> read_request \<Rightarrow> fh_sh \<Rightarrow> string \<Rightarrow> bool" where
  "ordered env RR s collected \<longleftrightarrow> prefix (concat (answers s)) (wire (conn s) @ collected) \<and> length (answers s) \<le> length (taken s) \<and>
     list_all2 (\<lambda>r a. \<exists>keep. answered env RR keep r a) (take (length (answers s)) (taken s)) (answers s)"

definition handling :: "fh_env \<Rightarrow> read_request \<Rightarrow> fh_sh \<Rightarrow> queued \<Rightarrow> bool" where
  "handling env RR s r \<longleftrightarrow> (\<exists>T. taken s = T @ [r] \<and> list_all2 (answered env RR True) T (answers s))"

definition in_handler :: "fh_env \<Rightarrow> read_request \<Rightarrow> fh_sh \<Rightarrow> queued \<Rightarrow> string \<Rightarrow> response \<Rightarrow> bool" where
  "in_handler env RR s r B w \<longleftrightarrow> handling env RR s r \<and> rq_status r = 0 \<and>
     (\<exists>q. readRequest RR r = Inr q \<and> answering (as_request q) (concat (answers s)) (load [] (conn s) w) B) \<and>
     (\<not> r_streamed w \<longrightarrow> wire (conn s) @ take (r_outStart w) (r_out w) = concat (answers s) \<and> r_outStart w \<le> length (r_out w))"

definition resting :: "fh_env \<Rightarrow> read_request \<Rightarrow> fh_sh \<Rightarrow> string \<Rightarrow> bool" where
  "resting env RR s collected \<longleftrightarrow>
     (if protocol (conn s) = None \<and> worker (conn s) \<noteq> WorkerClosing then at_rest env RR s collected else ordered env RR s collected)"

fun pipe :: "fh_env \<Rightarrow> read_request \<Rightarrow> fh_sh \<Rightarrow> fh_worker \<Rightarrow> bool" where
  "pipe env RR s (W_Top, w) \<longleftrightarrow> resting env RR s (r_out w)"
| "pipe env RR s (W_Flush, w) \<longleftrightarrow> resting env RR s (r_out w)"
| "pipe env RR s (W_Resume, w) \<longleftrightarrow> resting env RR s []"
| "pipe env RR s (W_Take r, w) \<longleftrightarrow> handling env RR s r \<and> wire (conn s) @ r_out w = concat (answers s)"
| "pipe env RR s (W_Handler r B, w) \<longleftrightarrow> in_handler env RR s r B w"
| "pipe env RR s (W_Wait r B blocked, w) \<longleftrightarrow> in_handler env RR s r B w"
| "pipe env RR s (W_Upgrade r B, w) \<longleftrightarrow> handling env RR s r \<and> wire (conn s) @ r_out w = concat (answers s)"
| "pipe env RR s (W_Upgraded r, w) \<longleftrightarrow> ordered env RR s (r_out w)"
| "pipe env RR s (W_End, w) \<longleftrightarrow> ordered env RR s (r_out w)"
| "pipe env RR s (W_Close, w) \<longleftrightarrow> ordered env RR s []"
| "pipe env RR s (W_Closing, w) \<longleftrightarrow> ordered env RR s []"

definition pipe_inv :: "fh_env \<Rightarrow> read_request \<Rightarrow> fh_sys \<Rightarrow> bool" where
  "pipe_inv env RR st \<longleftrightarrow>
     (let (s, ws) = st in
      failed s \<or> closed (conn s) \<or> (case ws of [] \<Rightarrow> resting env RR s [] | x # _ \<Rightarrow> pipe env RR s x))"

lemma list_all2_answered: "list_all2 (answered env RR True) T A \<Longrightarrow> list_all2 (\<lambda>r a. \<exists>keep. answered env RR keep r a) T A"
  by (erule list_all2_mono) blast

lemma at_rest_ordered: "at_rest env RR s o' \<Longrightarrow> ordered env RR s o'"
  using list_all2_answered list_all2_lengthD by (fastforce simp: at_rest_def ordered_def)

lemma handling_ordered:
  assumes "handling env RR s r" and "prefix (concat (answers s)) (wire (conn s) @ o')"
  shows "ordered env RR s o'"
proof -
  obtain T where T: "taken s = T @ [r]" "list_all2 (answered env RR True) T (answers s)" using assms(1) by (auto simp: handling_def)
  then have "length (answers s) = length T" using list_all2_lengthD by fastforce
  then show ?thesis using T list_all2_answered assms(2) by (auto simp: ordered_def)
qed

lemma resting_ordered: "resting env RR s o' \<Longrightarrow> ordered env RR s o'"
  using at_rest_ordered by (auto simp: resting_def split: if_split_asm)

text \<open>The invariant depends on little.\<close>

definition same_pipe :: "fh_sh \<Rightarrow> fh_sh \<Rightarrow> bool" where
  "same_pipe s s' \<longleftrightarrow> wire (conn s') = wire (conn s) \<and> protocol (conn s') = protocol (conn s) \<and>
     (worker (conn s') = WorkerClosing \<longleftrightarrow> worker (conn s) = WorkerClosing) \<and> closed (conn s') = closed (conn s) \<and>
     taken s' = taken s \<and> answers s' = answers s"

lemma same_pipe_eq:
  assumes "same_pipe s s'"
  shows "at_rest env RR s' o' = at_rest env RR s o'" "ordered env RR s' o' = ordered env RR s o'" "resting env RR s' o' = resting env RR s o'"
    "handling env RR s' r = handling env RR s r" "in_handler env RR s' r B w = in_handler env RR s r B w"
  using assms by (simp_all add: same_pipe_def at_rest_def ordered_def resting_def handling_def in_handler_def load_def)

lemma same_pipe_pipe: "same_pipe s s' \<Longrightarrow> pipe env RR s' x = pipe env RR s x"
  by (cases "(env, RR, s, x)" rule: pipe.cases) (simp_all add: same_pipe_eq, simp_all add: same_pipe_def)

lemma onData_wire: "onData opts now data c = Some (c', items, n, submit) \<Longrightarrow> queue_ok c \<Longrightarrow>
    wire c' = wire c \<and> protocol c' = protocol c \<and> (worker c' = WorkerClosing \<longleftrightarrow> worker c = WorkerClosing) \<and> closed c' = closed c"
  by (erule onData_effect [rotated]) (auto simp: same_core_def)

lemma callback_pipe:
  assumes "callback opts s s'" and "queue_ok (conn s)" and "\<not> closed (conn s')"
  shows "same_pipe s s' \<and> failed s' = failed s"
  using assms(1)
proof cases
  case (cb_data d now c items consumed submit)
  then show ?thesis using onData_wire assms(2) by (auto simp: same_pipe_def)
next
  case (cb_writable now c resume)
  then show ?thesis by (auto simp: same_pipe_def onWritable_def Let_def wakeWriter_def setDeadline_def SetDeadline_def split: if_split_asm option.split_asm)
next
  case (cb_half_close c keep)
  then show ?thesis by (auto simp: same_pipe_def halfClose_def cancel_context_def split: if_split_asm)
next
  case (cb_close c p)
  then have "closed c" by (auto simp: onClose_def Let_def wakeWriter_def releaseQueue_def cancel_context_def split: option.split_asm if_split_asm)
  then show ?thesis using cb_close assms(3) by simp
next
  case (cb_route c p)
  then show ?thesis by (auto simp: same_pipe_def route_def split: if_split_asm option.split_asm)
qed (auto simp: same_pipe_def context_of_def)


lemma flush_calm: "r_io w = [] \<Longrightarrow> flush w = (None, w\<lparr>r_wire := r_wire w @ r_out w, r_out := []\<rparr>)"
  by (auto simp: flush_def conn_Write_calm Let_def)

text \<open>As long as a response has not started to go out, the responses before it are where they were.\<close>

definition appended :: "response \<Rightarrow> response \<Rightarrow> bool" where
  "appended w w' \<longleftrightarrow> (\<not> r_streamed w' \<longrightarrow> \<not> r_streamed w \<and> r_wire w' = r_wire w \<and> (\<exists>x. r_out w' = r_out w @ x))"

lemma appended_trans: "appended u v \<Longrightarrow> appended v w \<Longrightarrow> appended u w"
  by (auto simp: appended_def)

lemma commitHeader_appended: "appended w (commitHeader w)"
  using commitHeader_lines [of w] by (auto simp: appended_def)

lemma default_header_appended: "appended w (default_header w)"
  using commitHeader_appended [of "w\<lparr>r_wroteHeader := True, r_status := 200\<rparr>"] by (simp add: default_header_def appended_def)

lemma writeHeader_streamed: "r_streamed (writeHeader env p st w) = st"
  by (simp add: writeHeader_def Let_def split: prod.split)

lemma send_streamed: "send env p w = (err, w') \<Longrightarrow> r_streamed w'"
proof -
  define v where "v = (if \<not> r_streamed w then writeHeader env p True w else w)"
  have v: "r_streamed v" by (simp add: v_def writeHeader_streamed)
  have cw: "conn_Write q u = (er, u') \<Longrightarrow> r_streamed u' = r_streamed u" for q u er u'
    by (auto simp: conn_Write_def io_next_def split: list.split_asm option.split_asm)
  have io: "io_next v = (x, u) \<Longrightarrow> r_streamed u" for x u using v by (auto simp: io_next_def split: list.split_asm)
  show "send env p w = (err, w') \<Longrightarrow> r_streamed w'"
    using v by (auto simp: send_def Let_def v_def [symmetric] dest!: io cw split: if_split_asm prod.split_asm option.split_asm)
qed

lemma stream_loop_streamed: "stream_loop env p w = (rest, err, w') \<Longrightarrow> r_streamed w \<Longrightarrow> r_streamed w'"
proof (induction env p w rule: stream_loop.induct)
  case (1 env p w)
  then show ?case
    by (subst (asm) (2) stream_loop.simps) (auto dest: send_streamed simp: Let_def split: if_split_asm prod.split_asm)
qed

lemma run_handler_appended: "run_handler env [op] w B = Some (w', B') \<Longrightarrow> appended w w'"
proof (cases op)
  case (Do_Write p)
  obtain e w1 where b: "beforeWrite (length p) w = (e, w1)" by (cases "beforeWrite (length p) w")
  have kw: "appended w w1" using b default_header_appended [of w] by (auto simp: beforeWrite_def appended_def Let_def split: if_split_asm)
  obtain n err w2 where f: "fh_Write env p w = (n, err, w2)" by (metis prod_cases3)
  obtain rest er w3 where sl: "stream_loop env p w1 = (rest, er, w3)" by (metis prod_cases3)
  have "r_streamed w3" if "length (r_body w1) + length p > maxBufferedBody"
    using sl that by (subst (asm) stream_loop.simps) (auto dest!: send_streamed stream_loop_streamed simp: Let_def split: if_split_asm prod.split_asm)
  then have "appended w1 w2" using f b sl
    by (auto simp: fh_Write_def stream_def appended_def split: option.split_asm if_split_asm)
  then show "run_handler env [op] w B = Some (w', B') \<Longrightarrow> appended w w'" using Do_Write f kw appended_trans by auto
next
  case (Do_WriteHeader code)
  then show "run_handler env [op] w B = Some (w', B') \<Longrightarrow> appended w w'"
    using commitHeader_appended [of "w\<lparr>r_wroteHeader := True, r_status := code\<rparr>"] by (auto simp: WriteHeader_def appended_def split: if_split_asm)
qed (auto simp: appended_def)

lemma in_handler_call:
  assumes "env_ok env" and "in_handler env RR s r B w" and "\<not> closed (conn s)"
    and run: "run_handler env [op] (load [] (conn s) w) B = Some (w', B')"
    and s': "conn s' = written w' (conn s)" "taken s' = taken s" "answers s' = answers s"
  shows "in_handler env RR s' r B' w'"
proof -
  obtain q where q: "readRequest RR r = Inr q" "answering (as_request q) (concat (answers s)) (load [] (conn s) w) B"
      "handling env RR s r" "rq_status r = 0"
      "\<not> r_streamed w \<longrightarrow> wire (conn s) @ take (r_outStart w) (r_out w) = concat (answers s) \<and> r_outStart w \<le> length (r_out w)"
    using assms(2) by (auto simp: in_handler_def)
  have a: "answering (as_request q) (concat (answers s)) w' B'" using run_handler_answering [OF assms(1) q(2) run] .
  then have "load [] (conn s') w' = w'" using assms(3) by (simp add: load_def s' answering_def calm_def written_def)
  moreover have "handling env RR s' r" using q(3) s' by (simp add: handling_def)
  moreover have "appended (load [] (conn s) w) w'" "kept (load [] (conn s) w) w'" using run_handler_appended run_handler_kept run by blast+
  ultimately show ?thesis using q a s' by (auto simp: in_handler_def appended_def kept_def load_def)
qed

lemma in_handler_start:
  assumes "pipe env RR s (W_Take r, w)" and "\<not> closed (conn s)" and h: "handle opts now env RR ok r (conn s) (load io (conn s) w) = (c, w', Run)"
    and s': "conn s' = c" "taken s' = taken s" "answers s' = answers s"
  shows "in_handler env RR s' r [] w'"
proof -
  obtain q where q: "rq_status r = 0" "readRequest RR r = Inr q" "w' = start ((load io (conn s) w)\<lparr>r_req := as_request q\<rparr>)"
      "wire c = wire (conn s)" "closed c = closed (conn s)"
    using h by (auto simp: handle_def handle_message_def Let_def split: if_split_asm sum.split_asm prod.split_asm)
  have p: "handling env RR s r" "wire (conn s) @ r_out w = concat (answers s)" using assms(1) by simp_all
  have "load [] c w' = start ((load [] (conn s) w)\<lparr>r_req := as_request q\<rparr>)" using q by (simp add: load_def start_def)
  then have "answering (as_request q) (concat (answers s)) (load [] c w') []"
    using answering_start [of "(load [] (conn s) w)\<lparr>r_req := as_request q\<rparr>"] assms(2) p(2) by (simp add: load_def)
  moreover have "handling env RR s' r" using p(1) s' by (simp add: handling_def)
  ultimately show ?thesis using q p s' by (auto simp: in_handler_def start_def load_def)
qed

lemma handling_answered:
  assumes "handling env RR s r" and "taken s' = taken s" "answers s' = answers s @ [a]" and "answered env RR keep r a"
    and "wire (conn s') @ o' = concat (answers s) @ a"
  shows "ordered env RR s' o'" and "keep \<Longrightarrow> at_rest env RR s' o'"
proof -
  obtain T where T: "taken s = T @ [r]" "list_all2 (answered env RR True) T (answers s)" using assms(1) by (auto simp: handling_def)
  then have l: "length (answers s) = length T" using list_all2_lengthD by fastforce
  have "list_all2 (\<lambda>r a. \<exists>keep. answered env RR keep r a) (T @ [r]) (answers s @ [a])"
    using list_all2_answered [OF T(2)] assms(4) by (auto intro!: list_all2_appendI)
  then show "ordered env RR s' o'" using assms T l by (simp add: ordered_def)
  show "keep \<Longrightarrow> at_rest env RR s' o'" using assms T by (auto simp: at_rest_def intro!: list_all2_appendI)
qed


lemma in_handler_ordered:
  assumes "in_handler env RR s r B w"
  shows "ordered env RR s (r_out w)" and "\<not> r_streamed w \<Longrightarrow> ordered env RR s (take (r_outStart w) (r_out w))"
proof -
  obtain q where q: "answering (as_request q) (concat (answers s)) (load [] (conn s) w) B" "handling env RR s r"
    using assms by (auto simp: in_handler_def)
  have "prefix (concat (answers s)) (all_out (load [] (conn s) w))"
    using q(1) by (auto simp: answering_def begun_def sent_def split: if_split_asm)
  then show "ordered env RR s (r_out w)" using q(2) by (intro handling_ordered) (simp_all add: all_out_def load_def)
  show "\<not> r_streamed w \<Longrightarrow> ordered env RR s (take (r_outStart w) (r_out w))"
    using assms q(2) by (intro handling_ordered) (auto simp: in_handler_def)
qed

lemma handle_answer:
  assumes p: "pipe env RR s (W_Take r, w)" and h: "handle opts now env RR ok r (conn s) (load [] (conn s) w) = (c, w', k)" and k: "k \<noteq> Run"
  shows "\<exists>a. r_wire w' @ r_out w' = concat (answers s) @ a \<and> answered env RR (k = Keep) r a" and "protocol c = protocol (conn s)" "closed c = closed (conn s)"
proof -
  have o: "wire (conn s) @ r_out w = concat (answers s)" using p by simp
  show "\<exists>a. r_wire w' @ r_out w' = concat (answers s) @ a \<and> answered env RR (k = Keep) r a"
  proof (cases "rq_status r = 0 \<or> rq_status r = 100 \<or> rq_status r \<noteq> statusHandoff")
    case True
    then show ?thesis using h k o
      by (auto simp: handle_def handle_message_def answered_def writeError_text load_def Let_def append_assoc [symmetric]
          simp del: append_assoc split: if_split_asm sum.split_asm prod.split_asm)
  next
    case False
    then have "w' = (load [] (conn s) w)\<lparr>r_wire := wire (conn s) @ r_out w, r_out := []\<rparr>" "k = Drop"
      using h k by (auto simp: handle_def flush_calm load_def Let_def split: if_split_asm prod.split_asm)
    then show ?thesis using False o by (auto simp: answered_def)
  qed
  show "protocol c = protocol (conn s)" "closed c = closed (conn s)" using handle_core [OF h] by (simp_all add: same_core_def)
qed


lemma serve_pipe:
  assumes rest: "resting env RR s (r_out w)" and inv: "fh_inv opts (s, [(W_Top, w)])"
    and sv: "serveQueue opts now (\<not> backlog s) (r_out w \<noteq> []) (conn s) = (c, a)" and nc: "\<not> closed c" and s': "conn s' = c" "answers s' = answers s"
  shows "a = A_Flush \<Longrightarrow> taken s' = taken s \<Longrightarrow> resting env RR s' (r_out w)"
    and "a = A_Close \<Longrightarrow> taken s' = taken s \<Longrightarrow> ordered env RR s' []"
    and "a = A_Stop resume \<Longrightarrow> taken s' = taken s \<Longrightarrow> resting env RR s' []"
    and "a = A_Wait \<Longrightarrow> taken s' = taken s \<Longrightarrow> resting env RR s' []"
    and "a = A_Handle r \<Longrightarrow> taken s' = taken s @ [r] \<Longrightarrow> pipe env RR s' (W_Take r, w)"
proof -
  have wk: "worker (conn s) = WorkerServing" "queue_inv s" using inv by (auto simp: fh_inv_parts workers_inv_def busy_def)
  have nc': "\<not> closed (conn s)" using sv nc by (auto simp: serveQueue_def Let_def setDeadline_def SetDeadline_def pop_def split: if_split_asm)
  have cl: "c = conn s" if "a = A_Flush \<or> a = A_Close" using sv that by (auto simp: serveQueue_def Let_def split: if_split_asm prod.split_asm)
  have em: "r_out w = []" if "a = A_Close \<or> a = A_Stop resume \<or> a = A_Wait" for resume
    using sv that nc' by (auto simp: serveQueue_def Let_def split: if_split_asm prod.split_asm)
  have st: "wire c = wire (conn s)" "protocol c = protocol (conn s)" "worker c \<noteq> WorkerClosing" if "a = A_Stop resume \<or> a = A_Wait" for resume
    using sv that by (auto simp: serveQueue_def Let_def setDeadline_def SetDeadline_def split: if_split_asm prod.split_asm)
  have sp: "same_pipe s s'" if "a = A_Flush \<or> a = A_Close \<or> a = A_Stop resume \<or> a = A_Wait" "taken s' = taken s" for resume
    using that cl st [of resume] wk nc nc' s' by (auto simp: same_pipe_def)
  show "a = A_Flush \<Longrightarrow> taken s' = taken s \<Longrightarrow> resting env RR s' (r_out w)" using same_pipe_eq(3) [OF sp] rest by blast
  show "a = A_Close \<Longrightarrow> taken s' = taken s \<Longrightarrow> ordered env RR s' []"
    using same_pipe_eq(2) [OF sp] em resting_ordered [OF rest] by metis
  show "a = A_Stop resume \<Longrightarrow> taken s' = taken s \<Longrightarrow> resting env RR s' []" "a = A_Wait \<Longrightarrow> taken s' = taken s \<Longrightarrow> resting env RR s' []"
    using same_pipe_eq(3) [OF sp] em rest by metis+
  show "pipe env RR s' (W_Take r, w)" if "a = A_Handle r" "taken s' = taken s @ [r]"
  proof -
    have p: "pop (conn s) = (r, c)" "queue (conn s) \<noteq> []" using sv that by (auto simp: serveQueue_def Let_def split: if_split_asm prod.split_asm)
    have "protocol (conn s) = None" using p(2) wk(2) queue_ok_empty by (auto simp: queue_inv_def Let_def)
    then have "at_rest env RR s (r_out w)" using rest wk by (simp add: resting_def)
    moreover have "wire c = wire (conn s)" using p(1) by (auto simp: pop_def Let_def)
    ultimately show ?thesis using s' that(2) by (auto simp: at_rest_def handling_def)
  qed
qed

lemma switch_pipe:
  assumes p: "handling env RR s r" "wire (conn s) @ r_out w = concat (answers s)"
    and u: "upgrade_switch opts now env p ((conn s)\<lparr>deadline := dl\<rparr>) (load [] (conn s) w) = (c, w', err)"
    and s': "conn s' = c" "taken s' = taken s" "answers s' = answers s"
  shows "ordered env RR s' (r_out w')" and "closed c = closed (conn s)"
proof -
  have sw: "\<exists>x. switching_header h b = b @ x" for h b
  proof -
    have "\<exists>x. fold (\<lambda>(name, vs) b. if name \<noteq> ''Content-Length'' \<and> name \<noteq> ''Transfer-Encoding'' \<and> validName name
        then appendHeaderValues b name vs else b) h b = b @ x" for b
    proof (induction h arbitrary: b)
      case (Cons nv h)
      obtain name vs where nv: "nv = (name, vs)" by (cases nv)
      have av: "\<exists>x. appendHeaderValues b name vs = b @ x" for b
        by (induction vs arbitrary: b) (auto, metis append_assoc)
      show ?case using Cons av [of b] by (simp add: nv) (metis append_assoc)
    qed simp
    from this [of "b @ ''HTTP/1.1 101 Switching Protocols'' @ CRLF"] show ?thesis by (auto simp: switching_header_def)
  qed
  obtain x where "wire c @ r_out w' = wire (conn s) @ r_out w @ x \<and> closed c = closed (conn s)"
  proof (cases "closed (conn s) \<or> halfClosed (conn s) \<or> queue (conn s) \<noteq> []")
    case True
    then show ?thesis using u that [of "[]"] that [of "error_text env 400"]
      by (auto simp: upgrade_switch_def writeError_text load_def split: if_split_asm)
  next
    case False
    obtain x where "switching_header (r_header w) (r_out w) = r_out w @ x" using sw by blast
    with False show ?thesis using u that [of x]
      by (auto simp: upgrade_switch_def flush_calm load_def written_def releaseQueue_def SetDeadline_def Let_def split: if_split_asm)
  qed
  then have x: "wire c @ r_out w' = concat (answers s) @ x" "closed c = closed (conn s)" using p(2) by (metis append_assoc)+
  show "closed c = closed (conn s)" by (rule x(2))
  have "handling env RR s' r" using p(1) s' by (simp add: handling_def)
  then show "ordered env RR s' (r_out w')" using x(1) s' by (intro handling_ordered) (simp_all add: prefix_def)
qed


lemma flush_pipe:
  assumes "flush (load [] (conn s) w) = (err, w')" and "conn s' = written w' (conn s)" "taken s' = taken s" "answers s' = answers s"
  shows "err = None" "r_out w' = []" "resting env RR s (r_out w) \<Longrightarrow> resting env RR s' []" "ordered env RR s (r_out w) \<Longrightarrow> ordered env RR s' []"
proof -
  have w: "err = None" "w' = (load [] (conn s) w)\<lparr>r_wire := wire (conn s) @ r_out w, r_out := []\<rparr>"
    using assms(1) by (auto simp: flush_calm load_def)
  then have "wire (conn s') = wire (conn s) @ r_out w" "protocol (conn s') = protocol (conn s)" "worker (conn s') = worker (conn s)"
    using assms(2) by simp_all
  then show "resting env RR s (r_out w) \<Longrightarrow> resting env RR s' []" "ordered env RR s (r_out w) \<Longrightarrow> ordered env RR s' []"
    using assms by (auto simp: resting_def at_rest_def ordered_def)
  show "err = None" "r_out w' = []" using w by simp_all
qed

lemma return_pipe:
  assumes env: "env_ok env" and h: "in_handler env RR s r B w" and up: "\<not> r_upgraded w" and nc: "\<not> closed (conn s)" and pr: "protocol (conn s) = None"
    and hd: "handled env True (conn s) (load [] (conn s) w) = (c, w', keep)"
    and s': "conn s' = written w' c" "taken s' = taken s" "answers s' = answers s @ [drop (length (concat (answers s))) (r_wire w' @ r_out w')]"
  shows "pipe env RR s' (if keep then W_Top else W_End, w')"
proof -
  obtain q where q: "readRequest RR r = Inr q" "answering (as_request q) (concat (answers s)) (load [] (conn s) w) B" "handling env RR s r" "rq_status r = 0"
    using h by (auto simp: in_handler_def)
  have f: "finish env (load [] (conn s) w) = (keep, w')" "c = conn s"
    using hd up by (auto simp: handled_def load_def Let_def split: prod.split_asm)
  obtain a where a: "r_wire w' @ r_out w' = concat (answers s) @ a" "response_to keep (as_request q) a"
    using finish_response [OF env q(2) f(1)] by blast
  then have an: "answers s' = answers s @ [a]" "answered env RR keep r a" "wire (conn s') @ r_out w' = concat (answers s) @ a"
    using s' q by (simp_all add: answered_def)
  note ha = handling_answered [OF q(3) s'(2) an]
  have "worker (conn s') = worker (conn s)" "protocol (conn s') = None" using s' f pr by simp_all
  then show ?thesis using ha at_rest_ordered by (cases keep) (auto simp: resting_def)
qed

lemma work_pipe:
  assumes env: "env_ok env" and inv: "fh_inv opts (s, [x])" and pi: "pipe_inv env RR (s, [x])" and st: "work opts env RR s x s' res"
  shows "pipe_inv env RR (s', case res of None \<Rightarrow> [] | Some y \<Rightarrow> [y])"
proof (cases "failed s' \<or> closed (conn s')")
  case True
  then show ?thesis by (auto simp: pipe_inv_def)
next
  case False
  then have nf: "\<not> failed s'" "\<not> closed (conn s')" by simp_all
  have x: "worker_inv s x" using inv by (simp add: fh_inv_parts workers_inv_def)
  have p: "pipe env RR s x" if "\<not> failed s" "\<not> closed (conn s)" using pi that by (simp add: pipe_inv_def)
  have goal: ?thesis if "case res of None \<Rightarrow> resting env RR s' [] | Some y \<Rightarrow> pipe env RR s' y" using that by (cases res) (simp_all add: pipe_inv_def)
  have served: "\<not> closed (conn s)" if "serveQueue opts now b v (conn s) = (c, a)" "\<not> closed c" for now b v c a
    using that by (auto simp: serveQueue_def Let_def setDeadline_def SetDeadline_def pop_def split: if_split_asm)
  from st show ?thesis
  proof cases
    case (wk_flush_first now w c)
    then show ?thesis using serve_pipe(1) [of env RR s w opts now c A_Flush s'] served inv nf p by (intro goal) auto
  next
    case (wk_half_closed now w c)
    then show ?thesis using serve_pipe(2) [of env RR s w opts now c A_Close s'] served inv nf p by (intro goal) auto
  next
    case (wk_stop now w c resume)
    then show ?thesis using serve_pipe(3) [of env RR s w opts now c "A_Stop resume" s' resume] served inv nf p by (intro goal) auto
  next
    case (wk_wait now w c)
    then show ?thesis using serve_pipe(4) [of env RR s w opts now c A_Wait s'] served inv nf p by (intro goal) auto
  next
    case (wk_take now w c r)
    then show ?thesis using serve_pipe(5) [of env RR s w opts now c "A_Handle r" s' r] served inv nf p by (intro goal) auto
  next
    case (wk_flush io w err w' fill)
    then show ?thesis using flush_pipe [of s w err w' s'] nf p by (intro goal) auto
  next
    case (wk_resume w)
    then have "same_pipe s s'" by (simp add: same_pipe_def)
    then show ?thesis using wk_resume nf p by (intro goal) (auto simp: same_pipe_eq)
  next
    case (wk_kept now ok r io w c w' fill)
    then have io: "io = []" "\<not> failed s" "\<not> closed c" using nf by auto
    have nc: "\<not> closed (conn s)" using handle_core [OF wk_kept(4)] io by (simp add: same_core_def)
    have pt: "pipe env RR s (W_Take r, w)" using p wk_kept io nc by simp
    obtain a where a: "r_wire w' @ r_out w' = concat (answers s) @ a" "answered env RR True r a"
      using handle_answer [OF pt wk_kept(4) [unfolded io(1)]] by auto
    have ol: "wire (conn s) @ r_out w = concat (answers s)" using pt by simp
    have "at_rest env RR s' (r_out w')"
      using handling_answered(2) [of env RR s r s' a True] pt a ol wk_kept by simp
    then show ?thesis using x wk_kept handle_core [OF wk_kept(4)] at_rest_ordered by (intro goal) (auto simp: resting_def)
  next
    case (wk_refused now ok r io w c w' fill)
    then have io: "io = []" "\<not> failed s" "\<not> closed c" using nf by auto
    have nc: "\<not> closed (conn s)" using handle_core [OF wk_refused(4)] io by (simp add: same_core_def)
    have pt: "pipe env RR s (W_Take r, w)" using p wk_refused io nc by simp
    obtain a where a: "r_wire w' @ r_out w' = concat (answers s) @ a" "answered env RR False r a"
      using handle_answer [OF pt wk_refused(4) [unfolded io(1)]] by auto
    have ol: "wire (conn s) @ r_out w = concat (answers s)" using pt by simp
    have "ordered env RR s' (r_out w')"
      using handling_answered(1) [of env RR s r s' a False] pt a ol wk_refused by simp
    then show ?thesis using wk_refused by (intro goal) auto
  next
    case (wk_run now ok r io w c w')
    then have nc: "\<not> closed (conn s)" using handle_core [OF wk_run(4)] nf by (simp add: same_core_def)
    then show ?thesis using in_handler_start [of env RR s r w opts now ok io c w' s'] wk_run nf p by (intro goal) auto
  next
    case (wk_call op io w B w' B' r fill)
    then show ?thesis using in_handler_call [OF env, of RR s r B w op w' B' s'] nf p by (intro goal) auto
  next
    case (wk_wait_begin r B w)
    have "same_pipe s s'" using wk_wait_begin by (auto simp: same_pipe_def wait_begin_def split: option.split)
    moreover from this have "\<not> closed (conn s)" using nf by (simp add: same_pipe_def)
    ultimately show ?thesis using wk_wait_begin nf p by (intro goal) (simp add: same_pipe_eq)
  next
    case (wk_wait_look r B w)
    then show ?thesis using nf p by (intro goal) auto
  next
    case (wk_wait_receive c r B w)
    have "same_pipe s s'" using wk_wait_receive by (auto simp: same_pipe_def wait_receive_def split: if_split_asm)
    moreover from this have "\<not> closed (conn s)" using nf by (simp add: same_pipe_def)
    ultimately show ?thesis using wk_wait_receive nf p by (intro goal) (simp add: same_pipe_eq)
  next
    case (wk_wait_expired r B w)
    then show ?thesis using nf p by (intro goal) auto
  next
    case (wk_upgrade w c w' r B)
    then have c: "wire c = wire (conn s)" "closed c = closed (conn s)" "r_out w' = take (r_outStart w) (r_out w)" "\<not> r_streamed w"
      by (auto simp: upgrade_begin_def split: if_split_asm)
    then show ?thesis using wk_upgrade nf p by (intro goal) (auto simp: in_handler_def handling_def)
  next
    case (wk_switch now p' dl io w c w' err r B fill)
    then have io: "io = []" "\<not> failed s" "\<not> closed c" using nf by auto
    note sw = switch_pipe [of env RR s r w opts now p' dl c w' err s']
    have "\<not> closed (conn s)" using sw(2) io wk_switch by (auto simp: upgrade_switch_def split: if_split_asm)
    then show ?thesis using sw(1) io wk_switch p by (intro goal) auto
  next
    case (wk_upgrade_panic r B w)
    then show ?thesis using nf p handling_ordered by (intro goal) auto
  next
    case (wk_upgraded ok w c w' keep r)
    then have c: "wire c = wire (conn s)" "closed c = closed (conn s)" "protocol c = protocol (conn s)" "r_out w' = r_out w" "keep \<longrightarrow> protocol c \<noteq> None"
      using x by (auto simp: handled_def endContext_def cancel_context_def split: if_split_asm)
    then have "ordered env RR s' (r_out w')" using wk_upgraded nf p by (auto simp: ordered_def)
    then show ?thesis using wk_upgraded c by (intro goal) (auto simp: resting_def)
  next
    case (wk_return io w c w' keep r B fill)
    then have io: "io = []" "\<not> failed s" "\<not> closed c" using nf by auto
    have "\<not> closed (conn s)" using handled_core [OF wk_return(4)] io by (simp add: same_core_def)
    then show ?thesis using return_pipe [OF env, of RR s r B w c w' keep s'] io wk_return p x by (intro goal) auto
  next
    case (wk_panic r B w)
    then show ?thesis using nf p in_handler_ordered [of env RR s r B w] x by (intro goal) (auto simp: handler_failed_def)
  next
    case (wk_last_flush io w err w' fill)
    then show ?thesis using flush_pipe [of s w err w' s'] nf p by (intro goal) auto
  next
    case (wk_mark w)
    then show ?thesis using nf p by (intro goal) (auto simp: ordered_def mark_closing_def)
  next
    case (wk_close w now)
    then show ?thesis using nf p x by (intro goal) (auto simp: resting_def ordered_def close_conn_def SetDeadline_def)
  qed
qed


section \<open>Every reachable state\<close>

definition same_framing :: "fh_sh \<Rightarrow> fh_sh \<Rightarrow> bool" where
  "same_framing s s' \<longleftrightarrow> pushed s' = pushed s \<and> arrived s' = arrived s \<and> unread s' = unread s \<and>
     (protocol (conn s') = None \<longrightarrow> protocol (conn s) = None \<and> fc_framer (conn s') = fc_framer (conn s))"

lemma same_framing_inv: "same_framing s s' \<Longrightarrow> framing_inv opts s \<Longrightarrow> framing_inv opts s'"
  by (auto simp: same_framing_def framing_inv_def)

lemma serve_framing: "serveQueue opts now b v c = (c', a) \<Longrightarrow> protocol c' = protocol c \<and> fc_framer c' = fc_framer c"
  by (auto simp: serveQueue_def pop_def setDeadline_def SetDeadline_def Let_def split: if_split_asm)

lemma upgrade_framing:
  "upgrade_begin c w = Some (c', w') \<Longrightarrow> protocol c' = protocol c \<and> fc_framer c' = fc_framer c"
  "upgrade_switch opts now env p c w = (c', w', err) \<Longrightarrow> protocol c' = None \<longrightarrow> protocol c = None \<and> fc_framer c' = fc_framer c"
  by (auto simp: upgrade_begin_def upgrade_switch_def releaseQueue_def SetDeadline_def written_def Let_def split: if_split_asm prod.split_asm)

lemma work_framing: "work opts env RR s x s' res \<Longrightarrow> same_framing s s'"
  by (erule work.cases)
     (auto simp: same_framing_def wait_begin_def wait_receive_def mark_closing_def close_conn_def SetDeadline_def written_def same_core_def
       dest!: serve_framing handle_core handled_core upgrade_framing split: option.split if_split_asm)

lemma callback_framing:
  assumes "callback opts s s'" and "fh_inv opts (s, ws)" and "framing_inv opts s"
  shows "framing_inv opts s'"
  using assms(1)
proof cases
  case (cb_data d now c items consumed submit)
  then show ?thesis using framing_data [OF assms(2,3) cb_data(5), of s'] by simp
qed (auto intro!: same_framing_inv [OF _ assms(3)] simp: same_framing_def onWritable_def wakeWriter_def halfClose_def cancel_context_def onClose_def
    releaseQueue_def route_def context_of_def setDeadline_def SetDeadline_def Let_def split: if_split_asm option.split_asm)

definition run_inv :: "fh_options \<Rightarrow> fh_env \<Rightarrow> read_request \<Rightarrow> fh_sys \<Rightarrow> bool" where
  "run_inv opts env RR st \<longleftrightarrow> (env_ok env \<longrightarrow> fh_inv opts st \<and> framing_inv opts (fst st) \<and> pipe_inv env RR st)"

lemma pipe_run_init: "fh_init opts st \<Longrightarrow> run_inv opts env RR st"
proof -
  assume i: "fh_init opts st"
  have "pipe_inv env RR st" using i by (auto simp: fh_init_def pipe_inv_def resting_def at_rest_def OnOpen_def setDeadline_def SetDeadline_def Let_def)
  moreover have "framing_inv opts (fst st)" using i by (auto simp: fh_init_def framing_inv_def OnOpen_def setDeadline_def SetDeadline_def Let_def)
  ultimately show ?thesis using fh_inv_init [OF i] by (simp add: run_inv_def)
qed

lemma pipe_run_step: "run_inv opts env RR st \<Longrightarrow> fh_step opts env RR st st' \<Longrightarrow> run_inv opts env RR st'"
proof -
  assume ri: "run_inv opts env RR st" and step: "fh_step opts env RR st st'"
  show ?thesis unfolding run_inv_def
  proof
    assume env: "env_ok env"
    then have inv: "fh_inv opts st" "framing_inv opts (fst st)" "pipe_inv env RR st" using ri by (simp_all add: run_inv_def)
    have "framing_inv opts (fst st') \<and> pipe_inv env RR st'"
      using step
    proof cases
      case (fs_callback s s' ws)
      have q: "queue_ok (conn s)" using inv(1) fs_callback by (simp add: fh_inv_parts queue_inv_def Let_def)
      have "pipe_inv env RR (s', ws)"
      proof (cases "closed (conn s')")
        case False
        then have sp: "same_pipe s s'" "failed s' = failed s" using callback_pipe [OF fs_callback(3) q] by simp_all
        then show ?thesis using inv(3) fs_callback(1) same_pipe_pipe [OF sp(1)] same_pipe_eq [OF sp(1)]
          by (auto simp: pipe_inv_def same_pipe_def split: list.split_asm)
      qed (simp add: pipe_inv_def)
      then show ?thesis using callback_framing [OF fs_callback(3)] inv fs_callback by auto
    next
      case (fs_start s ws)
      then have "ws = []" using inv(1) by (auto simp: fh_inv_parts workers_inv_def split: list.split_asm)
      moreover have "r_out new_response = []" by (simp add: new_response_def)
      moreover have "same_pipe s (s\<lparr>submitted := submitted s - 1\<rparr>)" by (simp add: same_pipe_def)
      ultimately show ?thesis using inv fs_start by (auto simp: pipe_inv_def framing_inv_def same_pipe_eq)
    next
      case (fs_work s x s' res us vs)
      then have e: "us = []" "vs = []" using inv(1) by (auto simp: fh_inv_parts workers_inv_def append_eq_Cons_conv split: list.split_asm)
      have "pipe_inv env RR (s', case res of None \<Rightarrow> [] | Some y \<Rightarrow> [y])"
        using work_pipe [OF env _ _ fs_work(3)] inv fs_work e by simp
      moreover have "framing_inv opts s'" using same_framing_inv [OF work_framing [OF fs_work(3)]] inv(2) fs_work by simp
      ultimately show ?thesis using fs_work e by simp
    qed
    then show "fh_inv opts st' \<and> framing_inv opts (fst st') \<and> pipe_inv env RR st'" using fh_inv_step [OF inv(1) step] by simp
  qed
qed

interpretation pipe_run: inductive_invariant "fh_init opts" "fh_step opts env RR" "run_inv opts env RR" for opts env RR
  by unfold_locales (rule pipe_run_init, assumption, rule pipe_run_step)

end
