(* ===== verification/FhProps.thy ===== *)
theory FhProps
  imports FhPipeline
begin

text \<open>
  What holds of an HTTP/1 connection in every reachable state, and a run that is evaluated: two requests in one piece of
  data, answered in order.
\<close>

section \<open>An executable run\<close>

datatype move = Mv_Data string | Mv_Start | Mv_Work "hop option"

fun fh_work :: "fh_options \<Rightarrow> fh_env \<Rightarrow> read_request \<Rightarrow> hop option \<Rightarrow> fh_sh \<Rightarrow> fh_worker \<Rightarrow> fh_sys option" where
  "fh_work opts env RR op s (W_Top, w) =
     (case serveQueue opts 0 (\<not> backlog s) (r_out w \<noteq> []) (conn s) of
        (c, A_Flush) \<Rightarrow> Some (s\<lparr>conn := c\<rparr>, [(W_Flush, w)])
      | (c, A_Stop resume) \<Rightarrow> Some (s\<lparr>conn := c\<rparr>, if resume then [(W_Resume, w)] else [])
      | (c, A_Handle r) \<Rightarrow> Some (s\<lparr>conn := c, taken := taken s @ [r]\<rparr>, [(W_Take r, w)])
      | _ \<Rightarrow> None)"
| "fh_work opts env RR op s (W_Flush, w) =
     (let (err, w') = flush (load [] (conn s) w)
      in Some (after_write False [] (s\<lparr>conn := written w' (conn s)\<rparr>), [(if err = None then W_Top else W_Close, w')]))"
| "fh_work opts env RR op s (W_Take r, w) =
     (case handle opts 0 env RR True r (conn s) (load [] (conn s) w) of
        (c, w', Run) \<Rightarrow> Some (s\<lparr>conn := c\<rparr>, [(W_Handler r [], w')])
      | _ \<Rightarrow> None)"
| "fh_work opts env RR op s (W_Handler r B, w) =
     (case op of
        Some h \<Rightarrow>
          (case run_handler env [h] (load [] (conn s) w) B of
             None \<Rightarrow> None
           | Some (w', B') \<Rightarrow> Some (after_write False [] (s\<lparr>conn := written w' (conn s)\<rparr>), [(W_Handler r B', w')]))
      | None \<Rightarrow>
          let (c, w', keep) = handled env True (conn s) (load [] (conn s) w)
          in Some (after_write False [] (s\<lparr>conn := written w' c, answers := answers s @ [drop (length (concat (answers s))) (r_wire w' @ r_out w')]\<rparr>),
                   [(if keep then W_Top else W_End, w')]))"
| "fh_work opts env RR op s x = None"

fun fh_move :: "fh_options \<Rightarrow> fh_env \<Rightarrow> read_request \<Rightarrow> move \<Rightarrow> fh_sys \<Rightarrow> fh_sys option" where
  "fh_move opts env RR (Mv_Data d) (s, ws) =
     (if live (conn s) \<and> \<not> paused (conn s) \<and> d \<noteq> [] then
        case onData opts 0 (unread s @ d) (conn s) of
          None \<Rightarrow> None
        | Some (c, items, consumed, submit) \<Rightarrow>
            Some (s\<lparr>conn := c, unread := drop consumed (unread s @ d), arrived := arrived s @ [d],
                    pushed := pushed s @ map queued_of items, submitted := submitted s + (if submit then 1 else 0)\<rparr>, ws)
      else None)"
| "fh_move opts env RR Mv_Start (s, ws) =
     (if submitted s > 0 then Some (s\<lparr>submitted := submitted s - 1\<rparr>, (W_Top, new_response) # ws) else None)"
| "fh_move opts env RR (Mv_Work op) (s, ws) = (case ws of [x] \<Rightarrow> fh_work opts env RR op s x | _ \<Rightarrow> None)"

lemma fh_work_sound: "fh_work opts env RR op s x = Some st' \<Longrightarrow> fh_step opts env RR (s, [x]) st'"
proof -
  have one: "fh_step opts env RR (s, [x]) (s', case res of None \<Rightarrow> [] | Some y \<Rightarrow> [y])" if "work opts env RR s x s' res" for s' res
    using fs_work [OF that, of "[]" "[]"] by simp
  show "fh_work opts env RR op s x = Some st' \<Longrightarrow> fh_step opts env RR (s, [x]) st'"
  proof (cases "(opts, env, RR, op, s, x)" rule: fh_work.cases)
    case (1 opts' env' RR' op' s' w)
    assume "fh_work opts env RR op s x = Some st'"
    then show ?thesis using 1 one
      by (auto split: prod.split_asm action.split_asm dest!: wk_flush_first wk_stop wk_take) fastforce+
  next
    case (2 opts' env' RR' op' s' w)
    assume "fh_work opts env RR op s x = Some st'"
    then show ?thesis using 2 one by (auto simp: Let_def split: prod.split_asm dest!: wk_flush [where fill = False]) fastforce+
  next
    case (3 opts' env' RR' op' s' r w)
    assume "fh_work opts env RR op s x = Some st'"
    then show ?thesis using 3 one by (auto split: prod.split_asm handling.split_asm dest!: wk_run) fastforce+
  next
    case (4 opts' env' RR' op' s' r B w)
    assume "fh_work opts env RR op s x = Some st'"
    then show ?thesis using 4 one
      by (auto simp: Let_def split: prod.split_asm option.split_asm dest!: wk_call [where fill = False] wk_return [where fill = False and r = r and B = B]) fastforce+
  qed simp_all
qed

lemma fh_move_sound: "fh_move opts env RR m st = Some st' \<Longrightarrow> fh_step opts env RR st st'"
proof (cases "(opts, env, RR, m, st)" rule: fh_move.cases)
  case (1 o' e' R' d s ws)
  then show "fh_move opts env RR m st = Some st' \<Longrightarrow> fh_step opts env RR st st'"
    using cb_data [of s d opts 0] by (fastforce intro!: fs_callback split: if_split_asm option.split_asm)
next
  case (2 o' e' R' s ws)
  then show "fh_move opts env RR m st = Some st' \<Longrightarrow> fh_step opts env RR st st'" using fs_start [of s opts env RR ws] by (auto split: if_split_asm)
next
  case (3 o' e' R' op s ws)
  then show "fh_move opts env RR m st = Some st' \<Longrightarrow> fh_step opts env RR st st'"
    by (auto split: list.split_asm intro: fh_work_sound)
qed

fun fh_moves :: "fh_options \<Rightarrow> fh_env \<Rightarrow> read_request \<Rightarrow> move list \<Rightarrow> fh_sys \<Rightarrow> fh_sys option" where
  "fh_moves opts env RR [] st = Some st"
| "fh_moves opts env RR (m # ms) st = (case fh_move opts env RR m st of None \<Rightarrow> None | Some st' \<Rightarrow> fh_moves opts env RR ms st')"

lemma fh_moves_reach:
  "fh_moves opts env RR ms st = Some st' \<Longrightarrow> reach (fh_init opts) (fh_step opts env RR) st \<Longrightarrow> reach (fh_init opts) (fh_step opts env RR) st'"
  by (induction opts env RR ms st rule: fh_moves.induct) (auto split: option.split_asm intro: reach_step fh_move_sound)


section \<open>Two requests\<close>

definition demo_first :: string where "demo_first = ''GET /a HTTP/1.1'' @ CRLF @ ''Host: x'' @ CRLF @ CRLF"
definition demo_second :: string where "demo_second = ''GET /b HTTP/1.1'' @ CRLF @ ''Host: x'' @ CRLF @ CRLF"

definition demo_read :: read_request where
  "demo_read msg = (if msg = demo_first \<or> msg = demo_second then
     Some \<lparr>sr_Method = ''GET'', sr_RequestURI = take 2 (drop 4 msg), sr_ProtoMajor = 1, sr_ProtoMinor = 1, sr_Header = [], sr_Host = ''x'',
       sr_URL_Host = [], sr_URL_Path = take 2 (drop 4 msg), sr_URL_Port = [], sr_TransferEncoding = None, sr_ContentLength = 0, sr_Close = False, sr_unread = 0\<rparr>
     else None)"

definition demo_opts :: fh_options where
  "demo_opts = \<lparr>MaxHeaderBytes = 0, MaxBufferedBodyBytes = 0, ReadHeaderTimeout = 0, IdleTimeout = 0\<rparr>"

definition demo_start :: fh_sys where
  "demo_start = (\<lparr>conn = OnOpen (withDefaults demo_opts) 0, submitted = 0, backlog = False, due = False, unread = [], arrived = [],
     pushed = [], taken = [], dropped = [], answers = [], failed = False\<rparr>, [])"

definition demo_half :: "move list" where
  "demo_half = [Mv_Data (demo_first @ demo_second @ ''GET''), Mv_Start, Mv_Work None, Mv_Work None, Mv_Work (Some (Do_Write ''one''))]"

definition demo_rest :: "move list" where
  "demo_rest = [Mv_Work None, Mv_Work None, Mv_Work None, Mv_Work (Some (Do_Write ''two'')), Mv_Work None, Mv_Work None, Mv_Work None, Mv_Work None]"

definition demo_sys :: fh_sys where
  "demo_sys = the (fh_moves (withDefaults demo_opts) demo_env demo_read demo_half demo_start)"

definition demo_end :: fh_sys where
  "demo_end = the (fh_moves (withDefaults demo_opts) demo_env demo_read demo_rest demo_sys)"

text \<open>Where the run is after the first write of the first handler, and where it ends.\<close>

definition demo_at_half :: "fh_sys \<Rightarrow> bool" where
  "demo_at_half st = (case st of (s, ws) \<Rightarrow>
     length ws = 1 \<and> (case fst (hd ws) of W_Handler r B \<Rightarrow> B = ''one'' | _ \<Rightarrow> False) \<and> length (pending (conn s)) = 1)"

definition demo_at_end :: "fh_sys \<Rightarrow> bool" where
  "demo_at_end st = (case st of (s, ws) \<Rightarrow>
     ws = [] \<and> length (answers s) = 2 \<and> unread s = ''GET'' \<and> length (pushed s) = 2 \<and> \<not> failed s \<and> \<not> closed (conn s) \<and>
     worker (conn s) = WorkerIdle \<and> protocol (conn s) = None)"

lemma fh_demo_eval:
  "case fh_moves (withDefaults demo_opts) demo_env demo_read demo_half demo_start of
     None \<Rightarrow> False
   | Some st \<Rightarrow> demo_at_half st \<and>
       (case fh_moves (withDefaults demo_opts) demo_env demo_read demo_rest st of None \<Rightarrow> False | Some st' \<Rightarrow> demo_at_end st')"
  by code_simp

lemma fh_demo_run:
  "fh_moves (withDefaults demo_opts) demo_env demo_read demo_half demo_start = Some demo_sys" "demo_at_half demo_sys"
  "fh_moves (withDefaults demo_opts) demo_env demo_read demo_rest demo_sys = Some demo_end" "demo_at_end demo_end"
  using fh_demo_eval by (auto simp: demo_sys_def demo_end_def split: option.split_asm)

lemma fh_demo_reach:
  "reach (fh_init (withDefaults demo_opts)) (fh_step (withDefaults demo_opts) demo_env demo_read) demo_sys"
  "reach (fh_init (withDefaults demo_opts)) (fh_step (withDefaults demo_opts) demo_env demo_read) demo_end"
proof -
  have "reach (fh_init (withDefaults demo_opts)) (fh_step (withDefaults demo_opts) demo_env demo_read) demo_start"
    by (rule reach_init) (auto simp: fh_init_def demo_start_def)
  from fh_moves_reach [OF fh_demo_run(1) this]
  show s: "reach (fh_init (withDefaults demo_opts)) (fh_step (withDefaults demo_opts) demo_env demo_read) demo_sys" .
  from fh_moves_reach [OF fh_demo_run(3) s]
  show "reach (fh_init (withDefaults demo_opts)) (fh_step (withDefaults demo_opts) demo_env demo_read) demo_end" .
qed

section \<open>Properties\<close>



text \<open>What the worker, if there is one, has collected and not written.\<close>

definition collected_by :: "fh_worker list \<Rightarrow> string" where
  "collected_by ws = (case ws of [] \<Rightarrow> [] | (pc, w) # _ \<Rightarrow> if pc = W_Resume \<or> pc = W_Close \<or> pc = W_Closing then [] else r_out w)"

text \<open>
  C39. Pipelined requests are answered in order and once each, as long as no write fails and the connection is not closed.
  At any time the bytes written and collected begin with the complete answers to the requests taken, one after the other.
  And when the connection is idle, every request queued has been answered and nothing else was written; the requests
  queued are what the framer finds in the data that arrived, which (400 aside) does not depend on how it was cut: all of
  the data but an incomplete rest. An answer is \<^verbatim>\<open>100 Continue\<close>, or a header block and a body the client can delimit and that
  allows the connection to be kept.
\<close>

theorem fh_pipelining:
  assumes "env_ok env" and "reach (fh_init (withDefaults o')) (fh_step (withDefaults o') env RR) (s, ws)"
    and "\<not> failed s" and "\<not> closed (conn s)"
  shows "ordered env RR s (collected_by ws) \<and> (worker (conn s) = WorkerIdle \<and> protocol (conn s) = None \<longrightarrow>
      wire (conn s) = concat (answers s) \<and> list_all2 (answered env RR True) (pushed s) (answers s) \<and>
      (\<exists>items. pushed s = map queued_of items \<and> feed (withDefaults o') new_framer [] (arrived s) = Some (items, unread s, 0) \<and>
        (let (items', rest, e) = frame_all (withDefaults o') (concat (arrived s))
         in e = 400 \<or> items' = no_continue items \<and> rest = unread s \<and> e = 0)))"
proof -
  let ?o = "withDefaults o'"
  have inv: "fh_inv ?o (s, ws)" "framing_inv ?o s" "pipe_inv env RR (s, ws)"
    using pipe_run.reach_inv [OF assms(2)] assms(1) by (simp_all add: run_inv_def)
  have w: "workers_inv s ws" and q: "queue_inv s" and sh: "shared_inv ?o s" using inv(1) by (simp_all add: fh_inv_parts)
  have p: "case ws of [] \<Rightarrow> resting env RR s [] | x # _ \<Rightarrow> pipe env RR s x" using inv(3) assms(3,4) by (simp add: pipe_inv_def)
  have ord: "pipe env RR s x \<Longrightarrow> ordered env RR s (collected_by [x])" for x
    by (cases "(env, RR, s, x)" rule: pipe.cases)
       (auto simp: collected_by_def intro: resting_ordered in_handler_ordered handling_ordered)
  have o: "ordered env RR s (collected_by ws)"
  proof (cases rule: workers_inv_cases [OF w])
    case 1
    then show ?thesis using p resting_ordered by (simp add: collected_by_def)
  next
    case (2 x)
    then show ?thesis using p ord by simp
  qed
  have "wire (conn s) = concat (answers s) \<and> list_all2 (answered env RR True) (pushed s) (answers s) \<and>
      (\<exists>items. pushed s = map queued_of items \<and> feed ?o new_framer [] (arrived s) = Some (items, unread s, 0) \<and>
        (let (items', rest, e) = frame_all ?o (concat (arrived s)) in e = 400 \<or> items' = no_continue items \<and> rest = unread s \<and> e = 0))"
    if idle: "worker (conn s) = WorkerIdle" "protocol (conn s) = None"
  proof -
    have ar: "at_rest env RR s []"
    proof (cases rule: workers_inv_cases [OF w])
      case 1
      then show ?thesis using p idle by (simp add: resting_def)
    next
      case (2 x)
      then obtain w' where "x = (W_Resume, w')" using w idle by (cases "(s, x)" rule: worker_inv.cases) (auto simp: workers_inv_def busy_def)
      then show ?thesis using 2 p idle by (simp add: resting_def)
    qed
    have pt: "pushed s = taken s" using q shared_invD(1) [OF sh] idle assms(4) by (simp add: queue_inv_def Let_def)
    have "\<forall>r\<in>set (pushed s). \<not> final r" using shared_invD(5) [OF sh] idle pt by auto
    then obtain items where it: "feeds ?o new_framer [] (arrived s) = Some (fc_framer (conn s), items, unread s)" "pushed s = map queued_of items"
      using inv(2) idle by (auto simp: framing_inv_def)
    note fd = feeds_feed [OF it(1)]
    obtain items' rest e where fa: "frame_all ?o (concat (arrived s)) = (items', rest, e)" by (metis prod_cases3)
    have "frame_all ?o [] = ([], [], 0)" by (simp add: frame_all.simps)
    from feed_frames [OF withDefaults_opts_ok ready_new this, of "arrived s" items' rest e] fa fd
    have "e = 400 \<or> items' = no_continue items \<and> rest = unread s \<and> e = 0" by auto
    then show ?thesis using ar pt it(2) fd fa by (auto simp: at_rest_def)
  qed
  with o show ?thesis by blast
qed

theorem fh_pipelining_witness:
  "\<exists>s a b. demo_end = (s, []) \<and> answers s = [a, b] \<and> wire (conn s) = a @ b \<and> unread s = ''GET'' \<and> length (pushed s) = 2
    \<and> list_all2 (answered demo_env demo_read True) (pushed s) [a, b]"
proof -
  obtain s ws where d: "demo_end = (s, ws)" by (cases demo_end)
  have e: "env_ok demo_env" by (simp add: env_ok_def demo_env_def)
  have f: "ws = []" "length (answers s) = 2" "unread s = ''GET''" "length (pushed s) = 2" "\<not> failed s" "\<not> closed (conn s)"
      "worker (conn s) = WorkerIdle" "protocol (conn s) = None" using fh_demo_run(4) by (simp_all add: demo_at_end_def d)
  obtain a b where ab: "answers s = [a, b]" using f(2) by (auto simp: numeral_2_eq_2 length_Suc_conv)
  have "reach (fh_init (withDefaults demo_opts)) (fh_step (withDefaults demo_opts) demo_env demo_read) (s, ws)" using fh_demo_reach(2) d by simp
  from fh_pipelining [OF e this f(5,6)] show ?thesis using f ab d by auto
qed

section \<open>A context asked for late\<close>

text \<open>
  The context of the requests is canceled when the connection closes or the client half-closes it, and asked for later it
  is canceled at once. After the hand-off to \<^verbatim>\<open>net/http\<close> neither is so: asked for only then, it is never canceled, since no
  callback comes any more.
\<close>

lemma context_canceled:
  "context_of (fst (onClose c)) = d \<Longrightarrow> state c \<or> ctx c = None \<Longrightarrow> ctx d = Some True"
  by (auto simp: context_of_def onClose_def Let_def wakeWriter_def releaseQueue_def cancel_context_def split: option.split)

lemma late_context_not_canceled:
  assumes "ctx c = None" and "\<not> closed c" "\<not> halfClosed c" "protocol c = None"
  shows "ctx (context_of (conn_handoff opts now True c)) = Some False" and "\<not> live (context_of (conn_handoff opts now True c))"
  using assms by (simp_all add: context_of_def conn_handoff_def endContext_def cancel_context_def SetDeadline_def Let_def live_def)

end
