(* ===== verification/Taskpool.thy ===== *)
theory Taskpool
  imports FnetPrelude
begin

unbundle bit_operations_syntax

text \<open>
  The queue of a shard of \<^verbatim>\<open>taskpool/taskpool.go\<close>: a bounded ring without locks, to which any number of goroutines push and
  from which any number pop. A step of the relation below is one atomic operation of one goroutine (a load, a
  compare-and-swap, a store) or one plain access to the cell that the goroutine has claimed. Positions are 64 bits wide.
\<close>

section \<open>The ring\<close>

record 'a slot =
  sequence :: u64
  task :: "'a option"

record 'a ring =
  slots :: "'a slot list"
  mask :: u64
  tail :: u64
  head :: u64

fun bits_Len :: "nat \<Rightarrow> nat" where
  "bits_Len n = (if n = 0 then 0 else Suc (bits_Len (n div 2)))"

declare bits_Len.simps [simp del]

definition ring_size :: "int \<Rightarrow> nat" where
  "ring_size capacity = 2 ^ bits_Len (nat (max capacity 2 - 1))"

definition new_ring :: "int \<Rightarrow> 'a ring" where
  "new_ring capacity =
     \<lparr>slots = map (\<lambda>j. \<lparr>sequence = of_nat j, task = None\<rparr>) [0..<ring_size capacity],
      mask = of_nat (ring_size capacity - 1), tail = 0, head = 0\<rparr>"

text \<open>The cell of a position.\<close>

definition cell :: "u64 \<Rightarrow> 'a ring \<Rightarrow> nat" where
  "cell pos q = unat (pos AND mask q)"

definition hasTask :: "'a ring \<Rightarrow> bool" where
  "hasTask q \<longleftrightarrow> sequence (slots q ! cell (head q) q) = head q + 1"

section \<open>Push and pop, one atomic operation at a time\<close>

datatype 'a push_pc = P_Idle | P_Load 'a | P_Look 'a u64 | P_Cas 'a u64 | P_Write 'a u64 | P_Store 'a u64 | P_Done bool

fun push_step :: "'a push_pc \<Rightarrow> 'a ring \<Rightarrow> 'a push_pc \<times> 'a ring" where
  "push_step (P_Load t) q = (P_Look t (tail q), q)"
| "push_step (P_Look t pos) q =
     (let seq = sequence (slots q ! cell pos q) in
      if seq = pos then (P_Cas t pos, q) else if sint (seq - pos) < 0 then (P_Done False, q) else (P_Load t, q))"
| "push_step (P_Cas t pos) q = (if tail q = pos then (P_Write t pos, q\<lparr>tail := pos + 1\<rparr>) else (P_Load t, q))"
| "push_step (P_Write t pos) q =
     (P_Store t pos, q\<lparr>slots := (slots q)[cell pos q := (slots q ! cell pos q)\<lparr>task := Some t\<rparr>]\<rparr>)"
| "push_step (P_Store t pos) q =
     (P_Done True, q\<lparr>slots := (slots q)[cell pos q := (slots q ! cell pos q)\<lparr>sequence := pos + 1\<rparr>]\<rparr>)"
| "push_step pc q = (pc, q)"

datatype 'a pop_pc = Q_Idle | Q_Load | Q_Look u64 | Q_Cas u64 | Q_Read u64 | Q_Clear u64 "'a option" | Q_Store u64 "'a option" | Q_Done "'a option"

fun pop_step :: "'a pop_pc \<Rightarrow> 'a ring \<Rightarrow> 'a pop_pc \<times> 'a ring" where
  "pop_step Q_Load q = (Q_Look (head q), q)"
| "pop_step (Q_Look pos) q =
     (let seq = sequence (slots q ! cell pos q) in
      if seq = pos + 1 then (Q_Cas pos, q) else if sint (seq - (pos + 1)) < 0 then (Q_Done None, q) else (Q_Load, q))"
| "pop_step (Q_Cas pos) q = (if head q = pos then (Q_Read pos, q\<lparr>head := pos + 1\<rparr>) else (Q_Load, q))"
| "pop_step (Q_Read pos) q = (Q_Clear pos (task (slots q ! cell pos q)), q)"
| "pop_step (Q_Clear pos v) q = (Q_Store pos v, q\<lparr>slots := (slots q)[cell pos q := (slots q ! cell pos q)\<lparr>task := None\<rparr>]\<rparr>)"
| "pop_step (Q_Store pos v) q =
     (Q_Done v, q\<lparr>slots := (slots q)[cell pos q := (slots q ! cell pos q)\<lparr>sequence := pos + mask q + 1\<rparr>]\<rparr>)"
| "pop_step pc q = (pc, q)"

text \<open>The position a goroutine has claimed and not finished with.\<close>

fun writes :: "'a push_pc \<Rightarrow> u64 option" where
  "writes (P_Write t pos) = Some pos"
| "writes (P_Store t pos) = Some pos"
| "writes pc = None"

fun reads :: "'a pop_pc \<Rightarrow> u64 option" where
  "reads (Q_Read pos) = Some pos"
| "reads (Q_Clear pos v) = Some pos"
| "reads (Q_Store pos v) = Some pos"
| "reads pc = None"

section \<open>Every interleaving\<close>

text \<open>
  \<open>claims\<close> are the tasks in the order in which their pushes took a position, \<open>claimed\<close> is how many positions pops have
  taken, and \<open>got\<close> what the finished pops returned, with their positions.
\<close>

record 'a ring_sys =
  ring :: "'a ring"
  pushers :: "nat \<Rightarrow> 'a push_pc"
  poppers :: "nat \<Rightarrow> 'a pop_pc"
  claims :: "'a list"
  claimed :: nat
  got :: "(nat \<times> 'a option) list"

inductive ring_step :: "'a ring_sys \<Rightarrow> 'a ring_sys \<Rightarrow> bool" where
  call_push: "(case pushers s i of P_Idle \<Rightarrow> True | P_Done b \<Rightarrow> True | _ \<Rightarrow> False) \<Longrightarrow>
    ring_step s (s\<lparr>pushers := (pushers s)(i := P_Load t)\<rparr>)"
| do_push: "push_step (pushers s i) (ring s) = (pc, q) \<Longrightarrow>
    ring_step s (s\<lparr>ring := q, pushers := (pushers s)(i := pc),
      claims := (case pushers s i of P_Cas t pos \<Rightarrow> if writes pc \<noteq> None then claims s @ [t] else claims s | _ \<Rightarrow> claims s)\<rparr>)"
| call_pop: "(case poppers s i of Q_Idle \<Rightarrow> True | Q_Done v \<Rightarrow> True | _ \<Rightarrow> False) \<Longrightarrow>
    ring_step s (s\<lparr>poppers := (poppers s)(i := Q_Load)\<rparr>)"
| do_pop: "pop_step (poppers s i) (ring s) = (pc, q) \<Longrightarrow>
    ring_step s (s\<lparr>ring := q, poppers := (poppers s)(i := pc),
      claimed := (case poppers s i of Q_Cas pos \<Rightarrow> if reads pc \<noteq> None then claimed s + 1 else claimed s | _ \<Rightarrow> claimed s),
      got := (case poppers s i of Q_Store pos v \<Rightarrow> got s @ [(unat pos, v)] | _ \<Rightarrow> got s)\<rparr>)"

inductive_cases ring_step_cases: "ring_step s t"

definition ring_init :: "int \<Rightarrow> 'a ring_sys \<Rightarrow> bool" where
  "ring_init capacity s \<longleftrightarrow> s = \<lparr>ring = new_ring capacity, pushers = (\<lambda>_. P_Idle), poppers = (\<lambda>_. Q_Idle), claims = [], claimed = 0, got = []\<rparr>"

end
