(* ===== verification/TaskRing.thy ===== *)
theory TaskRing
  imports Taskpool
begin

unbundle bit_operations_syntax

text \<open>
  The queue of a shard of the goroutine pool: an invariant of every interleaving of pushes and pops (which cell is free,
  being written, full or being read, and by whom), what push and pop find in a cell, and that a goroutine that runs alone
  finishes its call.
\<close>

section \<open>Words\<close>

lemma of_nat_eq_64: "a < 2 ^ 64 \<Longrightarrow> b < 2 ^ 64 \<Longrightarrow> (of_nat a :: u64) = of_nat b \<longleftrightarrow> a = b"
  by (simp add: word_of_nat_eq_iff take_bit_nat_eq_self)

lemma unat_of_nat_64: "a < 2 ^ 64 \<Longrightarrow> unat (of_nat a :: u64) = a"
  by (simp add: unat_of_nat take_bit_nat_eq_self)

lemma of_nat_mask:
  assumes "k < 64" and "a < 2 ^ 64"
  shows "unat ((of_nat a :: u64) AND of_nat (2 ^ k - 1)) = a mod 2 ^ k"
proof -
  have "(of_nat (2 ^ k - 1) :: u64) = Bit_Operations.mask k" by (simp add: mask_eq_exp_minus_1)
  then have "(of_nat a :: u64) AND of_nat (2 ^ k - 1) = take_bit k (of_nat a)" by (simp add: take_bit_eq_mask)
  moreover have "unat (take_bit k (of_nat a :: u64)) = take_bit k (unat (of_nat a :: u64))" by (rule unsigned_take_bit_eq)
  ultimately show ?thesis using unat_of_nat_64 [OF assms(2)] by (simp only: take_bit_eq_mod)
qed

lemma sint_diff_64:
  assumes "a < 2 ^ 63" and "b < 2 ^ 63"
  shows "sint ((of_nat a :: u64) - of_nat b) = int a - int b"
proof -
  have "(of_nat a :: u64) - of_nat b = word_of_int (int a - int b)" by simp
  moreover have "sint (word_of_int (int a - int b) :: u64) = int a - int b"
    by (rule sint_of_int_small) (use assms in auto)
  ultimately show ?thesis by simp
qed

lemma ring_size_pow: "\<exists>k. ring_size c = 2 ^ k \<and> 0 < k"
proof -
  have "nat (max c 2 - 1) \<noteq> 0" by simp
  then have "0 < bits_Len (nat (max c 2 - 1))" by (subst bits_Len.simps) simp
  then show ?thesis unfolding ring_size_def by blast
qed


section \<open>The invariant\<close>

text \<open>What a cell is in: free for a position, being written, full, or being read.\<close>

datatype phase = Free nat | Writing nat | Full nat | Reading nat

fun lap :: "phase \<Rightarrow> nat" where
  "lap (Free p) = p" | "lap (Writing p) = p" | "lap (Full p) = p" | "lap (Reading p) = p"

fun cell_ok :: "'a ring_sys \<Rightarrow> nat \<Rightarrow> 'a slot \<Rightarrow> phase \<Rightarrow> bool" where
  "cell_ok s n sl (Free p) \<longleftrightarrow> sequence sl = of_nat p \<and> length (claims s) \<le> p \<and> p < length (claims s) + n"
| "cell_ok s n sl (Writing p) \<longleftrightarrow> sequence sl = of_nat p \<and> claimed s \<le> p \<and> p < length (claims s)"
| "cell_ok s n sl (Full p) \<longleftrightarrow> sequence sl = of_nat (p + 1) \<and> claimed s \<le> p \<and> p < length (claims s) \<and> task sl = Some (claims s ! p)"
| "cell_ok s n sl (Reading p) \<longleftrightarrow> sequence sl = of_nat (p + 1) \<and> p < claimed s"

definition shape :: "'a ring_sys \<Rightarrow> nat \<Rightarrow> bool" where
  "shape s k \<longleftrightarrow> 0 < k \<and> k \<le> 62 \<and> length (slots (ring s)) = 2 ^ k \<and> mask (ring s) = of_nat (2 ^ k - 1) \<and>
     tail (ring s) = of_nat (length (claims s)) \<and> head (ring s) = of_nat (claimed s) \<and> claimed s \<le> length (claims s)"

definition cells_inv :: "'a ring_sys \<Rightarrow> nat \<Rightarrow> (nat \<Rightarrow> phase) \<Rightarrow> bool" where
  "cells_inv s n ph \<longleftrightarrow>
     (\<forall>j<n. lap (ph j) mod n = j \<and> length (claims s) \<le> lap (ph j) + n \<and> cell_ok s n (slots (ring s) ! j) (ph j)) \<and>
     (\<forall>p. claimed s \<le> p \<and> p < length (claims s) \<longrightarrow> ph (p mod n) = Writing p \<or> ph (p mod n) = Full p)"

fun push_ok :: "'a ring_sys \<Rightarrow> nat \<Rightarrow> (nat \<Rightarrow> phase) \<Rightarrow> 'a push_pc \<Rightarrow> bool" where
  "push_ok s n ph (P_Look t pos) \<longleftrightarrow> (\<exists>p. pos = of_nat p \<and> p \<le> length (claims s))"
| "push_ok s n ph (P_Cas t pos) \<longleftrightarrow> (\<exists>p. pos = of_nat p \<and> p \<le> length (claims s) \<and> (p = length (claims s) \<longrightarrow> ph (p mod n) = Free p))"
| "push_ok s n ph (P_Write t pos) \<longleftrightarrow> (\<exists>p. pos = of_nat p \<and> p < length (claims s) \<and> ph (p mod n) = Writing p \<and> claims s ! p = t)"
| "push_ok s n ph (P_Store t pos) \<longleftrightarrow> (\<exists>p. pos = of_nat p \<and> p < length (claims s) \<and> ph (p mod n) = Writing p \<and> claims s ! p = t \<and>
     task (slots (ring s) ! (p mod n)) = Some t)"
| "push_ok s n ph pc \<longleftrightarrow> True"

fun pop_ok :: "'a ring_sys \<Rightarrow> nat \<Rightarrow> (nat \<Rightarrow> phase) \<Rightarrow> 'a pop_pc \<Rightarrow> bool" where
  "pop_ok s n ph (Q_Look pos) \<longleftrightarrow> (\<exists>p. pos = of_nat p \<and> p \<le> claimed s)"
| "pop_ok s n ph (Q_Cas pos) \<longleftrightarrow> (\<exists>p. pos = of_nat p \<and> p \<le> claimed s \<and> (p = claimed s \<longrightarrow> ph (p mod n) = Full p))"
| "pop_ok s n ph (Q_Read pos) \<longleftrightarrow> (\<exists>p. pos = of_nat p \<and> p < claimed s \<and> ph (p mod n) = Reading p \<and> task (slots (ring s) ! (p mod n)) = Some (claims s ! p))"
| "pop_ok s n ph (Q_Clear pos v) \<longleftrightarrow> (\<exists>p. pos = of_nat p \<and> p < claimed s \<and> ph (p mod n) = Reading p \<and> v = Some (claims s ! p))"
| "pop_ok s n ph (Q_Store pos v) \<longleftrightarrow> (\<exists>p. pos = of_nat p \<and> p < claimed s \<and> ph (p mod n) = Reading p \<and> v = Some (claims s ! p))"
| "pop_ok s n ph pc \<longleftrightarrow> True"

text \<open>Nobody shares a position, and every cell under way has its goroutine.\<close>

definition owners_inv :: "'a ring_sys \<Rightarrow> nat \<Rightarrow> (nat \<Rightarrow> phase) \<Rightarrow> bool" where
  "owners_inv s n ph \<longleftrightarrow>
     (\<forall>i j pos. writes (pushers s i) = Some pos \<and> writes (pushers s j) = Some pos \<longrightarrow> i = j) \<and>
     (\<forall>i j pos. reads (poppers s i) = Some pos \<and> reads (poppers s j) = Some pos \<longrightarrow> i = j) \<and>
     (\<forall>j<n. \<forall>p. ph j = Writing p \<longrightarrow> (\<exists>i. writes (pushers s i) = Some (of_nat p))) \<and>
     (\<forall>j<n. \<forall>p. ph j = Reading p \<longrightarrow> (\<exists>i. reads (poppers s i) = Some (of_nat p)))"

definition got_inv :: "'a ring_sys \<Rightarrow> bool" where
  "got_inv s \<longleftrightarrow> distinct (map fst (got s)) \<and>
     (\<forall>(p, v)\<in>set (got s). p < claimed s \<and> v = Some (claims s ! p) \<and> (\<forall>i. reads (poppers s i) \<noteq> Some (of_nat p))) \<and>
     (\<forall>p<claimed s. p \<in> fst ` set (got s) \<or> (\<exists>i. reads (poppers s i) = Some (of_nat p)))"

definition ring_ok :: "'a ring_sys \<Rightarrow> nat \<Rightarrow> (nat \<Rightarrow> phase) \<Rightarrow> bool" where
  "ring_ok s k ph \<longleftrightarrow> shape s k \<and> cells_inv s (2 ^ k) ph \<and> (\<forall>i. push_ok s (2 ^ k) ph (pushers s i)) \<and>
     (\<forall>i. pop_ok s (2 ^ k) ph (poppers s i)) \<and> owners_inv s (2 ^ k) ph \<and> got_inv s"

text \<open>As long as there are fewer than \<open>2 ^ 62\<close> tasks, positions do not wrap.\<close>

definition ring_inv :: "'a ring_sys \<Rightarrow> bool" where
  "ring_inv s \<longleftrightarrow> (length (claims s) < 2 ^ 62 \<longrightarrow> (\<exists>k ph. ring_ok s k ph))"

lemma shape_bounds:
  assumes "shape s k" and "length (claims s) < 2 ^ 62"
  shows "p \<le> length (claims s) + 2 ^ k \<Longrightarrow> p < 2 ^ 63" and "p < 2 ^ 63 \<Longrightarrow> p < (2 ^ 64 :: nat)" and "(2 :: nat) \<le> 2 ^ k"
proof -
  have "(2 :: nat) ^ k \<le> 2 ^ 62" using assms(1) by (intro power_increasing) (auto simp: shape_def)
  then show "p \<le> length (claims s) + 2 ^ k \<Longrightarrow> p < 2 ^ 63" using assms(2) by simp
  show "p < 2 ^ 63 \<Longrightarrow> p < (2 ^ 64 :: nat)" by simp
  have "(2 :: nat) ^ 1 \<le> 2 ^ k" using assms(1) by (intro power_increasing) (auto simp: shape_def)
  then show "(2 :: nat) \<le> 2 ^ k" by simp
qed

lemma cell_of: "shape s k \<Longrightarrow> p < 2 ^ 63 \<Longrightarrow> cell (of_nat p) (ring s) = p mod 2 ^ k"
  using of_nat_mask [of k p] by (simp add: cell_def shape_def)


section \<open>Steps that change nothing but a program counter\<close>

lemma push_ok_cong: "ring s' = ring s \<Longrightarrow> claims s' = claims s \<Longrightarrow> push_ok s' n ph pc = push_ok s n ph pc"
  by (cases pc) simp_all

lemma pop_ok_cong: "ring s' = ring s \<Longrightarrow> claims s' = claims s \<Longrightarrow> claimed s' = claimed s \<Longrightarrow> pop_ok s' n ph pc = pop_ok s n ph pc"
  by (cases pc) simp_all

lemma cell_ok_cong: "claims s' = claims s \<Longrightarrow> claimed s' = claimed s \<Longrightarrow> cell_ok s' n sl x = cell_ok s n sl x"
  by (cases x) simp_all

lemma push_pc_kept:
  assumes "ring_ok s k ph" and "writes (pushers s i) = None" and "writes pc = None" and "push_ok s (2 ^ k) ph pc"
    and s': "s' = s\<lparr>pushers := (pushers s)(i := pc)\<rparr>"
  shows "ring_ok s' k ph"
proof -
  have e: "ring s' = ring s" "claims s' = claims s" "claimed s' = claimed s" "poppers s' = poppers s" "got s' = got s" by (simp_all add: s')
  have "owners_inv s' (2 ^ k) ph"
    using assms(1-3) by (auto simp: ring_ok_def owners_inv_def s') (metis option.distinct(1))
  moreover have "pushers s' = (pushers s)(i := pc)" by (simp add: s')
  ultimately show ?thesis using assms(1,4)
    by (simp add: ring_ok_def shape_def cells_inv_def got_inv_def cell_ok_cong [OF e(2,3)] push_ok_cong [OF e(1,2)] pop_ok_cong [OF e(1-3)] e)
qed

lemma pop_pc_kept:
  assumes "ring_ok s k ph" and "reads (poppers s i) = reads pc" and "pop_ok s (2 ^ k) ph pc"
    and s': "s' = s\<lparr>poppers := (poppers s)(i := pc)\<rparr>"
  shows "ring_ok s' k ph"
proof -
  have e: "ring s' = ring s" "claims s' = claims s" "claimed s' = claimed s" "pushers s' = pushers s" "got s' = got s" by (simp_all add: s')
  have r: "reads (poppers s' j) = reads (poppers s j)" for j using assms(2) by (simp add: s')
  have "pop_ok s (2 ^ k) ph (poppers s' j)" for j using assms(1,3) by (simp add: s' ring_ok_def)
  then show ?thesis using assms(1) r
    by (simp add: ring_ok_def shape_def cells_inv_def got_inv_def owners_inv_def cell_ok_cong [OF e(2,3)] push_ok_cong [OF e(1,2)] pop_ok_cong [OF e(1-3)] e)
qed

section \<open>What a look at a cell tells\<close>

lemma look_cell:
  assumes ok: "ring_ok s k ph" and b: "length (claims s) < 2 ^ 62" and p: "p \<le> length (claims s)"
  shows "cell (of_nat p) (ring s) = p mod 2 ^ k" and "lap (ph (p mod 2 ^ k)) mod 2 ^ k = p mod 2 ^ k"
    and "cell_ok s (2 ^ k) (slots (ring s) ! (p mod 2 ^ k)) (ph (p mod 2 ^ k))"
    and "length (claims s) \<le> lap (ph (p mod 2 ^ k)) + 2 ^ k" and "lap (ph (p mod 2 ^ k)) < length (claims s) + 2 ^ k"
proof -
  have sh: "shape s k" using ok by (simp add: ring_ok_def)
  show "cell (of_nat p) (ring s) = p mod 2 ^ k" using cell_of [OF sh] shape_bounds(1) [OF sh b, of p] p by simp
  have j: "p mod 2 ^ k < 2 ^ k" by simp
  then show "lap (ph (p mod 2 ^ k)) mod 2 ^ k = p mod 2 ^ k" and c: "cell_ok s (2 ^ k) (slots (ring s) ! (p mod 2 ^ k)) (ph (p mod 2 ^ k))"
      and "length (claims s) \<le> lap (ph (p mod 2 ^ k)) + 2 ^ k"
    using ok by (auto simp: ring_ok_def cells_inv_def)
  show "lap (ph (p mod 2 ^ k)) < length (claims s) + 2 ^ k"
    using c sh by (cases "ph (p mod 2 ^ k)") (auto simp: shape_def)
qed

lemma mod_neighbours: "(2 :: nat) \<le> n \<Longrightarrow> (q + 1) mod n \<noteq> q mod n"
  by (auto simp: mod_Suc)

lemma mod_eq_step: "a mod n = b mod n \<Longrightarrow> a < b \<Longrightarrow> a + n \<le> (b :: nat)"
proof -
  assume m: "a mod n = b mod n" and l: "a < b"
  then have "n dvd b - a" using mod_eq_dvd_iff_nat [of a b n] by simp
  then have "n \<le> b - a" using l by (intro dvd_imp_le) auto
  then show "a + n \<le> b" using l by simp
qed


text \<open>What a goroutine relies on survives the steps of the others that leave its cell alone.\<close>

lemma push_ok_step:
  assumes "push_ok s n ph pc" and "length (claims s) \<le> length (claims s')" and "\<And>p. p < length (claims s) \<Longrightarrow> claims s' ! p = claims s ! p"
    and "\<And>p. writes pc = Some (of_nat p) \<Longrightarrow> ph (p mod n) = Writing p \<Longrightarrow>
      ph' (p mod n) = Writing p \<and> task (slots (ring s') ! (p mod n)) = task (slots (ring s) ! (p mod n))"
    and "\<And>p. length (claims s') = length (claims s) \<Longrightarrow> ph (p mod n) = Free p \<Longrightarrow> ph' (p mod n) = Free p"
  shows "push_ok s' n ph' pc"
proof (cases pc)
  case (P_Look t pos)
  then show ?thesis using assms(1,2) by (auto intro: order_trans)
next
  case (P_Cas t pos)
  then obtain p where p: "pos = of_nat p" "p \<le> length (claims s)" "p = length (claims s) \<longrightarrow> ph (p mod n) = Free p" using assms(1) by auto
  then have "p = length (claims s') \<longrightarrow> ph' (p mod n) = Free p" using assms(2,5) by auto
  then show ?thesis using P_Cas p assms(2) by auto
next
  case (P_Write t pos)
  then obtain p where p: "pos = of_nat p" "p < length (claims s)" "ph (p mod n) = Writing p" "claims s ! p = t" using assms(1) by auto
  then show ?thesis using P_Write assms(2,3) assms(4) [of p] by (auto intro!: exI [of _ p])
next
  case (P_Store t pos)
  then obtain p where p: "pos = of_nat p" "p < length (claims s)" "ph (p mod n) = Writing p" "claims s ! p = t" "task (slots (ring s) ! (p mod n)) = Some t"
    using assms(1) by auto
  then show ?thesis using P_Store assms(2,3) assms(4) [of p] by (auto intro!: exI [of _ p])
qed simp_all

lemma pop_ok_step:
  assumes "pop_ok s n ph pc" and "claimed s \<le> claimed s'" and "\<And>p. p < claimed s \<Longrightarrow> claims s' ! p = claims s ! p"
    and "\<And>p. reads pc = Some (of_nat p) \<Longrightarrow> ph (p mod n) = Reading p \<Longrightarrow>
      ph' (p mod n) = Reading p \<and> task (slots (ring s') ! (p mod n)) = task (slots (ring s) ! (p mod n))"
    and "\<And>p. claimed s' = claimed s \<Longrightarrow> ph (p mod n) = Full p \<Longrightarrow> ph' (p mod n) = Full p"
  shows "pop_ok s' n ph' pc"
proof (cases pc)
  case (Q_Look pos)
  then show ?thesis using assms(1,2) by (auto intro: order_trans)
next
  case (Q_Cas pos)
  then obtain p where p: "pos = of_nat p" "p \<le> claimed s" "p = claimed s \<longrightarrow> ph (p mod n) = Full p" using assms(1) by auto
  then have "p = claimed s' \<longrightarrow> ph' (p mod n) = Full p" using assms(2,5) by auto
  then show ?thesis using Q_Cas p assms(2) by auto
next
  case (Q_Read pos)
  then obtain p where p: "pos = of_nat p" "p < claimed s" "ph (p mod n) = Reading p" "task (slots (ring s) ! (p mod n)) = Some (claims s ! p)" using assms(1) by auto
  then show ?thesis using Q_Read assms(2,3) assms(4) [of p] by (auto intro!: exI [of _ p])
next
  case (Q_Clear pos v)
  then obtain p where p: "pos = of_nat p" "p < claimed s" "ph (p mod n) = Reading p" "v = Some (claims s ! p)" using assms(1) by auto
  then show ?thesis using Q_Clear assms(2,3) assms(4) [of p] by (auto intro!: exI [of _ p])
next
  case (Q_Store pos v)
  then obtain p where p: "pos = of_nat p" "p < claimed s" "ph (p mod n) = Reading p" "v = Some (claims s ! p)" using assms(1) by auto
  then show ?thesis using Q_Store assms(2,3) assms(4) [of p] by (auto intro!: exI [of _ p])
qed simp_all

section \<open>Claims\<close>

lemma push_looked:
  assumes ok: "ring_ok s k ph" and b: "length (claims s) < 2 ^ 62" and p: "p \<le> length (claims s)"
    and seq: "sequence (slots (ring s) ! (p mod 2 ^ k)) = of_nat p" and T: "p = length (claims s)"
  shows "ph (p mod 2 ^ k) = Free p"
proof -
  have sh: "shape s k" using ok by (simp add: ring_ok_def)
  note lc = look_cell [OF ok b p] and bd = shape_bounds [OF sh b]
  have e: "x < 2 ^ 63 \<Longrightarrow> (of_nat x :: u64) = of_nat p \<Longrightarrow> x = p" for x
    using of_nat_eq_64 [of x p] bd(1) [of p] p by simp
  show ?thesis
  proof (cases "ph (p mod 2 ^ k)")
    case (Free q)
    then show ?thesis using lc(3,5) seq e bd(1) by simp
  next
    case (Writing q)
    then show ?thesis using lc(3,5) seq e [of q] bd(1) [of q] T by simp
  next
    case (Full q)
    then have "q + 1 = p" using lc(3,5) seq e [of "q + 1"] bd(1) [of "q + 1"] by simp
    then show ?thesis using lc(2) Full mod_neighbours [OF bd(3), of q] by simp
  next
    case (Reading q)
    then have "q + 1 = p" using lc(3,5) seq e [of "q + 1"] bd(1) [of "q + 1"] by simp
    then show ?thesis using lc(2) Reading mod_neighbours [OF bd(3), of q] by simp
  qed
qed

lemma pop_looked:
  assumes ok: "ring_ok s k ph" and b: "length (claims s) < 2 ^ 62" and p: "p = claimed s"
    and seq: "sequence (slots (ring s) ! (p mod 2 ^ k)) = of_nat (p + 1)"
  shows "ph (p mod 2 ^ k) = Full p"
proof -
  have sh: "shape s k" using ok by (simp add: ring_ok_def)
  then have p': "p \<le> length (claims s)" using p by (simp add: shape_def)
  note lc = look_cell [OF ok b p'] and bd = shape_bounds [OF sh b]
  have e: "x < 2 ^ 63 \<Longrightarrow> (of_nat x :: u64) = of_nat (p + 1) \<Longrightarrow> x = p + 1" for x
    using of_nat_eq_64 [of x "p + 1"] bd(1) [of "p + 1"] p' bd(3) by simp
  show ?thesis
  proof (cases "ph (p mod 2 ^ k)")
    case (Free q)
    then have "q = p + 1" using lc(3,5) seq e [of q] bd(1) [of q] by simp
    then show ?thesis using lc(2) Free mod_neighbours [OF bd(3), of p] by simp
  next
    case (Writing q)
    then have "q = p + 1" using lc(3,5) seq e [of q] bd(1) [of q] by simp
    then show ?thesis using lc(2) Writing mod_neighbours [OF bd(3), of p] by simp
  next
    case (Full q)
    then show ?thesis using lc(3,5) seq e [of "q + 1"] bd(1) [of "q + 1"] by simp
  next
    case (Reading q)
    then show ?thesis using lc(3,5) seq e [of "q + 1"] bd(1) [of "q + 1"] p by simp
  qed
qed

lemma claim_push:
  assumes ok: "ring_ok s k ph" and b: "length (claims s) < 2 ^ 62" and free: "ph (length (claims s) mod 2 ^ k) = Free (length (claims s))"
    and i: "writes (pushers s i) = None"
    and s': "s' = s\<lparr>ring := (ring s)\<lparr>tail := of_nat (length (claims s)) + 1\<rparr>, pushers := (pushers s)(i := P_Write t (of_nat (length (claims s)))), claims := claims s @ [t]\<rparr>"
  shows "ring_ok s' k (ph(length (claims s) mod 2 ^ k := Writing (length (claims s))))"
proof -
  define T where "T = length (claims s)"
  define n :: nat where "n = 2 ^ k"
  let ?ph = "ph(T mod n := Writing T)"
  note fr = free [folded T_def n_def]
  have sh: "shape s k" and ci: "cells_inv s n ph" and po: "\<And>j. push_ok s n ph (pushers s j)" and qo: "\<And>j. pop_ok s n ph (poppers s j)"
      and ow: "owners_inv s n ph" and gi: "got_inv s" using ok by (simp_all add: ring_ok_def n_def)
  note bd = shape_bounds [OF sh b, folded T_def n_def]
  have n: "0 < n" by (simp add: n_def)
  have H: "claimed s \<le> T" using sh by (simp add: shape_def T_def)
  have e: "claims s' = claims s @ [t]" "length (claims s') = T + 1" "claimed s' = claimed s" "slots (ring s') = slots (ring s)"
      "poppers s' = poppers s" "got s' = got s" "pushers s' = (pushers s)(i := P_Write t (of_nat T))" by (simp_all add: s' T_def)
  have ne: "(of_nat p :: u64) \<noteq> of_nat T" if "p < T" for p using of_nat_eq_64 [of p T] bd(1) [of p] bd(1) [of T] that by simp
  have other: "x mod n = T mod n \<Longrightarrow> ph (x mod n) = Free T" for x using fr by simp
  have "shape s' k" using sh by (simp add: shape_def s')
  moreover have "cells_inv s' n ?ph"
    unfolding cells_inv_def
  proof (intro conjI allI impI)
    fix j assume j: "j < n"
    have lj: "lap (ph j) mod n = j" "T \<le> lap (ph j) + n" "cell_ok s n (slots (ring s) ! j) (ph j)" using ci j by (simp_all add: cells_inv_def T_def)
    show "lap (?ph j) mod n = j" using lj by simp
    have "T + 1 \<le> lap (ph j) + n" if "j \<noteq> T mod n"
    proof -
      have "lap (ph j) + n \<noteq> T" using that lj(1) by (metis mod_add_self2)
      then show ?thesis using lj(2) by simp
    qed
    then show "length (claims s') \<le> lap (?ph j) + n" using n e by simp
    show "cell_ok s' n (slots (ring s') ! j) (?ph j)"
    proof (cases "j = T mod n")
      case True
      then show ?thesis using lj(3) fr H e by simp
    next
      case False
      then have "lap (ph j) \<noteq> T" using lj(1) by auto
      then show ?thesis using False lj(3) e by (cases "ph j") (auto simp: T_def nth_append)
    qed
  next
    fix p assume p: "claimed s' \<le> p \<and> p < length (claims s')"
    show "?ph (p mod n) = Writing p \<or> ?ph (p mod n) = Full p"
    proof (cases "p = T")
      case False
      then have "ph (p mod n) = Writing p \<or> ph (p mod n) = Full p" using ci p e by (simp add: cells_inv_def T_def)
      then show ?thesis using other [of p] by auto
    qed simp
  qed
  moreover have "push_ok s' n ?ph (pushers s' j)" for j
  proof (cases "j = i")
    case True
    then show ?thesis using e by (auto simp: T_def)
  next
    case False
    have "push_ok s' n ?ph (pushers s j)"
    proof (rule push_ok_step [OF po [of j]])
      fix p assume "ph (p mod n) = Writing p"
      then show "?ph (p mod n) = Writing p \<and> task (slots (ring s') ! (p mod n)) = task (slots (ring s) ! (p mod n))"
        using other [of p] e by auto
    qed (use e T_def in \<open>auto simp: nth_append\<close>)
    then show ?thesis using False e by simp
  qed
  moreover have "pop_ok s' n ?ph (poppers s' j)" for j
  proof -
    have "pop_ok s' n ?ph (poppers s j)"
    proof (rule pop_ok_step [OF qo [of j]])
      fix p assume "ph (p mod n) = Reading p"
      then show "?ph (p mod n) = Reading p \<and> task (slots (ring s') ! (p mod n)) = task (slots (ring s) ! (p mod n))"
        using other [of p] e by auto
    next
      fix p assume "ph (p mod n) = Full p"
      then show "?ph (p mod n) = Full p" using other [of p] by auto
    qed (use e H T_def in \<open>auto simp: nth_append\<close>)
    then show ?thesis using e by simp
  qed
  moreover have "owners_inv s' n ?ph"
  proof -
    have w: "writes (pushers s j) \<noteq> Some (of_nat T)" for j
      using po [of j] ne by (cases "pushers s j") (auto simp: T_def)
    show ?thesis using ow w i e by (auto simp: owners_inv_def) (metis option.distinct(1))
  qed
  moreover have "got_inv s'" using gi H e by (fastforce simp: got_inv_def T_def nth_append)
  ultimately show ?thesis unfolding ring_ok_def n_def T_def by blast
qed


section \<open>Work on a claimed cell\<close>

text \<open>A goroutine that has claimed a position writes to its cell: nobody else relies on what it changes.\<close>

lemma own_cell:
  assumes ok: "ring_ok s k ph" and x0: "ph (p mod 2 ^ k) = Writing p \<or> ph (p mod 2 ^ k) = Reading p"
    and s': "ring s' = (ring s)\<lparr>slots := (slots (ring s))[p mod 2 ^ k := sl]\<rparr>" "claims s' = claims s" "claimed s' = claimed s"
    and x: "cell_ok s (2 ^ k) sl x" "lap x mod 2 ^ k = p mod 2 ^ k" "length (claims s) \<le> lap x + 2 ^ k"
      "claimed s \<le> p \<Longrightarrow> x = Writing p \<or> x = Full p"
  shows "shape s' k" and "cells_inv s' (2 ^ k) (ph(p mod 2 ^ k := x))"
    and "push_ok s (2 ^ k) ph pc \<Longrightarrow> writes pc \<noteq> Some (of_nat p) \<Longrightarrow> push_ok s' (2 ^ k) (ph(p mod 2 ^ k := x)) pc"
    and "pop_ok s (2 ^ k) ph qc \<Longrightarrow> reads qc \<noteq> Some (of_nat p) \<Longrightarrow> pop_ok s' (2 ^ k) (ph(p mod 2 ^ k := x)) qc"
proof -
  define n :: nat where "n = 2 ^ k"
  let ?ph = "ph(p mod n := x)"
  have sh: "shape s k" and ci: "cells_inv s n ph" using ok by (simp_all add: ring_ok_def n_def)
  then show "shape s' k" by (simp add: shape_def s')
  have len: "p mod n < length (slots (ring s))" using sh by (simp add: shape_def n_def)
  note x0 = x0 [folded n_def] and x = x [folded n_def] and s' = s' [folded n_def]
  have other: "slots (ring s') ! j = slots (ring s) ! j" if "j \<noteq> p mod n" for j using that by (simp add: s')
  show "cells_inv s' (2 ^ k) (ph(p mod 2 ^ k := x))"
    unfolding cells_inv_def n_def [symmetric]
  proof (intro conjI allI impI)
    fix j assume j: "j < n"
    have lj: "lap (ph j) mod n = j" "length (claims s) \<le> lap (ph j) + n" "cell_ok s n (slots (ring s) ! j) (ph j)" using ci j by (simp_all add: cells_inv_def)
    show "lap (?ph j) mod n = j" and "length (claims s') \<le> lap (?ph j) + n" using lj x s' by simp_all
    have "cell_ok s n (slots (ring s') ! j) (?ph j)"
      using lj(3) x(1) len other [of j] by (cases "j = p mod n") (simp_all add: s'(1))
    then show "cell_ok s' n (slots (ring s') ! j) (?ph j)" by (simp only: cell_ok_cong [OF s'(2,3)])
  next
    fix q assume "claimed s' \<le> q \<and> q < length (claims s')"
    then have q: "claimed s \<le> q" "q < length (claims s)" by (simp_all add: s'(2,3))
    moreover have "ph (q mod n) = Writing q \<or> ph (q mod n) = Full q" using ci q unfolding cells_inv_def by blast
    ultimately show "?ph (q mod n) = Writing q \<or> ?ph (q mod n) = Full q"
    proof (cases "q mod n = p mod n")
      case True
      then have "q = p" using x0 \<open>ph (q mod n) = Writing q \<or> ph (q mod n) = Full q\<close> by auto
      then show ?thesis using x(4) q(1) by auto
    qed simp
  qed
  show "push_ok s' (2 ^ k) (ph(p mod 2 ^ k := x)) pc" if "push_ok s (2 ^ k) ph pc" and w: "writes pc \<noteq> Some (of_nat p)"
  proof (rule push_ok_step [OF that(1)], unfold n_def [symmetric])
    fix q assume "writes pc = Some (of_nat q)" "ph (q mod n) = Writing q"
    then have "q mod n \<noteq> p mod n" using x0 w by auto
    then show "?ph (q mod n) = Writing q \<and> task (slots (ring s') ! (q mod n)) = task (slots (ring s) ! (q mod n))"
      using other \<open>ph (q mod n) = Writing q\<close> by simp
  next
    fix q assume "ph (q mod n) = Free q"
    then show "?ph (q mod n) = Free q" using x0 by auto
  qed (simp_all add: s')
  show "pop_ok s' (2 ^ k) (ph(p mod 2 ^ k := x)) qc" if "pop_ok s (2 ^ k) ph qc" and r: "reads qc \<noteq> Some (of_nat p)"
  proof (rule pop_ok_step [OF that(1)], unfold n_def [symmetric])
    fix q assume "reads qc = Some (of_nat q)" "ph (q mod n) = Reading q"
    then have "q mod n \<noteq> p mod n" using x0 r by auto
    then show "?ph (q mod n) = Reading q \<and> task (slots (ring s') ! (q mod n)) = task (slots (ring s) ! (q mod n))"
      using other \<open>ph (q mod n) = Reading q\<close> by simp
  next
    fix q assume "ph (q mod n) = Full q"
    then show "?ph (q mod n) = Full q" using x0 by auto
  qed (simp_all add: s')
qed

text \<open>A reader cannot hold the position of a cell that is being written, nor a writer that of one being read.\<close>

lemma writer_cell: "push_ok s n ph pc \<Longrightarrow> writes pc = Some pos \<Longrightarrow> \<exists>p. pos = of_nat p \<and> p < length (claims s) \<and> ph (p mod n) = Writing p"
  by (cases pc) auto

lemma reader_cell: "pop_ok s n ph pc \<Longrightarrow> reads pc = Some pos \<Longrightarrow> \<exists>p. pos = of_nat p \<and> p < claimed s \<and> ph (p mod n) = Reading p"
  by (cases pc) auto

lemma position_unique:
  assumes "length (claims s) < 2 ^ 62" and "p \<le> length (claims s)" and "q \<le> length (claims s)"
  shows "(of_nat p :: u64) = of_nat q \<longleftrightarrow> p = q"
  using assms of_nat_eq_64 [of p q] by simp

lemma no_reader:
  assumes ok: "ring_ok s k ph" and b: "length (claims s) < 2 ^ 62" and p: "p < length (claims s)" and x: "ph (p mod 2 ^ k) = Writing p"
  shows "reads (poppers s j) \<noteq> Some (of_nat p)"
proof
  assume "reads (poppers s j) = Some (of_nat p)"
  then obtain q where q: "(of_nat p :: u64) = of_nat q" "q < claimed s" "ph (q mod 2 ^ k) = Reading q"
    using reader_cell [of s "2 ^ k" ph "poppers s j"] ok by (auto simp: ring_ok_def)
  moreover have "claimed s \<le> length (claims s)" using ok by (simp add: ring_ok_def shape_def)
  ultimately have "p = q" using position_unique [OF b, of p q] p by simp
  then show False using q(3) x by simp
qed

lemma no_writer:
  assumes ok: "ring_ok s k ph" and b: "length (claims s) < 2 ^ 62" and p: "p < length (claims s)" and x: "ph (p mod 2 ^ k) = Reading p"
  shows "writes (pushers s j) \<noteq> Some (of_nat p)"
proof
  assume "writes (pushers s j) = Some (of_nat p)"
  then obtain q where q: "(of_nat p :: u64) = of_nat q" "q < length (claims s)" "ph (q mod 2 ^ k) = Writing q"
    using writer_cell [of s "2 ^ k" ph "pushers s j"] ok by (auto simp: ring_ok_def)
  then have "p = q" using position_unique [OF b, of p q] p by simp
  then show False using q(3) x by simp
qed

lemma write_cell:
  assumes ok: "ring_ok s k ph" and b: "length (claims s) < 2 ^ 62" and p: "p < length (claims s)" "ph (p mod 2 ^ k) = Writing p" "claims s ! p = t"
    and i: "writes (pushers s i) = Some (of_nat p)"
    and s': "s' = s\<lparr>ring := (ring s)\<lparr>slots := (slots (ring s))[p mod 2 ^ k := (slots (ring s) ! (p mod 2 ^ k))\<lparr>task := Some t\<rparr>]\<rparr>,
      pushers := (pushers s)(i := P_Store t (of_nat p))\<rparr>"
  shows "ring_ok s' k ph"
proof -
  let ?sl = "(slots (ring s) ! (p mod 2 ^ k))\<lparr>task := Some t\<rparr>"
  have rg: "ring s' = (ring s)\<lparr>slots := (slots (ring s))[p mod 2 ^ k := ?sl]\<rparr>" and cl: "claims s' = claims s" "claimed s' = claimed s"
      and un: "poppers s' = poppers s" "got s' = got s" "pushers s' = (pushers s)(i := P_Store t (of_nat p))" by (simp_all add: s')
  have same: "ph(p mod 2 ^ k := Writing p) = ph" using p by auto
  have c: "cell_ok s (2 ^ k) ?sl (Writing p)" using look_cell(3) [OF ok b, of p] p by simp
  have oc: "shape s' k" "cells_inv s' (2 ^ k) ph"
      "\<And>pc. push_ok s (2 ^ k) ph pc \<Longrightarrow> writes pc \<noteq> Some (of_nat p) \<Longrightarrow> push_ok s' (2 ^ k) ph pc"
      "\<And>qc. pop_ok s (2 ^ k) ph qc \<Longrightarrow> reads qc \<noteq> Some (of_nat p) \<Longrightarrow> pop_ok s' (2 ^ k) ph qc"
    using own_cell [OF ok disjI1 [OF p(2)] rg cl c] look_cell(4) [OF ok b, of p] p same by simp_all
  have ow: "owners_inv s (2 ^ k) ph" using ok by (simp add: ring_ok_def)
  have w: "writes (pushers s' j) = writes (pushers s j)" for j using i by (simp add: un)
  have "push_ok s' (2 ^ k) ph (pushers s' j)" for j
  proof (cases "j = i")
    case True
    have "p mod 2 ^ k < length (slots (ring s))" using ok by (simp add: ring_ok_def shape_def)
    then show ?thesis using True p by (auto simp: un cl rg)
  next
    case False
    then have "writes (pushers s j) \<noteq> Some (of_nat p)" using ow i by (auto simp: owners_inv_def)
    then show ?thesis using False oc(3) ok by (simp add: un ring_ok_def)
  qed
  moreover have "pop_ok s' (2 ^ k) ph (poppers s' j)" for j
    using oc(4) no_reader [OF ok b p(1,2)] ok by (simp add: un ring_ok_def)
  moreover have "owners_inv s' (2 ^ k) ph" using ow by (simp add: owners_inv_def un(1) w)
  moreover have "got_inv s'" using ok by (simp add: ring_ok_def got_inv_def un cl)
  ultimately show ?thesis using oc(1,2) by (simp add: ring_ok_def)
qed

lemma publish_cell:
  assumes ok: "ring_ok s k ph" and b: "length (claims s) < 2 ^ 62" and p: "p < length (claims s)" "ph (p mod 2 ^ k) = Writing p"
    and tk: "task (slots (ring s) ! (p mod 2 ^ k)) = Some (claims s ! p)" and i: "writes (pushers s i) = Some (of_nat p)"
    and s': "s' = s\<lparr>ring := (ring s)\<lparr>slots := (slots (ring s))[p mod 2 ^ k := (slots (ring s) ! (p mod 2 ^ k))\<lparr>sequence := of_nat p + 1\<rparr>]\<rparr>,
      pushers := (pushers s)(i := P_Done True)\<rparr>"
  shows "ring_ok s' k (ph(p mod 2 ^ k := Full p))"
proof -
  let ?sl = "(slots (ring s) ! (p mod 2 ^ k))\<lparr>sequence := of_nat p + 1\<rparr>" and ?ph = "ph(p mod 2 ^ k := Full p)"
  have rg: "ring s' = (ring s)\<lparr>slots := (slots (ring s))[p mod 2 ^ k := ?sl]\<rparr>" and cl: "claims s' = claims s" "claimed s' = claimed s"
      and un: "poppers s' = poppers s" "got s' = got s" "pushers s' = (pushers s)(i := P_Done True)" by (simp_all add: s')
  have c: "cell_ok s (2 ^ k) ?sl (Full p)" using look_cell(3) [OF ok b, of p] p tk by (simp add: add.commute)
  have l: "length (claims s) \<le> lap (Full p) + 2 ^ k" using look_cell(4) [OF ok b, of p] p by simp
  note oc = own_cell [OF ok disjI1 [OF p(2)] rg cl c _ l]
  have ow: "owners_inv s (2 ^ k) ph" using ok by (simp add: ring_ok_def)
  have "push_ok s' (2 ^ k) ?ph (pushers s' j)" for j
  proof (cases "j = i")
    case False
    then have "writes (pushers s j) \<noteq> Some (of_nat p)" using ow i by (auto simp: owners_inv_def)
    then show ?thesis using False oc(3) ok by (simp add: un ring_ok_def)
  qed (simp add: un)
  moreover have "pop_ok s' (2 ^ k) ?ph (poppers s' j)" for j
    using oc(4) no_reader [OF ok b p(1,2)] ok by (simp add: un ring_ok_def)
  moreover have "owners_inv s' (2 ^ k) ?ph"
  proof -
    have "\<exists>j. writes (pushers s' j) = Some (of_nat q)" if jq: "?ph j = Writing q" "j < 2 ^ k" for j q
    proof -
      have j: "j \<noteq> p mod 2 ^ k" "ph j = Writing q" using jq by (auto split: if_splits)
      then obtain m where m: "writes (pushers s m) = Some (of_nat q)" using ow jq(2) unfolding owners_inv_def by blast
      have "cell_ok s (2 ^ k) (slots (ring s) ! j) (Writing q)" "q mod 2 ^ k = j" using ok jq(2) j(2) by (force simp: ring_ok_def cells_inv_def)+
      then have "q < length (claims s)" "q \<noteq> p" using j(1) by auto
      then have "m \<noteq> i" using m i position_unique [OF b, of p q] p(1) by auto
      then show ?thesis using m by (auto simp: un intro!: exI [of _ m])
    qed
    moreover have "\<exists>m. reads (poppers s m) = Some (of_nat q)" if jq: "?ph j = Reading q" "j < 2 ^ k" for j q
    proof -
      have "ph j = Reading q" using jq by (auto split: if_splits)
      then show ?thesis using ow jq(2) unfolding owners_inv_def by blast
    qed
    moreover have "u = v" if uv: "writes (pushers s' u) = Some pos" "writes (pushers s' v) = Some pos" for u v pos
    proof -
      have "writes (pushers s u) = Some pos" "writes (pushers s v) = Some pos" using uv by (auto simp: un split: if_splits)
      then show ?thesis using ow unfolding owners_inv_def by blast
    qed
    moreover have "u = v" if uv: "reads (poppers s u) = Some pos" "reads (poppers s v) = Some pos" for u v pos
      using ow uv unfolding owners_inv_def by blast
    ultimately show ?thesis unfolding owners_inv_def un(1) by simp
  qed
  moreover have "got_inv s'" using ok by (simp add: ring_ok_def got_inv_def un cl)
  ultimately show ?thesis using oc(1,2) by (simp add: ring_ok_def)
qed


lemma reads_apart:
  assumes "ring_ok s k ph" and "reads (poppers s i) = Some pos" and "j \<noteq> i"
  shows "reads (poppers s j) \<noteq> Some pos"
  using assms unfolding ring_ok_def owners_inv_def by blast

lemma claim_pop:
  assumes ok: "ring_ok s k ph" and b: "length (claims s) < 2 ^ 62" and full: "ph (claimed s mod 2 ^ k) = Full (claimed s)"
    and i: "reads (poppers s i) = None"
    and s': "s' = s\<lparr>ring := (ring s)\<lparr>head := of_nat (claimed s) + 1\<rparr>, poppers := (poppers s)(i := Q_Read (of_nat (claimed s))), claimed := claimed s + 1\<rparr>"
  shows "ring_ok s' k (ph(claimed s mod 2 ^ k := Reading (claimed s)))"
proof -
  define H where "H = claimed s"
  define n :: nat where "n = 2 ^ k"
  let ?ph = "ph(H mod n := Reading H)"
  note fu = full [folded H_def n_def]
  have sh: "shape s k" and ci: "cells_inv s n ph" and po: "\<And>j. push_ok s n ph (pushers s j)" and qo: "\<And>j. pop_ok s n ph (poppers s j)"
      and ow: "owners_inv s n ph" and gi: "got_inv s" using ok by (simp_all add: ring_ok_def n_def)
  have HT: "H \<le> length (claims s)" using sh by (simp add: shape_def H_def)
  have e: "claims s' = claims s" "claimed s' = H + 1" "slots (ring s') = slots (ring s)" "mask (ring s') = mask (ring s)" "tail (ring s') = tail (ring s)"
      "head (ring s') = of_nat (H + 1)" "pushers s' = pushers s" "got s' = got s" "poppers s' = (poppers s)(i := Q_Read (of_nat H))"
    by (simp_all add: s' H_def add.commute)
  have Hn: "H mod n < n" by (simp add: n_def)
  have hc: "cell_ok s n (slots (ring s) ! (H mod n)) (Full H)" using ci Hn fu unfolding cells_inv_def by metis
  then have HT': "H < length (claims s)" by simp
  have other: "x mod n = H mod n \<Longrightarrow> ph (x mod n) = Full H" for x using fu by simp
  have r: "reads (poppers s j) \<noteq> Some (of_nat H)" for j
  proof
    assume "reads (poppers s j) = Some (of_nat H)"
    then obtain q where q: "(of_nat H :: u64) = of_nat q" "q < H" using reader_cell [OF qo [of j]] by (auto simp: H_def)
    then show False using position_unique [OF b HT, of q] HT by simp
  qed
  have "shape s' k" using sh HT' by (simp add: shape_def e)
  moreover have "cells_inv s' n ?ph"
    unfolding cells_inv_def
  proof (intro conjI allI impI)
    fix j assume j: "j < n"
    have lj: "lap (ph j) mod n = j" "length (claims s) \<le> lap (ph j) + n" "cell_ok s n (slots (ring s) ! j) (ph j)" using ci j by (simp_all add: cells_inv_def)
    show "lap (?ph j) mod n = j" and "length (claims s') \<le> lap (?ph j) + n" using lj fu e by auto
    show "cell_ok s' n (slots (ring s') ! j) (?ph j)"
    proof (cases "j = H mod n")
      case True
      then show ?thesis using hc e by simp
    next
      case False
      then have "lap (ph j) \<noteq> H" using lj(1) by auto
      then show ?thesis using False lj(3) e by (cases "ph j") (auto simp: H_def)
    qed
  next
    fix p assume "claimed s' \<le> p \<and> p < length (claims s')"
    then have p: "claimed s \<le> p \<and> p < length (claims s)" "p \<noteq> H" by (auto simp: e H_def)
    then have "ph (p mod n) = Writing p \<or> ph (p mod n) = Full p" using ci unfolding cells_inv_def by blast
    then show "?ph (p mod n) = Writing p \<or> ?ph (p mod n) = Full p" using other [of p] p(2) by (cases "p mod n = H mod n") auto
  qed
  moreover have "push_ok s' n ?ph (pushers s' j)" for j
    unfolding e(7)
  proof (rule push_ok_step [OF po [of j]])
    fix p assume "ph (p mod n) = Writing p"
    then show "?ph (p mod n) = Writing p \<and> task (slots (ring s') ! (p mod n)) = task (slots (ring s) ! (p mod n))"
      using other [of p] e by (cases "p mod n = H mod n") auto
  next
    fix p assume "ph (p mod n) = Free p"
    then show "?ph (p mod n) = Free p" using other [of p] by (cases "p mod n = H mod n") auto
  qed (simp_all add: e)
  moreover have "pop_ok s' n ?ph (poppers s' j)" for j
  proof (cases "j = i")
    case True
    then show ?thesis using hc by (auto simp: e)
  next
    case False
    have "pop_ok s' n ?ph (poppers s j)"
    proof (rule pop_ok_step [OF qo [of j]])
      fix p assume "ph (p mod n) = Reading p"
      then show "?ph (p mod n) = Reading p \<and> task (slots (ring s') ! (p mod n)) = task (slots (ring s) ! (p mod n))"
        using other [of p] e by (cases "p mod n = H mod n") auto
    qed (simp_all add: e H_def)
    then show ?thesis using False e by simp
  qed
  moreover have "owners_inv s' n ?ph"
  proof -
    have "\<exists>i. writes (pushers s i) = Some (of_nat p)" if jp: "?ph j = Writing p" "j < n" for j p
      using jp ow unfolding owners_inv_def by (cases "j = H mod n") auto
    moreover have "\<exists>m. reads (poppers s' m) = Some (of_nat p)" if jp: "?ph j = Reading p" "j < n" for j p
    proof (cases "j = H mod n")
      case True
      then show ?thesis using jp by (auto simp: e intro!: exI [of _ i])
    next
      case False
      then have "ph j = Reading p" using jp(1) by simp
      then obtain m where "reads (poppers s m) = Some (of_nat p)" using jp(2) ow unfolding owners_inv_def by blast
      then show ?thesis using i by (auto simp: e intro!: exI [of _ m])
    qed
    moreover have "u = v" if uv: "reads (poppers s' u) = Some pos" "reads (poppers s' v) = Some pos" for u v pos
      using uv r ow unfolding owners_inv_def e(9) by (auto split: if_splits)
    ultimately show ?thesis using ow unfolding owners_inv_def e(7) by blast
  qed
  moreover have "got_inv s'"
  proof -
    have "reads (poppers s' j) \<noteq> Some (of_nat p)" if pv: "(p, v) \<in> set (got s)" for p v j
    proof -
      have "p < H" "reads (poppers s j) \<noteq> Some (of_nat p)" using gi pv by (auto simp: got_inv_def H_def)
      then show ?thesis using position_unique [OF b, of H p] HT by (simp add: e)
    qed
    moreover have "p \<in> fst ` set (got s) \<or> (\<exists>j. reads (poppers s' j) = Some (of_nat p))" if p: "p < H + 1" for p
    proof (cases "p = H")
      case True
      then show ?thesis by (auto simp: e intro!: exI [of _ i])
    next
      case False
      then have "p \<in> fst ` set (got s) \<or> (\<exists>j. reads (poppers s j) = Some (of_nat p))" using gi p by (simp add: got_inv_def H_def)
      moreover have "reads (poppers s j) = Some (of_nat p) \<Longrightarrow> reads (poppers s' j) = Some (of_nat p)" for j using i by (auto simp: e)
      ultimately show ?thesis by blast
    qed
    ultimately show ?thesis using gi unfolding got_inv_def e(1,2,8) H_def by fastforce
  qed
  ultimately show ?thesis unfolding ring_ok_def n_def H_def by blast
qed

lemma clear_cell:
  assumes ok: "ring_ok s k ph" and b: "length (claims s) < 2 ^ 62" and p: "p < claimed s" "ph (p mod 2 ^ k) = Reading p"
    and i: "reads (poppers s i) = Some (of_nat p)"
    and s': "s' = s\<lparr>ring := (ring s)\<lparr>slots := (slots (ring s))[p mod 2 ^ k := (slots (ring s) ! (p mod 2 ^ k))\<lparr>task := None\<rparr>]\<rparr>,
      poppers := (poppers s)(i := Q_Store (of_nat p) (Some (claims s ! p)))\<rparr>"
  shows "ring_ok s' k ph"
proof -
  let ?sl = "(slots (ring s) ! (p mod 2 ^ k))\<lparr>task := None\<rparr>"
  have rg: "ring s' = (ring s)\<lparr>slots := (slots (ring s))[p mod 2 ^ k := ?sl]\<rparr>" and cl: "claims s' = claims s" "claimed s' = claimed s"
      and un: "pushers s' = pushers s" "got s' = got s" "poppers s' = (poppers s)(i := Q_Store (of_nat p) (Some (claims s ! p)))" by (simp_all add: s')
  have pT: "p < length (claims s)" using ok p by (simp add: ring_ok_def shape_def)
  have same: "ph(p mod 2 ^ k := Reading p) = ph" using p by auto
  have c: "cell_ok s (2 ^ k) ?sl (Reading p)" using look_cell(3) [OF ok b, of p] p pT by simp
  have oc: "shape s' k" "cells_inv s' (2 ^ k) ph"
      "\<And>pc. push_ok s (2 ^ k) ph pc \<Longrightarrow> writes pc \<noteq> Some (of_nat p) \<Longrightarrow> push_ok s' (2 ^ k) ph pc"
      "\<And>qc. pop_ok s (2 ^ k) ph qc \<Longrightarrow> reads qc \<noteq> Some (of_nat p) \<Longrightarrow> pop_ok s' (2 ^ k) ph qc"
    using own_cell [OF ok disjI2 [OF p(2)] rg cl c] look_cell(4) [OF ok b, of p] p pT same by simp_all
  have r: "reads (poppers s' j) = reads (poppers s j)" for j using i by (simp add: un)
  have "pop_ok s' (2 ^ k) ph (poppers s' j)" for j
  proof (cases "j = i")
    case True
    then show ?thesis using p by (auto simp: un cl)
  next
    case False
    then show ?thesis using oc(4) reads_apart [OF ok i False] ok by (simp add: un ring_ok_def)
  qed
  moreover have "push_ok s' (2 ^ k) ph (pushers s' j)" for j
    using oc(3) no_writer [OF ok b pT p(2)] ok by (simp add: un ring_ok_def)
  moreover have "owners_inv s' (2 ^ k) ph" using ok by (simp add: ring_ok_def owners_inv_def un(1) r)
  moreover have "got_inv s'" using ok by (simp add: ring_ok_def got_inv_def un(2) cl r)
  ultimately show ?thesis using oc(1,2) by (simp add: ring_ok_def)
qed

lemma release_cell:
  assumes ok: "ring_ok s k ph" and b: "length (claims s) < 2 ^ 62" and p: "p < claimed s" "ph (p mod 2 ^ k) = Reading p"
    and i: "reads (poppers s i) = Some (of_nat p)"
    and s': "s' = s\<lparr>ring := (ring s)\<lparr>slots := (slots (ring s))[p mod 2 ^ k := (slots (ring s) ! (p mod 2 ^ k))\<lparr>sequence := of_nat p + mask (ring s) + 1\<rparr>]\<rparr>,
      poppers := (poppers s)(i := Q_Done v), got := got s @ [(p, Some (claims s ! p))]\<rparr>"
  shows "ring_ok s' k (ph(p mod 2 ^ k := Free (p + 2 ^ k)))"
proof -
  let ?sl = "(slots (ring s) ! (p mod 2 ^ k))\<lparr>sequence := of_nat p + mask (ring s) + 1\<rparr>" and ?ph = "ph(p mod 2 ^ k := Free (p + 2 ^ k))"
  have rg: "ring s' = (ring s)\<lparr>slots := (slots (ring s))[p mod 2 ^ k := ?sl]\<rparr>" and cl: "claims s' = claims s" "claimed s' = claimed s"
      and un: "pushers s' = pushers s" "got s' = got s @ [(p, Some (claims s ! p))]" "poppers s' = (poppers s)(i := Q_Done v)" by (simp_all add: s')
  have HT: "claimed s \<le> length (claims s)" and mk: "mask (ring s) = of_nat (2 ^ k - 1)" using ok by (simp_all add: ring_ok_def shape_def)
  then have pT: "p < length (claims s)" using p by simp
  have l: "length (claims s) \<le> p + 2 ^ k" using look_cell(4) [OF ok b, of p] p pT by simp
  have "(of_nat p :: u64) + mask (ring s) + 1 = of_nat (p + 2 ^ k)" by (simp add: mk)
  then have c: "cell_ok s (2 ^ k) ?sl (Free (p + 2 ^ k))" using l pT by simp
  have oc: "shape s' k" "cells_inv s' (2 ^ k) ?ph"
      "\<And>pc. push_ok s (2 ^ k) ph pc \<Longrightarrow> writes pc \<noteq> Some (of_nat p) \<Longrightarrow> push_ok s' (2 ^ k) ?ph pc"
      "\<And>qc. pop_ok s (2 ^ k) ph qc \<Longrightarrow> reads qc \<noteq> Some (of_nat p) \<Longrightarrow> pop_ok s' (2 ^ k) ?ph qc"
    using own_cell [OF ok disjI2 [OF p(2)] rg cl c] l p(1) by simp_all
  have gi: "got_inv s" and ow: "owners_inv s (2 ^ k) ph" using ok by (simp_all add: ring_ok_def)
  have r: "reads (poppers s' j) = (if j = i then None else reads (poppers s j))" for j by (simp add: un)
  have "pop_ok s' (2 ^ k) ?ph (poppers s' j)" for j
  proof (cases "j = i")
    case False
    then show ?thesis using oc(4) reads_apart [OF ok i False] ok by (simp add: un ring_ok_def)
  qed (simp add: un)
  moreover have "push_ok s' (2 ^ k) ?ph (pushers s' j)" for j
    using oc(3) no_writer [OF ok b pT p(2)] ok by (simp add: un ring_ok_def)
  moreover have "owners_inv s' (2 ^ k) ?ph"
  proof -
    have "\<exists>m. writes (pushers s m) = Some (of_nat q)" if jq: "?ph j = Writing q" "j < 2 ^ k" for j q
      using jq ow unfolding owners_inv_def by (cases "j = p mod 2 ^ k") auto
    moreover have "\<exists>m. reads (poppers s' m) = Some (of_nat q)" if jq: "?ph j = Reading q" "j < 2 ^ k" for j q
    proof -
      have j: "j \<noteq> p mod 2 ^ k" "ph j = Reading q" using jq by (auto split: if_splits)
      then obtain m where m: "reads (poppers s m) = Some (of_nat q)" using ow jq(2) unfolding owners_inv_def by blast
      have "cell_ok s (2 ^ k) (slots (ring s) ! j) (Reading q)" "q mod 2 ^ k = j" using ok jq(2) j(2) by (force simp: ring_ok_def cells_inv_def)+
      then have "q < length (claims s)" "q \<noteq> p" using j(1) HT by auto
      then have "m \<noteq> i" using m i position_unique [OF b, of p q] pT by auto
      then show ?thesis using m by (auto simp: r intro!: exI [of _ m])
    qed
    moreover have "u = w" if uw: "reads (poppers s' u) = Some pos" "reads (poppers s' w) = Some pos" for u w pos
      using uw ow unfolding owners_inv_def r by (auto split: if_splits)
    ultimately show ?thesis using ow unfolding owners_inv_def un(1) by blast
  qed
  moreover have "got_inv s'"
  proof -
    have new: "p \<notin> fst ` set (got s)" using gi i by (fastforce simp: got_inv_def)
    have mine: "reads (poppers s' j) \<noteq> Some (of_nat p)" for j using reads_apart [OF ok i] by (simp add: r)
    have "q = p \<or> (\<exists>j. reads (poppers s' j) = Some (of_nat q))" if q: "q < claimed s" "q \<notin> fst ` set (got s)" for q
    proof -
      obtain j where j: "reads (poppers s j) = Some (of_nat q)" using gi q unfolding got_inv_def by blast
      then have "j = i \<Longrightarrow> q = p" using i position_unique [OF b, of p q] pT q(1) HT by simp
      then show ?thesis using j by (auto simp: r)
    qed
    then have "\<forall>q<claimed s. q \<in> fst ` set (got s') \<or> (\<exists>j. reads (poppers s' j) = Some (of_nat q))" by (auto simp: un(2))
    moreover have "\<forall>(q, u)\<in>set (got s'). q < claimed s \<and> u = Some (claims s ! q) \<and> (\<forall>j. reads (poppers s' j) \<noteq> Some (of_nat q))"
      using gi p(1) mine unfolding got_inv_def un(2) by (auto simp: r)
    moreover have "distinct (map fst (got s'))" using gi new by (simp add: got_inv_def un(2))
    ultimately show ?thesis unfolding got_inv_def cl by blast
  qed
  ultimately show ?thesis using oc(1,2) by (simp add: ring_ok_def)
qed


section \<open>Every step keeps the invariant\<close>

lemma push_inv:
  assumes ok: "ring_ok s k ph" and b: "length (claims s) < 2 ^ 62" and st: "push_step (pushers s i) (ring s) = (pc, q)"
    and s': "s' = s\<lparr>ring := q, pushers := (pushers s)(i := pc),
      claims := (case pushers s i of P_Cas t pos \<Rightarrow> if writes pc \<noteq> None then claims s @ [t] else claims s | _ \<Rightarrow> claims s)\<rparr>"
  shows "\<exists>ph'. ring_ok s' k ph'"
proof -
  have po: "push_ok s (2 ^ k) ph (pushers s i)" and sh: "shape s k" using ok by (simp_all add: ring_ok_def)
  have keep: "ring_ok s' k ph" if "q = ring s" "s' = s\<lparr>pushers := (pushers s)(i := pc)\<rparr>" "writes (pushers s i) = None" "writes pc = None" "push_ok s (2 ^ k) ph pc"
    using push_pc_kept [OF ok that(3-5,2)] .
  show ?thesis
  proof (cases "pushers s i")
    case (P_Load t)
    then have "push_ok s (2 ^ k) ph pc" using st sh by (auto simp: shape_def)
    then show ?thesis using keep st s' P_Load by auto
  next
    case (P_Look t pos)
    then obtain p where p: "pos = of_nat p" "p \<le> length (claims s)" using po by auto
    note lc = look_cell(1) [OF ok b p(2)] and lk = push_looked [OF ok b p(2)]
    have "push_ok s (2 ^ k) ph pc" using st P_Look p lc lk by (auto simp: Let_def split: if_splits intro!: exI [of _ p])
    moreover have "q = ring s" "writes pc = None" using st P_Look by (auto simp: Let_def split: if_splits)
    ultimately show ?thesis using keep P_Look s' by auto
  next
    case (P_Cas t pos)
    then obtain p where p: "pos = of_nat p" "p \<le> length (claims s)" "p = length (claims s) \<longrightarrow> ph (p mod 2 ^ k) = Free p" using po by auto
    have tl: "tail (ring s) = pos \<longleftrightarrow> p = length (claims s)" using sh p position_unique [OF b, of "length (claims s)" p] by (auto simp: shape_def)
    show ?thesis
    proof (cases "p = length (claims s)")
      case True
      then have "pc = P_Write t pos" "q = (ring s)\<lparr>tail := pos + 1\<rparr>" using st P_Cas tl by auto
      then show ?thesis using claim_push [OF ok b, of i s' t] True p s' P_Cas by auto
    next
      case False
      then have "pc = P_Load t" "q = ring s" using st P_Cas tl by auto
      then show ?thesis using keep P_Cas s' by auto
    qed
  next
    case (P_Write t pos)
    then obtain p where p: "pos = of_nat p" "p < length (claims s)" "ph (p mod 2 ^ k) = Writing p" "claims s ! p = t" using po by auto
    then show ?thesis using write_cell [OF ok b p(2-4), of i s'] look_cell(1) [OF ok b, of p] P_Write st s' by auto
  next
    case (P_Store t pos)
    then obtain p where p: "pos = of_nat p" "p < length (claims s)" "ph (p mod 2 ^ k) = Writing p" "claims s ! p = t"
      "task (slots (ring s) ! (p mod 2 ^ k)) = Some t" using po by auto
    then have tk: "task (slots (ring s) ! (p mod 2 ^ k)) = Some (claims s ! p)" by simp
    show ?thesis using publish_cell [OF ok b p(2,3) tk, of i s'] look_cell(1) [OF ok b, of p] P_Store st s' p by auto
  next
    case P_Idle
    then show ?thesis using keep st s' by auto
  next
    case (P_Done d)
    then have "pc = P_Done d" "q = ring s" using st by auto
    then show ?thesis using keep P_Done s' by auto
  qed
qed

lemma pop_inv:
  assumes ok: "ring_ok s k ph" and b: "length (claims s) < 2 ^ 62" and st: "pop_step (poppers s i) (ring s) = (pc, q)"
    and s': "s' = s\<lparr>ring := q, poppers := (poppers s)(i := pc),
      claimed := (case poppers s i of Q_Cas pos \<Rightarrow> if reads pc \<noteq> None then claimed s + 1 else claimed s | _ \<Rightarrow> claimed s),
      got := (case poppers s i of Q_Store pos v \<Rightarrow> got s @ [(unat pos, v)] | _ \<Rightarrow> got s)\<rparr>"
  shows "\<exists>ph'. ring_ok s' k ph'"
proof -
  have qo: "pop_ok s (2 ^ k) ph (poppers s i)" and sh: "shape s k" using ok by (simp_all add: ring_ok_def)
  have HT: "claimed s \<le> length (claims s)" using sh by (simp add: shape_def)
  have keep: "ring_ok s' k ph" if "q = ring s" "s' = s\<lparr>poppers := (poppers s)(i := pc)\<rparr>" "reads (poppers s i) = reads pc" "pop_ok s (2 ^ k) ph pc"
    using pop_pc_kept [OF ok that(3-4,2)] .
  show ?thesis
  proof (cases "poppers s i")
    case Q_Load
    then have "pop_ok s (2 ^ k) ph pc" using st sh by (auto simp: shape_def)
    then show ?thesis using keep st s' Q_Load by auto
  next
    case (Q_Look pos)
    then obtain p where p: "pos = of_nat p" "p \<le> claimed s" using qo by auto
    note lc = look_cell(1) [OF ok b order_trans [OF p(2) HT]] and lk = pop_looked [OF ok b, of p]
    have "pop_ok s (2 ^ k) ph pc" using st Q_Look p lc lk by (auto simp: Let_def add.commute split: if_splits intro!: exI [of _ p])
    moreover have "q = ring s" "reads pc = None" using st Q_Look by (auto simp: Let_def split: if_splits)
    ultimately show ?thesis using keep Q_Look s' by auto
  next
    case (Q_Cas pos)
    then obtain p where p: "pos = of_nat p" "p \<le> claimed s" "p = claimed s \<longrightarrow> ph (p mod 2 ^ k) = Full p" using qo by auto
    have hd: "head (ring s) = pos \<longleftrightarrow> p = claimed s" using sh p position_unique [OF b, of "claimed s" p] HT by (auto simp: shape_def)
    show ?thesis
    proof (cases "p = claimed s")
      case True
      then have "pc = Q_Read pos" "q = (ring s)\<lparr>head := pos + 1\<rparr>" using st Q_Cas hd by auto
      then show ?thesis using claim_pop [OF ok b, of i s'] True p s' Q_Cas by auto
    next
      case False
      then have "pc = Q_Load" "q = ring s" using st Q_Cas hd by auto
      then show ?thesis using keep Q_Cas s' by auto
    qed
  next
    case (Q_Read pos)
    then obtain p where p: "pos = of_nat p" "p < claimed s" "ph (p mod 2 ^ k) = Reading p" "task (slots (ring s) ! (p mod 2 ^ k)) = Some (claims s ! p)" using qo by auto
    then have "pc = Q_Clear pos (Some (claims s ! p))" "q = ring s" using st Q_Read look_cell(1) [OF ok b, of p] HT by auto
    then show ?thesis using keep Q_Read s' p by auto
  next
    case (Q_Clear pos v)
    then obtain p where p: "pos = of_nat p" "p < claimed s" "ph (p mod 2 ^ k) = Reading p" "v = Some (claims s ! p)" using qo by auto
    then show ?thesis using clear_cell [OF ok b p(2,3), of i s'] look_cell(1) [OF ok b, of p] Q_Clear st s' HT by auto
  next
    case (Q_Store pos v)
    then obtain p where p: "pos = of_nat p" "p < claimed s" "ph (p mod 2 ^ k) = Reading p" "v = Some (claims s ! p)" using qo by auto
    moreover have "unat (of_nat p :: u64) = p" using unat_of_nat_64 [of p] b p(2) HT by simp
    ultimately show ?thesis using release_cell [OF ok b p(2,3), of i s' v] look_cell(1) [OF ok b, of p] Q_Store st s' HT by auto
  next
    case Q_Idle
    then show ?thesis using keep st s' by auto
  next
    case (Q_Done v)
    then have "pc = Q_Done v" "q = ring s" using st by auto
    then show ?thesis using keep Q_Done s' by auto
  qed
qed

lemma ring_inv_step: "ring_inv s \<Longrightarrow> ring_step s t \<Longrightarrow> ring_inv t"
  unfolding ring_inv_def
proof
  assume iv: "length (claims s) < 2 ^ 62 \<longrightarrow> (\<exists>k ph. ring_ok s k ph)" and "ring_step s t" and b': "length (claims t) < 2 ^ 62"
  from \<open>ring_step s t\<close> have "length (claims s) \<le> length (claims t)" by (cases rule: ring_step.cases) (auto split: push_pc.splits)
  then have b: "length (claims s) < 2 ^ 62" using b' by simp
  then obtain k ph where ok: "ring_ok s k ph" using iv by blast
  from \<open>ring_step s t\<close> have "\<exists>ph'. ring_ok t k ph'"
  proof (cases rule: ring_step.cases)
    case (call_push i v)
    then have "writes (pushers s i) = None" by (cases "pushers s i") auto
    then show ?thesis using push_pc_kept [OF ok _ _ _ call_push(1)] by auto
  next
    case (do_push i pc q)
    then show ?thesis using push_inv [OF ok b do_push(2,1)] by simp
  next
    case (call_pop i)
    then have "reads (poppers s i) = None" by (cases "poppers s i") auto
    then show ?thesis using pop_pc_kept [OF ok _ _ call_pop(1)] by auto
  next
    case (do_pop i pc q)
    then show ?thesis using pop_inv [OF ok b do_pop(2,1)] by simp
  qed
  then show "\<exists>k ph. ring_ok t k ph" by blast
qed

lemma bits_Len_le: "n < 2 ^ k \<Longrightarrow> bits_Len n \<le> k"
proof (induction k arbitrary: n)
  case 0
  then show ?case by (simp add: bits_Len.simps)
next
  case (Suc k)
  then have "n div 2 < 2 ^ k" by (simp add: less_mult_imp_div_less mult.commute)
  then show ?case using Suc.IH [of "n div 2"] by (subst bits_Len.simps) simp
qed

lemma ring_inv_init:
  assumes "capacity \<le> 2 ^ 62" and "ring_init capacity s"
  shows "ring_inv s"
proof -
  define k where "k = bits_Len (nat (max capacity 2 - 1))"
  have "nat (max capacity 2 - 1) < 2 ^ 62" using assms(1) by simp
  then have k: "k \<le> 62" "0 < k" "ring_size capacity = 2 ^ k"
    using bits_Len_le [of _ 62] ring_size_pow [of capacity] by (auto simp: k_def ring_size_def)
  have "ring_ok s k Free"
    using assms(2) k by (auto simp: ring_ok_def shape_def cells_inv_def owners_inv_def got_inv_def ring_init_def new_ring_def)
  then show ?thesis unfolding ring_inv_def by blast
qed

interpretation ring_run: inductive_invariant "\<lambda>s. \<exists>c \<le> 2 ^ 62. ring_init c s" ring_step ring_inv
  by unfold_locales (use ring_inv_init ring_inv_step in blast)+


section \<open>What the queue promises\<close>

lemma bits_Len_gt: "n < 2 ^ bits_Len n"
proof (induction n rule: bits_Len.induct)
  case (1 n)
  then show ?case by (cases "n = 0") (auto simp: bits_Len.simps [of n])
qed

lemma bits_Len_ge: "n \<noteq> 0 \<Longrightarrow> 2 ^ bits_Len n \<le> 2 * n"
proof (induction n rule: bits_Len.induct)
  case (1 n)
  then show ?case by (cases "n div 2 = 0") (auto simp: bits_Len.simps [of n] bits_Len.simps [of 0])
qed

lemma ring_size_bounds: "max c 2 \<le> int (ring_size c)" "int (ring_size c) < 2 * max c 2"
proof -
  define m where "m = nat (max c 2 - 1)"
  have m: "m \<noteq> 0" "int m = max c 2 - 1" unfolding m_def by linarith+
  have "m < 2 ^ bits_Len m" "2 ^ bits_Len m \<le> 2 * m" using bits_Len_gt bits_Len_ge m(1) by blast+
  then have "int m < int (ring_size c)" "int (ring_size c) \<le> 2 * int m" unfolding ring_size_def m_def [symmetric] by linarith+
  then show "max c 2 \<le> int (ring_size c)" "int (ring_size c) < 2 * max c 2" using m(2) by linarith+
qed

lemma ring_slots: "reach (ring_init c) ring_step s \<Longrightarrow> length (slots (ring s)) = ring_size c"
proof (induction rule: reach.induct)
  case (reach_init s)
  then show ?case by (simp add: ring_init_def new_ring_def)
next
  case (reach_step s t)
  have "length (slots (snd (push_step pc q))) = length (slots q)" for pc and q :: "'a ring" by (cases pc) (auto simp: Let_def)
  moreover have "length (slots (snd (pop_step pc q))) = length (slots q)" for pc and q :: "'a ring" by (cases pc) (auto simp: Let_def)
  ultimately have "push_step pc q = (pc', q') \<Longrightarrow> length (slots q') = length (slots q)" "pop_step qc q = (qc', q') \<Longrightarrow> length (slots q') = length (slots q)"
    for pc pc' qc qc' and q q' :: "'a ring" by (metis snd_conv)+
  note len = this
  show ?case using reach_step(2) by (cases rule: ring_step.cases) (simp_all add: reach_step(3) len)
qed

lemma unread_kept:
  assumes ok: "ring_ok s k ph" and b: "length (claims s) < 2 ^ 62" and p: "p < length (claims s)" "p \<notin> fst ` set (got s)"
  shows "length (claims s) \<le> p + 2 ^ k" and "ph (p mod 2 ^ k) \<in> {Writing p, Full p, Reading p}"
proof -
  show ph: "ph (p mod 2 ^ k) \<in> {Writing p, Full p, Reading p}"
  proof (cases "p < claimed s")
    case True
    then obtain i where i: "reads (poppers s i) = Some (of_nat p)" using ok p(2) unfolding ring_ok_def got_inv_def by blast
    have "pop_ok s (2 ^ k) ph (poppers s i)" using ok by (simp add: ring_ok_def)
    then obtain q where q: "(of_nat p :: u64) = of_nat q" "q < claimed s" "ph (q mod 2 ^ k) = Reading q" using reader_cell i by blast
    moreover have "claimed s \<le> length (claims s)" using ok by (simp add: ring_ok_def shape_def)
    ultimately have "p = q" using position_unique [OF b, of p q] p(1) by simp
    then show ?thesis using q(3) by simp
  next
    case False
    then have "claimed s \<le> p \<and> p < length (claims s)" using p(1) by simp
    then show ?thesis using ok unfolding ring_ok_def cells_inv_def by blast
  qed
  then show "length (claims s) \<le> p + 2 ^ k" using look_cell(4) [OF ok b, of p] p(1) by auto
qed

text \<open>A cell that is behind the position a push looked at holds a task that has not been taken out.\<close>

lemma got_phase:
  assumes ok: "ring_ok s k ph" and p: "p \<in> fst ` set (got s)"
  shows "ph (p mod 2 ^ k) \<notin> {Writing p, Full p, Reading p}"
proof -
  have g: "p < claimed s" "\<And>i. reads (poppers s i) \<noteq> Some (of_nat p)" using ok p by (auto simp: ring_ok_def got_inv_def)
  have c: "cell_ok s (2 ^ k) (slots (ring s) ! (p mod 2 ^ k)) (ph (p mod 2 ^ k))" using ok by (simp add: ring_ok_def cells_inv_def)
  have "p mod 2 ^ k < 2 ^ k" by simp
  then have "ph (p mod 2 ^ k) \<noteq> Reading p" using ok g(2) unfolding ring_ok_def owners_inv_def by blast
  moreover have "ph (p mod 2 ^ k) \<noteq> Writing p" "ph (p mod 2 ^ k) \<noteq> Full p" using c g(1) by auto
  ultimately show ?thesis by simp
qed

lemma push_full:
  assumes ok: "ring_ok s k ph" and b: "length (claims s) < 2 ^ 62" and i: "pushers s i = P_Look t pos"
    and st: "push_step (pushers s i) (ring s) = (P_Done False, q)"
  shows "2 ^ k \<le> length (claims s) \<and> length (claims s) - 2 ^ k \<notin> fst ` set (got s)"
proof -
  define T where "T = length (claims s)"
  have sh: "shape s k" and po: "push_ok s (2 ^ k) ph (pushers s i)" using ok by (simp_all add: ring_ok_def)
  then obtain p where p: "pos = of_nat p" "p \<le> length (claims s)" using i by auto
  note lc = look_cell [OF ok b p(2), folded T_def] and bd = shape_bounds [OF sh b, folded T_def]
  define l where "l = lap (ph (p mod 2 ^ k))"
  define sq where "sq = (case ph (p mod 2 ^ k) of Free q \<Rightarrow> q | Writing q \<Rightarrow> q | Full q \<Rightarrow> q + 1 | Reading q \<Rightarrow> q + 1)"
  have sq: "sequence (slots (ring s) ! (p mod 2 ^ k)) = of_nat sq" "l \<le> sq" "sq \<le> T + 2 ^ k"
    using lc(3,5) by (auto simp: sq_def l_def split: phase.splits)
  have "sint ((of_nat sq :: u64) - of_nat p) < 0" using st i p lc(1) sq(1) by (auto simp: Let_def split: if_splits)
  then have "sq < p" using sint_diff_64 [of sq p] bd(1) [of sq] bd(1) [of p] sq(3) p(2) T_def by simp
  then have "l < p" using sq(2) by simp
  then have "l + 2 ^ k \<le> p" using mod_eq_step [of l "2 ^ k" p] lc(2) by (simp add: l_def)
  then have T: "l + 2 ^ k = T" "p = T" using lc(4) p(2) by (simp_all add: l_def T_def)
  then have m: "l mod 2 ^ k = p mod 2 ^ k" using lc(2) by (simp add: l_def)
  have "ph (l mod 2 ^ k) \<in> {Writing l, Full l, Reading l}"
    using lc(3) T m by (cases "ph (p mod 2 ^ k)") (auto simp: l_def T_def)
  then have "l \<notin> fst ` set (got s)" using got_phase [OF ok, of l] by blast
  moreover have "length (claims s) - 2 ^ k = l" "2 ^ k \<le> length (claims s)" using T by (simp_all add: T_def)
  ultimately show ?thesis by simp
qed

lemma pop_empty:
  assumes ok: "ring_ok s k ph" and b: "length (claims s) < 2 ^ 62" and i: "poppers s i = Q_Look pos"
    and st: "pop_step (poppers s i) (ring s) = (Q_Done None, q)"
  shows "claimed s = length (claims s) \<or> (\<exists>j. writes (pushers s j) = Some (of_nat (claimed s)))"
proof -
  define T where "T = length (claims s)"
  have sh: "shape s k" and po: "pop_ok s (2 ^ k) ph (poppers s i)" using ok by (simp_all add: ring_ok_def)
  then obtain p where p: "pos = of_nat p" "p \<le> claimed s" using i by auto
  have HT: "claimed s \<le> T" using sh by (simp add: shape_def T_def)
  then have pT: "p \<le> length (claims s)" using p(2) by (simp add: T_def)
  note lc = look_cell [OF ok b pT, folded T_def] and bd = shape_bounds [OF sh b, folded T_def]
  define l where "l = lap (ph (p mod 2 ^ k))"
  define sq where "sq = (case ph (p mod 2 ^ k) of Free q \<Rightarrow> q | Writing q \<Rightarrow> q | Full q \<Rightarrow> q + 1 | Reading q \<Rightarrow> q + 1)"
  have sq: "sequence (slots (ring s) ! (p mod 2 ^ k)) = of_nat sq" "l \<le> sq" "sq \<le> T + 2 ^ k"
    using lc(3,5) by (auto simp: sq_def l_def split: phase.splits)
  have "sint ((of_nat sq :: u64) - of_nat (p + 1)) < 0" using st i p lc(1) sq(1) by (auto simp: Let_def add.commute split: if_splits)
  then have s1: "sq < p + 1" using sint_diff_64 [of sq "p + 1"] bd(1) [of sq] bd(1) [of "p + 1"] bd(3) sq(3) pT T_def by simp
  show ?thesis
  proof (cases "l = p")
    case True
    then have "ph (p mod 2 ^ k) = Free p \<or> ph (p mod 2 ^ k) = Writing p"
      using s1 by (cases "ph (p mod 2 ^ k)") (auto simp: l_def sq_def)
    then show ?thesis
    proof
      assume "ph (p mod 2 ^ k) = Free p"
      then show ?thesis using lc(3) p(2) HT by (simp add: T_def)
    next
      assume w: "ph (p mod 2 ^ k) = Writing p"
      then have "claimed s = p" using lc(3) p(2) by simp
      moreover have "p mod 2 ^ k < 2 ^ k" by simp
      then have "\<exists>j. writes (pushers s j) = Some (of_nat p)" using ok w unfolding ring_ok_def owners_inv_def by blast
      ultimately show ?thesis by simp
    qed
  next
    case False
    then have "l < p" using s1 sq(2) by simp
    then have "l + 2 ^ k \<le> p" using mod_eq_step [of l "2 ^ k" p] lc(2) by (simp add: l_def)
    then show ?thesis using lc(4) p(2) HT by (simp add: l_def T_def)
  qed
qed


section \<open>A goroutine alone\<close>

definition push_run :: "nat \<Rightarrow> 'a push_pc \<times> 'a ring \<Rightarrow> 'a push_pc \<times> 'a ring" where
  "push_run m = ((\<lambda>(pc, q). push_step pc q) ^^ m)"

definition pop_run :: "nat \<Rightarrow> 'a pop_pc \<times> 'a ring \<Rightarrow> 'a pop_pc \<times> 'a ring" where
  "pop_run m = ((\<lambda>(pc, q). pop_step pc q) ^^ m)"

lemma push_run_Suc: "push_run (Suc m) x = push_run m (push_step (fst x) (snd x))"
  by (simp add: push_run_def funpow_swap1 split_beta) 

lemma pop_run_Suc: "pop_run (Suc m) x = pop_run m (pop_step (fst x) (snd x))"
  by (simp add: pop_run_def funpow_swap1 split_beta)

lemma push_run_0: "push_run 0 x = x"
  by (simp add: push_run_def)

lemma pop_run_0: "pop_run 0 x = x"
  by (simp add: pop_run_def)

lemma push_run_done: "push_run m (P_Done r, q) = (P_Done r, q)"
  by (induction m) (simp_all add: push_run_0 push_run_Suc)

lemma pop_run_done: "pop_run m (Q_Done v, q) = (Q_Done v, q)"
  by (induction m) (simp_all add: pop_run_0 pop_run_Suc)

lemmas runs = push_run_0 pop_run_0 push_run_Suc pop_run_Suc push_run_done pop_run_done numeral_nat

lemma cell_seq: "cell_ok s n sl x \<Longrightarrow> \<exists>q. sequence sl = of_nat q \<and> q \<le> lap x + 1"
proof (cases x)
  case (Full p)
  then show "cell_ok s n sl x \<Longrightarrow> ?thesis" by (intro exI [of _ "p + 1"]) simp
next
  case (Reading p)
  then show "cell_ok s n sl x \<Longrightarrow> ?thesis" by (intro exI [of _ "p + 1"]) simp
qed auto

text \<open>The cell at the tail is free for the next push, or still holds the task of the lap before.\<close>

lemma tail_cell:
  assumes ok: "ring_ok s k ph" and b: "length (claims s) < 2 ^ 62"
  defines "T \<equiv> length (claims s)"
  shows "if T < 2 ^ k \<or> T - 2 ^ k \<in> fst ` set (got s) then sequence (slots (ring s) ! (T mod 2 ^ k)) = of_nat T
    else \<exists>q. sequence (slots (ring s) ! (T mod 2 ^ k)) = of_nat q \<and> q < T"
proof -
  have sh: "shape s k" using ok by (simp add: ring_ok_def)
  note lc = look_cell [OF ok b le_refl, folded T_def] and bd = shape_bounds [OF sh b, folded T_def]
  define l where "l = lap (ph (T mod 2 ^ k))"
  have HT: "claimed s \<le> T" using sh by (simp add: shape_def T_def)
  show ?thesis
  proof (cases "ph (T mod 2 ^ k) = Free T")
    case True
    have "T - 2 ^ k \<in> fst ` set (got s)" if "\<not> T < 2 ^ k"
    proof (rule ccontr)
      assume "T - 2 ^ k \<notin> fst ` set (got s)"
      moreover have "(T - 2 ^ k) mod 2 ^ k = T mod 2 ^ k" "T - 2 ^ k < T" using that bd(3) by (simp_all add: le_mod_geq)
      ultimately show False using unread_kept(2) [OF ok b, of "T - 2 ^ k"] that True by (auto simp: T_def)
    qed
    then show ?thesis using True lc(3) by auto
  next
    case False
    have "l < T"
    proof (rule ccontr)
      assume "\<not> l < T"
      then have "l = T" using mod_eq_step [of T "2 ^ k" l] lc(2,5) unfolding l_def by linarith
      then show False using False lc(3) HT by (cases "ph (T mod 2 ^ k)") (auto simp: l_def T_def)
    qed
    then have l: "l + 2 ^ k = T" using mod_eq_step [of l "2 ^ k" T] lc(2,4) by (simp add: l_def)
    have m: "l mod 2 ^ k = T mod 2 ^ k" using lc(2) by (simp add: l_def)
    have "ph (l mod 2 ^ k) \<in> {Writing l, Full l, Reading l}" using lc(3) l m \<open>l < T\<close>
      by (cases "ph (T mod 2 ^ k)") (auto simp: l_def T_def)
    then have "l \<notin> fst ` set (got s)" using got_phase [OF ok, of l] by blast
    then have "T - 2 ^ k \<notin> fst ` set (got s)" "\<not> T < 2 ^ k" unfolding l [symmetric] by simp_all
    moreover have "\<exists>q. sequence (slots (ring s) ! (T mod 2 ^ k)) = of_nat q \<and> q \<le> l + 1"
      using lc(3) cell_seq [of s "2 ^ k" _ "ph (T mod 2 ^ k)"] by (auto simp: l_def)
    ultimately show ?thesis using l bd(3) by force
  qed
qed

lemma push_alone:
  assumes ok: "ring_ok s k ph" and b: "length (claims s) < 2 ^ 62"
  shows "fst (push_run 5 (P_Load t, ring s)) = P_Done (length (claims s) < 2 ^ k \<or> length (claims s) - 2 ^ k \<in> fst ` set (got s))"
proof -
  define T where "T = length (claims s)"
  have sh: "shape s k" using ok by (simp add: ring_ok_def)
  note lc = look_cell(1) [OF ok b le_refl, folded T_def] and tc = tail_cell [OF ok b, folded T_def] and bd = shape_bounds [OF sh b, folded T_def]
  have tl: "tail (ring s) = of_nat T" using sh by (simp add: shape_def T_def)
  show ?thesis
  proof (cases "T < 2 ^ k \<or> T - 2 ^ k \<in> fst ` set (got s)")
    case True
    then have "sequence (slots (ring s) ! (T mod 2 ^ k)) = of_nat T" using tc by simp
    then show ?thesis using True tl lc by (simp add: runs Let_def T_def)
  next
    case False
    then obtain q where q: "sequence (slots (ring s) ! (T mod 2 ^ k)) = of_nat q" "q < T" using tc by auto
    moreover have "sint ((of_nat q :: u64) - of_nat T) < 0" using sint_diff_64 [of q T] bd(1) [of q] bd(1) [of T] q(2) by simp
    moreover have "(of_nat q :: u64) \<noteq> of_nat T" using position_unique [OF b, of q T] q(2) by (simp add: T_def)
    ultimately show ?thesis using False tl lc by (simp add: runs Let_def T_def)
  qed
qed


text \<open>The cell at the head holds the next task, unless the queue is empty or that task is being written.\<close>

lemma head_cell:
  assumes ok: "ring_ok s k ph" and b: "length (claims s) < 2 ^ 62"
  defines "H \<equiv> claimed s"
  shows "if H < length (claims s) \<and> (\<forall>j. writes (pushers s j) \<noteq> Some (of_nat H))
    then slots (ring s) ! (H mod 2 ^ k) = \<lparr>sequence = of_nat (H + 1), task = Some (claims s ! H)\<rparr>
    else \<exists>q. sequence (slots (ring s) ! (H mod 2 ^ k)) = of_nat q \<and> q \<le> H"
proof (cases "H < length (claims s)")
  case True
  have "H mod 2 ^ k < 2 ^ k" by simp
  note lc = look_cell(3) [OF ok b less_imp_le [OF True]]
  have "claimed s \<le> H \<and> H < length (claims s)" using True by (simp add: H_def)
  then have "ph (H mod 2 ^ k) = Writing H \<or> ph (H mod 2 ^ k) = Full H" using ok unfolding ring_ok_def cells_inv_def by blast
  then show ?thesis
  proof
    assume w: "ph (H mod 2 ^ k) = Writing H"
    then have "\<exists>j. writes (pushers s j) = Some (of_nat H)" using ok \<open>H mod 2 ^ k < 2 ^ k\<close> unfolding ring_ok_def owners_inv_def by blast
    then show ?thesis using lc w by auto
  next
    assume f: "ph (H mod 2 ^ k) = Full H"
    have "writes (pushers s j) \<noteq> Some (of_nat H)" for j
    proof
      assume "writes (pushers s j) = Some (of_nat H)"
      then obtain q where q: "(of_nat H :: u64) = of_nat q" "q < length (claims s)" "ph (q mod 2 ^ k) = Writing q"
        using writer_cell [of s "2 ^ k" ph "pushers s j"] ok by (auto simp: ring_ok_def)
      then have "H = q" using position_unique [OF b, of H q] True by simp
      then show False using q(3) f by simp
    qed
    then show ?thesis using lc f True by (cases "slots (ring s) ! (H mod 2 ^ k)") auto
  qed
next
  case False
  then have H: "H = length (claims s)" using ok by (simp add: ring_ok_def shape_def H_def)
  have "\<exists>q. sequence (slots (ring s) ! (H mod 2 ^ k)) = of_nat q \<and> q \<le> H"
    using tail_cell [OF ok b] unfolding H by (auto split: if_splits intro: less_imp_le)
  then show ?thesis using False by simp
qed

lemma pop_alone:
  assumes ok: "ring_ok s k ph" and b: "length (claims s) < 2 ^ 62"
  shows "fst (pop_run 6 (Q_Load, ring s)) = Q_Done (if claimed s < length (claims s) \<and> (\<forall>j. writes (pushers s j) \<noteq> Some (of_nat (claimed s)))
    then Some (claims s ! claimed s) else None)"
proof -
  define H where "H = claimed s"
  have sh: "shape s k" using ok by (simp add: ring_ok_def)
  then have HT: "H \<le> length (claims s)" by (simp add: shape_def H_def)
  note lc = look_cell(1) [OF ok b HT] and hc = head_cell [OF ok b, folded H_def] and bd = shape_bounds [OF sh b]
  have hd: "head (ring s) = of_nat H" using sh by (simp add: shape_def H_def)
  show ?thesis
  proof (cases "H < length (claims s) \<and> (\<forall>j. writes (pushers s j) \<noteq> Some (of_nat H))")
    case True
    then have "slots (ring s) ! (H mod 2 ^ k) = \<lparr>sequence = of_nat (H + 1), task = Some (claims s ! H)\<rparr>" using hc by simp
    then show ?thesis using True hd lc by (simp add: runs Let_def H_def cell_def)
  next
    case False
    then obtain q where q: "sequence (slots (ring s) ! (H mod 2 ^ k)) = of_nat q" "q < H + 1" using hc unfolding if_not_P [OF False] by force
    moreover have "sint ((of_nat q :: u64) - of_nat (H + 1)) < 0"
      using sint_diff_64 [of q "H + 1"] bd(1) [of q] bd(1) [of "H + 1"] bd(3) q(2) HT by simp
    moreover have "(of_nat q :: u64) \<noteq> of_nat (H + 1)" using of_nat_eq_64 [of q "H + 1"] q(2) HT b by simp
    ultimately show ?thesis using False hd lc by (simp add: runs Let_def H_def add.commute)
  qed
qed

lemma hasTask_head:
  assumes ok: "ring_ok s k ph" and b: "length (claims s) < 2 ^ 62"
  shows "hasTask (ring s) \<longleftrightarrow> claimed s < length (claims s) \<and> (\<forall>j. writes (pushers s j) \<noteq> Some (of_nat (claimed s)))"
proof -
  define H where "H = claimed s"
  have sh: "shape s k" using ok by (simp add: ring_ok_def)
  then have HT: "H \<le> length (claims s)" and hd: "head (ring s) = of_nat H" by (simp_all add: shape_def H_def)
  note lc = look_cell(1) [OF ok b HT] and hc = head_cell [OF ok b, folded H_def]
  have t: "hasTask (ring s) \<longleftrightarrow> sequence (slots (ring s) ! (H mod 2 ^ k)) = of_nat (H + 1)"
    by (simp add: hasTask_def hd lc add.commute)
  show ?thesis
  proof (cases "H < length (claims s) \<and> (\<forall>j. writes (pushers s j) \<noteq> Some (of_nat H))")
    case True
    then show ?thesis using hc t by (simp add: H_def)
  next
    case False
    then obtain q where q: "sequence (slots (ring s) ! (H mod 2 ^ k)) = of_nat q" "q < H + 1" using hc unfolding if_not_P [OF False] by force
    moreover have "(of_nat q :: u64) \<noteq> of_nat (H + 1)" using of_nat_eq_64 [of q "H + 1"] q(2) HT b by simp
    ultimately show ?thesis using False t unfolding H_def by metis
  qed
qed

lemma push_run_more: "fst (push_run m x) = P_Done r \<Longrightarrow> m \<le> m' \<Longrightarrow> fst (push_run m' x) = P_Done r"
proof -
  assume m: "fst (push_run m x) = P_Done r" "m \<le> m'"
  have "push_run m' x = push_run (m' - m) (push_run m x)" using m(2) fun_cong [OF funpow_add [of "m' - m" m], of _ x] by (simp add: push_run_def)
  also have "push_run m x = (P_Done r, snd (push_run m x))" using m(1) by (metis prod.collapse)
  finally show ?thesis by (simp add: push_run_done)
qed

lemma pop_run_more: "fst (pop_run m x) = Q_Done v \<Longrightarrow> m \<le> m' \<Longrightarrow> fst (pop_run m' x) = Q_Done v"
proof -
  assume m: "fst (pop_run m x) = Q_Done v" "m \<le> m'"
  have "pop_run m' x = pop_run (m' - m) (pop_run m x)" using m(2) fun_cong [OF funpow_add [of "m' - m" m], of _ x] by (simp add: pop_run_def)
  also have "pop_run m x = (Q_Done v, snd (pop_run m x))" using m(1) by (metis prod.collapse)
  finally show ?thesis by (simp add: pop_run_done)
qed

text \<open>Whatever it was doing when the others stopped, a goroutine finishes its call.\<close>

lemma push_finishes:
  assumes ok: "ring_ok s k ph" and b: "length (claims s) < 2 ^ 62" and pc: "pc \<noteq> P_Idle"
  shows "\<exists>r. fst (push_run 7 (pc, ring s)) = P_Done r"
proof -
  have load: "\<exists>r. fst (push_run m (P_Load t, ring s)) = P_Done r" if "5 \<le> m" for m t
    using push_run_more [OF push_alone [OF ok b] that] by blast
  have cas: "\<exists>r. fst (push_run m (P_Cas t pos, ring s)) = P_Done r" if "6 \<le> m" for m t pos
  proof -
    obtain m' where "m = Suc m'" "5 \<le> m'" using \<open>6 \<le> m\<close> by (cases m) auto
    moreover obtain m'' where "m' = Suc (Suc m'')" using \<open>5 \<le> m'\<close> by (cases m'; cases "m' - 1") auto
    ultimately show ?thesis using load [of m' t] by (auto simp: runs)
  qed
  show ?thesis
  proof (cases pc)
    case (P_Look t pos)
    then show ?thesis using load [of 6 t] cas [of 6 t pos] by (auto simp: runs Let_def)
  next
    case (P_Cas t pos)
    then show ?thesis using cas [of 7] by simp
  qed (use pc load [of 7] in \<open>auto simp: runs\<close>)
qed


lemma pop_finishes:
  assumes ok: "ring_ok s k ph" and b: "length (claims s) < 2 ^ 62" and pc: "pc \<noteq> Q_Idle"
  shows "\<exists>v. fst (pop_run 8 (pc, ring s)) = Q_Done v"
proof -
  have load: "\<exists>v. fst (pop_run m (Q_Load, ring s)) = Q_Done v" if "6 \<le> m" for m
    using pop_run_more [OF pop_alone [OF ok b] that] by blast
  have cas: "\<exists>v. fst (pop_run m (Q_Cas pos, ring s)) = Q_Done v" if "7 \<le> m" for m pos
  proof -
    obtain m' where "m = Suc m'" "6 \<le> m'" using \<open>7 \<le> m\<close> by (cases m) auto
    moreover obtain m'' where "m' = Suc (Suc (Suc m''))" using \<open>6 \<le> m'\<close> that [of "m' - 3"] by simp
    ultimately show ?thesis using load [of m'] by (auto simp: runs)
  qed
  show ?thesis
  proof (cases pc)
    case (Q_Look pos)
    then show ?thesis using load [of 7] cas [of 7 pos] by (auto simp: runs Let_def)
  next
    case (Q_Cas pos)
    then show ?thesis using cas [of 8] by simp
  next
    case Q_Load
    then show ?thesis using load [of 8] by simp
  qed (use pc in \<open>auto simp: runs\<close>)
qed

end
