(* ===== verification/TaskQueue.thy ===== *)
theory TaskQueue
  imports TaskRing "HOL-Library.Multiset" "HOL-Library.Code_Target_Nat"
begin

text \<open>
  The queue that the ring of a shard implements, the refinement, and the properties: the queue is first in first out,
  loses and duplicates nothing, and no goroutine needs another to finish its call.
\<close>

section \<open>The queue that the ring implements\<close>

text \<open>
  The tasks in the order in which pushes claimed their positions, with whether they are written, and how many have been
  taken: a task is appended by the claim of its push, marked by its last store, and taken at the head once it is marked.
\<close>

inductive queue_step :: "('a \<times> bool) list \<times> nat \<Rightarrow> ('a \<times> bool) list \<times> nat \<Rightarrow> bool" where
  stays: "queue_step q q"
| claim: "queue_step (ts, h) (ts @ [(t, False)], h)"
| publish: "p < length ts \<Longrightarrow> \<not> snd (ts ! p) \<Longrightarrow> queue_step (ts, h) (ts[p := (fst (ts ! p), True)], h)"
| takes: "h < length ts \<Longrightarrow> snd (ts ! h) \<Longrightarrow> queue_step (ts, h) (ts, h + 1)"

definition unwritten :: "'a ring_sys \<Rightarrow> nat \<Rightarrow> bool" where
  "unwritten s p \<longleftrightarrow> (\<exists>j. writes (pushers s j) = Some (of_nat p))"

definition queue_of :: "'a ring_sys \<Rightarrow> ('a \<times> bool) list \<times> nat" where
  "queue_of s = (map (\<lambda>p. (claims s ! p, \<not> unwritten s p)) [0..<length (claims s)], claimed s)"

lemma queue_of_cong:
  assumes "claims t = claims s" and "claimed t = claimed s" and "\<And>j. writes (pushers t j) = writes (pushers s j)"
  shows "queue_of t = queue_of s"
  using assms by (simp add: queue_of_def unwritten_def)

lemma push_refines:
  assumes ok: "ring_ok s k ph" and b: "length (claims t) < 2 ^ 62" and st: "push_step (pushers s i) (ring s) = (pc, q)"
    and t: "t = s\<lparr>ring := q, pushers := (pushers s)(i := pc),
      claims := (case pushers s i of P_Cas v pos \<Rightarrow> if writes pc \<noteq> None then claims s @ [v] else claims s | _ \<Rightarrow> claims s)\<rparr>"
  shows "queue_step (queue_of s) (queue_of t)"
proof -
  have po: "push_ok s (2 ^ k) ph (pushers s i)" and sh: "shape s k" using ok by (simp_all add: ring_ok_def)
  have same: "queue_step (queue_of s) (queue_of t)" if "claims t = claims s" "writes pc = writes (pushers s i)"
    using that t queue_of_cong [of t s] by (auto intro: queue_step.stays)
  show ?thesis
  proof (cases "pushers s i")
    case (P_Look v pos)
    then have "writes pc = None" using st by (auto simp: Let_def split: if_splits)
    then show ?thesis using P_Look by (intro same) (simp_all add: t)
  next
    case (P_Cas v pos)
    then obtain p where p: "pos = of_nat p" "p \<le> length (claims s)" using po by auto
    show ?thesis
    proof (cases "tail (ring s) = pos")
      case True
      have bs: "length (claims s) < 2 ^ 62" using b t by (auto split: push_pc.splits if_splits)
      have "tail (ring s) = of_nat (length (claims s))" using sh by (simp add: shape_def)
      then have "(of_nat (length (claims s)) :: u64) = of_nat p" using True p(1) by metis
      then have "p = length (claims s)" using position_unique [OF bs order_refl p(2)] by blast
      moreover have pc: "pc = P_Write v pos" using st P_Cas True by auto
      ultimately have pcT: "pc = P_Write v (of_nat (length (claims s)))" using p by simp
      have un: "unwritten t x = unwritten s x" if "x < length (claims s)" for x
      proof -
        have "(of_nat (length (claims s)) :: u64) \<noteq> of_nat x" using position_unique [OF bs, of "length (claims s)" x] that by simp
        then show ?thesis using P_Cas pcT by (auto simp: unwritten_def t) (metis writes.simps(6) option.distinct(1))+
      qed
      moreover have "unwritten t (length (claims s))" using pcT by (auto simp: unwritten_def t intro!: exI [of _ i])
      moreover have "claims t = claims s @ [v]" "claimed t = claimed s" using P_Cas pc by (simp_all add: t)
      ultimately have "queue_of t = (fst (queue_of s) @ [(v, False)], snd (queue_of s))"
        by (auto simp: queue_of_def nth_append)
      then show ?thesis using queue_step.claim [of "fst (queue_of s)" "snd (queue_of s)" v] by simp
    next
      case False
      then have "pc = P_Load v" using st P_Cas by auto
      then show ?thesis using P_Cas by (intro same) (simp_all add: t)
    qed
  next
    case (P_Store v pos)
    then obtain p where p: "pos = of_nat p" "p < length (claims s)" using po by auto
    have bs: "length (claims s) < 2 ^ 62" using b t P_Store by simp
    have pc: "pc = P_Done True" using st P_Store by auto
    have w: "writes (pushers s i) = Some (of_nat p)" using P_Store p by simp
    then have uniq: "writes (pushers s j) \<noteq> Some (of_nat p)" if "j \<noteq> i" for j
      using ok that unfolding ring_ok_def owners_inv_def by blast
    have "unwritten t x = (unwritten s x \<and> x \<noteq> p)" if "x < length (claims s)" for x
    proof (cases "x = p")
      case True
      then show ?thesis using uniq pc by (auto simp: unwritten_def t)
    next
      case False
      then have "writes (pushers s i) \<noteq> Some (of_nat x)" using w position_unique [OF bs, of p x] p that by simp
      then show ?thesis using False pc by (auto simp: unwritten_def t)
    qed
    moreover have "claims t = claims s" "claimed t = claimed s" using P_Store by (simp_all add: t)
    ultimately have "queue_of t = ((fst (queue_of s))[p := (fst (fst (queue_of s) ! p), True)], snd (queue_of s))"
      using p by (auto simp: queue_of_def intro!: nth_equalityI simp: nth_list_update)
    moreover have "p < length (fst (queue_of s))" "\<not> snd (fst (queue_of s) ! p)" using p w by (auto simp: queue_of_def unwritten_def)
    ultimately show ?thesis using queue_step.publish [of p "fst (queue_of s)" "snd (queue_of s)"] by simp
  next
    case (P_Write v pos)
    then show ?thesis using st by (intro same) (auto simp: t)
  next
    case P_Idle
    then show ?thesis using st by (intro same) (auto simp: t)
  next
    case (P_Load v)
    then show ?thesis using st by (intro same) (auto simp: t)
  next
    case (P_Done r)
    then have "pc = P_Done r" using st by auto
    then show ?thesis using P_Done by (intro same) (simp_all add: t)
  qed
qed

lemma pop_refines:
  assumes ok: "ring_ok s k ph" and b: "length (claims s) < 2 ^ 62" and st: "pop_step (poppers s i) (ring s) = (pc, q)"
    and t: "t = s\<lparr>ring := q, poppers := (poppers s)(i := pc),
      claimed := (case poppers s i of Q_Cas pos \<Rightarrow> if reads pc \<noteq> None then claimed s + 1 else claimed s | _ \<Rightarrow> claimed s),
      got := (case poppers s i of Q_Store pos v \<Rightarrow> got s @ [(unat pos, v)] | _ \<Rightarrow> got s)\<rparr>"
  shows "queue_step (queue_of s) (queue_of t)"
proof (cases "\<exists>pos. poppers s i = Q_Cas pos \<and> head (ring s) = pos")
  case True
  then obtain pos where Q_Cas: "poppers s i = Q_Cas pos" and hd: "head (ring s) = pos" by blast
  have qo: "pop_ok s (2 ^ k) ph (poppers s i)" and sh: "shape s k" using ok by (simp_all add: ring_ok_def)
  then obtain p where p: "pos = of_nat p" "p \<le> claimed s" "p = claimed s \<longrightarrow> ph (p mod 2 ^ k) = Full p" using Q_Cas by auto
  have HT: "claimed s \<le> length (claims s)" using sh by (simp add: shape_def)
  have "head (ring s) = of_nat (claimed s)" using sh by (simp add: shape_def)
  then have "(of_nat (claimed s) :: u64) = of_nat p" using hd p(1) by metis
  then have H: "p = claimed s" using position_unique [OF b HT order_trans [OF p(2) HT]] by blast
  have "claimed s < length (claims s) \<and> (\<forall>j. writes (pushers s j) \<noteq> Some (of_nat (claimed s)))"
  proof -
    have "cell_ok s (2 ^ k) (slots (ring s) ! (p mod 2 ^ k)) (Full p)" using look_cell(3) [OF ok b, of p] p H HT by simp
    then have pT: "p < length (claims s)" by simp
    moreover have "writes (pushers s j) \<noteq> Some (of_nat p)" for j
    proof
      assume "writes (pushers s j) = Some (of_nat p)"
      then obtain x where x: "(of_nat p :: u64) = of_nat x" "x < length (claims s)" "ph (x mod 2 ^ k) = Writing x"
        using writer_cell [of s "2 ^ k" ph "pushers s j"] ok by (auto simp: ring_ok_def)
      then have "p = x" using position_unique [OF b, of p x] pT by simp
      then show False using x(3) p(3) H by simp
    qed
    ultimately show ?thesis using H by simp
  qed
  moreover have "claims t = claims s" "claimed t = claimed s + 1" "pushers t = pushers s" using st Q_Cas hd by (auto simp: t)
  ultimately show ?thesis
    using queue_step.takes [of "snd (queue_of s)" "fst (queue_of s)"] by (simp add: queue_of_def unwritten_def)
next
  case False
  then have "claimed t = claimed s" using st by (auto simp: t split: pop_pc.splits)
  then have "queue_of t = queue_of s" by (intro queue_of_cong) (simp_all add: t)
  then show ?thesis by (simp add: queue_step.stays)
qed

lemma ring_refines:
  assumes ok: "ring_ok s k ph" and b: "length (claims t) < 2 ^ 62" and "ring_step s t"
  shows "queue_step (queue_of s) (queue_of t)"
  using assms(3)
proof (cases rule: ring_step.cases)
  case (call_push i v)
  then have "writes (pushers s i) = None" by (cases "pushers s i") auto
  then have "queue_of t = queue_of s" using call_push by (intro queue_of_cong) auto
  then show ?thesis by (simp add: queue_step.stays)
next
  case (do_push i pc q)
  then show ?thesis using push_refines [OF ok b do_push(2,1)] by simp
next
  case (call_pop i)
  then have "queue_of t = queue_of s" by (intro queue_of_cong) auto
  then show ?thesis by (simp add: queue_step.stays)
next
  case (do_pop i pc q)
  then have "length (claims s) < 2 ^ 62" using b by simp
  then show ?thesis using pop_refines [OF ok _ do_pop(2,1)] by simp
qed

section \<open>Runs\<close>

datatype 'a ring_act = Call_Push nat 'a | Do_Push nat | Call_Pop nat | Do_Pop nat

fun ring_move :: "'a ring_act \<Rightarrow> 'a ring_sys \<Rightarrow> 'a ring_sys" where
  "ring_move (Call_Push i t) s =
     (if (case pushers s i of P_Idle \<Rightarrow> True | P_Done b \<Rightarrow> True | _ \<Rightarrow> False) then s\<lparr>pushers := (pushers s)(i := P_Load t)\<rparr> else s)"
| "ring_move (Do_Push i) s =
     (let (pc, q) = push_step (pushers s i) (ring s) in
      s\<lparr>ring := q, pushers := (pushers s)(i := pc),
        claims := (case pushers s i of P_Cas t pos \<Rightarrow> if writes pc \<noteq> None then claims s @ [t] else claims s | _ \<Rightarrow> claims s)\<rparr>)"
| "ring_move (Call_Pop i) s =
     (if (case poppers s i of Q_Idle \<Rightarrow> True | Q_Done v \<Rightarrow> True | _ \<Rightarrow> False) then s\<lparr>poppers := (poppers s)(i := Q_Load)\<rparr> else s)"
| "ring_move (Do_Pop i) s =
     (let (pc, q) = pop_step (poppers s i) (ring s) in
      s\<lparr>ring := q, poppers := (poppers s)(i := pc),
        claimed := (case poppers s i of Q_Cas pos \<Rightarrow> if reads pc \<noteq> None then claimed s + 1 else claimed s | _ \<Rightarrow> claimed s),
        got := (case poppers s i of Q_Store pos v \<Rightarrow> got s @ [(unat pos, v)] | _ \<Rightarrow> got s)\<rparr>)"

lemma ring_move_step: "ring_move m s = s \<or> ring_step s (ring_move m s)"
proof (cases m)
  case (Call_Push i t)
  then show ?thesis by (auto intro: ring_step.call_push)
next
  case (Do_Push i)
  obtain pc q where "push_step (pushers s i) (ring s) = (pc, q)" by (cases "push_step (pushers s i) (ring s)")
  then show ?thesis using Do_Push ring_step.do_push [of s i pc q] by simp
next
  case (Call_Pop i)
  then show ?thesis by (auto intro: ring_step.call_pop)
next
  case (Do_Pop i)
  obtain pc q where "pop_step (poppers s i) (ring s) = (pc, q)" by (cases "pop_step (poppers s i) (ring s)")
  then show ?thesis using Do_Pop ring_step.do_pop [of s i pc q] by simp
qed

lemma ring_moves_reach: "reach init ring_step s \<Longrightarrow> reach init ring_step (fold ring_move ms s)"
proof (induction ms arbitrary: s)
  case (Cons m ms)
  have "reach init ring_step (ring_move m s)" using ring_move_step [of m s] Cons.prems reach.reach_step by metis
  then show ?case using Cons.IH by simp
qed simp

lemma poppers_kept: "Do_Pop i \<notin> set ms \<Longrightarrow> Call_Pop i \<notin> set ms \<Longrightarrow> poppers (fold ring_move ms s) i = poppers s i"
proof (induction ms arbitrary: s)
  case (Cons m ms)
  have "poppers (ring_move m s) i = poppers s i" using Cons.prems by (cases m) (auto simp: split_beta)
  then show ?case using Cons by simp
qed simp

text \<open>
  A ring of two cells: the first task goes through; then one push stops before writing its task, another finishes, a
  third finds the ring full, and a pop finds the next task unwritten.
\<close>

definition ring_start :: "nat ring_sys" where
  "ring_start = \<lparr>ring = new_ring 2, pushers = (\<lambda>_. P_Idle), poppers = (\<lambda>_. Q_Idle), claims = [], claimed = 0, got = []\<rparr>"

definition ring_demo :: "nat ring_act list" where
  "ring_demo = Call_Push 0 7 # replicate 5 (Do_Push 0) @ Call_Pop 0 # replicate 6 (Do_Pop 0) @
     Call_Push 0 8 # replicate 3 (Do_Push 0) @ Call_Push 1 9 # replicate 5 (Do_Push 1) @
     [Call_Push 2 10, Do_Push 2, Call_Pop 0, Do_Pop 0]"

abbreviation demo_ring :: "nat ring_sys" where
  "demo_ring \<equiv> fold ring_move ring_demo ring_start"

lemma demo_ring_reach: "reach (ring_init 2) ring_step demo_ring"
  by (rule ring_moves_reach [OF reach.reach_init]) (simp add: ring_init_def ring_start_def)

text \<open>What is looked at in the last state of the run.\<close>

definition ring_view :: "'a ring_sys \<Rightarrow> ('a list \<times> nat \<times> (nat \<times> 'a option) list) \<times> 'a push_pc list \<times> 'a pop_pc \<times> 'a ring" where
  "ring_view s = ((claims s, claimed s, got s), map (pushers s) [0, 2], poppers s 0, ring s)"

lemma demo_ring_view: "ring_view demo_ring =
    (([7, 8, 9], 1, [(0, Some 7)]), [P_Write 8 1, P_Look 10 3], Q_Look 1,
     \<lparr>slots = [\<lparr>sequence = 3, task = Some 9\<rparr>, \<lparr>sequence = 1, task = None\<rparr>], mask = 1, tail = 3, head = 1\<rparr>)"
  by code_simp

lemma demo_ring_state: "claims demo_ring = [7, 8, 9]" "claimed demo_ring = 1" "got demo_ring = [(0, Some 7)]"
    "pushers demo_ring 0 = P_Write 8 1" "pushers demo_ring 2 = P_Look 10 3" "poppers demo_ring 0 = Q_Look 1"
    "ring demo_ring = \<lparr>slots = [\<lparr>sequence = 3, task = Some 9\<rparr>, \<lparr>sequence = 1, task = None\<rparr>], mask = 1, tail = 3, head = 1\<rparr>"
  using demo_ring_view by (simp_all add: ring_view_def)

lemma ring_size_2: "ring_size 2 = 2"
  by code_simp

lemma demo_ring_quiet: "reads (poppers demo_ring i) = None"
proof (cases "i = 0")
  case False
  then have "poppers demo_ring i = poppers ring_start i" by (intro poppers_kept) (auto simp: ring_demo_def)
  then show ?thesis by (simp add: ring_start_def)
qed (simp add: demo_ring_state)

lemma demo_ring_looks:
  "push_step (pushers demo_ring 2) (ring demo_ring) = (P_Done False, ring demo_ring)"
  "pop_step (poppers demo_ring 0) (ring demo_ring) = (Q_Done None, ring demo_ring)"
  by (simp_all add: demo_ring_state cell_def Let_def)

section \<open>Properties\<close>

lemma reach_ring_ok:
  assumes "reach (ring_init c) ring_step s" and "c \<le> 2 ^ 62" and "length (claims s) < 2 ^ 62"
  shows "\<exists>k ph. ring_ok s k ph \<and> ring_size c = 2 ^ k"
proof -
  have "reach (\<lambda>s. \<exists>c \<le> 2 ^ 62. ring_init c s) ring_step s"
    using assms(1) by (induction rule: reach.induct) (use assms(2) in \<open>auto intro: reach.intros\<close>)
  then have "ring_inv s" by (rule ring_run.reach_inv)
  then obtain k ph where ok: "ring_ok s k ph" using assms(3) unfolding ring_inv_def by blast
  moreover have "ring_size c = 2 ^ k" using ok ring_slots [OF assms(1)] by (simp add: ring_ok_def shape_def)
  ultimately show ?thesis by blast
qed

lemma all_taken:
  assumes "ring_ok s k ph" and "\<And>i. reads (poppers s i) = None"
  shows "mset (map snd (got s)) = mset (map Some (take (claimed s) (claims s)))"
proof -
  have gi: "got_inv s" and HT: "claimed s \<le> length (claims s)" using assms(1) by (simp_all add: ring_ok_def shape_def)
  have "set (map fst (got s)) = {..<claimed s}" using gi assms(2) by (force simp: got_inv_def)
  moreover have "distinct (map fst (got s))" using gi by (simp add: got_inv_def)
  ultimately have "mset (map fst (got s)) = mset [0..<claimed s]" by (intro set_eq_iff_mset_eq_distinct [THEN iffD1]) auto
  then have "mset (map (\<lambda>p. Some (claims s ! p)) (map fst (got s))) = mset (map (\<lambda>p. Some (claims s ! p)) [0..<claimed s])"
    by (simp only: mset_map [of _ "map fst (got s)"] mset_map [of _ "[0..<claimed s]"])
  moreover have "map (\<lambda>p. Some (claims s ! p)) (map fst (got s)) = map snd (got s)" using gi by (auto simp: got_inv_def)
  moreover have "map (\<lambda>p. Some (claims s ! p)) [0..<claimed s] = map Some (take (claimed s) (claims s))"
    using HT by (auto intro!: nth_equalityI)
  ultimately show ?thesis by (simp only:)
qed

text \<open>
  C40. Whatever goroutines push to and pop from a shard's queue, in whatever interleaving of their atomic operations:
  a pop that returns a task returns the one of its own position in the order in which pushes claimed positions, no two
  pops take the same position, and pops claim the positions in that order; a task that has not been taken out is never
  overwritten (the positions claimed stay within a ring size of it); when no pop is under way the tasks returned are
  exactly the first ones claimed. Each step of the ring is a step of the queue of claimed tasks (a claim appends, a last
  store publishes, a pop takes the head once it is published) or leaves it as it is. A push fails only when the ring is full, and a pop returns none only when the queue is
  empty or the push of its next task has not finished writing.
\<close>

theorem taskpool_queue_fifo:
  assumes "reach (ring_init c) ring_step s" and "c \<le> 2 ^ 62" and "length (claims s) < 2 ^ 62"
  shows "(max c 2 \<le> int (ring_size c) \<and> int (ring_size c) < 2 * max c 2) \<and>
    ((\<forall>(p, v) \<in> set (got s). v = Some (claims s ! p) \<and> p < claimed s) \<and> distinct (map fst (got s)) \<and> claimed s \<le> length (claims s)) \<and>
    (\<forall>p < length (claims s). p \<notin> fst ` set (got s) \<longrightarrow> length (claims s) \<le> p + ring_size c) \<and>
    ((\<forall>i. reads (poppers s i) = None) \<longrightarrow> mset (map snd (got s)) = mset (map Some (take (claimed s) (claims s)))) \<and>
    (\<forall>i t pos q. pushers s i = P_Look t pos \<longrightarrow> push_step (pushers s i) (ring s) = (P_Done False, q) \<longrightarrow>
      ring_size c \<le> length (claims s) \<and> length (claims s) - ring_size c \<notin> fst ` set (got s)) \<and>
    (\<forall>i pos q. poppers s i = Q_Look pos \<longrightarrow> pop_step (poppers s i) (ring s) = (Q_Done None, q) \<longrightarrow>
      claimed s = length (claims s) \<or> (\<exists>j. writes (pushers s j) = Some (of_nat (claimed s)))) \<and>
    (\<forall>t. ring_step s t \<and> length (claims t) < 2 ^ 62 \<longrightarrow> queue_step (queue_of s) (queue_of t))"
proof -
  obtain k ph where ok: "ring_ok s k ph" and n: "ring_size c = 2 ^ k" using reach_ring_ok [OF assms] by blast
  have gi: "got_inv s" and HT: "claimed s \<le> length (claims s)" using ok by (simp_all add: ring_ok_def shape_def)
  have "(\<forall>(p, v) \<in> set (got s). v = Some (claims s ! p) \<and> p < claimed s) \<and> distinct (map fst (got s)) \<and> claimed s \<le> length (claims s)"
    using gi HT by (auto simp: got_inv_def)
  moreover have "max c 2 \<le> int (ring_size c) \<and> int (ring_size c) < 2 * max c 2" using ring_size_bounds by blast
  moreover have "\<forall>p < length (claims s). p \<notin> fst ` set (got s) \<longrightarrow> length (claims s) \<le> p + ring_size c"
    using unread_kept(1) [OF ok assms(3)] n by simp
  moreover have "(\<forall>i. reads (poppers s i) = None) \<longrightarrow> mset (map snd (got s)) = mset (map Some (take (claimed s) (claims s)))"
    using all_taken [OF ok] by blast
  moreover have "\<forall>i t pos q. pushers s i = P_Look t pos \<longrightarrow> push_step (pushers s i) (ring s) = (P_Done False, q) \<longrightarrow>
      ring_size c \<le> length (claims s) \<and> length (claims s) - ring_size c \<notin> fst ` set (got s)"
    using push_full [OF ok assms(3)] unfolding n by blast
  moreover have "\<forall>i pos q. poppers s i = Q_Look pos \<longrightarrow> pop_step (poppers s i) (ring s) = (Q_Done None, q) \<longrightarrow>
      claimed s = length (claims s) \<or> (\<exists>j. writes (pushers s j) = Some (of_nat (claimed s)))"
    using pop_empty [OF ok assms(3)] by blast
  moreover have "\<forall>t. ring_step s t \<and> length (claims t) < 2 ^ 62 \<longrightarrow> queue_step (queue_of s) (queue_of t)"
    using ring_refines [OF ok] by blast
  ultimately show ?thesis by blast
qed

theorem taskpool_queue_fifo_witness:
  "(0, Some 7) \<in> set (got demo_ring) \<and> Some 7 = Some (claims demo_ring ! 0) \<and> 0 < claimed demo_ring \<and>
   length (claims demo_ring) \<le> 1 + ring_size 2 \<and>
   mset (map snd (got demo_ring)) = mset (map Some (take (claimed demo_ring) (claims demo_ring))) \<and>
   length (claims demo_ring) - ring_size 2 \<notin> fst ` set (got demo_ring) \<and>
   (\<exists>j. writes (pushers demo_ring j) = Some (of_nat (claimed demo_ring)))"
proof -
  have b: "(2 :: int) \<le> 2 ^ 62" "length (claims demo_ring) < 2 ^ 62" by (simp_all add: demo_ring_state)
  note pr = taskpool_queue_fifo [OF demo_ring_reach b]
  have "(0, Some 7) \<in> set (got demo_ring)" by (simp add: demo_ring_state)
  moreover from this have "Some 7 = Some (claims demo_ring ! 0)" "0 < claimed demo_ring" using pr by blast+
  moreover have "1 < length (claims demo_ring)" "1 \<notin> fst ` set (got demo_ring)" by (simp_all add: demo_ring_state)
  then have "length (claims demo_ring) \<le> 1 + ring_size 2" using pr by blast
  moreover have "mset (map snd (got demo_ring)) = mset (map Some (take (claimed demo_ring) (claims demo_ring)))"
    using pr demo_ring_quiet by blast
  moreover have "length (claims demo_ring) - ring_size 2 \<notin> fst ` set (got demo_ring)"
    using pr demo_ring_state(5) demo_ring_looks(1) by blast
  moreover have "claimed demo_ring \<noteq> length (claims demo_ring)" by (simp add: demo_ring_state)
  then have "\<exists>j. writes (pushers demo_ring j) = Some (of_nat (claimed demo_ring))"
    using pr demo_ring_state(6) demo_ring_looks(2) by blast
  ultimately show ?thesis by blast
qed

text \<open>
  C6. The queue never blocks: from any reachable state, a goroutine that has called push or pop and runs while the others
  stand still returns within seven (eight) atomic steps, wherever the others stopped. A push called then succeeds exactly
  when there is room (the position a lap before has been taken out), and a pop called then returns the next task exactly
  when there is one and its push has finished writing it, which is what hasTask tells.
\<close>

theorem taskpool_queue_progress:
  assumes "reach (ring_init c) ring_step s" and "c \<le> 2 ^ 62" and "length (claims s) < 2 ^ 62"
  shows "(\<forall>i. pushers s i \<noteq> P_Idle \<longrightarrow> (\<exists>r. fst (push_run 7 (pushers s i, ring s)) = P_Done r)) \<and>
    (\<forall>i. poppers s i \<noteq> Q_Idle \<longrightarrow> (\<exists>v. fst (pop_run 8 (poppers s i, ring s)) = Q_Done v)) \<and>
    (\<forall>t. fst (push_run 5 (P_Load t, ring s)) = P_Done (length (claims s) < ring_size c \<or> length (claims s) - ring_size c \<in> fst ` set (got s))) \<and>
    fst (pop_run 6 (Q_Load, ring s)) = Q_Done (if claimed s < length (claims s) \<and> (\<forall>j. writes (pushers s j) \<noteq> Some (of_nat (claimed s)))
      then Some (claims s ! claimed s) else None) \<and>
    (hasTask (ring s) \<longleftrightarrow> (\<exists>v. fst (pop_run 6 (Q_Load, ring s)) = Q_Done (Some v)))"
proof -
  obtain k ph where ok: "ring_ok s k ph" and n: "ring_size c = 2 ^ k" using reach_ring_ok [OF assms] by blast
  note facts = push_finishes [OF ok assms(3)] pop_finishes [OF ok assms(3)] push_alone [OF ok assms(3)] pop_alone [OF ok assms(3)]
  have "hasTask (ring s) \<longleftrightarrow> (\<exists>v. fst (pop_run 6 (Q_Load, ring s)) = Q_Done (Some v))"
    unfolding facts(4) hasTask_head [OF ok assms(3)] by simp
  then show ?thesis unfolding n using facts by blast
qed

theorem taskpool_queue_progress_witness:
  "(\<exists>r. fst (push_run 7 (pushers demo_ring 0, ring demo_ring)) = P_Done r) \<and>
   (\<exists>v. fst (pop_run 8 (poppers demo_ring 0, ring demo_ring)) = Q_Done v) \<and>
   fst (push_run 5 (P_Load 11, ring demo_ring)) = P_Done False \<and> fst (pop_run 6 (Q_Load, ring demo_ring)) = Q_Done None"
proof -
  have b: "(2 :: int) \<le> 2 ^ 62" "length (claims demo_ring) < 2 ^ 62" by (simp_all add: demo_ring_state)
  note pr = taskpool_queue_progress [OF demo_ring_reach b]
  have "pushers demo_ring 0 \<noteq> P_Idle" "poppers demo_ring 0 \<noteq> Q_Idle" by (simp_all add: demo_ring_state)
  then have "\<exists>r. fst (push_run 7 (pushers demo_ring 0, ring demo_ring)) = P_Done r"
    "\<exists>v. fst (pop_run 8 (poppers demo_ring 0, ring demo_ring)) = Q_Done v" using pr by blast+
  moreover have "(length (claims demo_ring) < ring_size 2 \<or> length (claims demo_ring) - ring_size 2 \<in> fst ` set (got demo_ring)) = False"
    by (simp add: demo_ring_state ring_size_2)
  moreover have "fst (push_run 5 (P_Load 11, ring demo_ring)) =
      P_Done (length (claims demo_ring) < ring_size 2 \<or> length (claims demo_ring) - ring_size 2 \<in> fst ` set (got demo_ring))" using pr by blast
  ultimately have "fst (push_run 5 (P_Load 11, ring demo_ring)) = P_Done False" by (simp only:)
  moreover note \<open>\<exists>r. fst (push_run 7 (pushers demo_ring 0, ring demo_ring)) = P_Done r\<close>
    \<open>\<exists>v. fst (pop_run 8 (poppers demo_ring 0, ring demo_ring)) = Q_Done v\<close>
  moreover have "writes (pushers demo_ring 0) = Some (of_nat (claimed demo_ring))" by (simp add: demo_ring_state)
  then have no: "\<not> (claimed demo_ring < length (claims demo_ring) \<and> (\<forall>j. writes (pushers demo_ring j) \<noteq> Some (of_nat (claimed demo_ring))))" by blast
  then have "fst (pop_run 6 (Q_Load, ring demo_ring)) = Q_Done None" using pr unfolding if_not_P [OF no] by blast
  ultimately show ?thesis by blast
qed


end
