(* ===== verification/TaskWork.thy ===== *)
theory TaskWork
  imports FnetPrelude
begin

unbundle bit_operations_syntax

text \<open>
  The workers of the goroutine pool (\<^verbatim>\<open>taskpool/taskpool.go\<close>): submitting, waking, starting and lending of workers, the
  stall monitor, and \<^verbatim>\<open>Close\<close>. A step is one atomic operation of one goroutine, as in the ring; a call of \<^verbatim>\<open>push\<close> is the
  two steps in which it claims a position and publishes the task, a call of \<^verbatim>\<open>pop\<close> the one in which it claims the task it
  returns or finds none. Counters that stay far below \<^verbatim>\<open>2^31\<close> are integers.
\<close>

section \<open>State\<close>

text \<open>
  A shard: the tasks in the order of their positions and whether they are written, how many have been taken out, and
  the state of its workers. Bit \<open>i mod 64\<close> of word \<open>i div 64\<close> of \<open>idleWorkers\<close> stands for the suspended worker \<open>i\<close>.
\<close>

record 'a wshard =
  q_tasks :: "('a \<times> bool) list"
  q_head :: nat
  wakingWorkers :: int
  servingWorkers :: int
  servingLimit :: int
  liveWorkers :: nat
  idleWorkers :: "nat \<Rightarrow> u64"

text \<open>
  The pool. \<open>sent\<close> are the messages in the channels of the workers (shard, id and the shard to serve next, or none for
  nil). What was submitted, what has been run, and whether a task ended a helper with \<^verbatim>\<open>runtime.Goexit\<close>, is recorded.
\<close>

record 'a wpool =
  nshards :: nat
  maxWorkers :: nat
  shards :: "nat \<Rightarrow> 'a wshard"
  closed :: bool
  starving :: bool
  monitoring :: bool
  sent :: "(nat \<times> nat \<times> nat option) list"
  submitted :: "'a list"
  ran :: "'a list"
  helper_exited :: bool

definition MaxWorkers :: nat where
  "MaxWorkers = 512"

definition softWorkers :: int where
  "softWorkers = 2"

definition new_pool :: "int \<Rightarrow> int \<Rightarrow> 'a wpool" where
  "new_pool n workers =
     \<lparr>nshards = nat (max n 1), maxWorkers = nat (min (max workers 1) (int MaxWorkers)),
      shards = (\<lambda>_. \<lparr>q_tasks = [], q_head = 0, wakingWorkers = 0, servingWorkers = 0, servingLimit = softWorkers,
                    liveWorkers = 0, idleWorkers = (\<lambda>_. 0)\<rparr>),
      closed = False, starving = False, monitoring = False, sent = [], submitted = [], ran = [], helper_exited = False\<rparr>"

definition on_shard :: "nat \<Rightarrow> ('a wshard \<Rightarrow> 'a wshard) \<Rightarrow> 'a wpool \<Rightarrow> 'a wpool" where
  "on_shard s f p = p\<lparr>shards := (shards p)(s := f (shards p s))\<rparr>"

section \<open>The queue\<close>

definition head_written :: "'a wshard \<Rightarrow> bool" where
  "head_written sh \<longleftrightarrow> q_head sh < length (q_tasks sh) \<and> snd (q_tasks sh ! q_head sh)"

definition pop_task :: "'a wshard \<Rightarrow> 'a option \<times> 'a wshard" where
  "pop_task sh = (if head_written sh then (Some (fst (q_tasks sh ! q_head sh)), sh\<lparr>q_head := q_head sh + 1\<rparr>) else (None, sh))"

text \<open>
  The second load of \<^verbatim>\<open>hasTask\<close>, from the cell of the head that the first has read: when the head has moved on since, the
  answer depends on whether the cell has been released.
\<close>

definition look :: "bool \<Rightarrow> nat \<Rightarrow> 'a wshard \<Rightarrow> bool" where
  "look stale pos sh = (if pos = q_head sh then head_written sh else stale)"

section \<open>Waking a suspended worker, starting a worker\<close>

fun lowest_bit :: "nat \<Rightarrow> u64 \<Rightarrow> nat" where
  "lowest_bit 0 w = 64"
| "lowest_bit (Suc n) w = (if bit w (63 - n) then 63 - n else lowest_bit n w)"

definition TrailingZeros64 :: "u64 \<Rightarrow> nat" where
  "TrailingZeros64 w = lowest_bit 64 w"

definition idle_words :: "nat \<Rightarrow> nat" where
  "idle_words live = (live + 63) div 64"

datatype wake_pc = K_Live | K_Load nat nat | K_Cas nat nat u64 | K_Send nat

text \<open>\<^verbatim>\<open>wakeIdle\<close> of shard \<open>s\<close>; it has no next step while the channel is full.\<close>

fun wakeIdle :: "nat \<Rightarrow> nat option \<Rightarrow> wake_pc \<Rightarrow> 'a wpool \<Rightarrow> ('a wpool \<times> (wake_pc + bool)) option" where
  "wakeIdle s target K_Live p =
     (let n = idle_words (liveWorkers (shards p s)) in Some (p, if n = 0 then Inr False else Inl (K_Load 0 n)))"
| "wakeIdle s target (K_Load w n) p =
     (let idle = idleWorkers (shards p s) w in
      Some (p, if idle = 0 then (if w + 1 < n then Inl (K_Load (w + 1) n) else Inr False) else Inl (K_Cas w n idle)))"
| "wakeIdle s target (K_Cas w n idle) p =
     (if idleWorkers (shards p s) w = idle
      then Some (on_shard s (\<lambda>sh. sh\<lparr>idleWorkers := (idleWorkers sh)(w := unset_bit (TrailingZeros64 idle) idle)\<rparr>) p,
                 Inl (K_Send (w * 64 + TrailingZeros64 idle)))
      else Some (p, Inl (K_Load w n)))"
| "wakeIdle s target (K_Send i) p =
     (if (\<exists>m \<in> set (sent p). fst m = s \<and> fst (snd m) = i) then None
      else Some (p\<lparr>sent := sent p @ [(s, i, target)]\<rparr>, Inr True))"

datatype start_pc = T_Load | T_Cas nat

text \<open>\<^verbatim>\<open>start\<close> of shard \<open>s\<close>, with the id of the worker it starts.\<close>

fun start :: "nat \<Rightarrow> start_pc \<Rightarrow> 'a wpool \<Rightarrow> 'a wpool \<times> (start_pc + nat option)" where
  "start s T_Load p =
     (let live = liveWorkers (shards p s) in (p, if live \<ge> maxWorkers p then Inr None else Inl (T_Cas live)))"
| "start s (T_Cas live) p =
     (if liveWorkers (shards p s) = live then (on_shard s (\<lambda>sh. sh\<lparr>liveWorkers := live + 1\<rparr>) p, Inr (Some live))
      else (p, Inl T_Load))"

section \<open>Goroutines\<close>

datatype notify_pc = N_Has | N_Look nat | N_Starving | N_StarvClosed | N_Waking | N_Serving | N_Limit int | N_LimClosed
  | N_Monitoring | N_MonCas | N_Cas | N_Inc | N_Wake wake_pc | N_Start start_pc | N_Borrow
  | N_BWake nat wake_pc "nat list" "nat list" | N_BStart nat start_pc "nat list"
  | N_DecServ | N_DecWake | N_Closed | N_Pop | N_Store | N_IdleLive nat | N_IdleWord nat nat nat | N_Clear

datatype 'a work_pc = W_Reach | W_Pop | W_Has 'a | W_Look 'a nat | W_Run 'a | W_Exit | W_Respawn | W_Limit | W_SetLimit | W_Or
  | W_Dec | W_Starv | W_Clear | W_Target | W_TLook nat | W_Home | W_HLook nat | W_Closed | W_And | W_Recv

datatype 'a submit_pc = S_Closed 'a | S_Push 'a | S_Publish nat

datatype 'a help_pc = H_Run 'a | H_Pop

datatype close_pc = C_Set | C_Wake nat wake_pc

text \<open>The rounds of the monitor: the shard, whether there is a backlog, and the headroom once it is sampled.\<close>

type_synonym round = "nat \<times> bool \<times> bool option"

datatype monitor_pc = M_Heads | M_Tick | B_Head round | B_Serv round u64 u64 | B_Has round u64 u64 int | B_Look round u64 u64 int nat
  | B_Lim round u64 u64 int | B_Tail round u64 int | B_Store round int | M_Off | M_Closed | M_BHas nat | M_BLook nat nat | M_BServ nat
  | M_BLim nat int | M_Cas

text \<open>
  A goroutine is a stack of calls, the innermost first: \<^verbatim>\<open>notify\<close>, the loops that notify every shard, a worker (its shard,
  its id and the shard it serves), \<^verbatim>\<open>submit\<close>, \<^verbatim>\<open>help\<close>, \<^verbatim>\<open>Close\<close>, and the monitor with the heads it has noted.
\<close>

datatype 'a frame = Notify nat notify_pc | NotifyAll nat | Work nat nat nat "'a work_pc" | Submit nat "'a submit_pc"
  | Help nat "'a help_pc" | Closing close_pc | Monitor "u64 list" monitor_pc

text \<open>
  What a step does not determine: the random shard that borrowing begins with, whether the ring is full, what a stale
  look sees, whether the scheduler has headroom, and whether the task calls \<^verbatim>\<open>runtime.Goexit\<close>.
\<close>

record choice =
  random :: nat
  ring_full :: bool
  stale :: bool
  headroom :: bool
  goexit :: bool

text \<open>A step has a new state, the frames that take the place of the innermost one, and the goroutines it starts.\<close>

type_synonym 'a outcome = "'a wpool \<times> 'a frame list \<times> 'a frame list list"

section \<open>notify\<close>

definition borrow_start :: "nat list \<Rightarrow> notify_pc" where
  "borrow_start ds = (case ds of [] \<Rightarrow> N_DecServ | d # ds' \<Rightarrow> N_BStart d T_Load ds')"

definition borrow_wake :: "nat list \<Rightarrow> nat list \<Rightarrow> notify_pc" where
  "borrow_wake cs ds = (case cs of [] \<Rightarrow> borrow_start ds | c # cs' \<Rightarrow> N_BWake c K_Live cs' ds)"

definition lenders :: "nat \<Rightarrow> nat \<Rightarrow> nat \<Rightarrow> nat list" where
  "lenders n first target = filter (\<lambda>s. s \<noteq> target) (map (\<lambda>i. (first + i) mod n) [0..<n])"

definition idle_next :: "nat \<Rightarrow> nat \<Rightarrow> nat \<Rightarrow> 'a frame list" where
  "idle_next s n i = (if i < n then [Notify s (N_IdleLive i)] else [])"

fun notify :: "choice \<Rightarrow> nat \<Rightarrow> notify_pc \<Rightarrow> 'a wpool \<Rightarrow> 'a outcome option" where
  "notify ch s N_Has p = Some (p, [Notify s (N_Look (q_head (shards p s)))], [])"
| "notify ch s (N_Look pos) p = Some (p, if look (stale ch) pos (shards p s) then [Notify s N_Starving] else [], [])"
| "notify ch s N_Starving p = Some (p, [Notify s (if starving p then N_StarvClosed else N_Waking)], [])"
| "notify ch s N_StarvClosed p = Some (p, if closed p then [Notify s N_Waking] else [], [])"
| "notify ch s N_Waking p = Some (p, if wakingWorkers (shards p s) \<noteq> 0 then [] else [Notify s N_Serving], [])"
| "notify ch s N_Serving p = Some (p, [Notify s (N_Limit (servingWorkers (shards p s)))], [])"
| "notify ch s (N_Limit v) p = Some (p, [Notify s (if v \<ge> servingLimit (shards p s) then N_LimClosed else N_Cas)], [])"
| "notify ch s N_LimClosed p = Some (p, [Notify s (if closed p then N_Cas else N_Monitoring)], [])"
| "notify ch s N_Monitoring p = Some (p, if monitoring p then [] else [Notify s N_MonCas], [])"
| "notify ch s N_MonCas p = (if monitoring p then Some (p, [], []) else Some (p\<lparr>monitoring := True\<rparr>, [], [[Monitor [] M_Heads]]))"
| "notify ch s N_Cas p =
     (if wakingWorkers (shards p s) = 0 then Some (on_shard s (\<lambda>sh. sh\<lparr>wakingWorkers := 1\<rparr>) p, [Notify s N_Inc], [])
      else Some (p, [], []))"
| "notify ch s N_Inc p = Some (on_shard s (\<lambda>sh. sh\<lparr>servingWorkers := servingWorkers sh + 1\<rparr>) p, [Notify s (N_Wake K_Live)], [])"
| "notify ch s (N_Wake k) p =
     (case wakeIdle s (Some s) k p of None \<Rightarrow> None
      | Some (p', Inl k') \<Rightarrow> Some (p', [Notify s (N_Wake k')], [])
      | Some (p', Inr True) \<Rightarrow> Some (p', [], [])
      | Some (p', Inr False) \<Rightarrow> Some (p', [Notify s (N_Start T_Load)], []))"
| "notify ch s (N_Start t) p =
     (case start s t p of (p', Inl t') \<Rightarrow> Some (p', [Notify s (N_Start t')], [])
      | (p', Inr (Some i)) \<Rightarrow> Some (p', [], [[Work s i s W_Reach]])
      | (p', Inr None) \<Rightarrow> Some (p', [Notify s N_Borrow], []))"
| "notify ch s N_Borrow p =
     (let cs = lenders (nshards p) (random ch mod nshards p) s in Some (p, [Notify s (borrow_wake cs cs)], []))"
| "notify ch s (N_BWake c k cs ds) p =
     (case wakeIdle c (Some s) k p of None \<Rightarrow> None
      | Some (p', Inl k') \<Rightarrow> Some (p', [Notify s (N_BWake c k' cs ds)], [])
      | Some (p', Inr True) \<Rightarrow> Some (p', [], [])
      | Some (p', Inr False) \<Rightarrow> Some (p', [Notify s (borrow_wake cs ds)], []))"
| "notify ch s (N_BStart d t ds) p =
     (case start d t p of (p', Inl t') \<Rightarrow> Some (p', [Notify s (N_BStart d t' ds)], [])
      | (p', Inr (Some i)) \<Rightarrow> Some (p', [], [[Work d i s W_Reach]])
      | (p', Inr None) \<Rightarrow> Some (p', [Notify s (borrow_start ds)], []))"
| "notify ch s N_DecServ p = Some (on_shard s (\<lambda>sh. sh\<lparr>servingWorkers := servingWorkers sh - 1\<rparr>) p, [Notify s N_DecWake], [])"
| "notify ch s N_DecWake p = Some (on_shard s (\<lambda>sh. sh\<lparr>wakingWorkers := wakingWorkers sh - 1\<rparr>) p, [Notify s N_Closed], [])"
| "notify ch s N_Closed p = Some (p, [Notify s (if closed p then N_Pop else N_Store)], [])"
| "notify ch s N_Pop p =
     (case pop_task (shards p s) of (None, _) \<Rightarrow> Some (p, [], [])
      | (Some t, sh) \<Rightarrow> Some (on_shard s (\<lambda>_. sh) p, [], [[Help s (H_Run t)]]))"
| "notify ch s N_Store p = Some (p\<lparr>starving := True\<rparr>, idle_next s (nshards p) 0, [])"
| "notify ch s (N_IdleLive i) p =
     (let n = idle_words (liveWorkers (shards p i)) in
      Some (p, if n = 0 then idle_next s (nshards p) (i + 1) else [Notify s (N_IdleWord i 0 n)], []))"
| "notify ch s (N_IdleWord i w n) p =
     Some (p, if idleWorkers (shards p i) w \<noteq> 0 then [Notify s N_Clear]
              else if w + 1 < n then [Notify s (N_IdleWord i (w + 1) n)] else idle_next s (nshards p) (i + 1), [])"
| "notify ch s N_Clear p = (if starving p then Some (p\<lparr>starving := False\<rparr>, [NotifyAll 0], []) else Some (p, [], []))"

section \<open>Workers\<close>

fun work :: "choice \<Rightarrow> nat \<Rightarrow> nat \<Rightarrow> nat \<Rightarrow> 'a work_pc \<Rightarrow> 'a wpool \<Rightarrow> 'a outcome option" where
  "work ch h i g W_Reach p = Some (on_shard g (\<lambda>sh. sh\<lparr>wakingWorkers := wakingWorkers sh - 1\<rparr>) p, [Work h i g W_Pop], [])"
| "work ch h i g W_Pop p =
     (case pop_task (shards p g) of (None, _) \<Rightarrow> Some (p, [Work h i g W_Limit], [])
      | (Some t, sh) \<Rightarrow> Some (on_shard g (\<lambda>_. sh) p, [Work h i g (W_Has t)], []))"
| "work ch h i g (W_Has t) p = Some (p, [Work h i g (W_Look t (q_head (shards p g)))], [])"
| "work ch h i g (W_Look t pos) p =
     Some (p, (if look (stale ch) pos (shards p g) then [Notify g N_Has] else []) @ [Work h i g (W_Run t)], [])"
| "work ch h i g (W_Run t) p = Some (p\<lparr>ran := ran p @ [t]\<rparr>, [Work h i g (if goexit ch then W_Exit else W_Pop)], [])"
| "work ch h i g W_Exit p = Some (on_shard g (\<lambda>sh. sh\<lparr>wakingWorkers := wakingWorkers sh + 1\<rparr>) p, [Work h i g W_Respawn], [])"
| "work ch h i g W_Respawn p = Some (p, [], [[Work h i g W_Reach]])"
| "work ch h i g W_Limit p = Some (p, [Work h i g (if servingLimit (shards p g) \<noteq> softWorkers then W_SetLimit else W_Or)], [])"
| "work ch h i g W_SetLimit p = Some (on_shard g (\<lambda>sh. sh\<lparr>servingLimit := softWorkers\<rparr>) p, [Work h i g W_Or], [])"
| "work ch h i g W_Or p =
     Some (on_shard h (\<lambda>sh. sh\<lparr>idleWorkers := (idleWorkers sh)(i div 64 := set_bit (i mod 64) (idleWorkers sh (i div 64)))\<rparr>) p, [Work h i g W_Dec], [])"
| "work ch h i g W_Dec p = Some (on_shard g (\<lambda>sh. sh\<lparr>servingWorkers := servingWorkers sh - 1\<rparr>) p, [Work h i g W_Starv], [])"
| "work ch h i g W_Starv p = Some (p, [Work h i g (if starving p then W_Clear else if g \<noteq> h then W_Target else W_Home)], [])"
| "work ch h i g W_Clear p =
     (if starving p then Some (p\<lparr>starving := False\<rparr>, [NotifyAll 0, Work h i g W_Closed], [])
      else Some (p, [Work h i g (if g \<noteq> h then W_Target else W_Home)], []))"
| "work ch h i g W_Target p = Some (p, [Work h i g (W_TLook (q_head (shards p g)))], [])"
| "work ch h i g (W_TLook pos) p =
     Some (p, (if look (stale ch) pos (shards p g) then [Notify g N_Has] else []) @ [Work h i g W_Home], [])"
| "work ch h i g W_Home p = Some (p, [Work h i g (W_HLook (q_head (shards p h)))], [])"
| "work ch h i g (W_HLook pos) p =
     Some (p, (if look (stale ch) pos (shards p h) then [Notify h N_Has] else []) @ [Work h i g W_Closed], [])"
| "work ch h i g W_Closed p = Some (p, [Work h i g (if closed p then W_And else W_Recv)], [])"
| "work ch h i g W_And p =
     (let w = idleWorkers (shards p h) (i div 64) in
      Some (on_shard h (\<lambda>sh. sh\<lparr>idleWorkers := (idleWorkers sh)(i div 64 := unset_bit (i mod 64) w)\<rparr>) p,
            if bit w (i mod 64) then [] else [Work h i g W_Recv], []))"
| "work ch h i g W_Recv p =
     (case filter (\<lambda>m. fst m = h \<and> fst (snd m) = i) (sent p) of [] \<Rightarrow> None
      | m # _ \<Rightarrow> Some (p\<lparr>sent := remove1 m (sent p)\<rparr>,
          case snd (snd m) of None \<Rightarrow> [] | Some g' \<Rightarrow> [Work h i g' W_Reach], []))"

section \<open>submit, help and Close\<close>

fun submit :: "choice \<Rightarrow> nat \<Rightarrow> 'a submit_pc \<Rightarrow> 'a wpool \<Rightarrow> 'a outcome option" where
  "submit ch s (S_Closed t) p = (if closed p then Some (p, [], [[Help s (H_Run t)]]) else Some (p, [Submit s (S_Push t)], []))"
| "submit ch s (S_Push t) p =
     (if ring_full ch then Some (p, [], [[Help s (H_Run t)]])
      else Some (on_shard s (\<lambda>sh. sh\<lparr>q_tasks := q_tasks sh @ [(t, False)]\<rparr>) p, [Submit s (S_Publish (length (q_tasks (shards p s))))], []))"
| "submit ch s (S_Publish pos) p =
     Some (on_shard s (\<lambda>sh. sh\<lparr>q_tasks := (q_tasks sh)[pos := (fst (q_tasks sh ! pos), True)]\<rparr>) p, [Notify s N_Has], [])"

fun help_run :: "choice \<Rightarrow> nat \<Rightarrow> 'a help_pc \<Rightarrow> 'a wpool \<Rightarrow> 'a outcome option" where
  "help_run ch s (H_Run t) p =
     (if goexit ch then Some (p\<lparr>ran := ran p @ [t], helper_exited := True\<rparr>, [], [])
      else Some (p\<lparr>ran := ran p @ [t]\<rparr>, [Help s H_Pop], []))"
| "help_run ch s H_Pop p =
     (case pop_task (shards p s) of (None, _) \<Rightarrow> Some (p, [], [])
      | (Some t, sh) \<Rightarrow> Some (on_shard s (\<lambda>_. sh) p, [Help s (H_Run t)], []))"

fun Close :: "close_pc \<Rightarrow> 'a wpool \<Rightarrow> 'a outcome option" where
  "Close C_Set p = Some (p\<lparr>closed := True\<rparr>, [Closing (C_Wake 0 K_Live)], [])"
| "Close (C_Wake s k) p =
     (case wakeIdle s None k p of None \<Rightarrow> None
      | Some (p', Inl k') \<Rightarrow> Some (p', [Closing (C_Wake s k')], [])
      | Some (p', Inr True) \<Rightarrow> Some (p', [Closing (C_Wake s K_Live)], [])
      | Some (p', Inr False) \<Rightarrow> Some (p', if s + 1 < nshards p then [Closing (C_Wake (s + 1) K_Live)] else [], []))"

section \<open>The stall monitor\<close>

definition round_next :: "nat \<Rightarrow> u64 list \<Rightarrow> round \<Rightarrow> 'a frame" where
  "round_next n heads r =
     (let (i, backlog, sampled) = r in
      Monitor heads (if i + 1 < n then B_Head (i + 1, backlog, sampled) else if backlog then M_Tick else M_Off))"

fun monitor :: "choice \<Rightarrow> u64 list \<Rightarrow> monitor_pc \<Rightarrow> 'a wpool \<Rightarrow> 'a outcome option" where
  "monitor ch hs M_Heads p =
     (let hs' = hs @ [of_nat (q_head (shards p (length hs)))] in Some (p, [Monitor hs' (if length hs' < nshards p then M_Heads else M_Tick)], []))"
| "monitor ch hs M_Tick p = Some (p, [Monitor hs (if closed p then M_Off else B_Head (0, False, None))], [])"
| "monitor ch hs (B_Head r) p =
     (let i = fst r; head = of_nat (q_head (shards p i)) in Some (p, [Monitor (hs[i := head]) (B_Serv r (head - hs ! i) head)], []))"
| "monitor ch hs (B_Serv r taken head) p = Some (p, [Monitor hs (B_Has r taken head (servingWorkers (shards p (fst r))))], [])"
| "monitor ch hs (B_Has r taken head serving) p =
     Some (p, [Monitor hs (B_Look r taken head serving (q_head (shards p (fst r))))], [])"
| "monitor ch hs (B_Look r taken head serving pos) p =
     Some (p, [if look (stale ch) pos (shards p (fst r)) then Monitor hs (B_Lim r taken head serving) else round_next (nshards p) hs r], [])"
| "monitor ch hs (B_Lim r taken head serving) p =
     (let (i, _, sampled) = r in
      if serving < servingLimit (shards p i) then Some (p, [round_next (nshards p) hs r], [])
      else if taken \<ge> word_of_int serving then Some (p, [round_next (nshards p) hs (i, True, sampled)], [])
      else let room = (case sampled of None \<Rightarrow> headroom ch | Some b \<Rightarrow> b); r' = (i, True, Some room) in
        Some (p, [if room then Monitor hs (B_Tail r' head serving) else round_next (nshards p) hs r'], []))"
| "monitor ch hs (B_Tail r head serving) p =
     Some (p, [Monitor hs (B_Store r (serving + uint (min (word_of_int serving) (of_nat (length (q_tasks (shards p (fst r)))) - head))))], [])"
| "monitor ch hs (B_Store r limit) p =
     Some (on_shard (fst r) (\<lambda>sh. sh\<lparr>servingLimit := limit\<rparr>) p, [Notify (fst r) N_Has, round_next (nshards p) hs r], [])"
| "monitor ch hs M_Off p = Some (p\<lparr>monitoring := False\<rparr>, [Monitor hs M_Closed], [])"
| "monitor ch hs M_Closed p = Some (p, if closed p then [] else [Monitor hs (M_BHas 0)], [])"
| "monitor ch hs (M_BHas i) p = Some (p, [Monitor hs (M_BLook i (q_head (shards p i)))], [])"
| "monitor ch hs (M_BLook i pos) p =
     Some (p, if look (stale ch) pos (shards p i) then [Monitor hs (M_BServ i)]
              else if i + 1 < nshards p then [Monitor hs (M_BHas (i + 1))] else [], [])"
| "monitor ch hs (M_BServ i) p = Some (p, [Monitor hs (M_BLim i (servingWorkers (shards p i)))], [])"
| "monitor ch hs (M_BLim i serving) p =
     Some (p, if serving \<ge> servingLimit (shards p i) then [Monitor hs M_Cas]
              else if i + 1 < nshards p then [Monitor hs (M_BHas (i + 1))] else [], [])"
| "monitor ch hs M_Cas p = (if monitoring p then Some (p, [], []) else Some (p\<lparr>monitoring := True\<rparr>, [Monitor hs M_Tick], []))"

section \<open>Every interleaving\<close>

fun frame_step :: "choice \<Rightarrow> 'a frame \<Rightarrow> 'a wpool \<Rightarrow> 'a outcome option" where
  "frame_step ch (Notify s pc) p = notify ch s pc p"
| "frame_step ch (NotifyAll i) p = Some (p, if i < nshards p then [Notify i N_Has, NotifyAll (i + 1)] else [], [])"
| "frame_step ch (Work h i g pc) p = work ch h i g pc p"
| "frame_step ch (Submit s pc) p = submit ch s pc p"
| "frame_step ch (Help s pc) p = help_run ch s pc p"
| "frame_step ch (Closing pc) p = Close pc p"
| "frame_step ch (Monitor hs pc) p = monitor ch hs pc p"

text \<open>The shard of \<^verbatim>\<open>SubmitTo\<close>; \<^verbatim>\<open>Submit\<close> takes a random one.\<close>

definition shard_of :: "nat \<Rightarrow> u64 \<Rightarrow> nat" where
  "shard_of n key = unat key mod n"

inductive pool_step :: "'a wpool \<times> 'a frame list list \<Rightarrow> 'a wpool \<times> 'a frame list list \<Rightarrow> bool" where
  call_submit: "s < nshards p \<Longrightarrow> pool_step (p, gs) (p\<lparr>submitted := submitted p @ [t]\<rparr>, gs @ [[Submit s (S_Closed t)]])"
| call_close: "pool_step (p, gs) (p, gs @ [[Closing C_Set]])"
| goroutine: "j < length gs \<Longrightarrow> gs ! j = f # fs \<Longrightarrow> frame_step ch f p = Some (p', new, started) \<Longrightarrow>
    pool_step (p, gs) (p', gs[j := new @ fs] @ started)"

inductive_cases pool_step_cases: "pool_step s t"

definition pool_init :: "int \<Rightarrow> int \<Rightarrow> 'a wpool \<times> 'a frame list list \<Rightarrow> bool" where
  "pool_init n workers s \<longleftrightarrow> s = (new_pool n workers, [])"

end
