(* ===== verification/TaskCount.thy ===== *)
theory TaskCount
  imports TaskWork
begin

unbundle bit_operations_syntax

text \<open>
  What the counters of a shard of the goroutine pool count, and where a worker can be: what a step of a goroutine changes
  in them, and which frames it leaves.
\<close>

section \<open>Frames\<close>

definition frames :: "'a frame list list \<Rightarrow> 'a frame set" where
  "frames gs = set (concat gs)"

definition total :: "('a frame \<Rightarrow> int) \<Rightarrow> 'a frame list list \<Rightarrow> int" where
  "total w gs = sum_list (map (\<lambda>fs. sum_list (map w fs)) gs)"

lemma total_simps [simp]: "total w [] = 0" "total w (fs # gs) = sum_list (map w fs) + total w gs" "total w (gs @ hs) = total w gs + total w hs"
  by (simp_all add: total_def)

lemma total_step:
  assumes "j < length gs" and "gs ! j = f # fs"
  shows "total w (gs[j := new @ fs] @ started) = total w gs - w f + sum_list (map w new) + total w started"
proof -
  have "gs[j := new @ fs] = take j gs @ (new @ fs) # drop (Suc j) gs" using assms(1) by (rule upd_conv_take_nth_drop)
  moreover have "gs = take j gs @ (f # fs) # drop (Suc j) gs" using assms id_take_nth_drop [of j gs] by simp
  then have "total w gs = total w (take j gs @ (f # fs) # drop (Suc j) gs)" by simp
  ultimately show ?thesis by simp
qed

lemma frames_simps [simp]: "frames [] = {}" "frames (fs # gs) = set fs \<union> frames gs" "frames (gs @ hs) = frames gs \<union> frames hs"
  by (simp_all add: frames_def)

lemma frames_step:
  assumes "j < length gs" and "gs ! j = f # fs"
  shows "f \<in> frames gs" and "g \<in> frames gs \<Longrightarrow> g = f \<or> g \<in> frames (gs[j := new @ fs] @ started)"
    and "set new \<subseteq> frames (gs[j := new @ fs] @ started)" and "frames started \<subseteq> frames (gs[j := new @ fs] @ started)"
    and "frames (gs[j := new @ fs] @ started) \<subseteq> frames gs \<union> set new \<union> frames started"
proof -
  have n: "gs[j := new @ fs] = take j gs @ (new @ fs) # drop (Suc j) gs" using assms(1) by (rule upd_conv_take_nth_drop)
  have "gs = take j gs @ (f # fs) # drop (Suc j) gs" using assms id_take_nth_drop [of j gs] by simp
  then have o: "frames gs = frames (take j gs @ (f # fs) # drop (Suc j) gs)" by simp
  show "f \<in> frames gs" unfolding o by simp
  show "g \<in> frames gs \<Longrightarrow> g = f \<or> g \<in> frames (gs[j := new @ fs] @ started)" unfolding o n by auto
  show "set new \<subseteq> frames (gs[j := new @ fs] @ started)" "frames started \<subseteq> frames (gs[j := new @ fs] @ started)" unfolding n by auto
  show "frames (gs[j := new @ fs] @ started) \<subseteq> frames gs \<union> set new \<union> frames started" unfolding o n by auto
qed

lemma total_nonneg: "(\<And>f. 0 \<le> w f) \<Longrightarrow> 0 \<le> total w gs"
  by (induction gs) (auto intro!: add_nonneg_nonneg sum_list_nonneg)

lemma total_pos:
  assumes "0 < total w gs"
  shows "\<exists>f \<in> frames gs. 0 < w f"
proof (rule ccontr)
  assume n: "\<not> ?thesis"
  have "\<forall>f \<in> frames gs. w f \<le> 0 \<Longrightarrow> total w gs \<le> 0"
  proof (induction gs)
    case (Cons fs gs)
    then have "sum_list (map w fs) \<le> 0" by (auto intro!: sum_list_nonpos)
    then show ?case using Cons by simp
  qed simp
  then show False using n assms by force
qed

lemma total_ge: "(\<And>f. 0 \<le> w f) \<Longrightarrow> f \<in> frames gs \<Longrightarrow> w f \<le> total w gs"
proof (induction gs)
  case (Cons fs gs)
  have "f \<in> set fs \<Longrightarrow> w f \<le> sum_list (map w fs)"
    using member_le_sum_list [of "w f" "map w fs"] sum_list_map_remove1 [of f fs w] sum_list_nonneg [of "map w (remove1 f fs)"] Cons.prems(1) by auto
  moreover have "0 \<le> sum_list (map w fs)" using Cons.prems(1) by (auto intro!: sum_list_nonneg)
  ultimately show ?case using Cons total_nonneg [of w gs] by (auto intro: order_trans)
qed simp

section \<open>What a frame counts for\<close>

fun holds_waking :: "notify_pc \<Rightarrow> bool" where
  "holds_waking N_Inc = True"
| "holds_waking (N_Wake k) = True"
| "holds_waking (N_Start t) = True"
| "holds_waking N_Borrow = True"
| "holds_waking (N_BWake c k cs ds) = True"
| "holds_waking (N_BStart d t ds) = True"
| "holds_waking N_DecServ = True"
| "holds_waking N_DecWake = True"
| "holds_waking _ = False"

definition holds_serving :: "notify_pc \<Rightarrow> bool" where
  "holds_serving pc \<longleftrightarrow> holds_waking pc \<and> pc \<noteq> N_Inc \<and> pc \<noteq> N_DecWake"

text \<open>A worker before it registers as suspended, before it leaves \<^verbatim>\<open>servingWorkers\<close>, and before it has seen \<^verbatim>\<open>starving\<close>.\<close>

fun early :: "'a work_pc \<Rightarrow> bool" where
  "early W_Dec = False" | "early W_Starv = False" | "early W_Clear = False" | "early W_Target = False" | "early (W_TLook pos) = False"
| "early W_Home = False" | "early (W_HLook pos) = False" | "early W_Closed = False" | "early W_And = False" | "early W_Recv = False"
| "early _ = True"

definition serves :: "'a work_pc \<Rightarrow> bool" where
  "serves pc \<longleftrightarrow> early pc \<or> pc = W_Dec"

fun waking_of :: "nat \<Rightarrow> 'a frame \<Rightarrow> int" where
  "waking_of s (Notify s' pc) = of_bool (s' = s \<and> holds_waking pc)"
| "waking_of s (Work h i g pc) = of_bool (g = s \<and> (pc = W_Reach \<or> pc = W_Respawn))"
| "waking_of s _ = 0"

fun serving_of :: "nat \<Rightarrow> 'a frame \<Rightarrow> int" where
  "serving_of s (Notify s' pc) = of_bool (s' = s \<and> holds_serving pc)"
| "serving_of s (Work h i g pc) = of_bool (g = s \<and> serves pc)"
| "serving_of s _ = 0"

text \<open>Workers, those that are not yet suspended, and the goroutines about to wake one.\<close>

fun worker_of :: "nat \<Rightarrow> nat \<Rightarrow> 'a frame \<Rightarrow> int" where
  "worker_of h i (Work h' i' g pc) = of_bool (h' = h \<and> i' = i)"
| "worker_of h i _ = 0"

fun early_of :: "nat \<Rightarrow> nat \<Rightarrow> 'a frame \<Rightarrow> int" where
  "early_of h i (Work h' i' g pc) = of_bool (h' = h \<and> i' = i \<and> early pc)"
| "early_of h i _ = 0"

fun sending_of :: "nat \<Rightarrow> nat \<Rightarrow> 'a frame \<Rightarrow> int" where
  "sending_of h i (Notify s (N_Wake k)) = of_bool (s = h \<and> k = K_Send i)"
| "sending_of h i (Notify s (N_BWake c k cs ds)) = of_bool (c = h \<and> k = K_Send i)"
| "sending_of h i (Closing (C_Wake s k)) = of_bool (s = h \<and> k = K_Send i)"
| "sending_of h i _ = 0"

text \<open>The messages to a worker and those that name a shard.\<close>

definition sent_to :: "nat \<Rightarrow> nat \<Rightarrow> 'a wpool \<Rightarrow> int" where
  "sent_to h i p = sum_list (map (\<lambda>m. of_bool (fst m = h \<and> fst (snd m) = i)) (sent p))"

definition sent_for :: "nat \<Rightarrow> 'a wpool \<Rightarrow> int" where
  "sent_for s p = sum_list (map (\<lambda>m. of_bool (snd (snd m) = Some s)) (sent p))"

definition idle :: "nat \<Rightarrow> nat \<Rightarrow> 'a wpool \<Rightarrow> bool" where
  "idle h i p \<longleftrightarrow> bit (idleWorkers (shards p h) (i div 64)) (i mod 64)"


section \<open>What waking and starting leave alone\<close>

lemma on_shard_simps [simp]:
  "shards (on_shard s f p) s' = (if s' = s then f (shards p s) else shards p s')" "sent (on_shard s f p) = sent p"
  "closed (on_shard s f p) = closed p" "starving (on_shard s f p) = starving p" "monitoring (on_shard s f p) = monitoring p"
  "nshards (on_shard s f p) = nshards p" "maxWorkers (on_shard s f p) = maxWorkers p" "submitted (on_shard s f p) = submitted p"
  "ran (on_shard s f p) = ran p" "helper_exited (on_shard s f p) = helper_exited p"
  by (simp_all add: on_shard_def)

definition same_pool :: "'a wpool \<Rightarrow> 'a wpool \<Rightarrow> bool" where
  "same_pool p p' \<longleftrightarrow> nshards p' = nshards p \<and> maxWorkers p' = maxWorkers p \<and> closed p' = closed p \<and> starving p' = starving p \<and>
     submitted p' = submitted p \<and> ran p' = ran p \<and> helper_exited p' = helper_exited p"

definition same_queue :: "'a wshard \<Rightarrow> 'a wshard \<Rightarrow> bool" where
  "same_queue a b \<longleftrightarrow> q_tasks b = q_tasks a \<and> q_head b = q_head a"

definition same_counts :: "'a wshard \<Rightarrow> 'a wshard \<Rightarrow> bool" where
  "same_counts a b \<longleftrightarrow> wakingWorkers b = wakingWorkers a \<and> servingWorkers b = servingWorkers a \<and> servingLimit b = servingLimit a"

lemma wakeIdle_kept:
  assumes "wakeIdle s tg k p = Some (p', r)"
  shows "same_pool p p'" "same_queue (shards p s') (shards p' s')" "same_counts (shards p s') (shards p' s')"
    "liveWorkers (shards p' s') = liveWorkers (shards p s')" "r \<noteq> Inr True \<Longrightarrow> sent p' = sent p"
    "r = Inr True \<Longrightarrow> \<exists>i. k = K_Send i \<and> sent p' = sent p @ [(s, i, tg)] \<and> (\<forall>h. shards p' h = shards p h)"
  using assms by (cases k; auto simp: Let_def same_pool_def same_queue_def same_counts_def split: if_splits)+

lemma start_kept:
  assumes "start s t p = (p', r)"
  shows "same_pool p p'" "same_queue (shards p s') (shards p' s')" "same_counts (shards p s') (shards p' s')"
    "idleWorkers (shards p' s') = idleWorkers (shards p s')" "sent p' = sent p"
    "r = Inr (Some i) \<Longrightarrow> i = liveWorkers (shards p s) \<and> liveWorkers (shards p' s') = liveWorkers (shards p s') + (if s' = s then 1 else 0)"
    "\<And>j. r = Inr None \<or> r = Inl j \<Longrightarrow> p' = p"
    "r = Inr None \<Longrightarrow> maxWorkers p \<le> liveWorkers (shards p s)"
  using assms by (cases t; auto simp: Let_def same_pool_def same_queue_def same_counts_def split: if_splits)+

lemma sent_for_simps:
  "sent_for s (p\<lparr>sent := sent p @ [m]\<rparr>) = sent_for s p + of_bool (snd (snd m) = Some s)"
  "sent p' = sent p \<Longrightarrow> sent_for s p' = sent_for s p"
  "m \<in> set (sent p) \<Longrightarrow> sent_for s (p\<lparr>sent := remove1 m (sent p)\<rparr>) = sent_for s p - of_bool (snd (snd m) = Some s)"
  by (simp_all add: sent_for_def sum_list_map_remove1)

lemma sent_to_simps:
  "sent_to h i (p\<lparr>sent := sent p @ [m]\<rparr>) = sent_to h i p + of_bool (fst m = h \<and> fst (snd m) = i)"
  "sent p' = sent p \<Longrightarrow> sent_to h i p' = sent_to h i p"
  "m \<in> set (sent p) \<Longrightarrow> sent_to h i (p\<lparr>sent := remove1 m (sent p)\<rparr>) = sent_to h i p - of_bool (fst m = h \<and> fst (snd m) = i)"
  by (simp_all add: sent_to_def sum_list_map_remove1)

lemma recv_step:
  assumes "work ch h i g W_Recv p = Some (p', new, started)"
  obtains to where "(h, i, to) \<in> set (sent p)" "p' = p\<lparr>sent := remove1 (h, i, to) (sent p)\<rparr>"
    "new = (case to of None \<Rightarrow> [] | Some g' \<Rightarrow> [Work h i g' W_Reach])" "started = []"
proof -
  obtain m ms where m: "filter (\<lambda>m. fst m = h \<and> fst (snd m) = i) (sent p) = m # ms" using assms by (cases "filter (\<lambda>m. fst m = h \<and> fst (snd m) = i) (sent p)") auto
  then have "m \<in> set (sent p)" "fst m = h" "fst (snd m) = i" by (auto simp: filter_eq_Cons_iff)
  moreover have "m = (fst m, fst (snd m), snd (snd m))" by simp
  ultimately show ?thesis using assms m that [of "snd (snd m)"] by auto
qed

lemma pop_task_kept: "pop_task sh = (r, sh') \<Longrightarrow> same_counts sh sh' \<and> liveWorkers sh' = liveWorkers sh \<and> idleWorkers sh' = idleWorkers sh \<and> q_tasks sh' = q_tasks sh"
  by (auto simp: pop_task_def same_counts_def split: if_splits)

section \<open>Counting\<close>

text \<open>A step moves what the counters of a shard count, from frame to frame and between frames and messages.\<close>

definition balanced :: "nat \<Rightarrow> 'a frame \<Rightarrow> 'a wpool \<Rightarrow> 'a outcome \<Rightarrow> bool" where
  "balanced s f p r \<longleftrightarrow> (let (p', new, started) = r in
     wakingWorkers (shards p' s) - sent_for s p' - sum_list (map (waking_of s) new) - total (waking_of s) started =
       wakingWorkers (shards p s) - sent_for s p - waking_of s f \<and>
     servingWorkers (shards p' s) - sent_for s p' - sum_list (map (serving_of s) new) - total (serving_of s) started =
       servingWorkers (shards p s) - sent_for s p - serving_of s f)"

lemmas balance_simps = balanced_def Let_def same_counts_def sent_for_def holds_serving_def serves_def

lemma balanced_notify:
  assumes "notify ch n pc p = Some (p', new, started)"
  shows "balanced s (Notify n pc) p (p', new, started)"
proof (cases pc)
  case (N_Wake k)
  then obtain r where r: "wakeIdle n (Some n) k p = Some (p', r)" using assms by (auto split: option.splits sum.splits bool.splits)
  note kept = wakeIdle_kept(3) [OF r, of s] wakeIdle_kept(5,6) [OF r]
  show ?thesis using assms N_Wake r kept by (cases r; cases "r = Inr True") (auto simp: balance_simps split: bool.splits)
next
  case (N_BWake c k cs ds)
  then obtain r where r: "wakeIdle c (Some n) k p = Some (p', r)" using assms by (auto split: option.splits sum.splits bool.splits)
  note kept = wakeIdle_kept(3) [OF r, of s] wakeIdle_kept(5,6) [OF r]
  show ?thesis using assms N_BWake r kept
    by (cases r; cases "r = Inr True") (auto simp: balance_simps borrow_wake_def borrow_start_def split: bool.splits list.splits)
next
  case (N_Start t)
  then obtain r where r: "start n t p = (p', r)" using assms by (cases "start n t p") (auto split: sum.splits option.splits)
  show ?thesis using assms N_Start r start_kept(3) [OF r, of s] start_kept(5) [OF r]
    by (cases r) (auto simp: balance_simps split: option.splits)
next
  case (N_BStart d t ds)
  then obtain r where r: "start d t p = (p', r)" using assms by (cases "start d t p") (auto split: sum.splits option.splits)
  show ?thesis using assms N_BStart r start_kept(3) [OF r, of s] start_kept(5) [OF r]
    by (cases r) (auto simp: balance_simps borrow_start_def split: option.splits list.splits)
next
  case N_Pop
  then show ?thesis using assms
    by (auto simp: balance_simps split: option.splits prod.splits dest!: pop_task_kept)
qed (use assms in \<open>auto simp: balance_simps idle_next_def borrow_wake_def borrow_start_def split: if_splits list.splits\<close>)

lemma balanced_work:
  assumes "work ch h i g pc p = Some (p', new, started)"
  shows "balanced s (Work h i g pc) p (p', new, started)"
proof (cases pc)
  case W_Recv
  then obtain to where "(h, i, to) \<in> set (sent p)" "p' = p\<lparr>sent := remove1 (h, i, to) (sent p)\<rparr>"
    "new = (case to of None \<Rightarrow> [] | Some g' \<Rightarrow> [Work h i g' W_Reach])" "started = []" using recv_step assms by metis
  then show ?thesis using W_Recv by (auto simp: balance_simps sum_list_map_remove1 split: option.splits)
next
  case W_Pop
  then show ?thesis using assms by (auto simp: balance_simps split: option.splits prod.splits dest!: pop_task_kept)
qed (use assms in \<open>auto simp: balance_simps split: if_splits\<close>)

lemma balanced_step:
  assumes "frame_step ch f p = Some (p', new, started)"
  shows "balanced s f p (p', new, started)"
proof (cases f)
  case (Notify n pc)
  then show ?thesis using assms balanced_notify by simp
next
  case (Work h i g pc)
  then show ?thesis using assms balanced_work by simp
next
  case (Submit n pc)
  then show ?thesis using assms by (cases pc) (auto simp: balance_simps split: if_splits)
next
  case (Help n pc)
  then show ?thesis using assms by (cases pc) (auto simp: balance_simps split: if_splits option.splits prod.splits dest!: pop_task_kept)
next
  case (Closing pc)
  show ?thesis
  proof (cases pc)
    case (C_Wake n k)
    then obtain r where r: "wakeIdle n None k p = Some (p', r)" using assms Closing by (auto split: option.splits sum.splits bool.splits)
    note kept = wakeIdle_kept(3) [OF r, of s] wakeIdle_kept(5,6) [OF r]
    show ?thesis using assms Closing C_Wake r kept by (cases r; cases "r = Inr True") (auto simp: balance_simps split: bool.splits if_splits)
  qed (use assms Closing in \<open>auto simp: balance_simps\<close>)
next
  case (Monitor hs pc)
  then show ?thesis using assms by (cases pc) (auto simp: balance_simps round_next_def split: if_splits option.splits prod.splits)
qed (use assms in \<open>auto simp: balance_simps split: if_splits\<close>)


section \<open>Where a worker is\<close>

lemma lowest_bit: "n \<le> 64 \<Longrightarrow> bit w k \<Longrightarrow> 64 - n \<le> k \<Longrightarrow> k < 64 \<Longrightarrow> lowest_bit n w < 64 \<and> bit w (lowest_bit n w)"
proof (induction n)
  case (Suc n)
  then show ?case by (cases "k = 63 - n") auto
qed simp

lemma TrailingZeros64: "w \<noteq> 0 \<Longrightarrow> TrailingZeros64 w < 64 \<and> bit w (TrailingZeros64 w)"
proof -
  assume "w \<noteq> 0"
  then obtain k where k: "bit w k" by (metis bit_eqI bit_0_eq bot_apply bot_bool_def)
  then have "k < 64" using bit_imp_le_length [of w k] by simp
  then show ?thesis using lowest_bit [of 64 w k] k by (simp add: TrailingZeros64_def)
qed

lemma idle_unset:
  assumes "b < 64" and "idleWorkers (shards p s) w = x"
  shows "idle h i (on_shard s (\<lambda>sh. sh\<lparr>idleWorkers := (idleWorkers sh)(w := unset_bit b x)\<rparr>) p) \<longleftrightarrow> idle h i p \<and> \<not> (h = s \<and> i = w * 64 + b)"
proof -
  have "i = w * 64 + b \<longleftrightarrow> i div 64 = w \<and> i mod 64 = b" using assms(1) by auto
  then show ?thesis using assms(2) by (auto simp: idle_def bit_unset_bit_iff)
qed

lemma idle_set:
  "idle h i (on_shard s (\<lambda>sh. sh\<lparr>idleWorkers := (idleWorkers sh)(j div 64 := set_bit (j mod 64) (idleWorkers sh (j div 64)))\<rparr>) p)
    \<longleftrightarrow> idle h i p \<or> h = s \<and> i = j"
proof -
  have "i div 64 = j div 64 \<and> i mod 64 = j mod 64 \<longleftrightarrow> i = j" by (metis div_mult_mod_eq)
  moreover have "i mod 64 < 64" by simp
  ultimately show ?thesis by (auto simp: idle_def bit_set_bit_iff)
qed

lemma idle_cong: "idleWorkers (shards p' h) = idleWorkers (shards p h) \<Longrightarrow> idle h i p' = idle h i p"
  by (simp add: idle_def)

definition place :: "nat \<Rightarrow> nat \<Rightarrow> 'a wpool \<Rightarrow> int" where
  "place h i p = of_bool (idle h i p) + sent_to h i p - of_bool (i < liveWorkers (shards p h))"

lemma place_cong: "idleWorkers (shards p' h) = idleWorkers (shards p h) \<Longrightarrow> liveWorkers (shards p' h) = liveWorkers (shards p h) \<Longrightarrow>
    sent p' = sent p \<Longrightarrow> place h i p' = place h i p"
  by (simp add: place_def idle_def sent_to_def)

lemma place_same [simp]:
  "idleWorkers (f (shards p s)) = idleWorkers (shards p s) \<Longrightarrow> liveWorkers (f (shards p s)) = liveWorkers (shards p s) \<Longrightarrow> place h i (on_shard s f p) = place h i p"
  "place h i (p\<lparr>ran := x\<rparr>) = place h i p" "place h i (p\<lparr>monitoring := y\<rparr>) = place h i p" "place h i (p\<lparr>starving := y\<rparr>) = place h i p"
  "place h i (p\<lparr>ran := x, helper_exited := y\<rparr>) = place h i p" "place h i (p\<lparr>closed := y\<rparr>) = place h i p"
  by (simp_all add: place_def idle_def sent_to_def)

text \<open>The part of waking: a bit is cleared, then the message is sent.\<close>

definition sending :: "nat \<Rightarrow> nat \<Rightarrow> nat \<Rightarrow> wake_pc \<Rightarrow> int" where
  "sending h i s k = of_bool (s = h \<and> k = K_Send i)"

fun wake_ok :: "wake_pc \<Rightarrow> bool" where
  "wake_ok (K_Cas w n x) \<longleftrightarrow> x \<noteq> 0"
| "wake_ok _ \<longleftrightarrow> True"

lemma place_wakeIdle:
  assumes "wakeIdle s tg k p = Some (p', r)" and "wake_ok k"
  shows "place h i p' + (case r of Inl k' \<Rightarrow> sending h i s k' | Inr b \<Rightarrow> 0) = place h i p + sending h i s k"
    and "r = Inl k' \<Longrightarrow> wake_ok k'"
proof -
  show "place h i p' + (case r of Inl k' \<Rightarrow> sending h i s k' | Inr b \<Rightarrow> 0) = place h i p + sending h i s k"
  proof (cases k)
    case (K_Cas w n x)
    note tz = TrailingZeros64 [of x]
    show ?thesis
    proof (cases "idleWorkers (shards p s) w = x")
      case True
      let ?j = "w * 64 + TrailingZeros64 x"
      have p': "p' = on_shard s (\<lambda>sh. sh\<lparr>idleWorkers := (idleWorkers sh)(w := unset_bit (TrailingZeros64 x) x)\<rparr>) p" and r: "r = Inl (K_Send ?j)"
        using assms K_Cas True by auto
      have b: "TrailingZeros64 x < 64" "bit x (TrailingZeros64 x)" using tz assms(2) K_Cas by auto
      have "idle s ?j p" using b True by (auto simp: idle_def)
      moreover have "idle h i p' \<longleftrightarrow> idle h i p \<and> \<not> (h = s \<and> i = ?j)" unfolding p' by (rule idle_unset [OF b(1) True])
      moreover have "sent_to h i p' = sent_to h i p" "liveWorkers (shards p' h) = liveWorkers (shards p h)" by (simp_all add: p' sent_to_def)
      ultimately show ?thesis using r K_Cas by (cases "h = s \<and> i = ?j") (auto simp: place_def sending_def)
    qed (use assms K_Cas in \<open>auto simp: sending_def\<close>)
  next
    case (K_Send j)
    then have "p' = p\<lparr>sent := sent p @ [(s, j, tg)]\<rparr>" "r = Inr True" using assms by (auto split: if_splits)
    moreover have "idle h i (p\<lparr>sent := sent p @ [(s, j, tg)]\<rparr>) = idle h i p" by (simp add: idle_def)
    ultimately show ?thesis using K_Send by (simp add: place_def sending_def sent_to_simps(1))
  qed (use assms in \<open>auto simp: sending_def Let_def split: if_splits\<close>)
  show "r = Inl k' \<Longrightarrow> wake_ok k'" using assms by (cases k) (auto simp: Let_def split: if_splits)
qed


section \<open>Well-formed frames\<close>

fun notify_ok :: "'a wpool \<Rightarrow> nat \<Rightarrow> notify_pc \<Rightarrow> bool" where
  "notify_ok p s (N_Wake k) \<longleftrightarrow> wake_ok k"
| "notify_ok p s (N_BWake c k cs ds) \<longleftrightarrow> wake_ok k \<and> c < nshards p \<and> set cs \<subseteq> {..<nshards p} \<and> set ds \<subseteq> {..<nshards p} \<and> 0 < liveWorkers (shards p s)"
| "notify_ok p s (N_BStart d t ds) \<longleftrightarrow> d < nshards p \<and> set ds \<subseteq> {..<nshards p} \<and> 0 < liveWorkers (shards p s)"
| "notify_ok p s N_Borrow \<longleftrightarrow> 0 < liveWorkers (shards p s)"
| "notify_ok p s N_DecServ \<longleftrightarrow> 0 < liveWorkers (shards p s)"
| "notify_ok p s N_DecWake \<longleftrightarrow> 0 < liveWorkers (shards p s)"
| "notify_ok p s N_Closed \<longleftrightarrow> 0 < liveWorkers (shards p s)"
| "notify_ok p s N_Store \<longleftrightarrow> 0 < liveWorkers (shards p s)"
| "notify_ok p s N_Pop \<longleftrightarrow> closed p"
| "notify_ok p s (N_IdleLive i) \<longleftrightarrow> i < nshards p"
| "notify_ok p s (N_IdleWord i w n) \<longleftrightarrow> i < nshards p"
| "notify_ok p s _ \<longleftrightarrow> True"

fun monitor_ok :: "nat \<Rightarrow> u64 list \<Rightarrow> monitor_pc \<Rightarrow> bool" where
  "monitor_ok n hs M_Heads \<longleftrightarrow> length hs < n"
| "monitor_ok n hs (B_Head r) \<longleftrightarrow> fst r < n"
| "monitor_ok n hs (B_Serv r t h) \<longleftrightarrow> fst r < n"
| "monitor_ok n hs (B_Has r t h v) \<longleftrightarrow> fst r < n"
| "monitor_ok n hs (B_Look r t h v pos) \<longleftrightarrow> fst r < n"
| "monitor_ok n hs (B_Lim r t h v) \<longleftrightarrow> fst r < n"
| "monitor_ok n hs (B_Tail r h v) \<longleftrightarrow> fst r < n \<and> 2 \<le> v"
| "monitor_ok n hs (B_Store r l) \<longleftrightarrow> fst r < n \<and> 2 \<le> l"
| "monitor_ok n hs (M_BHas i) \<longleftrightarrow> i < n"
| "monitor_ok n hs (M_BLook i pos) \<longleftrightarrow> i < n"
| "monitor_ok n hs (M_BServ i) \<longleftrightarrow> i < n"
| "monitor_ok n hs (M_BLim i v) \<longleftrightarrow> i < n"
| "monitor_ok n hs _ \<longleftrightarrow> True"

fun frame_ok :: "'a wpool \<Rightarrow> 'a frame \<Rightarrow> bool" where
  "frame_ok p (Notify s pc) \<longleftrightarrow> s < nshards p \<and> notify_ok p s pc"
| "frame_ok p (NotifyAll i) \<longleftrightarrow> True"
| "frame_ok p (Work h i g pc) \<longleftrightarrow> h < nshards p \<and> g < nshards p \<and> i < liveWorkers (shards p h) \<and> (pc = W_And \<longrightarrow> closed p)"
| "frame_ok p (Submit s pc) \<longleftrightarrow> s < nshards p \<and> (case pc of S_Publish pos \<Rightarrow> pos < length (q_tasks (shards p s)) | _ \<Rightarrow> True)"
| "frame_ok p (Help s pc) \<longleftrightarrow> s < nshards p"
| "frame_ok p (Closing pc) \<longleftrightarrow> (case pc of C_Wake s k \<Rightarrow> closed p \<and> wake_ok k | _ \<Rightarrow> True)"
| "frame_ok p (Monitor hs pc) \<longleftrightarrow> monitor_ok (nshards p) hs pc"

definition pool_ok :: "'a wpool \<Rightarrow> bool" where
  "pool_ok p \<longleftrightarrow> 0 < nshards p \<and> 0 < maxWorkers p \<and> (\<forall>s. 2 \<le> servingLimit (shards p s)) \<and>
     (\<forall>(h, i, to) \<in> set (sent p). case to of None \<Rightarrow> closed p | Some g \<Rightarrow> g < nshards p)"

definition grows :: "'a wpool \<Rightarrow> 'a wpool \<Rightarrow> bool" where
  "grows p p' \<longleftrightarrow> nshards p' = nshards p \<and> maxWorkers p' = maxWorkers p \<and> (closed p \<longrightarrow> closed p') \<and> (helper_exited p \<longrightarrow> helper_exited p') \<and>
     (\<forall>s. liveWorkers (shards p s) \<le> liveWorkers (shards p' s) \<and> length (q_tasks (shards p s)) \<le> length (q_tasks (shards p' s)) \<and>
       q_head (shards p s) \<le> q_head (shards p' s))"

lemma grows_refl [simp]: "grows p p"
  by (simp add: grows_def)

lemma wakeIdle_grows: "wakeIdle s tg k p = Some (p', r) \<Longrightarrow> grows p p'"
  using wakeIdle_kept(1,2,4) [of s tg k p p' r] by (simp add: grows_def same_pool_def same_queue_def)

lemma start_grows: "start s t p = (p', r) \<Longrightarrow> grows p p'"
  by (cases t) (auto simp: grows_def Let_def split: if_splits)

lemma pop_task_cases: "pop_task sh = (r, sh') \<Longrightarrow>
    (r = None \<and> sh' = sh \<and> \<not> head_written sh) \<or>
    (r = Some (fst (q_tasks sh ! q_head sh)) \<and> sh' = sh\<lparr>q_head := q_head sh + 1\<rparr> \<and> head_written sh)"
  by (auto simp: pop_task_def split: if_splits)

lemma notify_grows: "notify ch s pc p = Some (p', new, started) \<Longrightarrow> grows p p'"
proof (cases pc)
  case (N_Wake k)
  then show "notify ch s pc p = Some (p', new, started) \<Longrightarrow> grows p p'"
    by (auto split: option.splits sum.splits bool.splits dest!: wakeIdle_grows)
next
  case (N_BWake c k cs ds)
  then show "notify ch s pc p = Some (p', new, started) \<Longrightarrow> grows p p'"
    by (auto split: option.splits sum.splits bool.splits dest!: wakeIdle_grows)
next
  case (N_Start t)
  then show "notify ch s pc p = Some (p', new, started) \<Longrightarrow> grows p p'"
    by (auto split: prod.splits option.splits sum.splits dest!: start_grows)
next
  case (N_BStart d t ds)
  then show "notify ch s pc p = Some (p', new, started) \<Longrightarrow> grows p p'"
    by (auto split: prod.splits option.splits sum.splits dest!: start_grows)
next
  case N_Pop
  then show "notify ch s pc p = Some (p', new, started) \<Longrightarrow> grows p p'"
    by (auto split: prod.splits option.splits simp: grows_def dest!: pop_task_cases)
qed (auto simp: grows_def Let_def split: if_splits)

lemma step_grows:
  assumes "frame_step ch f p = Some (p', new, started)"
  shows "grows p p'"
proof (cases f)
  case (Notify s pc)
  then show ?thesis using assms notify_grows by simp
next
  case (Work h i g pc)
  then show ?thesis using assms
    by (cases pc) (auto simp: grows_def Let_def split: prod.splits option.splits if_splits list.splits dest!: pop_task_cases)
next
  case (Submit s pc)
  then show ?thesis using assms by (cases pc) (auto simp: grows_def split: if_splits)
next
  case (Help s pc)
  then show ?thesis using assms by (cases pc) (auto simp: grows_def split: prod.splits option.splits if_splits dest!: pop_task_cases)
next
  case (Closing pc)
  then show ?thesis using assms
    by (cases pc) (auto simp: grows_def split: option.splits sum.splits bool.splits dest: wakeIdle_grows [unfolded grows_def])
next
  case (Monitor hs pc)
  then show ?thesis using assms by (cases pc) (auto simp: grows_def Let_def split: prod.splits option.splits if_splits)
qed (use assms in auto)

lemma grows_facts:
  assumes "grows p p'"
  shows "nshards p' = nshards p" "maxWorkers p' = maxWorkers p" "closed p \<Longrightarrow> closed p'" "helper_exited p \<Longrightarrow> helper_exited p'"
    "i < liveWorkers (shards p s) \<Longrightarrow> i < liveWorkers (shards p' s)" "pos < length (q_tasks (shards p s)) \<Longrightarrow> pos < length (q_tasks (shards p' s))"
  using assms by (auto simp: grows_def intro: less_le_trans)

lemma frame_ok_grows:
  assumes g: "grows p p'" and "frame_ok p f"
  shows "frame_ok p' f"
proof (cases f)
  case (Notify s pc)
  then show ?thesis using assms(2) grows_facts(1) [OF g] by (cases pc) (auto intro: grows_facts [OF g])
next
  case (Work h i g' pc)
  then show ?thesis using assms(2) grows_facts(1) [OF g] by (auto intro: grows_facts [OF g])
next
  case (Submit s pc)
  then show ?thesis using assms(2) grows_facts(1) [OF g] by (auto intro: grows_facts [OF g] split: submit_pc.splits)
qed (use assms(2) grows_facts(1) [OF g] in \<open>auto intro: grows_facts [OF g] split: close_pc.splits\<close>)

text \<open>The frames of a step are well-formed.\<close>

lemma lenders_bound: "0 < n \<Longrightarrow> set (lenders n a b) \<subseteq> {..<n}"
  by (auto simp: lenders_def)

lemma notify_frames_ok:
  assumes st: "notify ch s pc p = Some (p', new, started)" and ok: "frame_ok p (Notify s pc)" and po: "pool_ok p"
  shows "\<forall>f \<in> set new \<union> frames started. frame_ok p' f"
proof (cases pc)
  case (N_Wake k)
  then obtain r where r: "wakeIdle s (Some s) k p = Some (p', r)" using st by (auto split: option.splits sum.splits bool.splits)
  show ?thesis using st ok N_Wake r place_wakeIdle(2) [OF r] grows_facts(1) [OF wakeIdle_grows [OF r]] by (auto split: sum.splits bool.splits)
next
  case (N_BWake c k cs ds)
  then obtain r where r: "wakeIdle c (Some s) k p = Some (p', r)" using st by (auto split: option.splits sum.splits bool.splits)
  show ?thesis using st ok N_BWake r place_wakeIdle(2) [OF r] grows_facts(1) [OF wakeIdle_grows [OF r]] wakeIdle_kept(4) [OF r]
    by (auto simp: borrow_wake_def borrow_start_def split: sum.splits bool.splits list.splits)
next
  case (N_Start t)
  then obtain r where r: "start s t p = (p', r)" using st by (cases "start s t p") (auto split: sum.splits option.splits)
  have "0 < maxWorkers p" using po by (simp add: pool_ok_def)
  then show ?thesis using st ok N_Start r start_kept(6,7,8) [OF r] grows_facts(1) [OF start_grows [OF r]] 
    by (cases r) (auto split: sum.splits option.splits)
next
  case (N_BStart d t ds)
  then obtain r where r: "start d t p = (p', r)" using st by (cases "start d t p") (auto split: sum.splits option.splits)
  show ?thesis using st ok N_BStart r start_kept(6,7,8) [OF r] grows_facts(1) [OF start_grows [OF r]]
    by (cases r) (auto simp: borrow_start_def split: sum.splits option.splits list.splits)
next
  case N_Borrow
  define cs where "cs = lenders (nshards p) (random ch mod nshards p) s"
  have "set cs \<subseteq> {..<nshards p}" unfolding cs_def using ok by (intro lenders_bound) simp
  then show ?thesis using N_Borrow st ok by (cases cs) (auto simp: borrow_wake_def borrow_start_def Let_def cs_def [symmetric])
next
  case N_Pop
  then show ?thesis using st ok by (auto split: prod.splits option.splits)
qed (use st ok po in \<open>auto simp: idle_next_def Let_def pool_ok_def split: if_splits\<close>)


lemma step_frames_ok:
  assumes st: "frame_step ch f p = Some (p', new, started)" and ok: "frame_ok p f" and po: "pool_ok p"
  shows "\<forall>f \<in> set new \<union> frames started. frame_ok p' f"
proof (cases f)
  case (Notify s pc)
  then show ?thesis using st ok notify_frames_ok po by simp
next
  case (Work h i g pc)
  show ?thesis
  proof (cases pc)
    case W_Recv
    then obtain to where "(h, i, to) \<in> set (sent p)" "p' = p\<lparr>sent := remove1 (h, i, to) (sent p)\<rparr>"
      "new = (case to of None \<Rightarrow> [] | Some g' \<Rightarrow> [Work h i g' W_Reach])" "started = []" using recv_step st Work by (metis frame_step.simps(3))
    then show ?thesis using ok po Work by (auto simp: pool_ok_def split: option.splits)
  next
    case W_Pop
    then show ?thesis using st ok Work by (auto split: prod.splits option.splits dest!: pop_task_cases)
  qed (use st ok Work in \<open>auto simp: Let_def split: if_splits\<close>)
next
  case (Submit s pc)
  then show ?thesis using st ok by (cases pc) (auto split: if_splits)
next
  case (Help s pc)
  then show ?thesis using st ok by (cases pc) (auto split: prod.splits option.splits if_splits)
next
  case (Closing pc)
  show ?thesis
  proof (cases pc)
    case (C_Wake s k)
    then obtain r where r: "wakeIdle s None k p = Some (p', r)" using st Closing by (auto split: option.splits sum.splits bool.splits)
    show ?thesis using st ok Closing C_Wake r place_wakeIdle(2) [OF r] wakeIdle_kept(1) [OF r]
      by (auto simp: same_pool_def split: sum.splits bool.splits if_splits)
  qed (use st Closing in auto)
next
  case (Monitor hs pc)
  have "\<forall>s. 2 \<le> servingLimit (shards p s)" and n: "0 < nshards p" using po by (auto simp: pool_ok_def)
  then have lim: "servingLimit (shards p s) \<le> v \<Longrightarrow> 2 \<le> v" for v s by (meson order_trans)
  show ?thesis using st ok n Monitor
    by (cases pc) (auto simp: Let_def round_next_def not_less split: prod.splits option.splits if_splits intro: lim add_increasing2)
qed (use st in \<open>auto split: if_splits\<close>)

lemma pool_ok_same:
  assumes "pool_ok p" and "grows p p'" and "sent p' = sent p" and "\<forall>s. 2 \<le> servingLimit (shards p' s)"
  shows "pool_ok p'"
  using assms(1,3,4) grows_facts [OF assms(2)] unfolding pool_ok_def by (auto split: option.splits)


lemma wakeIdle_pool_ok:
  assumes "wakeIdle s tg k p = Some (p', r)" and "pool_ok p" and "case tg of None \<Rightarrow> closed p | Some g \<Rightarrow> g < nshards p"
  shows "pool_ok p'"
proof (cases "r = Inr True")
  case True
  then obtain i where "sent p' = sent p @ [(s, i, tg)]" "\<forall>h. shards p' h = shards p h" using wakeIdle_kept(6) [OF assms(1)] by blast
  then show ?thesis using assms(2,3) wakeIdle_kept(1) [OF assms(1)] by (auto simp: pool_ok_def same_pool_def split: option.splits)
next
  case False
  then have "sent p' = sent p" using wakeIdle_kept(5) [OF assms(1)] by simp
  moreover have "\<forall>h. servingLimit (shards p' h) = servingLimit (shards p h)" using wakeIdle_kept(3) [OF assms(1)] by (simp add: same_counts_def)
  ultimately show ?thesis using pool_ok_same [OF assms(2) wakeIdle_grows [OF assms(1)]] assms(2) by (simp add: pool_ok_def)
qed

lemma step_pool_ok:
  assumes st: "frame_step ch f p = Some (p', new, started)" and ok: "frame_ok p f" and po: "pool_ok p"
  shows "pool_ok p'"
proof -
  note g = step_grows [OF st]
  have l: "\<forall>s. 2 \<le> servingLimit (shards p s)" using po by (simp add: pool_ok_def)
  have soft: "2 \<le> softWorkers" by (simp add: softWorkers_def)
  show ?thesis
  proof (cases f)
    case (Notify s pc)
    show ?thesis
    proof (cases pc)
      case (N_Wake k)
      then show ?thesis using st ok po Notify by (auto split: option.splits sum.splits bool.splits dest!: wakeIdle_pool_ok)
    next
      case (N_BWake c k cs ds)
      then show ?thesis using st ok po Notify by (auto split: option.splits sum.splits bool.splits dest!: wakeIdle_pool_ok)
    next
      case (N_Start t)
      then obtain r where "start s t p = (p', r)" using st Notify by (cases "start s t p") (auto split: sum.splits option.splits)
      then show ?thesis using pool_ok_same [OF po g] start_kept(3,5) l unfolding same_counts_def by metis
    next
      case (N_BStart d t ds)
      then obtain r where "start d t p = (p', r)" using st Notify by (cases "start d t p") (auto split: sum.splits option.splits)
      then show ?thesis using pool_ok_same [OF po g] start_kept(3,5) l unfolding same_counts_def by metis
    qed (rule pool_ok_same [OF po g]; use st l Notify in \<open>auto simp: Let_def split: if_splits prod.splits option.splits dest!: pop_task_cases\<close>)+
  next
    case (Work h i g' pc)
    show ?thesis
    proof (cases pc)
      case W_Recv
      then obtain to where "p' = p\<lparr>sent := remove1 (h, i, to) (sent p)\<rparr>" using recv_step st Work by (metis frame_step.simps(3))
      then have "shards p' = shards p" "nshards p' = nshards p" "maxWorkers p' = maxWorkers p" "closed p' = closed p" "set (sent p') \<subseteq> set (sent p)"
        by (simp_all add: set_remove1_subset)
      then show ?thesis using po unfolding pool_ok_def by (simp only:) blast
    qed (rule pool_ok_same [OF po g]; use st l soft Work in \<open>auto simp: Let_def split: if_splits prod.splits option.splits dest!: pop_task_cases\<close>)+
  next
    case (Submit s pc)
    then show ?thesis using st l by (cases pc; intro pool_ok_same [OF po g]) (auto split: if_splits)
  next
    case (Help s pc)
    then show ?thesis using st l by (cases pc; intro pool_ok_same [OF po g]) (auto split: if_splits prod.splits option.splits dest!: pop_task_cases)
  next
    case (Closing pc)
    show ?thesis
    proof (cases pc)
      case C_Set
      then show ?thesis using st l Closing by (intro pool_ok_same [OF po g]) auto
    next
      case (C_Wake s k)
      then show ?thesis using st ok po Closing by (auto split: option.splits sum.splits bool.splits dest!: wakeIdle_pool_ok)
    qed
  next
    case (Monitor hs pc)
    then show ?thesis using st l ok by (cases pc; intro pool_ok_same [OF po g]) (auto simp: Let_def split: prod.splits option.splits if_splits)
  qed (use st po in auto)
qed


text \<open>A worker is in one place: suspended with its bit set, about to be woken, woken, or at work; and it is one goroutine.\<close>

definition under_way :: "nat \<Rightarrow> nat \<Rightarrow> 'a frame \<Rightarrow> int" where
  "under_way h i f = sending_of h i f + early_of h i f"

definition moved :: "nat \<Rightarrow> nat \<Rightarrow> 'a frame \<Rightarrow> 'a wpool \<Rightarrow> 'a outcome \<Rightarrow> bool" where
  "moved h i f p r \<longleftrightarrow> (let (p', new, started) = r in
     place h i p' + sum_list (map (under_way h i) new) + total (under_way h i) started = place h i p + under_way h i f \<and>
     sum_list (map (worker_of h i) new) + total (worker_of h i) started - of_bool (i < liveWorkers (shards p' h)) =
       worker_of h i f - of_bool (i < liveWorkers (shards p h)))"

lemma moved_wakeIdle:
  assumes r: "wakeIdle s tg k p = Some (p', r)" and "wake_ok k"
    and "under_way h i f = sending h i s k" "worker_of h i f = 0"
    and "\<forall>g \<in> set new. under_way h i g = (case r of Inl k' \<Rightarrow> sending h i s k' | Inr b \<Rightarrow> 0) \<and> worker_of h i g = 0" "length new \<le> 1" "new = [] \<Longrightarrow> \<exists>b. r = Inr b"
  shows "moved h i f p (p', new, [])"
proof -
  have "sum_list (map (under_way h i) new) = (case r of Inl k' \<Rightarrow> sending h i s k' | Inr b \<Rightarrow> 0)" "sum_list (map (worker_of h i) new) = 0"
    using assms(5-7) by (cases new; auto)+
  then show ?thesis using place_wakeIdle(1) [OF r assms(2), of h i] assms(3,4) wakeIdle_kept(4) [OF r, of h] by (simp add: moved_def)
qed

lemma place_start:
  assumes "start s t p = (p', r)"
  shows "place h i p' = place h i p - of_bool (h = s \<and> r = Inr (Some i))"
    and "of_bool (i < liveWorkers (shards p' h)) = of_bool (i < liveWorkers (shards p h)) + (of_bool (h = s \<and> r = Inr (Some i)) :: int)"
proof -
  have "idle h i p' = idle h i p" "sent_to h i p' = sent_to h i p"
    using start_kept(4,5) [OF assms] by (simp_all add: idle_def sent_to_def)
  moreover show "of_bool (i < liveWorkers (shards p' h)) = of_bool (i < liveWorkers (shards p h)) + (of_bool (h = s \<and> r = Inr (Some i)) :: int)"
    using assms by (cases t) (auto simp: Let_def split: if_splits)
  ultimately show "place h i p' = place h i p - of_bool (h = s \<and> r = Inr (Some i))" by (simp add: place_def)
qed

lemmas moved_simps = moved_def under_way_def sending_def Let_def

lemma moved_notify:
  assumes st: "notify ch s pc p = Some (p', new, started)" and ok: "frame_ok p (Notify s pc)"
  shows "moved h i (Notify s pc) p (p', new, started)"
proof (cases pc)
  case (N_Wake k)
  then obtain r where r: "wakeIdle s (Some s) k p = Some (p', r)" using st by (auto split: option.splits sum.splits bool.splits)
  then show ?thesis using st ok N_Wake
    by (auto simp: under_way_def sending_def split: sum.splits bool.splits intro!: moved_wakeIdle [OF r])
next
  case (N_BWake c k cs ds)
  then obtain r where r: "wakeIdle c (Some s) k p = Some (p', r)" using st by (auto split: option.splits sum.splits bool.splits)
  then show ?thesis using st ok N_BWake
    by (auto simp: under_way_def sending_def borrow_wake_def borrow_start_def split: sum.splits bool.splits list.splits intro!: moved_wakeIdle [OF r])
next
  case (N_Start t)
  then obtain r where r: "start s t p = (p', r)" using st by (cases "start s t p") (auto split: sum.splits option.splits)
  then show ?thesis using st N_Start place_start(1) [OF r, of h i] place_start(2) [OF r, of i h] by (auto simp: moved_simps split: sum.splits option.splits)
next
  case (N_BStart d t ds)
  then obtain r where r: "start d t p = (p', r)" using st by (cases "start d t p") (auto split: sum.splits option.splits)
  then show ?thesis using st N_BStart place_start(1) [OF r, of h i] place_start(2) [OF r, of i h]
    by (auto simp: moved_simps borrow_start_def split: sum.splits option.splits list.splits)
next
  case N_Pop
  then show ?thesis using st by (auto simp: moved_simps split: if_splits prod.splits option.splits dest!: pop_task_cases)
qed (use st in \<open>auto simp: moved_simps idle_next_def borrow_wake_def borrow_start_def split: if_splits list.splits\<close>)

lemma moved_work:
  assumes st: "work ch h' i' g pc p = Some (p', new, started)" and ok: "frame_ok p (Work h' i' g pc)" and po: "pool_ok p" and op: "\<not> closed p"
    and or: "pc = W_Or \<Longrightarrow> \<not> idle h' i' p"
  shows "moved h i (Work h' i' g pc) p (p', new, started)"
proof (cases pc)
  case W_Or
  have "idle h i p' \<longleftrightarrow> idle h i p \<or> h = h' \<and> i = i'" using st W_Or idle_set [of h i h' i' p] by auto
  moreover have "sent_to h i p' = sent_to h i p" "liveWorkers (shards p' h) = liveWorkers (shards p h)" using st W_Or by (auto simp: sent_to_def)
  ultimately show ?thesis using st W_Or or by (auto simp: moved_simps place_def)
next
  case W_Recv
  then obtain to where to: "(h', i', to) \<in> set (sent p)" "p' = p\<lparr>sent := remove1 (h', i', to) (sent p)\<rparr>"
      "new = (case to of None \<Rightarrow> [] | Some g' \<Rightarrow> [Work h' i' g' W_Reach])" "started = []" using recv_step st by metis
  then obtain g' where "to = Some g'" using po op by (cases to) (auto simp: pool_ok_def)
  moreover have "idle h i p' = idle h i p" using to by (simp add: idle_def)
  ultimately show ?thesis using to W_Recv sent_to_simps(3) [OF to(1), of h i] by (auto simp: moved_simps place_def)
next
  case W_And
  then show ?thesis using ok op by simp
next
  case W_Pop
  then show ?thesis using st by (auto simp: moved_simps split: if_splits prod.splits option.splits dest!: pop_task_cases)
qed (use st in \<open>auto simp: moved_simps split: if_splits\<close>)

lemma moved_step:
  assumes st: "frame_step ch f p = Some (p', new, started)" and ok: "frame_ok p f" and po: "pool_ok p" and op: "\<not> closed p"
    and or: "\<And>h i g. f = Work h i g W_Or \<Longrightarrow> \<not> idle h i p"
  shows "moved h i f p (p', new, started)"
proof (cases f)
  case (Notify s pc)
  then show ?thesis using st ok moved_notify by simp
next
  case (Work h' i' g pc)
  then show ?thesis using st ok or moved_work [OF _ _ po op] by simp
next
  case (Submit s pc)
  then show ?thesis using st by (cases pc) (auto simp: moved_simps split: if_splits)
next
  case (Help s pc)
  then show ?thesis using st
    by (cases pc) (auto simp: moved_simps split: if_splits prod.splits option.splits dest!: pop_task_cases)
next
  case (Closing pc)
  then show ?thesis using st ok op by (cases pc) (auto simp: moved_simps)
next
  case (Monitor hs pc)
  then show ?thesis using st
    by (cases pc) (auto simp: moved_simps round_next_def split: if_splits prod.splits option.splits)
qed (use st in \<open>auto simp: moved_simps\<close>)

end
