(* ===== verification/TaskWake.thy ===== *)
theory TaskWake
  imports TaskCount "HOL-Library.Multiset" "HOL-Library.Code_Target_Nat"
begin

unbundle bit_operations_syntax

text \<open>
  No wake-up of the goroutine pool is lost: as long as the pool is open somebody is on the way to every task in a queue,
  and when all goroutines have come to rest every task submitted has been run.
\<close>

section \<open>Who clears starving\<close>

fun is_send :: "wake_pc \<Rightarrow> bool" where
  "is_send (K_Send i) = True"
| "is_send _ = False"

fun clears_notify :: "'a wpool \<Rightarrow> notify_pc \<Rightarrow> bool" where
  "clears_notify p N_Clear = True"
| "clears_notify p (N_Wake k) = is_send k"
| "clears_notify p (N_BWake c k cs ds) = is_send k"
| "clears_notify p (N_IdleLive i) = (\<exists>h\<ge>i. h < nshards p \<and> 0 < liveWorkers (shards p h))"
| "clears_notify p (N_IdleWord i w n) =
     ((\<exists>j. 64 * w \<le> j \<and> j < 64 * n \<and> j < liveWorkers (shards p i)) \<or> (\<exists>h>i. h < nshards p \<and> 0 < liveWorkers (shards p h)))"
| "clears_notify p _ = False"

fun clears :: "'a wpool \<Rightarrow> 'a frame \<Rightarrow> bool" where
  "clears p (Notify s pc) = clears_notify p pc"
| "clears p (Work h i g pc) = (early pc \<or> pc = W_Dec \<or> pc = W_Starv \<or> pc = W_Clear)"
| "clears p _ = False"

lemma clears_grows:
  assumes g: "grows p p'" and "clears p f"
  shows "clears p' f"
proof (cases f)
  case (Notify s pc)
  have n: "nshards p' = nshards p" and l: "\<And>i h. i < liveWorkers (shards p h) \<Longrightarrow> i < liveWorkers (shards p' h)" using grows_facts [OF g] by auto
  show ?thesis
  proof (cases pc)
    case (N_IdleLive i)
    then show ?thesis using assms(2) Notify n l by auto
  next
    case (N_IdleWord i w m)
    then show ?thesis using assms(2) Notify n l by auto
  qed (use assms(2) Notify in auto)
qed (use assms(2) in auto)

lemma idle_words_cover: "j < live \<Longrightarrow> j < 64 * idle_words live"
proof -
  assume "j < live"
  moreover have "64 * ((live + 63) div 64) + (live + 63) mod 64 = live + 63" by simp
  moreover have "(live + 63) mod 64 < 64" by simp
  ultimately show ?thesis unfolding idle_words_def by linarith
qed

lemma idle_words_pos: "idle_words live = 0 \<longleftrightarrow> live = 0"
  by (simp add: idle_words_def div_eq_0_iff)

lemma idle_next_clears: "i \<le> h \<Longrightarrow> h < nshards p \<Longrightarrow> 0 < liveWorkers (shards p h) \<Longrightarrow> \<exists>g \<in> set (idle_next s (nshards p) i). clears p g"
  by (auto simp: idle_next_def)

text \<open>The scan for suspended workers looks at a word without bits: whoever has a place there is under way.\<close>

definition here :: "nat \<Rightarrow> nat \<Rightarrow> 'a wpool \<Rightarrow> bool" where
  "here i w p \<longleftrightarrow> (\<exists>j. 64 * w \<le> j \<and> j < 64 * w + 64 \<and> j < liveWorkers (shards p i))"

lemma clears_notify_next:
  assumes st: "notify ch s pc p = Some (p', new, started)" and "starving p" and "starving p'" and c: "clears p (Notify s pc)"
  shows "(\<exists>g \<in> set new. clears p' g) \<or> sent p' \<noteq> [] \<or> (\<exists>i w n. pc = N_IdleWord i w n \<and> idleWorkers (shards p i) w = 0 \<and> here i w p \<and> p' = p)"
proof (cases pc)
  case (N_Wake k)
  then show ?thesis using st c by (cases k) (auto split: if_splits)
next
  case (N_BWake d k cs ds)
  then show ?thesis using st c by (cases k) (auto split: if_splits)
next
  case (N_IdleLive i)
  then obtain h where h: "i \<le> h" "h < nshards p" "0 < liveWorkers (shards p h)" using c by auto
  let ?n = "idle_words (liveWorkers (shards p i))"
  show ?thesis
  proof (cases "?n = 0")
    case True
    then have "h \<noteq> i" using h(3) by (auto simp: idle_words_pos)
    then show ?thesis using st N_IdleLive True h idle_next_clears [of "i + 1" h p s] by (auto simp: Let_def)
  next
    case False
    have "clears p (Notify s (N_IdleWord i 0 ?n))"
    proof (cases "h = i")
      case True
      then show ?thesis using h(3) idle_words_cover [OF h(3)] by auto
    qed (use h in auto)
    then show ?thesis using st N_IdleLive False by (auto simp: Let_def)
  qed
next
  case (N_IdleWord i w n)
  show ?thesis
  proof (cases "idleWorkers (shards p i) w = 0 \<and> \<not> here i w p")
    case True
    have "(\<exists>j. 64 * (w + 1) \<le> j \<and> j < 64 * n \<and> j < liveWorkers (shards p i)) \<or> (\<exists>h>i. h < nshards p \<and> 0 < liveWorkers (shards p h))"
      using c N_IdleWord True by (fastforce simp: here_def not_less)
    then show ?thesis
    proof
      assume j: "\<exists>j. 64 * (w + 1) \<le> j \<and> j < 64 * n \<and> j < liveWorkers (shards p i)"
      then have "w + 1 < n" by auto
      then show ?thesis using st N_IdleWord True j by auto
    next
      assume "\<exists>h>i. h < nshards p \<and> 0 < liveWorkers (shards p h)"
      then obtain h where "i + 1 \<le> h" "h < nshards p" "0 < liveWorkers (shards p h)" by (metis Suc_eq_plus1 Suc_leI)
      then show ?thesis using st N_IdleWord True idle_next_clears [of "i + 1" h p s] by (cases "w + 1 < n") auto
    qed
  next
    case False
    then show ?thesis using st N_IdleWord by (cases "idleWorkers (shards p i) w = 0") auto
  qed
qed (use assms in \<open>auto split: if_splits\<close>)


lemma clears_next:
  assumes st: "frame_step ch f p = Some (p', new, started)" and "starving p" and "starving p'" and c: "clears p f"
  shows "(\<exists>g \<in> set new \<union> frames started. clears p' g) \<or> sent p' \<noteq> [] \<or>
    (\<exists>s i w n. f = Notify s (N_IdleWord i w n) \<and> idleWorkers (shards p i) w = 0 \<and> here i w p \<and> p' = p)"
proof (cases f)
  case (Notify s pc)
  then show ?thesis using clears_notify_next [of ch s pc p p' new started] assms by auto
next
  case (Work h i g pc)
  then show ?thesis using assms by (cases pc) (auto split: if_splits prod.splits option.splits)
qed (use c in auto)

lemma starving_steps:
  assumes st: "frame_step ch f p = Some (p', new, started)" and "starving p' \<noteq> starving p"
  shows "\<not> starving p' \<and> NotifyAll 0 \<in> set new \<or>
    (\<exists>s. f = Notify s N_Store \<and> p' = p\<lparr>starving := True\<rparr> \<and> new = idle_next s (nshards p) 0)"
proof (cases f)
  case (Notify s pc)
  show ?thesis
  proof (cases pc)
    case (N_Wake k)
    then show ?thesis using assms Notify by (auto simp: same_pool_def split: option.splits sum.splits bool.splits dest!: wakeIdle_kept(1))
  next
    case (N_BWake c k cs ds)
    then show ?thesis using assms Notify by (auto simp: same_pool_def split: option.splits sum.splits bool.splits dest!: wakeIdle_kept(1))
  next
    case (N_Start t)
    then show ?thesis using assms Notify by (auto simp: same_pool_def split: prod.splits option.splits sum.splits dest!: start_kept(1))
  next
    case (N_BStart d t ds)
    then show ?thesis using assms Notify by (auto simp: same_pool_def split: prod.splits option.splits sum.splits dest!: start_kept(1))
  qed (use assms Notify in \<open>auto simp: Let_def split: if_splits prod.splits option.splits\<close>)
next
  case (Work h i g pc)
  then show ?thesis using assms by (cases pc) (auto simp: Let_def split: if_splits prod.splits option.splits list.splits)
next
  case (Submit s pc)
  then show ?thesis using assms by (cases pc) (auto split: if_splits)
next
  case (Help s pc)
  then show ?thesis using assms by (cases pc) (auto split: if_splits prod.splits option.splits)
next
  case (Closing pc)
  then show ?thesis using assms by (cases pc) (auto simp: same_pool_def split: option.splits sum.splits bool.splits dest!: wakeIdle_kept(1))
next
  case (Monitor hs pc)
  then show ?thesis using assms by (cases pc) (auto simp: Let_def split: if_splits prod.splits option.splits)
qed (use assms in auto)

lemma starving_begins:
  assumes "frame_step ch f p = Some (p', new, started)" and "\<not> starving p" and "starving p'" and "frame_ok p f"
  shows "\<exists>g \<in> set new. clears p' g"
  using starving_steps [OF assms(1)] assms(2-4) idle_next_clears [of 0 _ p'] by auto

lemma sent_next:
  assumes st: "frame_step ch f p = Some (p', new, started)" and m: "(h, i, to) \<in> set (sent p)"
  shows "(h, i, to) \<in> set (sent p') \<or> (\<exists>g. f = Work h i g W_Recv \<and> p' = p\<lparr>sent := remove1 (h, i, to) (sent p)\<rparr> \<and> new = (case to of None \<Rightarrow> [] | Some g' \<Rightarrow> [Work h i g' W_Reach]))"
proof (cases "\<exists>h' i' g. f = Work h' i' g W_Recv")
  case True
  then obtain h' i' g where f: "f = Work h' i' g W_Recv" by blast
  then obtain to' where to': "p' = p\<lparr>sent := remove1 (h', i', to') (sent p)\<rparr>" "new = (case to' of None \<Rightarrow> [] | Some g' \<Rightarrow> [Work h' i' g' W_Reach])"
    using recv_step st by (metis frame_step.simps(3))
  then show ?thesis using f m by (cases "(h, i, to) = (h', i', to')") auto
next
  case False
  have "set (sent p) \<subseteq> set (sent p')"
  proof (cases f)
    case (Notify s pc)
    show ?thesis
    proof (cases pc)
      case (N_Wake k)
      then show ?thesis using st Notify by (cases k) (auto simp: Let_def split: if_splits)
    next
      case (N_BWake c k cs ds)
      then show ?thesis using st Notify by (cases k) (auto simp: Let_def split: if_splits)
    next
      case (N_Start t)
      then show ?thesis using st Notify by (auto split: prod.splits option.splits sum.splits dest!: start_kept(5))
    next
      case (N_BStart d t ds)
      then show ?thesis using st Notify by (auto split: prod.splits option.splits sum.splits dest!: start_kept(5))
    qed (use st Notify in \<open>auto simp: Let_def split: if_splits prod.splits option.splits\<close>)
  next
    case (Work h i g pc)
    then show ?thesis using st False by (cases pc) (auto simp: Let_def split: if_splits prod.splits option.splits)
  next
    case (Submit s pc)
    then show ?thesis using st by (cases pc) (auto split: if_splits)
  next
    case (Help s pc)
    then show ?thesis using st by (cases pc) (auto split: if_splits prod.splits option.splits)
  next
    case (Closing pc)
    show ?thesis
    proof (cases pc)
      case (C_Wake s k)
      then show ?thesis using st Closing by (cases k) (auto simp: Let_def split: if_splits)
    qed (use st Closing in auto)
  next
    case (Monitor hs pc)
    then show ?thesis using st by (cases pc) (auto simp: Let_def split: if_splits prod.splits option.splits)
  qed (use st in auto)
  then show ?thesis using m by blast
qed


section \<open>Who comes for a task\<close>

fun minds_notify :: "nat \<Rightarrow> notify_pc \<Rightarrow> bool" where
  "minds_notify head (N_Look pos) = (pos = head)"
| "minds_notify head (N_Limit v) = (v < 2)"
| "minds_notify head N_StarvClosed = False"
| "minds_notify head N_LimClosed = False"
| "minds_notify head N_Monitoring = False"
| "minds_notify head N_MonCas = False"
| "minds_notify head N_Pop = False"
| "minds_notify head (N_IdleLive i) = False"
| "minds_notify head (N_IdleWord i w n) = False"
| "minds_notify head N_Clear = False"
| "minds_notify head _ = True"

fun minds_work :: "nat \<Rightarrow> bool \<Rightarrow> 'a work_pc \<Rightarrow> bool" where
  "minds_work head home (W_TLook pos) = (pos = head)"
| "minds_work head home W_Home = home"
| "minds_work head home (W_HLook pos) = (home \<and> pos = head)"
| "minds_work head home W_Closed = False"
| "minds_work head home W_And = False"
| "minds_work head home W_Recv = False"
| "minds_work head home _ = True"

fun minds :: "'a wpool \<Rightarrow> nat \<Rightarrow> 'a frame \<Rightarrow> bool" where
  "minds p s (Notify s' pc) \<longleftrightarrow> s' = s \<and> minds_notify (q_head (shards p s)) pc"
| "minds p s (NotifyAll i) \<longleftrightarrow> i \<le> s"
| "minds p s (Work h i g pc) \<longleftrightarrow> g = s \<and> minds_work (q_head (shards p s)) (h = s) pc"
| "minds p s (Help s' pc) \<longleftrightarrow> s' = s"
| "minds p s _ \<longleftrightarrow> False"

lemma minds_head: "q_head (shards p' s) = q_head (shards p s) \<Longrightarrow> minds p' s f = minds p s f"
  by (cases f) simp_all

lemma holder_minds: "waking_of s f > 0 \<or> serving_of s f > 0 \<Longrightarrow> minds p s f"
proof (cases f)
  case (Notify s' pc)
  then show "waking_of s f > 0 \<or> serving_of s f > 0 \<Longrightarrow> ?thesis" by (cases pc) (auto simp: holds_serving_def)
next
  case (Work h i g pc)
  then show "waking_of s f > 0 \<or> serving_of s f > 0 \<Longrightarrow> ?thesis" by (cases pc) (auto simp: serves_def)
qed auto

text \<open>
  What can be relied on for shard \<open>s\<close> after a step of frame \<open>f\<close>: the flag, a frame of the step, a message it has sent, or a
  goroutine that the counters of the shard count.
\<close>

definition taken_over :: "nat \<Rightarrow> 'a frame \<Rightarrow> 'a wpool \<Rightarrow> 'a outcome \<Rightarrow> bool" where
  "taken_over s f p r \<longleftrightarrow> (let (p', new, started) = r in
     starving p' \<or> (\<exists>m \<in> set (sent p'). snd (snd m) = Some s) \<or> (\<exists>g \<in> set new \<union> frames started. minds p' s g) \<or>
     p' = p \<and> (waking_of s f = 0 \<and> wakingWorkers (shards p s) \<noteq> 0 \<or> serving_of s f = 0 \<and> servingWorkers (shards p s) \<ge> 2))"

lemma look_current: "pos = q_head sh \<Longrightarrow> look b pos sh = head_written sh"
  by (simp add: look_def)

lemmas minding_simps = taken_over_def Let_def

lemma minds_notify_next:
  assumes st: "notify ch n pc p = Some (p', new, started)" and po: "pool_ok p" and op: "\<not> closed p" and c: "minds p s (Notify n pc)" and h: "head_written (shards p' s)"
  shows "taken_over s (Notify n pc) p (p', new, started)"
proof (cases pc)
  case (N_Wake k)
  then show ?thesis using st c by (cases k) (auto simp: minding_simps split: if_splits)
next
  case (N_BWake d k cs ds)
  then show ?thesis using st c by (cases k) (auto simp: minding_simps borrow_wake_def borrow_start_def split: if_splits list.splits)
next
  case (N_Start t)
  then show ?thesis using st c by (cases t) (auto simp: minding_simps split: if_splits)
next
  case (N_BStart d t ds)
  then show ?thesis using st c by (cases t) (auto simp: minding_simps borrow_start_def split: if_splits list.splits)
next
  case (N_Look pos)
  then show ?thesis using st c h by (auto simp: minding_simps look_current)
next
  case (N_Limit v)
  have "2 \<le> servingLimit (shards p n)" using po by (simp add: pool_ok_def)
  then show ?thesis using N_Limit st c by (auto simp: minding_simps)
qed (use st c op in \<open>auto simp: minding_simps borrow_wake_def borrow_start_def holds_serving_def split: if_splits list.splits\<close>)

lemma minds_next:
  assumes st: "frame_step ch f p = Some (p', new, started)" and po: "pool_ok p" and op: "\<not> closed p" and he: "\<not> helper_exited p'" and c: "minds p s f" and h: "head_written (shards p' s)"
    and s: "s < nshards p"
  shows "taken_over s f p (p', new, started)"
proof (cases f)
  case (Notify n pc)
  then show ?thesis using minds_notify_next [of ch n pc p p' new started s] st po op c h by simp
next
  case (NotifyAll i)
  then show ?thesis using st c s by (auto simp: minding_simps le_less)
next
  case (Work h' i g pc)
  show ?thesis
  proof (cases pc)
    case (W_TLook pos)
    then show ?thesis using st c h Work by (auto simp: minding_simps look_current)
  next
    case (W_HLook pos)
    then show ?thesis using st c h Work by (auto simp: minding_simps look_current)
  next
    case W_Pop
    then show ?thesis using st c Work by (auto simp: minding_simps split: prod.splits option.splits)
  qed (use st c op Work in \<open>auto simp: minding_simps split: if_splits\<close>)
next
  case (Help n pc)
  show ?thesis
  proof (cases pc)
    case H_Pop
    then show ?thesis using st c h Help by (auto simp: minding_simps split: prod.splits option.splits dest!: pop_task_cases)
  qed (use st c he Help in \<open>auto simp: minding_simps split: if_splits\<close>)
qed (use c in auto)


text \<open>Which steps touch a queue.\<close>

definition same_queues :: "'a wpool \<Rightarrow> 'a wpool \<Rightarrow> bool" where
  "same_queues p p' \<longleftrightarrow> (\<forall>s. same_queue (shards p s) (shards p' s))"

definition pops :: "nat \<Rightarrow> 'a wpool \<Rightarrow> 'a wpool \<Rightarrow> bool" where
  "pops s p p' \<longleftrightarrow> head_written (shards p s) \<and> p' = on_shard s (\<lambda>sh. sh\<lparr>q_head := q_head sh + 1\<rparr>) p"

abbreviation head_task :: "nat \<Rightarrow> 'a wpool \<Rightarrow> 'a" where
  "head_task s p \<equiv> fst (q_tasks (shards p s) ! q_head (shards p s))"

lemma on_shard_const:
  "on_shard s (\<lambda>_. shards p s\<lparr>q_head := Suc (q_head (shards p s))\<rparr>) p = on_shard s (\<lambda>sh. sh\<lparr>q_head := Suc (q_head sh)\<rparr>) p"
  by (simp add: on_shard_def)

lemma same_queues_on_shard: "(\<And>sh. q_tasks (f sh) = q_tasks sh \<and> q_head (f sh) = q_head sh) \<Longrightarrow> same_queues p (on_shard s f p)"
  by (simp add: same_queues_def same_queue_def)

lemma same_queues_refl [simp]: "same_queues p p"
  by (simp add: same_queues_def same_queue_def)

lemma queue_steps:
  assumes st: "frame_step ch f p = Some (p', new, started)" and ok: "frame_ok p f" and op: "\<not> closed p"
  shows "(same_queues p p' \<and> (\<forall>s pos. f \<noteq> Submit s (S_Publish pos))) \<or>
    (\<exists>h i g. f = Work h i g W_Pop \<and> pops g p p' \<and> new = [Work h i g (W_Has (head_task g p))] \<and> started = []) \<or>
    (\<exists>s. f = Help s H_Pop \<and> pops s p p' \<and> new = [Help s (H_Run (head_task s p))] \<and> started = []) \<or>
    (\<exists>s t. f = Submit s (S_Push t) \<and> p' = on_shard s (\<lambda>sh. sh\<lparr>q_tasks := q_tasks sh @ [(t, False)]\<rparr>) p \<and>
       new = [Submit s (S_Publish (length (q_tasks (shards p s))))] \<and> started = []) \<or>
    (\<exists>s pos. f = Submit s (S_Publish pos) \<and> p' = on_shard s (\<lambda>sh. sh\<lparr>q_tasks := (q_tasks sh)[pos := (fst (q_tasks sh ! pos), True)]\<rparr>) p \<and>
       new = [Notify s N_Has] \<and> started = [])"
proof (cases f)
  case (Notify s pc)
  have "same_queues p p'"
  proof (cases pc)
    case (N_Wake k)
    then show ?thesis using st Notify by (auto simp: same_queues_def split: option.splits sum.splits bool.splits dest: wakeIdle_kept(2))
  next
    case (N_BWake c k cs ds)
    then show ?thesis using st Notify by (auto simp: same_queues_def split: option.splits sum.splits bool.splits dest: wakeIdle_kept(2))
  next
    case (N_Start t)
    then show ?thesis using st Notify by (auto simp: same_queues_def split: prod.splits option.splits sum.splits dest: start_kept(2))
  next
    case (N_BStart d t ds)
    then show ?thesis using st Notify by (auto simp: same_queues_def split: prod.splits option.splits sum.splits dest: start_kept(2))
  next
    case N_Pop
    then show ?thesis using ok op Notify by simp
  qed (use st Notify in \<open>auto simp: Let_def same_queues_def same_queue_def split: if_splits\<close>)
  then show ?thesis using Notify by simp
next
  case (Work h i g pc)
  show ?thesis
  proof (cases pc)
    case W_Pop
    then show ?thesis using st Work by (auto simp: pops_def on_shard_const split: prod.splits option.splits dest!: pop_task_cases)
  next
    case W_Recv
    then obtain to where "p' = p\<lparr>sent := remove1 (h, i, to) (sent p)\<rparr>" using recv_step st Work by (metis frame_step.simps(3))
    then show ?thesis using Work by (simp add: same_queues_def same_queue_def)
  qed (use st Work in \<open>auto simp: Let_def same_queues_def same_queue_def split: if_splits\<close>)
next
  case (Submit s pc)
  then show ?thesis using st by (cases pc) (auto split: if_splits)
next
  case (Help s pc)
  then show ?thesis using st
    by (cases pc) (auto simp: pops_def on_shard_const same_queues_def same_queue_def split: if_splits prod.splits option.splits dest!: pop_task_cases)
next
  case (Closing pc)
  then show ?thesis using st ok op by (cases pc) (auto simp: same_queues_def same_queue_def)
next
  case (Monitor hs pc)
  then show ?thesis using st by (cases pc) (auto simp: Let_def same_queues_def same_queue_def split: if_splits prod.splits option.splits)
qed (use st in auto)


section \<open>The invariant\<close>

text \<open>The tasks that are on their way: with a goroutine, or in a queue.\<close>

fun held_of :: "'a \<Rightarrow> 'a frame \<Rightarrow> int" where
  "held_of t (Work h i g (W_Has t')) = of_bool (t' = t)"
| "held_of t (Work h i g (W_Look t' pos)) = of_bool (t' = t)"
| "held_of t (Work h i g (W_Run t')) = of_bool (t' = t)"
| "held_of t (Submit s (S_Closed t')) = of_bool (t' = t)"
| "held_of t (Submit s (S_Push t')) = of_bool (t' = t)"
| "held_of t (Help s (H_Run t')) = of_bool (t' = t)"
| "held_of t _ = 0"

definition queued_in :: "'a \<Rightarrow> 'a wshard \<Rightarrow> int" where
  "queued_in t sh = int (count (mset (map fst (drop (q_head sh) (q_tasks sh)))) t)"

definition carried :: "'a \<Rightarrow> 'a wpool \<Rightarrow> int" where
  "carried t p = (\<Sum>s<nshards p. queued_in t (shards p s)) + int (count (mset (ran p)) t) - int (count (mset (submitted p)) t)"

definition counts_inv :: "'a wpool \<Rightarrow> 'a frame list list \<Rightarrow> bool" where
  "counts_inv p gs \<longleftrightarrow> (\<forall>s. wakingWorkers (shards p s) = total (waking_of s) gs + sent_for s p \<and>
     servingWorkers (shards p s) = total (serving_of s) gs + sent_for s p)"

definition places_inv :: "'a wpool \<Rightarrow> 'a frame list list \<Rightarrow> bool" where
  "places_inv p gs \<longleftrightarrow> (\<forall>h i. place h i p + total (under_way h i) gs = 0 \<and> total (worker_of h i) gs = of_bool (i < liveWorkers (shards p h)))"

definition starving_inv :: "'a wpool \<Rightarrow> 'a frame list list \<Rightarrow> bool" where
  "starving_inv p gs \<longleftrightarrow> (starving p \<longrightarrow> sent p \<noteq> [] \<or> (\<exists>f \<in> frames gs. clears p f))"

definition minding_inv :: "'a wpool \<Rightarrow> 'a frame list list \<Rightarrow> bool" where
  "minding_inv p gs \<longleftrightarrow> (\<forall>s < nshards p. head_written (shards p s) \<longrightarrow>
     starving p \<or> (\<exists>m \<in> set (sent p). snd (snd m) = Some s) \<or> (\<exists>f \<in> frames gs. minds p s f))"

definition tasks_inv :: "'a wpool \<Rightarrow> 'a frame list list \<Rightarrow> bool" where
  "tasks_inv p gs \<longleftrightarrow> (\<forall>t. carried t p + total (held_of t) gs = 0) \<and>
     (\<forall>s. q_head (shards p s) \<le> length (q_tasks (shards p s)) \<and>
       (\<forall>pos. q_head (shards p s) \<le> pos \<and> pos < length (q_tasks (shards p s)) \<and> \<not> snd (q_tasks (shards p s) ! pos) \<longrightarrow>
         Submit s (S_Publish pos) \<in> frames gs))"

definition open_inv :: "'a wpool \<Rightarrow> 'a frame list list \<Rightarrow> bool" where
  "open_inv p gs \<longleftrightarrow> pool_ok p \<and> (\<forall>f \<in> frames gs. frame_ok p f) \<and> counts_inv p gs \<and> places_inv p gs \<and> starving_inv p gs \<and>
     minding_inv p gs \<and> tasks_inv p gs"

text \<open>All of this is about a pool that has not been closed, and whose helpers have not been ended by a task.\<close>

fun pool_inv :: "'a wpool \<times> 'a frame list list \<Rightarrow> bool" where
  "pool_inv (p, gs) \<longleftrightarrow> closed p \<or> helper_exited p \<or> open_inv p gs"

lemma under_way_nonneg: "0 \<le> under_way h i f" "0 \<le> worker_of h i f" "0 \<le> waking_of s f" "0 \<le> serving_of s f"
proof -
  have "0 \<le> sending_of h i f" by (cases "(h, i, f)" rule: sending_of.cases) simp_all
  moreover have "0 \<le> early_of h i f" by (cases f) simp_all
  ultimately show "0 \<le> under_way h i f" by (simp add: under_way_def)
qed (cases f; simp)+

lemma counts_step:
  assumes ci: "counts_inv p gs" and j: "j < length gs" "gs ! j = f # fs" and st: "frame_step ch f p = Some (p', new, started)"
  shows "counts_inv p' (gs[j := new @ fs] @ started)"
  unfolding counts_inv_def total_step [OF j]
proof (intro allI)
  fix s
  have "balanced s f p (p', new, started)" by (rule balanced_step [OF st])
  moreover have "wakingWorkers (shards p s) = total (waking_of s) gs + sent_for s p" "servingWorkers (shards p s) = total (serving_of s) gs + sent_for s p"
    using ci by (simp_all add: counts_inv_def)
  ultimately show "wakingWorkers (shards p' s) =
      total (waking_of s) gs - waking_of s f + sum_list (map (waking_of s) new) + total (waking_of s) started + sent_for s p' \<and>
    servingWorkers (shards p' s) =
      total (serving_of s) gs - serving_of s f + sum_list (map (serving_of s) new) + total (serving_of s) started + sent_for s p'"
    by (simp add: balanced_def)
qed

lemma places_step:
  assumes pl: "places_inv p gs" and j: "j < length gs" "gs ! j = f # fs" and st: "frame_step ch f p = Some (p', new, started)"
    and "frame_ok p f" "pool_ok p" "\<not> closed p"
  shows "places_inv p' (gs[j := new @ fs] @ started)"
proof -
  have or: "\<not> idle h i p" if "f = Work h i g W_Or" for h i g
  proof -
    have "under_way h i f \<le> total (under_way h i) gs" using frames_step(1) [OF j] under_way_nonneg by (intro total_ge)
    moreover have "place h i p + total (under_way h i) gs = 0" using pl by (simp add: places_inv_def)
    moreover have "0 \<le> sent_to h i p" by (auto simp: sent_to_def intro!: sum_list_nonneg)
    ultimately show ?thesis using that by (cases "i < liveWorkers (shards p h)") (auto simp: place_def under_way_def)
  qed
  have "moved h i f p (p', new, started)" for h i using moved_step [OF st assms(5-7)] or by blast
  then have "place h i p' + sum_list (map (under_way h i) new) + total (under_way h i) started = place h i p + under_way h i f"
      "sum_list (map (worker_of h i) new) + total (worker_of h i) started - of_bool (i < liveWorkers (shards p' h)) =
         worker_of h i f - of_bool (i < liveWorkers (shards p h))" for h i by (auto simp: moved_def)
  moreover have "place h i p + total (under_way h i) gs = 0" "total (worker_of h i) gs = of_bool (i < liveWorkers (shards p h))" for h i
    using pl by (simp_all add: places_inv_def)
  note facts = this calculation
  show ?thesis unfolding places_inv_def total_step [OF j]
  proof (intro allI conjI)
    fix h i
    show "place h i p' + (total (under_way h i) gs - under_way h i f + sum_list (map (under_way h i) new) + total (under_way h i) started) = 0"
      using facts(1) [of h i] facts(3) [of h i] by linarith
    show "total (worker_of h i) gs - worker_of h i f + sum_list (map (worker_of h i) new) + total (worker_of h i) started =
        of_bool (i < liveWorkers (shards p' h))"
      using facts(2) [of h i] facts(4) [of h i] by linarith
  qed
qed

lemma starving_step:
  assumes sv: "starving_inv p gs" and all: "\<forall>f \<in> frames gs. frame_ok p f" and pl: "places_inv p gs" and j: "j < length gs" "gs ! j = f # fs" and st: "frame_step ch f p = Some (p', new, started)"
    and ok: "frame_ok p f" and po: "pool_ok p" and op: "\<not> closed p"
  shows "starving_inv p' (gs[j := new @ fs] @ started)"
  unfolding starving_inv_def
proof
  assume s': "starving p'"
  note fr = frames_step(1) [OF j] frames_step(2) [OF j, of _ new started] frames_step(3-4) [OF j]
  note stay = clears_grows [OF step_grows [OF st]]
  show "sent p' \<noteq> [] \<or> (\<exists>f \<in> frames (gs[j := new @ fs] @ started). clears p' f)"
  proof (cases "starving p")
    case False
    then show ?thesis using starving_begins [OF st False s' ok] fr(3) by blast
  next
    case True
    then consider m where "m \<in> set (sent p)" | g where "g \<in> frames gs" "g \<noteq> f" "clears p g" | "clears p f"
      using sv unfolding starving_inv_def by (metis list.set_intros(1) neq_Nil_conv)
    then show ?thesis
    proof cases
      case 1
      obtain h i to where m: "m = (h, i, to)" by (cases m)
      have "to \<noteq> None" using po op 1 m by (auto simp: pool_ok_def split: option.splits)
      then obtain g' where "to = Some g'" by blast
      then have "(h, i, to) \<in> set (sent p') \<or> Work h i g' W_Reach \<in> set new" using sent_next [OF st, of h i to] 1 m by auto
      moreover have "clears p' (Work h i g' W_Reach)" by simp
      ultimately show ?thesis using fr(3) [of new started] by (metis list.set(1) empty_iff subsetD)
    next
      case 2
      then show ?thesis using fr(2) stay by blast
    next
      case 3
      from clears_next [OF st True s' 3] show ?thesis
      proof (elim disjE exE conjE)
        assume "\<exists>g \<in> set new \<union> frames started. clears p' g"
        then show ?thesis using fr(3,4) by blast
      next
        fix s i w n assume f: "f = Notify s (N_IdleWord i w n)" and "idleWorkers (shards p i) w = 0" and "here i w p" and p': "p' = p"
        then obtain k where k: "64 * w \<le> k" "k < 64 * w + 64" "k < liveWorkers (shards p i)" "idleWorkers (shards p i) w = 0" by (auto simp: here_def)
        then have "k div 64 = w" by auto
        then have "\<not> idle i k p" using k(4) by (simp add: idle_def)
        moreover have "place i k p + total (under_way i k) gs = 0" using pl by (simp add: places_inv_def)
        ultimately have "sent_to i k p + total (under_way i k) gs = 1" using k(3) by (simp add: place_def)
        then consider "0 < sent_to i k p" | "0 < total (under_way i k) gs" by linarith
        then show ?thesis
        proof cases
          case 1
          then show ?thesis by (auto simp: sent_to_def p')
        next
          case 2
          then obtain g where g: "g \<in> frames gs" "0 < under_way i k g" using total_pos by blast
          moreover have "frame_ok p g" using g(1) all by blast
          ultimately have "clears p g" using op by (cases "(i, k, g)" rule: sending_of.cases) (auto simp: under_way_def split: if_splits)
          moreover have "g \<noteq> f" using g(2) f by (auto simp: under_way_def)
          ultimately show ?thesis using g(1) fr(2) stay by blast
        qed
      qed simp
    qed
  qed
qed


lemma counted:
  assumes ci: "counts_inv p gs" and "wakingWorkers (shards p s) \<noteq> 0 \<and> waking_of s f = 0 \<or> 2 \<le> servingWorkers (shards p s) \<and> serving_of s f = 0"
  shows "(\<exists>m \<in> set (sent p). snd (snd m) = Some s) \<or> (\<exists>g \<in> frames gs. g \<noteq> f \<and> minds p s g)"
proof -
  have "0 \<le> total (waking_of s) gs" "0 \<le> total (serving_of s) gs" by (intro total_nonneg under_way_nonneg)+
  moreover have "0 \<le> sent_for s p" by (auto simp: sent_for_def intro!: sum_list_nonneg)
  moreover have "wakingWorkers (shards p s) = total (waking_of s) gs + sent_for s p" "servingWorkers (shards p s) = total (serving_of s) gs + sent_for s p"
    using ci by (simp_all add: counts_inv_def)
  ultimately consider "0 < sent_for s p" | "0 < total (waking_of s) gs" "waking_of s f = 0" | "0 < total (serving_of s) gs" "serving_of s f = 0"
    using assms(2) by linarith
  then show ?thesis
  proof cases
    case 1
    have "sum_list (map (\<lambda>m. of_bool (snd (snd m) = Some s)) ms) = (0 :: int)" if "\<forall>m \<in> set ms. snd (snd m) \<noteq> Some s" for ms :: "(nat \<times> nat \<times> nat option) list"
      using that by (induction ms) auto
    then show ?thesis using 1 by (auto simp: sent_for_def)
  next
    case 2
    then obtain g where "g \<in> frames gs" "0 < waking_of s g" using total_pos by blast
    then show ?thesis using 2(2) holder_minds [of s g p] by (metis less_irrefl)
  next
    case 3
    then obtain g where "g \<in> frames gs" "0 < serving_of s g" using total_pos by blast
    then show ?thesis using 3(2) holder_minds [of s g p] by (metis less_irrefl)
  qed
qed

lemma head_changes:
  assumes st: "frame_step ch f p = Some (p', new, started)" and ok: "frame_ok p f" and op: "\<not> closed p"
    and "q_head (shards p' s) \<noteq> q_head (shards p s) \<or> head_written (shards p' s) \<and> \<not> head_written (shards p s)"
  shows "\<exists>g \<in> set new. minds p' s g"
  using queue_steps [OF st ok op] assms(4)
  by (auto simp: same_queues_def same_queue_def pops_def head_written_def nth_append split: if_splits)

lemma minding_step:
  assumes mi: "minding_inv p gs" and ci: "counts_inv p gs" and j: "j < length gs" "gs ! j = f # fs" and st: "frame_step ch f p = Some (p', new, started)"
    and ok: "frame_ok p f" and po: "pool_ok p" and op: "\<not> closed p" and he: "\<not> helper_exited p'"
  shows "minding_inv p' (gs[j := new @ fs] @ started)"
  unfolding minding_inv_def
proof (intro allI impI)
  fix s assume s': "s < nshards p'" and h': "head_written (shards p' s)"
  note fr = frames_step(1) [OF j] frames_step(2) [OF j, of _ new started] frames_step(3) [OF j, of new started] frames_step(4) [OF j, of started new]
  let ?goal = "starving p' \<or> (\<exists>m \<in> set (sent p'). snd (snd m) = Some s) \<or> (\<exists>f \<in> frames (gs[j := new @ fs] @ started). minds p' s f)"
  have s: "s < nshards p" using s' grows_facts(1) [OF step_grows [OF st]] by simp
  show ?goal
  proof (cases "q_head (shards p' s) \<noteq> q_head (shards p s) \<or> \<not> head_written (shards p s)")
    case True
    then show ?thesis using head_changes [OF st ok op, of s] h' fr(3) by blast
  next
    case False
    then have hd: "minds p' s g = minds p s g" for g by (intro minds_head) simp
    have message: ?goal if sm: "m \<in> set (sent p)" "snd (snd m) = Some s" for m
    proof -
      obtain h i where m: "m = (h, i, Some s)" using sm(2) by (cases m) auto
      have "(h, i, Some s) \<in> set (sent p') \<or> Work h i s W_Reach \<in> set new" using sent_next [OF st, of h i "Some s"] sm(1) m by auto
      moreover have "minds p' s (Work h i s W_Reach)" "snd (snd (h, i, Some s)) = Some s" by simp_all
      ultimately show ?thesis using fr(3) by blast
    qed
    from False mi s consider "starving p" | m where "m \<in> set (sent p)" "snd (snd m) = Some s" | g where "g \<in> frames gs" "g \<noteq> f" "minds p s g" | "minds p s f"
      unfolding minding_inv_def by blast
    then show ?thesis
    proof cases
      case 1
      then have "starving p' \<or> NotifyAll 0 \<in> set new" using starving_steps [OF st] by (cases "starving p'") auto
      moreover have "minds p' s (NotifyAll 0)" by simp
      ultimately show ?thesis using fr(3) by blast
    next
      case 2
      then show ?thesis using message by blast
    next
      case 3
      then show ?thesis using fr(2) hd by blast
    next
      case 4
      from minds_next [OF st po op he 4 h' s] show ?thesis
        unfolding taken_over_def using counted [OF ci, of s f] message fr(2-4) hd by fastforce
    qed
  qed
qed


section \<open>Tasks\<close>

lemma queued_pop:
  assumes "head_written sh"
  shows "queued_in t (sh\<lparr>q_head := Suc (q_head sh)\<rparr>) = queued_in t sh - of_bool (fst (q_tasks sh ! q_head sh) = t)"
proof -
  have "q_head sh < length (q_tasks sh)" using assms by (simp add: head_written_def)
  then have "drop (q_head sh) (q_tasks sh) = (q_tasks sh ! q_head sh) # drop (Suc (q_head sh)) (q_tasks sh)" by (simp add: Cons_nth_drop_Suc)
  then show ?thesis by (simp add: queued_in_def)
qed

lemma queued_push: "q_head sh \<le> length (q_tasks sh) \<Longrightarrow> queued_in t (sh\<lparr>q_tasks := q_tasks sh @ [(u, b)]\<rparr>) = queued_in t sh + of_bool (u = t)"
  by (simp add: queued_in_def)

lemma queued_publish: "queued_in t (sh\<lparr>q_tasks := (q_tasks sh)[pos := (fst (q_tasks sh ! pos), b)]\<rparr>) = queued_in t sh"
proof -
  have "map fst ((q_tasks sh)[pos := (fst (q_tasks sh ! pos), b)]) = map fst (q_tasks sh)"
    by (cases "pos < length (q_tasks sh)") (simp_all add: map_update list_update_same_conv list_update_beyond)
  then show ?thesis unfolding queued_in_def by (simp add: drop_map [symmetric])
qed

lemma carried_on_shard:
  assumes "s < nshards p"
  shows "carried t (on_shard s f p) = carried t p + queued_in t (f (shards p s)) - queued_in t (shards p s)"
proof -
  have "(\<Sum>i<nshards p. queued_in t (if i = s then f (shards p s) else shards p i)) =
      (\<Sum>i\<in>{..<nshards p} - {s}. queued_in t (shards p i)) + queued_in t (f (shards p s))"
    using assms by (subst sum.remove [of _ s]) auto
  moreover have "(\<Sum>i<nshards p. queued_in t (shards p i)) = (\<Sum>i\<in>{..<nshards p} - {s}. queued_in t (shards p i)) + queued_in t (shards p s)"
    using assms by (subst sum.remove [of _ s]) auto
  ultimately show ?thesis by (simp add: carried_def)
qed

lemma carried_same: "same_queues p p' \<Longrightarrow> nshards p' = nshards p \<Longrightarrow> ran p' = ran p \<Longrightarrow> submitted p' = submitted p \<Longrightarrow> carried t p' = carried t p"
  by (simp add: carried_def queued_in_def same_queues_def same_queue_def)

definition handed_on :: "'a \<Rightarrow> 'a frame \<Rightarrow> 'a wpool \<Rightarrow> 'a outcome \<Rightarrow> bool" where
  "handed_on t f p r \<longleftrightarrow> (let (p', new, started) = r in
     carried t p' + sum_list (map (held_of t) new) + total (held_of t) started = carried t p + held_of t f)"

lemma run_step:
  "carried t (p\<lparr>ran := ran p @ [u]\<rparr>) = carried t p + of_bool (u = t)"
  "carried t (p\<lparr>ran := ran p @ [u], helper_exited := b\<rparr>) = carried t p + of_bool (u = t)"
  by (simp_all add: carried_def)

lemma notify_hands_nothing:
  assumes st: "notify ch s pc p = Some (p', new, started)" and "pc \<noteq> N_Pop"
  shows "ran p' = ran p \<and> submitted p' = submitted p \<and> (\<forall>g \<in> set new \<union> frames started. held_of t g = 0)"
proof (cases pc)
  case (N_Wake k)
  then show ?thesis using st by (auto simp: same_pool_def split: option.splits sum.splits bool.splits dest!: wakeIdle_kept(1))
next
  case (N_BWake c k cs ds)
  then show ?thesis using st by (auto simp: same_pool_def split: option.splits sum.splits bool.splits dest!: wakeIdle_kept(1))
next
  case (N_Start k)
  then show ?thesis using st by (auto simp: same_pool_def split: prod.splits option.splits sum.splits dest!: start_kept(1))
next
  case (N_BStart d k ds)
  then show ?thesis using st by (auto simp: same_pool_def split: prod.splits option.splits sum.splits dest!: start_kept(1))
qed (use assms in \<open>auto simp: Let_def idle_next_def split: if_splits\<close>)

lemma handed_on_nothing:
  assumes "carried t p' = carried t p" and "held_of t f = 0" and "\<forall>g \<in> set new \<union> frames started. held_of t g = 0"
  shows "handed_on t f p (p', new, started)"
proof -
  have "sum_list (map (held_of t) new) = 0" using assms(3) by (auto intro!: sum_list_0 simp: sum_list_0 map_idI cong: map_cong)
  moreover have "total (held_of t) started = 0" using assms(3) by (induction started) (auto cong: map_cong)
  ultimately show ?thesis using assms(1,2) by (simp add: handed_on_def)
qed

lemma handed_on_step:
  assumes st: "frame_step ch f p = Some (p', new, started)" and ok: "frame_ok p f" and op: "\<not> closed p"
    and hl: "\<And>s. q_head (shards p s) \<le> length (q_tasks (shards p s))"
  shows "handed_on t f p (p', new, started)"
  using queue_steps [OF st ok op]
proof (elim disjE exE conjE)
  assume same: "same_queues p p'" and np: "\<forall>s pos. f \<noteq> Submit s (S_Publish pos)"
  have n: "nshards p' = nshards p" using grows_facts(1) [OF step_grows [OF st]] .
  note cs = carried_same [OF same n]
  have sq: "same_queue (shards p s) (shards p' s)" for s using same by (simp add: same_queues_def)
  show ?thesis
  proof (cases f)
    case (Notify s pc)
    then have "pc \<noteq> N_Pop" using ok op by auto
    then show ?thesis using notify_hands_nothing [of ch s pc p p' new started t] st Notify cs by (intro handed_on_nothing) auto
  next
    case (Work h i g pc)
    show ?thesis
    proof (cases pc)
      case W_Recv
      then obtain to where "p' = p\<lparr>sent := remove1 (h, i, to) (sent p)\<rparr>" "new = (case to of None \<Rightarrow> [] | Some g' \<Rightarrow> [Work h i g' W_Reach])" "started = []"
        using recv_step st Work by (metis frame_step.simps(3))
      then show ?thesis using Work W_Recv cs by (intro handed_on_nothing) (auto split: option.splits)
    next
      case W_Pop
      then show ?thesis using sq [of g] st Work
        by (auto simp: handed_on_def same_queue_def split: prod.splits option.splits dest!: pop_task_cases)
    qed (use st Work cs in \<open>auto simp: handed_on_def Let_def run_step split: if_splits\<close>)
  next
    case (Submit s pc)
    then show ?thesis using st np sq [of s] by (cases pc) (auto simp: handed_on_def same_queue_def split: if_splits)
  next
    case (Help s pc)
    then show ?thesis using st sq [of s]
      by (cases pc) (auto simp: handed_on_def run_step same_queue_def split: if_splits prod.splits option.splits dest!: pop_task_cases)
  next
    case (Closing pc)
    then show ?thesis using st ok op cs by (cases pc) (auto simp: handed_on_def)
  next
    case (Monitor hs pc)
    then show ?thesis using st cs
      by (cases pc) (auto simp: handed_on_def Let_def round_next_def split: if_splits prod.splits option.splits)
  qed (use st in \<open>auto simp: handed_on_def\<close>)
next
  fix h i g assume "f = Work h i g W_Pop" "pops g p p'" "new = [Work h i g (W_Has (head_task g p))]" "started = []"
  then show ?thesis using ok by (auto simp: handed_on_def pops_def carried_on_shard queued_pop)
next
  fix s assume "f = Help s H_Pop" "pops s p p'" "new = [Help s (H_Run (head_task s p))]" "started = []"
  then show ?thesis using ok by (auto simp: handed_on_def pops_def carried_on_shard queued_pop)
next
  fix s u assume "f = Submit s (S_Push u)" "p' = on_shard s (\<lambda>sh. sh\<lparr>q_tasks := q_tasks sh @ [(u, False)]\<rparr>) p"
    "new = [Submit s (S_Publish (length (q_tasks (shards p s))))]" "started = []"
  then show ?thesis using ok hl [of s] by (simp add: handed_on_def carried_on_shard queued_push)
next
  fix s pos assume "f = Submit s (S_Publish pos)" "p' = on_shard s (\<lambda>sh. sh\<lparr>q_tasks := (q_tasks sh)[pos := (fst (q_tasks sh ! pos), True)]\<rparr>) p"
    "new = [Notify s N_Has]" "started = []"
  then show ?thesis using ok by (simp add: handed_on_def carried_on_shard queued_publish)
qed


lemma snd_publish: "b < length xs \<Longrightarrow> snd (xs[a := (x, True)] ! b) \<longleftrightarrow> snd (xs ! b) \<or> a = b"
  by (cases "a = b") auto

lemma publish_step:
  assumes j: "j < length gs" "gs ! j = f # fs" and st: "frame_step ch f p = Some (p', new, started)" and ok: "frame_ok p f" and op: "\<not> closed p"
    and hl: "\<And>s. q_head (shards p s) \<le> length (q_tasks (shards p s))"
    and ob: "\<And>s pos. q_head (shards p s) \<le> pos \<Longrightarrow> pos < length (q_tasks (shards p s)) \<Longrightarrow> \<not> snd (q_tasks (shards p s) ! pos) \<Longrightarrow> Submit s (S_Publish pos) \<in> frames gs"
  shows "q_head (shards p' s) \<le> length (q_tasks (shards p' s))"
    and "q_head (shards p' s) \<le> pos \<Longrightarrow> pos < length (q_tasks (shards p' s)) \<Longrightarrow> \<not> snd (q_tasks (shards p' s) ! pos) \<Longrightarrow>
      Submit s (S_Publish pos) \<in> frames (gs[j := new @ fs] @ started)"
proof -
  note fr = frames_step(2) [OF j, of _ new started] frames_step(3) [OF j, of new started]
  show "q_head (shards p' s) \<le> length (q_tasks (shards p' s))"
    using queue_steps [OF st ok op] hl [of s] by (auto simp: same_queues_def same_queue_def pops_def head_written_def)
  assume o: "q_head (shards p' s) \<le> pos" "pos < length (q_tasks (shards p' s))" "\<not> snd (q_tasks (shards p' s) ! pos)"
  have new: "Submit s (S_Publish pos) \<in> set new" if "\<not> (q_head (shards p s) \<le> pos \<and> pos < length (q_tasks (shards p s)) \<and> \<not> snd (q_tasks (shards p s) ! pos))"
    using queue_steps [OF st ok op] o hl [of s] that
    by (auto simp: same_queues_def same_queue_def pops_def nth_append snd_publish split: if_splits)
  moreover have "f \<noteq> Submit s (S_Publish pos)"
    using queue_steps [OF st ok op] o by (auto simp: same_queues_def snd_publish)
  ultimately show "Submit s (S_Publish pos) \<in> frames (gs[j := new @ fs] @ started)"
    using ob [of s pos] fr by blast
qed

lemma tasks_step:
  assumes ti: "tasks_inv p gs" and j: "j < length gs" "gs ! j = f # fs" and st: "frame_step ch f p = Some (p', new, started)"
    and ok: "frame_ok p f" and op: "\<not> closed p"
  shows "tasks_inv p' (gs[j := new @ fs] @ started)"
proof -
  have hl: "q_head (shards p s) \<le> length (q_tasks (shards p s))" for s using ti by (simp add: tasks_inv_def)
  have ob: "Submit s (S_Publish pos) \<in> frames gs"
    if "q_head (shards p s) \<le> pos" "pos < length (q_tasks (shards p s))" "\<not> snd (q_tasks (shards p s) ! pos)" for s pos
    using ti that by (simp add: tasks_inv_def)
  have "carried t p' + total (held_of t) (gs[j := new @ fs] @ started) = 0" for t
  proof -
    have "carried t p + total (held_of t) gs = 0" using ti by (simp add: tasks_inv_def)
    moreover have "handed_on t f p (p', new, started)" by (rule handed_on_step [OF st ok op hl])
    ultimately show ?thesis unfolding total_step [OF j] by (simp add: handed_on_def)
  qed
  then show ?thesis using publish_step [OF j st ok op hl ob] unfolding tasks_inv_def by blast
qed

section \<open>Every reachable state\<close>

lemma open_step:
  assumes iv: "open_inv p gs" and j: "j < length gs" "gs ! j = f # fs" and st: "frame_step ch f p = Some (p', new, started)"
    and op: "\<not> closed p'" and he: "\<not> helper_exited p'"
  shows "open_inv p' (gs[j := new @ fs] @ started)"
proof -
  note g = step_grows [OF st]
  have op': "\<not> closed p" using grows_facts(3) [OF g] op by blast
  have all: "\<forall>f \<in> frames gs. frame_ok p f" and po: "pool_ok p" and parts: "counts_inv p gs" "places_inv p gs" "starving_inv p gs" "minding_inv p gs" "tasks_inv p gs"
    using iv by (simp_all add: open_inv_def)
  have ok: "frame_ok p f" using all frames_step(1) [OF j] by blast
  have "\<forall>f \<in> frames (gs[j := new @ fs] @ started). frame_ok p' f"
    using frames_step(5) [OF j, of new started] step_frames_ok [OF st ok po] frame_ok_grows [OF g] all by blast
  then show ?thesis unfolding open_inv_def
    using step_pool_ok [OF st ok po] counts_step [OF parts(1) j st] places_step [OF parts(2) j st ok po op']
      starving_step [OF parts(3) all parts(2) j st ok po op'] minding_step [OF parts(4,1) j st ok po op' he] tasks_step [OF parts(5) j st ok op'] by blast
qed


lemma open_submit:
  assumes iv: "open_inv p gs" and s: "s < nshards p"
  shows "open_inv (p\<lparr>submitted := submitted p @ [t]\<rparr>) (gs @ [[Submit s (S_Closed t)]])"
proof -
  let ?p = "p\<lparr>submitted := submitted p @ [t]\<rparr>"
  have ok: "frame_ok ?p f = frame_ok p f" for f
  proof (cases f)
    case (Notify s pc)
    then show ?thesis by (cases pc) simp_all
  next
    case (Submit s pc)
    then show ?thesis by (cases pc) simp_all
  next
    case (Closing pc)
    then show ?thesis by (cases pc) simp_all
  qed simp_all
  have clears: "clears ?p f = clears p f" for f
  proof (cases f)
    case (Notify s pc)
    then show ?thesis by (cases pc) simp_all
  qed simp_all
  have minds: "minds ?p s f = minds p s f" for s f by (rule minds_head) simp
  have place: "place h i ?p = place h i p" for h i by (simp add: place_def idle_def sent_to_def)
  have carried: "carried u ?p = carried u p - of_bool (t = u)" for u by (simp add: carried_def)
  have "counts_inv ?p (gs @ [[Submit s (S_Closed t)]])" using iv by (simp add: open_inv_def counts_inv_def sent_for_def)
  moreover have "places_inv ?p (gs @ [[Submit s (S_Closed t)]])" using iv by (simp add: open_inv_def places_inv_def place under_way_def)
  moreover have "starving_inv ?p (gs @ [[Submit s (S_Closed t)]])" using iv by (auto simp: open_inv_def starving_inv_def clears)
  moreover have "minding_inv ?p (gs @ [[Submit s (S_Closed t)]])" using iv by (auto simp: open_inv_def minding_inv_def minds)
  moreover have "tasks_inv ?p (gs @ [[Submit s (S_Closed t)]])" using iv by (auto simp: open_inv_def tasks_inv_def carried)
  moreover have "pool_ok ?p" using iv by (auto simp: open_inv_def pool_ok_def split: option.splits)
  moreover have "\<forall>f \<in> frames (gs @ [[Submit s (S_Closed t)]]). frame_ok ?p f" using iv s by (auto simp: open_inv_def ok)
  ultimately show ?thesis by (simp add: open_inv_def)
qed

lemma open_close:
  assumes iv: "open_inv p gs"
  shows "open_inv p (gs @ [[Closing C_Set]])"
  using iv by (auto simp: open_inv_def counts_inv_def places_inv_def starving_inv_def minding_inv_def tasks_inv_def under_way_def)

lemma pool_inv_step: "pool_inv s \<Longrightarrow> pool_step s t \<Longrightarrow> pool_inv t"
proof -
  assume iv: "pool_inv s" and "pool_step s t"
  from this(2) show ?thesis
  proof (cases rule: pool_step.cases)
    case (call_submit i p gs u)
    then show ?thesis using iv open_submit [of p gs i u] by auto
  next
    case (call_close p gs)
    then show ?thesis using iv open_close [of p gs] by auto
  next
    case (goroutine j gs f fs ch p p' new started)
    note g = grows_facts(3,4) [OF step_grows [OF goroutine(5)]]
    then show ?thesis using iv goroutine(1,2) open_step [OF _ goroutine(3-5)] by auto
  qed
qed

lemma pool_inv_init:
  assumes "pool_init n workers s"
  shows "pool_inv s"
proof -
  let ?p = "new_pool n workers :: 'a wpool"
  have "place h i ?p = 0" for h i by (simp add: place_def idle_def sent_to_def new_pool_def)
  moreover have "carried t ?p = 0" for t :: 'a by (simp add: carried_def queued_in_def new_pool_def)
  moreover have "pool_ok ?p" by (auto simp: pool_ok_def new_pool_def softWorkers_def MaxWorkers_def)
  ultimately have "open_inv ?p []"
    by (auto simp: open_inv_def counts_inv_def places_inv_def starving_inv_def minding_inv_def tasks_inv_def head_written_def new_pool_def sent_for_def)
  then show ?thesis using assms by (simp add: pool_init_def)
qed

interpretation pool_run: inductive_invariant "pool_init n workers" pool_step pool_inv
  by unfold_locales (use pool_inv_init pool_inv_step in blast)+

section \<open>At rest\<close>

text \<open>A goroutine at rest: it has returned, or is a worker that waits for a message.\<close>

fun resting :: "'a wpool \<Rightarrow> 'a frame list \<Rightarrow> bool" where
  "resting p [] = True"
| "resting p [Work h i g W_Recv] = (\<forall>m \<in> set (sent p). \<not> (fst m = h \<and> fst (snd m) = i))"
| "resting p _ = False"

lemma resting_frames: "\<forall>fs \<in> set gs. resting p fs \<Longrightarrow> f \<in> frames gs \<Longrightarrow> \<exists>h i g. f = Work h i g W_Recv \<and> (\<forall>m \<in> set (sent p). \<not> (fst m = h \<and> fst (snd m) = i))"
proof -
  assume r: "\<forall>fs \<in> set gs. resting p fs" and "f \<in> frames gs"
  then obtain fs where "resting p fs" "f \<in> set fs" by (auto simp: frames_def)
  then show ?thesis by (cases "(p, fs)" rule: resting.cases) auto
qed

lemma rest_all_run:
  assumes iv: "open_inv p gs" and r: "\<forall>fs \<in> set gs. resting p fs"
  shows "s < nshards p \<Longrightarrow> q_head (shards p s) = length (q_tasks (shards p s))" and "mset (ran p) = mset (submitted p)"
proof -
  note rf = resting_frames [OF r]
  have parts: "counts_inv p gs" "places_inv p gs" "starving_inv p gs" "minding_inv p gs" "tasks_inv p gs" using iv by (simp_all add: open_inv_def)
  have none: "sent p = []"
  proof (rule ccontr)
    assume "sent p \<noteq> []"
    then obtain h i to where m: "(h, i, to) \<in> set (sent p)" by (metis list.set_intros(1) neq_Nil_conv prod_cases3)
    have "0 < sent_to h i p" using member_le_sum_list [of 1 "map (\<lambda>m. of_bool (fst m = h \<and> fst (snd m) = i) :: int) (sent p)"] m
      by (force simp: sent_to_def sum_list_map_remove1 [OF m] intro!: add_pos_nonneg sum_list_nonneg)
    moreover have "0 \<le> total (under_way h i) gs" by (intro total_nonneg under_way_nonneg)
    moreover have "place h i p + total (under_way h i) gs = 0" using parts(2) by (simp add: places_inv_def)
    ultimately have "i < liveWorkers (shards p h)" by (cases "i < liveWorkers (shards p h)"; cases "idle h i p") (auto simp: place_def)
    then have "0 < total (worker_of h i) gs" using parts(2) by (simp add: places_inv_def)
    then obtain f where "f \<in> frames gs" "0 < worker_of h i f" using total_pos by blast
    then show False using rf [of f] m by auto
  qed
  have "\<not> starving p" using parts(3) none rf unfolding starving_inv_def by fastforce
  then have unwritten: "\<not> head_written (shards p s)" if "s < nshards p" for s using parts(4) none rf that unfolding minding_inv_def by fastforce
  have empty: "q_head (shards p s) = length (q_tasks (shards p s))" if s: "s < nshards p" for s
  proof (rule ccontr)
    assume "q_head (shards p s) \<noteq> length (q_tasks (shards p s))"
    then have "q_head (shards p s) < length (q_tasks (shards p s))" using parts(5) by (metis le_neq_implies_less tasks_inv_def)
    then have "Submit s (S_Publish (q_head (shards p s))) \<in> frames gs" using parts(5) unwritten [OF s] by (auto simp: tasks_inv_def head_written_def)
    then show False using rf by fastforce
  qed
  then show "s < nshards p \<Longrightarrow> q_head (shards p s) = length (q_tasks (shards p s))" by blast
  have "total (held_of t) gs = 0" for t
  proof -
    have "\<forall>f \<in> frames gs. held_of t f = 0" using rf by fastforce
    then show ?thesis by (induction gs) (auto cong: map_cong)
  qed
  moreover have "carried t p = int (count (mset (ran p)) t) - int (count (mset (submitted p)) t)" for t
    using empty by (simp add: carried_def queued_in_def)
  ultimately show "mset (ran p) = mset (submitted p)" using parts(5) by (intro multiset_eqI) (simp add: tasks_inv_def)
qed

end
