(* ===== verification/TaskRest.thy ===== *)
theory TaskRest
  imports TaskWake
begin

text \<open>
  Runs of the goroutine pool, and its properties: in a pool that is open no goroutine waits but a suspended worker, and
  when all have come to rest every task submitted has been run once; and a run in which a task submitted before
  \<^verbatim>\<open>Close\<close> is never run.
\<close>

section \<open>No goroutine is stuck\<close>

lemma sender_room:
  assumes iv: "open_inv p gs" and "f \<in> frames gs" and "0 < sending_of h i f"
  shows "\<forall>m \<in> set (sent p). \<not> (fst m = h \<and> fst (snd m) = i)"
proof (rule ccontr)
  assume "\<not> ?thesis"
  then obtain m where m: "m \<in> set (sent p)" "fst m = h" "fst (snd m) = i" by blast
  have "0 < sent_to h i p" using m(2,3)
    by (auto simp: sent_to_def sum_list_map_remove1 [OF m(1)] intro!: add_pos_nonneg sum_list_nonneg)
  moreover have "under_way h i f \<le> total (under_way h i) gs" using assms(2) under_way_nonneg by (intro total_ge)
  moreover have "0 \<le> early_of h i f" by (cases f) simp_all
  moreover have "place h i p + total (under_way h i) gs = 0" using iv by (simp add: open_inv_def places_inv_def)
  ultimately show False using assms(3)
    by (cases "i < liveWorkers (shards p h)"; cases "idle h i p") (auto simp: place_def under_way_def)
qed

lemma never_stuck:
  assumes iv: "open_inv p gs" and op: "\<not> closed p" and j: "fs \<in> set gs" "fs = f # fs'" and stuck: "frame_step ch f p = None"
  shows "\<exists>h i g. f = Work h i g W_Recv \<and> (\<forall>m \<in> set (sent p). \<not> (fst m = h \<and> fst (snd m) = i))"
proof -
  have f: "f \<in> frames gs" using j unfolding frames_def by (metis list.set_intros(1) UN_I set_concat)
  then have ok: "frame_ok p f" using iv by (simp add: open_inv_def)
  note room = sender_room [OF iv f]
  show ?thesis
  proof (cases f)
    case (Notify s pc)
    show ?thesis
    proof (cases pc)
      case (N_Wake k)
      then show ?thesis using stuck Notify room by (cases k) (fastforce simp: Let_def split: if_splits)+
    next
      case (N_BWake c k cs ds)
      then show ?thesis using stuck Notify room by (cases k) (fastforce simp: Let_def split: if_splits)+
    qed (use stuck Notify in \<open>auto simp: Let_def split: if_splits prod.splits option.splits sum.splits\<close>)
  next
    case (Work h i g pc)
    show ?thesis
    proof (cases pc)
      case W_Recv
      then have "filter (\<lambda>m. fst m = h \<and> fst (snd m) = i) (sent p) = []" using stuck Work by (cases "filter (\<lambda>m. fst m = h \<and> fst (snd m) = i) (sent p)") auto
      then show ?thesis using Work W_Recv by (auto simp: filter_empty_conv)
    qed (use stuck Work in \<open>auto simp: Let_def split: if_splits prod.splits option.splits\<close>)
  next
    case (Submit s pc)
    then show ?thesis using stuck by (cases pc) (auto split: if_splits)
  next
    case (Help s pc)
    then show ?thesis using stuck by (cases pc) (auto split: if_splits prod.splits option.splits)
  next
    case (Closing pc)
    then show ?thesis using stuck ok op by (cases pc) auto
  next
    case (Monitor hs pc)
    then show ?thesis using stuck by (cases pc) (auto simp: Let_def split: if_splits prod.splits option.splits)
  qed (use stuck in auto)
qed

section \<open>Runs\<close>

datatype 'a pool_act = Call_Submit nat 'a | Call_Close | Run nat choice

fun pool_move :: "'a pool_act \<Rightarrow> 'a wpool \<times> 'a frame list list \<Rightarrow> 'a wpool \<times> 'a frame list list" where
  "pool_move (Call_Submit s t) (p, gs) = (if s < nshards p then (p\<lparr>submitted := submitted p @ [t]\<rparr>, gs @ [[Submit s (S_Closed t)]]) else (p, gs))"
| "pool_move Call_Close (p, gs) = (p, gs @ [[Closing C_Set]])"
| "pool_move (Run j ch) (p, gs) =
     (if j < length gs then
        case gs ! j of [] \<Rightarrow> (p, gs)
        | f # fs \<Rightarrow> (case frame_step ch f p of None \<Rightarrow> (p, gs) | Some (p', new, started) \<Rightarrow> (p', gs[j := new @ fs] @ started))
      else (p, gs))"

lemma pool_move_step: "pool_move a s = s \<or> pool_step s (pool_move a s)"
proof (cases s)
  case (Pair p gs)
  show ?thesis
  proof (cases a)
    case (Run j ch)
    show ?thesis
    proof (cases "j < length gs \<and> gs ! j \<noteq> [] \<and> frame_step ch (hd (gs ! j)) p \<noteq> None")
      case True
      then obtain f fs r where "gs ! j = f # fs" "frame_step ch f p = Some r" by (cases "gs ! j") auto
      then show ?thesis using True Pair Run pool_step.goroutine [of j gs f fs ch p] by (cases r) auto
    qed (use Pair Run in \<open>auto split: list.splits option.splits\<close>)
  qed (use Pair in \<open>auto intro: pool_step.call_submit pool_step.call_close\<close>)
qed

lemma pool_moves_steps: "pool_step\<^sup>*\<^sup>* s (fold pool_move as s)"
proof (induction as arbitrary: s)
  case (Cons a as)
  have "pool_step\<^sup>*\<^sup>* s (pool_move a s)" using pool_move_step [of a s] by auto
  then show ?case using Cons.IH [of "pool_move a s"] by simp
qed simp

lemma pool_moves_reach: "reach init pool_step s \<Longrightarrow> reach init pool_step (fold pool_move as s)"
proof (induction as arbitrary: s)
  case (Cons a as)
  have "reach init pool_step (pool_move a s)" using pool_move_step [of a s] Cons.prems reach.reach_step by metis
  then show ?case using Cons.IH by simp
qed simp

text \<open>\<open>n\<close> steps of goroutine \<open>j\<close>.\<close>

definition steps :: "nat \<Rightarrow> nat \<Rightarrow> nat pool_act list" where
  "steps j n = replicate n (Run j \<lparr>random = 0, ring_full = False, stale = False, headroom = False, goexit = False\<rparr>)"

definition one_worker :: "nat wpool \<times> nat frame list list" where
  "one_worker = (new_pool 1 1, [])"

text \<open>
  A task is submitted and starts the worker; while it runs, a second is submitted, which finds no worker to wake and is
  about to set \<^verbatim>\<open>starving\<close>; the worker runs the second task too and suspends. Now the flag is set, and a third task is
  submitted, whose \<^verbatim>\<open>notify\<close> leaves it to whoever clears the flag.
\<close>

definition before_close :: "nat pool_act list" where
  "before_close = Call_Submit 0 1 # steps 0 14 @ steps 1 4 @ Call_Submit 0 2 # steps 2 18 @ steps 1 14 @ steps 2 1 @
     Call_Submit 0 3 # steps 3 7"

text \<open>\<^verbatim>\<open>Close\<close> then ends the suspended worker, and the second \<^verbatim>\<open>notify\<close> finds nobody suspended.\<close>

definition after_close :: "nat pool_act list" where
  "after_close = Call_Close # steps 4 8 @ steps 1 1 @ steps 2 2"


text \<open>One task, from its submission to rest.\<close>

definition one_task :: "nat pool_act list" where
  "one_task = Call_Submit 0 1 # steps 0 14 @ steps 1 13"

text \<open>What is looked at in a state of a run.\<close>

definition pool_view :: "nat wpool \<times> nat frame list list \<Rightarrow> nat frame list list \<times> (nat list \<times> nat list) \<times> (bool \<times> bool) \<times> (nat \<times> nat) \<times> (nat \<times> nat \<times> nat option) list" where
  "pool_view s = (let (p, gs) = s in (gs, (submitted p, ran p), (closed p, helper_exited p), (nshards p, q_head (shards p 0)), sent p))"

lemma one_task_view: "pool_view (fold pool_move one_task one_worker) = ([[], [Work 0 0 0 W_Recv]], ([1], [1]), (False, False), (1, 1), [])"
  by code_simp

lemma before_close_view:
  "pool_view (fold pool_move before_close one_worker) = ([[], [Work 0 0 0 W_Recv], [Notify 0 (N_IdleLive 0)], []], ([1, 2, 3], [1, 2]), (False, False), (1, 2), [])"
  by code_simp

lemma after_close_view:
  "pool_view (fold pool_move after_close (fold pool_move before_close one_worker)) = ([[], [], [], [], []], ([1, 2, 3], [1, 2]), (True, False), (1, 2), [])"
  by code_simp

lemma one_worker_reach: "reach (pool_init 1 1) pool_step (fold pool_move as one_worker)"
  by (rule pool_moves_reach [OF reach.reach_init]) (simp add: pool_init_def one_worker_def)

section \<open>Properties\<close>

text \<open>
  C25. No wake-up is lost while the pool is open, whatever the interleaving of submitters, workers, helpers and the stall
  monitor: when every goroutine has returned or is a worker waiting for a message, the queues are empty and every task
  submitted has been run exactly once. And nobody else ever waits: the only goroutine without a next step is a suspended
  worker without a message, so a send to a worker's channel never blocks. (A helper that a task ends with
  \<^verbatim>\<open>runtime.Goexit\<close> is not replaced, as a worker is, and is excluded.)
\<close>

theorem taskpool_no_lost_wakeup:
  assumes "reach (pool_init n workers) pool_step (p, gs)" and "\<not> closed p" and "\<not> helper_exited p"
  shows "((\<forall>fs \<in> set gs. resting p fs) \<longrightarrow>
      (\<forall>s < nshards p. q_head (shards p s) = length (q_tasks (shards p s))) \<and> mset (ran p) = mset (submitted p)) \<and>
    (\<forall>fs \<in> set gs. \<forall>f fs' ch. fs = f # fs' \<and> frame_step ch f p = None \<longrightarrow>
      (\<exists>h i g. f = Work h i g W_Recv \<and> (\<forall>m \<in> set (sent p). \<not> (fst m = h \<and> fst (snd m) = i))))"
proof -
  have iv: "open_inv p gs" using pool_run.reach_inv [OF assms(1)] assms(2,3) by simp
  show ?thesis using rest_all_run [OF iv] never_stuck [OF iv assms(2)] by blast
qed



theorem taskpool_no_lost_wakeup_witness:
  "\<exists>p gs. reach (pool_init 1 1) pool_step (p, gs) \<and> \<not> closed p \<and> \<not> helper_exited p \<and> submitted p = [1 :: nat] \<and>
     (\<forall>fs \<in> set gs. resting p fs) \<and> [Work 0 0 0 W_Recv] \<in> set gs \<and>
     q_head (shards p 0) = length (q_tasks (shards p 0)) \<and> mset (ran p) = mset [1 :: nat]"
proof -
  obtain p gs where s: "fold pool_move one_task one_worker = (p, gs)" by (cases "fold pool_move one_task one_worker")
  have v: "gs = [[], [Work 0 0 0 W_Recv]]" "\<not> closed p" "\<not> helper_exited p" "sent p = []" "nshards p = 1" "submitted p = [1]"
    using one_task_view unfolding s pool_view_def by auto
  have r: "reach (pool_init 1 1) pool_step (p, gs)" using one_worker_reach [of one_task] s by simp
  have rest: "\<forall>fs \<in> set gs. resting p fs" by (simp add: v)
  then have "q_head (shards p 0) = length (q_tasks (shards p 0))" "mset (ran p) = mset [1 :: nat]"
    using taskpool_no_lost_wakeup [OF r v(2,3)] v(5,6) by simp_all
  then show ?thesis using r v rest by (intro exI [of _ p] exI [of _ gs]) auto
qed

text \<open>
  C26. Not so once the pool is closed: there is a run in which the calls that submit three tasks have pushed them, those of
  the first and the third have returned, the pool is open and nobody is about to close it (a suspended worker and the
  \<^verbatim>\<open>notify\<close> of the second are all that is left); then \<^verbatim>\<open>Close\<close> is called, and all goroutines come to an end without running
  the third task. A submitter that has found no worker sets \<^verbatim>\<open>starving\<close> although the worker has suspended meanwhile; until it has looked
  for suspended workers once more, others leave their tasks to it; and \<^verbatim>\<open>Close\<close> ends the worker before it looks.
\<close>

theorem taskpool_close_leaves_task:
  "\<exists>p gs p' gs'. reach (pool_init 1 1) pool_step (p, gs) \<and> gs = [[], [Work 0 0 0 W_Recv], [Notify 0 (N_IdleLive 0)], []] \<and>
     \<not> closed p \<and> submitted p = [1, 2, 3 :: nat] \<and>
     pool_step\<^sup>*\<^sup>* (p, gs) (p', gs') \<and> closed p' \<and> concat gs' = [] \<and> submitted p' = submitted p \<and> ran p' = [1, 2]"
proof -
  obtain p gs where s: "fold pool_move before_close one_worker = (p, gs)" by (cases "fold pool_move before_close one_worker")
  obtain p' gs' where s': "fold pool_move after_close (p, gs) = (p', gs')" by (cases "fold pool_move after_close (p, gs)")
  have v: "gs = [[], [Work 0 0 0 W_Recv], [Notify 0 (N_IdleLive 0)], []]" "\<not> closed p" "submitted p = [1, 2, 3]"
    using before_close_view unfolding s pool_view_def by auto
  have v': "gs' = [[], [], [], [], []]" "closed p'" "submitted p' = [1, 2, 3]" "ran p' = [1, 2]"
    using after_close_view unfolding s s' pool_view_def by auto
  have "reach (pool_init 1 1) pool_step (p, gs)" using one_worker_reach [of before_close] s by simp
  moreover have "pool_step\<^sup>*\<^sup>* (p, gs) (p', gs')" using pool_moves_steps [of "(p, gs)" after_close] s' by simp
  ultimately show ?thesis using v v' by (intro exI [of _ p] exI [of _ gs] exI [of _ p'] exI [of _ gs']) auto
qed

end
