(* ===== verification/Spec2Isabelle.thy ===== *)
theory Spec2Isabelle
  imports FnetPrelude Bytepool KcpTable FdTable ConnTask ConnIO WsConn H2Props FhProps TaskQueue TaskRest
begin

text \<open>
  \<^bold>\<open>fnet\<close> is an event-driven network library for Go. A reactor waits for ready sockets and turns what happens to a
  connection into bits of a state word; the connection's task, of which at most one runs at a time, takes the bits,
  reads, calls the handler, and writes out what is queued. Buffers come from a pool of arrays in power-of-two classes.
  On top of the engine are protocols: KCP (a reliable protocol over datagrams), WebSocket, HTTP/1 and HTTP/2. Tasks run on
  a pool of goroutines.

  \<^bold>\<open>Conventions.\<close> A struct is a record, a method a function from the state to the state and what the method returns. The
  operations keep the names of the source, with a prefix where two packages use the same name. Machine integers whose
  wrap-around matters are words (\<^verbatim>\<open>u8\<close> to \<^verbatim>\<open>u64\<close>); a counter that the code keeps far from its bounds is an int, and then
  the bound is part of what is proved. Errors are values. A mutex makes the section it guards one step; several
  goroutines are interleaved by inductive step relations over these sections, and what holds in every reachable state
  is shown through the locale \<^verbatim>\<open>inductive_invariant\<close> of the prelude, interpreted once for every such relation.

  \<^bold>\<open>FnetPrelude.\<close> Names of the machine types, \<^verbatim>\<open>encoding/binary\<close>, \<^verbatim>\<open>copy\<close>, serial number arithmetic, and two locales:
  \<^verbatim>\<open>inductive_invariant\<close> (what an initial predicate and a step relation keep holds everywhere) and \<^verbatim>\<open>prefix_codec\<close> (a
  codec whose decoder finds the end of an encoding by itself decodes any concatenation of encodings).

  \<^bold>\<open>Bytepool\<close> (\<^verbatim>\<open>internal/bytepool\<close>). Arrays are named by addresses. No array is in two hands or in the pool and in a hand
  at once (C1); writes append and growth keeps the content; \<^verbatim>\<open>Join\<close> and \<^verbatim>\<open>Keep\<close> neither lose nor repeat a byte.
  The locale \<^verbatim>\<open>append_buffer\<close> is what the protocols rely on.

  \<^bold>\<open>KcpArq, KcpInv, KcpDelivery\<close> (\<^verbatim>\<open>kcp/arq.go\<close>). The ARQ state machine: sending in message and stream mode, input of
  arbitrary packets, acknowledgements, the retransmission timeout, the congestion window, flushing and reassembly.
  Windows and timeouts stay within their bounds whatever the peer sends (C4), packets within the MTU (C5), headers
  decode to what was encoded, the early-stopping acknowledgement loops are the filters they stand for (C7). Over a
  network that loses, duplicates, delays and reorders, what the receiver is given is a prefix of what was sent: whole
  messages in order (C8), bytes in order (C9). Sequence numbers are 32 bits wide and wrap; the sender has fewer than
  \<^verbatim>\<open>2^31\<close> segments under way, which is proved from the windows.

  \<^bold>\<open>KcpSession, KcpCallbacks\<close> (\<^verbatim>\<open>kcp/conn.go\<close>). A session around its ARQ: packets, ticks, writes and closes from any
  number of goroutines. Its callbacks run one at a time and in the promised order, and no wake-up is lost (C2); the reason
  of a close can be lost (\<^verbatim>\<open>kcp_close_reason_lost\<close>).

  \<^bold>\<open>KcpServer, KcpTable\<close> (\<^verbatim>\<open>kcp/server.go\<close>). The options, and the table of sessions: packets, the ticker, and the end of the
  server over any number of such sessions. The table and the counter agree, nothing deadlocks, and what is closed leaves the
  table and has its \<^verbatim>\<open>OnClose\<close> (C3). That the packets of one peer are handled in order is what \<^verbatim>\<open>fnet.UDPHandler\<close> promises.

  \<^bold>\<open>FdTable\<close> (\<^verbatim>\<open>fdtable_unix.go\<close>). The two-level table refines a map (C10), the scan for deadlines is exact (C11), and
  under every interleaving of the atomic operations of scans and of \<^verbatim>\<open>SetDeadline\<close> no deadline is lost (C12).

  \<^bold>\<open>ConnTask\<close> (\<^verbatim>\<open>task_unix.go\<close>). The state word: at most one task (C13), no event lost (C14), under every interleaving.

  \<^bold>\<open>ConnIO\<close> (\<^verbatim>\<open>conn_unix.go\<close>, \<^verbatim>\<open>task_unix.go\<close>). One connection over the buffers of \<^verbatim>\<open>Bytepool\<close>: the socket is a script of
  results of its system calls, the handler a record of scripts of calls it makes. What is sent is what was accepted and
  a graceful close comes after all of it (C15); callbacks come in the promised order (C16); what is received reaches the
  handler without loss or repetition (C17).

  \<^bold>\<open>WsFrame, WsConn\<close> (\<^verbatim>\<open>websocket/frame.go\<close>, \<^verbatim>\<open>websocket/conn.go\<close>). Headers round-trip (C18), the unrolled unmasking loop
  is the bytewise one (C19), the wire holds whole frames with the close frame last (C20), delivered messages are valid
  and \<^verbatim>\<open>OnClose\<close> comes once (C21), and how the data is cut on arrival makes no difference (C22).

  \<^bold>\<open>Httpx\<close> (\<^verbatim>\<open>internal/httpx\<close>). Header maps and the functions of \<^verbatim>\<open>strings\<close>, \<^verbatim>\<open>strconv\<close> and \<^verbatim>\<open>textproto\<close> in use.

  \<^bold>\<open>HTTP/2.\<close> \<^verbatim>\<open>H2Frame\<close> (\<^verbatim>\<open>http2/frame.go\<close>): frames decode to what was written (C23), header blocks are cut into
  fragments (C24), padding is removed. \<^verbatim>\<open>H2Request\<close> (\<^verbatim>\<open>http2/request.go\<close>): the table of canonical names, and what an
  accepted request satisfies (C27). \<^verbatim>\<open>H2Conn\<close> (\<^verbatim>\<open>http2/conn.go\<close>, \<^verbatim>\<open>stream.go\<close>, \<^verbatim>\<open>write.go\<close>, the options of \<^verbatim>\<open>server.go\<close>)
  holds the operations of a connection and its streams; \<^verbatim>\<open>H2Flow\<close>, \<^verbatim>\<open>H2Steps\<close> and \<^verbatim>\<open>H2Serve\<close> show that each of them keeps
  the invariant of the connection, \<^verbatim>\<open>H2System\<close> what each of them sends, \<^verbatim>\<open>H2Reach\<close> interleaves them, and \<^verbatim>\<open>H2Demo\<close>
  evaluates a run. In every reachable state: receive windows add up (C28), send windows are respected (C29), the
  table of streams is consistent (C30), frames are whole and END_STREAM is final (C31), bodies reach the handler (C32);
  \<^verbatim>\<open>writeData\<close> sends all it is given and returns (C33); connection errors end the connection (C34). The HPACK coder of
  \<^verbatim>\<open>golang.org/x/net\<close> is a parameter, \<^verbatim>\<open>url.ParseRequestURI\<close> too.

  \<^bold>\<open>HTTP/1.\<close> \<^verbatim>\<open>FhFramer\<close> (\<^verbatim>\<open>fhttp/framer.go\<close>, the options of \<^verbatim>\<open>server.go\<close>) finds the requests in the data, \<^verbatim>\<open>FhFraming\<close> shows
  that how the data is cut makes no difference (C35) and what a complete message is (C36). \<^verbatim>\<open>FhResponse\<close>
  (\<^verbatim>\<open>fhttp/response.go\<close>) turns the header and the writes of a handler into bytes, \<^verbatim>\<open>FhAnswers\<close> shows that a client can
  delimit them and gets what the handler wrote (C37). \<^verbatim>\<open>FhConn\<close> (\<^verbatim>\<open>fhttp/conn.go\<close>, \<^verbatim>\<open>request.go\<close>, \<^verbatim>\<open>upgrade.go\<close>,
  \<^verbatim>\<open>handoff.go\<close>, the callbacks of \<^verbatim>\<open>server.go\<close>) holds the sections of a connection that run under its lock, \<^verbatim>\<open>FhServe\<close>
  interleaves the callbacks of the engine with workers. \<^verbatim>\<open>FhControl\<close> has the invariant of the queue, the worker and the
  deadline, \<^verbatim>\<open>FhPipeline\<close> that of the data received and the bytes written, \<^verbatim>\<open>FhProps\<close> a run and the properties: there is a
  worker exactly when there is work (C38), and pipelined requests are answered once each and in order (C39).
  \<^verbatim>\<open>http.ReadRequest\<close> is a parameter.

  \<^bold>\<open>The goroutine pool\<close> (\<^verbatim>\<open>taskpool/taskpool.go\<close>). \<^verbatim>\<open>Taskpool\<close> is the queue of a shard, a ring without locks, one atomic
  operation at a time. \<^verbatim>\<open>TaskRing\<close> has its invariant (which cell is free, being written, full or being read, and by
  whom), \<^verbatim>\<open>TaskQueue\<close> the abstract queue it implements and the properties: a goroutine alone finishes its call wherever
  the others stopped (C6), and under every interleaving the ring is that queue, first in first out (C40). \<^verbatim>\<open>TaskWork\<close>
  holds the workers over such queues: submitting, waking, starting and lending of workers, helpers, the stall monitor
  and \<^verbatim>\<open>Close\<close>, again one atomic operation at a time; a goroutine is a stack of calls. \<^verbatim>\<open>TaskCount\<close> shows what each step
  changes in what the counters count and where a worker is, \<^verbatim>\<open>TaskWake\<close> that somebody comes for every task,
  \<^verbatim>\<open>TaskRest\<close> that no wake-up of an open pool is lost (C25) and that \<^verbatim>\<open>Close\<close> can leave a task behind (C26).

  \<^bold>\<open>Bounds and fuel.\<close> There is no fuel: loops are structural recursions or have a termination proof (data left to
  consume); the loop of \<^verbatim>\<open>writeData\<close>, which waits for the client, and those of the framer over chunks and messages are
  partial functions whose return is C33 and part of C35 and C36. The positions of the ring are 64 bits wide, and C6 and
  C40 are about queues to which fewer than \<^verbatim>\<open>2^62\<close> tasks have been pushed, more than any process can push.

  \<^bold>\<open>Not modelled.\<close> The pollers and system calls (\<^verbatim>\<open>poll\<close>, \<^verbatim>\<open>sys_*\<close>): the kernel decides what they do. Start-up and
  shut-down of the reactors and servers. \<^verbatim>\<open>ftls\<close>: a driver of \<^verbatim>\<open>crypto/tls\<close>. The engine for other systems
  (\<^verbatim>\<open>*_std.go\<close>): a goroutine per connection. \<^verbatim>\<open>Serve\<close> and \<^verbatim>\<open>Close\<close> of the KCP server, the
  \<^verbatim>\<open>ResponseWriter\<close> of HTTP/2, the WebSocket handshake, and the handlers themselves, which are arbitrary. Logging,
  statistics and the examples.
\<close>

end
